(* ===== verification/Prelude.thy ===== *)
theory Prelude
  imports Main "HOL-Library.Word"
begin

text \<open>
  Shared vocabulary of the development: machine types, big- and little-endian byte strings as
  numbers, writing a run of bytes into a buffer, and the word lemmas that carry the component
  proofs. Nothing here models code of the repository; the definitions are the reference notions
  that the components' lemmas are stated with.
\<close>

unbundle bit_operations_syntax

type_synonym u8 = "8 word"
type_synonym u16 = "16 word"
type_synonym u32 = "32 word"
type_synonym u64 = "64 word"
type_synonym bytes = "8 word list"

text \<open>Collections: facts about byte strings as numbers, and about well-formed buffers.\<close>

named_theorems endian_simps
named_theorems buffer_simps

section \<open>Byte strings as numbers\<close>

text \<open>The value of a big-endian byte string, and the \<open>n\<close>-byte big-endian string of a number.\<close>

primrec be_acc :: "nat \<Rightarrow> bytes \<Rightarrow> nat" where
  "be_acc a [] = a"
| "be_acc a (b # bs) = be_acc (256 * a + unat b) bs"

definition be_val :: "bytes \<Rightarrow> nat" where
  "be_val bs = be_acc 0 bs"

primrec be_bytes :: "nat \<Rightarrow> nat \<Rightarrow> bytes" where
  "be_bytes 0 v = []"
| "be_bytes (Suc n) v = be_bytes n (v div 256) @ [of_nat v]"

lemma length_be_bytes [simp]: "length (be_bytes n v) = n"
  by (induction n arbitrary: v) auto

lemma be_acc_append: "be_acc a (xs @ ys) = be_acc (be_acc a xs) ys"
  by (induction xs arbitrary: a) auto

lemma be_acc_val: "be_acc a bs = a * 256 ^ length bs + be_val bs"
proof (induction bs arbitrary: a)
  case Nil
  show ?case by (simp add: be_val_def)
next
  case (Cons b bs)
  have "be_acc a (b # bs) = (256 * a + unat b) * 256 ^ length bs + be_val bs"
    using Cons.IH by simp
  moreover have "be_val (b # bs) = unat b * 256 ^ length bs + be_val bs"
    using Cons.IH [of "unat b"] by (simp add: be_val_def)
  ultimately show ?case by (simp add: algebra_simps)
qed

lemma be_val_Nil [simp]: "be_val [] = 0"
  by (simp add: be_val_def)

lemma be_val_Cons: "be_val (b # bs) = unat b * 256 ^ length bs + be_val bs"
  using be_acc_val [of "unat b" bs] by (simp add: be_val_def)

lemma be_val_snoc: "be_val (bs @ [b]) = 256 * be_val bs + unat b"
  by (simp add: be_val_def be_acc_append)

lemma be_val_append: "be_val (xs @ ys) = be_val xs * 256 ^ length ys + be_val ys"
  using be_acc_val [of "be_val xs" ys] by (simp add: be_val_def be_acc_append)

lemma unat_u8_less: "unat (b :: u8) < 256"
  using unsigned_less [of b] by simp

lemma be_val_less: "be_val bs < 256 ^ length bs"
proof (induction bs rule: rev_induct)
  case Nil
  show ?case by simp
next
  case (snoc b bs)
  have "256 * be_val bs + unat b < 256 * (be_val bs + 1)"
    using unat_u8_less [of b] by simp
  also have "\<dots> \<le> 256 * 256 ^ length bs"
    using snoc by simp
  finally show ?case by (simp add: be_val_snoc)
qed

lemma unat_of_nat_u8: "unat (of_nat v :: u8) = v mod 256"
  by (simp add: unat_of_nat)

lemma be_val_be_bytes: "be_val (be_bytes n v) = v mod 256 ^ n"
proof (induction n arbitrary: v)
  case 0
  show ?case by simp
next
  case (Suc n)
  have "be_val (be_bytes (Suc n) v) = 256 * (v div 256 mod 256 ^ n) + v mod 256"
    by (simp add: be_val_snoc Suc.IH unat_of_nat_u8)
  also have "\<dots> = v mod (256 * 256 ^ n)"
    by (simp add: mod_mult2_eq)
  finally show ?case by simp
qed

lemma be_bytes_be_val: "be_bytes (length bs) (be_val bs) = bs"
proof (induction bs rule: rev_induct)
  case Nil
  show ?case by simp
next
  case (snoc b bs)
  have "(256 * be_val bs + unat b) div 256 = be_val bs"
    using unat_u8_less [of b] by simp
  moreover have "(of_nat (256 * be_val bs + unat b) :: u8) = b"
  proof (rule word_unat_eq_iff [THEN iffD2])
    show "unat (of_nat (256 * be_val bs + unat b) :: u8) = unat b"
      using unat_u8_less [of b] by (simp only: unat_of_nat_u8) (simp add: mod_less)
  qed
  ultimately show ?case by (simp add: be_val_snoc snoc)
qed

lemma be_val_inject: "length xs = length ys \<Longrightarrow> be_val xs = be_val ys \<Longrightarrow> xs = ys"
  by (metis be_bytes_be_val)

lemma be_bytes_1 [simp]: "be_bytes (Suc 0) v = [of_nat v]"
  by simp

lemma set_be_bytes_0: "b \<in> set (be_bytes n 0) \<Longrightarrow> b = 0"
  by (induction n) auto

section \<open>Writing into a buffer\<close>

definition write_at :: "'a list \<Rightarrow> nat \<Rightarrow> 'a list \<Rightarrow> 'a list" where
  "write_at xs i ys = take i xs @ ys @ drop (i + length ys) xs"

lemma length_write_at [simp]: "i + length ys \<le> length xs \<Longrightarrow> length (write_at xs i ys) = length xs"
  by (simp add: write_at_def)

lemma take_write_at_before [buffer_simps]: "n \<le> i \<Longrightarrow> i \<le> length xs \<Longrightarrow> take n (write_at xs i ys) = take n xs"
  by (simp add: write_at_def min_def)

lemma take_write_at_end [buffer_simps]:
  "i \<le> length xs \<Longrightarrow> take (i + length ys) (write_at xs i ys) = take i xs @ ys"
  by (simp add: write_at_def)

lemma write_at_Nil [simp]: "write_at xs i [] = xs"
  by (simp add: write_at_def)

section \<open>Words\<close>

lemma pow_256: "(2 :: nat) ^ (m * 8) = 256 ^ m"
  by (simp add: mult.commute [of m] power_mult)

lemma unat_less_64 [simp]: "unat (r :: u64) < 2 ^ 64"
proof -
  have "unat r < 2 ^ LENGTH(64)" by (rule unsigned_less)
  then show ?thesis by simp
qed

lemma unat_less_64_num [simp]: "unat (r :: u64) < 18446744073709551616"
  using unat_less_64 [of r] by simp

lemma u8_eq_iffs: "b = 0 \<longleftrightarrow> unat b = 0" "b = 0xff \<longleftrightarrow> unat b = 255" for b :: u8
  by (simp_all add: unsigned_eq_0_iff) (simp add: word_unat_eq_iff)

lemma unat_ucast: "unat (ucast (w :: 'a::len word) :: 'b::len word) = unat w mod 2 ^ LENGTH('b)"
  by (simp add: unsigned_ucast_eq take_bit_eq_mod)

lemma xor_eq_0_iff: "(a :: 'a::len word) XOR b = 0 \<longleftrightarrow> a = b"
proof
  assume "a XOR b = 0"
  then have "(a XOR b) XOR b = b" by simp
  then show "a = b" by (simp add: xor.assoc)
qed simp

lemma shift_or_byte_64: "push_bit 8 (r :: u64) OR ucast (b :: u8) = r * 256 + ucast b"
proof -
  have "push_bit 8 r AND ucast b = 0"
    by (rule bit_eqI) (auto simp: bit_simps dest: bit_imp_le_length)
  then have "push_bit 8 r OR ucast b = push_bit 8 r + ucast b"
    by (simp add: disjunctive_add_eq_or)
  then show ?thesis
    by (simp add: push_bit_eq_mult)
qed

lemma unat_and_mask: "unat (w AND mask n) = unat w mod 2 ^ n"
  for w :: "'a::len word"
  by (simp only: take_bit_eq_mask [symmetric] unsigned_take_bit_eq) (simp only: take_bit_eq_mod)

lemma drop_bit_eq_0_iff: "drop_bit n w = 0 \<longleftrightarrow> unat w < 2 ^ n"
  for w :: "'a::len word"
proof -
  have "unat (drop_bit n w) = unat w div 2 ^ n"
    by (simp only: unat_drop_bit_eq) (simp only: drop_bit_eq_div)
  then show ?thesis by (metis div_eq_0_iff power_not_zero unsigned_eq_0_iff zero_neq_numeral)
qed

lemma push_bit_or_eq:
  fixes v w :: "'a::len word"
  assumes "unat w < 2 ^ n"
  shows "push_bit n v OR w = v * 2 ^ n + w"
proof -
  have "take_bit n w = w"
    using assms by (intro word_unat_eq_iff [THEN iffD2]) (simp add: unsigned_take_bit_eq take_bit_nat_eq_self)
  then have bound: "bit w i \<Longrightarrow> i < n" for i
    by (metis bit_take_bit_iff)
  have "push_bit n v AND w = 0"
    by (intro bit_eqI) (auto simp: bit_simps dest: bound)
  then have "push_bit n v + w = push_bit n v OR w"
    by (rule disjunctive_add_eq_or)
  then show ?thesis by (simp add: push_bit_eq_mult)
qed

lemma bit_iff_unat: "bit w n \<longleftrightarrow> odd (unat w div 2 ^ n)" for w :: "'a::len word"
proof -
  have "bit (unat w) n = bit w n" by (simp add: bit_unsigned_iff)
  then show ?thesis by (simp only: bit_iff_odd [of "unat w" n])
qed

lemma and_0x80_u8: "(b :: u8) AND 0x80 = 0 \<longleftrightarrow> unat b < 128"
proof -
  have "(b AND 0x80 = 0) = (\<not> bit b 7)"
    using bit_iff_and_push_bit_not_eq_0 [of b 7] by simp
  also have "\<dots> = (unat b < 128)"
  proof -
    have "unat b < 256" using unsigned_less [of b] by simp
    then have "unat b div 128 = (if unat b < 128 then 0 else 1)" by auto
    then show ?thesis by (simp add: bit_iff_unat)
  qed
  finally show ?thesis .
qed

lemma unat_and_0x7f: "unat ((b :: u8) AND 0x7f) = unat b mod 128"
proof -
  have "(0x7f :: u8) = mask 7" by (simp add: mask_eq_exp_minus_1)
  then show ?thesis using unat_and_mask [of b 7] by simp
qed

lemma take_write_at_within [buffer_simps]:
  assumes "i + length ys \<le> n"
  shows "take n (write_at xs i ys) = write_at (take n xs) i ys"
proof -
  have le: "i \<le> n" "length (take i xs) \<le> n" "length ys \<le> n - length (take i xs)" using assms by auto
  have t: "take n (take i xs) = take i xs" "take i (take n xs) = take i xs"
    using le by (simp_all only: take_take min_absorb1 min_absorb2)
  have tl: "take (n - length (take i xs) - length ys) (drop (i + length ys) xs)
            = drop (i + length ys) (take n xs)"
    by (cases "i \<le> length xs") (simp_all add: drop_take)
  show ?thesis
    unfolding write_at_def by (simp only: take_append t tl take_all [OF le(3)])
qed

end
