(* ===== verification/Mem.thy ===== *)
theory Mem
  imports Prelude
begin

text \<open>
  \<^verbatim>\<open>crypto/mem.c\<close>: the allocation wrappers and the C string helpers of BoringSSL.

  The C library's \<^verbatim>\<open>malloc\<close> is the environment: \<open>al t n\<close> is its answer to the request
  number \<open>t\<close> for \<open>n\<close> bytes, \<open>None\<close> for NULL or the (arbitrary) contents of the fresh block.
  No object is larger than \<^verbatim>\<open>PTRDIFF_MAX\<close>, so a request of \<open>2 ^ 63\<close> bytes or more is refused.
  A pointer returned by \<open>OPENSSL_malloc\<close> stands for a \<open>heap_block\<close>: the size stored in the
  8-byte prefix and the bytes behind it. \<^verbatim>\<open>size_t\<close> is a natural number with the wrap-around at
  \<open>2 ^ 64\<close> written out.
\<close>

type_synonym malloc_env = "nat \<Rightarrow> nat \<Rightarrow> (nat \<Rightarrow> u8) option"

definition c_malloc :: "malloc_env \<Rightarrow> nat \<Rightarrow> nat \<Rightarrow> bytes option" where
  "c_malloc al t n = (if n < 2 ^ 63 then map_option (\<lambda>f. map f [0..<n]) (al t n) else None)"

record heap_block =
  hb_size :: nat
  hb_bytes :: bytes

abbreviation (input) OPENSSL_MALLOC_PREFIX :: nat where
  "OPENSSL_MALLOC_PREFIX \<equiv> 8"

definition OPENSSL_malloc :: "malloc_env \<Rightarrow> nat \<Rightarrow> nat \<Rightarrow> heap_block option" where
  "OPENSSL_malloc al t sz =
     (case c_malloc al t ((sz + OPENSSL_MALLOC_PREFIX) mod 2 ^ 64) of
        None \<Rightarrow> None
      | Some ptr \<Rightarrow> Some \<lparr>hb_size = sz, hb_bytes = drop OPENSSL_MALLOC_PREFIX ptr\<rparr>)"

text \<open>
  \<open>memcpy\<close> of \<open>to_copy\<close> bytes to the start of a block. Both blocks hold that many bytes whenever
  their sizes are truthful (\<open>block_ok\<close> below).
\<close>

definition OPENSSL_realloc :: "malloc_env \<Rightarrow> nat \<Rightarrow> heap_block option \<Rightarrow> nat \<Rightarrow> heap_block option" where
  "OPENSSL_realloc al t orig_ptr new_size =
     (case orig_ptr of
        None \<Rightarrow> OPENSSL_malloc al t new_size
      | Some orig \<Rightarrow>
          (let old_size = hb_size orig in
           case OPENSSL_malloc al t new_size of
             None \<Rightarrow> None
           | Some ret \<Rightarrow>
               (let to_copy = (if old_size < new_size then old_size else new_size)
                in Some (ret\<lparr>hb_bytes := take to_copy (hb_bytes orig) @ drop to_copy (hb_bytes ret)\<rparr>))))"

text \<open>\<open>CRYPTO_memcmp\<close> ORs the differences of all bytes, whatever they are.\<close>

fun memcmp_loop :: "u8 \<Rightarrow> bytes \<Rightarrow> bytes \<Rightarrow> nat \<Rightarrow> u8" where
  "memcmp_loop x (a # as) (b # bs) (Suc n) = memcmp_loop (x OR (a XOR b)) as bs n"
| "memcmp_loop x _ _ _ = x"

definition CRYPTO_memcmp :: "bytes \<Rightarrow> bytes \<Rightarrow> nat \<Rightarrow> u8" where
  "CRYPTO_memcmp a b len = memcmp_loop 0 a b len"

text \<open>FNV-1a.\<close>

primrec hash32_loop :: "u32 \<Rightarrow> bytes \<Rightarrow> u32" where
  "hash32_loop h [] = h"
| "hash32_loop h (b # bs) = hash32_loop ((h XOR ucast b) * 16777619) bs"

definition OPENSSL_hash32 :: "bytes \<Rightarrow> u32" where
  "OPENSSL_hash32 ptr = hash32_loop 2166136261 ptr"

text \<open>
  A \<^verbatim>\<open>char *\<close> is the bytes from the pointer to the end of its object. Reading past the end is
  undefined in C and \<open>None\<close> here.
\<close>

fun OPENSSL_strnlen :: "bytes \<Rightarrow> nat \<Rightarrow> nat option" where
  "OPENSSL_strnlen s 0 = Some 0"
| "OPENSSL_strnlen [] (Suc n) = None"
| "OPENSSL_strnlen (c # s) (Suc n) = (if c = 0 then Some 0 else map_option Suc (OPENSSL_strnlen s n))"

fun c_strlen :: "bytes \<Rightarrow> nat option" where
  "c_strlen [] = None"
| "c_strlen (c # s) = (if c = 0 then Some 0 else map_option Suc (c_strlen s))"

definition OPENSSL_memdup :: "malloc_env \<Rightarrow> nat \<Rightarrow> bytes \<Rightarrow> bytes option" where
  "OPENSSL_memdup al t data =
     (if length data = 0 then None
      else case OPENSSL_malloc al t (length data) of
             None \<Rightarrow> None
           | Some ret \<Rightarrow> Some (data @ drop (length data) (hb_bytes ret)))"

definition OPENSSL_strndup :: "malloc_env \<Rightarrow> nat \<Rightarrow> bytes \<Rightarrow> nat \<Rightarrow> bytes option" where
  "OPENSSL_strndup al t str sz =
     (case OPENSSL_strnlen str sz of
        None \<Rightarrow> None
      | Some sz \<Rightarrow>
          (let alloc_size = (sz + 1) mod 2 ^ 64 in
           if alloc_size < sz then None
           else case OPENSSL_malloc al t alloc_size of
                  None \<Rightarrow> None
                | Some ret \<Rightarrow> Some (take sz str @ [0] @ drop (sz + 1) (hb_bytes ret))))"

definition OPENSSL_strdup :: "malloc_env \<Rightarrow> nat \<Rightarrow> bytes \<Rightarrow> bytes option" where
  "OPENSSL_strdup al t s =
     (case c_strlen s of
        None \<Rightarrow> None
      | Some l \<Rightarrow>
          (let len = (l + 1) mod 2 ^ 64 in
           case OPENSSL_malloc al t len of
             None \<Rightarrow> None
           | Some ret \<Rightarrow> Some (take len s @ drop len (hb_bytes ret))))"

text \<open>\<open>OPENSSL_strlcpy\<close> and \<open>OPENSSL_strlcat\<close>: the new contents of \<open>dst\<close> and the result.\<close>

fun strlcpy_loop :: "bytes \<Rightarrow> bytes \<Rightarrow> nat \<Rightarrow> (bytes \<times> nat) option" where
  "strlcpy_loop dst src 0 = map_option (\<lambda>n. (dst, n)) (c_strlen src)"
| "strlcpy_loop [] src (Suc n) = None"
| "strlcpy_loop (d # dst) [] (Suc n) = None"
| "strlcpy_loop (d # dst) (c # src) (Suc n) =
     (if 1 < Suc n \<and> c \<noteq> 0
      then map_option (\<lambda>(dst', l). (c # dst', Suc l)) (strlcpy_loop dst src n)
      else map_option (\<lambda>l. (0 # dst, l)) (c_strlen (c # src)))"

definition OPENSSL_strlcpy :: "bytes \<Rightarrow> bytes \<Rightarrow> nat \<Rightarrow> (bytes \<times> nat) option" where
  "OPENSSL_strlcpy dst src dst_size = strlcpy_loop dst src dst_size"

fun OPENSSL_strlcat :: "bytes \<Rightarrow> bytes \<Rightarrow> nat \<Rightarrow> (bytes \<times> nat) option" where
  "OPENSSL_strlcat dst src 0 = OPENSSL_strlcpy dst src 0"
| "OPENSSL_strlcat [] src (Suc n) = None"
| "OPENSSL_strlcat (d # dst) src (Suc n) =
     (if d \<noteq> 0 then map_option (\<lambda>(dst', l). (d # dst', Suc l)) (OPENSSL_strlcat dst src n)
      else OPENSSL_strlcpy (d # dst) src (Suc n))"

definition OPENSSL_tolower :: "int \<Rightarrow> int" where
  "OPENSSL_tolower c = (if 65 \<le> c \<and> c \<le> 90 then c + 32 else c)"

text \<open>\<^verbatim>\<open>char\<close> is signed on the platforms of the application, so \<open>a[i]\<close> promotes with its sign.\<close>

fun OPENSSL_strcasecmp :: "bytes \<Rightarrow> bytes \<Rightarrow> int option" where
  "OPENSSL_strcasecmp (a # as) (b # bs) =
     (let aa = OPENSSL_tolower (sint a); bb = OPENSSL_tolower (sint b) in
      if aa < bb then Some (-1) else if aa > bb then Some 1 else if aa = 0 then Some 0
      else OPENSSL_strcasecmp as bs)"
| "OPENSSL_strcasecmp _ _ = None"

fun OPENSSL_strncasecmp :: "bytes \<Rightarrow> bytes \<Rightarrow> nat \<Rightarrow> int option" where
  "OPENSSL_strncasecmp as bs 0 = Some 0"
| "OPENSSL_strncasecmp (a # as) (b # bs) (Suc n) =
     (let aa = OPENSSL_tolower (sint a); bb = OPENSSL_tolower (sint b) in
      if aa < bb then Some (-1) else if aa > bb then Some 1 else if aa = 0 then Some 0
      else OPENSSL_strncasecmp as bs n)"
| "OPENSSL_strncasecmp _ _ (Suc n) = None"

section \<open>Lemmas\<close>

text \<open>An allocator that never fails.\<close>

definition al_total :: "malloc_env \<Rightarrow> bool" where
  "al_total al \<longleftrightarrow> (\<forall>t n. al t n \<noteq> None)"

lemma OPENSSL_malloc_succeeds: "al_total al \<Longrightarrow> n + 8 < 2 ^ 63 \<Longrightarrow> OPENSSL_malloc al t n \<noteq> None"
  by (auto simp: OPENSSL_malloc_def c_malloc_def al_total_def split: option.splits)

lemma length_c_malloc: "c_malloc al t n = Some blk \<Longrightarrow> length blk = n"
  by (auto simp: c_malloc_def split: if_splits)

text \<open>A block whose prefix tells the truth about its length, and which is a C object.\<close>

definition block_ok :: "heap_block \<Rightarrow> bool" where
  "block_ok h \<longleftrightarrow> length (hb_bytes h) = hb_size h \<and> hb_size h + 8 < 2 ^ 63"

lemma OPENSSL_malloc_block:
  assumes "OPENSSL_malloc al t n = Some h" and "n + 8 < 2 ^ 64"
  shows "block_ok h" and "hb_size h = n"
proof -
  from assms obtain blk where blk: "c_malloc al t (n + 8) = Some blk"
    and h: "h = \<lparr>hb_size = n, hb_bytes = drop 8 blk\<rparr>"
    by (auto simp: OPENSSL_malloc_def split: option.splits)
  then show "hb_size h = n" by simp
  from blk have "n + 8 < 2 ^ 63"
    by (simp add: c_malloc_def split: if_splits)
  then show "block_ok h"
    using length_c_malloc [OF blk] h by (simp add: block_ok_def)
qed

lemma OPENSSL_realloc_block:
  assumes "OPENSSL_realloc al t (Some orig) n = Some h" and "n + 8 < 2 ^ 64" and "block_ok orig"
  shows "block_ok h" and "hb_size h = n"
    and "take (min (hb_size orig) n) (hb_bytes h) = take (min (hb_size orig) n) (hb_bytes orig)"
proof -
  from assms(1) obtain ret where ret: "OPENSSL_malloc al t n = Some ret"
    and h: "h = ret\<lparr>hb_bytes := take (min (hb_size orig) n) (hb_bytes orig)
                               @ drop (min (hb_size orig) n) (hb_bytes ret)\<rparr>"
    by (auto simp: OPENSSL_realloc_def Let_def min_def split: option.splits if_splits)
  from OPENSSL_malloc_block [OF ret assms(2)] assms(3) h
  show "block_ok h" and "hb_size h = n"
    and "take (min (hb_size orig) n) (hb_bytes h) = take (min (hb_size orig) n) (hb_bytes orig)"
    by (auto simp: block_ok_def)
qed

lemma memcmp_loop_zero:
  "length as = n \<Longrightarrow> length bs = n \<Longrightarrow> memcmp_loop x as bs n = 0 \<longleftrightarrow> x = 0 \<and> as = bs"
proof (induction x as bs n rule: memcmp_loop.induct)
  case (1 x a as b bs n)
  then show ?case by (auto simp: or_eq_0_iff xor_eq_0_iff)
qed auto

lemma CRYPTO_memcmp_eq_0:
  "length a = n \<Longrightarrow> length b = n \<Longrightarrow> CRYPTO_memcmp a b n = 0 \<longleftrightarrow> a = b"
  by (simp add: CRYPTO_memcmp_def memcmp_loop_zero)

lemma OPENSSL_strnlen_bound: "OPENSSL_strnlen s n = Some k \<Longrightarrow> k \<le> n \<and> k \<le> length s"
  by (induction s n arbitrary: k rule: OPENSSL_strnlen.induct) (fastforce split: if_splits)+

lemma OPENSSL_strnlen_in_range: "n \<le> length s \<Longrightarrow> \<exists>k. OPENSSL_strnlen s n = Some k"
  by (induction s n rule: OPENSSL_strnlen.induct) auto

section \<open>Properties\<close>

text \<open>
  \<open>CRYPTO_memcmp\<close>, which looks at every byte whatever the earlier ones were, returns zero exactly
  when the two buffers of the given length are equal.
\<close>

lemma memcmp_decides_equality:
  assumes "length a = n" and "length b = n"
  shows "CRYPTO_memcmp a b n = 0 \<longleftrightarrow> a = b"
  using assms by (rule CRYPTO_memcmp_eq_0)

text \<open>
  For a size that does not overflow with its prefix, \<open>OPENSSL_realloc\<close> returns a block that really
  has the requested size and starts with as much of the old contents as fits.
\<close>

lemma realloc_keeps_contents:
  assumes "OPENSSL_realloc al t (Some orig) n = Some h" and "n + 8 < 2 ^ 64" and "block_ok orig"
  shows "block_ok h \<and> hb_size h = n \<and>
         take (min (hb_size orig) n) (hb_bytes h) = take (min (hb_size orig) n) (hb_bytes orig)"
  using OPENSSL_realloc_block [OF assms] by blast

text \<open>
  Without that bound the addition of the prefix size wraps: a request for \<open>2 ^ 64 - 8\<close> bytes is
  answered with a block that claims that size and has no bytes.
\<close>

lemma malloc_size_wraps:
  "OPENSSL_malloc (\<lambda>_ _. Some (\<lambda>_. 0)) t (2 ^ 64 - 8) = Some \<lparr>hb_size = 2 ^ 64 - 8, hb_bytes = []\<rparr>"
  by (simp add: OPENSSL_malloc_def c_malloc_def)

end
