(* ===== verification/Cbs.thy ===== *)
theory Cbs
  imports Mem
begin

text \<open>
  \<^verbatim>\<open>crypto/bytestring/cbs.c\<close>, part 1: the byte string reader.

  A \<^verbatim>\<open>CBS\<close> (a pointer and a length) is the list of the bytes it covers: advancing \<open>data\<close> by \<open>n\<close>
  and lowering \<open>len\<close> by \<open>n\<close> is \<open>drop n\<close>, and a pointer handed out with a length is the bytes it
  points at. A reader maps the CBS to what it stores in its out-parameters (\<open>None\<close> when it returns
  0) and the CBS it leaves behind; the cursor is returned on failure too, because some readers have
  moved it by then. An out-parameter that a failed call has partly written is not part of the
  result.
\<close>

type_synonym cbs = bytes
type_synonym 'a cbs_reader = "cbs \<Rightarrow> 'a option \<times> cbs"

definition CBS_init :: "bytes \<Rightarrow> nat \<Rightarrow> cbs" where
  "CBS_init data len = take len data"

definition cbs_get :: "nat \<Rightarrow> bytes cbs_reader" where
  "cbs_get n cbs = (if length cbs < n then (None, cbs) else (Some (take n cbs), drop n cbs))"

definition CBS_skip :: "nat \<Rightarrow> unit cbs_reader" where
  "CBS_skip len cbs =
     (case cbs_get len cbs of (None, cbs) \<Rightarrow> (None, cbs) | (Some dummy, cbs) \<Rightarrow> (Some (), cbs))"

definition CBS_data :: "cbs \<Rightarrow> bytes" where
  "CBS_data cbs = cbs"

definition CBS_len :: "cbs \<Rightarrow> nat" where
  "CBS_len cbs = length cbs"

text \<open>\<open>CBS_stow\<close> yields the result code, \<open>*out_ptr\<close> and \<open>*out_len\<close>.\<close>

definition CBS_stow :: "malloc_env \<Rightarrow> nat \<Rightarrow> cbs \<Rightarrow> bool \<times> bytes option \<times> nat" where
  "CBS_stow al t cbs =
     (if length cbs = 0 then (True, None, 0)
      else case OPENSSL_memdup al t cbs of
             None \<Rightarrow> (False, None, 0)
           | Some out_ptr \<Rightarrow> (True, Some out_ptr, length cbs))"

definition CBS_strdup :: "malloc_env \<Rightarrow> nat \<Rightarrow> cbs \<Rightarrow> bytes option" where
  "CBS_strdup al t cbs = OPENSSL_strndup al t cbs (length cbs)"

definition CBS_contains_zero_byte :: "cbs \<Rightarrow> bool" where
  "CBS_contains_zero_byte cbs = list_ex (\<lambda>b. b = 0) cbs"

definition CBS_mem_equal :: "cbs \<Rightarrow> bytes \<Rightarrow> nat \<Rightarrow> bool" where
  "CBS_mem_equal cbs data len =
     (if len \<noteq> length cbs then False else CRYPTO_memcmp cbs data len = 0)"

primrec cbs_get_u_loop :: "u64 \<Rightarrow> bytes \<Rightarrow> u64" where
  "cbs_get_u_loop result [] = result"
| "cbs_get_u_loop result (d # data) = cbs_get_u_loop (push_bit 8 result OR ucast d) data"

definition cbs_get_u :: "nat \<Rightarrow> u64 cbs_reader" where
  "cbs_get_u len cbs =
     (case cbs_get len cbs of
        (None, cbs) \<Rightarrow> (None, cbs)
      | (Some data, cbs) \<Rightarrow> (Some (cbs_get_u_loop 0 data), cbs))"

definition CBS_get_u8 :: "u8 cbs_reader" where
  "CBS_get_u8 cbs =
     (case cbs_get 1 cbs of
        (None, cbs) \<Rightarrow> (None, cbs)
      | (Some v, cbs) \<Rightarrow> (Some (v ! 0), cbs))"

definition CBS_get_u16 :: "u16 cbs_reader" where
  "CBS_get_u16 cbs =
     (case cbs_get_u 2 cbs of (None, cbs) \<Rightarrow> (None, cbs) | (Some v, cbs) \<Rightarrow> (Some (ucast v), cbs))"

definition CBS_get_u24 :: "u32 cbs_reader" where
  "CBS_get_u24 cbs =
     (case cbs_get_u 3 cbs of (None, cbs) \<Rightarrow> (None, cbs) | (Some v, cbs) \<Rightarrow> (Some (ucast v), cbs))"

definition CBS_get_u32 :: "u32 cbs_reader" where
  "CBS_get_u32 cbs =
     (case cbs_get_u 4 cbs of (None, cbs) \<Rightarrow> (None, cbs) | (Some v, cbs) \<Rightarrow> (Some (ucast v), cbs))"

definition CBS_get_u64 :: "u64 cbs_reader" where
  "CBS_get_u64 cbs = cbs_get_u 8 cbs"

text \<open>\<^verbatim>\<open>CRYPTO_bswap2/4/8\<close> of \<^verbatim>\<open>crypto/internal.h\<close>, as its portable branch spells them.\<close>

definition CRYPTO_bswap2 :: "u16 \<Rightarrow> u16" where
  "CRYPTO_bswap2 x = drop_bit 8 x OR push_bit 8 x"

definition CRYPTO_bswap4 :: "u32 \<Rightarrow> u32" where
  "CRYPTO_bswap4 x =
     (let x = drop_bit 16 x OR push_bit 16 x
      in drop_bit 8 (x AND 0xff00ff00) OR push_bit 8 (x AND 0x00ff00ff))"

definition CRYPTO_bswap8 :: "u64 \<Rightarrow> u64" where
  "CRYPTO_bswap8 x =
     ucast (CRYPTO_bswap4 (ucast (drop_bit 32 x))) OR push_bit 32 (ucast (CRYPTO_bswap4 (ucast x)))"

definition CBS_get_u16le :: "u16 cbs_reader" where
  "CBS_get_u16le cbs =
     (case CBS_get_u16 cbs of
        (None, cbs) \<Rightarrow> (None, cbs) | (Some out, cbs) \<Rightarrow> (Some (CRYPTO_bswap2 out), cbs))"

definition CBS_get_u32le :: "u32 cbs_reader" where
  "CBS_get_u32le cbs =
     (case CBS_get_u32 cbs of
        (None, cbs) \<Rightarrow> (None, cbs) | (Some out, cbs) \<Rightarrow> (Some (CRYPTO_bswap4 out), cbs))"

definition CBS_get_u64le :: "u64 cbs_reader" where
  "CBS_get_u64le cbs =
     (case cbs_get_u 8 cbs of
        (None, cbs) \<Rightarrow> (None, cbs) | (Some out, cbs) \<Rightarrow> (Some (CRYPTO_bswap8 out), cbs))"

definition CBS_get_last_u8 :: "u8 cbs_reader" where
  "CBS_get_last_u8 cbs =
     (if length cbs = 0 then (None, cbs)
      else (Some (cbs ! (length cbs - 1)), take (length cbs - 1) cbs))"

definition CBS_get_bytes :: "nat \<Rightarrow> cbs cbs_reader" where
  "CBS_get_bytes len cbs =
     (case cbs_get len cbs of
        (None, cbs) \<Rightarrow> (None, cbs)
      | (Some v, cbs) \<Rightarrow> (Some (CBS_init v len), cbs))"

text \<open>\<open>CBS_copy_bytes\<close> yields the bytes it copies to \<open>out\<close>.\<close>

definition CBS_copy_bytes :: "nat \<Rightarrow> bytes cbs_reader" where
  "CBS_copy_bytes len cbs =
     (case cbs_get len cbs of (None, cbs) \<Rightarrow> (None, cbs) | (Some v, cbs) \<Rightarrow> (Some (take len v), cbs))"

definition cbs_get_length_prefixed :: "nat \<Rightarrow> cbs cbs_reader" where
  "cbs_get_length_prefixed len_len cbs =
     (case cbs_get_u len_len cbs of
        (None, cbs) \<Rightarrow> (None, cbs)
      | (Some len, cbs) \<Rightarrow> CBS_get_bytes (unat len) cbs)"

definition CBS_get_u8_length_prefixed :: "cbs cbs_reader" where
  "CBS_get_u8_length_prefixed cbs = cbs_get_length_prefixed 1 cbs"

definition CBS_get_u16_length_prefixed :: "cbs cbs_reader" where
  "CBS_get_u16_length_prefixed cbs = cbs_get_length_prefixed 2 cbs"

definition CBS_get_u24_length_prefixed :: "cbs cbs_reader" where
  "CBS_get_u24_length_prefixed cbs = cbs_get_length_prefixed 3 cbs"

section \<open>Lemmas\<close>

named_theorems cbs_simps

lemma cbs_get_append [cbs_simps]: "length xs = n \<Longrightarrow> cbs_get n (xs @ ys) = (Some xs, ys)"
  by (auto simp: cbs_get_def)

lemma cbs_get_SomeD: "cbs_get n cbs = (Some p, cbs') \<Longrightarrow> cbs = p @ cbs' \<and> length p = n"
  by (auto simp: cbs_get_def split: if_splits)

lemma cbs_get_NoneD: "cbs_get n cbs = (None, cbs') \<Longrightarrow> cbs' = cbs \<and> length cbs < n"
  by (auto simp: cbs_get_def split: if_splits)

lemma CBS_get_u8_Nil [cbs_simps]: "CBS_get_u8 [] = (None, [])"
  by (simp add: CBS_get_u8_def cbs_get_def)

lemma CBS_get_u8_Cons [cbs_simps]: "CBS_get_u8 (b # bs) = (Some b, bs)"
  by (simp add: CBS_get_u8_def cbs_get_def)

lemma CBS_get_u8_SomeD: "CBS_get_u8 cbs = (Some b, cbs') \<Longrightarrow> cbs = b # cbs'"
  by (cases cbs) (auto simp: cbs_simps)

lemma CBS_get_u8_NoneD: "CBS_get_u8 cbs = (None, cbs') \<Longrightarrow> cbs = [] \<and> cbs' = []"
  by (cases cbs) (auto simp: cbs_simps)

lemma CBS_get_bytes_append [cbs_simps]: "length xs = n \<Longrightarrow> CBS_get_bytes n (xs @ ys) = (Some xs, ys)"
  by (simp add: CBS_get_bytes_def cbs_simps CBS_init_def)

lemma CBS_get_bytes_SomeD:
  "CBS_get_bytes n cbs = (Some p, cbs') \<Longrightarrow> cbs = p @ cbs' \<and> length p = n"
  by (auto simp: CBS_get_bytes_def cbs_get_def CBS_init_def split: if_splits)

lemma CBS_get_bytes_eq:
  "CBS_get_bytes n cbs = (if length cbs < n then (None, cbs) else (Some (take n cbs), drop n cbs))"
  by (simp add: CBS_get_bytes_def cbs_get_def CBS_init_def)

lemma CBS_skip_eq: "CBS_skip n cbs = (if length cbs < n then (None, cbs) else (Some (), drop n cbs))"
  by (simp add: CBS_skip_def cbs_get_def)

lemma cbs_get_u_loop_val:
  "unat (cbs_get_u_loop r bs) = be_acc (unat r) bs mod 2 ^ 64"
proof (induction bs arbitrary: r)
  case Nil
  show ?case using unat_less_64 [of r] by simp
next
  case (Cons b bs)
  have "unat (push_bit 8 r OR ucast b) = (256 * unat r + unat b) mod 2 ^ 64"
    by (simp add: shift_or_byte_64 unat_word_ariths unat_ucast mod_simps mult.commute)
  moreover have "be_acc (m mod 2 ^ 64) bs mod 2 ^ 64 = be_acc m bs mod 2 ^ 64" for m
    unfolding be_acc_val [of "m mod 2 ^ 64"] be_acc_val [of m]
    by (metis mod_add_left_eq mod_mult_left_eq)
  ultimately show ?case by (simp add: Cons.IH)
qed

lemma be_val_less_64: "length bs \<le> 8 \<Longrightarrow> be_val bs < 2 ^ 64"
  using be_val_less [of bs] power_increasing [of "length bs" 8 "256::nat"] by simp

lemma cbs_get_u_loop_be_val: "length bs \<le> 8 \<Longrightarrow> cbs_get_u_loop 0 bs = of_nat (be_val bs)"
  using cbs_get_u_loop_val [of 0 bs]
  by (intro word_unat_eq_iff [THEN iffD2]) (simp add: be_val_def unat_of_nat)

lemma cbs_get_u_append [cbs_simps]:
  "length xs = n \<Longrightarrow> n \<le> 8 \<Longrightarrow> cbs_get_u n (xs @ ys) = (Some (of_nat (be_val xs)), ys)"
  by (simp add: cbs_get_u_def cbs_get_append cbs_get_u_loop_be_val)

lemma cbs_get_u_eq:
  "n \<le> 8 \<Longrightarrow> cbs_get_u n cbs =
     (if length cbs < n then (None, cbs) else (Some (of_nat (be_val (take n cbs))), drop n cbs))"
  using cbs_get_u_append [of "take n cbs" n "drop n cbs"]
  by (simp add: cbs_get_u_def cbs_get_def cbs_get_u_loop_be_val)

section \<open>Byte swapping\<close>

lemma byte_pos: "k < 8 \<Longrightarrow> (8 * j + k) div 8 = j \<and> (8 * j + k) mod 8 = k" for j k :: nat
  by simp

lemma bit_0xff: "bit (0xff00ff00 :: u32) n \<longleftrightarrow> n \<in> {8..<16} \<union> {24..<32}"
  "bit (0x00ff00ff :: u32) n \<longleftrightarrow> n \<in> {0..<8} \<union> {16..<24}"
proof -
  have a: "(0x00ff00ff :: u32) = mask 8 OR push_bit 16 (mask 8)" by (simp add: mask_eq_exp_minus_1)
  have b: "(0xff00ff00 :: u32) = push_bit 8 (mask 8) OR push_bit 24 (mask 8)" by (simp add: mask_eq_exp_minus_1)
  show "bit (0xff00ff00 :: u32) n \<longleftrightarrow> n \<in> {8..<16} \<union> {24..<32}"
    unfolding b by (auto simp: bit_simps)
  show "bit (0x00ff00ff :: u32) n \<longleftrightarrow> n \<in> {0..<8} \<union> {16..<24}"
    unfolding a by (auto simp: bit_simps)
qed

lemma bit_bswap2: "bit (CRYPTO_bswap2 x) n \<longleftrightarrow> n < 16 \<and> bit x (if n < 8 then n + 8 else n - 8)"
  by (auto simp: CRYPTO_bswap2_def bit_simps add.commute dest: bit_imp_le_length)

lemma bswap2_bswap2 [simp]: "CRYPTO_bswap2 (CRYPTO_bswap2 x) = x"
  by (rule bit_eqI) (auto simp: bit_bswap2)

lemma bit_bswap4: "bit (CRYPTO_bswap4 x) n \<longleftrightarrow> n < 32 \<and> bit x (8 * (3 - n div 8) + n mod 8)"
proof (cases "n < 32")
  case True
  then consider "n \<in> {0..<8}" | "n \<in> {8..<16}" | "n \<in> {16..<24}" | "n \<in> {24..<32}" by fastforce
  then show ?thesis
  proof cases
    case 1
    then have "n div 8 = 0" "n mod 8 = n" by auto
    then show ?thesis
      unfolding CRYPTO_bswap4_def Let_def bit_or_iff bit_and_iff bit_drop_bit_eq o_def bit_push_bit_iff bit_0xff
      using 1 by (auto simp: add.commute dest: bit_imp_le_length)
  next
    case 2
    then obtain k where k: "n = 8 + k" "k < 8" by (auto simp: le_iff_add)
    then have "n div 8 = 1" "n mod 8 = k" using byte_pos [of k 1] by simp_all
    then show ?thesis
      unfolding CRYPTO_bswap4_def Let_def bit_or_iff bit_and_iff bit_drop_bit_eq o_def bit_push_bit_iff bit_0xff
      using k by (auto simp: add.commute dest: bit_imp_le_length)
  next
    case 3
    then obtain k where k: "n = 16 + k" "k < 8" by (auto simp: le_iff_add)
    then have "n div 8 = 2" "n mod 8 = k" using byte_pos [of k 2] by simp_all
    then show ?thesis
      unfolding CRYPTO_bswap4_def Let_def bit_or_iff bit_and_iff bit_drop_bit_eq o_def bit_push_bit_iff bit_0xff
      using k by (auto simp: add.commute dest: bit_imp_le_length)
  next
    case 4
    then obtain k where k: "n = 24 + k" "k < 8" by (auto simp: le_iff_add)
    then have "n div 8 = 3" "n mod 8 = k" using byte_pos [of k 3] by simp_all
    then show ?thesis
      unfolding CRYPTO_bswap4_def Let_def bit_or_iff bit_and_iff bit_drop_bit_eq o_def bit_push_bit_iff bit_0xff
      using k by (auto simp: add.commute dest: bit_imp_le_length)
  qed
next
  case False
  then show ?thesis by (auto dest: bit_imp_le_length)
qed

lemma bswap4_bswap4 [simp]: "CRYPTO_bswap4 (CRYPTO_bswap4 x) = x"
proof (rule bit_word_eqI)
  fix n
  assume "n < LENGTH(32)"
  then have n: "n div 8 < 4" "n mod 8 < 8" by auto
  then have "(8 * (3 - n div 8) + n mod 8) div 8 = 3 - n div 8" "(8 * (3 - n div 8) + n mod 8) mod 8 = n mod 8"
    by auto
  moreover have "8 * (3 - (3 - n div 8)) + n mod 8 = n" using n by simp
  ultimately show "bit (CRYPTO_bswap4 (CRYPTO_bswap4 x)) n = bit x n"
    using n \<open>n < LENGTH(32)\<close> by (auto simp: bit_bswap4)
qed

lemma bit_bswap8: "bit (CRYPTO_bswap8 x) n \<longleftrightarrow> n < 64 \<and> bit x (8 * (7 - n div 8) + n mod 8)"
proof (cases "n < 64")
  case True
  show ?thesis
  proof (cases "n < 32")
    case lo: True
    then have "n div 8 \<le> 3" by auto
    then have e: "32 + (8 * (3 - n div 8) + n mod 8) = 8 * (7 - n div 8) + n mod 8" "n mod 8 < 8"
        "8 * (3 - n div 8) + n mod 8 < 32"
      by auto
    show ?thesis
      unfolding CRYPTO_bswap8_def bit_or_iff bit_push_bit_iff bit_ucast_iff bit_bswap4 bit_drop_bit_eq o_def e(1)
      using True lo e(2,3) by simp
  next
    case hi: False
    then obtain k where k: "n = 32 + k" "k < 32" using True by (auto simp: not_less le_iff_add)
    have "(k + 4 * 8) div 8 = 4 + k div 8" by (simp only: div_mult_self1)
    moreover have "(k + 4 * 8) mod 8 = k mod 8" by (rule mod_mult_self1)
    moreover have "k + 4 * 8 = n" using k by simp
    moreover have "k div 8 \<le> 3" using k by simp
    ultimately have e: "8 * (7 - n div 8) + n mod 8 = 8 * (3 - k div 8) + k mod 8" "k mod 8 < 8"
        "8 * (3 - k div 8) + k mod 8 < 32"
      by auto
    show ?thesis
      unfolding CRYPTO_bswap8_def bit_or_iff bit_push_bit_iff bit_ucast_iff bit_bswap4 bit_drop_bit_eq o_def e(1)
      using k e(2,3) by (simp add: k(1))
  qed
next
  case False
  then show ?thesis by (auto dest: bit_imp_le_length)
qed

lemma bswap8_bswap8 [simp]: "CRYPTO_bswap8 (CRYPTO_bswap8 x) = x"
proof (rule bit_word_eqI)
  fix n
  assume "n < LENGTH(64)"
  then have n: "n div 8 < 8" "n mod 8 < 8" by auto
  then have "(8 * (7 - n div 8) + n mod 8) div 8 = 7 - n div 8" "(8 * (7 - n div 8) + n mod 8) mod 8 = n mod 8"
    by auto
  moreover have "8 * (7 - (7 - n div 8)) + n mod 8 = n" using n by simp
  ultimately show "bit (CRYPTO_bswap8 (CRYPTO_bswap8 x)) n = bit x n"
    using n \<open>n < LENGTH(64)\<close> by (auto simp: bit_bswap8)
qed

section \<open>Reading back big-endian octets\<close>

lemma cbs_get_u_be_bytes:
  assumes "n \<le> 8" and "m < 256 ^ n"
  shows "cbs_get_u n (be_bytes n m @ rest) = (Some (of_nat m), rest)"
  using cbs_get_u_append [of "be_bytes n m" n rest] assms by (simp add: be_val_be_bytes)

lemma of_nat_ucast: "m < 2 ^ 64 \<Longrightarrow> (ucast (of_nat m :: u64) :: 'a::len word) = of_nat m"
  by (intro word_unat_eq_iff [THEN iffD2]) (simp add: unat_ucast unat_of_nat mod_mod_cancel)

lemma CBS_get_u16_be [cbs_simps]: "CBS_get_u16 (be_bytes 2 (unat v) @ rest) = (Some v, rest)"
proof -
  have "unat v < 2 ^ LENGTH(16)" by (rule unsigned_less)
  then show ?thesis
    using cbs_get_u_be_bytes [of 2 "unat v" rest] of_nat_ucast [of "unat v", where 'a = 16]
    by (simp add: CBS_get_u16_def)
qed

lemma CBS_get_u24_be [cbs_simps]:
  "unat v < 2 ^ 24 \<Longrightarrow> CBS_get_u24 (be_bytes 3 (unat v) @ rest) = (Some v, rest)"
  using cbs_get_u_be_bytes [of 3 "unat v" rest] of_nat_ucast [of "unat v", where 'a = 32]
  by (simp add: CBS_get_u24_def)

lemma CBS_get_u32_be [cbs_simps]: "CBS_get_u32 (be_bytes 4 (unat v) @ rest) = (Some v, rest)"
proof -
  have "unat v < 2 ^ LENGTH(32)" by (rule unsigned_less)
  then show ?thesis
    using cbs_get_u_be_bytes [of 4 "unat v" rest] of_nat_ucast [of "unat v", where 'a = 32]
    by (simp add: CBS_get_u32_def)
qed

lemma CBS_get_u64_be [cbs_simps]: "CBS_get_u64 (be_bytes 8 (unat v) @ rest) = (Some v, rest)"
  using cbs_get_u_be_bytes [of 8 "unat v" rest] unat_less_64_num [of v]
  by (simp add: CBS_get_u64_def)

end
