(* ===== verification/Der.thy ===== *)
theory Der
  imports Prelude
begin

text \<open>
  The DER encoding of identifiers, lengths and elements (ITU-T X.690, sections 8.1.2, 8.1.3 and
  10.1), as byte strings: the specification that the reader (\<open>Asn1Parse\<close>) and the writer
  (\<open>Cbb\<close>, \<open>Asn1Build\<close>) are related by. A tag is in the in-memory form of \<^verbatim>\<open>bytestring.h\<close>: class and
  constructed bits in the top three bits, the tag number in the other 29. Lengths go up to
  \<open>2 ^ 32 - 1\<close>, the most the reader accepts.
\<close>

section \<open>Base-128 integers\<close>

fun b128_hi :: "nat \<Rightarrow> bytes" where
  "b128_hi v = (if v = 0 then [] else b128_hi (v div 128) @ [of_nat (128 + v mod 128)])"

declare b128_hi.simps [simp del]

definition b128 :: "nat \<Rightarrow> bytes" where
  "b128 v = b128_hi (v div 128) @ [of_nat (v mod 128)]"

lemma b128_hi_0 [simp]: "b128_hi 0 = []"
  by (simp add: b128_hi.simps)

lemma b128_hi_step: "0 < v \<Longrightarrow> b128_hi v = b128_hi (v div 128) @ [of_nat (128 + v mod 128)]"
  by (subst b128_hi.simps) simp

lemma b128_nonempty [simp]: "b128 v \<noteq> []"
  by (simp add: b128_def)

section \<open>Tags, lengths, elements\<close>

definition der_tag :: "u32 \<Rightarrow> bytes" where
  "der_tag t =
     (let number = unat (t AND mask 29); bits = ucast (drop_bit 24 t) AND 0xe0
      in if number < 31 then [bits OR of_nat number] else (bits OR 0x1f) # b128 number)"

definition len_octets :: "nat \<Rightarrow> nat" where
  "len_octets n = (if n < 2 ^ 8 then 1 else if n < 2 ^ 16 then 2 else if n < 2 ^ 24 then 3 else 4)"

definition der_len :: "nat \<Rightarrow> bytes" where
  "der_len n =
     (if n < 128 then [of_nat n] else of_nat (128 + len_octets n) # be_bytes (len_octets n) n)"

definition der_element :: "u32 \<Rightarrow> bytes \<Rightarrow> bytes" where
  "der_element tag contents = der_tag tag @ der_len (length contents) @ contents"

lemma der_tag_nonempty [simp]: "der_tag t \<noteq> []"
  by (simp add: der_tag_def Let_def)

lemma der_len_nonempty [simp]: "der_len n \<noteq> []"
  by (simp add: der_len_def)

lemma len_octets_bounds: "1 \<le> len_octets n \<and> len_octets n \<le> 4"
  by (simp add: len_octets_def)

lemma len_octets_less: "n < 2 ^ 32 \<Longrightarrow> n < 256 ^ len_octets n"
  by (simp add: len_octets_def)

lemma len_octets_ge: "128 \<le> n \<Longrightarrow> 256 ^ (len_octets n - 1) \<le> n"
  by (simp add: len_octets_def)

text \<open>The octet count is the only one that is neither too short nor too long.\<close>

lemma len_octets_unique:
  assumes "n < 256 ^ k" and "256 ^ (k - 1) \<le> n" and "1 \<le> k" and "k \<le> 4"
  shows "len_octets n = k"
proof -
  from assms(3,4) have "k = 1 \<or> k = 2 \<or> k = 3 \<or> k = 4" by auto
  with assms(1,2) show ?thesis by (auto simp: len_octets_def)
qed

section \<open>The bits of a tag\<close>

lemma bits_0xe0_u8: "(0xe0 :: u8) = NOT (mask 5)"
  by (simp add: mask_eq_exp_minus_1)

lemma bits_0x1f_u8: "(0x1f :: u8) = mask 5"
  by (simp add: mask_eq_exp_minus_1)

lemma bits_0xe0_u32: "(0xe0 :: u32) = mask 8 AND NOT (mask 5)"
  by (simp add: mask_eq_exp_minus_1)

lemma tag_byte_split: "(b AND 0xe0) OR (b AND 0x1f) = (b :: u8)"
  unfolding bits_0xe0_u8 bits_0x1f_u8 by (rule bit_eqI) (auto simp: bit_simps)

text \<open>The in-memory tag made of the top bits of \<open>b\<close> and a number determines both.\<close>

lemma tag_number_of:
  assumes "unat n < 2 ^ 29"
  shows "(push_bit 24 (ucast (b :: u8) AND 0xe0) OR n) AND mask 29 = (n :: u32)"
proof -
  have "take_bit 29 n = n"
    using assms by (intro word_unat_eq_iff [THEN iffD2])
      (simp add: unsigned_take_bit_eq take_bit_nat_eq_self)
  then have bound: "bit n i \<Longrightarrow> i < 29" for i
    by (metis bit_take_bit_iff)
  show ?thesis
    unfolding bits_0xe0_u32 by (rule bit_eqI) (auto simp: bit_simps dest: bound)
qed

lemma tag_bits_of:
  assumes "unat n < 2 ^ 29"
  shows "ucast (drop_bit 24 (push_bit 24 (ucast (b :: u8) AND 0xe0) OR (n :: u32))) AND 0xe0
         = b AND (0xe0 :: u8)"
proof -
  have "take_bit 29 n = n"
    using assms by (intro word_unat_eq_iff [THEN iffD2])
      (simp add: unsigned_take_bit_eq take_bit_nat_eq_self)
  then have bound: "bit n i \<Longrightarrow> i < 29" for i
    by (metis bit_take_bit_iff)
  show ?thesis
    unfolding bits_0xe0_u32 bits_0xe0_u8 by (rule bit_eqI) (auto simp: bit_simps dest: bound)
qed

lemma tag_compose:
  "push_bit 24 (ucast (ucast (drop_bit 24 t) AND (0xe0 :: u8)) AND 0xe0) OR (t AND mask 29) = (t :: u32)"
  unfolding bits_0xe0_u32 bits_0xe0_u8
  by (rule bit_eqI) (auto simp: bit_simps)

section \<open>Integers\<close>

text \<open>
  The contents octets of an INTEGER: the shortest two's complement string. \<open>int_octets i\<close> is its
  length, \<open>sval\<close> reads a string back.
\<close>

fun int_octets :: "int \<Rightarrow> nat" where
  "int_octets i = (if - 128 \<le> i \<and> i < 128 then 1 else Suc (int_octets (i div 256)))"

declare int_octets.simps [simp del]

definition der_int :: "int \<Rightarrow> bytes" where
  "der_int i = be_bytes (int_octets i) (nat (i mod 256 ^ int_octets i))"

definition sval :: "bytes \<Rightarrow> int" where
  "sval bs = int (be_val bs) - (if bs \<noteq> [] \<and> 128 \<le> unat (hd bs) then 256 ^ length bs else 0)"

text \<open>Shortest: no leading octet that only repeats the sign of the next one.\<close>

fun int_minimal :: "bytes \<Rightarrow> bool" where
  "int_minimal [] = False"
| "int_minimal [b] = True"
| "int_minimal (b # c # bs) =
     (\<not> (unat b = 0 \<and> unat c < 128) \<and> \<not> (unat b = 255 \<and> 128 \<le> unat c))"

lemma sval_snoc: "bs \<noteq> [] \<Longrightarrow> sval (bs @ [b]) = 256 * sval bs + int (unat b)"
  by (simp add: sval_def be_val_snoc)

lemma int_minimal_snoc: "bs \<noteq> [] \<Longrightarrow> length bs \<noteq> 1 \<Longrightarrow> int_minimal (bs @ [b]) = int_minimal bs"
  by (cases bs rule: int_minimal.cases) auto

lemma sval_single: "sval [b] = (if unat b < 128 then int (unat b) else int (unat b) - 256)"
  by (simp add: sval_def be_val_Cons)

lemma sval_two: "sval [a, b] = 256 * sval [a] + int (unat b)"
  using sval_snoc [of "[a]" b] by simp

lemma int_octets_sval: "int_minimal bs \<Longrightarrow> int_octets (sval bs) = length bs"
proof (induction bs rule: rev_induct)
  case Nil
  then show ?case by simp
next
  case (snoc b bs)
  show ?case
  proof (cases "bs = []")
    case True
    define n where "n = unat b"
    have "n < 256" unfolding n_def by (rule unat_u8_less)
    then have "- 128 \<le> sval [b] \<and> sval [b] < 128"
      unfolding sval_single n_def [symmetric] by simp
    then show ?thesis using True by (simp add: int_octets.simps [of "sval [b]"])
  next
    case False
    have b: "unat b < 256" by (rule unat_u8_less)
    have dv: "sval (bs @ [b]) div 256 = sval bs"
      using False b by (simp add: sval_snoc del: of_nat_unat)
    have out: "\<not> (- 128 \<le> sval (bs @ [b]) \<and> sval (bs @ [b]) < 128)" and min: "int_minimal bs"
    proof -
      show "\<not> (- 128 \<le> sval (bs @ [b]) \<and> sval (bs @ [b]) < 128)"
      proof (cases "length bs = 1")
        case True
        then obtain a where bs: "bs = [a]" by (cases bs) auto
        with snoc.prems show ?thesis
          using b unat_u8_less [of a] by (auto simp: sval_two sval_single simp del: of_nat_unat split: if_splits)
      next
        case no1: False
        have "int_minimal bs" using snoc.prems False no1 by (simp add: int_minimal_snoc)
        then have "int_octets (sval bs) = length bs" by (rule snoc.IH)
        moreover have "length bs > 1" using False no1 by (cases bs) auto
        ultimately have "\<not> (- 128 \<le> sval bs \<and> sval bs < 128)"
          by (auto simp: int_octets.simps [of "sval bs"])
        then show ?thesis using False b by (auto simp: sval_snoc simp del: of_nat_unat)
      qed
      show "int_minimal bs"
      proof (cases "length bs = 1")
        case True
        then show ?thesis by (cases bs) auto
      next
        case no1: False
        then show ?thesis using snoc.prems False by (simp add: int_minimal_snoc)
      qed
    qed
    have "int_octets (sval (bs @ [b])) = Suc (int_octets (sval bs))"
      using out dv by (subst int_octets.simps) auto
    then show ?thesis using snoc.IH [OF min] by simp
  qed
qed

lemma sval_mod: "sval bs mod 256 ^ length bs = int (be_val bs)"
proof -
  have "int (be_val bs) < 256 ^ length bs"
    using be_val_less [of bs] by (metis of_nat_less_iff of_nat_numeral of_nat_power)
  then show ?thesis by (simp add: sval_def mod_diff_right_eq [symmetric])
qed

lemma der_int_sval: "int_minimal bs \<Longrightarrow> der_int (sval bs) = bs"
  by (simp add: der_int_def int_octets_sval sval_mod be_bytes_be_val)

text \<open>Conversely every integer is read back from its contents octets.\<close>

lemma of_int_u8_cong: "i mod 256 = j mod 256 \<Longrightarrow> (of_int i :: u8) = of_int j"
  by (simp add: word_of_int_eq_iff take_bit_eq_mod)

lemma be_bytes_div:
  "be_bytes (Suc n) (nat (i mod 256 ^ Suc n))
   = be_bytes n (nat (i div 256 mod 256 ^ n)) @ [of_int (i mod 256)]"
proof -
  let ?v = "i mod 256 ^ Suc n"
  have v: "?v = 256 * (i div 256 mod 256 ^ n) + i mod 256"
    by (simp add: zmod_zmult2_eq)
  have pos: "0 \<le> ?v" by simp
  have "nat ?v div 256 = nat (?v div 256)"
    by (simp add: nat_div_distrib)
  also have "?v div 256 = i div 256 mod 256 ^ n" unfolding v by simp
  finally have hi: "nat ?v div 256 = nat (i div 256 mod 256 ^ n)" .
  have "(of_nat (nat ?v) :: u8) = of_int ?v" using pos by simp
  also have "\<dots> = of_int (i mod 256)"
    by (rule of_int_u8_cong) (simp add: mod_mod_cancel)
  finally show ?thesis using hi by simp
qed

lemma der_int_small: "- 128 \<le> i \<Longrightarrow> i < 128 \<Longrightarrow> der_int i = [of_int (i mod 256)]"
  by (simp add: der_int_def int_octets.simps)

lemma der_int_step: "\<not> (- 128 \<le> i \<and> i < 128) \<Longrightarrow> der_int i = der_int (i div 256) @ [of_int (i mod 256)]"
  unfolding der_int_def by (subst (1 2) int_octets.simps) (simp only: if_False be_bytes_div)

lemma unat_of_int_mod: "unat (of_int (i mod 256) :: u8) = nat (i mod 256)"
  by (simp add: unsigned_of_int take_bit_eq_mod)

lemma length_der_int: "length (der_int i) = int_octets i"
  by (simp add: der_int_def)

lemma int_octets_pos: "0 < int_octets i"
  by (subst int_octets.simps) simp

lemma der_int_nonempty [simp]: "der_int i \<noteq> []"
  using int_octets_pos [of i] length_der_int [of i] by force

lemma sval_der_int: "sval (der_int i) = i"
proof (induction i rule: int_octets.induct)
  case (1 i)
  have u: "int (unat (of_int (i mod 256) :: u8)) = i mod 256"
    unfolding unat_of_int_mod by simp
  show ?case
  proof (cases "- 128 \<le> i \<and> i < 128")
    case True
    define j where "j = i mod 256"
    have j: "0 \<le> j" by (simp add: j_def)
    have "sval (der_int i) = (if nat j < 128 then int (nat j) else int (nat j) - 256)"
      unfolding der_int_small [OF conjunct1 [OF True] conjunct2 [OF True]] sval_single unat_of_int_mod
        j_def ..
    also have "\<dots> = (if j < 128 then j else j - 256)" using j by (simp add: nat_less_iff)
    also have "\<dots> = i"
    proof -
      have "j = (if 0 \<le> i then i else i + 256)"
        using True mod_pos_pos_trivial [of "i + 256" 256] by (auto simp: j_def)
      then show ?thesis using True by auto
    qed
    finally show ?thesis .
  next
    case False
    then have "sval (der_int i) = 256 * sval (der_int (i div 256)) + i mod 256"
      using u by (simp only: der_int_step sval_snoc der_int_nonempty not_False_eq_True simp_thms)
    then show ?thesis using "1.IH" [OF False] by simp
  qed
qed

lemma int_minimal_der_int: "int_minimal (der_int i)"
proof (induction i rule: int_octets.induct)
  case (1 i)
  show ?case
  proof (cases "- 128 \<le> i \<and> i < 128")
    case True
    then show ?thesis by (simp add: der_int_small)
  next
    case False
    let ?bs = "der_int (i div 256)" and ?b = "of_int (i mod 256) :: u8"
    show ?thesis
    proof (cases "length ?bs = 1")
      case True
      then obtain a where a: "?bs = [a]" by (cases ?bs) auto
      have "i = 256 * sval [a] + int (unat ?b)"
        using sval_der_int [of i] False by (simp only: der_int_step a sval_snoc not_Cons_self2 list.distinct simp_thms)
      with False show ?thesis
        using unat_u8_less [of ?b] by (auto simp: der_int_step a sval_single simp del: of_nat_unat split: if_splits)
    next
      case no1: False
      then show ?thesis
        using "1.IH" [OF False] False by (simp add: der_int_step int_minimal_snoc)
    qed
  qed
qed

lemma int_octets_le:
  "- (128 * 256 ^ k) \<le> i \<Longrightarrow> i < 128 * 256 ^ k \<Longrightarrow> int_octets i \<le> Suc k"
proof (induction k arbitrary: i)
  case 0
  then show ?case by (simp add: int_octets.simps)
next
  case (Suc k)
  define m where "m = (128 * 256 ^ k :: int)"
  have "- (256 * m) \<le> i" "i < 256 * m" using Suc.prems by (simp_all add: m_def)
  then have "- m \<le> i div 256" "i div 256 < m" by linarith+
  then have "int_octets (i div 256) \<le> Suc k" unfolding m_def by (rule Suc.IH)
  then show ?case by (subst int_octets.simps) simp
qed

lemma sval_range:
  assumes "bs \<noteq> []"
  shows "- (128 * 256 ^ (length bs - 1)) \<le> sval bs" and "sval bs < 128 * 256 ^ (length bs - 1)"
proof -
  from assms obtain b cs where bs: "bs = b # cs" by (cases bs) auto
  define p where "p = (256 :: int) ^ length cs"
  define c where "c = int (be_val cs)"
  define n where "n = int (unat b)"
  have "int (be_val cs) < int (256 ^ length cs)" using be_val_less [of cs] by (simp only: of_nat_less_iff)
  then have c: "0 \<le> c" "c < p" by (simp_all add: c_def p_def)
  have n: "0 \<le> n" "n < 256" using unat_u8_less [of b] by (simp_all add: n_def del: of_nat_unat)
  have v: "sval bs = n * p + c - (if 128 \<le> n then 256 * p else 0)"
    by (simp add: bs sval_def be_val_Cons n_def p_def c_def del: of_nat_unat)
  have len: "256 ^ (length bs - 1) = p" by (simp add: bs p_def)
  have lo: "n * p \<le> 127 * p" if "n < 128" using that c by (intro mult_right_mono) auto
  have hi: "128 * p \<le> n * p" "n * p \<le> 255 * p" if "128 \<le> n"
    using that c n by (auto intro!: mult_right_mono)
  have np: "0 \<le> n * p" using n c by simp
  have "- (128 * p) \<le> sval bs \<and> sval bs < 128 * p"
  proof (cases "128 \<le> n")
    case True
    then have "sval bs = n * p + c - 256 * p" by (simp add: v)
    then show ?thesis using hi [OF True] c by linarith
  next
    case False
    then have "sval bs = n * p + c" by (simp add: v)
    then show ?thesis using lo False np c by linarith
  qed
  then show "- (128 * 256 ^ (length bs - 1)) \<le> sval bs" and "sval bs < 128 * 256 ^ (length bs - 1)"
    unfolding len by simp_all
qed

lemma sval_nonneg_iff: "bs \<noteq> [] \<Longrightarrow> 0 \<le> sval bs \<longleftrightarrow> unat (hd bs) < 128"
proof -
  assume "bs \<noteq> []"
  moreover have "int (be_val bs) < 256 ^ length bs"
    using be_val_less [of bs] by (metis of_nat_less_iff of_nat_numeral of_nat_power)
  ultimately show ?thesis by (auto simp: sval_def)
qed

end
