(* ===== verification/Asn1Parse.thy ===== *)
theory Asn1Parse
  imports Cbs Der
begin

text \<open>
  \<^verbatim>\<open>crypto/bytestring/cbs.c\<close>, part 2: the DER (and, on request, BER) element reader and the
  typed readers built on it.

  The specification is the encoding itself: \<open>der_element tag contents\<close> is the one DER encoding of
  an element. Correctness is \<open>CBS_get_any_asn1_element_iff\<close> and
  \<open>CBS_get_any_asn1_iff\<close>: what is accepted is a DER encoding, so no second encoding of an element is
  ever accepted, and every DER encoding is accepted.
\<close>

section \<open>Tags\<close>

abbreviation (input) CBS_ASN1_TAG_SHIFT :: nat where "CBS_ASN1_TAG_SHIFT \<equiv> 24"
abbreviation (input) CBS_ASN1_CONSTRUCTED :: u32 where "CBS_ASN1_CONSTRUCTED \<equiv> 0x20000000"
abbreviation (input) CBS_ASN1_CONTEXT_SPECIFIC :: u32 where "CBS_ASN1_CONTEXT_SPECIFIC \<equiv> 0x80000000"
abbreviation (input) CBS_ASN1_TAG_NUMBER_MASK :: u32 where "CBS_ASN1_TAG_NUMBER_MASK \<equiv> 0x1fffffff"
abbreviation (input) CBS_ASN1_BOOLEAN :: u32 where "CBS_ASN1_BOOLEAN \<equiv> 0x1"
abbreviation (input) CBS_ASN1_INTEGER :: u32 where "CBS_ASN1_INTEGER \<equiv> 0x2"
abbreviation (input) CBS_ASN1_BITSTRING :: u32 where "CBS_ASN1_BITSTRING \<equiv> 0x3"
abbreviation (input) CBS_ASN1_OCTETSTRING :: u32 where "CBS_ASN1_OCTETSTRING \<equiv> 0x4"

text \<open>The \<open>do\<close> loop of \<open>parse_base128_integer\<close>, one octet per step.\<close>

fun parse_base128_loop :: "u64 \<Rightarrow> u64 cbs_reader" where
  "parse_base128_loop v [] = (None, [])"
| "parse_base128_loop v (b # cbs) =
     (if drop_bit (64 - 7) v \<noteq> 0 then (None, cbs)
      else if v = 0 \<and> b = 0x80 then (None, cbs)
      else let v = push_bit 7 v OR ucast (b AND 0x7f)
           in if b AND 0x80 \<noteq> 0 then parse_base128_loop v cbs else (Some v, cbs))"

definition parse_base128_integer :: "u64 cbs_reader" where
  "parse_base128_integer cbs = parse_base128_loop 0 cbs"

definition parse_asn1_tag :: "u32 cbs_reader" where
  "parse_asn1_tag cbs =
     (case CBS_get_u8 cbs of
        (None, cbs) \<Rightarrow> (None, cbs)
      | (Some tag_byte, cbs) \<Rightarrow>
          (let tag = push_bit CBS_ASN1_TAG_SHIFT (ucast tag_byte AND 0xe0);
               tag_number = ucast (tag_byte AND 0x1f)
           in if tag_number = 0x1f
              then (case parse_base128_integer cbs of
                      (None, cbs) \<Rightarrow> (None, cbs)
                    | (Some v, cbs) \<Rightarrow>
                        (if v > ucast CBS_ASN1_TAG_NUMBER_MASK \<or> v < 0x1f then (None, cbs)
                         else (Some (tag OR ucast v), cbs)))
              else (Some (tag OR tag_number), cbs)))"

section \<open>Elements\<close>

text \<open>
  The result holds \<open>*out\<close>, \<open>*out_tag\<close> and \<open>*out_header_len\<close>; a caller that passes NULL ignores
  the component. On failure \<open>cbs\<close> is untouched, since the header is read from a copy.
\<close>

definition asn1_take :: "nat \<Rightarrow> u32 \<Rightarrow> nat \<Rightarrow> (cbs \<times> u32 \<times> nat) cbs_reader" where
  "asn1_take len tag header_len cbs =
     (case CBS_get_bytes len cbs of
        (None, cbs) \<Rightarrow> (None, cbs)
      | (Some out, cbs) \<Rightarrow> (Some (out, tag, header_len), cbs))"

definition cbs_get_any_asn1_element :: "bool \<Rightarrow> (cbs \<times> u32 \<times> nat) cbs_reader" where
  "cbs_get_any_asn1_element ber_ok cbs =
     (case parse_asn1_tag cbs of
        (None, header) \<Rightarrow> (None, cbs)
      | (Some tag, header) \<Rightarrow>
     (case CBS_get_u8 header of
        (None, header) \<Rightarrow> (None, cbs)
      | (Some length_byte, header) \<Rightarrow>
          (let header_len = CBS_len cbs - CBS_len header in
           if length_byte AND 0x80 = 0 then
             asn1_take (unat length_byte + header_len) tag header_len cbs
           else
             (let num_bytes = unat (length_byte AND 0x7f) in
              if ber_ok \<and> tag AND CBS_ASN1_CONSTRUCTED \<noteq> 0 \<and> num_bytes = 0 then
                asn1_take header_len tag header_len cbs
              else if num_bytes = 0 \<or> num_bytes > 4 then (None, cbs)
              else
                (case cbs_get_u num_bytes header of
                   (None, header) \<Rightarrow> (None, cbs)
                 | (Some len64, header) \<Rightarrow>
                     (if len64 < 128 then (None, cbs)
                      else if drop_bit ((num_bytes - 1) * 8) len64 = 0 then (None, cbs)
                      else
                        (let len = unat len64 in
                         if (len + header_len + num_bytes) mod 2 ^ 64 < len then (None, cbs)
                         else asn1_take ((len + (header_len + num_bytes)) mod 2 ^ 64) tag
                                (header_len + num_bytes) cbs)))))))"

definition CBS_get_any_asn1_element :: "(cbs \<times> u32 \<times> nat) cbs_reader" where
  "CBS_get_any_asn1_element cbs = cbs_get_any_asn1_element False cbs"

definition CBS_get_any_ber_asn1_element :: "(cbs \<times> u32 \<times> nat) cbs_reader" where
  "CBS_get_any_ber_asn1_element cbs = cbs_get_any_asn1_element True cbs"

definition CBS_get_any_asn1 :: "(cbs \<times> u32) cbs_reader" where
  "CBS_get_any_asn1 cbs =
     (case CBS_get_any_asn1_element cbs of
        (None, cbs) \<Rightarrow> (None, cbs)
      | (Some (out, tag, header_len), cbs) \<Rightarrow>
          (case CBS_skip header_len out of
             (None, out) \<Rightarrow> (None, cbs)
           | (Some _, out) \<Rightarrow> (Some (out, tag), cbs)))"

text \<open>
  A tag other than \<open>tag_value\<close> fails after the element has been taken off \<open>cbs\<close>.
\<close>

definition cbs_get_asn1 :: "u32 \<Rightarrow> bool \<Rightarrow> cbs cbs_reader" where
  "cbs_get_asn1 tag_value skip_header cbs =
     (case CBS_get_any_asn1_element cbs of
        (None, cbs) \<Rightarrow> (None, cbs)
      | (Some (out, tag, header_len), cbs) \<Rightarrow>
          (if tag \<noteq> tag_value then (None, cbs)
           else if skip_header
                then (case CBS_skip header_len out of
                        (None, out) \<Rightarrow> (None, cbs)
                      | (Some _, out) \<Rightarrow> (Some out, cbs))
                else (Some out, cbs)))"

definition CBS_get_asn1 :: "u32 \<Rightarrow> cbs cbs_reader" where
  "CBS_get_asn1 tag_value cbs = cbs_get_asn1 tag_value True cbs"

definition CBS_get_asn1_element :: "u32 \<Rightarrow> cbs cbs_reader" where
  "CBS_get_asn1_element tag_value cbs = cbs_get_asn1 tag_value False cbs"

definition CBS_peek_asn1_tag :: "cbs \<Rightarrow> u32 \<Rightarrow> bool" where
  "CBS_peek_asn1_tag cbs tag_value =
     (if CBS_len cbs < 1 then False
      else case parse_asn1_tag cbs of
             (None, copy) \<Rightarrow> False
           | (Some actual_tag, copy) \<Rightarrow> tag_value = actual_tag)"

section \<open>Integers and booleans\<close>

primrec asn1_uint64_loop :: "u64 \<Rightarrow> bytes \<Rightarrow> u64 option" where
  "asn1_uint64_loop out [] = Some out"
| "asn1_uint64_loop out (d # data) =
     (if drop_bit 56 out \<noteq> 0 then None
      else asn1_uint64_loop (push_bit 8 out OR ucast d) data)"

definition CBS_get_asn1_uint64 :: "u64 cbs_reader" where
  "CBS_get_asn1_uint64 cbs =
     (case CBS_get_asn1 CBS_ASN1_INTEGER cbs of
        (None, cbs) \<Rightarrow> (None, cbs)
      | (Some bytes, cbs) \<Rightarrow>
          (let data = CBS_data bytes; len = CBS_len bytes in
           if len = 0 then (None, cbs)
           else if data ! 0 AND 0x80 \<noteq> 0 then (None, cbs)
           else if data ! 0 = 0 \<and> len > 1 \<and> data ! 1 AND 0x80 = 0 then (None, cbs)
           else (asn1_uint64_loop 0 data, cbs)))"

text \<open>
  The union of \<open>CBS_get_asn1_int64\<close> on a little-endian machine: \<open>u.bytes[i]\<close> is the byte of
  weight \<open>256 ^ i\<close>. An \<^verbatim>\<open>int64_t\<close> is its 64-bit pattern; \<open>sint\<close> reads its value.
\<close>

definition int64_of_bytes :: "bytes \<Rightarrow> u64" where
  "int64_of_bytes u_bytes = of_nat (be_val (rev u_bytes))"

definition CBS_get_asn1_int64 :: "u64 cbs_reader" where
  "CBS_get_asn1_int64 cbs =
     (case CBS_get_asn1 CBS_ASN1_INTEGER cbs of
        (None, cbs) \<Rightarrow> (None, cbs)
      | (Some bytes, cbs) \<Rightarrow>
          (let data = CBS_data bytes; len = CBS_len bytes in
           if len = 0 \<or> len > 8 then (None, cbs)
           else if len > 1 \<and> data ! 0 = 0 \<and> data ! 1 AND 0x80 = 0 then (None, cbs)
           else if len > 1 \<and> data ! 0 = 0xff \<and> data ! 1 AND 0x80 \<noteq> 0 then (None, cbs)
           else
             (let is_negative = data ! 0 AND 0x80 \<noteq> 0;
                  u_bytes = replicate 8 (if is_negative then 0xff else 0);
                  u_bytes = write_at u_bytes 0 (map (\<lambda>i. data ! (len - i - 1)) [0..<len])
              in (Some (int64_of_bytes u_bytes), cbs))))"

definition CBS_get_asn1_bool :: "bool cbs_reader" where
  "CBS_get_asn1_bool cbs =
     (case CBS_get_asn1 CBS_ASN1_BOOLEAN cbs of
        (None, cbs) \<Rightarrow> (None, cbs)
      | (Some bytes, cbs) \<Rightarrow>
          (if CBS_len bytes \<noteq> 1 then (None, cbs)
           else let value = CBS_data bytes ! 0 in
                if value \<noteq> 0 \<and> value \<noteq> 0xff then (None, cbs) else (Some (value \<noteq> 0), cbs)))"

section \<open>Optional elements\<close>

text \<open>\<open>Some None\<close> is success with \<open>*out_present = 0\<close>.\<close>

definition CBS_get_optional_asn1 :: "u32 \<Rightarrow> cbs option cbs_reader" where
  "CBS_get_optional_asn1 tag cbs =
     (if CBS_peek_asn1_tag cbs tag
      then (case CBS_get_asn1 tag cbs of
              (None, cbs) \<Rightarrow> (None, cbs)
            | (Some out, cbs) \<Rightarrow> (Some (Some out), cbs))
      else (Some None, cbs))"

definition CBS_get_optional_asn1_octet_string :: "u32 \<Rightarrow> (cbs \<times> bool) cbs_reader" where
  "CBS_get_optional_asn1_octet_string tag cbs =
     (case CBS_get_optional_asn1 tag cbs of
        (None, cbs) \<Rightarrow> (None, cbs)
      | (Some (Some child), cbs) \<Rightarrow>
          (case CBS_get_asn1 CBS_ASN1_OCTETSTRING child of
             (None, child) \<Rightarrow> (None, cbs)
           | (Some out, child) \<Rightarrow>
               (if CBS_len child \<noteq> 0 then (None, cbs) else (Some (out, True), cbs)))
      | (Some None, cbs) \<Rightarrow> (Some (CBS_init [] 0, False), cbs))"

definition CBS_get_optional_asn1_uint64 :: "u32 \<Rightarrow> u64 \<Rightarrow> u64 cbs_reader" where
  "CBS_get_optional_asn1_uint64 tag default_value cbs =
     (case CBS_get_optional_asn1 tag cbs of
        (None, cbs) \<Rightarrow> (None, cbs)
      | (Some (Some child), cbs) \<Rightarrow>
          (case CBS_get_asn1_uint64 child of
             (None, child) \<Rightarrow> (None, cbs)
           | (Some out, child) \<Rightarrow>
               (if CBS_len child \<noteq> 0 then (None, cbs) else (Some out, cbs)))
      | (Some None, cbs) \<Rightarrow> (Some default_value, cbs))"

definition CBS_get_optional_asn1_bool :: "u32 \<Rightarrow> int \<Rightarrow> int cbs_reader" where
  "CBS_get_optional_asn1_bool tag default_value cbs =
     (case CBS_get_optional_asn1 tag cbs of
        (None, cbs) \<Rightarrow> (None, cbs)
      | (Some (Some child), cbs) \<Rightarrow>
          (case CBS_get_asn1 CBS_ASN1_BOOLEAN child of
             (None, child) \<Rightarrow> (None, cbs)
           | (Some child2, child) \<Rightarrow>
               (if CBS_len child2 \<noteq> 1 \<or> CBS_len child \<noteq> 0 then (None, cbs)
                else let boolean = CBS_data child2 ! 0 in
                     if boolean = 0 then (Some 0, cbs)
                     else if boolean = 0xff then (Some 1, cbs)
                     else (None, cbs)))
      | (Some None, cbs) \<Rightarrow> (Some default_value, cbs))"

section \<open>Bit strings\<close>

definition CBS_is_valid_asn1_bitstring :: "cbs \<Rightarrow> bool" where
  "CBS_is_valid_asn1_bitstring cbs =
     (case CBS_get_u8 cbs of
        (None, inp) \<Rightarrow> False
      | (Some num_unused_bits, inp) \<Rightarrow>
          (if num_unused_bits > 7 then False
           else if num_unused_bits = 0 then True
           else case CBS_get_last_u8 inp of
                  (None, inp) \<Rightarrow> False
                | (Some last_byte, inp) \<Rightarrow> last_byte AND (push_bit (unat num_unused_bits) 1 - 1) = 0))"

definition CBS_asn1_bitstring_has_bit :: "cbs \<Rightarrow> u32 \<Rightarrow> bool" where
  "CBS_asn1_bitstring_has_bit cbs bitn =
     (if \<not> CBS_is_valid_asn1_bitstring cbs then False
      else let byte_num = unat (drop_bit 3 bitn + 1); bit_num = unat (7 - (bitn AND 7))
           in byte_num < CBS_len cbs \<and> CBS_data cbs ! byte_num AND push_bit bit_num 1 \<noteq> 0)"

section \<open>The base-128 reader is the inverse of its encoding\<close>

lemma b128_step_val:
  assumes "drop_bit 57 v = 0"
  shows "unat (push_bit 7 v OR ucast (b AND 0x7f) :: u64) = unat v * 128 + unat (b :: u8) mod 128"
proof -
  have v: "unat v < 2 ^ 57" using assms by (simp add: drop_bit_eq_0_iff)
  have b: "unat (ucast (b AND 0x7f) :: u64) = unat b mod 128"
    using mod_less_divisor [of 128 "unat b"]
    by (simp add: unat_ucast unat_and_0x7f mod_less del: mod_less_divisor)
  have "push_bit 7 v OR ucast (b AND 0x7f) = v * 2 ^ 7 + (ucast (b AND 0x7f) :: u64)"
    by (rule push_bit_or_eq) (simp add: b)
  then have "unat (push_bit 7 v OR ucast (b AND 0x7f) :: u64)
             = (unat v * 128 mod 2 ^ 64 + unat b mod 128) mod 2 ^ 64"
    by (simp add: unat_word_ariths b)
  also have "\<dots> = unat v * 128 + unat b mod 128"
    using v mod_less_divisor [of 128 "unat b"] by (simp add: mod_less)
  finally show ?thesis .
qed

lemma unat_of_nat_hi: "unat (of_nat (128 + v mod 128) :: u8) = 128 + v mod 128"
proof -
  have "128 + v mod 128 < 256" using mod_less_divisor [of 128 v] by linarith
  then show ?thesis unfolding unat_of_nat_u8 by (rule mod_less)
qed

lemma unat_of_nat_lo: "unat (of_nat (v mod 128) :: u8) = v mod 128"
  by (simp add: unat_of_nat_u8)

lemma parse_base128_hi:
  "v < 2 ^ 57 \<Longrightarrow> parse_base128_loop 0 (b128_hi v @ bs) = parse_base128_loop (of_nat v) bs"
proof (induction v arbitrary: bs rule: b128_hi.induct)
  case (1 v)
  show ?case
  proof (cases "v = 0")
    case True
    then show ?thesis by simp
  next
    case False
    define w where "w = (of_nat (v div 128) :: u64)"
    define b where "b = (of_nat (128 + v mod 128) :: u8)"
    have ub: "unat b = 128 + v mod 128" by (simp only: b_def unat_of_nat_hi)
    from "1.prems" have w: "unat w = v div 128"
      by (simp add: w_def unat_of_nat mod_less)
    have small: "drop_bit 57 w = 0"
      using "1.prems" by (simp add: drop_bit_eq_0_iff w)
    have minimal: "\<not> (w = 0 \<and> b = 0x80)"
    proof
      assume a: "w = 0 \<and> b = 0x80"
      then have "v div 128 = 0" using w by simp
      moreover have "128 + v mod 128 = 128" using a ub by simp
      ultimately show False using False by simp
    qed
    have more: "b AND 0x80 \<noteq> 0"
      by (simp add: and_0x80_u8 ub)
    have "unat (push_bit 7 w OR ucast (b AND 0x7f)) = (v div 128) * 128 + v mod 128"
      by (simp add: b128_step_val [OF small] ub w)
    then have step: "push_bit 7 w OR ucast (b AND 0x7f) = of_nat v"
      using "1.prems" by (intro word_unat_eq_iff [THEN iffD2]) (simp add: unat_of_nat mod_less)
    have "parse_base128_loop 0 (b128_hi v @ bs) = parse_base128_loop w (b # bs)"
      using "1.IH" [OF False, of "b # bs"] "1.prems" False
      by (simp add: b128_hi_step [of v] w_def b_def)
    also have "\<dots> = parse_base128_loop (of_nat v) bs"
      using small minimal more step by (auto simp: Let_def)
    finally show ?thesis .
  qed
qed

lemma parse_base128_complete:
  assumes "v < 2 ^ 64"
  shows "parse_base128_integer (b128 v @ rest) = (Some (of_nat v), rest)"
proof -
  let ?w = "of_nat (v div 128) :: u64" and ?b = "of_nat (v mod 128) :: u8"
  have w: "unat ?w = v div 128"
    using assms by (simp add: unat_of_nat mod_less)
  have small: "drop_bit 57 ?w = 0"
    using assms by (simp add: drop_bit_eq_0_iff w)
  have stop: "?b AND 0x80 = 0"
    by (simp add: and_0x80_u8 unat_of_nat_lo)
  then have "?b \<noteq> 0x80" by auto
  have "unat (push_bit 7 ?w OR ucast (?b AND 0x7f)) = (v div 128) * 128 + v mod 128"
    by (simp add: b128_step_val [OF small] unat_of_nat_lo w)
  then have step: "push_bit 7 ?w OR ucast (?b AND 0x7f) = of_nat v"
    using assms by (intro word_unat_eq_iff [THEN iffD2]) (simp add: unat_of_nat mod_less)
  have "parse_base128_integer (b128 v @ rest) = parse_base128_loop ?w (?b # rest)"
    using assms parse_base128_hi [of "v div 128" "?b # rest"]
    by (simp add: parse_base128_integer_def b128_def)
  also have "\<dots> = (Some (of_nat v), rest)"
    using small stop \<open>?b \<noteq> 0x80\<close> step by (simp add: Let_def)
  finally show ?thesis .
qed

lemma parse_base128_loop_sound:
  "parse_base128_loop w bs = (Some v, rest) \<Longrightarrow>
   \<exists>p. bs = p @ rest \<and> p \<noteq> [] \<and> b128_hi (unat w) @ p = b128 (unat v)"
proof (induction w bs rule: parse_base128_loop.induct)
  case (1 w)
  then show ?case by simp
next
  case (2 w b bs)
  let ?w = "push_bit 7 w OR ucast (b AND 0x7f)"
  from "2.prems" have small: "drop_bit 57 w = 0" and minimal: "\<not> (w = 0 \<and> b = 0x80)"
    by (auto split: if_splits)
  have val: "unat ?w = unat w * 128 + unat b mod 128"
    by (rule b128_step_val [OF small])
  have b256: "unat b < 256" by (rule unat_u8_less)
  show ?case
  proof (cases "b AND 0x80 = 0")
    case True
    with "2.prems" small minimal have "v = ?w" and "rest = bs" by (auto simp: Let_def)
    moreover have "unat b < 128" using True by (simp add: and_0x80_u8)
    then have "b128_hi (unat w) @ [b] = b128 (unat ?w)"
      by (simp add: val b128_def)
    ultimately show ?thesis by auto
  next
    case False
    with "2.prems" small minimal have "parse_base128_loop ?w bs = (Some v, rest)"
      by (auto simp: Let_def)
    with small minimal False "2.IH" obtain p where p: "bs = p @ rest" "b128_hi (unat ?w) @ p = b128 (unat v)"
      by (auto simp: Let_def)
    have b128: "128 \<le> unat b" using False by (simp add: and_0x80_u8)
    then have bm: "unat b mod 128 = unat b - 128"
      using b256 by (simp add: mod_if)
    have pos: "0 < unat ?w"
    proof (rule ccontr)
      assume "\<not> 0 < unat ?w"
      then have "unat w = 0" and "unat b = 128" using val bm b128 by auto
      then have "w = 0" and "b = 0x80"
        using word_unat_eq_iff [of b "0x80"] by (simp_all add: unsigned_eq_0_iff)
      with minimal show False by simp
    qed
    have "unat ?w mod 128 = unat b mod 128" by (simp add: val)
    then have "128 + unat ?w mod 128 = unat b" using b128 bm by simp
    then have "(of_nat (128 + unat ?w mod 128) :: u8) = b" by (simp only: of_nat_unat ucast_id)
    then have "b128_hi (unat ?w) = b128_hi (unat w) @ [b]"
      using b128_hi_step [OF pos] val by simp
    with p show ?thesis by (intro exI [of _ "b # p"]) simp
  qed
qed

lemma parse_base128_sound:
  "parse_base128_integer bs = (Some v, rest) \<Longrightarrow> bs = b128 (unat v) @ rest"
  using parse_base128_loop_sound [of 0 bs v rest] by (auto simp: parse_base128_integer_def)

section \<open>The tag reader is the inverse of the tag encoding\<close>

lemma mask29: "(0x1fffffff :: u32) = mask 29" "(0x1fffffff :: u64) = mask 29"
  by (simp_all add: mask_eq_exp_minus_1)

lemma ucast_and_0xe0: "ucast (b :: u8) AND 0xe0 = (ucast (b AND 0xe0) :: u32)"
  unfolding bits_0xe0_u32 bits_0xe0_u8 by (rule bit_eqI) (auto simp: bit_simps)

lemma small_nat_bits:
  assumes "m < 32"
  shows "bit (m :: nat) i \<Longrightarrow> i < 5"
proof -
  have "take_bit 5 m = m" using assms by (simp add: take_bit_nat_eq_self)
  then show "bit m i \<Longrightarrow> i < 5" by (metis bit_take_bit_iff)
qed

lemma tag_byte_parts:
  assumes "m < 32"
  shows "((x AND 0xe0) OR of_nat m) AND 0xe0 = x AND (0xe0 :: u8)"
    and "((x AND 0xe0) OR of_nat m) AND 0x1f = (of_nat m :: u8)"
  unfolding bits_0xe0_u8 bits_0x1f_u8
  by (rule bit_eqI; auto simp: bit_simps dest: small_nat_bits [OF assms])+

lemma unat_and_mask29_less: "unat ((t :: u32) AND mask 29) < 2 ^ 29"
  by (simp add: unat_and_mask)

lemma parse_asn1_tag_complete: "parse_asn1_tag (der_tag t @ rest) = (Some t, rest)"
proof -
  define number where "number = unat (t AND mask 29)"
  define bits where "bits = (ucast (drop_bit 24 t) AND 0xe0 :: u8)"
  have number: "number < 2 ^ 29" "of_nat number = t AND mask 29"
    unfolding number_def by (rule unat_and_mask29_less) (simp only: of_nat_unat ucast_id)
  have compose: "push_bit 24 (ucast bits AND 0xe0) OR of_nat number = t"
    by (simp only: bits_def number(2) tag_compose)
  have bits_idem: "bits AND 0xe0 = bits"
    by (simp add: bits_def and.assoc)
  show ?thesis
  proof (cases "number < 31")
    case True
    have "ucast (of_nat number :: u8) = (of_nat number :: u32)"
      using True by (intro word_unat_eq_iff [THEN iffD2]) (simp add: unat_ucast unat_of_nat mod_less)
    moreover have "(of_nat number :: u32) \<noteq> 0x1f"
      using True by (auto simp: word_unat_eq_iff unat_of_nat mod_less)
    moreover have "der_tag t = [(bits AND 0xe0) OR of_nat number]"
      using True by (simp add: der_tag_def number_def bits_def Let_def and.assoc)
    ultimately show ?thesis
      using True compose tag_byte_parts [of number bits]
      by (simp add: parse_asn1_tag_def cbs_simps Let_def ucast_and_0xe0 bits_idem)
  next
    case False
    have tagb: "der_tag t = ((bits AND 0xe0) OR of_nat 31) # b128 number"
      using False by (simp add: der_tag_def number_def bits_def Let_def and.assoc)
    have v: "parse_base128_integer (b128 number @ rest) = (Some (of_nat number), rest)"
      using number(1) by (intro parse_base128_complete) simp
    have "unat (of_nat number :: u64) = number"
      using number(1) by (simp add: unat_of_nat mod_less)
    then have "\<not> (of_nat number > (ucast CBS_ASN1_TAG_NUMBER_MASK :: u64) \<or> of_nat number < (0x1f :: u64))"
      using False number(1) by (simp add: word_less_iff_unsigned [where 'a = nat] unat_ucast)
    moreover have "ucast (of_nat number :: u64) = (of_nat number :: u32)"
      using number(1) by (intro word_unat_eq_iff [THEN iffD2]) (simp add: unat_ucast unat_of_nat mod_less)
    ultimately show ?thesis
      using compose tag_byte_parts [of 31 bits] v
      by (simp add: parse_asn1_tag_def cbs_simps Let_def tagb ucast_and_0xe0 bits_idem)
  qed
qed

lemma parse_asn1_tag_sound:
  assumes "parse_asn1_tag cbs = (Some t, rest)"
  shows "cbs = der_tag t @ rest"
proof -
  from assms obtain b cbs1 where cbs: "cbs = b # cbs1"
    by (cases cbs) (auto simp: parse_asn1_tag_def cbs_simps)
  let ?num = "ucast (b AND 0x1f) :: u32"
  have num: "unat ?num = unat (b AND 0x1f)" "unat (b AND 0x1f) < 32"
    using unat_and_mask [of b 5] by (simp_all add: unat_ucast bits_0x1f_u8)
  show ?thesis
  proof (cases "?num = 0x1f")
    case False
    with assms cbs have t: "t = push_bit 24 (ucast b AND 0xe0) OR ?num" and rest: "rest = cbs1"
      by (auto simp: parse_asn1_tag_def cbs_simps Let_def)
    have small: "unat ?num < 2 ^ 29" using num by simp
    have "unat ?num \<noteq> 31" using False by (auto simp: word_unat_eq_iff)
    then have "unat ?num < 31" using num by linarith
    then have "der_tag t = [(b AND 0xe0) OR of_nat (unat (b AND 0x1f))]"
      unfolding t der_tag_def tag_number_of [OF small] tag_bits_of [OF small]
      by (simp only: Let_def num(1) if_True)
    also have "of_nat (unat (b AND 0x1f)) = b AND 0x1f" by (simp only: of_nat_unat ucast_id)
    finally show ?thesis by (simp add: cbs rest tag_byte_split)
  next
    case True
    with assms cbs obtain v where v: "parse_base128_integer cbs1 = (Some v, rest)"
      and t: "t = push_bit 24 (ucast b AND 0xe0) OR ucast v"
      and range: "\<not> v > ucast CBS_ASN1_TAG_NUMBER_MASK" "\<not> v < 0x1f"
      by (auto simp: parse_asn1_tag_def cbs_simps Let_def split: option.splits prod.splits if_splits)
    have uv: "unat v < 2 ^ 29" "31 \<le> unat v"
      using range by (simp_all add: word_less_iff_unsigned [where 'a = nat] unat_ucast)
    then have uc: "unat (ucast v :: u32) = unat v"
      by (simp add: unat_ucast)
    have small: "unat (ucast v :: u32) < 2 ^ 29" using uv uc by simp
    have "b AND 0x1f = 0x1f"
      using True num by (simp add: word_unat_eq_iff)
    then have "(b AND 0xe0) OR 0x1f = b"
      using tag_byte_split [of b] by simp
    moreover have "der_tag t = ((b AND 0xe0) OR 0x1f) # b128 (unat v)"
      unfolding t der_tag_def tag_number_of [OF small] tag_bits_of [OF small]
      using uv by (simp add: Let_def uc)
    ultimately show ?thesis
      using parse_base128_sound [OF v] by (simp add: cbs)
  qed
qed

section \<open>The element reader accepts exactly the DER encodings\<close>

lemma length_b128_hi: "v < 128 ^ k \<Longrightarrow> length (b128_hi v) \<le> k"
proof (induction k arbitrary: v)
  case 0
  then show ?case by simp
next
  case (Suc k)
  show ?case
  proof (cases "v = 0")
    case False
    from Suc.prems have "v div 128 < 128 ^ k" by (simp add: less_mult_imp_div_less mult.commute)
    from Suc.IH [OF this] False show ?thesis by (simp add: b128_hi_step)
  qed simp
qed

lemma length_der_tag: "length (der_tag t) \<le> 6"
proof -
  define number where "number = unat (t AND mask 29)"
  have "number div 128 < 128 ^ 4"
    using unat_and_mask29_less [of t] by (simp add: number_def)
  then have "length (b128 number) \<le> 5"
    using length_b128_hi [of "number div 128" 4] by (simp add: b128_def)
  then show ?thesis by (simp add: der_tag_def Let_def number_def)
qed

lemma asn1_take_eq:
  "asn1_take n tag hl cbs =
     (if length cbs < n then (None, cbs) else (Some (take n cbs, tag, hl), drop n cbs))"
  by (simp add: asn1_take_def CBS_get_bytes_eq)

definition der_header_len :: "u32 \<Rightarrow> nat \<Rightarrow> nat" where
  "der_header_len tag n = length (der_tag tag) + length (der_len n)"

lemma length_der_element: "length (der_element tag c) = der_header_len tag (length c) + length c"
  by (simp add: der_element_def der_header_len_def)

lemma length_byte_long:
  assumes "1 \<le> k" and "k \<le> 4"
  shows "(of_nat (128 + k) :: u8) AND 0x80 \<noteq> 0" and "unat ((of_nat (128 + k) :: u8) AND 0x7f) = k"
proof -
  have "k = 1 \<or> k = 2 \<or> k = 3 \<or> k = 4" using assms by auto
  then show "(of_nat (128 + k) :: u8) AND 0x80 \<noteq> 0" and "unat ((of_nat (128 + k) :: u8) AND 0x7f) = k"
    by auto
qed

lemma cbs_get_any_asn1_element_complete:
  assumes "length c < 2 ^ 32"
  shows "cbs_get_any_asn1_element ber_ok (der_element tag c @ rest)
         = (Some (der_element tag c, tag, der_header_len tag (length c)), rest)"
proof -
  define n where "n = length c"
  let ?all = "der_element tag c @ rest"
  have all: "?all = der_tag tag @ (der_len n @ c @ rest)"
    by (simp add: der_element_def n_def)
  have tag: "parse_asn1_tag ?all = (Some tag, der_len n @ c @ rest)"
    unfolding all by (rule parse_asn1_tag_complete)
  have hl: "der_header_len tag n \<le> 11"
    using length_der_tag [of tag] len_octets_bounds [of n] by (simp add: der_header_len_def der_len_def)
  have take: "asn1_take (n + der_header_len tag n) tag (der_header_len tag n) ?all
              = (Some (der_element tag c, tag, der_header_len tag n), rest)"
    by (simp add: asn1_take_eq n_def length_der_element)
  show ?thesis
  proof (cases "n < 128")
    case True
    have "unat (of_nat n :: u8) = n" using True by (simp add: unat_of_nat)
    moreover have "(of_nat n :: u8) AND 0x80 = 0"
      using True by (simp add: and_0x80_u8 unat_of_nat)
    ultimately show ?thesis
      using True take tag
      by (simp add: cbs_get_any_asn1_element_def der_len_def cbs_simps Let_def CBS_len_def
          der_header_len_def n_def der_element_def)
  next
    case False
    define k where "k = len_octets n"
    have k: "1 \<le> k" "k \<le> 4" using len_octets_bounds [of n] by (simp_all add: k_def)
    have n32: "n < 2 ^ 32" using assms by (simp add: n_def)
    have long: "der_len n = of_nat (128 + k) # be_bytes k n"
      using False by (simp add: der_len_def k_def)
    have "be_val (be_bytes k n) = n"
      using len_octets_less [OF n32] by (simp add: be_val_be_bytes k_def)
    then have get: "cbs_get_u k (be_bytes k n @ c @ rest) = (Some (of_nat n), c @ rest)"
      using k by (simp add: cbs_simps)
    have un: "unat (of_nat n :: u64) = n" using n32 by (simp add: unat_of_nat)
    have "\<not> (of_nat n :: u64) < 128"
      using False un by (simp add: word_less_iff_unsigned [where 'a = nat])
    moreover have "drop_bit ((k - 1) * 8) (of_nat n :: u64) \<noteq> 0"
      using len_octets_ge [of n] False by (simp add: drop_bit_eq_0_iff un k_def pow_256)
    moreover have "der_header_len tag n = length (der_tag tag) + 1 + k"
      by (simp add: der_header_len_def long)
    ultimately show ?thesis
      using tag take get un n32 hl k length_byte_long [OF k]
      by (simp add: cbs_get_any_asn1_element_def long cbs_simps Let_def CBS_len_def mod_less
          der_element_def flip: n_def del: of_nat_add)
  qed
qed

lemma cbs_get_any_asn1_element_sound:
  assumes "cbs_get_any_asn1_element False cbs = (Some (out, tag, hl), rest)"
  shows "\<exists>c. length c < 2 ^ 32 \<and> out = der_element tag c \<and> hl = der_header_len tag (length c)
             \<and> cbs = out @ rest"
proof -
  from assms obtain h1 where tag: "parse_asn1_tag cbs = (Some tag, h1)"
    by (auto simp: cbs_get_any_asn1_element_def Let_def asn1_take_eq
        split: option.splits prod.splits if_splits)
  from assms tag obtain lb h2 where h1: "h1 = lb # h2"
    by (cases h1) (auto simp: cbs_get_any_asn1_element_def cbs_simps)
  define hdr where "hdr = length (der_tag tag) + 1"
  have cbs: "cbs = der_tag tag @ lb # h2"
    using parse_asn1_tag_sound [OF tag] h1 by simp
  have hlen: "CBS_len cbs - CBS_len h2 = hdr"
    by (simp add: cbs CBS_len_def hdr_def)
  note unf = assms [unfolded cbs_get_any_asn1_element_def tag h1 CBS_get_u8_Cons prod.case option.case
      hlen Let_def]
  show ?thesis
  proof (cases "lb AND 0x80 = 0")
    case True
    define n where "n = unat lb"
    have n: "n < 128" using True by (simp add: and_0x80_u8 n_def)
    have lb: "der_len n = [lb]"
      using n by (simp add: der_len_def n_def)
    from unf True have le: "n + hdr \<le> length cbs" and out: "out = take (n + hdr) cbs"
      and hl: "hl = hdr" and rest: "rest = drop (n + hdr) cbs"
      by (auto simp: asn1_take_eq n_def split: if_splits)
    have len: "length (take n h2) = n"
      using le by (simp add: cbs hdr_def)
    have "out = der_element tag (take n h2)"
      by (simp add: out cbs hdr_def der_element_def len lb del: length_take)
    moreover have "cbs = out @ rest" by (simp add: out rest)
    moreover have "hl = der_header_len tag (length (take n h2))"
      by (simp add: hl hdr_def der_header_len_def len lb del: length_take)
    ultimately show ?thesis using len n by (intro exI [of _ "take n h2"]) simp
  next
    case False
    define k where "k = unat (lb AND 0x7f)"
    from unf False obtain len64 h3 where k: "1 \<le> k" "k \<le> 4"
      and get: "cbs_get_u k h2 = (Some len64, h3)"
      and big: "\<not> len64 < 128" and minimal: "drop_bit ((k - 1) * 8) len64 \<noteq> 0"
      and sum: "\<not> (unat len64 + hdr + k) mod 2 ^ 64 < unat len64"
      and tk: "asn1_take ((unat len64 + (hdr + k)) mod 2 ^ 64) tag (hdr + k) cbs
               = (Some (out, tag, hl), rest)"
      by (auto simp: k_def [symmetric] not_less Suc_le_eq split: option.splits prod.splits if_splits)
    have h2: "length h2 \<ge> k" and len64: "len64 = of_nat (be_val (take k h2))" and h3: "h3 = drop k h2"
      using get k by (auto simp: cbs_get_u_eq split: if_splits)
    have lk: "length (take k h2) = k" using h2 by simp
    define n where "n = be_val (take k h2)"
    have nk: "n < 256 ^ k"
      using be_val_less [of "take k h2"] h2 by (simp add: n_def)
    have "(256::nat) ^ k \<le> 256 ^ 4" using k by (intro power_increasing) simp_all
    then have n32: "n < 2 ^ 32" using nk by simp
    then have un: "unat len64 = n" by (simp add: len64 n_def [symmetric] unat_of_nat)
    have n128: "128 \<le> n" using big un by (simp add: word_less_iff_unsigned [where 'a = nat])
    have "256 ^ (k - 1) \<le> n"
      using minimal by (simp add: drop_bit_eq_0_iff un pow_256)
    then have octets: "len_octets n = k" using nk k by (intro len_octets_unique)
    have "unat (of_nat (128 + k) :: u8) = unat lb"
    proof -
      have "128 \<le> unat lb" using False by (simp add: and_0x80_u8)
      moreover have "k = unat lb mod 128" by (simp add: k_def unat_and_0x7f)
      ultimately have "128 + k = unat lb" using unat_u8_less [of lb] by (simp add: le_mod_geq)
      then show ?thesis by (simp only: of_nat_unat ucast_id)
    qed
    then have lb: "(of_nat (128 + k) :: u8) = lb" by (simp only: word_unat_eq_iff)
    have dl: "der_len n = lb # take k h2"
      using n128 octets lb be_bytes_be_val [of "take k h2"] h2 by (simp add: der_len_def n_def)
    have hd: "hdr \<le> 7" using length_der_tag [of tag] by (simp add: hdr_def)
    have "(unat len64 + (hdr + k)) mod 2 ^ 64 = n + (hdr + k)"
      using n32 hd k by (simp add: un)
    with tk have le: "n + (hdr + k) \<le> length cbs" and out: "out = take (n + (hdr + k)) cbs"
      and hl: "hl = hdr + k" and rest: "rest = drop (n + (hdr + k)) cbs"
      by (auto simp: asn1_take_eq split: if_splits)
    have len: "length (take n h3) = n"
      using le h2 by (simp add: cbs hdr_def h3)
    have split: "h2 = take k h2 @ h3" by (simp add: h3)
    have "out = take (n + (hdr + k)) (der_tag tag @ lb # take k h2 @ h3)"
      unfolding out cbs using split by simp
    also have "\<dots> = der_tag tag @ (lb # take k h2) @ take n h3"
      using h2 by (simp add: hdr_def min_def)
    finally have out': "out = der_element tag (take n h3)"
      by (simp add: der_element_def len dl del: length_take)
    moreover have "cbs = out @ rest" by (simp add: out rest)
    moreover have "hl = der_header_len tag (length (take n h3))"
      using lk by (simp add: hl hdr_def der_header_len_def len dl del: length_take)
    ultimately show ?thesis using len n32 by (intro exI [of _ "take n h3"]) simp
  qed
qed

theorem CBS_get_any_asn1_element_iff:
  "CBS_get_any_asn1_element cbs = (Some (out, tag, hl), rest) \<longleftrightarrow>
   (\<exists>c. length c < 2 ^ 32 \<and> out = der_element tag c \<and> hl = der_header_len tag (length c)
        \<and> cbs = out @ rest)"
  unfolding CBS_get_any_asn1_element_def
  using cbs_get_any_asn1_element_sound cbs_get_any_asn1_element_complete by blast

lemma CBS_get_any_asn1_element_None:
  "CBS_get_any_asn1_element cbs = (None, rest) \<Longrightarrow> rest = cbs"
  by (auto simp: CBS_get_any_asn1_element_def cbs_get_any_asn1_element_def Let_def asn1_take_eq
      split: option.splits prod.splits if_splits)

lemma der_header_take:
  "CBS_skip (der_header_len tag (length c)) (der_element tag c) = (Some (), c)"
  by (simp add: CBS_skip_eq length_der_element) (simp add: der_element_def der_header_len_def)

theorem CBS_get_any_asn1_iff:
  "CBS_get_any_asn1 cbs = (Some (c, tag), rest) \<longleftrightarrow> length c < 2 ^ 32 \<and> cbs = der_element tag c @ rest"
proof
  assume "CBS_get_any_asn1 cbs = (Some (c, tag), rest)"
  then obtain out hl where el: "CBS_get_any_asn1_element cbs = (Some (out, tag, hl), rest)"
    and skip: "fst (CBS_skip hl out) = Some ()" "snd (CBS_skip hl out) = c"
    by (auto simp: CBS_get_any_asn1_def split: option.splits prod.splits)
  from el skip show "length c < 2 ^ 32 \<and> cbs = der_element tag c @ rest"
    by (auto simp: CBS_get_any_asn1_element_iff der_header_take)
next
  assume a: "length c < 2 ^ 32 \<and> cbs = der_element tag c @ rest"
  then have "CBS_get_any_asn1_element cbs
             = (Some (der_element tag c, tag, der_header_len tag (length c)), rest)"
    by (auto simp: CBS_get_any_asn1_element_iff)
  then show "CBS_get_any_asn1 cbs = (Some (c, tag), rest)"
    by (simp add: CBS_get_any_asn1_def der_header_take)
qed

text \<open>Two DER elements at the head of the same bytes are the same element.\<close>

lemma der_element_unique:
  assumes "der_element t c @ r = der_element t' c' @ r'"
    and "length c < 2 ^ 32" and "length c' < 2 ^ 32"
  shows "t = t' \<and> c = c' \<and> r = r'"
proof -
  have "CBS_get_any_asn1 (der_element t c @ r) = (Some (c, t), r)"
    using assms(2) by (simp add: CBS_get_any_asn1_iff)
  moreover have "CBS_get_any_asn1 (der_element t c @ r) = (Some (c', t'), r')"
    using assms(1,3) by (simp add: CBS_get_any_asn1_iff)
  ultimately show ?thesis by simp
qed

lemma CBS_get_asn1_iff:
  "CBS_get_asn1 tag cbs = (Some c, rest) \<longleftrightarrow> length c < 2 ^ 32 \<and> cbs = der_element tag c @ rest"
proof
  assume "CBS_get_asn1 tag cbs = (Some c, rest)"
  then obtain out hl where el: "CBS_get_any_asn1_element cbs = (Some (out, tag, hl), rest)"
    and skip: "fst (CBS_skip hl out) = Some ()" "snd (CBS_skip hl out) = c"
    by (auto simp: CBS_get_asn1_def cbs_get_asn1_def split: option.splits prod.splits if_splits)
  from el skip show "length c < 2 ^ 32 \<and> cbs = der_element tag c @ rest"
    by (auto simp: CBS_get_any_asn1_element_iff der_header_take)
next
  assume a: "length c < 2 ^ 32 \<and> cbs = der_element tag c @ rest"
  then have "CBS_get_any_asn1_element cbs
             = (Some (der_element tag c, tag, der_header_len tag (length c)), rest)"
    by (auto simp: CBS_get_any_asn1_element_iff)
  then show "CBS_get_asn1 tag cbs = (Some c, rest)"
    by (simp add: CBS_get_asn1_def cbs_get_asn1_def der_header_take)
qed

lemma CBS_get_asn1_complete [cbs_simps]:
  "length c < 2 ^ 32 \<Longrightarrow> CBS_get_asn1 tag (der_element tag c @ rest) = (Some c, rest)"
  by (simp add: CBS_get_asn1_iff)

lemma CBS_get_asn1_element_iff:
  "CBS_get_asn1_element tag cbs = (Some out, rest) \<longleftrightarrow>
   (\<exists>c. length c < 2 ^ 32 \<and> out = der_element tag c \<and> cbs = out @ rest)"
proof
  assume "CBS_get_asn1_element tag cbs = (Some out, rest)"
  then obtain hl where "CBS_get_any_asn1_element cbs = (Some (out, tag, hl), rest)"
    by (auto simp: CBS_get_asn1_element_def cbs_get_asn1_def split: option.splits prod.splits if_splits)
  then show "\<exists>c. length c < 2 ^ 32 \<and> out = der_element tag c \<and> cbs = out @ rest"
    by (auto simp: CBS_get_any_asn1_element_iff)
next
  assume "\<exists>c. length c < 2 ^ 32 \<and> out = der_element tag c \<and> cbs = out @ rest"
  then obtain c where "length c < 2 ^ 32 \<and> out = der_element tag c \<and> cbs = out @ rest" ..
  then have "CBS_get_any_asn1_element cbs = (Some (out, tag, der_header_len tag (length c)), rest)"
    unfolding CBS_get_any_asn1_element_iff by blast
  then show "CBS_get_asn1_element tag cbs = (Some out, rest)"
    by (simp add: CBS_get_asn1_element_def cbs_get_asn1_def)
qed

text \<open>A reader that expected another tag has consumed the element all the same.\<close>

lemma CBS_get_asn1_wrong_tag:
  assumes "tag \<noteq> tag'" and "length c < 2 ^ 32"
  shows "CBS_get_asn1 tag (der_element tag' c @ rest) = (None, rest)"
proof -
  have "CBS_get_any_asn1_element (der_element tag' c @ rest)
        = (Some (der_element tag' c, tag', der_header_len tag' (length c)), rest)"
    using assms(2) by (auto simp: CBS_get_any_asn1_element_iff)
  then show ?thesis using assms(1) by (simp add: CBS_get_asn1_def cbs_get_asn1_def)
qed

lemma CBS_peek_asn1_tag_iff:
  "CBS_peek_asn1_tag cbs tag \<longleftrightarrow> (\<exists>rest. cbs = der_tag tag @ rest)"
proof
  assume "CBS_peek_asn1_tag cbs tag"
  then obtain rest where "parse_asn1_tag cbs = (Some tag, rest)"
    by (auto simp: CBS_peek_asn1_tag_def split: if_splits prod.splits option.splits)
  then show "\<exists>rest. cbs = der_tag tag @ rest" by (blast dest: parse_asn1_tag_sound)
next
  assume "\<exists>rest. cbs = der_tag tag @ rest"
  then obtain rest where cbs: "cbs = der_tag tag @ rest" ..
  have "\<not> CBS_len cbs < 1"
    by (simp add: cbs CBS_len_def Suc_le_eq)
  then show "CBS_peek_asn1_tag cbs tag"
    using parse_asn1_tag_complete [of tag rest] by (simp add: CBS_peek_asn1_tag_def cbs)
qed

section \<open>Properties\<close>

text \<open>
  C1: The reader accepts exactly DER: \<open>CBS_get_any_asn1\<close> returns contents and tag, and leaves the rest,
  precisely when the input is the DER encoding of an element with that tag and those contents (of less
  than \<open>2 ^ 32\<close> bytes) followed by the rest.
\<close>

theorem reader_accepts_exactly_der:
  "CBS_get_any_asn1 cbs = (Some (c, tag), rest) \<longleftrightarrow> length c < 2 ^ 32 \<and> cbs = der_element tag c @ rest"
  by (rule CBS_get_any_asn1_iff)

text \<open>
  When the next element has another tag, \<open>CBS_get_asn1\<close> fails and has nevertheless taken the element
  off the input.
\<close>

theorem wrong_tag_consumes_element:
  assumes "tag \<noteq> tag'" and "length c < 2 ^ 32"
  shows "CBS_get_asn1 tag (der_element tag' c @ rest) = (None, rest)"
  using assms by (rule CBS_get_asn1_wrong_tag)

end
