(* ===== verification/Asn1Types.thy ===== *)
theory Asn1Types
  imports Asn1Parse
begin

text \<open>
  What the typed readers of \<open>Asn1Parse\<close> accept and return, stated against the encodings of \<open>Der\<close>.
\<close>

section \<open>INTEGER as uint64_t\<close>

lemma be_acc_ge: "a \<le> be_acc a bs"
proof -
  have "a * 1 \<le> a * 256 ^ length bs" by (intro mult_le_mono) simp_all
  then show ?thesis unfolding be_acc_val [of a] by (metis mult_1_right trans_le_add1)
qed

lemma asn1_uint64_loop_eq:
  "asn1_uint64_loop out ds
   = (if be_acc (unat out) ds < 2 ^ 64 then Some (of_nat (be_acc (unat out) ds)) else None)"
proof (induction ds arbitrary: out)
  case Nil
  show ?case using unat_less_64 [of out] by simp
next
  case (Cons d ds)
  show ?case
  proof (cases "drop_bit 56 out = 0")
    case True
    then have small: "unat out < 2 ^ 56" by (simp add: drop_bit_eq_0_iff)
    have "unat (push_bit 8 out OR ucast d) = (256 * unat out + unat d) mod 2 ^ 64"
      by (simp add: shift_or_byte_64 unat_word_ariths unat_ucast mod_simps mult.commute)
    also have "\<dots> = 256 * unat out + unat d"
      using small unat_u8_less [of d] by simp
    finally show ?thesis using True by (simp add: Cons.IH)
  next
    case False
    then have "2 ^ 56 \<le> unat out" by (simp add: drop_bit_eq_0_iff)
    then have "2 ^ 64 \<le> 256 * unat out + unat d" by simp
    also have "\<dots> \<le> be_acc (unat out) (d # ds)" using be_acc_ge by simp
    finally show ?thesis using False by simp
  qed
qed

lemma int_minimal_checks:
  "data \<noteq> [] \<Longrightarrow> int_minimal data \<longleftrightarrow>
     \<not> (data ! 0 = 0 \<and> length data > 1 \<and> data ! 1 AND 0x80 = 0) \<and>
     \<not> (data ! 0 = 0xff \<and> length data > 1 \<and> data ! 1 AND 0x80 \<noteq> 0)"
proof (cases data rule: int_minimal.cases)
  case (3 b c bs)
  then show ?thesis using u8_eq_iffs [of b] by (auto simp: and_0x80_u8)
qed auto

lemma sval_nonneg_val: "bs \<noteq> [] \<Longrightarrow> unat (hd bs) < 128 \<Longrightarrow> sval bs = int (be_val bs)"
  by (simp add: sval_def)

lemma CBS_get_asn1_uint64_Some:
  "CBS_get_asn1_uint64 cbs = (Some v, rest) \<longleftrightarrow>
   (\<exists>data. CBS_get_asn1 CBS_ASN1_INTEGER cbs = (Some data, rest) \<and> data \<noteq> [] \<and> int_minimal data
           \<and> unat (hd data) < 128 \<and> be_val data = unat v)"
proof
  assume "CBS_get_asn1_uint64 cbs = (Some v, rest)"
  then obtain data where get: "CBS_get_asn1 CBS_ASN1_INTEGER cbs = (Some data, rest)"
    and ne: "data \<noteq> []" and pos: "data ! 0 AND 0x80 = 0"
    and min: "\<not> (data ! 0 = 0 \<and> length data > 1 \<and> data ! 1 AND 0x80 = 0)"
    and loop: "asn1_uint64_loop 0 data = Some v"
    by (auto simp: CBS_get_asn1_uint64_def Let_def CBS_data_def CBS_len_def
        split: option.splits prod.splits if_splits)
  have hd: "unat (hd data) < 128" using pos ne by (simp add: hd_conv_nth and_0x80_u8)
  then have "data ! 0 \<noteq> 0xff" using ne by (auto simp: hd_conv_nth)
  then have "int_minimal data" using min ne by (simp add: int_minimal_checks)
  moreover have "be_val data = unat v"
    using loop by (auto simp: asn1_uint64_loop_eq be_val_def unat_of_nat split: if_splits)
  ultimately show "\<exists>data. CBS_get_asn1 CBS_ASN1_INTEGER cbs = (Some data, rest) \<and> data \<noteq> []
      \<and> int_minimal data \<and> unat (hd data) < 128 \<and> be_val data = unat v"
    using get ne hd by blast
next
  assume "\<exists>data. CBS_get_asn1 CBS_ASN1_INTEGER cbs = (Some data, rest) \<and> data \<noteq> []
      \<and> int_minimal data \<and> unat (hd data) < 128 \<and> be_val data = unat v"
  then obtain data where get: "CBS_get_asn1 CBS_ASN1_INTEGER cbs = (Some data, rest)"
    and ne: "data \<noteq> []" and min: "int_minimal data" and hd: "unat (hd data) < 128"
    and v: "be_val data = unat v" by blast
  have loop: "asn1_uint64_loop 0 data = Some v"
    using v by (simp add: asn1_uint64_loop_eq be_val_def)
  have "data ! 0 AND 0x80 = 0" using hd ne by (simp add: hd_conv_nth and_0x80_u8)
  moreover have "\<not> (data ! 0 = 0 \<and> length data > 1 \<and> data ! 1 AND 0x80 = 0)"
    using min ne by (simp add: int_minimal_checks)
  ultimately show "CBS_get_asn1_uint64 cbs = (Some v, rest)"
    using get ne loop by (auto simp: CBS_get_asn1_uint64_def Let_def CBS_data_def CBS_len_def)
qed

lemma length_der_int_small:
  assumes "- (2 ^ 71) \<le> i" and "i < 2 ^ 71"
  shows "length (der_int i) \<le> 9"
  using int_octets_le [of 8 i] assms by (simp add: length_der_int)

lemma CBS_get_asn1_uint64_iff:
  "CBS_get_asn1_uint64 cbs = (Some v, rest) \<longleftrightarrow>
   cbs = der_element CBS_ASN1_INTEGER (der_int (int (unat v))) @ rest"
proof -
  have v: "unat v < 2 ^ 64" by simp
  have "int (unat v) < int (2 ^ 64)" using v by (simp only: of_nat_less_iff)
  then have "int (unat v) < 2 ^ 71" by simp
  moreover have "- (2 ^ 71) \<le> int (unat v)" by (rule order_trans [of _ 0]) simp_all
  ultimately have "length (der_int (int (unat v))) \<le> 9" by (intro length_der_int_small)
  then have short: "length (der_int (int (unat v))) < 2 ^ 32" by simp
  have "(data \<noteq> [] \<and> int_minimal data \<and> unat (hd data) < 128 \<and> be_val data = unat v)
        \<longleftrightarrow> data = der_int (int (unat v))" for data
  proof
    assume a: "data \<noteq> [] \<and> int_minimal data \<and> unat (hd data) < 128 \<and> be_val data = unat v"
    then have "sval data = int (unat v)" by (simp add: sval_nonneg_val del: of_nat_unat)
    then show "data = der_int (int (unat v))" using a der_int_sval [of data] by simp
  next
    assume a: "data = der_int (int (unat v))"
    have "unat (hd data) < 128"
      using sval_nonneg_iff [of data] sval_der_int [of "int (unat v)"] by (simp add: a)
    moreover from this have "int (be_val data) = int (unat v)"
      using sval_nonneg_val [of data] sval_der_int [of "int (unat v)"] by (simp add: a del: of_nat_unat)
    then have "be_val data = unat v" by (simp only: of_nat_eq_iff)
    ultimately show "data \<noteq> [] \<and> int_minimal data \<and> unat (hd data) < 128 \<and> be_val data = unat v"
      using int_minimal_der_int by (simp add: a)
  qed
  then show ?thesis
    unfolding CBS_get_asn1_uint64_Some CBS_get_asn1_iff using short by auto
qed

lemma word_of_int_eq_iff_mod64: "(word_of_int i :: u64) = word_of_int j \<longleftrightarrow> i mod 2 ^ 64 = j mod 2 ^ 64"
  by (simp add: word_of_int_eq_iff take_bit_eq_mod)

lemma sint_word_of_int64: "sint (word_of_int i :: u64) = signed_take_bit 63 i"
  by (simp add: signed_of_int)

section \<open>INTEGER as int64_t\<close>

lemma be_val_replicate_0: "be_val (replicate m 0) = 0"
  by (induction m) (simp_all add: be_val_Cons)

lemma be_val_replicate_ff: "be_val (replicate m 0xff) + 1 = 256 ^ m"
  by (induction m) (simp_all add: be_val_Cons)

lemma map_rev_nth: "map (\<lambda>i. data ! (length data - i - 1)) [0..<length data] = rev data"
  by (rule nth_equalityI) (simp_all add: rev_nth)

text \<open>Sign extension to eight bytes keeps the value.\<close>

lemma int64_of_bytes_sval:
  assumes "data \<noteq> []" and "length data \<le> 8"
  shows "sint (int64_of_bytes (write_at (replicate 8 (if 128 \<le> unat (hd data) then 0xff else 0)) 0
           (rev data))) = sval data"
proof -
  define m where "m = 8 - length data"
  define fill where "fill = (if 128 \<le> unat (hd data) then 0xff else 0 :: u8)"
  have m: "m + length data = 8" using assms by (simp add: m_def)
  have "write_at (replicate 8 fill) 0 (rev data) = rev data @ replicate m fill"
    using assms by (simp add: write_at_def m_def)
  then have val: "be_val (rev (write_at (replicate 8 fill) 0 (rev data)))
             = be_val (replicate m fill) * 256 ^ length data + be_val data"
    by (simp add: be_val_append)
  have p: "(256::nat) ^ m * 256 ^ length data = 2 ^ 64"
    using m by (simp flip: power_add)
  have eq: "int (be_val (replicate m fill) * 256 ^ length data + be_val data) mod 2 ^ 64
            = sval data mod 2 ^ 64"
  proof (cases "128 \<le> unat (hd data)")
    case True
    then have "be_val (replicate m fill) = 256 ^ m - 1"
      using be_val_replicate_ff [of m] by (simp add: fill_def)
    then have "be_val (replicate m fill) * 256 ^ length data = 2 ^ 64 - 256 ^ length data"
      using p by (simp add: diff_mult_distrib)
    moreover have "(256::nat) ^ length data \<le> 256 ^ 8"
      using assms by (intro power_increasing) simp_all
    ultimately have "int (be_val (replicate m fill) * 256 ^ length data + be_val data)
                     = sval data + 2 ^ 64"
      using True assms by (simp add: sval_def of_nat_diff)
    then show ?thesis by simp
  next
    case False
    then show ?thesis using assms by (simp add: fill_def be_val_replicate_0 sval_def)
  qed
  have "(256::int) ^ (length data - 1) \<le> 256 ^ 7"
    using assms by (intro power_increasing) auto
  then have "- (2 ^ 63) \<le> sval data" "sval data < 2 ^ 63"
    using sval_range [OF assms(1)] by simp_all
  then have "signed_take_bit 63 (sval data) = sval data"
    by (intro signed_take_bit_int_eq_self) simp_all
  moreover have "int64_of_bytes (write_at (replicate 8 fill) 0 (rev data)) = word_of_int (sval data)"
    using eq unfolding int64_of_bytes_def val by (metis of_int_of_nat_eq word_of_int_eq_iff_mod64)
  ultimately show ?thesis by (simp add: fill_def sint_word_of_int64)
qed

lemma CBS_get_asn1_int64_Some:
  "CBS_get_asn1_int64 cbs = (Some v, rest) \<longleftrightarrow>
   (\<exists>data. CBS_get_asn1 CBS_ASN1_INTEGER cbs = (Some data, rest) \<and> data \<noteq> [] \<and> length data \<le> 8
           \<and> int_minimal data \<and> sint v = sval data)"
proof -
  define val where "val data = int64_of_bytes (write_at
      (replicate 8 (if data ! 0 AND 0x80 \<noteq> 0 then 0xff else 0)) 0
      (map (\<lambda>i. data ! (length data - i - 1)) [0..<length data]))" for data
  have val: "v = val data \<longleftrightarrow> sint v = sval data" if "data \<noteq> []" "length data \<le> 8" for data
  proof -
    have fill: "(if data ! 0 AND 0x80 \<noteq> 0 then 0xff else 0 :: u8)
               = (if 128 \<le> unat (hd data) then 0xff else 0)"
      using that by (simp add: hd_conv_nth and_0x80_u8)
    have "sint (val data) = sval data"
      unfolding val_def map_rev_nth fill using that by (rule int64_of_bytes_sval)
    then show ?thesis using signed_word_eqI [of v "val data"] by metis
  qed
  have code: "CBS_get_asn1_int64 cbs =
     (case CBS_get_asn1 CBS_ASN1_INTEGER cbs of
        (None, cbs) \<Rightarrow> (None, cbs)
      | (Some data, cbs) \<Rightarrow>
          (if length data = 0 \<or> length data > 8 then (None, cbs)
           else if length data > 1 \<and> data ! 0 = 0 \<and> data ! 1 AND 0x80 = 0 then (None, cbs)
           else if length data > 1 \<and> data ! 0 = 0xff \<and> data ! 1 AND 0x80 \<noteq> 0 then (None, cbs)
           else (Some (val data), cbs)))"
    by (simp only: CBS_get_asn1_int64_def val_def Let_def CBS_data_def CBS_len_def)
  obtain r cbs' where get: "CBS_get_asn1 CBS_ASN1_INTEGER cbs = (r, cbs')" by fastforce
  show ?thesis
  proof (cases r)
    case None
    then show ?thesis by (simp add: code get)
  next
    case (Some data)
    show ?thesis
    proof (cases "data \<noteq> [] \<and> length data \<le> 8")
      case True
      define A where "A \<longleftrightarrow> length data > 1 \<and> data ! 0 = 0 \<and> data ! 1 AND 0x80 = 0"
      define B where "B \<longleftrightarrow> length data > 1 \<and> data ! 0 = 0xff \<and> data ! 1 AND 0x80 \<noteq> 0"
      have min: "int_minimal data \<longleftrightarrow> \<not> A \<and> \<not> B"
        unfolding A_def B_def int_minimal_checks [OF conjunct1 [OF True]] by blast
      have "CBS_get_asn1_int64 cbs = (if A \<or> B then None else Some (val data), cbs')"
        unfolding code get Some prod.case option.case A_def [symmetric] B_def [symmetric]
        using True by simp
      then show ?thesis using True val [of data] min by (auto simp: get Some)
    next
      case False
      then show ?thesis by (auto simp: code get Some)
    qed
  qed
qed

lemma CBS_get_asn1_int64_iff:
  "CBS_get_asn1_int64 cbs = (Some v, rest) \<longleftrightarrow>
   cbs = der_element CBS_ASN1_INTEGER (der_int (sint v)) @ rest"
proof -
  have "- (2 ^ 63) \<le> sint v" "sint v < 2 ^ 63"
    using sint_greater_eq [of v] sint_less [of v] by simp_all
  then have len: "length (der_int (sint v)) \<le> 8"
    using int_octets_le [of 7 "sint v"] by (simp add: length_der_int)
  then have short: "length (der_int (sint v)) < 2 ^ 32" by simp
  have "(data \<noteq> [] \<and> length data \<le> 8 \<and> int_minimal data \<and> sint v = sval data)
        \<longleftrightarrow> data = der_int (sint v)" for data
    using der_int_sval [of data] sval_der_int [of "sint v"] int_minimal_der_int [of "sint v"] len
    by auto
  then show ?thesis
    unfolding CBS_get_asn1_int64_Some CBS_get_asn1_iff using short by auto
qed

section \<open>BOOLEAN\<close>

lemma length_1_conv: "length xs = Suc 0 \<longleftrightarrow> (\<exists>x. xs = [x])"
  by (cases xs) auto

lemma CBS_get_asn1_bool_iff:
  "CBS_get_asn1_bool cbs = (Some v, rest) \<longleftrightarrow>
   cbs = der_element CBS_ASN1_BOOLEAN [if v then 0xff else 0] @ rest"
proof -
  have "CBS_get_asn1_bool cbs = (Some v, rest) \<longleftrightarrow>
        (\<exists>data. CBS_get_asn1 CBS_ASN1_BOOLEAN cbs = (Some data, rest)
                \<and> data = [if v then 0xff else 0])"
    by (auto simp: CBS_get_asn1_bool_def Let_def CBS_data_def CBS_len_def length_1_conv
        split: option.splits prod.splits if_splits)
  then show ?thesis by (simp add: CBS_get_asn1_iff)
qed

section \<open>Optional elements\<close>

lemma CBS_get_optional_asn1_Some:
  "CBS_get_optional_asn1 tag cbs = (Some r, rest) \<longleftrightarrow>
   (case r of
      None \<Rightarrow> rest = cbs \<and> (\<forall>s. cbs \<noteq> der_tag tag @ s)
    | Some c \<Rightarrow> length c < 2 ^ 32 \<and> cbs = der_element tag c @ rest)"
proof (cases "CBS_peek_asn1_tag cbs tag")
  case True
  then obtain s where s: "cbs = der_tag tag @ s" by (auto simp: CBS_peek_asn1_tag_iff)
  have "CBS_get_optional_asn1 tag cbs = (Some r, rest) \<longleftrightarrow>
        (\<exists>c. r = Some c \<and> CBS_get_asn1 tag cbs = (Some c, rest))"
    using True by (auto simp: CBS_get_optional_asn1_def split: option.splits prod.splits)
  then show ?thesis using s by (auto simp: CBS_get_asn1_iff split: option.splits)
next
  case False
  then have no: "cbs \<noteq> der_tag tag @ s" for s by (auto simp: CBS_peek_asn1_tag_iff)
  have "CBS_get_optional_asn1 tag cbs = (Some r, rest) \<longleftrightarrow> r = None \<and> rest = cbs"
    using False by (auto simp: CBS_get_optional_asn1_def)
  then show ?thesis using no by (auto simp: der_element_def split: option.splits)
qed

text \<open>An absent element leaves the input alone and yields the default.\<close>

lemma CBS_get_optional_asn1_uint64_absent:
  "(\<forall>s. cbs \<noteq> der_tag tag @ s) \<Longrightarrow> CBS_get_optional_asn1_uint64 tag d cbs = (Some d, cbs)"
  using CBS_get_optional_asn1_Some [of tag cbs None cbs]
  by (simp add: CBS_get_optional_asn1_uint64_def)

lemma CBS_get_optional_asn1_uint64_present:
  assumes "length (der_element CBS_ASN1_INTEGER (der_int (int (unat v)))) < 2 ^ 32"
  shows "CBS_get_optional_asn1_uint64 tag d
           (der_element tag (der_element CBS_ASN1_INTEGER (der_int (int (unat v)))) @ rest)
         = (Some v, rest)"
proof -
  let ?c = "der_element CBS_ASN1_INTEGER (der_int (int (unat v)))"
  have "CBS_get_optional_asn1 tag (der_element tag ?c @ rest) = (Some (Some ?c), rest)"
    unfolding CBS_get_optional_asn1_Some using assms by simp
  moreover have "CBS_get_asn1_uint64 ?c = (Some v, [])"
    unfolding CBS_get_asn1_uint64_iff by simp
  ultimately show ?thesis by (simp add: CBS_get_optional_asn1_uint64_def CBS_len_def)
qed

section \<open>BIT STRING\<close>

lemma CBS_get_last_u8_snoc [cbs_simps]: "CBS_get_last_u8 (bs @ [b]) = (Some b, bs)"
  by (simp add: CBS_get_last_u8_def nth_append)

lemma CBS_is_valid_asn1_bitstring_Cons:
  "CBS_is_valid_asn1_bitstring (u # bs) \<longleftrightarrow>
   unat u \<le> 7 \<and> (unat u \<noteq> 0 \<longrightarrow> bs \<noteq> [] \<and> (\<forall>i < unat u. \<not> bit (last bs) i))"
proof -
  have u: "u > 7 \<longleftrightarrow> \<not> unat u \<le> 7" "u = 0 \<longleftrightarrow> unat u = 0"
    by (auto simp: word_less_iff_unsigned [where 'a = nat] unsigned_eq_0_iff)
  have "x AND (push_bit n 1 - 1) = 0 \<longleftrightarrow> (\<forall>i < n. \<not> bit x i)" if "n \<le> 7" for x :: u8 and n
  proof -
    have "push_bit n 1 - 1 = (mask n :: u8)" by (simp add: mask_eq_exp_minus_1 push_bit_eq_mult)
    moreover have "bit x i \<Longrightarrow> i < 8" for i using bit_imp_le_length [of x i] by simp
    then have "x AND mask n = 0 \<longleftrightarrow> (\<forall>i < n. \<not> bit x i)"
      by (simp add: bit_eq_iff bit_simps) blast
    ultimately show ?thesis by simp
  qed
  then show ?thesis
    by (cases bs rule: rev_cases)
      (auto simp: CBS_is_valid_asn1_bitstring_def cbs_simps u CBS_get_last_u8_def)
qed

text \<open>
  A set bit is one of the \<open>8 * (len - 1) - unused\<close> bits of the string, and the answer is that bit.
\<close>

lemma CBS_asn1_bitstring_has_bit_iff:
  assumes "CBS_is_valid_asn1_bitstring (u # bs)"
  shows "CBS_asn1_bitstring_has_bit (u # bs) b \<longleftrightarrow>
         unat b < 8 * length bs - unat u \<and> bit (bs ! (unat b div 8)) (7 - unat b mod 8)"
proof -
  define n where "n = unat b"
  have n: "n < 2 ^ 32"
  proof -
    have "unat b < 2 ^ LENGTH(32)" by (rule unsigned_less)
    then show ?thesis by (simp add: n_def)
  qed
  have byte: "unat (drop_bit 3 b + 1) = n div 8 + 1"
  proof -
    have d: "unat (drop_bit 3 b) = n div 8"
      by (simp only: unat_drop_bit_eq n_def) (simp add: drop_bit_eq_div)
    have "unat (drop_bit 3 b + 1) = (n div 8 + 1) mod 2 ^ 32"
      by (simp add: unat_word_ariths d)
    also have "\<dots> = n div 8 + 1" using n by (intro mod_less) simp
    finally show ?thesis .
  qed
  have bitn: "unat (7 - (b AND 7)) = 7 - n mod 8"
  proof -
    have "(7 :: u32) = mask 3" by (simp add: mask_eq_exp_minus_1)
    then have a: "unat (b AND 7) = n mod 8" using unat_and_mask [of b 3] by (simp add: n_def)
    have "n mod 8 \<le> 7" using mod_less_divisor [of 8 n] by linarith
    then have "b AND 7 \<le> 7" by (simp add: word_le_nat_alt a)
    then show ?thesis by (simp add: unat_sub a)
  qed
  have has: "CBS_asn1_bitstring_has_bit (u # bs) b \<longleftrightarrow>
             n div 8 < length bs \<and> bit (bs ! (n div 8)) (7 - n mod 8)"
    using assms bit_iff_and_push_bit_not_eq_0 [of "bs ! (n div 8)" "7 - n mod 8"]
    by (simp add: CBS_asn1_bitstring_has_bit_def byte bitn CBS_len_def CBS_data_def Let_def)
  have zero: "\<not> bit (bs ! (n div 8)) (7 - n mod 8)"
    if "n div 8 < length bs" "\<not> n < 8 * length bs - unat u"
  proof -
    have u7: "unat u \<le> 7" and last: "unat u \<noteq> 0 \<Longrightarrow> i < unat u \<Longrightarrow> \<not> bit (last bs) i" for i
      using assms by (auto simp: CBS_is_valid_asn1_bitstring_Cons)
    from that have "n < 8 * length bs" by (simp add: div_less_iff_less_mult mult.commute)
    moreover have "n = 8 * (n div 8) + n mod 8" "n mod 8 < 8" by simp_all
    ultimately have idx: "n div 8 = length bs - 1" and "7 - n mod 8 < unat u" and "unat u \<noteq> 0"
      using that u7 by linarith+
    moreover have "bs \<noteq> []" using that(1) by auto
    ultimately show ?thesis using last [of "7 - n mod 8"] last_conv_nth [of bs] by simp
  qed
  show ?thesis
    unfolding has n_def [symmetric] using zero by (auto simp: div_less_iff_less_mult mult.commute)
qed

section \<open>Properties\<close>

text \<open>
  \<open>CBS_get_asn1_int64\<close> returns \<open>v\<close> precisely when the input starts with the INTEGER whose contents
  are the shortest two's complement string of \<open>v\<close>, so every other encoding and every value that does
  not fit 64 bits is refused.
\<close>

theorem int64_reader_exact:
  "CBS_get_asn1_int64 cbs = (Some v, rest) \<longleftrightarrow> cbs = der_element CBS_ASN1_INTEGER (der_int (sint v)) @ rest"
  by (rule CBS_get_asn1_int64_iff)

text \<open>
  An optional element is reported absent precisely when its tag is not next, which leaves the input
  alone, and present with its contents precisely when it is next.
\<close>

theorem optional_element_exact:
  "CBS_get_optional_asn1 tag cbs = (Some r, rest) \<longleftrightarrow>
   (case r of
      None \<Rightarrow> rest = cbs \<and> (\<forall>s. cbs \<noteq> der_tag tag @ s)
    | Some c \<Rightarrow> length c < 2 ^ 32 \<and> cbs = der_element tag c @ rest)"
  by (rule CBS_get_optional_asn1_Some)

text \<open>
  In a valid BIT STRING with \<open>u\<close> unused bits, \<open>CBS_asn1_bitstring_has_bit\<close> reads bit \<open>b\<close>, counted
  from the most significant bit of the first octet, and no bit past the used ones is set.
\<close>

lemma bitstring_bits:
  assumes "CBS_is_valid_asn1_bitstring (u # bs)"
  shows "CBS_asn1_bitstring_has_bit (u # bs) b \<longleftrightarrow>
         unat b < 8 * length bs - unat u \<and> bit (bs ! (unat b div 8)) (7 - unat b mod 8)"
  using assms by (rule CBS_asn1_bitstring_has_bit_iff)

end
