(* ===== verification/Cbb.thy ===== *)
theory Cbb
  imports Cbs Der
begin

text \<open>
  \<^verbatim>\<open>crypto/bytestring/cbb.c\<close>: the byte string builder.

  The \<^verbatim>\<open>CBB\<close> structs of one builder form a chain: the root, its pending child, that child's pending
  child, and so on, all with the same \<open>base\<close>. A C function that gets a \<^verbatim>\<open>CBB *\<close> can reach that
  struct, the structs below it and the shared buffer, so an operation maps the pair of the buffer
  (\<open>None\<close> for \<open>base == NULL\<close>) and the struct, with its child nested in it, to the result and the new
  pair. \<open>on_child\<close> runs an operation on the pending child, as a client that holds its address does.
  The buffer is all \<open>cap\<close> bytes of memory, written or not. \<open>reqs\<close> numbers the requests to
  \<^verbatim>\<open>malloc\<close> (theory \<open>Mem\<close>). \<^verbatim>\<open>size_t\<close> values are natural numbers with the wrap-around at
  \<open>2 ^ 64\<close> written out.
\<close>

record cbb_buffer =
  buf :: bytes
  blen :: nat
  cap :: nat
  can_resize :: bool
  error :: bool
  reqs :: nat

datatype cbb =
  CBB (is_child: bool) (offset: nat) (pending_len_len: nat) (pending_is_asn1: bool)
      (child: "cbb option")

type_synonym cbb_state = "cbb_buffer option \<times> cbb"

fun set_child :: "cbb option \<Rightarrow> cbb \<Rightarrow> cbb" where
  "set_child ch (CBB ic off pll asn1 _) = CBB ic off pll asn1 ch"

definition CBB_zero :: cbb_state where
  "CBB_zero = (None, CBB False 0 0 False None)"

definition on_child :: "(cbb_state \<Rightarrow> 'a \<times> cbb_state) \<Rightarrow> cbb_state \<Rightarrow> 'a \<times> cbb_state" where
  "on_child f st =
     (case child (snd st) of
        None \<Rightarrow> (fst (f CBB_zero), st)
      | Some ch \<Rightarrow>
          (case f (fst st, ch) of (r, base, ch) \<Rightarrow> (r, base, set_child (Some ch) (snd st))))"

section \<open>Set-up and release\<close>

definition cbb_init :: "malloc_env \<Rightarrow> nat \<Rightarrow> bytes \<Rightarrow> nat \<Rightarrow> bool \<times> cbb_state" where
  "cbb_init al t buf_ptr cap_arg =
     (case OPENSSL_malloc al t 32 of
        None \<Rightarrow> (False, CBB_zero)
      | Some _ \<Rightarrow>
          (True, (Some \<lparr>buf = buf_ptr, blen = 0, cap = cap_arg, can_resize = True, error = False,
                        reqs = Suc t\<rparr>,
                  CBB False 0 0 False None)))"

definition CBB_init :: "malloc_env \<Rightarrow> nat \<Rightarrow> nat \<Rightarrow> bool \<times> cbb_state" where
  "CBB_init al t initial_capacity =
     (let buf_ptr = OPENSSL_malloc al t initial_capacity in
      if initial_capacity > 0 \<and> buf_ptr = None then (False, CBB_zero)
      else cbb_init al (Suc t) (case buf_ptr of None \<Rightarrow> [] | Some h \<Rightarrow> hb_bytes h) initial_capacity)"

definition CBB_init_fixed :: "malloc_env \<Rightarrow> nat \<Rightarrow> bytes \<Rightarrow> nat \<Rightarrow> bool \<times> cbb_state" where
  "CBB_init_fixed al t buf_ptr len =
     (case cbb_init al t buf_ptr len of
        (True, (Some b, c)) \<Rightarrow> (True, (Some (b\<lparr>can_resize := False\<rparr>), c))
      | (_, st) \<Rightarrow> (False, st))"

definition CBB_cleanup :: "cbb_state \<Rightarrow> cbb_state" where
  "CBB_cleanup st = (if is_child (snd st) then st else (None, snd st))"

section \<open>The shared buffer\<close>

text \<open>The result is the offset that \<open>*out\<close> points at, \<open>None\<close> for the return value 0.\<close>

definition cbb_buffer_reserve ::
    "malloc_env \<Rightarrow> cbb_buffer option \<Rightarrow> nat \<Rightarrow> nat option \<times> cbb_buffer option" where
  "cbb_buffer_reserve al base len =
     (case base of
        None \<Rightarrow> (None, None)
      | Some b \<Rightarrow>
          (let newlen = (blen b + len) mod 2 ^ 64 in
           if newlen < blen b then (None, Some (b\<lparr>error := True\<rparr>))
           else if newlen > cap b then
             (let newcap = (cap b * 2) mod 2 ^ 64 in
              if \<not> can_resize b then (None, Some (b\<lparr>error := True\<rparr>))
              else
                (let newcap = (if newcap < cap b \<or> newcap < newlen then newlen else newcap) in
                 case OPENSSL_realloc al (reqs b) (Some \<lparr>hb_size = cap b, hb_bytes = buf b\<rparr>) newcap of
                   None \<Rightarrow> (None, Some (b\<lparr>error := True, reqs := Suc (reqs b)\<rparr>))
                 | Some newbuf \<Rightarrow>
                     (Some (blen b),
                      Some (b\<lparr>buf := hb_bytes newbuf, cap := newcap, reqs := Suc (reqs b)\<rparr>))))
           else (Some (blen b), Some b)))"

definition cbb_buffer_add ::
    "malloc_env \<Rightarrow> cbb_buffer option \<Rightarrow> nat \<Rightarrow> nat option \<times> cbb_buffer option" where
  "cbb_buffer_add al base len =
     (case cbb_buffer_reserve al base len of
        (Some out, Some b) \<Rightarrow> (Some out, Some (b\<lparr>blen := blen b + len\<rparr>))
      | (_, base) \<Rightarrow> (None, base))"

text \<open>Storing bytes through a pointer into the buffer.\<close>

definition store :: "nat \<Rightarrow> bytes \<Rightarrow> cbb_buffer \<Rightarrow> cbb_buffer" where
  "store off bs b = b\<lparr>buf := write_at (buf b) off bs\<rparr>"

text \<open>
  The descending loop of \<open>cbb_buffer_add_u\<close>: the bytes it leaves in \<open>buf[0..len_len-1]\<close> and the
  final \<open>v\<close>.
\<close>

primrec add_u_loop :: "u64 \<Rightarrow> nat \<Rightarrow> bytes \<Rightarrow> bytes \<times> u64" where
  "add_u_loop v 0 done_bytes = (done_bytes, v)"
| "add_u_loop v (Suc i) done_bytes = add_u_loop (drop_bit 8 v) i (ucast v # done_bytes)"

definition cbb_buffer_add_u ::
    "malloc_env \<Rightarrow> cbb_buffer option \<Rightarrow> u64 \<Rightarrow> nat \<Rightarrow> bool \<times> cbb_buffer option" where
  "cbb_buffer_add_u al base v len_len =
     (if len_len = 0 then (True, base)
      else case cbb_buffer_add al base len_len of
             (Some off, Some b) \<Rightarrow>
               (case add_u_loop v len_len [] of
                  (bs, v) \<Rightarrow>
                    (if v \<noteq> 0 then (False, Some (store off bs b\<lparr>error := True\<rparr>))
                     else (True, Some (store off bs b))))
           | (_, base) \<Rightarrow> (False, base))"

section \<open>Flushing pending length prefixes\<close>

text \<open>The loop that writes the length octets, with \<open>len\<close> a \<^verbatim>\<open>size_t\<close>.\<close>

primrec len_loop :: "nat \<Rightarrow> nat \<Rightarrow> bytes \<Rightarrow> bytes \<times> nat" where
  "len_loop len 0 done_bytes = (done_bytes, len)"
| "len_loop len (Suc i) done_bytes = len_loop (len div 256) i (of_nat len # done_bytes)"

text \<open>The choice of \<open>len_len\<close>, \<open>initial_length_byte\<close> and the remaining \<open>len\<close>.\<close>

definition asn1_len_form :: "nat \<Rightarrow> nat \<times> u8 \<times> nat" where
  "asn1_len_form len =
     (if len > 0xffffff then (5, 0x80 OR 4, len)
      else if len > 0xffff then (4, 0x80 OR 3, len)
      else if len > 0xff then (3, 0x80 OR 2, len)
      else if len > 0x7f then (2, 0x80 OR 1, len)
      else (1, of_nat len, 0))"

text \<open>
  From \<open>for (i = pending_len_len - 1; \<dots>)\<close> to the end of \<open>CBB_flush\<close>: \<open>None\<close> is the jump to \<open>err\<close>.
\<close>

definition flush_len_octets :: "cbb_buffer \<Rightarrow> cbb \<Rightarrow> nat \<Rightarrow> bool \<times> cbb_buffer" where
  "flush_len_octets b ch len =
     (case len_loop len (pending_len_len ch) [] of
        (bs, len) \<Rightarrow> (len = 0, store (offset ch) bs b))"

text \<open>The part of \<open>CBB_flush\<close> after the recursive call and its checks.\<close>

definition flush_prefix :: "malloc_env \<Rightarrow> cbb_buffer \<Rightarrow> cbb \<Rightarrow> nat \<Rightarrow> bool \<times> cbb_buffer \<times> cbb" where
  "flush_prefix al b ch child_start =
     (let len = blen b - child_start in
      if pending_is_asn1 ch then
        (if len > 0xfffffffe then (False, b, ch)
         else case asn1_len_form len of
           (len_len, initial_length_byte, len') \<Rightarrow>
             (case (if len_len \<noteq> 1
                    then (let extra_bytes = len_len - 1 in
                          case cbb_buffer_add al (Some b) extra_bytes of
                            (Some _, Some b) \<Rightarrow>
                              (True, store (child_start + extra_bytes)
                                       (take len (drop child_start (buf b))) b)
                          | (_, Some b) \<Rightarrow> (False, b)
                          | (_, None) \<Rightarrow> (False, b))
                    else (True, b)) of
                (False, b) \<Rightarrow> (False, b, ch)
              | (True, b) \<Rightarrow>
                  (let b = store (offset ch) [initial_length_byte] b;
                       ch = CBB (is_child ch) (offset ch + 1) (len_len - 1) True (child ch)
                   in case flush_len_octets b ch len' of (ok, b) \<Rightarrow> (ok, b, ch))))
      else (case flush_len_octets b ch len of (ok, b) \<Rightarrow> (ok, b, ch)))"

fun CBB_flush :: "malloc_env \<Rightarrow> cbb_state \<Rightarrow> bool \<times> cbb_state" where
  "CBB_flush al (None, c) = (False, (None, c))"
| "CBB_flush al (Some b, CBB ic off pll asn1 None) =
     (if error b then (False, (Some b, CBB ic off pll asn1 None))
      else (True, (Some b, CBB ic off pll asn1 None)))"
| "CBB_flush al (Some b, CBB ic off pll asn1 (Some ch)) =
     (if error b then (False, (Some b, CBB ic off pll asn1 (Some ch)))
      else if pending_len_len ch = 0 then (True, (Some b, CBB ic off pll asn1 (Some ch)))
      else
        (let child_start = (offset ch + pending_len_len ch) mod 2 ^ 64 in
         case CBB_flush al (Some b, ch) of
           (ok, (None, ch)) \<Rightarrow> (False, (None, CBB ic off pll asn1 (Some ch)))
         | (ok, (Some b, ch)) \<Rightarrow>
             (if \<not> ok \<or> child_start < offset ch \<or> blen b < child_start
              then (False, (Some (b\<lparr>error := True\<rparr>), CBB ic off pll asn1 (Some ch)))
              else case flush_prefix al b ch child_start of
                     (False, b, ch) \<Rightarrow>
                       (False, (Some (b\<lparr>error := True\<rparr>), CBB ic off pll asn1 (Some ch)))
                   | (True, b, ch) \<Rightarrow> (True, (Some b, CBB ic off pll asn1 None)))))"

section \<open>Finishing\<close>

type_synonym cbb_op = "cbb_state \<Rightarrow> bool \<times> cbb_state"

text \<open>C's \<open>f && g\<close> on calls that return 1 or 0.\<close>

definition c_and :: "cbb_op \<Rightarrow> cbb_op \<Rightarrow> cbb_op" where
  "c_and f g st = (case f st of (True, st) \<Rightarrow> g st | (False, st) \<Rightarrow> (False, st))"

text \<open>
  \<open>CBB_finish\<close>: the first two arguments say whether \<open>out_data\<close> and \<open>out_len\<close> are non-NULL. The
  result holds \<open>*out_data\<close> (the whole block) and \<open>*out_len\<close> when the call stores them.
\<close>

definition CBB_finish ::
    "malloc_env \<Rightarrow> bool \<Rightarrow> bool \<Rightarrow> cbb_state \<Rightarrow> (bool \<times> bytes option \<times> nat option) \<times> cbb_state" where
  "CBB_finish al out_data out_len st =
     (if is_child (snd st) then ((False, None, None), st)
      else case CBB_flush al st of
             (True, (Some b, c)) \<Rightarrow>
               (if can_resize b \<and> (\<not> out_data \<or> \<not> out_len) then ((False, None, None), (Some b, c))
                else ((True, (if out_data then Some (buf b) else None),
                             (if out_len then Some (blen b) else None)),
                      CBB_cleanup (Some (b\<lparr>buf := []\<rparr>), c)))
           | (_, st) \<Rightarrow> ((False, None, None), st))"

text \<open>
  \<open>CBB_data\<close> as an offset into the buffer, and \<open>CBB_len\<close>. \<open>None\<close> is a failed assertion or a NULL
  \<open>base\<close>.
\<close>

definition CBB_data :: "cbb_state \<Rightarrow> nat option" where
  "CBB_data st =
     (case st of
        (Some b, CBB _ off pll _ None) \<Rightarrow> Some (off + pll)
      | _ \<Rightarrow> None)"

definition CBB_len :: "cbb_state \<Rightarrow> nat option" where
  "CBB_len st =
     (case st of
        (Some b, CBB _ off pll _ None) \<Rightarrow> if off + pll \<le> blen b then Some (blen b - off - pll) else None
      | _ \<Rightarrow> None)"

section \<open>Adding to a builder\<close>

definition cbb_add_length_prefixed :: "malloc_env \<Rightarrow> nat \<Rightarrow> cbb_op" where
  "cbb_add_length_prefixed al len_len st =
     (case CBB_flush al st of
        (True, (Some b, c)) \<Rightarrow>
          (let off = blen b in
           case cbb_buffer_add al (Some b) len_len of
             (Some prefix_bytes, Some b) \<Rightarrow>
               (True, (Some (store prefix_bytes (replicate len_len 0) b),
                       set_child (Some (CBB True off len_len False None)) c))
           | (_, base) \<Rightarrow> (False, (base, c)))
      | (_, st) \<Rightarrow> (False, st))"

definition CBB_add_u8_length_prefixed :: "malloc_env \<Rightarrow> cbb_op" where
  "CBB_add_u8_length_prefixed al = cbb_add_length_prefixed al 1"

definition CBB_add_u16_length_prefixed :: "malloc_env \<Rightarrow> cbb_op" where
  "CBB_add_u16_length_prefixed al = cbb_add_length_prefixed al 2"

definition CBB_add_u24_length_prefixed :: "malloc_env \<Rightarrow> cbb_op" where
  "CBB_add_u24_length_prefixed al = cbb_add_length_prefixed al 3"

definition CBB_add_bytes :: "malloc_env \<Rightarrow> bytes \<Rightarrow> cbb_op" where
  "CBB_add_bytes al data st =
     (case CBB_flush al st of
        (True, (base, c)) \<Rightarrow>
          (case cbb_buffer_add al base (length data) of
             (Some dest, Some b) \<Rightarrow> (True, (Some (store dest data b), c))
           | (_, base) \<Rightarrow> (False, (base, c)))
      | (False, st) \<Rightarrow> (False, st))"

text \<open>\<open>CBB_add_space\<close> and \<open>CBB_reserve\<close> yield the offset of \<open>*out_data\<close>.\<close>

definition CBB_add_space :: "malloc_env \<Rightarrow> nat \<Rightarrow> cbb_state \<Rightarrow> nat option \<times> cbb_state" where
  "CBB_add_space al len st =
     (case CBB_flush al st of
        (True, (base, c)) \<Rightarrow> (case cbb_buffer_add al base len of (out, base) \<Rightarrow> (out, (base, c)))
      | (False, st) \<Rightarrow> (None, st))"

definition CBB_reserve :: "malloc_env \<Rightarrow> nat \<Rightarrow> cbb_state \<Rightarrow> nat option \<times> cbb_state" where
  "CBB_reserve al len st =
     (case CBB_flush al st of
        (True, (base, c)) \<Rightarrow> (case cbb_buffer_reserve al base len of (out, base) \<Rightarrow> (out, (base, c)))
      | (False, st) \<Rightarrow> (None, st))"

text \<open>\<open>None\<close>: \<open>base\<close> is NULL and is dereferenced.\<close>

definition CBB_did_write :: "nat \<Rightarrow> cbb_state \<Rightarrow> (bool \<times> cbb_state) option" where
  "CBB_did_write len st =
     (case fst st of
        None \<Rightarrow> None
      | Some b \<Rightarrow>
          (let newlen = (blen b + len) mod 2 ^ 64 in
           if child (snd st) \<noteq> None \<or> newlen < blen b \<or> newlen > cap b then Some (False, st)
           else Some (True, (Some (b\<lparr>blen := newlen\<rparr>), snd st))))"

definition CBB_add_u8 :: "malloc_env \<Rightarrow> u8 \<Rightarrow> cbb_op" where
  "CBB_add_u8 al v st =
     (case CBB_flush al st of
        (True, (base, c)) \<Rightarrow> (case cbb_buffer_add_u al base (ucast v) 1 of (ok, base) \<Rightarrow> (ok, (base, c)))
      | (False, st) \<Rightarrow> (False, st))"

definition CBB_add_u16 :: "malloc_env \<Rightarrow> u16 \<Rightarrow> cbb_op" where
  "CBB_add_u16 al v st =
     (case CBB_flush al st of
        (True, (base, c)) \<Rightarrow> (case cbb_buffer_add_u al base (ucast v) 2 of (ok, base) \<Rightarrow> (ok, (base, c)))
      | (False, st) \<Rightarrow> (False, st))"

definition CBB_add_u16le :: "malloc_env \<Rightarrow> u16 \<Rightarrow> cbb_op" where
  "CBB_add_u16le al v = CBB_add_u16 al (CRYPTO_bswap2 v)"

definition CBB_add_u24 :: "malloc_env \<Rightarrow> u32 \<Rightarrow> cbb_op" where
  "CBB_add_u24 al v st =
     (case CBB_flush al st of
        (True, (base, c)) \<Rightarrow> (case cbb_buffer_add_u al base (ucast v) 3 of (ok, base) \<Rightarrow> (ok, (base, c)))
      | (False, st) \<Rightarrow> (False, st))"

definition CBB_add_u32 :: "malloc_env \<Rightarrow> u32 \<Rightarrow> cbb_op" where
  "CBB_add_u32 al v st =
     (case CBB_flush al st of
        (True, (base, c)) \<Rightarrow> (case cbb_buffer_add_u al base (ucast v) 4 of (ok, base) \<Rightarrow> (ok, (base, c)))
      | (False, st) \<Rightarrow> (False, st))"

definition CBB_add_u32le :: "malloc_env \<Rightarrow> u32 \<Rightarrow> cbb_op" where
  "CBB_add_u32le al v = CBB_add_u32 al (CRYPTO_bswap4 v)"

definition CBB_add_u64 :: "malloc_env \<Rightarrow> u64 \<Rightarrow> cbb_op" where
  "CBB_add_u64 al v st =
     (case CBB_flush al st of
        (True, (base, c)) \<Rightarrow> (case cbb_buffer_add_u al base v 8 of (ok, base) \<Rightarrow> (ok, (base, c)))
      | (False, st) \<Rightarrow> (False, st))"

definition CBB_add_u64le :: "malloc_env \<Rightarrow> u64 \<Rightarrow> cbb_op" where
  "CBB_add_u64le al v = CBB_add_u64 al (CRYPTO_bswap8 v)"

text \<open>\<open>CBB_discard_child\<close>; a NULL \<open>base\<close> with a child does not arise.\<close>

definition CBB_discard_child :: "cbb_state \<Rightarrow> cbb_state" where
  "CBB_discard_child st =
     (case child (snd st) of
        None \<Rightarrow> st
      | Some ch \<Rightarrow> (map_option (\<lambda>b. b\<lparr>blen := offset ch\<rparr>) (fst st), set_child None (snd st)))"

section \<open>What the buffer holds\<close>

definition written :: "cbb_buffer \<Rightarrow> bytes" where
  "written b = take (blen b) (buf b)"

definition buffer_ok :: "cbb_buffer \<Rightarrow> bool" where
  "buffer_ok b \<longleftrightarrow> length (buf b) = cap b \<and> blen b \<le> cap b \<and> cap b + 8 < 2 ^ 63"

text \<open>When a buffer is certain to grow to \<open>n\<close> bytes.\<close>

definition fits :: "malloc_env \<Rightarrow> cbb_buffer \<Rightarrow> nat \<Rightarrow> bool" where
  "fits al b n \<longleftrightarrow> n \<le> cap b \<or> (can_resize b \<and> al_total al \<and> 2 * n + 8 < 2 ^ 63)"

definition grown :: "cbb_buffer \<Rightarrow> cbb_buffer \<Rightarrow> bool" where
  "grown b b' \<longleftrightarrow> buffer_ok b' \<and> can_resize b' = can_resize b \<and> cap b \<le> cap b'"

lemma length_written [buffer_simps]: "buffer_ok b \<Longrightarrow> length (written b) = blen b"
  by (simp add: written_def buffer_ok_def)

lemma grown_refl: "buffer_ok b \<Longrightarrow> grown b b"
  by (simp add: grown_def)

lemma grown_trans: "grown a b \<Longrightarrow> grown b c \<Longrightarrow> grown a c"
  by (auto simp: grown_def)

lemma grown_ok: "grown a b \<Longrightarrow> buffer_ok b"
  by (simp add: grown_def)

lemma fits_grown: "fits al b n \<Longrightarrow> grown b b' \<Longrightarrow> fits al b' n"
  by (auto simp: fits_def grown_def)

lemma fits_mono: "fits al b n \<Longrightarrow> m \<le> n \<Longrightarrow> fits al b m"
  by (auto simp: fits_def)

lemma store_simps [simp]:
  "blen (store i bs b) = blen b" "cap (store i bs b) = cap b" "can_resize (store i bs b) = can_resize b"
  "error (store i bs b) = error b" "reqs (store i bs b) = reqs b" "buf (store i bs b) = write_at (buf b) i bs"
  by (simp_all add: store_def)

lemma store_Nil [simp]: "store i [] b = b"
  by (simp add: store_def)

lemma grown_store: "grown a b \<Longrightarrow> i + length bs \<le> cap b \<Longrightarrow> grown a (store i bs b)"
  by (simp add: grown_def buffer_ok_def)

text \<open>Writing inside the part already written.\<close>

lemma written_store:
  assumes "buffer_ok b" and "i + length bs \<le> blen b"
  shows "written (store i bs b) = write_at (written b) i bs"
  using assms by (simp add: written_def buffer_ok_def take_write_at_within)

text \<open>The contract of \<open>cbb_buffer_reserve\<close> and \<open>cbb_buffer_add\<close>.\<close>

lemma reserve_spec:
  assumes ok: "buffer_ok b" and len: "len + 8 < 2 ^ 63"
    and res: "cbb_buffer_reserve al (Some b) len = (r, base)"
  shows "\<exists>b'. base = Some b' \<and> grown b b' \<and> blen b' = blen b \<and> take (blen b) (buf b') = written b
            \<and> (case r of None \<Rightarrow> error b' \<and> \<not> fits al b (blen b + len)
               | Some off \<Rightarrow> off = blen b \<and> error b' = error b \<and> blen b + len \<le> cap b')"
proof -
  have c: "length (buf b) = cap b" "blen b \<le> cap b" "cap b + 8 < 2 ^ 63"
    using ok by (simp_all add: buffer_ok_def)
  have nowrap: "(blen b + len) mod 2 ^ 64 = blen b + len"
    using c len by (intro mod_less) (simp add: power_eq_if)
  show ?thesis
  proof (cases "blen b + len > cap b")
    case False
    then show ?thesis
      using res nowrap c by (auto simp: cbb_buffer_reserve_def grown_def buffer_ok_def written_def Let_def)
  next
    case grow: True
    show ?thesis
    proof (cases "can_resize b")
      case False
      then show ?thesis
        using res nowrap c grow
        by (auto simp: cbb_buffer_reserve_def grown_def buffer_ok_def written_def Let_def fits_def)
    next
      case True
      define nc where "nc = (cap b * 2) mod 2 ^ 64"
      define newcap where "newcap = (if nc < cap b \<or> nc < blen b + len then blen b + len else nc)"
      have "cap b * 2 < 2 ^ 64" using c by (simp add: power_eq_if)
      then have nc: "nc = cap b * 2" by (simp add: nc_def)
      have newcap: "newcap = max (cap b * 2) (blen b + len)"
        using nc grow by (auto simp: newcap_def max_def)
      have small: "newcap + 8 < 2 ^ 64" using newcap c len by (auto simp: max_def)
      let ?orig = "Some \<lparr>hb_size = cap b, hb_bytes = buf b\<rparr>"
      have res': "cbb_buffer_reserve al (Some b) len =
          (case OPENSSL_realloc al (reqs b) ?orig newcap of
             None \<Rightarrow> (None, Some (b\<lparr>error := True, reqs := Suc (reqs b)\<rparr>))
           | Some newbuf \<Rightarrow>
               (Some (blen b), Some (b\<lparr>buf := hb_bytes newbuf, cap := newcap, reqs := Suc (reqs b)\<rparr>)))"
        unfolding cbb_buffer_reserve_def newcap_def nc_def Let_def
        using True grow by (simp only: nowrap option.case) simp
      show ?thesis
      proof (cases "OPENSSL_realloc al (reqs b) ?orig newcap")
        case None
        have "\<not> fits al b (blen b + len)"
        proof
          assume "fits al b (blen b + len)"
          then have tot: "al_total al" and n: "2 * (blen b + len) + 8 < 2 ^ 63"
            using grow by (auto simp: fits_def)
          have "newcap + 8 < 2 ^ 63" using newcap n grow by (auto simp: max_def)
          moreover obtain f where "al (reqs b) (newcap + 8) = Some f"
            using tot by (auto simp: al_total_def)
          ultimately show False
            using None by (simp add: OPENSSL_realloc_def OPENSSL_malloc_def c_malloc_def Let_def)
        qed
        then show ?thesis
          using res res' None c by (auto simp: grown_def buffer_ok_def written_def)
      next
        case (Some newbuf)
        obtain m where m: "OPENSSL_malloc al (reqs b) newcap = Some m"
          and nb: "hb_bytes newbuf = take (cap b) (buf b) @ drop (cap b) (hb_bytes m)"
          using Some newcap grow by (auto simp: OPENSSL_realloc_def Let_def max_def split: option.splits)
        have "newcap + 8 < 2 ^ 63" "length (hb_bytes m) = newcap"
          using m small by (auto simp: OPENSSL_malloc_def c_malloc_def split: option.splits if_splits)
        then show ?thesis
          using res res' Some c nb newcap grow
          by (auto simp: grown_def buffer_ok_def written_def max_def)
      qed
    qed
  qed
qed

text \<open>\<open>b'\<close> is \<open>b\<close> with \<open>bs\<close> added to what is written.\<close>

definition appended :: "cbb_buffer \<Rightarrow> bytes \<Rightarrow> cbb_buffer \<Rightarrow> bool" where
  "appended b bs b' \<longleftrightarrow> grown b b' \<and> error b' = error b \<and> written b' = written b @ bs"

lemma buffer_blen: "buffer_ok b \<Longrightarrow> blen b = length (written b)"
  by (simp add: buffer_simps)

lemma add_spec:
  assumes ok: "buffer_ok b" and len: "len + 8 < 2 ^ 63"
    and res: "cbb_buffer_add al (Some b) len = (r, base)"
  shows "\<exists>b'. base = Some b' \<and> grown b b' \<and> take (blen b) (buf b') = written b
            \<and> (case r of None \<Rightarrow> error b' \<and> \<not> fits al b (blen b + len)
               | Some off \<Rightarrow> off = blen b \<and> error b' = error b \<and> blen b' = blen b + len)"
proof -
  obtain r1 base1 where r1: "cbb_buffer_reserve al (Some b) len = (r1, base1)" by fastforce
  from reserve_spec [OF ok len r1] obtain b1 where b1: "base1 = Some b1" "grown b b1" "blen b1 = blen b"
      "take (blen b) (buf b1) = written b"
      "case r1 of None \<Rightarrow> error b1 \<and> \<not> fits al b (blen b + len)
       | Some off \<Rightarrow> off = blen b \<and> error b1 = error b \<and> blen b + len \<le> cap b1"
    by auto
  show ?thesis
    using res r1 b1 by (cases r1) (auto simp: cbb_buffer_add_def grown_def buffer_ok_def)
qed

text \<open>Adding \<open>length bs\<close> bytes and storing \<open>bs\<close> there.\<close>

lemma add_store_appended:
  assumes "grown b b'" and "take (blen b) (buf b') = written b" and "error b' = error b"
    and "blen b' = blen b + length bs" and "buffer_ok b"
  shows "appended b bs (store (blen b) bs b')"
proof -
  have "written (store (blen b) bs b') = take (blen b) (buf b') @ bs"
    using assms(1,4) by (simp add: written_def grown_def buffer_ok_def take_write_at_end)
  then show ?thesis
    using assms grown_store [OF assms(1), of "blen b" bs]
    by (simp add: appended_def grown_def buffer_ok_def)
qed

lemma add_u_loop_eq: "add_u_loop v n acc = (be_bytes n (unat v) @ acc, drop_bit (8 * n) v)"
proof (induction n arbitrary: v acc)
  case 0
  show ?case by simp
next
  case (Suc n)
  have "unat (drop_bit 8 v) = unat v div 256"
    by (simp only: unat_drop_bit_eq) (simp add: drop_bit_eq_div)
  moreover have "(ucast v :: u8) = of_nat (unat v)"
    by (intro word_unat_eq_iff [THEN iffD2]) (simp add: unat_ucast unat_of_nat)
  ultimately show ?case by (simp add: Suc.IH add.commute)
qed

lemma drop_bit_8_eq_0: "drop_bit (8 * n) v = 0 \<longleftrightarrow> unat v < 256 ^ n" for v :: "'a::len word"
  by (simp only: drop_bit_eq_0_iff) (simp add: power_mult)

text \<open>\<open>cbb_buffer_add_u\<close> appends the big-endian octets of \<open>v\<close>, and refuses a \<open>v\<close> that needs more.\<close>

lemma add_u_spec:
  assumes ok: "buffer_ok b" and n: "n \<le> 8"
    and res: "cbb_buffer_add_u al (Some b) v n = (r, base)"
  shows "\<exists>b'. base = Some b' \<and> grown b b' \<and>
            (if r then appended b (be_bytes n (unat v)) b' \<and> (n = 0 \<or> unat v < 256 ^ n)
             else error b' \<and> \<not> (unat v < 256 ^ n \<and> fits al b (blen b + n)))"
proof (cases "n = 0")
  case True
  then show ?thesis
    using res ok by (auto simp: cbb_buffer_add_u_def appended_def grown_refl)
next
  case n0: False
  obtain r1 base1 where r1: "cbb_buffer_add al (Some b) n = (r1, base1)" by fastforce
  have "n + 8 < 2 ^ 63" using n by simp
  from add_spec [OF ok this r1] obtain b1 where b1: "base1 = Some b1" "grown b b1"
      "take (blen b) (buf b1) = written b"
      "case r1 of None \<Rightarrow> error b1 \<and> \<not> fits al b (blen b + n)
       | Some off \<Rightarrow> off = blen b \<and> error b1 = error b \<and> blen b1 = blen b + n"
    by auto
  show ?thesis
  proof (cases r1)
    case None
    then show ?thesis using res r1 b1 n0 by (auto simp: cbb_buffer_add_u_def)
  next
    case (Some off)
    let ?bs = "be_bytes n (unat v)"
    let ?b2 = "store (blen b) ?bs b1"
    have ap: "appended b ?bs ?b2"
      using b1 Some ok by (intro add_store_appended) auto
    have e: "grown b (?b2\<lparr>error := True\<rparr>)"
      using ap by (simp add: appended_def grown_def buffer_ok_def)
    have "(r, base) = (if unat v < 256 ^ n then (True, Some ?b2)
                       else (False, Some (?b2\<lparr>error := True\<rparr>)))"
      using res r1 b1 Some n0
      by (auto simp: cbb_buffer_add_u_def add_u_loop_eq drop_bit_8_eq_0 split: if_splits)
    then show ?thesis
      using ap e by (auto simp: appended_def split: if_splits)
  qed
qed

section \<open>Flushing\<close>

text \<open>
  \<open>body w c\<close>: the contents of the struct \<open>c\<close> over the written bytes \<open>w\<close>, with everything below it
  closed. \<open>prefixed c bs\<close>: the contents with the length prefix \<open>c\<close> has pending.
\<close>

definition prefixed :: "cbb \<Rightarrow> bytes \<Rightarrow> bytes" where
  "prefixed c bs =
     (if pending_is_asn1 c then der_len (length bs) else be_bytes (pending_len_len c) (length bs)) @ bs"

definition start :: "cbb \<Rightarrow> nat" where
  "start c = offset c + pending_len_len c"

fun body :: "bytes \<Rightarrow> cbb \<Rightarrow> bytes" where
  "body w (CBB ic off pll asn1 None) = drop (off + pll) w"
| "body w (CBB ic off pll asn1 (Some ch)) =
     take (offset ch - (off + pll)) (drop (off + pll) w) @ prefixed ch (body w ch)"

definition length_fits :: "cbb \<Rightarrow> nat \<Rightarrow> bool" where
  "length_fits c n \<longleftrightarrow>
     (if pending_is_asn1 c then n \<le> 0xfffffffe else n < 256 ^ pending_len_len c)"

fun closable :: "bytes \<Rightarrow> cbb \<Rightarrow> bool" where
  "closable w (CBB ic off pll asn1 None) = True"
| "closable w (CBB ic off pll asn1 (Some ch)) =
     (closable w ch \<and> length_fits ch (length (body w ch)))"

text \<open>A pending child as \<open>cbb_add_length_prefixed\<close> and \<open>CBB_add_asn1\<close> set it up.\<close>

definition child_ok :: "cbb \<Rightarrow> bool" where
  "child_ok c \<longleftrightarrow> is_child c \<and> 1 \<le> pending_len_len c \<and> pending_len_len c \<le> 8 \<and>
     (pending_is_asn1 c \<longrightarrow> pending_len_len c = 1)"

fun chain_ok :: "nat \<Rightarrow> cbb \<Rightarrow> bool" where
  "chain_ok n (CBB ic off pll asn1 None) = (off + pll \<le> n)"
| "chain_ok n (CBB ic off pll asn1 (Some ch)) = (off + pll \<le> offset ch \<and> child_ok ch \<and> chain_ok n ch)"

text \<open>All written bytes once everything below \<open>c\<close> is closed.\<close>

definition flushed :: "cbb_buffer \<Rightarrow> cbb \<Rightarrow> bytes" where
  "flushed b c = take (start c) (written b) @ body (written b) c"

definition cbb_wf :: "cbb_buffer \<Rightarrow> cbb \<Rightarrow> bool" where
  "cbb_wf b c \<longleftrightarrow> buffer_ok b \<and> \<not> error b \<and> chain_ok (blen b) c"

lemma set_child_simps [simp]:
  "is_child (set_child x c) = is_child c" "offset (set_child x c) = offset c"
  "pending_len_len (set_child x c) = pending_len_len c"
  "pending_is_asn1 (set_child x c) = pending_is_asn1 c" "child (set_child x c) = x"
  "set_child y (set_child x c) = set_child y c" "start (set_child x c) = start c"
  by (cases c; simp add: start_def)+

lemma chain_start: "chain_ok n c \<Longrightarrow> start c \<le> n"
  by (induction n c rule: chain_ok.induct) (auto simp: start_def child_ok_def)

lemma len_loop_eq: "len_loop m n acc = (be_bytes n m @ acc, m div 256 ^ n)"
  by (induction n arbitrary: m acc) (simp_all add: div_mult2_eq)

lemma or_0x80_count: "k \<le> 4 \<Longrightarrow> (0x80 :: u8) OR of_nat k = of_nat (128 + k)"
proof -
  assume "k \<le> 4"
  then have "k = 0 \<or> k = 1 \<or> k = 2 \<or> k = 3 \<or> k = 4" by auto
  then show ?thesis by auto
qed

lemma asn1_len_form_eq:
  "asn1_len_form n = (if n < 128 then (1, of_nat n, 0)
                      else (len_octets n + 1, of_nat (128 + len_octets n), n))"
  by (simp add: asn1_len_form_def len_octets_def)
lemma write_at_middle: "length p = i \<Longrightarrow> length m = length ys \<Longrightarrow> write_at (p @ m @ s) i ys = p @ ys @ s"
  by (simp add: write_at_def)

text \<open>Moving \<open>bd\<close> along by \<open>length bs\<close> bytes and writing \<open>y # bs\<close> in front of it.\<close>

lemma move_along:
  assumes "length pre = i" and "take (i + 1 + length bd) xs = pre @ [x] @ bd"
    and "i + 1 + length bs + length bd \<le> length xs"
  shows "take (i + 1 + length bs + length bd)
           (write_at (write_at (write_at xs (i + 1 + length bs) bd) i [y]) (i + 1) bs)
         = pre @ [y] @ bs @ bd"
proof -
  define tl where "tl = drop (i + 1 + length bd) xs"
  have xs: "xs = pre @ [x] @ bd @ tl"
    using assms(2) append_take_drop_id [of "i + 1 + length bd" xs] by (simp add: tl_def)
  define q r where "q = take (length bs) (bd @ tl)" and "r = drop (length bs) (bd @ tl)"
  have lq: "length q = length bs" and lr: "length bd \<le> length r"
    using assms xs by (auto simp: q_def r_def)
  have qr: "q @ r = bd @ tl" by (simp only: q_def r_def append_take_drop_id)
  have "xs = (pre @ [x] @ q) @ take (length bd) r @ drop (length bd) r"
    using xs qr by simp
  then have "write_at xs (i + 1 + length bs) bd
             = write_at ((pre @ [x] @ q) @ take (length bd) r @ drop (length bd) r) (i + 1 + length bs) bd"
    by (rule arg_cong)
  also have "\<dots> = (pre @ [x] @ q) @ bd @ drop (length bd) r"
    using lq lr assms(1) by (intro write_at_middle) auto
  finally have "write_at xs (i + 1 + length bs) bd = pre @ [x] @ q @ bd @ drop (length bd) r"
    by simp
  then have "write_at (write_at xs (i + 1 + length bs) bd) i [y]
             = (pre @ [y]) @ q @ bd @ drop (length bd) r"
    using assms(1) write_at_middle [of pre i "[x]" "[y]"] by simp
  then have "write_at (write_at (write_at xs (i + 1 + length bs) bd) i [y]) (i + 1) bs
             = (pre @ [y]) @ bs @ bd @ drop (length bd) r"
    using lq assms(1) write_at_middle [of "pre @ [y]" "i + 1" q bs] by simp
  then show ?thesis using assms(1) by simp
qed
lemma written_error [simp]: "written (b\<lparr>error := e\<rparr>) = written b"
  by (simp add: written_def)

lemma grown_error: "grown b b' \<Longrightarrow> grown b (b'\<lparr>error := e\<rparr>)"
  by (simp add: grown_def buffer_ok_def)

lemma prefixed_asn1:
  "pending_is_asn1 ch \<Longrightarrow> prefixed ch bs =
     (if length bs < 128 then [of_nat (length bs)]
      else of_nat (128 + len_octets (length bs)) # be_bytes (len_octets (length bs)) (length bs)) @ bs"
  by (simp add: prefixed_def der_len_def)

text \<open>Closing one child that has nothing pending below it.\<close>

lemma flush_prefix_plain:
  assumes ok: "buffer_ok b" "\<not> error b" and ch: "child_ok ch" "start ch \<le> blen b"
    and plain: "\<not> pending_is_asn1 ch"
    and res: "flush_prefix al b ch (start ch) = (r, b', ch')"
  defines "bd \<equiv> drop (start ch) (written b)"
  shows "grown b b' \<and> \<not> error b' \<and> (r \<longleftrightarrow> length_fits ch (length bd)) \<and>
         written b' = take (offset ch) (written b) @ prefixed ch bd"
proof -
  define n where "n = blen b - start ch"
  have lbd: "length bd = n" using ok by (simp add: bd_def n_def buffer_simps)
  have eq: "r = (n div 256 ^ pending_len_len ch = 0)"
      "b' = store (offset ch) (be_bytes (pending_len_len ch) n) b"
    using res plain by (auto simp: flush_prefix_def flush_len_octets_def len_loop_eq n_def Let_def)
  have within: "offset ch + length (be_bytes (pending_len_len ch) n) \<le> blen b"
    using ch by (simp add: start_def)
  have "written b' = take (offset ch) (written b) @ prefixed ch bd"
    using eq written_store [OF ok(1) within] plain lbd
    by (simp add: write_at_def prefixed_def bd_def start_def)
  moreover have "grown b b'"
    using eq within ok by (auto simp: buffer_ok_def intro!: grown_store grown_refl)
  ultimately show ?thesis
    using eq plain ok by (simp add: length_fits_def lbd div_eq_0_iff)
qed

lemma flush_prefix_long:
  assumes ok: "buffer_ok b" "\<not> error b" and ch: "child_ok ch" "start ch \<le> blen b"
    and asn1: "pending_is_asn1 ch"
    and res: "flush_prefix al b ch (start ch) = (r, b', ch')"
  defines "bd \<equiv> drop (start ch) (written b)"
  assumes n: "128 \<le> length bd" "length bd \<le> 0xfffffffe"
  shows "grown b b' \<and>
    (if r then \<not> error b' \<and> written b' = take (offset ch) (written b) @ prefixed ch bd
     else \<not> fits al b (offset ch + length (prefixed ch bd)))"
proof -
  define w where "w = written b"
  define k where "k = len_octets (length bd)"
  define i where "i = offset ch"
  have st: "start ch = i + 1" using ch asn1 by (simp add: start_def child_ok_def i_def)
  have lw: "length w = blen b" using ok by (simp add: w_def buffer_simps)
  have lbd: "blen b - (i + 1) = length bd" using lw by (simp add: bd_def st w_def)
  have k: "1 \<le> k" "k \<le> 4" using len_octets_bounds by (simp_all add: k_def)
  have pref: "prefixed ch bd = (of_nat (128 + k) # be_bytes k (length bd)) @ bd"
    using asn1 n by (simp add: prefixed_asn1 k_def)
  obtain r1 base1 where r1: "cbb_buffer_add al (Some b) k = (r1, base1)" by fastforce
  have "k + 8 < 2 ^ 63" using k by simp
  from add_spec [OF ok(1) this r1] obtain b1 where b1: "base1 = Some b1" "grown b b1"
    "take (blen b) (buf b1) = w"
    "case r1 of None \<Rightarrow> error b1 \<and> \<not> fits al b (blen b + k)
     | Some off \<Rightarrow> off = blen b \<and> error b1 = error b \<and> blen b1 = blen b + k"
    by (auto simp: w_def)
  have form: "asn1_len_form (length bd) = (k + 1, of_nat (128 + k), length bd)"
    using n by (simp add: asn1_len_form_eq k_def)
  show ?thesis
  proof (cases r1)
    case None
    then have "\<not> r" "b' = b1"
      using res asn1 n b1 r1 k form lbd by (simp_all add: flush_prefix_def st Let_def)
    moreover have "offset ch + length (prefixed ch bd) = blen b + k"
      using ch st lbd by (simp add: pref i_def)
    ultimately show ?thesis using b1 None by simp
  next
    case (Some off)
    have b1': "blen b1 = blen b + k" "\<not> error b1" "buffer_ok b1"
      using b1 Some ok by (auto simp: grown_def)
    have tk: "take (length bd) (drop (i + 1) (buf b1)) = bd"
    proof -
      have "take (length bd) (drop (i + 1) (buf b1)) = drop (i + 1) (take (blen b) (buf b1))"
        using lbd by (simp add: drop_take)
      then show ?thesis by (simp add: b1 bd_def st w_def)
    qed
    let ?b2 = "store (i + 1 + k) bd b1"
    let ?b4 = "store (i + 1) (be_bytes k (length bd)) (store i [of_nat (128 + k)] ?b2)"
    have "length bd div 256 ^ k = 0" using len_octets_less [of "length bd"] n by (simp add: k_def)
    then have eq: "r" "b' = ?b4"
      using res asn1 n b1 r1 k Some form lbd tk
      by (simp_all add: flush_prefix_def st Let_def flush_len_octets_def len_loop_eq i_def)
    obtain x where x: "w = take i w @ [x] @ bd"
      using ch st lw id_take_nth_drop [of i w] by (auto simp: bd_def w_def)
    have li: "length (take i w) = i" using ch st lw by simp
    have bl: "blen b1 = i + 1 + k + length bd" using b1' lbd ch st by simp
    have len: "i + 1 + k + length bd \<le> length (buf b1)"
      using b1' bl by (simp add: buffer_ok_def)
    have "i + 1 + length bd = blen b" using lbd ch st by simp
    then have w1: "take (i + 1 + length bd) (buf b1) = take i w @ [x] @ bd"
      using b1 x by simp
    have "written b' = take i w @ prefixed ch bd"
      using move_along [of "take i w" i bd "buf b1" x "be_bytes k (length bd)" "of_nat (128 + k)"]
        li w1 len bl eq pref by (simp add: written_def)
    moreover have "grown b b'"
      using b1 bl b1' eq by (auto simp: buffer_ok_def intro!: grown_store)
    ultimately show ?thesis
      using eq b1' by (simp add: i_def w_def)
  qed
qed

lemma flush_prefix_spec:
  assumes ok: "buffer_ok b" "\<not> error b" and ch: "child_ok ch" "start ch \<le> blen b"
    and res: "flush_prefix al b ch (start ch) = (r, b', ch')"
  defines "bd \<equiv> drop (start ch) (written b)"
  shows "grown b b' \<and>
    (if r then \<not> error b' \<and> written b' = take (offset ch) (written b) @ prefixed ch bd
               \<and> length_fits ch (length bd)
     else \<not> (length_fits ch (length bd) \<and> fits al b (offset ch + length (prefixed ch bd))))"
proof (cases "pending_is_asn1 ch")
  case False
  then show ?thesis
    using flush_prefix_plain [OF ok ch False res] by (auto simp: bd_def)
next
  case True
  have st: "start ch = Suc (offset ch)" using ch True by (simp add: start_def child_ok_def)
  have lbd: "length bd = blen b - start ch" using ok by (simp add: bd_def buffer_simps)
  consider "length bd > 0xfffffffe" | "length bd < 128" | "128 \<le> length bd" "length bd \<le> 0xfffffffe"
    by linarith
  then show ?thesis
  proof cases
    case 1
    then show ?thesis
      using res True ok by (simp add: flush_prefix_def lbd [symmetric] length_fits_def grown_refl)
  next
    case 2
    have eq: "r" "b' = store (offset ch) [of_nat (length bd)] b"
      using res True 2
      by (simp_all add: flush_prefix_def lbd [symmetric] Let_def asn1_len_form_eq flush_len_octets_def)
    have within: "offset ch + length [of_nat (length bd) :: u8] \<le> blen b" using ch st by simp
    have "written b' = take (offset ch) (written b) @ prefixed ch bd"
      using eq written_store [OF ok(1) within] True 2
      by (simp add: write_at_def prefixed_asn1 bd_def st)
    moreover have "grown b b'"
      using eq within ok by (auto simp: buffer_ok_def intro!: grown_store grown_refl)
    ultimately show ?thesis
      using eq True ok 2 by (simp add: length_fits_def)
  next
    case 3
    then show ?thesis
      using flush_prefix_long [OF ok ch True res] True by (auto simp: bd_def length_fits_def)
  qed
qed

lemma cbb_chain_induct [case_names leaf node]:
  assumes "\<And>ic off pll asn1. P (CBB ic off pll asn1 None)"
    and "\<And>ic off pll asn1 ch. P ch \<Longrightarrow> P (CBB ic off pll asn1 (Some ch))"
  shows "P c"
proof (induction c)
  case (CBB ic off pll asn1 ch)
  show ?case
  proof (cases ch)
    case None
    then show ?thesis by (simp add: assms(1))
  next
    case (Some ch')
    then have "P ch'" using CBB [of ch'] by simp
    then show ?thesis using Some assms(2) by simp
  qed
qed

lemma prefixed_set_child [simp]: "prefixed (set_child x c) bs = prefixed c bs"
  by (simp add: prefixed_def)

lemma length_fits_set_child [simp]: "length_fits (set_child x c) n = length_fits c n"
  by (simp add: length_fits_def)

lemma child_ok_set_child [simp]: "child_ok (set_child x c) = child_ok c"
  by (simp add: child_ok_def)

lemma length_prefixed: "child_ok ch \<Longrightarrow> pending_len_len ch + length bs \<le> length (prefixed ch bs)"
  by (auto simp: prefixed_def child_ok_def der_len_def)

lemma flushed_leaf [simp]: "child c = None \<Longrightarrow> flushed b c = written b"
  by (cases c) (simp add: flushed_def start_def)

lemma flushed_node:
  assumes "chain_ok (blen b) (CBB ic off pll asn1 (Some ch))"
  shows "flushed b (CBB ic off pll asn1 (Some ch))
         = take (offset ch) (written b) @ prefixed ch (body (written b) ch)"
proof -
  have "take (offset ch) (written b)
        = take (off + pll) (written b) @ take (offset ch - (off + pll)) (drop (off + pll) (written b))"
    using assms take_add [of "off + pll" "offset ch - (off + pll)" "written b"] by simp
  then show ?thesis by (simp add: flushed_def start_def)
qed

text \<open>
  \<open>CBB_flush\<close> closes everything pending below the struct and leaves exactly the closed bytes in the
  buffer; it fails only when a content is too long for its prefix or memory runs out, and then sets
  \<open>error\<close>.
\<close>

lemma CBB_flush_spec:
  assumes "cbb_wf b c" and "CBB_flush al (Some b, c) = (r, st')"
  shows "\<exists>b' c'. st' = (Some b', c') \<and> grown b b' \<and>
    (if r then c' = set_child None c \<and> cbb_wf b' c' \<and> written b' = flushed b c \<and> closable (written b) c
     else error b' \<and> \<not> (closable (written b) c \<and> fits al b (length (flushed b c))))"
  using assms
proof (induction c arbitrary: r st' rule: cbb_chain_induct)
  case (leaf ic off pll asn1)
  then show ?case by (auto simp: cbb_wf_def grown_refl)
next
  case (node ic off pll asn1 ch)
  let ?c = "CBB ic off pll asn1 (Some ch)"
  let ?w = "written b"
  have ok: "buffer_ok b" "\<not> error b" and chain: "chain_ok (blen b) ?c" and wfch: "cbb_wf b ch"
    using node.prems by (auto simp: cbb_wf_def)
  have ch: "child_ok ch" "chain_ok (blen b) ch" "off + pll \<le> offset ch" using chain by auto
  have sch: "start ch \<le> blen b" using chain_start ch(2) .
  have small: "start ch < 2 ^ 64" using sch ok by (simp add: buffer_ok_def)
  obtain r1 st1 where r1: "CBB_flush al (Some b, ch) = (r1, st1)" by (rule prod.exhaust)
  from node.IH [OF wfch r1] obtain b1 ch1 where b1: "st1 = (Some b1, ch1)" "grown b b1"
    "if r1 then ch1 = set_child None ch \<and> cbb_wf b1 ch1 \<and> written b1 = flushed b ch \<and> closable ?w ch
     else error b1 \<and> \<not> (closable ?w ch \<and> fits al b (length (flushed b ch)))"
    by auto
  have shorter: "length (flushed b ch) \<le> length (flushed b ?c)"
    using length_prefixed [OF ch(1), of "body ?w ch"] sch ok
    by (simp add: flushed_node [OF chain] flushed_def [of b ch] start_def buffer_simps)
  have pll: "pending_len_len ch \<noteq> 0" using ch by (simp add: child_ok_def)
  have cs: "(offset ch + pending_len_len ch) mod 2 ^ 64 = start ch"
    using small by (simp add: start_def)
  have flush: "CBB_flush al (Some b, ?c) =
    (if \<not> r1 \<or> start ch < offset ch1 \<or> blen b1 < start ch
     then (False, (Some (b1\<lparr>error := True\<rparr>), CBB ic off pll asn1 (Some ch1)))
     else case flush_prefix al b1 ch1 (start ch) of
            (False, b, ch) \<Rightarrow> (False, (Some (b\<lparr>error := True\<rparr>), CBB ic off pll asn1 (Some ch)))
          | (True, b, ch) \<Rightarrow> (True, (Some b, CBB ic off pll asn1 None)))"
    using ok(2) pll r1 b1(1) by (simp only: CBB_flush.simps Let_def cs if_False) simp
  show ?case
  proof (cases r1)
    case False
    then show ?thesis
      using flush node.prems(2) b1 shorter by (auto simp: grown_error dest: fits_mono)
  next
    case True
    have ch1: "ch1 = set_child None ch" "cbb_wf b1 ch1" and w1: "written b1 = take (start ch) ?w @ body ?w ch"
      and cl: "closable ?w ch"
      using b1 True by (auto simp: flushed_def)
    have ltk: "length (take (start ch) ?w) = start ch" using sch ok by (simp add: buffer_simps)
    have blen1: "start ch \<le> blen b1"
      using ch1(2) w1 ltk by (simp add: cbb_wf_def buffer_blen)
    have bd: "drop (start ch) (written b1) = body ?w ch"
      using w1 ltk by simp
    have tk: "take (offset ch) (written b1) = take (offset ch) ?w"
      using w1 ltk by (simp add: start_def)
    have lof: "min (length ?w) (offset ch) = offset ch"
      using sch ok by (simp add: buffer_simps start_def)
    obtain r2 b2 ch2 where r2: "flush_prefix al b1 ch1 (start ch) = (r2, b2, ch2)"
      by (rule prod_cases3)
    have spec: "grown b1 b2 \<and>
      (if r2 then \<not> error b2 \<and> written b2 = take (offset ch) ?w @ prefixed ch (body ?w ch)
                  \<and> length_fits ch (length (body ?w ch))
       else \<not> (length_fits ch (length (body ?w ch)) \<and> fits al b1 (length (flushed b ?c))))"
      using flush_prefix_spec [of b1 "set_child None ch" al r2 b2 ch2] ch1 ch r2 blen1
      by (cases r2) (simp_all add: cbb_wf_def bd tk flushed_node [OF chain] lof)
    have gr: "grown b b2" using b1(2) spec grown_trans by blast
    show ?thesis
    proof (cases r2)
      case False
      then show ?thesis
        using flush node.prems(2) True blen1 r2 spec gr fits_grown [OF _ b1(2)] ch1
        by (auto simp: grown_error start_def)
    next
      case r2t: True
      have w2: "written b2 = flushed b ?c" using spec r2t by (simp add: flushed_node [OF chain])
      have "blen b2 = length (flushed b ?c)" using w2 gr by (simp add: grown_def buffer_blen)
      then have "off + pll \<le> blen b2"
        using ch(3) sch ok by (simp add: flushed_node [OF chain] start_def buffer_simps)
      then show ?thesis
        using flush node.prems(2) True blen1 r2 spec gr r2t w2 cl ch1
        by (auto simp: start_def cbb_wf_def grown_def)
    qed
  qed
qed

section \<open>The contract of the operations that add bytes\<close>

text \<open>
  \<open>appends al f bs\<close>: in any builder without an error, \<open>f\<close> closes what is pending below the struct and
  appends \<open>bs\<close>; when it fails, \<open>error\<close> is set and either a pending content was too long for its prefix
  or the bytes are not certain to fit.
\<close>

definition outcome :: "malloc_env \<Rightarrow> cbb_buffer \<Rightarrow> cbb \<Rightarrow> bytes \<Rightarrow> bool \<times> cbb_state \<Rightarrow> bool" where
  "outcome al b c bs res \<longleftrightarrow>
     (case res of
        (r, (None, c')) \<Rightarrow> False
      | (r, (Some b', c')) \<Rightarrow>
          grown b b' \<and>
          (if r then c' = set_child None c \<and> cbb_wf b' c' \<and> written b' = flushed b c @ bs
                     \<and> closable (written b) c
           else error b' \<and> \<not> (closable (written b) c \<and> fits al b (length (flushed b c @ bs)))))"

definition appends :: "malloc_env \<Rightarrow> cbb_op \<Rightarrow> bytes \<Rightarrow> bool" where
  "appends al f bs \<longleftrightarrow> (\<forall>b c. cbb_wf b c \<longrightarrow> outcome al b c bs (f (Some b, c)))"

lemma appendsI:
  assumes "\<And>b c r st. cbb_wf b c \<Longrightarrow> f (Some b, c) = (r, st) \<Longrightarrow> outcome al b c bs (r, st)"
  shows "appends al f bs"
  unfolding appends_def
proof (intro allI impI)
  fix b c assume "cbb_wf b c"
  then show "outcome al b c bs (f (Some b, c))"
    by (cases "f (Some b, c)") (use assms in simp)
qed

lemma appendsD: "appends al f bs \<Longrightarrow> cbb_wf b c \<Longrightarrow> outcome al b c bs (f (Some b, c))"
  by (simp add: appends_def)

lemma outcome_cases [consumes 1, case_names success failure]:
  assumes "outcome al b c bs res"
  obtains b' where "res = (True, (Some b', set_child None c))" "grown b b'" "cbb_wf b' (set_child None c)"
      "written b' = flushed b c @ bs" "closable (written b) c"
    | b' c' where "res = (False, (Some b', c'))" "grown b b'" "error b'"
      "\<not> (closable (written b) c \<and> fits al b (length (flushed b c @ bs)))"
  using assms by (auto simp: outcome_def split: prod.splits option.splits if_splits)

lemma closable_leaf [simp]: "child c = None \<Longrightarrow> closable w c"
  by (cases c) simp

lemma child_set_child [simp]: "child (set_child x c) = x"
  by (rule set_child_simps)

lemma flush_appends: "appends al (CBB_flush al) []"
proof (rule appendsI)
  fix b c r st
  assume "cbb_wf b c" "CBB_flush al (Some b, c) = (r, st)"
  from CBB_flush_spec [OF this] show "outcome al b c [] (r, st)"
    by (auto simp: outcome_def)
qed

lemma appends_then:
  assumes f: "appends al f xs" and g: "appends al g ys"
  shows "appends al (c_and f g) (xs @ ys)"
proof (rule appendsI)
  fix b c r st
  assume wf: "cbb_wf b c" and res: "c_and f g (Some b, c) = (r, st)"
  from appendsD [OF f wf] show "outcome al b c (xs @ ys) (r, st)"
  proof (cases rule: outcome_cases)
    case (failure b' c')
    then show ?thesis
      using res fits_mono [of al b "length (flushed b c @ xs @ ys)" "length (flushed b c @ xs)"]
      by (auto simp: c_and_def outcome_def)
  next
    case (success b')
    then have res2: "g (Some b', set_child None c) = (r, st)"
      using res by (simp add: c_and_def)
    from appendsD [OF g success(3)] show ?thesis
    proof (cases rule: outcome_cases)
      case (success b'')
      then show ?thesis
        using res2 \<open>grown b b'\<close> \<open>written b' = _\<close> \<open>closable (written b) c\<close>
        by (auto simp: outcome_def dest: grown_trans)
    next
      case (failure b'' c'')
      then show ?thesis
        using res2 \<open>grown b b'\<close> \<open>written b' = _\<close>
        by (cases c) (auto simp: outcome_def dest: grown_trans fits_grown)
    qed
  qed
qed

text \<open>Flush, then add to the shared buffer: the shape of every simple operation.\<close>

lemma flush_then_appends:
  assumes f: "\<And>b c. cbb_wf b c \<Longrightarrow> child c = None \<Longrightarrow> outcome al b c bs (f (Some b, c))"
  shows "appends al (c_and (CBB_flush al) f) bs"
proof (rule appendsI)
  fix b c r st
  assume wf: "cbb_wf b c" and res: "c_and (CBB_flush al) f (Some b, c) = (r, st)"
  from appendsD [OF flush_appends [of al] wf] show "outcome al b c bs (r, st)"
  proof (cases rule: outcome_cases)
    case (failure b' c')
    then show ?thesis
      using res fits_mono [of al b "length (flushed b c @ bs)" "length (flushed b c)"]
      by (auto simp: c_and_def outcome_def)
  next
    case (success b')
    then have "f (Some b', set_child None c) = (r, st)"
      using res by (simp add: c_and_def)
    with f [OF success(3)] success show ?thesis
      using fits_grown [OF _ success(2), of al "length (flushed b c @ bs)"]
      by (auto simp: outcome_def split: option.splits if_splits dest: grown_trans)
  qed
qed

lemma flush_add_u:
  "(case CBB_flush al st of
      (True, (base, c)) \<Rightarrow> (case cbb_buffer_add_u al base v n of (ok, base) \<Rightarrow> (ok, (base, c)))
    | (False, st) \<Rightarrow> (False, st))
   = c_and (CBB_flush al) (\<lambda>st. case cbb_buffer_add_u al (fst st) v n of (ok, base) \<Rightarrow> (ok, (base, snd st))) st"
  by (auto simp: c_and_def split: prod.splits bool.splits)

lemma add_u_outcome:
  assumes n: "1 \<le> n" "n \<le> 8" and v: "unat v < 256 ^ n"
    and wf: "cbb_wf b c" "child c = None"
  shows "outcome al b c (be_bytes n (unat v))
     (case cbb_buffer_add_u al (Some b) v n of (ok, base) \<Rightarrow> (ok, (base, c)))"
proof -
  obtain r base where r: "cbb_buffer_add_u al (Some b) v n = (r, base)" by fastforce
  have ok: "buffer_ok b" using wf by (simp add: cbb_wf_def)
  from add_u_spec [OF ok n(2) r] obtain b' where b': "base = Some b'" "grown b b'"
    "if r then appended b (be_bytes n (unat v)) b'
     else error b' \<and> \<not> fits al b (blen b + n)"
    using v by (cases r) auto
  have c: "set_child None c = c" using wf by (cases c) simp
  have "chain_ok (blen b') c" if "appended b (be_bytes n (unat v)) b'"
  proof -
    have "blen b \<le> blen b'"
      using that ok by (simp add: appended_def grown_def buffer_blen)
    then show ?thesis using wf by (cases c) (simp add: cbb_wf_def)
  qed
  moreover have "closable (written b) c" using wf by (cases c) simp
  ultimately show ?thesis
    using r b' wf ok
    by (auto simp: outcome_def c cbb_wf_def appended_def grown_def buffer_simps)
qed

lemma add_u_appends:
  assumes "1 \<le> n" "n \<le> 8" "unat v < 256 ^ n"
  shows "appends al (\<lambda>st. case CBB_flush al st of
      (True, (base, c)) \<Rightarrow> (case cbb_buffer_add_u al base v n of (ok, base) \<Rightarrow> (ok, (base, c)))
    | (False, st) \<Rightarrow> (False, st)) (be_bytes n (unat v))"
  unfolding flush_add_u
  by (rule flush_then_appends) (simp only: fst_conv snd_conv add_u_outcome [OF assms])

named_theorems cbb_appends

lemma unat_ucast_less: "unat (ucast (w :: 'a::len word) :: u64) = unat w" if "LENGTH('a) \<le> 64"
proof -
  have "unat w < 2 ^ LENGTH('a)" by (rule unsigned_less)
  also have "\<dots> \<le> 2 ^ 64" using that by (intro power_increasing) auto
  finally show ?thesis by (simp add: unat_ucast)
qed

lemma CBB_add_u8_appends [cbb_appends]: "appends al (CBB_add_u8 al v) [v]"
proof -
  have "unat (ucast v :: u64) < 256 ^ 1" using unat_u8_less [of v] by (simp add: unat_ucast_less)
  from add_u_appends [OF _ _ this, of al] show ?thesis
    unfolding CBB_add_u8_def [abs_def] by (simp add: unat_ucast_less)
qed

lemma CBB_add_u16_appends [cbb_appends]: "appends al (CBB_add_u16 al v) (be_bytes 2 (unat v))"
proof -
  have "unat v < 2 ^ LENGTH(16)" by (rule unsigned_less)
  then have "unat (ucast v :: u64) < 256 ^ 2" by (simp add: unat_ucast_less)
  from add_u_appends [OF _ _ this, of al] show ?thesis
    unfolding CBB_add_u16_def [abs_def] by (simp add: unat_ucast_less)
qed

lemma CBB_add_u24_appends [cbb_appends]:
  "unat v < 2 ^ 24 \<Longrightarrow> appends al (CBB_add_u24 al v) (be_bytes 3 (unat v))"
  unfolding CBB_add_u24_def [abs_def]
  using add_u_appends [of 3 "ucast v" al] by (simp add: unat_ucast_less)

lemma CBB_add_u32_appends [cbb_appends]: "appends al (CBB_add_u32 al v) (be_bytes 4 (unat v))"
proof -
  have "unat v < 2 ^ LENGTH(32)" by (rule unsigned_less)
  then have "unat (ucast v :: u64) < 256 ^ 4" by (simp add: unat_ucast_less)
  from add_u_appends [OF _ _ this, of al] show ?thesis
    unfolding CBB_add_u32_def [abs_def] by (simp add: unat_ucast_less)
qed

lemma CBB_add_u64_appends [cbb_appends]: "appends al (CBB_add_u64 al v) (be_bytes 8 (unat v))"
proof -
  have "unat v < 256 ^ 8" using unat_less_64 [of v] by simp
  from add_u_appends [OF _ _ this, of al] show ?thesis
    unfolding CBB_add_u64_def [abs_def] by simp
qed

text \<open>A builder with room: after adding \<open>n\<close> bytes to a leaf the structure is still well-formed.\<close>

lemma appended_outcome:
  assumes wf: "cbb_wf b c" "child c = None" and ap: "appended b bs b'"
  shows "outcome al b c bs (True, (Some b', c))"
proof -
  have ok: "buffer_ok b" using wf by (simp add: cbb_wf_def)
  have c: "set_child None c = c" using wf by (cases c) simp
  have "blen b \<le> blen b'"
    using ap ok by (simp add: appended_def grown_def buffer_blen)
  then have "chain_ok (blen b') c" using wf by (cases c) (simp add: cbb_wf_def)
  then show ?thesis
    using ap wf by (simp add: outcome_def c cbb_wf_def appended_def grown_def)
qed

lemma add_bytes_outcome:
  assumes len: "length data + 8 < 2 ^ 63" and wf: "cbb_wf b c" "child c = None"
  shows "outcome al b c data (case cbb_buffer_add al (Some b) (length data) of
         (Some dest, Some b) \<Rightarrow> (True, (Some (store dest data b), c))
       | (_, base) \<Rightarrow> (False, (base, c)))"
proof -
  have ok: "buffer_ok b" using wf by (simp add: cbb_wf_def)
  obtain r1 base1 where r1: "cbb_buffer_add al (Some b) (length data) = (r1, base1)" by fastforce
  from add_spec [OF ok len r1] obtain b1 where b1: "base1 = Some b1" "grown b b1"
      "take (blen b) (buf b1) = written b"
      "case r1 of None \<Rightarrow> error b1 \<and> \<not> fits al b (blen b + length data)
       | Some off \<Rightarrow> off = blen b \<and> error b1 = error b \<and> blen b1 = blen b + length data"
    by auto
  show ?thesis
  proof (cases r1)
    case None
    then show ?thesis
      using r1 b1 wf ok by (auto simp: outcome_def buffer_simps)
  next
    case (Some off)
    then have "appended b data (store (blen b) data b1)"
      using b1 ok by (intro add_store_appended) auto
    then show ?thesis
      using appended_outcome [OF wf] r1 b1 Some by auto
  qed
qed

lemma CBB_add_bytes_eq:
  "CBB_add_bytes al data = c_and (CBB_flush al) (\<lambda>st.
     case cbb_buffer_add al (fst st) (length data) of
         (Some dest, Some b) \<Rightarrow> (True, (Some (store dest data b), snd st))
       | (_, base) \<Rightarrow> (False, (base, snd st)))"
  by (rule ext) (auto simp: CBB_add_bytes_def c_and_def split: prod.splits bool.splits option.splits)

lemma CBB_add_bytes_appends [cbb_appends]:
  "length data + 8 < 2 ^ 63 \<Longrightarrow> appends al (CBB_add_bytes al data) data"
  unfolding CBB_add_bytes_eq
  by (rule flush_then_appends) (simp only: fst_conv snd_conv add_bytes_outcome)

section \<open>Opening and closing a length-prefixed part\<close>

definition open_child :: "nat \<Rightarrow> nat \<Rightarrow> bool \<Rightarrow> cbb" where
  "open_child off pll asn1 = CBB True off pll asn1 None"

lemma open_child_simps [simp]:
  "child (open_child off pll asn1) = None" "offset (open_child off pll asn1) = off"
  "pending_len_len (open_child off pll asn1) = pll" "set_child None (open_child off pll asn1) = open_child off pll asn1"
  "child_ok (open_child off pll asn1) = (1 \<le> pll \<and> pll \<le> 8 \<and> (asn1 \<longrightarrow> pll = 1))"
  "body w (open_child off pll asn1) = drop (off + pll) w"
  "length_fits (open_child off pll asn1) n = (if asn1 then n \<le> 0xfffffffe else n < 256 ^ pll)"
  "prefixed (open_child off pll asn1) bs =
     (if asn1 then der_len (length bs) else be_bytes pll (length bs)) @ bs"
  by (auto simp: open_child_def child_ok_def length_fits_def prefixed_def)

text \<open>\<open>f\<close> appends \<open>pre\<close> and opens a child whose prefix is \<open>pll\<close> zero bytes for now.\<close>

definition opened ::
    "malloc_env \<Rightarrow> cbb_buffer \<Rightarrow> cbb \<Rightarrow> bytes \<Rightarrow> nat \<Rightarrow> bool \<Rightarrow> bool \<times> cbb_state \<Rightarrow> bool" where
  "opened al b c pre pll asn1 res \<longleftrightarrow>
     (case res of
        (r, (None, c')) \<Rightarrow> False
      | (r, (Some b', c')) \<Rightarrow>
          grown b b' \<and>
          (if r then c' = set_child (Some (open_child (length (flushed b c @ pre)) pll asn1)) c
                     \<and> \<not> error b' \<and> written b' = flushed b c @ pre @ replicate pll 0
                     \<and> closable (written b) c
           else error b' \<and> \<not> (closable (written b) c
                               \<and> fits al b (length (flushed b c @ pre) + pll))))"

definition opens :: "malloc_env \<Rightarrow> cbb_op \<Rightarrow> bytes \<Rightarrow> nat \<Rightarrow> bool \<Rightarrow> bool" where
  "opens al f pre pll asn1 \<longleftrightarrow> (\<forall>b c. cbb_wf b c \<longrightarrow> opened al b c pre pll asn1 (f (Some b, c)))"

lemma opensD: "opens al f pre pll asn1 \<Longrightarrow> cbb_wf b c \<Longrightarrow> opened al b c pre pll asn1 (f (Some b, c))"
  by (simp add: opens_def)

lemma opened_cases [consumes 1, case_names success failure]:
  assumes "opened al b c pre pll asn1 res"
  obtains b' where "res = (True, (Some b', set_child (Some (open_child (length (flushed b c @ pre)) pll asn1)) c))"
      "grown b b'" "\<not> error b'" "written b' = flushed b c @ pre @ replicate pll 0" "closable (written b) c"
    | b' c' where "res = (False, (Some b', c'))" "grown b b'" "error b'"
      "\<not> (closable (written b) c \<and> fits al b (length (flushed b c @ pre) + pll))"
  using assms by (auto simp: opened_def split: prod.splits option.splits if_splits)

lemma length_flushed_start: "cbb_wf b c \<Longrightarrow> start c \<le> length (flushed b c)"
  using chain_start [of "blen b" c] by (simp add: cbb_wf_def flushed_def buffer_simps)

lemma on_child_Some:
  "on_child f (base, set_child (Some ch) c)
   = (case f (base, ch) of (r, base, ch) \<Rightarrow> (r, base, set_child (Some ch) c))"
  by (simp add: on_child_def)

lemma chain_ok_open:
  assumes "start c \<le> off" and "1 \<le> pll" "pll \<le> 8" "asn1 \<longrightarrow> pll = 1" and "off + pll \<le> n"
  shows "chain_ok n (set_child (Some (open_child off pll asn1)) c)"
  using assms by (cases c) (auto simp: start_def open_child_def child_ok_def)

lemma flushed_open:
  assumes "chain_ok (blen b) (set_child (Some (open_child off pll asn1)) c)"
  shows "flushed b (set_child (Some (open_child off pll asn1)) c)
         = take off (written b) @ prefixed (open_child 0 pll asn1) (drop (off + pll) (written b))"
  using assms by (cases c) (simp add: flushed_node)

lemma closable_open:
  "closable w (set_child (Some (open_child off pll asn1)) c)
   = length_fits (open_child 0 pll asn1) (length w - (off + pll))"
  by (cases c) (simp add: open_child_def length_fits_def)

lemma enclose:
  assumes f: "opens al f pre pll asn1" and g: "appends al g bs"
    and pll: "1 \<le> pll" "pll \<le> 8" "asn1 \<longrightarrow> pll = 1"
    and len: "length_fits (open_child 0 pll asn1) (length bs)"
  shows "appends al (c_and f (c_and (on_child g) (CBB_flush al))) (pre @ prefixed (open_child 0 pll asn1) bs)"
proof (rule appendsI)
  fix b c r st
  assume wf: "cbb_wf b c"
    and res: "c_and f (c_and (on_child g) (CBB_flush al)) (Some b, c) = (r, st)"
  let ?pb = "prefixed (open_child 0 pll asn1) bs"
  define off where "off = length (flushed b c @ pre)"
  let ?ch = "open_child off pll asn1"
  have lpb: "pll + length bs \<le> length ?pb"
    using length_prefixed [of "open_child 0 pll asn1" bs] pll by simp
  have le: "start c \<le> off" using length_flushed_start [OF wf] by (simp add: off_def)
  from opensD [OF f wf] show "outcome al b c (pre @ ?pb) (r, st)"
  proof (cases rule: opened_cases)
    case (failure b' c')
    moreover have "off + pll \<le> length (flushed b c @ pre @ ?pb)" using lpb by (simp add: off_def)
    ultimately show ?thesis
      using res fits_mono [of al b "length (flushed b c @ pre @ ?pb)" "off + pll"]
      by (auto simp: c_and_def outcome_def off_def)
  next
    case (success b1)
    have w1: "written b1 = flushed b c @ pre @ replicate pll 0" by (rule success(4))
    have ok1: "buffer_ok b1" using success(2) by (rule grown_ok)
    have blen1: "blen b1 = off + pll" using ok1 w1 by (simp add: buffer_blen off_def)
    have wf1: "cbb_wf b1 ?ch"
      using ok1 success(3) blen1 by (simp add: cbb_wf_def open_child_def)
    have res1: "c_and (on_child g) (CBB_flush al) (Some b1, set_child (Some ?ch) c) = (r, st)"
      using res success(1) by (simp add: c_and_def off_def)
    from appendsD [OF g wf1] show ?thesis
    proof (cases rule: outcome_cases)
      case (failure b2 c2)
      have "off + pll + length bs \<le> length (flushed b c @ pre @ ?pb)" using lpb by (simp add: off_def)
      then show ?thesis
        using res1 failure success(2,5) blen1 ok1 w1 fits_grown [OF _ success(2), of al "length (flushed b c @ pre @ ?pb)"]
          fits_mono [of al b1 "length (flushed b c @ pre @ ?pb)" "length (written b1 @ bs)"]
        by (auto simp: c_and_def on_child_Some outcome_def off_def dest: grown_trans)
    next
      case s2: (success b2)
      have w2: "written b2 = flushed b c @ pre @ replicate pll 0 @ bs"
        using s2(4) w1 by simp
      have ok2: "buffer_ok b2" using s2(2) by (rule grown_ok)
      have blen2: "blen b2 = off + pll + length bs" using ok2 w2 by (simp add: buffer_blen off_def)
      let ?c2 = "set_child (Some ?ch) c"
      have chain2: "chain_ok (blen b2) ?c2"
        using le pll blen2 by (intro chain_ok_open) auto
      then have wf2: "cbb_wf b2 ?c2"
        using s2(3) by (simp add: cbb_wf_def)
      have fl2: "flushed b2 ?c2 = flushed b c @ pre @ ?pb"
        unfolding flushed_open [OF chain2] using w2 by (simp add: off_def)
      have cl2: "closable (written b2) ?c2"
        unfolding closable_open using len w2 by (simp add: off_def)
      have res2: "CBB_flush al (Some b2, ?c2) = (r, st)"
        using res1 s2(1) by (simp add: c_and_def on_child_Some)
      have g2: "grown b b2" using success(2) s2(2) by (rule grown_trans)
      from appendsD [OF flush_appends [of al] wf2] show ?thesis
      proof (cases rule: outcome_cases)
        case (success b3)
        then show ?thesis
          using res2 fl2 \<open>closable (written b) c\<close> grown_trans [OF g2]
          by (auto simp: outcome_def)
      next
        case (failure b3 c3)
        then show ?thesis
          using res2 fl2 cl2 grown_trans [OF g2] fits_grown [OF _ g2, of al "length (flushed b c @ pre @ ?pb)"]
          by (auto simp: outcome_def)
      qed
    qed
  qed
qed

lemma add_length_prefixed_opens:
  assumes n: "n \<le> 8"
  shows "opens al (cbb_add_length_prefixed al n) [] n False"
  unfolding opens_def
proof (intro allI impI)
  fix b c
  assume wf: "cbb_wf b c"
  have len: "n + 8 < 2 ^ 63" using n by simp
  from appendsD [OF flush_appends [of al] wf]
  show "opened al b c [] n False (cbb_add_length_prefixed al n (Some b, c))"
  proof (cases rule: outcome_cases)
    case (failure b1 c1)
    then show ?thesis
      using fits_mono [of al b "length (flushed b c) + n" "length (flushed b c)"]
      by (auto simp: cbb_add_length_prefixed_def opened_def)
  next
    case (success b1)
    have ok1: "buffer_ok b1" using success(2) by (rule grown_ok)
    have lf: "length (flushed b c) = blen b1" using success(4) ok1 by (simp add: buffer_blen)
    obtain r2 base2 where r2: "cbb_buffer_add al (Some b1) n = (r2, base2)" by fastforce
    from add_spec [OF ok1 len r2] obtain b2 where b2: "base2 = Some b2" "grown b1 b2"
        "take (blen b1) (buf b2) = written b1"
        "case r2 of None \<Rightarrow> error b2 \<and> \<not> fits al b1 (blen b1 + n)
         | Some off \<Rightarrow> off = blen b1 \<and> error b2 = error b1 \<and> blen b2 = blen b1 + n"
      by auto
    show ?thesis
    proof (cases r2)
      case None
      then show ?thesis
        using success b2 r2 lf fits_grown [OF _ success(2), of al "blen b1 + n"]
        by (auto simp: cbb_add_length_prefixed_def opened_def dest: grown_trans)
    next
      case (Some off)
      then have "appended b1 (replicate n 0) (store (blen b1) (replicate n 0) b2)"
        using b2 ok1 by (intro add_store_appended) auto
      then show ?thesis
        using success b2 r2 Some lf
        by (auto simp: cbb_add_length_prefixed_def opened_def appended_def open_child_def cbb_wf_def dest: grown_trans)
    qed
  qed
qed

lemmas add_u8_length_prefixed_opens =
  add_length_prefixed_opens [of 1, folded CBB_add_u8_length_prefixed_def, simplified]
lemmas add_u16_length_prefixed_opens =
  add_length_prefixed_opens [of 2, folded CBB_add_u16_length_prefixed_def, simplified]
lemmas add_u24_length_prefixed_opens =
  add_length_prefixed_opens [of 3, folded CBB_add_u24_length_prefixed_def, simplified]

section \<open>A whole builder\<close>

text \<open>The state \<open>CBB_init\<close> and \<open>CBB_init_fixed\<close> leave behind, and what \<open>CBB_finish\<close> hands out.\<close>

lemma block_length:
  "n + 8 < 2 ^ 64 \<Longrightarrow> OPENSSL_malloc al t n = Some h \<Longrightarrow> length (hb_bytes h) = n \<and> n + 8 < 2 ^ 63"
  by (auto simp: OPENSSL_malloc_def c_malloc_def split: option.splits if_splits)

lemma CBB_init_wf:
  assumes "CBB_init al t n = (True, st)" and "0 < n" and "n + 8 < 2 ^ 64"
  shows "\<exists>b. st = (Some b, CBB False 0 0 False None) \<and> cbb_wf b (CBB False 0 0 False None)
             \<and> written b = [] \<and> can_resize b \<and> cap b = n"
proof -
  obtain h where h: "OPENSSL_malloc al t n = Some h" 
    using assms(1,2) by (cases "OPENSSL_malloc al t n") (auto simp: CBB_init_def)
  obtain h' where h': "OPENSSL_malloc al (Suc t) 32 = Some h'"
    using assms(1) h by (cases "OPENSSL_malloc al (Suc t) 32") (auto simp: CBB_init_def cbb_init_def)
  have n: "length (hb_bytes h) = n" "n + 8 < 2 ^ 63" using block_length [OF assms(3) h] by simp_all
  let ?b = "\<lparr>buf = hb_bytes h, blen = 0, cap = n, can_resize = True, error = False, reqs = Suc (Suc t)\<rparr>"
  have "st = (Some ?b, CBB False 0 0 False None)"
    using assms(1) h h' by (simp add: CBB_init_def cbb_init_def)
  moreover have "cbb_wf ?b (CBB False 0 0 False None)" "written ?b = []"
    using n by (simp_all add: cbb_wf_def buffer_ok_def written_def)
  ultimately show ?thesis by simp
qed

lemma CBB_init_fixed_wf:
  assumes "CBB_init_fixed al t block n = (True, st)" and "length block = n" and "n + 8 < 2 ^ 63"
  shows "\<exists>b. st = (Some b, CBB False 0 0 False None) \<and> cbb_wf b (CBB False 0 0 False None)
             \<and> written b = [] \<and> \<not> can_resize b \<and> cap b = n"
  using assms
  by (auto simp: CBB_init_fixed_def cbb_init_def cbb_wf_def buffer_ok_def written_def
      split: option.splits if_splits)

lemma CBB_init_succeeds:
  assumes "al_total al" and "0 < n" and "n + 8 < 2 ^ 63"
  obtains st where "CBB_init al t n = (True, st)"
proof -
  obtain f g where "al t (n + 8) = Some f" "al (Suc t) 40 = Some g"
    using assms(1) unfolding al_total_def by blast
  then have "\<exists>st. CBB_init al t n = (True, st)"
    using assms by (simp add: CBB_init_def cbb_init_def OPENSSL_malloc_def c_malloc_def Let_def)
  then show ?thesis using that by blast
qed

text \<open>Build with one appending operation, then finish.\<close>

lemma CBB_finish_appended:
  assumes f: "appends al f bs" and wf: "cbb_wf b (CBB False 0 0 False None)" and w: "written b = []"
    and run: "f (Some b, CBB False 0 0 False None) = (True, st)"
  shows "\<exists>blk st'. CBB_finish al True True st = ((True, Some blk, Some (length bs)), st')
                   \<and> take (length bs) blk = bs \<and> fst st' = None"
proof -
  have w0: "flushed b (CBB False 0 0 False None) = []" using w by simp
  from appendsD [OF f wf] show ?thesis
  proof (cases rule: outcome_cases)
    case (failure b' c')
    then show ?thesis using run by simp
  next
    case (success b')
    have st: "st = (Some b', CBB False 0 0 False None)" using success(1) run by simp
    have "written b' = bs" using success(4) w0 by simp
    moreover from this have "blen b' = length bs" using success(3) by (simp add: cbb_wf_def buffer_blen)
    ultimately show ?thesis
      using success(3) by (simp add: CBB_finish_def st cbb_wf_def CBB_cleanup_def written_def)
  qed
qed

text \<open>A failed builder stays failed: \<open>error\<close> makes every operation fail and change nothing.\<close>

lemma flush_error [simp]: "error b \<Longrightarrow> CBB_flush al (Some b, c) = (False, (Some b, c))"
  by (cases "(al, (Some b, c))" rule: CBB_flush.cases) auto

lemma ops_error:
  assumes "error b"
  shows "CBB_add_u8 al v8 (Some b, c) = (False, (Some b, c))"
    and "CBB_add_u16 al v16 (Some b, c) = (False, (Some b, c))"
    and "CBB_add_u24 al v32 (Some b, c) = (False, (Some b, c))"
    and "CBB_add_u32 al v32 (Some b, c) = (False, (Some b, c))"
    and "CBB_add_u64 al v64 (Some b, c) = (False, (Some b, c))"
    and "CBB_add_bytes al bs (Some b, c) = (False, (Some b, c))"
    and "cbb_add_length_prefixed al n (Some b, c) = (False, (Some b, c))"
    and "CBB_add_space al n (Some b, c) = (None, (Some b, c))"
    and "CBB_reserve al n (Some b, c) = (None, (Some b, c))"
    and "CBB_finish al od ol (Some b, c) = ((False, None, None), (Some b, c))"
  using assms
  by (simp_all add: CBB_add_u8_def CBB_add_u16_def CBB_add_u24_def CBB_add_u32_def CBB_add_u64_def
      CBB_add_bytes_def cbb_add_length_prefixed_def CBB_add_space_def CBB_reserve_def CBB_finish_def)

text \<open>A buffer that cannot be resized never changes its capacity.\<close>

lemma grown_fixed:
  assumes "appends al f bs" and "cbb_wf b c" and "\<not> can_resize b"
    and "f (Some b, c) = (r, (Some b', c'))"
  shows "\<not> can_resize b' \<and> length (buf b') = cap b' \<and> blen b' \<le> cap b'"
  using appendsD [OF assms(1,2)] assms(3,4)
  by (auto simp: outcome_def grown_def buffer_ok_def)

text \<open>\<open>CBB_reserve\<close> followed by \<open>CBB_did_write\<close> is \<open>CBB_add_space\<close>.\<close>

lemma reserve_did_write:
  assumes wf: "cbb_wf b c" and len: "len + 8 < 2 ^ 63"
    and r: "CBB_reserve al len (Some b, c) = (Some off, st)"
  shows "\<exists>st'. CBB_did_write len st = Some (True, st') \<and> CBB_add_space al len (Some b, c) = (Some off, st')"
proof -
  from appendsD [OF flush_appends [of al] wf] show ?thesis
  proof (cases rule: outcome_cases)
    case (failure b' c')
    then show ?thesis using r by (simp add: CBB_reserve_def)
  next
    case (success b')
    have ok': "buffer_ok b'" using success(3) by (simp add: cbb_wf_def)
    obtain base where r1: "cbb_buffer_reserve al (Some b') len = (Some off, base)"
      and st: "st = (base, set_child None c)"
      using r success(1) by (auto simp: CBB_reserve_def split: prod.splits)
    from reserve_spec [OF ok' len r1] obtain b1 where b1: "base = Some b1" "grown b' b1"
        "blen b1 = blen b'" "blen b' + len \<le> cap b1"
      by auto
    have "(blen b' + len) mod 2 ^ 64 = blen b' + len"
      using b1 by (intro mod_less) (simp add: grown_def buffer_ok_def)
    then show ?thesis
      using b1 success(1) r1 st
      by (simp add: CBB_did_write_def CBB_add_space_def cbb_buffer_add_def Let_def)
  qed
qed

section \<open>Properties\<close>

text \<open>
  C21: \<open>CBB_flush\<close> refines closing everything that is pending: it either writes all the length prefixes,
  so that the bytes are exactly \<open>flushed b c\<close>, and detaches the child, or fails with the error flag set,
  and then some contents do not fit their prefix or memory is short.
\<close>

theorem flush_closes_pending:
  assumes "cbb_wf b c" and "CBB_flush al (Some b, c) = (r, st)"
  shows "\<exists>b' c'. st = (Some b', c') \<and> grown b b' \<and>
    (if r then c' = set_child None c \<and> cbb_wf b' c' \<and> written b' = flushed b c \<and> closable (written b) c
     else error b' \<and> \<not> (closable (written b) c \<and> fits al b (length (flushed b c))))"
  using assms by (rule CBB_flush_spec)

theorem flush_closes_pending_witness:
  "\<exists>b'. CBB_flush (\<lambda>_ _. None)
      (Some \<lparr>buf = [0, 7, 8, 0], blen = 3, cap = 4, can_resize = False, error = False, reqs = 0\<rparr>,
       CBB False 0 0 False (Some (CBB True 0 1 False None))) = (True, Some b', CBB False 0 0 False None)
     \<and> written b' = [2, 7, 8]"
proof -
  define al :: malloc_env where "al = (\<lambda>_ _. None)"
  define b where "b = \<lparr>buf = [0, 7, 8, 0 :: u8], blen = 3, cap = 4, can_resize = False, error = False, reqs = 0\<rparr>"
  define c where "c = CBB False 0 0 False (Some (CBB True 0 1 False None))"
  have wf: "cbb_wf b c" by (simp add: b_def c_def cbb_wf_def buffer_ok_def child_ok_def)
  have fl: "flushed b c = [2, 7, 8]" unfolding b_def c_def by code_simp
  have cl: "closable (written b) c" unfolding b_def c_def by code_simp
  have ft: "fits al b (length [2, 7, 8 :: u8])" by (simp add: fits_def b_def)
  obtain r st where run: "CBB_flush al (Some b, c) = (r, st)" by (rule prod.exhaust)
  have "\<exists>b'. CBB_flush al (Some b, c) = (True, Some b', set_child None c) \<and> written b' = [2, 7, 8]"
    using flush_closes_pending [OF wf run] cl ft unfolding run fl by (cases r) (auto simp del: list.size)
  then show ?thesis by (simp add: al_def b_def c_def)
qed

text \<open>
  \<open>CBB_reserve\<close> for \<open>n\<close> bytes followed by \<open>CBB_did_write\<close> of \<open>n\<close> has the same result and the same
  final state as \<open>CBB_add_space\<close>.
\<close>

lemma reserve_then_did_write:
  assumes "cbb_wf b c" and "n + 8 < 2 ^ 63" and "CBB_reserve al n (Some b, c) = (Some off, st)"
  shows "\<exists>st'. CBB_did_write n st = Some (True, st') \<and> CBB_add_space al n (Some b, c) = (Some off, st')"
  using assms by (rule reserve_did_write)

end
