(* ===== verification/Codec.thy ===== *)
theory Codec
  imports Cbb
begin

text \<open>
  The interface between the writing functions of \<^verbatim>\<open>cbb.c\<close> and the reading functions of \<^verbatim>\<open>cbs.c\<close>: a
  writer and a reader that agree on an encoding. What a client of such a pair relies on (a value, or
  a sequence of values, written into a builder is read back unchanged; no encoding is a prefix of
  another) is proved once, in the locale, and holds for every pair of the library by interpretation.
\<close>

text \<open>Writing a sequence of values, stopping at the first failure, and reading \<open>n\<close> values.\<close>

fun put_all :: "('a \<Rightarrow> cbb_op) \<Rightarrow> 'a list \<Rightarrow> cbb_op" where
  "put_all put [] = (\<lambda>st. (True, st))"
| "put_all put [x] = put x"
| "put_all put (x # y # xs) = c_and (put x) (put_all put (y # xs))"

primrec get_all :: "'a cbs_reader \<Rightarrow> nat \<Rightarrow> 'a list cbs_reader" where
  "get_all get 0 cbs = (Some [], cbs)"
| "get_all get (Suc n) cbs =
     (case get cbs of
        (None, cbs) \<Rightarrow> (None, cbs)
      | (Some x, cbs) \<Rightarrow>
          (case get_all get n cbs of
             (None, cbs) \<Rightarrow> (None, cbs)
           | (Some xs, cbs) \<Rightarrow> (Some (x # xs), cbs)))"

locale wire_codec =
  fixes put :: "malloc_env \<Rightarrow> 'a \<Rightarrow> cbb_op"
    and get :: "'a cbs_reader"
    and enc :: "'a \<Rightarrow> bytes"
    and encodable :: "'a \<Rightarrow> bool"
  assumes put_appends: "encodable x \<Longrightarrow> appends al (put al x) (enc x)"
    and get_enc: "encodable x \<Longrightarrow> get (enc x @ rest) = (Some x, rest)"
begin

lemma enc_prefix_free:
  "encodable x \<Longrightarrow> encodable y \<Longrightarrow> enc x @ r = enc y @ s \<Longrightarrow> x = y \<and> r = s"
  by (metis get_enc option.inject prod.inject)

lemma put_all_appends:
  "xs \<noteq> [] \<Longrightarrow> \<forall>x\<in>set xs. encodable x \<Longrightarrow> appends al (put_all (put al) xs) (concat (map enc xs))"
proof (induction xs rule: induct_list012)
  case (3 x y zs)
  then show ?case
    using appends_then [OF put_appends [of x] 3(2)] by simp
qed (auto intro: put_appends)

lemma get_all_enc:
  "\<forall>x\<in>set xs. encodable x \<Longrightarrow> get_all get (length xs) (concat (map enc xs) @ rest) = (Some xs, rest)"
  by (induction xs) (simp_all add: get_enc)

text \<open>Written into a fresh builder and finished, the bytes read back as the values.\<close>

lemma build_then_read:
  assumes xs: "xs \<noteq> []" "\<forall>x\<in>set xs. encodable x" and n: "0 < n" "n + 8 < 2 ^ 64"
    and init: "CBB_init al t n = (True, st0)" and run: "put_all (put al) xs st0 = (True, st)"
  shows "\<exists>blk len st'. CBB_finish al True True st = ((True, Some blk, Some len), st')
           \<and> get_all get (length xs) (CBS_init blk len) = (Some xs, [])"
proof -
  obtain b where b: "st0 = (Some b, CBB False 0 0 False None)" "cbb_wf b (CBB False 0 0 False None)"
      "written b = []"
    using CBB_init_wf [OF init n] by auto
  obtain blk st' where fin: "CBB_finish al True True st = ((True, Some blk, Some (length (concat (map enc xs)))), st')"
      "take (length (concat (map enc xs))) blk = concat (map enc xs)"
    using CBB_finish_appended [OF put_all_appends [OF xs, of al] b(2,3)] run b(1) by blast
  then show ?thesis
    using get_all_enc [OF xs(2), of "[]"] by (auto simp: CBS_init_def)
qed

text \<open>The build succeeds when the allocator does.\<close>

lemma build_succeeds:
  assumes xs: "xs \<noteq> []" "\<forall>x\<in>set xs. encodable x" and n: "0 < n" "n + 8 < 2 ^ 63"
    and init: "CBB_init al t n = (True, st0)" and al: "al_total al"
    and small: "2 * length (concat (map enc xs)) + 8 < 2 ^ 63"
  shows "fst (put_all (put al) xs st0)"
proof -
  have "n + 8 < 2 ^ 64" using n(2) by simp
  then obtain b where b: "st0 = (Some b, CBB False 0 0 False None)" "cbb_wf b (CBB False 0 0 False None)"
      "written b = []" "can_resize b"
    using CBB_init_wf [OF init n(1)] by auto
  from appendsD [OF put_all_appends [OF xs, of al] b(2)] show ?thesis
  proof (cases rule: outcome_cases)
    case (failure b' c')
    then show ?thesis using b al small by (simp add: fits_def)
  qed (simp add: b(1))
qed

end

section \<open>The fixed-width integers\<close>

interpretation u8: wire_codec CBB_add_u8 CBS_get_u8 "\<lambda>v. [v]" "\<lambda>_. True"
  by unfold_locales (simp_all add: cbb_appends cbs_simps)

interpretation u16: wire_codec CBB_add_u16 CBS_get_u16 "\<lambda>v. be_bytes 2 (unat v)" "\<lambda>_. True"
  by unfold_locales (simp_all add: cbb_appends cbs_simps)

interpretation u24: wire_codec CBB_add_u24 CBS_get_u24 "\<lambda>v. be_bytes 3 (unat v)" "\<lambda>v. unat v < 2 ^ 24"
  by unfold_locales (simp_all add: cbb_appends cbs_simps)

interpretation u32: wire_codec CBB_add_u32 CBS_get_u32 "\<lambda>v. be_bytes 4 (unat v)" "\<lambda>_. True"
  by unfold_locales (simp_all add: cbb_appends cbs_simps)

interpretation u64: wire_codec CBB_add_u64 CBS_get_u64 "\<lambda>v. be_bytes 8 (unat v)" "\<lambda>_. True"
  by unfold_locales (simp_all add: cbb_appends cbs_simps)

interpretation u16le: wire_codec CBB_add_u16le CBS_get_u16le
    "\<lambda>v. be_bytes 2 (unat (CRYPTO_bswap2 v))" "\<lambda>_. True"
  by unfold_locales (simp_all add: cbb_appends cbs_simps CBB_add_u16le_def CBS_get_u16le_def)

interpretation u32le: wire_codec CBB_add_u32le CBS_get_u32le
    "\<lambda>v. be_bytes 4 (unat (CRYPTO_bswap4 v))" "\<lambda>_. True"
  by unfold_locales (simp_all add: cbb_appends cbs_simps CBB_add_u32le_def CBS_get_u32le_def)

interpretation u64le: wire_codec CBB_add_u64le CBS_get_u64le
    "\<lambda>v. be_bytes 8 (unat (CRYPTO_bswap8 v))" "\<lambda>_. True"
proof
  show "CBS_get_u64le (be_bytes 8 (unat (CRYPTO_bswap8 x)) @ rest) = (Some x, rest)" for x rest
    using CBS_get_u64_be [of "CRYPTO_bswap8 x" rest] by (simp add: CBS_get_u64le_def CBS_get_u64_def)
qed (simp add: cbb_appends CBB_add_u64le_def)

section \<open>Length-prefixed byte strings\<close>

text \<open>Writing a whole length-prefixed string: open, add the bytes, close.\<close>

definition put_length_prefixed :: "nat \<Rightarrow> malloc_env \<Rightarrow> bytes \<Rightarrow> cbb_op" where
  "put_length_prefixed n al data =
     c_and (cbb_add_length_prefixed al n) (c_and (on_child (CBB_add_bytes al data)) (CBB_flush al))"

lemma length_prefixed_appends:
  assumes "1 \<le> n" "n \<le> 3" "length data < 256 ^ n"
  shows "appends al (put_length_prefixed n al data) (be_bytes n (length data) @ data)"
proof -
  have "(256 :: nat) ^ n \<le> 256 ^ 3" using assms(2) by (intro power_increasing) auto
  then have "length data + 8 < 2 ^ 63" using assms(3) by simp
  then have "appends al (put_length_prefixed n al data) ([] @ prefixed (open_child 0 n False) data)"
    unfolding put_length_prefixed_def using assms
    by (intro enclose add_length_prefixed_opens CBB_add_bytes_appends) auto
  then show ?thesis by simp
qed

lemma get_length_prefixed:
  assumes "n \<le> 3" "length data < 256 ^ n"
  shows "cbs_get_length_prefixed n (be_bytes n (length data) @ data @ rest) = (Some data, rest)"
proof -
  have "(256 :: nat) ^ n \<le> 256 ^ 3" using assms(1) by (intro power_increasing) auto
  then have "unat (of_nat (length data) :: u64) = length data"
    using assms(2) by (simp add: unat_of_nat)
  then show ?thesis
    using assms cbs_get_u_be_bytes [of n "length data" "data @ rest"]
    by (simp add: cbs_get_length_prefixed_def CBS_get_bytes_append)
qed

interpretation u8_prefixed: wire_codec "put_length_prefixed 1" CBS_get_u8_length_prefixed
    "\<lambda>data. be_bytes 1 (length data) @ data" "\<lambda>data. length data < 256 ^ 1"
  by unfold_locales
     (simp_all only: length_prefixed_appends get_length_prefixed CBS_get_u8_length_prefixed_def append_assoc
       one_le_numeral order_refl)

interpretation u16_prefixed: wire_codec "put_length_prefixed 2" CBS_get_u16_length_prefixed
    "\<lambda>data. be_bytes 2 (length data) @ data" "\<lambda>data. length data < 256 ^ 2"
  by unfold_locales
     (simp_all add: length_prefixed_appends get_length_prefixed CBS_get_u16_length_prefixed_def)

interpretation u24_prefixed: wire_codec "put_length_prefixed 3" CBS_get_u24_length_prefixed
    "\<lambda>data. be_bytes 3 (length data) @ data" "\<lambda>data. length data < 256 ^ 3"
  by unfold_locales
     (simp_all add: length_prefixed_appends get_length_prefixed CBS_get_u24_length_prefixed_def)

end
