(* ===== verification/Asn1Build.thy ===== *)
theory Asn1Build
  imports Asn1Types Codec
begin

text \<open>
  \<^verbatim>\<open>crypto/bytestring/cbb.c\<close>, the ASN.1 part: opening an element, writing INTEGER, BOOLEAN and
  OCTET STRING values, and sorting the elements of a SET OF. The functions write to the child they
  open, so their calls on it go through \<open>on_child\<close>.
\<close>


text \<open>The \<open>while\<close> loop of \<open>add_base128_integer\<close> that counts the groups of seven bits.\<close>

function b128_groups :: "nat \<Rightarrow> u64 \<Rightarrow> nat" where
  "b128_groups len_len copy = (if copy > 0 then b128_groups (len_len + 1) (drop_bit 7 copy) else len_len)"
  by auto

termination b128_groups
proof (relation "measure (\<lambda>(_, copy). unat copy)", goal_cases)
  case (2 len_len copy)
  have "unat (drop_bit 7 copy) = unat copy div 128"
    by (simp only: unat_drop_bit_eq) (simp add: drop_bit_eq_div)
  moreover have "0 < unat copy" using 2 by (simp add: unat_gt_0)
  ultimately show ?case by simp
qed simp

declare b128_groups.simps [simp del]

primrec add_base128_loop :: "malloc_env \<Rightarrow> u64 \<Rightarrow> nat \<Rightarrow> cbb_op" where
  "add_base128_loop al v 0 = (\<lambda>st. (True, st))"
| "add_base128_loop al v (Suc i) =
     (let byte = ucast (drop_bit (7 * i) v) AND 0x7f;
          byte = (if i \<noteq> 0 then byte OR 0x80 else byte)
      in c_and (CBB_add_u8 al byte) (add_base128_loop al v i))"

definition add_base128_integer :: "malloc_env \<Rightarrow> u64 \<Rightarrow> cbb_op" where
  "add_base128_integer al v =
     (let len_len = b128_groups 0 v;
          len_len = (if len_len = 0 then 1 else len_len)
      in add_base128_loop al v len_len)"

definition CBB_add_asn1 :: "malloc_env \<Rightarrow> u32 \<Rightarrow> cbb_op" where
  "CBB_add_asn1 al tag st =
     (case CBB_flush al st of
        (False, st) \<Rightarrow> (False, st)
      | (True, st) \<Rightarrow>
          (let tag_bits = (ucast (drop_bit 24 tag AND 0xe0) :: u8);
               tag_number = tag AND 0x1fffffff
           in case (if tag_number \<ge> 0x1f
                    then c_and (CBB_add_u8 al (tag_bits OR 0x1f))
                               (add_base128_integer al (ucast tag_number)) st
                    else CBB_add_u8 al (ucast (ucast tag_bits OR tag_number)) st) of
                (False, st) \<Rightarrow> (False, st)
              | (True, st) \<Rightarrow>
                  (case CBB_add_u8 al 0 st of
                     (False, st') \<Rightarrow> (False, st')
                   | (True, (base, c)) \<Rightarrow>
                       (True, (base,
                          set_child (Some (CBB True (case fst st of None \<Rightarrow> 0 | Some b \<Rightarrow> blen b) 1 True None)) c)))))"

text \<open>The universal tags, as \<^verbatim>\<open>bytestring.h\<close> numbers them.\<close>

abbreviation (input) CBS_ASN1_BOOLEAN :: u32 where "CBS_ASN1_BOOLEAN \<equiv> 1"
abbreviation (input) CBS_ASN1_INTEGER :: u32 where "CBS_ASN1_INTEGER \<equiv> 2"
abbreviation (input) CBS_ASN1_OCTETSTRING :: u32 where "CBS_ASN1_OCTETSTRING \<equiv> 4"

text \<open>The loop of \<open>CBB_add_asn1_uint64\<close> from round \<open>i\<close>, on the child; \<open>started\<close> is returned.\<close>

fun add_uint64_loop ::
    "malloc_env \<Rightarrow> u64 \<Rightarrow> nat list \<Rightarrow> bool \<Rightarrow> cbb_state \<Rightarrow> (bool \<times> bool) \<times> cbb_state" where
  "add_uint64_loop al v [] started st = ((True, started), st)"
| "add_uint64_loop al v (i # is) started st =
     (let byte = (ucast (drop_bit (8 * (7 - i)) v AND 0xff) :: u8) in
      if \<not> started \<and> byte = 0 then add_uint64_loop al v is started st
      else case (if \<not> started \<and> byte AND 0x80 \<noteq> 0 then on_child (CBB_add_u8 al 0) st
                 else (True, st)) of
             (False, st) \<Rightarrow> ((False, started), st)
           | (True, st) \<Rightarrow>
               (case on_child (CBB_add_u8 al byte) st of
                  (False, st) \<Rightarrow> ((False, True), st)
                | (True, st) \<Rightarrow> add_uint64_loop al v is True st))"

definition CBB_add_asn1_uint64 :: "malloc_env \<Rightarrow> u64 \<Rightarrow> cbb_op" where
  "CBB_add_asn1_uint64 al v st =
     (case CBB_add_asn1 al CBS_ASN1_INTEGER st of
        (False, st) \<Rightarrow> (False, st)
      | (True, st) \<Rightarrow>
          (case add_uint64_loop al v [0..<8] False st of
             ((False, _), st) \<Rightarrow> (False, st)
           | ((True, started), st) \<Rightarrow>
               c_and (if \<not> started then on_child (CBB_add_u8 al 0) else (\<lambda>st. (True, st)))
                     (CBB_flush al) st))"

text \<open>\<open>u.bytes[i]\<close> on a little-endian machine, and the loop that moves \<open>start\<close>.\<close>

definition int64_byte :: "u64 \<Rightarrow> nat \<Rightarrow> u8" where
  "int64_byte v i = ucast (drop_bit (8 * i) v)"

fun int64_start :: "u64 \<Rightarrow> nat \<Rightarrow> nat" where
  "int64_start v 0 = 0"
| "int64_start v (Suc s) =
     (if int64_byte v (Suc s) = 0xff \<and> int64_byte v s AND 0x80 \<noteq> 0 then int64_start v s else Suc s)"

primrec add_bytes_down :: "malloc_env \<Rightarrow> u64 \<Rightarrow> nat \<Rightarrow> cbb_op" where
  "add_bytes_down al v 0 = (\<lambda>st. (True, st))"
| "add_bytes_down al v (Suc i) =
     c_and (on_child (CBB_add_u8 al (int64_byte v i))) (add_bytes_down al v i)"

definition CBB_add_asn1_int64 :: "malloc_env \<Rightarrow> u64 \<Rightarrow> cbb_op" where
  "CBB_add_asn1_int64 al v =
     (if sint v \<ge> 0 then CBB_add_asn1_uint64 al v
      else c_and (CBB_add_asn1 al CBS_ASN1_INTEGER)
             (c_and (add_bytes_down al v (int64_start v 7 + 1)) (CBB_flush al)))"

definition CBB_add_asn1_octet_string :: "malloc_env \<Rightarrow> bytes \<Rightarrow> cbb_op" where
  "CBB_add_asn1_octet_string al data =
     c_and (CBB_add_asn1 al CBS_ASN1_OCTETSTRING)
       (c_and (on_child (CBB_add_bytes al data)) (CBB_flush al))"

definition CBB_add_asn1_bool :: "malloc_env \<Rightarrow> int \<Rightarrow> cbb_op" where
  "CBB_add_asn1_bool al v =
     c_and (CBB_add_asn1 al CBS_ASN1_BOOLEAN)
       (c_and (on_child (CBB_add_u8 al (if v \<noteq> 0 then 0xff else 0))) (CBB_flush al))"
section \<open>Base-128 integers\<close>

lemma c_and_True [simp]: "c_and f (\<lambda>st. (True, st)) = f"
  by (rule ext) (auto simp: c_and_def split: prod.splits bool.splits)

definition hi_digits :: "nat \<Rightarrow> nat \<Rightarrow> bytes" where
  "hi_digits n v = map (\<lambda>i. of_nat (128 + v div 128 ^ i mod 128)) (rev [0..<n])"

lemma hi_digits_snoc: "hi_digits (Suc n) v = hi_digits n (v div 128) @ [of_nat (128 + v mod 128)]"
proof -
  have "[0..<Suc n] = 0 # map Suc [0..<n]" by (simp only: upt_conv_Cons [OF zero_less_Suc] map_Suc_upt)
  then show ?thesis by (simp add: hi_digits_def rev_map div_mult2_eq del: upt_Suc)
qed

lemma b128_hi_digits: "v < 128 ^ n \<Longrightarrow> (n = 0 \<or> 128 ^ (n - 1) \<le> v) \<Longrightarrow> b128_hi v = hi_digits n v"
proof (induction n arbitrary: v)
  case 0
  then show ?case by (simp add: hi_digits_def)
next
  case (Suc n)
  then have v: "128 ^ n \<le> v" "v < 128 ^ n * 128" by simp_all
  then have pos: "0 < v" by (meson less_le_trans zero_less_numeral zero_less_power)
  have "b128_hi (v div 128) = hi_digits n (v div 128)"
  proof (rule Suc.IH)
    show "v div 128 < 128 ^ n" using v(2) by (simp add: less_mult_imp_div_less)
    show "n = 0 \<or> 128 ^ (n - 1) \<le> v div 128"
    proof (cases n)
      case (Suc m)
      then have "128 ^ m * 128 \<le> v" using v(1) by (simp add: mult.commute)
      then show ?thesis using Suc by (simp add: less_eq_div_iff_mult_less_eq)
    qed simp
  qed
  then show ?case by (simp only: b128_hi_step [OF pos] hi_digits_snoc)
qed

text \<open>The count of the first loop is the number of seven-bit groups.\<close>

lemma unat_drop_7: "unat (drop_bit 7 (v :: u64)) = unat v div 128"
  by (simp only: unat_drop_bit_eq) (simp add: drop_bit_eq_div)

lemma b128_groups_spec:
  "\<exists>k. b128_groups n v = n + k \<and> unat v < 128 ^ k \<and> (k = 0 \<or> 128 ^ (k - 1) \<le> unat v)"
proof (induction n v rule: b128_groups.induct)
  case (1 n v)
  show ?case
  proof (cases "v > 0")
    case False
    then have "v = 0" by (simp add: word_gt_0)
    then show ?thesis by (simp add: b128_groups.simps)
  next
    case True
    then have uv: "0 < unat v" by (simp add: unat_gt_0 word_gt_0)
    from 1 [OF True] obtain k where k: "b128_groups (n + 1) (drop_bit 7 v) = n + 1 + k"
        "unat v div 128 < 128 ^ k" "k = 0 \<or> 128 ^ (k - 1) \<le> unat v div 128"
      by (auto simp: unat_drop_7)
    have eq: "b128_groups n v = n + Suc k"
      by (subst b128_groups.simps) (use True k(1) in simp)
    have lt: "unat v < 128 ^ Suc k" using k(2) by (simp add: div_less_iff_less_mult)
    have "128 ^ k \<le> unat v"
    proof (cases k)
      case (Suc m)
      then have "128 ^ m * 128 \<le> unat v" using k(3) by (simp add: less_eq_div_iff_mult_less_eq)
      then show ?thesis using Suc by (simp add: mult.commute)
    qed (use uv in simp)
    then show ?thesis using eq lt by (intro exI [of _ "Suc k"]) simp
  qed
qed

lemma unat_7_bits: "unat (ucast (drop_bit (7 * i) (v :: u64)) AND 0x7f :: u8) = unat v div 128 ^ i mod 128"
proof -
  have "unat (drop_bit (7 * i) v) = unat v div 128 ^ i"
    by (simp only: unat_drop_bit_eq) (simp add: drop_bit_eq_div power_mult)
  then have "unat (ucast (drop_bit (7 * i) v) :: u8) = unat v div 128 ^ i mod 256"
    by (simp only: unat_ucast) simp
  then show ?thesis by (simp only: unat_and_0x7f) (simp add: mod_mod_cancel)
qed

lemma or_0x80: "unat (b :: u8) < 128 \<Longrightarrow> b OR 0x80 = of_nat (128 + unat b)"
  using push_bit_or_eq [of b 7 1]
  by (simp add: or.commute add.commute)

lemma add_base128_loop_appends:
  "appends al (add_base128_loop al v (Suc i)) (hi_digits i (unat v div 128) @ [of_nat (unat v mod 128)])"
proof -
  define dig where "dig j = (of_nat ((if j \<noteq> 0 then 128 else 0) + unat v div 128 ^ j mod 128) :: u8)" for j
  have byte: "(let byte = ucast (drop_bit (7 * j) v) AND 0x7f in if j \<noteq> 0 then byte OR 0x80 else byte) = dig j" for j
  proof -
    define w where "w = (ucast (drop_bit (7 * j) v) AND 0x7f :: u8)"
    have uw: "unat w = unat v div 128 ^ j mod 128" unfolding w_def by (rule unat_7_bits)
    then have "w = of_nat (unat v div 128 ^ j mod 128)" by (metis of_nat_unat ucast_id word_nat_cases)
    moreover have "w OR 0x80 = of_nat (128 + unat w)" using uw by (intro or_0x80) simp
    ultimately show ?thesis by (simp add: Let_def dig_def uw w_def [symmetric])
  qed
  have "appends al (add_base128_loop al v (Suc i)) (map dig (rev [0..<Suc i]))" for i
  proof (induction i)
    case 0
    show ?case using CBB_add_u8_appends [of al "dig 0"] byte [of 0] by simp
  next
    case (Suc i)
    have "add_base128_loop al v (Suc (Suc i)) = c_and (CBB_add_u8 al (dig (Suc i))) (add_base128_loop al v (Suc i))"
      using byte [of "Suc i"] by (simp add: Let_def)
    then show ?case
      using appends_then [OF CBB_add_u8_appends Suc] by simp
  qed
  moreover have "map dig (rev [0..<Suc i]) = hi_digits i (unat v div 128) @ [of_nat (unat v mod 128)]"
  proof -
    have "[0..<Suc i] = 0 # map Suc [0..<i]" by (simp only: upt_conv_Cons [OF zero_less_Suc] map_Suc_upt)
    then show ?thesis by (simp add: hi_digits_def dig_def rev_map div_mult2_eq del: upt_Suc)
  qed
  ultimately show ?thesis by metis
qed

lemma add_base128_appends [cbb_appends]: "appends al (add_base128_integer al v) (b128 (unat v))"
proof -
  obtain k where k: "b128_groups 0 v = k" "unat v < 128 ^ k" "k = 0 \<or> 128 ^ (k - 1) \<le> unat v"
    using b128_groups_spec [of 0 v] by auto
  define n where "n = (if k = 0 then 0 else k - 1)"
  have op: "add_base128_integer al v = add_base128_loop al v (Suc n)"
  proof -
    have "(if k = 0 then 1 else k) = Suc n" by (simp add: n_def)
    then show ?thesis by (simp only: add_base128_integer_def k(1) Let_def)
  qed
  have "b128_hi (unat v div 128) = hi_digits n (unat v div 128)"
  proof (rule b128_hi_digits)
    show "unat v div 128 < 128 ^ n"
      using k(2) by (cases k) (simp_all add: n_def less_mult_imp_div_less mult.commute)
    show "n = 0 \<or> 128 ^ (n - 1) \<le> unat v div 128"
    proof (cases n)
      case (Suc m)
      then have "128 ^ m * 128 \<le> unat v" using k(3) by (cases k) (simp_all add: n_def mult.commute)
      then show ?thesis using Suc by (simp add: less_eq_div_iff_mult_less_eq)
    qed simp
  qed
  then show ?thesis
    using add_base128_loop_appends [of al v n] op by (simp add: b128_def)
qed
section \<open>Opening an element\<close>

definition tag_op :: "malloc_env \<Rightarrow> u32 \<Rightarrow> cbb_op" where
  "tag_op al tag =
     (let tag_bits = (ucast (drop_bit 24 tag AND 0xe0) :: u8);
          tag_number = tag AND 0x1fffffff
      in if tag_number \<ge> 0x1f
         then c_and (CBB_add_u8 al (tag_bits OR 0x1f)) (add_base128_integer al (ucast tag_number))
         else CBB_add_u8 al (ucast (ucast tag_bits OR tag_number)))"

lemma tag_op_appends: "appends al (tag_op al tag) (der_tag tag)"
proof -
  define bits where "bits = (ucast (drop_bit 24 tag) AND 0xe0 :: u8)"
  define number where "number = tag AND mask 29"
  have bits: "(ucast (drop_bit 24 tag AND 0xe0) :: u8) = bits"
    unfolding bits_def bits_0xe0_u8 bits_0xe0_u32
    by (rule bit_eqI) (auto simp: bit_simps dest: bit_imp_le_length)
  have ge: "number \<ge> 0x1f \<longleftrightarrow> \<not> unat number < 31"
    by (simp add: word_le_nat_alt not_less)
  have low: "(ucast (ucast bits OR number) :: u8) = bits OR of_nat (unat number)" if "unat number < 31"
  proof -
    have "(ucast number :: u8) = of_nat (unat number)"
      by (intro word_unat_eq_iff [THEN iffD2]) (simp add: unat_ucast unat_of_nat)
    moreover have "(ucast (ucast bits OR number) :: u8) = bits OR ucast number"
      by (rule bit_eqI) (auto simp: bit_simps dest: bit_imp_le_length)
    ultimately show ?thesis by simp
  qed
  have un: "unat (ucast number :: u64) = unat number" by (rule unat_ucast_less) simp
  show ?thesis
  proof (cases "unat number < 31")
    case True
    then show ?thesis
      using CBB_add_u8_appends [of al "bits OR of_nat (unat number)"] ge low
      by (simp add: tag_op_def mask29 bits number_def [symmetric] der_tag_def bits_def [symmetric] Let_def)
  next
    case False
    then show ?thesis
      using appends_then [OF CBB_add_u8_appends add_base128_appends, of al "bits OR 0x1f" "ucast number"] ge un
      by (simp add: tag_op_def mask29 bits number_def [symmetric] der_tag_def bits_def [symmetric] Let_def)
  qed
qed

lemma CBB_add_asn1_eq:
  "CBB_add_asn1 al tag st =
     (case c_and (CBB_flush al) (tag_op al tag) st of
        (False, st) \<Rightarrow> (False, st)
      | (True, st) \<Rightarrow>
          (case CBB_add_u8 al 0 st of
             (False, st') \<Rightarrow> (False, st')
           | (True, (base, c)) \<Rightarrow>
               (True, (base,
                  set_child (Some (CBB True (case fst st of None \<Rightarrow> 0 | Some b \<Rightarrow> blen b) 1 True None)) c))))"
  by (auto simp: CBB_add_asn1_def tag_op_def c_and_def Let_def split: prod.splits bool.splits)

lemma CBB_add_asn1_opens: "opens al (CBB_add_asn1 al tag) (der_tag tag) 1 True"
  unfolding opens_def
proof (intro allI impI)
  fix b c
  assume wf: "cbb_wf b c"
  have ap: "appends al (c_and (CBB_flush al) (tag_op al tag)) (der_tag tag)"
    using appends_then [OF flush_appends tag_op_appends, of al tag] by simp
  from appendsD [OF ap wf] show "opened al b c (der_tag tag) 1 True (CBB_add_asn1 al tag (Some b, c))"
  proof (cases rule: outcome_cases)
    case (failure b1 c1)
    then show ?thesis
      using fits_mono [of al b "Suc (length (flushed b c @ der_tag tag))" "length (flushed b c @ der_tag tag)"]
      by (auto simp: CBB_add_asn1_eq opened_def)
  next
    case (success b1)
    have ok1: "buffer_ok b1" using success(2) by (rule grown_ok)
    have bl: "blen b1 = length (flushed b c @ der_tag tag)"
      using ok1 success(4) by (simp add: buffer_blen)
    from appendsD [OF CBB_add_u8_appends [of al 0] success(3)] show ?thesis
    proof (cases rule: outcome_cases)
      case s2: (success b2)
      then show ?thesis
        using success bl
        by (auto simp: CBB_add_asn1_eq opened_def open_child_def cbb_wf_def dest: grown_trans)
    next
      case f2: (failure b2 c2)
      then show ?thesis
        using success fits_grown [OF _ success(2), of al "Suc (length (flushed b c @ der_tag tag))"]
        by (auto simp: CBB_add_asn1_eq opened_def dest: grown_trans)
    qed
  qed
qed

text \<open>A whole element: open it, write the contents to the child, close it.\<close>

lemma element_appends:
  assumes "appends al g bs" and "length bs \<le> 0xfffffffe"
  shows "appends al (c_and (CBB_add_asn1 al tag) (c_and (on_child g) (CBB_flush al))) (der_element tag bs)"
proof -
  have "appends al (c_and (CBB_add_asn1 al tag) (c_and (on_child g) (CBB_flush al)))
          (der_tag tag @ prefixed (open_child 0 1 True) bs)"
    using assms by (intro enclose CBB_add_asn1_opens) auto
  then show ?thesis by (simp add: der_element_def)
qed

lemma element_outcome:
  assumes "appends al g bs" and "length bs \<le> 0xfffffffe" and "cbb_wf b c"
    and "\<And>st. child (snd st) \<noteq> None \<Longrightarrow> f st = c_and (on_child g) (CBB_flush al) st"
  shows "outcome al b c (der_element tag bs) (c_and (CBB_add_asn1 al tag) f (Some b, c))"
proof -
  have "c_and (CBB_add_asn1 al tag) f (Some b, c)
        = c_and (CBB_add_asn1 al tag) (c_and (on_child g) (CBB_flush al)) (Some b, c)"
    using opensD [OF CBB_add_asn1_opens [of al tag] assms(3)] assms(4)
    by (cases rule: opened_cases) (simp_all add: c_and_def [of "CBB_add_asn1 al tag"])
  then show ?thesis
    using appendsD [OF element_appends [OF assms(1,2)] assms(3)] by simp
qed

lemma element_appends':
  assumes "appends al g bs" and "length bs \<le> 0xfffffffe"
    and "\<And>st. child (snd st) \<noteq> None \<Longrightarrow> f st = c_and (on_child g) (CBB_flush al) st"
  shows "appends al (c_and (CBB_add_asn1 al tag) f) (der_element tag bs)"
  unfolding appends_def using element_outcome [OF assms(1,2) _ assms(3)] by blast

section \<open>The calls on the child\<close>

lemma put_all_Cons: "put_all put (x # xs) = c_and (put x) (put_all put xs)"
  by (cases xs) simp_all

lemma on_child_c_and:
  "child (snd st) \<noteq> None \<Longrightarrow> c_and (on_child f) (on_child g) st = on_child (c_and f g) st"
  by (auto simp: c_and_def on_child_def split: prod.splits bool.splits option.splits)

lemma set_child_same: "child c = Some ch \<Longrightarrow> set_child (Some ch) c = c"
  by (cases c) simp

lemma on_child_id: "child (snd st) \<noteq> None \<Longrightarrow> on_child (\<lambda>st. (True, st)) st = (True, st)"
  by (cases st) (auto simp: on_child_def set_child_same)

lemma on_child_keeps: "child (snd st) \<noteq> None \<Longrightarrow> on_child f st = (r, st') \<Longrightarrow> child (snd st') \<noteq> None"
  by (auto simp: on_child_def split: prod.splits)

lemma c_and_cong1: "f st = g st \<Longrightarrow> c_and f h st = c_and g h st"
  by (simp add: c_and_def)

lemma c_and_assoc: "c_and (c_and f g) h = c_and f (c_and g h)"
  by (rule ext) (auto simp: c_and_def split: prod.splits bool.splits)

abbreviation (input) add_octets :: "malloc_env \<Rightarrow> bytes \<Rightarrow> cbb_op" where
  "add_octets al \<equiv> put_all (CBB_add_u8 al)"

lemma add_octets_appends: "bs \<noteq> [] \<Longrightarrow> appends al (add_octets al bs) bs"
  using u8.put_all_appends [of bs al] by simp

section \<open>INTEGER\<close>

lemma int64_byte_unat: "unat (int64_byte v i) = unat v div 256 ^ i mod 256"
proof -
  have "unat (drop_bit (8 * i) v) = unat v div 256 ^ i"
    by (simp only: unat_drop_bit_eq) (simp add: drop_bit_eq_div power_mult)
  then show ?thesis by (simp add: int64_byte_def unat_ucast)
qed

definition octets_down :: "u64 \<Rightarrow> nat \<Rightarrow> bytes" where
  "octets_down v n = map (int64_byte v) (rev [0..<n])"

lemma octets_down_Suc: "octets_down v (Suc n) = int64_byte v n # octets_down v n"
  by (simp add: octets_down_def)

lemma octets_down_0 [simp]: "octets_down v 0 = []"
  by (simp add: octets_down_def)

lemma length_octets_down [simp]: "length (octets_down v n) = n"
  by (simp add: octets_down_def)

lemma be_val_octets_down: "be_val (octets_down v n) = unat v mod 256 ^ n"
proof (induction n)
  case (Suc n)
  have "unat v mod (256 ^ n * 256) = 256 ^ n * (unat v div 256 ^ n mod 256) + unat v mod 256 ^ n"
    by (rule mod_mult2_eq)
  then show ?case
    by (simp add: octets_down_Suc be_val_Cons int64_byte_unat Suc mult.commute)
qed simp

lemma be_val_octets_8: "be_val (octets_down v 8) = unat v"
  using be_val_octets_down [of v 8] unat_less_64_num [of v] by simp

lemma add_bytes_down_eq:
  "child (snd st) \<noteq> None \<Longrightarrow> add_bytes_down al v n st = on_child (add_octets al (octets_down v n)) st"
proof (induction n arbitrary: st)
  case 0
  then show ?case by (simp add: on_child_id)
next
  case (Suc n)
  have "add_bytes_down al v (Suc n) st
        = c_and (on_child (CBB_add_u8 al (int64_byte v n))) (on_child (add_octets al (octets_down v n))) st"
  proof -
    obtain r st1 where r: "on_child (CBB_add_u8 al (int64_byte v n)) st = (r, st1)" by (rule prod.exhaust)
    then show ?thesis
      using Suc.IH [of st1] on_child_keeps [OF Suc.prems r] by (cases r) (simp_all add: c_and_def)
  qed
  then show ?case
    using Suc.prems by (simp add: on_child_c_and octets_down_Suc put_all_Cons)
qed

text \<open>Dropping redundant sign octets keeps the value; what is left is minimal.\<close>

lemma and_0x80_ne: "(b :: u8) AND 0x80 \<noteq> 0 \<longleftrightarrow> 128 \<le> unat b"
  by (simp add: and_0x80_u8 not_less)

lemma sval_drop_ff:
  assumes "unat a = 255" "128 \<le> unat b"
  shows "sval (a # b # bs) = sval (b # bs)"
  using assms by (simp add: sval_def be_val_Cons algebra_simps)

lemma int64_start_step:
  "int64_start v (Suc s) =
     (if unat (int64_byte v (Suc s)) = 255 \<and> 128 \<le> unat (int64_byte v s) then int64_start v s else Suc s)"
  unfolding int64_start.simps and_0x80_ne u8_eq_iffs(2) by (rule refl)

declare int64_start.simps(2) [simp del]

lemma int64_start_sval: "sval (octets_down v (Suc (int64_start v s))) = sval (octets_down v (Suc s))"
proof (induction s)
  case (Suc s)
  then show ?case
    using sval_drop_ff [of "int64_byte v (Suc s)" "int64_byte v s" "octets_down v s"]
    by (simp add: int64_start_step octets_down_Suc)
qed simp

lemma int64_start_minimal:
  "128 \<le> unat (int64_byte v s) \<Longrightarrow> int_minimal (octets_down v (Suc (int64_start v s)))"
  by (induction s) (simp_all add: int64_start_step octets_down_Suc)

lemma sval_octets_8: "sval (octets_down v 8) = sint v"
proof -
  let ?i = "sval (octets_down v 8)"
  have "- (2 ^ 63) \<le> ?i" "?i < 2 ^ 63"
    using sval_range [of "octets_down v 8"] by (simp_all add: octets_down_def)
  then have r: "signed_take_bit 63 ?i = ?i" by (intro signed_take_bit_int_eq_self) simp_all
  have "?i mod 2 ^ 64 = int (unat v) mod 2 ^ 64"
    using sval_mod [of "octets_down v 8"] be_val_octets_8 [of v] unat_less_64_num [of v]
    by (simp del: of_nat_unat)
  then have "(word_of_int ?i :: u64) = word_of_int (int (unat v))"
    by (simp only: word_of_int_eq_iff_mod64)
  then have "v = word_of_int ?i" by simp
  then show ?thesis using r sint_word_of_int64 [of ?i] by simp
qed

lemma sint_negative: "sint (v :: u64) < 0 \<longleftrightarrow> 128 \<le> unat (int64_byte v 7)"
proof -
  have o: "octets_down v 8 = int64_byte v 7 # octets_down v 7" using octets_down_Suc [of v 7] by simp
  have "0 \<le> sval (octets_down v 8) \<longleftrightarrow> unat (int64_byte v 7) < 128"
    using sval_nonneg_iff [of "octets_down v 8"] by (simp only: o list.sel) simp
  then show ?thesis by (simp only: sval_octets_8 not_less [symmetric]) blast
qed

lemma CBB_add_asn1_int64_negative:
  assumes "sint v < 0"
  shows "appends al (CBB_add_asn1_int64 al v) (der_element CBS_ASN1_INTEGER (der_int (sint v)))"
proof -
  let ?n = "int64_start v 7 + 1"
  let ?bs = "octets_down v ?n"
  have bs: "?bs = der_int (sint v)"
    using int64_start_minimal [of v 7] int64_start_sval [of v 7] assms der_int_sval [of ?bs] sval_octets_8 [of v]
    by (simp add: sint_negative)
  have "length ?bs \<le> 8"
  proof -
    have "int64_start v s \<le> s" for s by (induction s) (auto simp: int64_start_step)
    from this [of 7] show ?thesis by simp
  qed
  moreover have "?bs \<noteq> []" by (simp add: octets_down_Suc)
  ultimately have "appends al (c_and (CBB_add_asn1 al CBS_ASN1_INTEGER)
      (c_and (add_bytes_down al v ?n) (CBB_flush al))) (der_element CBS_ASN1_INTEGER ?bs)"
    by (intro element_appends' [OF add_octets_appends] c_and_cong1 add_bytes_down_eq) simp_all
  then show ?thesis
    using assms bs by (simp add: CBB_add_asn1_int64_def)
qed
text \<open>
  The unsigned loop drops leading zero octets and puts a zero octet in front of a set high bit; the
  padding of the value 0 comes after it.
\<close>

definition padded :: "bytes \<Rightarrow> bytes" where
  "padded bs = (case bs of [] \<Rightarrow> [] | b # _ \<Rightarrow> if 128 \<le> unat b then 0 # bs else bs)"

lemma uint64_byte: "(ucast (drop_bit (8 * (7 - i)) v AND 0xff) :: u8) = int64_byte v (7 - i)"
proof -
  have m: "(0xff :: u64) = mask 8" by (simp add: mask_eq_exp_minus_1)
  show ?thesis
    unfolding int64_byte_def m by (rule bit_eqI) (auto simp: bit_simps)
qed

lemma add_uint64_started:
  assumes "child (snd st) \<noteq> None"
  shows "add_uint64_loop al v is True st
         = (case on_child (add_octets al (map (\<lambda>i. int64_byte v (7 - i)) is)) st of
              (r, st') \<Rightarrow> ((r, True), st'))"
  using assms
proof (induction "is" arbitrary: st)
  case Nil
  then show ?case by (simp add: on_child_id)
next
  case (Cons i "is")
  obtain r st1 where r: "on_child (CBB_add_u8 al (int64_byte v (7 - i))) st = (r, st1)" by (rule prod.exhaust)
  have "on_child (add_octets al (map (\<lambda>i. int64_byte v (7 - i)) (i # is))) st
        = c_and (on_child (CBB_add_u8 al (int64_byte v (7 - i))))
            (on_child (add_octets al (map (\<lambda>i. int64_byte v (7 - i)) is))) st"
    using Cons.prems by (simp add: put_all_Cons on_child_c_and)
  then show ?case
    using Cons.IH [of st1] on_child_keeps [OF Cons.prems r] r
    by (cases r) (simp_all add: c_and_def uint64_byte Let_def)
qed

lemma add_uint64_loop_eq:
  fixes "is" :: "nat list" and v :: u64
  assumes "child (snd st) \<noteq> None"
  defines "rest \<equiv> dropWhile (\<lambda>b. b = 0) (map (\<lambda>i. int64_byte v (7 - i)) is)"
  shows "if rest = [] then add_uint64_loop al v is False st = ((True, False), st)
         else \<exists>s. add_uint64_loop al v is False st
                    = (case on_child (add_octets al (padded rest)) st of (r, st') \<Rightarrow> ((r, s), st'))
                  \<and> (fst (on_child (add_octets al (padded rest)) st) \<longrightarrow> s)"
  using assms(1) unfolding rest_def
proof (induction "is" arbitrary: st)
  case Nil
  show ?case by simp
next
  case (Cons i "is")
  let ?b = "int64_byte v (7 - i)"
  let ?tl = "map (\<lambda>i. int64_byte v (7 - i)) is"
  show ?case
  proof (cases "?b = 0")
    case True
    then show ?thesis using Cons by (simp add: uint64_byte Let_def)
  next
    case False
    have started: "add_uint64_loop al v (i # is) True st1
        = (case on_child (add_octets al (?b # ?tl)) st1 of (r, st') \<Rightarrow> ((r, True), st'))"
      if "child (snd st1) \<noteq> None" for st1
      using add_uint64_started [OF that, of al v "i # is"] by simp
    show ?thesis
    proof (cases "128 \<le> unat ?b")
      case small: False
      then have "add_uint64_loop al v (i # is) False st = add_uint64_loop al v (i # is) True st"
        using False by (simp add: uint64_byte Let_def and_0x80_u8 not_le)
      then show ?thesis
        using False small started [OF Cons.prems]
        by (auto simp: padded_def split: prod.split intro!: exI [of _ True])
    next
      case big: True
      obtain r st1 where r: "on_child (CBB_add_u8 al 0) st = (r, st1)" by (rule prod.exhaust)
      have "add_uint64_loop al v (i # is) False st
            = (if r then add_uint64_loop al v (i # is) True st1 else ((False, False), st1))"
        using False big r by (cases r) (simp_all add: uint64_byte Let_def and_0x80_u8 not_less)
      moreover have "on_child (add_octets al (0 # ?b # ?tl)) st
                     = (if r then on_child (add_octets al (?b # ?tl)) st1 else (False, st1))"
        using on_child_c_and [OF Cons.prems, of "CBB_add_u8 al 0" "add_octets al (?b # ?tl)"] r
        by (cases r) (simp_all add: put_all_Cons [of _ 0] c_and_def)
      ultimately show ?thesis
        using False big started [OF on_child_keeps [OF Cons.prems r]]
        by (cases r) (auto simp: padded_def split: prod.split)
    qed
  qed
qed

lemma octets_down_8: "map (\<lambda>i. int64_byte v (7 - i)) [0..<8] = octets_down v 8"
  by (rule nth_equalityI) (simp_all add: octets_down_def rev_nth)

definition uint64_contents :: "u64 \<Rightarrow> bytes" where
  "uint64_contents v =
     (let bs = dropWhile (\<lambda>b. b = 0) (octets_down v 8) in if bs = [] then [0] else padded bs)"

lemma be_val_dropWhile: "be_val (dropWhile (\<lambda>b. b = 0) bs) = be_val bs"
  by (induction bs) (simp_all add: be_val_Cons)

lemma uint64_contents_minimal: "int_minimal (uint64_contents v)"
proof (cases "dropWhile (\<lambda>b. b = 0) (octets_down v 8)")
  case Nil
  then show ?thesis by (simp add: uint64_contents_def)
next
  case (Cons b bs)
  have "b \<noteq> 0" using hd_dropWhile [of "\<lambda>b. b = 0" "octets_down v 8"] Cons by auto
  then have "unat b \<noteq> 0" by (simp add: unsigned_eq_0_iff)
  then show ?thesis
    using Cons by (cases bs) (auto simp: uint64_contents_def padded_def Let_def)
qed

lemma uint64_contents_val: "sval (uint64_contents v) = int (unat v)"
proof -
  let ?d = "dropWhile (\<lambda>b. b = 0) (octets_down v 8)"
  have d: "be_val ?d = unat v" by (simp add: be_val_dropWhile be_val_octets_8)
  show ?thesis
  proof (cases ?d)
    case Nil
    then have "unat v = 0" using d by (simp only: be_val_Nil)
    moreover have "uint64_contents v = [0]" by (simp only: uint64_contents_def Nil Let_def) simp
    ultimately show ?thesis by (simp add: sval_def be_val_Cons del: of_nat_unat)
  next
    case (Cons b bs)
    then show ?thesis
      using d by (simp add: uint64_contents_def padded_def sval_def be_val_Cons Let_def del: of_nat_unat)
  qed
qed

lemma CBB_add_asn1_uint64_appends [cbb_appends]:
  "appends al (CBB_add_asn1_uint64 al v) (der_element CBS_ASN1_INTEGER (der_int (int (unat v))))"
proof -
  let ?c = "uint64_contents v"
  have c: "?c = der_int (int (unat v))"
    using der_int_sval [OF uint64_contents_minimal, of v] by (simp only: uint64_contents_val)
  have ne: "?c \<noteq> []" using uint64_contents_minimal [of v] by auto
  have "length (dropWhile (\<lambda>b. b = 0) (octets_down v 8)) \<le> 8"
    using length_dropWhile_le [of "\<lambda>b. b = 0" "octets_down v 8"] by simp
  then have len: "length ?c \<le> 0xfffffffe"
    by (auto simp: uint64_contents_def padded_def Let_def split: list.split)
  have "CBB_add_asn1_uint64 al v = c_and (CBB_add_asn1 al CBS_ASN1_INTEGER)
     (\<lambda>st. case add_uint64_loop al v [0..<8] False st of
             ((False, _), st) \<Rightarrow> (False, st)
           | ((True, started), st) \<Rightarrow>
               c_and (if \<not> started then on_child (CBB_add_u8 al 0) else (\<lambda>st. (True, st)))
                     (CBB_flush al) st)"
    by (rule ext) (simp add: CBB_add_asn1_uint64_def c_and_def [of "CBB_add_asn1 al _"] split: prod.split bool.split)
  moreover have "(case add_uint64_loop al v [0..<8] False st of
             ((False, _), st) \<Rightarrow> (False, st)
           | ((True, started), st) \<Rightarrow>
               c_and (if \<not> started then on_child (CBB_add_u8 al 0) else (\<lambda>st. (True, st)))
                     (CBB_flush al) st)
         = c_and (on_child (add_octets al ?c)) (CBB_flush al) st"
    if "child (snd st) \<noteq> None" for st
    using add_uint64_loop_eq [OF that, of v "[0..<8]" al]
    by (auto simp: octets_down_8 uint64_contents_def Let_def c_and_def split: prod.splits bool.splits if_splits)
  ultimately show ?thesis
    using element_appends' [OF add_octets_appends [OF ne, of al] len] c by simp
qed

lemma CBB_add_asn1_int64_appends [cbb_appends]:
  "appends al (CBB_add_asn1_int64 al v) (der_element CBS_ASN1_INTEGER (der_int (sint v)))"
proof (cases "sint v < 0")
  case True
  then show ?thesis by (rule CBB_add_asn1_int64_negative)
next
  case False
  then have nonneg: "0 \<le> sint v" by simp
  have o: "octets_down v 8 = int64_byte v 7 # octets_down v 7" using octets_down_Suc [of v 7] by simp
  have "\<not> 128 \<le> unat (int64_byte v 7)" using False by (simp add: sint_negative)
  then have "sval (octets_down v 8) = int (be_val (octets_down v 8))"
    by (simp only: sval_def o list.sel) simp
  then have "sint v = int (unat v)" by (simp only: sval_octets_8 be_val_octets_8)
  then show ?thesis
    using CBB_add_asn1_uint64_appends [of al v] nonneg by (simp add: CBB_add_asn1_int64_def)
qed

section \<open>OCTET STRING and BOOLEAN\<close>

lemma CBB_add_asn1_octet_string_appends [cbb_appends]:
  "length data \<le> 0xfffffffe \<Longrightarrow>
   appends al (CBB_add_asn1_octet_string al data) (der_element CBS_ASN1_OCTETSTRING data)"
  unfolding CBB_add_asn1_octet_string_def
  by (intro element_appends CBB_add_bytes_appends) simp_all

lemma CBB_add_asn1_bool_appends [cbb_appends]:
  "appends al (CBB_add_asn1_bool al v) (der_element CBS_ASN1_BOOLEAN [if v \<noteq> 0 then 0xff else 0])"
  unfolding CBB_add_asn1_bool_def
  by (intro element_appends CBB_add_u8_appends) simp

section \<open>Written and read back\<close>

interpretation asn1_uint64: wire_codec CBB_add_asn1_uint64 CBS_get_asn1_uint64
    "\<lambda>v. der_element CBS_ASN1_INTEGER (der_int (int (unat v)))" "\<lambda>_. True"
  by unfold_locales (auto simp: cbb_appends CBS_get_asn1_uint64_iff simp del: of_nat_unat)

interpretation asn1_int64: wire_codec CBB_add_asn1_int64 CBS_get_asn1_int64
    "\<lambda>v. der_element CBS_ASN1_INTEGER (der_int (sint v))" "\<lambda>_. True"
  by unfold_locales (auto simp: cbb_appends CBS_get_asn1_int64_iff)

interpretation asn1_octet_string: wire_codec CBB_add_asn1_octet_string "CBS_get_asn1 CBS_ASN1_OCTETSTRING"
    "der_element CBS_ASN1_OCTETSTRING" "\<lambda>data. length data \<le> 0xfffffffe"
  by unfold_locales (auto simp: cbb_appends CBS_get_asn1_iff)

interpretation asn1_bool: wire_codec "\<lambda>al v. CBB_add_asn1_bool al (if v then 1 else 0)" CBS_get_asn1_bool
    "\<lambda>v. der_element CBS_ASN1_BOOLEAN [if v then 0xff else 0]" "\<lambda>_. True"
proof
  show "appends al (CBB_add_asn1_bool al (if x then 1 else 0)) (der_element 1 [if x then 0xff else 0])" for x al
    using CBB_add_asn1_bool_appends [of al "if x then 1 else 0"] by (cases x) simp_all
  show "CBS_get_asn1_bool (der_element 1 [if x then 0xff else 0] @ rest) = (Some x, rest)" for x rest
    by (simp add: CBS_get_asn1_bool_iff)
qed

section \<open>Sequences of operations\<close>

lemma appends_put_all:
  assumes "appends al g ys" and "\<And>x. x \<in> set xs \<Longrightarrow> appends al (put x) (e x)"
  shows "appends al (c_and (put_all put xs) g) (concat (map e xs) @ ys)"
  using assms(2)
proof (induction xs)
  case Nil
  have "c_and (\<lambda>st. (True, st)) g = g" by (rule ext) (simp add: c_and_def)
  then show ?case using assms(1) by simp
next
  case (Cons x xs)
  then have "appends al (c_and (put x) (c_and (put_all put xs) g)) (e x @ (concat (map e xs) @ ys))"
    by (intro appends_then [where f = "put x"]) simp_all
  then show ?case by (simp add: put_all_Cons c_and_assoc)
qed

lemma appends_put_all_after:
  assumes "appends al g ys" and "\<And>x. x \<in> set xs \<Longrightarrow> appends al (put x) (e x)"
  shows "appends al (c_and g (put_all put xs)) (ys @ concat (map e xs))"
  using assms
proof (induction xs arbitrary: g ys)
  case (Cons x xs)
  have "appends al (c_and (c_and g (put x)) (put_all put xs)) ((ys @ e x) @ concat (map e xs))"
    using Cons by (intro Cons.IH appends_then) simp_all
  then show ?case by (simp add: put_all_Cons c_and_assoc)
qed simp

section \<open>Properties\<close>

text \<open>
  C22: Nesting: opening an element with \<open>CBB_add_asn1\<close>, running on the child any operation that appends
  \<open>bs\<close>, and flushing appends the DER encoding of the element with contents \<open>bs\<close>.
\<close>

theorem nested_element:
  assumes "appends al g bs" and "length bs \<le> 0xfffffffe"
  shows "appends al (c_and (CBB_add_asn1 al tag) (c_and (on_child g) (CBB_flush al))) (der_element tag bs)"
  using assms by (rule element_appends)

theorem nested_element_witness:
  "appends (\<lambda>_ _. None) (c_and (CBB_add_asn1 (\<lambda>_ _. None) 0x20000010)
     (c_and (on_child (CBB_add_asn1_int64 (\<lambda>_ _. None) 5)) (CBB_flush (\<lambda>_ _. None)))) [0x30, 3, 2, 1, 5]"
proof -
  have e: "der_element 2 (der_int (sint (5 :: u64))) = [2, 1, 5]" by code_simp
  have "der_element 0x20000010 [2, 1, 5] = [0x30, 3, 2, 1, 5]" by code_simp
  then show ?thesis
    using nested_element [OF CBB_add_asn1_int64_appends [of "\<lambda>_ _. None" 5], of "0x20000010", unfolded e] by simp
qed

text \<open>
  C23: Round trip: a list of 64-bit integers added one by one to a fresh builder, finished, and read back
  from the finished block yields the same list and leaves nothing.
\<close>

theorem int64s_round_trip:
  assumes "xs \<noteq> []" and "0 < n" "n + 8 < 2 ^ 64" and "CBB_init al t n = (True, st0)"
    and "put_all (CBB_add_asn1_int64 al) xs st0 = (True, st)"
  shows "\<exists>blk len st'. CBB_finish al True True st = ((True, Some blk, Some len), st')
           \<and> get_all CBS_get_asn1_int64 (length xs) (CBS_init blk len) = (Some xs, [])"
  using asn1_int64.build_then_read [OF assms(1) _ assms(2-5)] by simp

text \<open>
  C34: With an allocator that does not fail, the additions do succeed, so the round trip is not vacuous.
\<close>

theorem int64s_build_succeeds:
  assumes "xs \<noteq> []" and "0 < n" "n + 8 < 2 ^ 63" and "CBB_init al t n = (True, st0)" and "al_total al"
    and "2 * length (concat (map (\<lambda>v. der_element CBS_ASN1_INTEGER (der_int (sint v))) xs)) + 8 < 2 ^ 63"
  shows "fst (put_all (CBB_add_asn1_int64 al) xs st0)"
  using asn1_int64.build_succeeds [OF assms(1) _ assms(2-6)] by simp

theorem int64s_build_succeeds_witness:
  "\<exists>st0. CBB_init (\<lambda>_ _. Some (\<lambda>_. 0)) 0 4 = (True, st0)
         \<and> fst (put_all (CBB_add_asn1_int64 (\<lambda>_ _. Some (\<lambda>_. 0))) [5, - 1, 300] st0)"
proof -
  let ?al = "\<lambda>_ _. Some (\<lambda>_. 0 :: u8)"
  obtain st0 where i: "CBB_init ?al 0 4 = (True, st0)"
    by (simp add: CBB_init_def cbb_init_def OPENSSL_malloc_def c_malloc_def Let_def)
  have "length (concat (map (\<lambda>v. der_element 2 (der_int (sint v))) [5, - 1, 300 :: u64])) = 10" by code_simp
  then show ?thesis
    using int64s_build_succeeds [of "[5, - 1, 300]" 4 ?al 0 st0] i by (simp add: al_total_def)
qed

theorem int64s_round_trip_witness:
  "\<exists>st0 st blk len st'. CBB_init (\<lambda>_ _. Some (\<lambda>_. 0)) 0 4 = (True, st0)
     \<and> put_all (CBB_add_asn1_int64 (\<lambda>_ _. Some (\<lambda>_. 0))) [5, - 1, 300] st0 = (True, st)
     \<and> CBB_finish (\<lambda>_ _. Some (\<lambda>_. 0)) True True st = ((True, Some blk, Some len), st')
     \<and> get_all CBS_get_asn1_int64 3 (CBS_init blk len) = (Some [5, - 1, 300], [])"
proof -
  let ?al = "\<lambda>_ _. Some (\<lambda>_. 0 :: u8)"
  obtain st0 where i: "CBB_init ?al 0 4 = (True, st0)"
    by (simp add: CBB_init_def cbb_init_def OPENSSL_malloc_def c_malloc_def Let_def)
  have "length (concat (map (\<lambda>v. der_element 2 (der_int (sint v))) [5, - 1, 300 :: u64])) = 10" by code_simp
  then have "fst (put_all (CBB_add_asn1_int64 ?al) [5, - 1, 300] st0)"
    using asn1_int64.build_succeeds [of "[5, - 1, 300]" 4 ?al 0 st0] i by (simp add: al_total_def)
  then obtain st where p: "put_all (CBB_add_asn1_int64 ?al) [5, - 1, 300] st0 = (True, st)"
    by (cases "put_all (CBB_add_asn1_int64 ?al) [5, - 1, 300] st0") simp
  have "\<exists>blk len st'. CBB_finish ?al True True st = ((True, Some blk, Some len), st')
      \<and> get_all CBS_get_asn1_int64 (length [5, - 1, 300 :: u64]) (CBS_init blk len) = (Some [5, - 1, 300], [])"
    by (rule int64s_round_trip [OF _ _ _ i p]) simp_all
  then obtain blk len st' where "CBB_finish ?al True True st = ((True, Some blk, Some len), st')"
      "get_all CBS_get_asn1_int64 3 (CBS_init blk len) = (Some [5, - 1, 300], [])"
    by (simp only: length_Cons list.size(3) numeral_3_eq_3) blast
  with i p show ?thesis by blast
qed

end
