(* ===== verification/Oid.thy ===== *)
theory Oid
  imports Asn1Build
begin

text \<open>
  OBJECT IDENTIFIERs between their dotted-decimal text and the contents octets of their DER encoding:
  \<open>CBB_add_asn1_oid_from_text\<close> of \<^verbatim>\<open>cbb.c\<close> and \<open>CBS_asn1_oid_to_text\<close> of \<^verbatim>\<open>cbs.c\<close>. Characters are
  bytes.
\<close>

section \<open>Dotted decimal\<close>

text \<open>\<open>parse_dotted_decimal\<close>, one character per step; on failure the client drops the CBS.\<close>

fun dotted_decimal_loop :: "u64 \<Rightarrow> bool \<Rightarrow> u64 cbs_reader" where
  "dotted_decimal_loop out seen_digit [] = ((if seen_digit then Some out else None), [])"
| "dotted_decimal_loop out seen_digit (u # cbs) =
     (if u = 46 \<and> length cbs > 0 then ((if seen_digit then Some out else None), cbs)
      else if u < 48 \<or> u > 57 \<or> (seen_digit \<and> out = 0) \<or> out > - 1 div 10 \<or>
              out * 10 > - 1 - (ucast u - 48)
      then (None, cbs)
      else dotted_decimal_loop (out * 10 + (ucast u - 48)) True cbs)"

definition parse_dotted_decimal :: "u64 cbs_reader" where
  "parse_dotted_decimal cbs = dotted_decimal_loop 0 False cbs"

lemma dotted_decimal_loop_shrinks: "length (snd (dotted_decimal_loop v sd cbs)) \<le> length cbs"
  by (induction cbs arbitrary: v sd) (auto simp: le_SucI)

lemma parse_dotted_decimal_shrinks:
  "parse_dotted_decimal cbs = (Some v, cbs') \<Longrightarrow> length cbs' < length cbs"
  using dotted_decimal_loop_shrinks [of "ucast (hd cbs) - 48" True "tl cbs"]
  by (cases cbs) (auto simp: parse_dotted_decimal_def split: if_splits)

section \<open>From text\<close>

function oid_text_loop :: "malloc_env \<Rightarrow> cbs \<Rightarrow> cbb_op" where
  "oid_text_loop al cbs st =
     (if length cbs > 0
      then case parse_dotted_decimal cbs of
             (None, cbs) \<Rightarrow> (False, st)
           | (Some a, cbs) \<Rightarrow>
               (case add_base128_integer al a st of
                  (False, st) \<Rightarrow> (False, st)
                | (True, st) \<Rightarrow> oid_text_loop al cbs st)
      else (True, st))"
  by auto

termination oid_text_loop
  by (relation "measure (\<lambda>(_, cbs, _). length cbs)")
     (auto dest: parse_dotted_decimal_shrinks [OF sym])

declare oid_text_loop.simps [simp del]

definition CBB_add_asn1_oid_from_text :: "malloc_env \<Rightarrow> bytes \<Rightarrow> nat \<Rightarrow> cbb_op" where
  "CBB_add_asn1_oid_from_text al txt len st =
     (case CBB_flush al st of
        (False, st) \<Rightarrow> (False, st)
      | (True, st) \<Rightarrow>
          (case parse_dotted_decimal (CBS_init txt len) of
             (None, _) \<Rightarrow> (False, st)
           | (Some a, cbs) \<Rightarrow>
               (case parse_dotted_decimal cbs of
                  (None, _) \<Rightarrow> (False, st)
                | (Some b, cbs) \<Rightarrow>
                    (if a > 2 \<or> (a < 2 \<and> b > 39) \<or> b > - 1 - 80 then (False, st)
                     else c_and (add_base128_integer al (40 * a + b)) (oid_text_loop al cbs) st))))"

section \<open>To text\<close>

text \<open>The decimal digits \<open>BIO_snprintf\<close> prints for \<^verbatim>\<open>"%" PRIu64\<close>.\<close>

fun decimal :: "nat \<Rightarrow> bytes" where
  "decimal v = (if v < 10 then [of_nat (48 + v)] else decimal (v div 10) @ [of_nat (48 + v mod 10)])"

declare decimal.simps [simp del]

definition add_decimal :: "malloc_env \<Rightarrow> u64 \<Rightarrow> cbb_op" where
  "add_decimal al v = CBB_add_bytes al (decimal (unat v))"

lemma parse_base128_loop_shrinks: "length (snd (parse_base128_loop v cbs)) \<le> length cbs"
  by (induction cbs arbitrary: v) (auto simp: Let_def le_SucI)

lemma parse_base128_shrinks:
  "parse_base128_integer cbs = (Some v, cbs') \<Longrightarrow> length cbs' < length cbs"
  using parse_base128_loop_shrinks [of "push_bit 7 0 OR ucast (hd cbs AND 0x7f)" "tl cbs"]
  by (cases cbs) (auto simp: parse_base128_integer_def Let_def split: if_splits)

function oid_to_text_loop :: "malloc_env \<Rightarrow> cbs \<Rightarrow> cbb_op" where
  "oid_to_text_loop al copy st =
     (if length copy \<noteq> 0
      then case parse_base128_integer copy of
             (None, copy) \<Rightarrow> (False, st)
           | (Some v, copy) \<Rightarrow>
               (case c_and (CBB_add_u8 al 46) (add_decimal al v) st of
                  (False, st) \<Rightarrow> (False, st)
                | (True, st) \<Rightarrow> oid_to_text_loop al copy st)
      else (True, st))"
  by auto

termination oid_to_text_loop
  by (relation "measure (\<lambda>(_, copy, _). length copy)")
     (auto dest: parse_base128_shrinks [OF sym])

declare oid_to_text_loop.simps [simp del]

text \<open>\<open>CBS_asn1_oid_to_text\<close>; \<open>t\<close> is the number of its first request for memory.\<close>

definition CBS_asn1_oid_to_text :: "malloc_env \<Rightarrow> nat \<Rightarrow> cbs \<Rightarrow> bytes option" where
  "CBS_asn1_oid_to_text al t cbs =
     (case CBB_init al t 32 of
        (False, _) \<Rightarrow> None
      | (True, st) \<Rightarrow>
          (case parse_base128_integer cbs of
             (None, _) \<Rightarrow> None
           | (Some v, copy) \<Rightarrow>
               (case (if v \<ge> 80 then c_and (CBB_add_bytes al [50, 46]) (add_decimal al (v - 80)) st
                      else c_and (add_decimal al (v div 40))
                             (c_and (CBB_add_u8 al 46) (add_decimal al (v mod 40))) st) of
                  (False, _) \<Rightarrow> None
                | (True, st) \<Rightarrow>
                    (case c_and (oid_to_text_loop al copy) (CBB_add_u8 al 0) st of
                       (False, _) \<Rightarrow> None
                     | (True, st) \<Rightarrow>
                         (case CBB_finish al True True st of
                            ((True, txt, _), _) \<Rightarrow> txt
                          | ((False, _, _), _) \<Rightarrow> None)))))"

section \<open>Components and their text\<close>

lemma decimal_small: "v < 10 \<Longrightarrow> decimal v = [of_nat (48 + v)]"
  by (subst decimal.simps) simp

lemma decimal_step: "10 \<le> v \<Longrightarrow> decimal v = decimal (v div 10) @ [of_nat (48 + v mod 10)]"
  by (subst decimal.simps) simp

lemma decimal_nonempty [simp]: "decimal v \<noteq> []"
  by (subst decimal.simps) simp

fun oid_text :: "nat list \<Rightarrow> bytes" where
  "oid_text [] = []"
| "oid_text (v # vs) = decimal v @ (if vs = [] then [] else 46 # oid_text vs)"

lemma oid_text_Nil_iff [simp]: "oid_text vs = [] \<longleftrightarrow> vs = []"
  by (cases vs) simp_all

text \<open>The conditions of one step of the parser, on numbers.\<close>

lemma digit_word: "d < 10 \<Longrightarrow> unat (of_nat (48 + d) :: u8) = 48 + d"
  by (simp only: unat_of_nat_u8) simp

lemma digit_sub:
  assumes "48 \<le> unat (u :: u8)"
  shows "unat (ucast u - 48 :: u64) = unat u - 48"
proof -
  have "(48 :: u64) \<le> ucast u" using assms by (simp add: word_le_nat_alt unat_ucast_less)
  then show ?thesis by (simp add: unat_sub unat_ucast_less)
qed

lemma max_div_10: "(- 1 :: u64) div 10 = 1844674407370955161"
  by (intro word_unat_eq_iff [THEN iffD2]) (simp add: unat_div)

lemma digit_step:
  fixes out :: u64 and u :: u8
  assumes u: "48 \<le> unat u" "unat u \<le> 57"
  shows "(\<not> out > - 1 div 10 \<and> \<not> out * 10 > - 1 - (ucast u - 48))
         \<longleftrightarrow> unat out * 10 + (unat u - 48) < 2 ^ 64"
    and "unat out * 10 + (unat u - 48) < 2 ^ 64 \<Longrightarrow>
         unat (out * 10 + (ucast u - 48)) = unat out * 10 + (unat u - 48)"
proof -
  let ?d = "ucast u - 48 :: u64"
  have d: "unat ?d = unat u - 48" by (rule digit_sub [OF u(1)])
  have ge: "?d \<le> - 1" by simp
  have m: "unat (- 1 - ?d) = 2 ^ 64 - 1 - (unat u - 48)"
    by (simp only: unat_sub [OF ge] d) (simp add: unsigned_minus_1_eq_mask mask_eq_exp_minus_1)
  have mul: "unat (out * 10) = unat out * 10" if "unat out \<le> 1844674407370955161"
    using that by (simp add: unat_mult_lem [THEN iffD1])
  have a: "\<not> out > - 1 div 10 \<longleftrightarrow> unat out \<le> 1844674407370955161"
    by (simp add: max_div_10 word_less_nat_alt not_less)
  show "(\<not> out > - 1 div 10 \<and> \<not> out * 10 > - 1 - ?d) \<longleftrightarrow> unat out * 10 + (unat u - 48) < 2 ^ 64"
  proof (cases "unat out \<le> 1844674407370955161")
    case True
    then have "\<not> out * 10 > - 1 - ?d \<longleftrightarrow> unat out * 10 \<le> 2 ^ 64 - 1 - (unat u - 48)"
      by (simp only: word_less_nat_alt not_less mul m)
    then show ?thesis using True a u by auto
  next
    case False
    then show ?thesis using a by auto
  qed
  assume "unat out * 10 + (unat u - 48) < 2 ^ 64"
  then show "unat (out * 10 + ?d) = unat out * 10 + (unat u - 48)"
    by (simp only: unat_word_ariths d) (simp add: mod_simps)
qed

lemma dotted_decimal_digit:
  assumes "48 \<le> unat u" "unat u \<le> 57"
  shows "dotted_decimal_loop out seen (u # cbs) =
     (if (seen \<and> out = 0) \<or> \<not> unat out * 10 + (unat u - 48) < 2 ^ 64 then (None, cbs)
      else dotted_decimal_loop (out * 10 + (ucast u - 48)) True cbs)"
proof -
  have "u \<noteq> 46" "\<not> u < 48" "\<not> u > 57" using assms by (auto simp: word_less_nat_alt)
  then show ?thesis
    by (simp only: dotted_decimal_loop.simps digit_step(1) [OF assms, symmetric]) (auto simp: not_less)
qed

lemma dotted_decimal_decimal:
  "v < 2 ^ 64 \<Longrightarrow> dotted_decimal_loop 0 False (decimal v @ suf) = dotted_decimal_loop (of_nat v) True suf"
proof (induction v arbitrary: suf rule: decimal.induct)
  case (1 v)
  show ?case
  proof (cases "v < 10")
    case True
    have "(0 * 10 + (ucast (of_nat (48 + v) :: u8) - 48) :: u64) = of_nat v"
      using digit_sub [of "of_nat (48 + v)"] True digit_word [OF True]
      by (intro word_unat_eq_iff [THEN iffD2]) (simp add: unat_of_nat)
    then show ?thesis
      using True dotted_decimal_digit [of "of_nat (48 + v)" 0 False suf] digit_word [OF True]
      by (simp add: decimal_small)
  next
    case False
    let ?q = "v div 10" and ?u = "of_nat (48 + v mod 10) :: u8"
    have u: "unat ?u = 48 + v mod 10" by (rule digit_word) simp
    have q: "unat (of_nat ?q :: u64) = ?q" using 1(2) by (simp add: unat_of_nat)
    have v: "?q * 10 + v mod 10 = v" by simp
    have qnz: "(of_nat ?q :: u64) \<noteq> 0"
      using False q by (metis div_greater_zero_iff not_less unsigned_0 less_numeral_extra(3) zero_less_numeral)
    have "dotted_decimal_loop 0 False (decimal v @ suf) = dotted_decimal_loop 0 False (decimal ?q @ ?u # suf)"
      using False by (simp add: decimal_step)
    also have "\<dots> = dotted_decimal_loop (of_nat ?q) True (?u # suf)"
      using 1 False by simp
    also have "\<dots> = dotted_decimal_loop (of_nat ?q * 10 + (ucast ?u - 48)) True suf"
      using dotted_decimal_digit [of ?u "of_nat ?q" True suf] u q v 1(2) qnz by simp
    also have "(of_nat ?q * 10 + (ucast ?u - 48) :: u64) = of_nat v"
      using digit_step(2) [of ?u "of_nat ?q"] u q v 1(2)
      by (intro word_unat_eq_iff [THEN iffD2]) (simp add: unat_of_nat)
    finally show ?thesis .
  qed
qed

lemma parse_dotted_decimal_text:
  assumes "v < 2 ^ 64"
  shows "parse_dotted_decimal (oid_text (v # vs)) = (Some (of_nat v), oid_text vs)"
proof -
  have "parse_dotted_decimal (oid_text (v # vs))
        = dotted_decimal_loop (of_nat v) True (if vs = [] then [] else 46 # oid_text vs)"
    using dotted_decimal_decimal [OF assms] by (simp add: parse_dotted_decimal_def)
  also have "\<dots> = (Some (of_nat v), oid_text vs)" by (cases vs) simp_all
  finally show ?thesis .
qed

text \<open>Only the text of a number is accepted.\<close>

lemma dotted_decimal_sound:
  "dotted_decimal_loop out True cbs = (Some v, rest) \<Longrightarrow>
   decimal (unat out) @ cbs = decimal (unat v) @ (if rest = [] then [] else 46 # rest)"
proof (induction cbs arbitrary: out)
  case Nil
  then show ?case by auto
next
  case (Cons u cbs)
  show ?case
  proof (cases "u = 46 \<and> cbs \<noteq> []")
    case True
    then show ?thesis using Cons.prems by auto
  next
    case False
    then have rng: "48 \<le> unat u" "unat u \<le> 57"
      using Cons.prems by (auto simp: word_less_nat_alt not_less split: if_splits)
    let ?d = "unat u - 48"
    have nz: "out \<noteq> 0" and lt: "unat out * 10 + ?d < 2 ^ 64"
      and rec: "dotted_decimal_loop (out * 10 + (ucast u - 48)) True cbs = (Some v, rest)"
      using Cons.prems by (auto simp only: dotted_decimal_digit [OF rng] split: if_splits)
    have n: "unat (out * 10 + (ucast u - 48)) = unat out * 10 + ?d"
      using digit_step(2) [OF rng lt] .
    have "0 < unat out" using nz by (simp add: unat_gt_0)
    then have "10 \<le> unat out * 10 + ?d" by linarith
    moreover have "(unat out * 10 + ?d) div 10 = unat out" "(unat out * 10 + ?d) mod 10 = ?d"
    proof -
      have "?d < 10" using rng by simp
      then show "(unat out * 10 + ?d) div 10 = unat out" "(unat out * 10 + ?d) mod 10 = ?d"
        by (simp_all only: mod_mult_self3 mod_less)
    qed
    moreover have "(of_nat (48 + ?d) :: u8) = u" using rng by simp
    ultimately have "decimal (unat out * 10 + ?d) = decimal (unat out) @ [u]"
      by (simp only: decimal_step)
    then show ?thesis using Cons.IH [OF rec] by (simp only: n append_assoc append_Cons append_Nil)
  qed
qed

lemma parse_dotted_decimal_sound:
  assumes "parse_dotted_decimal cbs = (Some v, rest)"
  shows "cbs = decimal (unat v) @ (if rest = [] then [] else 46 # rest)"
proof (cases cbs)
  case Nil
  then show ?thesis using assms by (simp add: parse_dotted_decimal_def)
next
  case (Cons u us)
  have rng: "48 \<le> unat u" "unat u \<le> 57"
    using assms Cons
    by (auto simp: parse_dotted_decimal_def word_less_nat_alt not_less split: if_splits)
  then have "dotted_decimal_loop (ucast u - 48) True us = (Some v, rest)"
    using assms Cons dotted_decimal_digit [OF rng, of 0 False us] by (auto simp: parse_dotted_decimal_def split: if_splits)
  from dotted_decimal_sound [OF this] show ?thesis
    using rng Cons by (simp add: digit_sub decimal_small)
qed
section \<open>OIDs\<close>

text \<open>
  \<open>oid_ok\<close>: the component lists that have an encoding here (X.690, 8.19.4, with 64-bit components).
  \<open>oid_der\<close>: the contents octets.
\<close>

fun oid_ok :: "nat list \<Rightarrow> bool" where
  "oid_ok (a # b # vs) = (a \<le> 2 \<and> (a < 2 \<longrightarrow> b \<le> 39) \<and> b \<le> 2 ^ 64 - 81 \<and> (\<forall>v\<in>set vs. v < 2 ^ 64))"
| "oid_ok _ = False"

fun oid_der :: "nat list \<Rightarrow> bytes" where
  "oid_der (a # b # vs) = b128 (40 * a + b) @ concat (map b128 vs)"
| "oid_der _ = []"

lemma oid_text_loop_eq:
  "\<forall>v\<in>set vs. v < 2 ^ 64 \<Longrightarrow>
   oid_text_loop al (oid_text vs) st = put_all (add_base128_integer al) (map of_nat vs) st"
proof (induction vs arbitrary: st)
  case Nil
  then show ?case by (subst oid_text_loop.simps) simp
next
  case (Cons v vs)
  have "oid_text_loop al (oid_text (v # vs)) st
        = (case add_base128_integer al (of_nat v) st of
             (False, st) \<Rightarrow> (False, st) | (True, st) \<Rightarrow> oid_text_loop al (oid_text vs) st)"
    using Cons.prems parse_dotted_decimal_text [of v vs]
    by (subst oid_text_loop.simps) (simp del: oid_text.simps add: length_greater_0_conv)
  also have "\<dots> = c_and (add_base128_integer al (of_nat v)) (put_all (add_base128_integer al) (map of_nat vs)) st"
    using Cons by (auto simp: c_and_def split: prod.split bool.split)
  finally show ?case by (simp add: put_all_Cons)
qed

text \<open>The text of a valid component list is accepted and its contents octets are appended.\<close>

lemma oid_from_text_appends:
  assumes ok: "oid_ok vs"
  shows "appends al (CBB_add_asn1_oid_from_text al (oid_text vs) (length (oid_text vs))) (oid_der vs)"
proof -
  obtain a b ws where vs: "vs = a # b # ws" using ok by (cases vs rule: oid_ok.cases) auto
  have ab: "a \<le> 2" "a < 2 \<longrightarrow> b \<le> 39" "b \<le> 2 ^ 64 - 81" "\<forall>v\<in>set ws. v < 2 ^ 64"
    using ok vs by simp_all
  define wa wb where "wa = (of_nat a :: u64)" and "wb = (of_nat b :: u64)"
  have ua: "unat wa = a" "unat wb = b" using ab by (simp_all add: wa_def wb_def unat_of_nat)
  have m: "unat (- 1 - 80 :: u64) = 2 ^ 64 - 81" by simp
  have "wa \<le> 2" "\<not> (wa < 2 \<and> wb > 39)"
    using ab ua by (auto simp: word_le_nat_alt word_less_nat_alt)
  moreover have "\<not> wb > - 1 - 80"
    using ab ua m by (simp only: word_less_nat_alt not_less)
  ultimately have chk: "\<not> (wa > 2 \<or> (wa < 2 \<and> wb > 39) \<or> wb > - 1 - 80)" by auto
  have first: "unat (40 * wa + wb) = 40 * a + b"
    using ab ua by (simp add: unat_word_ariths)
  let ?f = "c_and (add_base128_integer al (40 * wa + wb)) (put_all (add_base128_integer al) (map of_nat ws))"
  have "concat (map (\<lambda>v. b128 (unat v)) (map of_nat ws :: u64 list)) = concat (map b128 ws)"
    using ab(4) by (induction ws) (simp_all add: unat_of_nat)
  moreover have "appends al ?f (b128 (unat (40 * wa + wb)) @ concat (map (\<lambda>v. b128 (unat v)) (map of_nat ws :: u64 list)))"
    by (intro appends_put_all_after add_base128_appends)
  ultimately have f: "appends al ?f (oid_der vs)"
    by (simp only: vs first oid_der.simps)
  have "parse_dotted_decimal (oid_text vs) = (Some wa, oid_text (b # ws))"
    using parse_dotted_decimal_text [of a "b # ws"] ab by (simp add: vs wa_def del: oid_text.simps)
  moreover have "parse_dotted_decimal (oid_text (b # ws)) = (Some wb, oid_text ws)"
    using parse_dotted_decimal_text [of b ws] ab by (simp add: wb_def del: oid_text.simps)
  ultimately have eq: "CBB_add_asn1_oid_from_text al (oid_text vs) (length (oid_text vs)) st
      = c_and (CBB_flush al) ?f st" for st
    using chk oid_text_loop_eq [OF ab(4), of al]
    by (auto simp: CBB_add_asn1_oid_from_text_def CBS_init_def c_and_def simp del: not_less split: prod.split bool.split)
  show ?thesis
    using appends_then [OF flush_appends [of al] f] eq by (simp add: fun_eq_iff [symmetric] eq [abs_def])
qed

text \<open>Only such text is accepted.\<close>

lemma oid_text_loop_sound:
  "oid_text_loop al cbs st = (True, st') \<Longrightarrow> \<exists>ws. cbs = oid_text ws \<and> (\<forall>v\<in>set ws. v < 2 ^ 64)"
proof (induction al cbs st rule: oid_text_loop.induct)
  case (1 al cbs st)
  show ?case
  proof (cases "cbs = []")
    case True
    then show ?thesis by (intro exI [of _ "[]"]) simp
  next
    case False
    obtain v rest where v: "parse_dotted_decimal cbs = (Some v, rest)"
      using 1(2) False by (subst (asm) oid_text_loop.simps) (auto split: prod.splits option.splits)
    obtain st1 where st1: "add_base128_integer al v st = (True, st1)" "oid_text_loop al rest st1 = (True, st')"
      using 1(2) False v by (subst (asm) oid_text_loop.simps) (auto split: prod.splits bool.splits)
    obtain ws where ws: "rest = oid_text ws" "\<forall>v\<in>set ws. v < 2 ^ 64"
      using 1(1) [OF _ v [symmetric] refl st1(1) [symmetric] refl st1(2)] False by auto
    then have "cbs = oid_text (unat v # ws)"
      using parse_dotted_decimal_sound [OF v] by simp
    moreover have "\<forall>v\<in>set (unat v # ws). v < 2 ^ 64" using ws(2) by simp
    ultimately show ?thesis by blast
  qed
qed

lemma oid_from_text_sound:
  assumes "CBB_add_asn1_oid_from_text al txt (length txt) st = (True, st')"
  shows "\<exists>vs. txt = oid_text vs \<and> oid_ok vs"
proof -
  obtain a r1 where a: "parse_dotted_decimal txt = (Some a, r1)"
    using assms by (auto simp: CBB_add_asn1_oid_from_text_def CBS_init_def split: prod.splits bool.splits option.splits)
  obtain b r2 where b: "parse_dotted_decimal r1 = (Some b, r2)"
    using assms a by (auto simp: CBB_add_asn1_oid_from_text_def CBS_init_def split: prod.splits bool.splits option.splits)
  have chk: "\<not> (a > 2 \<or> (a < 2 \<and> b > 39) \<or> b > - 1 - 80)"
    using assms a b
    by (auto simp: CBB_add_asn1_oid_from_text_def CBS_init_def split: prod.splits bool.splits if_splits)
  obtain s1 where "oid_text_loop al r2 s1 = (True, st')"
    using assms a b
    by (auto simp: CBB_add_asn1_oid_from_text_def CBS_init_def c_and_def split: prod.splits bool.splits if_splits)
  then obtain ws where ws: "r2 = oid_text ws" "\<forall>v\<in>set ws. v < 2 ^ 64"
    using oid_text_loop_sound by blast
  have r1: "r1 = oid_text (unat b # ws)"
    using parse_dotted_decimal_sound [OF b] ws by simp
  have "r1 \<noteq> []" using r1 by simp
  then have tx: "txt = oid_text (unat a # unat b # ws)"
    using parse_dotted_decimal_sound [OF a] r1 by simp
  have m: "unat (- 1 - 80 :: u64) = 2 ^ 64 - 81" by simp
  have "\<not> unat (- 1 - 80 :: u64) < unat b" "unat a \<le> 2" "unat a < 2 \<longrightarrow> unat b \<le> 39"
    using chk by (auto simp only: word_less_nat_alt not_less) auto
  then have "oid_ok (unat a # unat b # ws)"
    using ws(2) by (simp only: m oid_ok.simps) simp
  then show ?thesis using tx by blast
qed

section \<open>Contents octets to text\<close>

lemma parse_base128_b128: "v < 2 ^ 64 \<Longrightarrow> parse_base128_integer (b128 v @ rest) = (Some (of_nat v), rest)"
  by (rule parse_base128_complete)

lemma oid_to_text_loop_eq:
  "\<forall>v\<in>set vs. v < 2 ^ 64 \<Longrightarrow>
   oid_to_text_loop al (concat (map b128 vs)) st
   = put_all (\<lambda>v. c_and (CBB_add_u8 al 46) (add_decimal al v)) (map of_nat vs) st"
proof (induction vs arbitrary: st)
  case Nil
  then show ?case by (subst oid_to_text_loop.simps) simp
next
  case (Cons v vs)
  have "oid_to_text_loop al (concat (map b128 (v # vs))) st
        = (case c_and (CBB_add_u8 al 46) (add_decimal al (of_nat v)) st of
             (False, st) \<Rightarrow> (False, st) | (True, st) \<Rightarrow> oid_to_text_loop al (concat (map b128 vs)) st)"
    using Cons.prems by (subst oid_to_text_loop.simps) (simp add: parse_base128_b128)
  then show ?case
    using Cons by (simp add: put_all_Cons c_and_def [of "c_and (CBB_add_u8 al 46) _"] split: prod.split bool.split)
qed

lemma length_decimal: "length (decimal v) \<le> Suc v"
proof (induction v rule: decimal.induct)
  case (1 v)
  show ?case
  proof (cases "v < 10")
    case False
    then have "length (decimal v) \<le> Suc (Suc (v div 10))" using 1 by (simp add: decimal_step)
    also have "\<dots> \<le> Suc v" using False by simp
    finally show ?thesis .
  qed (simp add: decimal_small)
qed

lemma length_decimal_64: "v < 10 ^ n \<Longrightarrow> length (decimal v) \<le> Suc n"
proof (induction n arbitrary: v)
  case (Suc n)
  show ?case
  proof (cases "v < 10")
    case False
    have "v div 10 < 10 ^ n" using Suc.prems by (simp add: less_mult_imp_div_less mult.commute)
    from Suc.IH [OF this] show ?thesis using False by (simp add: decimal_step)
  qed (simp add: decimal_small)
qed (simp add: decimal_small)

lemma add_decimal_appends [cbb_appends]: "appends al (add_decimal al v) (decimal (unat v))"
proof -
  have "unat v < 10 ^ 20" by (rule less_trans [OF unat_less_64_num]) simp
  from length_decimal_64 [OF this] show ?thesis
    unfolding add_decimal_def by (intro CBB_add_bytes_appends) simp
qed

text \<open>The text \<open>oid_to_text\<close> builds before the terminating NUL.\<close>

lemma dotted_tail: "concat (map (\<lambda>v. [46] @ decimal v) vs) = (if vs = [] then [] else 46 # oid_text vs)"
  by (induction vs) auto

definition oid_text_op :: "malloc_env \<Rightarrow> cbs \<Rightarrow> cbb_op" where
  "oid_text_op al cbs st =
     (case parse_base128_integer cbs of
        (None, _) \<Rightarrow> (False, st)
      | (Some v, copy) \<Rightarrow>
          c_and (if v \<ge> 80 then c_and (CBB_add_bytes al [50, 46]) (add_decimal al (v - 80))
                 else c_and (add_decimal al (v div 40)) (c_and (CBB_add_u8 al 46) (add_decimal al (v mod 40))))
            (c_and (oid_to_text_loop al copy) (CBB_add_u8 al 0)) st)"

lemma CBS_asn1_oid_to_text_eq:
  "CBS_asn1_oid_to_text al t cbs =
     (case CBB_init al t 32 of
        (False, _) \<Rightarrow> None
      | (True, st) \<Rightarrow>
          (case oid_text_op al cbs st of
             (False, _) \<Rightarrow> None
           | (True, st) \<Rightarrow>
               (case CBB_finish al True True st of
                  ((True, txt, _), _) \<Rightarrow> txt
                | ((False, _, _), _) \<Rightarrow> None)))"
proof -
  have eq: "(case F st of (False, _) \<Rightarrow> None
             | (True, st) \<Rightarrow> (case G st of (False, _) \<Rightarrow> None | (True, st) \<Rightarrow> H st))
            = (case c_and F G st of (False, _) \<Rightarrow> None | (True, st) \<Rightarrow> H st)"
    for F G and H :: "cbb_state \<Rightarrow> bytes option" and st
    by (simp add: c_and_def split: prod.split bool.split)
  obtain r st where init: "CBB_init al t 32 = (r, st)" by (rule prod.exhaust)
  obtain p copy where parse: "parse_base128_integer cbs = (p, copy)" by (rule prod.exhaust)
  show ?thesis
  proof (cases "r \<and> p \<noteq> None")
    case False
    then show ?thesis
      by (auto simp: CBS_asn1_oid_to_text_def oid_text_op_def init parse split: bool.split)
  next
    case True
    then obtain v where v: "p = Some v" "r" by auto
    show ?thesis
      unfolding CBS_asn1_oid_to_text_def oid_text_op_def init parse v(1) prod.case option.case
      unfolding eq [symmetric]
      using v(2) by (cases "v \<ge> 80") simp_all
  qed
qed

lemma oid_text_op_appends:
  assumes ok: "oid_ok vs"
  shows "appends al (oid_text_op al (oid_der vs)) (oid_text vs @ [0])"
proof -
  obtain a b ws where vs: "vs = a # b # ws" using ok by (cases vs rule: oid_ok.cases) auto
  have ab: "a \<le> 2" "a < 2 \<longrightarrow> b \<le> 39" "b \<le> 2 ^ 64 - 81" "\<forall>v\<in>set ws. v < 2 ^ 64"
    using ok vs by simp_all
  define v where "v = (of_nat (40 * a + b) :: u64)"
  have lt: "40 * a + b < 2 ^ 64" using ab by auto
  have uv: "unat v = 40 * a + b" using lt by (simp add: v_def unat_of_nat del: of_nat_add of_nat_mult)
  have parse: "parse_base128_integer (oid_der vs) = (Some v, concat (map b128 ws))"
    using parse_base128_b128 [OF lt] by (simp add: vs v_def)
  let ?first = "if v \<ge> 80 then c_and (CBB_add_bytes al [50, 46]) (add_decimal al (v - 80))
      else c_and (add_decimal al (v div 40)) (c_and (CBB_add_u8 al 46) (add_decimal al (v mod 40)))"
  have first: "appends al ?first (decimal a @ [46] @ decimal b)"
  proof (cases "v \<ge> 80")
    case True
    then have "80 \<le> 40 * a + b" using uv by (simp add: word_le_nat_alt)
    then have a: "a = 2" using ab by (cases "a < 2") auto
    have "unat (v - 80) = b" using True uv a by (simp add: unat_sub)
    then show ?thesis
      using True a appends_then [OF CBB_add_bytes_appends add_decimal_appends, of "[50, 46]" al "v - 80"]
      by (simp add: decimal_small)
  next
    case False
    then have "40 * a + b < 80" using uv by (simp add: word_le_nat_alt)
    then have a: "a < 2" by simp
    then have b: "b < 40" using ab by simp
    have "unat (v div 40) = a" "unat (v mod 40) = b"
      using uv b by (simp_all add: unat_div unat_mod)
    then show ?thesis
      using False appends_then [OF add_decimal_appends appends_then [OF CBB_add_u8_appends add_decimal_appends],
          of al "v div 40" 46 "v mod 40"] by simp
  qed
  let ?dots = "put_all (\<lambda>v. c_and (CBB_add_u8 al 46) (add_decimal al v)) (map of_nat ws)"
  have "appends al (c_and ?dots (CBB_add_u8 al 0))
          (concat (map (\<lambda>v. [46] @ decimal (unat v)) (map of_nat ws :: u64 list)) @ [0])"
    by (intro appends_put_all appends_then CBB_add_u8_appends add_decimal_appends)
  moreover have "concat (map (\<lambda>v. [46] @ decimal (unat v)) (map of_nat ws :: u64 list))
                 = concat (map (\<lambda>v. [46] @ decimal v) ws)"
    using ab(4) by (induction ws) (simp_all add: unat_of_nat)
  ultimately have "appends al (c_and ?dots (CBB_add_u8 al 0)) ((if ws = [] then [] else 46 # oid_text ws) @ [0])"
    by (simp only: dotted_tail)
  from appends_then [OF first this]
  have "appends al (c_and ?first (c_and ?dots (CBB_add_u8 al 0))) (oid_text vs @ [0])"
    by (simp add: vs)
  moreover have "oid_text_op al (oid_der vs) = c_and ?first (c_and ?dots (CBB_add_u8 al 0))"
  proof (rule ext)
    fix st
    have "c_and (oid_to_text_loop al (concat (map b128 ws))) (CBB_add_u8 al 0) = c_and ?dots (CBB_add_u8 al 0)"
      by (rule ext) (simp add: c_and_def oid_to_text_loop_eq [OF ab(4)])
    then show "oid_text_op al (oid_der vs) st = c_and ?first (c_and ?dots (CBB_add_u8 al 0)) st"
      by (simp add: oid_text_op_def parse)
  qed
  ultimately show ?thesis by simp
qed

text \<open>With memory, the text comes out; whenever something comes out, it is the text.\<close>

lemma oid_to_text_total:
  assumes ok: "oid_ok vs" and al: "al_total al" and small: "2 * length (oid_text vs) + 10 < 2 ^ 63"
  shows "CBS_asn1_oid_to_text al t (oid_der vs) \<noteq> None"
proof -
  obtain st where st: "CBB_init al t 32 = (True, st)"
    using CBB_init_succeeds [OF al, of 32 t] by auto
  obtain b where b: "st = (Some b, CBB False 0 0 False None)" "cbb_wf b (CBB False 0 0 False None)"
      "written b = []" "can_resize b"
    using CBB_init_wf [OF st] by auto
  from appendsD [OF oid_text_op_appends [OF ok, of al] b(2)] show ?thesis
  proof (cases rule: outcome_cases)
    case (failure b' c')
    then show ?thesis using b al small by (simp add: fits_def)
  next
    case (success b')
    then show ?thesis
      using CBB_finish_appended [OF oid_text_op_appends [OF ok, of al] b(2,3), of "(Some b', CBB False 0 0 False None)"] b(1) st
      by (auto simp: CBS_asn1_oid_to_text_eq)
  qed
qed

lemma oid_to_text_text:
  assumes ok: "oid_ok vs" and res: "CBS_asn1_oid_to_text al t (oid_der vs) = Some blk"
  shows "take (length (oid_text vs) + 1) blk = oid_text vs @ [0]"
proof -
  obtain st0 where st: "CBB_init al t 32 = (True, st0)"
    using res by (auto simp: CBS_asn1_oid_to_text_def split: prod.splits bool.splits)
  obtain b where b: "st0 = (Some b, CBB False 0 0 False None)" "cbb_wf b (CBB False 0 0 False None)"
      "written b = []"
    using CBB_init_wf [OF st] by auto
  obtain st1 where st1: "oid_text_op al (oid_der vs) st0 = (True, st1)"
    using res st by (auto simp: CBS_asn1_oid_to_text_eq split: prod.splits bool.splits)
  have "oid_text_op al (oid_der vs) (Some b, CBB False 0 0 False None) = (True, st1)"
    using st1 b(1) by simp
  from CBB_finish_appended [OF oid_text_op_appends [OF ok, of al] b(2,3) this] show ?thesis
    using res st st1 by (auto simp: CBS_asn1_oid_to_text_eq)
qed

section \<open>Properties\<close>

text \<open>
  The text form of an object identifier with valid components (first at most 2, second at most 39
  under 0 and 1, every component a 64-bit number) is accepted and turned into its DER contents.
\<close>

theorem oid_text_is_encoded:
  assumes "oid_ok vs"
  shows "appends al (CBB_add_asn1_oid_from_text al (oid_text vs) (length (oid_text vs))) (oid_der vs)"
  using assms by (rule oid_from_text_appends)

text \<open>
  Nothing else is accepted: whenever the conversion succeeds, the text is the canonical dotted
  decimal form, without signs, leading zeros or empty components, of a valid component list.
\<close>

theorem oid_text_accepted_only_if_canonical:
  assumes "CBB_add_asn1_oid_from_text al s (length s) st = (True, st')"
  shows "\<exists>vs. s = oid_text vs \<and> oid_ok vs"
  using assms by (rule oid_from_text_sound)

text \<open>
  C32: \<open>CBS_asn1_oid_to_text\<close> inverts the encoding: for the DER contents of a valid component list it
  returns, when memory suffices, the NUL-terminated text of that list.
\<close>

theorem oid_der_to_text:
  assumes "oid_ok vs" and "al_total al" and "2 * length (oid_text vs) + 10 < 2 ^ 63"
  shows "\<exists>blk. CBS_asn1_oid_to_text al t (oid_der vs) = Some blk \<and>
               take (length (oid_text vs) + 1) blk = oid_text vs @ [0]"
  using oid_to_text_total [OF assms] oid_to_text_text [OF assms(1)] by blast

theorem oid_der_to_text_witness:
  "\<exists>blk. CBS_asn1_oid_to_text (\<lambda>_ _. Some (\<lambda>_. 0)) 0 [0x2a, 0x86, 0x48] = Some blk
         \<and> take 8 blk = [49, 46, 50, 46, 56, 52, 48, 0]"
proof -
  have e: "oid_text [1, 2, 840] = [49, 46, 50, 46, 56, 52, 48]" "oid_der [1, 2, 840] = [0x2a, 0x86, 0x48]"
    by code_simp+
  have ok: "oid_ok [1, 2, 840]" and l: "length [49 :: u8, 46, 50, 46, 56, 52, 48] = 7" by simp_all
  have "al_total (\<lambda>_ _. Some (\<lambda>_. 0))" by (simp add: al_total_def)
  then show ?thesis using oid_der_to_text [of "[1, 2, 840]" _ 0, unfolded e l] ok by simp
qed

end
