(* ===== verification/CbbErrors.thy ===== *)
theory CbbErrors
  imports Oid
begin

text \<open>
  What a client of the builder (\<^verbatim>\<open>crypto/bytestring/cbb.c\<close>) may rely on when it does not look at every
  result: the first failure sets the flag \<open>error\<close> of the shared buffer, and from then on every addition
  through any struct of the chain fails and changes nothing.
\<close>

section \<open>Additions\<close>

text \<open>
  The calls that add to a builder. \<open>InChild\<close> is a call on the pending child, which the client
  holds by its address; an address whose struct has been flushed has no \<open>base\<close> any more.
\<close>

datatype addition =
    AddU8 u8 | AddU16 u16 | AddU16le u16 | AddU24 u32 | AddU32 u32 | AddU32le u32 | AddU64 u64 | AddU64le u64
  | AddBytes bytes | AddSpace nat | Reserve nat | Flush
  | OpenU8 | OpenU16 | OpenU24 | OpenAsn1 u32
  | AddUint64 u64 | AddInt64 u64 | AddOctetString bytes | AddBool int | AddOid bytes nat
  | InChild addition

fun run_addition :: "malloc_env \<Rightarrow> addition \<Rightarrow> cbb_op" where
  "run_addition al (AddU8 v) = CBB_add_u8 al v"
| "run_addition al (AddU16 v) = CBB_add_u16 al v"
| "run_addition al (AddU16le v) = CBB_add_u16le al v"
| "run_addition al (AddU24 v) = CBB_add_u24 al v"
| "run_addition al (AddU32 v) = CBB_add_u32 al v"
| "run_addition al (AddU32le v) = CBB_add_u32le al v"
| "run_addition al (AddU64 v) = CBB_add_u64 al v"
| "run_addition al (AddU64le v) = CBB_add_u64le al v"
| "run_addition al (AddBytes data) = CBB_add_bytes al data"
| "run_addition al (AddSpace n) = (\<lambda>st. case CBB_add_space al n st of (out, st) \<Rightarrow> (out \<noteq> None, st))"
| "run_addition al (Reserve n) = (\<lambda>st. case CBB_reserve al n st of (out, st) \<Rightarrow> (out \<noteq> None, st))"
| "run_addition al Flush = CBB_flush al"
| "run_addition al OpenU8 = CBB_add_u8_length_prefixed al"
| "run_addition al OpenU16 = CBB_add_u16_length_prefixed al"
| "run_addition al OpenU24 = CBB_add_u24_length_prefixed al"
| "run_addition al (OpenAsn1 tag) = CBB_add_asn1 al tag"
| "run_addition al (AddUint64 v) = CBB_add_asn1_uint64 al v"
| "run_addition al (AddInt64 v) = CBB_add_asn1_int64 al v"
| "run_addition al (AddOctetString data) = CBB_add_asn1_octet_string al data"
| "run_addition al (AddBool v) = CBB_add_asn1_bool al v"
| "run_addition al (AddOid txt len) = CBB_add_asn1_oid_from_text al txt len"
| "run_addition al (InChild a) = on_child (run_addition al a)"

text \<open>A client that looks at the results only later.\<close>

fun run_additions :: "malloc_env \<Rightarrow> addition list \<Rightarrow> cbb_state \<Rightarrow> bool list \<times> cbb_state" where
  "run_additions al [] st = ([], st)"
| "run_additions al (a # as) st =
     (case run_addition al a st of (ok, st) \<Rightarrow> (case run_additions al as st of (oks, st) \<Rightarrow> (ok # oks, st)))"

text \<open>
  Additions that can fail only because of the builder: not the parser of an OID's text, and
  not a call on a child that is no longer open.
\<close>

fun can_blame_builder :: "addition \<Rightarrow> cbb \<Rightarrow> bool" where
  "can_blame_builder (AddOid txt len) c \<longleftrightarrow> False"
| "can_blame_builder (InChild a) c \<longleftrightarrow> (\<exists>ch. child c = Some ch \<and> can_blame_builder a ch)"
| "can_blame_builder _ c \<longleftrightarrow> True"

section \<open>After an error\<close>

lemma asn1_error: "error b \<Longrightarrow> CBB_add_asn1 al tag (Some b, c) = (False, (Some b, c))"
  by (simp add: CBB_add_asn1_def)

lemma int64_error:
  assumes "error b"
  shows "CBB_add_asn1_uint64 al v (Some b, c) = (False, (Some b, c))"
    and "CBB_add_asn1_int64 al v (Some b, c) = (False, (Some b, c))"
  using assms by (simp_all add: CBB_add_asn1_uint64_def CBB_add_asn1_int64_def c_and_def asn1_error)

lemma addition_NULL: "fst (run_addition al a CBB_zero) = False"
proof (induction a)
  case (InChild a)
  then show ?case by (simp add: on_child_def CBB_zero_def)
qed (simp_all add: CBB_zero_def CBB_add_u8_def CBB_add_u16_def CBB_add_u16le_def CBB_add_u24_def CBB_add_u32_def
    CBB_add_u32le_def CBB_add_u64_def CBB_add_u64le_def CBB_add_bytes_def CBB_add_space_def CBB_reserve_def
    CBB_add_u8_length_prefixed_def CBB_add_u16_length_prefixed_def CBB_add_u24_length_prefixed_def
    cbb_add_length_prefixed_def CBB_add_asn1_def CBB_add_asn1_uint64_def CBB_add_asn1_int64_def c_and_def
    CBB_add_asn1_octet_string_def CBB_add_asn1_bool_def CBB_add_asn1_oid_from_text_def)

lemma addition_error: "error b \<Longrightarrow> run_addition al a (Some b, c) = (False, (Some b, c))"
proof (induction a arbitrary: c)
  case (InChild a)
  then show ?case using addition_NULL [of al a] by (simp add: on_child_def set_child_same split: option.splits)
qed (simp_all add: ops_error CBB_add_u16le_def CBB_add_u32le_def CBB_add_u64le_def asn1_error int64_error
    CBB_add_u8_length_prefixed_def CBB_add_u16_length_prefixed_def CBB_add_u24_length_prefixed_def c_and_def
    CBB_add_asn1_octet_string_def CBB_add_asn1_bool_def CBB_add_asn1_oid_from_text_def)

lemma additions_error:
  "error b \<Longrightarrow> run_additions al as (Some b, c) = (replicate (length as) False, (Some b, c))"
  by (induction as) (simp_all add: addition_error)

section \<open>What a failure leaves\<close>

text \<open>From a chain with \<open>P\<close>, \<open>f\<close> either succeeds and leaves a chain with \<open>Q\<close>, or it sets the error flag.\<close>

definition flags :: "(cbb \<Rightarrow> bool) \<Rightarrow> (cbb \<Rightarrow> bool) \<Rightarrow> cbb_op \<Rightarrow> bool" where
  "flags P Q f \<longleftrightarrow> (\<forall>b c. P c \<longrightarrow> (\<exists>r b' c'. f (Some b, c) = (r, (Some b', c')) \<and> (if r then Q c' else error b')))"

abbreviation any :: "cbb \<Rightarrow> bool" where
  "any \<equiv> \<lambda>_. True"

abbreviation has_child :: "cbb \<Rightarrow> bool" where
  "has_child \<equiv> \<lambda>c. \<exists>ch. child c = Some ch"

lemma flagsI:
  assumes "\<And>b c r base c'. P c \<Longrightarrow> f (Some b, c) = (r, (base, c')) \<Longrightarrow> \<exists>b'. base = Some b' \<and> (if r then Q c' else error b')"
  shows "flags P Q f"
  unfolding flags_def using assms by (metis surj_pair)

lemma flagsD:
  assumes "flags P Q f" "P c" "f (Some b, c) = (r, (base, c'))"
  shows "\<exists>b'. base = Some b' \<and> (if r then Q c' else error b')"
  using assms unfolding flags_def by (metis Pair_inject)

lemma flags_c_and:
  assumes "flags P Q f" "flags Q R g"
  shows "flags P R (c_and f g)"
proof (rule flagsI)
  fix b c r base c'
  assume P: "P c" and run: "c_and f g (Some b, c) = (r, (base, c'))"
  obtain r1 base1 c1 where f: "f (Some b, c) = (r1, (base1, c1))" by (metis surj_pair)
  from flagsD [OF assms(1) P f] obtain b1 where b1: "base1 = Some b1" "if r1 then Q c1 else error b1" by blast
  show "\<exists>b'. base = Some b' \<and> (if r then R c' else error b')"
  proof (cases r1)
    case True
    with run b1 flagsD [OF assms(2), of c1 b1 r base c'] show ?thesis by (simp add: c_and_def f)
  next
    case False
    with run b1 show ?thesis by (auto simp: c_and_def f)
  qed
qed

lemma flags_return: "flags P P (\<lambda>st. (True, st))"
  by (rule flagsI) simp

lemma flags_any: "flags P Q f \<Longrightarrow> flags P any f"
  by (rule flagsI) (auto dest: flagsD split: if_splits)

lemma flags_pre: "flags any Q f \<Longrightarrow> flags P Q f"
  by (simp add: flags_def)

lemma flags_on_child:
  assumes "flags any any f"
  shows "flags has_child has_child (on_child f)"
proof (rule flagsI)
  fix b c r base c'
  assume "has_child c" and run: "on_child f (Some b, c) = (r, (base, c'))"
  then obtain ch where ch: "child c = Some ch" by auto
  obtain r1 base1 c1 where f: "f (Some b, ch) = (r1, (base1, c1))" by (metis surj_pair)
  have "child (set_child (Some c1) c) = Some c1" by (cases c) simp
  then show "\<exists>b'. base = Some b' \<and> (if r then has_child c' else error b')"
    using flagsD [OF assms _ f] run by (auto simp: on_child_def ch f split: if_splits)
qed

lemma reserve_flags:
  "cbb_buffer_reserve al (Some b) len = (out, base) \<Longrightarrow> \<exists>b'. base = Some b' \<and> (out = None \<longrightarrow> error b')"
  by (auto simp: cbb_buffer_reserve_def Let_def split: if_splits option.splits)

lemma add_flags:
  "cbb_buffer_add al (Some b) len = (out, base) \<Longrightarrow> \<exists>b'. base = Some b' \<and> (out = None \<longrightarrow> error b')"
  by (auto simp: cbb_buffer_add_def split: prod.splits option.splits dest!: reserve_flags)

lemma add_u_flags:
  "cbb_buffer_add_u al (Some b) v len = (r, base) \<Longrightarrow> \<exists>b'. base = Some b' \<and> (\<not> r \<longrightarrow> error b')"
  by (auto simp: cbb_buffer_add_u_def split: prod.splits option.splits if_splits dest!: add_flags)

lemma flush_flags: "flags any any (CBB_flush al)"
proof (rule flagsI)
  fix b c r base c'
  show "CBB_flush al (Some b, c) = (r, (base, c')) \<Longrightarrow> \<exists>b'. base = Some b' \<and> (if r then True else error b')"
  proof (induction c arbitrary: b r base c')
    case (CBB ic off pll asn1 ch)
    show ?case
    proof (cases ch)
      case None
      with CBB.prems show ?thesis by (auto split: if_splits)
    next
      case (Some d)
      obtain r1 base1 d1 where d: "CBB_flush al (Some b, d) = (r1, (base1, d1))" by (metis surj_pair)
      from CBB.IH [OF _ d] Some obtain b1 where "base1 = Some b1" by auto
      with CBB.prems show ?thesis
        by (auto simp: Some d Let_def split: if_splits prod.splits bool.splits)
    qed
  qed
qed

lemma flush_result:
  "CBB_flush al (Some b, c) = (r, (base, c1)) \<Longrightarrow> \<exists>b1. base = Some b1 \<and> (\<not> r \<longrightarrow> error b1)"
  by (drule flagsD [OF flush_flags TrueI]) (auto split: if_splits)

lemma fixed_width_flags:
  "flags any any (CBB_add_u8 al v8)" "flags any any (CBB_add_u16 al v16)" "flags any any (CBB_add_u24 al v24)"
  "flags any any (CBB_add_u32 al v32)" "flags any any (CBB_add_u64 al v64)"
  by (rule flagsI; auto simp: CBB_add_u8_def CBB_add_u16_def CBB_add_u24_def CBB_add_u32_def CBB_add_u64_def
      split: prod.splits bool.splits if_splits dest!: flush_result add_u_flags)+

lemma bytes_flags:
  "flags any any (CBB_add_bytes al data)"
  "flags any any (\<lambda>st. case CBB_add_space al n st of (out, st) \<Rightarrow> (out \<noteq> None, st))"
  "flags any any (\<lambda>st. case CBB_reserve al n st of (out, st) \<Rightarrow> (out \<noteq> None, st))"
  by (rule flagsI; auto simp: CBB_add_bytes_def CBB_add_space_def CBB_reserve_def
      split: prod.splits bool.splits if_splits option.splits dest!: flush_result add_flags reserve_flags)+

lemma open_flags: "flags any has_child (cbb_add_length_prefixed al n)"
  by (rule flagsI) (auto simp: cbb_add_length_prefixed_def Let_def
      split: prod.splits bool.splits if_splits option.splits dest!: flush_result add_flags)

lemma base128_flags: "flags any any (add_base128_integer al v)"
proof -
  have "flags any any (add_base128_loop al v n)" for n
    by (induction n) (auto simp: flags_return Let_def simp del: c_and_True intro!: flags_c_and fixed_width_flags)
  then show ?thesis by (simp add: add_base128_integer_def Let_def)
qed

text \<open>\<open>CBB_add_asn1\<close> as a sequence: the tag, a length octet, the new child.\<close>

lemma asn1_flags: "flags any has_child (CBB_add_asn1 al tag)"
proof (rule flagsI)
  fix b c r base c'
  let ?tag_bits = "(ucast (drop_bit 24 tag AND 0xe0) :: u8)" and ?tag_number = "tag AND 0x1fffffff"
  define put where "put = (if ?tag_number \<ge> 0x1f then c_and (CBB_add_u8 al (?tag_bits OR 0x1f)) (add_base128_integer al (ucast ?tag_number))
     else CBB_add_u8 al (ucast (ucast ?tag_bits OR ?tag_number)))"
  have put: "flags any any put"
    by (auto simp: put_def intro!: flags_c_and fixed_width_flags base128_flags)
  assume run: "CBB_add_asn1 al tag (Some b, c) = (r, (base, c'))"
  obtain r1 base1 c1 where fl: "CBB_flush al (Some b, c) = (r1, (base1, c1))" by (metis surj_pair)
  obtain b1 where b1: "base1 = Some b1" "\<not> r1 \<longrightarrow> error b1" using flush_result [OF fl] by blast
  obtain r2 base2 c2 where p: "put (Some b1, c1) = (r2, (base2, c2))" by (metis surj_pair)
  obtain b2 where b2: "base2 = Some b2" "\<not> r2 \<longrightarrow> error b2" using flagsD [OF put _ p] by (auto split: if_splits)
  obtain r3 base3 c3 where z: "CBB_add_u8 al 0 (Some b2, c2) = (r3, (base3, c3))" by (metis surj_pair)
  obtain b3 where b3: "base3 = Some b3" "\<not> r3 \<longrightarrow> error b3"
    using flagsD [OF fixed_width_flags(1) _ z] by (auto split: if_splits)
  from run show "\<exists>b'. base = Some b' \<and> (if r then has_child c' else error b')"
    using fl p z b1(2) b2(2) b3(2) unfolding b1(1) b2(1) b3(1)
    by (auto simp: CBB_add_asn1_def put_def Let_def split: if_splits bool.splits)
qed

lemma uint64_loop_flags:
  assumes "has_child c" "add_uint64_loop al v is started (Some b, c) = ((r, s), (base, c'))"
  shows "\<exists>b'. base = Some b' \<and> (if r then has_child c' else error b')"
  using assms
proof (induction "is" arbitrary: b c started)
  case Nil
  then show ?case by auto
next
  case (Cons i "is")
  have u8: "flags has_child has_child (on_child (CBB_add_u8 al w))" for w
    by (rule flags_on_child) (rule fixed_width_flags)
  define byte where "byte = (ucast (drop_bit (8 * (7 - i)) v AND 0xff) :: u8)"
  show ?case
  proof (cases "\<not> started \<and> byte = 0")
    case True
    with Cons show ?thesis by (simp add: byte_def)
  next
    case False
    define pad where "pad = (if \<not> started \<and> byte AND 0x80 \<noteq> 0 then on_child (CBB_add_u8 al 0) else (\<lambda>st. (True, st)))"
    have pad: "flags has_child has_child pad" by (simp add: pad_def u8 flags_return)
    obtain r1 base1 c1 where p: "pad (Some b, c) = (r1, (base1, c1))" by (metis surj_pair)
    obtain b1 where b1: "base1 = Some b1" "if r1 then has_child c1 else error b1"
      using flagsD [OF pad Cons.prems(1) p] by blast
    obtain r2 base2 c2 where w: "on_child (CBB_add_u8 al byte) (Some b1, c1) = (r2, (base2, c2))" by (metis surj_pair)
    have run: "((r, s), (base, c')) = (case pad (Some b, c) of (False, st) \<Rightarrow> ((False, started), st)
       | (True, st) \<Rightarrow> (case on_child (CBB_add_u8 al byte) st of (False, st) \<Rightarrow> ((False, True), st)
            | (True, st) \<Rightarrow> add_uint64_loop al v is True st))"
    proof -
      have "pad (Some b, c) = (if \<not> started \<and> byte AND 0x80 \<noteq> 0 then on_child (CBB_add_u8 al 0) (Some b, c) else (True, (Some b, c)))"
        by (simp add: pad_def)
      with Cons.prems(2) [symmetric] False show ?thesis
        by (simp only: add_uint64_loop.simps Let_def byte_def [symmetric] if_False)
    qed
    show ?thesis
    proof (cases r1)
      case False
      with run b1 show ?thesis by (auto simp: p)
    next
      case True
      with b1 flagsD [OF u8 _ w] obtain b2 where b2: "base2 = Some b2" "if r2 then has_child c2 else error b2" by auto
      with run True b1 Cons.IH [of c2 True b2] show ?thesis by (cases r2) (auto simp: p w)
    qed
  qed
qed

lemma uint64_flags: "flags any any (CBB_add_asn1_uint64 al v)"
proof (rule flagsI)
  fix b c r base c'
  assume run: "CBB_add_asn1_uint64 al v (Some b, c) = (r, (base, c'))"
  obtain r1 base1 c1 where o: "CBB_add_asn1 al 2 (Some b, c) = (r1, (base1, c1))" by (metis surj_pair)
  obtain b1 where b1: "base1 = Some b1" "if r1 then has_child c1 else error b1" using flagsD [OF asn1_flags _ o] by auto
  show "\<exists>b'. base = Some b' \<and> (if r then True else error b')"
  proof (cases r1)
    case False
    with run o b1 show ?thesis by (auto simp: CBB_add_asn1_uint64_def)
  next
    case True
    obtain r2 s base2 c2 where l: "add_uint64_loop al v [0..<8] False (Some b1, c1) = ((r2, s), (base2, c2))" by (metis surj_pair)
    obtain b2 where b2: "base2 = Some b2" "if r2 then has_child c2 else error b2"
      using uint64_loop_flags [OF _ l] True b1(2) by auto
    define fin where "fin = c_and (if \<not> s then on_child (CBB_add_u8 al 0) else (\<lambda>st. (True, st))) (CBB_flush al)"
    have "flags has_child any fin"
      unfolding fin_def
      by (rule flags_c_and [OF _ flags_pre [OF flush_flags]]) (auto intro: flags_on_child fixed_width_flags flags_return)
    note fin = flagsD [OF this]
    show ?thesis
    proof (cases r2)
      case False
      with run o b1 True l b2 show ?thesis by (auto simp: CBB_add_asn1_uint64_def)
    next
      case True2: True
      with run o b1 True l b2 have "fin (Some b2, c2) = (r, (base, c'))"
        by (simp add: CBB_add_asn1_uint64_def fin_def)
      with fin [of c2 b2] b2 True2 show ?thesis by auto
    qed
  qed
qed

lemma on_child_then_flush: "flags any any f \<Longrightarrow> flags has_child any (c_and (on_child f) (CBB_flush al))"
  by (rule flags_c_and [OF flags_on_child flags_pre [OF flush_flags]])

lemma int64_flags: "flags any any (CBB_add_asn1_int64 al v)"
proof (cases "sint v \<ge> 0")
  case True
  then show ?thesis using uint64_flags by (simp add: CBB_add_asn1_int64_def flags_def)
next
  case False
  have "flags has_child has_child (add_bytes_down al v n)" for n
    by (induction n) (auto simp: flags_return simp del: c_and_True intro!: flags_c_and flags_on_child fixed_width_flags)
  then have "flags has_child any (c_and (add_bytes_down al v n) (CBB_flush al))" for n
    by (rule flags_c_and [OF _ flags_pre [OF flush_flags]])
  with False show ?thesis by (simp only: CBB_add_asn1_int64_def if_False flags_c_and [OF asn1_flags])
qed

lemma plain_addition_flags:
  "\<forall>txt len. a \<noteq> AddOid txt len \<Longrightarrow> \<forall>a'. a \<noteq> InChild a' \<Longrightarrow> flags any any (run_addition al a)"
  by (cases a) (simp_all del: not_None_eq add: fixed_width_flags bytes_flags flush_flags flags_any [OF open_flags] flags_any [OF asn1_flags]
      uint64_flags int64_flags flags_c_and [OF asn1_flags on_child_then_flush] CBB_add_u16le_def CBB_add_u32le_def
      CBB_add_u64le_def CBB_add_u8_length_prefixed_def CBB_add_u16_length_prefixed_def CBB_add_u24_length_prefixed_def
      CBB_add_asn1_octet_string_def CBB_add_asn1_bool_def)

lemma addition_flags:
  "can_blame_builder a c \<Longrightarrow> run_addition al a (Some b, c) = (False, (base, c')) \<Longrightarrow> \<exists>b'. base = Some b' \<and> error b'"
proof (induction a arbitrary: c c')
  case (InChild a)
  then obtain ch where ch: "child c = Some ch" "can_blame_builder a ch" by auto
  obtain r base1 c1 where r: "run_addition al a (Some b, ch) = (r, (base1, c1))" by (metis surj_pair)
  with InChild.prems(2) ch(1) have "\<not> r" "base1 = base" by (auto simp: on_child_def)
  with InChild.IH [OF ch(2)] r show ?case by simp
qed (drule flagsD [OF plain_addition_flags, rotated 3]; simp)+

section \<open>Properties\<close>

text \<open>
  C35: A client may postpone looking at the results. On a builder in any state, once one of the calls of
  \<open>addition\<close> on it or on one of its open children has failed - because a fixed buffer is full, an allocation
  is refused, or a length or a value does not fit -, every later one of these calls, at any level, fails and changes
  nothing, and \<open>CBB_finish\<close> fails and changes nothing. These calls are the fixed-width integers of both byte orders,
  bytes, space, reservations, flushes, the length-prefixed and ASN.1 children, and the ASN.1 integers,
  octet strings, booleans and object identifiers. The first failure must be the builder's: a failing
  \<open>CBB_add_asn1_oid_from_text\<close>, which may only mean a malformed text, and a call on a child that is no longer open
  do not count as the first failure, but they are among the calls that fail after it.
\<close>

theorem failure_is_sticky:
  assumes "run_addition al a (Some b, c) = (False, st)" and "can_blame_builder a c"
  shows "run_additions al later st = (replicate (length later) False, st)
    \<and> CBB_finish al od ol st = ((False, None, None), st)"
proof -
  obtain base c' where st: "st = (base, c')" by (rule prod.exhaust)
  obtain b' where "base = Some b'" "error b'" using addition_flags [OF assms(2), of al b base c'] assms(1) by (auto simp: st)
  then show ?thesis by (simp add: st additions_error ops_error(10))
qed

theorem failure_is_sticky_witness:
  "let b = \<lparr>buf = [0x30, 0], blen = 2, cap = 2, can_resize = False, error = False, reqs = 0\<rparr>;
       c = CBB False 0 0 False (Some (CBB True 1 1 True None));
       (ok, st) = run_addition (\<lambda>_ _. None) (InChild (AddU8 1)) (Some b, c)
   in \<not> ok \<and> run_additions (\<lambda>_ _. None) [InChild (AddU8 7), AddOid [] 0, AddInt64 5] st = ([False, False, False], st)
      \<and> CBB_finish (\<lambda>_ _. None) True True st = ((False, None, None), st)"
proof -
  define b where "b = \<lparr>buf = [0x30, 0 :: u8], blen = 2, cap = 2, can_resize = False, error = False, reqs = 0\<rparr>"
  define c where "c = CBB False 0 0 False (Some (CBB True 1 1 True None))"
  obtain st where run: "run_addition (\<lambda>_ _. None) (InChild (AddU8 1)) (Some b, c) = (False, st)"
  proof -
    have "fst (run_addition (\<lambda>_ _. None) (InChild (AddU8 1)) (Some b, c)) = False"
      by (simp add: b_def c_def on_child_def CBB_add_u8_def cbb_buffer_add_u_def cbb_buffer_add_def cbb_buffer_reserve_def)
    with that show ?thesis by (metis prod.collapse)
  qed
  have "can_blame_builder (InChild (AddU8 1)) c" by (simp add: c_def)
  from failure_is_sticky [OF run this, of "[InChild (AddU8 7), AddOid [] 0, AddInt64 5]" True True]
  show ?thesis unfolding Let_def b_def [symmetric] c_def [symmetric] run
    by (simp del: run_additions.simps run_addition.simps)
qed

end
