(* ===== verification/Qsort.thy ===== *)
theory Qsort
  imports Prelude "HOL-Library.Multiset"
begin

text \<open>
  Sorting by a C comparison function. C fixes neither the algorithm of \<open>qsort\<close> nor the order of
  elements that compare equal, so what a client may rely on is an interface: \<open>sorting\<close> says that the
  result is a sorted permutation whenever the comparison function is a \<open>comparator\<close> on the elements.
  \<open>c_qsort\<close>, an insertion sort, is the executable instance.
\<close>

abbreviation sorted_by :: "('a \<Rightarrow> 'a \<Rightarrow> int) \<Rightarrow> 'a list \<Rightarrow> bool" where
  "sorted_by cmp \<equiv> sorted_wrt (\<lambda>x y. cmp x y \<le> 0)"

fun qsort_insert :: "('a \<Rightarrow> 'a \<Rightarrow> int) \<Rightarrow> 'a \<Rightarrow> 'a list \<Rightarrow> 'a list" where
  "qsort_insert cmp x [] = [x]"
| "qsort_insert cmp x (y # ys) = (if cmp x y \<le> 0 then x # y # ys else y # qsort_insert cmp x ys)"

definition c_qsort :: "('a \<Rightarrow> 'a \<Rightarrow> int) \<Rightarrow> 'a list \<Rightarrow> 'a list" where
  "c_qsort cmp xs = foldr (qsort_insert cmp) xs []"

text \<open>What the C standard asks of a comparison function, on the elements \<open>S\<close> that are compared.\<close>

locale comparator =
  fixes cmp :: "'a \<Rightarrow> 'a \<Rightarrow> int" and S :: "'a set"
  assumes sign: "x \<in> S \<Longrightarrow> y \<in> S \<Longrightarrow> sgn (cmp y x) = - sgn (cmp x y)"
    and trans: "x \<in> S \<Longrightarrow> y \<in> S \<Longrightarrow> z \<in> S \<Longrightarrow> cmp x y \<le> 0 \<Longrightarrow> cmp y z \<le> 0 \<Longrightarrow> cmp x z \<le> 0"
begin

lemma flip: "x \<in> S \<Longrightarrow> y \<in> S \<Longrightarrow> cmp y x \<le> 0 \<longleftrightarrow> 0 \<le> cmp x y"
  using sign [of x y] by (auto simp: sgn_if split: if_splits)

lemma total: "x \<in> S \<Longrightarrow> y \<in> S \<Longrightarrow> cmp x y \<le> 0 \<or> cmp y x \<le> 0"
  using flip [of x y] by linarith

lemma less_trans: "x \<in> S \<Longrightarrow> y \<in> S \<Longrightarrow> z \<in> S \<Longrightarrow> cmp x y < 0 \<Longrightarrow> cmp y z \<le> 0 \<Longrightarrow> cmp x z < 0"
  using trans [of x y z] trans [of y z x] flip [of x z] flip [of x y] by force

lemma set_insert: "set (qsort_insert cmp x ys) = insert x (set ys)"
  by (induction ys) auto

lemma mset_insert: "mset (qsort_insert cmp x ys) = add_mset x (mset ys)"
  by (induction ys) auto

lemma sorted_insert:
  "x \<in> S \<Longrightarrow> set ys \<subseteq> S \<Longrightarrow> sorted_by cmp ys \<Longrightarrow> sorted_by cmp (qsort_insert cmp x ys)"
proof (induction ys)
  case (Cons y ys)
  then have "cmp x y \<le> 0 \<Longrightarrow> \<forall>z\<in>set ys. cmp x z \<le> 0" using trans [of x y] by auto
  then show ?case using Cons total [of x y] by (auto simp: set_insert)
qed simp

lemma qsort_mset: "mset (c_qsort cmp xs) = mset xs"
  by (induction xs) (simp_all add: c_qsort_def mset_insert)

lemma qsort_sorted: "set xs \<subseteq> S \<Longrightarrow> sorted_by cmp (c_qsort cmp xs)"
proof (induction xs)
  case (Cons x xs)
  have "set (c_qsort cmp xs) = set xs" using qsort_mset by (metis set_mset_mset)
  with Cons show ?case by (simp add: c_qsort_def sorted_insert)
qed (simp add: c_qsort_def)

end

text \<open>When only equal elements compare equal, there is one sorted order.\<close>

locale order_comparator = comparator +
  assumes antisym: "x \<in> S \<Longrightarrow> y \<in> S \<Longrightarrow> cmp x y = 0 \<Longrightarrow> x = y"
begin

lemma sorted_unique:
  assumes "sorted_by cmp xs" and "sorted_by cmp ys" and "mset xs = mset ys" and "set xs \<subseteq> S"
  shows "xs = ys"
  using assms
proof (induction xs arbitrary: ys)
  case (Cons x xs)
  then obtain y zs where ys: "ys = y # zs" by (cases ys) auto
  have m: "x \<in> set ys" "y \<in> set (x # xs)"
    using Cons.prems(3) ys by (metis list.set_intros(1) set_mset_mset)+
  then have s: "x \<in> S" "y \<in> S" using Cons.prems(4) by auto
  have "cmp y x \<le> 0" "cmp x y \<le> 0"
    using Cons.prems(1,2) ys m total [OF s(1) s(1)] by auto
  then have "x = y" using s flip [OF s] by (intro antisym) auto
  then show ?case using Cons ys by simp
qed simp

end

text \<open>A \<open>qsort\<close>: a sorted permutation, for every comparison function that is one.\<close>

locale sorting =
  fixes qsort :: "('a \<Rightarrow> 'a \<Rightarrow> int) \<Rightarrow> 'a list \<Rightarrow> 'a list"
  assumes permutes: "mset (qsort cmp xs) = mset xs"
    and sorts: "comparator cmp (set xs) \<Longrightarrow> sorted_by cmp (qsort cmp xs)"
begin

lemma qsort_set: "set (qsort cmp xs) = set xs"
  using permutes by (metis set_mset_mset)

lemma qsort_length: "length (qsort cmp xs) = length xs"
  using permutes by (metis size_mset)

end

lemma mset_qsort_insert: "mset (qsort_insert cmp x ys) = add_mset x (mset ys)"
  by (induction ys) auto

lemma mset_c_qsort: "mset (c_qsort cmp xs) = mset xs"
  by (induction xs) (simp_all add: c_qsort_def mset_qsort_insert)

interpretation insertion: sorting c_qsort
  by unfold_locales (simp_all add: mset_c_qsort comparator.qsort_sorted)

end
