(* ===== verification/SetOf.thy ===== *)
theory SetOf
  imports Asn1Build Qsort
begin

text \<open>
  \<open>CBB_flush_asn1_set_of\<close> of \<^verbatim>\<open>crypto/bytestring/cbb.c\<close>: sorting the elements of a SET OF into the
  order DER asks for.
\<close>

text \<open>
  \<open>memcmp\<close> of the first \<open>n\<close> bytes; C fixes the sign of the result only, and the caller uses the
  sign only.
\<close>

fun c_memcmp :: "bytes \<Rightarrow> bytes \<Rightarrow> nat \<Rightarrow> int" where
  "c_memcmp (a # as) (b # bs) (Suc n) = (if a = b then c_memcmp as bs n else if a < b then - 1 else 1)"
| "c_memcmp _ _ _ = 0"

definition compare_set_of_element :: "cbs \<Rightarrow> cbs \<Rightarrow> int" where
  "compare_set_of_element a b =
     (let a_len = length a; b_len = length b;
          min_len = (if a_len < b_len then a_len else b_len);
          ret = c_memcmp a b min_len
      in if ret \<noteq> 0 then ret
         else if a_len = b_len then 0
         else if a_len < b_len then - 1 else 1)"

text \<open>The loop that counts the elements. A successful read consumes at least a tag octet.\<close>

function count_elements :: "cbs \<Rightarrow> nat option" where
  "count_elements cbs =
     (if length cbs \<noteq> 0
      then case CBS_get_any_asn1_element cbs of
             (None, _) \<Rightarrow> None
           | (Some _, cbs) \<Rightarrow> map_option Suc (count_elements cbs)
      else Some 0)"
  by auto

termination count_elements
proof (relation "measure length", goal_cases)
  case (2 cbs x rest elt)
  moreover obtain c t hl where "elt = (c, t, hl)" by (cases elt) auto
  ultimately have "CBS_get_any_asn1_element cbs = (Some (c, t, hl), rest)" by metis
  then show ?case
    by (auto simp: CBS_get_any_asn1_element_iff der_element_def)
qed simp

declare count_elements.simps [simp del]

primrec read_elements :: "nat \<Rightarrow> cbs \<Rightarrow> cbs list option" where
  "read_elements 0 cbs = Some []"
| "read_elements (Suc n) cbs =
     (case CBS_get_any_asn1_element cbs of
        (None, _) \<Rightarrow> None
      | (Some (c, _, _), cbs) \<Rightarrow> map_option ((#) c) (read_elements n cbs))"

primrec add_all_bytes :: "malloc_env \<Rightarrow> cbs list \<Rightarrow> cbb_op" where
  "add_all_bytes al [] = (\<lambda>st. (True, st))"
| "add_all_bytes al (c # cs) = c_and (CBB_add_bytes al c) (add_all_bytes al cs)"

text \<open>
  The two temporary blocks are requests \<open>reqs b\<close> and \<open>reqs b + 1\<close>; \<^verbatim>\<open>sizeof(CBS)\<close> is 16.
\<close>

definition CBB_flush_asn1_set_of :: "malloc_env \<Rightarrow> cbb_op" where
  "CBB_flush_asn1_set_of al st =
     (case CBB_flush al st of
        (False, st) \<Rightarrow> (False, st)
      | (True, st) \<Rightarrow>
          (case (fst st, CBB_data st, CBB_len st) of
             (Some b, Some data, Some len) \<Rightarrow>
               (let cbs = CBS_init (drop data (buf b)) len in
                case count_elements cbs of
                  None \<Rightarrow> (False, st)
                | Some num_children \<Rightarrow>
                    (if num_children < 2 then (True, st)
                     else if num_children > (2 ^ 64 - 1) div 16 then (False, st)
                     else
                       (let st = (Some (b\<lparr>reqs := reqs b + 2\<rparr>), snd st) in
                        case (OPENSSL_memdup al (reqs b) cbs,
                              OPENSSL_malloc al (reqs b + 1) (num_children * 16)) of
                          (Some copy, Some _) \<Rightarrow>
                            (case read_elements num_children (CBS_init copy len) of
                               None \<Rightarrow> (False, st)
                             | Some children \<Rightarrow>
                                 add_all_bytes al (c_qsort compare_set_of_element children)
                                   (Some (b\<lparr>reqs := reqs b + 2, blen := offset (snd st) + pending_len_len (snd st)\<rparr>),
                                    snd st))
                        | _ \<Rightarrow> (False, st))))
           | _ \<Rightarrow> (False, st)))"

section \<open>The order\<close>

text \<open>Lexicographic order of byte strings, a proper prefix first (X.690, 11.6).\<close>

fun lex_le :: "bytes \<Rightarrow> bytes \<Rightarrow> bool" where
  "lex_le [] bs = True"
| "lex_le (a # as) [] = False"
| "lex_le (a # as) (b # bs) = (a < b \<or> (a = b \<and> lex_le as bs))"

lemma compare_Cons:
  "compare_set_of_element (a # as) (b # bs)
   = (if a = b then compare_set_of_element as bs else if a < b then - 1 else 1)"
  by (simp add: compare_set_of_element_def Let_def)

lemma compare_le: "compare_set_of_element as bs \<le> 0 \<longleftrightarrow> lex_le as bs"
proof (induction as bs rule: lex_le.induct)
  case (1 bs)
  then show ?case by (simp add: compare_set_of_element_def Let_def)
next
  case (2 a as)
  then show ?case by (simp add: compare_set_of_element_def Let_def)
next
  case (3 a as b bs)
  then show ?case by (simp add: compare_Cons)
qed

lemma lex_le_refl [simp]: "lex_le as as"
  by (induction as) simp_all

lemma lex_le_total: "lex_le as bs \<or> lex_le bs as"
  by (induction as bs rule: lex_le.induct) auto

lemma lex_le_trans: "lex_le as bs \<Longrightarrow> lex_le bs cs \<Longrightarrow> lex_le as cs"
proof (induction as bs arbitrary: cs rule: lex_le.induct)
  case (3 a as b bs)
  then show ?case by (cases cs) auto
qed simp_all

lemma lex_le_Nil [simp]: "lex_le as [] \<longleftrightarrow> as = []"
  by (cases as) simp_all

lemma lex_le_antisym: "lex_le as bs \<Longrightarrow> lex_le bs as \<Longrightarrow> as = bs"
  by (induction as bs rule: lex_le.induct) auto

text \<open>The comparison function is a comparator, and only equal elements compare equal.\<close>

lemma compare_sign: "compare_set_of_element bs as = - compare_set_of_element as bs"
proof (induction as bs rule: lex_le.induct)
  case (1 bs)
  then show ?case by (simp add: compare_set_of_element_def Let_def)
next
  case (2 a as)
  then show ?case by (simp add: compare_set_of_element_def Let_def)
next
  case (3 a as b bs)
  then show ?case by (auto simp: compare_Cons)
qed

lemma compare_zero: "compare_set_of_element as bs = 0 \<Longrightarrow> as = bs"
  using compare_le [of as bs] compare_le [of bs as] compare_sign [of as bs] lex_le_antisym by simp

interpretation set_of: order_comparator compare_set_of_element UNIV
proof
  show "sgn (compare_set_of_element y x) = - sgn (compare_set_of_element x y)" for x y
    by (subst compare_sign) (rule sgn_minus)
  show "compare_set_of_element x z \<le> 0"
    if "compare_set_of_element x y \<le> 0" "compare_set_of_element y z \<le> 0" for x y z
    using that lex_le_trans [of x y z] by (simp add: compare_le)
qed (rule compare_zero)

section \<open>Splitting the contents\<close>

definition is_element :: "bytes \<Rightarrow> bool" where
  "is_element e \<longleftrightarrow> (\<exists>t c. length c < 2 ^ 32 \<and> e = der_element t c)"

lemma get_element:
  assumes "is_element e"
  shows "\<exists>t hl. CBS_get_any_asn1_element (e @ rest) = (Some (e, t, hl), rest)"
  using assms by (auto simp: is_element_def CBS_get_any_asn1_element_iff)

lemma element_nonempty: "is_element e \<Longrightarrow> e \<noteq> []"
  by (auto simp: is_element_def der_element_def)

lemma count_elements_concat:
  "\<forall>e\<in>set els. is_element e \<Longrightarrow> count_elements (concat els) = Some (length els)"
proof (induction els)
  case Nil
  show ?case by (subst count_elements.simps) simp
next
  case (Cons e els)
  then obtain t hl where "CBS_get_any_asn1_element (e @ concat els) = (Some (e, t, hl), concat els)"
    using get_element [of e "concat els"] by auto
  then show ?case
    using Cons element_nonempty [of e] by (subst count_elements.simps) simp
qed

lemma read_elements_concat:
  "\<forall>e\<in>set els. is_element e \<Longrightarrow> read_elements (length els) (concat els) = Some els"
proof (induction els)
  case (Cons e els)
  then obtain t hl where "CBS_get_any_asn1_element (e @ concat els) = (Some (e, t, hl), concat els)"
    using get_element [of e "concat els"] by auto
  then show ?case using Cons by simp
qed simp

lemma count_elements_sound:
  "count_elements cbs = Some n \<Longrightarrow> \<exists>els. cbs = concat els \<and> length els = n \<and> (\<forall>e\<in>set els. is_element e)"
proof (induction cbs arbitrary: n rule: count_elements.induct)
  case (1 cbs)
  show ?case
  proof (cases "cbs = []")
    case True
    then have "n = 0" using 1(2) by (subst (asm) count_elements.simps) simp
    then show ?thesis using True by (intro exI [of _ "[]"]) simp
  next
    case False
    obtain e t hl rest where e: "CBS_get_any_asn1_element cbs = (Some (e, t, hl), rest)"
      using 1(2) False by (subst (asm) count_elements.simps) (auto split: prod.splits option.splits)
    obtain m where m: "count_elements rest = Some m" "n = Suc m"
      using 1(2) False e by (subst (asm) count_elements.simps) auto
    obtain els where "rest = concat els" "length els = m" "\<forall>e\<in>set els. is_element e"
      using 1(1) [OF _ e [symmetric] refl m(1)] False by auto
    moreover have "is_element e" "cbs = e @ rest"
      using e by (auto simp: CBS_get_any_asn1_element_iff is_element_def)
    ultimately show ?thesis using m(2) by (intro exI [of _ "e # els"]) simp
  qed
qed
section \<open>The whole operation\<close>

lemma add_all_bytes_eq: "add_all_bytes al cs = put_all (CBB_add_bytes al) cs"
  by (induction cs) (simp_all add: put_all_Cons)

lemma add_all_appends:
  assumes "cs \<noteq> []" and "\<forall>c\<in>set cs. length c + 8 < 2 ^ 63"
  shows "appends al (add_all_bytes al cs) (concat cs)"
proof -
  obtain x xs where cs: "cs = x # xs" using assms(1) by (cases cs) auto
  have "appends al (c_and (CBB_add_bytes al x) (put_all (CBB_add_bytes al) xs)) (x @ concat (map (\<lambda>x. x) xs))"
    using assms(2) cs by (intro appends_put_all_after CBB_add_bytes_appends) auto
  then show ?thesis by (simp add: add_all_bytes_eq cs put_all_Cons)
qed

lemma memdup_bytes:
  assumes "OPENSSL_memdup al t data = Some copy"
  shows "take (length data) copy = data"
  using assms by (auto simp: OPENSSL_memdup_def split: if_splits option.splits)

lemma length_concat_mset: "mset xs = mset ys \<Longrightarrow> length (concat xs) = length (concat ys)"
  by (simp add: length_concat) (metis mset_map sum_mset_sum_list)

text \<open>
  In a builder whose struct \<open>c\<close> has the elements \<open>els\<close> as its contents (after closing what is pending),
  a successful call leaves the same elements in ascending order, and nothing else changes.
\<close>

lemma flush_asn1_set_of_sorts:
  assumes wf: "cbb_wf b c" and els: "\<forall>e\<in>set els. is_element e"
    and contents: "drop (start c) (flushed b c) = concat els"
    and res: "CBB_flush_asn1_set_of al (Some b, c) = (True, (Some b', c'))"
  shows "written b' = take (start c) (flushed b c) @ concat (c_qsort compare_set_of_element els)"
proof -
  from appendsD [OF flush_appends [of al] wf] show ?thesis
  proof (cases rule: outcome_cases)
    case (failure b1 c1)
    then show ?thesis using res by (simp add: CBB_flush_asn1_set_of_def)
  next
    case (success b1)
    define c1 where "c1 = set_child None c"
    have ch: "child c1 = None" "start c1 = start c" by (simp_all add: c1_def)
    have ok1: "buffer_ok b1" "\<not> error b1" "chain_ok (blen b1) c1" using success(3) by (simp_all add: cbb_wf_def c1_def)
    have st: "start c \<le> blen b1" using chain_start [OF ok1(3)] ch by simp
    have w1: "written b1 = flushed b c" using success(4) by simp
    have data: "CBB_data (Some b1, c1) = Some (start c)" "CBB_len (Some b1, c1) = Some (blen b1 - start c)"
      using ch st by (cases c1; simp add: CBB_data_def CBB_len_def start_def)+
    have cbs: "CBS_init (drop (start c) (buf b1)) (blen b1 - start c) = concat els"
      unfolding contents [symmetric] w1 [symmetric] by (simp add: CBS_init_def written_def drop_take)
    have cnt: "count_elements (concat els) = Some (length els)"
      using els by (rule count_elements_concat)
    have eq: "CBB_flush_asn1_set_of al (Some b, c) =
      (if length els < 2 then (True, (Some b1, c1))
       else if length els > (2 ^ 64 - 1) div 16 then (False, (Some b1, c1))
       else (let st = (Some (b1\<lparr>reqs := reqs b1 + 2\<rparr>), c1) in
             case (OPENSSL_memdup al (reqs b1) (concat els),
                   OPENSSL_malloc al (reqs b1 + 1) (length els * 16)) of
               (Some copy, Some _) \<Rightarrow>
                 (case read_elements (length els) (CBS_init copy (blen b1 - start c)) of
                    None \<Rightarrow> (False, st)
                  | Some children \<Rightarrow>
                      add_all_bytes al (c_qsort compare_set_of_element children)
                        (Some (b1\<lparr>reqs := reqs b1 + 2, blen := start c\<rparr>), c1))
             | _ \<Rightarrow> (False, st)))"
      unfolding CBB_flush_asn1_set_of_def success(1) c1_def [symmetric] prod.case bool.case fst_conv snd_conv
        data option.case Let_def cbs cnt ch(2) [unfolded start_def [of c1]]
      by simp
    show ?thesis
    proof (cases "length els < 2")
      case True
      have "c_qsort compare_set_of_element els = els"
      proof (cases els)
        case (Cons e es)
        with True have "es = []" by simp
        with Cons show ?thesis by (simp add: c_qsort_def)
      qed (simp add: c_qsort_def)
      moreover have "b' = b1" using True res eq by simp
      ultimately show ?thesis
        using w1 contents append_take_drop_id [of "start c" "flushed b c"] by simp
    next
      case False
      obtain copy m where copy: "OPENSSL_memdup al (reqs b1) (concat els) = Some copy"
          "OPENSSL_malloc al (reqs b1 + 1) (length els * 16) = Some m"
        using res eq False by (auto simp: Let_def split: option.splits if_splits)
      have "length (concat els) = blen b1 - start c"
        using contents ok1(1) w1 by (metis length_drop buffer_blen)
      then have rd: "read_elements (length els) (CBS_init copy (blen b1 - start c)) = Some els"
        using memdup_bytes [OF copy(1)] read_elements_concat [OF els] by (simp add: CBS_init_def)
      define b2 where "b2 = b1\<lparr>reqs := reqs b1 + 2, blen := start c\<rparr>"
      define srt where "srt = c_qsort compare_set_of_element els"
      have run: "add_all_bytes al srt (Some b2, c1) = (True, (Some b', c'))"
        using res eq False copy rd by (simp add: Let_def b2_def srt_def split: if_splits)
      have ms: "mset srt = mset els" unfolding srt_def by (rule set_of.qsort_mset)
      have "srt \<noteq> []" using ms False by (metis length_0_conv mset.simps(1) mset_zero_iff zero_less_numeral)
      moreover have "length e + 8 < 2 ^ 63" if "e \<in> set srt" for e
      proof -
        have "e \<in> set els" using that ms by (metis set_mset_mset)
        then have "length e \<le> length (concat els)"
          by (induction els) auto
        also have "\<dots> \<le> cap b1" using \<open>length (concat els) = _\<close> ok1(1) by (auto simp: buffer_ok_def)
        finally show ?thesis using ok1(1) by (simp add: buffer_ok_def)
      qed
      ultimately have ap: "appends al (add_all_bytes al srt) (concat srt)"
        by (intro add_all_appends) auto
      have wf2: "cbb_wf b2 c1"
        using ok1 st ch by (cases c1) (auto simp: cbb_wf_def b2_def buffer_ok_def start_def)
      have w2: "written b2 = take (start c) (flushed b c)"
        using w1 st by (simp add: b2_def written_def flip: w1)
      from appendsD [OF ap wf2] show ?thesis
      proof (cases rule: outcome_cases)
        case (success b3)
        then show ?thesis using run w2 ch by (simp add: srt_def)
      next
        case (failure b3 c3)
        then show ?thesis using run by simp
      qed
    qed
  qed
qed

section \<open>Properties\<close>

text \<open>
  C31: When the contents of the SET OF are the elements \<open>els\<close>, a successful \<open>CBB_flush_asn1_set_of\<close>
  replaces them by a permutation of the elements that is in DER order, and that order is unique.
\<close>

theorem set_of_is_sorted:
  assumes "cbb_wf b c" and "\<forall>e\<in>set els. is_element e" and "drop (start c) (flushed b c) = concat els"
    and "CBB_flush_asn1_set_of al (Some b, c) = (True, (Some b', c'))"
  shows "\<exists>es. written b' = take (start c) (flushed b c) @ concat es \<and> mset es = mset els \<and> sorted_wrt lex_le es
              \<and> (\<forall>fs. mset fs = mset els \<longrightarrow> sorted_wrt lex_le fs \<longrightarrow> fs = es)"
proof (intro exI conjI allI impI)
  show "written b' = take (start c) (flushed b c) @ concat (c_qsort compare_set_of_element els)"
    by (rule flush_asn1_set_of_sorts [OF assms])
  show "mset (c_qsort compare_set_of_element els) = mset els" by (rule set_of.qsort_mset)
  show "sorted_wrt lex_le (c_qsort compare_set_of_element els)"
    using set_of.qsort_sorted [of els, OF subset_UNIV] by (simp add: compare_le)
  show "fs = c_qsort compare_set_of_element els" if "mset fs = mset els" "sorted_wrt lex_le fs" for fs
    using that set_of.qsort_sorted [of els] set_of.qsort_mset [of els]
    by (intro set_of.sorted_unique) (simp_all add: compare_le)
qed

theorem set_of_is_sorted_witness:
  "\<exists>b' c'. CBB_flush_asn1_set_of (\<lambda>_ _. Some (\<lambda>_. 0))
       (Some \<lparr>buf = [4, 1, 9, 4, 1, 7, 2, 1, 5], blen = 9, cap = 9, can_resize = False, error = False, reqs = 0\<rparr>,
        CBB False 0 0 False None) = (True, (Some b', c')) \<and> written b' = [2, 1, 5, 4, 1, 7, 4, 1, 9]"
proof -
  define al :: malloc_env where "al = (\<lambda>_ _. Some (\<lambda>_. 0))"
  define b where "b = \<lparr>buf = [4, 1, 9, 4, 1, 7, 2, 1, 5 :: u8], blen = 9, cap = 9, can_resize = False, error = False, reqs = 0\<rparr>"
  define c where "c = CBB False 0 0 False None"
  let ?els = "[[4, 1, 9], [4, 1, 7], [2, 1, 5 :: u8]]"
  let ?es = "[[2, 1, 5 :: u8], [4, 1, 7], [4, 1, 9]]"
  have wf: "cbb_wf b c" by (simp add: b_def c_def cbb_wf_def buffer_ok_def)
  have els: "\<forall>e\<in>set ?els. is_element e" 
  proof -
    have "[4, 1, 9] = der_element 4 [9]" "[4, 1, 7] = der_element 4 [7]" "[2, 1, 5] = der_element 2 [5]"
      by code_simp+
    moreover have "is_element (der_element t [v])" for t v
      unfolding is_element_def by (rule exI [of _ t], rule exI [of _ "[v]"]) simp
    ultimately show ?thesis by simp
  qed
  have con: "drop (start c) (flushed b c) = concat ?els" "take (start c) (flushed b c) = []"
    unfolding b_def c_def by code_simp+
  have cnt: "count_elements [4, 1, 9, 4, 1, 7, 2, 1, 5] = Some 3" using count_elements_concat [OF els] by simp
  have rd: "read_elements 3 [4, 1, 9, 4, 1, 7, 2, 1, 5] = Some ?els"
    using read_elements_concat [OF els] by (simp add: eval_nat_numeral)
  define b2 where "b2 = b\<lparr>reqs := Suc (Suc 0), blen := 0\<rparr>"
  have srt: "c_qsort compare_set_of_element ?els = ?es" by code_simp
  have dup: "OPENSSL_memdup al 0 [4, 1, 9, 4, 1, 7, 2, 1, 5] = Some [4, 1, 9, 4, 1, 7, 2, 1, 5]"
    by (simp add: OPENSSL_memdup_def OPENSSL_malloc_def c_malloc_def al_def)
  have mal: "\<exists>h. OPENSSL_malloc al 1 48 = Some h" by (simp add: OPENSSL_malloc_def c_malloc_def al_def)
  have "CBB_flush_asn1_set_of al (Some b, c) = add_all_bytes al ?es (Some b2, c)"
    using cnt rd dup mal unfolding srt [symmetric]
    by (auto simp: CBB_flush_asn1_set_of_def b_def c_def b2_def CBB_data_def CBB_len_def CBS_init_def Let_def)
  moreover have "appends al (add_all_bytes al ?es) (concat ?es)" by (rule add_all_appends) simp_all
  moreover have wf2: "cbb_wf b2 c" by (simp add: b2_def b_def c_def cbb_wf_def buffer_ok_def)
  moreover have "fits al b2 (length (flushed b2 c @ concat ?es))" "flushed b2 c = []" "set_child None c = c"
    by (simp_all add: fits_def b2_def b_def c_def flushed_def start_def written_def)
  ultimately obtain b' where run: "CBB_flush_asn1_set_of al (Some b, c) = (True, (Some b', c))"
  proof -
    assume eq: "CBB_flush_asn1_set_of al (Some b, c) = add_all_bytes al ?es (Some b2, c)"
      and ap: "appends al (add_all_bytes al ?es) (concat ?es)"
      and f: "fits al b2 (length (flushed b2 c @ concat ?es))" "flushed b2 c = []" "set_child None c = c"
    from appendsD [OF ap wf2] show ?thesis
    proof (cases rule: outcome_cases)
      case (success b')
      then show ?thesis using that eq f by simp
    next
      case (failure b' c')
      then have False using f(1) by (simp only: c_def closable_leaf cbb.sel simp_thms)
      then show ?thesis ..
    qed
  qed
  have "sorted_wrt lex_le ?es" by code_simp
  moreover have "mset ?es = mset ?els" by simp
  ultimately have "written b' = concat ?es"
    using set_of_is_sorted [OF wf els con(1) run] con(2) by (metis append_Nil)
  then show ?thesis using run by (auto simp: al_def b_def c_def)
qed

end
