(* ===== verification/Unicode.thy ===== *)
theory Unicode
  imports Asn1Build
begin

text \<open>
  \<^verbatim>\<open>crypto/bytestring/unicode.c\<close>: reading and writing code points in UTF-8, Latin-1, UCS-2 and
  UTF-32. Code points are \<^verbatim>\<open>uint32_t\<close>. \<open>utf8\<close> is the encoding of the Unicode standard (table 3-6) on
  numbers, which the reader and the writer are related to.
\<close>

definition is_valid_code_point :: "u32 \<Rightarrow> bool" where
  "is_valid_code_point v =
     (if v > 0x10ffff \<or> v AND 0xfffe = 0xfffe \<or> (v \<ge> 0xfdd0 \<and> v \<le> 0xfdef) \<or> (v \<ge> 0xd800 \<and> v \<le> 0xdfff)
      then False else True)"

definition BOTTOM_BITS :: "nat \<Rightarrow> u8" where
  "BOTTOM_BITS n = ucast (push_bit n (1 :: u32) - 1)"

definition TOP_BITS :: "nat \<Rightarrow> u8" where
  "TOP_BITS n = NOT (BOTTOM_BITS (8 - n))"

primrec utf8_loop :: "nat \<Rightarrow> u32 \<Rightarrow> u32 cbs_reader" where
  "utf8_loop 0 v cbs = (Some v, cbs)"
| "utf8_loop (Suc n) v cbs =
     (case CBS_get_u8 cbs of
        (None, cbs) \<Rightarrow> (None, cbs)
      | (Some c, cbs) \<Rightarrow>
          (if c AND TOP_BITS 2 \<noteq> TOP_BITS 1 then (None, cbs)
           else utf8_loop n (push_bit 6 v OR ucast (c AND BOTTOM_BITS 6)) cbs))"

definition cbs_get_utf8 :: "u32 cbs_reader" where
  "cbs_get_utf8 cbs =
     (case CBS_get_u8 cbs of
        (None, cbs) \<Rightarrow> (None, cbs)
      | (Some c, cbs) \<Rightarrow>
          (if c \<le> 0x7f then (Some (ucast c), cbs)
           else
             (let start = (if c AND TOP_BITS 3 = TOP_BITS 2 then Some (ucast (c AND BOTTOM_BITS 5), 1, 0x80)
                           else if c AND TOP_BITS 4 = TOP_BITS 3 then Some (ucast (c AND BOTTOM_BITS 4), 2, 0x800)
                           else if c AND TOP_BITS 5 = TOP_BITS 4 then Some (ucast (c AND BOTTOM_BITS 3), 3, 0x10000)
                           else None)
              in case start of
                   None \<Rightarrow> (None, cbs)
                 | Some (v, len, lower_bound) \<Rightarrow>
                     (case utf8_loop len v cbs of
                        (None, cbs) \<Rightarrow> (None, cbs)
                      | (Some v, cbs) \<Rightarrow>
                          (if \<not> is_valid_code_point v \<or> v < lower_bound then (None, cbs)
                           else (Some v, cbs))))))"

definition cbs_get_latin1 :: "u32 cbs_reader" where
  "cbs_get_latin1 cbs =
     (case CBS_get_u8 cbs of (None, cbs) \<Rightarrow> (None, cbs) | (Some c, cbs) \<Rightarrow> (Some (ucast c), cbs))"

definition cbs_get_ucs2_be :: "u32 cbs_reader" where
  "cbs_get_ucs2_be cbs =
     (case CBS_get_u16 cbs of
        (None, cbs) \<Rightarrow> (None, cbs)
      | (Some c, cbs) \<Rightarrow> (if \<not> is_valid_code_point (ucast c) then (None, cbs) else (Some (ucast c), cbs)))"

definition cbs_get_utf32_be :: "u32 cbs_reader" where
  "cbs_get_utf32_be cbs =
     (case CBS_get_u32 cbs of
        (None, cbs) \<Rightarrow> (None, cbs)
      | (Some v, cbs) \<Rightarrow> (if is_valid_code_point v then (Some v, cbs) else (None, cbs)))"

definition cbb_get_utf8_len :: "u32 \<Rightarrow> nat" where
  "cbb_get_utf8_len u = (if u \<le> 0x7f then 1 else if u \<le> 0x7ff then 2 else if u \<le> 0xffff then 3 else 4)"

text \<open>The argument of \<open>CBB_add_u8\<close> is an \<^verbatim>\<open>unsigned\<close> that is truncated.\<close>

definition top_or :: "nat \<Rightarrow> u32 \<Rightarrow> u8" where
  "top_or n w = ucast (ucast (TOP_BITS n) OR w)"

definition cbb_add_utf8 :: "malloc_env \<Rightarrow> u32 \<Rightarrow> cbb_op" where
  "cbb_add_utf8 al u =
     (if \<not> is_valid_code_point u then (\<lambda>st. (False, st))
      else if u \<le> 0x7f then CBB_add_u8 al (ucast u)
      else if u \<le> 0x7ff then
        c_and (CBB_add_u8 al (top_or 2 (drop_bit 6 u)))
              (CBB_add_u8 al (top_or 1 (u AND ucast (BOTTOM_BITS 6))))
      else if u \<le> 0xffff then
        c_and (CBB_add_u8 al (top_or 3 (drop_bit 12 u)))
          (c_and (CBB_add_u8 al (top_or 1 (drop_bit 6 u AND ucast (BOTTOM_BITS 6))))
                 (CBB_add_u8 al (top_or 1 (u AND ucast (BOTTOM_BITS 6)))))
      else if u \<le> 0x10ffff then
        c_and (CBB_add_u8 al (top_or 4 (drop_bit 18 u)))
          (c_and (CBB_add_u8 al (top_or 1 (drop_bit 12 u AND ucast (BOTTOM_BITS 6))))
             (c_and (CBB_add_u8 al (top_or 1 (drop_bit 6 u AND ucast (BOTTOM_BITS 6))))
                    (CBB_add_u8 al (top_or 1 (u AND ucast (BOTTOM_BITS 6))))))
      else (\<lambda>st. (False, st)))"

definition cbb_add_latin1 :: "malloc_env \<Rightarrow> u32 \<Rightarrow> cbb_op" where
  "cbb_add_latin1 al u = (if u \<le> 0xff then CBB_add_u8 al (ucast u) else (\<lambda>st. (False, st)))"

definition cbb_add_ucs2_be :: "malloc_env \<Rightarrow> u32 \<Rightarrow> cbb_op" where
  "cbb_add_ucs2_be al u =
     (if u \<le> 0xffff \<and> is_valid_code_point u then CBB_add_u16 al (ucast u) else (\<lambda>st. (False, st)))"

definition cbb_add_utf32_be :: "malloc_env \<Rightarrow> u32 \<Rightarrow> cbb_op" where
  "cbb_add_utf32_be al u = (if is_valid_code_point u then CBB_add_u32 al u else (\<lambda>st. (False, st)))"

section \<open>Bits as numbers\<close>

lemma BOTTOM_BITS_mask: "n \<le> 8 \<Longrightarrow> BOTTOM_BITS n = mask n"
  unfolding BOTTOM_BITS_def
  by (rule bit_eqI) (auto simp: mask_eq_exp_minus_1 [symmetric] push_bit_of_1 bit_simps)

lemma unat_BOTTOM: "n \<le> 8 \<Longrightarrow> unat (c AND BOTTOM_BITS n) = unat c mod 2 ^ n"
  by (simp only: BOTTOM_BITS_mask unat_and_mask)

lemma unat_BOTTOM_32: "n \<le> 8 \<Longrightarrow> unat ((w :: u32) AND ucast (BOTTOM_BITS n)) = unat w mod 2 ^ n"
proof -
  assume n: "n \<le> 8"
  have "(ucast (mask n :: u8) :: u32) = mask n"
    using n by (intro bit_eqI) (auto simp: bit_simps)
  then show ?thesis using n by (simp only: BOTTOM_BITS_mask unat_and_mask)
qed

lemma unat_TOP: "n \<le> 8 \<Longrightarrow> unat (c AND TOP_BITS n) = unat c div 2 ^ (8 - n) * 2 ^ (8 - n)"
proof -
  assume n: "n \<le> 8"
  have "c AND NOT (mask (8 - n)) = push_bit (8 - n) (drop_bit (8 - n) c)"
    by (rule bit_eqI) (auto simp: bit_simps dest: bit_imp_le_length)
  moreover have "unat (push_bit k x) = unat x * 2 ^ k mod 2 ^ 8" for k and x :: u8
    by (simp only: unsigned_push_bit_eq) (simp add: take_bit_eq_mod push_bit_eq_mult)
  ultimately have "unat (c AND TOP_BITS n) = unat (drop_bit (8 - n) c) * 2 ^ (8 - n) mod 2 ^ 8"
    by (simp only: TOP_BITS_def BOTTOM_BITS_mask diff_le_self)
  also have "unat (drop_bit (8 - n) c) = unat c div 2 ^ (8 - n)"
    by (simp only: unat_drop_bit_eq) (simp only: drop_bit_eq_div)
  also have "unat c div 2 ^ (8 - n) * 2 ^ (8 - n) mod 2 ^ 8 = unat c div 2 ^ (8 - n) * 2 ^ (8 - n)"
  proof (rule mod_less)
    have "unat c div 2 ^ (8 - n) * 2 ^ (8 - n) \<le> unat c" by (rule div_times_less_eq_dividend)
    then show "unat c div 2 ^ (8 - n) * 2 ^ (8 - n) < 2 ^ 8" using le_less_trans [OF _ unat_u8_less [of c]] by simp
  qed
  finally show ?thesis .
qed

lemma TOP_values: "unat (TOP_BITS 1) = 128" "unat (TOP_BITS 2) = 192" "unat (TOP_BITS 3) = 224" "unat (TOP_BITS 4) = 240"
  by (simp_all add: TOP_BITS_def BOTTOM_BITS_def)

lemma top_eq_iff:
  "c AND TOP_BITS 2 = TOP_BITS 1 \<longleftrightarrow> unat c div 64 = 2"
  "c AND TOP_BITS 3 = TOP_BITS 2 \<longleftrightarrow> unat c div 32 = 6"
  "c AND TOP_BITS 4 = TOP_BITS 3 \<longleftrightarrow> unat c div 16 = 14"
  "c AND TOP_BITS 5 = TOP_BITS 4 \<longleftrightarrow> unat c div 8 = 30"
  by (simp_all only: word_unat_eq_iff TOP_values unat_TOP) simp_all

lemma top_or_eq:
  "unat w < 64 \<Longrightarrow> top_or 1 w = of_nat (128 + unat w)"
  "unat w < 32 \<Longrightarrow> top_or 2 w = of_nat (192 + unat w)"
  "unat w < 16 \<Longrightarrow> top_or 3 w = of_nat (224 + unat w)"
  "unat w < 8 \<Longrightarrow> top_or 4 w = of_nat (240 + unat w)"
proof -
  have "(ucast (x OR y :: u32) :: u8) = ucast x OR ucast y" for x y
    by (rule bit_eqI) (auto simp: bit_simps)
  moreover have "(ucast (ucast x :: u32) :: u8) = x" for x :: u8
    by (rule bit_eqI) (auto simp: bit_simps dest: bit_imp_le_length)
  ultimately have t: "top_or n w = TOP_BITS n OR ucast w" for n
    by (simp add: top_or_def)
  have w: "unat (ucast w :: u8) = unat w" if "unat w < 256"
    using that by (simp add: unat_ucast)
  have c: "TOP_BITS 1 = push_bit 6 2" "TOP_BITS 2 = push_bit 6 3" "TOP_BITS 3 = push_bit 4 14" "TOP_BITS 4 = push_bit 3 30"
    by (simp_all add: TOP_BITS_def BOTTOM_BITS_def)
  show "unat w < 64 \<Longrightarrow> top_or 1 w = of_nat (128 + unat w)"
    unfolding t c using push_bit_or_eq [of "ucast w :: u8" 6 2] w by simp
  show "unat w < 32 \<Longrightarrow> top_or 2 w = of_nat (192 + unat w)"
    unfolding t c using push_bit_or_eq [of "ucast w :: u8" 6 3] w by simp
  show "unat w < 16 \<Longrightarrow> top_or 3 w = of_nat (224 + unat w)"
    unfolding t c using push_bit_or_eq [of "ucast w :: u8" 4 14] w by simp
  show "unat w < 8 \<Longrightarrow> top_or 4 w = of_nat (240 + unat w)"
    unfolding t c using push_bit_or_eq [of "ucast w :: u8" 3 30] w by simp
qed
section \<open>UTF-8\<close>

definition utf8 :: "nat \<Rightarrow> bytes" where
  "utf8 n =
     (if n < 0x80 then [of_nat n]
      else if n < 0x800 then [of_nat (192 + n div 64), of_nat (128 + n mod 64)]
      else if n < 0x10000 then
        [of_nat (224 + n div 4096), of_nat (128 + n div 64 mod 64), of_nat (128 + n mod 64)]
      else [of_nat (240 + n div 262144), of_nat (128 + n div 4096 mod 64), of_nat (128 + n div 64 mod 64),
            of_nat (128 + n mod 64)])"

lemma valid_le: "is_valid_code_point u \<Longrightarrow> unat u \<le> 0x10ffff"
  by (auto simp: is_valid_code_point_def word_less_nat_alt not_less split: if_splits)

lemma le_nat: "(u :: u32) \<le> 0x7f \<longleftrightarrow> unat u < 0x80" "u \<le> 0x7ff \<longleftrightarrow> unat u < 0x800"
  "u \<le> 0xffff \<longleftrightarrow> unat u < 0x10000" "u \<le> 0x10ffff \<longleftrightarrow> unat u \<le> 0x10ffff" "u \<le> 0xff \<longleftrightarrow> unat u < 256"
  by (auto simp: word_le_nat_alt)

lemma drop_nat: "unat (drop_bit 6 (u :: u32)) = unat u div 64" "unat (drop_bit 12 u) = unat u div 4096"
  "unat (drop_bit 18 u) = unat u div 262144"
  by (simp_all only: unat_drop_bit_eq) (simp_all add: drop_bit_eq_div)

lemma cbb_get_utf8_len_eq: "unat u \<le> 0x10ffff \<Longrightarrow> cbb_get_utf8_len u = length (utf8 (unat u))"
  by (simp add: cbb_get_utf8_len_def utf8_def le_nat)

lemma cont_octet:
  "top_or 1 ((w :: u32) AND ucast (BOTTOM_BITS 6)) = of_nat (128 + unat w mod 64)"
  using top_or_eq(1) [of "w AND ucast (BOTTOM_BITS 6)"] by (simp only: unat_BOTTOM_32) simp

lemma cbb_add_utf8_appends [cbb_appends]:
  assumes "is_valid_code_point u"
  shows "appends al (cbb_add_utf8 al u) (utf8 (unat u))"
proof -
  define n where "n = unat u"
  have n: "n \<le> 0x10ffff" using valid_le [OF assms] by (simp add: n_def)
  have w: "unat (drop_bit 6 u) = n div 64" "unat (drop_bit 12 u) = n div 4096" "unat (drop_bit 18 u) = n div 262144"
    by (simp_all only: drop_nat n_def)
  have seq2: "appends al (c_and (CBB_add_u8 al x) (CBB_add_u8 al y)) [x, y]" for x y
    using appends_then [OF CBB_add_u8_appends CBB_add_u8_appends, of al x y] by simp
  have seq3: "appends al (c_and (CBB_add_u8 al x) (c_and (CBB_add_u8 al y) (CBB_add_u8 al z))) [x, y, z]" for x y z
    using appends_then [OF CBB_add_u8_appends seq2, of x y z] by simp
  have seq4: "appends al (c_and (CBB_add_u8 al t) (c_and (CBB_add_u8 al x) (c_and (CBB_add_u8 al y) (CBB_add_u8 al z)))) [t, x, y, z]"
    for t x y z using appends_then [OF CBB_add_u8_appends seq3, of t x y z] by simp
  consider "n < 0x80" | "0x80 \<le> n" "n < 0x800" | "0x800 \<le> n" "n < 0x10000" | "0x10000 \<le> n" by linarith
  then show ?thesis
  proof cases
    case 1
    have "(ucast u :: u8) = of_nat n"
      by (intro word_unat_eq_iff [THEN iffD2]) (simp add: unat_ucast unat_of_nat n_def)
    then show ?thesis
      using 1 assms CBB_add_u8_appends [of al "of_nat n"] by (simp add: cbb_add_utf8_def utf8_def le_nat n_def)
  next
    case 2
    then have "unat (drop_bit 6 u) < 32" unfolding w by auto
    from top_or_eq(2) [OF this] 2 show ?thesis
      using assms seq2 by (simp add: cbb_add_utf8_def utf8_def le_nat n_def [symmetric] cont_octet w del: One_nat_def)
  next
    case 3
    then have "unat (drop_bit 12 u) < 16" unfolding w by auto
    from top_or_eq(3) [OF this] 3 show ?thesis
      using assms seq3 by (simp add: cbb_add_utf8_def utf8_def le_nat n_def [symmetric] cont_octet w del: One_nat_def)
  next
    case 4
    then have "unat (drop_bit 18 u) < 8" unfolding w using n by auto
    from top_or_eq(4) [OF this] 4 show ?thesis
      using assms seq4 n by (simp add: cbb_add_utf8_def utf8_def le_nat n_def [symmetric] cont_octet w del: One_nat_def)
  qed
qed

lemma cbb_add_utf8_invalid: "\<not> is_valid_code_point u \<Longrightarrow> cbb_add_utf8 al u st = (False, st)"
  by (simp add: cbb_add_utf8_def)

text \<open>One continuation octet.\<close>

lemma utf8_loop_Cons:
  assumes "unat v < 2 ^ 26"
  shows "utf8_loop (Suc n) v (c # cbs) =
     (if unat c div 64 = 2 then utf8_loop n (v * 64 + of_nat (unat c mod 64)) cbs else (None, cbs))"
proof -
  have c: "unat (c AND BOTTOM_BITS 6) = unat c mod 64" by (simp only: unat_BOTTOM) simp
  then have u: "unat (ucast (c AND BOTTOM_BITS 6) :: u32) = unat c mod 64"
    by (simp only: unat_ucast) simp
  then have "(ucast (c AND BOTTOM_BITS 6) :: u32) = of_nat (unat c mod 64)"
    by (metis of_nat_unat ucast_id word_nat_cases)
  moreover have "push_bit 6 v OR ucast (c AND BOTTOM_BITS 6) = v * 2 ^ 6 + ucast (c AND BOTTOM_BITS 6)"
    using u by (intro push_bit_or_eq) simp
  ultimately show ?thesis
    by (simp add: CBS_get_u8_Cons top_eq_iff del: One_nat_def)
qed

lemma next_value:
  assumes "unat (v :: u32) < 2 ^ 20"
  shows "unat (v * 64 + of_nat (m mod 64)) = unat v * 64 + m mod 64"
proof -
  have "unat v * 64 + m mod 64 < 2 ^ 32" using assms by simp
  then show ?thesis by (simp add: unat_word_ariths unat_of_nat mod_simps)
qed

definition cont_val :: "nat \<Rightarrow> bytes \<Rightarrow> nat" where
  "cont_val a ds = foldl (\<lambda>a d. a * 64 + unat d mod 64) a ds"

lemma cont_val_simps [simp]: "cont_val a [] = a" "cont_val a (d # ds) = cont_val (a * 64 + unat d mod 64) ds"
  by (simp_all add: cont_val_def)

lemma utf8_loop_iff:
  assumes "unat v < 2 ^ (26 - 6 * k)" and "k \<le> 3"
  shows "utf8_loop k v cbs = (Some w, rest) \<longleftrightarrow>
    (\<exists>ds. cbs = ds @ rest \<and> length ds = k \<and> (\<forall>d\<in>set ds. unat d div 64 = 2) \<and> unat w = cont_val (unat v) ds)"
  using assms
proof (induction k arbitrary: v cbs)
  case 0
  then show ?case by (auto simp: word_unat_eq_iff)
next
  case (Suc k)
  have v20: "unat v < 2 ^ 20"
    using Suc.prems power_increasing [of "26 - 6 * Suc k" 20 "2 :: nat"] by simp
  then have v26: "unat v < 2 ^ 26" by simp
  show ?case
  proof (cases cbs)
    case Nil
    then show ?thesis by (auto simp: CBS_get_u8_Nil)
  next
    case (Cons c cs)
    let ?v = "v * 64 + of_nat (unat c mod 64)"
    have uv: "unat ?v = unat v * 64 + unat c mod 64" using next_value [OF v20] .
    have "unat v * 64 + unat c mod 64 < (unat v + 1) * 64" by simp
    also have "\<dots> \<le> 2 ^ (26 - 6 * Suc k) * 64" using Suc.prems(1) by (intro mult_le_mono1) simp
    also have "\<dots> = 2 ^ (26 - 6 * Suc k + 6)" by (simp only: power_add) simp
    also have "26 - 6 * Suc k + 6 = 26 - 6 * k" using Suc.prems(2) by simp
    finally have "unat ?v < 2 ^ (26 - 6 * k)" using uv by simp
    from Suc.IH [OF this] Suc.prems(2)
    have IH: "utf8_loop k ?v cs = (Some w, rest) \<longleftrightarrow>
      (\<exists>ds. cs = ds @ rest \<and> length ds = k \<and> (\<forall>d\<in>set ds. unat d div 64 = 2) \<and> unat w = cont_val (unat ?v) ds)"
      by simp
    have "utf8_loop (Suc k) v cbs = (Some w, rest) \<longleftrightarrow>
      unat c div 64 = 2 \<and> utf8_loop k ?v cs = (Some w, rest)"
      using utf8_loop_Cons [OF v26, of k c cs] Cons by (auto simp del: utf8_loop.simps)
    also have "\<dots> \<longleftrightarrow> (\<exists>ds. cbs = ds @ rest \<and> length ds = Suc k \<and> (\<forall>d\<in>set ds. unat d div 64 = 2)
                         \<and> unat w = cont_val (unat v) ds)"
      unfolding IH uv Cons by (auto simp: Cons_eq_append_conv length_Suc_conv)
    finally show ?thesis .
  qed
qed

lemma lead_mask:
  "n \<le> 5 \<Longrightarrow> (ucast ((c :: u8) AND BOTTOM_BITS n) :: u32) = of_nat (unat c mod 2 ^ n)"
proof -
  assume "n \<le> 5"
  then have "unat (c AND BOTTOM_BITS n) = unat c mod 2 ^ n" by (intro unat_BOTTOM) simp
  then have "unat (ucast (c AND BOTTOM_BITS n) :: u32) = unat c mod 2 ^ n mod 2 ^ 32"
    by (simp only: unat_ucast) simp
  moreover have "unat (of_nat (unat c mod 2 ^ n) :: u32) = unat c mod 2 ^ n mod 2 ^ 32"
    by (simp only: unat_of_nat) simp
  ultimately show ?thesis by (simp only: word_unat_eq_iff)
qed

lemma bounds_nat: "(w :: u32) < 0x80 \<longleftrightarrow> unat w < 0x80" "w < 0x800 \<longleftrightarrow> unat w < 0x800" "w < 0x10000 \<longleftrightarrow> unat w < 0x10000"
  by (simp_all add: word_less_nat_alt)

text \<open>The reader on a lead octet, with the octet as a number.\<close>

lemma cbs_get_utf8_Cons:
  "cbs_get_utf8 (c # cs) = (Some w, rest) \<longleftrightarrow>
     (unat c < 128 \<and> unat w = unat c \<and> rest = cs) \<or>
     (\<exists>ds. cs = ds @ rest \<and> (\<forall>d\<in>set ds. unat d div 64 = 2) \<and> is_valid_code_point w \<and>
        ((unat c div 32 = 6 \<and> length ds = 1 \<and> unat w = cont_val (unat c mod 32) ds \<and> 0x80 \<le> unat w) \<or>
         (unat c div 16 = 14 \<and> length ds = 2 \<and> unat w = cont_val (unat c mod 16) ds \<and> 0x800 \<le> unat w) \<or>
         (unat c div 8 = 30 \<and> length ds = 3 \<and> unat w = cont_val (unat c mod 8) ds \<and> 0x10000 \<le> unat w)))"
proof -
  have small: "unat (of_nat (unat c mod m) :: u32) = unat c mod m" for m
  proof -
    have "unat c mod m < 2 ^ 32"
      using le_less_trans [OF mod_less_eq_dividend unat_u8_less [of c], of m] by simp
    then show ?thesis by (simp only: unat_of_nat) simp
  qed
  have loop1: "utf8_loop 1 (of_nat (unat c mod 32)) cs = (Some x, r) \<longleftrightarrow>
      (\<exists>ds. cs = ds @ r \<and> length ds = 1 \<and> (\<forall>d\<in>set ds. unat d div 64 = 2) \<and> unat x = cont_val (unat c mod 32) ds)" for x r
    using utf8_loop_iff [of "of_nat (unat c mod 32)" 1 cs x r] by (simp only: small) simp
  have loop2: "utf8_loop 2 (of_nat (unat c mod 16)) cs = (Some x, r) \<longleftrightarrow>
      (\<exists>ds. cs = ds @ r \<and> length ds = 2 \<and> (\<forall>d\<in>set ds. unat d div 64 = 2) \<and> unat x = cont_val (unat c mod 16) ds)" for x r
    using utf8_loop_iff [of "of_nat (unat c mod 16)" 2 cs x r] by (simp only: small) simp
  have loop3: "utf8_loop 3 (of_nat (unat c mod 8)) cs = (Some x, r) \<longleftrightarrow>
      (\<exists>ds. cs = ds @ r \<and> length ds = 3 \<and> (\<forall>d\<in>set ds. unat d div 64 = 2) \<and> unat x = cont_val (unat c mod 8) ds)" for x r
    using utf8_loop_iff [of "of_nat (unat c mod 8)" 3 cs x r] by (simp only: small) simp
  have lead: "c \<le> 0x7f \<longleftrightarrow> unat c < 128" by (auto simp: word_le_nat_alt)
  have fin: "(case utf8_loop k x cs of
       (None, cbs) \<Rightarrow> (None, cbs)
     | (Some v, cbs) \<Rightarrow> (if \<not> is_valid_code_point v \<or> v < lb then (None, cbs) else (Some v, cbs))) = (Some w, rest)
     \<longleftrightarrow> utf8_loop k x cs = (Some w, rest) \<and> is_valid_code_point w \<and> \<not> w < lb" for k x lb
    by (auto split: prod.splits option.splits)
  consider "unat c < 128" | "unat c div 32 = 6" | "unat c div 16 = 14" | "unat c div 8 = 30"
    | "128 \<le> unat c" "unat c div 32 \<noteq> 6" "unat c div 16 \<noteq> 14" "unat c div 8 \<noteq> 30" by linarith
  then show ?thesis
  proof cases
    case 1
    have "unat (ucast c :: u32) = unat c"
      by (simp only: unat_ucast) (use unat_u8_less [of c] in simp)
    then have "(ucast c :: u32) = w \<longleftrightarrow> unat w = unat c"
      by (simp only: word_unat_eq_iff) auto
    then show ?thesis using 1 by (auto simp: cbs_get_utf8_def CBS_get_u8_Cons lead)
  next
    case 2
    then have "192 \<le> unat c" "unat c < 224" by auto
    then have "unat c div 16 \<noteq> 14" "unat c div 8 \<noteq> 30" "\<not> unat c < 128" by auto
    with 2 show ?thesis
      by (simp add: cbs_get_utf8_def CBS_get_u8_Cons lead top_eq_iff lead_mask fin loop1 bounds_nat not_less del: One_nat_def) blast
  next
    case 3
    then have "224 \<le> unat c" "unat c < 240" by auto
    then have "unat c div 32 \<noteq> 6" "unat c div 8 \<noteq> 30" "\<not> unat c < 128" by auto
    with 3 show ?thesis
      by (simp add: cbs_get_utf8_def CBS_get_u8_Cons lead top_eq_iff lead_mask fin loop2 bounds_nat not_less del: One_nat_def) blast
  next
    case 4
    then have "240 \<le> unat c" by auto
    then have "unat c div 32 \<noteq> 6" "unat c div 16 \<noteq> 14" "\<not> unat c < 128" by auto
    with 4 show ?thesis
      by (simp add: cbs_get_utf8_def CBS_get_u8_Cons lead top_eq_iff lead_mask fin loop3 bounds_nat not_less del: One_nat_def) blast
  next
    case 5
    then show ?thesis
      by (simp add: cbs_get_utf8_def CBS_get_u8_Cons lead top_eq_iff del: One_nat_def)
  qed
qed
text \<open>The octets of \<open>utf8\<close> from their numbers, and back.\<close>

lemma octet_nat: "m < 256 \<Longrightarrow> (c = of_nat m) = (unat (c :: u8) = m)"
  by (auto simp: word_unat_eq_iff unat_of_nat_u8 simp del: of_nat_add of_nat_numeral)

lemma of_nat_octets:
  "m < 64 \<Longrightarrow> unat (of_nat (128 + m) :: u8) = 128 + m" "m < 32 \<Longrightarrow> unat (of_nat (192 + m) :: u8) = 192 + m"
  "m < 16 \<Longrightarrow> unat (of_nat (224 + m) :: u8) = 224 + m" "m < 8 \<Longrightarrow> unat (of_nat (240 + m) :: u8) = 240 + m"
  by (simp_all only: unat_of_nat_u8) simp_all

lemma parts: "m < k \<Longrightarrow> (k * q + m) div k = q \<and> (k * q + m) mod k = m" for m k q :: nat
  by simp

lemma octet_parts:
  "m < 64 \<Longrightarrow> (128 + m) div 64 = 2 \<and> (128 + m) mod 64 = m" "m < 32 \<Longrightarrow> (192 + m) div 32 = 6 \<and> (192 + m) mod 32 = m"
  "m < 16 \<Longrightarrow> (224 + m) div 16 = 14 \<and> (224 + m) mod 16 = m" "m < 8 \<Longrightarrow> (240 + m) div 8 = 30 \<and> (240 + m) mod 8 = m"
  for m :: nat
  using parts [of m 64 2] parts [of m 32 6] parts [of m 16 14] parts [of m 8 30] by simp_all

lemma valid_small: "unat u < 128 \<Longrightarrow> is_valid_code_point u"
proof -
  assume u: "unat u < 128"
  have "unat (u AND 0xfffe) \<le> unat u"
    using word_and_le2 [of u "0xfffe"] by (simp add: word_le_nat_alt)
  then have "u AND 0xfffe \<noteq> 0xfffe" using u by (auto simp: word_unat_eq_iff)
  then show ?thesis using u by (auto simp: is_valid_code_point_def word_less_nat_alt word_le_nat_alt)
qed

lemma cbs_get_utf8_complete:
  assumes "is_valid_code_point u"
  shows "cbs_get_utf8 (utf8 (unat u) @ rest) = (Some u, rest)"
proof -
  define n where "n = unat u"
  have n: "n \<le> 0x10ffff" using valid_le [OF assms] by (simp add: n_def)
  consider "n < 0x80" | "0x80 \<le> n" "n < 0x800" | "0x800 \<le> n" "n < 0x10000" | "0x10000 \<le> n" by linarith
  then show ?thesis
  proof cases
    case 1
    then have "unat (of_nat n :: u8) = n" by (simp only: unat_of_nat_u8) simp
    with 1 show ?thesis
      by (simp add: utf8_def n_def [symmetric] cbs_get_utf8_Cons)
  next
    case 2
    define c d where "c = (of_nat (192 + n div 64) :: u8)" and "d = (of_nat (128 + n mod 64) :: u8)"
    have cd: "unat c = 192 + n div 64" "unat d = 128 + n mod 64"
      unfolding c_def d_def using 2 by (intro of_nat_octets; auto)+
    have "n div 64 < 32" using 2 by auto
    then have l: "unat c div 32 = 6" "unat c mod 32 = n div 64" "unat d div 64 = 2" "unat d mod 64 = n mod 64"
      unfolding cd by (simp_all add: octet_parts)
    have "cbs_get_utf8 (c # [d] @ rest) = (Some u, rest)"
      unfolding cbs_get_utf8_Cons using l assms 2 by (intro disjI2 exI [of _ "[d]"]) (simp add: n_def)
    then show ?thesis using 2 by (simp add: utf8_def n_def [symmetric] c_def d_def)
  next
    case 3
    define c d e where "c = (of_nat (224 + n div 4096) :: u8)" and "d = (of_nat (128 + n div 64 mod 64) :: u8)"
      and "e = (of_nat (128 + n mod 64) :: u8)"
    have cd: "unat c = 224 + n div 4096" "unat d = 128 + n div 64 mod 64" "unat e = 128 + n mod 64"
      unfolding c_def d_def e_def using 3 by (intro of_nat_octets; auto)+
    have q: "n div 4096 < 16" using 3 by auto
    then have l: "unat c div 16 = 14" "unat c mod 16 = n div 4096" "unat d div 64 = 2" "unat d mod 64 = n div 64 mod 64"
        "unat e div 64 = 2" "unat e mod 64 = n mod 64"
      unfolding cd by (simp_all add: octet_parts)
    have "(n div 4096 * 64 + n div 64 mod 64) * 64 + n mod 64 = n"
    proof -
      have "n div 4096 = n div 64 div 64" by (simp flip: div_mult2_eq)
      then show ?thesis by (simp only: div_mult_mod_eq)
    qed
    then have "cbs_get_utf8 (c # [d, e] @ rest) = (Some u, rest)"
      unfolding cbs_get_utf8_Cons using l assms 3 by (intro disjI2 exI [of _ "[d, e]"]) (simp add: n_def)
    then show ?thesis using 3 by (simp add: utf8_def n_def [symmetric] c_def d_def e_def)
  next
    case 4
    define c d e f where "c = (of_nat (240 + n div 262144) :: u8)" and "d = (of_nat (128 + n div 4096 mod 64) :: u8)"
      and "e = (of_nat (128 + n div 64 mod 64) :: u8)" and "f = (of_nat (128 + n mod 64) :: u8)"
    have q: "n div 262144 < 8" using n by auto
    have cd: "unat c = 240 + n div 262144" "unat d = 128 + n div 4096 mod 64" "unat e = 128 + n div 64 mod 64"
        "unat f = 128 + n mod 64"
      unfolding c_def d_def e_def f_def using q by (intro of_nat_octets; simp)+
    then have l: "unat c div 8 = 30" "unat c mod 8 = n div 262144" "unat d div 64 = 2" "unat d mod 64 = n div 4096 mod 64"
        "unat e div 64 = 2" "unat e mod 64 = n div 64 mod 64" "unat f div 64 = 2" "unat f mod 64 = n mod 64"
      unfolding cd using q by (simp_all add: octet_parts)
    have "((n div 262144 * 64 + n div 4096 mod 64) * 64 + n div 64 mod 64) * 64 + n mod 64 = n"
    proof -
      have "n div 262144 = n div 4096 div 64" "n div 4096 = n div 64 div 64" by (simp_all flip: div_mult2_eq)
      then show ?thesis by (simp only: div_mult_mod_eq)
    qed
    then have "cbs_get_utf8 (c # [d, e, f] @ rest) = (Some u, rest)"
      unfolding cbs_get_utf8_Cons using l assms 4 by (intro disjI2 exI [of _ "[d, e, f]"]) (simp add: n_def)
    then show ?thesis using 4 by (simp add: utf8_def n_def [symmetric] c_def d_def e_def f_def)
  qed
qed

lemma octet_of_parts: "unat (d :: u8) div 64 = 2 \<Longrightarrow> d = of_nat (128 + unat d mod 64)"
proof -
  assume "unat d div 64 = 2"
  then have "128 + unat d mod 64 = unat d" using div_mult_mod_eq [of "unat d" 64] by simp
  then show ?thesis by (simp only: of_nat_unat ucast_id)
qed

lemma lead_of_parts: "unat (c :: u8) div k = q \<Longrightarrow> c = of_nat (q * k + unat c mod k)"
  using div_mult_mod_eq [of "unat c" k] by (simp only: of_nat_unat ucast_id)

lemma utf8_of_two:
  assumes "unat c div 32 = 6" "unat d div 64 = 2" "n = unat c mod 32 * 64 + unat d mod 64" "0x80 \<le> n"
  shows "utf8 n = [c, d]"
proof -
  have "n < 0x800" "n div 64 = unat c mod 32" "n mod 64 = unat d mod 64"
    using assms(3) by simp_all
  then show ?thesis
    using assms(4) lead_of_parts [OF assms(1)] octet_of_parts [OF assms(2)] by (simp add: utf8_def)
qed

lemma utf8_of_three:
  assumes "unat c div 16 = 14" "unat d div 64 = 2" "unat e div 64 = 2"
    and "n = (unat c mod 16 * 64 + unat d mod 64) * 64 + unat e mod 64" "0x800 \<le> n"
  shows "utf8 n = [c, d, e]"
proof -
  define m where "m = unat c mod 16 * 64 + unat d mod 64"
  have n: "n = m * 64 + unat e mod 64" using assms(4) by (simp add: m_def)
  have m: "m div 64 = unat c mod 16" "m mod 64 = unat d mod 64" "m < 1024" by (simp_all add: m_def)
  have "n div 64 = m" "n mod 64 = unat e mod 64" "n < 0x10000" using n m(3) by simp_all
  moreover from this have "n div 4096 = unat c mod 16" using m(1) by (simp flip: div_mult2_eq m(1) add: div_mult2_eq [of n 64 64, simplified])
  ultimately show ?thesis
    using assms(5) m lead_of_parts [OF assms(1)] octet_of_parts [OF assms(2)] octet_of_parts [OF assms(3)]
    by (simp add: utf8_def)
qed

lemma utf8_of_four:
  assumes "unat c div 8 = 30" "unat d div 64 = 2" "unat e div 64 = 2" "unat f div 64 = 2"
    and "n = ((unat c mod 8 * 64 + unat d mod 64) * 64 + unat e mod 64) * 64 + unat f mod 64" "0x10000 \<le> n"
  shows "utf8 n = [c, d, e, f]"
proof -
  define m where "m = (unat c mod 8 * 64 + unat d mod 64) * 64 + unat e mod 64"
  define l where "l = unat c mod 8 * 64 + unat d mod 64"
  have l: "l div 64 = unat c mod 8" "l mod 64 = unat d mod 64" by (simp_all add: l_def)
  have m_eq: "m = l * 64 + unat e mod 64" by (simp only: m_def l_def)
  have m: "m div 64 = l" "m mod 64 = unat e mod 64" by (simp_all add: m_eq)
  have n_eq: "n = m * 64 + unat f mod 64" using assms(5) by (simp only: m_def)
  have n: "n div 64 = m" "n mod 64 = unat f mod 64" by (simp_all add: n_eq)
  have "n div 4096 = n div 64 div 64" "n div 262144 = n div 64 div 64 div 64" by (simp_all flip: div_mult2_eq)
  then show ?thesis
    using assms(6) n m l lead_of_parts [OF assms(1)] octet_of_parts [OF assms(2)] octet_of_parts [OF assms(3)]
      octet_of_parts [OF assms(4)]
    by (simp add: utf8_def)
qed

text \<open>
  The reader accepts exactly the shortest encodings of valid code points: no surrogates,
  noncharacters, overlong forms or values above 0x10ffff.
\<close>

lemma cbs_get_utf8_iff:
  "cbs_get_utf8 cbs = (Some u, rest) \<longleftrightarrow> is_valid_code_point u \<and> cbs = utf8 (unat u) @ rest"
proof
  assume r: "cbs_get_utf8 cbs = (Some u, rest)"
  then obtain c cs where cbs: "cbs = c # cs" by (cases cbs) (auto simp: cbs_get_utf8_def CBS_get_u8_Nil)
  from r [unfolded cbs cbs_get_utf8_Cons]
  consider "unat c < 128" "unat u = unat c" "rest = cs"
    | ds where "cs = ds @ rest" "\<forall>d\<in>set ds. unat d div 64 = 2" "is_valid_code_point u" "unat c div 32 = 6"
        "length ds = 1" "unat u = cont_val (unat c mod 32) ds" "0x80 \<le> unat u"
    | ds where "cs = ds @ rest" "\<forall>d\<in>set ds. unat d div 64 = 2" "is_valid_code_point u" "unat c div 16 = 14"
        "length ds = 2" "unat u = cont_val (unat c mod 16) ds" "0x800 \<le> unat u"
    | ds where "cs = ds @ rest" "\<forall>d\<in>set ds. unat d div 64 = 2" "is_valid_code_point u" "unat c div 8 = 30"
        "length ds = 3" "unat u = cont_val (unat c mod 8) ds" "0x10000 \<le> unat u"
    by blast
  then show "is_valid_code_point u \<and> cbs = utf8 (unat u) @ rest"
  proof cases
    case 1
    then have "utf8 (unat u) = [c]" by (simp add: utf8_def)
    then show ?thesis using 1 cbs valid_small [of u] by simp
  next
    case (2 ds)
    then obtain d where "ds = [d]" by (auto simp: length_Suc_conv)
    then show ?thesis using 2 utf8_of_two [of c d "unat u"] cbs by simp
  next
    case (3 ds)
    then obtain d e where "ds = [d, e]" by (auto simp: length_Suc_conv numeral_2_eq_2)
    then show ?thesis using 3 utf8_of_three [of c d e "unat u"] cbs by simp
  next
    case (4 ds)
    then obtain d e f where "ds = [d, e, f]" by (auto simp: length_Suc_conv numeral_3_eq_3)
    then show ?thesis using 4 utf8_of_four [of c d e f "unat u"] cbs by simp
  qed
qed (auto intro: cbs_get_utf8_complete)

section \<open>Written and read back\<close>

interpretation utf8_codec: wire_codec cbb_add_utf8 cbs_get_utf8 "\<lambda>u. utf8 (unat u)" is_valid_code_point
  by unfold_locales (simp_all add: cbb_appends cbs_get_utf8_complete)

lemma ucast_u32_small: "unat (u :: u32) < 2 ^ LENGTH('a) \<Longrightarrow> unat (ucast u :: 'a::len word) = unat u"
  by (simp add: unat_ucast)

lemma ucast_back: "unat (u :: u32) < 2 ^ LENGTH('a) \<Longrightarrow> ucast (ucast u :: 'a::len word) = u"
proof -
  assume a: "unat (u :: u32) < 2 ^ LENGTH('a)"
  have "unat u < 2 ^ LENGTH(32)" by (rule unsigned_less)
  then show ?thesis using a by (intro word_unat_eq_iff [THEN iffD2]) (simp only: unat_ucast mod_less)
qed

interpretation latin1_codec: wire_codec cbb_add_latin1 cbs_get_latin1 "\<lambda>u. [ucast u]" "\<lambda>u. unat u < 256"
  by unfold_locales
     (simp_all add: cbb_appends cbb_add_latin1_def le_nat cbs_get_latin1_def CBS_get_u8_Cons ucast_back)

interpretation ucs2_codec: wire_codec cbb_add_ucs2_be cbs_get_ucs2_be
    "\<lambda>u. be_bytes 2 (unat (ucast u :: u16))" "\<lambda>u. unat u < 65536 \<and> is_valid_code_point u"
  by unfold_locales
     (simp_all add: cbb_appends cbb_add_ucs2_be_def le_nat cbs_get_ucs2_be_def cbs_simps ucast_back)

interpretation utf32_codec: wire_codec cbb_add_utf32_be cbs_get_utf32_be
    "\<lambda>u. be_bytes 4 (unat u)" is_valid_code_point
  by unfold_locales (simp_all add: cbb_appends cbb_add_utf32_be_def cbs_get_utf32_be_def cbs_simps)

section \<open>Properties\<close>

text \<open>
  C27: \<open>cbs_get_utf8\<close> reads a code point \<open>u\<close> precisely when \<open>u\<close> is a valid scalar value and the input
  starts with its one UTF-8 encoding: overlong forms, surrogates, non-characters and truncated
  sequences are refused.
\<close>

theorem utf8_reader_exact:
  "cbs_get_utf8 cbs = (Some u, rest) \<longleftrightarrow> is_valid_code_point u \<and> cbs = utf8 (unat u) @ rest"
  by (rule cbs_get_utf8_iff)

text \<open>
  \<open>cbb_add_utf8\<close> appends the UTF-8 encoding of a valid code point, which has the length that
  \<open>cbb_get_utf8_len\<close> announces, and refuses every other value without touching the builder.
\<close>

lemma utf8_writer_total:
  "if is_valid_code_point u
   then appends al (cbb_add_utf8 al u) (utf8 (unat u)) \<and> cbb_get_utf8_len u = length (utf8 (unat u))
   else cbb_add_utf8 al u st = (False, st)"
  using cbb_add_utf8_appends [of u al] cbb_add_utf8_invalid [of u al st] cbb_get_utf8_len_eq [of u] valid_le [of u]
  by simp

end
