(* ===== verification/Ber.thy ===== *)
theory Ber
  imports Asn1Build
begin

text \<open>
  \<^verbatim>\<open>crypto/bytestring/ber.c\<close>: finding BER-only constructs and converting BER to DER; and
  \<open>CBB_finish_i2d\<close> of \<^verbatim>\<open>asn1_compat.c\<close>.

  \<open>*ber_found\<close> is a parameter and the result of the walk, because the walk of a child overwrites it.
  The recursion of \<open>cbs_convert_ber\<close> goes through the reader and the builder at once; it takes fuel,
  and a result \<open>None\<close> means that the fuel ran out, which \<open>convert_ber_fuel\<close> excludes for a fuel above the
  length of the input.
\<close>

abbreviation (input) kMaxDepth :: nat where "kMaxDepth \<equiv> 2048"

definition is_string_type :: "u32 \<Rightarrow> bool" where
  "is_string_type tag =
     (tag AND NOT CBS_ASN1_CONSTRUCTED \<in> {0x3, 0x4, 0xc, 0x12, 0x13, 0x14, 0x15, 0x16, 0x19, 0x1a, 0x1b, 0x1c, 0x1e})"

text \<open>The test for an indefinite-length element, spelled out twice in the code.\<close>

definition is_indefinite :: "nat \<Rightarrow> cbs \<Rightarrow> bool" where
  "is_indefinite header_len contents =
     (CBS_len contents = header_len \<and> header_len > 0 \<and> contents ! (header_len - 1) = 0x80)"

section \<open>Lemmas for termination\<close>

lemma ber_element_cases:
  assumes "CBS_get_any_ber_asn1_element cbs = (Some (out, tag, hl), rest)"
  shows "CBS_get_any_asn1_element cbs = (Some (out, tag, hl), rest)
       \<or> (tag AND CBS_ASN1_CONSTRUCTED \<noteq> 0 \<and> out = der_tag tag @ [0x80] \<and> hl = length out \<and> cbs = out @ rest)"
proof -
  obtain t h where tag: "parse_asn1_tag cbs = (Some t, h)"
    using assms by (auto simp: CBS_get_any_ber_asn1_element_def cbs_get_any_asn1_element_def split: prod.splits option.splits)
  obtain lb h2 where h: "h = lb # h2"
    using assms tag
    by (cases h) (auto simp: CBS_get_any_ber_asn1_element_def cbs_get_any_asn1_element_def CBS_get_u8_Nil)
  have cbs: "cbs = der_tag t @ lb # h2"
    using parse_asn1_tag_sound [OF tag] h by simp
  have hl: "CBS_len cbs - CBS_len h2 = length (der_tag t) + 1" by (simp add: cbs CBS_len_def)
  show ?thesis
  proof (cases "lb AND 0x80 \<noteq> 0 \<and> tag AND CBS_ASN1_CONSTRUCTED \<noteq> 0 \<and> unat (lb AND 0x7f) = 0 \<and> t = tag")
    case True
    then have "unat lb mod 128 = 0" "128 \<le> unat lb"
      by (auto simp: unat_and_0x7f and_0x80_u8 not_less)
    then have "unat lb = 128" using unat_u8_less [of lb] by presburger
    then have lb: "lb = 0x80" by (simp add: word_unat_eq_iff)
    have "asn1_take (length (der_tag t) + 1) t (length (der_tag t) + 1) cbs = (Some (out, tag, hl), rest)"
      using assms True
      unfolding CBS_get_any_ber_asn1_element_def cbs_get_any_asn1_element_def tag h CBS_get_u8_Cons prod.case
        option.case \<open>CBS_len cbs - CBS_len h2 = _\<close> Let_def
      by auto
    then show ?thesis using True by (auto simp: asn1_take_eq cbs lb split: if_splits)
  next
    case False
    then show ?thesis
      using assms
      unfolding CBS_get_any_ber_asn1_element_def CBS_get_any_asn1_element_def cbs_get_any_asn1_element_def tag h
        CBS_get_u8_Cons prod.case option.case Let_def
      by (auto simp: asn1_take_eq split: if_splits prod.splits option.splits)
  qed
qed

lemma ber_element_bounds:
  assumes "CBS_get_any_ber_asn1_element cbs = (Some (out, tag, hl), rest)"
  shows "cbs = out @ rest \<and> 2 \<le> hl \<and> hl \<le> length out"
proof -
  have t: "1 \<le> length (der_tag tag)" by (simp add: Suc_le_eq)
  have l: "1 \<le> length (der_len n)" for n by (simp add: Suc_le_eq)
  show ?thesis
    using ber_element_cases [OF assms]
  proof
    assume "CBS_get_any_asn1_element cbs = (Some (out, tag, hl), rest)"
    then obtain c where "out = der_element tag c" "hl = der_header_len tag (length c)" "cbs = out @ rest"
      by (auto simp: CBS_get_any_asn1_element_iff)
    then show ?thesis using t l [of "length c"] by (simp add: length_der_element der_header_len_def)
  next
    assume "tag AND CBS_ASN1_CONSTRUCTED \<noteq> 0 \<and> out = der_tag tag @ [0x80] \<and> hl = length out \<and> cbs = out @ rest"
    then show ?thesis using t by auto
  qed
qed

lemma ber_element_shrinks:
  assumes "CBS_get_any_ber_asn1_element cbs = (Some (out, tag, hl), rest)"
  shows "length rest < length cbs" and "CBS_skip hl out = (s, out') \<Longrightarrow> length out' < length cbs"
  using ber_element_bounds [OF assms] by (auto simp: CBS_skip_eq split: if_splits)

section \<open>Finding BER\<close>

function find_ber_loop :: "nat \<Rightarrow> bool \<Rightarrow> cbs \<Rightarrow> bool option" where
  "find_ber_loop depth ber_found inp =
     (if CBS_len inp > 0
      then case CBS_get_any_ber_asn1_element inp of
             (None, inp) \<Rightarrow> None
           | (Some (contents, tag, header_len), inp) \<Rightarrow>
               (if is_indefinite header_len contents then Some True
                else if tag AND CBS_ASN1_CONSTRUCTED \<noteq> 0
                then (if is_string_type tag then Some True
                      else case CBS_skip header_len contents of
                             (None, contents) \<Rightarrow> None
                           | (Some _, contents) \<Rightarrow>
                               (case (if depth + 1 > kMaxDepth then None
                                      else find_ber_loop (depth + 1) False contents) of
                                  None \<Rightarrow> None
                                | Some ber_found \<Rightarrow> find_ber_loop depth ber_found inp))
                else find_ber_loop depth ber_found inp)
      else Some ber_found)"
  by auto

termination find_ber_loop
  by (relation "measure (\<lambda>(_, _, inp). length inp)")
     (auto dest!: ber_element_bounds [OF sym] simp: CBS_skip_eq split: if_splits)

declare find_ber_loop.simps [simp del]

definition cbs_find_ber :: "cbs \<Rightarrow> nat \<Rightarrow> bool option" where
  "cbs_find_ber orig_in depth =
     (if depth > kMaxDepth then None else find_ber_loop depth False (CBS_init (CBS_data orig_in) (CBS_len orig_in)))"

definition is_eoc :: "nat \<Rightarrow> cbs \<Rightarrow> bool" where
  "is_eoc header_len contents = (header_len = 2 \<and> CBS_len contents = 2 \<and> take 2 contents = [0, 0])"

section \<open>Converting\<close>

text \<open>
  The first argument is the fuel. The result is the return code and the CBS \<open>*in\<close> left behind, with
  the new state of \<open>out\<close>; \<open>on_out\<close> runs an operation on \<open>out_contents\<close>, which is \<open>out\<close> itself or its new
  child.
\<close>

definition on_out :: "u32 \<Rightarrow> (cbb_state \<Rightarrow> 'a \<times> cbb_state) \<Rightarrow> cbb_state \<Rightarrow> 'a \<times> cbb_state" where
  "on_out string_tag f = (if string_tag \<noteq> 0 then f else on_child f)"

fun convert_ber_loop ::
    "nat \<Rightarrow> malloc_env \<Rightarrow> cbs \<Rightarrow> u32 \<Rightarrow> bool \<Rightarrow> nat \<Rightarrow> cbb_state \<Rightarrow> (bool \<times> cbs) option \<times> cbb_state" where
  "convert_ber_loop 0 al inp string_tag looking_for_eoc depth out = (None, out)"
| "convert_ber_loop (Suc n) al inp string_tag looking_for_eoc depth out =
     (if CBS_len inp > 0
      then case CBS_get_any_ber_asn1_element inp of
             (None, inp) \<Rightarrow> (Some (False, inp), out)
           | (Some (contents, tag, header_len), inp) \<Rightarrow>
               (if is_eoc header_len contents then (Some (looking_for_eoc, inp), out)
                else if string_tag \<noteq> 0 \<and> tag AND NOT CBS_ASN1_CONSTRUCTED \<noteq> string_tag
                then (Some (False, inp), out)
                else
                  (let is_string = (string_tag = 0 \<and> tag AND CBS_ASN1_CONSTRUCTED \<noteq> 0 \<and> is_string_type tag);
                       out_tag = (if is_string then tag AND NOT CBS_ASN1_CONSTRUCTED else tag);
                       child_string_tag = (if is_string then tag AND NOT CBS_ASN1_CONSTRUCTED else string_tag);
                       convert = (\<lambda>inp looking out.
                         if depth + 1 > kMaxDepth then (Some (False, inp), out)
                         else convert_ber_loop n al inp child_string_tag looking (depth + 1) out)
                   in case (if string_tag \<noteq> 0 then (True, out) else CBB_add_asn1 al out_tag out) of
                        (False, out) \<Rightarrow> (Some (False, inp), out)
                      | (True, out) \<Rightarrow>
                          (case (if is_indefinite header_len contents
                                 then on_out string_tag (convert inp True) out
                                 else case CBS_skip header_len contents of
                                        (None, _) \<Rightarrow> (Some (False, inp), out)
                                      | (Some _, contents) \<Rightarrow>
                                          (if tag AND CBS_ASN1_CONSTRUCTED \<noteq> 0
                                           then (case on_out string_tag (convert contents False) out of
                                                   (None, out) \<Rightarrow> (None, out)
                                                 | (Some (ok, _), out) \<Rightarrow> (Some (ok, inp), out))
                                           else (case on_out string_tag (CBB_add_bytes al contents) out of
                                                   (ok, out) \<Rightarrow> (Some (ok, inp), out)))) of
                             (None, out) \<Rightarrow> (None, out)
                           | (Some (False, inp), out) \<Rightarrow> (Some (False, inp), out)
                           | (Some (True, inp), out) \<Rightarrow>
                               (case CBB_flush al out of
                                  (False, out) \<Rightarrow> (Some (False, inp), out)
                                | (True, out) \<Rightarrow>
                                    convert_ber_loop n al inp string_tag looking_for_eoc depth out))))
      else (Some (\<not> looking_for_eoc, inp), out))"

definition cbs_convert_ber ::
    "nat \<Rightarrow> malloc_env \<Rightarrow> cbs \<Rightarrow> u32 \<Rightarrow> bool \<Rightarrow> nat \<Rightarrow> cbb_state \<Rightarrow> (bool \<times> cbs) option \<times> cbb_state" where
  "cbs_convert_ber n al inp string_tag looking_for_eoc depth out =
     (if depth > kMaxDepth then (Some (False, inp), out)
      else convert_ber_loop n al inp string_tag looking_for_eoc depth out)"

text \<open>
  \<open>CBS_asn1_ber_to_der\<close>: the result is \<open>*out\<close>, \<open>*out_storage\<close> and the CBS left in \<open>*in\<close>, \<open>None\<close> for the
  return value 0; \<open>t\<close> numbers its first request for memory.
\<close>

definition CBS_asn1_ber_to_der ::
    "malloc_env \<Rightarrow> nat \<Rightarrow> cbs \<Rightarrow> (cbs \<times> bytes option) option \<times> cbs" where
  "CBS_asn1_ber_to_der al t inp =
     (case cbs_find_ber inp 0 of
        None \<Rightarrow> (None, inp)
      | Some False \<Rightarrow>
          (case CBS_get_any_asn1_element inp of
             (None, inp) \<Rightarrow> (None, inp)
           | (Some (out, _, _), inp) \<Rightarrow> (Some (out, None), inp))
      | Some True \<Rightarrow>
          (case CBB_init al t (CBS_len inp) of
             (False, _) \<Rightarrow> (None, inp)
           | (True, cbb) \<Rightarrow>
               (case cbs_convert_ber (Suc (length inp)) al inp 0 False 0 cbb of
                  (Some (True, inp), cbb) \<Rightarrow>
                    (case CBB_finish al True True cbb of
                       ((True, Some out_storage, Some len), _) \<Rightarrow>
                         (Some (CBS_init out_storage len, Some out_storage), inp)
                     | _ \<Rightarrow> (None, inp))
                | (Some (False, inp), cbb) \<Rightarrow> (None, inp)
                | (None, cbb) \<Rightarrow> (None, inp))))"

text \<open>The loop of \<open>CBS_get_asn1_implicit_string\<close> over the chunks.\<close>

function implicit_string_loop :: "malloc_env \<Rightarrow> u32 \<Rightarrow> cbs \<Rightarrow> cbb_op" where
  "implicit_string_loop al inner_tag chunks st =
     (if CBS_len chunks > 0
      then case CBS_get_asn1 inner_tag chunks of
             (None, chunks) \<Rightarrow> (False, st)
           | (Some chunk, chunks) \<Rightarrow>
               (case CBB_add_bytes al chunk st of
                  (False, st) \<Rightarrow> (False, st)
                | (True, st) \<Rightarrow> implicit_string_loop al inner_tag chunks st)
      else (True, st))"
  by auto

termination implicit_string_loop
  by (relation "measure (\<lambda>(_, _, chunks, _). length chunks)")
     (auto simp: CBS_get_asn1_iff der_element_def dest!: sym [of "(Some _, _)"])

declare implicit_string_loop.simps [simp del]

definition CBS_get_asn1_implicit_string ::
    "malloc_env \<Rightarrow> nat \<Rightarrow> u32 \<Rightarrow> u32 \<Rightarrow> cbs \<Rightarrow> (cbs \<times> bytes option) option \<times> cbs" where
  "CBS_get_asn1_implicit_string al t outer_tag inner_tag inp =
     (if CBS_peek_asn1_tag inp outer_tag
      then (case CBS_get_asn1 outer_tag inp of
              (None, inp) \<Rightarrow> (None, inp)
            | (Some out, inp) \<Rightarrow> (Some (out, None), inp))
      else case CBB_init al t (CBS_len inp) of
             (False, _) \<Rightarrow> (None, inp)
           | (True, result) \<Rightarrow>
               (case CBS_get_asn1 (outer_tag OR CBS_ASN1_CONSTRUCTED) inp of
                  (None, inp) \<Rightarrow> (None, inp)
                | (Some chunks, inp) \<Rightarrow>
                    (case implicit_string_loop al inner_tag chunks result of
                       (False, _) \<Rightarrow> (None, inp)
                     | (True, result) \<Rightarrow>
                         (case CBB_finish al True True result of
                            ((True, Some data, Some len), _) \<Rightarrow> (Some (CBS_init data len, Some data), inp)
                          | _ \<Rightarrow> (None, inp)))))"

section \<open>Finishing for the i2d functions\<close>

text \<open>
  \<open>CBB_finish_i2d\<close>: \<open>outp\<close> is \<open>None\<close> for a NULL \<open>outp\<close>, \<open>Some None\<close> for one that points at NULL, and
  \<open>Some (Some p)\<close> when it points at the memory \<open>p\<close>. The result is the return value and the new
  contents of \<open>*outp\<close>: the fresh block, or the memory that was pointed at with the encoding written to
  its start (the pointer then advances by the return value).
\<close>

definition CBB_finish_i2d ::
    "malloc_env \<Rightarrow> bytes option option \<Rightarrow> cbb_state \<Rightarrow> int \<times> bytes option option" where
  "CBB_finish_i2d al outp cbb =
     (case CBB_finish al True True cbb of
        ((True, Some der, Some dlen), _) \<Rightarrow>
          (if dlen > 2 ^ 31 - 1 then (- 1, outp)
           else (int dlen,
                 (case outp of
                    None \<Rightarrow> None
                  | Some None \<Rightarrow> Some (Some der)
                  | Some (Some p) \<Rightarrow> Some (Some (write_at p 0 (take dlen der))))))
      | _ \<Rightarrow> (- 1, outp))"

section \<open>The fuel is enough\<close>

definition answers :: "nat \<Rightarrow> (cbb_state \<Rightarrow> (bool \<times> cbs) option \<times> cbb_state) \<Rightarrow> bool" where
  "answers k f \<longleftrightarrow> (\<forall>out. \<exists>ok inp out'. f out = (Some (ok, inp), out') \<and> length inp \<le> k)"

lemma answers_on_out: "answers k f \<Longrightarrow> answers k (on_out s f)"
  unfolding answers_def on_out_def on_child_def
proof (intro allI)
  fix out :: cbb_state
  assume a: "\<forall>out. \<exists>ok inp out'. f out = (Some (ok, inp), out') \<and> length inp \<le> k"
  show "\<exists>ok inp out'. (if s \<noteq> 0 then f else (\<lambda>st. case child (snd st) of None \<Rightarrow> (fst (f CBB_zero), st)
      | Some ch \<Rightarrow> (case f (fst st, ch) of (r, base, ch) \<Rightarrow> (r, base, set_child (Some ch) (snd st))))) out
      = (Some (ok, inp), out') \<and> length inp \<le> k"
  proof (cases "s \<noteq> 0")
    case True
    then show ?thesis using spec [OF a, of out] by (simp del: split_paired_Ex)
  next
    case False
    show ?thesis
    proof (cases "child (snd out)")
      case None
      from spec [OF a, of CBB_zero] obtain ok inp out' where "f CBB_zero = (Some (ok, inp), out')" "length inp \<le> k"
        by blast
      then show ?thesis using False None by (auto intro!: exI [of _ ok] exI [of _ inp])
    next
      case (Some ch)
      from spec [OF a, of "(fst out, ch)"] obtain ok inp out'
        where "f (fst out, ch) = (Some (ok, inp), out')" "length inp \<le> k"
        by blast
      then show ?thesis using False Some by (cases out') auto
    qed
  qed
qed

lemma answersD: "answers k f \<Longrightarrow> \<exists>ok inp out'. f out = (Some (ok, inp), out') \<and> length inp \<le> k"
  unfolding answers_def by (rule spec)

lemma convert_ber_loop_answers:
  "length inp < n \<Longrightarrow> answers (length inp) (convert_ber_loop n al inp s looking depth)"
proof (induction n arbitrary: inp s looking depth)
  case 0
  then show ?case by simp
next
  case (Suc n)
  show ?case
    unfolding answers_def
  proof
    fix out :: cbb_state
    show "\<exists>ok inp' out'. convert_ber_loop (Suc n) al inp s looking depth out = (Some (ok, inp'), out')
            \<and> length inp' \<le> length inp"
    proof (cases "CBS_len inp > 0")
      case False
      then show ?thesis by simp
    next
      case nonempty: True
      obtain e rest where e: "CBS_get_any_ber_asn1_element inp = (e, rest)" by fastforce
      show ?thesis
      proof (cases e)
        case None
        then have "length rest \<le> length inp"
          using e by (auto simp: CBS_get_any_ber_asn1_element_def cbs_get_any_asn1_element_def Let_def asn1_take_eq
              split: prod.splits option.splits if_splits)
        then show ?thesis
          using e None nonempty by (intro exI [of _ False] exI [of _ rest] exI [of _ out]) simp
      next
        case (Some elt)
        obtain contents tag hl where elt: "elt = (contents, tag, hl)" by (cases elt) auto
        then have got: "CBS_get_any_ber_asn1_element inp = (Some (contents, tag, hl), rest)" using e Some by simp
        have b: "inp = contents @ rest" "2 \<le> hl" "hl \<le> length contents" using ber_element_bounds [OF got] by auto
        define is_string where "is_string \<longleftrightarrow> s = 0 \<and> tag AND CBS_ASN1_CONSTRUCTED \<noteq> 0 \<and> is_string_type tag"
        define ct where "ct = (if is_string then tag AND NOT CBS_ASN1_CONSTRUCTED else s)"
        define conv where "conv = (\<lambda>inp looking out.
             if depth + 1 > kMaxDepth then (Some (False, inp), out)
             else convert_ber_loop n al inp ct looking (depth + 1) out)"
        have conv: "answers (length i) (conv i l)" if "length i < length inp" for i l
        proof (cases "depth + 1 > kMaxDepth")
          case False
          then have "conv i l = convert_ber_loop n al i ct l (depth + 1)" by (simp add: conv_def)
          then show ?thesis using Suc.IH [of i ct l "depth + 1"] that Suc.prems by simp
        qed (auto simp: conv_def answers_def intro: exI [of _ False])
        define step where "step = (\<lambda>out.
             if is_indefinite hl contents then on_out s (conv rest True) out
             else case CBS_skip hl contents of
                    (None, _) \<Rightarrow> (Some (False, rest), out)
                  | (Some _, contents) \<Rightarrow>
                      (if tag AND CBS_ASN1_CONSTRUCTED \<noteq> 0
                       then (case on_out s (conv contents False) out of
                               (None, out) \<Rightarrow> (None, out)
                             | (Some (ok, _), out) \<Rightarrow> (Some (ok, rest), out))
                       else (case on_out s (CBB_add_bytes al contents) out of
                               (ok, out) \<Rightarrow> (Some (ok, rest), out))))"
        have step: "answers (length rest) step"
          unfolding answers_def
        proof
          fix out
          show "\<exists>ok inp' out'. step out = (Some (ok, inp'), out') \<and> length inp' \<le> length rest"
          proof (cases "is_indefinite hl contents")
            case True
            have "length rest < length inp" using b by (cases contents) simp_all
            from answersD [OF answers_on_out [OF conv [OF this, of True]], of s out] True show ?thesis
              by (simp add: step_def)
          next
            case False
            have skip: "CBS_skip hl contents = (Some (), drop hl contents)" using b by (simp add: CBS_skip_eq)
            have "length (drop hl contents) < length inp" using b by simp
            from answersD [OF answers_on_out [OF conv [OF this, of False]], of s out]
            show ?thesis using False skip by (auto simp: step_def split: prod.split)
          qed
        qed
        have eq: "convert_ber_loop (Suc n) al inp s looking depth out =
          (if is_eoc hl contents then (Some (looking, rest), out)
           else if s \<noteq> 0 \<and> tag AND NOT CBS_ASN1_CONSTRUCTED \<noteq> s then (Some (False, rest), out)
           else case (if s \<noteq> 0 then (True, out)
                      else CBB_add_asn1 al (if is_string then tag AND NOT CBS_ASN1_CONSTRUCTED else tag) out) of
                  (False, out) \<Rightarrow> (Some (False, rest), out)
                | (True, out) \<Rightarrow>
                    (case step out of
                       (None, out) \<Rightarrow> (None, out)
                     | (Some (False, inp), out) \<Rightarrow> (Some (False, inp), out)
                     | (Some (True, inp), out) \<Rightarrow>
                         (case CBB_flush al out of
                            (False, out) \<Rightarrow> (Some (False, inp), out)
                          | (True, out) \<Rightarrow> convert_ber_loop n al inp s looking depth out)))"
          unfolding step_def conv_def ct_def is_string_def convert_ber_loop.simps(2) got prod.case option.case Let_def
          by (simp only: nonempty if_True)
        have len: "length rest < length inp" using b by (cases contents) simp_all
        have rec: "\<exists>ok inp'' out'. convert_ber_loop n al i s looking depth o' = (Some (ok, inp''), out')
                     \<and> length inp'' \<le> length inp" if "length i \<le> length rest" for i o'
          using answersD [OF Suc.IH [of i s looking depth], of o'] that len Suc.prems by fastforce
        obtain r o1 where o1: "(if s \<noteq> 0 then (True, out)
                      else CBB_add_asn1 al (if is_string then tag AND NOT CBS_ASN1_CONSTRUCTED else tag) out) = (r, o1)"
          by (rule prod.exhaust)
        obtain ok i o2 where o2: "step o1 = (Some (ok, i), o2)" "length i \<le> length rest"
          using answersD [OF step, of o1] by auto
        show ?thesis
          unfolding eq o1
          using o2 len rec by (auto split: prod.split bool.split)
      qed
    qed
  qed
qed

lemma convert_ber_fuel:
  "length inp < n \<Longrightarrow> fst (cbs_convert_ber n al inp s looking depth out) \<noteq> None"
  using answersD [OF convert_ber_loop_answers, of inp n al s looking depth out]
  by (auto simp: cbs_convert_ber_def)

section \<open>Properties\<close>

text \<open>
  C33: The BER-to-DER conversion terminates on every input: with fuel beyond the length of the input
  \<open>cbs_convert_ber\<close> always reaches one of the returns of the C code.
\<close>

theorem ber_conversion_terminates:
  assumes "length inp < n"
  shows "fst (cbs_convert_ber n al inp s looking depth out) \<noteq> None"
  using assms by (rule convert_ber_fuel)

theorem ber_conversion_terminates_witness:
  "fst (cbs_convert_ber 9 (\<lambda>_ _. None) [0x30, 0x80, 0, 0] 0 False 0 CBB_zero) \<noteq> None"
  by (rule ber_conversion_terminates) simp

section \<open>What the search for BER sees\<close>

text \<open>
  BER as trees: primitive and constructed elements with a definite length, whose tag and length are
  those of DER, and elements of indefinite length, which the end-of-contents octets close.
\<close>

datatype ber =
    Primitive u32 bytes
  | Constructed u32 "ber list"
  | Indefinite u32 "ber list"

fun ber_bytes :: "ber \<Rightarrow> bytes" where
  "ber_bytes (Primitive tag c) = der_element tag c"
| "ber_bytes (Constructed tag ts) = der_element tag (concat (map ber_bytes ts))"
| "ber_bytes (Indefinite tag ts) = der_tag tag @ [0x80] @ concat (map ber_bytes ts) @ [0, 0]"

fun ber_wf :: "ber \<Rightarrow> bool" where
  "ber_wf (Primitive tag c) \<longleftrightarrow> tag AND CBS_ASN1_CONSTRUCTED = 0 \<and> length c < 2 ^ 32"
| "ber_wf (Constructed tag ts) \<longleftrightarrow>
     tag AND CBS_ASN1_CONSTRUCTED \<noteq> 0 \<and> length (concat (map ber_bytes ts)) < 2 ^ 32 \<and> (\<forall>t\<in>set ts. ber_wf t)"
| "ber_wf (Indefinite tag ts) \<longleftrightarrow> tag AND CBS_ASN1_CONSTRUCTED \<noteq> 0 \<and> (\<forall>t\<in>set ts. ber_wf t)"

fun ber_depth :: "ber \<Rightarrow> nat" where
  "ber_depth (Primitive tag c) = 0"
| "ber_depth (Constructed tag ts) = Suc (foldr max (map ber_depth ts) 0)"
| "ber_depth (Indefinite tag ts) = Suc (foldr max (map ber_depth ts) 0)"

text \<open>An element that is itself not DER, and one with such an element anywhere in it.\<close>

fun not_der :: "ber \<Rightarrow> bool" where
  "not_der (Primitive tag c) \<longleftrightarrow> False"
| "not_der (Constructed tag ts) \<longleftrightarrow> is_string_type tag"
| "not_der (Indefinite tag ts) \<longleftrightarrow> True"

fun has_ber :: "ber \<Rightarrow> bool" where
  "has_ber (Primitive tag c) \<longleftrightarrow> False"
| "has_ber (Constructed tag ts) \<longleftrightarrow> is_string_type tag \<or> (\<exists>t\<in>set ts. has_ber t)"
| "has_ber (Indefinite tag ts) \<longleftrightarrow> True"

fun is_primitive :: "ber \<Rightarrow> bool" where
  "is_primitive (Primitive tag c) \<longleftrightarrow> True"
| "is_primitive _ \<longleftrightarrow> False"

text \<open>
  The elements in which the search finds BER: one of them is not DER, or BER is found in the
  contents of the last of them that is constructed.
\<close>

inductive sees_ber :: "ber list \<Rightarrow> bool" where
  here: "t \<in> set ts \<Longrightarrow> not_der t \<Longrightarrow> sees_ber ts"
| last_branch: "sees_ber cs \<Longrightarrow> \<forall>t\<in>set post. is_primitive t \<Longrightarrow> sees_ber (pre @ Constructed tag cs # post)"

lemma read_definite:
  "length c < 2 ^ 32 \<Longrightarrow>
     CBS_get_any_ber_asn1_element (der_element tag c @ rest)
       = (Some (der_element tag c, tag, der_header_len tag (length c)), rest)"
  by (simp add: CBS_get_any_ber_asn1_element_def cbs_get_any_asn1_element_complete)

lemma read_indefinite:
  assumes "tag AND CBS_ASN1_CONSTRUCTED \<noteq> 0"
  shows "CBS_get_any_ber_asn1_element (der_tag tag @ 0x80 # rest)
     = (Some (der_tag tag @ [0x80], tag, Suc (length (der_tag tag))), rest)"
  using assms
  by (simp add: CBS_get_any_ber_asn1_element_def cbs_get_any_asn1_element_def parse_asn1_tag_complete CBS_get_u8_Cons
      asn1_take_eq CBS_len_def Suc_diff_le)

lemma definite_not_indefinite: "\<not> is_indefinite (der_header_len tag (length c)) (der_element tag c)"
  by (cases "c = []")
    (auto simp: is_indefinite_def CBS_len_def length_der_element der_header_len_def der_element_def der_len_def nth_append)

lemma indefinite_is_indefinite: "is_indefinite (Suc (length (der_tag tag))) (der_tag tag @ [0x80])"
  by (simp add: is_indefinite_def CBS_len_def)

text \<open>The search as a walk over the elements, with the result of the last child walked so far.\<close>

fun walk :: "bool \<Rightarrow> ber list \<Rightarrow> bool" where
  "walk found [] = found"
| "walk found (Primitive tag c # ts) = walk found ts"
| "walk found (Indefinite tag cs # ts) = True"
| "walk found (Constructed tag cs # ts) = (if is_string_type tag then True else walk (walk False cs) ts)"

lemma der_element_nonempty: "der_element tag c \<noteq> []"
  by (simp add: der_element_def)

lemma find_ber_walk:
  assumes "\<forall>t\<in>set ts. ber_wf t \<and> depth + ber_depth t \<le> kMaxDepth"
  shows "find_ber_loop depth found (concat (map ber_bytes ts)) = Some (walk found ts)"
  using assms
proof (induction found ts arbitrary: depth rule: walk.induct)
  case (1 found)
  then show ?case by (simp add: find_ber_loop.simps CBS_len_def)
next
  case (2 found tag c ts)
  then show ?case
    by (subst find_ber_loop.simps) (simp add: read_definite definite_not_indefinite CBS_len_def der_element_nonempty)
next
  case (3 found tag cs ts)
  then show ?case
    by (subst find_ber_loop.simps) (simp add: read_indefinite indefinite_is_indefinite CBS_len_def)
next
  case (4 found tag cs ts)
  show ?case
  proof (cases "is_string_type tag")
    case True
    with 4(3) show ?thesis
      by (subst find_ber_loop.simps) (simp add: read_definite definite_not_indefinite CBS_len_def der_element_nonempty)
  next
    case False
    have "ber_depth t \<le> foldr max (map ber_depth cs) 0" if "t \<in> set cs" for t
      using that by (induction cs) auto
    with 4(3) have "\<forall>t\<in>set cs. ber_wf t \<and> (depth + 1) + ber_depth t \<le> kMaxDepth" by fastforce
    note cs = 4(1) [OF False this] 
    have "\<forall>t\<in>set ts. ber_wf t \<and> depth + ber_depth t \<le> kMaxDepth" using 4(3) by simp
    note ts = 4(2) [OF False this]
    from False 4(3) cs ts show ?thesis
      by (subst find_ber_loop.simps) (simp add: read_definite definite_not_indefinite der_header_take CBS_len_def der_element_nonempty)
  qed
qed

lemma not_der_has_ber: "not_der t \<Longrightarrow> has_ber t"
  by (cases t) auto

lemma primitive_der: "is_primitive t \<Longrightarrow> \<not> has_ber t"
  by (cases t) auto

lemma sees_ber_Nil [simp]: "\<not> sees_ber []"
  by (auto elim: sees_ber.cases)

lemma sees_ber_Cons:
  "sees_ber (t # ts) \<longleftrightarrow> not_der t \<or> sees_ber ts \<or> (\<exists>tag cs. t = Constructed tag cs \<and> sees_ber cs \<and> (\<forall>x\<in>set ts. is_primitive x))"
proof
  assume "sees_ber (t # ts)"
  then show "not_der t \<or> sees_ber ts \<or> (\<exists>tag cs. t = Constructed tag cs \<and> sees_ber cs \<and> (\<forall>x\<in>set ts. is_primitive x))"
    by cases (auto simp: Cons_eq_append_conv intro: sees_ber.intros)
next
  assume r: "not_der t \<or> sees_ber ts \<or> (\<exists>tag cs. t = Constructed tag cs \<and> sees_ber cs \<and> (\<forall>x\<in>set ts. is_primitive x))"
  have "sees_ber (t # ts)" if "sees_ber ts"
    using that
  proof cases
    case (here x)
    then show ?thesis by (auto intro: sees_ber.here)
  next
    case (last_branch cs post pre tag)
    then show ?thesis using sees_ber.last_branch [of cs post "t # pre" tag] by simp
  qed
  with r show "sees_ber (t # ts)" using sees_ber.last_branch [of _ ts "[]"] by (auto intro: sees_ber.here)
qed

lemma walk_sees_ber: "walk found ts \<longleftrightarrow> sees_ber ts \<or> found \<and> (\<forall>t\<in>set ts. is_primitive t)"
  by (induction found ts rule: walk.induct) (auto simp: sees_ber_Cons)

lemma sees_ber_has_ber: "sees_ber ts \<Longrightarrow> \<exists>t\<in>set ts. has_ber t"
proof (induction rule: sees_ber.induct)
  case (here t ts)
  then show ?case using not_der_has_ber by blast
qed auto

lemma find_ber_sees:
  assumes "\<forall>t\<in>set ts. ber_wf t \<and> depth + ber_depth t \<le> kMaxDepth" "depth \<le> kMaxDepth"
  shows "cbs_find_ber (concat (map ber_bytes ts)) depth = Some (sees_ber ts)"
  using find_ber_walk [OF assms(1), of False] assms(2)
  by (simp add: cbs_find_ber_def walk_sees_ber CBS_init_def CBS_data_def CBS_len_def)

lemma sees_ber_append:
  assumes "\<forall>t\<in>set post. is_primitive t"
  shows "sees_ber (pre @ Constructed tag cs # post) \<longleftrightarrow> (\<exists>t\<in>set (pre @ Constructed tag cs # post). not_der t) \<or> sees_ber cs"
proof -
  have post: "\<not> not_der t" if "t \<in> set post" for t
    using that assms not_der_has_ber primitive_der by blast
  have "\<not> sees_ber post" using sees_ber_has_ber primitive_der assms by blast
  with assms show ?thesis by (induction pre) (auto simp: sees_ber_Cons post)
qed

lemma ber_to_der_unseen:
  assumes "ber_wf (Constructed tag ts)" "ber_depth (Constructed tag ts) \<le> kMaxDepth" "\<not> is_string_type tag" "\<not> sees_ber ts"
  shows "CBS_asn1_ber_to_der al n (ber_bytes (Constructed tag ts)) = (Some (ber_bytes (Constructed tag ts), None), [])"
proof -
  have "CBS_get_any_asn1_element (ber_bytes (Constructed tag ts)) =
      (Some (ber_bytes (Constructed tag ts), tag, der_header_len tag (length (concat (map ber_bytes ts)))), [])"
    using assms(1) cbs_get_any_asn1_element_complete [of "concat (map ber_bytes ts)" False tag "[]"]
    by (simp add: CBS_get_any_asn1_element_def)
  moreover have "cbs_find_ber (ber_bytes (Constructed tag ts)) 0 = Some False"
    using find_ber_sees [of "[Constructed tag ts]" 0] assms by (simp add: sees_ber_Cons)
  ultimately show ?thesis by (simp add: CBS_asn1_ber_to_der_def)
qed

text \<open>
  C24: The search for BER follows the last branch only. On any sequence of well-formed elements, nested
  at most \<open>kMaxDepth\<close> deep, \<open>cbs_find_ber\<close> succeeds and reports BER exactly if an element of the
  sequence is itself not DER (a constructed string or of indefinite length), or if this holds, in the
  same way, of the contents of the last constructed element. So what it reports is there, but BER inside
  an earlier constructed element is missed, whatever it is, when the last constructed element contains
  only DER; primitive elements after that one change nothing. Of an element whose contents are such a sequence
  \<open>CBS_asn1_ber_to_der\<close> then returns the bytes as they are, as if they were DER.
\<close>

theorem ber_search_follows_last_branch:
  assumes "\<forall>t\<in>set ts. ber_wf t \<and> Suc (ber_depth t) \<le> kMaxDepth"
  shows "cbs_find_ber (concat (map ber_bytes ts)) 0 = Some (sees_ber ts)
    \<and> (sees_ber ts \<longrightarrow> (\<exists>t\<in>set ts. has_ber t))
    \<and> (\<forall>pre tag' cs post. ts = pre @ Constructed tag' cs # post \<and> (\<forall>t\<in>set post. is_primitive t)
         \<and> (\<forall>t\<in>set ts. \<not> not_der t) \<and> (\<forall>t\<in>set cs. \<not> has_ber t) \<longrightarrow> \<not> sees_ber ts)
    \<and> (ber_wf (Constructed tag ts) \<and> \<not> is_string_type tag \<and> \<not> sees_ber ts \<longrightarrow>
         CBS_asn1_ber_to_der al n (ber_bytes (Constructed tag ts)) = (Some (ber_bytes (Constructed tag ts), None), []))"
proof (intro conjI)
  have "foldr max (map ber_depth ts) 0 < kMaxDepth"
    using assms by (induction ts) auto
  then show "ber_wf (Constructed tag ts) \<and> \<not> is_string_type tag \<and> \<not> sees_ber ts \<longrightarrow>
         CBS_asn1_ber_to_der al n (ber_bytes (Constructed tag ts)) = (Some (ber_bytes (Constructed tag ts), None), [])"
    using ber_to_der_unseen [of tag ts al n] by simp
  show "cbs_find_ber (concat (map ber_bytes ts)) 0 = Some (sees_ber ts)"
    using assms by (intro find_ber_sees) auto
qed (use sees_ber_has_ber sees_ber_append in blast)+

theorem ber_search_follows_last_branch_witness:
  "let hidden = [Constructed 0x20000010 [Indefinite 0x20000010 []], Constructed 0x20000010 [], Primitive 2 [1]]
   in has_ber (hd hidden) \<and> cbs_find_ber (concat (map ber_bytes hidden)) 0 = Some False
      \<and> CBS_asn1_ber_to_der (\<lambda>_ _. None) 0 (ber_bytes (Constructed 0x20000010 hidden))
        = (Some (ber_bytes (Constructed 0x20000010 hidden), None), [])"
proof -
  define hidden where "hidden = [Constructed 0x20000010 [Indefinite 0x20000010 []], Constructed 0x20000010 [], Primitive 2 [1]]"
  have tags: "der_tag 0x20000010 = [0x30]" "der_tag 2 = [2]" by code_simp+
  have wf: "\<forall>t\<in>set hidden. ber_wf t \<and> Suc (ber_depth t) \<le> kMaxDepth" "ber_wf (Constructed 0x20000010 hidden)"
    by (simp_all add: hidden_def der_element_def tags der_len_def)
  have unseen: "\<not> sees_ber hidden" "has_ber (hd hidden)" "\<not> is_string_type 0x20000010"
    by (simp_all add: hidden_def sees_ber_Cons is_string_type_def)
  have "cbs_find_ber (concat (map ber_bytes hidden)) 0 = Some False
      \<and> CBS_asn1_ber_to_der (\<lambda>_ _. None) 0 (ber_bytes (Constructed 0x20000010 hidden))
        = (Some (ber_bytes (Constructed 0x20000010 hidden), None), [])"
    using ber_search_follows_last_branch [OF wf(1), where tag = "0x20000010" and al = "\<lambda>_ _. None" and n = 0] wf(2) unseen
    by (simp del: ber_bytes.simps ber_wf.simps)
  with unseen(2) show ?thesis by (simp only: Let_def flip: hidden_def)
qed

end
