(* ===== verification/ConstTime.thy ===== *)
theory ConstTime
  imports Prelude
begin

text \<open>
  The constant-time helpers of \<^verbatim>\<open>crypto/internal.h\<close> that \<^verbatim>\<open>base64.c\<close> uses. \<^verbatim>\<open>crypto_word_t\<close> is 64 bits.
  \<open>value_barrier_w\<close> is an empty assembler statement and returns its argument.
\<close>

definition constant_time_msb_w :: "u64 \<Rightarrow> u64" where
  "constant_time_msb_w a = 0 - drop_bit (8 * 8 - 1) a"

definition constant_time_lt_w :: "u64 \<Rightarrow> u64 \<Rightarrow> u64" where
  "constant_time_lt_w a b = constant_time_msb_w (a XOR ((a XOR b) OR ((a - b) XOR a)))"

definition constant_time_lt_8 :: "u64 \<Rightarrow> u64 \<Rightarrow> u8" where
  "constant_time_lt_8 a b = ucast (constant_time_lt_w a b)"

definition constant_time_ge_w :: "u64 \<Rightarrow> u64 \<Rightarrow> u64" where
  "constant_time_ge_w a b = NOT (constant_time_lt_w a b)"

definition constant_time_ge_8 :: "u64 \<Rightarrow> u64 \<Rightarrow> u8" where
  "constant_time_ge_8 a b = ucast (constant_time_ge_w a b)"

definition constant_time_is_zero_w :: "u64 \<Rightarrow> u64" where
  "constant_time_is_zero_w a = constant_time_msb_w (NOT a AND (a - 1))"

definition constant_time_is_zero_8 :: "u64 \<Rightarrow> u8" where
  "constant_time_is_zero_8 a = ucast (constant_time_is_zero_w a)"

definition constant_time_eq_w :: "u64 \<Rightarrow> u64 \<Rightarrow> u64" where
  "constant_time_eq_w a b = constant_time_is_zero_w (a XOR b)"

definition constant_time_eq_8 :: "u64 \<Rightarrow> u64 \<Rightarrow> u8" where
  "constant_time_eq_8 a b = ucast (constant_time_eq_w a b)"

definition value_barrier_w :: "u64 \<Rightarrow> u64" where
  "value_barrier_w a = a"

definition constant_time_select_w :: "u64 \<Rightarrow> u64 \<Rightarrow> u64 \<Rightarrow> u64" where
  "constant_time_select_w msk a b = (value_barrier_w msk AND a) OR (value_barrier_w (NOT msk) AND b)"

text \<open>An 8-bit mask is widened with zeros, and the result is truncated.\<close>

definition constant_time_select_8 :: "u8 \<Rightarrow> u8 \<Rightarrow> u8 \<Rightarrow> u8" where
  "constant_time_select_8 msk a b = ucast (constant_time_select_w (ucast msk) (ucast a) (ucast b))"

section \<open>What they compute\<close>

lemma drop_63: "drop_bit 63 (a :: u64) = (if bit a 63 then 1 else 0)"
proof (rule bit_word_eqI)
  fix n
  show "bit (drop_bit 63 a) n = bit (if bit a 63 then 1 else 0 :: u64) n"
    using bit_imp_le_length [of a "63 + n"] by (cases n) (auto simp: bit_simps)
qed

lemma msb_w_eq: "constant_time_msb_w a = (if bit a 63 then - 1 else 0)"
  using drop_63 [of a] by (simp add: constant_time_msb_w_def)

lemma bit_63_iff: "bit (a :: u64) 63 \<longleftrightarrow> 2 ^ 63 \<le> unat a"
proof -
  have "unat a div 2 ^ 63 < 2" using unat_less_64 [of a] by (simp add: div_less_iff_less_mult)
  then have "unat a div 2 ^ 63 = 0 \<or> unat a div 2 ^ 63 = 1" by auto
  then show ?thesis by (auto simp: bit_iff_unat div_eq_0_iff)
qed

lemma unat_diff: "unat (a - b :: u64) = (if unat b \<le> unat a then unat a - unat b else unat a + 2 ^ 64 - unat b)"
  using unat_sub_if' [of a b] by simp

lemma constant_time_lt_w_eq: "constant_time_lt_w a b = (if a < b then - 1 else 0)"
proof -
  have lt: "a < b \<longleftrightarrow> unat a < unat b" by (simp add: word_less_nat_alt)
  have b: "bit (a - b) 63 \<longleftrightarrow> 2 ^ 63 \<le> (if unat b \<le> unat a then unat a - unat b else unat a + 2 ^ 64 - unat b)"
    by (simp only: bit_63_iff unat_diff)
  have r: "unat a < 2 ^ 64" "unat b < 2 ^ 64" by simp_all
  have "bit (a XOR ((a XOR b) OR ((a - b) XOR a))) 63 \<longleftrightarrow> a < b"
    unfolding bit_xor_iff bit_or_iff b lt unfolding bit_63_iff using r
    by (auto simp del: unat_less_64 unat_less_64_num)
  then show ?thesis by (simp add: constant_time_lt_w_def msb_w_eq)
qed

lemma constant_time_is_zero_w_eq: "constant_time_is_zero_w a = (if a = 0 then - 1 else 0)"
proof -
  have "bit (NOT a AND (a - 1)) 63 \<longleftrightarrow> a = 0"
  proof (cases "a = 0")
    case True
    then show ?thesis by (simp add: bit_simps)
  next
    case False
    then have "unat (a - 1) = unat a - 1" by (simp add: unat_minus_one)
    then show ?thesis using False unfolding bit_and_iff bit_not_iff unfolding bit_63_iff by auto
  qed
  then show ?thesis by (simp add: constant_time_is_zero_w_def msb_w_eq)
qed

lemma constant_time_eq_w_eq: "constant_time_eq_w a b = (if a = b then - 1 else 0)"
  by (simp add: constant_time_eq_w_def constant_time_is_zero_w_eq xor_eq_0_iff)

lemma constant_time_ge_w_eq: "constant_time_ge_w a b = (if b \<le> a then - 1 else 0)"
  by (auto simp: constant_time_ge_w_def constant_time_lt_w_eq not_less)

text \<open>The 8-bit masks are \<open>0xff\<close> and \<open>0\<close>.\<close>

lemma ucast_mask [simp]: "(ucast (- 1 :: u64) :: u8) = - 1"
  by (rule bit_word_eqI) (simp add: bit_simps)

lemma constant_time_8_eq:
  "constant_time_lt_8 a b = (if a < b then - 1 else 0)"
  "constant_time_ge_8 a b = (if b \<le> a then - 1 else 0)"
  "constant_time_is_zero_8 a = (if a = 0 then - 1 else 0)"
  "constant_time_eq_8 a b = (if a = b then - 1 else 0)"
  by (simp_all add: constant_time_lt_8_def constant_time_ge_8_def constant_time_is_zero_8_def constant_time_eq_8_def
      constant_time_lt_w_eq constant_time_ge_w_eq constant_time_is_zero_w_eq constant_time_eq_w_eq)

lemma constant_time_select_w_eq:
  "constant_time_select_w (- 1) a b = a" "constant_time_select_w 0 a b = b"
  by (simp_all add: constant_time_select_w_def value_barrier_w_def)

lemma ucast_8_64_8: "ucast (ucast (a :: u8) :: u64) = a"
  by (rule bit_word_eqI) (auto simp: bit_simps dest: bit_imp_le_length)

text \<open>With the zero-extended mask the top bytes are those of \<open>b\<close>, which the truncation drops.\<close>

lemma constant_time_select_8_eq:
  "constant_time_select_8 (- 1) a b = a" "constant_time_select_8 0 a b = b"
  unfolding constant_time_select_8_def constant_time_select_w_def value_barrier_w_def
  by (rule bit_word_eqI; auto simp: bit_simps dest: bit_imp_le_length)+

section \<open>Properties\<close>

text \<open>
  The branch-free comparisons are the comparisons: each returns the all-ones word when the relation
  holds and zero otherwise, for all pairs of 64-bit words.
\<close>

theorem constant_time_comparisons:
  "constant_time_lt_w a b = (if a < b then - 1 else 0) \<and>
   constant_time_ge_w a b = (if b \<le> a then - 1 else 0) \<and>
   constant_time_eq_w a b = (if a = b then - 1 else 0) \<and>
   constant_time_is_zero_w a = (if a = 0 then - 1 else 0)"
  by (simp add: constant_time_lt_w_eq constant_time_ge_w_eq constant_time_eq_w_eq constant_time_is_zero_w_eq)

end
