(* ===== verification/Base64.thy ===== *)
theory Base64
  imports ConstTime
begin

text \<open>
  \<^verbatim>\<open>crypto/base64/base64.c\<close>: base64 by blocks and as a stream.

  A function that stores through an advancing \<open>out\<close> pointer yields the bytes it has stored there. The
  encoder's context holds the bytes of an unfinished 48-byte line, the decoder's the characters of an
  unfinished quad; both keep them in \<open>data[0 .. data_used - 1]\<close> of the 48-byte array. \<^verbatim>\<open>int\<close> results are
  integers.
\<close>

section \<open>One character\<close>

definition constant_time_lt_args_8 :: "u8 \<Rightarrow> u8 \<Rightarrow> u8" where
  "constant_time_lt_args_8 a b =
     (let aw = (ucast a :: u64); bw = (ucast b :: u64) in ucast (constant_time_msb_w (aw - bw)))"

definition constant_time_in_range_8 :: "u8 \<Rightarrow> u8 \<Rightarrow> u8 \<Rightarrow> u8" where
  "constant_time_in_range_8 a mn mx = (let a = a - mn in constant_time_lt_args_8 a (mx - mn + 1))"

definition conv_bin2ascii :: "u8 \<Rightarrow> u8" where
  "conv_bin2ascii a =
     (let a = a AND 0x3f;
          ret = constant_time_select_8 (constant_time_eq_8 (ucast a) 62) 43 47;
          ret = constant_time_select_8 (constant_time_lt_args_8 a 62) (a - 52 + 48) ret;
          ret = constant_time_select_8 (constant_time_lt_args_8 a 52) (a - 26 + 97) ret;
          ret = constant_time_select_8 (constant_time_lt_args_8 a 26) (a + 65) ret
      in ret)"

definition base64_ascii_to_bin :: "u8 \<Rightarrow> u8" where
  "base64_ascii_to_bin a =
     (let is_upper = constant_time_in_range_8 a 65 90;
          is_lower = constant_time_in_range_8 a 97 122;
          is_digit = constant_time_in_range_8 a 48 57;
          is_plus = constant_time_eq_8 (ucast a) 43;
          is_slash = constant_time_eq_8 (ucast a) 47;
          is_equals = constant_time_eq_8 (ucast a) 61;
          ret = 0xff;
          ret = constant_time_select_8 is_upper (a - 65) ret;
          ret = constant_time_select_8 is_lower (a - 97 + 26) ret;
          ret = constant_time_select_8 is_digit (a - 48 + 52) ret;
          ret = constant_time_select_8 is_plus 62 ret;
          ret = constant_time_select_8 is_slash 63 ret;
          ret = constant_time_select_8 is_equals 0 ret
      in ret)"

section \<open>Encoding\<close>

text \<open>\<^verbatim>\<open>size_t\<close> arithmetic, with its wrap-around.\<close>

definition EVP_EncodedLength :: "nat \<Rightarrow> nat option" where
  "EVP_EncodedLength len =
     (if (len + 2) mod 2 ^ 64 < len then None
      else
        (let len = (len + 2) mod 2 ^ 64; len = len div 3 in
         if (len * 4 mod 2 ^ 64) div 4 \<noteq> len then None
         else
           (let len = len * 4 mod 2 ^ 64 in
            if (len + 1) mod 2 ^ 64 < len then None else Some ((len + 1) mod 2 ^ 64))))"

text \<open>The loop of \<open>EVP_EncodeBlock\<close>: the characters, and \<open>ret\<close>.\<close>

fun encode_block_loop :: "bytes \<Rightarrow> nat \<Rightarrow> bytes \<times> nat" where
  "encode_block_loop (s0 # s1 # s2 # src) ret =
     (let l = push_bit 16 (ucast s0) OR push_bit 8 (ucast s1) OR (ucast s2 :: u32) in
      case encode_block_loop src (ret + 4) of
        (dst, ret) \<Rightarrow>
          (conv_bin2ascii (ucast (drop_bit 18 l)) # conv_bin2ascii (ucast (drop_bit 12 l)) #
           conv_bin2ascii (ucast (drop_bit 6 l)) # conv_bin2ascii (ucast l) # dst, ret))"
| "encode_block_loop [s0, s1] ret =
     (let l = push_bit 16 (ucast s0) OR (push_bit 8 (ucast s1) :: u32) in
      ([conv_bin2ascii (ucast (drop_bit 18 l)), conv_bin2ascii (ucast (drop_bit 12 l)),
        conv_bin2ascii (ucast (drop_bit 6 l)), 61], ret + 4))"
| "encode_block_loop [s0] ret =
     (let l = (push_bit 16 (ucast s0) :: u32) in
      ([conv_bin2ascii (ucast (drop_bit 18 l)), conv_bin2ascii (ucast (drop_bit 12 l)), 61, 61], ret + 4))"
| "encode_block_loop [] ret = ([], ret)"

definition EVP_EncodeBlock :: "bytes \<Rightarrow> bytes \<times> nat" where
  "EVP_EncodeBlock src = (case encode_block_loop src 0 of (dst, ret) \<Rightarrow> (dst @ [0], ret))"

record evp_encode_ctx =
  data_used :: nat
  data :: bytes
  eof_seen :: bool
  error_encountered :: bool

definition EVP_EncodeInit :: evp_encode_ctx where
  "EVP_EncodeInit = \<lparr>data_used = 0, data = replicate 48 0, eof_seen = False, error_encountered = False\<rparr>"

text \<open>
  The \<open>while\<close> loop of \<open>EVP_EncodeUpdate\<close>. The state is what has been stored before the terminating NUL,
  and \<open>tot\<close>; the result \<open>None\<close> is the early return on overflow.
\<close>

function encode_lines :: "bytes \<Rightarrow> bytes \<Rightarrow> nat \<Rightarrow> bytes \<times> (bytes \<times> nat) option" where
  "encode_lines inp out tot =
     (if length inp \<ge> 48
      then (case EVP_EncodeBlock (take 48 inp) of
              (blk, encoded) \<Rightarrow>
                (let out = out @ take encoded blk @ [10] in
                 if (tot + encoded + 1) mod 2 ^ 64 < tot then (out, None)
                 else encode_lines (drop 48 inp) out ((tot + encoded + 1) mod 2 ^ 64)))
      else (out, Some (inp, tot)))"
  by auto

termination encode_lines
  by (relation "measure (\<lambda>(inp, _). length inp)") auto

declare encode_lines.simps [simp del]

text \<open>\<open>EVP_EncodeUpdate\<close>: what is stored at \<open>out\<close> (with the NUL, when any line is), \<open>*out_len\<close>, and the context.\<close>

definition EVP_EncodeUpdate :: "evp_encode_ctx \<Rightarrow> bytes \<Rightarrow> bytes \<times> int \<times> evp_encode_ctx" where
  "EVP_EncodeUpdate ctx inp =
     (if length inp = 0 then ([], 0, ctx)
      else if 48 - data_used ctx > length inp then
        ([], 0, ctx\<lparr>data := write_at (data ctx) (data_used ctx) inp, data_used := data_used ctx + length inp\<rparr>)
      else
        (case (if data_used ctx \<noteq> 0
               then (let todo = 48 - data_used ctx;
                         ctx = ctx\<lparr>data := write_at (data ctx) (data_used ctx) (take todo inp)\<rparr>
                     in case EVP_EncodeBlock (data ctx) of
                          (blk, encoded) \<Rightarrow>
                            (take encoded blk @ [10], encoded + 1, drop todo inp, ctx\<lparr>data_used := 0\<rparr>))
               else ([], 0, inp, ctx)) of
           (out, tot, inp, ctx) \<Rightarrow>
             (case encode_lines inp out tot of
                (out, None) \<Rightarrow> (out @ [0], 0, ctx)
              | (out, Some (inp, tot)) \<Rightarrow>
                  (let ctx = (if length inp \<noteq> 0 then ctx\<lparr>data := write_at (data ctx) 0 inp\<rparr> else ctx);
                       ctx = ctx\<lparr>data_used := length inp\<rparr>;
                       tot = (if tot > 2 ^ 31 - 1 then 0 else tot)
                   in (if out = [] then [] else out @ [0], int tot, ctx)))))"

definition EVP_EncodeFinal :: "evp_encode_ctx \<Rightarrow> bytes \<times> int \<times> evp_encode_ctx" where
  "EVP_EncodeFinal ctx =
     (if data_used ctx = 0 then ([], 0, ctx)
      else case EVP_EncodeBlock (take (data_used ctx) (data ctx)) of
             (blk, encoded) \<Rightarrow>
               (take encoded blk @ [10, 0], int (encoded + 1), ctx\<lparr>data_used := 0\<rparr>))"

section \<open>Decoding\<close>

definition EVP_DecodedLength :: "nat \<Rightarrow> nat option" where
  "EVP_DecodedLength len = (if len mod 4 \<noteq> 0 then None else Some (len div 4 * 3 mod 2 ^ 64))"

definition EVP_DecodeInit :: evp_encode_ctx where
  "EVP_DecodeInit = \<lparr>data_used = 0, data = replicate 48 0, eof_seen = False, error_encountered = False\<rparr>"

text \<open>\<open>base64_decode_quad\<close> on the four characters it reads; the length of the result is \<open>*out_num_bytes\<close>.\<close>

definition base64_decode_quad :: "u8 \<Rightarrow> u8 \<Rightarrow> u8 \<Rightarrow> u8 \<Rightarrow> bytes option" where
  "base64_decode_quad in0 in1 in2 in3 =
     (let a = base64_ascii_to_bin in0; b = base64_ascii_to_bin in1;
          c = base64_ascii_to_bin in2; d = base64_ascii_to_bin in3
      in if a = 0xff \<or> b = 0xff \<or> c = 0xff \<or> d = 0xff then None
         else
           (let v = push_bit 18 (ucast a) OR push_bit 12 (ucast b) OR push_bit 6 (ucast c) OR (ucast d :: u32);
                padding_pattern = push_bit 3 (of_bool (in0 = 61)) OR push_bit 2 (of_bool (in1 = 61))
                                  OR push_bit 1 (of_bool (in2 = 61)) OR (of_bool (in3 = 61) :: u32)
            in if padding_pattern = 0 then Some [ucast (drop_bit 16 v), ucast (drop_bit 8 v), ucast v]
               else if padding_pattern = 1 then Some [ucast (drop_bit 16 v), ucast (drop_bit 8 v)]
               else if padding_pattern = 3 then Some [ucast (drop_bit 16 v)]
               else None))"

text \<open>
  The loop of \<open>EVP_DecodeUpdate\<close>: whether it ran to the end, the bytes stored, and the context.
\<close>

fun decode_update_loop :: "evp_encode_ctx \<Rightarrow> bytes \<Rightarrow> bytes \<Rightarrow> bool \<times> bytes \<times> evp_encode_ctx" where
  "decode_update_loop ctx out [] = (True, out, ctx)"
| "decode_update_loop ctx out (c # inp) =
     (if c \<in> {32, 9, 13, 10} then decode_update_loop ctx out inp
      else if eof_seen ctx then (False, out, ctx\<lparr>error_encountered := True\<rparr>)
      else
        (let ctx = ctx\<lparr>data := (data ctx)[data_used ctx := c], data_used := data_used ctx + 1\<rparr> in
         if data_used ctx = 4 then
           (case base64_decode_quad (data ctx ! 0) (data ctx ! 1) (data ctx ! 2) (data ctx ! 3) of
              None \<Rightarrow> (False, out, ctx\<lparr>error_encountered := True\<rparr>)
            | Some bs \<Rightarrow>
                (let ctx = ctx\<lparr>data_used := 0\<rparr>;
                     ctx = (if length bs < 3 then ctx\<lparr>eof_seen := True\<rparr> else ctx)
                 in decode_update_loop ctx (out @ bs) inp))
         else decode_update_loop ctx out inp))"

text \<open>\<open>EVP_DecodeUpdate\<close>: the return value, the bytes stored, \<open>*out_len\<close>, and the context.\<close>

definition EVP_DecodeUpdate :: "evp_encode_ctx \<Rightarrow> bytes \<Rightarrow> int \<times> bytes \<times> int \<times> evp_encode_ctx" where
  "EVP_DecodeUpdate ctx inp =
     (if error_encountered ctx then (- 1, [], 0, ctx)
      else case decode_update_loop ctx [] inp of
             (False, out, ctx) \<Rightarrow> (- 1, out, 0, ctx)
           | (True, out, ctx) \<Rightarrow>
               (if length out > 2 ^ 31 - 1 then (- 1, out, 0, ctx\<lparr>error_encountered := True\<rparr>)
                else if eof_seen ctx then (0, out, int (length out), ctx)
                else (1, out, int (length out), ctx)))"

definition EVP_DecodeFinal :: "evp_encode_ctx \<Rightarrow> int \<times> int" where
  "EVP_DecodeFinal ctx = (if error_encountered ctx \<or> data_used ctx \<noteq> 0 then (- 1, 0) else (1, 0))"

text \<open>The loop of \<open>EVP_DecodeBase64\<close>, four characters at a time.\<close>

fun decode_base64_loop :: "bytes \<Rightarrow> bytes option" where
  "decode_base64_loop (in0 # in1 # in2 # in3 # inp) =
     (case base64_decode_quad in0 in1 in2 in3 of
        None \<Rightarrow> None
      | Some bs \<Rightarrow>
          (if length bs \<noteq> 3 \<and> inp \<noteq> [] then None else map_option ((@) bs) (decode_base64_loop inp)))"
| "decode_base64_loop _ = Some []"

text \<open>The result is what is stored at \<open>out\<close> (its length is \<open>*out_len\<close>), \<open>None\<close> for the return value 0.\<close>

definition EVP_DecodeBase64 :: "nat \<Rightarrow> bytes \<Rightarrow> bytes option" where
  "EVP_DecodeBase64 max_out inp =
     (if length inp mod 4 \<noteq> 0 then None
      else case EVP_DecodedLength (length inp) of
             None \<Rightarrow> None
           | Some max_len \<Rightarrow> (if max_out < max_len then None else decode_base64_loop inp))"

text \<open>The loop that puts the NULs back.\<close>

function pad_to_3 :: "bytes \<Rightarrow> bytes" where
  "pad_to_3 dst = (if length dst mod 3 \<noteq> 0 then pad_to_3 (dst @ [0]) else dst)"
  by auto

termination pad_to_3
  by (relation "measure (\<lambda>dst. (3 - length dst mod 3) mod 3)") (auto simp: mod_Suc)

declare pad_to_3.simps [simp del]

text \<open>\<open>EVP_DecodeBlock\<close>: the return value and what is stored at \<open>dst\<close>.\<close>

definition EVP_DecodeBlock :: "bytes \<Rightarrow> int \<times> bytes" where
  "EVP_DecodeBlock src =
     (let src = dropWhile (\<lambda>c. c = 32 \<or> c = 9) src;
          src = rev (dropWhile (\<lambda>c. c = 32 \<or> c = 9 \<or> c = 13 \<or> c = 10) (rev src))
      in case EVP_DecodedLength (length src) of
           None \<Rightarrow> (- 1, [])
         | Some dst_len \<Rightarrow>
             (if dst_len > 2 ^ 31 - 1 then (- 1, [])
              else case EVP_DecodeBase64 dst_len src of
                     None \<Rightarrow> (- 1, [])
                   | Some dst \<Rightarrow>
                       (let dst = pad_to_3 dst in (int (length dst), dst))))"

section \<open>The alphabet\<close>

definition b64 :: "nat \<Rightarrow> u8" where
  "b64 n = (if n < 26 then of_nat (65 + n) else if n < 52 then of_nat (97 + (n - 26))
            else if n < 62 then of_nat (48 + (n - 52)) else if n = 62 then 43 else 47)"

lemma lt_args_8_eq: "constant_time_lt_args_8 a b = (if a < b then - 1 else 0)"
proof -
  have u: "unat (ucast x :: u64) = unat x" for x :: u8
    by (simp only: unat_ucast) (use unat_u8_less [of x] in simp)
  have "bit (ucast a - ucast b :: u64) 63 \<longleftrightarrow> a < b"
    using unat_u8_less [of a] unat_u8_less [of b]
    by (simp only: bit_63_iff unat_diff u word_less_nat_alt) auto
  then show ?thesis by (simp add: constant_time_lt_args_8_def Let_def msb_w_eq)
qed

lemma u8_sub: "unat (b :: u8) \<le> unat a \<Longrightarrow> unat (a - b) = unat a - unat b"
  by (simp add: unat_sub word_le_nat_alt)

lemma u8_sub_wrap: "unat a < unat (b :: u8) \<Longrightarrow> unat (a - b) = unat a + 256 - unat b"
  using unat_sub_if' [of a b] by simp

lemma in_range_8_eq:
  assumes "unat mn \<le> unat mx" "unat mx < 255"
  shows "constant_time_in_range_8 a mn mx = (if unat mn \<le> unat a \<and> unat a \<le> unat mx then - 1 else 0)"
proof -
  have "unat (mx - mn + 1) = unat mx - unat mn + 1"
    using assms by (simp add: unat_word_ariths u8_sub)
  then have "a - mn < mx - mn + 1 \<longleftrightarrow> unat mn \<le> unat a \<and> unat a \<le> unat mx"
    using assms unat_u8_less [of a] u8_sub [of mn a] u8_sub_wrap [of a mn]
    by (cases "unat mn \<le> unat a") (auto simp: word_less_nat_alt)
  then show ?thesis by (simp add: constant_time_in_range_8_def Let_def lt_args_8_eq)
qed

lemma eq_8_ucast: "constant_time_eq_8 (ucast a) w = (if unat a = unat w then - 1 else 0)" for a :: u8
proof -
  have "unat (ucast a :: u64) = unat a"
    by (simp only: unat_ucast) (use unat_u8_less [of a] in simp)
  then show ?thesis by (simp add: constant_time_8_eq word_unat_eq_iff)
qed

lemma select_8_if: "constant_time_select_8 (if P then - 1 else 0) a b = (if P then a else b)"
  by (simp add: constant_time_select_8_eq)

lemma u8_of_nat_eqI: "n < 256 \<Longrightarrow> unat w = n \<Longrightarrow> w = (of_nat n :: u8)"
  by (intro word_unat_eq_iff [THEN iffD2]) (simp add: unat_of_nat)

lemma conv_bin2ascii_eq: "conv_bin2ascii a = b64 (unat a mod 64)"
proof -
  define w where "w = a AND 0x3f"
  have m: "(0x3f :: u8) = mask 6" by (simp add: mask_eq_exp_minus_1)
  have w: "unat w = unat a mod 64" unfolding w_def m by (simp add: unat_and_mask)
  define n where "n = unat w"
  have n: "n < 64" by (simp add: n_def w)
  have c: "constant_time_lt_args_8 w 62 = (if n < 62 then - 1 else 0)" "constant_time_lt_args_8 w 52 = (if n < 52 then - 1 else 0)"
      "constant_time_lt_args_8 w 26 = (if n < 26 then - 1 else 0)" "constant_time_eq_8 (ucast w) 62 = (if n = 62 then - 1 else 0)"
    by (simp_all add: lt_args_8_eq eq_8_ucast n_def word_less_nat_alt)
  have "conv_bin2ascii a =
      (if n < 26 then w + 65 else if n < 52 then w - 26 + 97 else if n < 62 then w - 52 + 48
       else if n = 62 then 43 else 47)"
    unfolding conv_bin2ascii_def Let_def w_def [symmetric] c select_8_if by (rule refl)
  also have "\<dots> = b64 n"
  proof -
    have wn: "w = of_nat n" by (rule u8_of_nat_eqI) (use n n_def in simp_all)
    show ?thesis
      unfolding b64_def wn by (auto simp: of_nat_diff)
  qed
  finally show ?thesis by (simp add: n_def w)
qed

text \<open>The value of a character: \<open>None\<close> outside the alphabet and the padding character.\<close>

definition unb64 :: "u8 \<Rightarrow> nat option" where
  "unb64 c =
     (let n = unat c in
      if 65 \<le> n \<and> n \<le> 90 then Some (n - 65) else if 97 \<le> n \<and> n \<le> 122 then Some (n - 97 + 26)
      else if 48 \<le> n \<and> n \<le> 57 then Some (n - 48 + 52) else if n = 43 then Some 62 else if n = 47 then Some 63
      else if n = 61 then Some 0 else None)"

lemma base64_ascii_to_bin_eq: "base64_ascii_to_bin c = (case unb64 c of None \<Rightarrow> 0xff | Some v \<Rightarrow> of_nat v)"
proof -
  define n where "n = unat c"
  have r: "constant_time_in_range_8 c 65 90 = (if 65 \<le> n \<and> n \<le> 90 then - 1 else 0)"
      "constant_time_in_range_8 c 97 122 = (if 97 \<le> n \<and> n \<le> 122 then - 1 else 0)"
      "constant_time_in_range_8 c 48 57 = (if 48 \<le> n \<and> n \<le> 57 then - 1 else 0)"
    using in_range_8_eq [of 65 90 c] in_range_8_eq [of 97 122 c] in_range_8_eq [of 48 57 c] by (simp_all add: n_def)
  have e: "constant_time_eq_8 (ucast c) 43 = (if n = 43 then - 1 else 0)" "constant_time_eq_8 (ucast c) 47 = (if n = 47 then - 1 else 0)"
      "constant_time_eq_8 (ucast c) 61 = (if n = 61 then - 1 else 0)"
    by (simp_all add: eq_8_ucast n_def)
  have cn: "c = of_nat n" by (rule u8_of_nat_eqI) (use unat_u8_less [of c] in \<open>simp_all add: n_def\<close>)
  have "base64_ascii_to_bin c =
     (if n = 61 then 0 else if n = 47 then 63 else if n = 43 then 62 else if 48 \<le> n \<and> n \<le> 57 then c - 48 + 52
      else if 97 \<le> n \<and> n \<le> 122 then c - 97 + 26 else if 65 \<le> n \<and> n \<le> 90 then c - 65 else 0xff)"
    unfolding base64_ascii_to_bin_def Let_def r e select_8_if by (rule refl)
  then show ?thesis
    unfolding unb64_def Let_def n_def [symmetric] by (auto simp: cn of_nat_diff)
qed

lemma unb64_less: "unb64 c = Some v \<Longrightarrow> v < 64"
  by (auto simp: unb64_def Let_def split: if_splits)

lemma base64_ascii_to_bin_ff: "base64_ascii_to_bin c = 0xff \<longleftrightarrow> unb64 c = None"
proof (cases "unb64 c")
  case (Some v)
  then have "unat (of_nat v :: u8) = v" using unb64_less [of c v] by (simp add: unat_of_nat_u8)
  then have "(of_nat v :: u8) \<noteq> 0xff" using unb64_less [OF Some] by (auto simp: word_unat_eq_iff)
  then show ?thesis using Some by (simp add: base64_ascii_to_bin_eq)
qed (simp add: base64_ascii_to_bin_eq)

lemma unat_b64: "n < 64 \<Longrightarrow> unat (b64 n) =
   (if n < 26 then 65 + n else if n < 52 then 97 + (n - 26) else if n < 62 then 48 + (n - 52) else if n = 62 then 43 else 47)"
  unfolding b64_def by (simp only: unat_of_nat_u8 split: if_split) auto

lemma unb64_b64: "n < 64 \<Longrightarrow> unb64 (b64 n) = Some n"
  by (auto simp: unb64_def Let_def unat_b64)

lemma b64_not_pad: "n < 64 \<Longrightarrow> b64 n \<noteq> 61"
  using unat_b64 [of n] by (auto split: if_splits)

lemma b64_unb64: "unb64 c = Some v \<Longrightarrow> c \<noteq> 61 \<Longrightarrow> b64 v = c"
  by (intro word_unat_eq_iff [THEN iffD2])
     (auto simp: unat_b64 unb64_def Let_def word_unat_eq_iff split: if_splits)

section \<open>Blocks\<close>

lemma unat_push_or:
  fixes v w :: "'a::len word"
  assumes "unat w < 2 ^ n" and "unat v * 2 ^ n + unat w < 2 ^ LENGTH('a)"
  shows "unat (push_bit n v OR w) = unat v * 2 ^ n + unat w"
proof -
  have "(push_bit n v OR w) = of_nat (unat v * 2 ^ n + unat w)"
    using push_bit_or_eq [OF assms(1), of v] by simp
  then show ?thesis using assms(2) by (simp only: unat_of_nat) simp
qed

lemma unat_u8_u32: "unat (ucast (b :: u8) :: u32) = unat b"
  by (simp only: unat_ucast) (use unat_u8_less [of b] in simp)

definition word24 :: "u8 \<Rightarrow> u8 \<Rightarrow> u8 \<Rightarrow> nat" where
  "word24 a b c = unat a * 65536 + unat b * 256 + unat c"

lemma word24_less: "word24 a b c < 2 ^ 24"
  using unat_u8_less [of a] unat_u8_less [of b] unat_u8_less [of c] by (simp add: word24_def)

lemma unat_word24:
  "unat (push_bit 16 (ucast a) OR push_bit 8 (ucast b) OR (ucast c :: u32)) = word24 a b c"
proof -
  have "push_bit 16 (ucast a) OR push_bit 8 (ucast b) OR (ucast c :: u32)
        = push_bit 8 (push_bit 8 (ucast a) OR ucast b) OR ucast c"
    by (simp add: push_bit_or or.assoc)
  moreover have "unat (push_bit 8 (ucast a) OR (ucast b :: u32)) = unat a * 2 ^ 8 + unat b"
    using unat_push_or [of "ucast b :: u32" 8 "ucast a"] unat_u8_less [of a] unat_u8_less [of b]
    by (simp only: unat_u8_u32) simp
  moreover from this have "unat (push_bit 8 (push_bit 8 (ucast a) OR ucast b) OR (ucast c :: u32))
        = (unat a * 2 ^ 8 + unat b) * 2 ^ 8 + unat c"
    using unat_push_or [of "ucast c :: u32" 8 "push_bit 8 (ucast a) OR ucast b"]
      unat_u8_less [of a] unat_u8_less [of b] unat_u8_less [of c]
    by (simp only: unat_u8_u32) simp
  ultimately show ?thesis by (simp add: word24_def algebra_simps)
qed

lemma conv_ucast: "conv_bin2ascii (ucast (drop_bit k (l :: u32))) = b64 (unat l div 2 ^ k mod 64)"
  "conv_bin2ascii (ucast (l :: u32)) = b64 (unat l mod 64)"
proof -
  have d: "unat (drop_bit k l) = unat l div 2 ^ k"
    by (simp only: unat_drop_bit_eq) (simp only: drop_bit_eq_div)
  have "unat (ucast w :: u8) mod 64 = unat w mod 64" for w :: u32
    by (simp add: unat_ucast mod_mod_cancel)
  then show "conv_bin2ascii (ucast (drop_bit k l)) = b64 (unat l div 2 ^ k mod 64)"
    "conv_bin2ascii (ucast l) = b64 (unat l mod 64)"
    by (simp_all only: conv_bin2ascii_eq d)
qed

text \<open>The four characters of three octets, of two and of one.\<close>

definition quad :: "nat \<Rightarrow> bytes" where
  "quad l = [b64 (l div 262144), b64 (l div 4096 mod 64), b64 (l div 64 mod 64), b64 (l mod 64)]"

lemma top_digit: "l < 2 ^ 24 \<Longrightarrow> l div 262144 mod 64 = l div 262144" for l :: nat
  by simp

fun encode :: "bytes \<Rightarrow> bytes" where
  "encode (a # b # c # src) = quad (word24 a b c) @ encode src"
| "encode [a, b] = take 3 (quad (word24 a b 0)) @ [61]"
| "encode [a] = take 2 (quad (word24 a 0 0)) @ [61, 61]"
| "encode [] = []"

lemma quad_conv:
  assumes "unat (l :: u32) = n" "n < 2 ^ 24"
  shows "conv_bin2ascii (ucast (drop_bit 18 l)) = b64 (n div 262144)"
    and "conv_bin2ascii (ucast (drop_bit 12 l)) = b64 (n div 4096 mod 64)"
    and "conv_bin2ascii (ucast (drop_bit 6 l)) = b64 (n div 64 mod 64)"
    and "conv_bin2ascii (ucast l) = b64 (n mod 64)"
  using assms(2) top_digit [of n]
  by (simp_all only: conv_ucast(1) [of 18] conv_ucast(1) [of 12] conv_ucast(1) [of 6] conv_ucast(2) [of l] assms(1)) simp_all

lemma encode_block_loop_eq: "encode_block_loop src ret = (encode src, ret + length (encode src))"
proof (induction src ret rule: encode_block_loop.induct)
  case (1 s0 s1 s2 src ret)
  note q = quad_conv [OF unat_word24 word24_less, of s0 s1 s2]
  show ?case
    unfolding encode_block_loop.simps Let_def q encode.simps quad_def using 1 [OF refl] by simp
next
  case (2 s0 s1 ret)
  have "unat (push_bit 16 (ucast s0) OR push_bit 8 (ucast s1) :: u32) = word24 s0 s1 0"
    using unat_word24 [of s0 s1 0] by simp
  note q = quad_conv [OF this word24_less]
  show ?case
    unfolding encode_block_loop.simps Let_def q encode.simps quad_def by simp
next
  case (3 s0 ret)
  have "unat (push_bit 16 (ucast s0) :: u32) = word24 s0 0 0"
    using unat_word24 [of s0 0 0] by simp
  note q = quad_conv [OF this word24_less]
  show ?case
    unfolding encode_block_loop.simps Let_def q encode.simps quad_def by simp
qed simp

lemma EVP_EncodeBlock_eq: "EVP_EncodeBlock src = (encode src @ [0], length (encode src))"
  by (simp add: EVP_EncodeBlock_def encode_block_loop_eq)

lemma length_encode: "length (encode src) = (length src + 2) div 3 * 4"
proof (induction src rule: encode.induct)
  case (1 a b c src)
  have "(length src + 2 + 3) div 3 = (length src + 2) div 3 + 1" by (rule div_add_self2) simp
  then show ?case using 1 by (simp add: quad_def)
qed (simp_all add: quad_def)

section \<open>Decoding a quad\<close>

lemma unat_word24_decode:
  fixes a b c d :: u8
  assumes "unat a < 64" "unat b < 64" "unat c < 64" "unat d < 64"
  shows "unat (push_bit 18 (ucast a) OR push_bit 12 (ucast b) OR push_bit 6 (ucast c) OR (ucast (d :: u8) :: u32))
         = ((unat a * 64 + unat b) * 64 + unat c) * 64 + unat d"
proof -
  have "push_bit 18 (ucast a) OR push_bit 12 (ucast b) OR push_bit 6 (ucast c) OR (ucast d :: u32)
        = push_bit 6 (push_bit 6 (push_bit 6 (ucast a) OR ucast b) OR ucast c) OR ucast d"
    by (simp add: push_bit_or or.assoc)
  moreover have 1: "unat (push_bit 6 (ucast a) OR (ucast b :: u32)) = unat a * 2 ^ 6 + unat b"
    using unat_push_or [of "ucast b :: u32" 6 "ucast a"] assms by (simp only: unat_u8_u32) simp
  moreover from 1 have 2: "unat (push_bit 6 (push_bit 6 (ucast a) OR ucast b) OR (ucast c :: u32))
        = (unat a * 2 ^ 6 + unat b) * 2 ^ 6 + unat c"
    using unat_push_or [of "ucast c :: u32" 6 "push_bit 6 (ucast a) OR ucast b"] assms
    by (simp only: unat_u8_u32) simp
  moreover from 2 have "unat (push_bit 6 (push_bit 6 (push_bit 6 (ucast a) OR ucast b) OR ucast c) OR (ucast d :: u32))
        = ((unat a * 2 ^ 6 + unat b) * 2 ^ 6 + unat c) * 2 ^ 6 + unat d"
    using unat_push_or [of "ucast d :: u32" 6 "push_bit 6 (push_bit 6 (ucast a) OR ucast b) OR ucast c"] assms
    by (simp only: unat_u8_u32) simp
  ultimately show ?thesis by simp
qed

definition value4 :: "nat \<Rightarrow> nat \<Rightarrow> nat \<Rightarrow> nat \<Rightarrow> nat" where
  "value4 a b c d = ((a * 64 + b) * 64 + c) * 64 + d"

lemma ucast_drop_u8: "(ucast (drop_bit k (v :: u32)) :: u8) = of_nat (unat v div 2 ^ k)" "(ucast v :: u8) = of_nat (unat v)"
proof -
  have "unat (drop_bit k v) = unat v div 2 ^ k"
    by (simp only: unat_drop_bit_eq) (simp only: drop_bit_eq_div)
  then show "(ucast (drop_bit k v) :: u8) = of_nat (unat v div 2 ^ k)" "(ucast v :: u8) = of_nat (unat v)"
    by (intro word_unat_eq_iff [THEN iffD2]; simp add: unat_ucast unat_of_nat)+
qed

lemma pattern_eq:
  "(push_bit 3 (of_bool p) OR push_bit 2 (of_bool q) OR push_bit 1 (of_bool r) OR (of_bool s :: u32)) = 0
   \<longleftrightarrow> \<not> p \<and> \<not> q \<and> \<not> r \<and> \<not> s"
  "(push_bit 3 (of_bool p) OR push_bit 2 (of_bool q) OR push_bit 1 (of_bool r) OR (of_bool s :: u32)) = 1
   \<longleftrightarrow> \<not> p \<and> \<not> q \<and> \<not> r \<and> s"
  "(push_bit 3 (of_bool p) OR push_bit 2 (of_bool q) OR push_bit 1 (of_bool r) OR (of_bool s :: u32)) = 3
   \<longleftrightarrow> \<not> p \<and> \<not> q \<and> r \<and> s"
  by (cases p; cases q; cases r; cases s; simp)+

lemma base64_decode_quad_eq:
  "base64_decode_quad w x y z =
     (case (unb64 w, unb64 x, unb64 y, unb64 z) of
        (Some a, Some b, Some c, Some d) \<Rightarrow>
          (let v = value4 a b c d in
           if w = 61 \<or> x = 61 then None
           else if y = 61 then (if z = 61 then Some [of_nat (v div 65536)] else None)
           else if z = 61 then Some [of_nat (v div 65536), of_nat (v div 256)]
           else Some [of_nat (v div 65536), of_nat (v div 256), of_nat v])
      | _ \<Rightarrow> None)"
proof (cases "unb64 w = None \<or> unb64 x = None \<or> unb64 y = None \<or> unb64 z = None")
  case True
  then show ?thesis
    by (auto simp: base64_decode_quad_def Let_def base64_ascii_to_bin_ff split: option.split)
next
  case False
  then obtain a b c d where v: "unb64 w = Some a" "unb64 x = Some b" "unb64 y = Some c" "unb64 z = Some d"
    by auto
  have lt: "a < 64" "b < 64" "c < 64" "d < 64" using v by (auto dest: unb64_less)
  have u: "unat (of_nat m :: u8) = m" if "m < 64" for m using that by (simp add: unat_of_nat_u8)
  define V where "V = push_bit 18 (ucast (of_nat a :: u8)) OR push_bit 12 (ucast (of_nat b :: u8)) OR
      push_bit 6 (ucast (of_nat c :: u8)) OR (ucast (of_nat d :: u8) :: u32)"
  have val: "unat V = value4 a b c d"
    using unat_word24_decode [of "of_nat a" "of_nat b" "of_nat c" "of_nat d"] lt
    unfolding V_def by (simp only: u value4_def)
  have out: "ucast (drop_bit 16 V) = (of_nat (value4 a b c d div 65536) :: u8)"
      "ucast (drop_bit 8 V) = (of_nat (value4 a b c d div 256) :: u8)" "ucast V = (of_nat (value4 a b c d) :: u8)"
    using ucast_drop_u8(1) [of 16 V] ucast_drop_u8(1) [of 8 V] ucast_drop_u8(2) [of V]
    by (simp_all only: val) simp_all
  have ff: "base64_ascii_to_bin w \<noteq> 0xff" "base64_ascii_to_bin x \<noteq> 0xff" "base64_ascii_to_bin y \<noteq> 0xff" "base64_ascii_to_bin z \<noteq> 0xff"
    using v by (simp_all add: base64_ascii_to_bin_ff)
  have bin: "base64_ascii_to_bin w = of_nat a" "base64_ascii_to_bin x = of_nat b" "base64_ascii_to_bin y = of_nat c"
      "base64_ascii_to_bin z = of_nat d"
    using v by (simp_all add: base64_ascii_to_bin_eq)
  have "base64_decode_quad w x y z =
     (let v = V in
      if \<not> w = 61 \<and> \<not> x = 61 \<and> \<not> y = 61 \<and> \<not> z = 61 then Some [ucast (drop_bit 16 v), ucast (drop_bit 8 v), ucast v]
      else if \<not> w = 61 \<and> \<not> x = 61 \<and> \<not> y = 61 \<and> z = 61 then Some [ucast (drop_bit 16 v), ucast (drop_bit 8 v)]
      else if \<not> w = 61 \<and> \<not> x = 61 \<and> y = 61 \<and> z = 61 then Some [ucast (drop_bit 16 v)] else None)"
    unfolding base64_decode_quad_def Let_def pattern_eq using ff by (simp only: bin if_False simp_thms V_def)
  also have "\<dots> = (let v = value4 a b c d in
           if w = 61 \<or> x = 61 then None
           else if y = 61 then (if z = 61 then Some [of_nat (v div 65536)] else None)
           else if z = 61 then Some [of_nat (v div 65536), of_nat (v div 256)]
           else Some [of_nat (v div 65536), of_nat (v div 256), of_nat v])"
    unfolding Let_def out by simp
  finally show ?thesis by (simp add: v)
qed

section \<open>Decoding what was encoded\<close>

lemma value4_quad: "l < 2 ^ 24 \<Longrightarrow> value4 (l div 262144) (l div 4096 mod 64) (l div 64 mod 64) (l mod 64) = l"
proof -
  have "l div 262144 = l div 4096 div 64" "l div 4096 = l div 64 div 64" by (simp_all flip: div_mult2_eq)
  then show ?thesis unfolding value4_def by (simp only: div_mult_mod_eq)
qed

lemma word24_octets:
  "(of_nat (word24 a b c div 65536) :: u8) = a" "(of_nat (word24 a b c div 256) :: u8) = b"
  "(of_nat (word24 a b c) :: u8) = c"
proof -
  have lt: "unat a < 256" "unat b < 256" "unat c < 256" by (rule unat_u8_less)+
  define m where "m = unat a * 256 + unat b"
  have "word24 a b c = m * 256 + unat c" by (simp add: word24_def m_def)
  then have "word24 a b c div 256 = m" and d2: "word24 a b c mod 256 = unat c"
    using lt by simp_all
  then have d: "word24 a b c div 256 = unat a * 256 + unat b" by (simp only: m_def)
  have "word24 a b c div 65536 = word24 a b c div 256 div 256" by (simp flip: div_mult2_eq)
  then have e: "word24 a b c div 65536 = unat a" using d lt by simp
  show "(of_nat (word24 a b c div 65536) :: u8) = a" by (simp add: e)
  show "(of_nat (word24 a b c div 256) :: u8) = b"
    by (intro word_unat_eq_iff [THEN iffD2]) (simp only: unat_of_nat_u8 d, simp add: lt)
  show "(of_nat (word24 a b c) :: u8) = c"
    by (intro word_unat_eq_iff [THEN iffD2]) (simp only: unat_of_nat_u8 d2)
qed

lemma quad_digits:
  assumes "l < 2 ^ 24"
  shows "unb64 (b64 (l div 262144)) = Some (l div 262144)" "unb64 (b64 (l div 4096 mod 64)) = Some (l div 4096 mod 64)"
    "unb64 (b64 (l div 64 mod 64)) = Some (l div 64 mod 64)" "unb64 (b64 (l mod 64)) = Some (l mod 64)"
    "b64 (l div 262144) \<noteq> 61" "b64 (l div 4096 mod 64) \<noteq> 61" "b64 (l div 64 mod 64) \<noteq> 61" "b64 (l mod 64) \<noteq> 61"
proof -
  have "l div 262144 < 64" using assms by simp
  then show "unb64 (b64 (l div 262144)) = Some (l div 262144)" "b64 (l div 262144) \<noteq> 61"
    by (simp_all add: unb64_b64 b64_not_pad)
qed (simp_all add: unb64_b64 b64_not_pad)

lemma unb64_pad [simp]: "unb64 61 = Some 0"
  by (simp add: unb64_def)

lemma decode_quad_3: "base64_decode_quad (b64 (l div 262144)) (b64 (l div 4096 mod 64)) (b64 (l div 64 mod 64)) (b64 (l mod 64))
   = Some [of_nat (l div 65536), of_nat (l div 256), of_nat l]" if "l < 2 ^ 24"
  using quad_digits [OF that] value4_quad [OF that] by (simp add: base64_decode_quad_eq)

text \<open>A padded quad: the characters of the padding count as zeros.\<close>

lemma decode_quad_2:
  "base64_decode_quad (b64 (word24 a b 0 div 262144)) (b64 (word24 a b 0 div 4096 mod 64)) (b64 (word24 a b 0 div 64 mod 64)) 61
   = Some [a, b]"
proof -
  have z: "word24 a b 0 mod 64 = 0"
  proof -
    have "word24 a b 0 = (unat a * 1024 + unat b * 4) * 64" by (simp add: word24_def)
    then show ?thesis by simp
  qed
  show ?thesis
    using quad_digits [OF word24_less, of a b 0] value4_quad [OF word24_less, of a b 0] word24_octets [of a b 0]
    by (simp add: base64_decode_quad_eq z)
qed

lemma decode_quad_1:
  "base64_decode_quad (b64 (word24 a 0 0 div 262144)) (b64 (word24 a 0 0 div 4096 mod 64)) 61 61 = Some [a]"
proof -
  have z: "word24 a 0 0 mod 64 = 0" "word24 a 0 0 div 64 mod 64 = 0"
  proof -
    have w: "word24 a 0 0 = (unat a * 16) * 64 * 64" by (simp add: word24_def)
    show "word24 a 0 0 mod 64 = 0" unfolding w by simp
    have "word24 a 0 0 div 64 = unat a * 16 * 64" unfolding w by (rule nonzero_mult_div_cancel_right) simp
    then show "word24 a 0 0 div 64 mod 64 = 0" by simp
  qed
  show ?thesis
    using quad_digits [OF word24_less, of a 0 0] value4_quad [OF word24_less, of a 0 0] word24_octets [of a 0 0]
    by (simp add: base64_decode_quad_eq z)
qed

lemma decode_base64_loop_encode: "decode_base64_loop (encode src) = Some src"
proof (induction src rule: encode.induct)
  case (1 a b c src)
  then show ?case
    using decode_quad_3 [OF word24_less, of a b c] by (simp add: quad_def word24_octets)
next
  case (2 a b)
  show ?case using decode_quad_2 [of a b] by (simp add: quad_def)
next
  case (3 a)
  show ?case using decode_quad_1 [of a] by (simp add: quad_def numeral_2_eq_2)
qed simp

lemma EVP_DecodeBase64_encode:
  assumes "length (encode src) < 2 ^ 64" and "length (encode src) div 4 * 3 \<le> max_out"
  shows "EVP_DecodeBase64 max_out (encode src) = Some src"
proof -
  have m: "length (encode src) mod 4 = 0" by (simp add: length_encode)
  have "length (encode src) div 4 * 3 < 2 ^ 64" using assms(1) by simp
  then show ?thesis
    using m assms(2) decode_base64_loop_encode by (simp add: EVP_DecodeBase64_def EVP_DecodedLength_def)
qed

text \<open>Nothing is written past the announced length.\<close>

lemma decode_quad_length: "base64_decode_quad w x y z = Some bs \<Longrightarrow> length bs \<le> 3 \<and> 1 \<le> length bs"
  by (auto simp: base64_decode_quad_eq Let_def split: option.splits if_splits)

lemma decode_base64_loop_length:
  "decode_base64_loop inp = Some out \<Longrightarrow> length out \<le> length inp div 4 * 3"
proof (induction inp arbitrary: out rule: decode_base64_loop.induct)
  case (1 w x y z inp)
  then obtain bs rest where "base64_decode_quad w x y z = Some bs" "decode_base64_loop inp = Some rest" "out = bs @ rest"
    by (auto split: option.splits if_splits)
  moreover have "(length inp + 4) div 4 = length inp div 4 + 1" by (rule div_add_self2) simp
  ultimately show ?case
    using 1 decode_quad_length [of w x y z bs] by (auto simp: add.commute split: option.splits if_splits)
qed simp_all

lemma EVP_DecodeBase64_bounds: "EVP_DecodeBase64 max_out inp = Some out \<Longrightarrow> length inp < 2 ^ 64 \<Longrightarrow> length out \<le> max_out"
proof -
  assume a: "EVP_DecodeBase64 max_out inp = Some out" and l: "length inp < 2 ^ 64"
  have "length inp div 4 * 3 < 2 ^ 64" using l by simp
  then show ?thesis
    using a decode_base64_loop_length [of inp out]
    by (auto simp: EVP_DecodeBase64_def EVP_DecodedLength_def split: if_splits)
qed

text \<open>\<open>EVP_EncodedLength\<close> is exact, NUL included, and refuses what does not fit a \<^verbatim>\<open>size_t\<close>.\<close>

lemma EVP_EncodedLength_eq:
  assumes "n < 2 ^ 64"
  shows "EVP_EncodedLength n = (if (n + 2) div 3 * 4 + 1 < 2 ^ 64 \<and> n + 2 < 2 ^ 64 then Some ((n + 2) div 3 * 4 + 1) else None)"
proof (cases "n + 2 < 2 ^ 64")
  case False
  then have "(n + 2) mod 2 ^ 64 = n + 2 - 2 ^ 64" using assms by (simp add: mod_if)
  then show ?thesis using False assms by (simp add: EVP_EncodedLength_def)
next
  case True
  define q where "q = (n + 2) div 3"
  have q: "q * 3 \<le> n + 2" by (simp add: q_def)
  have m: "(n + 2) mod 2 ^ 64 = n + 2" using True by simp
  show ?thesis
  proof (cases "q * 4 < 2 ^ 64")
    case lt: True
    then have m4: "q * 4 mod 2 ^ 64 = q * 4" by simp
    have "q * 4 + 1 < 2 ^ 64"
    proof (rule ccontr)
      assume "\<not> q * 4 + 1 < 2 ^ 64"
      then have "q * 4 = 2 ^ 64 - 1" using lt by simp
      then show False by (simp) presburger
    qed
    then show ?thesis
      using True m m4 unfolding EVP_EncodedLength_def Let_def m q_def [symmetric] by simp
  next
    case ge: False
    have "q < 2 ^ 63" using q True by simp
    have "q * 4 mod 2 ^ 64 < q * 4"
      by (rule less_le_trans [OF mod_less_divisor]) (use ge in simp_all)
    then have "q * 4 mod 2 ^ 64 div 4 < q" by (simp add: div_less_iff_less_mult)
    then show ?thesis
      using True ge unfolding EVP_EncodedLength_def Let_def m q_def [symmetric] by simp
  qed
qed

section \<open>The encoding stream\<close>

text \<open>
  What the stream should produce: lines of 48 octets, each followed by a newline, and at the end a line
  with what is left. \<open>split_lines\<close> yields the text of the complete lines and the rest.
\<close>

function split_lines :: "bytes \<Rightarrow> bytes \<times> bytes" where
  "split_lines ys =
     (if length ys \<ge> 48
      then (case split_lines (drop 48 ys) of (t, r) \<Rightarrow> (encode (take 48 ys) @ [10] @ t, r))
      else ([], ys))"
  by auto

termination split_lines
  by (relation "measure length") auto

declare split_lines.simps [simp del]

definition wrapped :: "bytes \<Rightarrow> bytes" where
  "wrapped ys = (case split_lines ys of (t, r) \<Rightarrow> t @ (if r = [] then [] else encode r @ [10]))"

lemma split_lines_short [simp]: "length ys < 48 \<Longrightarrow> split_lines ys = ([], ys)"
  by (subst split_lines.simps) simp

lemma split_lines_step:
  "length xs = 48 \<Longrightarrow> split_lines (xs @ ys) = (encode xs @ [10] @ fst (split_lines ys), snd (split_lines ys))"
  by (subst split_lines.simps) (simp split: prod.split)

lemma split_lines_rest: "length (snd (split_lines ys)) < 48"
  by (induction ys rule: split_lines.induct) (subst split_lines.simps, auto split: prod.split)

lemma split_lines_append:
  "split_lines (xs @ ys) =
     (fst (split_lines xs) @ fst (split_lines (snd (split_lines xs) @ ys)), snd (split_lines (snd (split_lines xs) @ ys)))"
proof (induction xs rule: split_lines.induct)
  case (1 xs)
  show ?case
  proof (cases "length xs \<ge> 48")
    case False
    then show ?thesis by simp
  next
    case True
    have x: "xs = take 48 xs @ drop 48 xs" and l: "length (take 48 xs) = 48" using True by simp_all
    have a: "split_lines xs = (encode (take 48 xs) @ [10] @ fst (split_lines (drop 48 xs)), snd (split_lines (drop 48 xs)))"
      using split_lines_step [OF l, of "drop 48 xs"] by simp
    have b: "split_lines (xs @ ys)
        = (encode (take 48 xs) @ [10] @ fst (split_lines (drop 48 xs @ ys)), snd (split_lines (drop 48 xs @ ys)))"
      using split_lines_step [OF l, of "drop 48 xs @ ys"] by (simp flip: append_assoc)
    show ?thesis unfolding a b using 1 [OF True] by simp
  qed
qed

lemma length_split_lines: "length (fst (split_lines ys)) + length (snd (split_lines ys)) \<le> 2 * length ys"
proof (induction ys rule: split_lines.induct)
  case (1 ys)
  show ?case
  proof (cases "length ys \<ge> 48")
    case True
    then have "length (encode (take 48 ys)) = 64" by (simp add: length_encode)
    moreover obtain t r where "split_lines (drop 48 ys) = (t, r)" by (rule prod.exhaust)
    ultimately show ?thesis
      using 1 [OF True] True by (subst split_lines.simps, subst (2) split_lines.simps) simp
  qed simp
qed

lemma encode_lines_eq:
  assumes "tot + 2 * length inp < 2 ^ 64"
  shows "encode_lines inp out tot
         = (out @ fst (split_lines inp), Some (snd (split_lines inp), tot + length (fst (split_lines inp))))"
  using assms
proof (induction inp out tot rule: encode_lines.induct)
  case (1 inp out tot)
  show ?case
  proof (cases "length inp \<ge> 48")
    case False
    then show ?thesis by (subst encode_lines.simps) simp
  next
    case True
    have l: "length (take 48 inp) = 48" using True by simp
    have e: "length (encode (take 48 inp)) = 64" using True by (simp add: length_encode)
    have nw: "(tot + 64 + 1) mod 2 ^ 64 = tot + 65" using 1(2) True by simp
    have nw': "(65 + tot) mod 2 ^ 64 = tot + 65" using 1(2) True by simp
    have sm: "tot + 65 + 2 * length (drop 48 inp) < 2 ^ 64" using 1(2) True by (simp only: length_drop)
    have s: "split_lines inp = (encode (take 48 inp) @ [10] @ fst (split_lines (drop 48 inp)), snd (split_lines (drop 48 inp)))"
      using split_lines_step [OF l, of "drop 48 inp"] by simp
    have "encode_lines inp out tot = encode_lines (drop 48 inp) (out @ encode (take 48 inp) @ [10]) (tot + 65)"
      by (subst encode_lines.simps) (use True nw in \<open>simp add: EVP_EncodeBlock_eq e Let_def\<close>)
    also have "\<dots> = (out @ (encode (take 48 inp) @ [10]) @ fst (split_lines (drop 48 inp)),
        Some (snd (split_lines (drop 48 inp)), tot + 65 + length (fst (split_lines (drop 48 inp)))))"
    proof -
      have "(length inp - 48) * 2 + tot < 2 ^ 64 - 65" using 1(2) True by linarith
      then show ?thesis
        using 1(1) [OF True EVP_EncodeBlock_eq [symmetric] refl] nw e by (simp add: ac_simps)
    qed
    finally show ?thesis by (simp add: s e)
  qed
qed

text \<open>A context between calls, and the octets it holds back.\<close>

definition ctx_ok :: "evp_encode_ctx \<Rightarrow> bool" where
  "ctx_ok ctx \<longleftrightarrow> length (data ctx) = 48 \<and> data_used ctx < 48"

definition pending :: "evp_encode_ctx \<Rightarrow> bytes" where
  "pending ctx = take (data_used ctx) (data ctx)"

lemma EncodeInit_ok: "ctx_ok EVP_EncodeInit" "pending EVP_EncodeInit = []"
  by (simp_all add: EVP_EncodeInit_def ctx_ok_def pending_def)

lemma EVP_EncodeUpdate_spec:
  assumes ok: "ctx_ok ctx" and small: "length inp < 2 ^ 62"
    and upd: "EVP_EncodeUpdate ctx inp = (out, n, ctx')"
  defines "s \<equiv> split_lines (pending ctx @ inp)"
  shows "ctx_ok ctx' \<and> pending ctx' = snd s \<and> butlast out = fst s \<and>
         n = (if length (fst s) \<le> 2 ^ 31 - 1 then int (length (fst s)) else 0)"
proof -
  define u where "u = data_used ctx"
  have c: "length (data ctx) = 48" "u < 48" using ok by (simp_all add: ctx_ok_def u_def)
  have p: "length (pending ctx) = u" using c by (simp add: pending_def u_def)
  consider "inp = []" | "inp \<noteq> []" "length inp < 48 - u" | "inp \<noteq> []" "48 - u \<le> length inp" by linarith
  then show ?thesis
  proof cases
    case 1
    then show ?thesis using upd ok p c by (simp add: EVP_EncodeUpdate_def s_def)
  next
    case 2
    then have "out = []" "n = 0"
      and ctx': "ctx' = ctx\<lparr>data := write_at (data ctx) u inp, data_used := u + length inp\<rparr>"
      using upd by (simp_all add: EVP_EncodeUpdate_def u_def)
    moreover have "pending ctx' = pending ctx @ inp"
      using c 2 by (simp add: ctx' pending_def take_write_at_end u_def)
    moreover have "s = ([], pending ctx @ inp)" using 2 p by (simp add: s_def)
    ultimately show ?thesis using c 2 by (simp add: ctx_ok_def)
  next
    case 3
    define todo where "todo = 48 - u"
    have t: "length (take todo inp) = todo" using 3 by (simp add: todo_def)
    define lin where "lin = (if u \<noteq> 0 then encode (pending ctx @ take todo inp) @ [10] else [])"
    define rest where "rest = (if u \<noteq> 0 then drop todo inp else inp)"
    define ctx1 where "ctx1 = (if u \<noteq> 0 then ctx\<lparr>data := write_at (data ctx) u (take todo inp), data_used := 0\<rparr> else ctx)"
    have d1: "length (data ctx1) = 48" using c t by (simp add: ctx1_def todo_def)
    have full: "write_at (data ctx) u (take todo inp) = pending ctx @ take todo inp"
      using c t 3 by (simp add: write_at_def pending_def u_def todo_def)
    have l48: "length (pending ctx @ take todo inp) = 48" using p t c by (simp add: todo_def)
    have e64: "length (encode (pending ctx @ take todo inp)) = 64" using l48 by (simp only: length_encode) simp
    have lt: "length lin = (if u \<noteq> 0 then 65 else 0)" using e64 by (simp add: lin_def)
    have "length rest \<le> length inp" "length lin \<le> 65" using lt by (simp_all add: rest_def)
    then have small': "length lin + 2 * length rest < 2 ^ 64" using small by simp
    have sl: "s = (lin @ fst (split_lines rest), snd (split_lines rest))"
    proof (cases "u = 0")
      case True
      then show ?thesis using p by (simp add: s_def lin_def rest_def)
    next
      case False
      then have "s = split_lines ((pending ctx @ take todo inp) @ rest)" by (simp add: s_def rest_def)
      then show ?thesis using split_lines_step [OF l48, of rest] False by (simp add: lin_def)
    qed
    have "EVP_EncodeUpdate ctx inp = (case encode_lines rest lin (length lin) of
                (out, None) \<Rightarrow> (out @ [0], 0, ctx1)
              | (out, Some (inp, tot)) \<Rightarrow>
                  (let ctx = (if length inp \<noteq> 0 then ctx1\<lparr>data := write_at (data ctx1) 0 inp\<rparr> else ctx1);
                       ctx = ctx\<lparr>data_used := length inp\<rparr>;
                       tot = (if tot > 2 ^ 31 - 1 then 0 else tot)
                   in (if out = [] then [] else out @ [0], int tot, ctx)))"
    proof (cases "u = 0")
      case True
      then have "ctx1 = ctx" "lin = []" "rest = inp" by (simp_all add: ctx1_def lin_def rest_def)
      then show ?thesis
        unfolding \<open>ctx1 = ctx\<close> \<open>lin = []\<close> \<open>rest = inp\<close> using 3 True by (simp add: EVP_EncodeUpdate_def u_def [symmetric] Let_def)
    next
      case False
      then have c1: "ctx1 = ctx\<lparr>data := write_at (data ctx) u (take todo inp), data_used := 0\<rparr>" by (simp add: ctx1_def)
      show ?thesis
        unfolding c1 using 3 e64 False
        by (simp add: EVP_EncodeUpdate_def u_def [symmetric] lin_def rest_def Let_def EVP_EncodeBlock_eq full
            todo_def [symmetric] split: prod.split option.split)
    qed
    also have "\<dots> = (let r = snd s; t = fst s;
                       ctx = (if length r \<noteq> 0 then ctx1\<lparr>data := write_at (data ctx1) 0 r\<rparr> else ctx1)
                   in (if t = [] then [] else t @ [0],
                       int (if length t > 2 ^ 31 - 1 then 0 else length t), ctx\<lparr>data_used := length r\<rparr>))"
      by (simp add: encode_lines_eq [OF small'] sl Let_def)
    finally have res: "out = (if fst s = [] then [] else fst s @ [0])"
        "n = int (if length (fst s) > 2 ^ 31 - 1 then 0 else length (fst s))"
        "ctx' = (if length (snd s) \<noteq> 0 then ctx1\<lparr>data := write_at (data ctx1) 0 (snd s)\<rparr> else ctx1)\<lparr>data_used := length (snd s)\<rparr>"
      using upd by (simp_all add: Let_def)
    have r48: "length (snd s) < 48" unfolding s_def by (rule split_lines_rest)
    have "ctx_ok ctx'" using d1 r48 by (simp add: res(3) ctx_ok_def)
    moreover have "pending ctx' = snd s"
      using d1 r48 by (simp add: res(3) pending_def write_at_def)
    ultimately show ?thesis using res by simp
  qed
qed

lemma EVP_EncodeFinal_spec:
  assumes "ctx_ok ctx" and "EVP_EncodeFinal ctx = (out, n, ctx')"
  shows "butlast out = (if pending ctx = [] then [] else encode (pending ctx) @ [10]) \<and> n = int (length (butlast out))
         \<and> ctx_ok ctx' \<and> pending ctx' = []"
proof (cases "data_used ctx = 0")
  case True
  then show ?thesis using assms by (auto simp: EVP_EncodeFinal_def pending_def)
next
  case False
  then have "pending ctx \<noteq> []" using assms(1) by (auto simp: pending_def ctx_ok_def)
  then show ?thesis
    using assms False
    by (auto simp: EVP_EncodeFinal_def EVP_EncodeBlock_eq pending_def [symmetric] butlast_append ctx_ok_def)
       (simp_all add: pending_def)
qed

text \<open>A run: one update per chunk, then the final call. The text is what is stored, without the NULs.\<close>

fun encode_run :: "evp_encode_ctx \<Rightarrow> bytes list \<Rightarrow> bytes" where
  "encode_run ctx [] = (case EVP_EncodeFinal ctx of (out, _, _) \<Rightarrow> butlast out)"
| "encode_run ctx (c # cs) = (case EVP_EncodeUpdate ctx c of (out, _, ctx) \<Rightarrow> butlast out @ encode_run ctx cs)"

lemma encode_run_spec:
  assumes "ctx_ok ctx" and "\<forall>c\<in>set cs. length c < 2 ^ 62"
  shows "encode_run ctx cs = wrapped (pending ctx @ concat cs)"
  using assms
proof (induction cs arbitrary: ctx)
  case Nil
  obtain out n ctx' where fin: "EVP_EncodeFinal ctx = (out, n, ctx')" by (rule prod_cases3)
  have "length (pending ctx) < 48" using Nil(1) by (auto simp: ctx_ok_def pending_def)
  then show ?case using EVP_EncodeFinal_spec [OF Nil(1) fin] fin by (simp add: wrapped_def)
next
  case (Cons c cs)
  obtain out n ctx' where u: "EVP_EncodeUpdate ctx c = (out, n, ctx')" by (rule prod_cases3)
  have "length c < 2 ^ 62" using Cons.prems(2) by simp
  note sp = EVP_EncodeUpdate_spec [OF Cons.prems(1) this u]
  have "encode_run ctx' cs = wrapped (pending ctx' @ concat cs)"
    using Cons sp by simp
  then show ?case
    using u sp split_lines_append [of "pending ctx @ c" "concat cs"]
    by (simp add: wrapped_def split: prod.split)
qed

section \<open>The decoding stream\<close>

definition is_blank :: "u8 \<Rightarrow> bool" where
  "is_blank c \<longleftrightarrow> c \<in> {32, 9, 13, 10}"

abbreviation strip :: "bytes \<Rightarrow> bytes" where
  "strip \<equiv> filter (\<lambda>c. \<not> is_blank c)"

text \<open>What is left to decode, with and without a padded group behind it.\<close>

definition decode_rest :: "bool \<Rightarrow> bytes \<Rightarrow> bytes option" where
  "decode_rest eof t =
     (if t = [] then Some [] else if eof \<or> length t mod 4 \<noteq> 0 then None else decode_base64_loop t)"

definition stream_ok :: "evp_encode_ctx \<Rightarrow> bool" where
  "stream_ok ctx \<longleftrightarrow> length (data ctx) = 48 \<and> data_used ctx < 4 \<and> \<not> error_encountered ctx \<and>
                    (eof_seen ctx \<longrightarrow> data_used ctx = 0)"

lemma decode_rest_quad:
  "decode_rest False (w # x # y # z # t) =
     (case base64_decode_quad w x y z of None \<Rightarrow> None
      | Some bs \<Rightarrow> map_option ((@) bs) (decode_rest (length bs < 3) t))"
proof (cases "base64_decode_quad w x y z")
  case (Some bs)
  then have "length bs \<le> 3" using decode_quad_length by blast
  moreover have "(4 + length t) mod 4 = length t mod 4" by simp
  ultimately show ?thesis using Some by (auto simp: decode_rest_def)
qed (simp add: decode_rest_def)

lemma decode_rest_eof: "decode_rest True (c # t) = None"
  by (simp add: decode_rest_def)

lemma take_4: "length ys = 48 \<Longrightarrow> take 4 ys = [ys ! 0, ys ! 1, ys ! 2, ys ! 3]"
  by (rule nth_equalityI) (auto simp: less_Suc_eq numeral_eq_Suc)

lemma append_fun: "(@) (xs @ ys) = (\<lambda>zs. xs @ ys @ zs)"
  by (simp add: fun_eq_iff)

lemma decode_update_loop_spec:
  assumes "stream_ok ctx"
  shows "case decode_update_loop ctx out inp of
           (False, out', ctx') \<Rightarrow> decode_rest (eof_seen ctx) (pending ctx @ strip inp @ t) = None
         | (True, out', ctx') \<Rightarrow> stream_ok ctx' \<and> length out' \<le> length out + 3 * length inp \<and>
             (\<exists>new. out' = out @ new \<and>
                decode_rest (eof_seen ctx) (pending ctx @ strip inp @ t) =
                map_option ((@) new) (decode_rest (eof_seen ctx') (pending ctx' @ t)))"
  using assms
proof (induction ctx out inp rule: decode_update_loop.induct)
  case (1 ctx out)
  then show ?case by (cases "decode_rest (eof_seen ctx) (pending ctx @ t)") simp_all
next
  case (2 ctx out c inp)
  have ok: "length (data ctx) = 48" "data_used ctx < 4" "\<not> error_encountered ctx" "eof_seen ctx \<longrightarrow> data_used ctx = 0"
    using 2(4) by (simp_all add: stream_ok_def)
  consider (blank) "c \<in> {32, 9, 13, 10}" | (eof) "c \<notin> {32, 9, 13, 10}" "eof_seen ctx"
    | (char) "c \<notin> {32, 9, 13, 10}" "\<not> eof_seen ctx" by blast
  then show ?case
  proof cases
    case blank
    then show ?thesis using 2(1) [OF blank 2(4)] by (auto simp: is_blank_def split: prod.splits bool.splits)
  next
    case eof
    then show ?thesis using ok by (simp add: is_blank_def pending_def decode_rest_eof)
  next
    case char
    define ctx1 where "ctx1 = ctx\<lparr>data := (data ctx)[data_used ctx := c], data_used := data_used ctx + 1\<rparr>"
    have p1: "take (data_used ctx1) (data ctx1) = pending ctx @ [c]"
      using ok by (simp add: ctx1_def pending_def take_Suc_conv_app_nth)
    have s: "strip (c # inp) = c # strip inp" using char by (simp add: is_blank_def)
    show ?thesis
    proof (cases "data_used ctx1 = 4")
      case False
      have "stream_ok ctx1" using ok False char by (simp add: stream_ok_def ctx1_def)
      note ih = 2(3) [OF char ctx1_def False this]
      moreover have "decode_update_loop ctx out (c # inp) = decode_update_loop ctx1 out inp"
        using char False by (simp add: Let_def ctx1_def)
      moreover have "pending ctx1 = pending ctx @ [c]" using p1 by (simp add: pending_def)
      moreover have "eof_seen ctx1 = eof_seen ctx" by (simp add: ctx1_def)
      ultimately show ?thesis unfolding s by (auto split: prod.splits bool.splits)
    next
      case True
      define q where "q = base64_decode_quad (data ctx1 ! 0) (data ctx1 ! 1) (data ctx1 ! 2) (data ctx1 ! 3)"
      have "length (data ctx1) = 48" using ok by (simp add: ctx1_def)
      then have p: "pending ctx @ [c] = [data ctx1 ! 0, data ctx1 ! 1, data ctx1 ! 2, data ctx1 ! 3]"
        using p1 take_4 [of "data ctx1"] True by simp
      have dr: "decode_rest (eof_seen ctx) (pending ctx @ strip (c # inp) @ t)
          = (case q of None \<Rightarrow> None | Some bs \<Rightarrow> map_option ((@) bs) (decode_rest (length bs < 3) (strip inp @ t)))"
      proof -
        have "pending ctx @ strip (c # inp) @ t = (pending ctx @ [c]) @ strip inp @ t" by (simp only: s) simp
        then show ?thesis using char by (simp only: p) (simp add: decode_rest_quad q_def)
      qed
      show ?thesis
      proof (cases q)
        case None
        then have "fst (decode_update_loop ctx out (c # inp)) = False"
          using char True by (simp add: Let_def ctx1_def q_def)
        then show ?thesis unfolding dr using None by (auto split: prod.splits bool.splits)
      next
        case (Some bs)
        define ctx2 where "ctx2 = ctx1\<lparr>data_used := 0\<rparr>"
        define ctx3 where "ctx3 = (if length bs < 3 then ctx2\<lparr>eof_seen := True\<rparr> else ctx2)"
        have ok3: "stream_ok ctx3" using ok by (simp add: ctx3_def ctx2_def ctx1_def stream_ok_def)
        note ih = 2(2) [OF char ctx1_def True Some [unfolded q_def] ctx2_def ctx3_def ok3]
        have l3: "length bs \<le> 3" using Some decode_quad_length unfolding q_def by blast
        have st: "decode_update_loop ctx out (c # inp) = decode_update_loop ctx3 (out @ bs) inp"
          using char True Some by (simp add: Let_def ctx1_def q_def ctx2_def ctx3_def)
        have e3: "eof_seen ctx3 = (length bs < 3)" and n3: "pending ctx3 = []"
          using char by (simp_all add: ctx3_def ctx2_def ctx1_def pending_def)
        show ?thesis using ih l3 unfolding dr st e3 n3 Some
          by (auto split: prod.splits bool.splits simp: option.map_comp comp_def append_fun)
      qed
    qed
  qed
qed

text \<open>A run of the decoder: its output, or \<open>None\<close> when a call reports an error.\<close>

fun decode_run :: "evp_encode_ctx \<Rightarrow> bytes list \<Rightarrow> bytes option" where
  "decode_run ctx [] = (if fst (EVP_DecodeFinal ctx) = 1 then Some [] else None)"
| "decode_run ctx (c # cs) =
     (case EVP_DecodeUpdate ctx c of
        (ret, out, _, ctx) \<Rightarrow> if ret = - 1 then None else map_option ((@) out) (decode_run ctx cs))"

lemma decode_run_spec:
  assumes "stream_ok ctx" and "\<forall>c\<in>set cs. length c < 2 ^ 29"
  shows "decode_run ctx cs = decode_rest (eof_seen ctx) (pending ctx @ strip (concat cs))"
  using assms
proof (induction cs arbitrary: ctx)
  case Nil
  then have "data_used ctx = 0 \<or> decode_rest (eof_seen ctx) (pending ctx) = None"
    by (auto simp: stream_ok_def decode_rest_def pending_def mod_eq_0_iff_dvd dest: dvd_imp_le)
  moreover have "data_used ctx = 0 \<longleftrightarrow> pending ctx = []" using Nil by (auto simp: stream_ok_def pending_def)
  ultimately show ?case using Nil by (auto simp: EVP_DecodeFinal_def stream_ok_def decode_rest_def)
next
  case (Cons c cs)
  obtain ok out ctx' where d: "decode_update_loop ctx [] c = (ok, out, ctx')" by (rule prod_cases3)
  have ne: "\<not> error_encountered ctx" and c: "length c < 2 ^ 29" using Cons.prems by (simp_all add: stream_ok_def)
  note sp = decode_update_loop_spec [OF Cons.prems(1), of "[]" c "strip (concat cs)", unfolded d, simplified]
  show ?case
  proof (cases ok)
    case False
    then show ?thesis using sp d ne by (simp add: EVP_DecodeUpdate_def)
  next
    case True
    then have ok': "stream_ok ctx'" and o: "length out \<le> 3 * length c"
      and r: "decode_rest (eof_seen ctx) (pending ctx @ strip c @ strip (concat cs))
              = map_option ((@) out) (decode_rest (eof_seen ctx') (pending ctx' @ strip (concat cs)))"
      using sp by auto
    have "decode_run ctx' cs = decode_rest (eof_seen ctx') (pending ctx' @ strip (concat cs))"
      using Cons ok' by simp
    then show ?thesis using d True ne o c r by (simp add: EVP_DecodeUpdate_def)
  qed
qed

lemma DecodeInit_ok: "stream_ok EVP_DecodeInit" "pending EVP_DecodeInit = []" "eof_seen EVP_DecodeInit = False"
  by (simp_all add: EVP_DecodeInit_def stream_ok_def pending_def)








section \<open>Base64 texts\<close>

text \<open>
  RFC 4648, independent of the code: the alphabet as its table lists it, and a text as a sequence of
  six-bit values and its padding. The octets of a text are the big-endian octets of the one
  number its values make, without the octets that the padding stands for.
\<close>

definition alphabet :: bytes where
  "alphabet = map of_char ''ABCDEFGHIJKLMNOPQRSTUVWXYZabcdefghijklmnopqrstuvwxyz0123456789+/''"

definition base64_text :: "nat list \<Rightarrow> nat \<Rightarrow> bytes" where
  "base64_text vs p = map (\<lambda>v. alphabet ! v) vs @ replicate p 61"

definition well_padded :: "nat list \<Rightarrow> nat \<Rightarrow> bool" where
  "well_padded vs p \<longleftrightarrow> (\<forall>v\<in>set vs. v < 64) \<and> p \<le> 2 \<and> (length vs + p) mod 4 = 0"

definition text_value :: "nat list \<Rightarrow> nat" where
  "text_value vs = foldl (\<lambda>n v. 64 * n + v) 0 vs"

definition text_octets :: "nat list \<Rightarrow> nat \<Rightarrow> bytes" where
  "text_octets vs p =
     (let quads = (length vs + p) div 4 in take (3 * quads - p) (be_bytes (3 * quads) (text_value vs * 64 ^ p)))"

lemma alphabet_b64: "v < 64 \<Longrightarrow> alphabet ! v = b64 v"
proof -
  assume v: "v < 64"
  have "alphabet = map b64 [0..<64]" by code_simp
  then have "alphabet ! v = map b64 [0..<64] ! v" by (simp only:)
  also have "\<dots> = b64 v" using v by (subst nth_map) (simp_all del: upt_Suc)
  finally show ?thesis .
qed

lemma be_bytes_split: "b < 256 ^ n \<Longrightarrow> be_bytes (m + n) (a * 256 ^ n + b) = be_bytes m a @ be_bytes n b"
proof (induction n arbitrary: b)
  case (Suc n)
  have "a * 256 ^ Suc n + b = (a * 256 ^ n) * 256 + b" by simp
  then have d: "(a * 256 ^ Suc n + b) div 256 = a * 256 ^ n + b div 256" by (simp only: div_mult_self3)
  have "b div 256 < 256 ^ n" using Suc.prems by (simp add: less_mult_imp_div_less mult.commute)
  note IH = Suc.IH [OF this]
  have "(of_nat 256 :: u8) = 0" by simp
  then have l: "(of_nat (a * 256 ^ Suc n + b) :: u8) = of_nat b"
    by (simp only: of_nat_add of_nat_mult of_nat_power power_Suc mult_zero_left mult_zero_right add_0_left)
  show ?case
    unfolding add_Suc_right be_bytes.simps d l IH by simp
qed simp

lemma text_value_snoc [simp]: "text_value (vs @ [v]) = 64 * text_value vs + v" "text_value [] = 0"
  by (simp_all add: text_value_def)

lemma text_value_append: "text_value (us @ vs) = text_value us * 64 ^ length vs + text_value vs"
proof (induction vs rule: rev_induct)
  case (snoc v vs)
  have "text_value (us @ vs @ [v]) = 64 * text_value (us @ vs) + v"
    using text_value_snoc(1) [of "us @ vs"] by simp
  with snoc show ?case by (simp add: distrib_left)
qed simp

lemma text_value_less: "\<forall>v\<in>set vs. v < 64 \<Longrightarrow> text_value vs < 64 ^ length vs"
proof (induction vs rule: rev_induct)
  case (snoc v vs)
  then have "Suc (text_value vs) \<le> 64 ^ length vs" "v < 64" by auto
  then have "64 * Suc (text_value vs) \<le> 64 * 64 ^ length vs" by (simp only: mult_le_mono2)
  with \<open>v < 64\<close> show ?case by simp
qed simp

lemma text_value_4: "text_value [a, b, c, d] = value4 a b c d"
  by (simp add: text_value_def value4_def)

lemma octets_of_quad: "be_bytes 3 v = [of_nat (v div 65536), of_nat (v div 256), of_nat v]"
  by (simp add: numeral_3_eq_3 flip: div_mult2_eq)

text \<open>One group of four values in front.\<close>

lemma text_octets_step:
  assumes "well_padded vs p"
  shows "text_octets (a # b # c # d # vs) p = be_bytes 3 (value4 a b c d) @ text_octets vs p"
proof -
  define k where "k = (length vs + p) div 4"
  have k: "length vs + p = 4 * k" using assms by (auto simp: k_def well_padded_def)
  have "text_value vs * 64 ^ p < 64 ^ length vs * 64 ^ p"
    using text_value_less [of vs] assms by (simp add: well_padded_def)
  also have e: "64 ^ length vs * 64 ^ p = (256 :: nat) ^ (3 * k)"
    by (simp add: k power_mult flip: power_add)
  finally have lt: "text_value vs * 64 ^ p < 256 ^ (3 * k)" .
  have "text_value (a # b # c # d # vs) * 64 ^ p = value4 a b c d * 256 ^ (3 * k) + text_value vs * 64 ^ p"
    using text_value_append [of "[a, b, c, d]" vs] by (simp add: text_value_4 distrib_right mult.assoc e)
  then have "be_bytes (3 + 3 * k) (text_value (a # b # c # d # vs) * 64 ^ p)
      = be_bytes 3 (value4 a b c d) @ be_bytes (3 * k) (text_value vs * 64 ^ p)"
    using be_bytes_split [OF lt] by (simp only:)
  moreover have "(length (a # b # c # d # vs) + p) div 4 = Suc k" using k by simp
  moreover have "3 * k - p + 3 = 3 * Suc k - p" if "p \<le> 3 * k" using that by simp
  moreover have "p \<le> 3 * k" using k assms by (cases k) (auto simp: well_padded_def)
  ultimately show ?thesis
    by (simp add: text_octets_def k_def [symmetric] take_append length_be_bytes)
qed

lemma unb64_alphabet: "v < 64 \<Longrightarrow> unb64 (alphabet ! v) = Some v" "v < 64 \<Longrightarrow> alphabet ! v \<noteq> 61"
  by (simp_all add: alphabet_b64 unb64_b64 b64_not_pad)

lemma alphabet_unb64:
  assumes "unb64 c = Some v" "c \<noteq> 61"
  shows "v < 64" "c = alphabet ! v"
  using assms unb64_less b64_unb64 alphabet_b64 by auto

lemma decode_quad_of_values:
  assumes "a < 64" "b < 64" "c < 64" "d < 64"
  shows "base64_decode_quad (alphabet ! a) (alphabet ! b) (alphabet ! c) (alphabet ! d) = Some (be_bytes 3 (value4 a b c d))"
    and "base64_decode_quad (alphabet ! a) (alphabet ! b) (alphabet ! c) 61 = Some (take 2 (be_bytes 3 (value4 a b c 0)))"
    and "base64_decode_quad (alphabet ! a) (alphabet ! b) 61 61 = Some (take 1 (be_bytes 3 (value4 a b 0 0)))"
  using assms by (simp_all add: base64_decode_quad_eq unb64_alphabet octets_of_quad numeral_2_eq_2 Let_def)

lemma decode_base64_text:
  "well_padded vs p \<Longrightarrow> decode_base64_loop (base64_text vs p) = Some (text_octets vs p)"
proof (induction "length vs" arbitrary: vs rule: less_induct)
  case less
  have v: "\<forall>v\<in>set vs. v < 64" and p: "p \<le> 2" "(length vs + p) mod 4 = 0"
    using less.prems by (simp_all add: well_padded_def)
  consider (nil) "vs = []" | (one) a where "vs = [a]" | (two) a b where "vs = [a, b]" | (three) a b c where "vs = [a, b, c]"
    | (four) a b c d us where "vs = a # b # c # d # us"
    by (metis list.exhaust)
  then show ?case
  proof cases
    case nil
    then have "p = 0" using p by (cases p) auto
    with nil show ?thesis by (simp add: base64_text_def text_octets_def)
  next
    case one
    have "Suc p mod 4 = Suc p" using p(1) by simp
    with p(2) show ?thesis by (simp add: one)
  next
    case two
    have "p = 2" using p by (simp add: two) presburger
    moreover have "text_value [a, b] * 64 ^ 2 = value4 a b 0 0" by (simp add: text_value_def value4_def)
    ultimately show ?thesis
      using v decode_quad_of_values(3) [of a b 0 0]
      by (simp add: two base64_text_def text_octets_def numeral_2_eq_2 del: be_bytes.simps)
  next
    case three
    have "p = 1" using p by (simp add: three) presburger
    moreover have "text_value [a, b, c] * 64 ^ 1 = value4 a b c 0" by (simp add: text_value_def value4_def)
    ultimately show ?thesis
      using v decode_quad_of_values(2) [of a b c 0]
      by (simp add: three base64_text_def text_octets_def numeral_2_eq_2 del: be_bytes.simps)
  next
    case four
    have us: "well_padded us p" using less.prems by (auto simp: four well_padded_def)
    have "decode_base64_loop (base64_text us p) = Some (text_octets us p)" using less.hyps [of us] us by (simp add: four)
    then show ?thesis
      using v decode_quad_of_values(1) [of a b c d] text_octets_step [OF us, of a b c d]
      by (simp add: four base64_text_def)
  qed
qed

lemma decoded_is_text:
  "decode_base64_loop t = Some out \<Longrightarrow> length t mod 4 = 0 \<Longrightarrow> \<exists>vs p. well_padded vs p \<and> t = base64_text vs p"
proof (induction t arbitrary: out rule: decode_base64_loop.induct)
  case (1 w x y z t)
  obtain bs where bs: "base64_decode_quad w x y z = Some bs" "length bs \<noteq> 3 \<longrightarrow> t = []" "decode_base64_loop t \<noteq> None"
    using "1.prems" by (auto split: option.splits if_splits)
  have t4: "length t mod 4 = 0" using "1.prems"(2) by simp
  obtain a b c d where v: "unb64 w = Some a" "unb64 x = Some b" "unb64 y = Some c" "unb64 z = Some d"
    and wx: "w \<noteq> 61" "x \<noteq> 61" and yz: "y = 61 \<longrightarrow> z = 61"
    using bs(1) by (auto simp: base64_decode_quad_eq Let_def split: option.splits if_splits)
  note ab = alphabet_unb64 [OF v(1) wx(1)] alphabet_unb64 [OF v(2) wx(2)]
  show ?case
  proof (cases "y \<noteq> 61 \<and> z \<noteq> 61")
    case True
    then have "length bs = 3" using bs(1) v wx by (auto simp: base64_decode_quad_eq Let_def)
    obtain us p where us: "well_padded us p" "t = base64_text us p"
      using "1.IH" [OF bs(1)] bs t4 \<open>length bs = 3\<close> by auto
    note cd = alphabet_unb64 [OF v(3)] alphabet_unb64 [OF v(4)]
    have "well_padded (a # b # c # d # us) p" "w # x # y # z # t = base64_text (a # b # c # d # us) p"
      using us ab cd True by (auto simp: well_padded_def base64_text_def)
    then show ?thesis by blast
  next
    case False
    then have pad: "z = 61" using yz by blast
    then have "length bs \<noteq> 3" using bs(1) v wx by (auto simp: base64_decode_quad_eq Let_def split: if_splits)
    with bs(2) have t: "t = []" by blast
    show ?thesis
    proof (cases "y = 61")
      case True
      then have "well_padded [a, b] 2" "w # x # y # z # t = base64_text [a, b] 2"
        using ab pad t by (auto simp: well_padded_def base64_text_def numeral_2_eq_2)
      then show ?thesis by blast
    next
      case False
      then have "well_padded [a, b, c] 1" "w # x # y # z # t = base64_text [a, b, c] 1"
        using ab alphabet_unb64 [OF v(3)] pad t by (auto simp: well_padded_def base64_text_def)
      then show ?thesis by blast
    qed
  qed
next
  case "2_1"
  then show ?case by (intro exI [of _ "[]"] exI [of _ 0]) (simp add: well_padded_def base64_text_def)
qed auto

lemma decoded_text_iff:
  "(if length t mod 4 = 0 then decode_base64_loop t else None) = Some out \<longleftrightarrow>
     (\<exists>vs p. well_padded vs p \<and> t = base64_text vs p \<and> out = text_octets vs p)"
proof -
  have "length (base64_text vs p) mod 4 = 0" if "well_padded vs p" for vs p
    using that by (simp add: well_padded_def base64_text_def)
  then have "length t mod 4 = 0 \<and> decode_base64_loop t = Some (text_octets vs p)" if "well_padded vs p" "t = base64_text vs p" for vs p
    using that decode_base64_text by simp
  moreover have "\<exists>vs p. well_padded vs p \<and> t = base64_text vs p" if "length t mod 4 = 0" "decode_base64_loop t = Some out"
    using that(2,1) by (rule decoded_is_text)
  ultimately show ?thesis by (metis option.distinct(1) option.inject)
qed

lemma decode_stream_loop:
  assumes "\<forall>c\<in>set cs. length c < 2 ^ 29"
  shows "decode_run EVP_DecodeInit cs =
         (let t = filter (\<lambda>c. \<not> is_blank c) (concat cs)
          in if length t mod 4 = 0 then decode_base64_loop t else None)"
  using decode_run_spec [OF DecodeInit_ok(1) assms] by (simp add: DecodeInit_ok decode_rest_def Let_def)

section \<open>Properties\<close>

text \<open>
  The encoding stream does not depend on how its input is cut: any sequence of updates followed by
  the final call stores the base64 text of the concatenation, 64 characters to the line.
\<close>

theorem encode_stream_chunking:
  assumes "\<forall>c\<in>set cs. length c < 2 ^ 62"
  shows "encode_run EVP_EncodeInit cs = wrapped (concat cs)"
  using encode_run_spec [OF EncodeInit_ok(1) assms] by (simp add: EncodeInit_ok)

text \<open>
  C25: The decoding stream accepts exactly the padded base64 of RFC 4648, white space aside, and yields
  its octets. However a text is cut into pieces, of less than \<open>2 ^ 29\<close> characters each, feeding them to
  \<open>EVP_DecodeUpdate\<close> and calling \<open>EVP_DecodeFinal\<close> succeeds if and only if the text without its blanks and line ends
  is a sequence of characters of the alphabet followed by at most two padding characters, in groups of four; the
  output is then the octets of the number that these characters stand for. (The bits
  that the padding leaves over are not checked: they need not be zero.)
\<close>

theorem decode_stream_exact:
  assumes "\<forall>c\<in>set cs. length c < 2 ^ 29"
  shows "decode_run EVP_DecodeInit cs = Some out \<longleftrightarrow>
    (\<exists>vs p. well_padded vs p \<and> filter (\<lambda>c. \<not> is_blank c) (concat cs) = base64_text vs p \<and> out = text_octets vs p)"
  using decode_stream_loop [OF assms] decoded_text_iff [of "filter (\<lambda>c. \<not> is_blank c) (concat cs)" out]
  by (simp only: Let_def)

theorem decode_stream_exact_witness:
  "decode_run EVP_DecodeInit [[65, 81], [10, 61, 61]] = Some [1]
    \<and> decode_run EVP_DecodeInit [[65, 81, 61]] \<noteq> Some [1]"
proof
  have "alphabet ! 0 = 65" "alphabet ! 16 = 81" by (simp_all add: alphabet_b64 b64_def)
  moreover have "replicate 2 (61 :: u8) = [61, 61]" by (simp add: numeral_2_eq_2)
  ultimately have "filter (\<lambda>c. \<not> is_blank c) (concat [[65, 81], [10, 61, 61]]) = base64_text [0, 16] 2"
    by (simp add: base64_text_def is_blank_def)
  moreover have "well_padded [0, 16] 2" by (simp add: well_padded_def)
  moreover have "[1] = text_octets [0, 16] 2"
    by (simp add: text_octets_def text_value_def octets_of_quad del: be_bytes.simps)
  ultimately show "decode_run EVP_DecodeInit [[65, 81], [10, 61, 61]] = Some [1]"
    by (intro decode_stream_exact [THEN iffD2]) (simp, blast)
  have "length (base64_text vs p) mod 4 = 0" if "well_padded vs p" for vs p
    using that by (simp add: well_padded_def base64_text_def)
  moreover have "length [65 :: u8, 81, 61] mod 4 \<noteq> 0" by simp
  ultimately have "\<not> (\<exists>vs p. well_padded vs p \<and> [65, 81, 61] = base64_text vs p)" by metis
  moreover have "filter (\<lambda>c. \<not> is_blank c) (concat [[65, 81, 61]]) = [65, 81, 61]" by (simp add: is_blank_def)
  ultimately show "decode_run EVP_DecodeInit [[65, 81, 61]] \<noteq> Some [1]"
    using decode_stream_exact [of "[[65, 81, 61]]" "[1]"] by auto
qed



text \<open>
  \<open>EVP_EncodedLength\<close> returns exactly the number of bytes \<open>EVP_EncodeBlock\<close> stores, text and NUL,
  and fails exactly when that number is not a \<^verbatim>\<open>size_t\<close>.
\<close>

theorem encoded_length_exact:
  assumes "length src < 2 ^ 64"
  shows "EVP_EncodedLength (length src) =
         (let n = length (fst (EVP_EncodeBlock src)) in if n < 2 ^ 64 then Some n else None)"
proof -
  have "fst (EVP_EncodeBlock src) = encode src @ [0]" by (simp add: EVP_EncodeBlock_eq)
  moreover have "(m + 2) div 3 * 4 + 1 < 2 ^ 64 \<Longrightarrow> m + 2 < 2 ^ 64" for m :: nat by simp
  ultimately show ?thesis
    using EVP_EncodedLength_eq [OF assms] by (auto simp: Let_def length_encode)
qed

text \<open>\<open>EVP_DecodeBase64\<close> never stores more than \<open>max_out\<close> bytes.\<close>

theorem decode_within_bounds:
  assumes "EVP_DecodeBase64 max_out inp = Some out" and "length inp < 2 ^ 64"
  shows "length out \<le> max_out"
  using assms by (rule EVP_DecodeBase64_bounds)

end
