(* ===== verification/Stack.thy ===== *)
theory Stack
  imports Mem Qsort
begin

text \<open>
  \<^verbatim>\<open>crypto/stack/stack.c\<close>: the growable array of pointers behind every \<^verbatim>\<open>STACK_OF\<close> type. A
  pointer is an \<open>'a option\<close>, \<open>None\<close> for NULL. \<open>data\<close> is the whole allocated array, the first \<open>num\<close>
  entries are the stack. A comparison function is known by its address, of type \<open>'c\<close>, and
  called through \<open>call_cmp_func\<close>, as the C code does. A stack argument may be NULL (\<open>None\<close>).
  \<^verbatim>\<open>size_t\<close> values are natural numbers with the wrap-around at \<open>2 ^ 64\<close> written out.
\<close>

type_synonym 'a ptr = "'a option"

record ('a, 'c) stack =
  num :: nat
  data :: "'a ptr list"
  is_sorted :: bool
  num_alloc :: nat
  comp_func :: "'c option"

text \<open>
  A fresh array of \<open>n\<close> bytes for pointers: request \<open>t\<close> of the allocator, with the arbitrary contents
  \<open>junk\<close>. \<open>sizeof(void *)\<close> is 8 and \<open>sizeof(_STACK)\<close> is 40.
\<close>

definition malloc_ptrs :: "malloc_env \<Rightarrow> nat \<Rightarrow> (nat \<Rightarrow> 'a ptr) \<Rightarrow> nat \<Rightarrow> 'a ptr list option" where
  "malloc_ptrs al t junk n = map_option (\<lambda>h. map junk [0..<length (hb_bytes h) div 8]) (OPENSSL_malloc al t n)"

definition realloc_ptrs ::
    "malloc_env \<Rightarrow> nat \<Rightarrow> (nat \<Rightarrow> 'a ptr) \<Rightarrow> 'a ptr list \<Rightarrow> nat \<Rightarrow> 'a ptr list option" where
  "realloc_ptrs al t junk old n =
     map_option (\<lambda>new. let to_copy = (if length old < length new then length old else length new)
                       in take to_copy old @ drop to_copy new)
       (malloc_ptrs al t junk n)"

abbreviation (input) kMinSize :: nat where "kMinSize \<equiv> 4"

section \<open>Operations\<close>

definition sk_new :: "malloc_env \<Rightarrow> nat \<Rightarrow> (nat \<Rightarrow> 'a ptr) \<Rightarrow> 'c option \<Rightarrow> ('a, 'c) stack option" where
  "sk_new al t junk cmp =
     (case OPENSSL_malloc al t 40 of
        None \<Rightarrow> None
      | Some _ \<Rightarrow>
          (case malloc_ptrs al (Suc t) junk (8 * kMinSize) of
             None \<Rightarrow> None
           | Some d \<Rightarrow>
               Some \<lparr>num = 0, data = replicate kMinSize None @ drop kMinSize d, is_sorted = False,
                     num_alloc = kMinSize, comp_func = cmp\<rparr>))"

definition sk_new_null :: "malloc_env \<Rightarrow> nat \<Rightarrow> (nat \<Rightarrow> 'a ptr) \<Rightarrow> ('a, 'c) stack option" where
  "sk_new_null al t junk = sk_new al t junk None"

definition sk_num :: "('a, 'c) stack option \<Rightarrow> nat" where
  "sk_num sk = (case sk of None \<Rightarrow> 0 | Some s \<Rightarrow> num s)"

definition sk_zero :: "('a, 'c) stack option \<Rightarrow> ('a, 'c) stack option" where
  "sk_zero sk =
     (case sk of
        None \<Rightarrow> None
      | Some s \<Rightarrow>
          (if num s = 0 then Some s
           else Some (s\<lparr>data := replicate (num s) None @ drop (num s) (data s), num := 0, is_sorted := False\<rparr>)))"

definition sk_value :: "('a, 'c) stack option \<Rightarrow> nat \<Rightarrow> 'a ptr" where
  "sk_value sk i = (case sk of None \<Rightarrow> None | Some s \<Rightarrow> if i \<ge> num s then None else data s ! i)"

definition sk_set :: "('a, 'c) stack option \<Rightarrow> nat \<Rightarrow> 'a ptr \<Rightarrow> 'a ptr \<times> ('a, 'c) stack option" where
  "sk_set sk i v =
     (case sk of
        None \<Rightarrow> (None, None)
      | Some s \<Rightarrow> if i \<ge> num s then (None, Some s) else (v, Some (s\<lparr>data := (data s)[i := v]\<rparr>)))"

text \<open>\<open>sk_pop_free_ex\<close>: the calls of the destructor, in order.\<close>

definition sk_pop_free_ex :: "('a, 'c) stack option \<Rightarrow> 'a list" where
  "sk_pop_free_ex sk =
     (case sk of None \<Rightarrow> [] | Some s \<Rightarrow> map the (filter (\<lambda>p. p \<noteq> None) (take (num s) (data s))))"

definition sk_pop_free :: "('a, 'c) stack option \<Rightarrow> 'a list" where
  "sk_pop_free sk = sk_pop_free_ex sk"

text \<open>\<open>sk_insert\<close>: the return value (0 on failure) and the stack. The \<open>if\<close> in the middle is the growth.\<close>

definition sk_grow :: "malloc_env \<Rightarrow> nat \<Rightarrow> (nat \<Rightarrow> 'a ptr) \<Rightarrow> ('a, 'c) stack \<Rightarrow> ('a, 'c) stack option" where
  "sk_grow al t junk s =
     (let new_alloc = (num_alloc s * 2) mod 2 ^ 64;
          alloc_size = (new_alloc * 8) mod 2 ^ 64;
          overflow = (new_alloc < num_alloc s \<or> alloc_size div 8 \<noteq> new_alloc);
          new_alloc = (if overflow then (num_alloc s + 1) mod 2 ^ 64 else new_alloc);
          alloc_size = (if overflow then (new_alloc * 8) mod 2 ^ 64 else alloc_size)
      in if new_alloc < num_alloc s \<or> alloc_size div 8 \<noteq> new_alloc then None
         else map_option (\<lambda>d. s\<lparr>data := d, num_alloc := new_alloc\<rparr>) (realloc_ptrs al t junk (data s) alloc_size))"

definition sk_place :: "('a, 'c) stack \<Rightarrow> 'a ptr \<Rightarrow> nat \<Rightarrow> ('a, 'c) stack" where
  "sk_place s p idx =
     (let d = (if idx \<ge> num s then (data s)[num s := p]
               else let n = num s - idx;
                        moved = take (idx + 1) (data s) @ take n (drop idx (data s)) @ drop (idx + 1 + n) (data s)
                    in moved[idx := p])
      in s\<lparr>data := d, num := num s + 1, is_sorted := False\<rparr>)"

definition sk_insert ::
    "malloc_env \<Rightarrow> nat \<Rightarrow> (nat \<Rightarrow> 'a ptr) \<Rightarrow> ('a, 'c) stack option \<Rightarrow> 'a ptr \<Rightarrow> nat \<Rightarrow> nat \<times> ('a, 'c) stack option" where
  "sk_insert al t junk sk p idx =
     (case sk of
        None \<Rightarrow> (0, None)
      | Some s \<Rightarrow>
          (case (if num_alloc s \<le> (num s + 1) mod 2 ^ 64 then sk_grow al t junk s else Some s) of
             None \<Rightarrow> (0, Some s)
           | Some s \<Rightarrow> let s = sk_place s p idx in (num s, Some s)))"

definition sk_delete :: "('a, 'c) stack option \<Rightarrow> nat \<Rightarrow> 'a ptr \<times> ('a, 'c) stack option" where
  "sk_delete sk idx =
     (case sk of
        None \<Rightarrow> (None, None)
      | Some s \<Rightarrow>
          (if idx \<ge> num s then (None, Some s)
           else
             (let ret = data s ! idx;
                  n = num s - idx - 1;
                  d = (if idx \<noteq> num s - 1
                       then take idx (data s) @ take n (drop (idx + 1) (data s)) @ drop (idx + n) (data s)
                       else data s)
              in (ret, Some (s\<lparr>data := d, num := num s - 1\<rparr>)))))"

text \<open>The loops that look for a pointer, or for an element that compares equal, from index \<open>i\<close>.\<close>

fun find_from :: "('a ptr \<Rightarrow> bool) \<Rightarrow> 'a ptr list \<Rightarrow> nat \<Rightarrow> nat option" where
  "find_from P [] i = None"
| "find_from P (x # xs) i = (if P x then Some i else find_from P xs (i + 1))"

definition sk_delete_ptr :: "('a, 'c) stack option \<Rightarrow> 'a ptr \<Rightarrow> 'a ptr \<times> ('a, 'c) stack option" where
  "sk_delete_ptr sk p =
     (case sk of
        None \<Rightarrow> (None, None)
      | Some s \<Rightarrow>
          (case find_from (\<lambda>x. x = p) (take (num s) (data s)) 0 of
             None \<Rightarrow> (None, sk)
           | Some i \<Rightarrow> sk_delete sk i))"

definition sk_is_sorted :: "('a, 'c) stack option \<Rightarrow> bool" where
  "sk_is_sorted sk = (case sk of None \<Rightarrow> True | Some s \<Rightarrow> is_sorted s)"

text \<open>The binary search of \<open>sk_find\<close> on the interval from \<open>lo\<close> to \<open>hi\<close>; \<open>cmp\<close> compares the key with an element.\<close>

function find_sorted :: "('a ptr \<Rightarrow> int) \<Rightarrow> 'a ptr list \<Rightarrow> nat \<Rightarrow> nat \<Rightarrow> nat option" where
  "find_sorted cmp d lo hi =
     (if lo < hi then
        (let mid = lo + (hi - lo - 1) div 2;
             r = cmp (d ! mid)
         in if r > 0 then find_sorted cmp d (mid + 1) hi
            else if r < 0 then find_sorted cmp d lo mid
            else if hi - lo = 1 then Some mid
            else find_sorted cmp d lo (mid + 1))
      else None)"
  by auto

termination find_sorted
  by (relation "measure (\<lambda>(_, _, lo, hi). hi - lo)") auto

declare find_sorted.simps [simp del]

text \<open>\<open>sk_find\<close>: \<open>Some\<close> of the index stored for the return value 1, \<open>None\<close> for 0.\<close>

definition sk_find ::
    "('c \<Rightarrow> 'a ptr \<Rightarrow> 'a ptr \<Rightarrow> int) \<Rightarrow> ('a, 'c) stack option \<Rightarrow> 'a ptr \<Rightarrow> nat option" where
  "sk_find call_cmp_func sk p =
     (case sk of
        None \<Rightarrow> None
      | Some s \<Rightarrow>
          (case comp_func s of
             None \<Rightarrow> find_from (\<lambda>x. x = p) (take (num s) (data s)) 0
           | Some cmp \<Rightarrow>
               (if p = None then None
                else if \<not> sk_is_sorted sk
                then find_from (\<lambda>elem. call_cmp_func cmp p elem = 0) (take (num s) (data s)) 0
                else find_sorted (call_cmp_func cmp p) (data s) 0 (num s))))"

definition sk_shift :: "('a, 'c) stack option \<Rightarrow> 'a ptr \<times> ('a, 'c) stack option" where
  "sk_shift sk =
     (case sk of None \<Rightarrow> (None, None) | Some s \<Rightarrow> if num s = 0 then (None, sk) else sk_delete sk 0)"

text \<open>\<open>sk_push\<close> reads \<open>sk->num\<close>, so it takes no NULL stack.\<close>

definition sk_push ::
    "malloc_env \<Rightarrow> nat \<Rightarrow> (nat \<Rightarrow> 'a ptr) \<Rightarrow> ('a, 'c) stack \<Rightarrow> 'a ptr \<Rightarrow> nat \<times> ('a, 'c) stack option" where
  "sk_push al t junk s p = sk_insert al t junk (Some s) p (num s)"

definition sk_pop :: "('a, 'c) stack option \<Rightarrow> 'a ptr \<times> ('a, 'c) stack option" where
  "sk_pop sk =
     (case sk of None \<Rightarrow> (None, None) | Some s \<Rightarrow> if num s = 0 then (None, sk) else sk_delete sk (num s - 1))"

definition sk_dup :: "malloc_env \<Rightarrow> nat \<Rightarrow> (nat \<Rightarrow> 'a ptr) \<Rightarrow> ('a, 'c) stack option \<Rightarrow> ('a, 'c) stack option" where
  "sk_dup al t junk sk =
     (case sk of
        None \<Rightarrow> None
      | Some s \<Rightarrow>
          (case sk_new al t junk (comp_func s) of
             None \<Rightarrow> None
           | Some ret \<Rightarrow>
               (case realloc_ptrs al (t + 2) junk (data ret) ((8 * num_alloc s) mod 2 ^ 64) of
                  None \<Rightarrow> None
                | Some d \<Rightarrow>
                    Some \<lparr>num = num s, data = take (num s) (data s) @ drop (num s) d, is_sorted = is_sorted s,
                          num_alloc = num_alloc s, comp_func = comp_func s\<rparr>)))"

text \<open>\<open>qsort\<close> is the function of the C library.\<close>

definition sk_sort ::
    "(('a ptr \<Rightarrow> 'a ptr \<Rightarrow> int) \<Rightarrow> 'a ptr list \<Rightarrow> 'a ptr list) \<Rightarrow> ('c \<Rightarrow> 'a ptr \<Rightarrow> 'a ptr \<Rightarrow> int) \<Rightarrow>
     ('a, 'c) stack option \<Rightarrow> ('a, 'c) stack option" where
  "sk_sort qsort call sk =
     (case sk of
        None \<Rightarrow> None
      | Some s \<Rightarrow>
          (case comp_func s of
             None \<Rightarrow> Some s
           | Some cmp \<Rightarrow>
               (if is_sorted s then Some s
                else Some (s\<lparr>data := (if num s \<ge> 2
                                      then qsort (call cmp) (take (num s) (data s)) @ drop (num s) (data s)
                                      else data s),
                             is_sorted := True\<rparr>))))"

text \<open>\<open>sk_set_cmp_func\<close> takes no NULL stack.\<close>

definition sk_set_cmp_func :: "('a, 'c) stack \<Rightarrow> 'c option \<Rightarrow> 'c option \<times> ('a, 'c) stack" where
  "sk_set_cmp_func s cmp =
     (comp_func s, s\<lparr>is_sorted := (if comp_func s \<noteq> cmp then False else is_sorted s), comp_func := cmp\<rparr>)"

text \<open>
  The loop of \<open>sk_deep_copy\<close> from index \<open>i\<close>, over the entries still to copy, with the copies made so far:
  \<open>copy\<close> yields the copy or NULL. The result is the new entries, or the entries freed after a failure.
\<close>

fun deep_copy_loop :: "(nat \<Rightarrow> 'a \<Rightarrow> 'a ptr) \<Rightarrow> nat \<Rightarrow> 'a ptr list \<Rightarrow> 'a ptr list \<Rightarrow> 'a list + 'a ptr list" where
  "deep_copy_loop copy i copied [] = Inr copied"
| "deep_copy_loop copy i copied (None # xs) = deep_copy_loop copy (i + 1) (copied @ [None]) xs"
| "deep_copy_loop copy i copied (Some x # xs) =
     (case copy i x of
        None \<Rightarrow> Inl (map the (filter (\<lambda>p. p \<noteq> None) copied))
      | Some y \<Rightarrow> deep_copy_loop copy (i + 1) (copied @ [Some y]) xs)"

definition sk_deep_copy ::
    "malloc_env \<Rightarrow> nat \<Rightarrow> (nat \<Rightarrow> 'a ptr) \<Rightarrow> (nat \<Rightarrow> 'a \<Rightarrow> 'a ptr) \<Rightarrow> ('a, 'c) stack option \<Rightarrow>
     ('a, 'c) stack option \<times> 'a list" where
  "sk_deep_copy al t junk copy sk =
     (case sk_dup al t junk sk of
        None \<Rightarrow> (None, [])
      | Some ret \<Rightarrow>
          (case deep_copy_loop copy 0 [] (take (num ret) (data ret)) of
             Inl freed \<Rightarrow> (None, freed)
           | Inr copied \<Rightarrow> (Some (ret\<lparr>data := copied @ drop (num ret) (data ret)\<rparr>), [])))"

section \<open>What a stack holds\<close>

definition elems :: "('a, 'c) stack \<Rightarrow> 'a ptr list" where
  "elems s = take (num s) (data s)"

definition stack_ok :: "('a, 'c) stack \<Rightarrow> bool" where
  "stack_ok s \<longleftrightarrow> length (data s) = num_alloc s \<and> num s < num_alloc s \<and> 8 * num_alloc s + 8 < 2 ^ 63"

definition insert_at :: "nat \<Rightarrow> 'x \<Rightarrow> 'x list \<Rightarrow> 'x list" where
  "insert_at i x xs = take i xs @ x # drop i xs"

definition delete_at :: "nat \<Rightarrow> 'x list \<Rightarrow> 'x list" where
  "delete_at i xs = take i xs @ drop (Suc i) xs"

lemma length_elems [simp]: "stack_ok s \<Longrightarrow> length (elems s) = num s"
  by (simp add: elems_def stack_ok_def)

lemma elems_nth: "stack_ok s \<Longrightarrow> i < num s \<Longrightarrow> elems s ! i = data s ! i"
  by (simp add: elems_def)

lemma malloc_ptrs_Some:
  assumes "malloc_ptrs al t junk (8 * n) = Some d" and "8 * n + 8 < 2 ^ 64"
  shows "length d = n \<and> 8 * n + 8 < 2 ^ 63"
proof -
  obtain h where h: "OPENSSL_malloc al t (8 * n) = Some h" and d: "d = map junk [0..<length (hb_bytes h) div 8]"
    using assms(1) by (auto simp: malloc_ptrs_def)
  from OPENSSL_malloc_block [OF h assms(2)] show ?thesis by (simp add: d block_ok_def)
qed

lemma malloc_ptrs_succeeds: "al_total al \<Longrightarrow> 8 * n + 8 < 2 ^ 63 \<Longrightarrow> malloc_ptrs al t junk (8 * n) \<noteq> None"
  by (simp add: malloc_ptrs_def OPENSSL_malloc_succeeds)

lemma realloc_ptrs_Some:
  assumes "realloc_ptrs al t junk old (8 * n) = Some d" and "8 * n + 8 < 2 ^ 64"
  shows "length d = n \<and> 8 * n + 8 < 2 ^ 63 \<and> take (min (length old) n) d = take (min (length old) n) old"
proof -
  obtain new where new: "malloc_ptrs al t junk (8 * n) = Some new"
    and d: "d = (let to_copy = (if length old < length new then length old else length new)
                 in take to_copy old @ drop to_copy new)"
    using assms(1) by (auto simp: realloc_ptrs_def)
  from malloc_ptrs_Some [OF new assms(2)] show ?thesis by (auto simp: d Let_def min_def)
qed

lemma sk_new_ok:
  assumes "sk_new al t junk cmp = Some s"
  shows "stack_ok s \<and> elems s = [] \<and> comp_func s = cmp \<and> num_alloc s = 4"
proof -
  obtain d where d: "malloc_ptrs al (Suc t) junk 32 = Some d"
    and s: "s = \<lparr>num = 0, data = replicate kMinSize None @ drop kMinSize d, is_sorted = False,
                 num_alloc = kMinSize, comp_func = cmp\<rparr>"
    using assms by (auto simp: sk_new_def split: option.splits)
  have "length d = 4" using malloc_ptrs_Some [of al "Suc t" junk 4 d] d by simp
  then show ?thesis by (simp add: s stack_ok_def elems_def)
qed

lemma sk_grow_eq:
  assumes "stack_ok s"
  shows "sk_grow al t junk s =
    map_option (\<lambda>d. s\<lparr>data := d, num_alloc := 2 * num_alloc s\<rparr>)
      (realloc_ptrs al t junk (data s) (8 * (2 * num_alloc s)))"
proof -
  define n where "n = num_alloc s"
  have "8 * n + 8 < 2 ^ 63" using assms by (simp add: stack_ok_def n_def)
  then have "(n * 2) mod 2 ^ 64 = 2 * n" "(2 * n * 8) mod 2 ^ 64 = 8 * (2 * n)" by simp_all
  then show ?thesis by (simp add: sk_grow_def n_def [symmetric] Let_def mult.commute)
qed

lemma sk_grow_spec:
  assumes ok: "stack_ok s" and g: "sk_grow al t junk s = Some s'"
  shows "stack_ok s' \<and> elems s' = elems s \<and> num s' = num s \<and> num s + 1 < num_alloc s'"
proof -
  have n: "8 * num_alloc s + 8 < 2 ^ 63" "num s < num_alloc s" "length (data s) = num_alloc s"
    using ok by (simp_all add: stack_ok_def)
  obtain d where d: "realloc_ptrs al t junk (data s) (8 * (2 * num_alloc s)) = Some d"
    and s': "s' = s\<lparr>data := d, num_alloc := 2 * num_alloc s\<rparr>"
    using g by (auto simp: sk_grow_eq [OF ok])
  have "8 * (2 * num_alloc s) + 8 < 2 ^ 64" using n(1) by simp
  note r = realloc_ptrs_Some [OF d this]
  have "take (num s) (take (num_alloc s) d) = take (num s) (take (num_alloc s) (data s))"
    using r n(3) by (simp add: min_def)
  then have "take (num s) d = take (num s) (data s)" using n(2) by (simp add: min_def)
  then show ?thesis using r n by (simp add: s' stack_ok_def elems_def)
qed

lemma sk_grow_succeeds:
  assumes "stack_ok s" "al_total al" "16 * num_alloc s + 8 < 2 ^ 63"
  shows "\<exists>s'. sk_grow al t junk s = Some s'"
proof -
  have "malloc_ptrs al t junk (8 * (2 * num_alloc s)) \<noteq> None"
    using assms by (intro malloc_ptrs_succeeds) simp_all
  then show ?thesis by (auto simp: sk_grow_eq [OF assms(1)] realloc_ptrs_def)
qed

lemma split_at: "i < length xs \<Longrightarrow> \<exists>ys x zs. xs = ys @ x # zs \<and> length ys = i"
  by (intro exI [of _ "take i xs"] exI [of _ "xs ! i"] exI [of _ "drop (Suc i) xs"])
     (simp add: id_take_nth_drop [symmetric])

lemma place_list:
  assumes "length us = w"
  shows "(let moved = take (w + 1) (us @ x # vs @ r # rest) @ take (Suc (length vs)) (drop w (us @ x # vs @ r # rest))
                @ drop (w + 1 + Suc (length vs)) (us @ x # vs @ r # rest)
          in moved[w := p]) = us @ p # x # vs @ rest"
  using assms by (simp add: Let_def list_update_append)

lemma sk_place_eq:
  assumes "num s < length (data s)"
  shows "\<exists>d. sk_place s p w = s\<lparr>data := d, num := num s + 1, is_sorted := False\<rparr>
             \<and> length d = length (data s) \<and> take (num s + 1) d = insert_at w p (elems s)"
proof -
  obtain ys r rest where d: "data s = ys @ r # rest" "length ys = num s"
    using split_at [OF assms] by auto
  show ?thesis
  proof (cases "w \<ge> num s")
    case True
    then have "sk_place s p w = s\<lparr>data := ys @ p # rest, num := num s + 1, is_sorted := False\<rparr>"
      by (simp add: sk_place_def d list_update_append)
    then show ?thesis
      using True by (intro exI [of _ "ys @ p # rest"]) (simp add: elems_def insert_at_def d)
  next
    case False
    then obtain us x vs where y: "ys = us @ x # vs" "length us = w"
      using split_at [of w ys] d(2) by auto
    have n: "num s - w = Suc (length vs)" using d(2) y by simp
    have m: "num s = w + Suc (length vs)" using d(2) y by simp
    have "sk_place s p w = s\<lparr>data := us @ p # x # vs @ rest, num := num s + 1, is_sorted := False\<rparr>"
      using False place_list [OF y(2), of x vs r rest p] by (simp add: sk_place_def n d(1) y(1) Let_def)
    moreover have "elems s = us @ x # vs" using y by (simp add: elems_def d(1) m)
    ultimately show ?thesis
      using y d(2) by (intro exI [of _ "us @ p # x # vs @ rest"]) (simp add: insert_at_def d(1) m)
  qed
qed

lemma sk_place_spec:
  assumes "length (data s) = num_alloc s" "num s + 1 < num_alloc s" "8 * num_alloc s + 8 < 2 ^ 63"
  shows "stack_ok (sk_place s p w) \<and> elems (sk_place s p w) = insert_at w p (elems s)
         \<and> num (sk_place s p w) = num s + 1"
  using sk_place_eq [of s p w] assms by (auto simp: stack_ok_def elems_def)

lemma sk_insert_spec:
  assumes ok: "stack_ok s" and ins: "sk_insert al t junk (Some s) p w = (r, sk)"
  shows "if r = 0 then sk = Some s
         else \<exists>s'. sk = Some s' \<and> stack_ok s' \<and> r = num s + 1 \<and> elems s' = insert_at w p (elems s)"
proof -
  have nw: "(num s + 1) mod 2 ^ 64 = num s + 1" using ok by (simp add: stack_ok_def)
  define g where "g = (if num_alloc s \<le> num s + 1 then sk_grow al t junk s else Some s)"
  have eq: "sk_insert al t junk (Some s) p w
      = (case g of None \<Rightarrow> (0, Some s) | Some s \<Rightarrow> let s = sk_place s p w in (num s, Some s))"
    using nw by (simp add: sk_insert_def g_def)
  show ?thesis
  proof (cases g)
    case None
    then show ?thesis using ins eq by auto
  next
    case (Some s1)
    have "stack_ok s1 \<and> elems s1 = elems s \<and> num s1 = num s \<and> num s + 1 < num_alloc s1"
    proof (cases "num_alloc s \<le> num s + 1")
      case True
      then show ?thesis using Some sk_grow_spec [OF ok, of al t junk s1] by (simp add: g_def)
    next
      case False
      then show ?thesis using Some ok by (simp add: g_def)
    qed
    then show ?thesis using sk_place_spec [of s1 p w] ins eq Some by (auto simp: Let_def stack_ok_def)
  qed
qed

lemma sk_insert_succeeds:
  assumes "stack_ok s" "al_total al" "16 * num_alloc s + 8 < 2 ^ 63"
  shows "fst (sk_insert al t junk (Some s) p w) \<noteq> 0"
proof -
  have "(num s + 1) mod 2 ^ 64 = num s + 1" using assms(1) by (simp add: stack_ok_def)
  then show ?thesis
    using sk_grow_succeeds [OF assms, of t junk] by (auto simp: sk_insert_def Let_def sk_place_def)
qed

lemma sk_delete_spec:
  assumes ok: "stack_ok s" and w: "w < num s"
  shows "\<exists>s'. sk_delete (Some s) w = (elems s ! w, Some s') \<and> stack_ok s' \<and> num s' = num s - 1
              \<and> elems s' = delete_at w (elems s) \<and> is_sorted s' = is_sorted s \<and> comp_func s' = comp_func s"
proof -
  obtain ys r rest where d: "data s = ys @ r # rest" "length ys = num s"
    using split_at [of "num s" "data s"] ok by (auto simp: stack_ok_def)
  obtain us x vs where y: "ys = us @ x # vs" "length us = w" using split_at [of w ys] d(2) w by auto
  have m: "num s = w + Suc (length vs)" using d(2) y by simp
  have n: "num s - w - 1 = length vs" and l: "w \<noteq> num s - 1 \<longleftrightarrow> vs \<noteq> []" using m by auto
  have e: "elems s = us @ x # vs" using y by (simp add: elems_def d(1) m)
  define s' where "s' = s\<lparr>data := (if vs = [] then data s else us @ vs @ drop (w + length vs) (data s)), num := num s - 1\<rparr>"
  have "sk_delete (Some s) w = (x, Some s')"
    using y(2) by (simp add: sk_delete_def Let_def m s'_def d(1) y(1) nth_append)
  moreover have "elems s' = us @ vs" using y by (simp add: s'_def elems_def d(1) m)
  moreover have "stack_ok s'" using ok y by (auto simp: stack_ok_def s'_def d(1) m)
  ultimately show ?thesis using y(2) by (auto simp: e delete_at_def nth_append s'_def)
qed

section \<open>The stack as a sequence\<close>

text \<open>
  What a client relies on: \<open>push\<close> appends, \<open>pop\<close> and \<open>shift\<close> take the last and the first item. In the
  locale the state is abstract; the disciplines of a stack and of a queue follow once.
\<close>

fun put_back :: "('s \<Rightarrow> 'x \<Rightarrow> 's option) \<Rightarrow> 's \<Rightarrow> 'x list \<Rightarrow> 's option" where
  "put_back push s [] = Some s"
| "put_back push s (x # xs) = (case push s x of None \<Rightarrow> None | Some s \<Rightarrow> put_back push s xs)"

primrec take_out :: "('s \<Rightarrow> 'x \<times> 's) \<Rightarrow> nat \<Rightarrow> 's \<Rightarrow> 'x list \<times> 's" where
  "take_out pop 0 s = ([], s)"
| "take_out pop (Suc n) s = (case pop s of (x, s) \<Rightarrow> case take_out pop n s of (xs, s) \<Rightarrow> (x # xs, s))"

locale sequence =
  fixes push :: "'s \<Rightarrow> 'x \<Rightarrow> 's option" and pop shift :: "'s \<Rightarrow> 'x \<times> 's"
    and items :: "'s \<Rightarrow> 'x list" and invar :: "'s \<Rightarrow> bool"
  assumes push_items: "invar s \<Longrightarrow> push s x = Some s' \<Longrightarrow> invar s' \<and> items s' = items s @ [x]"
    and pop_items: "invar s \<Longrightarrow> items s = xs @ [x] \<Longrightarrow> \<exists>s'. pop s = (x, s') \<and> invar s' \<and> items s' = xs"
    and shift_items: "invar s \<Longrightarrow> items s = x # xs \<Longrightarrow> \<exists>s'. shift s = (x, s') \<and> invar s' \<and> items s' = xs"
begin

lemma put_back_items:
  "invar s \<Longrightarrow> put_back push s xs = Some s' \<Longrightarrow> invar s' \<and> items s' = items s @ xs"
proof (induction xs arbitrary: s)
  case (Cons x xs)
  then obtain s1 where s1: "push s x = Some s1" "put_back push s1 xs = Some s'"
    by (auto split: option.splits)
  then show ?case using push_items [OF Cons.prems(1) s1(1)] Cons.IH [of s1] by simp
qed simp

lemma take_out_shift:
  "invar s \<Longrightarrow> n \<le> length (items s) \<Longrightarrow>
   \<exists>s'. take_out shift n s = (take n (items s), s') \<and> invar s' \<and> items s' = drop n (items s)"
proof (induction n arbitrary: s)
  case (Suc n)
  then obtain x xs where xs: "items s = x # xs" by (cases "items s") auto
  then obtain s1 where s1: "shift s = (x, s1)" "invar s1" "items s1 = xs"
    using shift_items [OF Suc.prems(1)] by blast
  then obtain s' where "take_out shift n s1 = (take n xs, s')" "invar s'" "items s' = drop n xs"
    using Suc.IH [of s1] Suc.prems xs by auto
  then show ?case using s1 xs by auto
qed simp

lemma take_out_pop:
  "invar s \<Longrightarrow> n \<le> length (items s) \<Longrightarrow>
   \<exists>s'. take_out pop n s = (take n (rev (items s)), s') \<and> invar s' \<and> items s' = take (length (items s) - n) (items s)"
proof (induction n arbitrary: s)
  case (Suc n)
  then obtain ys y where ys: "items s = ys @ [y]" by (cases "items s" rule: rev_cases) auto
  then obtain s1 where s1: "pop s = (y, s1)" "invar s1" "items s1 = ys"
    using pop_items [OF Suc.prems(1)] by blast
  then obtain s' where "take_out pop n s1 = (take n (rev ys), s')" "invar s'" "items s' = take (length ys - n) ys"
    using Suc.IH [of s1] Suc.prems ys by auto
  then show ?case using s1 ys by auto
qed simp

text \<open>Everything that was pushed comes out in order at the front, in reverse at the back.\<close>

lemma first_in_first_out:
  assumes "invar s" "items s = []" "put_back push s xs = Some s'"
  shows "fst (take_out shift (length xs) s') = xs"
  using put_back_items [OF assms(1,3)] take_out_shift [of s' "length xs"] assms(2) by auto

lemma last_in_first_out:
  assumes "invar s" "items s = []" "put_back push s xs = Some s'"
  shows "fst (take_out pop (length xs) s') = rev xs"
  using put_back_items [OF assms(1,3)] take_out_pop [of s' "length xs"] assms(2) by auto

end

text \<open>
  The pointer stack provides the interface. The state carries the number of the next request to the
  allocator, and the stack.
\<close>

definition push_ptr ::
    "malloc_env \<Rightarrow> (nat \<Rightarrow> 'a ptr) \<Rightarrow> nat \<times> ('a, 'c) stack \<Rightarrow> 'a ptr \<Rightarrow> (nat \<times> ('a, 'c) stack) option" where
  "push_ptr al junk st p =
     (case sk_push al (fst st) junk (snd st) p of
        (r, sk) \<Rightarrow> if r = 0 then None else map_option (\<lambda>s. (Suc (fst st), s)) sk)"

definition with_stack :: "(('a, 'c) stack option \<Rightarrow> 'a ptr \<times> ('a, 'c) stack option) \<Rightarrow>
    nat \<times> ('a, 'c) stack \<Rightarrow> 'a ptr \<times> nat \<times> ('a, 'c) stack" where
  "with_stack f st =
     (case f (Some (snd st)) of (p, sk) \<Rightarrow> (p, fst st, case sk of None \<Rightarrow> snd st | Some s \<Rightarrow> s))"

interpretation ptrs: sequence "push_ptr al junk" "with_stack sk_pop" "with_stack sk_shift"
    "\<lambda>st. elems (snd st)" "\<lambda>st. stack_ok (snd st)"
proof
  show "stack_ok (snd s') \<and> elems (snd s') = elems (snd s) @ [x]"
    if "stack_ok (snd s)" "push_ptr al junk s x = Some s'" for s x s'
  proof -
    obtain r sk where ins: "sk_insert al (fst s) junk (Some (snd s)) x (num (snd s)) = (r, sk)"
      by (rule prod.exhaust)
    show ?thesis using sk_insert_spec [OF that(1) ins] that ins
      by (auto simp: push_ptr_def sk_push_def insert_at_def split: if_splits)
  qed
  show "\<exists>s'. with_stack sk_pop s = (x, s') \<and> stack_ok (snd s') \<and> elems (snd s') = xs"
    if "stack_ok (snd s)" "elems (snd s) = xs @ [x]" for s x xs
  proof -
    note ok = that(1) and it = that(2)
    have n: "num (snd s) = Suc (length xs)" using ok it length_elems [of "snd s"] by simp
    then obtain t where "sk_delete (Some (snd s)) (length xs) = (x, Some t)" "stack_ok t" "elems t = xs"
      using sk_delete_spec [OF ok, of "length xs"] it by (auto simp: delete_at_def)
    then show ?thesis using n by (simp add: with_stack_def sk_pop_def)
  qed
  show "\<exists>s'. with_stack sk_shift s = (x, s') \<and> stack_ok (snd s') \<and> elems (snd s') = xs"
    if "stack_ok (snd s)" "elems (snd s) = x # xs" for s x xs
  proof -
    note ok = that(1) and it = that(2)
    have n: "num (snd s) = Suc (length xs)" using ok it length_elems [of "snd s"] by simp
    then obtain t where "sk_delete (Some (snd s)) 0 = (x, Some t)" "stack_ok t" "elems t = xs"
      using sk_delete_spec [OF ok, of 0] it by (auto simp: delete_at_def)
    then show ?thesis using n by (simp add: with_stack_def sk_shift_def)
  qed
qed

section \<open>Finding\<close>

lemma find_from_append:
  "find_from P (xs @ ys) i = (case find_from P xs i of None \<Rightarrow> find_from P ys (i + length xs) | Some j \<Rightarrow> Some j)"
  by (induction xs arbitrary: i) (simp_all split: option.split)

lemma find_from_None: "find_from P xs i = None \<longleftrightarrow> (\<forall>x\<in>set xs. \<not> P x)"
  by (induction xs arbitrary: i) auto

lemma find_from_shift: "find_from P xs (i + k) = map_option ((+) k) (find_from P xs i)"
proof (induction xs arbitrary: i)
  case (Cons x xs)
  then show ?case using Cons [of "i + 1"] by simp
qed simp

lemma find_from_Some:
  "find_from P xs 0 = Some j \<longleftrightarrow> j < length xs \<and> P (xs ! j) \<and> (\<forall>k<j. \<not> P (xs ! k))"
proof (induction xs arbitrary: j)
  case (Cons x xs)
  have s: "find_from P xs (Suc 0) = map_option Suc (find_from P xs 0)"
  proof -
    have "(+) (Suc 0) = Suc" by auto
    then show ?thesis using find_from_shift [of P xs 0 1] by simp
  qed
  show ?case
  proof (cases j)
    case 0
    then show ?thesis using s by auto
  next
    case (Suc i)
    then show ?thesis using Cons [of i] s by (auto simp: less_Suc_eq_0_disj)
  qed
qed simp

text \<open>The key compared with sorted elements: the sign never rises along the list.\<close>

definition falling :: "('a ptr \<Rightarrow> int) \<Rightarrow> 'a ptr list \<Rightarrow> bool" where
  "falling cmp d \<longleftrightarrow> sorted_wrt (\<lambda>x y. (cmp x \<le> 0 \<longrightarrow> cmp y \<le> 0) \<and> (cmp x < 0 \<longrightarrow> cmp y < 0)) d"

lemma fallingD:
  assumes "falling cmp d" "i \<le> j" "j < length d"
  shows "cmp (d ! i) \<le> 0 \<Longrightarrow> cmp (d ! j) \<le> 0" and "cmp (d ! i) < 0 \<Longrightarrow> cmp (d ! j) < 0"
proof -
  have "i < j \<Longrightarrow> (cmp (d ! i) \<le> 0 \<longrightarrow> cmp (d ! j) \<le> 0) \<and> (cmp (d ! i) < 0 \<longrightarrow> cmp (d ! j) < 0)"
    using sorted_wrt_nth_less [OF assms(1) [unfolded falling_def], of i j] assms(3) by blast
  then show "cmp (d ! i) \<le> 0 \<Longrightarrow> cmp (d ! j) \<le> 0" and "cmp (d ! i) < 0 \<Longrightarrow> cmp (d ! j) < 0"
    using assms(2) by (cases "i = j"; simp)+
qed

text \<open>Dropping a stretch without a match from either end of the interval.\<close>

lemma slice_split:
  assumes "lo \<le> m" "m \<le> hi" "hi \<le> length d"
  shows "drop lo (take hi d) = drop lo (take m d) @ drop m (take hi d)"
  using take_add [of "m - lo" "hi - m" "drop lo d"] assms by (simp add: drop_take)

lemma slice_skip_left:
  assumes "lo \<le> m" "m \<le> hi" "hi \<le> length d" and "\<forall>i. lo \<le> i \<and> i < m \<longrightarrow> \<not> P (d ! i)"
  shows "find_from P (drop lo (take hi d)) lo = find_from P (drop m (take hi d)) m"
proof -
  have "\<forall>x\<in>set (drop lo (take m d)). \<not> P x" using assms by (auto simp: set_conv_nth)
  then have "find_from P (drop lo (take m d)) lo = None" by (simp add: find_from_None)
  moreover have "lo + length (drop lo (take m d)) = m" using assms by simp
  ultimately show ?thesis using slice_split [OF assms(1-3)] by (simp add: find_from_append)
qed

lemma slice_skip_right:
  assumes "lo \<le> m" "m \<le> hi" "hi \<le> length d"
    and "(\<forall>i. m \<le> i \<and> i < hi \<longrightarrow> \<not> P (d ! i)) \<or> (\<exists>i. lo \<le> i \<and> i < m \<and> P (d ! i))"
  shows "find_from P (drop lo (take hi d)) lo = find_from P (drop lo (take m d)) lo"
  using assms(4)
proof
  assume "\<forall>i. m \<le> i \<and> i < hi \<longrightarrow> \<not> P (d ! i)"
  then have "\<forall>x\<in>set (drop m (take hi d)). \<not> P x" using assms by (auto simp: set_conv_nth)
  then have "find_from P (drop m (take hi d)) k = None" for k by (simp add: find_from_None)
  then show ?thesis using slice_split [OF assms(1-3)] by (simp add: find_from_append split: option.split)
next
  assume "\<exists>i. lo \<le> i \<and> i < m \<and> P (d ! i)"
  then obtain i where i: "lo \<le> i" "i < m" "P (d ! i)" by blast
  then have "drop lo (take m d) ! (i - lo) = d ! i" "i - lo < length (drop lo (take m d))" using assms by simp_all
  then have "d ! i \<in> set (drop lo (take m d))" by (metis nth_mem)
  then have "find_from P (drop lo (take m d)) lo \<noteq> None" using i(3) by (auto simp: find_from_None simp del: not_None_eq)
  then show ?thesis using slice_split [OF assms(1-3)] by (auto simp: find_from_append)
qed

lemma find_sorted_step:
  assumes "lo < hi" and "mid = lo + (hi - lo - 1) div 2"
  shows "find_sorted cmp d lo hi =
    (if cmp (d ! mid) > 0 then find_sorted cmp d (mid + 1) hi
     else if cmp (d ! mid) < 0 then find_sorted cmp d lo mid
     else if hi - lo = 1 then Some mid else find_sorted cmp d lo (mid + 1))"
  using assms(1) unfolding assms(2) by (subst find_sorted.simps) (simp add: Let_def)

lemma find_sorted_eq:
  assumes "falling cmp d" and "hi \<le> length d"
  shows "find_sorted cmp d lo hi = find_from (\<lambda>x. cmp x = 0) (drop lo (take hi d)) lo"
  using assms
proof (induction cmp d lo hi rule: find_sorted.induct)
  case (1 cmp d lo hi)
  show ?case
  proof (cases "lo < hi")
    case False
    then show ?thesis by (subst find_sorted.simps) simp
  next
    case True
    define mid where "mid = lo + (hi - lo - 1) div 2"
    have m: "lo \<le> mid" "mid < hi" "mid < length d" using True 1(5) by (auto simp: mid_def)
    note step = find_sorted_step [OF True mid_def, of cmp d]
    note fall = fallingD [OF 1(4)]
    consider (low) "cmp (d ! mid) > 0" | (high) "cmp (d ! mid) < 0" | (one) "cmp (d ! mid) = 0" "hi - lo = 1"
      | (more) "cmp (d ! mid) = 0" "hi - lo \<noteq> 1" by linarith
    then show ?thesis
    proof cases
      case low
      have "\<forall>i. lo \<le> i \<and> i < mid + 1 \<longrightarrow> cmp (d ! i) \<noteq> 0"
        using fall(1) [of _ mid] m low by (metis Suc_eq_plus1 less_Suc_eq_le linorder_not_le order.refl)
      then show ?thesis
        using 1(1) [OF True mid_def refl low 1(4,5)] True low m
          slice_skip_left [of lo "mid + 1" hi d "\<lambda>x. cmp x = 0"] 1(5) unfolding step by simp
    next
      case high
      have "\<forall>i. mid \<le> i \<and> i < hi \<longrightarrow> cmp (d ! i) \<noteq> 0"
        using fall(2) [of mid] high 1(5) by fastforce
      then show ?thesis
        using 1(2) [OF True mid_def refl _ high 1(4)] True high m
          slice_skip_right [of lo mid hi d "\<lambda>x. cmp x = 0"] 1(5) unfolding step by simp
    next
      case one
      then have "mid = lo" "drop lo (take hi d) = [d ! lo]"
        using m 1(5) by (auto simp: mid_def drop_take take_Suc_conv_app_nth)
      then show ?thesis using one unfolding step by simp
    next
      case more
      have "mid + 1 \<le> hi" using m by simp
      moreover have "find_sorted cmp d lo (mid + 1) = find_from (\<lambda>x. cmp x = 0) (drop lo (take (mid + 1) d)) lo"
        using 1(3) [OF True mid_def refl _ _ more(2) 1(4)] more m by simp
      moreover have "\<exists>i\<ge>lo. i < mid + 1 \<and> cmp (d ! i) = 0" using m more by (intro exI [of _ mid]) simp
      ultimately show ?thesis
        using True more m slice_skip_right [of lo "mid + 1" hi d "\<lambda>x. cmp x = 0"] 1(5) unfolding step by auto
    qed
  qed
qed

lemma find_sorted_take: "hi \<le> n \<Longrightarrow> find_sorted cmp (take n d) lo hi = find_sorted cmp d lo hi"
proof (induction cmp d lo hi rule: find_sorted.induct)
  case (1 cmp d lo hi)
  show ?case
  proof (cases "lo < hi")
    case False
    then show ?thesis by (subst (1 2) find_sorted.simps) simp
  next
    case True
    define mid where "mid = lo + (hi - lo - 1) div 2"
    have m: "mid < n" "mid + 1 \<le> n" using True 1(4) by (auto simp: mid_def)
    then show ?thesis
      using 1(1) [OF True mid_def refl] 1(2) [OF True mid_def refl] 1(3) [OF True mid_def refl] 1(4)
      unfolding find_sorted_step [OF True mid_def] by auto
  qed
qed

lemma sorted_falling:
  assumes "comparator cmp (insert p (set xs))" and "sorted_by cmp xs"
  shows "falling (cmp p) xs"
proof -
  note trans = comparator.trans [OF assms(1)] and less_trans = comparator.less_trans [OF assms(1)]
  have "(cmp p x \<le> 0 \<longrightarrow> cmp p y \<le> 0) \<and> (cmp p x < 0 \<longrightarrow> cmp p y < 0)"
    if "x \<in> set xs" "y \<in> set xs" "cmp x y \<le> 0" for x y
    using that trans [of p x y] less_trans [of p x y] by blast
  then show ?thesis
    unfolding falling_def by (rule sorted_wrt_mono_rel [OF _ assms(2)])
qed

text \<open>A stack whose \<open>sorted\<close> flag tells the truth about the function \<open>c\<close>.\<close>

definition sorted_ok :: "('c \<Rightarrow> 'a ptr \<Rightarrow> 'a ptr \<Rightarrow> int) \<Rightarrow> ('a, 'c) stack \<Rightarrow> bool" where
  "sorted_ok call s \<longleftrightarrow>
     (is_sorted s \<longrightarrow> (case comp_func s of None \<Rightarrow> True | Some c \<Rightarrow> sorted_by (call c) (elems s)))"

lemma sk_find_search:
  assumes ok: "stack_ok s" and c: "comp_func s = Some c" and p: "p \<noteq> None"
    and cmp: "comparator (call c) (insert p (set (elems s)))" and so: "sorted_ok call s"
  shows "sk_find call (Some s) p = find_from (\<lambda>elem. call c p elem = 0) (elems s) 0"
proof (cases "is_sorted s")
  case True
  have "sorted_by (call c) (elems s)" using so True c by (simp add: sorted_ok_def)
  from sorted_falling [OF cmp this] have "falling (call c p) (elems s)" .
  moreover have "num s \<le> length (elems s)" using ok by simp
  ultimately have "find_sorted (call c p) (data s) 0 (num s) = find_from (\<lambda>x. call c p x = 0) (elems s) 0"
    using find_sorted_eq [of "call c p" "elems s" "num s" 0] find_sorted_take [of "num s" "num s" "call c p" "data s" 0] ok
    by (simp add: elems_def)
  then show ?thesis using True c p by (simp add: sk_find_def sk_is_sorted_def del: not_None_eq)
next
  case False
  then show ?thesis using c p by (simp add: sk_find_def sk_is_sorted_def elems_def del: not_None_eq)
qed

lemma comparator_subset: "comparator cmp S \<Longrightarrow> T \<subseteq> S \<Longrightarrow> comparator cmp T"
  unfolding comparator_def by blast

lemma sk_sort_spec:
  assumes q: "sorting qsort" and ok: "stack_ok s" and c: "comp_func s = Some c" and so: "sorted_ok call s"
    and cmp: "comparator (call c) (set (elems s))"
  shows "\<exists>s'. sk_sort qsort call (Some s) = Some s' \<and> stack_ok s' \<and> num s' = num s \<and> comp_func s' = Some c
              \<and> is_sorted s' \<and> mset (elems s') = mset (elems s) \<and> sorted_by (call c) (elems s')"
proof -
  note sorts = sorting.sorts [OF q cmp] and perm = sorting.permutes [OF q]
    and len = sorting.qsort_length [OF q, of "call c" "elems s"]
  have l: "num s < length (data s)" "length (take (num s) (data s)) = num s" using ok by (auto simp: stack_ok_def)
  consider "is_sorted s" | "\<not> is_sorted s" "num s < 2" | "\<not> is_sorted s" "num s \<ge> 2" by linarith
  then show ?thesis
  proof cases
    case 1
    then show ?thesis using so c ok by (simp add: sk_sort_def sorted_ok_def)
  next
    case 2
    have "length (elems s) < 2" using 2 ok by simp
    then have "sorted_by (call c) (elems s)" by (cases "elems s") auto
    then show ?thesis using 2 c ok by (simp add: sk_sort_def stack_ok_def elems_def)
  next
    case 3
    let ?d = "qsort (call c) (elems s)"
    have "elems (s\<lparr>data := ?d @ drop (num s) (data s), is_sorted := True\<rparr>) = ?d"
      using len ok by simp (simp add: elems_def)
    then show ?thesis
      using 3 c ok sorts perm [of "call c" "elems s"] len l
      by (simp add: sk_sort_def stack_ok_def flip: elems_def)
  qed
qed

text \<open>Copies.\<close>

lemma sk_dup_spec:
  assumes ok: "stack_ok s" and d: "sk_dup al t junk (Some s) = Some s'"
  shows "stack_ok s' \<and> elems s' = elems s \<and> num s' = num s \<and> is_sorted s' = is_sorted s \<and> comp_func s' = comp_func s"
proof -
  have n: "8 * num_alloc s + 8 < 2 ^ 63" "num s < num_alloc s" "length (data s) = num_alloc s"
    using ok by (simp_all add: stack_ok_def)
  then have nw: "(8 * num_alloc s) mod 2 ^ 64 = 8 * num_alloc s" by simp
  obtain ret where ret: "sk_new al t junk (comp_func s) = Some ret"
    using d by (cases "sk_new al t junk (comp_func s)") (simp_all add: sk_dup_def)
  obtain d' where d': "realloc_ptrs al (t + 2) junk (data ret) ((8 * num_alloc s) mod 2 ^ 64) = Some d'"
    using d ret by (cases "realloc_ptrs al (t + 2) junk (data ret) ((8 * num_alloc s) mod 2 ^ 64)") (simp_all add: sk_dup_def)
  have s': "s' = \<lparr>num = num s, data = take (num s) (data s) @ drop (num s) d', is_sorted = is_sorted s,
                  num_alloc = num_alloc s, comp_func = comp_func s\<rparr>"
    using d ret d' by (simp add: sk_dup_def)
  have r: "realloc_ptrs al (t + 2) junk (data ret) (8 * num_alloc s) = Some d'" using d' nw by simp
  have "8 * num_alloc s + 8 < 2 ^ 64" using n(1) by simp
  from realloc_ptrs_Some [OF r this] n show ?thesis by (simp add: s' stack_ok_def elems_def)
qed

text \<open>What the copies of the entries \<open>xs\<close> are, when the first has index \<open>i\<close>.\<close>

fun copies :: "(nat \<Rightarrow> 'a \<Rightarrow> 'a ptr) \<Rightarrow> nat \<Rightarrow> 'a ptr list \<Rightarrow> 'a ptr list" where
  "copies copy i [] = []"
| "copies copy i (None # xs) = None # copies copy (i + 1) xs"
| "copies copy i (Some x # xs) = copy i x # copies copy (i + 1) xs"

lemma deep_copy_loop_spec:
  "case deep_copy_loop copy i copied xs of
     Inr new \<Rightarrow> new = copied @ copies copy i xs \<and> (\<forall>k<length xs. xs ! k \<noteq> None \<longrightarrow> copies copy i xs ! k \<noteq> None)
   | Inl freed \<Rightarrow> \<exists>j<length xs. (\<exists>x. xs ! j = Some x \<and> copy (i + j) x = None) \<and>
                   freed = map the (filter (\<lambda>p. p \<noteq> None) (copied @ copies copy i (take j xs)))"
proof (induction copy i copied xs rule: deep_copy_loop.induct)
  case (2 copy i copied xs)
  show ?case
  proof (cases "deep_copy_loop copy (i + 1) (copied @ [None]) xs")
    case (Inl freed)
    with 2 obtain j x where "j < length xs" "xs ! j = Some x" "copy (i + 1 + j) x = None"
      "freed = map the (filter (\<lambda>p. p \<noteq> None) ((copied @ [None]) @ copies copy (i + 1) (take j xs)))" by auto
    then show ?thesis using Inl by (auto intro!: exI [of _ "Suc j"])
  next
    case (Inr new)
    then show ?thesis using 2 by (auto simp: nth_Cons split: nat.split)
  qed
next
  case (3 copy i copied x xs)
  show ?case
  proof (cases "copy i x")
    case None
    then show ?thesis by (auto intro!: exI [of _ 0])
  next
    case (Some y)
    note ih = 3 [OF Some]
    show ?thesis
    proof (cases "deep_copy_loop copy (i + 1) (copied @ [Some y]) xs")
      case (Inl freed)
      with ih obtain j x' where "j < length xs" "xs ! j = Some x'" "copy (i + 1 + j) x' = None"
        "freed = map the (filter (\<lambda>p. p \<noteq> None) ((copied @ [Some y]) @ copies copy (i + 1) (take j xs)))" by auto
      then show ?thesis using Inl Some by (auto intro!: exI [of _ "Suc j"])
    next
      case (Inr new)
      then show ?thesis using ih Some by (auto simp: nth_Cons split: nat.split)
    qed
  qed
qed simp

lemma sk_deep_copy_eq:
  "sk_dup al t junk (Some s) = Some d \<Longrightarrow> sk_deep_copy al t junk copy (Some s) =
     (case deep_copy_loop copy 0 [] (elems d) of
        Inl freed \<Rightarrow> (None, freed)
      | Inr copied \<Rightarrow> (Some (d\<lparr>data := copied @ drop (num d) (data d)\<rparr>), []))"
  by (simp add: sk_deep_copy_def elems_def)

lemma length_copies [simp]: "length (copies copy i xs) = length xs"
  by (induction copy i xs rule: copies.induct) simp_all

section \<open>Properties\<close>

text \<open>
  Used as a queue and as a stack: pointers pushed one by one onto an empty stack come out of
  \<open>sk_shift\<close> in the order they went in, and out of \<open>sk_pop\<close> in the reverse order.
\<close>

theorem queue_and_stack_order:
  assumes "stack_ok s" and "elems s = []" and "put_back (push_ptr al junk) (t, s) xs = Some st"
  shows "fst (take_out (with_stack sk_shift) (length xs) st) = xs \<and>
         fst (take_out (with_stack sk_pop) (length xs) st) = rev xs"
  using ptrs.first_in_first_out [of "(t, s)" al junk xs st] ptrs.last_in_first_out [of "(t, s)" al junk xs st] assms
  by simp

text \<open>
  C36: \<open>sk_insert\<close> either reports failure and leaves the stack alone, or inserts the pointer at the index
  (at the end when the index is too large), returns the new length and keeps the stack well-formed,
  growing the array when needed; \<open>sk_delete\<close> removes the pointer at a valid index.
\<close>

theorem insert_and_delete:
  assumes "stack_ok s"
  shows "(case sk_insert al t junk (Some s) p i of
            (r, Some s') \<Rightarrow> if r = 0 then s' = s
                          else r = num s + 1 \<and> stack_ok s' \<and> elems s' = insert_at i p (elems s)
          | (r, None) \<Rightarrow> False) \<and>
         (i < num s \<longrightarrow>
          (\<exists>s'. sk_delete (Some s) i = (elems s ! i, Some s') \<and> stack_ok s' \<and> elems s' = delete_at i (elems s)))"
proof -
  obtain r sk where ins: "sk_insert al t junk (Some s) p i = (r, sk)" by (rule prod.exhaust)
  show ?thesis using sk_insert_spec [OF assms ins] sk_delete_spec [OF assms, of i] ins by (auto split: if_splits)
qed

theorem insert_and_delete_witness:
  "\<exists>s'. sk_delete (Some \<lparr>num = 2, data = [Some 7, Some 8, None, None], is_sorted = False, num_alloc = 4,
                        comp_func = None :: unit option\<rparr>) 0 = (Some (7 :: nat), Some s') \<and> elems s' = [Some 8]"
proof -
  let ?s = "\<lparr>num = 2, data = [Some (7 :: nat), Some 8, None, None], is_sorted = False, num_alloc = 4,
             comp_func = None :: unit option\<rparr>"
  have "stack_ok ?s" by (simp add: stack_ok_def)
  then have "\<exists>s'. sk_delete (Some ?s) 0 = (elems ?s ! 0, Some s') \<and> stack_ok s' \<and> elems s' = delete_at 0 (elems ?s)"
    using insert_and_delete [where s = ?s and al = "\<lambda>_ _. None" and t = 0 and junk = "\<lambda>_. None" and p = None and i = 0] by simp
  then show ?thesis by (auto simp: elems_def delete_at_def)
qed

text \<open>
  The binary search is a linear search: on sorted elements \<open>sk_find\<close> gives the same answer, the
  earliest matching index or none, whether the \<open>sorted\<close> flag makes it search by bisection or not.
\<close>

theorem bisection_is_linear_search:
  assumes "stack_ok s" and "comp_func s = Some c" and "p \<noteq> None"
    and "comparator (call c) (insert p (set (elems s)))" and "sorted_by (call c) (elems s)"
  shows "sk_find call (Some (s\<lparr>is_sorted := True\<rparr>)) p = sk_find call (Some (s\<lparr>is_sorted := False\<rparr>)) p"
proof -
  have e: "elems (s\<lparr>is_sorted := v\<rparr>) = elems s" for v by (simp add: elems_def)
  have "sk_find call (Some (s\<lparr>is_sorted := v\<rparr>)) p = find_from (\<lambda>elem. call c p elem = 0) (elems s) 0" for v
    using sk_find_search [of "s\<lparr>is_sorted := v\<rparr>" c p call] assms by (simp add: e stack_ok_def sorted_ok_def)
  then show ?thesis by simp
qed

text \<open>Pointers to numbers, compared as numbers.\<close>

definition number_cmp :: "unit \<Rightarrow> nat ptr \<Rightarrow> nat ptr \<Rightarrow> int" where
  "number_cmp _ x y = (case (x, y) of (Some a, Some b) \<Rightarrow> int a - int b | (None, None) \<Rightarrow> 0 | (None, _) \<Rightarrow> - 1 | (_, None) \<Rightarrow> 1)"

lemma number_comparator: "comparator (number_cmp c) S"
  by unfold_locales (auto simp: number_cmp_def sgn_if split: option.splits)

text \<open>
  \<open>sk_sort\<close> followed by \<open>sk_find\<close>: for any \<open>qsort\<close> that yields sorted permutations, the stack keeps
  its elements, becomes sorted, and every later search finds the earliest match when there is one.
\<close>

theorem sort_then_find:
  assumes "sorting qsort" and "stack_ok s" and "comp_func s = Some c" and "sorted_ok call s" and "p \<noteq> None"
    and "comparator (call c) (insert p (set (elems s)))"
  shows "\<exists>s'. sk_sort qsort call (Some s) = Some s' \<and> mset (elems s') = mset (elems s) \<and> sorted_by (call c) (elems s') \<and>
           (case sk_find call (Some s') p of
              None \<Rightarrow> \<forall>x\<in>set (elems s). call c p x \<noteq> 0
            | Some i \<Rightarrow> i < num s \<and> call c p (elems s' ! i) = 0 \<and> (\<forall>k<i. call c p (elems s' ! k) \<noteq> 0))"
proof -
  have "comparator (call c) (set (elems s))" using comparator_subset [OF assms(6)] by blast
  from sk_sort_spec [OF assms(1-4) this] obtain s' where s': "sk_sort qsort call (Some s) = Some s'" "stack_ok s'"
      "num s' = num s" "comp_func s' = Some c" "mset (elems s') = mset (elems s)" "sorted_by (call c) (elems s')" "is_sorted s'"
    by blast
  have se: "set (elems s') = set (elems s)" using s'(5) by (metis set_mset_mset)
  have "sk_find call (Some s') p = find_from (\<lambda>elem. call c p elem = 0) (elems s') 0"
    using sk_find_search [OF s'(2,4) assms(5)] assms(6) s'(4,6) se by (simp add: sorted_ok_def)
  then show ?thesis
    using s' se by (auto simp: find_from_None find_from_Some split: option.split)
qed

text \<open>
  \<open>sk_set\<close> does not clear the \<open>sorted\<close> flag: after it, the bisection misses a pointer that is in the
  stack and that the linear search finds.
\<close>

theorem set_breaks_sorted_search:
  "\<exists>s s'. is_sorted s \<and> sorted_by (number_cmp ()) (elems s) \<and> snd (sk_set (Some s) 0 (Some 5)) = Some s' \<and>
     elems s' = [Some 5, Some 3] \<and> sk_find number_cmp (Some s') (Some 3) = None \<and>
     sk_find number_cmp (Some (s'\<lparr>is_sorted := False\<rparr>)) (Some 3) = Some 1"
proof -
  let ?s = "\<lparr>num = 2, data = [Some (1 :: nat), Some 3, None, None], is_sorted = True, num_alloc = 4, comp_func = Some ()\<rparr>"
  let ?s' = "?s\<lparr>data := [Some (5 :: nat), Some 3, None, None]\<rparr>"
  have "sk_find number_cmp (Some ?s') (Some 3) = None" by code_simp
  moreover have "sk_find number_cmp (Some (?s'\<lparr>is_sorted := False\<rparr>)) (Some 3) = Some 1" by code_simp
  ultimately show ?thesis
    by (intro exI [of _ ?s] exI [of _ ?s']) (simp add: elems_def sk_set_def number_cmp_def)
qed

text \<open>
  \<open>sk_deep_copy\<close> leaks nothing: when copying an element fails it has handed exactly the copies made
  before, and nothing else, to the destructor; when it succeeds the new stack holds the copies in order,
  with NULL entries kept.
\<close>

theorem deep_copy_frees_copies:
  assumes "stack_ok s" and "sk_dup al t junk (Some s) \<noteq> None"
  shows "case sk_deep_copy al t junk copy (Some s) of
           (Some s', freed) \<Rightarrow> freed = [] \<and> stack_ok s' \<and> elems s' = copies copy 0 (elems s) \<and> is_sorted s' = is_sorted s
         | (None, freed) \<Rightarrow> \<exists>j<num s. (\<exists>x. elems s ! j = Some x \<and> copy j x = None) \<and>
                            freed = map the (filter (\<lambda>p. p \<noteq> None) (copies copy 0 (take j (elems s))))"
proof -
  obtain d where d: "sk_dup al t junk (Some s) = Some d" using assms(2) by blast
  note sp = sk_dup_spec [OF assms(1) d]
  have n: "num s < num_alloc d" "length (data d) = num_alloc d" using sp by (auto simp: stack_ok_def)
  show ?thesis
  proof (cases "deep_copy_loop copy 0 [] (elems s)")
    case (Inl freed)
    then have "\<exists>j<num s. (\<exists>x. elems s ! j = Some x \<and> copy j x = None) \<and>
        freed = map the (filter (\<lambda>p. p \<noteq> None) (copies copy 0 (take j (elems s))))"
      using deep_copy_loop_spec [where copy = copy and i = 0 and copied = "[]" and xs = "elems s"] assms(1) by simp
    then show ?thesis using Inl sp by (simp add: sk_deep_copy_eq [OF d] del: not_None_eq)
  next
    case (Inr new)
    then have "new = copies copy 0 (elems s)"
      using deep_copy_loop_spec [where copy = copy and i = 0 and copied = "[]" and xs = "elems s"] by simp
    moreover have "length (elems s) = num s" using assms(1) by simp
    ultimately show ?thesis
      using Inr sp n by (simp add: sk_deep_copy_eq [OF d] stack_ok_def) (simp add: elems_def)
  qed
qed

end
