(* ===== verification/Lhash.thy ===== *)
theory Lhash
  imports Mem "HOL-Library.Multiset"
begin

text \<open>
  \<^verbatim>\<open>crypto/lhash/lhash.c\<close>: the chained hash table. Stored pointers are the values of a type \<open>'a\<close>
  (NULL is never stored, so \<open>None\<close> is the result NULL). A bucket is the list of the items of its chain. The hash and comparison functions
  are known by their addresses, of types \<open>'h\<close> and \<open>'c\<close>, and called through the helpers that every
  operation is given, as in the C code. A pointer to a pointer into a chain is the bucket and the
  number of items before it. \<open>t\<close> numbers the first request an operation makes to the allocator.
\<close>

record 'a lhash_item =
  item_data :: 'a
  item_hash :: u32

record ('a, 'h, 'c) lhash =
  num_items :: nat
  buckets :: "'a lhash_item list list"
  num_buckets :: nat
  callback_depth :: nat
  comp_fn :: 'c
  hash_fn :: 'h

abbreviation (input) kMinNumBuckets :: nat where "kMinNumBuckets \<equiv> 16"
abbreviation (input) kMaxAverageChainLength :: nat where "kMaxAverageChainLength \<equiv> 2"
abbreviation (input) kMinAverageChainLength :: nat where "kMinAverageChainLength \<equiv> 1"
abbreviation (input) c_UINT_MAX :: nat where "c_UINT_MAX \<equiv> 2 ^ 32 - 1"

section \<open>Operations\<close>

definition lh_new :: "malloc_env \<Rightarrow> nat \<Rightarrow> 'h \<Rightarrow> 'c \<Rightarrow> ('a, 'h, 'c) lhash option" where
  "lh_new al t hash comp' =
     (case OPENSSL_malloc al t 48 of
        None \<Rightarrow> None
      | Some _ \<Rightarrow>
          (case OPENSSL_malloc al (Suc t) (8 * kMinNumBuckets) of
             None \<Rightarrow> None
           | Some _ \<Rightarrow>
               Some \<lparr>num_items = 0, buckets = replicate kMinNumBuckets [], num_buckets = kMinNumBuckets,
                     callback_depth = 0, comp_fn = comp', hash_fn = hash\<rparr>))"

definition lh_num_items :: "('a, 'h, 'c) lhash \<Rightarrow> nat" where
  "lh_num_items lh = num_items lh"

text \<open>The number of items before the first that satisfies \<open>P\<close>, or the length of the chain.\<close>

fun chain_pos :: "('a \<Rightarrow> bool) \<Rightarrow> 'a lhash_item list \<Rightarrow> nat" where
  "chain_pos P [] = 0"
| "chain_pos P (cur # rest) = (if P (item_data cur) then 0 else Suc (chain_pos P rest))"

definition get_next_ptr_and_hash ::
    "('h \<Rightarrow> 'a \<Rightarrow> u32) \<Rightarrow> ('c \<Rightarrow> 'a \<Rightarrow> 'a \<Rightarrow> int) \<Rightarrow> ('a, 'h, 'c) lhash \<Rightarrow> 'a \<Rightarrow> u32 \<times> nat \<times> nat" where
  "get_next_ptr_and_hash call_hash_func call_cmp_func lh data =
     (let hash = call_hash_func (hash_fn lh) data;
          b = unat hash mod num_buckets lh
      in (hash, b, chain_pos (\<lambda>x. call_cmp_func (comp_fn lh) x data = 0) (buckets lh ! b)))"

definition get_next_ptr_by_key :: "('k \<Rightarrow> 'a \<Rightarrow> int) \<Rightarrow> ('a, 'h, 'c) lhash \<Rightarrow> 'k \<Rightarrow> u32 \<Rightarrow> nat \<times> nat" where
  "get_next_ptr_by_key cmp_key lh key key_hash =
     (let b = unat key_hash mod num_buckets lh
      in (b, chain_pos (\<lambda>x. cmp_key key x = 0) (buckets lh ! b)))"

text \<open>Reading through such a pointer.\<close>

definition item_at :: "('a, 'h, 'c) lhash \<Rightarrow> nat \<times> nat \<Rightarrow> 'a lhash_item option" where
  "item_at lh next_ptr =
     (case next_ptr of (b, k) \<Rightarrow> if k < length (buckets lh ! b) then Some (buckets lh ! b ! k) else None)"

definition lh_retrieve ::
    "('h \<Rightarrow> 'a \<Rightarrow> u32) \<Rightarrow> ('c \<Rightarrow> 'a \<Rightarrow> 'a \<Rightarrow> int) \<Rightarrow> ('a, 'h, 'c) lhash \<Rightarrow> 'a \<Rightarrow> 'a option" where
  "lh_retrieve call_hash_func call_cmp_func lh data =
     (case get_next_ptr_and_hash call_hash_func call_cmp_func lh data of
        (_, next_ptr) \<Rightarrow> map_option item_data (item_at lh next_ptr))"

definition lh_retrieve_key :: "('k \<Rightarrow> 'a \<Rightarrow> int) \<Rightarrow> ('a, 'h, 'c) lhash \<Rightarrow> 'k \<Rightarrow> u32 \<Rightarrow> 'a option" where
  "lh_retrieve_key cmp_key lh key key_hash =
     map_option item_data (item_at lh (get_next_ptr_by_key cmp_key lh key key_hash))"

text \<open>The two loops of \<open>lh_rebucket\<close>: every item goes to the front of its new chain.\<close>

definition move_item :: "nat \<Rightarrow> 'a lhash_item \<Rightarrow> 'a lhash_item list list \<Rightarrow> 'a lhash_item list list" where
  "move_item new_num_buckets cur new_buckets =
     (let new_bucket = unat (item_hash cur) mod new_num_buckets
      in new_buckets[new_bucket := cur # new_buckets ! new_bucket])"

definition lh_rebucket :: "malloc_env \<Rightarrow> nat \<Rightarrow> ('a, 'h, 'c) lhash \<Rightarrow> nat \<Rightarrow> ('a, 'h, 'c) lhash" where
  "lh_rebucket al t lh new_num_buckets =
     (let alloc_size = (8 * new_num_buckets) mod 2 ^ 64 in
      if alloc_size div 8 \<noteq> new_num_buckets then lh
      else case OPENSSL_malloc al t alloc_size of
             None \<Rightarrow> lh
           | Some _ \<Rightarrow>
               lh\<lparr>num_buckets := new_num_buckets,
                  buckets := fold (fold (move_item new_num_buckets)) (buckets lh) (replicate new_num_buckets [])\<rparr>)"

definition lh_maybe_resize :: "malloc_env \<Rightarrow> nat \<Rightarrow> ('a, 'h, 'c) lhash \<Rightarrow> ('a, 'h, 'c) lhash" where
  "lh_maybe_resize al t lh =
     (if callback_depth lh > 0 then lh
      else
        (let avg_chain_length = num_items lh div num_buckets lh in
         if avg_chain_length > kMaxAverageChainLength then
           (let new_num_buckets = (num_buckets lh * 2) mod 2 ^ 64
            in if new_num_buckets > num_buckets lh then lh_rebucket al t lh new_num_buckets else lh)
         else if avg_chain_length < kMinAverageChainLength \<and> num_buckets lh > kMinNumBuckets then
           (let new_num_buckets = num_buckets lh div 2;
                new_num_buckets = (if new_num_buckets < kMinNumBuckets then kMinNumBuckets else new_num_buckets)
            in lh_rebucket al t lh new_num_buckets)
         else lh))"

text \<open>\<open>lh_insert\<close>: the return value, \<open>*old_data\<close> and the table.\<close>

definition lh_insert ::
    "malloc_env \<Rightarrow> nat \<Rightarrow> ('h \<Rightarrow> 'a \<Rightarrow> u32) \<Rightarrow> ('c \<Rightarrow> 'a \<Rightarrow> 'a \<Rightarrow> int) \<Rightarrow> ('a, 'h, 'c) lhash \<Rightarrow> 'a \<Rightarrow>
     bool \<times> 'a option \<times> ('a, 'h, 'c) lhash" where
  "lh_insert al t call_hash_func call_cmp_func lh data =
     (case get_next_ptr_and_hash call_hash_func call_cmp_func lh data of
        (hash, b, k) \<Rightarrow>
          (case item_at lh (b, k) of
             Some item \<Rightarrow>
               (True, Some (item_data item),
                lh\<lparr>buckets := (buckets lh)[b := (buckets lh ! b)[k := item\<lparr>item_data := data\<rparr>]]\<rparr>)
           | None \<Rightarrow>
               (case OPENSSL_malloc al t 24 of
                  None \<Rightarrow> (False, None, lh)
                | Some _ \<Rightarrow>
                    (let item = \<lparr>item_data = data, item_hash = hash\<rparr>;
                         lh = lh\<lparr>buckets := (buckets lh)[b := buckets lh ! b @ [item]],
                                 num_items := (num_items lh + 1) mod 2 ^ 64\<rparr>
                     in (True, None, lh_maybe_resize al (Suc t) lh)))))"

definition lh_delete ::
    "malloc_env \<Rightarrow> nat \<Rightarrow> ('h \<Rightarrow> 'a \<Rightarrow> u32) \<Rightarrow> ('c \<Rightarrow> 'a \<Rightarrow> 'a \<Rightarrow> int) \<Rightarrow> ('a, 'h, 'c) lhash \<Rightarrow> 'a \<Rightarrow>
     'a option \<times> ('a, 'h, 'c) lhash" where
  "lh_delete al t call_hash_func call_cmp_func lh data =
     (case get_next_ptr_and_hash call_hash_func call_cmp_func lh data of
        (_, b, k) \<Rightarrow>
          (case item_at lh (b, k) of
             None \<Rightarrow> (None, lh)
           | Some item \<Rightarrow>
               (let chain = buckets lh ! b;
                    lh = lh\<lparr>buckets := (buckets lh)[b := take k chain @ drop (Suc k) chain],
                            num_items := (num_items lh + (2 ^ 64 - 1)) mod 2 ^ 64\<rparr>
                in (Some (item_data item), lh_maybe_resize al t lh))))"

text \<open>
  \<open>lh_doall_arg\<close> with a callback that does not change the table itself: \<open>func\<close> acts on the state \<open>s\<close> that
  \<open>arg\<close> points at.
\<close>

definition lh_doall_arg ::
    "malloc_env \<Rightarrow> nat \<Rightarrow> ('a \<Rightarrow> 's \<Rightarrow> 's) \<Rightarrow> ('a, 'h, 'c) lhash option \<Rightarrow> 's \<Rightarrow> 's \<times> ('a, 'h, 'c) lhash option" where
  "lh_doall_arg al t func lh s =
     (case lh of
        None \<Rightarrow> (s, None)
      | Some lh \<Rightarrow>
          (let lh = (if callback_depth lh < c_UINT_MAX then lh\<lparr>callback_depth := callback_depth lh + 1\<rparr> else lh);
               s = fold (fold (\<lambda>cur. func (item_data cur))) (buckets lh) s;
               lh = (if callback_depth lh < c_UINT_MAX then lh\<lparr>callback_depth := callback_depth lh - 1\<rparr> else lh)
           in (s, Some (lh_maybe_resize al t lh))))"

text \<open>\<open>None\<close> outside: the string does not end within its object.\<close>

definition lh_strhash :: "bytes option \<Rightarrow> u32 option" where
  "lh_strhash c =
     (case c of
        None \<Rightarrow> Some 0
      | Some s \<Rightarrow> map_option (\<lambda>n. OPENSSL_hash32 (take n s)) (c_strlen s))"

section \<open>The contents of a table\<close>

definition items :: "('a, 'h, 'c) lhash \<Rightarrow> 'a lhash_item list" where
  "items lh = concat (buckets lh)"

lemma lh_new_buckets:
  "lh_new al t h c = Some lh \<Longrightarrow>
   lh = \<lparr>num_items = 0, buckets = replicate 16 [], num_buckets = 16, callback_depth = 0, comp_fn = c, hash_fn = h\<rparr>"
  by (auto simp: lh_new_def split: option.splits)

lemma chain_pos_split:
  assumes "chain_pos P xs < length xs"
  shows "\<exists>ys x zs. xs = ys @ x # zs \<and> chain_pos P xs = length ys \<and> P (item_data x) \<and> (\<forall>y\<in>set ys. \<not> P (item_data y))"
  using assms
proof (induction xs)
  case (Cons a xs)
  show ?case
  proof (cases "P (item_data a)")
    case True
    then show ?thesis by (intro exI [of _ "[]"] exI [of _ a] exI [of _ xs]) simp
  next
    case False
    with Cons obtain ys x zs where "xs = ys @ x # zs" "chain_pos P xs = length ys" "P (item_data x)"
        "\<forall>y\<in>set ys. \<not> P (item_data y)" by auto
    with False show ?thesis by (intro exI [of _ "a # ys"] exI [of _ x] exI [of _ zs]) simp
  qed
qed simp

lemma chain_pos_le: "chain_pos P xs \<le> length xs"
  by (induction xs) simp_all

lemma chain_pos_none: "chain_pos P xs = length xs \<longleftrightarrow> (\<forall>x\<in>set xs. \<not> P (item_data x))"
  by (induction xs) simp_all

lemma mset_concat_update:
  "b < length bs \<Longrightarrow> mset (concat (bs[b := c])) + mset (bs ! b) = mset (concat bs) + mset c"
proof -
  assume b: "b < length bs"
  have "mset (concat bs) = mset (concat (take b bs)) + mset (bs ! b) + mset (concat (drop (Suc b) bs))"
    using arg_cong [OF id_take_nth_drop [OF b], of "\<lambda>xs. mset (concat xs)"] by simp
  moreover have "mset (concat (bs[b := c])) = mset (concat (take b bs)) + mset c + mset (concat (drop (Suc b) bs))"
    using b by (simp add: upd_conv_take_nth_drop)
  ultimately show ?thesis by simp
qed

text \<open>Every item in the bucket that its hash selects.\<close>

definition placed :: "nat \<Rightarrow> 'a lhash_item list list \<Rightarrow> bool" where
  "placed n bs \<longleftrightarrow> length bs = n \<and> (\<forall>b<n. \<forall>it\<in>set (bs ! b). unat (item_hash it) mod n = b)"

lemma placed_update:
  "placed n bs \<Longrightarrow> \<forall>it\<in>set c. unat (item_hash it) mod n = b \<Longrightarrow> placed n (bs[b := c])"
  by (cases "b < length bs") (auto simp: placed_def nth_list_update split: if_splits)

lemma move_item_placed:
  assumes "placed n bs" and "0 < n"
  shows "placed n (move_item n cur bs) \<and> mset (concat (move_item n cur bs)) = add_mset cur (mset (concat bs))"
proof -
  define b where "b = unat (item_hash cur) mod n"
  have b: "b < length bs" using assms by (simp add: b_def placed_def)
  have "placed n (bs[b := cur # bs ! b])"
    using assms b by (intro placed_update) (auto simp: placed_def b_def)
  moreover have "mset (concat (bs[b := cur # bs ! b])) = add_mset cur (mset (concat bs))"
    using mset_concat_update [OF b, of "cur # bs ! b"] by simp
  ultimately show ?thesis by (simp add: move_item_def b_def [symmetric] Let_def)
qed

lemma fold_move_placed:
  "placed n bs \<Longrightarrow> 0 < n \<Longrightarrow>
   placed n (fold (move_item n) xs bs) \<and> mset (concat (fold (move_item n) xs bs)) = mset xs + mset (concat bs)"
proof (induction xs arbitrary: bs)
  case (Cons x xs)
  then show ?case using move_item_placed [OF Cons.prems, of x] by simp
qed simp

lemma fold_fold_move_placed:
  "placed n bs \<Longrightarrow> 0 < n \<Longrightarrow>
   placed n (fold (fold (move_item n)) xss bs)
   \<and> mset (concat (fold (fold (move_item n)) xss bs)) = mset (concat xss) + mset (concat bs)"
proof (induction xss arbitrary: bs)
  case (Cons xs xss)
  then show ?case using fold_move_placed [OF Cons.prems, of xs] by simp
qed simp

lemma concat_mem: "xs \<in> set xss \<Longrightarrow> x \<in> set xs \<Longrightarrow> x \<in> set (concat xss)"
  by auto

text \<open>
  A well-formed table for the hash function \<open>hash\<close> and the comparison \<open>cmp\<close>: no two items are equal, the
  cached hashes are right, the count is right.
\<close>

definition unique :: "('a \<Rightarrow> 'a \<Rightarrow> int) \<Rightarrow> 'a lhash_item multiset \<Rightarrow> bool" where
  "unique cmp M \<longleftrightarrow> (\<forall>z. size (filter_mset (\<lambda>it. cmp (item_data it) z = 0) M) \<le> 1)"

definition lh_ok :: "('a \<Rightarrow> u32) \<Rightarrow> ('a \<Rightarrow> 'a \<Rightarrow> int) \<Rightarrow> ('a, 'h, 'c) lhash \<Rightarrow> bool" where
  "lh_ok hash cmp lh \<longleftrightarrow>
     placed (num_buckets lh) (buckets lh) \<and> 16 \<le> num_buckets lh \<and> num_items lh = length (items lh) \<and>
     (\<forall>it\<in>set (items lh). item_hash it = hash (item_data it)) \<and> unique cmp (mset (items lh))"

lemma lh_rebucket_spec:
  assumes "lh_ok hash cmp lh" and "16 \<le> n"
  shows "lh_ok hash cmp (lh_rebucket al t lh n) \<and> mset (items (lh_rebucket al t lh n)) = mset (items lh)
         \<and> hash_fn (lh_rebucket al t lh n) = hash_fn lh \<and> comp_fn (lh_rebucket al t lh n) = comp_fn lh"
proof -
  let ?bs = "fold (fold (move_item n)) (buckets lh) (replicate n [])"
  have e: "placed n (replicate n [])" by (simp add: placed_def)
  from fold_fold_move_placed [OF e, of "buckets lh"] assms(2)
  have p: "placed n ?bs" "mset (concat ?bs) = mset (items lh)" by (simp_all add: items_def)
  from p(2) have "set (concat ?bs) = set (items lh)" "length (concat ?bs) = length (items lh)"
    by (metis set_mset_mset, metis size_mset)
  then have "lh_ok hash cmp (lh\<lparr>num_buckets := n, buckets := ?bs\<rparr>)"
    using assms p by (simp add: lh_ok_def items_def)
  then show ?thesis
    using assms(1) p by (auto simp: lh_rebucket_def Let_def items_def split: option.split)
qed

lemma lh_maybe_resize_spec:
  assumes "lh_ok hash cmp lh"
  shows "lh_ok hash cmp (lh_maybe_resize al t lh) \<and> mset (items (lh_maybe_resize al t lh)) = mset (items lh)
         \<and> hash_fn (lh_maybe_resize al t lh) = hash_fn lh \<and> comp_fn (lh_maybe_resize al t lh) = comp_fn lh"
proof -
  have n: "16 \<le> num_buckets lh" using assms by (simp add: lh_ok_def)
  note r = lh_rebucket_spec [OF assms, of _ al t]
  have "16 \<le> (num_buckets lh * 2) mod 2 ^ 64" if "(num_buckets lh * 2) mod 2 ^ 64 > num_buckets lh"
    using that n by linarith
  then show ?thesis using assms n r unfolding lh_maybe_resize_def Let_def by auto
qed

text \<open>What the C library's user has to provide: equality as an equivalence, and a hash that respects it.\<close>

locale hashing =
  fixes hash :: "'a \<Rightarrow> u32" and cmp :: "'a \<Rightarrow> 'a \<Rightarrow> int"
  assumes equal_refl: "cmp x x = 0"
    and equal_sym: "cmp x y = 0 \<Longrightarrow> cmp y x = 0"
    and equal_trans: "cmp x y = 0 \<Longrightarrow> cmp y z = 0 \<Longrightarrow> cmp x z = 0"
    and equal_hash: "cmp x y = 0 \<Longrightarrow> hash x = hash y"
begin

lemma uniqueD:
  assumes "unique cmp (mset xs)" and "x \<in> set xs" "y \<in> set xs"
    and "cmp (item_data x) z = 0" "cmp (item_data y) z = 0"
  shows "x = y"
proof (rule ccontr)
  assume ne: "x \<noteq> y"
  let ?F = "filter_mset (\<lambda>it. cmp (item_data it) z = 0) (mset xs)"
  have "x \<in># ?F" "y \<in># ?F" using assms by auto
  then obtain F where F: "?F = add_mset x F" and "y \<in># F"
    using ne by (metis insert_noteq_member multi_member_split)
  then have "size ?F > 1" by (metis F One_nat_def Suc_less_eq nonempty_has_size empty_iff set_mset_empty size_add_mset)
  then show False using assms(1) by (simp add: unique_def not_le [symmetric])
qed

lemma chain_find:
  assumes ok: "lh_ok hash cmp lh" and h: "hash' = hash x" and b: "b = unat hash' mod num_buckets lh"
    and k: "k = chain_pos (\<lambda>y. cmp y x = 0) (buckets lh ! b)"
  shows "b < length (buckets lh)"
    and "\<And>it. item_at lh (b, k) = Some it \<Longrightarrow> \<exists>ys zs. buckets lh ! b = ys @ it # zs \<and> k = length ys \<and> cmp (item_data it) x = 0"
    and "item_at lh (b, k) = None \<Longrightarrow> \<forall>it\<in>set (items lh). cmp (item_data it) x \<noteq> 0"
proof -
  show b': "b < length (buckets lh)" using ok b by (simp add: lh_ok_def placed_def)
  show "\<exists>ys zs. buckets lh ! b = ys @ it # zs \<and> k = length ys \<and> cmp (item_data it) x = 0"
    if i: "item_at lh (b, k) = Some it" for it
  proof -
    have "k < length (buckets lh ! b)" using i by (auto simp: item_at_def split: if_splits)
    from chain_pos_split [OF this [unfolded k]] obtain ys y zs where
      y: "buckets lh ! b = ys @ y # zs" "k = length ys" "cmp (item_data y) x = 0"
      using k by auto
    then have "it = y" using i by (simp add: item_at_def)
    then show ?thesis using y by blast
  qed
  show "\<forall>it\<in>set (items lh). cmp (item_data it) x \<noteq> 0" if i: "item_at lh (b, k) = None"
  proof
    fix it assume it: "it \<in> set (items lh)"
    have "k = length (buckets lh ! b)"
      using i chain_pos_le [of "\<lambda>y. cmp y x = 0" "buckets lh ! b"] k by (simp add: item_at_def split: if_splits)
    then have none: "\<forall>y\<in>set (buckets lh ! b). cmp (item_data y) x \<noteq> 0"
      using k chain_pos_none [of "\<lambda>y. cmp y x = 0" "buckets lh ! b"] by simp
    show "cmp (item_data it) x \<noteq> 0"
    proof
      assume e: "cmp (item_data it) x = 0"
      obtain b1 where b1: "b1 < length (buckets lh)" "it \<in> set (buckets lh ! b1)"
        using it by (auto simp: items_def) (metis in_set_conv_nth)
      have "item_hash it = hash x" using ok it equal_hash [OF e] by (simp add: lh_ok_def)
      moreover have "unat (item_hash it) mod num_buckets lh = b1" using ok b1 by (auto simp: lh_ok_def placed_def)
      ultimately have "b1 = b" using b h by simp
      then show False using none b1 e by blast
    qed
  qed
qed

text \<open>What \<open>lh_retrieve\<close> answers: the stored item equal to \<open>x\<close>.\<close>

definition holds :: "('a, 'h, 'c) lhash \<Rightarrow> 'a \<Rightarrow> 'a option \<Rightarrow> bool" where
  "holds lh x r \<longleftrightarrow>
     (case r of
        None \<Rightarrow> \<forall>it\<in>#mset (items lh). cmp (item_data it) x \<noteq> 0
      | Some y \<Rightarrow> \<exists>it\<in>#mset (items lh). item_data it = y \<and> cmp y x = 0)"

lemma holds_unique:
  assumes "unique cmp (mset (items lh))" and "holds lh x r" and "holds lh x r'"
  shows "r = r'"
  using assms uniqueD [OF assms(1), of _ _ x] by (cases r; cases r') (auto simp: holds_def)

lemma retrieve_holds:
  assumes ok: "lh_ok hash cmp lh" and fns: "ch (hash_fn lh) = hash" "cc (comp_fn lh) = cmp"
  shows "holds lh x (lh_retrieve ch cc lh x)"
proof -
  define b where "b = unat (hash x) mod num_buckets lh"
  define k where "k = chain_pos (\<lambda>y. cmp y x = 0) (buckets lh ! b)"
  have g: "get_next_ptr_and_hash ch cc lh x = (hash x, b, k)"
    by (simp add: get_next_ptr_and_hash_def fns b_def k_def Let_def)
  note f = chain_find [OF ok refl b_def k_def]
  show ?thesis
  proof (cases "item_at lh (b, k)")
    case None
    then show ?thesis using f(3) by (simp add: lh_retrieve_def g holds_def)
  next
    case (Some it)
    from f(2) [OF Some] have "it \<in> set (buckets lh ! b)" "cmp (item_data it) x = 0" by auto
    then have "it \<in> set (items lh)" using nth_mem [OF f(1)] by (auto simp: items_def)
    then show ?thesis using Some \<open>cmp (item_data it) x = 0\<close> by (auto simp: lh_retrieve_def g holds_def)
  qed
qed

lemma retrieve_iff:
  assumes "lh_ok hash cmp lh" and "ch (hash_fn lh) = hash" "cc (comp_fn lh) = cmp"
  shows "lh_retrieve ch cc lh x = r \<longleftrightarrow> holds lh x r"
  using retrieve_holds [where ch = ch and cc = cc and lh = lh and x = x] assms
    holds_unique [of lh x r "lh_retrieve ch cc lh x"] by (auto simp: lh_ok_def)

lemma filter_le_add: "size (filter_mset P (add_mset x M)) = (if P x then Suc (size (filter_mset P M)) else size (filter_mset P M))"
  by simp

lemma unique_replace:
  assumes "unique cmp (add_mset old M)" and "cmp (item_data old) x = 0" and "item_data new = x"
  shows "unique cmp (add_mset new M)"
  unfolding unique_def
proof
  fix z
  have "cmp (item_data new) z = 0 \<longleftrightarrow> cmp (item_data old) z = 0"
    using assms(2,3) equal_trans equal_sym by metis
  then show "size (filter_mset (\<lambda>it. cmp (item_data it) z = 0) (add_mset new M)) \<le> 1"
    using assms(1) unfolding unique_def filter_le_add by auto
qed

lemma unique_add:
  assumes "unique cmp M" and "\<forall>it\<in>#M. cmp (item_data it) (item_data new) \<noteq> 0"
  shows "unique cmp (add_mset new M)"
  unfolding unique_def
proof
  fix z
  have "filter_mset (\<lambda>it. cmp (item_data it) z = 0) M = {#}" if "cmp (item_data new) z = 0"
  proof -
    have "cmp (item_data it) z \<noteq> 0" if "it \<in># M" for it
      using assms(2) that \<open>cmp (item_data new) z = 0\<close> equal_trans equal_sym by metis
    then show ?thesis by (auto simp: filter_mset_eq_conv)
  qed
  then show "size (filter_mset (\<lambda>it. cmp (item_data it) z = 0) (add_mset new M)) \<le> 1"
    using assms(1) unfolding unique_def filter_le_add by auto
qed

lemma unique_remove: "unique cmp (add_mset old M) \<Longrightarrow> unique cmp M"
  unfolding unique_def
proof
  fix z
  assume a: "\<forall>z. size (filter_mset (\<lambda>it. cmp (item_data it) z = 0) (add_mset old M)) \<le> 1"
  show "size (filter_mset (\<lambda>it. cmp (item_data it) z = 0) M) \<le> 1"
  proof (rule order_trans)
    show "size (filter_mset (\<lambda>it. cmp (item_data it) z = 0) M)
        \<le> size (filter_mset (\<lambda>it. cmp (item_data it) z = 0) (add_mset old M))"
      unfolding filter_le_add by simp
  qed (rule spec [OF a])
qed

text \<open>The table after a bucket has been changed.\<close>

lemma lh_ok_update:
  assumes ok: "lh_ok hash cmp lh" and b: "b < length (buckets lh)"
    and c: "\<forall>it\<in>set c. item_hash it = hash (item_data it) \<and> unat (item_hash it) mod num_buckets lh = b"
    and M: "mset (items (lh\<lparr>buckets := (buckets lh)[b := c]\<rparr>)) = M" and u: "unique cmp M" and n: "n = size M"
  shows "lh_ok hash cmp (lh\<lparr>buckets := (buckets lh)[b := c], num_items := n\<rparr>)"
proof -
  let ?bs = "(buckets lh)[b := c]"
  have "placed (num_buckets lh) ?bs" using ok c by (intro placed_update) (auto simp: lh_ok_def)
  moreover have "\<forall>it\<in>set (concat ?bs). item_hash it = hash (item_data it)"
  proof
    fix it assume "it \<in> set (concat ?bs)"
    then obtain ch where "ch \<in> set ?bs" "it \<in> set ch" by auto
    then have "it \<in> set c \<or> it \<in> set (items lh)"
      using set_update_subset_insert [of "buckets lh" b c] by (auto simp: items_def)
    then show "item_hash it = hash (item_data it)" using ok c by (auto simp: lh_ok_def)
  qed
  moreover have "mset (concat ?bs) = M" using M by (simp add: items_def)
  moreover from this have "length (concat ?bs) = n" using n by (metis size_mset)
  ultimately show ?thesis using ok u by (simp add: lh_ok_def items_def)
qed

lemma lh_insert_spec:
  assumes ok: "lh_ok hash cmp lh" and fns: "ch (hash_fn lh) = hash" "cc (comp_fn lh) = cmp"
    and small: "num_items lh + 1 < 2 ^ 64" and ins: "lh_insert al t ch cc lh x = (r, old, lh')"
  shows "if r then lh_ok hash cmp lh' \<and> hash_fn lh' = hash_fn lh \<and> comp_fn lh' = comp_fn lh \<and>
                   old = lh_retrieve ch cc lh x \<and> (\<forall>y. cmp x y = 0 \<longrightarrow> holds lh' y (Some x)) \<and>
                   (\<forall>y r. cmp x y \<noteq> 0 \<longrightarrow> holds lh y r \<longrightarrow> holds lh' y r) \<and>
                   num_items lh' = num_items lh + (if old = None then 1 else 0)
         else lh' = lh \<and> old = None \<and> lh_retrieve ch cc lh x = None"
proof -
  define b where "b = unat (hash x) mod num_buckets lh"
  define k where "k = chain_pos (\<lambda>y. cmp y x = 0) (buckets lh ! b)"
  have g: "get_next_ptr_and_hash ch cc lh x = (hash x, b, k)"
    by (simp add: get_next_ptr_and_hash_def fns b_def k_def Let_def)
  note f = chain_find [OF ok refl b_def k_def]
  have u: "unique cmp (mset (items lh))" using ok by (simp add: lh_ok_def)
  have chain: "\<forall>it\<in>set (buckets lh ! b). item_hash it = hash (item_data it) \<and> unat (item_hash it) mod num_buckets lh = b"
    using ok nth_mem [OF f(1)] f(1) by (auto simp: lh_ok_def placed_def items_def)
  have ni: "num_items lh = size (mset (items lh))" using ok by (simp add: lh_ok_def)
  show ?thesis
  proof (cases "item_at lh (b, k)")
    case (Some it)
    from f(2) [OF Some] obtain ys zs where c: "buckets lh ! b = ys @ it # zs" "k = length ys" "cmp (item_data it) x = 0"
      by blast
    define new where "new = it\<lparr>item_data := x\<rparr>"
    define c' where "c' = ys @ new # zs"
    have r: "r" "old = Some (item_data it)" "lh' = lh\<lparr>buckets := (buckets lh)[b := c']\<rparr>"
      using ins Some c by (auto simp: lh_insert_def g new_def c'_def)
    obtain M where M: "mset (items lh) = add_mset it M"
      using c(1) nth_mem [OF f(1)] by (metis in_set_conv_decomp in_multiset_in_set items_def concat_mem mset_add)
    have M': "mset (items lh') = add_mset new M"
      using mset_concat_update [OF f(1), of c'] c(1) M by (simp add: r(3) items_def c'_def)
    have hn: "hash (item_data it) = hash x" using equal_hash [OF c(3)] .
    have "lh_ok hash cmp (lh\<lparr>buckets := (buckets lh)[b := c'], num_items := size (add_mset new M)\<rparr>)"
    proof (rule lh_ok_update [OF ok f(1)])
      show "\<forall>it\<in>set c'. item_hash it = hash (item_data it) \<and> unat (item_hash it) mod num_buckets lh = b"
      proof
        fix j assume "j \<in> set c'"
        then have "j \<in> set (buckets lh ! b) \<or> j = new" by (auto simp: c'_def c(1))
        then show "item_hash j = hash (item_data j) \<and> unat (item_hash j) mod num_buckets lh = b"
          using chain bspec [OF chain, of it] hn by (auto simp: new_def c(1))
      qed
      show "mset (items (lh\<lparr>buckets := (buckets lh)[b := c']\<rparr>)) = add_mset new M" using M' r(3) by simp
      show "unique cmp (add_mset new M)" using unique_replace [OF u [unfolded M] c(3)] by (simp add: new_def)
    qed simp
    moreover have "size (add_mset new M) = num_items lh" using ni M by simp
    ultimately have ok': "lh_ok hash cmp lh'" by (simp add: r(3))
    have "lh_retrieve ch cc lh x = Some (item_data it)" by (simp add: lh_retrieve_def g Some)
    moreover have "\<forall>y. cmp x y = 0 \<longrightarrow> holds lh' y (Some x)" using M' by (auto simp: holds_def new_def)
    moreover have "holds lh' y s" if "cmp x y \<noteq> 0" "holds lh y s" for y s
    proof -
      have "cmp (item_data it) y \<noteq> 0" using that(1) c(3) equal_trans equal_sym by metis
      then show ?thesis using that M M' by (auto simp: holds_def new_def split: option.splits)
    qed
    ultimately show ?thesis using ok' r by (simp add: r(3))
  next
    case None
    note none = f(3) [OF None]
    have ret: "lh_retrieve ch cc lh x = None" by (simp add: lh_retrieve_def g None)
    show ?thesis
    proof (cases "OPENSSL_malloc al t 24")
      case N: None
      then show ?thesis using ins None ret by (auto simp: lh_insert_def g)
    next
      case (Some blk)
      define new where "new = \<lparr>item_data = x, item_hash = hash x\<rparr>"
      define c' where "c' = buckets lh ! b @ [new]"
      define lh1 where "lh1 = lh\<lparr>buckets := (buckets lh)[b := c'], num_items := num_items lh + 1\<rparr>"
      have nw: "(num_items lh + 1) mod 2 ^ 64 = num_items lh + 1" using small by simp
      have r: "r" "old = None" "lh' = lh_maybe_resize al (Suc t) lh1"
        using ins None Some by (auto simp: lh_insert_def g Let_def nw [simplified] lh1_def c'_def new_def)
      have M': "mset (items (lh\<lparr>buckets := (buckets lh)[b := c']\<rparr>)) = add_mset new (mset (items lh))"
        using mset_concat_update [OF f(1), of c'] by (simp add: items_def c'_def)
      have "lh_ok hash cmp lh1"
        unfolding lh1_def
      proof (rule lh_ok_update [OF ok f(1) _ M'])
        show "\<forall>it\<in>set c'. item_hash it = hash (item_data it) \<and> unat (item_hash it) mod num_buckets lh = b"
          using chain by (auto simp: c'_def new_def b_def)
        show "unique cmp (add_mset new (mset (items lh)))"
          using none by (intro unique_add [OF u]) (simp add: new_def)
        show "num_items lh + 1 = size (add_mset new (mset (items lh)))" using ni by simp
      qed
      from lh_maybe_resize_spec [OF this, of al "Suc t"]
      have ok': "lh_ok hash cmp lh'" "mset (items lh') = add_mset new (mset (items lh))"
          "hash_fn lh' = hash_fn lh" "comp_fn lh' = comp_fn lh"
        using M' r(3) by (simp_all add: lh1_def items_def)
      have "num_items lh' = size (mset (items lh'))" using ok'(1) by (simp add: lh_ok_def)
      then have "num_items lh' = num_items lh + 1" using ok'(2) ni by simp
      moreover have "\<forall>y. cmp x y = 0 \<longrightarrow> holds lh' y (Some x)" using ok'(2) by (auto simp: holds_def new_def)
      moreover have "\<forall>y s. cmp x y \<noteq> 0 \<longrightarrow> holds lh y s \<longrightarrow> holds lh' y s"
        using ok'(2) by (auto simp: holds_def new_def split: option.splits)
      ultimately show ?thesis using ok' r ret by simp
    qed
  qed
qed

lemma lh_delete_spec:
  assumes ok: "lh_ok hash cmp lh" and fns: "ch (hash_fn lh) = hash" "cc (comp_fn lh) = cmp"
    and small: "num_items lh < 2 ^ 64" and del: "lh_delete al t ch cc lh x = (r, lh')"
  shows "lh_ok hash cmp lh' \<and> hash_fn lh' = hash_fn lh \<and> comp_fn lh' = comp_fn lh \<and>
         r = lh_retrieve ch cc lh x \<and> (\<forall>y. cmp x y = 0 \<longrightarrow> holds lh' y None) \<and>
         (\<forall>y r. cmp x y \<noteq> 0 \<longrightarrow> holds lh y r \<longrightarrow> holds lh' y r) \<and>
         num_items lh = num_items lh' + (if r = None then 0 else 1)"
proof -
  define b where "b = unat (hash x) mod num_buckets lh"
  define k where "k = chain_pos (\<lambda>y. cmp y x = 0) (buckets lh ! b)"
  have g: "get_next_ptr_and_hash ch cc lh x = (hash x, b, k)"
    by (simp add: get_next_ptr_and_hash_def fns b_def k_def Let_def)
  note f = chain_find [OF ok refl b_def k_def]
  have u: "unique cmp (mset (items lh))" using ok by (simp add: lh_ok_def)
  have chain: "\<forall>it\<in>set (buckets lh ! b). item_hash it = hash (item_data it) \<and> unat (item_hash it) mod num_buckets lh = b"
    using ok nth_mem [OF f(1)] f(1) by (auto simp: lh_ok_def placed_def items_def)
  have ni: "num_items lh = size (mset (items lh))" using ok by (simp add: lh_ok_def)
  show ?thesis
  proof (cases "item_at lh (b, k)")
    case None
    note none = f(3) [OF None]
    have "r = None" "lh' = lh" using del None by (auto simp: lh_delete_def g)
    moreover have "holds lh y None" if e: "cmp x y = 0" for y
    proof -
      have "cmp (item_data it) y \<noteq> 0" if "it \<in> set (items lh)" for it
        using none that e equal_trans [of "item_data it" y x] equal_sym [of x y] by blast
      then show ?thesis by (simp add: holds_def)
    qed
    ultimately show ?thesis using ok by (auto simp: lh_retrieve_def g None)
  next
    case (Some it)
    from f(2) [OF Some] obtain ys zs where c: "buckets lh ! b = ys @ it # zs" "k = length ys" "cmp (item_data it) x = 0"
      by blast
    obtain M where M: "mset (items lh) = add_mset it M"
      using c(1) nth_mem [OF f(1)] by (metis in_set_conv_decomp in_multiset_in_set items_def concat_mem mset_add)
    define lh1 where "lh1 = lh\<lparr>buckets := (buckets lh)[b := ys @ zs], num_items := size M\<rparr>"
    have "num_items lh = Suc (size M)" using ni M by simp
    then have nw: "(num_items lh + (2 ^ 64 - 1)) mod 2 ^ 64 = size M" using small by simp
    have r: "r = Some (item_data it)" "lh' = lh_maybe_resize al t lh1"
      using del Some c by (auto simp: lh_delete_def g Let_def nw [simplified] lh1_def)
    have M': "mset (items (lh\<lparr>buckets := (buckets lh)[b := ys @ zs]\<rparr>)) = M"
      using mset_concat_update [OF f(1), of "ys @ zs"] c(1) M by (simp add: items_def)
    have "lh_ok hash cmp lh1"
      unfolding lh1_def
    proof (rule lh_ok_update [OF ok f(1) _ M'])
      show "\<forall>it\<in>set (ys @ zs). item_hash it = hash (item_data it) \<and> unat (item_hash it) mod num_buckets lh = b"
      proof
        fix j assume "j \<in> set (ys @ zs)"
        then have "j \<in> set (buckets lh ! b)" by (auto simp: c(1))
        then show "item_hash j = hash (item_data j) \<and> unat (item_hash j) mod num_buckets lh = b" using chain by blast
      qed
      show "unique cmp M" using unique_remove [OF u [unfolded M]] .
    qed simp
    from lh_maybe_resize_spec [OF this, of al t]
    have ok': "lh_ok hash cmp lh'" "mset (items lh') = M" "hash_fn lh' = hash_fn lh" "comp_fn lh' = comp_fn lh"
      using M' r(2) by (simp_all add: lh1_def items_def)
    have "num_items lh' = size M" using ok'(1,2) by (simp add: lh_ok_def) (metis size_mset)
    then have "num_items lh = num_items lh' + 1" using ni M by simp
    moreover have "lh_retrieve ch cc lh x = Some (item_data it)" by (simp add: lh_retrieve_def g Some)
    moreover have "holds lh' y None" if e: "cmp x y = 0" for y
    proof -
      have ey: "cmp (item_data it) y = 0" using c(3) e equal_trans by blast
      have "cmp (item_data z) y \<noteq> 0" if "z \<in># M" for z
      proof
        assume ez: "cmp (item_data z) y = 0"
        have "size (filter_mset (\<lambda>it. cmp (item_data it) y = 0) (add_mset it M)) \<le> 1"
          using u M unfolding unique_def by metis
        then have "size (filter_mset (\<lambda>it. cmp (item_data it) y = 0) M) = 0" unfolding filter_le_add using ey by simp
        then show False using that ez by auto
      qed
      then show ?thesis using ok'(2) by (simp add: holds_def)
    qed
    moreover have "holds lh' y s" if "cmp x y \<noteq> 0" "holds lh y s" for y s
    proof -
      have "cmp (item_data it) y \<noteq> 0" using that(1) c(3) equal_trans equal_sym by metis
      then show ?thesis using that M ok'(2) by (auto simp: holds_def split: option.splits)
    qed
    ultimately show ?thesis using ok' r by simp
  qed
qed

end

section \<open>The table as a map\<close>

text \<open>
  The contract a user of a table relies on, for an abstract state: keys are equal up to \<open>same\<close>, insertion
  and deletion answer what was there and change nothing else. Both may be refused by the allocator only.
\<close>

fun insert_all :: "('s \<Rightarrow> 'a \<Rightarrow> ('a option \<times> 's) option) \<Rightarrow> 's \<Rightarrow> 'a list \<Rightarrow> 's option" where
  "insert_all ins s [] = Some s"
| "insert_all ins s (x # xs) = (case ins s x of None \<Rightarrow> None | Some (_, s) \<Rightarrow> insert_all ins s xs)"

lemma find_snoc: "find P (xs @ [x]) = (case find P xs of None \<Rightarrow> if P x then Some x else None | Some y \<Rightarrow> Some y)"
  by (induction xs) auto

locale table =
  fixes retrieve :: "'s \<Rightarrow> 'a \<Rightarrow> 'a option" and insert :: "'s \<Rightarrow> 'a \<Rightarrow> ('a option \<times> 's) option"
    and delete :: "'s \<Rightarrow> 'a \<Rightarrow> 'a option \<times> 's" and same :: "'a \<Rightarrow> 'a \<Rightarrow> bool" and invar :: "'s \<Rightarrow> bool"
    and room :: "'s \<Rightarrow> nat"
  assumes insert_law: "invar s \<Longrightarrow> 0 < room s \<Longrightarrow> insert s x = Some (old, s') \<Longrightarrow>
      invar s' \<and> room s \<le> room s' + 1 \<and> old = retrieve s x \<and>
      (\<forall>y. retrieve s' y = (if same x y then Some x else retrieve s y))"
    and delete_law: "invar s \<Longrightarrow> delete s x = (r, s') \<Longrightarrow>
      invar s' \<and> room s \<le> room s' \<and> r = retrieve s x \<and>
      (\<forall>y. retrieve s' y = (if same x y then None else retrieve s y))"
begin

lemma insert_all_retrieve:
  "invar s \<Longrightarrow> length xs \<le> room s \<Longrightarrow> insert_all insert s xs = Some s' \<Longrightarrow>
   invar s' \<and> (\<forall>y. retrieve s' y = (case find (\<lambda>x. same x y) (rev xs) of None \<Rightarrow> retrieve s y | Some x \<Rightarrow> Some x))"
proof (induction xs arbitrary: s)
  case (Cons x xs)
  obtain old s1 where i: "insert s x = Some (old, s1)" "insert_all insert s1 xs = Some s'"
    using Cons.prems(3) by (auto split: option.splits)
  have "0 < room s" using Cons.prems(2) by simp
  note l = insert_law [OF Cons.prems(1) this i(1)]
  have "length xs \<le> room s1" using l Cons.prems(2) by simp
  with Cons.IH [of s1] l i(2) have "invar s'" and
    r: "\<forall>y. retrieve s' y = (case find (\<lambda>x. same x y) (rev xs) of None \<Rightarrow> retrieve s1 y | Some x \<Rightarrow> Some x)"
    by blast+
  then show ?case using l by (simp add: find_snoc split: option.split)
qed simp

lemma insert_then_delete:
  assumes "invar s" "0 < room s" "insert s x = Some (old, s1)" "delete s1 x = (r, s2)"
  shows "r = (if same x x then Some x else old) \<and> (\<forall>y. \<not> same x y \<longrightarrow> retrieve s2 y = retrieve s y)"
  using insert_law [OF assms(1-3)] delete_law [OF _ assms(4)] by auto

end

text \<open>The hash table, with the number of the next request to the allocator.\<close>

definition tab_insert ::
    "malloc_env \<Rightarrow> ('h \<Rightarrow> 'a \<Rightarrow> u32) \<Rightarrow> ('c \<Rightarrow> 'a \<Rightarrow> 'a \<Rightarrow> int) \<Rightarrow> nat \<times> ('a, 'h, 'c) lhash \<Rightarrow> 'a \<Rightarrow>
     ('a option \<times> nat \<times> ('a, 'h, 'c) lhash) option" where
  "tab_insert al ch cc st x =
     (case lh_insert al (fst st) ch cc (snd st) x of
        (True, old, lh) \<Rightarrow> Some (old, fst st + 2, lh) | (False, _) \<Rightarrow> None)"

definition tab_delete ::
    "malloc_env \<Rightarrow> ('h \<Rightarrow> 'a \<Rightarrow> u32) \<Rightarrow> ('c \<Rightarrow> 'a \<Rightarrow> 'a \<Rightarrow> int) \<Rightarrow> nat \<times> ('a, 'h, 'c) lhash \<Rightarrow> 'a \<Rightarrow>
     'a option \<times> nat \<times> ('a, 'h, 'c) lhash" where
  "tab_delete al ch cc st x =
     (case lh_delete al (fst st) ch cc (snd st) x of (r, lh) \<Rightarrow> (r, fst st + 1, lh))"

definition tab_ok ::
    "('h \<Rightarrow> 'a \<Rightarrow> u32) \<Rightarrow> ('c \<Rightarrow> 'a \<Rightarrow> 'a \<Rightarrow> int) \<Rightarrow> 'h \<Rightarrow> 'c \<Rightarrow> nat \<times> ('a, 'h, 'c) lhash \<Rightarrow> bool" where
  "tab_ok ch cc hf cf st \<longleftrightarrow>
     lh_ok (ch hf) (cc cf) (snd st) \<and> hash_fn (snd st) = hf \<and> comp_fn (snd st) = cf \<and> num_items (snd st) < 2 ^ 64"

text \<open>\<open>hashing\<close> gives \<open>table\<close>, for every way of storing and calling the two functions.\<close>

locale hashed = hashing "ch hf" "cc cf"
  for ch :: "'h \<Rightarrow> 'a \<Rightarrow> u32" and cc :: "'c \<Rightarrow> 'a \<Rightarrow> 'a \<Rightarrow> int" and hf cf

sublocale hashed < tab: table "\<lambda>st. lh_retrieve ch cc (snd st)" "tab_insert al ch cc" "tab_delete al ch cc"
    "\<lambda>x y. cc cf x y = 0" "tab_ok ch cc hf cf" "\<lambda>st. 2 ^ 64 - 1 - num_items (snd st)"
proof
  show "tab_ok ch cc hf cf s' \<and> 2 ^ 64 - 1 - num_items (snd s) \<le> 2 ^ 64 - 1 - num_items (snd s') + 1 \<and>
        old = lh_retrieve ch cc (snd s) x \<and>
        (\<forall>y. lh_retrieve ch cc (snd s') y = (if cc cf x y = 0 then Some x else lh_retrieve ch cc (snd s) y))"
    if s: "tab_ok ch cc hf cf s" and room: "0 < 2 ^ 64 - 1 - num_items (snd s)"
      and ins: "tab_insert al ch cc s x = Some (old, s')" for s x old s'
  proof -
    have ok: "lh_ok (ch hf) (cc cf) (snd s)" and fns: "ch (hash_fn (snd s)) = ch hf" "cc (comp_fn (snd s)) = cc cf"
      using s by (simp_all add: tab_ok_def)
    have small: "num_items (snd s) + 1 < 2 ^ 64" using room by linarith
    have i: "lh_insert al (fst s) ch cc (snd s) x = (True, old, snd s')"
      using ins by (auto simp: tab_insert_def split: prod.splits bool.splits)
    note l = lh_insert_spec [OF ok fns small i, simplified]
    have fns': "ch (hash_fn (snd s')) = ch hf" "cc (comp_fn (snd s')) = cc cf" and ok': "lh_ok (ch hf) (cc cf) (snd s')"
      using l fns by simp_all
    have "lh_retrieve ch cc (snd s') y = (if cc cf x y = 0 then Some x else lh_retrieve ch cc (snd s) y)" for y
      using l retrieve_holds [where ch = ch and cc = cc and lh = "snd s" and x = y, OF ok fns]
      by (subst retrieve_iff [where ch = ch and cc = cc, OF ok' fns']) auto
    moreover have "num_items (snd s') \<le> num_items (snd s) + 1" using l by auto
    ultimately show ?thesis using l s small by (auto simp: tab_ok_def)
  qed
  show "tab_ok ch cc hf cf s' \<and> 2 ^ 64 - 1 - num_items (snd s) \<le> 2 ^ 64 - 1 - num_items (snd s') \<and>
        r = lh_retrieve ch cc (snd s) x \<and>
        (\<forall>y. lh_retrieve ch cc (snd s') y = (if cc cf x y = 0 then None else lh_retrieve ch cc (snd s) y))"
    if s: "tab_ok ch cc hf cf s" and del: "tab_delete al ch cc s x = (r, s')" for s x r s'
  proof -
    have ok: "lh_ok (ch hf) (cc cf) (snd s)" and fns: "ch (hash_fn (snd s)) = ch hf" "cc (comp_fn (snd s)) = cc cf"
      and small: "num_items (snd s) < 2 ^ 64"
      using s by (simp_all add: tab_ok_def)
    have d: "lh_delete al (fst s) ch cc (snd s) x = (r, snd s')"
      using del by (auto simp: tab_delete_def split: prod.splits)
    note l = lh_delete_spec [OF ok fns small d]
    have fns': "ch (hash_fn (snd s')) = ch hf" "cc (comp_fn (snd s')) = cc cf" and ok': "lh_ok (ch hf) (cc cf) (snd s')"
      using l fns by simp_all
    have "lh_retrieve ch cc (snd s') y = (if cc cf x y = 0 then None else lh_retrieve ch cc (snd s) y)" for y
      using l retrieve_holds [where ch = ch and cc = cc and lh = "snd s" and x = y, OF ok fns]
      by (subst retrieve_iff [where ch = ch and cc = cc, OF ok' fns']) auto
    moreover have "num_items (snd s') \<le> num_items (snd s)" using l by auto
    ultimately show ?thesis using l s small by (auto simp: tab_ok_def)
  qed
qed

section \<open>Tables of C strings\<close>

text \<open>
  The user that \<open>lh_strhash\<close> is made for: strings compared by \<open>strcmp\<close>. A key \<open>k\<close> is stored in memory as
  \<open>k\<close> and a NUL; \<open>c_string\<close> is the part before the first NUL.
\<close>

definition c_string :: "bytes \<Rightarrow> bytes" where
  "c_string s = takeWhile (\<lambda>c. c \<noteq> 0) s"

fun c_strcmp :: "bytes \<Rightarrow> bytes \<Rightarrow> int" where
  "c_strcmp (a # as) (b # bs) =
     (if a \<noteq> b then (if a < b then - 1 else 1) else if a = 0 then 0 else c_strcmp as bs)"
| "c_strcmp _ _ = 0"

definition key_cmp :: "bytes \<Rightarrow> bytes \<Rightarrow> int" where
  "key_cmp a b = c_strcmp (a @ [0]) (b @ [0])"

definition key_hash :: "bytes \<Rightarrow> u32" where
  "key_hash k = the (lh_strhash (Some (k @ [0])))"

lemma c_strlen_key: "c_strlen (k @ [0]) = Some (length (c_string k))"
  by (induction k) (auto simp: c_string_def)

lemma take_c_string: "take (length (c_string k)) (k @ [0]) = c_string k"
  by (induction k) (auto simp: c_string_def)

lemma key_hash_eq: "key_hash k = OPENSSL_hash32 (c_string k)"
  by (simp add: key_hash_def lh_strhash_def c_strlen_key take_c_string del: take_append)

lemma key_cmp_eq: "key_cmp a b = 0 \<longleftrightarrow> c_string a = c_string b"
proof (induction a arbitrary: b)
  case Nil
  then show ?case by (cases b) (auto simp: key_cmp_def c_string_def)
next
  case (Cons x a)
  then show ?case by (cases b) (auto simp: key_cmp_def c_string_def)
qed

interpretation strings: hashed "\<lambda>_ :: unit. key_hash" "\<lambda>_ :: unit. key_cmp" "()" "()"
  by unfold_locales (simp_all add: key_cmp_eq key_hash_eq)

section \<open>A new table, and iterating\<close>

lemma replicate_item: "it \<in> set (replicate n [] ! b) \<Longrightarrow> b < n \<Longrightarrow> False"
  by simp

lemma lh_new_ok:
  assumes "lh_new al t hf cf = Some lh"
  shows "lh_ok hash cmp lh \<and> items lh = [] \<and> hash_fn lh = hf \<and> comp_fn lh = cf \<and> num_items lh = 0"
  using lh_new_buckets [OF assms] by (auto simp: lh_ok_def placed_def items_def unique_def)

lemma lh_new_succeeds:
  fixes hf :: 'h and cf :: 'c
  shows "al_total al \<Longrightarrow> \<exists>lh :: ('a, 'h, 'c) lhash. lh_new al t hf cf = Some lh"
  using OPENSSL_malloc_succeeds [of al 48 t] OPENSSL_malloc_succeeds [of al 128 "Suc t"]
  by (auto simp: lh_new_def)

lemma lh_insert_succeeds: "al_total al \<Longrightarrow> fst (lh_insert al t ch cc lh x)"
  using OPENSSL_malloc_succeeds [of al 24 t] by (auto simp: lh_insert_def Let_def split: prod.split option.split)

lemma insert_all_succeeds: "al_total al \<Longrightarrow> insert_all (tab_insert al ch cc) st xs \<noteq> None"
proof (induction xs arbitrary: st)
  case (Cons x xs)
  then have "fst (lh_insert al (fst st) ch cc (snd st) x)" by (simp add: lh_insert_succeeds)
  then show ?case using Cons by (auto simp: tab_insert_def split: prod.split bool.split)
qed simp

lemma fold_fold: "fold (fold f) xss s = fold f (concat xss) s"
  by (induction xss arbitrary: s) simp_all

lemma lh_doall_arg_spec:
  assumes "lh_ok hash cmp lh" and "callback_depth lh < 2 ^ 32"
  shows "\<exists>lh'. lh_doall_arg al t func (Some lh) s = (fold func (map item_data (items lh)) s, Some lh') \<and>
     lh_ok hash cmp lh' \<and> mset (items lh') = mset (items lh)"
proof -
  define lh1 where "lh1 = (if callback_depth lh < c_UINT_MAX then lh\<lparr>callback_depth := callback_depth lh + 1\<rparr> else lh)"
  define lh2 where "lh2 = (if callback_depth lh1 < c_UINT_MAX then lh1\<lparr>callback_depth := callback_depth lh1 - 1\<rparr> else lh1)"
  have ok: "lh_ok hash cmp lh2" "items lh2 = items lh" "buckets lh1 = buckets lh"
    using assms(1) by (simp_all add: lh2_def lh1_def lh_ok_def items_def)
  have "lh_doall_arg al t func (Some lh) s
      = (fold (fold (\<lambda>cur. func (item_data cur))) (buckets lh1) s, Some (lh_maybe_resize al t lh2))"
    unfolding lh_doall_arg_def Let_def option.case lh1_def [symmetric] lh2_def [symmetric] by (rule refl)
  then have "lh_doall_arg al t func (Some lh) s
      = (fold (\<lambda>cur. func (item_data cur)) (items lh) s, Some (lh_maybe_resize al t lh2))"
    unfolding ok(3) fold_fold items_def .
  then show ?thesis
    using lh_maybe_resize_spec [OF ok(1), of al t] ok(2) by (simp add: fold_map comp_def)
qed

section \<open>Properties\<close>

text \<open>
  For any equality and any hash function that respects it, a successful \<open>lh_insert\<close> is a map update:
  it reports the element that was stored under an equal key, afterwards equal keys retrieve the new
  element, every other key retrieves what it did before, and the table stays well-formed, whether or not
  the insertion resized it. A refused insertion changes nothing.
\<close>

theorem insert_updates_map:
  assumes "hashing (ch hf) (cc cf)" and "lh_ok (ch hf) (cc cf) lh" and "hash_fn lh = hf" and "comp_fn lh = cf"
    and "num_items lh + 1 < 2 ^ 64" and "lh_insert al t ch cc lh x = (r, old, lh')"
  shows "if r then lh_ok (ch hf) (cc cf) lh' \<and> old = lh_retrieve ch cc lh x \<and>
                   (\<forall>y. lh_retrieve ch cc lh' y = (if cc cf x y = 0 then Some x else lh_retrieve ch cc lh y))
         else lh' = lh"
proof -
  note h = assms(1)
  have fns: "ch (hash_fn lh) = ch hf" "cc (comp_fn lh) = cc cf" using assms by simp_all
  note l = hashing.lh_insert_spec [OF h assms(2) fns assms(5,6)]
  show ?thesis
  proof (cases r)
    case True
    with l have ok': "lh_ok (ch hf) (cc cf) lh'" and fns': "ch (hash_fn lh') = ch hf" "cc (comp_fn lh') = cc cf"
      using fns by simp_all
    have "lh_retrieve ch cc lh' y = (if cc cf x y = 0 then Some x else lh_retrieve ch cc lh y)" for y
      using l True hashing.retrieve_holds [where ch = ch and cc = cc, OF h assms(2) fns, of y]
      by (subst hashing.retrieve_iff [where ch = ch and cc = cc, OF h ok' fns']) auto
    then show ?thesis using l True by simp
  qed (use l in simp)
qed

text \<open>C37: \<open>lh_delete\<close> likewise: it returns what was stored under an equal key and removes that only.\<close>

theorem delete_updates_map:
  assumes "hashing (ch hf) (cc cf)" and "lh_ok (ch hf) (cc cf) lh" and "hash_fn lh = hf" and "comp_fn lh = cf"
    and "num_items lh < 2 ^ 64" and "lh_delete al t ch cc lh x = (r, lh')"
  shows "lh_ok (ch hf) (cc cf) lh' \<and> r = lh_retrieve ch cc lh x \<and>
         (\<forall>y. lh_retrieve ch cc lh' y = (if cc cf x y = 0 then None else lh_retrieve ch cc lh y))"
proof -
  note h = assms(1)
  have fns: "ch (hash_fn lh) = ch hf" "cc (comp_fn lh) = cc cf" using assms by simp_all
  note l = hashing.lh_delete_spec [OF h assms(2) fns assms(5,6)]
  then have ok': "lh_ok (ch hf) (cc cf) lh'" and fns': "ch (hash_fn lh') = ch hf" "cc (comp_fn lh') = cc cf"
    using fns by simp_all
  have "lh_retrieve ch cc lh' y = (if cc cf x y = 0 then None else lh_retrieve ch cc lh y)" for y
    using l hashing.retrieve_holds [where ch = ch and cc = cc, OF h assms(2) fns, of y]
    by (subst hashing.retrieve_iff [where ch = ch and cc = cc, OF h ok' fns']) auto
  then show ?thesis using l by simp
qed

theorem delete_updates_map_witness:
  "\<exists>lh. lh_new (\<lambda>_ _. Some (\<lambda>_. 0)) 0 () () = Some lh \<and>
     fst (lh_delete (\<lambda>_ _. None) 2 (\<lambda>_. key_hash) (\<lambda>_. key_cmp) lh [97])
     = lh_retrieve (\<lambda>_. key_hash) (\<lambda>_. key_cmp) lh [97]"
proof -
  have al: "al_total (\<lambda>_ _. Some (\<lambda>_. 0 :: u8))" by (simp add: al_total_def)
  obtain lh :: "(bytes, unit, unit) lhash" where n: "lh_new (\<lambda>_ _. Some (\<lambda>_. 0)) 0 () () = Some lh"
    using exE [OF lh_new_succeeds [OF al]] .
  note ok = lh_new_ok [OF n, of key_hash key_cmp]
  obtain r lh' where d: "lh_delete (\<lambda>_ _. None) 2 (\<lambda>_. key_hash) (\<lambda>_. key_cmp) lh [97] = (r, lh')" by (rule prod.exhaust)
  have "lh_ok key_hash key_cmp lh' \<and> r = lh_retrieve (\<lambda>_. key_hash) (\<lambda>_. key_cmp) lh [97] \<and>
      (\<forall>y. lh_retrieve (\<lambda>_. key_hash) (\<lambda>_. key_cmp) lh' y
           = (if key_cmp [97] y = 0 then None else lh_retrieve (\<lambda>_. key_hash) (\<lambda>_. key_cmp) lh y))"
    using ok by (intro delete_updates_map [OF strings.hashing_axioms _ _ _ _ d]) simp_all
  then show ?thesis using n d by auto
qed

text \<open>
  C38: A table of C strings, hashed by \<open>lh_strhash\<close> and compared by \<open>strcmp\<close>: after any sequence of
  insertions into a new table, with all the resizing they cause, a lookup finds the string inserted last
  among those equal to the key, and nothing when there is none.
\<close>

theorem string_table_lookup:
  assumes "lh_new al t () () = Some lh" and "length xs < 2 ^ 64"
    and "insert_all (tab_insert al (\<lambda>_. key_hash) (\<lambda>_. key_cmp)) (t + 2, lh) xs = Some st"
  shows "lh_retrieve (\<lambda>_. key_hash) (\<lambda>_. key_cmp) (snd st) y = find (\<lambda>x. key_cmp x y = 0) (rev xs)"
proof -
  note ok = lh_new_ok [OF assms(1), of key_hash key_cmp]
  have t: "tab_ok (\<lambda>_. key_hash) (\<lambda>_. key_cmp) () () (t + 2, lh)" using ok by (simp add: tab_ok_def)
  have e: "lh_retrieve (\<lambda>_. key_hash) (\<lambda>_. key_cmp) lh y = None"
    using strings.retrieve_holds [where ch = "\<lambda>_. key_hash" and cc = "\<lambda>_. key_cmp" and lh = lh and x = y] ok
    by (auto simp: strings.holds_def split: option.splits)
  show ?thesis
    using strings.tab.insert_all_retrieve [OF t _ assms(3)] ok assms(2) e by (simp split: option.split)
qed

theorem string_table_lookup_witness:
  "\<exists>lh st. lh_new (\<lambda>_ _. Some (\<lambda>_. 0)) 0 () () = Some lh \<and>
     insert_all (tab_insert (\<lambda>_ _. Some (\<lambda>_. 0)) (\<lambda>_. key_hash) (\<lambda>_. key_cmp)) (0 + 2, lh) [[97], [98], [97, 0, 99]] = Some st \<and>
     lh_retrieve (\<lambda>_. key_hash) (\<lambda>_. key_cmp) (snd st) [97] = Some [97, 0, 99]"
proof -
  let ?al = "\<lambda>_ _. Some (\<lambda>_. 0 :: u8)"
  have al: "al_total ?al" by (simp add: al_total_def)
  obtain lh :: "(bytes, unit, unit) lhash" where n: "lh_new ?al 0 () () = Some lh"
    using exE [OF lh_new_succeeds [OF al]] .
  obtain st where i: "insert_all (tab_insert ?al (\<lambda>_. key_hash) (\<lambda>_. key_cmp)) (0 + 2, lh) [[97], [98], [97, 0, 99]] = Some st"
    using insert_all_succeeds [OF al, of "\<lambda>_. key_hash" "\<lambda>_. key_cmp" "(0 + 2, lh)" "[[97], [98], [97, 0, 99]]"] by blast
  have "find (\<lambda>x. key_cmp x [97] = 0) (rev [[97], [98], [97, 0, 99]]) = Some [97, 0, 99]"
    by (simp add: key_cmp_eq c_string_def)
  moreover have "length [[97], [98], [97, 0, 99 :: u8]] < 2 ^ 64" by simp
  ultimately show ?thesis using string_table_lookup [OF n _ i, of "[97]"] n i by (metis add_0)
qed

text \<open>
  \<open>lh_doall_arg\<close> calls the function once on every stored element and leaves the contents as they
  are, also when it resizes the table afterwards.
\<close>

lemma doall_visits_every_item:
  assumes "lh_ok hash cmp lh" and "callback_depth lh < 2 ^ 32"
  shows "\<exists>visited lh'. lh_doall_arg al t (\<lambda>x xs. xs @ [x]) (Some lh) [] = (visited, Some lh') \<and>
           mset visited = image_mset item_data (mset (items lh)) \<and> mset (items lh') = mset (items lh)"
proof -
  have "fold (\<lambda>x xs. xs @ [x]) ys zs = zs @ ys" for ys zs :: "'a list" by (induction ys arbitrary: zs) simp_all
  then show ?thesis using lh_doall_arg_spec [OF assms, of al t "\<lambda>x xs. xs @ [x]" "[]"] by auto
qed

end
