(* ===== verification/BufMem.thy ===== *)
theory BufMem
  imports Mem
begin

text \<open>
  \<^verbatim>\<open>crypto/buf/buf.c\<close>: the growable byte buffer. The member \<open>length\<close> is \<open>buf_length\<close>, \<open>data\<close> is
  \<open>buf_data\<close> (\<open>None\<close> for NULL, otherwise the block the allocator returned) and \<open>max\<close> is \<open>buf_max\<close>. \<open>t\<close> numbers
  the request that an operation makes to the allocator; \<^verbatim>\<open>size_t\<close> wraps at \<open>2 ^ 64\<close>.
\<close>

record buf_mem =
  buf_length :: nat
  buf_data :: "heap_block option"
  buf_max :: nat

section \<open>Operations\<close>

definition BUF_MEM_new :: "malloc_env \<Rightarrow> nat \<Rightarrow> buf_mem option" where
  "BUF_MEM_new al t =
     (case OPENSSL_malloc al t 24 of
        None \<Rightarrow> None
      | Some _ \<Rightarrow> Some \<lparr>buf_length = 0, buf_data = None, buf_max = 0\<rparr>)"

definition BUF_MEM_reserve :: "malloc_env \<Rightarrow> nat \<Rightarrow> buf_mem \<Rightarrow> nat \<Rightarrow> bool \<times> buf_mem" where
  "BUF_MEM_reserve al t b cap =
     (if buf_max b \<ge> cap then (True, b)
      else
        (let n = (cap + 3) mod 2 ^ 64 in
         if n < cap then (False, b)
         else
           (let n = n div 3;
                alloc_size = (n * 4) mod 2 ^ 64
            in if alloc_size div 4 \<noteq> n then (False, b)
               else case OPENSSL_realloc al t (buf_data b) alloc_size of
                      None \<Rightarrow> (False, b)
                    | Some new_buf \<Rightarrow> (True, b\<lparr>buf_data := Some new_buf, buf_max := alloc_size\<rparr>))))"

text \<open>Storing bytes into the block behind \<open>data\<close>.\<close>

definition buf_store :: "nat \<Rightarrow> bytes \<Rightarrow> buf_mem \<Rightarrow> buf_mem" where
  "buf_store off bs b =
     b\<lparr>buf_data := map_option (\<lambda>h. h\<lparr>hb_bytes := write_at (hb_bytes h) off bs\<rparr>) (buf_data b)\<rparr>"

definition BUF_MEM_grow :: "malloc_env \<Rightarrow> nat \<Rightarrow> buf_mem \<Rightarrow> nat \<Rightarrow> nat \<times> buf_mem" where
  "BUF_MEM_grow al t b len =
     (case BUF_MEM_reserve al t b len of
        (False, b) \<Rightarrow> (0, b)
      | (True, b) \<Rightarrow>
          (let b = (if buf_length b < len then buf_store (buf_length b) (replicate (len - buf_length b) 0) b else b)
           in (len, b\<lparr>buf_length := len\<rparr>)))"

definition BUF_MEM_grow_clean :: "malloc_env \<Rightarrow> nat \<Rightarrow> buf_mem \<Rightarrow> nat \<Rightarrow> nat \<times> buf_mem" where
  "BUF_MEM_grow_clean al t b len = BUF_MEM_grow al t b len"

definition BUF_MEM_append :: "malloc_env \<Rightarrow> nat \<Rightarrow> buf_mem \<Rightarrow> bytes \<Rightarrow> bool \<times> buf_mem" where
  "BUF_MEM_append al t b bs =
     (if length bs = 0 then (True, b)
      else
        (let new_len = (buf_length b + length bs) mod 2 ^ 64 in
         if new_len < length bs then (False, b)
         else case BUF_MEM_reserve al t b new_len of
                (False, b) \<Rightarrow> (False, b)
              | (True, b) \<Rightarrow> (True, buf_store (buf_length b) bs b\<lparr>buf_length := new_len\<rparr>)))"

text \<open>The forwarding functions.\<close>

definition BUF_strdup :: "malloc_env \<Rightarrow> nat \<Rightarrow> bytes \<Rightarrow> bytes option" where
  "BUF_strdup al t str = OPENSSL_strdup al t str"

definition BUF_strnlen :: "bytes \<Rightarrow> nat \<Rightarrow> nat option" where
  "BUF_strnlen str max_len = OPENSSL_strnlen str max_len"

definition BUF_strndup :: "malloc_env \<Rightarrow> nat \<Rightarrow> bytes \<Rightarrow> nat \<Rightarrow> bytes option" where
  "BUF_strndup al t str sz = OPENSSL_strndup al t str sz"

definition BUF_strlcpy :: "bytes \<Rightarrow> bytes \<Rightarrow> nat \<Rightarrow> (bytes \<times> nat) option" where
  "BUF_strlcpy dst src dst_size = OPENSSL_strlcpy dst src dst_size"

definition BUF_strlcat :: "bytes \<Rightarrow> bytes \<Rightarrow> nat \<Rightarrow> (bytes \<times> nat) option" where
  "BUF_strlcat dst src dst_size = OPENSSL_strlcat dst src dst_size"

definition BUF_memdup :: "malloc_env \<Rightarrow> nat \<Rightarrow> bytes \<Rightarrow> bytes option" where
  "BUF_memdup al t data = OPENSSL_memdup al t data"

section \<open>The contents\<close>

definition block_bytes :: "heap_block option \<Rightarrow> bytes" where
  "block_bytes d = (case d of None \<Rightarrow> [] | Some h \<Rightarrow> hb_bytes h)"

definition contents :: "buf_mem \<Rightarrow> bytes" where
  "contents b = take (buf_length b) (block_bytes (buf_data b))"

text \<open>The buffer really has \<open>max\<close> bytes, and its block knows it.\<close>

definition buf_ok :: "buf_mem \<Rightarrow> bool" where
  "buf_ok b \<longleftrightarrow> buf_length b \<le> buf_max b \<and>
     (case buf_data b of None \<Rightarrow> buf_max b = 0 | Some h \<Rightarrow> block_ok h \<and> hb_size h = buf_max b)"

lemma buf_ok_bounds: "buf_ok b \<Longrightarrow> buf_max b < 2 ^ 63 \<and> length (block_bytes (buf_data b)) = buf_max b"
  by (auto simp: buf_ok_def block_ok_def block_bytes_def split: option.splits)

lemma length_contents: "buf_ok b \<Longrightarrow> length (contents b) = buf_length b"
  using buf_ok_bounds [of b] by (simp add: contents_def buf_ok_def)

lemma BUF_MEM_new_ok: "BUF_MEM_new al t = Some b \<Longrightarrow> buf_ok b \<and> contents b = [] \<and> buf_length b = 0"
  by (auto simp: BUF_MEM_new_def buf_ok_def contents_def split: option.splits)

text \<open>
  The rounding of \<open>BUF_MEM_reserve\<close>: at least \<open>cap\<close>, and for the requests that pass the overflow checks
  and the size limit of the allocator no wrap-around is left.
\<close>

lemma reserve_size:
  fixes cap :: nat
  assumes "\<not> (cap + 3) mod 2 ^ 64 < cap" and "cap < 2 ^ 64"
    and "((cap + 3) mod 2 ^ 64 div 3 * 4) mod 2 ^ 64 div 4 = (cap + 3) mod 2 ^ 64 div 3"
  shows "((cap + 3) mod 2 ^ 64 div 3 * 4) mod 2 ^ 64 = (cap + 3) div 3 * 4 \<and> cap \<le> (cap + 3) div 3 * 4"
proof -
  have "cap + 3 < 2 ^ 64"
  proof (rule ccontr)
    assume "\<not> ?thesis"
    then have "(cap + 3) mod 2 ^ 64 = cap + 3 - 2 ^ 64" using assms(2) by (simp add: mod_if)
    then show False using assms(1,2) by simp
  qed
  then have m: "(cap + 3) mod 2 ^ 64 = cap + 3" by simp
  have "(cap + 3) div 3 * 4 < 2 ^ 64"
  proof (rule ccontr)
    assume "\<not> ?thesis"
    moreover have "((cap + 3) div 3 * 4) mod 2 ^ 64 div 4 < 2 ^ 62" by (simp add: less_mult_imp_div_less)
    ultimately show False using assms(3) unfolding m by simp
  qed
  then show ?thesis unfolding m by simp
qed

lemma block_bytes_store: "buf_data b \<noteq> None \<Longrightarrow>
    block_bytes (buf_data (buf_store off bs b)) = write_at (block_bytes (buf_data b)) off bs"
  by (auto simp: buf_store_def block_bytes_def)

lemma buf_store_fields [simp]:
  "buf_length (buf_store off bs b) = buf_length b" "buf_max (buf_store off bs b) = buf_max b"
  by (simp_all add: buf_store_def)

lemma BUF_MEM_reserve_spec:
  assumes ok: "buf_ok b" and cap: "cap < 2 ^ 63" and r: "BUF_MEM_reserve al t b cap = (r, b')"
  shows "buf_ok b' \<and> contents b' = contents b \<and> buf_length b' = buf_length b \<and> (r \<longrightarrow> cap \<le> buf_max b')
         \<and> (\<not> r \<longrightarrow> b' = b)"
proof (cases "BUF_MEM_reserve al t b cap = (False, b) \<or> buf_max b \<ge> cap")
  case True
  then show ?thesis using ok r by (auto simp: BUF_MEM_reserve_def)
next
  case False
  define n where "n = (cap + 3) div 3 * 4"
  have s: "\<not> (cap + 3) mod 2 ^ 64 < cap"
    "((cap + 3) mod 2 ^ 64 div 3 * 4) mod 2 ^ 64 div 4 = (cap + 3) mod 2 ^ 64 div 3"
    using False unfolding BUF_MEM_reserve_def Let_def by presburger+
  have n: "((cap + 3) mod 2 ^ 64 div 3 * 4) mod 2 ^ 64 = n" "cap \<le> n"
    using reserve_size [OF s(1) _ s(2)] cap by (simp_all add: n_def)
  have small: "n + 8 < 2 ^ 64" using cap by (simp add: n_def)
  obtain h where h: "OPENSSL_realloc al t (buf_data b) n = Some h" and b': "r" "b' = b\<lparr>buf_data := Some h, buf_max := n\<rparr>"
    using False r s by (auto simp: BUF_MEM_reserve_def Let_def n [simplified] split: option.splits)
  have len: "buf_length b \<le> buf_max b" "buf_max b < n" using ok False n by (simp_all add: buf_ok_def)
  have "block_ok h \<and> hb_size h = n \<and> take (buf_length b) (hb_bytes h) = contents b"
  proof (cases "buf_data b")
    case None
    then show ?thesis
      using OPENSSL_malloc_block [of al t n h] h small ok
      by (simp add: OPENSSL_realloc_def buf_ok_def contents_def block_bytes_def)
  next
    case (Some orig)
    then have orig: "block_ok orig" "hb_size orig = buf_max b" using ok by (simp_all add: buf_ok_def)
    from OPENSSL_realloc_block [OF h [unfolded Some] small orig(1)]
    have l: "block_ok h" "hb_size h = n" "take (buf_max b) (hb_bytes h) = take (buf_max b) (hb_bytes orig)"
      using orig(2) len by (simp_all add: min_absorb1)
    have "take (buf_length b) (hb_bytes h) = take (buf_length b) (take (buf_max b) (hb_bytes h))"
      using len by (simp add: min_absorb1)
    then show ?thesis using l len by (simp add: min_absorb1 contents_def block_bytes_def Some)
  qed
  then show ?thesis using b' len n by (simp add: buf_ok_def contents_def block_bytes_def)
qed

lemma buf_store_end:
  assumes "buf_ok b" and "buf_length b + length bs \<le> buf_max b" and "buf_max b > 0"
  shows "buf_ok (buf_store (buf_length b) bs b\<lparr>buf_length := buf_length b + length bs\<rparr>) \<and>
         contents (buf_store (buf_length b) bs b\<lparr>buf_length := buf_length b + length bs\<rparr>) = contents b @ bs"
proof -
  obtain h where h: "buf_data b = Some h" "block_ok h" "hb_size h = buf_max b"
    using assms by (auto simp: buf_ok_def split: option.splits)
  then have "length (hb_bytes h) = buf_max b" by (simp add: block_ok_def)
  then show ?thesis
    using h assms(2) by (simp add: buf_ok_def buf_store_def contents_def block_bytes_def block_ok_def take_write_at_end)
qed

lemma BUF_MEM_append_spec:
  assumes ok: "buf_ok b" and small: "buf_length b + length bs < 2 ^ 63" and r: "BUF_MEM_append al t b bs = (r, b')"
  shows "buf_ok b' \<and> contents b' = (if r then contents b @ bs else contents b) \<and>
         buf_length b' = (if r then buf_length b + length bs else buf_length b)"
proof (cases "length bs = 0")
  case True
  then show ?thesis using ok r by (simp add: BUF_MEM_append_def)
next
  case False
  have n: "(buf_length b + length bs) mod 2 ^ 64 = buf_length b + length bs" using small by simp
  obtain q b1 where q: "BUF_MEM_reserve al t b (buf_length b + length bs) = (q, b1)" by (rule prod.exhaust)
  note l = BUF_MEM_reserve_spec [OF ok small q]
  show ?thesis
  proof (cases q)
    case True
    have "0 < length bs" using False by simp
    then have "buf_length b1 + length bs \<le> buf_max b1" "0 < buf_max b1" using l True by linarith+
    moreover have "r" "b' = buf_store (buf_length b1) bs b1\<lparr>buf_length := buf_length b1 + length bs\<rparr>"
      using r q True False l by (simp_all add: BUF_MEM_append_def Let_def n [simplified])
    ultimately show ?thesis using buf_store_end [of b1 bs] l by simp
  next
    case q: False
    then show ?thesis
      using r \<open>BUF_MEM_reserve al t b (buf_length b + length bs) = (q, b1)\<close> False l
      by (auto simp: BUF_MEM_append_def Let_def n [simplified])
  qed
qed

text \<open>\<open>BUF_MEM_grow\<close> on the contents: cut off, or filled up with zeros.\<close>

definition resize :: "nat \<Rightarrow> bytes \<Rightarrow> bytes" where
  "resize len bs = take len bs @ replicate (len - length bs) 0"

lemma BUF_MEM_grow_spec:
  assumes ok: "buf_ok b" and small: "len < 2 ^ 63" and r: "BUF_MEM_grow al t b len = (r, b')"
  shows "buf_ok b' \<and> (r = len \<and> contents b' = resize len (contents b) \<and> buf_length b' = len \<or> r = 0 \<and> 0 < len \<and> b' = b)"
proof -
  obtain q b1 where q: "BUF_MEM_reserve al t b len = (q, b1)" by (rule prod.exhaust)
  note l = BUF_MEM_reserve_spec [OF ok small q]
  have len: "length (contents b1) = buf_length b" using l length_contents [of b1] by simp
  show ?thesis
  proof (cases q)
    case False
    then have "0 < len" using q by (cases "len = 0") (auto simp: BUF_MEM_reserve_def)
    then show ?thesis using r q False l ok by (simp add: BUF_MEM_grow_def)
  next
    case True
    show ?thesis
    proof (cases "buf_length b < len")
      case shorter: True
      let ?zs = "replicate (len - buf_length b1) 0"
      have e: "buf_length b1 + length ?zs = len" using shorter l by simp
      have "buf_ok (buf_store (buf_length b1) ?zs b1\<lparr>buf_length := len\<rparr>) \<and>
            contents (buf_store (buf_length b1) ?zs b1\<lparr>buf_length := len\<rparr>) = contents b1 @ ?zs"
        using buf_store_end [of b1 ?zs, unfolded e] l True shorter by simp
      then show ?thesis
        using r q True l shorter len by (auto simp: BUF_MEM_grow_def resize_def)
    next
      case longer: False
      then have b': "r = len" "b' = b1\<lparr>buf_length := len\<rparr>" using r q True l by (auto simp: BUF_MEM_grow_def)
      have "contents b' = take len (contents b1)" using b' longer l by (simp add: contents_def min_absorb1)
      then show ?thesis using b' longer l True len by (auto simp: resize_def buf_ok_def split: option.splits)
    qed
  qed
qed

section \<open>A history of operations\<close>

datatype buf_op = Append bytes | Grow nat

text \<open>One operation, answered by whether it succeeded.\<close>

definition buf_step :: "malloc_env \<Rightarrow> nat \<Rightarrow> buf_mem \<Rightarrow> buf_op \<Rightarrow> bool \<times> buf_mem" where
  "buf_step al t b c =
     (case c of
        Append bs \<Rightarrow> BUF_MEM_append al t b bs
      | Grow len \<Rightarrow> (case BUF_MEM_grow al t b len of (r, b) \<Rightarrow> (r = len, b)))"

fun buf_run :: "malloc_env \<Rightarrow> nat \<Rightarrow> buf_mem \<Rightarrow> buf_op list \<Rightarrow> buf_op list \<times> buf_mem" where
  "buf_run al t b [] = ([], b)"
| "buf_run al t b (c # cs) =
     (case buf_step al t b c of
        (ok, b) \<Rightarrow> (case buf_run al (Suc t) b cs of (ds, b) \<Rightarrow> (if ok then c # ds else ds, b)))"

fun op_apply :: "buf_op \<Rightarrow> bytes \<Rightarrow> bytes" where
  "op_apply (Append bs) s = s @ bs"
| "op_apply (Grow len) s = resize len s"

fun op_size :: "buf_op \<Rightarrow> nat" where
  "op_size (Append bs) = length bs"
| "op_size (Grow len) = len"

lemma buf_step_spec:
  assumes "buf_ok b" and "buf_length b + op_size c < 2 ^ 63" and "buf_step al t b c = (ok, b')"
  shows "buf_ok b' \<and> contents b' = (if ok then op_apply c (contents b) else contents b) \<and>
         buf_length b' \<le> buf_length b + op_size c"
proof (cases c)
  case (Append bs)
  then show ?thesis
    using BUF_MEM_append_spec [OF assms(1), of bs al t ok b'] assms by (auto simp: buf_step_def)
next
  case (Grow len)
  obtain r where r: "BUF_MEM_grow al t b len = (r, b')" "ok = (r = len)"
    using assms(3) Grow by (auto simp: buf_step_def split: prod.splits)
  show ?thesis using BUF_MEM_grow_spec [OF assms(1) _ r(1)] assms(2) r(2) Grow by auto
qed

lemma buf_run_spec:
  "buf_ok b \<Longrightarrow> buf_length b + sum_list (map op_size cs) < 2 ^ 63 \<Longrightarrow> buf_run al t b cs = (ds, b') \<Longrightarrow>
   buf_ok b' \<and> contents b' = fold op_apply ds (contents b)"
proof (induction cs arbitrary: t b ds)
  case (Cons c cs)
  obtain ok b1 where s: "buf_step al t b c = (ok, b1)" by (rule prod.exhaust)
  obtain ds1 where d: "buf_run al (Suc t) b1 cs = (ds1, b')" "ds = (if ok then c # ds1 else ds1)"
    using Cons.prems(3) s by (auto split: prod.splits)
  have "buf_length b + op_size c < 2 ^ 63" using Cons.prems(2) by simp
  note l = buf_step_spec [OF Cons.prems(1) this s]
  have "buf_ok b' \<and> contents b' = fold op_apply ds1 (contents b1)"
    using Cons.prems(2) l by (intro Cons.IH [OF _ _ d(1)]) simp_all
  then show ?case using l d(2) by simp
qed simp

section \<open>Properties\<close>

text \<open>
  C39: A \<open>BUF_MEM\<close> is a byte string: after any history of appends and resizings from a new buffer, some
  of which the allocator may refuse, the buffer holds exactly the effect of the operations that reported
  success, and it really owns the capacity it records. The requested sizes together stay below
  \<open>2 ^ 63\<close>, the largest object of the platform.
\<close>

theorem buffer_is_byte_string:
  assumes "BUF_MEM_new al t = Some b" and "sum_list (map op_size cs) < 2 ^ 63"
    and "buf_run al (Suc t) b cs = (succeeded, b')"
  shows "buf_ok b' \<and> contents b' = fold op_apply succeeded []"
  using buf_run_spec [OF _ _ assms(3)] BUF_MEM_new_ok [OF assms(1)] assms(2) by simp

theorem buffer_is_byte_string_witness:
  "\<exists>b b' succeeded. BUF_MEM_new (\<lambda>_ _. Some (\<lambda>_. 7)) 0 = Some b \<and>
     buf_run (\<lambda>_ _. Some (\<lambda>_. 7)) (Suc 0) b [Append [1, 2], Grow 4, Append [3], Grow 1] = (succeeded, b') \<and>
     contents b' = fold op_apply succeeded []"
proof -
  obtain b where b: "BUF_MEM_new (\<lambda>_ _. Some (\<lambda>_. 7)) 0 = Some b"
    by (simp add: BUF_MEM_new_def OPENSSL_malloc_def c_malloc_def)
  obtain ds b' where "buf_run (\<lambda>_ _. Some (\<lambda>_. 7)) (Suc 0) b [Append [1, 2], Grow 4, Append [3], Grow 1] = (ds, b')"
    by (rule prod.exhaust)
  with buffer_is_byte_string [OF b _ this] b show ?thesis by auto
qed

end
