(* ===== verification/PbStream.thy ===== *)
theory PbStream
  imports Prelude
begin

text \<open>
  nanopb \<^verbatim>\<open>pb_decode.c\<close>, part 1: input streams and the decoding of wire primitives (varints, fixed-width
  values, tags, length-delimited substreams) and the skipping of fields.

  A stream's members \<open>callback\<close> and \<open>state\<close> are one member here: \<open>Buf_read\<close> with the memory from \<open>state\<close>
  to the end of the object, or \<open>User\<close> with the state of an application's callback, which is the parameter
  \<open>io\<close> of every operation. As \<^verbatim>\<open>pb_decode.h\<close> says, a callback reads the requested number of bytes and
  uses its own state; when it fails it may report the end of the input by setting \<open>bytes_left\<close> to 0.
  \<^verbatim>\<open>size_t\<close> has 64 bits, \<^verbatim>\<open>pb_size_t\<close> 32 (\<^verbatim>\<open>PB_FIELD_32BIT\<close>) and \<^verbatim>\<open>uint_fast8_t\<close> 8.
\<close>

section \<open>Streams\<close>

datatype 's source = Buf_read bytes | User 's

record 's pb_istream =
  source :: "'s source"
  bytes_left :: nat
  in_errmsg :: "string option"

text \<open>What a call of the callback does: the bytes it stored, its new state, and on failure the end of input.\<close>

datatype 's read_result = Read bytes 's | Failed bytes 's bool

type_synonym 's read_cb = "'s \<Rightarrow> nat \<Rightarrow> 's read_result"

definition in_error :: "string \<Rightarrow> 's pb_istream \<Rightarrow> 's pb_istream" where
  "in_error msg st = st\<lparr>in_errmsg := (case in_errmsg st of None \<Rightarrow> Some msg | Some e \<Rightarrow> Some e)\<rparr>"

definition buf_read :: "bytes \<Rightarrow> nat \<Rightarrow> bytes \<times> bytes" where
  "buf_read src count = (take count src, drop count src)"

definition pb_istream_from_buffer :: "bytes \<Rightarrow> nat \<Rightarrow> 's pb_istream" where
  "pb_istream_from_buffer buf bufsize = \<lparr>source = Buf_read buf, bytes_left = bufsize, in_errmsg = None\<rparr>"

text \<open>\<open>stream->callback(stream, buf, count)\<close>: success, the bytes stored and the stream.\<close>

definition in_callback :: "'s read_cb \<Rightarrow> 's pb_istream \<Rightarrow> nat \<Rightarrow> bool \<times> bytes \<times> 's pb_istream" where
  "in_callback io st count =
     (case source st of
        Buf_read src \<Rightarrow> (case buf_read src count of (bs, rest) \<Rightarrow> (True, bs, st\<lparr>source := Buf_read rest\<rparr>))
      | User s \<Rightarrow>
          (case io s count of
             Read bs s \<Rightarrow> (True, bs, st\<lparr>source := User s\<rparr>)
           | Failed bs s eof \<Rightarrow>
               (False, bs, st\<lparr>source := User s, bytes_left := (if eof then 0 else bytes_left st)\<rparr>)))"

text \<open>The part of \<open>pb_read\<close> behind the skipping branch.\<close>

definition read_checked :: "'s read_cb \<Rightarrow> 's pb_istream \<Rightarrow> nat \<Rightarrow> bool \<times> bytes \<times> 's pb_istream" where
  "read_checked io st count =
     (if bytes_left st < count then (False, [], in_error ''end-of-stream'' st)
      else case in_callback io st count of
             (False, bs, st) \<Rightarrow> (False, bs, in_error ''io error'' st)
           | (True, bs, st) \<Rightarrow> (True, bs, st\<lparr>bytes_left := bytes_left st - count\<rparr>))"

text \<open>The loop that skips the input of a callback stream, 16 bytes at a time.\<close>

function read_skip :: "'s read_cb \<Rightarrow> 's pb_istream \<Rightarrow> nat \<Rightarrow> bool \<times> bytes \<times> 's pb_istream" where
  "read_skip io st count =
     (if count > 16 then
        (case read_checked io st 16 of
           (False, _, st) \<Rightarrow> (False, [], st)
         | (True, _, st) \<Rightarrow> read_skip io st (count - 16))
      else if count = 0 then (True, [], st)
      else (case read_checked io st count of (ok, _, st) \<Rightarrow> (ok, [], st)))"
  by pat_completeness auto
termination by (relation "measure (\<lambda>(io, st, count). count)") auto

declare read_skip.simps [simp del]

text \<open>\<open>null\<close>: the argument \<open>buf\<close> is NULL. The result holds the bytes stored at \<open>buf\<close>.\<close>

definition pb_read :: "'s read_cb \<Rightarrow> 's pb_istream \<Rightarrow> bool \<Rightarrow> nat \<Rightarrow> bool \<times> bytes \<times> 's pb_istream" where
  "pb_read io st null count =
     (if count = 0 then (True, [], st)
      else if null \<and> (case source st of Buf_read _ \<Rightarrow> False | User _ \<Rightarrow> True) then read_skip io st count
      else case read_checked io st count of (ok, bs, st) \<Rightarrow> (ok, if null then [] else bs, st))"

definition pb_readbyte :: "'s read_cb \<Rightarrow> 's pb_istream \<Rightarrow> u8 option \<times> 's pb_istream" where
  "pb_readbyte io st =
     (if bytes_left st = 0 then (None, in_error ''end-of-stream'' st)
      else case in_callback io st 1 of
             (False, _, st) \<Rightarrow> (None, in_error ''io error'' st)
           | (True, bs, st) \<Rightarrow> (Some (hd bs), st\<lparr>bytes_left := bytes_left st - 1\<rparr>))"

section \<open>Varints\<close>

text \<open>
  The multi-byte loop of \<open>pb_decode_varint32_eof\<close>; the result is the decoded value, the last byte and the
  final \<open>bitpos\<close>, which wraps at 256.
\<close>

function varint32_loop ::
    "'s read_cb \<Rightarrow> 's pb_istream \<Rightarrow> u32 \<Rightarrow> u8 \<Rightarrow> (u32 \<times> u8 \<times> u8) option \<times> 's pb_istream" where
  "varint32_loop io st result bitpos =
     (case pb_readbyte io st of
        (None, st) \<Rightarrow> (None, st)
      | (Some b, st) \<Rightarrow>
          (if bitpos \<ge> 32 \<and>
              (b AND 0x7f \<noteq> 0 \<and>
               (drop_bit 31 result = 0 \<or> b \<noteq> (if bitpos < 63 then 0xff else 0x01)))
           then (None, in_error ''varint overflow'' st)
           else
             (let result = (if bitpos \<ge> 32 then result
                            else result OR push_bit (unat bitpos) (ucast (b AND 0x7f)));
                  bitpos = bitpos + 7
              in if b AND 0x80 \<noteq> 0 then varint32_loop io st result bitpos
                 else (Some (result, b, bitpos), st))))"
  by pat_completeness auto

lemma in_callback_bytes_left:
  "in_callback io st n = (ok, bs, st') \<Longrightarrow> bytes_left st' \<le> bytes_left st \<and> (ok \<longrightarrow> bytes_left st' = bytes_left st)"
  by (auto simp: in_callback_def split: source.splits prod.splits read_result.splits)

lemma pb_readbyte_bytes_left: "pb_readbyte io st = (Some b, st') \<Longrightarrow> bytes_left st' < bytes_left st"
  by (auto simp: pb_readbyte_def split: if_splits prod.splits bool.splits dest: in_callback_bytes_left)

termination varint32_loop
  by (relation "measure (\<lambda>(io, st, result, bitpos). bytes_left st)")
     (auto dest!: sym [of "(_, _)"] pb_readbyte_bytes_left)

declare varint32_loop.simps [simp del]

text \<open>The result is the value stored at \<open>dest\<close>, if any, and whether \<open>*eof\<close> was set.\<close>

definition pb_decode_varint32_eof :: "'s read_cb \<Rightarrow> 's pb_istream \<Rightarrow> u32 option \<times> bool \<times> 's pb_istream" where
  "pb_decode_varint32_eof io st =
     (case pb_readbyte io st of
        (None, st) \<Rightarrow> (None, bytes_left st = 0, st)
      | (Some b, st) \<Rightarrow>
          (if b AND 0x80 = 0 then (Some (ucast b), False, st)
           else case varint32_loop io st (ucast (b AND 0x7f)) 7 of
                  (None, st) \<Rightarrow> (None, False, st)
                | (Some (result, b, bitpos), st) \<Rightarrow>
                    (if bitpos = 35 \<and> b AND 0x70 \<noteq> 0 then (None, False, in_error ''varint overflow'' st)
                     else (Some result, False, st))))"

definition pb_decode_varint32 :: "'s read_cb \<Rightarrow> 's pb_istream \<Rightarrow> u32 option \<times> 's pb_istream" where
  "pb_decode_varint32 io st = (case pb_decode_varint32_eof io st of (v, _, st) \<Rightarrow> (v, st))"

function varint_loop :: "'s read_cb \<Rightarrow> 's pb_istream \<Rightarrow> u64 \<Rightarrow> u8 \<Rightarrow> u64 option \<times> 's pb_istream" where
  "varint_loop io st result bitpos =
     (if bitpos \<ge> 64 then (None, in_error ''varint overflow'' st)
      else case pb_readbyte io st of
             (None, st) \<Rightarrow> (None, st)
           | (Some b, st) \<Rightarrow>
               (let result = result OR push_bit (unat bitpos) (ucast (b AND 0x7f));
                    bitpos = bitpos + 7
                in if b AND 0x80 \<noteq> 0 then varint_loop io st result bitpos else (Some result, st)))"
  by pat_completeness auto
termination
  by (relation "measure (\<lambda>(io, st, result, bitpos). bytes_left st)")
     (auto dest!: sym [of "(_, _)"] pb_readbyte_bytes_left)

declare varint_loop.simps [simp del]

definition pb_decode_varint :: "'s read_cb \<Rightarrow> 's pb_istream \<Rightarrow> u64 option \<times> 's pb_istream" where
  "pb_decode_varint io st = varint_loop io st 0 0"

text \<open>The zig-zag form; the result is the \<^verbatim>\<open>int64_t\<close> as a word.\<close>

definition pb_decode_svarint :: "'s read_cb \<Rightarrow> 's pb_istream \<Rightarrow> u64 option \<times> 's pb_istream" where
  "pb_decode_svarint io st =
     (case pb_decode_varint io st of
        (None, st) \<Rightarrow> (None, st)
      | (Some value, st) \<Rightarrow>
          (Some (if value AND 1 \<noteq> 0 then NOT (drop_bit 1 value) else drop_bit 1 value), st))"

section \<open>Fixed-width values, tags, and skipping\<close>

definition pb_decode_fixed32 :: "'s read_cb \<Rightarrow> 's pb_istream \<Rightarrow> u32 option \<times> 's pb_istream" where
  "pb_decode_fixed32 io st =
     (case pb_read io st False 4 of
        (False, _, st) \<Rightarrow> (None, st)
      | (True, bs, st) \<Rightarrow>
          (Some (ucast (bs ! 0) OR push_bit 8 (ucast (bs ! 1)) OR push_bit 16 (ucast (bs ! 2))
                 OR push_bit 24 (ucast (bs ! 3))), st))"

definition pb_decode_fixed64 :: "'s read_cb \<Rightarrow> 's pb_istream \<Rightarrow> u64 option \<times> 's pb_istream" where
  "pb_decode_fixed64 io st =
     (case pb_read io st False 8 of
        (False, _, st) \<Rightarrow> (None, st)
      | (True, bs, st) \<Rightarrow>
          (Some (ucast (bs ! 0) OR push_bit 8 (ucast (bs ! 1)) OR push_bit 16 (ucast (bs ! 2))
                 OR push_bit 24 (ucast (bs ! 3)) OR push_bit 32 (ucast (bs ! 4))
                 OR push_bit 40 (ucast (bs ! 5)) OR push_bit 48 (ucast (bs ! 6))
                 OR push_bit 56 (ucast (bs ! 7))), st))"

abbreviation (input) PB_WT_VARINT :: nat where "PB_WT_VARINT \<equiv> 0"
abbreviation (input) PB_WT_64BIT :: nat where "PB_WT_64BIT \<equiv> 1"
abbreviation (input) PB_WT_STRING :: nat where "PB_WT_STRING \<equiv> 2"
abbreviation (input) PB_WT_32BIT :: nat where "PB_WT_32BIT \<equiv> 5"

text \<open>The result, \<open>*wire_type\<close>, \<open>*tag\<close> and \<open>*eof\<close>.\<close>

definition pb_decode_tag :: "'s read_cb \<Rightarrow> 's pb_istream \<Rightarrow> bool \<times> nat \<times> u32 \<times> bool \<times> 's pb_istream" where
  "pb_decode_tag io st =
     (case pb_decode_varint32_eof io st of
        (None, eof, st) \<Rightarrow> (False, 0, 0, eof, st)
      | (Some temp, eof, st) \<Rightarrow>
          (if temp = 0 then (False, 0, 0, True, st)
           else (True, unat (temp AND 7), drop_bit 3 temp, eof, st)))"

lemma in_error_bytes_left [simp]: "bytes_left (in_error msg st) = bytes_left st"
  by (simp add: in_error_def)

lemma read_checked_bytes_left:
  "read_checked io st n = (ok, bs, st') \<Longrightarrow>
   bytes_left st' \<le> bytes_left st \<and> (ok \<longrightarrow> n \<le> bytes_left st \<and> bytes_left st' = bytes_left st - n)"
  by (auto simp: read_checked_def split: if_splits prod.splits bool.splits dest: in_callback_bytes_left)

lemma pb_read_1_bytes_left: "pb_read io st False 1 = (True, bs, st') \<Longrightarrow> bytes_left st' < bytes_left st"
  by (auto simp: pb_read_def split: prod.splits dest: read_checked_bytes_left)

function pb_skip_varint :: "'s read_cb \<Rightarrow> 's pb_istream \<Rightarrow> bool \<times> 's pb_istream" where
  "pb_skip_varint io st =
     (case pb_read io st False 1 of
        (False, _, st) \<Rightarrow> (False, st)
      | (True, bs, st) \<Rightarrow> if hd bs AND 0x80 \<noteq> 0 then pb_skip_varint io st else (True, st))"
  by pat_completeness auto
termination
proof (relation "measure (\<lambda>(io, st). bytes_left st)", goal_cases)
  case (2 io st x y bs st')
  then show ?case using pb_read_1_bytes_left [of io st bs st'] by (cases x) simp_all
qed simp

declare pb_skip_varint.simps [simp del]

definition pb_skip_string :: "'s read_cb \<Rightarrow> 's pb_istream \<Rightarrow> bool \<times> 's pb_istream" where
  "pb_skip_string io st =
     (case pb_decode_varint32 io st of
        (None, st) \<Rightarrow> (False, st)
      | (Some len, st) \<Rightarrow> (case pb_read io st True (unat len) of (ok, _, st) \<Rightarrow> (ok, st)))"

definition pb_skip_field :: "'s read_cb \<Rightarrow> 's pb_istream \<Rightarrow> nat \<Rightarrow> bool \<times> 's pb_istream" where
  "pb_skip_field io st wire_type =
     (if wire_type = PB_WT_VARINT then pb_skip_varint io st
      else if wire_type = PB_WT_64BIT then (case pb_read io st True 8 of (ok, _, st) \<Rightarrow> (ok, st))
      else if wire_type = PB_WT_STRING then pb_skip_string io st
      else if wire_type = PB_WT_32BIT then (case pb_read io st True 4 of (ok, _, st) \<Rightarrow> (ok, st))
      else (False, in_error ''invalid wire_type'' st))"

text \<open>
  The varint loop of \<open>read_raw_value\<close>, with the bytes in the buffer so far; \<open>size\<close> counts them. The result
  is the bytes of the buffer up to \<open>*size\<close>.
\<close>

function raw_varint :: "'s read_cb \<Rightarrow> 's pb_istream \<Rightarrow> nat \<Rightarrow> nat \<Rightarrow> bytes \<Rightarrow> bytes option \<times> 's pb_istream" where
  "raw_varint io st max_size sz acc =
     (if sz + 1 > max_size then (None, st)
      else case pb_read io st False 1 of
             (False, _, st) \<Rightarrow> (None, st)
           | (True, bs, st) \<Rightarrow>
               if hd bs AND 0x80 \<noteq> 0 then raw_varint io st max_size (sz + 1) (acc @ bs)
               else (Some (acc @ bs), st))"
  by pat_completeness auto
termination by (relation "measure (\<lambda>(io, st, max_size, sz, acc). max_size - sz)") auto

definition read_raw_value :: "'s read_cb \<Rightarrow> 's pb_istream \<Rightarrow> nat \<Rightarrow> nat \<Rightarrow> bytes option \<times> 's pb_istream" where
  "read_raw_value io st wire_type max_size =
     (if wire_type = PB_WT_VARINT then raw_varint io st max_size 0 []
      else if wire_type = PB_WT_64BIT then
        (case pb_read io st False 8 of (ok, bs, st) \<Rightarrow> (if ok then Some bs else None, st))
      else if wire_type = PB_WT_32BIT then
        (case pb_read io st False 4 of (ok, bs, st) \<Rightarrow> (if ok then Some bs else None, st))
      else (None, in_error ''invalid wire_type'' st))"

section \<open>Substreams\<close>

text \<open>The substream, \<open>None\<close> when the function returns false, and the parent.\<close>

definition pb_make_string_substream ::
    "'s read_cb \<Rightarrow> 's pb_istream \<Rightarrow> 's pb_istream option \<times> 's pb_istream" where
  "pb_make_string_substream io st =
     (case pb_decode_varint32 io st of
        (None, st) \<Rightarrow> (None, st)
      | (Some sz, st) \<Rightarrow>
          (if bytes_left st < unat sz then (None, in_error ''parent stream too short'' st)
           else (Some (st\<lparr>bytes_left := unat sz\<rparr>), st\<lparr>bytes_left := bytes_left st - unat sz\<rparr>)))"

text \<open>The substream is a copy of the parent, so both have the same callback.\<close>

definition pb_close_string_substream ::
    "'s read_cb \<Rightarrow> 's pb_istream \<Rightarrow> 's pb_istream \<Rightarrow> bool \<times> 's pb_istream \<times> 's pb_istream" where
  "pb_close_string_substream io st substream =
     (case (if bytes_left substream \<noteq> 0 then pb_read io substream True (bytes_left substream)
            else (True, [], substream)) of
        (False, _, substream) \<Rightarrow> (False, st, substream)
      | (True, _, substream) \<Rightarrow>
          (True, st\<lparr>source := source substream, in_errmsg := in_errmsg substream\<rparr>, substream))"

end
