(* ===== verification/PbWire.thy ===== *)
theory PbWire
  imports PbStream
begin

text \<open>
  What the reading operations of \<open>PbStream\<close> do on a stream that holds given bytes, for memory buffers and
  for callbacks alike, and the reference notion of a varint that the codecs are compared with.
\<close>

section \<open>Streams as byte strings\<close>

text \<open>
  The interface of a callback: what it will deliver is a byte string of its state. Everything about reading
  is proved for such a callback; \<open>buf_read\<close> gives one.
\<close>

locale byte_source =
  fixes io :: "'s read_cb" and content :: "'s \<Rightarrow> bytes"
  assumes io_reads: "n \<le> length (content s) \<Longrightarrow>
      \<exists>s'. io s n = Read (take n (content s)) s' \<and> content s' = drop n (content s)"

fun source_bytes :: "('s \<Rightarrow> bytes) \<Rightarrow> 's source \<Rightarrow> bytes" where
  "source_bytes content (Buf_read src) = src"
| "source_bytes content (User s) = content s"

fun is_buffer :: "'s source \<Rightarrow> bool" where
  "is_buffer (Buf_read src) = True"
| "is_buffer (User s) = False"

text \<open>A stream that does not promise more than its source has; the bytes it will deliver.\<close>

definition in_ok :: "('s \<Rightarrow> bytes) \<Rightarrow> 's pb_istream \<Rightarrow> bool" where
  "in_ok content st \<longleftrightarrow> bytes_left st \<le> length (source_bytes content (source st))"

definition pending :: "('s \<Rightarrow> bytes) \<Rightarrow> 's pb_istream \<Rightarrow> bytes" where
  "pending content st = take (bytes_left st) (source_bytes content (source st))"

text \<open>\<open>st'\<close> is \<open>st\<close> after \<open>n\<close> bytes were read from it.\<close>

definition advanced :: "('s \<Rightarrow> bytes) \<Rightarrow> 's pb_istream \<Rightarrow> nat \<Rightarrow> 's pb_istream \<Rightarrow> bool" where
  "advanced content st n st' \<longleftrightarrow>
     source_bytes content (source st') = drop n (source_bytes content (source st)) \<and>
     is_buffer (source st') = is_buffer (source st) \<and>
     bytes_left st' = bytes_left st - n \<and> in_errmsg st' = in_errmsg st"

lemma length_pending: "in_ok content st \<Longrightarrow> length (pending content st) = bytes_left st"
  by (simp add: in_ok_def pending_def)

lemma advanced_0 [simp]: "advanced content st 0 st"
  by (simp add: advanced_def)

lemma advanced_trans:
  "advanced content st m st1 \<Longrightarrow> advanced content st1 n st2 \<Longrightarrow> advanced content st (m + n) st2"
  by (simp add: advanced_def add.commute)

lemma advanced_pending:
  "in_ok content st \<Longrightarrow> advanced content st n st' \<Longrightarrow> in_ok content st' \<and> pending content st' = drop n (pending content st)"
  by (auto simp: in_ok_def pending_def advanced_def drop_take)

text \<open>On a memory buffer the new stream is determined.\<close>

lemma advanced_buffer:
  "advanced content st n st' \<Longrightarrow> source st = Buf_read src \<Longrightarrow>
   st' = st\<lparr>source := Buf_read (drop n src), bytes_left := bytes_left st - n\<rparr>"
  by (cases "source st'") (auto simp: advanced_def)

context byte_source
begin

lemma in_callback_reads:
  assumes "in_ok content st" and "n \<le> bytes_left st"
  shows "\<exists>st'. in_callback io st n = (True, take n (pending content st), st') \<and>
               advanced content st n (st'\<lparr>bytes_left := bytes_left st' - n\<rparr>)"
proof (cases "source st")
  case (Buf_read src)
  then show ?thesis using assms
    by (simp add: in_callback_def buf_read_def pending_def advanced_def min_absorb1)
next
  case (User s)
  then have "n \<le> length (content s)" using assms by (simp add: in_ok_def)
  from io_reads [OF this] User assms show ?thesis
    by (auto simp: in_callback_def pending_def advanced_def min_absorb1)
qed

lemma read_checked_reads:
  assumes "in_ok content st" and "n \<le> bytes_left st"
  shows "\<exists>st'. read_checked io st n = (True, take n (pending content st), st') \<and> advanced content st n st'"
  using in_callback_reads [OF assms] assms(2) by (auto simp: read_checked_def)

lemma read_skip_reads:
  "in_ok content st \<Longrightarrow> n \<le> bytes_left st \<Longrightarrow>
   \<exists>st'. read_skip io st n = (True, [], st') \<and> advanced content st n st'"
proof (induction n arbitrary: st rule: less_induct)
  case (less n)
  show ?case
  proof (cases "n > 16")
    case True
    then obtain st1 where r: "read_checked io st 16 = (True, take 16 (pending content st), st1)"
        and a: "advanced content st 16 st1"
      using read_checked_reads [OF less.prems(1), of 16] less.prems(2) by auto
    then have "in_ok content st1" "n - 16 \<le> bytes_left st1"
      using advanced_pending [OF less.prems(1) a] less.prems(2) by (auto simp: advanced_def)
    with less.IH [of "n - 16" st1] True obtain st2 where
      "read_skip io st1 (n - 16) = (True, [], st2)" "advanced content st1 (n - 16) st2" by auto
    then show ?thesis using True r advanced_trans [OF a] by (subst read_skip.simps) fastforce
  next
    case False
    then show ?thesis
      using read_checked_reads [OF less.prems] by (subst read_skip.simps) auto
  qed
qed

lemma pb_read_reads:
  assumes "in_ok content st" and "n \<le> bytes_left st"
  shows "\<exists>st'. pb_read io st null n = (True, if null then [] else take n (pending content st), st') \<and>
               advanced content st n st'"
  using read_checked_reads [OF assms] read_skip_reads [OF assms]
  by (auto simp: pb_read_def split: source.split)

lemma read_checked_short:
  "bytes_left st < n \<Longrightarrow> read_checked io st n = (False, [], in_error ''end-of-stream'' st)"
  by (simp add: read_checked_def)

lemma read_skip_short:
  "in_ok content st \<Longrightarrow> bytes_left st < n \<Longrightarrow> \<exists>st'. read_skip io st n = (False, [], st')"
proof (induction n arbitrary: st rule: less_induct)
  case (less n)
  show ?case
  proof (cases "n > 16 \<and> 16 \<le> bytes_left st")
    case True
    then obtain st1 where r: "read_checked io st 16 = (True, take 16 (pending content st), st1)"
        and a: "advanced content st 16 st1"
      using read_checked_reads [OF less.prems(1), of 16] by auto
    then have "in_ok content st1" "bytes_left st1 < n - 16"
      using advanced_pending [OF less.prems(1) a] less.prems(2) True by (auto simp: advanced_def)
    with less.IH [of "n - 16" st1] True r show ?thesis by (subst read_skip.simps) auto
  next
    case False
    then show ?thesis
      using less.prems by (subst read_skip.simps) (auto simp: read_checked_short)
  qed
qed

lemma pb_read_short:
  assumes "in_ok content st" and "bytes_left st < n"
  shows "\<exists>st'. pb_read io st null n = (False, [], st')"
  using read_skip_short [OF assms] assms(2) by (auto simp: pb_read_def read_checked_short split: source.split)

lemma pb_readbyte_reads:
  assumes "in_ok content st" and "pending content st = b # rest"
  shows "\<exists>st'. pb_readbyte io st = (Some b, st') \<and> advanced content st 1 st' \<and> in_ok content st' \<and> pending content st' = rest"
proof -
  have n: "1 \<le> bytes_left st" using length_pending [OF assms(1)] assms(2) by simp
  obtain st1 where c: "in_callback io st 1 = (True, take 1 (pending content st), st1)"
      and a: "advanced content st 1 (st1\<lparr>bytes_left := bytes_left st1 - 1\<rparr>)"
    using in_callback_reads [OF assms(1) n] by blast
  have "bytes_left st1 = bytes_left st" using in_callback_bytes_left [OF c] by simp
  then have "pb_readbyte io st = (Some b, st1\<lparr>bytes_left := bytes_left st1 - 1\<rparr>)"
    unfolding pb_readbyte_def c using n assms(2) by simp
  then show ?thesis using a advanced_pending [OF assms(1) a] assms(2) by auto
qed

lemma pb_readbyte_end: "in_ok content st \<Longrightarrow> pending content st = [] \<Longrightarrow>
    pb_readbyte io st = (None, in_error ''end-of-stream'' st)"
  using length_pending [of content st] by (simp add: pb_readbyte_def)

end

text \<open>\<open>buf_read\<close> as a callback.\<close>

definition read_memory :: "bytes read_cb" where
  "read_memory src count = (case buf_read src count of (bs, rest) \<Rightarrow> Read bs rest)"

interpretation buffer: byte_source read_memory "\<lambda>src. src"
  by unfold_locales (simp add: read_memory_def buf_read_def)

section \<open>Varints\<close>

text \<open>The number in the low seven bits of each byte, and its shortest encoding.\<close>

primrec leb_val :: "bytes \<Rightarrow> nat" where
  "leb_val [] = 0"
| "leb_val (b # bs) = unat b mod 128 + 128 * leb_val bs"

function leb_enc :: "nat \<Rightarrow> bytes" where
  "leb_enc v = (if v < 128 then [of_nat v] else of_nat (v mod 128 + 128) # leb_enc (v div 128))"
  by pat_completeness auto
termination by (relation "measure id") auto

declare leb_enc.simps [simp del]

text \<open>The first varint of a byte string, up to the first byte without the continuation bit, and the rest.\<close>

fun split_varint :: "bytes \<Rightarrow> (bytes \<times> bytes) option" where
  "split_varint [] = None"
| "split_varint (b # bs) =
     (if unat b < 128 then Some ([b], bs)
      else case split_varint bs of None \<Rightarrow> None | Some (v, rest) \<Rightarrow> Some (b # v, rest))"

lemma split_varint_append: "split_varint bs = Some (v, r) \<Longrightarrow> bs = v @ r \<and> v \<noteq> []"
  by (induction bs arbitrary: v) (auto split: if_splits option.splits prod.splits)

lemma leb_val_less: "leb_val bs < 128 ^ length bs"
proof (induction bs)
  case (Cons b bs)
  have "unat b mod 128 < 128" by simp
  moreover have "128 * (leb_val bs + 1) \<le> 128 * 128 ^ length bs" using Cons by simp
  ultimately show ?case by simp
qed simp

lemma split_varint_enc: "split_varint (leb_enc v @ rest) = Some (leb_enc v, rest) \<and> leb_val (leb_enc v) = v"
proof (induction v rule: leb_enc.induct)
  case (1 v)
  show ?case
  proof (cases "v < 128")
    case True
    then show ?thesis by (simp add: leb_enc.simps [of v] unat_of_nat_u8)
  next
    case False
    then have u: "unat (of_nat (v mod 128 + 128) :: u8) = v mod 128 + 128"
      unfolding unat_of_nat_u8 by (simp add: mod_less)
    show ?thesis using 1 [OF False] False by (simp add: leb_enc.simps [of v] u del: of_nat_add)
  qed
qed

lemma leb_enc_len: "v < 128 ^ n \<Longrightarrow> 0 < n \<Longrightarrow> length (leb_enc v) \<le> n"
proof (induction n arbitrary: v)
  case (Suc n)
  show ?case
  proof (cases "v < 128")
    case False
    then have "0 < n" using Suc.prems by (cases n) auto
    moreover have "v div 128 < 128 ^ n" using Suc.prems(1) by (simp add: less_mult_imp_div_less mult.commute)
    ultimately show ?thesis using Suc.IH [of "v div 128"] False by (simp add: leb_enc.simps [of v])
  qed (simp add: leb_enc.simps [of v])
qed simp

lemma leb_enc_u64: "length (leb_enc (unat (v :: u64))) \<le> 10"
proof (rule leb_enc_len)
  have "unat v < 2 ^ 64" by simp
  also have "(2 :: nat) ^ 64 < 128 ^ 10" by simp
  finally show "unat v < 128 ^ 10" .
qed simp

text \<open>One step of the accumulation, on words.\<close>

lemma or_push_7:
  assumes "v < 2 ^ n" and "n < LENGTH('a)"
  shows "(of_nat v :: 'a::len word) OR push_bit n (ucast ((b :: u8) AND 0x7f))
         = of_nat (v + 2 ^ n * (unat b mod 128))"
proof -
  have "v < 2 ^ LENGTH('a)"
    using assms by (meson less_le_trans order.strict_implies_order one_le_numeral power_increasing)
  then have "unat (of_nat v :: 'a word) < 2 ^ n" using assms(1) by (simp add: unat_of_nat)
  then have "(of_nat v :: 'a word) OR push_bit n (ucast (b AND 0x7f)) = ucast (b AND 0x7f) * 2 ^ n + of_nat v"
    using push_bit_or_eq [of "of_nat v :: 'a word" n "ucast (b AND 0x7f)"] by (simp only: or.commute [of "of_nat v"])
  moreover have "(ucast (b AND 0x7f) :: 'a word) = of_nat (unat b mod 128)"
    by (metis unat_and_0x7f of_nat_unat)
  ultimately show ?thesis by simp
qed

lemma step_bound: "v < 2 ^ n \<Longrightarrow> v + 2 ^ n * (m mod 128) < 2 ^ (n + 7)" for v :: nat
proof -
  assume v: "v < 2 ^ n"
  have "m mod 128 + 1 \<le> 128" by (simp add: Suc_leI)
  then have "2 ^ n * (m mod 128 + 1) \<le> 2 ^ n * 128" by (rule mult_le_mono2)
  then have "2 ^ n * (m mod 128) + 2 ^ n \<le> 2 ^ n * 128" by (simp only: distrib_left mult_1_right)
  moreover have "(2 :: nat) ^ (n + 7) = 2 ^ n * 128" by (simp add: power_add)
  ultimately show ?thesis using v by linarith
qed


context byte_source
begin

lemma varint_loop_reads:
  "in_ok content st \<Longrightarrow> v < 2 ^ (7 * k) \<Longrightarrow> k + n = 10 \<Longrightarrow>
   (case split_varint (take n (pending content st)) of
      None \<Rightarrow> fst (varint_loop io st (of_nat v) (of_nat (7 * k))) = None
    | Some (bs, _) \<Rightarrow>
        (\<exists>st'. varint_loop io st (of_nat v) (of_nat (7 * k)) = (Some (of_nat (v + 2 ^ (7 * k) * leb_val bs)), st') \<and>
               advanced content st (length bs) st'))"
proof (induction n arbitrary: st v k)
  case 0
  then have "k = 10" by simp
  then show ?case by (subst varint_loop.simps) simp
next
  case (Suc n)
  then have k: "k \<le> 9" by simp
  then have bp: "unat (of_nat (7 * k) :: u8) = 7 * k" unfolding unat_of_nat_u8 by simp
  then have lt: "\<not> (64 \<le> (of_nat (7 * k) :: u8))" using k by (simp add: word_le_nat_alt)
  show ?case
  proof (cases "pending content st")
    case Nil
    then show ?thesis
      using pb_readbyte_end [OF Suc.prems(1)] lt by (subst varint_loop.simps) simp
  next
    case (Cons b rest)
    obtain st1 where r: "pb_readbyte io st = (Some b, st1)" and a: "advanced content st 1 st1"
        and ok: "in_ok content st1" and p: "pending content st1 = rest"
      using pb_readbyte_reads [OF Suc.prems(1) Cons] by blast
    have acc: "(of_nat v :: u64) OR push_bit (unat (of_nat (7 * k) :: u8)) (ucast (b AND 0x7f))
               = of_nat (v + 2 ^ (7 * k) * (unat b mod 128))"
      unfolding bp using Suc.prems(2) k by (intro or_push_7) simp_all
    have bp': "(of_nat (7 * k) :: u8) + 7 = of_nat (7 * Suc k)" by simp
    have unfold: "varint_loop io st (of_nat v) (of_nat (7 * k))
        = (if b AND 0x80 \<noteq> 0 then varint_loop io st1 (of_nat (v + 2 ^ (7 * k) * (unat b mod 128))) (of_nat (7 * Suc k))
           else (Some (of_nat (v + 2 ^ (7 * k) * (unat b mod 128))), st1))"
      by (subst varint_loop.simps) (simp only: lt r Let_def acc bp' if_False prod.case option.case)
    show ?thesis
    proof (cases "unat b < 128")
      case True
      then have "b AND 0x80 = 0" by (simp add: and_0x80_u8)
      then show ?thesis using True a Cons unfolding unfold by simp
    next
      case False
      then have c: "b AND 0x80 \<noteq> 0" by (simp add: and_0x80_u8)
      have "v + 2 ^ (7 * k) * (unat b mod 128) < 2 ^ (7 * Suc k)"
        using step_bound [OF Suc.prems(2), of "unat b"] by (simp add: algebra_simps)
      note ih = Suc.IH [OF ok this]
      show ?thesis
      proof (cases "split_varint (take n rest)")
        case None
        then show ?thesis using ih Suc.prems(3) False Cons c p unfolding unfold by simp
      next
        case (Some q)
        obtain bs tl' where q: "q = (bs, tl')" by (cases q)
        have val: "v + 2 ^ (7 * k) * (unat b mod 128) + 2 ^ (7 * Suc k) * leb_val bs
                   = v + 2 ^ (7 * k) * leb_val (b # bs)"
          by (simp add: power_add algebra_simps)
        from ih Suc.prems(3) Some p obtain st2 where
          e: "varint_loop io st1 (of_nat (v + 2 ^ (7 * k) * (unat b mod 128))) (of_nat (7 * Suc k))
              = (Some (of_nat (v + 2 ^ (7 * k) * leb_val (b # bs))), st2)" and a2: "advanced content st1 (length bs) st2"
          unfolding q val [symmetric] by auto
        show ?thesis
          using Some q False Cons c e advanced_trans [OF a a2] unfolding unfold
          by (simp del: leb_val.simps of_nat_add of_nat_mult)
      qed
    qed
  qed
qed

lemma pb_decode_varint_reads:
  assumes "in_ok content st"
  shows "case split_varint (take 10 (pending content st)) of
      None \<Rightarrow> fst (pb_decode_varint io st) = None
    | Some (bs, _) \<Rightarrow> (\<exists>st'. pb_decode_varint io st = (Some (of_nat (leb_val bs)), st') \<and> advanced content st (length bs) st')"
  using varint_loop_reads [OF assms, of 0 0 10]
  by (cases "split_varint (take 10 (pending content st))") (auto simp: pb_decode_varint_def)

end

section \<open>32-bit varints\<close>

lemma split_varintD:
  "split_varint p = Some (bs, r) \<Longrightarrow>
   \<exists>xs l. bs = xs @ [l] \<and> p = xs @ l # r \<and> (\<forall>b\<in>set xs. 128 \<le> unat b) \<and> unat l < 128"
proof (induction p arbitrary: bs)
  case (Cons b p)
  show ?case
  proof (cases "unat b < 128")
    case True
    then show ?thesis using Cons.prems by (intro exI [of _ "[]"] exI [of _ b]) simp
  next
    case False
    with Cons.prems obtain v where v: "split_varint p = Some (v, r)" "bs = b # v"
      by (auto split: option.splits)
    from Cons.IH [OF v(1)] obtain xs l where
      "v = xs @ [l]" "p = xs @ l # r" "\<forall>b\<in>set xs. 128 \<le> unat b" "unat l < 128" by blast
    then show ?thesis using v(2) False by (intro exI [of _ "b # xs"] exI [of _ l]) simp
  qed
qed simp

lemma leb_val_append: "leb_val (xs @ ys) = leb_val xs + 128 ^ length xs * leb_val ys"
  by (induction xs) (simp_all add: algebra_simps)

lemma and_0x70: "unat l < 128 \<Longrightarrow> (l AND 0x70 = 0) = (unat l < 16)" for l :: u8
proof -
  assume l: "unat l < 128"
  have m: "(0x70 :: u8) = push_bit 4 (mask 3)" by (simp add: mask_eq_exp_minus_1 push_bit_eq_mult)
  have "l AND 0x70 = push_bit 4 (drop_bit 4 l AND mask 3)"
    unfolding m by (rule bit_eqI) (auto simp: bit_simps)
  moreover have "unat (drop_bit 4 l AND mask 3) = unat l div 16"
  proof -
    have "unat (drop_bit 4 l) = unat l div 2 ^ 4" by (simp only: unat_drop_bit_eq) (simp only: drop_bit_eq_div)
    then show ?thesis using l by (simp only: unat_and_mask) simp
  qed
  ultimately have "unat (l AND 0x70) = unat l div 16 * 16"
    using l by (simp add: push_bit_eq_mult unat_word_ariths mod_less)
  then have "(unat (l AND 0x70) = 0) = (unat l < 16)" by (simp add: div_eq_0_iff)
  then show ?thesis by (simp only: unsigned_eq_0_iff)
qed

lemma ucast_and_0x7f: "(ucast ((b :: u8) AND 0x7f) :: 'a::len word) = of_nat (unat b mod 128)"
  by (metis unat_and_0x7f of_nat_unat)

lemma continue_iff: "((b :: u8) AND 0x80 \<noteq> 0) = (128 \<le> unat b)"
  by (simp add: and_0x80_u8 not_less)

context byte_source
begin

lemma varint32_low:
  assumes ok: "in_ok content st" and v: "v < 2 ^ (7 * k)" and k: "k \<le> 4" and p: "pending content st = b # rest"
  shows "\<exists>st1. advanced content st 1 st1 \<and> in_ok content st1 \<and> pending content st1 = rest \<and>
     varint32_loop io st (of_nat v) (of_nat (7 * k))
     = (if 128 \<le> unat b
        then varint32_loop io st1 (of_nat (v + 2 ^ (7 * k) * (unat b mod 128))) (of_nat (7 * Suc k))
        else (Some (of_nat (v + 2 ^ (7 * k) * (unat b mod 128)), b, of_nat (7 * Suc k)), st1))"
proof -
  obtain st1 where r: "pb_readbyte io st = (Some b, st1)" and a: "advanced content st 1 st1"
      and ok1: "in_ok content st1" and p1: "pending content st1 = rest"
    using pb_readbyte_reads [OF ok p] by blast
  have bp: "unat (of_nat (7 * k) :: u8) = 7 * k" using k unfolding unat_of_nat_u8 by simp
  then have lt: "(32 \<le> (of_nat (7 * k) :: u8)) = False" using k by (simp add: word_le_nat_alt)
  have acc: "(of_nat v :: u32) OR push_bit (unat (of_nat (7 * k) :: u8)) (ucast (b AND 0x7f))
             = of_nat (v + 2 ^ (7 * k) * (unat b mod 128))"
    unfolding bp using v k by (intro or_push_7) simp_all
  have bp': "(of_nat (7 * k) :: u8) + 7 = of_nat (7 * Suc k)" by simp
  have "varint32_loop io st (of_nat v) (of_nat (7 * k))
     = (if 128 \<le> unat b
        then varint32_loop io st1 (of_nat (v + 2 ^ (7 * k) * (unat b mod 128))) (of_nat (7 * Suc k))
        else (Some (of_nat (v + 2 ^ (7 * k) * (unat b mod 128)), b, of_nat (7 * Suc k)), st1))"
    by (subst varint32_loop.simps)
       (simp only: lt r Let_def acc bp' if_False prod.case option.case simp_thms continue_iff)
  then show ?thesis using a ok1 p1 by blast
qed

lemma varint32_continue:
  "in_ok content st \<Longrightarrow> v < 2 ^ (7 * k) \<Longrightarrow> k + length xs \<le> 5 \<Longrightarrow> pending content st = xs @ rest \<Longrightarrow>
   \<forall>b\<in>set xs. 128 \<le> unat b \<Longrightarrow>
   \<exists>st1. advanced content st (length xs) st1 \<and> in_ok content st1 \<and> pending content st1 = rest \<and>
     v + 2 ^ (7 * k) * leb_val xs < 2 ^ (7 * (k + length xs)) \<and>
     varint32_loop io st (of_nat v) (of_nat (7 * k))
     = varint32_loop io st1 (of_nat (v + 2 ^ (7 * k) * leb_val xs)) (of_nat (7 * (k + length xs)))"
proof (induction xs arbitrary: st v k)
  case Nil
  then show ?case by (intro exI [of _ st]) simp
next
  case (Cons b xs)
  have b: "128 \<le> unat b" using Cons.prems(5) by simp
  have k: "k \<le> 4" using Cons.prems(3) by simp
  obtain st1 where a: "advanced content st 1 st1" and ok: "in_ok content st1" and p: "pending content st1 = xs @ rest"
    and e: "varint32_loop io st (of_nat v) (of_nat (7 * k))
      = varint32_loop io st1 (of_nat (v + 2 ^ (7 * k) * (unat b mod 128))) (of_nat (7 * Suc k))"
    using varint32_low [OF Cons.prems(1,2) k, of b "xs @ rest"] b Cons.prems(4) by auto
  have bound: "v + 2 ^ (7 * k) * (unat b mod 128) < 2 ^ (7 * Suc k)"
    using step_bound [OF Cons.prems(2), of "unat b"] by (simp add: algebra_simps)
  have val: "v + 2 ^ (7 * k) * (unat b mod 128) + 2 ^ (7 * Suc k) * leb_val xs = v + 2 ^ (7 * k) * leb_val (b # xs)"
    by (simp add: power_add algebra_simps)
  from Cons.IH [OF ok bound _ p] Cons.prems(3,5) obtain st2 where
    a2: "advanced content st1 (length xs) st2" and l: "in_ok content st2" "pending content st2 = rest"
      "v + 2 ^ (7 * k) * leb_val (b # xs) < 2 ^ (7 * (Suc k + length xs))"
      "varint32_loop io st1 (of_nat (v + 2 ^ (7 * k) * (unat b mod 128))) (of_nat (7 * Suc k))
       = varint32_loop io st2 (of_nat (v + 2 ^ (7 * k) * leb_val (b # xs))) (of_nat (7 * (Suc k + length xs)))"
    unfolding val by auto
  have "advanced content st (length (b # xs)) st2" using advanced_trans [OF a a2] by simp
  then show ?case using l e by (intro exI [of _ st2]) (simp add: algebra_simps)
qed

text \<open>Up to five bytes: exactly the values below \<open>2 ^ 32\<close>.\<close>

lemma varint32_eof_short:
  assumes ok: "in_ok content st" and s: "split_varint (pending content st) = Some (bs, rest)" and len: "length bs \<le> 5"
  shows "if leb_val bs < 2 ^ 32
         then (\<exists>st'. pb_decode_varint32_eof io st = (Some (of_nat (leb_val bs)), False, st') \<and> advanced content st (length bs) st')
         else fst (pb_decode_varint32_eof io st) = None"
proof -
  from split_varintD [OF s] obtain xs l where bs: "bs = xs @ [l]" and p: "pending content st = xs @ l # rest"
    and xs: "\<forall>b\<in>set xs. 128 \<le> unat b" and l: "unat l < 128" by blast
  show ?thesis
  proof (cases xs)
    case Nil
    then have "pending content st = l # rest" using p by simp
    from pb_readbyte_reads [OF ok this] obtain st1 where "pb_readbyte io st = (Some l, st1)" "advanced content st 1 st1"
      by blast
    moreover have "l AND 0x80 = 0" "leb_val bs = unat l" using l bs Nil by (simp_all add: and_0x80_u8)
    ultimately show ?thesis using l bs Nil by (simp add: pb_decode_varint32_eof_def)
  next
    case (Cons b ys)
    have p': "pending content st = b # ys @ l # rest" using p Cons by simp
    from pb_readbyte_reads [OF ok this] obtain st1 where r: "pb_readbyte io st = (Some b, st1)"
      and a1: "advanced content st 1 st1" and ok1: "in_ok content st1" and p1: "pending content st1 = ys @ l # rest"
      by blast
    have b: "b AND 0x80 \<noteq> 0" using xs Cons by (simp add: continue_iff)
    have v: "unat b mod 128 < 2 ^ (7 * 1)" by simp
    have ys: "\<forall>b\<in>set ys. 128 \<le> unat b" "1 + length ys \<le> 5" using xs Cons len bs by simp_all
    from varint32_continue [OF ok1 v ys(2) p1 ys(1)] obtain st2 where
      a2: "advanced content st1 (length ys) st2" and ok2: "in_ok content st2" and p2: "pending content st2 = l # rest"
      and bd: "unat b mod 128 + 2 ^ (7 * 1) * leb_val ys < 2 ^ (7 * (1 + length ys))"
      and e: "varint32_loop io st1 (of_nat (unat b mod 128)) (of_nat (7 * 1))
        = varint32_loop io st2 (of_nat (unat b mod 128 + 2 ^ (7 * 1) * leb_val ys)) (of_nat (7 * (1 + length ys)))"
      by blast
    have k: "1 + length ys \<le> 4" using len bs Cons by simp
    from varint32_low [OF ok2 bd k p2] l obtain st3 where a3: "advanced content st2 1 st3"
      and f: "varint32_loop io st2 (of_nat (unat b mod 128 + 2 ^ (7 * 1) * leb_val ys)) (of_nat (7 * (1 + length ys)))
        = (Some (of_nat (unat b mod 128 + 2 ^ (7 * 1) * leb_val ys + 2 ^ (7 * (1 + length ys)) * (unat l mod 128)), l,
                 of_nat (7 * Suc (1 + length ys))), st3)"
      by auto
    have p128: "(2 :: nat) ^ (7 * n) = 128 ^ n" for n by (simp add: power_mult)
    have val: "unat b mod 128 + 2 ^ (7 * 1) * leb_val ys + 2 ^ (7 * (1 + length ys)) * (unat l mod 128) = leb_val bs"
      unfolding bs Cons p128 leb_val_append by (simp add: leb_val_append algebra_simps)
    have adv: "advanced content st (length bs) st3"
      using advanced_trans [OF advanced_trans [OF a1 a2] a3] bs Cons by simp
    have bp: "((of_nat (7 * Suc (1 + length ys)) :: u8) = 35) = (length bs = 5)"
    proof -
      have "unat (of_nat (7 * Suc (1 + length ys)) :: u8) = 7 * length bs"
        unfolding unat_of_nat_u8 using len bs Cons by simp
      then show ?thesis by (simp only: word_unat_eq_iff) simp
    qed
    have "(of_nat (7 * 1) :: u8) = 7" by simp
    then have res: "pb_decode_varint32_eof io st
      = (if length bs = 5 \<and> l AND 0x70 \<noteq> 0 then (None, False, in_error ''varint overflow'' st3)
         else (Some (of_nat (leb_val bs)), False, st3))"
      unfolding pb_decode_varint32_eof_def r using b e f val bp ucast_and_0x7f [of b, where 'a = 32]
      by (simp only: prod.case option.case if_False)
    have lv: "leb_val bs = leb_val xs + 128 ^ length xs * unat l" using bs l by (simp add: leb_val_append)
    show ?thesis
    proof (cases "length bs = 5")
      case True
      then have four: "length xs = 4" using bs by simp
      then have "leb_val xs < 268435456" using leb_val_less [of xs] by simp
      moreover have "leb_val bs = leb_val xs + 268435456 * unat l" using lv four by simp
      ultimately have "(leb_val bs < 2 ^ 32) = (unat l < 16)" by auto
      then show ?thesis using res adv True and_0x70 [OF l] by auto
    next
      case False
      then have "length bs \<le> 4" using len by simp
      then have "(128 :: nat) ^ length bs \<le> 128 ^ 4" by (intro power_increasing) simp_all
      then have "leb_val bs < 2 ^ 32" using leb_val_less [of bs] by simp
      then show ?thesis using res adv False by simp
    qed
  qed
qed

end

end
