(* ===== verification/PbOut.thy ===== *)
theory PbOut
  imports PbWire
begin

text \<open>
  nanopb \<^verbatim>\<open>pb_encode.c\<close>, part 1: output streams and the encoding of wire primitives, and the callbacks that
  Firestore's writers give to nanopb.

  As for input, \<open>callback\<close> and \<open>state\<close> are one member: \<open>Sizing\<close> for a NULL callback, \<open>Buf_write\<close> with the
  destination object and the position of \<open>state\<close> in it, or \<open>User\<close> with the state of an application's callback,
  the parameter \<open>io\<close>.
\<close>

section \<open>Streams\<close>

datatype 's sink = Sizing | Buf_write bytes nat | User_sink 's

record 's pb_ostream =
  sink :: "'s sink"
  max_size :: nat
  bytes_written :: nat
  out_errmsg :: "string option"

type_synonym 's write_cb = "'s \<Rightarrow> bytes \<Rightarrow> bool \<times> 's"

type_synonym 's writer = "'s pb_ostream \<Rightarrow> bool \<times> 's pb_ostream"

definition out_error :: "string \<Rightarrow> 's pb_ostream \<Rightarrow> 's pb_ostream" where
  "out_error msg st = st\<lparr>out_errmsg := (case out_errmsg st of None \<Rightarrow> Some msg | Some e \<Rightarrow> Some e)\<rparr>"

abbreviation PB_OSTREAM_SIZING :: "'s pb_ostream" where
  "PB_OSTREAM_SIZING \<equiv> \<lparr>sink = Sizing, max_size = 0, bytes_written = 0, out_errmsg = None\<rparr>"

definition buf_write :: "bytes \<Rightarrow> nat \<Rightarrow> bytes \<Rightarrow> bytes \<times> nat" where
  "buf_write dest pos buf = (write_at dest pos buf, pos + length buf)"

definition pb_ostream_from_buffer :: "bytes \<Rightarrow> nat \<Rightarrow> 's pb_ostream" where
  "pb_ostream_from_buffer buf bufsize =
     \<lparr>sink = Buf_write buf 0, max_size = bufsize, bytes_written = 0, out_errmsg = None\<rparr>"

definition out_callback :: "'s write_cb \<Rightarrow> 's sink \<Rightarrow> bytes \<Rightarrow> bool \<times> 's sink" where
  "out_callback io snk buf =
     (case snk of
        Sizing \<Rightarrow> (False, Sizing)
      | Buf_write dest pos \<Rightarrow> (case buf_write dest pos buf of (dest, pos) \<Rightarrow> (True, Buf_write dest pos))
      | User_sink s \<Rightarrow> (case io s buf of (ok, s) \<Rightarrow> (ok, User_sink s)))"

text \<open>\<open>buf = None\<close> is the NULL that sizing streams are given; \<open>count\<close> bytes of \<open>buf\<close> are written.\<close>

definition pb_write :: "'s write_cb \<Rightarrow> bytes option \<Rightarrow> nat \<Rightarrow> 's writer" where
  "pb_write io buf count st =
     (if count > 0 \<and> sink st \<noteq> Sizing then
        (if (bytes_written st + count) mod 2 ^ 64 > max_size st then (False, out_error ''stream full'' st)
         else case out_callback io (sink st) (take count (case buf of None \<Rightarrow> [] | Some b \<Rightarrow> b)) of
                (False, snk) \<Rightarrow> (False, out_error ''io error'' (st\<lparr>sink := snk\<rparr>))
              | (True, snk) \<Rightarrow> (True, st\<lparr>sink := snk, bytes_written := (bytes_written st + count) mod 2 ^ 64\<rparr>))
      else (True, st\<lparr>bytes_written := (bytes_written st + count) mod 2 ^ 64\<rparr>))"

section \<open>Wire primitives\<close>

function enc_varint_loop :: "u64 \<Rightarrow> bytes" where
  "enc_varint_loop value =
     (if value = 0 then [] else ucast ((value AND 0x7f) OR 0x80) # enc_varint_loop (drop_bit 7 value))"
  by pat_completeness auto

lemma unat_drop_seven: "unat (drop_bit 7 (v :: 'a::len word)) = unat v div 128"
proof -
  have "unat (drop_bit 7 v) = unat v div 2 ^ 7" by (simp only: unat_drop_bit_eq) (simp only: drop_bit_eq_div)
  then show ?thesis by simp
qed

termination enc_varint_loop
proof (relation "measure unat", goal_cases)
  case (2 v)
  then have "0 < unat v" by (simp add: unsigned_eq_0_iff zero_less_iff_neq_zero)
  then show ?case by (simp add: unat_drop_seven)
qed simp

declare enc_varint_loop.simps [simp del]

definition pb_encode_varint :: "'s write_cb \<Rightarrow> u64 \<Rightarrow> 's writer" where
  "pb_encode_varint io value st =
     (if value \<le> 0x7f then pb_write io (Some [ucast value]) 1 st
      else
        (let buffer = enc_varint_loop value;
             i = length buffer;
             buffer = buffer[i - 1 := buffer ! (i - 1) AND 0x7f]
         in pb_write io (Some buffer) i st))"

text \<open>The argument is the \<^verbatim>\<open>int64_t\<close> as a word.\<close>

definition pb_encode_svarint :: "'s write_cb \<Rightarrow> u64 \<Rightarrow> 's writer" where
  "pb_encode_svarint io value st =
     pb_encode_varint io (if sint value < 0 then NOT (push_bit 1 value) else push_bit 1 value) st"

definition pb_encode_fixed32 :: "'s write_cb \<Rightarrow> u32 \<Rightarrow> 's writer" where
  "pb_encode_fixed32 io val st =
     pb_write io (Some [ucast (val AND 0xff), ucast (drop_bit 8 val AND 0xff), ucast (drop_bit 16 val AND 0xff),
                        ucast (drop_bit 24 val AND 0xff)]) 4 st"

definition pb_encode_fixed64 :: "'s write_cb \<Rightarrow> u64 \<Rightarrow> 's writer" where
  "pb_encode_fixed64 io val st =
     pb_write io (Some [ucast (val AND 0xff), ucast (drop_bit 8 val AND 0xff), ucast (drop_bit 16 val AND 0xff),
                        ucast (drop_bit 24 val AND 0xff), ucast (drop_bit 32 val AND 0xff),
                        ucast (drop_bit 40 val AND 0xff), ucast (drop_bit 48 val AND 0xff),
                        ucast (drop_bit 56 val AND 0xff)]) 8 st"

definition pb_encode_tag :: "'s write_cb \<Rightarrow> nat \<Rightarrow> u32 \<Rightarrow> 's writer" where
  "pb_encode_tag io wiretype field_number st =
     pb_encode_varint io (push_bit 3 (ucast field_number) OR of_nat wiretype) st"

definition pb_encode_string :: "'s write_cb \<Rightarrow> bytes option \<Rightarrow> nat \<Rightarrow> 's writer" where
  "pb_encode_string io buffer size' st =
     (case pb_encode_varint io (of_nat size') st of
        (False, st) \<Rightarrow> (False, st)
      | (True, st) \<Rightarrow> pb_write io buffer size' st)"

section \<open>The callbacks of Firestore's writers\<close>

definition AppendToString :: "bytes write_cb" where
  "AppendToString str buf = (True, str @ buf)"

text \<open>The slices of a gRPC byte buffer.\<close>

definition AppendToGrpcBuffer :: "bytes list write_cb" where
  "AppendToGrpcBuffer buffer buf = (True, buffer @ [buf])"

section \<open>Streams as byte strings\<close>

text \<open>The interface of an output callback: it appends to a log of its state. Firestore's callbacks are such.\<close>

locale byte_sink =
  fixes io :: "'s write_cb" and log :: "'s \<Rightarrow> bytes"
  assumes io_writes: "\<exists>s'. io s bs = (True, s') \<and> log s' = log s @ bs"

interpretation string_writer: byte_sink AppendToString "\<lambda>str. str"
  by unfold_locales (simp add: AppendToString_def)

interpretation grpc_writer: byte_sink AppendToGrpcBuffer concat
  by unfold_locales (simp add: AppendToGrpcBuffer_def)

fun sink_bytes :: "('s \<Rightarrow> bytes) \<Rightarrow> 's sink \<Rightarrow> bytes" where
  "sink_bytes log Sizing = []"
| "sink_bytes log (Buf_write dest pos) = take pos dest"
| "sink_bytes log (User_sink s) = log s"

fun same_sink :: "'s sink \<Rightarrow> 's sink \<Rightarrow> bool" where
  "same_sink Sizing snk = (snk = Sizing)"
| "same_sink (Buf_write dest pos) (Buf_write dest' pos') =
     (length dest' = length dest \<and> pos \<le> pos' \<and> drop pos' dest' = drop pos' dest)"
| "same_sink (User_sink s) (User_sink s') = True"
| "same_sink _ _ = False"

text \<open>The stream has the room it records, and the room for \<open>n\<close> bytes.\<close>

definition out_ok :: "'s pb_ostream \<Rightarrow> bool" where
  "out_ok st \<longleftrightarrow> max_size st < 2 ^ 64 \<and>
     (case sink st of Buf_write dest pos \<Rightarrow> pos + (max_size st - bytes_written st) \<le> length dest | _ \<Rightarrow> True)"

definition out_room :: "'s pb_ostream \<Rightarrow> nat \<Rightarrow> bool" where
  "out_room st n \<longleftrightarrow> (if sink st = Sizing then bytes_written st + n < 2 ^ 64 else bytes_written st + n \<le> max_size st)"

text \<open>\<open>st'\<close> is \<open>st\<close> after \<open>bs\<close> was written.\<close>

definition emitted :: "('s \<Rightarrow> bytes) \<Rightarrow> 's pb_ostream \<Rightarrow> bytes \<Rightarrow> 's pb_ostream \<Rightarrow> bool" where
  "emitted log st bs st' \<longleftrightarrow>
     same_sink (sink st) (sink st') \<and> (sink st \<noteq> Sizing \<longrightarrow> sink_bytes log (sink st') = sink_bytes log (sink st) @ bs) \<and>
     bytes_written st' = bytes_written st + length bs \<and> max_size st' = max_size st \<and> out_errmsg st' = out_errmsg st"

definition emits :: "('s \<Rightarrow> bytes) \<Rightarrow> 's writer \<Rightarrow> bytes \<Rightarrow> bool" where
  "emits log f bs \<longleftrightarrow>
     (\<forall>st. out_ok st \<longrightarrow> out_room st (length bs) \<longrightarrow> (\<exists>st'. f st = (True, st') \<and> emitted log st bs st' \<and> out_ok st'))"

lemma same_sink_Sizing: "same_sink a b \<Longrightarrow> (b = Sizing) = (a = Sizing)"
  by (cases a; cases b) auto

lemma same_sink_trans: "same_sink a b \<Longrightarrow> same_sink b c \<Longrightarrow> same_sink a c"
proof (cases a)
  case (Buf_write dest pos)
  moreover assume "same_sink a b" "same_sink b c"
  ultimately show ?thesis
    by (cases b; cases c) (simp_all, metis drop_drop le_add_diff_inverse2)
qed (cases b; cases c; auto)+

lemma emitted_trans: "emitted log st bs st1 \<Longrightarrow> emitted log st1 cs st2 \<Longrightarrow> emitted log st (bs @ cs) st2"
  using same_sink_trans [of "sink st" "sink st1" "sink st2"] same_sink_Sizing [of "sink st" "sink st1"]
  by (simp add: emitted_def)

lemma emits_then:
  assumes f: "emits log f bs" and g: "emits log g cs"
  shows "emits log (\<lambda>st. case f st of (False, st) \<Rightarrow> (False, st) | (True, st) \<Rightarrow> g st) (bs @ cs)"
  unfolding emits_def
proof (intro allI impI)
  fix st :: "'a pb_ostream" assume ok: "out_ok st" and room: "out_room st (length (bs @ cs))"
  then have "out_room st (length bs)" by (auto simp: out_room_def split: if_splits)
  with f ok obtain st1 where r: "f st = (True, st1)" and e: "emitted log st bs st1" and ok1: "out_ok st1"
    unfolding emits_def by blast
  have "out_room st1 (length cs)"
    using room e same_sink_Sizing [of "sink st" "sink st1"]
    by (auto simp: out_room_def emitted_def add.assoc split: if_splits)
  with g ok1 obtain st2 where "g st1 = (True, st2)" "emitted log st1 cs st2" "out_ok st2"
    unfolding emits_def by blast
  then show "\<exists>st'. (case f st of (False, st) \<Rightarrow> (False, st) | (True, st) \<Rightarrow> g st) = (True, st') \<and>
                   emitted log st (bs @ cs) st' \<and> out_ok st'"
    using r emitted_trans [OF e] by auto
qed

context byte_sink
begin

lemma pb_write_emits: "emits log (pb_write io (Some bs) (length bs)) bs"
  unfolding emits_def
proof (intro allI impI)
  fix st :: "'s pb_ostream" assume ok: "out_ok st" and room: "out_room st (length bs)"
  have small: "bytes_written st + length bs < 2 ^ 64"
    using ok room by (auto simp: out_room_def out_ok_def split: if_splits)
  then have n: "(bytes_written st + length bs) mod 2 ^ 64 = bytes_written st + length bs" by simp
  show "\<exists>st'. pb_write io (Some bs) (length bs) st = (True, st') \<and> emitted log st bs st' \<and> out_ok st'"
  proof (cases "bs = [] \<or> sink st = Sizing")
    case True
    then have "pb_write io (Some bs) (length bs) st = (True, st\<lparr>bytes_written := bytes_written st + length bs\<rparr>)"
      by (auto simp: pb_write_def n [simplified])
    moreover have "same_sink (sink st) (sink st)" by (cases "sink st") simp_all
    ultimately show ?thesis using True ok by (auto simp: emitted_def out_ok_def split: sink.splits)
  next
    case False
    then have le: "bytes_written st + length bs \<le> max_size st" using room by (simp add: out_room_def)
    then have w: "pb_write io (Some bs) (length bs) st
        = (case out_callback io (sink st) bs of
             (False, snk) \<Rightarrow> (False, out_error ''io error'' (st\<lparr>sink := snk\<rparr>))
           | (True, snk) \<Rightarrow> (True, st\<lparr>sink := snk, bytes_written := bytes_written st + length bs\<rparr>))"
      unfolding pb_write_def n using False by simp
    show ?thesis
    proof (cases "sink st")
      case (Buf_write dest pos)
      then have "pos + (max_size st - bytes_written st) \<le> length dest" using ok unfolding out_ok_def by (simp del: add_diff_assoc)
      then have room': "pos + length bs \<le> length dest" using le by linarith
      then show ?thesis
        unfolding w using Buf_write ok le
        by (simp add: out_callback_def buf_write_def emitted_def out_ok_def take_write_at_end)
           (simp add: write_at_def)
    next
      case (User_sink s)
      obtain s' where "io s bs = (True, s')" "log s' = log s @ bs" using io_writes [of s bs] by blast
      then show ?thesis unfolding w using User_sink ok by (simp add: out_callback_def emitted_def out_ok_def)
    qed (use False in simp)
  qed
qed

end

subsection \<open>Varints\<close>

lemma unat_or_0x80: "unat ((w AND 0x7f) OR 0x80 :: u8) = unat w mod 128 + 128"
proof -
  have "(0x80 :: u8) = push_bit 7 1" by simp
  moreover have "unat (w AND 0x7f) < 2 ^ 7" by (simp add: unat_and_0x7f)
  ultimately have "(w AND 0x7f) OR 0x80 = 0x80 + (w AND 0x7f)"
    using push_bit_or_eq [of "w AND 0x7f" 7 1] by (simp add: or.commute)
  then show ?thesis using unat_and_0x7f [of w] by (simp add: unat_word_ariths mod_less)
qed

lemma ucast_low_byte: "ucast ((v AND 0x7f) OR 0x80 :: u64) = (of_nat (unat v mod 128 + 128) :: u8)"
proof -
  have "ucast ((v AND 0x7f) OR 0x80 :: u64) = ((ucast v AND 0x7f) OR 0x80 :: u8)"
    by (rule bit_eqI) (auto simp: bit_simps bit_ucast_iff)
  also have "\<dots> = of_nat (unat ((ucast v AND 0x7f) OR 0x80 :: u8))" by simp
  also have "unat ((ucast v AND 0x7f) OR 0x80 :: u8) = unat v mod 128 + 128"
    unfolding unat_or_0x80 by (simp add: unat_ucast mod_mod_cancel)
  finally show ?thesis .
qed

lemma enc_varint_loop_eq:
  "v \<noteq> 0 \<Longrightarrow> \<exists>xs l. enc_varint_loop v = xs @ [l] \<and> leb_enc (unat v) = xs @ [l AND 0x7f]"
proof (induction v rule: enc_varint_loop.induct)
  case (1 v)
  define w where "w = drop_bit 7 v"
  have d: "unat w = unat v div 128" unfolding w_def by (rule unat_drop_seven)
  have e: "enc_varint_loop v = of_nat (unat v mod 128 + 128) # enc_varint_loop w"
    using 1(2) by (subst enc_varint_loop.simps) (simp only: ucast_low_byte w_def if_False)
  have low: "(of_nat (m + 128) :: u8) AND 0x7f = of_nat m" if "m < 128" for m
    using that by (intro word_unat_eq_iff [THEN iffD2])
       (simp add: unat_and_0x7f unat_of_nat_u8 mod_mod_cancel del: of_nat_add)
  show ?case
  proof (cases "w = 0")
    case True
    then have small: "unat v < 128" using d by (simp add: div_eq_0_iff)
    have "enc_varint_loop w = []" using True by (simp add: enc_varint_loop.simps)
    then show ?thesis
      using e small low [OF small] by (intro exI [of _ "[]"]) (simp add: leb_enc.simps [of "unat v"] del: of_nat_add)
  next
    case False
    then have "0 < unat v div 128" using d by (metis unsigned_eq_0_iff gr0I)
    then have big: "\<not> unat v < 128" by (simp add: div_greater_zero_iff)
    from 1(1) [OF 1(2)] False obtain xs l where
      "enc_varint_loop w = xs @ [l]" "leb_enc (unat w) = xs @ [l AND 0x7f]"
      unfolding w_def by blast
    then show ?thesis
      using e big d by (intro exI [of _ "of_nat (unat v mod 128 + 128) # xs"] exI [of _ l])
         (simp add: leb_enc.simps [of "unat v"] del: of_nat_add)
  qed
qed

lemma pb_encode_varint_eq:
  "pb_encode_varint io v = pb_write io (Some (leb_enc (unat v))) (length (leb_enc (unat v)))"
proof
  fix st
  show "pb_encode_varint io v st = pb_write io (Some (leb_enc (unat v))) (length (leb_enc (unat v))) st"
  proof (cases "v \<le> 0x7f")
    case True
    then have "unat v < 128" by (simp add: word_le_nat_alt)
    then have "leb_enc (unat v) = [ucast v]" by (simp add: leb_enc.simps [of "unat v"] of_nat_unat)
    then show ?thesis using True by (simp add: pb_encode_varint_def)
  next
    case False
    then have "v \<noteq> 0" by auto
    from enc_varint_loop_eq [OF this] obtain xs l where
      e: "enc_varint_loop v = xs @ [l]" "leb_enc (unat v) = xs @ [l AND 0x7f]" by blast
    then show ?thesis using False by (simp add: pb_encode_varint_def Let_def)
  qed
qed

context byte_sink
begin

lemma pb_encode_varint_emits: "emits log (pb_encode_varint io v) (leb_enc (unat v))"
  unfolding pb_encode_varint_eq by (rule pb_write_emits)

end

end
