(* ===== verification/PbCodec.thy ===== *)
theory PbCodec
  imports PbOut
begin

text \<open>
  The two halves of nanopb's wire format together: what the encoder of \<open>PbOut\<close> writes is what the decoder of
  \<open>PbStream\<close> reads, skips and delimits. The pairs of operations are stated once as a locale and interpreted for
  every kind of value; a wire field, tag and value, is the largest of them.
\<close>

section \<open>The codec interface\<close>

locale pb_codec =
  fixes put :: "'a \<Rightarrow> 's writer" and get :: "'t pb_istream \<Rightarrow> 'a option \<times> 't pb_istream"
    and enc :: "'a \<Rightarrow> bytes" and encodable :: "'a \<Rightarrow> bool"
    and log :: "'s \<Rightarrow> bytes" and content :: "'t \<Rightarrow> bytes"
  assumes put_emits: "encodable x \<Longrightarrow> emits log (put x) (enc x)"
    and get_enc: "encodable x \<Longrightarrow> in_ok content st \<Longrightarrow> pending content st = enc x @ rest \<Longrightarrow>
        \<exists>st'. get st = (Some x, st') \<and> advanced content st (length (enc x)) st'"

text \<open>Writing and reading a sequence, stopping at the first failure.\<close>

fun pb_put_all :: "('a \<Rightarrow> 's writer) \<Rightarrow> 'a list \<Rightarrow> 's writer" where
  "pb_put_all put [] st = (True, st)"
| "pb_put_all put (x # xs) st = (case put x st of (False, st) \<Rightarrow> (False, st) | (True, st) \<Rightarrow> pb_put_all put xs st)"

fun pb_get_all :: "('t pb_istream \<Rightarrow> 'a option \<times> 't pb_istream) \<Rightarrow> nat \<Rightarrow> 't pb_istream \<Rightarrow> 'a list option \<times> 't pb_istream" where
  "pb_get_all get 0 st = (Some [], st)"
| "pb_get_all get (Suc n) st =
     (case get st of
        (None, st) \<Rightarrow> (None, st)
      | (Some x, st) \<Rightarrow>
          (case pb_get_all get n st of (None, st) \<Rightarrow> (None, st) | (Some xs, st) \<Rightarrow> (Some (x # xs), st)))"

lemma same_sink_refl: "same_sink snk snk"
  by (cases snk) simp_all

context pb_codec
begin

lemma put_all_emits: "\<forall>x\<in>set xs. encodable x \<Longrightarrow> emits log (pb_put_all put xs) (concat (map enc xs))"
proof (induction xs)
  case Nil
  show ?case
    using same_sink_refl by (auto simp: emits_def emitted_def)
next
  case (Cons x xs)
  then show ?case
    using emits_then [OF put_emits [of x] Cons.IH] by (simp add: fun_eq_iff [symmetric])
qed

lemma get_all_enc:
  "\<forall>x\<in>set xs. encodable x \<Longrightarrow> in_ok content st \<Longrightarrow> pending content st = concat (map enc xs) @ rest \<Longrightarrow>
   \<exists>st'. pb_get_all get (length xs) st = (Some xs, st') \<and> advanced content st (length (concat (map enc xs))) st'"
proof (induction xs arbitrary: st)
  case (Cons x xs)
  have x: "encodable x" "pending content st = enc x @ concat (map enc xs) @ rest" using Cons.prems by simp_all
  from get_enc [OF x(1) Cons.prems(2) x(2)] obtain st1 where
    g: "get st = (Some x, st1)" and a: "advanced content st (length (enc x)) st1" by blast
  have "in_ok content st1" "pending content st1 = concat (map enc xs) @ rest"
    using advanced_pending [OF Cons.prems(2) a] x(2) by simp_all
  with Cons obtain st2 where "pb_get_all get (length xs) st1 = (Some xs, st2)"
      "advanced content st1 (length (concat (map enc xs))) st2" by auto
  then show ?case using g advanced_trans [OF a] by auto
qed simp

text \<open>Written one after another into a fixed buffer, read back from it.\<close>

lemma buffer_round_trip:
  assumes xs: "\<forall>x\<in>set xs. encodable x" and fits: "length (concat (map enc xs)) \<le> n" "n \<le> length buf" "n < 2 ^ 64"
  shows "\<exists>dest st'. pb_put_all put xs (pb_ostream_from_buffer buf n) = (True, st') \<and>
           bytes_written st' = length (concat (map enc xs)) \<and>
           sink st' = Buf_write dest (bytes_written st') \<and> length dest = length buf \<and>
           drop (bytes_written st') dest = drop (bytes_written st') buf \<and>
           fst (pb_get_all get (length xs) (pb_istream_from_buffer dest (bytes_written st'))) = Some xs"
proof -
  let ?o = "pb_ostream_from_buffer buf n :: 's pb_ostream"
  let ?bs = "concat (map enc xs)"
  have "out_ok ?o" "out_room ?o (length ?bs)"
    using fits by (simp_all add: out_ok_def out_room_def pb_ostream_from_buffer_def)
  with put_all_emits [OF xs] obtain st' where p: "pb_put_all put xs ?o = (True, st')" and e: "emitted log ?o ?bs st'"
      and ok: "out_ok st'"
    unfolding emits_def by blast
  obtain dest pos where s: "sink st' = Buf_write dest pos" "length dest = length buf" "drop pos dest = drop pos buf"
    using e by (cases "sink st'") (auto simp: emitted_def pb_ostream_from_buffer_def)
  have w: "take pos dest = ?bs" "bytes_written st' = length ?bs"
    using e s by (simp_all add: emitted_def pb_ostream_from_buffer_def)
  have "pos \<le> length dest" using ok s(1) by (simp add: out_ok_def)
  then have pos: "pos = length ?bs" using arg_cong [OF w(1), of length] by (simp add: min_absorb1)
  let ?i = "pb_istream_from_buffer dest pos :: 't pb_istream"
  have "in_ok content ?i" using pos s(2) fits by (simp add: in_ok_def pb_istream_from_buffer_def)
  moreover have "pending content ?i = ?bs @ []" using w(1) by (simp add: pending_def pb_istream_from_buffer_def)
  ultimately obtain si where "pb_get_all get (length xs) ?i = (Some xs, si)"
    using get_all_enc [OF xs] by blast
  then show ?thesis using p w s pos by auto
qed

end

section \<open>Values\<close>

subsection \<open>Varints\<close>

context byte_source
begin

lemma pb_decode_varint_enc:
  assumes "in_ok content st" and "pending content st = leb_enc (unat v) @ rest"
  shows "\<exists>st'. pb_decode_varint io st = (Some v, st') \<and> advanced content st (length (leb_enc (unat v))) st'"
proof -
  let ?bs = "leb_enc (unat v)"
  have "take 10 (pending content st) = ?bs @ take (10 - length ?bs) rest"
    using leb_enc_u64 [of v] by (simp add: assms(2))
  then have "split_varint (take 10 (pending content st)) = Some (?bs, take (10 - length ?bs) rest)"
    using split_varint_enc [of "unat v"] by simp
  then show ?thesis
    using pb_decode_varint_reads [OF assms(1)] split_varint_enc [of "unat v" "[]"] by simp
qed

end

lemma zigzag: "(if z AND 1 \<noteq> 0 then NOT (drop_bit 1 z) else drop_bit 1 z) = v"
  if "z = (if sint v < 0 then NOT (push_bit 1 v) else push_bit 1 v)" for v z :: u64
proof -
  have s: "(sint v < 0) = bit v 63" using bit_last_iff [of v] by simp
  have odd: "(w AND 1 \<noteq> 0) = bit w 0" for w :: u64
    by (simp add: and_one_eq odd_iff_mod_2_eq_one [symmetric] bit_0)
  have p: "bit (push_bit 1 v) m = (m < 64 \<and> 1 \<le> m \<and> bit v (m - 1))" for m
    by (simp only: bit_push_bit_iff) auto
  have d: "bit (drop_bit 1 w) m = bit w (1 + m)" for w :: u64 and m by (simp only: bit_drop_bit_eq o_def)
  show ?thesis
  proof (cases "bit v 63")
    case True
    then have "z = NOT (push_bit 1 v)" using that s by simp
    moreover have "bit (NOT (push_bit 1 v)) 0" by (simp only: bit_not_iff bit_push_bit_iff) simp
    moreover have "NOT (drop_bit 1 (NOT (push_bit 1 v))) = v"
    proof (rule bit_eqI)
      fix n assume "possible_bit TYPE(64 word) n"
      then have "n < 64" by simp
      then show "bit (NOT (drop_bit 1 (NOT (push_bit 1 v)))) n = bit v n"
        unfolding bit_not_iff d p using True by (cases "n = 63") auto
    qed
    ultimately show ?thesis by (simp add: odd)
  next
    case False
    then have "z = push_bit 1 v" using that s by simp
    moreover have "\<not> bit (push_bit 1 v) 0" by (simp only: bit_push_bit_iff) simp
    moreover have "drop_bit 1 (push_bit 1 v) = v"
    proof (rule bit_eqI)
      fix n assume "possible_bit TYPE(64 word) n"
      then have "n < 64" by simp
      then show "bit (drop_bit 1 (push_bit 1 v)) n = bit v n"
        unfolding d p using False by (cases "n = 63") auto
    qed
    ultimately show ?thesis by (simp add: odd)
  qed
qed

definition zigzag_enc :: "u64 \<Rightarrow> u64" where
  "zigzag_enc v = (if sint v < 0 then NOT (push_bit 1 v) else push_bit 1 v)"

lemma pb_decode_svarint_enc:
  assumes "byte_source io content" "in_ok content st" "pending content st = leb_enc (unat (zigzag_enc v)) @ rest"
  shows "\<exists>st'. pb_decode_svarint io st = (Some v, st') \<and> advanced content st (length (leb_enc (unat (zigzag_enc v)))) st'"
  using byte_source.pb_decode_varint_enc [OF assms] zigzag [OF zigzag_enc_def]
  by (auto simp: pb_decode_svarint_def)

lemma pb_encode_svarint_emits:
  "byte_sink io log \<Longrightarrow> emits log (pb_encode_svarint io v) (leb_enc (unat (zigzag_enc v)))"
  using byte_sink.pb_encode_varint_emits [of io log "zigzag_enc v"]
  by (simp add: pb_encode_svarint_def zigzag_enc_def emits_def)

subsection \<open>Fixed-width values\<close>

text \<open>Little-endian.\<close>

definition le_bytes :: "nat \<Rightarrow> nat \<Rightarrow> bytes" where
  "le_bytes n v = rev (be_bytes n v)"

lemma length_le_bytes [simp]: "length (le_bytes n v) = n"
  by (simp add: le_bytes_def)

lemma byte_of_word: "ucast (drop_bit k (v :: 'a::len word) AND 0xff) = (of_nat (unat v div 2 ^ k) :: u8)"
proof -
  have m: "(0xff :: 'a word) = mask 8" by (simp add: mask_eq_exp_minus_1)
  have "ucast (drop_bit k v AND 0xff) = (ucast (drop_bit k v) :: u8)"
    unfolding m by (rule bit_eqI) (auto simp: bit_simps dest: bit_imp_le_length)
  also have "\<dots> = of_nat (unat (drop_bit k v))" by (simp add: of_nat_unat)
  also have "unat (drop_bit k v) = unat v div 2 ^ k" by (simp only: unat_drop_bit_eq) (simp only: drop_bit_eq_div)
  finally show ?thesis .
qed

lemma low_byte_of_word: "ucast ((v :: 'a::len word) AND 0xff) = (of_nat (unat v) :: u8)"
  using byte_of_word [of 0 v] by simp

lemma be_bytes_4: "be_bytes 4 v = [of_nat (v div 2 ^ 24), of_nat (v div 2 ^ 16), of_nat (v div 2 ^ 8), of_nat v]"
proof -
  have "(4 :: nat) = Suc (Suc (Suc (Suc 0)))" by simp
  then show ?thesis by (simp only: be_bytes.simps append.simps) (simp add: div_mult2_eq [symmetric])
qed

lemma be_bytes_8: "be_bytes 8 v =
    [of_nat (v div 2 ^ 56), of_nat (v div 2 ^ 48), of_nat (v div 2 ^ 40), of_nat (v div 2 ^ 32),
     of_nat (v div 2 ^ 24), of_nat (v div 2 ^ 16), of_nat (v div 2 ^ 8), of_nat v]"
proof -
  have "(8 :: nat) = Suc (Suc (Suc (Suc (Suc (Suc (Suc (Suc 0)))))))" by simp
  then show ?thesis by (simp only: be_bytes.simps append.simps) (simp add: div_mult2_eq [symmetric])
qed

lemma fixed32_bytes:
  "[ucast (v AND 0xff), ucast (drop_bit 8 v AND 0xff), ucast (drop_bit 16 v AND 0xff), ucast (drop_bit 24 v AND 0xff)]
   = le_bytes 4 (unat (v :: u32))"
  unfolding le_bytes_def be_bytes_4 byte_of_word by (simp add: low_byte_of_word)

lemma fixed64_bytes:
  "[ucast (v AND 0xff), ucast (drop_bit 8 v AND 0xff), ucast (drop_bit 16 v AND 0xff), ucast (drop_bit 24 v AND 0xff),
    ucast (drop_bit 32 v AND 0xff), ucast (drop_bit 40 v AND 0xff), ucast (drop_bit 48 v AND 0xff),
    ucast (drop_bit 56 v AND 0xff)] = le_bytes 8 (unat (v :: u64))"
  unfolding le_bytes_def be_bytes_8 byte_of_word by (simp add: low_byte_of_word)

lemma join_bytes_32:
  "ucast (ucast (v AND 0xff) :: u8) OR push_bit 8 (ucast (ucast (drop_bit 8 v AND 0xff) :: u8))
   OR push_bit 16 (ucast (ucast (drop_bit 16 v AND 0xff) :: u8))
   OR push_bit 24 (ucast (ucast (drop_bit 24 v AND 0xff) :: u8)) = (v :: u32)"
proof -
  have m: "(0xff :: u32) = mask 8" by (simp add: mask_eq_exp_minus_1)
  show ?thesis
  proof (rule bit_eqI)
    fix n assume "possible_bit TYPE(32 word) n"
    then have n: "n < 32" by simp
    consider "n < 8" | "8 \<le> n" "n < 16" | "16 \<le> n" "n < 24" | "24 \<le> n" by linarith
    then show "bit (ucast (ucast (v AND 0xff) :: u8) OR push_bit 8 (ucast (ucast (drop_bit 8 v AND 0xff) :: u8))
       OR push_bit 16 (ucast (ucast (drop_bit 16 v AND 0xff) :: u8))
       OR push_bit 24 (ucast (ucast (drop_bit 24 v AND 0xff) :: u8)) :: u32) n = bit v n"
      unfolding m using n by cases (auto simp: bit_simps)
  qed
qed

lemma join_bytes_64:
  "ucast (ucast (v AND 0xff) :: u8) OR push_bit 8 (ucast (ucast (drop_bit 8 v AND 0xff) :: u8))
   OR push_bit 16 (ucast (ucast (drop_bit 16 v AND 0xff) :: u8))
   OR push_bit 24 (ucast (ucast (drop_bit 24 v AND 0xff) :: u8))
   OR push_bit 32 (ucast (ucast (drop_bit 32 v AND 0xff) :: u8))
   OR push_bit 40 (ucast (ucast (drop_bit 40 v AND 0xff) :: u8))
   OR push_bit 48 (ucast (ucast (drop_bit 48 v AND 0xff) :: u8))
   OR push_bit 56 (ucast (ucast (drop_bit 56 v AND 0xff) :: u8)) = (v :: u64)"
proof -
  have m: "(0xff :: u64) = mask 8" by (simp add: mask_eq_exp_minus_1)
  have b: "bit (push_bit k (ucast (ucast (drop_bit k v AND 0xff) :: u8) :: u64)) n = (k \<le> n \<and> n < k + 8 \<and> bit v n)"
    if "n < 64" for n k
    unfolding m using that by (auto simp: bit_simps)
  have b0: "bit (ucast (ucast (v AND 0xff) :: u8) :: u64) n = (n < 8 \<and> bit v n)" if "n < 64" for n
    using b [OF that, of 0] by simp
  show ?thesis
  proof (rule bit_eqI)
    fix n assume "possible_bit TYPE(64 word) n"
    then have n: "n < 64" by simp
    show "bit (ucast (ucast (v AND 0xff) :: u8) OR push_bit 8 (ucast (ucast (drop_bit 8 v AND 0xff) :: u8))
       OR push_bit 16 (ucast (ucast (drop_bit 16 v AND 0xff) :: u8))
       OR push_bit 24 (ucast (ucast (drop_bit 24 v AND 0xff) :: u8))
       OR push_bit 32 (ucast (ucast (drop_bit 32 v AND 0xff) :: u8))
       OR push_bit 40 (ucast (ucast (drop_bit 40 v AND 0xff) :: u8))
       OR push_bit 48 (ucast (ucast (drop_bit 48 v AND 0xff) :: u8))
       OR push_bit 56 (ucast (ucast (drop_bit 56 v AND 0xff) :: u8)) :: u64) n = bit v n"
      unfolding bit_or_iff b [OF n] b0 [OF n] using n by auto
  qed
qed

lemma pb_encode_fixed32_emits: "byte_sink io log \<Longrightarrow> emits log (pb_encode_fixed32 io v) (le_bytes 4 (unat v))"
  using byte_sink.pb_write_emits [of io log "le_bytes 4 (unat v)"]
  by (simp add: pb_encode_fixed32_def fixed32_bytes emits_def)

lemma pb_encode_fixed64_emits: "byte_sink io log \<Longrightarrow> emits log (pb_encode_fixed64 io v) (le_bytes 8 (unat v))"
  using byte_sink.pb_write_emits [of io log "le_bytes 8 (unat v)"]
  by (simp add: pb_encode_fixed64_def fixed64_bytes emits_def)

lemma pb_decode_fixed32_enc:
  assumes "byte_source io content" "in_ok content st" "pending content st = le_bytes 4 (unat v) @ rest"
  shows "\<exists>st'. pb_decode_fixed32 io st = (Some v, st') \<and> advanced content st 4 st'"
proof -
  have "4 \<le> bytes_left st" using length_pending [OF assms(2)] assms(3) by simp
  from byte_source.pb_read_reads [OF assms(1,2) this, of False] obtain st' where
    r: "pb_read io st False 4 = (True, le_bytes 4 (unat v), st')" and a: "advanced content st 4 st'"
    using assms(3) by auto
  show ?thesis
    unfolding pb_decode_fixed32_def r fixed32_bytes [symmetric] using a join_bytes_32 [of v] by simp
qed

lemma pb_decode_fixed64_enc:
  assumes "byte_source io content" "in_ok content st" "pending content st = le_bytes 8 (unat v) @ rest"
  shows "\<exists>st'. pb_decode_fixed64 io st = (Some v, st') \<and> advanced content st 8 st'"
proof -
  have "8 \<le> bytes_left st" using length_pending [OF assms(2)] assms(3) by simp
  from byte_source.pb_read_reads [OF assms(1,2) this, of False] obtain st' where
    r: "pb_read io st False 8 = (True, le_bytes 8 (unat v), st')" and a: "advanced content st 8 st'"
    using assms(3) by auto
  show ?thesis
    unfolding pb_decode_fixed64_def r fixed64_bytes [symmetric] using a join_bytes_64 [of v] by simp
qed

subsection \<open>Tags\<close>

lemma unat_tag: "wt < 8 \<Longrightarrow> unat (push_bit 3 (ucast (fn :: u32)) OR of_nat wt :: u64) = 8 * unat fn + wt"
proof -
  assume wt: "wt < 8"
  then have u: "unat (of_nat wt :: u64) = wt" by (simp add: unat_of_nat)
  have "(push_bit 3 (ucast fn) OR of_nat wt :: u64) = ucast fn * 2 ^ 3 + of_nat wt"
    using wt u by (intro push_bit_or_eq) simp
  moreover have "unat fn < 2 ^ 32" using unsigned_less [of fn] by simp
  ultimately show ?thesis using wt u by (simp add: unat_word_ariths unat_ucast)
qed

lemma split_enc_short: "v < 2 ^ 32 \<Longrightarrow> split_varint (leb_enc v @ rest) = Some (leb_enc v, rest) \<and> length (leb_enc v) \<le> 5"
proof -
  assume "v < 2 ^ 32"
  also have "(2 :: nat) ^ 32 < 128 ^ 5" by simp
  finally show ?thesis using split_varint_enc [of v rest] leb_enc_len [of v 5] by simp
qed

lemma pb_decode_varint32_enc:
  assumes "byte_source io content" "in_ok content st" "pending content st = leb_enc v @ rest" "v < 2 ^ 32"
  shows "\<exists>st'. pb_decode_varint32_eof io st = (Some (of_nat v), False, st') \<and>
               pb_decode_varint32 io st = (Some (of_nat v), st') \<and> advanced content st (length (leb_enc v)) st'"
  using byte_source.varint32_eof_short [OF assms(1,2), of "leb_enc v" rest] split_enc_short [OF assms(4), of rest]
    split_varint_enc [of v "[]"] assms(3,4)
  by (auto simp: pb_decode_varint32_def)

definition tag_enc :: "nat \<Rightarrow> u32 \<Rightarrow> bytes" where
  "tag_enc wt fn = leb_enc (8 * unat fn + wt)"

lemma pb_encode_tag_emits: "byte_sink io log \<Longrightarrow> wt < 8 \<Longrightarrow> emits log (pb_encode_tag io wt fn) (tag_enc wt fn)"
  using byte_sink.pb_encode_varint_emits [of io log "push_bit 3 (ucast fn) OR of_nat wt"]
  by (simp add: pb_encode_tag_def emits_def unat_tag tag_enc_def)

lemma pb_decode_tag_enc:
  assumes "byte_source io content" "in_ok content st" "pending content st = tag_enc wt fn @ rest"
    and wt: "wt < 8" and fn: "0 < fn" "unat fn < 2 ^ 29"
  shows "\<exists>st'. pb_decode_tag io st = (True, wt, fn, False, st') \<and> advanced content st (length (tag_enc wt fn)) st'"
proof -
  define v where "v = 8 * unat fn + wt"
  have v: "v < 2 ^ 32" using wt fn by (simp add: v_def)
  obtain st' where d: "pb_decode_varint32_eof io st = (Some (of_nat v), False, st')"
    and a: "advanced content st (length (leb_enc v)) st'"
    using pb_decode_varint32_enc [OF assms(1,2) assms(3) [unfolded tag_enc_def v_def [symmetric]] v] by blast
  have u: "unat (of_nat v :: u32) = v" using v by (simp add: unat_of_nat)
  have "0 < unat fn" using fn(1) by (simp add: word_less_nat_alt)
  then have "0 < v" by (simp add: v_def)
  then have nz: "(of_nat v :: u32) \<noteq> 0" using u by (metis unsigned_0 less_irrefl)
  have "(7 :: u32) = mask 3" by (simp add: mask_eq_exp_minus_1)
  then have l: "unat ((of_nat v :: u32) AND 7) = wt" using wt by (simp only: unat_and_mask u) (simp add: v_def)
  have "unat (drop_bit 3 (of_nat v :: u32)) = v div 2 ^ 3"
    by (simp only: unat_drop_bit_eq u) (simp only: drop_bit_eq_div)
  then have h: "drop_bit 3 (of_nat v :: u32) = fn" using wt by (simp add: word_unat_eq_iff v_def)
  show ?thesis
    using a d nz l h by (simp add: pb_decode_tag_def tag_enc_def v_def [symmetric])
qed

subsection \<open>Length-delimited values and substreams\<close>

lemma pb_encode_string_emits:
  assumes "byte_sink io log" and "length bs < 2 ^ 64"
  shows "emits log (pb_encode_string io (Some bs) (length bs)) (leb_enc (length bs) @ bs)"
proof -
  have "unat (of_nat (length bs) :: u64) = length bs" using assms(2) by (simp add: unat_of_nat)
  then show ?thesis
    using emits_then [OF byte_sink.pb_encode_varint_emits [OF assms(1), of "of_nat (length bs)"]
        byte_sink.pb_write_emits [OF assms(1), of bs]]
    by (simp add: pb_encode_string_def [abs_def])
qed

lemma make_substream:
  assumes "byte_source io content" "in_ok content st" "pending content st = leb_enc (length bs) @ bs @ rest"
    and "length bs < 2 ^ 32"
  shows "\<exists>st0. advanced content st (length (leb_enc (length bs))) st0 \<and> in_ok content st0 \<and> pending content st0 = bs @ rest \<and>
     pb_make_string_substream io st
     = (Some (st0\<lparr>bytes_left := length bs\<rparr>), st0\<lparr>bytes_left := bytes_left st0 - length bs\<rparr>)"
proof -
  obtain st0 where d: "pb_decode_varint32 io st = (Some (of_nat (length bs)), st0)"
      and a: "advanced content st (length (leb_enc (length bs))) st0"
    using pb_decode_varint32_enc [OF assms] by blast
  have p: "in_ok content st0" "pending content st0 = bs @ rest"
    using advanced_pending [OF assms(2) a] assms(3) by simp_all
  have "length bs \<le> bytes_left st0" using length_pending [OF p(1)] p(2) by simp
  moreover have "unat (of_nat (length bs) :: u32) = length bs" using assms(4) by (simp add: unat_of_nat)
  ultimately show ?thesis using d a p by (intro exI [of _ st0]) (simp add: pb_make_string_substream_def)
qed

lemma substream_ok:
  assumes "in_ok content st0" "pending content st0 = bs @ rest"
  shows "in_ok content (st0\<lparr>bytes_left := length bs\<rparr>) \<and> pending content (st0\<lparr>bytes_left := length bs\<rparr>) = bs"
proof -
  have "length bs \<le> bytes_left st0" using length_pending [OF assms(1)] assms(2) by simp
  then have "pending content (st0\<lparr>bytes_left := length bs\<rparr>) = take (length bs) (pending content st0)"
    by (simp add: pending_def min_absorb1)
  then show ?thesis using assms \<open>length bs \<le> bytes_left st0\<close> by (simp add: in_ok_def)
qed

text \<open>However much of the substream was consumed, closing it leaves the parent behind the whole string.\<close>

lemma close_substream:
  assumes "byte_source io content" "in_ok content st0" "pending content st0 = bs @ rest"
    and sub: "advanced content (st0\<lparr>bytes_left := length bs\<rparr>) k sub" and k: "k \<le> length bs"
  shows "\<exists>st1 sub1. pb_close_string_substream io (st0\<lparr>bytes_left := bytes_left st0 - length bs\<rparr>) sub = (True, st1, sub1) \<and>
           advanced content st0 (length bs) st1"
proof -
  note s = substream_ok [OF assms(2,3)]
  have ok: "in_ok content sub" "pending content sub = drop k bs" using advanced_pending [OF conjunct1 [OF s] sub] s by simp_all
  have left: "bytes_left sub = length bs - k" using sub by (simp add: advanced_def)
  have "\<exists>sub1. (if bytes_left sub \<noteq> 0 then pb_read io sub True (bytes_left sub) else (True, [], sub)) = (True, [], sub1) \<and>
          advanced content sub (length bs - k) sub1"
    using byte_source.pb_read_reads [OF assms(1) ok(1), of "bytes_left sub" True] left by auto
  then obtain sub1 where r: "(if bytes_left sub \<noteq> 0 then pb_read io sub True (bytes_left sub) else (True, [], sub)) = (True, [], sub1)"
    and a: "advanced content sub (length bs - k) sub1" by blast
  have "advanced content (st0\<lparr>bytes_left := length bs\<rparr>) (length bs) sub1" using advanced_trans [OF sub a] k by simp
  then show ?thesis unfolding pb_close_string_substream_def r by (simp add: advanced_def)
qed

subsection \<open>Skipping\<close>

lemma pb_skip_varint_reads:
  assumes "byte_source io content"
  shows "in_ok content st \<Longrightarrow> split_varint (pending content st) = Some (bs, rest) \<Longrightarrow>
    \<exists>st'. pb_skip_varint io st = (True, st') \<and> advanced content st (length bs) st'"
proof (induction "pending content st" arbitrary: st bs)
  case Nil
  then show ?case by (metis option.distinct(1) split_varint.simps(1))
next
  case (Cons b p)
  have "1 \<le> bytes_left st" using length_pending [OF Cons.prems(1)] Cons.hyps(2) [symmetric] by simp
  from byte_source.pb_read_reads [OF assms Cons.prems(1) this, of False] obtain st1 where
    r: "pb_read io st False 1 = (True, [b], st1)" and a: "advanced content st 1 st1"
    unfolding Cons.hyps(2) [symmetric] by auto
  have n: "in_ok content st1" "p = pending content st1"
    using advanced_pending [OF Cons.prems(1) a] Cons.hyps(2) [symmetric] by simp_all
  show ?case
  proof (cases "unat b < 128")
    case True
    then have "bs = [b]" using Cons.prems(2) Cons.hyps(2) [symmetric] by simp
    then show ?thesis using True r a by (subst pb_skip_varint.simps) (simp add: and_0x80_u8)
  next
    case False
    obtain v where v: "split_varint p = Some (v, rest)" "bs = b # v"
      using False Cons.prems(2) Cons.hyps(2) [symmetric] by (auto split: option.splits)
    from Cons.hyps(1) [OF n(2) n(1)] v(1) n(2) obtain st2 where
      "pb_skip_varint io st1 = (True, st2)" "advanced content st1 (length v) st2" by auto
    then show ?thesis
      using False r v(2) advanced_trans [OF a] by (subst pb_skip_varint.simps) (simp add: continue_iff)
  qed
qed

lemma pb_skip_string_reads:
  assumes "byte_source io content" "in_ok content st" "pending content st = leb_enc (length bs) @ bs @ rest" "length bs < 2 ^ 32"
  shows "\<exists>st'. pb_skip_string io st = (True, st') \<and> advanced content st (length (leb_enc (length bs)) + length bs) st'"
proof -
  obtain st0 where d: "pb_decode_varint32 io st = (Some (of_nat (length bs)), st0)"
      and a: "advanced content st (length (leb_enc (length bs))) st0"
    using pb_decode_varint32_enc [OF assms] by blast
  have p: "in_ok content st0" "pending content st0 = bs @ rest"
    using advanced_pending [OF assms(2) a] assms(3) by simp_all
  have le: "length bs \<le> bytes_left st0" using length_pending [OF p(1)] p(2) by simp
  have "unat (of_nat (length bs) :: u32) = length bs" using assms(4) by (simp add: unat_of_nat)
  then show ?thesis
    using d advanced_trans [OF a] byte_source.pb_read_reads [OF assms(1) p(1) le, of True]
    by (auto simp: pb_skip_string_def)
qed

section \<open>Wire fields\<close>

datatype pb_value = PbVarint u64 | PbFixed64 u64 | PbBytes bytes | PbFixed32 u32

text \<open>Writing a field, and reading one whose value type is as the tag says.\<close>

fun wire_type_of :: "pb_value \<Rightarrow> nat" where
  "wire_type_of (PbVarint v) = PB_WT_VARINT"
| "wire_type_of (PbFixed64 v) = PB_WT_64BIT"
| "wire_type_of (PbBytes bs) = PB_WT_STRING"
| "wire_type_of (PbFixed32 v) = PB_WT_32BIT"

fun put_value :: "'s write_cb \<Rightarrow> pb_value \<Rightarrow> 's writer" where
  "put_value io (PbVarint v) = pb_encode_varint io v"
| "put_value io (PbFixed64 v) = pb_encode_fixed64 io v"
| "put_value io (PbBytes bs) = pb_encode_string io (Some bs) (length bs)"
| "put_value io (PbFixed32 v) = pb_encode_fixed32 io v"

definition put_field :: "'s write_cb \<Rightarrow> u32 \<times> pb_value \<Rightarrow> 's writer" where
  "put_field io f st =
     (case pb_encode_tag io (wire_type_of (snd f)) (fst f) st of
        (False, st) \<Rightarrow> (False, st)
      | (True, st) \<Rightarrow> put_value io (snd f) st)"

definition get_bytes :: "'s read_cb \<Rightarrow> 's pb_istream \<Rightarrow> bytes option \<times> 's pb_istream" where
  "get_bytes io st =
     (case pb_make_string_substream io st of
        (None, st) \<Rightarrow> (None, st)
      | (Some sub, st) \<Rightarrow>
          (case pb_read io sub False (bytes_left sub) of
             (False, _, sub) \<Rightarrow> (None, st)
           | (True, bs, sub) \<Rightarrow>
               (case pb_close_string_substream io st sub of (ok, st, _) \<Rightarrow> (if ok then Some bs else None, st))))"

definition get_value :: "'s read_cb \<Rightarrow> nat \<Rightarrow> 's pb_istream \<Rightarrow> pb_value option \<times> 's pb_istream" where
  "get_value io wt st =
     (if wt = PB_WT_VARINT then (case pb_decode_varint io st of (v, st) \<Rightarrow> (map_option PbVarint v, st))
      else if wt = PB_WT_64BIT then (case pb_decode_fixed64 io st of (v, st) \<Rightarrow> (map_option PbFixed64 v, st))
      else if wt = PB_WT_STRING then (case get_bytes io st of (v, st) \<Rightarrow> (map_option PbBytes v, st))
      else if wt = PB_WT_32BIT then (case pb_decode_fixed32 io st of (v, st) \<Rightarrow> (map_option PbFixed32 v, st))
      else (None, st))"

definition get_field :: "'s read_cb \<Rightarrow> 's pb_istream \<Rightarrow> (u32 \<times> pb_value) option \<times> 's pb_istream" where
  "get_field io st =
     (case pb_decode_tag io st of
        (False, _, _, _, st) \<Rightarrow> (None, st)
      | (True, wt, fn, _, st) \<Rightarrow> (case get_value io wt st of (v, st) \<Rightarrow> (map_option (Pair fn) v, st)))"

fun value_enc :: "pb_value \<Rightarrow> bytes" where
  "value_enc (PbVarint v) = leb_enc (unat v)"
| "value_enc (PbFixed64 v) = le_bytes 8 (unat v)"
| "value_enc (PbBytes bs) = leb_enc (length bs) @ bs"
| "value_enc (PbFixed32 v) = le_bytes 4 (unat v)"

definition field_enc :: "u32 \<times> pb_value \<Rightarrow> bytes" where
  "field_enc f = tag_enc (wire_type_of (snd f)) (fst f) @ value_enc (snd f)"

text \<open>Field numbers have 29 bits, lengths 32.\<close>

definition field_ok :: "u32 \<times> pb_value \<Rightarrow> bool" where
  "field_ok f \<longleftrightarrow> 0 < fst f \<and> unat (fst f) < 2 ^ 29 \<and> (case snd f of PbBytes bs \<Rightarrow> length bs < 2 ^ 32 | _ \<Rightarrow> True)"

lemma put_field_emits:
  assumes "byte_sink io log" and "field_ok f"
  shows "emits log (put_field io f) (field_enc f)"
proof -
  have wt: "wire_type_of (snd f) < 8" by (cases "snd f") simp_all
  have "emits log (put_value io (snd f)) (value_enc (snd f))"
  proof (cases "snd f")
    case (PbBytes bs)
    then have "length bs < 2 ^ 64" using assms(2) by (simp add: field_ok_def)
    then show ?thesis using pb_encode_string_emits [OF assms(1)] PbBytes by simp
  qed (simp_all add: byte_sink.pb_encode_varint_emits [OF assms(1)] pb_encode_fixed64_emits [OF assms(1)]
         pb_encode_fixed32_emits [OF assms(1)])
  from emits_then [OF pb_encode_tag_emits [OF assms(1) wt] this]
  show ?thesis by (simp add: put_field_def [abs_def] field_enc_def)
qed

lemma get_bytes_enc:
  assumes "byte_source io content" "in_ok content st" "pending content st = (leb_enc (length bs) @ bs) @ rest" "length bs < 2 ^ 32"
  shows "\<exists>st'. get_bytes io st = (Some bs, st') \<and> advanced content st (length (leb_enc (length bs) @ bs)) st'"
proof -
  from make_substream [OF assms(1,2) assms(3) [unfolded append_assoc] assms(4)] obtain st0 where
    a: "advanced content st (length (leb_enc (length bs))) st0" and ok: "in_ok content st0"
    and p: "pending content st0 = bs @ rest"
    and m: "pb_make_string_substream io st
      = (Some (st0\<lparr>bytes_left := length bs\<rparr>), st0\<lparr>bytes_left := bytes_left st0 - length bs\<rparr>)" by blast
  note s = substream_ok [OF ok p]
  from byte_source.pb_read_reads [OF assms(1) conjunct1 [OF s], of "length bs" False] obtain sub where
    r: "pb_read io (st0\<lparr>bytes_left := length bs\<rparr>) False (length bs) = (True, bs, sub)"
    and b: "advanced content (st0\<lparr>bytes_left := length bs\<rparr>) (length bs) sub"
    using s by auto
  from close_substream [OF assms(1) ok p b order_refl] obtain st1 sub1 where
    "pb_close_string_substream io (st0\<lparr>bytes_left := bytes_left st0 - length bs\<rparr>) sub = (True, st1, sub1)"
    "advanced content st0 (length bs) st1" by blast
  then show ?thesis using m r advanced_trans [OF a] by (simp add: get_bytes_def)
qed

lemma get_field_enc:
  assumes "byte_source io content" and f: "field_ok f" and "in_ok content st" "pending content st = field_enc f @ rest"
  shows "\<exists>st'. get_field io st = (Some f, st') \<and> advanced content st (length (field_enc f)) st'"
proof -
  let ?wt = "wire_type_of (snd f)"
  have wt: "?wt < 8" by (cases "snd f") simp_all
  have fn: "0 < fst f" "unat (fst f) < 2 ^ 29" using f by (simp_all add: field_ok_def)
  from pb_decode_tag_enc [OF assms(1,3) _ wt fn, of "value_enc (snd f) @ rest"] assms(4) obtain st1 where
    t: "pb_decode_tag io st = (True, ?wt, fst f, False, st1)" and a: "advanced content st (length (tag_enc ?wt (fst f))) st1"
    by (auto simp: field_enc_def)
  have ok: "in_ok content st1" and p: "pending content st1 = value_enc (snd f) @ rest"
    using advanced_pending [OF assms(3) a] assms(4) by (simp_all add: field_enc_def)
  have "\<exists>st2. get_value io ?wt st1 = (Some (snd f), st2) \<and> advanced content st1 (length (value_enc (snd f))) st2"
  proof (cases "snd f")
    case (PbVarint v)
    then show ?thesis using byte_source.pb_decode_varint_enc [OF assms(1) ok, of v rest] p by (auto simp: get_value_def)
  next
    case (PbFixed64 v)
    then show ?thesis using pb_decode_fixed64_enc [OF assms(1) ok, of v rest] p by (auto simp: get_value_def)
  next
    case (PbBytes bs)
    then have "length bs < 2 ^ 32" using f by (simp add: field_ok_def)
    then show ?thesis using get_bytes_enc [OF assms(1) ok, of bs rest] p PbBytes by (auto simp: get_value_def)
  next
    case (PbFixed32 v)
    then show ?thesis using pb_decode_fixed32_enc [OF assms(1) ok, of v rest] p by (auto simp: get_value_def)
  qed
  then show ?thesis using t advanced_trans [OF a] by (auto simp: get_field_def field_enc_def)
qed

lemma skip_field_enc:
  assumes "byte_source io content" and f: "field_ok f" and ok: "in_ok content st" and p: "pending content st = value_enc (snd f) @ rest"
  shows "\<exists>st'. pb_skip_field io st (wire_type_of (snd f)) = (True, st') \<and> advanced content st (length (value_enc (snd f))) st'"
proof -
  have le: "length (value_enc (snd f)) \<le> bytes_left st" using length_pending [OF ok] p by simp
  show ?thesis
  proof (cases "snd f")
    case (PbVarint v)
    then have "split_varint (pending content st) = Some (leb_enc (unat v), rest)"
      using p split_varint_enc [of "unat v" rest] by simp
    then show ?thesis using PbVarint pb_skip_varint_reads [OF assms(1) ok] by (simp add: pb_skip_field_def)
  next
    case (PbFixed64 v)
    then show ?thesis using byte_source.pb_read_reads [OF assms(1) ok, of 8 True] le by (auto simp: pb_skip_field_def)
  next
    case (PbBytes bs)
    then have "length bs < 2 ^ 32" using f by (simp add: field_ok_def)
    then show ?thesis using pb_skip_string_reads [OF assms(1) ok, of bs rest] p PbBytes by (auto simp: pb_skip_field_def)
  next
    case (PbFixed32 v)
    then show ?thesis using byte_source.pb_read_reads [OF assms(1) ok, of 4 True] le by (auto simp: pb_skip_field_def)
  qed
qed

section \<open>The codecs of the library\<close>

interpretation varint: pb_codec "pb_encode_varint AppendToString" "pb_decode_varint read_memory"
    "\<lambda>v. leb_enc (unat v)" "\<lambda>_. True" "\<lambda>str. str" "\<lambda>src. src"
  using string_writer.pb_encode_varint_emits buffer.pb_decode_varint_enc by unfold_locales blast+

interpretation svarint: pb_codec "pb_encode_svarint AppendToString" "pb_decode_svarint read_memory"
    "\<lambda>v. leb_enc (unat (zigzag_enc v))" "\<lambda>_. True" "\<lambda>str. str" "\<lambda>src. src"
  using pb_encode_svarint_emits [OF string_writer.byte_sink_axioms]
    pb_decode_svarint_enc [OF buffer.byte_source_axioms] by unfold_locales blast+

interpretation field: pb_codec "put_field AppendToString" "get_field read_memory" field_enc field_ok "\<lambda>str. str" "\<lambda>src. src"
  using put_field_emits [OF string_writer.byte_sink_axioms] get_field_enc [OF buffer.byte_source_axioms]
  by unfold_locales blast+

interpretation grpc_field: pb_codec "put_field AppendToGrpcBuffer" "get_field read_memory" field_enc field_ok concat "\<lambda>src. src"
  using put_field_emits [OF grpc_writer.byte_sink_axioms] get_field_enc [OF buffer.byte_source_axioms]
  by unfold_locales blast+

section \<open>Signed 32-bit values\<close>

text \<open>\<open>n\<close> groups of seven bits, all with the continuation bit, in front of an encoding.\<close>

lemma leb_enc_split:
  "x < 128 ^ n \<Longrightarrow> 0 < y \<Longrightarrow>
   \<exists>xs. leb_enc (x + 128 ^ n * y) = xs @ leb_enc y \<and> length xs = n \<and> leb_val xs = x \<and> (\<forall>b\<in>set xs. 128 \<le> unat b)"
proof (induction n arbitrary: x)
  case 0
  then show ?case by simp
next
  case (Suc n)
  let ?v = "x + 128 ^ Suc n * y"
  have q: "?v div 128 = x div 128 + 128 ^ n * y" "?v mod 128 = x mod 128" by (simp_all add: mult.assoc)
  have "x div 128 < 128 ^ n" using Suc.prems(1) by (simp add: less_mult_imp_div_less mult.commute)
  from Suc.IH [OF this Suc.prems(2)] obtain xs where
    xs: "leb_enc (x div 128 + 128 ^ n * y) = xs @ leb_enc y" "length xs = n" "leb_val xs = x div 128"
      "\<forall>b\<in>set xs. 128 \<le> unat b" by blast
  have big: "\<not> ?v < 128"
  proof -
    have "1 \<le> 128 ^ n * y" using Suc.prems(2) by (simp add: Suc_leI)
    then show ?thesis unfolding power_Suc mult.assoc by linarith
  qed
  have u: "unat (of_nat (x mod 128 + 128) :: u8) = x mod 128 + 128" unfolding unat_of_nat_u8 by (simp add: mod_less)
  have "leb_enc ?v = of_nat (x mod 128 + 128) # xs @ leb_enc y"
    by (subst leb_enc.simps) (simp only: big if_False q xs)
  then show ?case
    using xs u by (intro exI [of _ "of_nat (x mod 128 + 128) # xs"]) (simp del: of_nat_add)
qed

lemma leb_enc_ones: "leb_enc (2 ^ 29 - 1) = [0xff, 0xff, 0xff, 0xff, 1]"
  by (simp add: leb_enc.simps)

context byte_source
begin

text \<open>Above bit 31 the loop accepts the bytes of a sign extension.\<close>

lemma varint32_high:
  assumes ok: "in_ok content st" and k: "5 \<le> k" "k \<le> 9" and p: "pending content st = b # rest"
    and b: "drop_bit 31 result \<noteq> 0" "b = (if k < 9 then 0xff else 0x01)"
  shows "\<exists>st1. advanced content st 1 st1 \<and> in_ok content st1 \<and> pending content st1 = rest \<and>
     varint32_loop io st result (of_nat (7 * k))
     = (if k < 9 then varint32_loop io st1 result (of_nat (7 * Suc k)) else (Some (result, b, of_nat (7 * Suc k)), st1))"
proof -
  obtain st1 where r: "pb_readbyte io st = (Some b, st1)" and a: "advanced content st 1 st1"
      and ok1: "in_ok content st1" and p1: "pending content st1 = rest"
    using pb_readbyte_reads [OF ok p] by blast
  have bp: "unat (of_nat (7 * k) :: u8) = 7 * k" using k unfolding unat_of_nat_u8 by simp
  have hi: "(32 \<le> (of_nat (7 * k) :: u8)) = True" using bp k by (simp add: word_le_nat_alt)
  have sign: "((of_nat (7 * k) :: u8) < 63) = (k < 9)" using bp k by (simp add: word_less_nat_alt)
  have bp': "(of_nat (7 * k) :: u8) + 7 = of_nat (7 * Suc k)" by simp
  have c: "(b AND 0x80 \<noteq> 0) = (k < 9)" using b(2) by simp
  have ov: "(drop_bit 31 result = 0 \<or> b \<noteq> (if k < 9 then 0xff else 0x01)) = False" using b by simp
  have "varint32_loop io st result (of_nat (7 * k))
     = (if k < 9 then varint32_loop io st1 result (of_nat (7 * Suc k)) else (Some (result, b, of_nat (7 * Suc k)), st1))"
    by (subst varint32_loop.simps) (simp only: hi r Let_def bp' sign c ov if_True if_False prod.case option.case simp_thms)
  then show ?thesis using a ok1 p1 by blast
qed

text \<open>The ten-byte encoding of a negative number: five bytes of data, five of sign extension.\<close>

lemma varint32_negative:
  assumes ok: "in_ok content st" and w: "2 ^ 31 \<le> w" "w < 2 ^ 32"
    and p: "pending content st = leb_enc (2 ^ 64 - 2 ^ 32 + w) @ rest"
  shows "\<exists>st'. pb_decode_varint32 io st = (Some (of_nat w), st') \<and>
    advanced content st (length (leb_enc (2 ^ 64 - 2 ^ 32 + w))) st'"
proof -
  define x where "x = 2 ^ 35 - 2 ^ 32 + w"
  have x: "x < 128 ^ 5" using w by (simp add: x_def)
  have "x + 128 ^ 5 * (2 ^ 29 - 1) = 2 ^ 64 - 2 ^ 32 + w" by (simp add: x_def)
  with leb_enc_split [OF x, of "2 ^ 29 - 1"] obtain xs where
    xs: "leb_enc (2 ^ 64 - 2 ^ 32 + w) = xs @ leb_enc (2 ^ 29 - 1)" "length xs = 5" "leb_val xs = x"
      "\<forall>b\<in>set xs. 128 \<le> unat b" by auto
  obtain b ys where b: "xs = b # ys" using xs(2) by (cases xs) auto
  have p0: "pending content st = b # ys @ [0xff, 0xff, 0xff, 0xff, 1] @ rest"
    unfolding p xs(1) leb_enc_ones b by simp
  from pb_readbyte_reads [OF ok p0] obtain st1 where r: "pb_readbyte io st = (Some b, st1)"
    and a1: "advanced content st 1 st1" and ok1: "in_ok content st1"
    and p1: "pending content st1 = ys @ [0xff, 0xff, 0xff, 0xff, 1] @ rest" by blast
  have v: "unat b mod 128 < 2 ^ (7 * 1)" by simp
  have ys: "\<forall>b\<in>set ys. 128 \<le> unat b" "length ys = 4" using xs b by simp_all
  have five: "1 + length ys \<le> 5" using ys(2) by simp
  have val: "unat b mod 128 + 2 ^ (7 * 1) * leb_val ys = x" using xs(3) b by simp
  from varint32_continue [OF ok1 v five p1 ys(1)] obtain st2 where
    a2: "advanced content st1 (length ys) st2" and ok2: "in_ok content st2"
    and p2: "pending content st2 = [0xff, 0xff, 0xff, 0xff, 1] @ rest"
    and e: "varint32_loop io st1 (of_nat (unat b mod 128)) (of_nat (7 * 1))
      = varint32_loop io st2 (of_nat x) (of_nat (7 * 5))"
    unfolding val ys(2) by auto
  have "(of_nat x :: u32) = of_nat w"
  proof -
    have "x = w + 2 ^ 32 * 7" by (simp add: x_def)
    then have "(of_nat x :: u32) = of_nat w + 2 ^ 32 * 7" by (simp only: of_nat_add of_nat_mult of_nat_power of_nat_numeral)
    then show ?thesis by simp
  qed
  note xw = this
  have d: "drop_bit 31 (of_nat w :: u32) \<noteq> 0"
    using w unfolding drop_bit_eq_0_iff by (simp add: unat_of_nat)
  obtain st3 where a3: "advanced content st2 1 st3" and ok3: "in_ok content st3"
    and p3: "pending content st3 = [0xff, 0xff, 0xff, 1] @ rest"
    and e3: "varint32_loop io st2 (of_nat w) (of_nat (7 * 5)) = varint32_loop io st3 (of_nat w) (of_nat (7 * 6))"
    using varint32_high [OF ok2, of 5 "0xff" "[0xff, 0xff, 0xff, 1] @ rest" "of_nat w"] d p2 by auto
  obtain st4 where a4: "advanced content st3 1 st4" and ok4: "in_ok content st4"
    and p4: "pending content st4 = [0xff, 0xff, 1] @ rest"
    and e4: "varint32_loop io st3 (of_nat w) (of_nat (7 * 6)) = varint32_loop io st4 (of_nat w) (of_nat (7 * 7))"
    using varint32_high [OF ok3, of 6 "0xff" "[0xff, 0xff, 1] @ rest" "of_nat w"] d p3 by auto
  obtain st5 where a5: "advanced content st4 1 st5" and ok5: "in_ok content st5"
    and p5: "pending content st5 = [0xff, 1] @ rest"
    and e5: "varint32_loop io st4 (of_nat w) (of_nat (7 * 7)) = varint32_loop io st5 (of_nat w) (of_nat (7 * 8))"
    using varint32_high [OF ok4, of 7 "0xff" "[0xff, 1] @ rest" "of_nat w"] d p4 by auto
  obtain st6 where a6: "advanced content st5 1 st6" and ok6: "in_ok content st6"
    and p6: "pending content st6 = [1] @ rest"
    and e6: "varint32_loop io st5 (of_nat w) (of_nat (7 * 8)) = varint32_loop io st6 (of_nat w) (of_nat (7 * 9))"
    using varint32_high [OF ok5, of 8 "0xff" "[1] @ rest" "of_nat w"] d p5 by auto
  obtain st7 where a7: "advanced content st6 1 st7"
    and e7: "varint32_loop io st6 (of_nat w) (of_nat (7 * 9)) = (Some (of_nat w, 1, of_nat (7 * 10)), st7)"
    using varint32_high [OF ok6, of 9 1 rest "of_nat w"] d p6 by auto
  have adv: "advanced content st 10 st7"
    using advanced_trans [OF a1 advanced_trans [OF a2 advanced_trans [OF a3 advanced_trans [OF a4
      advanced_trans [OF a5 advanced_trans [OF a6 a7]]]]]] ys(2) by simp
  have "b AND 0x80 \<noteq> 0" using xs(4) b by (simp add: continue_iff)
  moreover have "varint32_loop io st1 (ucast (b AND 0x7f)) 7 = (Some (of_nat w, 1, of_nat (7 * 10)), st7)"
    using e unfolding xw e3 e4 e5 e6 e7 ucast_and_0x7f by simp
  moreover have "length (leb_enc (2 ^ 64 - 2 ^ 32 + w)) = 10" unfolding xs(1) leb_enc_ones using xs(2) by simp
  note len = this
  ultimately show ?thesis
    unfolding len using r adv by (simp add: pb_decode_varint32_def pb_decode_varint32_eof_def)
qed

end

lemma unat_sign_extend: "unat (scast (w :: u32) :: u64) = (if 2 ^ 31 \<le> unat w then 2 ^ 64 - 2 ^ 32 + unat w else unat w)"
proof -
  have u: "0 \<le> uint w" "uint w < 4294967296" using uint_bounded [of w] by simp_all
  have "sint w = (uint w + 2147483648) mod 4294967296 - 2147483648"
    by (simp add: sint_uint signed_take_bit_eq_take_bit_shift take_bit_eq_mod)
  moreover have "(uint w + 2147483648) mod 4294967296 - 2147483648
      = (if 2147483648 \<le> uint w then uint w - 4294967296 else uint w)"
    using u mod_add_self2 [of "uint w - 2147483648" 4294967296]
    by (auto simp: mod_pos_pos_trivial add.commute)
  ultimately have s: "sint w = (if 2147483648 \<le> uint w then uint w - 4294967296 else uint w)" by simp
  have "uint (scast w :: u64) = sint w mod 18446744073709551616" by (simp only: scast_eq uint_word_of_int) simp
  moreover have "sint w mod 18446744073709551616
      = (if 2147483648 \<le> uint w then uint w + 18446744069414584320 else uint w)"
    unfolding s using u mod_add_self2 [of "uint w - 4294967296" 18446744073709551616] by (auto simp: mod_pos_pos_trivial)
  ultimately have "uint (scast w :: u64) = (if 2147483648 \<le> uint w then uint w + 18446744069414584320 else uint w)"
    by simp
  moreover have "unat (scast w :: u64) = nat (uint (scast w :: u64))" "unat w = nat (uint w)"
    by (simp_all only: unat_eq_nat_uint)
  moreover have "(2147483648 \<le> unat w) = (2147483648 \<le> uint w)" 
    unfolding unat_eq_nat_uint using nat_le_eq_zle [of 2147483648 "uint w"] u by auto
  ultimately show ?thesis using u by (simp add: nat_add_distrib)
qed

section \<open>Properties\<close>

text \<open>
  C40: \<open>pb_decode_varint\<close> on a memory stream is the mathematical decoding: it succeeds exactly when one of the
  first ten available bytes ends a varint, stores the number given by the low seven bits of the bytes up to
  it, modulo \<open>2 ^ 64\<close>, and leaves the stream right behind them.
\<close>

theorem varint_decoder_exact:
  assumes "n \<le> length buf"
  shows "case split_varint (take (min 10 n) buf) of
           None \<Rightarrow> fst (pb_decode_varint read_memory (pb_istream_from_buffer buf n)) = None
         | Some (bs, _) \<Rightarrow>
             pb_decode_varint read_memory (pb_istream_from_buffer buf n)
             = (Some (of_nat (leb_val bs)), pb_istream_from_buffer (drop (length bs) buf) (n - length bs))"
proof -
  let ?st = "pb_istream_from_buffer buf n :: bytes pb_istream"
  have ok: "in_ok (\<lambda>src. src) ?st" using assms by (simp add: in_ok_def pb_istream_from_buffer_def)
  have p: "take 10 (pending (\<lambda>src. src) ?st) = take (min 10 n) buf"
    by (simp add: pending_def pb_istream_from_buffer_def)
  show ?thesis
  proof (cases "split_varint (take (min 10 n) buf)")
    case None
    then show ?thesis using buffer.pb_decode_varint_reads [OF ok] unfolding p by simp
  next
    case (Some q)
    obtain bs r where q: "q = (bs, r)" by (cases q)
    from buffer.pb_decode_varint_reads [OF ok] obtain st' where
      d: "pb_decode_varint read_memory ?st = (Some (of_nat (leb_val bs)), st')"
      and a: "advanced (\<lambda>src. src) ?st (length bs) st'"
      unfolding p Some q by auto
    have "st' = pb_istream_from_buffer (drop (length bs) buf) (n - length bs)"
      using advanced_buffer [OF a] by (simp add: pb_istream_from_buffer_def)
    then show ?thesis using d Some q by simp
  qed
qed

theorem varint_decoder_exact_witness:
  "fst (pb_decode_varint read_memory (pb_istream_from_buffer [0xac, 0x02, 0x07] 3)) = Some 300"
proof -
  have "split_varint (take (min 10 3) [0xac, 0x02, 0x07]) = Some ([0xac, 0x02], [0x07])" by code_simp
  then show ?thesis using varint_decoder_exact [of 3 "[0xac, 0x02, 0x07]"] by simp
qed

text \<open>
  \<open>pb_decode_varint32\<close> reads every 32-bit value back from both forms that senders use: its own varint
  and, for a negative \<^verbatim>\<open>int32\<close>, the ten-byte varint of its sign extension to 64 bits.
\<close>

theorem varint32_reads_both_forms:
  assumes "v = unat w \<or> v = unat (scast w :: u64)"
  shows "pb_decode_varint32 read_memory (pb_istream_from_buffer (leb_enc v @ rest) (length (leb_enc v @ rest)))
         = (Some w, pb_istream_from_buffer rest (length rest))"
proof -
  let ?st = "pb_istream_from_buffer (leb_enc v @ rest) (length (leb_enc v @ rest)) :: bytes pb_istream"
  have ok: "in_ok (\<lambda>src. src) ?st" by (simp add: in_ok_def pb_istream_from_buffer_def)
  have p: "pending (\<lambda>src. src) ?st = leb_enc v @ rest" by (simp add: pending_def pb_istream_from_buffer_def)
  have u: "unat w < 2 ^ 32" using unsigned_less [of w] by simp
  have "\<exists>st'. pb_decode_varint32 read_memory ?st = (Some w, st') \<and> advanced (\<lambda>src. src) ?st (length (leb_enc v)) st'"
  proof (cases "v = unat w")
    case True
    then show ?thesis using pb_decode_varint32_enc [OF buffer.byte_source_axioms ok p] u by auto
  next
    case False
    then have v: "2 ^ 31 \<le> unat w" "v = 2 ^ 64 - 2 ^ 32 + unat w"
      using assms unat_sign_extend [of w] by (auto split: if_splits)
    have "leb_enc v @ rest = leb_enc (2 ^ 64 - 2 ^ 32 + unat w) @ rest" by (simp only: v(2))
    from buffer.varint32_negative [OF ok v(1) u trans [OF p this]]
    show ?thesis unfolding v(2) [symmetric] by simp
  qed
  then obtain st' where "pb_decode_varint32 read_memory ?st = (Some w, st')"
    and a: "advanced (\<lambda>src. src) ?st (length (leb_enc v)) st'" by blast
  then show ?thesis using advanced_buffer [OF a] by (simp add: pb_istream_from_buffer_def)
qed

text \<open>
  Values that do not fit in 32 bits are not all refused by \<open>pb_decode_varint32\<close>: bits 32 to 34 of a longer
  varint are dropped unnoticed, and after 37 bytes the 8-bit shift counter wraps and starts to fill in low bits
  again. \<open>pb_decode_varint\<close> reads \<open>2 ^ 32\<close> from the first input and refuses the second.
\<close>

theorem varint32_drops_high_bits:
  "fst (pb_decode_varint32 read_memory (pb_istream_from_buffer [0x80, 0x80, 0x80, 0x80, 0x90, 0x00] 6)) = Some 0 \<and>
   fst (pb_decode_varint read_memory (pb_istream_from_buffer [0x80, 0x80, 0x80, 0x80, 0x90, 0x00] 6)) = Some (2 ^ 32) \<and>
   fst (pb_decode_varint32 read_memory (pb_istream_from_buffer (replicate 37 0x80 @ [1]) 38)) = Some 8 \<and>
   fst (pb_decode_varint read_memory (pb_istream_from_buffer (replicate 37 0x80 @ [1]) 38)) = None"
  by (intro conjI) code_simp+

text \<open>
  A sequence of fields of any wire types, written one after another: a first pass on a sizing stream counts
  exactly the bytes, a second pass into a buffer of that size succeeds and fills it, and reading the buffer back
  field by field gives the fields. Nothing outside the counted bytes is written.
\<close>

theorem wire_fields_round_trip:
  assumes "\<forall>f\<in>set fs. field_ok f" and "length (concat (map field_enc fs)) \<le> length buf" and "length buf < 2 ^ 64"
  shows "\<exists>n s0 dest st'.
     pb_put_all (put_field AppendToString) fs PB_OSTREAM_SIZING = (True, s0) \<and> bytes_written s0 = n \<and>
     pb_put_all (put_field AppendToString) fs (pb_ostream_from_buffer buf n) = (True, st') \<and>
     bytes_written st' = n \<and> sink st' = Buf_write dest n \<and> length dest = length buf \<and> drop n dest = drop n buf \<and>
     fst (pb_get_all (get_field read_memory) (length fs) (pb_istream_from_buffer dest n)) = Some fs"
proof -
  let ?n = "length (concat (map field_enc fs))"
  have n: "?n < 2 ^ 64" using assms(2,3) by simp
  have "out_ok (PB_OSTREAM_SIZING :: bytes pb_ostream)" "out_room (PB_OSTREAM_SIZING :: bytes pb_ostream) ?n"
    using n by (simp_all add: out_ok_def out_room_def)
  with field.put_all_emits [OF assms(1)] obtain s0 where
    "pb_put_all (put_field AppendToString) fs PB_OSTREAM_SIZING = (True, s0)" "bytes_written s0 = ?n"
    unfolding emits_def by (fastforce simp: emitted_def)
  moreover obtain dest st' where
    "pb_put_all (put_field AppendToString) fs (pb_ostream_from_buffer buf ?n) = (True, st')" "bytes_written st' = ?n"
    "sink st' = Buf_write dest (bytes_written st')" "length dest = length buf"
    "drop (bytes_written st') dest = drop (bytes_written st') buf"
    "fst (pb_get_all (get_field read_memory) (length fs) (pb_istream_from_buffer dest (bytes_written st'))) = Some fs"
    using field.buffer_round_trip [OF assms(1) order_refl assms(2) n] by blast
  ultimately show ?thesis by auto
qed

text \<open>
  A decoder that does not know a field skips exactly that field: after \<open>pb_decode_tag\<close> has read the number and
  the wire type of an encoded field, \<open>pb_skip_field\<close> leaves the stream at the next one.
\<close>

theorem unknown_field_is_skipped:
  assumes "field_ok f"
  shows "\<exists>st. pb_decode_tag read_memory (pb_istream_from_buffer (field_enc f @ rest) (length (field_enc f @ rest)))
              = (True, wire_type_of (snd f), fst f, False, st) \<and>
           pb_skip_field read_memory st (wire_type_of (snd f)) = (True, pb_istream_from_buffer rest (length rest))"
proof -
  let ?st = "pb_istream_from_buffer (field_enc f @ rest) (length (field_enc f @ rest)) :: bytes pb_istream"
  let ?wt = "wire_type_of (snd f)"
  have ok: "in_ok (\<lambda>src. src) ?st" by (simp add: in_ok_def pb_istream_from_buffer_def)
  have p: "pending (\<lambda>src. src) ?st = tag_enc ?wt (fst f) @ value_enc (snd f) @ rest"
    by (simp add: pending_def pb_istream_from_buffer_def field_enc_def)
  have wt: "?wt < 8" by (cases "snd f") simp_all
  have fn: "0 < fst f" "unat (fst f) < 2 ^ 29" using assms by (simp_all add: field_ok_def)
  from pb_decode_tag_enc [OF buffer.byte_source_axioms ok p wt fn] obtain st1 where
    t: "pb_decode_tag read_memory ?st = (True, ?wt, fst f, False, st1)"
    and a: "advanced (\<lambda>src. src) ?st (length (tag_enc ?wt (fst f))) st1" by blast
  have "in_ok (\<lambda>src. src) st1" "pending (\<lambda>src. src) st1 = value_enc (snd f) @ rest"
    using advanced_pending [OF ok a] p by simp_all
  from skip_field_enc [OF buffer.byte_source_axioms assms this] obtain st2 where
    s: "pb_skip_field read_memory st1 ?wt = (True, st2)"
    and b: "advanced (\<lambda>src. src) st1 (length (value_enc (snd f))) st2" by blast
  have "st2 = pb_istream_from_buffer rest (length rest)"
    using advanced_buffer [OF advanced_trans [OF a b]] by (simp add: pb_istream_from_buffer_def field_enc_def)
  then show ?thesis using t s by blast
qed

text \<open>
  A length-delimited substream is confined to its bytes: it delivers exactly them and refuses to read past
  their end, and closing it, however much of it was read, leaves the parent right behind them.
\<close>

theorem substream_is_confined:
  assumes "length bs < 2 ^ 32"
  shows "\<exists>sub st. pb_make_string_substream read_memory
             (pb_istream_from_buffer (leb_enc (length bs) @ bs @ rest) (length (leb_enc (length bs) @ bs @ rest)))
           = (Some sub, st) \<and>
         (\<forall>k null. if k \<le> length bs
            then \<exists>sub' sub''. pb_read read_memory sub null k = (True, if null then [] else take k bs, sub') \<and>
                   pb_close_string_substream read_memory st sub' = (True, pb_istream_from_buffer rest (length rest), sub'')
            else \<exists>sub'. pb_read read_memory sub null k = (False, [], sub'))"
proof -
  let ?st = "pb_istream_from_buffer (leb_enc (length bs) @ bs @ rest) (length (leb_enc (length bs) @ bs @ rest)) :: bytes pb_istream"
  have ok: "in_ok (\<lambda>src. src) ?st" by (simp add: in_ok_def pb_istream_from_buffer_def)
  have p: "pending (\<lambda>src. src) ?st = leb_enc (length bs) @ bs @ rest"
    by (simp add: pending_def pb_istream_from_buffer_def)
  from make_substream [OF buffer.byte_source_axioms ok p assms] obtain st0 where
    a: "advanced (\<lambda>src. src) ?st (length (leb_enc (length bs))) st0" and ok0: "in_ok (\<lambda>src. src) st0"
    and p0: "pending (\<lambda>src. src) st0 = bs @ rest"
    and m: "pb_make_string_substream read_memory ?st
      = (Some (st0\<lparr>bytes_left := length bs\<rparr>), st0\<lparr>bytes_left := bytes_left st0 - length bs\<rparr>)" by blast
  let ?sub = "st0\<lparr>bytes_left := length bs\<rparr>"
  note s = substream_ok [OF ok0 p0]
  have "if k \<le> length bs
        then \<exists>sub' sub''. pb_read read_memory ?sub null k = (True, if null then [] else take k bs, sub') \<and>
               pb_close_string_substream read_memory (st0\<lparr>bytes_left := bytes_left st0 - length bs\<rparr>) sub'
               = (True, pb_istream_from_buffer rest (length rest), sub'')
        else \<exists>sub'. pb_read read_memory ?sub null k = (False, [], sub')" for k null
  proof (cases "k \<le> length bs")
    case True
    from buffer.pb_read_reads [OF conjunct1 [OF s], of k null] True s obtain sub' where
      r: "pb_read read_memory ?sub null k = (True, if null then [] else take k bs, sub')"
      and b: "advanced (\<lambda>src. src) ?sub k sub'" by auto
    from close_substream [OF buffer.byte_source_axioms ok0 p0 b True] obtain st1 sub1 where
      c: "pb_close_string_substream read_memory (st0\<lparr>bytes_left := bytes_left st0 - length bs\<rparr>) sub' = (True, st1, sub1)"
      and d: "advanced (\<lambda>src. src) st0 (length bs) st1" by blast
    have "st1 = pb_istream_from_buffer rest (length rest)"
      using advanced_buffer [OF advanced_trans [OF a d]] by (simp add: pb_istream_from_buffer_def)
    then show ?thesis using True r c by auto
  next
    case False
    then show ?thesis using buffer.pb_read_short [OF conjunct1 [OF s], of k null] by simp
  qed
  then show ?thesis using m by blast
qed

end
