(* ===== verification/PbScalar.thy ===== *)
theory PbScalar
  imports PbCodec
begin

text \<open>
  The field decoders and encoders of nanopb that the tables \<^verbatim>\<open>PB_DECODERS\<close> and \<^verbatim>\<open>PB_ENCODERS\<close> point at, submessages
  excepted, on a flat little-endian memory with 64-bit pointers. The memory maps addresses to bytes;
  the address 0 is NULL. \<^verbatim>\<open>pb_realloc\<close>, a macro that applications may redefine, is the parameter \<open>re\<close>: from the
  memory, the old pointer and the size to the new pointer and the memory.
\<close>

type_synonym memory = "nat \<Rightarrow> u8"

type_synonym realloc_fn = "memory \<Rightarrow> nat \<Rightarrow> nat \<Rightarrow> nat \<times> memory"

definition store_bytes :: "nat \<Rightarrow> bytes \<Rightarrow> memory \<Rightarrow> memory" where
  "store_bytes a bs m = (\<lambda>i. if a \<le> i \<and> i < a + length bs then bs ! (i - a) else m i)"

definition load_bytes :: "nat \<Rightarrow> nat \<Rightarrow> memory \<Rightarrow> bytes" where
  "load_bytes a n m = map (\<lambda>i. m (a + i)) [0..<n]"

text \<open>The number in little-endian bytes.\<close>

definition le_val :: "bytes \<Rightarrow> nat" where
  "le_val bs = be_val (rev bs)"

section \<open>Field descriptors\<close>

text \<open>\<open>ptr\<close>: the descriptors of a submessage, by the number of their table, or the default value.\<close>

datatype pb_ptr = Ptr_null | Ptr_fields nat | Ptr_default bytes

record pb_field =
  field_tag :: u32
  field_type :: u8
  data_offset :: nat
  size_offset :: int
  data_size :: nat
  array_size :: nat
  field_ptr :: pb_ptr

definition PB_LTYPE :: "u8 \<Rightarrow> u8" where "PB_LTYPE x = x AND 0x0F"
definition PB_HTYPE :: "u8 \<Rightarrow> u8" where "PB_HTYPE x = x AND 0x30"
definition PB_ATYPE :: "u8 \<Rightarrow> u8" where "PB_ATYPE x = x AND 0xC0"

abbreviation (input) PB_ATYPE_STATIC :: u8 where "PB_ATYPE_STATIC \<equiv> 0x00"
abbreviation (input) PB_ATYPE_POINTER :: u8 where "PB_ATYPE_POINTER \<equiv> 0x80"

section \<open>Decoders\<close>

type_synonym 's dec_state = "'s pb_istream \<times> memory"

type_synonym 's decoder = "pb_field \<Rightarrow> nat \<Rightarrow> 's dec_state \<Rightarrow> bool \<times> 's dec_state"

text \<open>\<open>pb_read\<close> into memory.\<close>

definition read_to :: "'s read_cb \<Rightarrow> nat \<Rightarrow> nat \<Rightarrow> 's dec_state \<Rightarrow> bool \<times> 's dec_state" where
  "read_to io dest count s =
     (case pb_read io (fst s) False count of (ok, bs, st) \<Rightarrow> (ok, st, store_bytes dest bs (snd s)))"

definition allocate_field :: "realloc_fn \<Rightarrow> nat \<Rightarrow> nat \<Rightarrow> nat \<Rightarrow> 's dec_state \<Rightarrow> bool \<times> 's dec_state" where
  "allocate_field re pData data_sz array_sz s =
     (let st = fst s; m = snd s; p = le_val (load_bytes pData 8 m) in
      if data_sz = 0 \<or> array_sz = 0 then (False, in_error ''invalid size'' st, m)
      else if (data_sz \<ge> 2 ^ 32 \<or> array_sz \<ge> 2 ^ 32) \<and> (2 ^ 64 - 1) div array_sz < data_sz
           then (False, in_error ''size too large'' st, m)
      else (case re m p (array_sz * data_sz) of
              (q, m) \<Rightarrow>
                (if q = 0 then (False, in_error ''realloc failed'' st, m)
                 else (True, st, store_bytes pData (le_bytes 8 q) m))))"

definition pb_dec_bool :: "'s read_cb \<Rightarrow> 's decoder" where
  "pb_dec_bool io field dest s =
     (case pb_decode_varint32 io (fst s) of
        (None, st) \<Rightarrow> (False, st, snd s)
      | (Some v, st) \<Rightarrow> (True, st, store_bytes dest [if v \<noteq> 0 then 1 else 0] (snd s)))"

text \<open>
  Storing the low \<open>n\<close> bytes of a 64-bit value, and the comparison of what was stored, extended again,
  with the value.
\<close>

definition store_clamped :: "nat \<Rightarrow> (u64 \<Rightarrow> u64) \<Rightarrow> nat \<Rightarrow> u64 \<Rightarrow> 's dec_state \<Rightarrow> bool \<times> 's dec_state" where
  "store_clamped n ext dest v s =
     (let m = store_bytes dest (le_bytes n (unat v)) (snd s)
      in if ext v \<noteq> v then (False, in_error ''integer too large'' (fst s), m) else (True, fst s, m))"

definition store_signed :: "pb_field \<Rightarrow> nat \<Rightarrow> u64 \<Rightarrow> 's dec_state \<Rightarrow> bool \<times> 's dec_state" where
  "store_signed field dest svalue s =
     (if data_size field = 8 then store_clamped 8 (\<lambda>v. v) dest svalue s
      else if data_size field = 4 then store_clamped 4 (\<lambda>v. scast (ucast v :: u32)) dest svalue s
      else if data_size field = 2 then store_clamped 2 (\<lambda>v. scast (ucast v :: u16)) dest svalue s
      else if data_size field = 1 then store_clamped 1 (\<lambda>v. scast (ucast v :: u8)) dest svalue s
      else (False, in_error ''invalid data_size'' (fst s), snd s))"

definition pb_dec_varint :: "'s read_cb \<Rightarrow> 's decoder" where
  "pb_dec_varint io field dest s =
     (case pb_decode_varint io (fst s) of
        (None, st) \<Rightarrow> (False, st, snd s)
      | (Some v, st) \<Rightarrow>
          store_signed field dest (if data_size field = 8 then v else scast (ucast v :: u32)) (st, snd s))"

definition pb_dec_uvarint :: "'s read_cb \<Rightarrow> 's decoder" where
  "pb_dec_uvarint io field dest s =
     (case pb_decode_varint io (fst s) of
        (None, st) \<Rightarrow> (False, st, snd s)
      | (Some v, st) \<Rightarrow>
          (if data_size field = 8 then store_clamped 8 (\<lambda>v. v) dest v (st, snd s)
           else if data_size field = 4 then store_clamped 4 (\<lambda>v. ucast (ucast v :: u32)) dest v (st, snd s)
           else if data_size field = 2 then store_clamped 2 (\<lambda>v. ucast (ucast v :: u16)) dest v (st, snd s)
           else if data_size field = 1 then store_clamped 1 (\<lambda>v. ucast (ucast v :: u8)) dest v (st, snd s)
           else (False, in_error ''invalid data_size'' st, snd s)))"

definition pb_dec_svarint :: "'s read_cb \<Rightarrow> 's decoder" where
  "pb_dec_svarint io field dest s =
     (case pb_decode_svarint io (fst s) of
        (None, st) \<Rightarrow> (False, st, snd s)
      | (Some v, st) \<Rightarrow> store_signed field dest v (st, snd s))"

definition pb_dec_fixed32 :: "'s read_cb \<Rightarrow> 's decoder" where
  "pb_dec_fixed32 io field dest s =
     (case pb_decode_fixed32 io (fst s) of
        (None, st) \<Rightarrow> (False, st, snd s)
      | (Some v, st) \<Rightarrow> (True, st, store_bytes dest (le_bytes 4 (unat v)) (snd s)))"

definition pb_dec_fixed64 :: "'s read_cb \<Rightarrow> 's decoder" where
  "pb_dec_fixed64 io field dest s =
     (case pb_decode_fixed64 io (fst s) of
        (None, st) \<Rightarrow> (False, st, snd s)
      | (Some v, st) \<Rightarrow> (True, st, store_bytes dest (le_bytes 8 (unat v)) (snd s)))"

text \<open>A \<^verbatim>\<open>pb_bytes_array_t\<close> is a 4-byte size and the bytes. \<^verbatim>\<open>PB_SIZE_MAX\<close> is \<open>2 ^ 32 - 1\<close>, so no size exceeds it.\<close>

definition pb_dec_bytes :: "realloc_fn \<Rightarrow> 's read_cb \<Rightarrow> 's decoder" where
  "pb_dec_bytes re io field dest s =
     (case pb_decode_varint32 io (fst s) of
        (None, st) \<Rightarrow> (False, st, snd s)
      | (Some v, st) \<Rightarrow>
          (let sz = unat v; alloc_size = sz + 4; s = (st, snd s) in
           case (if PB_ATYPE (field_type field) = PB_ATYPE_POINTER then
                   (case allocate_field re dest alloc_size 1 s of
                      (ok, s) \<Rightarrow> (ok, le_val (load_bytes dest 8 (snd s)), s))
                 else if alloc_size > data_size field then (False, dest, in_error ''bytes overflow'' st, snd s)
                 else (True, dest, s)) of
             (False, _, s) \<Rightarrow> (False, s)
           | (True, bdest, st, m) \<Rightarrow> read_to io (bdest + 4) sz (st, store_bytes bdest (le_bytes 4 sz) m)))"

definition pb_dec_string :: "realloc_fn \<Rightarrow> 's read_cb \<Rightarrow> 's decoder" where
  "pb_dec_string re io field dest s =
     (case pb_decode_varint32 io (fst s) of
        (None, st) \<Rightarrow> (False, st, snd s)
      | (Some v, st) \<Rightarrow>
          (let sz = unat v; alloc_size = unat (v + 1); s = (st, snd s) in
           if alloc_size < sz then (False, in_error ''size too large'' st, snd s)
           else
             (case (if PB_ATYPE (field_type field) = PB_ATYPE_POINTER then
                      (case allocate_field re dest alloc_size 1 s of
                         (ok, s) \<Rightarrow> (ok, le_val (load_bytes dest 8 (snd s)), s))
                    else if alloc_size > data_size field then (False, dest, in_error ''string overflow'' st, snd s)
                    else (True, dest, s)) of
                (False, _, s) \<Rightarrow> (False, s)
              | (True, dest, s) \<Rightarrow>
                  (case read_to io dest sz s of
                     (status, st, m) \<Rightarrow> (status, st, store_bytes (dest + sz) [0] m)))))"

definition pb_dec_fixed_length_bytes :: "'s read_cb \<Rightarrow> 's decoder" where
  "pb_dec_fixed_length_bytes io field dest s =
     (case pb_decode_varint32 io (fst s) of
        (None, st) \<Rightarrow> (False, st, snd s)
      | (Some v, st) \<Rightarrow>
          (if v = 0 then (True, st, store_bytes dest (replicate (data_size field) 0) (snd s))
           else if unat v \<noteq> data_size field then (False, in_error ''incorrect fixed length bytes size'' st, snd s)
           else read_to io dest (data_size field) (st, snd s)))"

section \<open>Encoders\<close>

text \<open>The source is an address in the memory \<open>m\<close>, which encoding does not change.\<close>

type_synonym 's encoder = "memory \<Rightarrow> pb_field \<Rightarrow> nat \<Rightarrow> 's writer"

definition safe_read_bool :: "memory \<Rightarrow> nat \<Rightarrow> bool" where
  "safe_read_bool m p = (m p \<noteq> 0)"

definition load_unsigned :: "memory \<Rightarrow> nat \<Rightarrow> nat \<Rightarrow> u64" where
  "load_unsigned m n p = of_nat (le_val (load_bytes p n m))"

text \<open>Reading an integer member of the size that the descriptor gives.\<close>

definition load_int :: "bool \<Rightarrow> memory \<Rightarrow> pb_field \<Rightarrow> nat \<Rightarrow> u64 option" where
  "load_int sx m field src =
     (if data_size field = 1 then
        Some (let v = load_unsigned m 1 src in if sx then scast (ucast v :: u8) else v)
      else if data_size field = 2 then
        Some (let v = load_unsigned m 2 src in if sx then scast (ucast v :: u16) else v)
      else if data_size field = 4 then
        Some (let v = load_unsigned m 4 src in if sx then scast (ucast v :: u32) else v)
      else if data_size field = 8 then Some (load_unsigned m 8 src)
      else None)"

definition pb_enc_bool :: "'s write_cb \<Rightarrow> 's encoder" where
  "pb_enc_bool io m field src st = pb_encode_varint io (if safe_read_bool m src then 1 else 0) st"

definition pb_enc_varint :: "'s write_cb \<Rightarrow> 's encoder" where
  "pb_enc_varint io m field src st =
     (case load_int True m field src of
        None \<Rightarrow> (False, out_error ''invalid data_size'' st)
      | Some v \<Rightarrow> pb_encode_varint io v st)"

definition pb_enc_uvarint :: "'s write_cb \<Rightarrow> 's encoder" where
  "pb_enc_uvarint io m field src st =
     (case load_int False m field src of
        None \<Rightarrow> (False, out_error ''invalid data_size'' st)
      | Some v \<Rightarrow> pb_encode_varint io v st)"

definition pb_enc_svarint :: "'s write_cb \<Rightarrow> 's encoder" where
  "pb_enc_svarint io m field src st =
     (case load_int True m field src of
        None \<Rightarrow> (False, out_error ''invalid data_size'' st)
      | Some v \<Rightarrow> pb_encode_svarint io v st)"

definition pb_enc_fixed32 :: "'s write_cb \<Rightarrow> 's encoder" where
  "pb_enc_fixed32 io m field src st = pb_encode_fixed32 io (of_nat (le_val (load_bytes src 4 m))) st"

definition pb_enc_fixed64 :: "'s write_cb \<Rightarrow> 's encoder" where
  "pb_enc_fixed64 io m field src st = pb_encode_fixed64 io (of_nat (le_val (load_bytes src 8 m))) st"

definition pb_enc_bytes :: "'s write_cb \<Rightarrow> 's encoder" where
  "pb_enc_bytes io m field src st =
     (if src = 0 then pb_encode_string io None 0 st
      else
        (let sz = le_val (load_bytes src 4 m) in
         if PB_ATYPE (field_type field) = PB_ATYPE_STATIC \<and> sz + 4 > data_size field
         then (False, out_error ''bytes size exceeded'' st)
         else pb_encode_string io (Some (load_bytes (src + 4) sz m)) sz st))"

text \<open>The loop in the place of \<^verbatim>\<open>strnlen\<close>.\<close>

function mem_strnlen :: "memory \<Rightarrow> nat \<Rightarrow> nat \<Rightarrow> nat \<Rightarrow> nat" where
  "mem_strnlen m p sz max_sz = (if sz < max_sz \<and> m p \<noteq> 0 then mem_strnlen m (p + 1) (sz + 1) max_sz else sz)"
  by pat_completeness auto
termination by (relation "measure (\<lambda>(m, p, sz, max_sz). max_sz - sz)") auto

declare mem_strnlen.simps [simp del]

definition pb_enc_string :: "'s write_cb \<Rightarrow> 's encoder" where
  "pb_enc_string io m field src st =
     (let max_sz = (if PB_ATYPE (field_type field) = PB_ATYPE_POINTER then 2 ^ 64 - 1 else data_size field);
          sz = (if src = 0 then 0 else mem_strnlen m src 0 max_sz)
      in pb_encode_string io (Some (load_bytes src sz m)) sz st)"

definition pb_enc_fixed_length_bytes :: "'s write_cb \<Rightarrow> 's encoder" where
  "pb_enc_fixed_length_bytes io m field src st =
     pb_encode_string io (Some (load_bytes src (data_size field) m)) (data_size field) st"

section \<open>Memory\<close>

lemma load_store: "load_bytes a (length bs) (store_bytes a bs m) = bs"
  by (rule nth_equalityI) (simp_all add: load_bytes_def store_bytes_def)

lemma store_load: "store_bytes a (load_bytes a n m) m = m"
  by (rule ext) (auto simp: store_bytes_def load_bytes_def nth_map_upt)

lemma length_load_bytes [simp]: "length (load_bytes a n m) = n"
  by (simp add: load_bytes_def)

text \<open>Two memories that agree outside \<open>n\<close> bytes at \<open>a\<close>.\<close>

definition agree_outside :: "nat \<Rightarrow> nat \<Rightarrow> memory \<Rightarrow> memory \<Rightarrow> bool" where
  "agree_outside a n m m' \<longleftrightarrow> (\<forall>i. i < a \<or> a + n \<le> i \<longrightarrow> m' i = m i)"

lemma agree_refl [simp]: "agree_outside a n m m"
  by (simp add: agree_outside_def)

lemma agree_store: "a \<le> b \<Longrightarrow> b + length bs \<le> a + n \<Longrightarrow> agree_outside a n m0 m \<Longrightarrow> agree_outside a n m0 (store_bytes b bs m)"
  by (auto simp: agree_outside_def store_bytes_def)

lemma agree_trans: "agree_outside a n m m1 \<Longrightarrow> agree_outside a n m1 m2 \<Longrightarrow> agree_outside a n m m2"
  by (simp add: agree_outside_def)

lemma le_val_bytes: "le_val (le_bytes n v) = v mod 256 ^ n"
  by (simp add: le_val_def le_bytes_def be_val_be_bytes)

lemma le_bytes_val: "le_bytes (length bs) (le_val bs) = bs"
  using be_bytes_be_val [of "rev bs"] by (simp add: le_val_def le_bytes_def)

lemma le_val_less: "le_val bs < 256 ^ length bs"
  using be_val_less [of "rev bs"] by (simp add: le_val_def)

section \<open>The decoders of static fields stay in their field\<close>

text \<open>What a callback stores, it stores within the requested bytes.\<close>

definition read_bounded :: "'s read_cb \<Rightarrow> bool" where
  "read_bounded io \<longleftrightarrow> (\<forall>s n. case io s n of Read bs s' \<Rightarrow> length bs \<le> n | Failed bs s' eof \<Rightarrow> length bs \<le> n)"

lemma pb_read_bounded:
  assumes "read_bounded io" and "pb_read io st False n = (ok, bs, st')"
  shows "length bs \<le> n"
proof -
  have c: "length bs \<le> n" if "in_callback io st n = (ok, bs, st')" for ok bs and st st' :: "'a pb_istream"
    using assms(1) that
    by (auto simp: in_callback_def buf_read_def read_bounded_def split: source.splits read_result.splits)
       (metis read_result.simps(5,6))+
  show ?thesis
    using assms(2) by (auto simp: pb_read_def read_checked_def split: if_splits prod.splits bool.splits dest: c)
qed

lemma read_to_agree:
  assumes "read_bounded io" and "read_to io b n s = (ok, st', m')" and "a \<le> b" and "b + n \<le> a + k"
    and "agree_outside a k m0 (snd s)"
  shows "agree_outside a k m0 m'"
  using assms pb_read_bounded [OF assms(1), of "fst s" n]
  by (auto simp: read_to_def split: prod.splits intro!: agree_store)

named_theorems decoder_defs

lemmas [decoder_defs] = pb_dec_bool_def pb_dec_varint_def pb_dec_uvarint_def pb_dec_svarint_def pb_dec_fixed32_def
  pb_dec_fixed64_def store_signed_def store_clamped_def

lemma store_clamped_agree:
  "store_clamped n f dest v s = (ok, st', m') \<Longrightarrow> agree_outside dest n (snd s) m'"
  by (auto simp: store_clamped_def Let_def split: if_splits intro: agree_store)

lemma store_signed_agree:
  "store_signed field dest v s = (ok, st', m') \<Longrightarrow> agree_outside dest (data_size field) (snd s) m'"
  by (auto simp: store_signed_def split: if_splits dest: store_clamped_agree)
text \<open>The tables, indexed by the low four bits of the type; the submessage entry is an argument.\<close>

definition PB_DECODERS :: "'s decoder \<Rightarrow> realloc_fn \<Rightarrow> 's read_cb \<Rightarrow> u8 \<Rightarrow> 's decoder option" where
  "PB_DECODERS submessage re io lt =
     (if lt < 11 then
        [Some (pb_dec_bool io), Some (pb_dec_varint io), Some (pb_dec_uvarint io), Some (pb_dec_svarint io),
         Some (pb_dec_fixed32 io), Some (pb_dec_fixed64 io), Some (pb_dec_bytes re io), Some (pb_dec_string re io),
         Some submessage, None, Some (pb_dec_fixed_length_bytes io)] ! unat lt
      else None)"

definition PB_ENCODERS :: "'s encoder \<Rightarrow> 's write_cb \<Rightarrow> u8 \<Rightarrow> 's encoder option" where
  "PB_ENCODERS submessage io lt =
     (if lt < 11 then
        [Some (pb_enc_bool io), Some (pb_enc_varint io), Some (pb_enc_uvarint io), Some (pb_enc_svarint io),
         Some (pb_enc_fixed32 io), Some (pb_enc_fixed64 io), Some (pb_enc_bytes io), Some (pb_enc_string io),
         Some submessage, None, Some (pb_enc_fixed_length_bytes io)] ! unat lt
      else None)"

lemma ltype_cases:
  assumes "lt < (11 :: u8)"
  obtains "lt = 0" | "lt = 1" | "lt = 2" | "lt = 3" | "lt = 4" | "lt = 5" | "lt = 6" | "lt = 7" | "lt = 8" | "lt = 9" | "lt = 10"
proof -
  from assms have "unat lt < 11" by (simp add: word_less_nat_alt)
  then have "unat lt \<in> {0, 1, 2, 3, 4, 5, 6, 7, 8, 9, 10}" by (simp, presburger)
  then show ?thesis using that by (auto simp: word_unat_eq_iff)
qed

text \<open>The size that the generated descriptors give to the types whose C type is fixed.\<close>

definition size_fits :: "pb_field \<Rightarrow> bool" where
  "size_fits field \<longleftrightarrow>
     (PB_LTYPE (field_type field) = 0 \<longrightarrow> data_size field = 1) \<and>
     (PB_LTYPE (field_type field) = 4 \<longrightarrow> data_size field = 4) \<and>
     (PB_LTYPE (field_type field) = 5 \<longrightarrow> data_size field = 8)"

lemma pb_dec_bytes_agree:
  assumes io: "read_bounded io" and static: "PB_ATYPE (field_type field) \<noteq> PB_ATYPE_POINTER"
    and run: "pb_dec_bytes re io field dest s = (ok, st', m')"
  shows "agree_outside dest (data_size field) (snd s) m'"
proof -
  obtain v st where v: "pb_decode_varint32 io (fst s) = (v, st)" by (rule prod.exhaust)
  show ?thesis
  proof (cases "v = None \<or> unat (the v) + 4 > data_size field")
    case True
    then show ?thesis using run v static by (cases v) (auto simp: pb_dec_bytes_def Let_def)
  next
    case False
    then obtain w where w: "v = Some w" "unat w + 4 \<le> data_size field" by auto
    then have "read_to io (dest + 4) (unat w) (st, store_bytes dest (le_bytes 4 (unat w)) (snd s)) = (ok, st', m')"
      using run v static by (simp add: pb_dec_bytes_def Let_def)
    from read_to_agree [OF io this, of dest "data_size field" "snd s"] w show ?thesis by (simp add: agree_store)
  qed
qed

lemma pb_dec_string_agree:
  assumes io: "read_bounded io" and static: "PB_ATYPE (field_type field) \<noteq> PB_ATYPE_POINTER"
    and run: "pb_dec_string re io field dest s = (ok, st', m')"
  shows "agree_outside dest (data_size field) (snd s) m'"
proof -
  obtain v st where v: "pb_decode_varint32 io (fst s) = (v, st)" by (rule prod.exhaust)
  show ?thesis
  proof (cases "v = None \<or> unat (the v + 1) < unat (the v) \<or> unat (the v + 1) > data_size field")
    case True
    then show ?thesis using run v static by (cases v) (auto simp: pb_dec_string_def Let_def split: if_splits)
  next
    case False
    then obtain w where w: "v = Some w" "unat w \<le> unat (w + 1)" "unat (w + 1) \<le> data_size field" by auto
    have sz: "unat w + 1 \<le> data_size field"
    proof -
      have u: "unat w < 4294967296" using unsigned_less [of w] by simp
      have "unat (w + 1) = (unat w + 1) mod 4294967296" by (simp add: unat_word_ariths)
      then have "unat (w + 1) = unat w + 1" using u w(2) by (cases "unat w + 1 = 4294967296") auto
      then show ?thesis using w(3) by simp
    qed
    obtain status st1 m1 where r: "read_to io dest (unat w) (st, snd s) = (status, st1, m1)" by (rule prod_cases3)
    have "agree_outside dest (data_size field) (snd s) m1"
      by (rule read_to_agree [OF io r]) (use sz in simp_all)
    moreover have "m' = store_bytes (dest + unat w) [0] m1"
      using run v static w r by (simp add: pb_dec_string_def Let_def)
    ultimately show ?thesis using sz by (simp add: agree_store)
  qed
qed

lemma pb_dec_fixed_length_bytes_agree:
  assumes io: "read_bounded io" and run: "pb_dec_fixed_length_bytes io field dest s = (ok, st', m')"
  shows "agree_outside dest (data_size field) (snd s) m'"
proof -
  obtain v st where v: "pb_decode_varint32 io (fst s) = (v, st)" by (rule prod.exhaust)
  show ?thesis
  proof (cases "v = None \<or> v = Some 0 \<or> unat (the v) \<noteq> data_size field")
    case True
    then show ?thesis using run v by (cases v) (auto simp: pb_dec_fixed_length_bytes_def split: if_splits intro: agree_store)
  next
    case False
    then have "read_to io dest (data_size field) (st, snd s) = (ok, st', m')"
      using run v by (cases v) (auto simp: pb_dec_fixed_length_bytes_def)
    then show ?thesis by (rule read_to_agree [OF io]) simp_all
  qed
qed

lemma PB_DECODERS_agree:
  assumes io: "read_bounded io" and static: "PB_ATYPE (field_type field) \<noteq> PB_ATYPE_POINTER" and size: "size_fits field"
    and lt: "PB_LTYPE (field_type field) \<noteq> 8" and d: "PB_DECODERS submessage re io (PB_LTYPE (field_type field)) = Some dec"
    and run: "dec field dest (st, m) = (ok, st', m')"
  shows "agree_outside dest (data_size field) m m'"
proof -
  define l where "l = PB_LTYPE (field_type field)"
  have small: "l < 11" using d by (auto simp: PB_DECODERS_def l_def split: if_splits)
  from small show ?thesis
  proof (cases rule: ltype_cases)
    case 1
    then have "dec = pb_dec_bool io" "data_size field = 1" using d size by (simp_all add: PB_DECODERS_def l_def size_fits_def)
    then show ?thesis using run by (auto simp: pb_dec_bool_def split: prod.splits option.splits intro: agree_store)
  next
    case 2
    then have "dec = pb_dec_varint io" using d by (simp add: PB_DECODERS_def l_def)
    then show ?thesis using run by (auto simp: pb_dec_varint_def split: prod.splits option.splits dest: store_signed_agree)
  next
    case 3
    then have "dec = pb_dec_uvarint io" using d by (simp add: PB_DECODERS_def l_def)
    then show ?thesis using run
      by (auto simp: pb_dec_uvarint_def split: prod.splits option.splits if_splits dest: store_clamped_agree)
  next
    case 4
    then have "dec = pb_dec_svarint io" using d by (simp add: PB_DECODERS_def l_def)
    then show ?thesis using run by (auto simp: pb_dec_svarint_def split: prod.splits option.splits dest: store_signed_agree)
  next
    case 5
    then have "dec = pb_dec_fixed32 io" "data_size field = 4" using d size by (simp_all add: PB_DECODERS_def l_def size_fits_def)
    then show ?thesis using run by (auto simp: pb_dec_fixed32_def split: prod.splits option.splits intro: agree_store)
  next
    case 6
    then have "dec = pb_dec_fixed64 io" "data_size field = 8" using d size by (simp_all add: PB_DECODERS_def l_def size_fits_def)
    then show ?thesis using run by (auto simp: pb_dec_fixed64_def split: prod.splits option.splits intro: agree_store)
  next
    case 7
    then have "dec = pb_dec_bytes re io" using d by (simp add: PB_DECODERS_def l_def)
    then show ?thesis using pb_dec_bytes_agree [OF io static] run by fastforce
  next
    case 8
    then have "dec = pb_dec_string re io" using d by (simp add: PB_DECODERS_def l_def)
    then show ?thesis using pb_dec_string_agree [OF io static] run by fastforce
  next
    case 11
    then have "dec = pb_dec_fixed_length_bytes io" using d by (simp add: PB_DECODERS_def l_def)
    then show ?thesis using pb_dec_fixed_length_bytes_agree [OF io] run by fastforce
  qed (use d lt l_def in \<open>simp_all add: PB_DECODERS_def\<close>)
qed

section \<open>Integer members survive encoding and decoding\<close>

lemma le_bytes_mod: "le_bytes n (v mod 256 ^ n) = le_bytes n v"
  by (metis le_bytes_val le_val_bytes length_le_bytes mod_mod_trivial)

lemma ucast_scast_small:
  "ucast (scast (w :: u8) :: u64) = w" "ucast (scast (x :: u16) :: u64) = x" "ucast (scast (y :: u32) :: u64) = y"
  by (rule bit_eqI; auto simp: bit_simps bit_word_scast_iff)+

lemma scast_through_32:
  "scast (ucast (scast (w :: u8) :: u64) :: u32) = (scast w :: u64)"
  "scast (ucast (scast (x :: u16) :: u64) :: u32) = (scast x :: u64)"
proof -
  have m: "min 7 (min 31 n) = min 7 n" "min 15 (min 31 n) = min 15 n" "min 31 n < 32" "min 31 n < 64" for n :: nat
    by (auto simp: min_def)
  show "scast (ucast (scast (w :: u8) :: u64) :: u32) = (scast w :: u64)"
    by (rule bit_eqI) (auto simp: bit_word_scast_iff bit_ucast_iff m dest: bit_imp_le_length)
  show "scast (ucast (scast (x :: u16) :: u64) :: u32) = (scast x :: u64)"
    by (rule bit_eqI) (auto simp: bit_word_scast_iff bit_ucast_iff m dest: bit_imp_le_length)
qed

lemma unat_of_le_val: "length bs \<le> 8 \<Longrightarrow> unat (of_nat (le_val bs) :: u64) = le_val bs"
proof -
  assume "length bs \<le> 8"
  then have "(256 :: nat) ^ length bs \<le> 256 ^ 8" by (intro power_increasing) simp_all
  then have "le_val bs < 2 ^ 64" using le_val_less [of bs] by simp
  then show ?thesis by (simp add: unat_of_nat)
qed

text \<open>The low bytes of the value are the bytes of the member.\<close>

lemma low_bytes:
  assumes "length bs = n" and "n \<le> 8" and "unat v mod 256 ^ n = le_val bs"
  shows "le_bytes n (unat v) = bs"
  using assms le_bytes_mod [of n "unat v"] le_bytes_val [of bs] by simp

lemma low_of_cast:
  fixes w :: "'a::len word" and v :: u64
  assumes "ucast v = w" and "w = ucast (of_nat (le_val bs) :: u64)" and "length bs = n" and "n \<le> 8" and "LENGTH('a) = 8 * n"
  shows "le_bytes n (unat v) = bs"
proof (rule low_bytes [OF assms(3,4)])
  have p: "(2 :: nat) ^ LENGTH('a) = 256 ^ n" unfolding assms(5) by (simp add: power_mult)
  have "unat v mod 256 ^ n = unat (ucast v :: 'a word)" unfolding unat_ucast p ..
  also have "\<dots> = le_val bs mod 256 ^ n"
    using assms(3,4) unfolding assms(1,2) unat_ucast p by (simp add: unat_of_le_val)
  also have "\<dots> = le_val bs" using le_val_less [of bs] assms(3) by simp
  finally show "unat v mod 256 ^ n = le_val bs" .
qed

lemma load_signed_store:
  assumes n: "data_size field \<in> {1, 2, 4, 8}" and l: "load_int True m field src = Some v"
  shows "store_signed field dest v s = (True, fst s, store_bytes dest (load_bytes src (data_size field) m) (snd s))"
    and "data_size field \<noteq> 8 \<Longrightarrow> scast (ucast v :: u32) = v"
proof -
  let ?bs = "load_bytes src (data_size field) m"
  consider (one) "data_size field = 1" | (two) "data_size field = 2" | (four) "data_size field = 4" | (eight) "data_size field = 8"
    using n by auto
  then have "store_signed field dest v s = (True, fst s, store_bytes dest ?bs (snd s)) \<and>
             (data_size field \<noteq> 8 \<longrightarrow> scast (ucast v :: u32) = v)"
  proof cases
    case one
    define w where "w = (ucast (of_nat (le_val ?bs) :: u64) :: u8)"
    have v: "v = scast w" using l one by (simp add: load_int_def load_unsigned_def w_def)
    have "le_bytes 1 (unat v) = ?bs" by (rule low_of_cast [OF _ w_def]) (simp_all add: v ucast_scast_small one)
    then show ?thesis using one v by (simp add: store_signed_def store_clamped_def ucast_scast_small scast_through_32)
  next
    case two
    define w where "w = (ucast (of_nat (le_val ?bs) :: u64) :: u16)"
    have v: "v = scast w" using l two by (simp add: load_int_def load_unsigned_def w_def)
    have "le_bytes 2 (unat v) = ?bs" by (rule low_of_cast [OF _ w_def]) (simp_all add: v ucast_scast_small two)
    then show ?thesis using two v by (simp add: store_signed_def store_clamped_def ucast_scast_small scast_through_32)
  next
    case four
    define w where "w = (ucast (of_nat (le_val ?bs) :: u64) :: u32)"
    have v: "v = scast w" using l four by (simp add: load_int_def load_unsigned_def w_def)
    have "le_bytes 4 (unat v) = ?bs" by (rule low_of_cast [OF _ w_def]) (simp_all add: v ucast_scast_small four)
    then show ?thesis using four v by (simp add: store_signed_def store_clamped_def ucast_scast_small)
  next
    case eight
    have v: "v = of_nat (le_val ?bs)" using l eight by (simp add: load_int_def load_unsigned_def)
    have "le_bytes 8 (unat v) = ?bs"
      using le_bytes_val [of ?bs] unfolding v by (simp add: unat_of_le_val eight)
    then show ?thesis using eight by (simp add: store_signed_def store_clamped_def)
  qed
  then show "store_signed field dest v s = (True, fst s, store_bytes dest (load_bytes src (data_size field) m) (snd s))"
    and "data_size field \<noteq> 8 \<Longrightarrow> scast (ucast v :: u32) = v" by simp_all
qed

lemma load_unsigned_store:
  assumes n: "data_size field \<in> {1, 2, 4, 8}" and l: "load_int False m field src = Some v"
  shows "unat v < 256 ^ data_size field \<and> le_bytes (data_size field) (unat v) = load_bytes src (data_size field) m"
proof -
  let ?bs = "load_bytes src (data_size field) m"
  have v: "v = of_nat (le_val ?bs)" using l n by (auto simp: load_int_def load_unsigned_def)
  have "data_size field \<le> 8" using n by auto
  then have "unat v = le_val ?bs" unfolding v by (intro unat_of_le_val) simp
  then show ?thesis using le_val_less [of ?bs] le_bytes_val [of ?bs] by simp
qed

lemma ucast_ucast_small: "unat (v :: u64) < 2 ^ LENGTH('a) \<Longrightarrow> ucast (ucast v :: 'a::len word) = v"
  by (rule word_unat_eq_iff [THEN iffD2]) (simp add: unat_ucast)

section \<open>A string as the stream\<close>

text \<open>The stream that the constructor of Firestore's \<open>StringWriter\<close> sets up.\<close>

definition StringWriter_stream :: "bytes pb_ostream" where
  "StringWriter_stream = \<lparr>sink = User_sink [], max_size = 2 ^ 64 - 1, bytes_written = 0, out_errmsg = None\<rparr>"

lemma emits_string:
  assumes "emits (\<lambda>str. str) f bs" and "length bs < 2 ^ 64"
  shows "\<exists>st. f StringWriter_stream = (True, st) \<and> sink st = User_sink bs"
proof -
  have "out_ok StringWriter_stream" "out_room StringWriter_stream (length bs)"
    using assms(2) by (simp_all add: StringWriter_stream_def out_ok_def out_room_def)
  with assms(1) obtain st where f: "f StringWriter_stream = (True, st)" and e: "emitted (\<lambda>str. str) StringWriter_stream bs st"
    unfolding emits_def by blast
  have "sink st = User_sink bs"
    using e by (cases "sink st") (auto simp: emitted_def StringWriter_stream_def)
  then show ?thesis using f by blast
qed

lemma buffer_holds:
  "in_ok (\<lambda>src. src) (pb_istream_from_buffer (bs @ rest) (length (bs @ rest)))"
  "pending (\<lambda>src. src) (pb_istream_from_buffer (bs @ rest) (length (bs @ rest))) = bs @ rest"
  by (simp_all add: in_ok_def pending_def pb_istream_from_buffer_def)

lemma buffer_advanced:
  "advanced (\<lambda>src. src) (pb_istream_from_buffer (bs @ rest) (length (bs @ rest))) (length bs) st \<Longrightarrow>
   st = pb_istream_from_buffer rest (length rest)"
  using advanced_buffer [of "\<lambda>src. src" "pb_istream_from_buffer (bs @ rest) (length (bs @ rest))" "length bs" st]
  by (simp add: pb_istream_from_buffer_def)

lemma decode_from_buffer:
  "pb_decode_varint read_memory (pb_istream_from_buffer (leb_enc (unat v) @ rest) (length (leb_enc (unat v) @ rest)))
   = (Some v, pb_istream_from_buffer rest (length rest))"
  "pb_decode_svarint read_memory (pb_istream_from_buffer (leb_enc (unat (zigzag_enc v)) @ rest) (length (leb_enc (unat (zigzag_enc v)) @ rest)))
   = (Some v, pb_istream_from_buffer rest (length rest))"
  "pb_decode_fixed32 read_memory (pb_istream_from_buffer (le_bytes 4 (unat w) @ rest) (length (le_bytes 4 (unat w) @ rest)))
   = (Some w, pb_istream_from_buffer rest (length rest))"
  "pb_decode_fixed64 read_memory (pb_istream_from_buffer (le_bytes 8 (unat v) @ rest) (length (le_bytes 8 (unat v) @ rest)))
   = (Some v, pb_istream_from_buffer rest (length rest))"
  using buffer.pb_decode_varint_enc [OF buffer_holds] buffer_advanced apply blast
  using pb_decode_svarint_enc [OF buffer.byte_source_axioms buffer_holds] buffer_advanced apply blast
  using pb_decode_fixed32_enc [OF buffer.byte_source_axioms buffer_holds, of w rest]
    buffer_advanced [of "le_bytes 4 (unat w)" rest] apply auto[1]
  using pb_decode_fixed64_enc [OF buffer.byte_source_axioms buffer_holds, of v rest]
    buffer_advanced [of "le_bytes 8 (unat v)" rest] by auto

text \<open>Encoding to a string what is at \<open>src\<close>, and decoding it to \<open>dest\<close>.\<close>

definition survives :: "bytes encoder \<Rightarrow> bytes decoder \<Rightarrow> memory \<Rightarrow> pb_field \<Rightarrow> nat \<Rightarrow> nat \<Rightarrow> bool" where
  "survives enc dec m field src dest \<longleftrightarrow>
     (\<exists>st bs. enc m field src StringWriter_stream = (True, st) \<and> sink st = User_sink bs \<and>
        (\<forall>rest m2. dec field dest (pb_istream_from_buffer (bs @ rest) (length (bs @ rest)), m2)
                 = (True, pb_istream_from_buffer rest (length rest), store_bytes dest (load_bytes src (data_size field) m) m2)))"

lemma survivesI:
  assumes "emits (\<lambda>str. str) (enc m field src) bs" and "length bs \<le> 10"
    and "\<And>rest m2. dec field dest (pb_istream_from_buffer (bs @ rest) (length (bs @ rest)), m2)
           = (True, pb_istream_from_buffer rest (length rest), store_bytes dest (load_bytes src (data_size field) m) m2)"
  shows "survives enc dec m field src dest"
proof -
  have "length bs < 2 ^ 64" using assms(2) by simp
  with emits_string [OF assms(1)] show ?thesis unfolding survives_def using assms(3) by blast
qed

lemma load_int_some: "data_size field \<in> {1, 2, 4, 8} \<Longrightarrow> \<exists>v. load_int sx m field src = Some v"
  by (auto simp: load_int_def)

lemma varint_survives:
  assumes n: "data_size field \<in> {1, 2, 4, 8}"
  shows "survives (pb_enc_varint AppendToString) (pb_dec_varint read_memory) m field src dest"
proof -
  obtain v where v: "load_int True m field src = Some v" using load_int_some [OF n] by blast
  show ?thesis
  proof (rule survivesI)
    show "emits (\<lambda>str. str) (pb_enc_varint AppendToString m field src) (leb_enc (unat v))"
      using string_writer.pb_encode_varint_emits [of v] by (simp add: pb_enc_varint_def [abs_def] v)
    show "length (leb_enc (unat v)) \<le> 10" by (rule leb_enc_u64)
    show "pb_dec_varint read_memory field dest (pb_istream_from_buffer (leb_enc (unat v) @ rest) (length (leb_enc (unat v) @ rest)), m2)
       = (True, pb_istream_from_buffer rest (length rest), store_bytes dest (load_bytes src (data_size field) m) m2)" for rest m2
      using load_signed_store(1) [OF n v, of dest "(pb_istream_from_buffer rest (length rest), m2)"] load_signed_store(2) [OF n v]
      unfolding pb_dec_varint_def fst_conv decode_from_buffer(1) by (cases "data_size field = 8") auto
  qed
qed

lemma svarint_survives:
  assumes n: "data_size field \<in> {1, 2, 4, 8}"
  shows "survives (pb_enc_svarint AppendToString) (pb_dec_svarint read_memory) m field src dest"
proof -
  obtain v where v: "load_int True m field src = Some v" using load_int_some [OF n] by blast
  show ?thesis
  proof (rule survivesI)
    show "emits (\<lambda>str. str) (pb_enc_svarint AppendToString m field src) (leb_enc (unat (zigzag_enc v)))"
      using pb_encode_svarint_emits [OF string_writer.byte_sink_axioms, of v] by (simp add: pb_enc_svarint_def [abs_def] v)
    show "length (leb_enc (unat (zigzag_enc v))) \<le> 10" by (rule leb_enc_u64)
    show "pb_dec_svarint read_memory field dest
         (pb_istream_from_buffer (leb_enc (unat (zigzag_enc v)) @ rest) (length (leb_enc (unat (zigzag_enc v)) @ rest)), m2)
       = (True, pb_istream_from_buffer rest (length rest), store_bytes dest (load_bytes src (data_size field) m) m2)" for rest m2
      using load_signed_store(1) [OF n v, of dest "(pb_istream_from_buffer rest (length rest), m2)"]
      unfolding pb_dec_svarint_def fst_conv decode_from_buffer(2) by simp
  qed
qed

lemma uvarint_survives:
  assumes n: "data_size field \<in> {1, 2, 4, 8}"
  shows "survives (pb_enc_uvarint AppendToString) (pb_dec_uvarint read_memory) m field src dest"
proof -
  obtain v where v: "load_int False m field src = Some v" using load_int_some [OF n] by blast
  note l = load_unsigned_store [OF n v]
  show ?thesis
  proof (rule survivesI)
    show "emits (\<lambda>str. str) (pb_enc_uvarint AppendToString m field src) (leb_enc (unat v))"
      using string_writer.pb_encode_varint_emits [of v] by (simp add: pb_enc_uvarint_def [abs_def] v)
    show "length (leb_enc (unat v)) \<le> 10" by (rule leb_enc_u64)
    show "pb_dec_uvarint read_memory field dest (pb_istream_from_buffer (leb_enc (unat v) @ rest) (length (leb_enc (unat v) @ rest)), m2)
       = (True, pb_istream_from_buffer rest (length rest), store_bytes dest (load_bytes src (data_size field) m) m2)" for rest m2
    proof -
      have "data_size field = 4 \<Longrightarrow> ucast (ucast v :: u32) = v" "data_size field = 2 \<Longrightarrow> ucast (ucast v :: u16) = v"
        "data_size field = 1 \<Longrightarrow> ucast (ucast v :: u8) = v"
        using l by (auto intro!: ucast_ucast_small)
      then show ?thesis
        using n l unfolding pb_dec_uvarint_def fst_conv decode_from_buffer(1) by (auto simp: store_clamped_def)
    qed
  qed
qed

lemma fixed_survives:
  "data_size field = 4 \<Longrightarrow> survives (pb_enc_fixed32 AppendToString) (pb_dec_fixed32 read_memory) m field src dest"
  "data_size field = 8 \<Longrightarrow> survives (pb_enc_fixed64 AppendToString) (pb_dec_fixed64 read_memory) m field src dest"
proof -
  assume n: "data_size field = 4"
  let ?v = "of_nat (le_val (load_bytes src 4 m)) :: u32"
  have u: "unat ?v = le_val (load_bytes src 4 m)"
    using le_val_less [of "load_bytes src 4 m"] by (simp add: unat_of_nat)
  show "survives (pb_enc_fixed32 AppendToString) (pb_dec_fixed32 read_memory) m field src dest"
  proof (rule survivesI)
    show "emits (\<lambda>str. str) (pb_enc_fixed32 AppendToString m field src) (le_bytes 4 (unat ?v))"
      using pb_encode_fixed32_emits [OF string_writer.byte_sink_axioms, of ?v] by (simp add: pb_enc_fixed32_def [abs_def])
    show "pb_dec_fixed32 read_memory field dest (pb_istream_from_buffer (le_bytes 4 (unat ?v) @ rest) (length (le_bytes 4 (unat ?v) @ rest)), m2)
       = (True, pb_istream_from_buffer rest (length rest), store_bytes dest (load_bytes src (data_size field) m) m2)" for rest m2
      using le_bytes_val [of "load_bytes src 4 m"] n unfolding pb_dec_fixed32_def fst_conv decode_from_buffer(3) by (simp add: u)
  qed simp
next
  assume n: "data_size field = 8"
  let ?v = "of_nat (le_val (load_bytes src 8 m)) :: u64"
  have u: "unat ?v = le_val (load_bytes src 8 m)" by (rule unat_of_le_val) simp
  show "survives (pb_enc_fixed64 AppendToString) (pb_dec_fixed64 read_memory) m field src dest"
  proof (rule survivesI)
    show "emits (\<lambda>str. str) (pb_enc_fixed64 AppendToString m field src) (le_bytes 8 (unat ?v))"
      using pb_encode_fixed64_emits [OF string_writer.byte_sink_axioms, of ?v] by (simp add: pb_enc_fixed64_def [abs_def])
    show "pb_dec_fixed64 read_memory field dest (pb_istream_from_buffer (le_bytes 8 (unat ?v) @ rest) (length (le_bytes 8 (unat ?v) @ rest)), m2)
       = (True, pb_istream_from_buffer rest (length rest), store_bytes dest (load_bytes src (data_size field) m) m2)" for rest m2
      using le_bytes_val [of "load_bytes src 8 m"] n unfolding pb_dec_fixed64_def fst_conv decode_from_buffer(4) by (simp add: u)
  qed simp
qed

section \<open>Properties\<close>

text \<open>
  Numeric members survive: for every numeric field type of nanopb but \<^verbatim>\<open>bool\<close>, and every member size that the
  descriptors use with it, what the table's encoder writes for the member at \<open>src\<close>, the table's decoder reads
  back into a member at \<open>dest\<close> with the same bytes, leaving the rest of the memory and of the input alone.
\<close>

theorem numeric_member_survives:
  assumes "lt \<in> {1, 2, 3, 4, 5}" and "PB_LTYPE (field_type field) = lt" and "size_fits field" and "data_size field \<in> {1, 2, 4, 8}"
    and "PB_ENCODERS subenc AppendToString lt = Some enc" and "PB_DECODERS subdec re read_memory lt = Some dec"
  shows "\<exists>st bs. enc m field src StringWriter_stream = (True, st) \<and> sink st = User_sink bs \<and>
     (\<forall>rest m2. dec field dest (pb_istream_from_buffer (bs @ rest) (length (bs @ rest)), m2)
        = (True, pb_istream_from_buffer rest (length rest), store_bytes dest (load_bytes src (data_size field) m) m2))"
proof -
  have "survives enc dec m field src dest"
    using assms varint_survives [OF assms(4)] uvarint_survives [OF assms(4)] svarint_survives [OF assms(4)]
      fixed_survives [of field]
    by (auto simp: PB_ENCODERS_def PB_DECODERS_def size_fits_def)
  then show ?thesis by (simp only: survives_def)
qed

text \<open>
  No static field decoder but the one for submessages writes outside its member, whatever the input stream
  delivers, on success and on every error: all memory outside the \<open>data_size\<close> bytes at \<open>dest\<close> is untouched.
\<close>

theorem static_decoders_stay_inside:
  assumes "read_bounded io" and "PB_ATYPE (field_type field) \<noteq> PB_ATYPE_POINTER" and "size_fits field"
    and "PB_LTYPE (field_type field) \<noteq> 8" and "PB_DECODERS submessage re io (PB_LTYPE (field_type field)) = Some dec"
    and "dec field dest (st, m) = (ok, st', m')"
  shows "\<forall>i. i < dest \<or> dest + data_size field \<le> i \<longrightarrow> m' i = m i"
  using PB_DECODERS_agree [OF assms] by (simp add: agree_outside_def)

end
