(* ===== verification/PbIter.thy ===== *)
theory PbIter
  imports PbScalar
begin

text \<open>
  nanopb \<^verbatim>\<open>pb_common.c\<close>, the iterator over the fields of a message, and the parts of \<^verbatim>\<open>pb_decode.c\<close> that walk a
  message in memory without a stream: setting a message to its default values and releasing what it owns.

  A table of descriptors is a list that ends in the terminator with tag 0. What a program gives to nanopb by
  pointer is the record \<open>pb_env\<close>: the tables behind the pointers of submessage descriptors, the allocator, the
  callbacks behind function pointers and the types of extensions. An extension is in memory, as \<^verbatim>\<open>pb_extension_t\<close>
  lays it out: the type at 0, \<open>dest\<close> at 8, \<open>next\<close> at 16 and \<open>found\<close> at 24.

  The functions that follow pointers of the message take fuel, because a message in memory may be cyclic: one
  unit for each call. The result \<open>None\<close> means that the fuel was not enough.
\<close>

section \<open>What is behind pointers\<close>

record ext_type =
  ext_decode :: nat
  ext_encode :: nat
  ext_arg :: "pb_field list"

record 's pb_env =
  tables :: "nat \<Rightarrow> pb_field list"
  in_io :: "'s read_cb"
  realloc_of :: realloc_fn
  free_of :: "memory \<Rightarrow> nat \<Rightarrow> memory"
  decode_fn :: "nat \<Rightarrow> 's decoder"
  ext_types :: "nat \<Rightarrow> ext_type"
  ext_decode_fn :: "nat \<Rightarrow> nat \<Rightarrow> u32 \<Rightarrow> nat \<Rightarrow> 's dec_state \<Rightarrow> bool \<times> 's dec_state"

definition load_ptr :: "nat \<Rightarrow> memory \<Rightarrow> nat" where
  "load_ptr a m = le_val (load_bytes a 8 m)"

definition store_ptr :: "nat \<Rightarrow> nat \<Rightarrow> memory \<Rightarrow> memory" where
  "store_ptr a p m = store_bytes a (le_bytes 8 p) m"

text \<open>A \<^verbatim>\<open>pb_size_t\<close> in memory.\<close>

definition load_size :: "nat \<Rightarrow> memory \<Rightarrow> nat" where
  "load_size a m = le_val (load_bytes a 4 m)"

definition store_size :: "nat \<Rightarrow> nat \<Rightarrow> memory \<Rightarrow> memory" where
  "store_size a n m = store_bytes a (le_bytes 4 n) m"

definition memset_0 :: "nat \<Rightarrow> nat \<Rightarrow> memory \<Rightarrow> memory" where
  "memset_0 a n m = store_bytes a (replicate n 0) m"

text \<open>The descriptors that the \<open>ptr\<close> of a submessage field points at.\<close>

definition submsg_fields :: "'s pb_env \<Rightarrow> pb_field \<Rightarrow> pb_field list" where
  "submsg_fields env f = (case field_ptr f of Ptr_fields k \<Rightarrow> tables env k | _ \<Rightarrow> [])"

abbreviation (input) PB_HTYPE_REQUIRED :: u8 where "PB_HTYPE_REQUIRED \<equiv> 0x00"
abbreviation (input) PB_HTYPE_OPTIONAL :: u8 where "PB_HTYPE_OPTIONAL \<equiv> 0x10"
abbreviation (input) PB_HTYPE_REPEATED :: u8 where "PB_HTYPE_REPEATED \<equiv> 0x20"
abbreviation (input) PB_HTYPE_ONEOF :: u8 where "PB_HTYPE_ONEOF \<equiv> 0x30"
abbreviation (input) PB_ATYPE_CALLBACK :: u8 where "PB_ATYPE_CALLBACK \<equiv> 0x40"
abbreviation (input) PB_LTYPE_LAST_PACKABLE :: u8 where "PB_LTYPE_LAST_PACKABLE \<equiv> 0x05"
abbreviation (input) PB_LTYPE_BYTES :: u8 where "PB_LTYPE_BYTES \<equiv> 0x06"
abbreviation (input) PB_LTYPE_STRING :: u8 where "PB_LTYPE_STRING \<equiv> 0x07"
abbreviation (input) PB_LTYPE_SUBMESSAGE :: u8 where "PB_LTYPE_SUBMESSAGE \<equiv> 0x08"
abbreviation (input) PB_LTYPE_EXTENSION :: u8 where "PB_LTYPE_EXTENSION \<equiv> 0x09"
abbreviation (input) PB_SIZE_MAX :: nat where "PB_SIZE_MAX \<equiv> 2 ^ 32 - 1"

section \<open>The iterator\<close>

text \<open>\<open>pSize\<close> points into memory, or at the local variable \<open>fixed_count_size\<close> of \<open>pb_decode_noinit\<close>.\<close>

datatype size_loc = At nat | Fixed_count_size

record pb_field_iter =
  start :: "pb_field list"
  pos :: nat
  required_field_index :: nat
  dest_struct :: nat
  pData :: nat
  pSize :: size_loc

definition cur_field :: "pb_field_iter \<Rightarrow> pb_field" where
  "cur_field iter = start iter ! pos iter"

definition size_loc_at :: "nat \<Rightarrow> pb_field \<Rightarrow> size_loc" where
  "size_loc_at a f = At (nat (int a + size_offset f))"

definition pb_field_iter_begin :: "pb_field list \<Rightarrow> nat \<Rightarrow> bool \<times> pb_field_iter" where
  "pb_field_iter_begin fs dest =
     (let f = fs ! 0; data = dest + data_offset f
      in (field_tag f \<noteq> 0,
          \<lparr>start = fs, pos = 0, required_field_index = 0, dest_struct = dest, pData = data,
           pSize = size_loc_at data f\<rparr>))"

definition pb_field_iter_next :: "pb_field_iter \<Rightarrow> bool \<times> pb_field_iter" where
  "pb_field_iter_next iter =
     (let prev = cur_field iter in
      if field_tag prev = 0 then (False, iter)
      else
        (let iter = iter\<lparr>pos := pos iter + 1\<rparr>; f = cur_field iter in
         if field_tag f = 0 then (False, snd (pb_field_iter_begin (start iter) (dest_struct iter)))
         else if PB_HTYPE (field_type prev) = PB_HTYPE_ONEOF \<and> PB_HTYPE (field_type f) = PB_HTYPE_ONEOF \<and>
                 data_offset f = PB_SIZE_MAX
         then (True, iter)
         else
           (let prev_size = (if PB_ATYPE (field_type prev) = PB_ATYPE_STATIC \<and> PB_HTYPE (field_type prev) = PB_HTYPE_REPEATED
                             then data_size prev * array_size prev
                             else if PB_ATYPE (field_type prev) = PB_ATYPE_POINTER then 8
                             else data_size prev);
                iter = (if PB_HTYPE (field_type prev) = PB_HTYPE_REQUIRED
                        then iter\<lparr>required_field_index := (required_field_index iter + 1) mod 2 ^ 32\<rparr> else iter);
                data = pData iter + prev_size + data_offset f
            in (True, iter\<lparr>pData := data, pSize := size_loc_at data f\<rparr>))))"

text \<open>
  The loop of \<open>pb_field_iter_find\<close>. The iterator is back at its start after at most one round, so the length
  of the table bounds the number of steps.
\<close>

fun find_loop :: "nat \<Rightarrow> nat \<Rightarrow> (pb_field \<Rightarrow> bool) \<Rightarrow> pb_field_iter \<Rightarrow> bool \<times> pb_field_iter" where
  "find_loop 0 first found iter = (False, iter)"
| "find_loop (Suc n) first found iter =
     (if found (cur_field iter) then (True, iter)
      else (let iter = snd (pb_field_iter_next iter)
            in if pos iter \<noteq> first then find_loop n first found iter else (False, iter)))"

definition pb_field_iter_find :: "pb_field_iter \<Rightarrow> u32 \<Rightarrow> bool \<times> pb_field_iter" where
  "pb_field_iter_find iter tag =
     find_loop (length (start iter)) (pos iter)
       (\<lambda>f. field_tag f = tag \<and> PB_LTYPE (field_type f) \<noteq> PB_LTYPE_EXTENSION) iter"

definition find_extension_field :: "pb_field_iter \<Rightarrow> bool \<times> pb_field_iter" where
  "find_extension_field iter =
     find_loop (length (start iter)) (pos iter) (\<lambda>f. PB_LTYPE (field_type f) = PB_LTYPE_EXTENSION) iter"

text \<open>The loops of the form \<open>do body while (pb_field_iter_next(&iter))\<close>, for a body that yields a new state.\<close>

fun each_field :: "nat \<Rightarrow> (pb_field_iter \<Rightarrow> 'm \<Rightarrow> 'm option) \<Rightarrow> pb_field_iter \<Rightarrow> 'm \<Rightarrow> 'm option" where
  "each_field 0 body iter m = Some m"
| "each_field (Suc n) body iter m =
     (case body iter m of
        None \<Rightarrow> None
      | Some m \<Rightarrow>
          (case pb_field_iter_next iter of
             (True, iter) \<Rightarrow> each_field n body iter m
           | (False, iter) \<Rightarrow> Some m))"

definition iter_from_extension :: "'s pb_env \<Rightarrow> nat \<Rightarrow> memory \<Rightarrow> pb_field_iter" where
  "iter_from_extension env extension m =
     (let fs = ext_arg (ext_types env (load_ptr extension m));
          dest = load_ptr (extension + 8) m;
          iter = (snd (pb_field_iter_begin fs dest))\<lparr>pData := dest, pSize := At (extension + 24)\<rparr>
      in if PB_ATYPE (field_type (fs ! 0)) = PB_ATYPE_POINTER then iter\<lparr>pData := extension + 8\<rparr> else iter)"

section \<open>Default values\<close>

text \<open>The address that \<open>pSize\<close> of an iterator holds as long as it was not redirected.\<close>

definition size_addr :: "pb_field_iter \<Rightarrow> nat" where
  "size_addr iter = (case pSize iter of At a \<Rightarrow> a | Fixed_count_size \<Rightarrow> 0)"

text \<open>
  The default of a field that is not a submessage is copied from where \<open>ptr\<close> points (\<open>Ptr_default\<close>). That \<open>ptr\<close> points to a
  descriptor table in such a field does not occur in generated tables; the bytes of a table are not modelled, and
  the field would be cleared.
\<close>

fun pb_field_set_to_default :: "'s pb_env \<Rightarrow> nat \<Rightarrow> pb_field_iter \<Rightarrow> memory \<Rightarrow> memory option"
  and default_extensions :: "'s pb_env \<Rightarrow> nat \<Rightarrow> nat \<Rightarrow> memory \<Rightarrow> memory option"
  and pb_message_set_to_defaults :: "'s pb_env \<Rightarrow> nat \<Rightarrow> pb_field list \<Rightarrow> nat \<Rightarrow> memory \<Rightarrow> memory option" where
  "pb_field_set_to_default env 0 iter m = None"
| "pb_field_set_to_default env (Suc n) iter m =
     (let f = cur_field iter; type = field_type f in
      if PB_LTYPE type = PB_LTYPE_EXTENSION then default_extensions env n (load_ptr (pData iter) m) m
      else if PB_ATYPE type = PB_ATYPE_STATIC then
        (let m = (if PB_HTYPE type = PB_HTYPE_OPTIONAL \<and> pSize iter \<noteq> At (pData iter)
                  then store_bytes (size_addr iter) [0] m
                  else if PB_HTYPE type = PB_HTYPE_REPEATED \<or> PB_HTYPE type = PB_HTYPE_ONEOF
                  then store_size (size_addr iter) 0 m
                  else m)
         in if PB_HTYPE type = PB_HTYPE_REPEATED \<or> PB_HTYPE type = PB_HTYPE_ONEOF then Some m
            else if PB_LTYPE type = PB_LTYPE_SUBMESSAGE
            then pb_message_set_to_defaults env n (submsg_fields env f) (pData iter) m
            else (case field_ptr f of
                    Ptr_default bs \<Rightarrow> Some (store_bytes (pData iter) (take (data_size f) bs) m)
                  | _ \<Rightarrow> Some (memset_0 (pData iter) (data_size f) m)))
      else if PB_ATYPE type = PB_ATYPE_POINTER then
        (let m = store_ptr (pData iter) 0 m
         in Some (if PB_HTYPE type = PB_HTYPE_REPEATED \<or> PB_HTYPE type = PB_HTYPE_ONEOF
                  then store_size (size_addr iter) 0 m else m))
      else Some m)"
| "default_extensions env 0 ext m = None"
| "default_extensions env (Suc n) ext m =
     (if ext = 0 then Some m
      else
        (let m = store_bytes (ext + 24) [0] m in
         case pb_field_set_to_default env n (iter_from_extension env ext m) m of
           None \<Rightarrow> None
         | Some m \<Rightarrow> default_extensions env n (load_ptr (ext + 16) m) m))"
| "pb_message_set_to_defaults env 0 fs dest m = None"
| "pb_message_set_to_defaults env (Suc n) fs dest m =
     (case pb_field_iter_begin fs dest of
        (False, iter) \<Rightarrow> Some m
      | (True, iter) \<Rightarrow> each_field (length fs) (pb_field_set_to_default env n) iter m)"

section \<open>Releasing a message\<close>

text \<open>The loop over the pointers of a repeated string or bytes field.\<close>

primrec free_entries :: "'s pb_env \<Rightarrow> nat \<Rightarrow> nat \<Rightarrow> memory \<Rightarrow> memory" where
  "free_entries env 0 pItem m = m"
| "free_entries env (Suc count) pItem m =
     free_entries env count (pItem + 8) (store_ptr pItem 0 (free_of env m (load_ptr pItem m)))"

text \<open>The loop over the submessages of a field; \<open>release\<close> releases one.\<close>

primrec release_items :: "(nat \<Rightarrow> memory \<Rightarrow> memory option) \<Rightarrow> nat \<Rightarrow> nat \<Rightarrow> nat \<Rightarrow> memory \<Rightarrow> memory option" where
  "release_items release item_size 0 pItem m = Some m"
| "release_items release item_size (Suc count) pItem m =
     (case release pItem m of
        None \<Rightarrow> None
      | Some m \<Rightarrow> release_items release item_size count (pItem + item_size) m)"

text \<open>The last part of \<open>pb_release_single_field\<close>, for fields in allocated memory.\<close>

definition release_pointer :: "'s pb_env \<Rightarrow> pb_field_iter \<Rightarrow> memory \<Rightarrow> memory" where
  "release_pointer env iter m =
     (let type = field_type (cur_field iter) in
      if PB_ATYPE type = PB_ATYPE_POINTER then
        (let m = (if PB_HTYPE type = PB_HTYPE_REPEATED \<and> (PB_LTYPE type = PB_LTYPE_STRING \<or> PB_LTYPE type = PB_LTYPE_BYTES)
                  then free_entries env (load_size (size_addr iter) m) (load_ptr (pData iter) m) m else m);
             m = (if PB_HTYPE type = PB_HTYPE_REPEATED then store_size (size_addr iter) 0 m else m);
             m = free_of env m (load_ptr (pData iter) m)
         in store_ptr (pData iter) 0 m)
      else m)"

text \<open>The number of submessages of a field, as \<open>pb_release_single_field\<close> computes it.\<close>

definition release_count :: "pb_field_iter \<Rightarrow> memory \<Rightarrow> nat" where
  "release_count iter m =
     (let f = cur_field iter; type = field_type f in
      if PB_HTYPE type = PB_HTYPE_REPEATED then
        (let count = (if PB_ATYPE type = PB_ATYPE_STATIC \<and> pSize iter = At (pData iter) then array_size f
                      else load_size (size_addr iter) m)
         in if PB_ATYPE type = PB_ATYPE_STATIC \<and> count > array_size f then array_size f else count)
      else 1)"

fun pb_release_single_field :: "'s pb_env \<Rightarrow> nat \<Rightarrow> pb_field_iter \<Rightarrow> memory \<Rightarrow> memory option"
  and release_extensions :: "'s pb_env \<Rightarrow> nat \<Rightarrow> nat \<Rightarrow> memory \<Rightarrow> memory option"
  and pb_release :: "'s pb_env \<Rightarrow> nat \<Rightarrow> pb_field list \<Rightarrow> nat \<Rightarrow> memory \<Rightarrow> memory option" where
  "pb_release_single_field env 0 iter m = None"
| "pb_release_single_field env (Suc n) iter m =
     (let f = cur_field iter; type = field_type f in
      if PB_HTYPE type = PB_HTYPE_ONEOF \<and> load_size (size_addr iter) m \<noteq> unat (field_tag f) then Some m
      else
        (case (if PB_LTYPE type = PB_LTYPE_EXTENSION then release_extensions env n (load_ptr (pData iter) m) m
               else if PB_LTYPE type = PB_LTYPE_SUBMESSAGE \<and> PB_ATYPE type \<noteq> PB_ATYPE_CALLBACK then
                 (let pItem = (if PB_ATYPE type = PB_ATYPE_POINTER then load_ptr (pData iter) m else pData iter)
                  in if pItem \<noteq> 0
                     then release_items (pb_release env n (submsg_fields env f)) (data_size f) (release_count iter m) pItem m
                     else Some m)
               else Some m) of
           None \<Rightarrow> None
         | Some m \<Rightarrow> Some (release_pointer env iter m)))"
| "release_extensions env 0 ext m = None"
| "release_extensions env (Suc n) ext m =
     (if ext = 0 then Some m
      else
        (case pb_release_single_field env n (iter_from_extension env ext m) m of
           None \<Rightarrow> None
         | Some m \<Rightarrow> release_extensions env n (load_ptr (ext + 16) m) m))"
| "pb_release env 0 fs dest m = None"
| "pb_release env (Suc n) fs dest m =
     (if dest = 0 then Some m
      else case pb_field_iter_begin fs dest of
             (False, iter) \<Rightarrow> Some m
           | (True, iter) \<Rightarrow> each_field (length fs) (pb_release_single_field env n) iter m)"

section \<open>The iterator on a table that is terminated\<close>

definition wf_table :: "pb_field list \<Rightarrow> bool" where
  "wf_table fs \<longleftrightarrow> fs \<noteq> [] \<and> field_tag (last fs) = 0 \<and> (\<forall>f\<in>set (butlast fs). field_tag f \<noteq> 0)"

definition n_fields :: "pb_field list \<Rightarrow> nat" where
  "n_fields fs = length fs - 1"

text \<open>The iterator after \<open>k\<close> steps.\<close>

primrec iter_at :: "pb_field list \<Rightarrow> nat \<Rightarrow> nat \<Rightarrow> pb_field_iter" where
  "iter_at fs dest 0 = snd (pb_field_iter_begin fs dest)"
| "iter_at fs dest (Suc k) = snd (pb_field_iter_next (iter_at fs dest k))"

text \<open>An iterator at field \<open>k\<close>, up to the redirection of \<open>pSize\<close> that \<open>pb_decode_noinit\<close> does for repeated fields.\<close>

definition near :: "pb_field list \<Rightarrow> nat \<Rightarrow> nat \<Rightarrow> pb_field_iter \<Rightarrow> bool" where
  "near fs dest k iter \<longleftrightarrow>
     iter = iter_at fs dest k \<or>
     PB_HTYPE (field_type (fs ! k)) = PB_HTYPE_REPEATED \<and> iter = (iter_at fs dest k)\<lparr>pSize := Fixed_count_size\<rparr>"

lemma wf_table_tag: "wf_table fs \<Longrightarrow> k < n_fields fs \<Longrightarrow> field_tag (fs ! k) \<noteq> 0"
  by (metis in_set_conv_nth length_butlast n_fields_def nth_butlast wf_table_def)

lemma wf_table_end: "wf_table fs \<Longrightarrow> field_tag (fs ! n_fields fs) = 0"
  using last_conv_nth [of fs] by (simp add: wf_table_def n_fields_def)

lemma iter_begin: "wf_table fs \<Longrightarrow> pb_field_iter_begin fs dest = (n_fields fs \<noteq> 0, iter_at fs dest 0)"
  using wf_table_tag [of fs 0] wf_table_end [of fs]
  by (cases "n_fields fs = 0") (auto simp: pb_field_iter_begin_def Let_def)

lemma iter_at_0: "pos (iter_at fs dest 0) = 0 \<and> start (iter_at fs dest 0) = fs \<and> dest_struct (iter_at fs dest 0) = dest \<and>
    pSize (iter_at fs dest 0) \<noteq> Fixed_count_size"
  by (simp add: pb_field_iter_begin_def Let_def size_loc_at_def)

lemma iter_at_facts:
  assumes wf: "wf_table fs" and k: "k < n_fields fs \<or> k = 0"
  shows "pos (iter_at fs dest k) = k \<and> start (iter_at fs dest k) = fs \<and> dest_struct (iter_at fs dest k) = dest \<and>
         pSize (iter_at fs dest k) \<noteq> Fixed_count_size"
  using k
proof (induction k)
  case 0
  show ?case by (rule iter_at_0)
next
  case (Suc k)
  then have "pos (iter_at fs dest k) = k \<and> start (iter_at fs dest k) = fs \<and> dest_struct (iter_at fs dest k) = dest \<and>
         pSize (iter_at fs dest k) \<noteq> Fixed_count_size" by simp
  then show ?case
    using Suc.prems wf_table_tag [OF wf, of k] wf_table_tag [OF wf, of "Suc k"]
    by (simp add: pb_field_iter_next_def cur_field_def Let_def size_loc_at_def)
qed

lemma near_facts:
  assumes "wf_table fs" and "k < n_fields fs \<or> k = 0" and "near fs dest k iter"
  shows "pos iter = k \<and> start iter = fs \<and> dest_struct iter = dest \<and> cur_field iter = fs ! k \<and>
         pData iter = pData (iter_at fs dest k)"
  using assms(3) iter_at_facts [OF assms(1,2), of dest] by (auto simp: near_def cur_field_def)

lemma iter_next:
  assumes wf: "wf_table fs" and k: "k < n_fields fs" and near: "near fs dest k iter"
  shows "pb_field_iter_next iter = (Suc k < n_fields fs, iter_at fs dest (if Suc k < n_fields fs then Suc k else 0))"
proof -
  have facts: "pos (iter_at fs dest k) = k" "start (iter_at fs dest k) = fs" "dest_struct (iter_at fs dest k) = dest"
    using iter_at_facts [OF wf, of k dest] k by simp_all
  have base: "pb_field_iter_next (iter_at fs dest k)
              = (Suc k < n_fields fs, iter_at fs dest (if Suc k < n_fields fs then Suc k else 0))"
  proof (cases "Suc k < n_fields fs")
    case True
    then have "fst (pb_field_iter_next (iter_at fs dest k))"
      using facts wf_table_tag [OF wf, of k] wf_table_tag [OF wf, of "Suc k"]
      by (simp add: pb_field_iter_next_def cur_field_def Let_def)
    then show ?thesis using True by (simp add: prod_eq_iff)
  next
    case False
    then have "Suc k = n_fields fs" using k by simp
    then show ?thesis
      using facts wf_table_tag [OF wf, of k] wf_table_end [OF wf] k
      by (simp add: pb_field_iter_next_def cur_field_def Let_def)
  qed
  show ?thesis
  proof (cases "iter = iter_at fs dest k")
    case True
    then show ?thesis using base by simp
  next
    case False
    then have "iter = (iter_at fs dest k)\<lparr>pSize := Fixed_count_size\<rparr>" "PB_HTYPE (field_type (fs ! k)) = PB_HTYPE_REPEATED"
      using near by (simp_all add: near_def)
    then have "pb_field_iter_next iter = pb_field_iter_next (iter_at fs dest k)"
      using facts wf_table_tag [OF wf k] by (simp add: pb_field_iter_next_def cur_field_def Let_def)
    then show ?thesis using base by simp
  qed
qed

declare iter_at.simps [simp del]

text \<open>A search visits every field once, starting at the current one.\<close>

lemma find_loop_spec:
  assumes wf: "wf_table fs" and first: "first < n_fields fs" and near: "near fs dest ((first + i) mod n_fields fs) iter"
    and i: "i < n_fields fs" "n_fields fs \<le> i + k"
    and before: "\<forall>j<i. \<not> found (fs ! ((first + j) mod n_fields fs))"
  shows "case find_loop k first found iter of
           (True, it) \<Rightarrow> \<exists>j<n_fields fs. found (fs ! j) \<and> near fs dest j it \<and> (it = iter \<or> it = iter_at fs dest j)
         | (False, it) \<Rightarrow> it = iter_at fs dest first \<and> (\<forall>j<n_fields fs. \<not> found (fs ! j))"
  using near i before
proof (induction k arbitrary: i iter)
  case 0
  then show ?case by simp
next
  case (Suc k)
  let ?n = "n_fields fs" and ?j = "(first + i) mod n_fields fs"
  have j: "?j < ?n" using first by simp
  note facts = near_facts [OF wf disjI1 [OF j] Suc.prems(1)]
  show ?case
  proof (cases "found (fs ! ?j)")
    case True
    then show ?thesis using facts j Suc.prems(1) by auto
  next
    case False
    let ?next = "if Suc ?j < ?n then Suc ?j else 0"
    have nx: "?next = (first + Suc i) mod ?n" using j by (simp add: mod_Suc)
    have it: "pb_field_iter_next iter = (Suc ?j < ?n, iter_at fs dest ?next)" by (rule iter_next [OF wf j Suc.prems(1)])
    have before: "\<forall>l<Suc i. \<not> found (fs ! ((first + l) mod ?n))"
      using Suc.prems(4) False by (auto simp: less_Suc_eq)
    have pos: "pos (iter_at fs dest ?next) = ?next" using iter_at_facts [OF wf, of ?next dest] j by auto
    show ?thesis
    proof (cases "Suc i < ?n")
      case True
      then have "?next \<noteq> first"
        unfolding nx using first mod_less_divisor [of ?n] by (auto simp: mod_if split: if_splits)
      moreover have "near fs dest ((first + Suc i) mod ?n) (iter_at fs dest ?next)" by (simp add: near_def nx)
      ultimately have ih: "case find_loop k first found (iter_at fs dest ?next) of
           (True, it) \<Rightarrow> \<exists>j<?n. found (fs ! j) \<and> near fs dest j it \<and> (it = iter_at fs dest ?next \<or> it = iter_at fs dest j)
         | (False, it) \<Rightarrow> it = iter_at fs dest first \<and> (\<forall>j<?n. \<not> found (fs ! j))"
        and ne: "?next \<noteq> first"
        using Suc.IH [of "Suc i" "iter_at fs dest ?next"] True Suc.prems(3) before by simp_all
      have run: "find_loop (Suc k) first found iter = find_loop k first found (iter_at fs dest ?next)"
        using False facts it pos ne by simp
      have same: "l = j" if "near fs dest j (iter_at fs dest l)" "j < ?n" "l < ?n" for j l
        using near_facts [OF wf disjI1 [OF that(2)] that(1)] iter_at_facts [OF wf disjI1 [OF that(3)], of dest] by simp
      have "?next < ?n" using j by simp
      obtain b it' where res: "find_loop k first found (iter_at fs dest ?next) = (b, it')" by (rule prod.exhaust)
      show ?thesis unfolding run res using ih [unfolded res] same [OF _ _ \<open>?next < ?n\<close>] by (cases b) auto
    next
      case last: False
      then have "Suc i = ?n" using Suc.prems(2) by simp
      then have "?next = first" unfolding nx using first by simp
      moreover have "\<not> found (fs ! l)" if "l < ?n" for l
      proof -
        have "(first + (l + ?n - first) mod ?n) mod ?n = l"
          using that first by (simp add: mod_add_right_eq)
        moreover have "(l + ?n - first) mod ?n < Suc i" using \<open>Suc i = ?n\<close> first by simp
        ultimately show ?thesis using before by metis
      qed
      ultimately show ?thesis using facts False it pos by simp
    qed
  qed
qed

lemma find_spec:
  assumes wf: "wf_table fs" and k: "k < n_fields fs" and near: "near fs dest k iter"
  shows "case find_loop (length (start iter)) (pos iter) found iter of
           (True, it) \<Rightarrow> \<exists>j<n_fields fs. found (fs ! j) \<and> near fs dest j it \<and> (it = iter \<or> it = iter_at fs dest j)
         | (False, it) \<Rightarrow> it = iter_at fs dest k \<and> (\<forall>j<n_fields fs. \<not> found (fs ! j))"
  using find_loop_spec [OF wf k, of dest 0 iter "length fs" found] near_facts [OF wf disjI1 [OF k] near] near k
  by (simp add: n_fields_def)

text \<open>The iterators that the functions of nanopb can produce.\<close>

inductive iter_reach :: "pb_field list \<Rightarrow> nat \<Rightarrow> pb_field_iter \<Rightarrow> bool" for fs dest where
  first: "iter_reach fs dest (snd (pb_field_iter_begin fs dest))"
| step: "iter_reach fs dest it \<Longrightarrow> iter_reach fs dest (snd (pb_field_iter_next it))"
| search: "iter_reach fs dest it \<Longrightarrow> iter_reach fs dest (snd (pb_field_iter_find it tag))"
| search_extension: "iter_reach fs dest it \<Longrightarrow> iter_reach fs dest (snd (find_extension_field it))"

inductive_cases iter_reachE: "iter_reach fs dest it"

lemma find_at:
  assumes wf: "wf_table fs" and k: "k < n_fields fs"
  shows "case find_loop (length (start (iter_at fs dest k))) (pos (iter_at fs dest k)) found (iter_at fs dest k) of
           (True, it) \<Rightarrow> \<exists>j<n_fields fs. found (fs ! j) \<and> it = iter_at fs dest j
         | (False, it) \<Rightarrow> it = iter_at fs dest k \<and> (\<forall>j<n_fields fs. \<not> found (fs ! j))"
proof -
  have near: "near fs dest k (iter_at fs dest k)" by (simp add: near_def)
  obtain b it where r: "find_loop (length (start (iter_at fs dest k))) (pos (iter_at fs dest k)) found (iter_at fs dest k) = (b, it)"
    by (rule prod.exhaust)
  have "j = k" if "near fs dest j (iter_at fs dest k)" "j < n_fields fs" for j
    using near_facts [OF wf disjI1 [OF that(2)] that(1)] iter_at_facts [OF wf disjI1 [OF k], of dest] by simp
  then show ?thesis using find_spec [OF wf k near, of found] unfolding r by (cases b) auto
qed

lemma reach_at:
  assumes "iter_reach fs dest it" and wf: "wf_table fs" and n: "0 < n_fields fs"
  shows "\<exists>k<n_fields fs. it = iter_at fs dest k"
  using assms(1)
proof (induction rule: iter_reach.induct)
  case first
  then show ?case using n by (auto simp: iter_at.simps)
next
  case (step it)
  then obtain k where k: "k < n_fields fs" "it = iter_at fs dest k" by blast
  have "near fs dest k it" by (simp add: near_def k)
  from iter_next [OF wf k(1) this] show ?case using n by auto
next
  case (search it tag)
  then obtain k where k: "k < n_fields fs" "it = iter_at fs dest k" by blast
  show ?case
    using find_at [OF wf k(1), where dest = dest and found = "\<lambda>f. field_tag f = tag \<and> PB_LTYPE (field_type f) \<noteq> PB_LTYPE_EXTENSION"] k
    by (auto simp: pb_field_iter_find_def split: prod.splits bool.splits)
next
  case (search_extension it)
  then obtain k where k: "k < n_fields fs" "it = iter_at fs dest k" by blast
  show ?case
    using find_at [OF wf k(1), where dest = dest and found = "\<lambda>f. PB_LTYPE (field_type f) = PB_LTYPE_EXTENSION"] k
    by (auto simp: find_extension_field_def split: prod.splits bool.splits)
qed

section \<open>Properties\<close>

text \<open>
  C17: The iterator is always one of the fields of the table, however it was moved, and \<open>pb_field_iter_find\<close> is exact
  from wherever it starts: it succeeds if and only if the table has a field with the tag that is not an extension
  range, and then the iterator is at such a field, with the address that iterating from the start gives.
\<close>

theorem iterator_search_exact:
  assumes "wf_table fs" and "0 < n_fields fs" and "iter_reach fs dest it" and "pb_field_iter_find it tag = (found, it')"
  shows "(\<exists>k<n_fields fs. it = iter_at fs dest k) \<and> (\<exists>j<n_fields fs. it' = iter_at fs dest j \<and>
           (found \<longleftrightarrow> field_tag (fs ! j) = tag \<and> PB_LTYPE (field_type (fs ! j)) \<noteq> PB_LTYPE_EXTENSION)) \<and>
         (found \<longleftrightarrow> (\<exists>k<n_fields fs. field_tag (fs ! k) = tag \<and> PB_LTYPE (field_type (fs ! k)) \<noteq> PB_LTYPE_EXTENSION))"
proof -
  obtain k where k: "k < n_fields fs" "it = iter_at fs dest k" using reach_at [OF assms(3,1,2)] by blast
  show ?thesis
    using find_at [OF assms(1) k(1), where dest = dest and found = "\<lambda>f. field_tag f = tag \<and> PB_LTYPE (field_type f) \<noteq> PB_LTYPE_EXTENSION"] k assms(4)
    by (cases found) (auto simp: pb_field_iter_find_def)
qed

theorem iterator_search_exact_witness:
  "let f = \<lambda>t d. \<lparr>field_tag = t, field_type = 1, data_offset = d, size_offset = 0, data_size = 4, array_size = 0, field_ptr = Ptr_null\<rparr>;
       fs = [f 7 0, f 3 0, f 0 0]; it = snd (pb_field_iter_next (snd (pb_field_iter_begin fs 64)))
   in fst (pb_field_iter_find it 7) \<and> \<not> fst (pb_field_iter_find it 8)"
proof -
  define f where "f = (\<lambda>t d. \<lparr>field_tag = t, field_type = 1, data_offset = d, size_offset = 0, data_size = 4, array_size = 0, field_ptr = Ptr_null\<rparr>)"
  define fs where "fs = [f 7 0, f 3 0, f 0 0]"
  have wf: "wf_table fs" "0 < n_fields fs" by (simp_all add: fs_def f_def wf_table_def n_fields_def)
  have n: "n_fields fs = Suc (Suc 0)" by (simp add: fs_def n_fields_def)
  have reach: "iter_reach fs 64 (snd (pb_field_iter_next (snd (pb_field_iter_begin fs 64))))"
    by (intro iter_reach.step iter_reach.first)
  have 7: "\<exists>k<n_fields fs. field_tag (fs ! k) = 7 \<and> PB_LTYPE (field_type (fs ! k)) \<noteq> PB_LTYPE_EXTENSION"
    unfolding n by (rule exI [of _ 0]) (simp add: fs_def f_def PB_LTYPE_def)
  have 8: "\<not> (\<exists>k<n_fields fs. field_tag (fs ! k) = 8 \<and> PB_LTYPE (field_type (fs ! k)) \<noteq> PB_LTYPE_EXTENSION)"
  proof -
    have "field_tag (fs ! 0) = 7" "field_tag (fs ! Suc 0) = 3" by (simp_all add: fs_def f_def)
    then show ?thesis unfolding n by (simp add: Ex_less_Suc)
  qed
  show ?thesis
    unfolding Let_def f_def [symmetric] fs_def [symmetric]
    using iterator_search_exact [OF wf reach prod.collapse [symmetric], of 7] 7
      iterator_search_exact [OF wf reach prod.collapse [symmetric], of 8] 8 by blast
qed

end
