(* ===== verification/PbDecode.thy ===== *)
theory PbDecode
  imports PbIter
begin

text \<open>
  nanopb \<^verbatim>\<open>pb_decode.c\<close>, part 2: decoding a message into a struct in memory.

  The functions for one field get the decoder of submessages, which is \<open>pb_decode_noinit\<close> one level further down, as
  the argument \<open>noinit\<close>, and the fuel \<open>n\<close> for the functions of \<open>PbIter\<close> that they call; \<open>pb_decode_noinit\<close> ties
  the knot by recursion on the fuel, one unit for each level of nesting. A run of one of them yields \<open>None\<close> when the
  fuel was not enough or when a NULL entry of a table would be called, and otherwise the returned boolean and the state:
  the stream and the memory, and for a field also \<open>fixed_count_size\<close>, the local variable of \<open>pb_decode_noinit\<close> that
  \<open>pSize\<close> may point at.
\<close>

type_synonym 's run = "'s dec_state \<Rightarrow> (bool \<times> 's dec_state) option"

type_synonym 's field_run = "'s pb_istream \<times> memory \<times> nat \<Rightarrow> (bool \<times> 's pb_istream \<times> memory \<times> nat) option"

type_synonym 's msg_decoder = "pb_field list \<Rightarrow> nat \<Rightarrow> 's run"

text \<open>\<open>*pSize\<close> for a \<^verbatim>\<open>pb_size_t *\<close>; \<open>fc\<close> is \<open>fixed_count_size\<close>.\<close>

definition get_size :: "size_loc \<Rightarrow> memory \<Rightarrow> nat \<Rightarrow> nat" where
  "get_size p m fc = (case p of At a \<Rightarrow> load_size a m | Fixed_count_size \<Rightarrow> fc)"

definition put_size :: "size_loc \<Rightarrow> nat \<Rightarrow> memory \<Rightarrow> nat \<Rightarrow> memory \<times> nat" where
  "put_size p v m fc =
     (case p of At a \<Rightarrow> (store_size a v m, fc) | Fixed_count_size \<Rightarrow> (m, v mod 2 ^ 32))"

text \<open>A decoder of a member, run with \<open>fixed_count_size\<close> beside it.\<close>

definition keep_fc :: "nat \<Rightarrow> (bool \<times> 's dec_state) option \<Rightarrow> (bool \<times> 's pb_istream \<times> memory \<times> nat) option" where
  "keep_fc fc r = (case r of None \<Rightarrow> None | Some (ok, st, m) \<Rightarrow> Some (ok, st, m, fc))"

section \<open>Submessages\<close>

text \<open>\<open>pb_decode\<close>, given \<open>pb_decode_noinit\<close>.\<close>

definition decode_with :: "'s pb_env \<Rightarrow> nat \<Rightarrow> 's msg_decoder \<Rightarrow> 's msg_decoder" where
  "decode_with env n noinit fs dest s =
     (case pb_message_set_to_defaults env n fs dest (snd s) of
        None \<Rightarrow> None
      | Some m \<Rightarrow>
          (case noinit fs dest (fst s, m) of
             None \<Rightarrow> None
           | Some (True, s) \<Rightarrow> Some (True, s)
           | Some (False, st, m) \<Rightarrow>
               (case pb_release env n fs dest m of None \<Rightarrow> None | Some m \<Rightarrow> Some (False, st, m))))"

definition pb_dec_submessage :: "'s pb_env \<Rightarrow> nat \<Rightarrow> 's msg_decoder \<Rightarrow> pb_field \<Rightarrow> nat \<Rightarrow> 's run" where
  "pb_dec_submessage env n noinit field dest s =
     (case pb_make_string_substream (in_io env) (fst s) of
        (None, st) \<Rightarrow> Some (False, st, snd s)
      | (Some substream, st) \<Rightarrow>
          (if field_ptr field = Ptr_null then Some (False, in_error ''invalid field descriptor'' st, snd s)
           else
             (case (if PB_HTYPE (field_type field) = PB_HTYPE_REPEATED
                    then decode_with env n noinit (submsg_fields env field) dest (substream, snd s)
                    else noinit (submsg_fields env field) dest (substream, snd s)) of
                None \<Rightarrow> None
              | Some (status, substream, m) \<Rightarrow>
                  (case pb_close_string_substream (in_io env) st substream of
                     (False, st, _) \<Rightarrow> Some (False, st, m)
                   | (True, st, _) \<Rightarrow> Some (status, st, m)))))"

text \<open>A call of \<open>PB_DECODERS[PB_LTYPE(type)]\<close>, whose entry for submessages is \<open>pb_dec_submessage\<close>.\<close>

definition call_decoder :: "'s pb_env \<Rightarrow> nat \<Rightarrow> 's msg_decoder \<Rightarrow> pb_field \<Rightarrow> nat \<Rightarrow> 's run" where
  "call_decoder env n noinit field dest s =
     (if PB_LTYPE (field_type field) = PB_LTYPE_SUBMESSAGE then pb_dec_submessage env n noinit field dest s
      else
        (case PB_DECODERS (\<lambda>_ _ s. (False, s)) (realloc_of env) (in_io env) (PB_LTYPE (field_type field)) of
           None \<Rightarrow> None
         | Some func \<Rightarrow> Some (func field dest s)))"

section \<open>Static fields\<close>

text \<open>The loop over a packed array; the bytes left in the substream bound the number of entries.\<close>

primrec static_packed_loop :: "nat \<Rightarrow> (pb_field \<Rightarrow> nat \<Rightarrow> 's run) \<Rightarrow> pb_field_iter \<Rightarrow> 's field_run" where
  "static_packed_loop 0 func iter s =
     (case s of (substream, m, fc) \<Rightarrow>
       if bytes_left substream > 0 \<and> get_size (pSize iter) m fc < array_size (cur_field iter) then None
       else Some (True, substream, m, fc))"
| "static_packed_loop (Suc k) func iter s =
     (case s of (substream, m, fc) \<Rightarrow>
       if bytes_left substream > 0 \<and> get_size (pSize iter) m fc < array_size (cur_field iter)
       then (case func (cur_field iter) (pData iter + data_size (cur_field iter) * get_size (pSize iter) m fc) (substream, m) of
               None \<Rightarrow> None
             | Some (False, substream, m) \<Rightarrow> Some (False, substream, m, fc)
             | Some (True, substream, m) \<Rightarrow>
                 (case put_size (pSize iter) (get_size (pSize iter) m fc + 1) m fc of
                    (m, fc) \<Rightarrow> static_packed_loop k func iter (substream, m, fc)))
       else Some (True, substream, m, fc))"

definition static_packed :: "'s pb_env \<Rightarrow> (pb_field \<Rightarrow> nat \<Rightarrow> 's run) \<Rightarrow> pb_field_iter \<Rightarrow> 's field_run" where
  "static_packed env func iter s =
     (case s of (st, m, fc) \<Rightarrow>
       case pb_make_string_substream (in_io env) st of
         (None, st) \<Rightarrow> Some (False, st, m, fc)
       | (Some substream, st) \<Rightarrow>
           (case static_packed_loop (bytes_left substream) func iter (substream, m, fc) of
              None \<Rightarrow> None
            | Some (status, substream, m, fc) \<Rightarrow>
                (if bytes_left substream \<noteq> 0 then Some (False, in_error ''array overflow'' st, m, fc)
                 else
                   (case pb_close_string_substream (in_io env) st substream of
                      (False, st, _) \<Rightarrow> Some (False, st, m, fc)
                    | (True, st, _) \<Rightarrow> Some (status, st, m, fc)))))"

definition decode_static_field :: "'s pb_env \<Rightarrow> nat \<Rightarrow> 's msg_decoder \<Rightarrow> nat \<Rightarrow> pb_field_iter \<Rightarrow> 's field_run" where
  "decode_static_field env n noinit wire_type iter s =
     (case s of (st, m, fc) \<Rightarrow>
       let f = cur_field iter; type = field_type f; func = call_decoder env n noinit in
       if PB_HTYPE type = PB_HTYPE_REQUIRED then keep_fc fc (func f (pData iter) (st, m))
       else if PB_HTYPE type = PB_HTYPE_OPTIONAL then
         keep_fc fc (func f (pData iter)
                      (st, if pSize iter \<noteq> At (pData iter) then store_bytes (size_addr iter) [1] m else m))
       else if PB_HTYPE type = PB_HTYPE_REPEATED then
         (if wire_type = PB_WT_STRING \<and> PB_LTYPE type \<le> PB_LTYPE_LAST_PACKABLE
          then static_packed env func iter (st, m, fc)
          else
            (let count = get_size (pSize iter) m fc; pItem = pData iter + data_size f * count in
             case put_size (pSize iter) (count + 1) m fc of
               (m, fc) \<Rightarrow>
                 (if count \<ge> array_size f then Some (False, in_error ''array overflow'' st, m, fc)
                  else keep_fc fc (func f pItem (st, m)))))
       else
         (let m = store_size (size_addr iter) (unat (field_tag f)) m in
          if PB_LTYPE type = PB_LTYPE_SUBMESSAGE then
            (case pb_message_set_to_defaults env n (submsg_fields env f) (pData iter)
                    (memset_0 (pData iter) (data_size f) m) of
               None \<Rightarrow> None
             | Some m \<Rightarrow> keep_fc fc (func f (pData iter) (st, m)))
          else keep_fc fc (func f (pData iter) (st, m))))"

section \<open>Fields in allocated memory\<close>

definition initialize_pointer_field :: "'s pb_env \<Rightarrow> nat \<Rightarrow> nat \<Rightarrow> pb_field_iter \<Rightarrow> memory \<Rightarrow> memory option" where
  "initialize_pointer_field env n pItem iter m =
     (let f = cur_field iter; lt = PB_LTYPE (field_type f) in
      if lt = PB_LTYPE_STRING \<or> lt = PB_LTYPE_BYTES then Some (store_ptr pItem 0 m)
      else if lt = PB_LTYPE_SUBMESSAGE
      then pb_message_set_to_defaults env n (submsg_fields env f) pItem (memset_0 pItem (data_size f) m)
      else Some m)"

text \<open>
  The loop over a packed array in allocated memory. \<open>*size\<close> is compared with \<^verbatim>\<open>PB_SIZE_MAX\<close>, which also sets the
  message of the parent stream; the loop therefore yields this message beside its result.
\<close>

primrec pointer_packed_loop ::
    "'s pb_env \<Rightarrow> nat \<Rightarrow> nat \<Rightarrow> (pb_field \<Rightarrow> nat \<Rightarrow> 's run) \<Rightarrow> pb_field_iter \<Rightarrow> nat \<Rightarrow> 's pb_istream \<times> memory \<times> nat \<Rightarrow>
     (bool \<times> string option \<times> 's pb_istream \<times> memory \<times> nat) option" where
  "pointer_packed_loop env n 0 func iter allocated_size s =
     (case s of (substream, m, fc) \<Rightarrow> if bytes_left substream \<noteq> 0 then None else Some (True, None, substream, m, fc))"
| "pointer_packed_loop env n (Suc k) func iter allocated_size s =
     (case s of (substream, m, fc) \<Rightarrow>
       let f = cur_field iter; count = get_size (pSize iter) m fc in
       if bytes_left substream = 0 then Some (True, None, substream, m, fc)
       else if count = PB_SIZE_MAX then Some (False, Some ''too many array entries'', substream, m, fc)
       else
         (case (if count + 1 > allocated_size then
                  (let remain = (bytes_left substream - 1) div data_size f + 1;
                       allocated_size = (if remain < (PB_SIZE_MAX + 2 ^ 64 - allocated_size) mod 2 ^ 64
                                         then (allocated_size + remain) mod 2 ^ 64
                                         else (allocated_size + 1) mod 2 ^ 64)
                   in case allocate_field (realloc_of env) (pData iter) (data_size f) allocated_size (substream, m) of
                        (ok, s) \<Rightarrow> (ok, allocated_size, s))
                else (True, allocated_size, substream, m)) of
            (False, allocated_size, substream, m) \<Rightarrow> Some (False, None, substream, m, fc)
          | (True, allocated_size, substream, m) \<Rightarrow>
              (let pItem = load_ptr (pData iter) m + data_size f * get_size (pSize iter) m fc in
               case initialize_pointer_field env n pItem iter m of
                 None \<Rightarrow> None
               | Some m \<Rightarrow>
                   (case func f pItem (substream, m) of
                      None \<Rightarrow> None
                    | Some (False, substream, m) \<Rightarrow> Some (False, None, substream, m, fc)
                    | Some (True, substream, m) \<Rightarrow>
                        (case put_size (pSize iter) (get_size (pSize iter) m fc + 1) m fc of
                           (m, fc) \<Rightarrow> pointer_packed_loop env n k func iter allocated_size (substream, m, fc))))))"

definition pointer_packed :: "'s pb_env \<Rightarrow> nat \<Rightarrow> (pb_field \<Rightarrow> nat \<Rightarrow> 's run) \<Rightarrow> pb_field_iter \<Rightarrow> 's field_run" where
  "pointer_packed env n func iter s =
     (case s of (st, m, fc) \<Rightarrow>
       let allocated_size = get_size (pSize iter) m fc in
       case pb_make_string_substream (in_io env) st of
         (None, st) \<Rightarrow> Some (False, st, m, fc)
       | (Some substream, st) \<Rightarrow>
           (case pointer_packed_loop env n (bytes_left substream) func iter allocated_size (substream, m, fc) of
              None \<Rightarrow> None
            | Some (status, msg, substream, m, fc) \<Rightarrow>
                (let st = (case msg of None \<Rightarrow> st | Some e \<Rightarrow> st\<lparr>in_errmsg := Some e\<rparr>) in
                 case pb_close_string_substream (in_io env) st substream of
                   (False, st, _) \<Rightarrow> Some (False, st, m, fc)
                 | (True, st, _) \<Rightarrow> Some (status, st, m, fc))))"

definition decode_pointer_field :: "'s pb_env \<Rightarrow> nat \<Rightarrow> 's msg_decoder \<Rightarrow> nat \<Rightarrow> pb_field_iter \<Rightarrow> 's field_run" where
  "decode_pointer_field env n noinit wire_type iter s =
     (case s of (st, m, fc) \<Rightarrow>
       let f = cur_field iter; type = field_type f; func = call_decoder env n noinit in
       if PB_HTYPE type \<noteq> PB_HTYPE_REPEATED then
         (case (if PB_LTYPE type = PB_LTYPE_SUBMESSAGE \<and> load_ptr (pData iter) m \<noteq> 0
                then pb_release_single_field env n iter m else Some m) of
            None \<Rightarrow> None
          | Some m \<Rightarrow>
              (let m = (if PB_HTYPE type = PB_HTYPE_ONEOF then store_size (size_addr iter) (unat (field_tag f)) m else m) in
               if PB_LTYPE type = PB_LTYPE_STRING \<or> PB_LTYPE type = PB_LTYPE_BYTES
               then keep_fc fc (func f (pData iter) (st, m))
               else
                 (case allocate_field (realloc_of env) (pData iter) (data_size f) 1 (st, m) of
                    (False, st, m) \<Rightarrow> Some (False, st, m, fc)
                  | (True, st, m) \<Rightarrow>
                      (case initialize_pointer_field env n (load_ptr (pData iter) m) iter m of
                         None \<Rightarrow> None
                       | Some m \<Rightarrow> keep_fc fc (func f (load_ptr (pData iter) m) (st, m))))))
       else if wire_type = PB_WT_STRING \<and> PB_LTYPE type \<le> PB_LTYPE_LAST_PACKABLE
       then pointer_packed env n func iter (st, m, fc)
       else
         (let count = get_size (pSize iter) m fc in
          if count = PB_SIZE_MAX then Some (False, in_error ''too many array entries'' st, m, fc)
          else
            (case allocate_field (realloc_of env) (pData iter) (data_size f) (count + 1) (st, m) of
               (False, st, m) \<Rightarrow> Some (False, st, m, fc)
             | (True, st, m) \<Rightarrow>
                 (let count = get_size (pSize iter) m fc;
                      pItem = load_ptr (pData iter) m + data_size f * count
                  in case put_size (pSize iter) (count + 1) m fc of
                       (m, fc) \<Rightarrow>
                         (case initialize_pointer_field env n pItem iter m of
                            None \<Rightarrow> None
                          | Some m \<Rightarrow> keep_fc fc (func f pItem (st, m)))))))"

section \<open>Callback fields, and a field of any kind\<close>

text \<open>The loop that calls the callback until the substream is used up.\<close>

primrec callback_loop :: "nat \<Rightarrow> 's run \<Rightarrow> 's run" where
  "callback_loop 0 call s = None"
| "callback_loop (Suc k) call s =
     (case call s of
        None \<Rightarrow> None
      | Some (False, s) \<Rightarrow> Some (False, s)
      | Some (True, s) \<Rightarrow> if bytes_left (fst s) \<noteq> 0 then callback_loop k call s else Some (True, s))"

text \<open>
  A \<^verbatim>\<open>pb_callback_t\<close> is the function pointer and, 8 bytes behind it, \<open>arg\<close>. The number of calls is bounded by the
  fuel.
\<close>

definition decode_callback_field :: "'s pb_env \<Rightarrow> nat \<Rightarrow> nat \<Rightarrow> pb_field_iter \<Rightarrow> 's run" where
  "decode_callback_field env n wire_type iter s =
     (case s of (st, m) \<Rightarrow>
       if pData iter = 0 \<or> load_ptr (pData iter) m = 0
       then (case pb_skip_field (in_io env) st wire_type of (ok, st) \<Rightarrow> Some (ok, st, m))
       else
         (let decode = decode_fn env (load_ptr (pData iter) m) (cur_field iter) (pData iter + 8) in
          if wire_type = PB_WT_STRING then
            (case pb_make_string_substream (in_io env) st of
               (None, st) \<Rightarrow> Some (False, st, m)
             | (Some substream, st) \<Rightarrow>
                 (case callback_loop n (\<lambda>s. Some (decode s)) (substream, m) of
                    None \<Rightarrow> None
                  | Some (False, _, m) \<Rightarrow> Some (False, in_error ''callback failed'' st, m)
                  | Some (True, substream, m) \<Rightarrow>
                      (case pb_close_string_substream (in_io env) st substream of
                         (ok, st, _) \<Rightarrow> Some (ok, st, m))))
          else
            (case read_raw_value (in_io env) st wire_type 10 of
               (None, st) \<Rightarrow> Some (False, st, m)
             | (Some buffer, st) \<Rightarrow>
                 (case decode (pb_istream_from_buffer buffer (length buffer), m) of
                    (ok, _, m) \<Rightarrow> Some (ok, st, m)))))"

text \<open>The result is whether the call succeeded and the iterator, which points at the same field again.\<close>

definition pb_release_union_field ::
    "'s pb_env \<Rightarrow> nat \<Rightarrow> pb_field_iter \<Rightarrow> 's dec_state \<Rightarrow> (bool \<times> pb_field_iter \<times> 's dec_state) option" where
  "pb_release_union_field env n iter s =
     (case s of (st, m) \<Rightarrow>
       let old_tag = load_size (size_addr iter) m; new_tag = field_tag (cur_field iter) in
       if old_tag = 0 \<or> old_tag = unat new_tag then Some (True, iter, st, m)
       else
         (case pb_field_iter_find iter (of_nat old_tag) of
            (False, iter) \<Rightarrow> Some (False, iter, in_error ''invalid union tag'' st, m)
          | (True, iter) \<Rightarrow>
              (case pb_release_single_field env n iter m of
                 None \<Rightarrow> None
               | Some m \<Rightarrow>
                   (case pb_field_iter_find iter new_tag of
                      (False, iter) \<Rightarrow> Some (False, iter, in_error ''iterator error'' st, m)
                    | (True, iter) \<Rightarrow> Some (True, iter, st, m)))))"

definition decode_field :: "'s pb_env \<Rightarrow> nat \<Rightarrow> 's msg_decoder \<Rightarrow> nat \<Rightarrow> pb_field_iter \<Rightarrow> 's field_run" where
  "decode_field env n noinit wire_type iter s =
     (case s of (st, m, fc) \<Rightarrow>
       case (if PB_HTYPE (field_type (cur_field iter)) = PB_HTYPE_ONEOF
             then pb_release_union_field env n iter (st, m) else Some (True, iter, st, m)) of
         None \<Rightarrow> None
       | Some (False, iter, st, m) \<Rightarrow> Some (False, st, m, fc)
       | Some (True, iter, st, m) \<Rightarrow>
           (let atype = PB_ATYPE (field_type (cur_field iter)) in
            if atype = PB_ATYPE_STATIC then decode_static_field env n noinit wire_type iter (st, m, fc)
            else if atype = PB_ATYPE_POINTER then decode_pointer_field env n noinit wire_type iter (st, m, fc)
            else if atype = PB_ATYPE_CALLBACK then keep_fc fc (decode_callback_field env n wire_type iter (st, m))
            else Some (False, in_error ''invalid field type'' st, m, fc)))"

section \<open>Extensions\<close>

definition default_extension_decoder ::
    "'s pb_env \<Rightarrow> nat \<Rightarrow> 's msg_decoder \<Rightarrow> nat \<Rightarrow> u32 \<Rightarrow> nat \<Rightarrow> 's run" where
  "default_extension_decoder env n noinit extension tag wire_type s =
     (case s of (st, m) \<Rightarrow>
       if field_tag (ext_arg (ext_types env (load_ptr extension m)) ! 0) \<noteq> tag then Some (True, st, m)
       else
         (let iter = iter_from_extension env extension m; m = store_bytes (extension + 24) [1] m in
          case decode_field env n noinit wire_type iter (st, m, 0) of
            None \<Rightarrow> None
          | Some (ok, st, m, _) \<Rightarrow> Some (ok, st, m)))"

text \<open>The loop over the linked list; \<open>pos\<close> is what \<open>bytes_left\<close> was at first. The fuel bounds the list.\<close>

primrec extension_loop ::
    "'s pb_env \<Rightarrow> nat \<Rightarrow> 's msg_decoder \<Rightarrow> u32 \<Rightarrow> nat \<Rightarrow> nat \<Rightarrow> nat \<Rightarrow> nat \<Rightarrow> 's run" where
  "extension_loop env n noinit tag wire_type left 0 extension s = None"
| "extension_loop env n noinit tag wire_type left (Suc k) extension s =
     (if extension \<noteq> 0 \<and> left = bytes_left (fst s) then
        (let d = ext_decode (ext_types env (load_ptr extension (snd s))) in
         case (if d \<noteq> 0 then Some (ext_decode_fn env d extension tag wire_type s)
               else default_extension_decoder env n noinit extension tag wire_type s) of
           None \<Rightarrow> None
         | Some (False, s) \<Rightarrow> Some (False, s)
         | Some (True, s) \<Rightarrow>
             extension_loop env n noinit tag wire_type left k (load_ptr (extension + 16) (snd s)) s)
      else Some (True, s))"

definition decode_extension ::
    "'s pb_env \<Rightarrow> nat \<Rightarrow> 's msg_decoder \<Rightarrow> u32 \<Rightarrow> nat \<Rightarrow> pb_field_iter \<Rightarrow> 's run" where
  "decode_extension env n noinit tag wire_type iter s =
     extension_loop env n noinit tag wire_type (bytes_left (fst s)) n (load_ptr (pData iter) (snd s)) s"

section \<open>All fields of a message\<close>

text \<open>The local variables of \<open>pb_decode_noinit\<close>.\<close>

record msg_locals =
  fields_seen :: "u32 list"
  extension_range_start :: u32
  local_iter :: pb_field_iter
  fixed_count_field :: "nat option"
  fixed_count_size :: nat

abbreviation (input) PB_MAX_REQUIRED_FIELDS :: nat where "PB_MAX_REQUIRED_FIELDS \<equiv> 64"

text \<open>The branch for a tag without a field: an extension, or data to be skipped.\<close>

definition decode_unknown ::
    "'s pb_env \<Rightarrow> nat \<Rightarrow> 's msg_decoder \<Rightarrow> u32 \<Rightarrow> nat \<Rightarrow> msg_locals \<Rightarrow> 's dec_state \<Rightarrow>
     (bool \<times> msg_locals \<times> 's dec_state) option" where
  "decode_unknown env n noinit tag wire_type l s =
     (let skip = (\<lambda>l s. case pb_skip_field (in_io env) (fst s) wire_type of (ok, st) \<Rightarrow> Some (ok, l, st, snd s)) in
      if tag \<ge> extension_range_start l then
        (case find_extension_field (local_iter l) of
           (found, iter) \<Rightarrow>
             (let l = l\<lparr>local_iter := iter,
                        extension_range_start := (if found then field_tag (cur_field iter) else - 1)\<rparr> in
              if tag \<ge> extension_range_start l then
                (case decode_extension env n noinit tag wire_type iter s of
                   None \<Rightarrow> None
                 | Some (False, s') \<Rightarrow> Some (False, l, s')
                 | Some (True, s') \<Rightarrow>
                     if bytes_left (fst s) \<noteq> bytes_left (fst s') then Some (True, l, s') else skip l s')
              else skip l s))
      else skip l s)"

text \<open>
  The part that makes \<open>pSize\<close> of a repeated field without a counter point at \<open>fixed_count_size\<close>; \<open>None\<close> is the
  error that the field before it had the wrong number of entries.
\<close>

definition select_fixed_count :: "msg_locals \<Rightarrow> msg_locals option" where
  "select_fixed_count l =
     (let iter = local_iter l in
      if PB_HTYPE (field_type (cur_field iter)) = PB_HTYPE_REPEATED \<and> pSize iter = At (pData iter) then
        (let redirect = local_iter_update (pSize_update (\<lambda>_. Fixed_count_size)) in
         if fixed_count_field l \<noteq> Some (pos iter) then
           (case fixed_count_field l of
              Some p \<Rightarrow>
                if fixed_count_size l \<noteq> array_size (start iter ! p) then None
                else Some (redirect (l\<lparr>fixed_count_field := Some (pos iter), fixed_count_size := 0\<rparr>))
            | None \<Rightarrow> Some (redirect (l\<lparr>fixed_count_field := Some (pos iter), fixed_count_size := 0\<rparr>)))
         else Some (redirect l))
      else Some l)"

definition mark_required :: "msg_locals \<Rightarrow> msg_locals" where
  "mark_required l =
     (let iter = local_iter l; k = required_field_index iter in
      if PB_HTYPE (field_type (cur_field iter)) = PB_HTYPE_REQUIRED \<and> k < PB_MAX_REQUIRED_FIELDS
      then l\<lparr>fields_seen := (fields_seen l)[k div 32 := fields_seen l ! (k div 32) OR push_bit (k mod 32) 1]\<rparr>
      else l)"

text \<open>
  The loop over the fields of the input. Every turn reads a tag, so the bytes left bound the number of turns for
  callbacks that do not give bytes back to the stream.
\<close>

primrec decode_loop ::
    "'s pb_env \<Rightarrow> nat \<Rightarrow> 's msg_decoder \<Rightarrow> nat \<Rightarrow> msg_locals \<Rightarrow> 's dec_state \<Rightarrow> (bool \<times> msg_locals \<times> 's dec_state) option" where
  "decode_loop env n noinit 0 l s = (if bytes_left (fst s) \<noteq> 0 then None else Some (True, l, s))"
| "decode_loop env n noinit (Suc k) l s =
     (if bytes_left (fst s) = 0 then Some (True, l, s)
      else
        (case pb_decode_tag (in_io env) (fst s) of
           (False, _, _, eof, st) \<Rightarrow> Some (eof, l, st, snd s)
         | (True, wire_type, tag, eof, st) \<Rightarrow>
             (case pb_field_iter_find (local_iter l) tag of
                (False, iter) \<Rightarrow>
                  (case decode_unknown env n noinit tag wire_type (l\<lparr>local_iter := iter\<rparr>) (st, snd s) of
                     None \<Rightarrow> None
                   | Some (False, l, s) \<Rightarrow> Some (False, l, s)
                   | Some (True, l, s) \<Rightarrow> decode_loop env n noinit k l s)
              | (True, iter) \<Rightarrow>
                  (case select_fixed_count (l\<lparr>local_iter := iter\<rparr>) of
                     None \<Rightarrow> Some (False, l, in_error ''wrong size for fixed count field'' st, snd s)
                   | Some l \<Rightarrow>
                       (let l = mark_required l in
                        case decode_field env n noinit wire_type (local_iter l) (st, snd s, fixed_count_size l) of
                          None \<Rightarrow> None
                        | Some (False, st, m, fc) \<Rightarrow> Some (False, l\<lparr>fixed_count_size := fc\<rparr>, st, m)
                        | Some (True, st, m, fc) \<Rightarrow>
                            decode_loop env n noinit k (l\<lparr>fixed_count_size := fc\<rparr>) (st, m))))))"

text \<open>
  The loop that seeks the end of the descriptors: \<open>req_field_count\<close>, \<open>last_type\<close> and the iterator after it. The
  length of the table bounds its steps.
\<close>

fun seek_end :: "nat \<Rightarrow> pb_field_iter \<Rightarrow> nat \<times> u8 \<times> pb_field_iter" where
  "seek_end 0 iter = (required_field_index iter, field_type (cur_field iter), iter)"
| "seek_end (Suc k) iter =
     (case pb_field_iter_next iter of
        (True, iter') \<Rightarrow> seek_end k iter'
      | (False, iter') \<Rightarrow> (required_field_index iter, field_type (cur_field iter), iter'))"

definition required_count :: "pb_field_iter \<Rightarrow> nat" where
  "required_count iter =
     (case seek_end (length (start iter)) iter of
        (count, last_type, iter) \<Rightarrow>
          (let count = (if PB_HTYPE last_type = PB_HTYPE_REQUIRED \<and> field_tag (cur_field iter) \<noteq> 0
                        then (count + 1) mod 2 ^ 32 else count)
           in if count > PB_MAX_REQUIRED_FIELDS then PB_MAX_REQUIRED_FIELDS else count))"

definition all_required_seen :: "nat \<Rightarrow> u32 list \<Rightarrow> bool" where
  "all_required_seen count seen \<longleftrightarrow>
     count = 0 \<or>
     (\<forall>i\<in>set [0..<count div 32]. seen ! i = - 1) \<and>
     (count mod 32 \<noteq> 0 \<longrightarrow> seen ! (count div 32) = drop_bit (32 - count mod 32) (- 1))"

text \<open>The checks behind the loop.\<close>

definition decode_checks :: "msg_locals \<Rightarrow> 's dec_state \<Rightarrow> bool \<times> 's dec_state" where
  "decode_checks l s =
     (if (case fixed_count_field l of
            None \<Rightarrow> False
          | Some p \<Rightarrow> fixed_count_size l \<noteq> array_size (start (local_iter l) ! p))
      then (False, in_error ''wrong size for fixed count field'' (fst s), snd s)
      else if \<not> all_required_seen (required_count (local_iter l)) (fields_seen l)
      then (False, in_error ''missing required field'' (fst s), snd s)
      else (True, s))"

definition first_locals :: "pb_field list \<Rightarrow> nat \<Rightarrow> msg_locals" where
  "first_locals fs dest =
     \<lparr>fields_seen = [0, 0], extension_range_start = 0, local_iter = snd (pb_field_iter_begin fs dest),
      fixed_count_field = None, fixed_count_size = 0\<rparr>"

fun pb_decode_noinit :: "'s pb_env \<Rightarrow> nat \<Rightarrow> 's msg_decoder" where
  "pb_decode_noinit env 0 fs dest s = None"
| "pb_decode_noinit env (Suc n) fs dest s =
     (case decode_loop env n (pb_decode_noinit env n) (bytes_left (fst s)) (first_locals fs dest) s of
        None \<Rightarrow> None
      | Some (False, l, s) \<Rightarrow> Some (False, s)
      | Some (True, l, s) \<Rightarrow> Some (decode_checks l s))"

definition pb_decode :: "'s pb_env \<Rightarrow> nat \<Rightarrow> 's msg_decoder" where
  "pb_decode env n = decode_with env n (pb_decode_noinit env n)"

definition decode_delimited :: "'s pb_env \<Rightarrow> 's msg_decoder \<Rightarrow> 's msg_decoder" where
  "decode_delimited env decode fs dest s =
     (case pb_make_string_substream (in_io env) (fst s) of
        (None, st) \<Rightarrow> Some (False, st, snd s)
      | (Some substream, st) \<Rightarrow>
          (case decode fs dest (substream, snd s) of
             None \<Rightarrow> None
           | Some (status, substream, m) \<Rightarrow>
               (case pb_close_string_substream (in_io env) st substream of
                  (False, st, _) \<Rightarrow> Some (False, st, m)
                | (True, st, _) \<Rightarrow> Some (status, st, m))))"

definition pb_decode_delimited_noinit :: "'s pb_env \<Rightarrow> nat \<Rightarrow> 's msg_decoder" where
  "pb_decode_delimited_noinit env n = decode_delimited env (pb_decode_noinit env n)"

definition pb_decode_delimited :: "'s pb_env \<Rightarrow> nat \<Rightarrow> 's msg_decoder" where
  "pb_decode_delimited env n = decode_delimited env (pb_decode env n)"

definition pb_decode_nullterminated :: "'s pb_env \<Rightarrow> nat \<Rightarrow> 's msg_decoder" where
  "pb_decode_nullterminated env n = pb_decode env n"

end
