(* ===== verification/PbRequired.thy ===== *)
theory PbRequired
  imports PbDecode
begin

text \<open>
  Which required fields \<^verbatim>\<open>pb_decode\<close> insists on: the bit set of fields that were found, and the tests at the end of
  \<^verbatim>\<open>pb_decode_noinit\<close>.
\<close>

section \<open>Bit sets\<close>

text \<open>Field \<open>k\<close> of the bit set \<open>fields_seen\<close>.\<close>

definition seen :: "u32 list \<Rightarrow> nat \<Rightarrow> bool" where
  "seen s k \<longleftrightarrow> bit (s ! (k div 32)) (k mod 32)"

lemma bit_single: "bit (push_bit (k mod 32) 1 :: u32) m \<longleftrightarrow> m = k mod 32"
  by (auto simp: bit_exp_iff)

lemma seen_mark:
  assumes "length s = 2" and "k < 64" and "j < 64"
  shows "seen (s[k div 32 := s ! (k div 32) OR push_bit (k mod 32) 1]) j \<longleftrightarrow> seen s j \<or> j = k"
proof -
  have "k div 32 < length s" using assms(1,2) by simp
  moreover have "j = k \<longleftrightarrow> j div 32 = k div 32 \<and> j mod 32 = k mod 32" by (metis div_mult_mod_eq)
  ultimately show ?thesis
    unfolding seen_def by (cases "j div 32 = k div 32") (auto simp: nth_list_update bit_or_iff bit_exp_iff)
qed

lemma all_bits: "x = (- 1 :: u32) \<longleftrightarrow> (\<forall>i<32. bit x i)"
proof
  assume "\<forall>i<32. bit x i"
  then show "x = - 1" by (intro bit_word_eqI) simp
qed simp

lemma low_bits_eq:
  assumes "n < 32" and "\<And>i. bit x i \<Longrightarrow> i < n"
  shows "x = drop_bit (32 - n) (- 1 :: u32) \<longleftrightarrow> (\<forall>i<n. bit x i)"
proof
  assume "x = drop_bit (32 - n) (- 1)"
  then show "\<forall>i<n. bit x i" using assms(1) by (simp add: bit_simps)
next
  assume r: "\<forall>i<n. bit x i"
  show "x = drop_bit (32 - n) (- 1)"
  proof (rule bit_word_eqI)
    fix i assume "i < LENGTH(32)"
    then show "bit x i = bit (drop_bit (32 - n) (- 1 :: u32)) i"
      using r assms by (auto simp: bit_simps)
  qed
qed

lemma all_div_mod:
  "(\<forall>k<c. P k) \<longleftrightarrow> (\<forall>i<c div 32. \<forall>j<32. P (32 * i + j)) \<and> (\<forall>j<c mod 32. P (32 * (c div 32) + j))" for c :: nat
proof (intro iffI conjI allI impI)
  fix i j assume p: "\<forall>k<c. P k" and i: "i < c div 32" and j: "j < (32 :: nat)"
  have "32 * Suc i \<le> 32 * (c div 32)" using i by (intro mult_le_mono2) simp
  also have "\<dots> \<le> c" by simp
  finally show "P (32 * i + j)" using p j by simp
next
  fix j assume "\<forall>k<c. P k" and "j < c mod 32"
  then show "P (32 * (c div 32) + j)" by (metis add_less_cancel_left mult_div_mod_eq)
next
  fix k assume p: "(\<forall>i<c div 32. \<forall>j<32. P (32 * i + j)) \<and> (\<forall>j<c mod 32. P (32 * (c div 32) + j))" and k: "k < c"
  have k': "k = 32 * (k div 32) + k mod 32" by simp
  show "P k"
  proof (cases "k div 32 < c div 32")
    case True
    moreover have "k mod 32 < 32" by simp
    ultimately have "P (32 * (k div 32) + k mod 32)" using p by blast
    then show ?thesis by simp
  next
    case False
    then have e: "k div 32 = c div 32" using k div_le_mono [of k c 32] by simp
    then have "k mod 32 < c mod 32" using k by (metis add_less_cancel_left mult_div_mod_eq)
    then have "P (32 * (c div 32) + k mod 32)" using p by blast
    then show ?thesis using e by (metis mult_div_mod_eq)
  qed
qed

text \<open>The check at the end looks at exactly the first \<open>count\<close> bits.\<close>

lemma all_required_seen_iff:
  assumes high: "\<And>k. k < 64 \<Longrightarrow> seen s k \<Longrightarrow> k < count" and count: "count \<le> 64"
  shows "all_required_seen count s \<longleftrightarrow> (\<forall>k<count. seen s k)"
proof -
  have at: "seen s (32 * i + j) \<longleftrightarrow> bit (s ! i) j" if "j < 32" for i j using that by (simp add: seen_def)
  have full: "s ! i = - 1 \<longleftrightarrow> (\<forall>j<32. seen s (32 * i + j))" for i using at by (simp add: all_bits)
  have part: "s ! (count div 32) = drop_bit (32 - count mod 32) (- 1) \<longleftrightarrow> (\<forall>j<count mod 32. seen s (32 * (count div 32) + j))"
    if c: "count mod 32 \<noteq> 0"
  proof -
    have "j < count mod 32" if "bit (s ! (count div 32)) j" for j
    proof -
      have j: "j < 32" using bit_imp_le_length [OF that] by simp
      have "count < 64" using c count by (cases "count = 64") auto
      then have "count div 32 < 2" by (simp add: div_less_iff_less_mult)
      then have "32 * (count div 32) + j < 64" using j by simp
      then have "32 * (count div 32) + j < count" using high at [OF j] that by blast
      then show ?thesis by (metis add_less_cancel_left mult_div_mod_eq)
    qed
    then have "s ! (count div 32) = drop_bit (32 - count mod 32) (- 1) \<longleftrightarrow> (\<forall>j<count mod 32. bit (s ! (count div 32)) j)"
      by (intro low_bits_eq) simp
    moreover have "(\<forall>j<count mod 32. bit (s ! (count div 32)) j) \<longleftrightarrow> (\<forall>j<count mod 32. seen s (32 * (count div 32) + j))"
      using at by (metis mod_less_divisor order.strict_trans zero_less_numeral)
    ultimately show ?thesis by simp
  qed
  show ?thesis
    unfolding all_required_seen_def all_div_mod [of count]
    using part full by (cases "count = 0"; cases "count mod 32 = 0") (auto simp: set_upt)
qed
section \<open>The required fields of a table\<close>

definition is_required :: "pb_field \<Rightarrow> bool" where
  "is_required f \<longleftrightarrow> PB_HTYPE (field_type f) = PB_HTYPE_REQUIRED"

text \<open>The number of required fields before field \<open>k\<close>.\<close>

definition required_before :: "pb_field list \<Rightarrow> nat \<Rightarrow> nat" where
  "required_before fs k = length (filter is_required (take k fs))"

lemma required_before_Suc:
  "k < length fs \<Longrightarrow> required_before fs (Suc k) = required_before fs k + (if is_required (fs ! k) then 1 else 0)"
  by (simp add: required_before_def take_Suc_conv_app_nth)

lemma required_before_mono: "j \<le> k \<Longrightarrow> required_before fs j \<le> required_before fs k"
  unfolding required_before_def by (metis le_add1 filter_append length_append take_add le_Suc_ex)

lemma required_before_less:
  assumes "is_required (fs ! j)" and "j < k" and "k \<le> length fs"
  shows "required_before fs j < required_before fs k"
  using required_before_Suc [of j fs] required_before_mono [of "Suc j" k fs] assms by simp

lemma required_before_inj:
  assumes "is_required (fs ! j)" "is_required (fs ! k)" "j < length fs" "k < length fs"
    "required_before fs j = required_before fs k"
  shows "j = k"
  using required_before_less [of fs j k] required_before_less [of fs k j] assms by (metis less_imp_le less_irrefl linorder_neqE_nat)

lemma required_before_onto:
  "i < required_before fs n \<Longrightarrow> n \<le> length fs \<Longrightarrow> \<exists>k<n. is_required (fs ! k) \<and> required_before fs k = i"
proof (induction n)
  case 0
  then show ?case by (simp add: required_before_def)
next
  case (Suc n)
  then show ?case
    using required_before_Suc [of n fs] by (cases "i < required_before fs n") (auto simp: less_Suc_eq split: if_splits)
qed

lemma required_index:
  assumes wf: "wf_table fs" and len: "length fs < 2 ^ 32" and k: "k < n_fields fs"
  shows "required_field_index (iter_at fs dest k) = required_before fs k"
  using k
proof (induction k)
  case 0
  then show ?case by (simp add: iter_at.simps pb_field_iter_begin_def required_before_def Let_def)
next
  case (Suc k)
  then have k: "k < n_fields fs" by simp
  then have l: "k < length fs" by (simp add: n_fields_def)
  have at: "cur_field (iter_at fs dest k) = fs ! k" "start (iter_at fs dest k) = fs" "pos (iter_at fs dest k) = k"
    using iter_at_facts [OF wf disjI1 [OF k], of dest] by (simp_all add: cur_field_def)
  have "required_before fs (Suc k) \<le> Suc k" by (simp add: required_before_def) (metis length_filter_le length_take min.bounded_iff)
  then have small: "required_before fs (Suc k) < 2 ^ 32" using len l by simp
  have nz: "field_tag (fs ! k) \<noteq> 0" "field_tag (fs ! Suc k) \<noteq> 0" using wf_table_tag [OF wf] k Suc.prems by blast+
  show ?case
    using Suc.IH [OF k] small nz required_before_Suc [OF l]
    by (auto simp: iter_at.simps(2) pb_field_iter_next_def at Let_def is_required_def cur_field_def split: if_splits)
qed

lemma seek_end_spec:
  assumes wf: "wf_table fs"
  shows "p < n_fields fs \<Longrightarrow> n_fields fs - p \<le> c \<Longrightarrow>
    seek_end c (iter_at fs dest p) =
      (required_field_index (iter_at fs dest (n_fields fs - 1)), field_type (fs ! (n_fields fs - 1)), iter_at fs dest 0)"
proof (induction c arbitrary: p)
  case (Suc c)
  have near: "near fs dest p (iter_at fs dest p)" by (simp add: near_def)
  note next' = iter_next [OF wf Suc.prems(1) near]
  show ?case
  proof (cases "Suc p < n_fields fs")
    case True
    moreover have "n_fields fs - Suc p \<le> c" using Suc.prems(2) by simp
    ultimately show ?thesis using Suc.IH next' by simp
  next
    case False
    then have "p = n_fields fs - 1" using Suc.prems(1) by simp
    then show ?thesis
      using next' False near_facts [OF wf disjI1 [OF Suc.prems(1)] near] by simp
  qed
qed simp

lemma required_count_spec:
  assumes wf: "wf_table fs" and len: "length fs < 2 ^ 32" and p: "p < n_fields fs"
  shows "required_count (iter_at fs dest p) = min 64 (required_before fs (n_fields fs))"
proof -
  let ?n = "n_fields fs - 1"
  have n: "?n < n_fields fs" "0 < n_fields fs" "Suc ?n = n_fields fs" "?n < length fs" using p by (simp_all add: n_fields_def)
  have facts: "start (iter_at fs dest p) = fs" "cur_field (iter_at fs dest 0) = fs ! 0"
    using iter_at_facts [OF wf disjI1 [OF p]] iter_at_facts [OF wf disjI1 [OF n(2)]] by (simp_all add: cur_field_def)
  have seek: "seek_end (length fs) (iter_at fs dest p)
      = (required_before fs ?n, field_type (fs ! ?n), iter_at fs dest 0)"
    using seek_end_spec [OF wf p, of "length fs" dest] required_index [OF wf len n(1), of dest] by (simp add: n_fields_def)
  have "required_before fs (n_fields fs) \<le> n_fields fs"
    by (simp add: required_before_def) (metis length_filter_le length_take min.bounded_iff)
  then have small: "required_before fs (n_fields fs) < 2 ^ 32" using len by (simp add: n_fields_def)
  show ?thesis
    using seek small required_before_Suc [OF n(4)] n(3) wf_table_tag [OF wf n(2)]
    by (auto simp: required_count_def facts is_required_def Let_def)
qed

text \<open>The local variables after the fields \<open>ps\<close> were found one after the other.\<close>

definition mark_all :: "pb_field list \<Rightarrow> nat \<Rightarrow> nat list \<Rightarrow> msg_locals" where
  "mark_all fs dest ps = fold (\<lambda>p l. mark_required (l\<lparr>local_iter := iter_at fs dest p\<rparr>)) ps (first_locals fs dest)"

lemma mark_all_seen:
  assumes wf: "wf_table fs" and len: "length fs < 2 ^ 32"
  shows "\<forall>p\<in>set ps. p < n_fields fs \<Longrightarrow> length (fields_seen (mark_all fs dest ps)) = 2 \<and>
    (\<forall>i<64. seen (fields_seen (mark_all fs dest ps)) i \<longleftrightarrow>
       (\<exists>p\<in>set ps. is_required (fs ! p) \<and> required_before fs p = i))"
proof (induction ps rule: rev_induct)
  case Nil
  have "\<not> seen [0, 0] i" if "i < 64" for i
  proof -
    have "i div 32 = 0 \<or> i div 32 = 1" using that by auto
    then show ?thesis by (auto simp: seen_def)
  qed
  then show ?case by (simp add: mark_all_def first_locals_def)
next
  case (snoc p ps)
  then have p: "p < n_fields fs" and ih: "length (fields_seen (mark_all fs dest ps)) = 2"
    "\<And>i. i < 64 \<Longrightarrow> seen (fields_seen (mark_all fs dest ps)) i \<longleftrightarrow> (\<exists>p\<in>set ps. is_required (fs ! p) \<and> required_before fs p = i)"
    by auto
  let ?s = "fields_seen (mark_all fs dest ps)" and ?k = "required_before fs p"
  have at: "cur_field (iter_at fs dest p) = fs ! p" "required_field_index (iter_at fs dest p) = ?k"
    using iter_at_facts [OF wf disjI1 [OF p], of dest] required_index [OF wf len p] by (simp_all add: cur_field_def)
  have step: "fields_seen (mark_all fs dest (ps @ [p])) =
      (if is_required (fs ! p) \<and> ?k < 64 then ?s[?k div 32 := ?s ! (?k div 32) OR push_bit (?k mod 32) 1] else ?s)"
    using at by (simp add: mark_all_def mark_required_def is_required_def Let_def)
  show ?case
    unfolding step using ih seen_mark [OF ih(1), of ?k] by auto
qed

section \<open>Properties\<close>

text \<open>
  C16: Required fields are enforced, the first 64 of them: after the fields \<open>ps\<close> of a table were found in the input, in any
  order and with repetitions, the bit tests at the end of \<open>pb_decode_noinit\<close> pass if and only if \<open>ps\<close> has every required
  field with fewer than 64 required fields before it, from wherever the search for the end of the table starts.
\<close>

theorem required_fields_enforced:
  assumes "wf_table fs" and "length fs < 2 ^ 32" and "\<forall>p\<in>set ps. p < n_fields fs" and "q < n_fields fs"
  shows "all_required_seen (required_count (iter_at fs dest q)) (fields_seen (mark_all fs dest ps)) \<longleftrightarrow>
    (\<forall>k<n_fields fs. is_required (fs ! k) \<and> required_before fs k < 64 \<longrightarrow> k \<in> set ps)"
proof -
  let ?c = "required_count (iter_at fs dest q)" and ?s = "fields_seen (mark_all fs dest ps)"
  have c: "?c = min 64 (required_before fs (n_fields fs))" by (rule required_count_spec [OF assms(1,2,4)])
  have n: "n_fields fs \<le> length fs" by (simp add: n_fields_def)
  note marks = mark_all_seen [OF assms(1,2,3), of dest]
  have high: "k < ?c" if "k < 64" "seen ?s k" for k
    using that marks required_before_less [OF _ _ n] assms(3) unfolding c by fastforce
  have "(\<forall>i<?c. seen ?s i) \<longleftrightarrow> (\<forall>k<n_fields fs. is_required (fs ! k) \<and> required_before fs k < 64 \<longrightarrow> k \<in> set ps)"
  proof (intro iffI allI impI)
    fix k assume a: "\<forall>i<?c. seen ?s i" and k: "k < n_fields fs" "is_required (fs ! k) \<and> required_before fs k < 64"
    then have "required_before fs k < ?c" using required_before_less [OF _ k(1) n] unfolding c by simp
    then have "seen ?s (required_before fs k)" using a by blast
    then obtain p where "p \<in> set ps" "is_required (fs ! p)" "required_before fs p = required_before fs k"
      using marks k(2) by auto
    then show "k \<in> set ps" using required_before_inj [of fs p k] k assms(3) n by (metis order.strict_trans2)
  next
    fix i assume a: "\<forall>k<n_fields fs. is_required (fs ! k) \<and> required_before fs k < 64 \<longrightarrow> k \<in> set ps" and i: "i < ?c"
    then obtain k where "k < n_fields fs" "is_required (fs ! k)" "required_before fs k = i"
      using required_before_onto [OF _ n, of i] unfolding c by auto
    then show "seen ?s i" using a i marks unfolding c by auto
  qed
  then show ?thesis using all_required_seen_iff [of ?s ?c] high c by simp
qed

theorem required_fields_enforced_witness:
  "let f = \<lambda>t ty. \<lparr>field_tag = t, field_type = ty, data_offset = 0, size_offset = 0, data_size = 4, array_size = 0, field_ptr = Ptr_null\<rparr>;
       fs = [f 1 0x01, f 2 0x11, f 3 0x01, f 0 0]
   in \<not> all_required_seen (required_count (iter_at fs 64 1)) (fields_seen (mark_all fs 64 [0, 1]))
      \<and> all_required_seen (required_count (iter_at fs 64 1)) (fields_seen (mark_all fs 64 [2, 0]))"
proof -
  define f where "f = (\<lambda>t ty. \<lparr>field_tag = t, field_type = ty, data_offset = 0, size_offset = 0, data_size = 4, array_size = 0, field_ptr = Ptr_null\<rparr>)"
  define fs where "fs = [f 1 0x01, f 2 0x11, f 3 0x01, f 0 0]"
  have wf: "wf_table fs" "length fs < 2 ^ 32" by (simp_all add: fs_def f_def wf_table_def)
  have n: "n_fields fs = Suc (Suc (Suc 0))" by (simp add: fs_def n_fields_def)
  have req: "is_required (fs ! 0)" "\<not> is_required (fs ! Suc 0)" "is_required (fs ! Suc (Suc 0))"
    "required_before fs 0 = 0" "required_before fs (Suc (Suc 0)) = 1"
    by (simp_all add: fs_def f_def is_required_def required_before_def PB_HTYPE_def)
  have ps: "\<forall>p\<in>set [0, 1]. p < n_fields fs" "\<forall>p\<in>set [2, 0]. p < n_fields fs" "1 < n_fields fs" by (simp_all add: n)
  show ?thesis
    unfolding Let_def f_def [symmetric] fs_def [symmetric]
    unfolding required_fields_enforced [OF wf ps(1,3)] required_fields_enforced [OF wf ps(2,3)] n All_less_Suc
    by (simp add: req)
qed

end
