(* ===== verification/PbEncode.thy ===== *)
theory PbEncode
  imports PbIter PbCodec
begin

text \<open>
  nanopb \<^verbatim>\<open>pb_encode.c\<close>, part 2: encoding the message of a struct in memory.

  As in \<open>PbDecode\<close>, the functions for one field get the encoder of submessages, which is \<open>pb_encode\<close> one level further
  down, as the argument \<open>enc\<close>, and \<open>pb_encode\<close> ties the knot by recursion on the fuel, one unit for each level of
  nesting. A run yields \<open>None\<close> when the fuel was not enough, when a NULL entry of the table would be called or when a
  counter would be read from the local \<open>implicit_has\<close>; otherwise the returned boolean, the stream and the memory, which
  only callbacks change.
\<close>

section \<open>Environment and submessages\<close>

text \<open>
  What is behind pointers: the tables of descriptors by their number, the callback of the stream, the functions that
  \<^verbatim>\<open>pb_callback_t\<close> members and extension types point at.
\<close>

type_synonym 's enc_state = "'s pb_ostream \<times> memory"

type_synonym 's enc_run = "'s enc_state \<Rightarrow> (bool \<times> 's enc_state) option"

type_synonym 's msg_encoder = "pb_field list \<Rightarrow> nat \<Rightarrow> 's enc_run"

record 's enc_env =
  enc_tables :: "nat \<Rightarrow> pb_field list"
  out_io :: "'s write_cb"
  encode_fn :: "nat \<Rightarrow> pb_field \<Rightarrow> nat \<Rightarrow> 's enc_state \<Rightarrow> bool \<times> 's enc_state"
  enc_ext_types :: "nat \<Rightarrow> ext_type"
  ext_encode_fn :: "nat \<Rightarrow> nat \<Rightarrow> 's enc_state \<Rightarrow> bool \<times> 's enc_state"

definition enc_submsg_fields :: "'s enc_env \<Rightarrow> pb_field \<Rightarrow> pb_field list" where
  "enc_submsg_fields env f = (case field_ptr f of Ptr_fields k \<Rightarrow> enc_tables env k | _ \<Rightarrow> [])"

text \<open>A function of the stream only, run with the memory beside it.\<close>

definition keep_mem :: "'s writer \<Rightarrow> 's enc_run" where
  "keep_mem f s = (case f (fst s) of (ok, st) \<Rightarrow> Some (ok, st, snd s))"

definition seq :: "'s enc_run \<Rightarrow> 's enc_run \<Rightarrow> 's enc_run" where
  "seq f g s = (case f s of None \<Rightarrow> None | Some (False, s) \<Rightarrow> Some (False, s) | Some (True, s) \<Rightarrow> g s)"

definition fail_with :: "string \<Rightarrow> 's enc_run" where
  "fail_with msg s = Some (False, out_error msg (fst s), snd s)"

definition pb_encode_tag_for_field :: "'s write_cb \<Rightarrow> pb_field \<Rightarrow> 's writer" where
  "pb_encode_tag_for_field io field st =
     (let lt = PB_LTYPE (field_type field) in
      if lt \<le> 3 then pb_encode_tag io PB_WT_VARINT (field_tag field) st
      else if lt = 4 then pb_encode_tag io PB_WT_32BIT (field_tag field) st
      else if lt = 5 then pb_encode_tag io PB_WT_64BIT (field_tag field) st
      else if lt \<in> {PB_LTYPE_BYTES, PB_LTYPE_STRING, PB_LTYPE_SUBMESSAGE, 0x0A}
      then pb_encode_tag io PB_WT_STRING (field_tag field) st
      else (False, out_error ''invalid field type'' st))"

text \<open>The second pass over a submessage, on a substream that has exactly the size found by the first.\<close>

definition second_pass :: "'s enc_run \<Rightarrow> nat \<Rightarrow> 's enc_run" where
  "second_pass encode sz s =
     (case s of (st, m) \<Rightarrow>
       if (bytes_written st + sz) mod 2 ^ 64 > max_size st then fail_with ''stream full'' (st, m)
       else
         (case encode (\<lparr>sink = sink st, max_size = sz, bytes_written = 0, out_errmsg = None\<rparr>, m) of
            None \<Rightarrow> None
          | Some (status, substream, m) \<Rightarrow>
              (let st = st\<lparr>bytes_written := (bytes_written st + bytes_written substream) mod 2 ^ 64,
                           sink := sink substream, out_errmsg := out_errmsg substream\<rparr>
               in if bytes_written substream \<noteq> sz then fail_with ''submsg size changed'' (st, m)
                  else Some (status, st, m))))"

definition pb_encode_submessage :: "'s write_cb \<Rightarrow> 's msg_encoder \<Rightarrow> 's msg_encoder" where
  "pb_encode_submessage io enc fs src s =
     (case s of (st, m) \<Rightarrow>
       case enc fs src (PB_OSTREAM_SIZING, m) of
         None \<Rightarrow> None
       | Some (False, substream, m) \<Rightarrow> Some (False, st\<lparr>out_errmsg := out_errmsg substream\<rparr>, m)
       | Some (True, substream, m) \<Rightarrow>
           seq (keep_mem (pb_encode_varint io (of_nat (bytes_written substream))))
             (\<lambda>(st, m).
                (if sink st = Sizing then keep_mem (pb_write io None (bytes_written substream)) (st, m)
                 else second_pass (enc fs src) (bytes_written substream) (st, m)))
             (st, m))"

definition pb_enc_submessage :: "'s enc_env \<Rightarrow> 's msg_encoder \<Rightarrow> pb_field \<Rightarrow> nat \<Rightarrow> 's enc_run" where
  "pb_enc_submessage env enc field src =
     (if field_ptr field = Ptr_null then fail_with ''invalid field descriptor''
      else pb_encode_submessage (out_io env) enc (enc_submsg_fields env field) src)"

text \<open>A call of \<open>PB_ENCODERS[PB_LTYPE(type)]\<close>, whose entry for submessages is \<open>pb_enc_submessage\<close>.\<close>

definition call_encoder :: "'s enc_env \<Rightarrow> 's msg_encoder \<Rightarrow> pb_field \<Rightarrow> nat \<Rightarrow> 's enc_run" where
  "call_encoder env enc field src s =
     (if PB_LTYPE (field_type field) = PB_LTYPE_SUBMESSAGE then pb_enc_submessage env enc field src s
      else
        (case PB_ENCODERS (\<lambda>_ _ _ st. (False, st)) (out_io env) (PB_LTYPE (field_type field)) of
           None \<Rightarrow> None
         | Some func \<Rightarrow> keep_mem (func (snd s) field src) s))"

section \<open>Arrays\<close>

text \<open>\<open>for (i = 0; i < count; i++) { if (!body(p)) return false; p += step; }\<close>\<close>

primrec each_entry :: "nat \<Rightarrow> nat \<Rightarrow> (nat \<Rightarrow> 's enc_run) \<Rightarrow> nat \<Rightarrow> 's enc_run" where
  "each_entry step 0 body p s = Some (True, s)"
| "each_entry step (Suc count) body p s = seq (body p) (each_entry step count body (p + step)) s"

text \<open>The size of the packed data and the memory after it was determined; the option inside is the failure.\<close>

definition packed_size :: "pb_field \<Rightarrow> nat \<Rightarrow> nat \<Rightarrow> (nat \<Rightarrow> 's enc_run) \<Rightarrow> memory \<Rightarrow> (nat option \<times> memory) option" where
  "packed_size field pdata count func m =
     (if PB_LTYPE (field_type field) = 4 then Some (Some (4 * count), m)
      else if PB_LTYPE (field_type field) = 5 then Some (Some (8 * count), m)
      else
        (case each_entry (data_size field) count func pdata (PB_OSTREAM_SIZING, m) of
           None \<Rightarrow> None
         | Some (False, _, m) \<Rightarrow> Some (None, m)
         | Some (True, sizestream, m) \<Rightarrow> Some (Some (bytes_written sizestream), m)))"

definition encode_array :: "'s enc_env \<Rightarrow> pb_field \<Rightarrow> nat \<Rightarrow> nat \<Rightarrow> (nat \<Rightarrow> 's enc_run) \<Rightarrow> 's enc_run" where
  "encode_array env field pdata count func s =
     (let io = out_io env; type = field_type field in
      if count = 0 then Some (True, s)
      else if PB_ATYPE type \<noteq> PB_ATYPE_POINTER \<and> count > array_size field
      then fail_with ''array max size exceeded'' s
      else if PB_LTYPE type \<le> PB_LTYPE_LAST_PACKABLE then
        seq (keep_mem (pb_encode_tag io PB_WT_STRING (field_tag field)))
          (\<lambda>(st, m).
             (case packed_size field pdata count func m of
                None \<Rightarrow> None
              | Some (None, m) \<Rightarrow> Some (False, st, m)
              | Some (Some sz, m) \<Rightarrow>
                  seq (keep_mem (pb_encode_varint io (of_nat sz)))
                    (\<lambda>(st, m).
                       (if sink st = Sizing then keep_mem (pb_write io None sz) (st, m)
                        else each_entry (data_size field) count func pdata (st, m)))
                    (st, m)))
          s
      else
        each_entry (data_size field) count
          (\<lambda>p. seq (keep_mem (pb_encode_tag_for_field io field))
                  (\<lambda>(st, m).
                     (if PB_ATYPE type = PB_ATYPE_POINTER \<and> (PB_LTYPE type = PB_LTYPE_STRING \<or> PB_LTYPE type = PB_LTYPE_BYTES)
                      then func (load_ptr p m) (st, m)
                      else func p (st, m))))
          pdata s)"

section \<open>Default values\<close>

text \<open>
  \<open>do { if (!pb_check_proto3_default_value(iter.pos, iter.pData)) return false; } while (pb_field_iter_next(&iter))\<close>
\<close>

fun all_fields :: "nat \<Rightarrow> (pb_field_iter \<Rightarrow> bool option) \<Rightarrow> pb_field_iter \<Rightarrow> bool option" where
  "all_fields 0 check iter = Some True"
| "all_fields (Suc n) check iter =
     (case check iter of
        None \<Rightarrow> None
      | Some False \<Rightarrow> Some False
      | Some True \<Rightarrow>
          (case pb_field_iter_next iter of
             (True, iter) \<Rightarrow> all_fields n check iter
           | (False, iter) \<Rightarrow> Some True))"

fun pb_check_proto3_default_value :: "'s enc_env \<Rightarrow> nat \<Rightarrow> memory \<Rightarrow> pb_field \<Rightarrow> nat \<Rightarrow> bool option" where
  "pb_check_proto3_default_value env 0 m field pdata = None"
| "pb_check_proto3_default_value env (Suc n) m field pdata =
     (let type = field_type field; psize = nat (int pdata + size_offset field) in
      if PB_HTYPE type = PB_HTYPE_REQUIRED then Some False
      else if PB_HTYPE type = PB_HTYPE_REPEATED \<and> size_offset field \<noteq> 0 then Some (load_size psize m = 0)
      else if PB_HTYPE type = PB_HTYPE_REPEATED \<and> PB_ATYPE type = PB_ATYPE_STATIC then Some False
      else if PB_HTYPE type = PB_HTYPE_ONEOF then Some (load_size psize m = 0)
      else if PB_HTYPE type = PB_HTYPE_OPTIONAL \<and> size_offset field \<noteq> 0 then Some (\<not> safe_read_bool m psize)
      else if PB_ATYPE type = PB_ATYPE_STATIC \<and> PB_LTYPE type = PB_LTYPE_BYTES then Some (load_size pdata m = 0)
      else if PB_ATYPE type = PB_ATYPE_STATIC \<and> PB_LTYPE type = PB_LTYPE_STRING then Some (m pdata = 0)
      else if PB_ATYPE type = PB_ATYPE_STATIC \<and> PB_LTYPE type = 0x0A then Some (data_size field = 0)
      else if PB_ATYPE type = PB_ATYPE_STATIC \<and> PB_LTYPE type = PB_LTYPE_SUBMESSAGE then
        (case pb_field_iter_begin (enc_submsg_fields env field) pdata of
           (False, iter) \<Rightarrow> Some True
         | (True, iter) \<Rightarrow>
             all_fields (length (enc_submsg_fields env field))
               (\<lambda>iter. pb_check_proto3_default_value env n m (cur_field iter) (pData iter)) iter)
      else Some (\<forall>b\<in>set (load_bytes pdata (data_size field) m). b = 0))"

section \<open>Fields\<close>

text \<open>What \<open>pSize\<close> of \<open>encode_basic_field\<close> points at: the local \<open>implicit_has\<close>, or memory.\<close>

datatype has_loc = Implicit bool | Has_at nat

text \<open>The presence of an optional field and the address of its data.\<close>

definition basic_size :: "'s enc_env \<Rightarrow> nat \<Rightarrow> memory \<Rightarrow> pb_field \<Rightarrow> nat \<Rightarrow> has_loc option" where
  "basic_size env n m field pdata =
     (if size_offset field \<noteq> 0 then Some (Has_at (nat (int pdata + size_offset field)))
      else if PB_HTYPE (field_type field) = PB_HTYPE_OPTIONAL
      then (case pb_check_proto3_default_value env n m field pdata of
              None \<Rightarrow> None
            | Some d \<Rightarrow> Some (Implicit (\<not> d)))
      else Some (Implicit True))"

definition basic_data :: "memory \<Rightarrow> pb_field \<Rightarrow> has_loc \<Rightarrow> nat \<Rightarrow> has_loc \<times> nat" where
  "basic_data m field psize pdata =
     (if PB_ATYPE (field_type field) = PB_ATYPE_POINTER
      then (let p = load_ptr pdata m in
            ((case psize of Implicit b \<Rightarrow> Implicit (p \<noteq> 0) | Has_at a \<Rightarrow> Has_at a), p))
      else (psize, pdata))"

definition encode_basic_field :: "'s enc_env \<Rightarrow> nat \<Rightarrow> 's msg_encoder \<Rightarrow> pb_field \<Rightarrow> nat \<Rightarrow> 's enc_run" where
  "encode_basic_field env n enc field pdata s =
     (case basic_size env n (snd s) field pdata of
        None \<Rightarrow> None
      | Some psize \<Rightarrow>
          (case basic_data (snd s) field psize pdata of
             (psize, pdata) \<Rightarrow>
               (let htype = PB_HTYPE (field_type field); func = call_encoder env enc field;
                    tagged = seq (keep_mem (pb_encode_tag_for_field (out_io env) field)) (func pdata) in
                if htype = PB_HTYPE_REQUIRED then
                  (if pdata = 0 then fail_with ''missing required field'' s else tagged s)
                else if htype = PB_HTYPE_OPTIONAL then
                  (if (case psize of Implicit b \<Rightarrow> b | Has_at a \<Rightarrow> safe_read_bool (snd s) a) then tagged s
                   else Some (True, s))
                else if htype = PB_HTYPE_REPEATED then
                  (case psize of
                     Has_at a \<Rightarrow> encode_array env field pdata (load_size a (snd s)) func s
                   | Implicit _ \<Rightarrow> encode_array env field pdata (array_size field) func s)
                else
                  (case psize of
                     Implicit _ \<Rightarrow> None
                   | Has_at a \<Rightarrow>
                       (if load_size a (snd s) = unat (field_tag field) then tagged s else Some (True, s))))))"

text \<open>A \<^verbatim>\<open>pb_callback_t\<close> is the function pointer and, 8 bytes behind it, \<open>arg\<close>.\<close>

definition encode_callback_field :: "'s enc_env \<Rightarrow> pb_field \<Rightarrow> nat \<Rightarrow> 's enc_run" where
  "encode_callback_field env field pdata s =
     (let f = load_ptr pdata (snd s) in
      if f \<noteq> 0 then
        (case encode_fn env f field (pdata + 8) s of
           (False, s) \<Rightarrow> fail_with ''callback error'' s
         | (True, s) \<Rightarrow> Some (True, s))
      else Some (True, s))"

definition encode_field :: "'s enc_env \<Rightarrow> nat \<Rightarrow> 's msg_encoder \<Rightarrow> pb_field \<Rightarrow> nat \<Rightarrow> 's enc_run" where
  "encode_field env n enc field pdata =
     (let atype = PB_ATYPE (field_type field) in
      if atype = PB_ATYPE_STATIC \<or> atype = PB_ATYPE_POINTER then encode_basic_field env n enc field pdata
      else if atype = PB_ATYPE_CALLBACK then encode_callback_field env field pdata
      else fail_with ''invalid field type'')"

section \<open>Extensions\<close>

definition default_extension_encoder :: "'s enc_env \<Rightarrow> nat \<Rightarrow> 's msg_encoder \<Rightarrow> nat \<Rightarrow> 's enc_run" where
  "default_extension_encoder env n enc extension s =
     (let field = ext_arg (enc_ext_types env (load_ptr extension (snd s))) ! 0 in
      if PB_ATYPE (field_type field) = PB_ATYPE_POINTER then encode_field env n enc field (extension + 8) s
      else encode_field env n enc field (load_ptr (extension + 8) (snd s)) s)"

text \<open>The loop over the linked list, whose length the fuel bounds.\<close>

primrec encode_extension_loop :: "'s enc_env \<Rightarrow> nat \<Rightarrow> 's msg_encoder \<Rightarrow> nat \<Rightarrow> nat \<Rightarrow> 's enc_run" where
  "encode_extension_loop env n enc 0 extension s = None"
| "encode_extension_loop env n enc (Suc k) extension s =
     (if extension = 0 then Some (True, s)
      else
        (let e = ext_encode (enc_ext_types env (load_ptr extension (snd s))) in
         seq (\<lambda>s. if e \<noteq> 0 then Some (ext_encode_fn env e extension s)
                  else default_extension_encoder env n enc extension s)
           (\<lambda>s. encode_extension_loop env n enc k (load_ptr (extension + 16) (snd s)) s) s))"

definition encode_extension_field :: "'s enc_env \<Rightarrow> nat \<Rightarrow> 's msg_encoder \<Rightarrow> nat \<Rightarrow> 's enc_run" where
  "encode_extension_field env n enc pdata s =
     encode_extension_loop env n enc n (load_ptr pdata (snd s)) s"

section \<open>All fields of a message\<close>

definition encode_any_field :: "'s enc_env \<Rightarrow> nat \<Rightarrow> 's msg_encoder \<Rightarrow> pb_field_iter \<Rightarrow> 's enc_run" where
  "encode_any_field env n enc iter =
     (if PB_LTYPE (field_type (cur_field iter)) = PB_LTYPE_EXTENSION
      then encode_extension_field env n enc (pData iter)
      else encode_field env n enc (cur_field iter) (pData iter))"

fun encode_loop :: "nat \<Rightarrow> (pb_field_iter \<Rightarrow> 's enc_run) \<Rightarrow> pb_field_iter \<Rightarrow> 's enc_run" where
  "encode_loop 0 body iter s = Some (True, s)"
| "encode_loop (Suc k) body iter s =
     seq (body iter)
       (case pb_field_iter_next iter of
          (True, iter) \<Rightarrow> encode_loop k body iter
        | (False, iter) \<Rightarrow> (\<lambda>s. Some (True, s)))
       s"

fun pb_encode :: "'s enc_env \<Rightarrow> nat \<Rightarrow> 's msg_encoder" where
  "pb_encode env 0 fs src s = None"
| "pb_encode env (Suc n) fs src s =
     (case pb_field_iter_begin fs src of
        (False, iter) \<Rightarrow> Some (True, s)
      | (True, iter) \<Rightarrow> encode_loop (length fs) (encode_any_field env n (pb_encode env n)) iter s)"

definition pb_encode_delimited :: "'s enc_env \<Rightarrow> nat \<Rightarrow> 's msg_encoder" where
  "pb_encode_delimited env n = pb_encode_submessage (out_io env) (pb_encode env n)"

definition pb_encode_nullterminated :: "'s enc_env \<Rightarrow> nat \<Rightarrow> 's msg_encoder" where
  "pb_encode_nullterminated env n fs src =
     seq (pb_encode env n fs src) (keep_mem (pb_write (out_io env) (Some [0]) 1))"

text \<open>The size, if the encoding succeeded, and the memory.\<close>

definition pb_get_encoded_size :: "'s enc_env \<Rightarrow> nat \<Rightarrow> pb_field list \<Rightarrow> nat \<Rightarrow> memory \<Rightarrow> (nat option \<times> memory) option" where
  "pb_get_encoded_size env n fs src m =
     (case pb_encode env n fs src (PB_OSTREAM_SIZING, m) of
        None \<Rightarrow> None
      | Some (False, _, m) \<Rightarrow> Some (None, m)
      | Some (True, stream, m) \<Rightarrow> Some (Some (bytes_written stream), m))"

end
