(* ===== verification/FirestoreProto.thy ===== *)
theory FirestoreProto
  imports PbDecode PbEncode
begin

text \<open>
  The descriptors of Firestore's documents and values, from the generated files \<^verbatim>\<open>document.nanopb.cc\<close>,
  \<^verbatim>\<open>timestamp.nanopb.cc\<close> and \<^verbatim>\<open>latlng.nanopb.cc\<close> of \<^verbatim>\<open>FirebaseFirestore/Firestore/Protos/nanopb\<close>, with the macros of
  \<^verbatim>\<open>pb.h\<close> that they use. The macros get the offsets and sizes of the members, which are those of a 64-bit target;
  \<^verbatim>\<open>ptr\<close> refers to a table by its number in \<open>firestore_tables\<close>.
\<close>

section \<open>Descriptor macros\<close>

definition PB_LAST_FIELD :: pb_field where
  "PB_LAST_FIELD = \<lparr>field_tag = 0, field_type = 0, data_offset = 0, size_offset = 0, data_size = 0, array_size = 0,
                    field_ptr = Ptr_null\<rparr>"

definition PB_SINGULAR_STATIC :: "u32 \<Rightarrow> nat \<Rightarrow> nat \<Rightarrow> u8 \<Rightarrow> pb_ptr \<Rightarrow> pb_field" where
  "PB_SINGULAR_STATIC tag fd membersize ltype p =
     \<lparr>field_tag = tag, field_type = PB_ATYPE_STATIC OR PB_HTYPE_OPTIONAL OR ltype, data_offset = fd, size_offset = 0,
      data_size = membersize, array_size = 0, field_ptr = p\<rparr>"

text \<open>\<open>delta\<close> is \<^verbatim>\<open>pb_delta\<close> from the member to its flag, counter or \<^verbatim>\<open>which_\<close> member.\<close>

definition PB_OPTIONAL_STATIC :: "u32 \<Rightarrow> nat \<Rightarrow> int \<Rightarrow> nat \<Rightarrow> u8 \<Rightarrow> pb_ptr \<Rightarrow> pb_field" where
  "PB_OPTIONAL_STATIC tag fd delta membersize ltype p =
     \<lparr>field_tag = tag, field_type = PB_ATYPE_STATIC OR PB_HTYPE_OPTIONAL OR ltype, data_offset = fd, size_offset = delta,
      data_size = membersize, array_size = 0, field_ptr = p\<rparr>"

definition PB_SINGULAR_POINTER :: "u32 \<Rightarrow> nat \<Rightarrow> nat \<Rightarrow> u8 \<Rightarrow> pb_ptr \<Rightarrow> pb_field" where
  "PB_SINGULAR_POINTER tag fd membersize ltype p =
     \<lparr>field_tag = tag, field_type = PB_ATYPE_POINTER OR PB_HTYPE_OPTIONAL OR ltype, data_offset = fd, size_offset = 0,
      data_size = membersize, array_size = 0, field_ptr = p\<rparr>"

definition PB_REPEATED_POINTER :: "u32 \<Rightarrow> nat \<Rightarrow> int \<Rightarrow> nat \<Rightarrow> u8 \<Rightarrow> pb_ptr \<Rightarrow> pb_field" where
  "PB_REPEATED_POINTER tag fd delta membersize ltype p =
     \<lparr>field_tag = tag, field_type = PB_ATYPE_POINTER OR PB_HTYPE_REPEATED OR ltype, data_offset = fd, size_offset = delta,
      data_size = membersize, array_size = 0, field_ptr = p\<rparr>"

definition PB_ANONYMOUS_ONEOF_STATIC :: "u32 \<Rightarrow> nat \<Rightarrow> int \<Rightarrow> nat \<Rightarrow> u8 \<Rightarrow> pb_ptr \<Rightarrow> pb_field" where
  "PB_ANONYMOUS_ONEOF_STATIC tag fd delta membersize ltype p =
     \<lparr>field_tag = tag, field_type = PB_ATYPE_STATIC OR PB_HTYPE_ONEOF OR ltype, data_offset = fd, size_offset = delta,
      data_size = membersize, array_size = 0, field_ptr = p\<rparr>"

definition PB_ANONYMOUS_ONEOF_POINTER :: "u32 \<Rightarrow> nat \<Rightarrow> int \<Rightarrow> nat \<Rightarrow> u8 \<Rightarrow> pb_ptr \<Rightarrow> pb_field" where
  "PB_ANONYMOUS_ONEOF_POINTER tag fd delta membersize ltype p =
     \<lparr>field_tag = tag, field_type = PB_ATYPE_POINTER OR PB_HTYPE_ONEOF OR ltype, data_offset = fd, size_offset = delta,
      data_size = membersize, array_size = 0, field_ptr = p\<rparr>"

text \<open>The placements \<^verbatim>\<open>FIRST\<close> and \<^verbatim>\<open>OTHER\<close> take offsets; \<^verbatim>\<open>UNION\<close> is a constant.\<close>

definition PB_DATAOFFSET_OTHER :: "nat \<Rightarrow> nat \<Rightarrow> nat \<Rightarrow> nat" where
  "PB_DATAOFFSET_OTHER offset prev_offset prev_membersize = offset - prev_offset - prev_membersize"

definition PB_DATAOFFSET_UNION :: nat where
  "PB_DATAOFFSET_UNION = PB_SIZE_MAX"

lemmas field_macros = PB_LAST_FIELD_def PB_SINGULAR_STATIC_def PB_OPTIONAL_STATIC_def PB_SINGULAR_POINTER_def
  PB_REPEATED_POINTER_def PB_ANONYMOUS_ONEOF_STATIC_def PB_ANONYMOUS_ONEOF_POINTER_def PB_DATAOFFSET_OTHER_def
  PB_DATAOFFSET_UNION_def

section \<open>Tables\<close>

text \<open>\<open>int64 seconds\<close> at 0 and \<open>int32 nanos\<close> at 8; 16 bytes.\<close>

definition google_protobuf_Timestamp_fields :: "pb_field list" where
  "google_protobuf_Timestamp_fields =
     [PB_SINGULAR_STATIC 1 0 8 1 Ptr_null,
      PB_SINGULAR_STATIC 2 (PB_DATAOFFSET_OTHER 8 0 8) 4 1 Ptr_null,
      PB_LAST_FIELD]"

text \<open>Two doubles; 16 bytes.\<close>

definition google_type_LatLng_fields :: "pb_field list" where
  "google_type_LatLng_fields =
     [PB_SINGULAR_STATIC 1 0 8 5 Ptr_null,
      PB_SINGULAR_STATIC 2 (PB_DATAOFFSET_OTHER 8 0 8) 8 5 Ptr_null,
      PB_LAST_FIELD]"

text \<open>\<open>which_value_type\<close> at 0 and a union of 16 bytes at 8; 24 bytes.\<close>

definition google_firestore_v1_Value_fields :: "pb_field list" where
  "google_firestore_v1_Value_fields =
     [PB_ANONYMOUS_ONEOF_STATIC 1 8 (- 8) 1 0 Ptr_null,
      PB_ANONYMOUS_ONEOF_STATIC 2 PB_DATAOFFSET_UNION (- 8) 8 1 Ptr_null,
      PB_ANONYMOUS_ONEOF_STATIC 3 PB_DATAOFFSET_UNION (- 8) 8 5 Ptr_null,
      PB_ANONYMOUS_ONEOF_POINTER 5 PB_DATAOFFSET_UNION (- 8) 8 6 Ptr_null,
      PB_ANONYMOUS_ONEOF_STATIC 6 PB_DATAOFFSET_UNION (- 8) 16 8 (Ptr_fields 4),
      PB_ANONYMOUS_ONEOF_STATIC 8 PB_DATAOFFSET_UNION (- 8) 16 8 (Ptr_fields 1),
      PB_ANONYMOUS_ONEOF_STATIC 9 PB_DATAOFFSET_UNION (- 8) 16 8 (Ptr_fields 3),
      PB_ANONYMOUS_ONEOF_STATIC 10 PB_DATAOFFSET_UNION (- 8) 16 8 (Ptr_fields 0),
      PB_ANONYMOUS_ONEOF_STATIC 11 PB_DATAOFFSET_UNION (- 8) 4 1 Ptr_null,
      PB_ANONYMOUS_ONEOF_POINTER 17 PB_DATAOFFSET_UNION (- 8) 8 6 Ptr_null,
      PB_ANONYMOUS_ONEOF_POINTER 18 PB_DATAOFFSET_UNION (- 8) 8 6 Ptr_null,
      PB_LAST_FIELD]"

text \<open>A counter at 0 and a pointer at 8; 16 bytes, as \<open>MapValue\<close>.\<close>

definition google_firestore_v1_ArrayValue_fields :: "pb_field list" where
  "google_firestore_v1_ArrayValue_fields =
     [PB_REPEATED_POINTER 1 8 (- 8) 24 8 (Ptr_fields 2), PB_LAST_FIELD]"

definition google_firestore_v1_MapValue_fields :: "pb_field list" where
  "google_firestore_v1_MapValue_fields =
     [PB_REPEATED_POINTER 1 8 (- 8) 32 8 (Ptr_fields 5), PB_LAST_FIELD]"

text \<open>A pointer at 0 and a \<open>Value\<close> at 8; 32 bytes.\<close>

definition google_firestore_v1_MapValue_FieldsEntry_fields :: "pb_field list" where
  "google_firestore_v1_MapValue_FieldsEntry_fields =
     [PB_SINGULAR_POINTER 1 0 8 6 Ptr_null,
      PB_SINGULAR_STATIC 2 (PB_DATAOFFSET_OTHER 8 0 8) 24 8 (Ptr_fields 2),
      PB_LAST_FIELD]"

text \<open>
  \<open>name\<close> at 0, \<open>fields_count\<close> at 8, \<open>fields\<close> at 16, \<open>create_time\<close> at 24, \<open>has_update_time\<close> at 40 and \<open>update_time\<close>
  at 48; 64 bytes.
\<close>

definition google_firestore_v1_Document_fields :: "pb_field list" where
  "google_firestore_v1_Document_fields =
     [PB_SINGULAR_POINTER 1 0 8 6 Ptr_null,
      PB_REPEATED_POINTER 2 (PB_DATAOFFSET_OTHER 16 0 8) (- 8) 32 8 (Ptr_fields 7),
      PB_SINGULAR_STATIC 3 (PB_DATAOFFSET_OTHER 24 16 8) 16 8 (Ptr_fields 0),
      PB_OPTIONAL_STATIC 4 (PB_DATAOFFSET_OTHER 48 24 16) (- 8) 16 8 (Ptr_fields 0),
      PB_LAST_FIELD]"

definition google_firestore_v1_Document_FieldsEntry_fields :: "pb_field list" where
  "google_firestore_v1_Document_FieldsEntry_fields =
     [PB_SINGULAR_POINTER 1 0 8 6 Ptr_null,
      PB_SINGULAR_STATIC 2 (PB_DATAOFFSET_OTHER 8 0 8) 24 8 (Ptr_fields 2),
      PB_LAST_FIELD]"

definition firestore_tables :: "nat \<Rightarrow> pb_field list" where
  "firestore_tables k =
     [google_protobuf_Timestamp_fields, google_type_LatLng_fields, google_firestore_v1_Value_fields,
      google_firestore_v1_ArrayValue_fields, google_firestore_v1_MapValue_fields,
      google_firestore_v1_MapValue_FieldsEntry_fields, google_firestore_v1_Document_fields,
      google_firestore_v1_Document_FieldsEntry_fields] ! k"

text \<open>The iterator visits the members of a document where the C struct has them.\<close>

lemma document_offsets:
  "map (\<lambda>k. pData (iter_at google_firestore_v1_Document_fields 64 k)) [0..<4] = [64, 80, 88, 112]"
  by code_simp

lemma timestamp_iters:
  "pb_field_iter_begin google_protobuf_Timestamp_fields a = (True,
     \<lparr>start = google_protobuf_Timestamp_fields, pos = 0, required_field_index = 0, dest_struct = a, pData = a, pSize = At a\<rparr>)"
  "pb_field_iter_next \<lparr>start = google_protobuf_Timestamp_fields, pos = 0, required_field_index = 0, dest_struct = a, pData = a, pSize = At a\<rparr>
   = (True, \<lparr>start = google_protobuf_Timestamp_fields, pos = 1, required_field_index = 0, dest_struct = a, pData = a + 8, pSize = At (a + 8)\<rparr>)"
  "fst (pb_field_iter_next \<lparr>start = google_protobuf_Timestamp_fields, pos = 1, required_field_index = 0, dest_struct = a, pData = a + 8, pSize = At (a + 8)\<rparr>)
   = False"
  by (simp_all add: google_protobuf_Timestamp_fields_def pb_field_iter_begin_def pb_field_iter_next_def field_macros
      size_loc_at_def cur_field_def Let_def PB_HTYPE_def PB_ATYPE_def)

text \<open>Decoding one of these messages from memory; they have no callbacks and no extensions.\<close>

definition firestore_env :: "realloc_fn \<Rightarrow> (memory \<Rightarrow> nat \<Rightarrow> memory) \<Rightarrow> bytes pb_env" where
  "firestore_env re fr =
     \<lparr>tables = firestore_tables, in_io = read_memory, realloc_of = re, free_of = fr,
      decode_fn = (\<lambda>_ _ _ s. (False, s)), ext_types = (\<lambda>_. \<lparr>ext_decode = 0, ext_encode = 0, ext_arg = []\<rparr>),
      ext_decode_fn = (\<lambda>_ _ _ _ s. (False, s))\<rparr>"

text \<open>Encoding one of them with Firestore's \<open>StringWriter\<close>.\<close>

definition firestore_enc_env :: "bytes enc_env" where
  "firestore_enc_env =
     \<lparr>enc_tables = firestore_tables, out_io = AppendToString, encode_fn = (\<lambda>_ _ _ s. (False, s)),
      enc_ext_types = (\<lambda>_. \<lparr>ext_decode = 0, ext_encode = 0, ext_arg = []\<rparr>), ext_encode_fn = (\<lambda>_ _ s. (False, s))\<rparr>"

end
