(* ===== verification/PbSafe.thy ===== *)
theory PbSafe
  imports FirestoreProto
begin

text \<open>
  Decoding into a message whose memory is one struct, without pointer, callback and extension fields: whatever the input
  is, \<open>pb_decode\<close> returns and writes nothing outside the struct. The fuel that is enough is twice the depth of the nesting of
  static submessages, which the C types bound. What the code reads is not constrained here.
\<close>

lemma ex_bool [simp]: "Ex Not" "\<exists>b. b" "\<exists>b. \<not> b"
  by auto

section \<open>Reading never gives bytes back\<close>

named_theorems left

lemma in_callback_left [left]: "in_callback io st n = (ok, bs, st') \<Longrightarrow> bytes_left st' \<le> bytes_left st"
  using in_callback_bytes_left by blast

lemma read_checked_left [left]: "read_checked io st n = (ok, bs, st') \<Longrightarrow> bytes_left st' \<le> bytes_left st"
  using read_checked_bytes_left by blast

lemma read_skip_left [left]: "read_skip io st n = (ok, bs, st') \<Longrightarrow> bytes_left st' \<le> bytes_left st"
proof (induction io st n arbitrary: ok bs st' rule: read_skip.induct)
  case (1 io st n)
  obtain o1 b1 s1 where c: "read_checked io st 16 = (o1, b1, s1)" by (rule prod_cases3)
  have le: "bytes_left s1 \<le> bytes_left st" using c by (rule read_checked_left)
  show ?case
  proof (cases "n > 16 \<and> o1")
    case True
    then have "bytes_left st' \<le> bytes_left s1" using 1(1) [OF _ c [symmetric] _ refl] 1(2) [unfolded read_skip.simps [of io st n]] c by auto
    then show ?thesis using le by simp
  next
    case False
    then show ?thesis
      using 1(2) c le by (subst (asm) read_skip.simps) (auto split: if_splits prod.splits dest: read_checked_left)
  qed
qed

lemma pb_read_left [left]: "pb_read io st null n = (ok, bs, st') \<Longrightarrow> bytes_left st' \<le> bytes_left st"
  by (auto simp: pb_read_def split: if_splits prod.splits dest: read_skip_left read_checked_left)

lemma pb_read_less: "pb_read io st False n = (True, bs, st') \<Longrightarrow> 0 < n \<Longrightarrow> bytes_left st' < bytes_left st"
  by (auto simp: pb_read_def split: if_splits prod.splits dest: read_checked_bytes_left)

lemma pb_readbyte_left [left]: "pb_readbyte io st = (r, st') \<Longrightarrow> bytes_left st' \<le> bytes_left st"
  by (auto simp: pb_readbyte_def split: if_splits prod.splits bool.splits dest: in_callback_bytes_left)

lemma varint32_loop_left [left]:
  "varint32_loop io st result bitpos = (r, st') \<Longrightarrow> bytes_left st' \<le> bytes_left st"
proof (induction io st result bitpos arbitrary: r st' rule: varint32_loop.induct)
  case (1 io st result bitpos)
  show ?case
  proof (cases "pb_readbyte io st")
    case (Pair b s1)
    note le = pb_readbyte_left [OF Pair]
    show ?thesis
    proof (cases b)
      case None
      then show ?thesis using 1(2) Pair le by (subst (asm) varint32_loop.simps) simp
    next
      case (Some x)
      show ?thesis
        using 1(2) [unfolded varint32_loop.simps [of io st result bitpos]] Pair le Some
          1(1) [OF Pair [symmetric] Some _ refl refl]
        by (fastforce simp: Let_def split: if_splits intro: order_trans)
    qed
  qed
qed

lemma varint_loop_left [left]:
  "varint_loop io st result bitpos = (r, st') \<Longrightarrow> bytes_left st' \<le> bytes_left st"
proof (induction io st result bitpos arbitrary: r st' rule: varint_loop.induct)
  case (1 io st result bitpos)
  show ?case
  proof (cases "pb_readbyte io st")
    case (Pair b s1)
    note le = pb_readbyte_left [OF Pair]
    show ?thesis
    proof (cases "b = None \<or> 64 \<le> bitpos \<or> the b AND 0x80 = 0")
      case True
      then show ?thesis
        using 1(2) [unfolded varint_loop.simps [of io st result bitpos]] Pair le
        by (auto simp: Let_def split: if_splits option.splits)
    next
      case False
      then obtain x where x: "b = Some x" "\<not> 64 \<le> bitpos" "x AND 0x80 \<noteq> 0" by auto
      then have "varint_loop io s1 (result OR push_bit (unat bitpos) (ucast (x AND 0x7f))) (bitpos + 7) = (r, st')"
        using 1(2) Pair by (subst (asm) varint_loop.simps) (simp add: Let_def)
      from 1(1) [OF x(2) Pair [symmetric] x(1) refl refl x(3) this] le show ?thesis by simp
    qed
  qed
qed

lemma varint32_eof_left [left]:
  assumes "pb_decode_varint32_eof io st = (r, e, st')"
  shows "bytes_left st' \<le> bytes_left st \<and> (r \<noteq> None \<longrightarrow> bytes_left st' < bytes_left st)"
proof -
  obtain b s1 where b: "pb_readbyte io st = (b, s1)" by (rule prod.exhaust)
  have "bytes_left s1 \<le> bytes_left st" "b \<noteq> None \<Longrightarrow> bytes_left s1 < bytes_left st"
    using b pb_readbyte_left [OF b] pb_readbyte_bytes_left by auto
  then show ?thesis
    using assms b
    by (auto simp: pb_decode_varint32_eof_def split: option.splits if_splits prod.splits dest!: varint32_loop_left)
qed

lemma varint32_left [left]:
  "pb_decode_varint32 io st = (r, st') \<Longrightarrow> bytes_left st' \<le> bytes_left st \<and> (r \<noteq> None \<longrightarrow> bytes_left st' < bytes_left st)"
  by (auto simp: pb_decode_varint32_def split: prod.splits dest: varint32_eof_left)

lemma varint_left [left]:
  assumes "pb_decode_varint io st = (r, st')"
  shows "bytes_left st' \<le> bytes_left st \<and> (r \<noteq> None \<longrightarrow> bytes_left st' < bytes_left st)"
proof -
  obtain b s1 where b: "pb_readbyte io st = (b, s1)" by (rule prod.exhaust)
  have "bytes_left s1 \<le> bytes_left st" "b \<noteq> None \<Longrightarrow> bytes_left s1 < bytes_left st"
    using b pb_readbyte_left [OF b] pb_readbyte_bytes_left by auto
  then show ?thesis
    using assms b unfolding pb_decode_varint_def
    by (subst (asm) varint_loop.simps) (auto simp: Let_def split: option.splits if_splits dest!: varint_loop_left)
qed

lemma svarint_left [left]:
  "pb_decode_svarint io st = (r, st') \<Longrightarrow> bytes_left st' \<le> bytes_left st \<and> (r \<noteq> None \<longrightarrow> bytes_left st' < bytes_left st)"
  by (auto simp: pb_decode_svarint_def split: prod.splits option.splits dest: varint_left)

lemma fixed_left [left]:
  "pb_decode_fixed32 io st = (r, st') \<Longrightarrow> bytes_left st' \<le> bytes_left st \<and> (r \<noteq> None \<longrightarrow> bytes_left st' < bytes_left st)"
  "pb_decode_fixed64 io st = (r', st'') \<Longrightarrow> bytes_left st'' \<le> bytes_left st \<and> (r' \<noteq> None \<longrightarrow> bytes_left st'' < bytes_left st)"
  by (auto simp: pb_decode_fixed32_def pb_decode_fixed64_def split: prod.splits bool.splits dest: pb_read_left pb_read_less)

lemma tag_left [left]:
  "pb_decode_tag io st = (ok, w, t, e, st') \<Longrightarrow> bytes_left st' \<le> bytes_left st \<and> (ok \<longrightarrow> bytes_left st' < bytes_left st)"
  by (auto simp: pb_decode_tag_def split: prod.splits option.splits if_splits dest: varint32_eof_left)

lemma skip_varint_left [left]: "pb_skip_varint io st = (ok, st') \<Longrightarrow> bytes_left st' \<le> bytes_left st"
proof (induction io st arbitrary: ok st' rule: pb_skip_varint.induct)
  case (1 io st)
  obtain o1 b1 s1 where c: "pb_read io st False 1 = (o1, b1, s1)" by (rule prod_cases3)
  note le = pb_read_left [OF c]
  show ?case
  proof (cases "o1 \<and> hd b1 AND 0x80 \<noteq> 0")
    case True
    then have "bytes_left st' \<le> bytes_left s1" using 1(1) [OF c [symmetric]] 1(2) [unfolded pb_skip_varint.simps [of io st]] c by auto
    then show ?thesis using le by simp
  next
    case False
    then show ?thesis using 1(2) c le by (subst (asm) pb_skip_varint.simps) (auto split: if_splits bool.splits)
  qed
qed

lemma skip_left [left]: "pb_skip_field io st w = (ok, st') \<Longrightarrow> bytes_left st' \<le> bytes_left st"
  by (auto simp: pb_skip_field_def pb_skip_string_def split: if_splits prod.splits option.splits
      dest!: skip_varint_left pb_read_left varint32_left)

lemma make_substream_left [left]:
  assumes "pb_make_string_substream io st = (sub, st')"
  shows "bytes_left st' \<le> bytes_left st \<and> (\<forall>s. sub = Some s \<longrightarrow> bytes_left st' < bytes_left st \<and> bytes_left s < bytes_left st)"
proof -
  obtain v s1 where v: "pb_decode_varint32 io st = (v, s1)" by (rule prod.exhaust)
  show ?thesis
    using assms v varint32_left [OF v] by (auto simp: pb_make_string_substream_def split: option.splits if_splits)
qed

lemma close_substream_left [left]:
  "pb_close_string_substream io st sub = (ok, st', sub') \<Longrightarrow> bytes_left st' = bytes_left st"
  by (auto simp: pb_close_string_substream_def split: prod.splits bool.splits)

lemma read_to_left [left]: "read_to io dest n s = (ok, st', m') \<Longrightarrow> bytes_left st' \<le> bytes_left (fst s)"
  by (auto simp: read_to_def split: prod.splits dest: pb_read_left)
lemma store_clamped_left: "store_clamped n f dest v s = (ok, st', m') \<Longrightarrow> bytes_left st' = bytes_left (fst s)"
  by (auto simp: store_clamped_def Let_def split: if_splits)

lemma store_signed_left: "store_signed field dest v s = (ok, st', m') \<Longrightarrow> bytes_left st' = bytes_left (fst s)"
  by (auto simp: store_signed_def split: if_splits dest: store_clamped_left)

lemma allocate_field_left: "allocate_field re a n k s = (ok, st', m') \<Longrightarrow> bytes_left st' = bytes_left (fst s)"
  by (auto simp: allocate_field_def Let_def split: if_splits prod.splits)

lemma scalar_decoders_left:
  "pb_dec_bool io field dest s = (ok, st', m') \<Longrightarrow> bytes_left st' \<le> bytes_left (fst s) \<and> (ok \<longrightarrow> bytes_left st' < bytes_left (fst s))"
  "pb_dec_varint io field dest s = (ok, st', m') \<Longrightarrow> bytes_left st' \<le> bytes_left (fst s) \<and> (ok \<longrightarrow> bytes_left st' < bytes_left (fst s))"
  "pb_dec_uvarint io field dest s = (ok, st', m') \<Longrightarrow> bytes_left st' \<le> bytes_left (fst s) \<and> (ok \<longrightarrow> bytes_left st' < bytes_left (fst s))"
  "pb_dec_svarint io field dest s = (ok, st', m') \<Longrightarrow> bytes_left st' \<le> bytes_left (fst s) \<and> (ok \<longrightarrow> bytes_left st' < bytes_left (fst s))"
  "pb_dec_fixed32 io field dest s = (ok, st', m') \<Longrightarrow> bytes_left st' \<le> bytes_left (fst s) \<and> (ok \<longrightarrow> bytes_left st' < bytes_left (fst s))"
  "pb_dec_fixed64 io field dest s = (ok, st', m') \<Longrightarrow> bytes_left st' \<le> bytes_left (fst s) \<and> (ok \<longrightarrow> bytes_left st' < bytes_left (fst s))"
  by (auto simp: pb_dec_bool_def pb_dec_varint_def pb_dec_uvarint_def pb_dec_svarint_def pb_dec_fixed32_def pb_dec_fixed64_def
      split: prod.splits option.splits if_splits
      dest!: varint32_left varint_left svarint_left fixed_left store_signed_left store_clamped_left)

lemma long_decoders_left:
  "pb_dec_bytes re io field dest s = (ok, st', m') \<Longrightarrow> bytes_left st' \<le> bytes_left (fst s)"
  "pb_dec_string re io field dest s = (ok, st', m') \<Longrightarrow> bytes_left st' \<le> bytes_left (fst s)"
  "pb_dec_fixed_length_bytes io field dest s = (ok, st', m') \<Longrightarrow> bytes_left st' \<le> bytes_left (fst s)"
  by (auto simp: pb_dec_bytes_def pb_dec_string_def pb_dec_fixed_length_bytes_def Let_def
      split: prod.splits option.splits if_splits bool.splits
      dest!: varint32_left read_to_left allocate_field_left)

lemma PB_DECODERS_left:
  assumes "PB_DECODERS sub re io lt = Some dec" and "lt \<noteq> 8" and "dec field dest (st, m) = (ok, st', m')"
  shows "bytes_left st' \<le> bytes_left st \<and> (ok \<longrightarrow> lt \<le> PB_LTYPE_LAST_PACKABLE \<longrightarrow> bytes_left st' < bytes_left st)"
proof -
  have "lt < 11" using assms(1) by (simp add: PB_DECODERS_def split: if_splits)
  then show ?thesis
    by (cases rule: ltype_cases)
       (use assms in \<open>auto simp: PB_DECODERS_def dest: scalar_decoders_left long_decoders_left\<close>)
qed
section \<open>Messages whose memory is one struct\<close>

text \<open>
  What the generated descriptors of a message without allocated, callback and extension fields promise: every
  member, with its counter or flag, lies within the \<open>sz\<close> bytes at \<open>dest\<close>, and a submessage within its member.
  \<open>sub\<close> is the same condition for submessages. The counter of a repeated field counts as 4 bytes at \<open>pSize\<close> also
  where it is missing and \<open>pSize\<close> is the array itself, because \<open>pb_field_set_to_default\<close> clears it there.
\<close>

definition n_items :: "pb_field \<Rightarrow> nat" where
  "n_items f = (if PB_HTYPE (field_type f) = PB_HTYPE_REPEATED then array_size f else 1)"

definition static_field :: "'s pb_env \<Rightarrow> (pb_field list \<Rightarrow> nat \<Rightarrow> nat \<Rightarrow> bool) \<Rightarrow> pb_field_iter \<Rightarrow> nat \<Rightarrow> nat \<Rightarrow> bool" where
  "static_field env sub iter dest sz \<longleftrightarrow>
     (let f = cur_field iter; type = field_type f; ht = PB_HTYPE type in
      PB_ATYPE type = PB_ATYPE_STATIC \<and> PB_LTYPE type < 11 \<and> PB_LTYPE type \<noteq> PB_LTYPE_EXTENSION \<and> size_fits f \<and>
      dest \<le> pData iter \<and> pData iter + data_size f * n_items f \<le> dest + sz \<and>
      (ht \<noteq> PB_HTYPE_REQUIRED \<and> ht \<noteq> PB_HTYPE_OPTIONAL \<or> ht = PB_HTYPE_OPTIONAL \<and> pSize iter \<noteq> At (pData iter) \<longrightarrow>
         dest \<le> size_addr iter \<and> size_addr iter + (if ht = PB_HTYPE_OPTIONAL then 1 else 4) \<le> dest + sz) \<and>
      (PB_LTYPE type = PB_LTYPE_SUBMESSAGE \<longrightarrow>
         (\<forall>i<n_items f. sub (submsg_fields env f) (pData iter + data_size f * i) (data_size f))))"

fun static_layout :: "'s pb_env \<Rightarrow> nat \<Rightarrow> pb_field list \<Rightarrow> nat \<Rightarrow> nat \<Rightarrow> bool" where
  "static_layout env 0 fs dest sz \<longleftrightarrow> False"
| "static_layout env (Suc r) fs dest sz \<longleftrightarrow>
     wf_table fs \<and> field_type (last fs) = 0 \<and> data_offset (last fs) = 0 \<and> 1 \<le> sz \<and>
     (\<forall>k<n_fields fs. static_field env (static_layout env r) (iter_at fs dest k) dest sz)"

lemma agree_widen:
  "agree_outside a n m m' \<Longrightarrow> d \<le> a \<Longrightarrow> a + n \<le> d + sz \<Longrightarrow> agree_outside d sz m m'"
  by (auto simp: agree_outside_def)

lemma agree_store_size: "d \<le> a \<Longrightarrow> a + 4 \<le> d + sz \<Longrightarrow> agree_outside d sz m (store_size a n m)"
  by (auto simp: store_size_def intro: agree_store)

lemma agree_memset: "d \<le> a \<Longrightarrow> a + n \<le> d + sz \<Longrightarrow> agree_outside d sz m (memset_0 a n m)"
  by (auto simp: memset_0_def intro: agree_store)

lemma each_field_invariant:
  assumes wf: "wf_table fs" and body: "\<And>k m. k < n_fields fs \<Longrightarrow> P m \<Longrightarrow> \<exists>m'. body (iter_at fs dest k) m = Some m' \<and> P m'"
  shows "k < n_fields fs \<Longrightarrow> P m \<Longrightarrow> \<exists>m'. each_field j body (iter_at fs dest k) m = Some m' \<and> P m'"
proof (induction j arbitrary: k m)
  case 0
  then show ?case by simp
next
  case (Suc j)
  obtain m1 where m1: "body (iter_at fs dest k) m = Some m1" "P m1" using body [OF Suc.prems] by blast
  have next': "pb_field_iter_next (iter_at fs dest k) = (Suc k < n_fields fs, iter_at fs dest (if Suc k < n_fields fs then Suc k else 0))"
    by (rule iter_next [OF wf Suc.prems(1)]) (simp add: near_def)
  show ?case
  proof (cases "Suc k < n_fields fs")
    case True
    then show ?thesis using m1 next' Suc.IH [OF True m1(2)] by simp
  next
    case False
    then show ?thesis using m1 next' by simp
  qed
qed

lemma static_fieldD:
  assumes "static_field env sub iter dest sz"
  shows "PB_ATYPE (field_type (cur_field iter)) = PB_ATYPE_STATIC" and "PB_LTYPE (field_type (cur_field iter)) < 11"
    and "PB_LTYPE (field_type (cur_field iter)) \<noteq> PB_LTYPE_EXTENSION" and "size_fits (cur_field iter)"
    and "dest \<le> pData iter" and "pData iter + data_size (cur_field iter) * n_items (cur_field iter) \<le> dest + sz"
    and "PB_HTYPE (field_type (cur_field iter)) \<noteq> PB_HTYPE_REQUIRED \<Longrightarrow> PB_HTYPE (field_type (cur_field iter)) \<noteq> PB_HTYPE_OPTIONAL
         \<Longrightarrow> dest \<le> size_addr iter \<and> size_addr iter + 4 \<le> dest + sz"
    and "PB_HTYPE (field_type (cur_field iter)) = PB_HTYPE_OPTIONAL \<Longrightarrow> pSize iter \<noteq> At (pData iter)
         \<Longrightarrow> dest \<le> size_addr iter \<and> size_addr iter + 1 \<le> dest + sz"
    and "PB_LTYPE (field_type (cur_field iter)) = PB_LTYPE_SUBMESSAGE \<Longrightarrow> i < n_items (cur_field iter)
         \<Longrightarrow> sub (submsg_fields env (cur_field iter)) (pData iter + data_size (cur_field iter) * i) (data_size (cur_field iter))"
  using assms by (auto simp: static_field_def Let_def)

lemma static_field_single:
  assumes "static_field env sub iter dest sz" and "PB_HTYPE (field_type (cur_field iter)) \<noteq> PB_HTYPE_REPEATED"
  shows "pData iter + data_size (cur_field iter) \<le> dest + sz"
    and "PB_LTYPE (field_type (cur_field iter)) = PB_LTYPE_SUBMESSAGE
         \<Longrightarrow> sub (submsg_fields env (cur_field iter)) (pData iter) (data_size (cur_field iter))"
  using static_fieldD(6) [OF assms(1)] static_fieldD(9) [OF assms(1), of 0] assms(2) by (simp_all add: n_items_def)

section \<open>Default values and releasing\<close>

lemma two_levels: "2 * Suc r \<le> n \<Longrightarrow> \<exists>n'. n = Suc (Suc n') \<and> 2 * r \<le> n'"
  by presburger

lemma static_defaults:
  "static_layout env r fs dest sz \<Longrightarrow> 2 * r \<le> n \<Longrightarrow>
   \<exists>m'. pb_message_set_to_defaults env n fs dest m = Some m' \<and> agree_outside dest sz m m'"
proof (induction r arbitrary: n fs dest sz m)
  case 0
  then show ?case by simp
next
  case (Suc r)
  obtain n' where n: "n = Suc (Suc n')" and n': "2 * r \<le> n'" using two_levels [OF Suc.prems(2)] by blast
  have wf: "wf_table fs" using Suc.prems(1) by simp
  have field: "\<exists>m2. pb_field_set_to_default env (Suc n') (iter_at fs dest k) m1 = Some m2 \<and> agree_outside dest sz m m2"
    if k: "k < n_fields fs" and agree: "agree_outside dest sz m m1" for k m1
  proof -
    let ?it = "iter_at fs dest k"
    have sf: "static_field env (static_layout env r) ?it dest sz" using Suc.prems(1) k by simp
    note d = static_fieldD [OF sf]
    let ?f = "cur_field ?it" and ?ht = "PB_HTYPE (field_type (cur_field ?it))"
    show ?thesis
    proof (cases "?ht = PB_HTYPE_REPEATED \<or> ?ht = PB_HTYPE_ONEOF")
      case True
      then have "agree_outside dest sz m1 (store_size (size_addr ?it) 0 m1)" using d(7) by (auto intro: agree_store_size)
      then show ?thesis using True d(1,3) agree_trans [OF agree] by (auto simp: Let_def)
    next
      case False
      let ?rest = "\<lambda>m2. if PB_LTYPE (field_type ?f) = PB_LTYPE_SUBMESSAGE
            then pb_message_set_to_defaults env n' (submsg_fields env ?f) (pData ?it) m2
            else (case field_ptr ?f of
                    Ptr_default bs \<Rightarrow> Some (store_bytes (pData ?it) (take (data_size ?f) bs) m2)
                  | _ \<Rightarrow> Some (memset_0 (pData ?it) (data_size ?f) m2))"
      define m2 where "m2 = (if ?ht = PB_HTYPE_OPTIONAL \<and> pSize ?it \<noteq> At (pData ?it) then store_bytes (size_addr ?it) [0] m1 else m1)"
      have "agree_outside dest sz m m2" using d(8) agree by (auto simp: m2_def intro: agree_store)
      moreover have "\<exists>m3. ?rest m2 = Some m3 \<and> agree_outside dest sz m2 m3"
      proof (cases "PB_LTYPE (field_type ?f) = PB_LTYPE_SUBMESSAGE")
        case sub: True
        then obtain m3 where "pb_message_set_to_defaults env n' (submsg_fields env ?f) (pData ?it) m2 = Some m3"
            "agree_outside (pData ?it) (data_size ?f) m2 m3"
          using Suc.IH [OF static_field_single(2) [OF sf _ sub] n'] False by blast
        then show ?thesis using sub static_field_single(1) [OF sf] False d(5) by (auto intro: agree_widen)
      next
        case nosub: False
        have "pData ?it + data_size ?f \<le> dest + sz" using static_field_single(1) [OF sf] False by blast
        then show ?thesis using nosub d(5) by (auto split: pb_ptr.split intro: agree_store agree_memset)
      qed
      moreover have "pb_field_set_to_default env (Suc n') ?it m1 = ?rest m2"
        using False d(1,3)
        by (cases "?ht = PB_HTYPE_OPTIONAL \<and> pSize ?it \<noteq> At (pData ?it)") (auto simp: Let_def m2_def split: pb_ptr.split)
      ultimately show ?thesis by (auto intro: agree_trans)
    qed
  qed
  show ?case
  proof (cases "n_fields fs = 0")
    case True
    then show ?thesis using n iter_begin [OF wf] by simp
  next
    case False
    then show ?thesis
      using n iter_begin [OF wf]
        each_field_invariant [where P = "agree_outside dest sz m" and body = "pb_field_set_to_default env (Suc n')" and dest = dest
                              and k = 0 and m = m, OF wf field]
      by (simp del: pb_field_set_to_default.simps)
  qed
qed

lemma release_items_same: "(\<And>i m. i < k \<Longrightarrow> release (a + d * i) m = Some m) \<Longrightarrow> release_items release d k a m = Some m"
proof (induction k arbitrary: a)
  case (Suc k)
  have "release (a + d + d * i) m = Some m" if "i < k" for i m
    using Suc.prems [of "Suc i" m] that by (simp add: add.assoc)
  then show ?case using Suc.IH Suc.prems [of 0] by simp
qed simp

lemma release_field_same:
  assumes rel: "\<And>fs a sz m. static_layout env r fs a sz \<Longrightarrow> pb_release env n fs a m = Some m"
    and sf: "static_field env (static_layout env r) iter dest sz"
  shows "pb_release_single_field env (Suc n) iter m = Some m"
proof -
  note d = static_fieldD [OF sf]
  have count: "release_count iter m \<le> n_items (cur_field iter)"
    by (auto simp: release_count_def n_items_def Let_def d(1))
  have "release_items (pb_release env n (submsg_fields env (cur_field iter))) (data_size (cur_field iter)) (release_count iter m)
          (pData iter) m = Some m" if "PB_LTYPE (field_type (cur_field iter)) = PB_LTYPE_SUBMESSAGE"
    using rel [OF d(9) [OF that]] count by (intro release_items_same) (auto dest: less_le_trans)
  then show ?thesis using d(1,3) by (auto simp: Let_def release_pointer_def)
qed

lemma static_release: "static_layout env r fs dest sz \<Longrightarrow> 2 * r \<le> n \<Longrightarrow> pb_release env n fs dest m = Some m"
proof (induction r arbitrary: n fs dest sz m)
  case 0
  then show ?case by simp
next
  case (Suc r)
  obtain n' where n: "n = Suc (Suc n')" and n': "2 * r \<le> n'" using two_levels [OF Suc.prems(2)] by blast
  have wf: "wf_table fs" using Suc.prems(1) by simp
  have field: "pb_release_single_field env (Suc n') (iter_at fs dest k) m1 = Some m1" if k: "k < n_fields fs" for k m1
  proof -
    have "static_field env (static_layout env r) (iter_at fs dest k) dest sz" using Suc.prems(1) k by simp
    from release_field_same [where n = n', OF Suc.IH [OF _ n'] this] show ?thesis .
  qed
  show ?case
  proof (cases "n_fields fs = 0")
    case True
    then show ?thesis using n iter_begin [OF wf] by simp
  next
    case False
    have "\<exists>m'. each_field (length fs) (pb_release_single_field env (Suc n')) (iter_at fs dest 0) m = Some m' \<and> m' = m"
      using False by (intro each_field_invariant [OF wf]) (simp_all del: pb_release_single_field.simps add: field)
    then show ?thesis using n False iter_begin [OF wf] by (simp del: pb_release_single_field.simps)
  qed
qed
section \<open>Decoding\<close>

text \<open>A run that yields a result and writes only the \<open>sz\<close> bytes at \<open>a\<close>.\<close>

definition runs_inside :: "'s run \<Rightarrow> nat \<Rightarrow> nat \<Rightarrow> bool" where
  "runs_inside run a sz \<longleftrightarrow> (\<forall>st m. \<exists>ok st' m'. run (st, m) = Some (ok, st', m') \<and> agree_outside a sz m m')"

lemma runs_insideE:
  assumes "runs_inside run a sz"
  obtains ok st' m' where "run (st, m) = Some (ok, st', m')" and "agree_outside a sz m m'"
  using assms unfolding runs_inside_def by blast

lemma decode_with_inside:
  assumes "static_layout env r fs a sz" and "2 * r \<le> n" and "runs_inside (noinit fs a) a sz"
  shows "runs_inside (decode_with env n noinit fs a) a sz"
  unfolding runs_inside_def
proof (intro allI)
  fix st :: "'a pb_istream" and m
  obtain m1 where m1: "pb_message_set_to_defaults env n fs a m = Some m1" "agree_outside a sz m m1"
    using static_defaults [OF assms(1,2)] by blast
  obtain ok st' m' where r: "noinit fs a (st, m1) = Some (ok, st', m')" "agree_outside a sz m1 m'"
    using assms(3) by (rule runs_insideE)
  show "\<exists>ok st' m'. decode_with env n noinit fs a (st, m) = Some (ok, st', m') \<and> agree_outside a sz m m'"
    using m1 r static_release [OF assms(1,2)] agree_trans [OF m1(2) r(2)]
    by (cases ok) (auto simp: decode_with_def)
qed

lemma pb_dec_submessage_inside:
  assumes "static_layout env r (submsg_fields env f) a sz" and "2 * r \<le> n" and "runs_inside (noinit (submsg_fields env f) a) a sz"
  shows "\<exists>ok st' m'. pb_dec_submessage env n noinit f a (st, m) = Some (ok, st', m') \<and> agree_outside a sz m m' \<and>
    bytes_left st' \<le> bytes_left st"
proof -
  let ?run = "if PB_HTYPE (field_type f) = PB_HTYPE_REPEATED then decode_with env n noinit (submsg_fields env f) a
              else noinit (submsg_fields env f) a"
  have inside: "runs_inside ?run a sz" using assms decode_with_inside [where noinit = noinit, OF assms] by simp
  obtain sub st1 where mk: "pb_make_string_substream (in_io env) st = (sub, st1)" by (rule prod.exhaust)
  have le: "bytes_left st1 \<le> bytes_left st" using make_substream_left [OF mk] by simp
  show ?thesis
  proof (cases sub)
    case None
    then show ?thesis using mk le by (auto simp: pb_dec_submessage_def)
  next
    case (Some s1)
    obtain ok s2 m2 where r: "?run (s1, m) = Some (ok, s2, m2)" "agree_outside a sz m m2" using inside by (rule runs_insideE)
    obtain c st2 s3 where cl: "pb_close_string_substream (in_io env) st1 s2 = (c, st2, s3)" by (rule prod_cases3)
    have "bytes_left st2 = bytes_left st1" by (rule close_substream_left [OF cl])
    moreover have "(if PB_HTYPE (field_type f) = PB_HTYPE_REPEATED then decode_with env n noinit (submsg_fields env f) a (s1, m)
              else noinit (submsg_fields env f) a (s1, m)) = Some (ok, s2, m2)" using r(1) by (simp split: if_splits)
    ultimately show ?thesis
      using mk Some r(2) cl le
      by (cases "field_ptr f = Ptr_null"; cases c; cases "PB_HTYPE (field_type f) = PB_HTYPE_REPEATED")
         (simp_all add: pb_dec_submessage_def)
  qed
qed

text \<open>What a decoder of a static field does for its destination \<open>a\<close>.\<close>

definition decodes_item :: "(pb_field \<Rightarrow> nat \<Rightarrow> 's run) \<Rightarrow> pb_field \<Rightarrow> nat \<Rightarrow> bool" where
  "decodes_item func f a \<longleftrightarrow>
     (\<forall>st m. \<exists>ok st' m'. func f a (st, m) = Some (ok, st', m') \<and> agree_outside a (data_size f) m m' \<and>
        bytes_left st' \<le> bytes_left st \<and>
        (ok \<longrightarrow> PB_LTYPE (field_type f) \<le> PB_LTYPE_LAST_PACKABLE \<longrightarrow> bytes_left st' < bytes_left st))"

lemma decodes_itemE:
  assumes "decodes_item func f a"
  obtains ok st' m' where "func f a (st, m) = Some (ok, st', m')" and "agree_outside a (data_size f) m m'"
    and "bytes_left st' \<le> bytes_left st"
    and "ok \<Longrightarrow> PB_LTYPE (field_type f) \<le> PB_LTYPE_LAST_PACKABLE \<Longrightarrow> bytes_left st' < bytes_left st"
  using assms unfolding decodes_item_def by metis

lemma call_decoder_decodes:
  assumes io: "read_bounded (in_io env)"
    and noinit: "\<And>fs a sz. static_layout env r fs a sz \<Longrightarrow> runs_inside (noinit fs a) a sz" and n: "2 * r \<le> n"
    and field: "static_field env (static_layout env r) iter dest sz" and i: "i < n_items (cur_field iter)"
  shows "decodes_item (call_decoder env n noinit) (cur_field iter) (pData iter + data_size (cur_field iter) * i)"
  unfolding decodes_item_def
proof (intro allI)
  fix st :: "'a pb_istream" and m
  let ?f = "cur_field iter" and ?a = "pData iter + data_size (cur_field iter) * i"
  let ?lt = "PB_LTYPE (field_type ?f)"
  note d = static_fieldD [OF field]
  show "\<exists>ok st' m'. call_decoder env n noinit ?f ?a (st, m) = Some (ok, st', m') \<and> agree_outside ?a (data_size ?f) m m' \<and>
        bytes_left st' \<le> bytes_left st \<and> (ok \<longrightarrow> ?lt \<le> PB_LTYPE_LAST_PACKABLE \<longrightarrow> bytes_left st' < bytes_left st)"
  proof (cases "?lt = PB_LTYPE_SUBMESSAGE")
    case True
    note lay = d(9) [OF True i]
    show ?thesis using pb_dec_submessage_inside [where f = ?f and noinit = noinit, OF lay n noinit [OF lay]] True by (simp add: call_decoder_def)
  next
    case False
    from d(2,3) False obtain dec where dec: "PB_DECODERS (\<lambda>_ _ s. (False, s)) (realloc_of env) (in_io env) ?lt = Some dec"
      by (cases rule: ltype_cases) (auto simp: PB_DECODERS_def)
    obtain ok st' m' where r: "dec ?f ?a (st, m) = (ok, st', m')" by (rule prod_cases3)
    have "PB_ATYPE (field_type ?f) \<noteq> PB_ATYPE_POINTER" using d(1) by simp
    then show ?thesis
      using False dec r PB_DECODERS_left [OF dec False r] PB_DECODERS_agree [OF io _ d(4) False dec r]
      by (auto simp: call_decoder_def)
  qed
qed

text \<open>The counter of a repeated field is inside, or is the local variable.\<close>

definition size_inside :: "size_loc \<Rightarrow> nat \<Rightarrow> nat \<Rightarrow> bool" where
  "size_inside p dest sz \<longleftrightarrow> (case p of At a \<Rightarrow> dest \<le> a \<and> a + 4 \<le> dest + sz | Fixed_count_size \<Rightarrow> True)"

lemma put_size_inside:
  "put_size p v m fc = (m', fc') \<Longrightarrow> size_inside p dest sz \<Longrightarrow> agree_outside dest sz m m'"
  by (auto simp: put_size_def size_inside_def split: size_loc.splits intro: agree_store_size)

lemma static_packed_loop_inside:
  assumes item: "\<And>i. i < array_size f \<Longrightarrow> decodes_item func f (pData iter + data_size f * i)"
    and f: "f = cur_field iter" and packable: "PB_LTYPE (field_type f) \<le> PB_LTYPE_LAST_PACKABLE"
    and room: "dest \<le> pData iter" "pData iter + data_size f * array_size f \<le> dest + sz"
    and size: "size_inside (pSize iter) dest sz"
  shows "bytes_left sub \<le> k \<Longrightarrow> \<exists>ok sub' m' fc'. static_packed_loop k func iter (sub, m, fc) = Some (ok, sub', m', fc') \<and>
           agree_outside dest sz m m'"
proof (induction k arbitrary: sub m fc)
  case 0
  then show ?case by simp
next
  case (Suc k)
  let ?c = "get_size (pSize iter) m fc"
  show ?case
  proof (cases "bytes_left sub > 0 \<and> ?c < array_size f")
    case False
    then show ?thesis by (auto simp: f)
  next
    case True
    from True item have "decodes_item func f (pData iter + data_size f * ?c)" by blast
    then obtain ok st' m1 where r: "func f (pData iter + data_size f * ?c) (sub, m) = Some (ok, st', m1)"
      and a: "agree_outside (pData iter + data_size f * ?c) (data_size f) m m1"
      and less: "ok \<Longrightarrow> PB_LTYPE (field_type f) \<le> PB_LTYPE_LAST_PACKABLE \<Longrightarrow> bytes_left st' < bytes_left sub"
      by (elim decodes_itemE [where st = sub and m = m]) blast
    have "data_size f * Suc ?c \<le> data_size f * array_size f" using True by (intro mult_le_mono2) simp
    then have a1: "agree_outside dest sz m m1" using a room by (intro agree_widen [OF a]) simp_all
    show ?thesis
    proof (cases ok)
      case False
      then show ?thesis using True r a1 by (auto simp: f)
    next
      case ok: True
      obtain m2 fc2 where p: "put_size (pSize iter) (get_size (pSize iter) m1 fc + 1) m1 fc = (m2, fc2)" by (rule prod.exhaust)
      have "bytes_left st' \<le> k" using less [OF ok packable] Suc.prems by simp
      then obtain ok' sub' m' fc' where "static_packed_loop k func iter (st', m2, fc2) = Some (ok', sub', m', fc')"
          "agree_outside dest sz m2 m'" using Suc.IH by blast
      then show ?thesis
        using True r ok p a1 put_size_inside [OF p size] by (auto simp: f intro: agree_trans)
    qed
  qed
qed

lemma static_packed_inside:
  assumes item: "\<And>i. i < array_size f \<Longrightarrow> decodes_item func f (pData iter + data_size f * i)"
    and f: "f = cur_field iter" and packable: "PB_LTYPE (field_type f) \<le> PB_LTYPE_LAST_PACKABLE"
    and room: "dest \<le> pData iter" "pData iter + data_size f * array_size f \<le> dest + sz"
    and size: "size_inside (pSize iter) dest sz"
  shows "\<exists>ok st' m' fc'. static_packed env func iter (st, m, fc) = Some (ok, st', m', fc') \<and> agree_outside dest sz m m' \<and>
           bytes_left st' \<le> bytes_left st"
proof -
  obtain sub st1 where mk: "pb_make_string_substream (in_io env) st = (sub, st1)" by (rule prod.exhaust)
  have le: "bytes_left st1 \<le> bytes_left st" using make_substream_left [OF mk] by simp
  show ?thesis
  proof (cases sub)
    case None
    then show ?thesis using mk le by (auto simp: static_packed_def)
  next
    case (Some s1)
    obtain ok s2 m2 fc2 where r: "static_packed_loop (bytes_left s1) func iter (s1, m, fc) = Some (ok, s2, m2, fc2)"
        "agree_outside dest sz m m2"
      using static_packed_loop_inside [OF assms order_refl] by blast
    obtain c st2 s3 where cl: "pb_close_string_substream (in_io env) st1 s2 = (c, st2, s3)" by (rule prod_cases3)
    have "bytes_left st2 = bytes_left st1" by (rule close_substream_left [OF cl])
    then show ?thesis
      using mk Some r cl le by (cases "bytes_left s2 = 0"; cases c) (simp_all add: static_packed_def)
  qed
qed

text \<open>What \<open>decode_field\<close> does on a field of a message with a static layout.\<close>

definition field_inside :: "'s field_run \<Rightarrow> nat \<Rightarrow> nat \<Rightarrow> bool" where
  "field_inside run dest sz \<longleftrightarrow>
     (\<forall>st m fc. \<exists>ok st' m' fc'. run (st, m, fc) = Some (ok, st', m', fc') \<and> agree_outside dest sz m m' \<and>
        bytes_left st' \<le> bytes_left st)"

lemma field_insideE:
  assumes "field_inside run dest sz"
  obtains ok st' m' fc' where "run (st, m, fc) = Some (ok, st', m', fc')" and "agree_outside dest sz m m'"
    and "bytes_left st' \<le> bytes_left st"
  using assms unfolding field_inside_def by metis

lemma keep_fc_inside:
  assumes "decodes_item func f a" and "d \<le> a" and "a + data_size f \<le> d + sz" and "agree_outside d sz m0 m"
  shows "\<exists>ok st' m' fc'. keep_fc fc (func f a (st, m)) = Some (ok, st', m', fc') \<and> agree_outside d sz m0 m' \<and>
           bytes_left st' \<le> bytes_left st"
proof -
  obtain ok st' m' where r: "func f a (st, m) = Some (ok, st', m')" "agree_outside a (data_size f) m m'"
    "bytes_left st' \<le> bytes_left st" using assms(1) by (rule decodes_itemE)
  have "agree_outside d sz m0 m'" by (rule agree_trans [OF assms(4) agree_widen [OF r(2) assms(2,3)]])
  then show ?thesis using r by (simp add: keep_fc_def)
qed

lemma decode_static_field_inside:
  assumes io: "read_bounded (in_io env)"
    and noinit: "\<And>fs a sz. static_layout env r fs a sz \<Longrightarrow> runs_inside (noinit fs a) a sz" and n: "2 * r \<le> n"
    and wf: "wf_table fs" and k: "k < n_fields fs" and near: "near fs dest k iter"
    and field: "static_field env (static_layout env r) (iter_at fs dest k) dest sz"
  shows "field_inside (decode_static_field env n noinit wt iter) dest sz"
  unfolding field_inside_def
proof (intro allI)
  fix st :: "'a pb_istream" and m fc
  let ?it = "iter_at fs dest k"
  define f where "f = fs ! k"
  have itf: "cur_field ?it = f" "cur_field iter = f" "pData iter = pData ?it"
    using near_facts [OF wf disjI1 [OF k], of dest ?it] near_facts [OF wf disjI1 [OF k] near] by (simp_all add: near_def f_def)
  note d = static_fieldD [OF field, unfolded itf(1)] and single = static_field_single [OF field, unfolded itf(1)]
  note item = call_decoder_decodes [where noinit = noinit, OF io noinit n field, unfolded itf(1)]
  let ?func = "call_decoder env n noinit" and ?ht = "PB_HTYPE (field_type f)"
  have loc: "iter = ?it" if "?ht \<noteq> PB_HTYPE_REPEATED" using near that by (auto simp: near_def f_def)
  have first: "decodes_item ?func f (pData ?it)" if "?ht \<noteq> PB_HTYPE_REPEATED"
    using item [of 0] that by (simp add: n_items_def)
  note keep = keep_fc_inside [OF first d(5) single(1)]
  show "\<exists>ok st' m' fc'. decode_static_field env n noinit wt iter (st, m, fc) = Some (ok, st', m', fc') \<and>
          agree_outside dest sz m m' \<and> bytes_left st' \<le> bytes_left st"
  proof -
    consider "?ht = PB_HTYPE_REQUIRED" | "?ht = PB_HTYPE_OPTIONAL" | "?ht = PB_HTYPE_REPEATED"
      | "?ht \<noteq> PB_HTYPE_REQUIRED" "?ht \<noteq> PB_HTYPE_OPTIONAL" "?ht \<noteq> PB_HTYPE_REPEATED" by blast
    then show ?thesis
    proof cases
      case 1
      then show ?thesis using keep [of m m fc st] itf by (simp add: decode_static_field_def)
    next
      case 2
      then have it: "iter = ?it" using loc by simp
      have "agree_outside dest sz m (if pSize ?it \<noteq> At (pData ?it) then store_bytes (size_addr ?it) [1] m else m)"
        using d(8) 2 by (auto intro: agree_store)
      from keep [OF _ _ this, of fc st] 2 show ?thesis unfolding it itf(1) decode_static_field_def by (simp add: itf(1))
    next
      case 3
      have size: "size_inside (pSize iter) dest sz"
      proof (cases "iter = ?it")
        case True
        moreover have "pSize ?it \<noteq> Fixed_count_size" using iter_at_facts [OF wf disjI1 [OF k], of dest] by simp
        ultimately show ?thesis using d(7) 3 by (cases "pSize ?it") (auto simp: size_inside_def size_addr_def)
      next
        case False
        then show ?thesis using near by (auto simp: near_def size_inside_def)
      qed
      have room: "pData iter + data_size f * array_size f \<le> dest + sz" using d(6) 3 itf by (simp add: n_items_def)
      have items: "decodes_item ?func f (pData iter + data_size f * i)" if "i < array_size f" for i
        using item that 3 itf by (simp add: n_items_def)
      show ?thesis
      proof (cases "wt = PB_WT_STRING \<and> PB_LTYPE (field_type f) \<le> PB_LTYPE_LAST_PACKABLE")
        case True
        then show ?thesis
          using static_packed_inside [where f = f and iter = iter and func = ?func and env = env, OF items itf(2) [symmetric] _ _ room size] d(5) 3 itf
          by (simp add: decode_static_field_def)
      next
        case False
        let ?c = "get_size (pSize iter) m fc"
        obtain m2 fc2 where p: "put_size (pSize iter) (?c + 1) m fc = (m2, fc2)" by (rule prod.exhaust)
        note a = put_size_inside [OF p size]
        show ?thesis
        proof (cases "?c \<ge> array_size f")
          case True
          then show ?thesis using False 3 itf p a by (auto simp: decode_static_field_def Let_def)
        next
          case less: False
          then have lt: "?c < array_size f" by simp
          have "data_size f * Suc ?c \<le> data_size f * array_size f" using less by (intro mult_le_mono2) simp
          then have "pData iter + data_size f * ?c + data_size f \<le> dest + sz" using room by simp
          then show ?thesis
            using keep_fc_inside [OF items [OF lt] _ _ a, of fc2 st] less False 3 itf p d(5)
            by (auto simp: decode_static_field_def Let_def)
        qed
      qed
    next
      case 4
      then have it: "iter = ?it" using loc by simp
      let ?m = "store_size (size_addr ?it) (unat (field_tag f)) m"
      have a: "agree_outside dest sz m ?m" using d(7) [OF 4(1,2)] by (auto intro: agree_store_size)
      show ?thesis
      proof (cases "PB_LTYPE (field_type f) = PB_LTYPE_SUBMESSAGE")
        case False
        then show ?thesis using keep [OF _ _ a, of fc st] 4 unfolding it decode_static_field_def by (simp add: itf(1) Let_def)
      next
        case True
        have mem: "agree_outside (pData ?it) (data_size f) ?m (memset_0 (pData ?it) (data_size f) ?m)" by (rule agree_memset) simp_all
        obtain m2 where m2: "pb_message_set_to_defaults env n (submsg_fields env f) (pData ?it) (memset_0 (pData ?it) (data_size f) ?m) = Some m2"
            "agree_outside (pData ?it) (data_size f) (memset_0 (pData ?it) (data_size f) ?m) m2"
          using static_defaults [OF single(2) [OF 4(3) True] n] by blast
        have in_sz: "agree_outside dest sz m m2"
          by (rule agree_trans [OF a agree_widen [OF agree_trans [OF mem m2(2)] d(5) single(1) [OF 4(3)]]])
        then show ?thesis
          using keep [OF _ _ in_sz, of fc st] 4 m2(1) True unfolding it decode_static_field_def by (simp add: itf(1) Let_def)
      qed
    qed
  qed
qed

lemma find_from:
  assumes wf: "wf_table fs" and k: "k < n_fields fs" and run: "find_loop (length fs) k found (iter_at fs dest k) = (b, it)"
  shows "if b then \<exists>j<n_fields fs. found (fs ! j) \<and> it = iter_at fs dest j
         else it = iter_at fs dest k \<and> (\<forall>j<n_fields fs. \<not> found (fs ! j))"
proof -
  have f: "pos (iter_at fs dest k) = k" "start (iter_at fs dest k) = fs" using iter_at_facts [OF wf, of k] k by auto
  have ne: "near fs dest k (iter_at fs dest k)" by (simp add: near_def)
  have same: "j = k" if "near fs dest j (iter_at fs dest k)" "j < n_fields fs" for j
    using near_facts [OF wf disjI1 [OF that(2)] that(1)] f by simp
  show ?thesis using find_spec [OF wf k ne, of found, unfolded f run] same by (cases b) auto
qed

lemma decode_field_inside:
  assumes io: "read_bounded (in_io env)"
    and noinit: "\<And>fs a sz. static_layout env r fs a sz \<Longrightarrow> runs_inside (noinit fs a) a sz" and n: "2 * r \<le> n"
    and wf: "wf_table fs" and k: "k < n_fields fs" and near: "near fs dest k iter"
    and fields: "\<And>k. k < n_fields fs \<Longrightarrow> static_field env (static_layout env r) (iter_at fs dest k) dest sz"
  shows "field_inside (decode_field env (Suc n) noinit wt iter) dest sz"
  unfolding field_inside_def
proof (intro allI)
  fix st :: "'a pb_istream" and m fc
  let ?goal = "\<lambda>run. \<exists>ok st' m' fc'. run = Some (ok, st', m', fc') \<and> agree_outside dest sz m m' \<and> bytes_left st' \<le> bytes_left st"
  have n': "2 * r \<le> Suc n" using n by simp
  have static: "?goal (decode_static_field env (Suc n) noinit wt it (st', m, fc))"
    if "j < n_fields fs" "near fs dest j it" "bytes_left st' = bytes_left st" for j it st'
    using decode_static_field_inside [where noinit = noinit and n = "Suc n", OF io noinit n' wf that(1,2) fields [OF that(1)]] that(3)
    unfolding field_inside_def by metis
  have atype: "PB_ATYPE (field_type (cur_field it)) = PB_ATYPE_STATIC" if "j < n_fields fs" "near fs dest j it" for j it
  proof -
    have "near fs dest j (iter_at fs dest j)" by (simp add: near_def)
    from near_facts [OF wf disjI1 [OF that(1)] this] near_facts [OF wf disjI1 [OF that(1)] that(2)]
    show ?thesis using static_fieldD(1) [OF fields [OF that(1)]] by simp
  qed
  show "?goal (decode_field env (Suc n) noinit wt iter (st, m, fc))"
  proof (cases "PB_HTYPE (field_type (cur_field iter)) = PB_HTYPE_ONEOF")
    case False
    then show ?thesis using static [OF k near refl] atype [OF k near] by (simp add: decode_field_def)
  next
    case one: True
    then have it: "iter = iter_at fs dest k" using near near_facts [OF wf disjI1 [OF k] near] by (auto simp: near_def)
    have facts: "pos iter = k" "start iter = fs" using near_facts [OF wf disjI1 [OF k] near] by simp_all
    let ?old = "load_size (size_addr iter) m"
    have union: "case pb_release_union_field env (Suc n) iter (st, m) of None \<Rightarrow> False
        | Some (ok, it', st', m') \<Rightarrow> m' = m \<and> bytes_left st' = bytes_left st \<and> (ok \<longrightarrow> (\<exists>j<n_fields fs. near fs dest j it'))"
    proof (cases "?old = 0 \<or> ?old = unat (field_tag (cur_field iter))")
      case True
      then show ?thesis using k near by (auto simp: pb_release_union_field_def Let_def)
    next
      case False
      obtain b it1 where f1: "pb_field_iter_find iter (of_nat ?old) = (b, it1)" by (rule prod.exhaust)
      show ?thesis
      proof (cases b)
        case no: False
        then show ?thesis using False f1 by (simp add: pb_release_union_field_def Let_def)
      next
        case yes: True
        then obtain j where j: "j < n_fields fs" "it1 = iter_at fs dest j"
          using find_from [OF wf k, of _ dest b it1] f1 facts it by (auto simp: pb_field_iter_find_def)
        have rel: "pb_release_single_field env (Suc n) it1 m = Some m"
          unfolding j(2) by (rule release_field_same [OF static_release [OF _ n] fields [OF j(1)]])
        obtain c it2 where f2: "pb_field_iter_find it1 (field_tag (cur_field iter)) = (c, it2)" by (rule prod.exhaust)
        have "c \<Longrightarrow> \<exists>l<n_fields fs. it2 = iter_at fs dest l"
          using find_from [OF wf j(1), of _ dest c it2] f2 iter_at_facts [OF wf disjI1 [OF j(1)], of dest] j(2)
          by (auto simp: pb_field_iter_find_def)
        then show ?thesis
          using False f1 yes rel f2 by (cases c) (auto simp: pb_release_union_field_def Let_def near_def simp del: pb_release_single_field.simps)
      qed
    qed
    then obtain ok it' st' where u: "pb_release_union_field env (Suc n) iter (st, m) = Some (ok, it', st', m)"
        "bytes_left st' = bytes_left st" "ok \<longrightarrow> (\<exists>j<n_fields fs. near fs dest j it')"
      by (auto split: option.splits)
    show ?thesis
    proof (cases ok)
      case False
      then show ?thesis using u one by (simp add: decode_field_def)
    next
      case True
      then obtain j where j: "j < n_fields fs" "near fs dest j it'" using u(3) by blast
      then show ?thesis using u True one static [OF j u(2)] atype [OF j] by (simp add: decode_field_def)
    qed
  qed
qed

text \<open>The terminator of an empty message, which \<open>pb_field_iter_find\<close> takes for a field with tag 0.\<close>

lemma decode_terminator_inside:
  assumes "wf_table fs" and "n_fields fs = 0" and "field_type (last fs) = 0" and "data_offset (last fs) = 0" and "1 \<le> sz"
    and near: "near fs dest 0 iter"
  shows "field_inside (decode_field env n noinit wt iter) dest sz"
  unfolding field_inside_def
proof (intro allI)
  fix st :: "'a pb_istream" and m fc
  have last: "fs ! 0 = last fs" using assms(1,2) by (simp add: wf_table_def n_fields_def last_conv_nth)
  have it: "cur_field iter = last fs" "pData iter = dest"
    using near_facts [OF assms(1) _ near] last assms(4)
    by (simp_all add: iter_at.simps pb_field_iter_begin_def Let_def)
  obtain ok st' m' where r: "pb_dec_bool (in_io env) (last fs) dest (st, m) = (ok, st', m')" by (rule prod_cases3)
  have "agree_outside dest 1 m m'"
    using r by (auto simp: pb_dec_bool_def split: prod.splits option.splits intro: agree_store)
  then have "agree_outside dest sz m m'" using assms(5) by (auto intro: agree_widen)
  moreover have "decode_field env n noinit wt iter (st, m, fc) = Some (ok, st', m', fc)"
    using r by (simp add: decode_field_def decode_static_field_def it assms(3) PB_HTYPE_def PB_ATYPE_def PB_LTYPE_def
        call_decoder_def PB_DECODERS_def keep_fc_def Let_def)
  ultimately show "\<exists>ok st' m' fc'. decode_field env n noinit wt iter (st, m, fc) = Some (ok, st', m', fc') \<and>
        agree_outside dest sz m m' \<and> bytes_left st' \<le> bytes_left st"
    using scalar_decoders_left(1) [OF r] by simp
qed

text \<open>A tag that was read has at most 29 bits.\<close>

lemma tag_not_max: "pb_decode_tag io st = (True, w, t, e, st') \<Longrightarrow> t \<noteq> - 1"
proof -
  have "drop_bit 3 (x :: u32) \<noteq> - 1" for x
  proof
    assume "drop_bit 3 x = - 1"
    then have "bit (drop_bit 3 x) 31" by simp
    then show False by (auto simp: bit_simps dest: bit_imp_le_length)
  qed
  then show "pb_decode_tag io st = (True, w, t, e, st') \<Longrightarrow> t \<noteq> - 1"
    by (auto simp: pb_decode_tag_def split: prod.splits option.splits if_splits)
qed

definition at_field :: "pb_field list \<Rightarrow> nat \<Rightarrow> bool" where
  "at_field fs k \<longleftrightarrow> k < n_fields fs \<or> k = 0 \<and> n_fields fs = 0"

lemma find_at_field:
  assumes wf: "wf_table fs" and k: "at_field fs k" and near: "near fs dest k iter"
    and run: "find_loop (length (start iter)) (pos iter) found iter = (b, it)"
  shows "\<exists>j. at_field fs j \<and> near fs dest j it \<and> (if b then found (fs ! j) else \<forall>j<n_fields fs. \<not> found (fs ! j))"
proof (cases "k < n_fields fs")
  case True
  have "near fs dest k (iter_at fs dest k)" by (simp add: near_def)
  then show ?thesis
    using find_spec [OF wf True near, of found] True unfolding run by (cases b) (auto simp: at_field_def)
next
  case False
  then have 0: "k = 0" "n_fields fs = 0" using k by (simp_all add: at_field_def)
  have facts: "pos iter = 0" "start iter = fs" "cur_field iter = fs ! 0"
    using near_facts [OF wf _ near] 0 by simp_all
  have "length fs = Suc 0" using wf 0 by (cases fs) (simp_all add: wf_table_def n_fields_def)
  moreover have "pb_field_iter_next iter = (False, iter)"
    using facts wf_table_end [OF wf] 0 by (simp add: pb_field_iter_next_def Let_def)
  ultimately have "b \<longleftrightarrow> found (fs ! 0)" "it = iter" using run facts by (auto split: if_splits)
  then show ?thesis using near 0 by (auto simp: at_field_def)
qed

lemma select_fixed_count_near:
  assumes "wf_table fs" and "at_field fs k" and "near fs dest k (local_iter l)" and "select_fixed_count l = Some l'"
  shows "near fs dest k (local_iter l')"
proof -
  have cur: "cur_field (local_iter l) = fs ! k" "near fs dest k ((local_iter l)\<lparr>pSize := Fixed_count_size\<rparr>) \<or>
      PB_HTYPE (field_type (fs ! k)) \<noteq> PB_HTYPE_REPEATED"
    using near_facts [OF assms(1) _ assms(3)] assms(2,3) by (auto simp: at_field_def near_def)
  then show ?thesis
    using assms(3,4) by (auto simp: select_fixed_count_def Let_def split: if_splits option.splits)
qed

lemma mark_required_iter [simp]: "local_iter (mark_required l) = local_iter l"
  by (simp add: mark_required_def Let_def)

lemma decode_unknown_inside:
  assumes wf: "wf_table fs" and k: "at_field fs k" and near: "near fs dest k (local_iter l)"
    and no_ext: "\<forall>j<n_fields fs. PB_LTYPE (field_type (fs ! j)) \<noteq> PB_LTYPE_EXTENSION" and fin: "field_type (last fs) = 0"
    and tag: "tag \<noteq> - 1"
  shows "\<exists>ok l' st'. decode_unknown env n noinit tag wt l (st, m) = Some (ok, l', st', m) \<and>
           (\<exists>j. at_field fs j \<and> near fs dest j (local_iter l')) \<and> bytes_left st' \<le> bytes_left st"
proof -
  obtain b it where f: "find_extension_field (local_iter l) = (b, it)" by (rule prod.exhaust)
  obtain j where j: "at_field fs j" "near fs dest j it"
      "if b then PB_LTYPE (field_type (fs ! j)) = PB_LTYPE_EXTENSION else \<forall>j<n_fields fs. PB_LTYPE (field_type (fs ! j)) \<noteq> PB_LTYPE_EXTENSION"
    using find_at_field [OF wf k near, of "\<lambda>f. PB_LTYPE (field_type f) = PB_LTYPE_EXTENSION" b it] f
    by (auto simp: find_extension_field_def)
  have "\<not> b"
  proof
    assume b
    then have "PB_LTYPE (field_type (fs ! j)) = PB_LTYPE_EXTENSION" using j(3) by simp
    moreover have "fs ! 0 = last fs" if "n_fields fs = 0" using that wf by (simp add: wf_table_def n_fields_def last_conv_nth)
    ultimately show False using j(1) no_ext fin by (auto simp: at_field_def PB_LTYPE_def)
  qed
  obtain ok st' where s: "pb_skip_field (in_io env) st wt = (ok, st')" by (rule prod.exhaust)
  have "\<not> (- 1 :: u32) \<le> tag" using tag word_order.extremum_unique [of tag] by (simp add: word_order.extremum_unique)
  then show ?thesis
    using f \<open>\<not> b\<close> s skip_left [OF s] j k near by (auto simp: decode_unknown_def Let_def)
qed

lemma decode_loop_inside:
  assumes io: "read_bounded (in_io env)"
    and noinit: "\<And>fs a sz. static_layout env r fs a sz \<Longrightarrow> runs_inside (noinit fs a) a sz" and n: "2 * r \<le> n"
    and lay: "static_layout env (Suc r) fs dest sz"
  shows "at_field fs j \<Longrightarrow> near fs dest j (local_iter l) \<Longrightarrow> bytes_left st \<le> k \<Longrightarrow>
    \<exists>ok l' st' m'. decode_loop env (Suc n) noinit k l (st, m) = Some (ok, l', st', m') \<and> agree_outside dest sz m m'"
proof (induction k arbitrary: j l st m)
  case 0
  then show ?case by simp
next
  case (Suc k)
  have wf: "wf_table fs" and fin: "field_type (last fs) = 0" "data_offset (last fs) = 0" "1 \<le> sz"
    and fields: "\<And>k. k < n_fields fs \<Longrightarrow> static_field env (static_layout env r) (iter_at fs dest k) dest sz"
    using lay by simp_all
  have no_ext: "\<forall>j<n_fields fs. PB_LTYPE (field_type (fs ! j)) \<noteq> PB_LTYPE_EXTENSION"
  proof (intro allI impI)
    fix j assume j: "j < n_fields fs"
    have "cur_field (iter_at fs dest j) = fs ! j"
      using near_facts [OF wf disjI1 [OF j], of dest "iter_at fs dest j"] by (simp add: near_def)
    then show "PB_LTYPE (field_type (fs ! j)) \<noteq> PB_LTYPE_EXTENSION" using static_fieldD(3) [OF fields [OF j]] by simp
  qed
  show ?case
  proof (cases "bytes_left st = 0")
    case True
    then show ?thesis by simp
  next
    case more: False
    obtain ok wt tag eof st1 where t: "pb_decode_tag (in_io env) st = (ok, wt, tag, eof, st1)" by (rule prod_cases5)
    show ?thesis
    proof (cases ok)
      case False
      then show ?thesis using more t by simp
    next
      case ok: True
      have less: "bytes_left st1 < bytes_left st" using tag_left [OF t] ok by simp
      obtain b it where f: "pb_field_iter_find (local_iter l) tag = (b, it)" by (rule prod.exhaust)
      obtain i where i: "at_field fs i" "near fs dest i it"
        using find_at_field [OF wf Suc.prems(1,2), of _ b it] f unfolding pb_field_iter_find_def by blast
      show ?thesis
      proof (cases b)
        case no: False
        have "near fs dest i (local_iter (l\<lparr>local_iter := it\<rparr>))" using i(2) by simp
        from decode_unknown_inside [OF wf i(1) this no_ext fin(1) tag_not_max [OF t [unfolded ok eqTrueI [OF ok]]]]
        obtain c l' st2 i2 where u: "decode_unknown env (Suc n) noinit tag wt (l\<lparr>local_iter := it\<rparr>) (st1, m) = Some (c, l', st2, m)"
            and i2: "at_field fs i2" "near fs dest i2 (local_iter l')" and le: "bytes_left st2 \<le> bytes_left st1" by metis
        show ?thesis
        proof (cases c)
          case True
          have "bytes_left st2 \<le> k" using le less Suc.prems(3) by simp
          from Suc.IH [OF i2 this] show ?thesis using more t ok f no u True by simp
        next
          case False
          then show ?thesis using more t ok f no u by simp
        qed
      next
        case yes: True
        show ?thesis
        proof (cases "select_fixed_count (l\<lparr>local_iter := it\<rparr>)")
          case None
          then show ?thesis using more t ok f yes by simp
        next
          case (Some l1)
          have near1: "near fs dest i (local_iter l1)"
            using select_fixed_count_near [OF wf i(1) _ Some] i(2) by simp
          have "field_inside (decode_field env (Suc n) noinit wt (local_iter l1)) dest sz"
          proof (cases "i < n_fields fs")
            case True
            show ?thesis by (rule decode_field_inside [OF io noinit n wf True near1 fields])
          next
            case False
            then have "i = 0" "n_fields fs = 0" using i(1) by (simp_all add: at_field_def)
            then show ?thesis using decode_terminator_inside [OF wf _ fin, of dest "local_iter l1"] near1 by simp
          qed
          then obtain c st2 m2 fc2 where d: "decode_field env (Suc n) noinit wt (local_iter l1) (st1, m, fixed_count_size (mark_required l1))
               = Some (c, st2, m2, fc2)" and a: "agree_outside dest sz m m2" and le: "bytes_left st2 \<le> bytes_left st1"
            by (elim field_insideE [where st = st1 and m = m and fc = "fixed_count_size (mark_required l1)"]) blast
          show ?thesis
          proof (cases c)
            case False
            then show ?thesis using more t ok f yes Some d a by (simp add: Let_def)
          next
            case True
            let ?l = "(mark_required l1)\<lparr>fixed_count_size := fc2\<rparr>"
            have "bytes_left st2 \<le> k" using le less Suc.prems(3) by simp
            then obtain c' l' st' m' where "decode_loop env (Suc n) noinit k ?l (st2, m2) = Some (c', l', st', m')"
                "agree_outside dest sz m2 m'" using Suc.IH [OF i(1), of ?l st2 m2] near1 by auto
            then show ?thesis using more t ok f yes Some d a True agree_trans [OF a] by (simp add: Let_def)
          qed
        qed
      qed
    qed
  qed
qed

lemma noinit_inside:
  assumes io: "read_bounded (in_io env)"
  shows "static_layout env r fs dest sz \<Longrightarrow> 2 * r \<le> n \<Longrightarrow> runs_inside (pb_decode_noinit env n fs dest) dest sz"
proof (induction r arbitrary: n fs dest sz)
  case 0
  then show ?case by simp
next
  case (Suc r)
  obtain n' where n: "n = Suc (Suc n')" and n': "2 * r \<le> n'" using two_levels [OF Suc.prems(2)] by blast
  have noinit: "runs_inside (pb_decode_noinit env (Suc n') fs a) a sz" if "static_layout env r fs a sz" for fs a sz
    using Suc.IH [OF that] n' by simp
  show ?case
    unfolding runs_inside_def n
  proof (intro allI)
    fix st :: "'a pb_istream" and m
    have "near fs dest 0 (local_iter (first_locals fs dest))" by (simp add: first_locals_def near_def iter_at.simps)
    moreover have "at_field fs 0" by (auto simp: at_field_def)
    ultimately obtain ok l' st' m' where
        r: "decode_loop env (Suc n') (pb_decode_noinit env (Suc n')) (bytes_left st) (first_locals fs dest) (st, m) = Some (ok, l', st', m')"
        "agree_outside dest sz m m'"
      using decode_loop_inside [where noinit = "pb_decode_noinit env (Suc n')" and j = 0, OF io noinit n' Suc.prems(1)] by blast
    then show "\<exists>ok st' m'. pb_decode_noinit env (Suc (Suc n')) fs dest (st, m) = Some (ok, st', m') \<and> agree_outside dest sz m m'"
      by (cases ok) (auto simp: decode_checks_def simp del: pb_decode_noinit.simps(1) decode_loop.simps)
  qed
qed

text \<open>
  C2: Decoding into a self-contained struct terminates and writes only that struct. The messages meant are those
  whose memory is one block of \<open>sz\<close> bytes at \<open>dest\<close> (\<open>static_layout\<close>): every field, and every field of
  the submessages, nested at most \<open>r\<close> deep, has static allocation and lies in the block with its counter or flag; there are
  no pointer, callback or extension fields. The stream is a buffer or any callback that does not store more
  bytes than it is asked for (\<open>read_bounded\<close>). Then, whatever the input and the memory hold, \<open>pb_decode\<close>
  comes to an end within a fuel of \<open>2 * r\<close> calls, with success or failure, and every address outside the block holds what it
  held. The theorem is about writes: which addresses are read is not part of it. It does not extend to tables
  with pointer members in a oneof, as theory \<open>FirestoreValue\<close> shows.
\<close>

theorem static_message_stays_inside:
  assumes "read_bounded (in_io env)" and "static_layout env r fs dest sz" and "2 * r \<le> n"
  shows "\<exists>ok st' m'. pb_decode env n fs dest (st, m) = Some (ok, st', m') \<and>
           (\<forall>i. i < dest \<or> dest + sz \<le> i \<longrightarrow> m' i = m i)"
proof -
  have "runs_inside (pb_decode env n fs dest) dest sz"
    unfolding pb_decode_def by (rule decode_with_inside [where noinit = "pb_decode_noinit env n", OF assms(2,3) noinit_inside [OF assms]])
  then show ?thesis by (elim runs_insideE [where st = st and m = m]) (auto simp: agree_outside_def)
qed

lemma timestamp_layout: "static_layout (firestore_env re fr) 1 google_protobuf_Timestamp_fields 64 16"
proof -
  let ?fs = "google_protobuf_Timestamp_fields"
  have n: "n_fields ?fs = Suc (Suc 0)" by (simp add: n_fields_def google_protobuf_Timestamp_fields_def)
  have wf: "wf_table ?fs" "field_type (last ?fs) = 0" "data_offset (last ?fs) = 0"
    by (simp_all add: wf_table_def google_protobuf_Timestamp_fields_def field_macros)
  have nth: "?fs ! 0 = PB_SINGULAR_STATIC 1 0 8 1 Ptr_null" "?fs ! Suc 0 = PB_SINGULAR_STATIC 2 0 4 1 Ptr_null"
      "?fs ! Suc (Suc 0) = PB_LAST_FIELD"
    by (simp_all add: google_protobuf_Timestamp_fields_def PB_DATAOFFSET_OTHER_def)
  have 0: "iter_at ?fs 64 0 = \<lparr>start = ?fs, pos = 0, required_field_index = 0, dest_struct = 64, pData = 64, pSize = At 64\<rparr>"
    by (simp add: iter_at.simps pb_field_iter_begin_def nth field_macros size_loc_at_def)
  have 1: "iter_at ?fs 64 (Suc 0) = \<lparr>start = ?fs, pos = 1, required_field_index = 0, dest_struct = 64, pData = 72, pSize = At 72\<rparr>"
    by (simp add: iter_at.simps(2) 0 pb_field_iter_next_def nth field_macros size_loc_at_def
        cur_field_def Let_def PB_HTYPE_def PB_ATYPE_def)
  show ?thesis
    unfolding One_nat_def static_layout.simps n All_less_Suc
    by (simp add: 0 1 wf nth field_macros static_field_def cur_field_def
        Let_def PB_HTYPE_def PB_ATYPE_def PB_LTYPE_def size_fits_def n_items_def size_addr_def)
qed

theorem static_message_stays_inside_witness:
  "\<exists>st' m'. pb_decode (firestore_env (\<lambda>m _ _. (0, m)) (\<lambda>m _. m)) 2 google_protobuf_Timestamp_fields 64
       (pb_istream_from_buffer [8, 5] 2, \<lambda>_. 9) = Some (True, st', m') \<and> m' 80 = 9"
proof -
  let ?env = "firestore_env (\<lambda>m _ _. (0, m)) (\<lambda>m _. m)"
  have io: "read_bounded (in_io ?env)"
    by (simp add: firestore_env_def read_bounded_def read_memory_def buf_read_def)
  obtain ok st' m' where r: "pb_decode ?env 2 google_protobuf_Timestamp_fields 64
       (pb_istream_from_buffer [8, 5] 2, \<lambda>_. 9) = Some (ok, st', m')" and "\<forall>i. i < 64 \<or> 64 + 16 \<le> i \<longrightarrow> m' i = 9"
    using static_message_stays_inside [where n = 2 and st = "pb_istream_from_buffer [8, 5] 2" and m = "\<lambda>_. 9", OF io timestamp_layout] by auto
  moreover have "map_option fst (pb_decode ?env 2 google_protobuf_Timestamp_fields 64
       (pb_istream_from_buffer [8, 5] 2, \<lambda>_. 9)) = Some True" by code_simp
  ultimately show ?thesis by auto
qed

end
