(* ===== verification/FirestoreValue.thy ===== *)
theory FirestoreValue
  imports PbSafe
begin

text \<open>
  Decoding Firestore's \<open>Value\<close>, a union of scalars, submessages and pointers to byte strings. The iterator stays at
  the union, \<open>pSize\<close> at \<open>which_value_type\<close>. The theory follows a message that contains two members of the union.
\<close>

section \<open>The union of a Value\<close>

abbreviation (input) Value_table :: "pb_field list" where
  "Value_table \<equiv> google_firestore_v1_Value_fields"

lemma Value_wf: "wf_table Value_table" "n_fields Value_table = 11"
  by (simp_all add: wf_table_def n_fields_def google_firestore_v1_Value_fields_def field_macros)

lemma Value_oneofs:
  "list_all (\<lambda>f. PB_HTYPE (field_type f) = PB_HTYPE_ONEOF \<and> size_offset f = - 8 \<and> field_tag f \<noteq> 0) (take 11 Value_table)"
  "list_all (\<lambda>f. data_offset f = PB_SIZE_MAX) (take 10 (tl Value_table))"
  "data_offset (Value_table ! 0) = 8"
  by (simp_all add: google_firestore_v1_Value_fields_def field_macros PB_HTYPE_def)

lemma Value_field:
  assumes "k < 11"
  shows "PB_HTYPE (field_type (Value_table ! k)) = PB_HTYPE_ONEOF" "size_offset (Value_table ! k) = - 8"
    "field_tag (Value_table ! k) \<noteq> 0" "0 < k \<Longrightarrow> data_offset (Value_table ! k) = PB_SIZE_MAX"
proof -
  have l: "length Value_table = 12" by (simp add: google_firestore_v1_Value_fields_def)
  show "PB_HTYPE (field_type (Value_table ! k)) = PB_HTYPE_ONEOF" "size_offset (Value_table ! k) = - 8" "field_tag (Value_table ! k) \<noteq> 0"
    using Value_oneofs(1) assms l by (auto simp: list_all_length)
  show "data_offset (Value_table ! k) = PB_SIZE_MAX" if "0 < k"
  proof -
    have "take 10 (tl Value_table) ! (k - 1) = Value_table ! k" using that assms l by (simp add: nth_tl)
    then show ?thesis using Value_oneofs(2) that assms l by (auto simp: list_all_length dest: spec [of _ "k - 1"])
  qed
qed

lemma Value_iter:
  "k < 11 \<Longrightarrow> iter_at Value_table d k
     = \<lparr>start = Value_table, pos = k, required_field_index = 0, dest_struct = d, pData = d + 8, pSize = At d\<rparr>"
proof (induction k)
  case 0
  show ?case using Value_field(2) [of 0] Value_oneofs(3)
    by (simp add: iter_at.simps pb_field_iter_begin_def Let_def size_loc_at_def)
next
  case (Suc k)
  then have k: "k < 11" by simp
  show ?case
    unfolding iter_at.simps Suc.IH [OF k]
    using Value_field [OF k] Value_field [OF Suc.prems]
    by (simp add: pb_field_iter_next_def cur_field_def Let_def)
qed

lemma Value_find:
  assumes k: "k < 11" and j: "j < 11" and lt: "PB_LTYPE (field_type (Value_table ! j)) \<noteq> PB_LTYPE_EXTENSION"
  shows "pb_field_iter_find (iter_at Value_table d k) (field_tag (Value_table ! j)) = (True, iter_at Value_table d j)"
proof -
  obtain b it where r: "pb_field_iter_find (iter_at Value_table d k) (field_tag (Value_table ! j)) = (b, it)" by (rule prod.exhaust)
  have d: "distinct (map field_tag (take 11 Value_table))" by (simp add: google_firestore_v1_Value_fields_def field_macros)
  have l: "length Value_table = 12" by (simp add: google_firestore_v1_Value_fields_def)
  have inj: "i = j" if "i < 11" "field_tag (Value_table ! i) = field_tag (Value_table ! j)" for i
    using nth_eq_iff_index_eq [OF d, of i j] that j l by simp
  have "pos (iter_at Value_table d k) = k" "start (iter_at Value_table d k) = Value_table"
    using Value_iter [OF k, of d] by simp_all
  then have run: "find_loop (length Value_table) k
      (\<lambda>f. field_tag f = field_tag (Value_table ! j) \<and> PB_LTYPE (field_type f) \<noteq> PB_LTYPE_EXTENSION) (iter_at Value_table d k) = (b, it)"
    using r by (simp add: pb_field_iter_find_def)
  note found = find_from [OF Value_wf(1) _ run, unfolded Value_wf(2), OF k]
  have b using found j lt by (cases b) auto
  then show ?thesis using r found inj by auto
qed
abbreviation (input) buffer_of :: "bytes \<Rightarrow> bytes pb_istream" where
  "buffer_of bs \<equiv> pb_istream_from_buffer bs (length bs)"

lemma tag_from_buffer:
  assumes "wt < 8" and "0 < fn" and "unat fn < 2 ^ 29"
  shows "pb_decode_tag read_memory (buffer_of (tag_enc wt fn @ rest)) = (True, wt, fn, False, buffer_of rest)"
  using pb_decode_tag_enc [OF buffer.byte_source_axioms buffer_holds assms] buffer_advanced by blast

lemma firestore_env_simps [simp]:
  "in_io (firestore_env re fr) = read_memory" "realloc_of (firestore_env re fr) = re" "free_of (firestore_env re fr) = fr"
  "tables (firestore_env re fr) = firestore_tables"
  by (simp_all add: firestore_env_def)

lemma Value_step:
  assumes k: "k < 11" and j: "j < 11" and iter: "local_iter l = iter_at Value_table d k"
    and lt: "PB_LTYPE (field_type (Value_table ! j)) \<noteq> PB_LTYPE_EXTENSION"
    and wt: "wt < 8" and tag: "unat (field_tag (Value_table ! j)) < 2 ^ 29"
  shows "decode_loop (firestore_env re fr) n noinit (Suc c) l (buffer_of (tag_enc wt (field_tag (Value_table ! j)) @ rest), m) =
    (case decode_field (firestore_env re fr) n noinit wt (iter_at Value_table d j) (buffer_of rest, m, fixed_count_size l) of
       None \<Rightarrow> None
     | Some (False, st, m, fc) \<Rightarrow> Some (False, l\<lparr>local_iter := iter_at Value_table d j, fixed_count_size := fc\<rparr>, st, m)
     | Some (True, st, m, fc) \<Rightarrow>
         decode_loop (firestore_env re fr) n noinit c (l\<lparr>local_iter := iter_at Value_table d j, fixed_count_size := fc\<rparr>) (st, m))"
proof -
  let ?tag = "field_tag (Value_table ! j)"
  have cur: "cur_field (iter_at Value_table d j) = Value_table ! j" using Value_iter [OF j] by (simp add: cur_field_def)
  have nz: "0 < ?tag" using Value_field(3) [OF j] by (simp add: word_gt_0)
  have "tag_enc wt ?tag \<noteq> []" by (simp add: tag_enc_def leb_enc.simps [of "8 * unat ?tag + wt"])
  then have left: "bytes_left (buffer_of (tag_enc wt ?tag @ rest) :: bytes pb_istream) \<noteq> 0"
    by (simp add: pb_istream_from_buffer_def)
  have sel: "select_fixed_count (l\<lparr>local_iter := iter_at Value_table d j\<rparr>) = Some (l\<lparr>local_iter := iter_at Value_table d j\<rparr>)"
    using cur Value_field(1) [OF j] by (simp add: select_fixed_count_def Let_def)
  have req: "mark_required (l\<lparr>local_iter := iter_at Value_table d j\<rparr>) = l\<lparr>local_iter := iter_at Value_table d j\<rparr>"
    using cur Value_field(1) [OF j] by (simp add: mark_required_def Let_def)
  show ?thesis
    using left tag_from_buffer [OF wt nz tag, of rest] Value_find [OF k j lt, of d] iter sel req
    by (simp add: Let_def split: option.splits)
qed

lemma store_signed_8: "data_size f = 8 \<Longrightarrow> store_signed f a v s = (True, fst s, store_bytes a (le_bytes 8 (unat v)) (snd s))"
  by (simp add: store_signed_def store_clamped_def Let_def)

lemma load_size_store:
  "load_size a (store_size a n m) = n mod 2 ^ 32"
  "a + 4 \<le> b \<Longrightarrow> load_size a (store_bytes b bs m) = load_size a m"
proof -
  show "load_size a (store_size a n m) = n mod 2 ^ 32"
    using load_store [of a "le_bytes 4 n" m] by (simp add: load_size_def store_size_def le_val_bytes)
  show "load_size a (store_bytes b bs m) = load_size a m" if "a + 4 \<le> b"
    using that by (auto simp: load_size_def load_bytes_def store_bytes_def intro!: arg_cong [where f = le_val])
qed

lemma load_ptr_store:
  "length bs = 8 \<Longrightarrow> load_ptr a (store_bytes a bs m) = le_val bs"
  "b + 4 \<le> a \<Longrightarrow> load_ptr a (store_size b n m) = load_ptr a m"
proof -
  show "length bs = 8 \<Longrightarrow> load_ptr a (store_bytes a bs m) = le_val bs"
    using load_store [of a bs m] by (simp add: load_ptr_def)
  show "b + 4 \<le> a \<Longrightarrow> load_ptr a (store_size b n m) = load_ptr a m"
    by (auto simp: load_ptr_def store_size_def load_bytes_def store_bytes_def intro!: arg_cong [where f = le_val])
qed

text \<open>Decoding \<open>integer_value\<close> into a fresh value.\<close>

lemma decode_integer_value:
  assumes "load_size d m = 0"
  shows "decode_field (firestore_env re fr) n noinit 0 (iter_at Value_table d (Suc 0)) (buffer_of (leb_enc (unat (v :: u64)) @ rest), m, fc)
    = Some (True, buffer_of rest, store_bytes (d + 8) (le_bytes 8 (unat v)) (store_size d 2 m), fc)"
proof -
  let ?it = "iter_at Value_table d (Suc 0)"
  define f where "f = Value_table ! Suc 0"
  have f: "PB_HTYPE (field_type f) = PB_HTYPE_ONEOF" "PB_ATYPE (field_type f) = PB_ATYPE_STATIC" "PB_LTYPE (field_type f) = 1"
      "data_size f = 8" "field_tag f = 2"
    by (simp_all add: f_def google_firestore_v1_Value_fields_def field_macros PB_HTYPE_def PB_ATYPE_def PB_LTYPE_def)
  have it: "cur_field ?it = f" "pData ?it = d + 8" "size_addr ?it = d"
    using Value_iter [of "Suc 0" d] by (simp_all add: cur_field_def f_def size_addr_def)
  have u: "pb_release_union_field (firestore_env re fr) n ?it s = Some (True, ?it, s)"
    if "snd s = m" for s :: "bytes dec_state"
    using assms that by (cases s) (simp add: pb_release_union_field_def it Let_def)
  have dec: "pb_dec_varint read_memory f (d + 8) (buffer_of (leb_enc (unat v) @ rest), store_size d 2 m)
        = (True, buffer_of rest, store_bytes (d + 8) (le_bytes 8 (unat v)) (store_size d 2 m))"
    using decode_from_buffer(1) [of v rest] by (simp add: pb_dec_varint_def f store_signed_8)
  show ?thesis
    using dec by (simp add: decode_field_def u it f decode_static_field_def call_decoder_def PB_DECODERS_def keep_fc_def Let_def)
qed
text \<open>Decoding an empty \<open>string_value\<close> into a value that holds \<open>integer_value\<close>.\<close>

lemma decode_string_value:
  assumes which: "load_size d m = 2"
  shows "case re (store_size d 17 m) (load_ptr (d + 8) m) 4 of (q, m2) \<Rightarrow>
    \<exists>st m3. decode_field (firestore_env re fr) (Suc n) noinit 2 (iter_at Value_table d 9) (buffer_of (0 # rest), m, fc)
      = Some (q \<noteq> 0, st, if q = 0 then m2 else m3, fc) \<and> bytes_left st = length rest"
proof -
  let ?it = "iter_at Value_table d 9" and ?old = "iter_at Value_table d (Suc 0)"
  define f where "f = Value_table ! 9"
  have f: "PB_HTYPE (field_type f) = PB_HTYPE_ONEOF" "PB_ATYPE (field_type f) = PB_ATYPE_POINTER" "PB_LTYPE (field_type f) = 6"
      "field_tag f = 17"
    by (simp_all add: f_def google_firestore_v1_Value_fields_def field_macros PB_HTYPE_def PB_ATYPE_def PB_LTYPE_def)
  have it: "cur_field ?it = f" "pData ?it = d + 8" "size_addr ?it = d"
    using Value_iter [of 9 d] by (simp_all add: cur_field_def f_def size_addr_def)
  define g where "g = Value_table ! Suc 0"
  have g: "PB_HTYPE (field_type g) = PB_HTYPE_ONEOF" "PB_ATYPE (field_type g) = PB_ATYPE_STATIC" "PB_LTYPE (field_type g) = 1"
      "field_tag g = 2"
    by (simp_all add: g_def google_firestore_v1_Value_fields_def field_macros PB_HTYPE_def PB_ATYPE_def PB_LTYPE_def)
  have old: "cur_field ?old = g" "pData ?old = d + 8" "size_addr ?old = d"
    using Value_iter [of "Suc 0" d] by (simp_all add: cur_field_def g_def size_addr_def)
  have find: "pb_field_iter_find ?it 2 = (True, ?old)" "pb_field_iter_find ?old 17 = (True, ?it)"
    using Value_find [of 9 "Suc 0" d] Value_find [of "Suc 0" 9 d] f g by (simp_all add: f_def [symmetric] g_def [symmetric])
  have "pb_release_single_field (firestore_env re fr) (Suc n) ?old m = Some m"
    by (simp add: old g which release_pointer_def Let_def)
  then have u: "pb_release_union_field (firestore_env re fr) (Suc n) ?it (st, m) = Some (True, ?it, st, m)"
    for st :: "bytes pb_istream"
    by (simp add: pb_release_union_field_def it f which find Let_def del: pb_release_single_field.simps)
  have v: "pb_decode_varint32 read_memory (buffer_of (0 # rest)) = (Some 0, buffer_of rest)"
    by (simp add: pb_decode_varint32_def pb_decode_varint32_eof_def pb_readbyte_def pb_istream_from_buffer_def in_callback_def buf_read_def)
  obtain q m2 where re: "re (store_size d 17 m) (load_ptr (d + 8) m) 4 = (q, m2)" by (rule prod.exhaust)
  have p: "le_val (load_bytes (d + 8) 8 (store_size d 17 m)) = load_ptr (d + 8) m"
    using load_ptr_store(2) [of d "d + 8" 17 m] by (simp add: load_ptr_def)
  have "\<exists>st m3. pb_dec_bytes re read_memory f (d + 8) (buffer_of (0 # rest), store_size d 17 m)
      = (q \<noteq> 0, st, if q = 0 then m2 else m3) \<and> bytes_left st = length rest"
    unfolding pb_dec_bytes_def fst_conv snd_conv v
    by (simp add: allocate_field_def f p re Let_def read_to_def pb_read_def split: prod.split)
       (simp add: pb_istream_from_buffer_def)
  then obtain st m3 where b: "pb_dec_bytes re read_memory f (d + 8) (buffer_of (0 # rest), store_size d 17 m)
      = (q \<noteq> 0, st, if q = 0 then m2 else m3)" "bytes_left st = length rest" by blast
  have "decode_field (firestore_env re fr) (Suc n) noinit 2 ?it (buffer_of (0 # rest), m, fc)
      = Some (q \<noteq> 0, st, if q = 0 then m2 else m3, fc)"
    using b(1) by (simp add: decode_field_def u it f decode_pointer_field_def call_decoder_def PB_DECODERS_def keep_fc_def Let_def)
  then show ?thesis using b(2) re by auto
qed

lemma Value_required: "required_count (iter_at Value_table d 9) = 0"
proof -
  have i: "cur_field (iter_at Value_table d k) = Value_table ! k" "required_field_index (iter_at Value_table d k) = 0"
      "start (iter_at Value_table d k) = Value_table" if "k < 11" for k
    using Value_iter [OF that] by (simp_all add: cur_field_def)
  have n: "pb_field_iter_next (iter_at Value_table d 9) = (True, iter_at Value_table d 10)"
      "pb_field_iter_next (iter_at Value_table d 10) = (False, iter_at Value_table d 0)"
    using iter_next [OF Value_wf(1), of 9 d "iter_at Value_table d 9"] iter_next [OF Value_wf(1), of 10 d "iter_at Value_table d 10"]
    by (simp_all add: Value_wf(2) near_def)
  have "seek_end (Suc (Suc 10)) (iter_at Value_table d 9) = (0, field_type (Value_table ! 10), iter_at Value_table d 0)"
    by (simp only: seek_end.simps n) (simp add: n i)
  moreover have "length Value_table = Suc (Suc 10)" by (simp add: google_firestore_v1_Value_fields_def)
  ultimately show ?thesis using Value_field(1) [of 10] by (simp add: required_count_def i)
qed

text \<open>
  C15: A value message chooses the address that the allocator is given: after \<open>integer_value\<close>, an empty
  \<open>string_value\<close> in the same message makes \<open>pb_decode_noinit\<close> call \<open>realloc\<close> with the decoded integer as the old
  pointer, because \<open>pb_release_union_field\<close> does not clear the union.
\<close>

theorem message_chooses_realloc_pointer:
  assumes "load_size d m = 0"
  shows "\<exists>m1. case re m1 (unat v) 4 of (q, m2) \<Rightarrow>
    \<exists>st m3. pb_decode_noinit (firestore_env re fr) (Suc (Suc n)) google_firestore_v1_Value_fields d
        (buffer_of (tag_enc 0 2 @ leb_enc (unat (v :: u64)) @ tag_enc 2 17 @ [0]), m)
      = Some (q \<noteq> 0, st, if q = 0 then m2 else m3)"
proof -
  let ?env = "firestore_env re fr" and ?l = "first_locals Value_table d"
  let ?m1 = "store_bytes (d + 8) (le_bytes 8 (unat v)) (store_size d 2 m)"
  let ?rest = "leb_enc (unat v) @ tag_enc 2 17 @ [0]"
  have which: "load_size d ?m1 = 2" by (simp add: load_size_store)
  have ptr: "load_ptr (d + 8) ?m1 = unat v"
    using unsigned_less [of v, where 'a = nat] by (simp add: load_ptr_store le_val_bytes)
  have tags: "field_tag (Value_table ! Suc 0) = 2" "field_tag (Value_table ! 9) = 17"
      "PB_LTYPE (field_type (Value_table ! Suc 0)) = 1" "PB_LTYPE (field_type (Value_table ! 9)) = 6"
    by (simp_all add: google_firestore_v1_Value_fields_def field_macros PB_LTYPE_def)
  have l: "local_iter ?l = iter_at Value_table d 0" by (simp add: first_locals_def iter_at.simps)
  have t1: "tag_enc 0 2 = [16]" and t2: "tag_enc 2 17 = [138, 1]"
    by (simp_all add: tag_enc_def leb_enc.simps)
  obtain q m2 where re: "re (store_size d 17 ?m1) (unat v) 4 = (q, m2)" by (rule prod.exhaust)
  obtain st m3 where s: "decode_field ?env (Suc n) (pb_decode_noinit ?env (Suc n)) 2 (iter_at Value_table d 9) (buffer_of [0], ?m1, 0)
      = Some (q \<noteq> 0, st, if q = 0 then m2 else m3, 0)" "bytes_left st = 0"
    using decode_string_value [OF which, of re fr n "pb_decode_noinit ?env (Suc n)" "[]" 0] ptr re by auto
  define c where "c = length ?rest"
  obtain c' where c: "c = Suc c'" by (cases c) (auto simp: c_def t2)
  have fc: "fixed_count_size ?l = 0" by (simp add: first_locals_def)
  have "decode_loop ?env (Suc n) (pb_decode_noinit ?env (Suc n)) (Suc c) ?l (buffer_of (tag_enc 0 2 @ ?rest), m)
      = decode_loop ?env (Suc n) (pb_decode_noinit ?env (Suc n)) c
          (?l\<lparr>local_iter := iter_at Value_table d (Suc 0), fixed_count_size := 0\<rparr>) (buffer_of (tag_enc 2 17 @ [0]), ?m1)"
    using Value_step [where j = "Suc 0" and k = 0 and wt = 0 and l = ?l and rest = ?rest, OF _ _ l] tags
      decode_integer_value [OF assms, of re fr "Suc n" "pb_decode_noinit ?env (Suc n)" v "tag_enc 2 17 @ [0]" 0] fc
    by (simp del: decode_loop.simps pb_decode_noinit.simps)
  also have "\<dots> = (if q = 0 then Some (False, ?l\<lparr>local_iter := iter_at Value_table d 9, fixed_count_size := 0\<rparr>, st, m2)
      else decode_loop ?env (Suc n) (pb_decode_noinit ?env (Suc n)) c'
             (?l\<lparr>local_iter := iter_at Value_table d 9, fixed_count_size := 0\<rparr>) (st, m3))"
    unfolding c
    using Value_step [where j = 9 and k = "Suc 0" and wt = 2
        and l = "?l\<lparr>local_iter := iter_at Value_table d (Suc 0), fixed_count_size := 0\<rparr>" and rest = "[0]"] tags s
    by (simp del: decode_loop.simps pb_decode_noinit.simps split: if_split)
  finally have run: "decode_loop ?env (Suc n) (pb_decode_noinit ?env (Suc n)) (Suc c) ?l (buffer_of (tag_enc 0 2 @ ?rest), m)
    = Some (q \<noteq> 0, ?l\<lparr>local_iter := iter_at Value_table d 9, fixed_count_size := 0\<rparr>, st, if q = 0 then m2 else m3)"
    using s(2) by (cases c') auto
  have "bytes_left (buffer_of (tag_enc 0 2 @ ?rest) :: bytes pb_istream) = Suc c"
    by (simp add: pb_istream_from_buffer_def c_def t1)
  then have "pb_decode_noinit ?env (Suc (Suc n)) Value_table d (buffer_of (tag_enc 0 2 @ ?rest), m)
    = Some (q \<noteq> 0, st, if q = 0 then m2 else m3)"
    using run Value_required by (auto simp: decode_checks_def first_locals_def all_required_seen_def
        simp del: decode_loop.simps pb_decode_noinit.simps(1))
  then show ?thesis using re by (intro exI [of _ "store_size d 17 ?m1"]) auto
qed

theorem message_chooses_realloc_pointer_witness:
  "\<exists>st m2. pb_decode_noinit (firestore_env (\<lambda>m p k. (if p = 4096 then 0 else 8, m)) (\<lambda>m _. m)) 2
        google_firestore_v1_Value_fields 64
        (buffer_of (tag_enc 0 2 @ leb_enc (unat (4096 :: u64)) @ tag_enc 2 17 @ [0]), \<lambda>_. 0) = Some (False, st, m2)"
proof -
  have "le_val (replicate n 0) = 0" for n by (induction n) (simp_all add: le_val_def be_val_def be_acc_append)
  then have "load_size 64 (\<lambda>_. 0) = 0" by (simp add: load_size_def load_bytes_def map_replicate_const)
  note c = message_chooses_realloc_pointer [where re = "\<lambda>m p k. (if p = 4096 then 0 else 8, m)" and v = 4096
      and fr = "\<lambda>m _. m" and n = 0, OF this]
  have u: "unat (4096 :: u64) = 4096" by simp
  have two: "Suc (Suc 0) = 2" by simp
  show ?thesis using c [unfolded u two] unfolding u by (simp only: if_True prod.case simp_thms) blast
qed

end
