(* ===== verification/PbSize.thy ===== *)
theory PbSize
  imports FirestoreProto "HOL-Library.Sublist"
begin

text \<open>
  What the encoder writes does not depend on the stream. nanopb encodes a submessage twice, first to find its size;
  the lemmas show that both passes, and any two runs on the same memory, write the same bytes.
\<close>

section \<open>Streams that are written to\<close>

text \<open>A stream that is not full and has no error yet.\<close>

definition stream_ok :: "'s pb_ostream \<Rightarrow> bool" where
  "stream_ok st \<longleftrightarrow> out_ok st \<and> out_errmsg st = None \<and> (sink st \<noteq> Sizing \<longrightarrow> bytes_written st \<le> max_size st)"

text \<open>\<open>st'\<close> is \<open>st\<close> after \<open>ds\<close> was written, whatever the error message.\<close>

definition wrote :: "('s \<Rightarrow> bytes) \<Rightarrow> 's pb_ostream \<Rightarrow> bytes \<Rightarrow> 's pb_ostream \<Rightarrow> bool" where
  "wrote log st ds st' \<longleftrightarrow>
     same_sink (sink st) (sink st') \<and> (sink st \<noteq> Sizing \<longrightarrow> sink_bytes log (sink st') = sink_bytes log (sink st) @ ds) \<and>
     bytes_written st' = bytes_written st + length ds \<and> max_size st' = max_size st"

text \<open>
  On memory \<open>m\<close> the run writes exactly \<open>bs\<close> when there is room, and otherwise fails after a part of \<open>bs\<close> that fits.
  Byte strings that a \<^verbatim>\<open>size_t\<close> cannot count are out of scope.
\<close>

definition delivers :: "('s \<Rightarrow> bytes) \<Rightarrow> memory \<Rightarrow> 's enc_run \<Rightarrow> bytes \<Rightarrow> bool" where
  "delivers log m W bs \<longleftrightarrow>
     (\<forall>st. stream_ok st \<longrightarrow> bytes_written st + length bs < 2 ^ 64 \<longrightarrow>
        (if out_room st (length bs)
         then \<exists>st'. W (st, m) = Some (True, st', m) \<and> emitted log st bs st' \<and> stream_ok st'
         else \<exists>st' ds. W (st, m) = Some (False, st', m) \<and> prefix ds bs \<and> wrote log st ds st' \<and>
                       bytes_written st' \<le> max_size st))"

definition keeps_memory :: "memory \<Rightarrow> 's enc_run \<Rightarrow> bool" where
  "keeps_memory m W \<longleftrightarrow> (\<forall>st ok st' m'. W (st, m) = Some (ok, st', m') \<longrightarrow> m' = m)"

definition fails_on :: "memory \<Rightarrow> 's enc_run \<Rightarrow> bool" where
  "fails_on m W \<longleftrightarrow> (\<forall>st s. W (st, m) \<noteq> Some (True, s))"

text \<open>What a run writes does not depend on the stream: the same bytes to every stream, or a failure on every stream.\<close>

definition settled :: "('s \<Rightarrow> bytes) \<Rightarrow> memory \<Rightarrow> 's enc_run \<Rightarrow> bool" where
  "settled log m W \<longleftrightarrow> keeps_memory m W \<and> (fails_on m W \<or> (\<exists>bs. delivers log m W bs))"

lemma settled_fails: "keeps_memory m W \<Longrightarrow> fails_on m W \<Longrightarrow> settled log m W"
  by (simp add: settled_def)

lemma settled_delivers: "keeps_memory m W \<Longrightarrow> delivers log m W bs \<Longrightarrow> settled log m W"
  by (auto simp: settled_def)

declare same_sink_refl [simp]

lemma wrote_refl [simp]: "wrote log st [] st" "wrote log st [] (out_error msg st)"
  by (simp_all add: wrote_def out_error_def)

lemma emitted_refl [simp]: "emitted log st [] st"
  by (simp add: emitted_def)

lemma emitted_wrote:
  assumes "emitted log st bs st1" and "wrote log st1 ds st2"
  shows "wrote log st (bs @ ds) st2"
  using assms same_sink_trans [of "sink st" "sink st1" "sink st2"] same_sink_Sizing [of "sink st" "sink st1"]
  by (simp add: emitted_def wrote_def)

lemma room_after:
  assumes "emitted log st bs st1"
  shows "out_room st1 (length cs) = out_room st (length (bs @ cs))"
  using assms same_sink_Sizing [of "sink st" "sink st1"] by (auto simp: out_room_def emitted_def add.assoc)

lemma room_less:
  "out_room st (length (bs @ cs)) \<Longrightarrow> out_room st (length bs)"
  by (auto simp: out_room_def split: if_splits)

lemma delivers_seq:
  assumes f: "delivers log m f bs" and g: "delivers log m g cs"
  shows "delivers log m (seq f g) (bs @ cs)"
  unfolding delivers_def
proof (intro allI impI)
  fix st :: "'a pb_ostream"
  assume st: "stream_ok st" and n: "bytes_written st + length (bs @ cs) < 2 ^ 64"
  then have n1: "bytes_written st + length bs < 2 ^ 64" by simp
  let ?goal = "if out_room st (length (bs @ cs))
     then \<exists>st'. seq f g (st, m) = Some (True, st', m) \<and> emitted log st (bs @ cs) st' \<and> stream_ok st'
     else \<exists>st' ds. seq f g (st, m) = Some (False, st', m) \<and> prefix ds (bs @ cs) \<and> wrote log st ds st' \<and>
                   bytes_written st' \<le> max_size st"
  show ?goal
  proof (cases "out_room st (length bs)")
    case False
    then have no: "\<not> out_room st (length (bs @ cs))" using room_less by blast
    from f st n1 False obtain st' ds where
      "f (st, m) = Some (False, st', m)" "prefix ds bs" "wrote log st ds st'" "bytes_written st' \<le> max_size st"
      unfolding delivers_def by metis
    then show ?thesis using no by (auto simp: seq_def intro: prefix_prefix)
  next
    case True
    with f st n1 obtain st1 where r: "f (st, m) = Some (True, st1, m)" and e: "emitted log st bs st1" and ok: "stream_ok st1"
      unfolding delivers_def by metis
    have n2: "bytes_written st1 + length cs < 2 ^ 64" using n e by (simp add: emitted_def)
    show ?thesis
    proof (cases "out_room st1 (length cs)")
      case True
      with g ok n2 obtain st2 where "g (st1, m) = Some (True, st2, m)" "emitted log st1 cs st2" "stream_ok st2"
        unfolding delivers_def by metis
      then show ?thesis using True room_after [OF e, of cs] r emitted_trans [OF e] by (auto simp: seq_def)
    next
      case False
      with g ok n2 obtain st2 ds where "g (st1, m) = Some (False, st2, m)" "prefix ds cs" "wrote log st1 ds st2"
        "bytes_written st2 \<le> max_size st1"
        unfolding delivers_def by metis
      moreover have "max_size st1 = max_size st" using e by (simp add: emitted_def)
      ultimately show ?thesis
        using False room_after [OF e, of cs] r emitted_wrote [OF e] by (auto simp: seq_def intro!: exI [of _ "bs @ ds"])
    qed
  qed
qed

lemma keeps_memory_seq:
  assumes "keeps_memory m f" and "keeps_memory m g"
  shows "keeps_memory m (seq f g)"
  using assms by (fastforce simp: keeps_memory_def seq_def split: option.splits bool.splits)

lemma settled_seq:
  assumes f: "settled log m f" and g: "settled log m g"
  shows "settled log m (seq f g)"
proof -
  have k: "keeps_memory m (seq f g)" using f g by (simp add: settled_def keeps_memory_seq)
  consider "fails_on m f" | "fails_on m g" | bs cs where "delivers log m f bs" "delivers log m g cs"
    using f g by (auto simp: settled_def)
  then show ?thesis
  proof cases
    case 1
    then have "fails_on m (seq f g)" by (fastforce simp: fails_on_def seq_def split: option.splits bool.splits)
    then show ?thesis using k by (rule settled_fails [rotated])
  next
    case 2
    moreover have "keeps_memory m f" using f by (simp add: settled_def)
    ultimately have "fails_on m (seq f g)"
      by (fastforce simp: fails_on_def keeps_memory_def seq_def split: option.splits bool.splits)
    then show ?thesis using k by (rule settled_fails [rotated])
  next
    case 3
    then show ?thesis using settled_delivers [OF k] delivers_seq by blast
  qed
qed
section \<open>The wire primitives\<close>

lemma keeps_keep_mem [simp]: "keeps_memory m (keep_mem f)"
  by (auto simp: keeps_memory_def keep_mem_def split: prod.splits)

lemma stream_ok_emitted:
  assumes "stream_ok st" and "emitted log st bs st'" and "out_ok st'" and "out_room st (length bs)"
  shows "stream_ok st'"
  using assms same_sink_Sizing [of "sink st" "sink st'"]
  by (auto simp: stream_ok_def emitted_def out_room_def split: if_splits)

lemma delivers_write:
  assumes "byte_sink io log"
  shows "delivers log m (keep_mem (pb_write io (Some bs) (length bs))) bs"
  unfolding delivers_def
proof (intro allI impI)
  fix st :: "'a pb_ostream"
  assume st: "stream_ok st" and n: "bytes_written st + length bs < 2 ^ 64"
  let ?W = "keep_mem (pb_write io (Some bs) (length bs))"
  show "if out_room st (length bs)
     then \<exists>st'. ?W (st, m) = Some (True, st', m) \<and> emitted log st bs st' \<and> stream_ok st'
     else \<exists>st' ds. ?W (st, m) = Some (False, st', m) \<and> prefix ds bs \<and> wrote log st ds st' \<and>
                   bytes_written st' \<le> max_size st"
  proof (cases "out_room st (length bs)")
    case True
    have "out_ok st" using st by (simp add: stream_ok_def)
    then obtain st' where "pb_write io (Some bs) (length bs) st = (True, st')" and e: "emitted log st bs st'" and "out_ok st'"
      using byte_sink.pb_write_emits [OF assms, of bs] True unfolding emits_def by blast
    then show ?thesis using True stream_ok_emitted [OF st e] by (simp add: keep_mem_def)
  next
    case False
    then have full: "sink st \<noteq> Sizing" "max_size st < bytes_written st + length bs" "bytes_written st \<le> max_size st"
      using n st by (auto simp: out_room_def stream_ok_def split: if_splits)
    then have "(bytes_written st + length bs) mod 2 ^ 64 = bytes_written st + length bs" "bs \<noteq> []"
      using n by (simp, auto)
    then have "pb_write io (Some bs) (length bs) st = (False, out_error ''stream full'' st)"
      using full by (simp add: pb_write_def)
    moreover have "bytes_written (out_error ''stream full'' st) \<le> max_size st" using full by (simp add: out_error_def)
    ultimately have "?W (st, m) = Some (False, out_error ''stream full'' st, m) \<and> prefix [] bs \<and>
        wrote log st [] (out_error ''stream full'' st) \<and> bytes_written (out_error ''stream full'' st) \<le> max_size st"
      by (simp add: keep_mem_def)
    then show ?thesis using False by (auto intro: exI [of _ "[]"])
  qed
qed

lemma delivers_varint: "byte_sink io log \<Longrightarrow> delivers log m (keep_mem (pb_encode_varint io v)) (leb_enc (unat v))"
  unfolding pb_encode_varint_eq by (rule delivers_write)

lemma delivers_svarint:
  "byte_sink io log \<Longrightarrow> delivers log m (keep_mem (pb_encode_svarint io v)) (leb_enc (unat (zigzag_enc v)))"
proof -
  have "pb_encode_svarint io v = pb_encode_varint io (zigzag_enc v)"
    by (simp add: fun_eq_iff pb_encode_svarint_def zigzag_enc_def)
  then show "byte_sink io log \<Longrightarrow> ?thesis" using delivers_varint by metis
qed

lemma delivers_fixed:
  assumes "byte_sink io log"
  shows "delivers log m (keep_mem (pb_encode_fixed32 io v)) (le_bytes 4 (unat v))"
    and "delivers log m (keep_mem (pb_encode_fixed64 io w)) (le_bytes 8 (unat w))"
proof -
  have "pb_encode_fixed32 io v = pb_write io (Some (le_bytes 4 (unat v))) (length (le_bytes 4 (unat v)))"
    by (rule ext) (simp add: pb_encode_fixed32_def fixed32_bytes)
  then show "delivers log m (keep_mem (pb_encode_fixed32 io v)) (le_bytes 4 (unat v))"
    using delivers_write [OF assms] by metis
  have "pb_encode_fixed64 io w = pb_write io (Some (le_bytes 8 (unat w))) (length (le_bytes 8 (unat w)))"
    by (rule ext) (simp add: pb_encode_fixed64_def fixed64_bytes)
  then show "delivers log m (keep_mem (pb_encode_fixed64 io w)) (le_bytes 8 (unat w))"
    using delivers_write [OF assms] by metis
qed

lemma delivers_tag: "byte_sink io log \<Longrightarrow> wt < 8 \<Longrightarrow> delivers log m (keep_mem (pb_encode_tag io wt fn)) (tag_enc wt fn)"
  using delivers_varint [of io log m "push_bit 3 (ucast fn) OR of_nat wt"]
  by (simp add: pb_encode_tag_def [abs_def] unat_tag tag_enc_def)

text \<open>Byte strings that cannot be counted are delivered in the sense of \<open>delivers\<close> by everything.\<close>

lemma delivers_huge: "2 ^ 64 \<le> length bs \<Longrightarrow> delivers log m W bs"
  by (auto simp: delivers_def)

lemma keep_mem_seq:
  "keep_mem (\<lambda>st. case f st of (False, st) \<Rightarrow> (False, st) | (True, st) \<Rightarrow> g st) = seq (keep_mem f) (keep_mem g)"
  by (auto simp: fun_eq_iff keep_mem_def seq_def split: prod.splits bool.splits)

lemma delivers_string:
  assumes "byte_sink io log"
  shows "delivers log m (keep_mem (pb_encode_string io (Some bs) (length bs))) (leb_enc (length bs) @ bs)"
proof (cases "length bs < 2 ^ 64")
  case True
  then have "unat (of_nat (length bs) :: u64) = length bs" by (simp add: unat_of_nat)
  then show ?thesis
    using delivers_seq [OF delivers_varint [OF assms, of m "of_nat (length bs)"] delivers_write [OF assms, of m bs]]
    by (simp add: pb_encode_string_def [abs_def] keep_mem_seq)
qed (simp add: delivers_huge)

lemma settled_encoder:
  assumes "byte_sink io log" and "PB_ENCODERS sub io lt = Some func" and "lt \<noteq> PB_LTYPE_SUBMESSAGE"
  shows "settled log m (keep_mem (func m field src))"
proof -
  have str: "settled log m (keep_mem (pb_encode_string io (Some bs) (length bs)))" for bs
    using settled_delivers [OF keeps_keep_mem delivers_string [OF assms(1)]] .
  have int: "settled log m (keep_mem (\<lambda>st. case x of None \<Rightarrow> (False, out_error msg st) | Some v \<Rightarrow> f v st))"
    if "\<And>v. settled log m (keep_mem (f v))" for x msg and f :: "u64 \<Rightarrow> 'a writer"
    using that by (cases x) (auto intro: settled_fails simp: fails_on_def keep_mem_def)
  note leaves = settled_delivers [OF keeps_keep_mem delivers_varint [OF assms(1)]]
    settled_delivers [OF keeps_keep_mem delivers_svarint [OF assms(1)]]
    settled_delivers [OF keeps_keep_mem delivers_fixed(1) [OF assms(1)]]
    settled_delivers [OF keeps_keep_mem delivers_fixed(2) [OF assms(1)]]
  have bytes: "settled log m (keep_mem (pb_enc_bytes io m field src))"
  proof -
    have "pb_encode_string io None 0 = pb_encode_string io (Some []) (length [])"
      by (simp add: fun_eq_iff pb_encode_string_def pb_write_def split: prod.splits bool.splits)
    then have n: "settled log m (keep_mem (pb_encode_string io None 0))" using str by metis
    have e: "settled log m (keep_mem (\<lambda>st. (False, out_error msg st)))" for msg
      by (rule settled_fails) (simp_all add: fails_on_def keep_mem_def)
    show ?thesis
      unfolding pb_enc_bytes_def [abs_def] Let_def
      using n e str [of "load_bytes (src + 4) (le_val (load_bytes src 4 m)) m"]
      by (cases "src = 0"; cases "PB_ATYPE (field_type field) = PB_ATYPE_STATIC";
          cases "le_val (load_bytes src 4 m) + 4 > data_size field")
         simp_all
  qed
  have "lt < 11" using assms(2) by (auto simp: PB_ENCODERS_def split: if_splits)
  then have "func \<in> {pb_enc_bool io, pb_enc_varint io, pb_enc_uvarint io, pb_enc_svarint io, pb_enc_fixed32 io,
                     pb_enc_fixed64 io, pb_enc_bytes io, pb_enc_string io, pb_enc_fixed_length_bytes io}"
    using assms(2,3) by (cases lt rule: ltype_cases) (simp_all add: PB_ENCODERS_def)
  moreover have "settled log m (keep_mem (pb_enc_bool io m field src))"
    unfolding pb_enc_bool_def [abs_def] by (rule leaves)
  moreover have "settled log m (keep_mem (pb_enc_varint io m field src))"
    unfolding pb_enc_varint_def [abs_def] by (intro int leaves)
  moreover have "settled log m (keep_mem (pb_enc_uvarint io m field src))"
    unfolding pb_enc_uvarint_def [abs_def] by (intro int leaves)
  moreover have "settled log m (keep_mem (pb_enc_svarint io m field src))"
    unfolding pb_enc_svarint_def [abs_def] by (intro int leaves)
  moreover have "settled log m (keep_mem (pb_enc_fixed32 io m field src))"
    unfolding pb_enc_fixed32_def [abs_def] by (rule leaves)
  moreover have "settled log m (keep_mem (pb_enc_fixed64 io m field src))"
    unfolding pb_enc_fixed64_def [abs_def] by (rule leaves)
  moreover have "settled log m (keep_mem (pb_enc_string io m field src))"
    unfolding pb_enc_string_def [abs_def] Let_def using str by (metis length_load_bytes)
  moreover have "settled log m (keep_mem (pb_enc_fixed_length_bytes io m field src))"
    unfolding pb_enc_fixed_length_bytes_def [abs_def] using str by (metis length_load_bytes)
  ultimately show ?thesis using bytes by blast
qed
section \<open>Submessages\<close>

lemma settled_cong:
  assumes "\<And>st. W (st, m) = W' (st, m)" and "settled log m W'"
  shows "settled log m W"
proof -
  have "settled log m W = settled log m W'"
    unfolding settled_def keeps_memory_def fails_on_def delivers_def by (simp only: assms(1))
  then show ?thesis using assms(2) by simp
qed

lemma delivers_cong: "(\<And>st. W (st, m) = W' (st, m)) \<Longrightarrow> delivers log m W' bs \<Longrightarrow> delivers log m W bs"
  unfolding delivers_def by (simp only:)

lemma delivers_nothing: "delivers log m (\<lambda>s. Some (True, s)) []"
proof -
  have "out_room st 0" if "stream_ok st" "bytes_written st < 2 ^ 64" for st :: "'a pb_ostream"
    using that by (auto simp: stream_ok_def out_room_def)
  then show ?thesis by (auto simp: delivers_def)
qed

lemma settled_simple:
  "settled log m (\<lambda>s. Some (True, s))" "settled log m (fail_with msg)" "settled log m (\<lambda>s. None)"
proof -
  show "settled log m (\<lambda>s. Some (True, s))"
    using delivers_nothing by (rule settled_delivers [rotated]) (simp add: keeps_memory_def)
  show "settled log m (fail_with msg)" "settled log m (\<lambda>s. None)"
    by (auto intro!: settled_fails simp: keeps_memory_def fails_on_def fail_with_def)
qed

text \<open>Only the sizing stream takes the NULL buffer.\<close>

lemma delivers_sized:
  assumes body: "\<And>st. stream_ok st \<Longrightarrow> sink st \<noteq> Sizing \<Longrightarrow> bytes_written st + length bs < 2 ^ 64 \<Longrightarrow>
      (if out_room st (length bs)
       then \<exists>st'. body (st, m) = Some (True, st', m) \<and> emitted log st bs st' \<and> stream_ok st'
       else \<exists>st' ds. body (st, m) = Some (False, st', m) \<and> prefix ds bs \<and> wrote log st ds st' \<and>
                     bytes_written st' \<le> max_size st)"
  shows "delivers log m (\<lambda>(st, m). if sink st = Sizing then keep_mem (pb_write io None (length bs)) (st, m) else body (st, m)) bs"
  unfolding delivers_def
proof (intro allI impI)
  fix st :: "'a pb_ostream"
  assume st: "stream_ok st" and n: "bytes_written st + length bs < 2 ^ 64"
  let ?W = "\<lambda>(st, m). if sink st = Sizing then keep_mem (pb_write io None (length bs)) (st, m) else body (st, m)"
  show "if out_room st (length bs)
     then \<exists>st'. ?W (st, m) = Some (True, st', m) \<and> emitted log st bs st' \<and> stream_ok st'
     else \<exists>st' ds. ?W (st, m) = Some (False, st', m) \<and> prefix ds bs \<and> wrote log st ds st' \<and>
                   bytes_written st' \<le> max_size st"
  proof (cases "sink st = Sizing")
    case True
    then have "pb_write io None (length bs) st = (True, st\<lparr>bytes_written := bytes_written st + length bs\<rparr>)"
      using n by (simp add: pb_write_def)
    moreover have "out_room st (length bs)" using True n by (simp add: out_room_def)
    moreover have "emitted log st bs (st\<lparr>bytes_written := bytes_written st + length bs\<rparr>)"
      using True by (simp add: emitted_def)
    moreover have "stream_ok (st\<lparr>bytes_written := bytes_written st + length bs\<rparr>)"
      using True st by (simp add: stream_ok_def out_ok_def)
    ultimately show ?thesis using True by (simp add: keep_mem_def)
  next
    case False
    then have e: "?W (st, m) = body (st, m)" by simp
    show ?thesis unfolding e using body [OF st False n] .
  qed
qed

lemma delivers_sized':
  assumes "delivers log m body bs"
  shows "delivers log m (\<lambda>(st, m). if sink st = Sizing then keep_mem (pb_write io None (length bs)) (st, m) else body (st, m)) bs"
  by (rule delivers_sized) (rule delivers_def [THEN iffD1, rule_format, OF assms])

lemma delivers_sizing:
  assumes "delivers log m W bs" and "length bs < 2 ^ 64"
  obtains st where "W (PB_OSTREAM_SIZING, m) = Some (True, st, m)" and "bytes_written st = length bs"
    and "out_errmsg st = None"
proof -
  have "stream_ok PB_OSTREAM_SIZING" "out_room PB_OSTREAM_SIZING (length bs)"
    using assms(2) by (simp_all add: stream_ok_def out_ok_def out_room_def)
  moreover have "bytes_written PB_OSTREAM_SIZING + length bs < 2 ^ 64" using assms(2) by simp
  ultimately obtain st where "W (PB_OSTREAM_SIZING, m) = Some (True, st, m)" "emitted log PB_OSTREAM_SIZING bs st"
    using assms(1) unfolding delivers_def by metis
  then show thesis using that by (simp add: emitted_def)
qed

lemma second_pass_delivers:
  assumes enc: "delivers log m enc bs" and st: "stream_ok st" "sink st \<noteq> Sizing" and n: "bytes_written st + length bs < 2 ^ 64"
  shows "if out_room st (length bs)
     then \<exists>st'. second_pass enc (length bs) (st, m) = Some (True, st', m) \<and> emitted log st bs st' \<and> stream_ok st'
     else \<exists>st' ds. second_pass enc (length bs) (st, m) = Some (False, st', m) \<and> prefix ds bs \<and> wrote log st ds st' \<and>
                   bytes_written st' \<le> max_size st"
proof (cases "out_room st (length bs)")
  case False
  then have "second_pass enc (length bs) (st, m) = Some (False, out_error ''stream full'' st, m)"
    using n st(2) by (simp add: second_pass_def out_room_def fail_with_def)
  moreover have "bytes_written (out_error ''stream full'' st) \<le> max_size st"
    using st by (simp add: stream_ok_def out_error_def)
  ultimately show ?thesis using False by (auto intro: exI [of _ "[]"])
next
  case True
  let ?sub = "\<lparr>sink = sink st, max_size = length bs, bytes_written = 0, out_errmsg = None\<rparr>"
  have room: "bytes_written st + length bs \<le> max_size st" using True st(2) by (simp add: out_room_def)
  have ok: "out_ok st" using st(1) by (simp add: stream_ok_def)
  then have "pos + length bs \<le> length dest" if "sink st = Buf_write dest pos" for dest pos
  proof -
    have "pos + (max_size st - bytes_written st) \<le> length dest"
      using ok that unfolding out_ok_def by (simp del: add_diff_assoc)
    then show ?thesis using room by linarith
  qed
  then have "out_ok ?sub" using n by (auto simp: out_ok_def split: sink.splits)
  then have "stream_ok ?sub" "out_room ?sub (length bs)" using st(2) by (simp_all add: stream_ok_def out_room_def)
  moreover have "bytes_written ?sub + length bs < 2 ^ 64" using n by simp
  ultimately obtain sub where r: "enc (?sub, m) = Some (True, sub, m)" and e: "emitted log ?sub bs sub" and o: "stream_ok sub"
    using enc unfolding delivers_def by (metis (no_types, lifting))
  let ?st = "st\<lparr>bytes_written := bytes_written st + length bs, sink := sink sub, out_errmsg := out_errmsg sub\<rparr>"
  have "bytes_written sub = length bs" using e by (simp add: emitted_def)
  then have "second_pass enc (length bs) (st, m) = Some (True, ?st, m)"
    using r n room by (simp add: second_pass_def)
  moreover have em: "emitted log st bs ?st" using e st by (simp add: emitted_def stream_ok_def)
  moreover have "out_ok ?st"
  proof (cases "sink st")
    case (Buf_write d p)
    then obtain d' p' where s': "sink sub = Buf_write d' p'" using e by (cases "sink sub") (auto simp: emitted_def)
    then have t: "take p' d' = take p d @ bs" "length d' = length d" using e Buf_write by (simp_all add: emitted_def)
    have p: "p + (max_size st - bytes_written st) \<le> length d" using ok Buf_write unfolding out_ok_def by (simp del: add_diff_assoc)
    have "p' \<le> length d'" using o e s' by (simp add: stream_ok_def out_ok_def emitted_def)
    then have "p' = p + length bs" using arg_cong [OF t(1), of length] p by simp
    then have "p' + (max_size st - (bytes_written st + length bs)) \<le> length d'" using p room t(2) by linarith
    then show ?thesis using s' ok by (simp add: out_ok_def)
  next
    case (User_sink s)
    then show ?thesis using e ok by (cases "sink sub") (auto simp: out_ok_def emitted_def)
  qed (use st(2) in simp)
  then have "stream_ok ?st" using stream_ok_emitted [OF st(1) em _ True] by blast
  ultimately show ?thesis using True by metis
qed

lemma keeps_pass:
  assumes "keeps_memory m enc"
  shows "keeps_memory m (second_pass enc sz)"
  using assms by (auto simp: keeps_memory_def second_pass_def fail_with_def Let_def split: option.splits if_splits)

lemma keeps_sized:
  assumes "keeps_memory m body"
  shows "keeps_memory m (\<lambda>(st, m). if sink st = Sizing then keep_mem (pb_write io None sz) (st, m) else body (st, m))"
  using assms keeps_keep_mem [of m "pb_write io None sz"] by (auto simp: keeps_memory_def)

lemma settled_submessage:
  assumes io: "byte_sink io log" and enc: "settled log m (enc fs src)"
  shows "settled log m (pb_encode_submessage io enc fs src)"
proof -
  have k: "keeps_memory m (enc fs src)" using enc by (simp add: settled_def)
  have keeps: "keeps_memory m (pb_encode_submessage io enc fs src)"
    unfolding keeps_memory_def
  proof (intro allI impI)
    fix st ok st' m' assume r: "pb_encode_submessage io enc fs src (st, m) = Some (ok, st', m')"
    show "m' = m"
    proof (cases "enc fs src (PB_OSTREAM_SIZING, m)")
      case (Some a)
      obtain b sub m1 where a: "a = (b, sub, m1)" by (cases a)
      then have "m1 = m" using k Some unfolding keeps_memory_def by blast
      moreover have "keeps_memory m (seq (keep_mem (pb_encode_varint io v))
          (\<lambda>(st, m). if sink st = Sizing then keep_mem (pb_write io None sz) (st, m) else second_pass (enc fs src) sz (st, m)))" for v sz
        by (intro keeps_memory_seq keeps_keep_mem keeps_sized keeps_pass k)
      ultimately show ?thesis
        using r Some a unfolding keeps_memory_def by (cases b) (auto simp: pb_encode_submessage_def)
    qed (use r in \<open>simp add: pb_encode_submessage_def\<close>)
  qed
  show ?thesis
  proof (cases "fails_on m (enc fs src)")
    case True
    then have "fails_on m (pb_encode_submessage io enc fs src)"
      by (auto simp: fails_on_def pb_encode_submessage_def split: option.splits bool.splits)
    then show ?thesis by (rule settled_fails [OF keeps])
  next
    case False
    then obtain bs where d: "delivers log m (enc fs src) bs" using enc by (auto simp: settled_def)
    show ?thesis
    proof (cases "length bs < 2 ^ 64")
      case True
      then obtain sub where s: "enc fs src (PB_OSTREAM_SIZING, m) = Some (True, sub, m)" "bytes_written sub = length bs"
        using delivers_sizing [OF d] by blast
      have "delivers log m (pb_encode_submessage io enc fs src) (leb_enc (unat (of_nat (length bs) :: u64)) @ bs)"
      proof (rule delivers_cong)
        show "delivers log m (seq (keep_mem (pb_encode_varint io (of_nat (length bs))))
            (\<lambda>(st, m). if sink st = Sizing then keep_mem (pb_write io None (length bs)) (st, m)
                       else second_pass (enc fs src) (length bs) (st, m)))
            (leb_enc (unat (of_nat (length bs) :: u64)) @ bs)"
          by (intro delivers_seq delivers_varint io delivers_sized second_pass_delivers [OF d])
      qed (unfold pb_encode_submessage_def, simp add: s(1), simp only: s(2))
      then show ?thesis by (rule settled_delivers [OF keeps])
    next
      case False
      then have "delivers log m (pb_encode_submessage io enc fs src) bs" by (intro delivers_huge) simp
      then show ?thesis by (rule settled_delivers [OF keeps])
    qed
  qed
qed
section \<open>Fields\<close>

text \<open>An encoder for submessages whose runs are settled on memory \<open>m\<close>.\<close>

definition settled_messages :: "('s \<Rightarrow> bytes) \<Rightarrow> memory \<Rightarrow> 's msg_encoder \<Rightarrow> bool" where
  "settled_messages log m enc \<longleftrightarrow> (\<forall>fs src. settled log m (enc fs src))"

lemma settled_tag:
  assumes "byte_sink io log"
  shows "settled log m (keep_mem (pb_encode_tag_for_field io field))"
proof -
  have t: "settled log m (keep_mem (pb_encode_tag io wt fn))" if "wt < 8" for wt fn
    using settled_delivers [OF keeps_keep_mem delivers_tag [OF assms that]] .
  have "settled log m (keep_mem (\<lambda>st. (False, out_error ''invalid field type'' st)))"
    by (rule settled_fails) (simp_all add: fails_on_def keep_mem_def)
  then show ?thesis
    unfolding pb_encode_tag_for_field_def [abs_def] Let_def
    by (cases "PB_LTYPE (field_type field) \<le> 3"; cases "PB_LTYPE (field_type field) = 4";
        cases "PB_LTYPE (field_type field) = 5";
        cases "PB_LTYPE (field_type field) \<in> {PB_LTYPE_BYTES, PB_LTYPE_STRING, PB_LTYPE_SUBMESSAGE, 0x0A}")
       (simp_all add: t)
qed

lemma settled_call:
  assumes io: "byte_sink (out_io env) log" and enc: "settled_messages log m enc"
  shows "settled log m (call_encoder env enc field src)"
proof (cases "PB_LTYPE (field_type field) = PB_LTYPE_SUBMESSAGE")
  case True
  have "settled log m (pb_enc_submessage env enc field src)"
    unfolding pb_enc_submessage_def
    using settled_submessage [OF io] enc by (simp add: settled_messages_def settled_simple)
  then show ?thesis by (rule settled_cong [rotated]) (simp add: call_encoder_def True)
next
  case False
  show ?thesis
  proof (cases "PB_ENCODERS (\<lambda>_ _ _ st. (False, st)) (out_io env) (PB_LTYPE (field_type field))")
    case None
    then show ?thesis using False by (intro settled_cong [OF _ settled_simple(3)]) (simp add: call_encoder_def)
  next
    case (Some func)
    then show ?thesis
      using False by (intro settled_cong [OF _ settled_encoder [OF io Some False]]) (simp add: call_encoder_def)
  qed
qed

lemma settled_entries:
  assumes "\<And>p. settled log m (body p)"
  shows "settled log m (each_entry step count body p)"
proof (induction count arbitrary: p)
  case 0
  show ?case by (rule settled_cong [OF _ settled_simple(1)]) simp
next
  case (Suc count)
  show ?case by (rule settled_cong [OF _ settled_seq [OF assms Suc.IH]]) simp
qed

lemma delivers_entries:
  assumes "\<And>p. \<exists>bs. length bs = w \<and> delivers log m (body p) bs"
  shows "\<exists>bs. length bs = w * count \<and> delivers log m (each_entry step count body p) bs"
proof (induction count arbitrary: p)
  case 0
  have "delivers log m (each_entry step 0 body p) []" by (rule delivers_cong [OF _ delivers_nothing]) simp
  then show ?case by (auto simp del: each_entry.simps intro!: exI [of _ "[]"])
next
  case (Suc count)
  obtain bs where bs: "length bs = w" "delivers log m (body p) bs" using assms by blast
  obtain cs where cs: "length cs = w * count" "delivers log m (each_entry step count body (p + step)) cs"
    using Suc.IH by blast
  have "delivers log m (each_entry step (Suc count) body p) (bs @ cs)"
    by (rule delivers_cong [OF _ delivers_seq [OF bs(2) cs(2)]]) simp
  then show ?case using bs(1) cs(1) by (intro exI [of _ "bs @ cs"]) (simp del: each_entry.simps)
qed

text \<open>The size that is announced for packed data is that of the data.\<close>

lemma packed_size_spec:
  assumes io: "byte_sink (out_io env) log" and enc: "settled_messages log m enc"
    and func: "func = call_encoder env enc field" and r: "packed_size field pdata count func m = Some (sz, m')"
  shows "m' = m \<and> (case sz of None \<Rightarrow> True
    | Some n \<Rightarrow> \<exists>bs. delivers log m (each_entry (data_size field) count func pdata) bs \<and> (length bs < 2 ^ 64 \<longrightarrow> length bs = n))"
proof -
  let ?E = "each_entry (data_size field) count func pdata"
  have E: "settled log m ?E" unfolding func by (intro settled_entries settled_call io enc)
  have fixed: "\<exists>bs. length bs = w * count \<and> delivers log m ?E bs"
    if w: "w = 4 \<and> PB_LTYPE (field_type field) = 4 \<or> w = 8 \<and> PB_LTYPE (field_type field) = 5" for w
  proof (rule delivers_entries)
    fix p
    show "\<exists>bs. length bs = w \<and> delivers log m (func p) bs"
      using w
    proof
      assume a: "w = 4 \<and> PB_LTYPE (field_type field) = 4"
      let ?v = "of_nat (le_val (load_bytes p 4 m)) :: u32"
      have "delivers log m (func p) (le_bytes 4 (unat ?v))"
        by (rule delivers_cong [OF _ delivers_fixed(1) [OF io, of m ?v]])
           (use a in \<open>simp add: func call_encoder_def PB_ENCODERS_def pb_enc_fixed32_def [abs_def]\<close>)
      then show ?thesis using a by (intro exI [of _ "le_bytes 4 (unat ?v)"]) simp
    next
      assume a: "w = 8 \<and> PB_LTYPE (field_type field) = 5"
      let ?v = "of_nat (le_val (load_bytes p 8 m)) :: u64"
      have "delivers log m (func p) (le_bytes 8 (unat ?v))"
        by (rule delivers_cong [OF _ delivers_fixed(2) [OF io, of m ?v]])
           (use a in \<open>simp add: func call_encoder_def PB_ENCODERS_def pb_enc_fixed64_def [abs_def]\<close>)
      then show ?thesis using a by (intro exI [of _ "le_bytes 8 (unat ?v)"]) simp
    qed
  qed
  show ?thesis
  proof (cases "PB_LTYPE (field_type field) = 4 \<or> PB_LTYPE (field_type field) = 5")
    case True
    then consider "PB_LTYPE (field_type field) = 4" | "PB_LTYPE (field_type field) = 5" by blast
    then show ?thesis
    proof cases
      case 1
      then show ?thesis using r fixed [of 4] by (auto simp: packed_size_def)
    next
      case 2
      then show ?thesis using r fixed [of 8] by (auto simp: packed_size_def)
    qed
  next
    case False
    then obtain ok st where e: "?E (PB_OSTREAM_SIZING, m) = Some (ok, st, m')" "sz = (if ok then Some (bytes_written st) else None)"
      using r by (auto simp: packed_size_def split: option.splits bool.splits)
    then have m: "m' = m" using E unfolding settled_def keeps_memory_def by blast
    show ?thesis
    proof (cases ok)
      case True
      then obtain bs where d: "delivers log m ?E bs" using E e(1) by (auto simp: settled_def fails_on_def)
      then have "length bs = bytes_written st" if "length bs < 2 ^ 64"
        using delivers_sizing [OF d that] e(1) by fastforce
      then show ?thesis using d m e(2) True by auto
    qed (use m e in simp)
  qed
qed

lemma settled_packed:
  assumes io: "byte_sink (out_io env) log" and enc: "settled_messages log m enc" and func: "func = call_encoder env enc field"
  shows "settled log m
    (\<lambda>(st, m). case packed_size field pdata count func m of
       None \<Rightarrow> None
     | Some (None, m) \<Rightarrow> Some (False, st, m)
     | Some (Some sz, m) \<Rightarrow>
         seq (keep_mem (pb_encode_varint (out_io env) (of_nat sz)))
           (\<lambda>(st, m). if sink st = Sizing then keep_mem (pb_write (out_io env) None sz) (st, m)
                      else each_entry (data_size field) count func pdata (st, m)) (st, m))"
    (is "settled log m ?W")
proof -
  let ?E = "each_entry (data_size field) count func pdata"
  have kE: "keeps_memory m ?E" using settled_entries [OF settled_call [OF io enc]] by (simp add: func settled_def)
  show ?thesis
  proof (cases "packed_size field pdata count func m")
    case None
    then show ?thesis by (intro settled_cong [OF _ settled_simple(3)]) simp
  next
    case (Some r)
    obtain sz m' where r: "r = (sz, m')" by (cases r)
    note spec = packed_size_spec [OF io enc func Some [unfolded r]]
    show ?thesis
    proof (cases sz)
      case None
      have "settled log m (\<lambda>(st, m). Some (False, st, m))"
        by (rule settled_fails) (auto simp: keeps_memory_def fails_on_def)
      moreover have p: "packed_size field pdata count func m = Some (None, m)" using spec Some r None by simp
      ultimately show ?thesis
        by (intro settled_cong [of ?W m "\<lambda>(st, m). Some (False, st, m)"]) (simp only: p case_prod_conv option.case prod.case)
    next
      case (Some n)
      let ?S = "seq (keep_mem (pb_encode_varint (out_io env) (of_nat n)))
          (\<lambda>(st, m). if sink st = Sizing then keep_mem (pb_write (out_io env) None n) (st, m) else ?E (st, m))"
      obtain bs where d: "delivers log m ?E bs" "length bs < 2 ^ 64 \<longrightarrow> length bs = n" using spec Some by auto
      have k: "keeps_memory m ?S" by (intro keeps_memory_seq keeps_keep_mem keeps_sized kE)
      have "settled log m ?S"
      proof (cases "length bs < 2 ^ 64")
        case True
        then have n: "n = length bs" using d(2) by simp
        have "delivers log m (seq (keep_mem (pb_encode_varint (out_io env) (of_nat n)))
            (\<lambda>(st, m). if sink st = Sizing then keep_mem (pb_write (out_io env) None (length bs)) (st, m) else ?E (st, m)))
            (leb_enc (unat (of_nat n :: u64)) @ bs)"
          by (intro delivers_seq delivers_varint io delivers_sized' d(1))
        then have "delivers log m ?S (leb_enc (unat (of_nat n :: u64)) @ bs)" by (simp only: n)
        then show ?thesis by (rule settled_delivers [OF k])
      next
        case False
        then have "delivers log m ?S bs" by (intro delivers_huge) simp
        then show ?thesis by (rule settled_delivers [OF k])
      qed
      moreover have p: "packed_size field pdata count func m = Some (Some n, m)"
        using spec \<open>packed_size field pdata count func m = Some r\<close> r Some by simp
      ultimately show ?thesis by (intro settled_cong [of ?W m ?S]) (simp only: p case_prod_conv option.case prod.case)
    qed
  qed
qed

lemma settled_array:
  assumes io: "byte_sink (out_io env) log" and enc: "settled_messages log m enc" and func: "func = call_encoder env enc field"
  shows "settled log m (encode_array env field pdata count func)"
proof -
  have f: "settled log m (func p)" for p unfolding func by (rule settled_call [OF io enc])
  have tag: "settled log m (keep_mem (pb_encode_tag (out_io env) PB_WT_STRING (field_tag field)))"
    by (rule settled_delivers [OF keeps_keep_mem delivers_tag [OF io]]) simp
  note packed_run = settled_seq [OF tag settled_packed [OF io enc func, where pdata = pdata and count = count]]
  have entry: "settled log m (seq (keep_mem (pb_encode_tag_for_field (out_io env) field))
      (\<lambda>(st, m). if b then func (load_ptr p m) (st, m) else func p (st, m)))" for b p
    by (intro settled_seq settled_tag io, cases b) (rule settled_cong, simp, rule f)+
  note entries = settled_entries [where step = "data_size field" and count = count and p = pdata, OF entry]
  consider (none) "count = 0" | (many) "count \<noteq> 0" "PB_ATYPE (field_type field) \<noteq> PB_ATYPE_POINTER \<and> count > array_size field"
    | (packed) "count \<noteq> 0" "\<not> (PB_ATYPE (field_type field) \<noteq> PB_ATYPE_POINTER \<and> count > array_size field)"
        "PB_LTYPE (field_type field) \<le> PB_LTYPE_LAST_PACKABLE"
    | (plain) "count \<noteq> 0" "\<not> (PB_ATYPE (field_type field) \<noteq> PB_ATYPE_POINTER \<and> count > array_size field)"
        "\<not> PB_LTYPE (field_type field) \<le> PB_LTYPE_LAST_PACKABLE"
    by blast
  then show ?thesis
  proof cases
    case none
    show ?thesis by (rule settled_cong [OF _ settled_simple(1)]) (simp only: encode_array_def Let_def none simp_thms if_True)
  next
    case many
    show ?thesis
      by (rule settled_cong [OF _ settled_simple(2)])
         (simp only: encode_array_def Let_def many(1), subst if_P [OF many(2)], simp only: simp_thms if_False if_True)
  next
    case packed
    show ?thesis
      by (rule settled_cong [OF _ packed_run])
         (simp only: encode_array_def Let_def packed(1), subst if_not_P [OF packed(2)], simp only: packed(3) simp_thms if_False if_True)
  next
    case plain
    show ?thesis
      by (rule settled_cong [OF _ entries])
         (simp only: encode_array_def Let_def plain(1), subst if_not_P [OF plain(2)], simp only: plain(3) simp_thms if_False if_True)
  qed
qed

lemma settled_basic:
  assumes io: "byte_sink (out_io env) log" and enc: "settled_messages log m enc"
  shows "settled log m (encode_basic_field env n enc field pdata)"
proof (cases "basic_size env n m field pdata")
  case None
  show ?thesis by (rule settled_cong [OF _ settled_simple(3)]) (simp add: encode_basic_field_def None)
next
  case (Some psize)
  obtain ps pd where b: "basic_data m field psize pdata = (ps, pd)" by (cases "basic_data m field psize pdata")
  have tagged: "settled log m (seq (keep_mem (pb_encode_tag_for_field (out_io env) field)) (call_encoder env enc field pd))"
    by (intro settled_seq settled_tag settled_call io enc)
  have array: "settled log m (encode_array env field pd count (call_encoder env enc field))" for count
    by (rule settled_array [OF io enc refl])
  let ?W = "if PB_HTYPE (field_type field) = PB_HTYPE_REQUIRED then
      (if pd = 0 then fail_with ''missing required field''
       else seq (keep_mem (pb_encode_tag_for_field (out_io env) field)) (call_encoder env enc field pd))
    else if PB_HTYPE (field_type field) = PB_HTYPE_OPTIONAL then
      (if (case ps of Implicit b \<Rightarrow> b | Has_at a \<Rightarrow> safe_read_bool m a)
       then seq (keep_mem (pb_encode_tag_for_field (out_io env) field)) (call_encoder env enc field pd)
       else (\<lambda>s. Some (True, s)))
    else if PB_HTYPE (field_type field) = PB_HTYPE_REPEATED then
      (case ps of Has_at a \<Rightarrow> encode_array env field pd (load_size a m) (call_encoder env enc field)
       | Implicit _ \<Rightarrow> encode_array env field pd (array_size field) (call_encoder env enc field))
    else
      (case ps of Implicit _ \<Rightarrow> (\<lambda>s. None)
       | Has_at a \<Rightarrow>
           (if load_size a m = unat (field_tag field)
            then seq (keep_mem (pb_encode_tag_for_field (out_io env) field)) (call_encoder env enc field pd)
            else (\<lambda>s. Some (True, s))))"
  have W: "settled log m ?W"
    by (cases ps) (simp_all add: settled_simple tagged array)
  show ?thesis
    by (rule settled_cong [OF _ W]) (cases ps; simp add: encode_basic_field_def Some b)
qed

text \<open>Callbacks and extensions that write the same to every stream and leave the memory alone.\<close>

definition settled_env :: "('s \<Rightarrow> bytes) \<Rightarrow> memory \<Rightarrow> 's enc_env \<Rightarrow> bool" where
  "settled_env log m env \<longleftrightarrow>
     byte_sink (out_io env) log \<and>
     (\<forall>f field arg. settled log m (\<lambda>s. Some (encode_fn env f field arg s))) \<and>
     (\<forall>f ext. settled log m (\<lambda>s. Some (ext_encode_fn env f ext s)))"

lemma settled_field:
  assumes env: "settled_env log m env" and enc: "settled_messages log m enc"
  shows "settled log m (encode_field env n enc field pdata)"
proof -
  have io: "byte_sink (out_io env) log" using env by (simp add: settled_env_def)
  have cb: "settled log m (encode_callback_field env field pdata)"
  proof (cases "load_ptr pdata m = 0")
    case True
    show ?thesis by (rule settled_cong [OF _ settled_simple(1)]) (simp add: encode_callback_field_def True)
  next
    case False
    let ?f = "encode_fn env (load_ptr pdata m) field (pdata + 8)"
    have f: "settled log m (\<lambda>s. Some (?f s))" using env by (simp add: settled_env_def)
    have k: "keeps_memory m (encode_callback_field env field pdata)"
      using f False unfolding settled_def keeps_memory_def
      by (auto simp: encode_callback_field_def fail_with_def split: prod.splits bool.splits)
    have same: "encode_callback_field env field pdata (st, m) =
        (case ?f (st, m) of (ok, st', m') \<Rightarrow> Some (ok, if ok then st' else out_error ''callback error'' st', m'))" for st
      using False by (auto simp: encode_callback_field_def fail_with_def split: prod.splits bool.splits)
    consider "fails_on m (\<lambda>s. Some (?f s))" | bs where "delivers log m (\<lambda>s. Some (?f s)) bs"
      using f by (auto simp: settled_def)
    then show ?thesis
    proof cases
      case 1
      then have "fails_on m (encode_callback_field env field pdata)"
        unfolding fails_on_def same by (auto split: prod.splits)
      then show ?thesis by (rule settled_fails [OF k])
    next
      case 2
      have w: "wrote log st ds (out_error msg st') = wrote log st ds st'" "bytes_written (out_error msg st') = bytes_written st'"
        for st st' :: "'a pb_ostream" and ds msg by (simp_all add: wrote_def out_error_def)
      have "delivers log m (encode_callback_field env field pdata) bs"
        unfolding delivers_def
      proof (intro allI impI)
        fix st :: "'a pb_ostream"
        assume "stream_ok st" "bytes_written st + length bs < 2 ^ 64"
        then show "if out_room st (length bs)
          then \<exists>st'. encode_callback_field env field pdata (st, m) = Some (True, st', m) \<and> emitted log st bs st' \<and> stream_ok st'
          else \<exists>st' ds. encode_callback_field env field pdata (st, m) = Some (False, st', m) \<and> prefix ds bs \<and>
                 wrote log st ds st' \<and> bytes_written st' \<le> max_size st"
          using 2 [unfolded delivers_def, rule_format, of st] unfolding same
          by (cases "out_room st (length bs)") (auto simp: w)
      qed
      then show ?thesis by (rule settled_delivers [OF k])
    qed
  qed
  show ?thesis
    unfolding encode_field_def Let_def using settled_basic [OF io enc] cb by (simp add: settled_simple)
qed

lemma settled_extensions:
  assumes env: "settled_env log m env" and enc: "settled_messages log m enc"
  shows "settled log m (encode_extension_loop env n enc k ext)"
proof (induction k arbitrary: ext)
  case 0
  show ?case by (rule settled_cong [OF _ settled_simple(3)]) simp
next
  case (Suc k)
  show ?case
  proof (cases "ext = 0")
    case True
    show ?thesis by (rule settled_cong [OF _ settled_simple(1)]) (simp add: True)
  next
    case False
    let ?e = "ext_encode (enc_ext_types env (load_ptr ext m))"
    have one: "settled log m (\<lambda>s. if ?e \<noteq> 0 then Some (ext_encode_fn env ?e ext s) else default_extension_encoder env n enc ext s)"
    proof (cases "?e = 0")
      case True
      define fld where "fld = ext_arg (enc_ext_types env (load_ptr ext m)) ! 0"
      have "settled log m (encode_field env n enc fld
              (if PB_ATYPE (field_type fld) = PB_ATYPE_POINTER then ext + 8 else load_ptr (ext + 8) m))"
        by (rule settled_field [OF env enc])
      then have "settled log m (default_extension_encoder env n enc ext)"
        by (rule settled_cong [rotated]) (simp add: default_extension_encoder_def fld_def)
      then show ?thesis using True by simp
    qed (use env in \<open>simp add: settled_env_def\<close>)
    have next': "settled log m (\<lambda>s. encode_extension_loop env n enc k (load_ptr (ext + 16) (snd s)) s)"
      by (rule settled_cong [OF _ Suc.IH [of "load_ptr (ext + 16) m"]]) simp
    show ?thesis
      by (rule settled_cong [OF _ settled_seq [OF one next']]) (simp add: False Let_def)
  qed
qed

lemma settled_loop:
  assumes "\<And>iter. settled log m (body iter)"
  shows "settled log m (encode_loop k body iter)"
proof (induction k arbitrary: iter)
  case 0
  show ?case by (rule settled_cong [OF _ settled_simple(1)]) simp
next
  case (Suc k)
  obtain more iter' where i: "pb_field_iter_next iter = (more, iter')" by (cases "pb_field_iter_next iter")
  have "settled log m (if more then encode_loop k body iter' else (\<lambda>s. Some (True, s)))"
    using Suc.IH by (simp add: settled_simple)
  with assms have "settled log m (seq (body iter) (if more then encode_loop k body iter' else (\<lambda>s. Some (True, s))))"
    by (rule settled_seq)
  then show ?case by (rule settled_cong [rotated]) (cases more; simp add: i)
qed

lemma settled_encode:
  assumes env: "settled_env log m env"
  shows "settled_messages log m (pb_encode env n)"
proof (induction n)
  case 0
  have "settled log m (pb_encode env 0 fs src)" for fs src
    by (rule settled_cong [OF _ settled_simple(3)]) simp
  then show ?case by (simp add: settled_messages_def settled_simple)
next
  case (Suc n)
  have field: "settled log m (encode_any_field env n (pb_encode env n) iter)" for iter
  proof (cases "PB_LTYPE (field_type (cur_field iter)) = PB_LTYPE_EXTENSION")
    case True
    have "settled log m (encode_extension_field env n (pb_encode env n) (pData iter))"
      by (rule settled_cong [OF _ settled_extensions [OF env Suc.IH]]) (simp add: encode_extension_field_def)
    then show ?thesis using True by (simp add: encode_any_field_def)
  qed (simp add: encode_any_field_def settled_field [OF env Suc.IH])
  have "settled log m (pb_encode env (Suc n) fs src)" for fs src
  proof -
    obtain some iter where b: "pb_field_iter_begin fs src = (some, iter)" by (cases "pb_field_iter_begin fs src")
    have "settled log m (if some then encode_loop (length fs) (encode_any_field env n (pb_encode env n)) iter
                         else (\<lambda>s. Some (True, s)))"
      using settled_loop [OF field] by (simp add: settled_simple)
    then show ?thesis by (rule settled_cong [rotated]) (cases some; simp add: b)
  qed
  then show ?case by (simp add: settled_messages_def del: pb_encode.simps)
qed

section \<open>A message of Firestore\<close>

lemma firestore_settled: "settled_env (\<lambda>str. str) m firestore_enc_env"
proof -
  have "settled log m (\<lambda>s. Some (False, s))" for log :: "bytes \<Rightarrow> bytes"
    by (rule settled_fails) (auto simp: keeps_memory_def fails_on_def)
  then show ?thesis
    by (simp add: settled_env_def firestore_enc_env_def string_writer.byte_sink_axioms)
qed

text \<open>A timestamp of five seconds, at 64.\<close>

definition five_seconds :: memory where
  "five_seconds = (\<lambda>_. 0)(64 := 5)"

lemma five_seconds_size:
  "pb_get_encoded_size firestore_enc_env 2 google_protobuf_Timestamp_fields 64 five_seconds = Some (Some 2, five_seconds)"
proof -
  have l: "load_bytes 64 8 five_seconds = [5, 0, 0, 0, 0, 0, 0, 0]" "load_bytes 72 4 five_seconds = [0, 0, 0, 0]"
    by (simp_all add: five_seconds_def load_bytes_def upt_rec)
  have v: "load_int True five_seconds (PB_SINGULAR_STATIC 1 0 8 1 Ptr_null) 64 = Some 5"
    by (simp add: load_int_def field_macros load_unsigned_def l le_val_def be_val_def)
  have seconds: "encode_field firestore_enc_env 1 enc (PB_SINGULAR_STATIC 1 0 8 1 Ptr_null) 64 (PB_OSTREAM_SIZING, five_seconds)
     = Some (True, PB_OSTREAM_SIZING\<lparr>bytes_written := 2\<rparr>, five_seconds)" for enc
    using v by (simp add: encode_field_def encode_basic_field_def basic_size_def basic_data_def PB_LTYPE_def PB_HTYPE_def
        PB_ATYPE_def field_macros l seq_def keep_mem_def pb_encode_tag_for_field_def pb_encode_tag_def pb_encode_varint_def
        pb_write_def call_encoder_def PB_ENCODERS_def pb_enc_varint_def firestore_enc_env_def)
  have nanos: "encode_field firestore_enc_env 1 enc (PB_SINGULAR_STATIC 2 0 4 1 Ptr_null) 72 (st, five_seconds)
     = Some (True, st, five_seconds)" for enc st
    by (simp add: encode_field_def encode_basic_field_def basic_size_def basic_data_def PB_LTYPE_def PB_HTYPE_def
        PB_ATYPE_def field_macros l)
  have nth: "google_protobuf_Timestamp_fields ! 0 = PB_SINGULAR_STATIC 1 0 8 1 Ptr_null"
    "google_protobuf_Timestamp_fields ! 1 = PB_SINGULAR_STATIC 2 0 4 1 Ptr_null"
    "length google_protobuf_Timestamp_fields = Suc (Suc (Suc 0))"
    by (simp_all add: google_protobuf_Timestamp_fields_def PB_DATAOFFSET_OTHER_def)
  have t: "field_type (PB_SINGULAR_STATIC 1 0 8 1 Ptr_null) = 17" "field_type (PB_SINGULAR_STATIC 2 0 4 1 Ptr_null) = 17"
    by (simp_all add: field_macros)
  obtain it where i: "pb_field_iter_next \<lparr>start = google_protobuf_Timestamp_fields, pos = 1, required_field_index = 0,
      dest_struct = 64, pData = 72, pSize = At 72\<rparr> = (False, it)"
    using timestamp_iters(3) [of 64] by (auto simp: prod_eq_iff)
  have two: "pb_encode firestore_enc_env 2 = pb_encode firestore_enc_env (Suc 1)" by (simp only: Suc_1)
  have loop: "encode_loop (length google_protobuf_Timestamp_fields) (encode_any_field firestore_enc_env 1 enc)
      \<lparr>start = google_protobuf_Timestamp_fields, pos = 0, required_field_index = 0, dest_struct = 64, pData = 64, pSize = At 64\<rparr>
      (PB_OSTREAM_SIZING, five_seconds) = Some (True, PB_OSTREAM_SIZING\<lparr>bytes_written := 2\<rparr>, five_seconds)" for enc
    using seconds [of enc] nanos [of enc] i timestamp_iters(2) [of 64]
    by (simp add: nth nth [unfolded One_nat_def] t encode_any_field_def cur_field_def PB_LTYPE_def seq_def)
  show ?thesis
    unfolding pb_get_encoded_size_def two pb_encode.simps(2) timestamp_iters(1) prod.case bool.case loop by simp
qed

section \<open>Properties\<close>

text \<open>
  C10: The size that \<open>pb_get_encoded_size\<close> computes is the size of what \<open>pb_encode\<close> then writes, for every table of
  descriptors, nested, packed, allocated and extension fields included: there are bytes of this number that the encoder
  writes to every output stream with room for them, while on a stream without the room it returns false after writing
  a part of them that fits. The callbacks of the message are assumed to write the same bytes each time, which
  the second pass of \<open>pb_encode_submessage\<close> relies on.
\<close>

theorem announced_size_is_written:
  assumes "settled_env log m env" and "pb_get_encoded_size env n fs src m = Some (Some sz, m')"
  shows "m' = m \<and> (\<exists>bs. (length bs < 2 ^ 64 \<longrightarrow> sz = length bs) \<and> delivers log m (pb_encode env n fs src) bs)"
proof -
  have set: "settled log m (pb_encode env n fs src)" using settled_encode [OF assms(1)] by (simp add: settled_messages_def)
  obtain st where r: "pb_encode env n fs src (PB_OSTREAM_SIZING, m) = Some (True, st, m')" and sz: "sz = bytes_written st"
    using assms(2) by (auto simp: pb_get_encoded_size_def split: option.splits bool.splits)
  then have m: "m' = m" using set unfolding settled_def keeps_memory_def by blast
  obtain bs where d: "delivers log m (pb_encode env n fs src) bs" using set r by (auto simp: settled_def fails_on_def)
  have "sz = length bs" if "length bs < 2 ^ 64"
    using delivers_sizing [OF d that] r sz by fastforce
  then show ?thesis using m d by blast
qed

theorem announced_size_is_written_witness:
  "\<exists>bs. (length bs < 2 ^ 64 \<longrightarrow> 2 = length bs) \<and>
     delivers (\<lambda>str. str) five_seconds (pb_encode firestore_enc_env 2 google_protobuf_Timestamp_fields 64) bs"
  using announced_size_is_written [OF firestore_settled five_seconds_size] by blast

end
