(* ===== verification/PbMessage.thy ===== *)
theory PbMessage
  imports PbSize
begin

text \<open>
  Encoding and decoding a message are inverse: the round trip through \<open>pb_encode\<close> and \<open>pb_decode\<close>, for tables of static
  numbers.
\<close>

section \<open>Tables of plain numeric members\<close>

text \<open>
  A member as proto3 has it, present if it is not zero: a static number without a flag and without a default value.
\<close>

definition numeric_field :: "pb_field \<Rightarrow> bool" where
  "numeric_field f \<longleftrightarrow>
     PB_HTYPE (field_type f) = PB_HTYPE_OPTIONAL \<and> PB_ATYPE (field_type f) = PB_ATYPE_STATIC \<and>
     PB_LTYPE (field_type f) \<in> {1, 2, 3, 4, 5} \<and> size_fits f \<and> data_size f \<in> {1, 2, 4, 8} \<and>
     size_offset f = 0 \<and> field_ptr f = Ptr_null \<and> unat (field_tag f) < 2 ^ 29"

definition numeric_table :: "pb_field list \<Rightarrow> bool" where
  "numeric_table fs \<longleftrightarrow>
     wf_table fs \<and> 0 < n_fields fs \<and> length fs < 2 ^ 32 \<and> distinct (map field_tag fs) \<and>
     (\<forall>f\<in>set (butlast fs). numeric_field f)"

definition member_at :: "pb_field list \<Rightarrow> nat \<Rightarrow> nat \<Rightarrow> nat" where
  "member_at fs a k = pData (iter_at fs a k)"

definition member_bytes :: "pb_field list \<Rightarrow> nat \<Rightarrow> memory \<Rightarrow> nat \<Rightarrow> bytes" where
  "member_bytes fs a m k = load_bytes (member_at fs a k) (data_size (fs ! k)) m"

lemma numeric_nth: "numeric_table fs \<Longrightarrow> k < n_fields fs \<Longrightarrow> numeric_field (fs ! k)"
  by (metis in_set_conv_nth length_butlast n_fields_def nth_butlast numeric_table_def)

lemma numeric_wf: "numeric_table fs \<Longrightarrow> wf_table fs"
  by (simp add: numeric_table_def)

lemma numeric_tags: "numeric_table fs \<Longrightarrow> j < n_fields fs \<Longrightarrow> k < n_fields fs \<Longrightarrow> field_tag (fs ! j) = field_tag (fs ! k) \<Longrightarrow> j = k"
  using nth_eq_iff_index_eq [of "map field_tag fs" j k] by (auto simp: numeric_table_def n_fields_def)

text \<open>The iterator at field \<open>k\<close>, written out.\<close>

lemma numeric_iter:
  assumes fs: "numeric_table fs" and k: "k < n_fields fs"
  shows "iter_at fs a k = \<lparr>start = fs, pos = k, required_field_index = 0, dest_struct = a,
           pData = member_at fs a k, pSize = At (member_at fs a k)\<rparr>"
  using k
proof (induction k)
  case 0
  then have "size_offset (fs ! 0) = 0" using numeric_nth [OF fs] by (simp add: numeric_field_def)
  then show ?case by (simp add: member_at_def iter_at.simps pb_field_iter_begin_def size_loc_at_def Let_def)
next
  case (Suc k)
  then have k: "k < n_fields fs" by simp
  have f: "size_offset (fs ! Suc k) = 0" "PB_HTYPE (field_type (fs ! k)) = PB_HTYPE_OPTIONAL"
    using numeric_nth [OF fs Suc.prems] numeric_nth [OF fs k] by (simp_all add: numeric_field_def)
  show ?case
    using f wf_table_tag [OF numeric_wf [OF fs] k] wf_table_tag [OF numeric_wf [OF fs] Suc.prems]
    unfolding member_at_def [of fs a "Suc k"] iter_at.simps(2) Suc.IH [OF k]
    by (simp add: pb_field_iter_next_def cur_field_def size_loc_at_def Let_def)
qed

lemma member_at_Suc:
  assumes fs: "numeric_table fs" and k: "Suc k < n_fields fs"
  shows "member_at fs a (Suc k) = member_at fs a k + data_size (fs ! k) + data_offset (fs ! Suc k)"
proof -
  have k': "k < n_fields fs" using k by simp
  have f: "PB_HTYPE (field_type (fs ! k)) = PB_HTYPE_OPTIONAL" "PB_ATYPE (field_type (fs ! k)) = PB_ATYPE_STATIC"
    using numeric_nth [OF fs k'] by (simp_all add: numeric_field_def)
  show ?thesis
    using f wf_table_tag [OF numeric_wf [OF fs] k'] wf_table_tag [OF numeric_wf [OF fs] k]
    unfolding member_at_def [of fs a "Suc k"] iter_at.simps(2) numeric_iter [OF fs k']
    by (simp add: pb_field_iter_next_def cur_field_def size_loc_at_def Let_def)
qed

lemma members_apart:
  assumes fs: "numeric_table fs" and "j < k" and "k < n_fields fs"
  shows "member_at fs a j + data_size (fs ! j) \<le> member_at fs a k"
  using assms(2,3)
proof (induction k)
  case (Suc k)
  then have "member_at fs a j + data_size (fs ! j) \<le> member_at fs a k + data_size (fs ! k)"
    by (cases "j = k") auto
  then show ?case using member_at_Suc [OF fs Suc.prems(2), of a] by simp
qed simp

lemma load_store_other:
  "a + n \<le> b \<or> b + length bs \<le> a \<Longrightarrow> load_bytes a n (store_bytes b bs m) = load_bytes a n m"
  by (auto simp: load_bytes_def store_bytes_def)

lemma store_member:
  assumes fs: "numeric_table fs" and "j < n_fields fs" "k < n_fields fs" and n: "length bs = data_size (fs ! k)"
  shows "member_bytes fs a (store_bytes (member_at fs a k) bs m) j = (if j = k then bs else member_bytes fs a m j)"
proof (cases j k rule: linorder_cases)
  case less
  then show ?thesis using members_apart [OF fs less assms(3), of a] by (simp add: member_bytes_def load_store_other)
next
  case equal
  then show ?thesis using load_store [of "member_at fs a k" bs m] n by (simp add: member_bytes_def)
next
  case greater
  then show ?thesis using members_apart [OF fs greater assms(2), of a] n by (simp add: member_bytes_def load_store_other)
qed

section \<open>Encoding\<close>

lemma numeric_delivers:
  assumes io: "out_io env = AppendToString" and f: "numeric_field f"
  shows "\<exists>bs. length bs \<le> 10 \<and> delivers (\<lambda>str. str) m (call_encoder env enc f src) bs"
proof -
  note sink = string_writer.byte_sink_axioms
  have n: "data_size f \<in> {1, 2, 4, 8}" and lt: "PB_LTYPE (field_type f) \<in> {1, 2, 3, 4, 5}" using f by (simp_all add: numeric_field_def)
  have c: "call_encoder env enc f src (st, m) = keep_mem (func m f src) (st, m)"
    if "PB_ENCODERS (\<lambda>_ _ _ st. (False, st)) AppendToString (PB_LTYPE (field_type f)) = Some func" for st func
    using that lt by (auto simp: call_encoder_def io)
  have go: "\<exists>bs. length bs \<le> 10 \<and> delivers (\<lambda>str. str) m (call_encoder env enc f src) bs"
    if "PB_ENCODERS (\<lambda>_ _ _ st. (False, st)) AppendToString (PB_LTYPE (field_type f)) = Some func"
      and "delivers (\<lambda>str. str) m (keep_mem (func m f src)) bs" and "length bs \<le> 10" for func bs
    using delivers_cong [OF c [OF that(1)] that(2)] that(3) by blast
  obtain v where v: "load_int True m f src = Some v" using load_int_some [OF n] by blast
  obtain u where u: "load_int False m f src = Some u" using load_int_some [OF n] by blast
  consider "PB_LTYPE (field_type f) = 1" | "PB_LTYPE (field_type f) = 2" | "PB_LTYPE (field_type f) = 3"
    | "PB_LTYPE (field_type f) = 4" | "PB_LTYPE (field_type f) = 5" using lt by blast
  then show ?thesis
  proof cases
    case 1
    show ?thesis
      by (rule go [of "pb_enc_varint AppendToString" "leb_enc (unat v)"])
         (use delivers_varint [OF sink, of m v] in \<open>simp_all add: 1 PB_ENCODERS_def pb_enc_varint_def [abs_def] v leb_enc_u64\<close>)
  next
    case 2
    show ?thesis
      by (rule go [of "pb_enc_uvarint AppendToString" "leb_enc (unat u)"])
         (use delivers_varint [OF sink, of m u] in \<open>simp_all add: 2 PB_ENCODERS_def pb_enc_uvarint_def [abs_def] u leb_enc_u64\<close>)
  next
    case 3
    show ?thesis
      by (rule go [of "pb_enc_svarint AppendToString" "leb_enc (unat (zigzag_enc v))"])
         (use delivers_svarint [OF sink, of m v] in \<open>simp_all add: 3 PB_ENCODERS_def pb_enc_svarint_def [abs_def] v leb_enc_u64\<close>)
  next
    case 4
    show ?thesis
      by (rule go [of "pb_enc_fixed32 AppendToString" "le_bytes 4 (unat (of_nat (le_val (load_bytes src 4 m)) :: u32))"])
         (use delivers_fixed(1) [OF sink, of m "of_nat (le_val (load_bytes src 4 m))"] in
            \<open>simp_all add: 4 PB_ENCODERS_def pb_enc_fixed32_def [abs_def]\<close>)
  next
    case 5
    show ?thesis
      by (rule go [of "pb_enc_fixed64 AppendToString" "le_bytes 8 (unat (of_nat (le_val (load_bytes src 8 m)) :: u64))"])
         (use delivers_fixed(2) [OF sink, of m "of_nat (le_val (load_bytes src 8 m))"] in
            \<open>simp_all add: 5 PB_ENCODERS_def pb_enc_fixed64_def [abs_def]\<close>)
  qed
qed

lemma delivers_string_writer:
  assumes "delivers (\<lambda>str. str) m W bs" and "length bs < 2 ^ 64"
  shows "\<exists>st. W (StringWriter_stream, m) = Some (True, st, m) \<and> sink st = User_sink bs"
proof -
  have "stream_ok StringWriter_stream" "out_room StringWriter_stream (length bs)"
    "bytes_written StringWriter_stream + length bs < 2 ^ 64"
    using assms(2) by (simp_all add: StringWriter_stream_def stream_ok_def out_ok_def out_room_def)
  then obtain st where w: "W (StringWriter_stream, m) = Some (True, st, m)" and e: "emitted (\<lambda>str. str) StringWriter_stream bs st"
    using assms(1) unfolding delivers_def by metis
  have "sink st = User_sink bs" using e by (cases "sink st") (auto simp: emitted_def StringWriter_stream_def)
  then show ?thesis using w by blast
qed
definition wire :: "pb_field \<Rightarrow> nat" where
  "wire f = (if PB_LTYPE (field_type f) \<le> 3 then PB_WT_VARINT else if PB_LTYPE (field_type f) = 4 then PB_WT_32BIT else PB_WT_64BIT)"

definition all_zero :: "bytes \<Rightarrow> bool" where
  "all_zero bs \<longleftrightarrow> (\<forall>b\<in>set bs. b = 0)"

lemma numeric_zero:
  assumes "numeric_field f"
  shows "pb_check_proto3_default_value env (Suc n) m f a = Some (all_zero (load_bytes a (data_size f) m))"
  using assms by (auto simp: numeric_field_def all_zero_def Let_def)

lemma encode_numeric:
  assumes io: "out_io env = AppendToString" and fs: "numeric_table fs" and k: "k < n_fields fs"
    and p: "delivers (\<lambda>str. str) m (call_encoder env enc (fs ! k) (member_at fs src k)) payload"
  shows "delivers (\<lambda>str. str) m (encode_any_field env (Suc n) enc (iter_at fs src k))
           (if all_zero (member_bytes fs src m k) then [] else tag_enc (wire (fs ! k)) (field_tag (fs ! k)) @ payload)"
proof -
  note f = numeric_nth [OF fs k]
  have tag: "delivers (\<lambda>str. str) m (keep_mem (pb_encode_tag_for_field AppendToString (fs ! k))) (tag_enc (wire (fs ! k)) (field_tag (fs ! k)))"
    using f delivers_tag [OF string_writer.byte_sink_axioms, where m = m and wt = "wire (fs ! k)" and fn = "field_tag (fs ! k)"]
    by (auto simp: pb_encode_tag_for_field_def [abs_def] wire_def numeric_field_def)
  have run: "encode_any_field env (Suc n) enc (iter_at fs src k) (st, m) =
      (if all_zero (member_bytes fs src m k) then (\<lambda>s. Some (True, s))
       else seq (keep_mem (pb_encode_tag_for_field AppendToString (fs ! k))) (call_encoder env enc (fs ! k) (member_at fs src k)))
      (st, m)" for st
    using f numeric_zero [OF f, of env n m "member_at fs src k"]
    unfolding numeric_iter [OF fs k]
    by (auto simp: encode_any_field_def cur_field_def numeric_field_def encode_field_def encode_basic_field_def basic_size_def
        basic_data_def member_bytes_def io Let_def simp del: pb_check_proto3_default_value.simps)
  show ?thesis
  proof (cases "all_zero (member_bytes fs src m k)")
    case True
    show ?thesis
      by (rule delivers_cong [where W' = "\<lambda>s. Some (True, s)"]) (simp_all add: run True delivers_nothing)
  next
    case False
    show ?thesis
      by (rule delivers_cong [where W' = "seq (keep_mem (pb_encode_tag_for_field AppendToString (fs ! k)))
            (call_encoder env enc (fs ! k) (member_at fs src k))"])
         (simp_all add: run False delivers_seq [OF tag p])
  qed
qed

lemma delivers_loop:
  assumes wf: "wf_table fs" and body: "\<And>k. k < n_fields fs \<Longrightarrow> delivers log m (body (iter_at fs a k)) (code k)"
  shows "j < n_fields fs \<Longrightarrow> n_fields fs - j \<le> c \<Longrightarrow>
    delivers log m (encode_loop c body (iter_at fs a j)) (concat (map code [j..<n_fields fs]))"
proof (induction c arbitrary: j)
  case (Suc c)
  have near: "near fs a j (iter_at fs a j)" by (simp add: near_def)
  note next' = iter_next [OF wf Suc.prems(1) near]
  have split: "[j..<n_fields fs] = j # [Suc j..<n_fields fs]" using Suc.prems(1) by (rule upt_conv_Cons)
  show ?case
  proof (cases "Suc j < n_fields fs")
    case True
    have "delivers log m (encode_loop c body (iter_at fs a (Suc j))) (concat (map code [Suc j..<n_fields fs]))"
      using Suc.IH [OF True] Suc.prems(2) by simp
    from delivers_seq [OF body [OF Suc.prems(1)] this] show ?thesis
      unfolding split by (intro delivers_cong [where W = "encode_loop (Suc c) body (iter_at fs a j)"]) (simp_all add: next' True)
  next
    case False
    then have rest: "[Suc j..<n_fields fs] = []" by simp
    from delivers_seq [OF body [OF Suc.prems(1)] delivers_nothing] show ?thesis
      unfolding split rest
      by (intro delivers_cong [where W = "encode_loop (Suc c) body (iter_at fs a j)"]) (simp_all add: next' False)
  qed
qed simp

section \<open>Decoding\<close>

text \<open>What is written for a member is read back into a member.\<close>

lemma numeric_code:
  assumes io: "out_io env = AppendToString" and din: "in_io denv = read_memory" and f: "numeric_field f"
  shows "\<exists>bs. length bs \<le> 10 \<and> delivers (\<lambda>str. str) m (call_encoder env enc f src) bs \<and>
    (\<forall>n noinit dest rest m2. call_decoder denv n noinit f dest (pb_istream_from_buffer (bs @ rest) (length (bs @ rest)), m2)
       = Some (True, pb_istream_from_buffer rest (length rest), store_bytes dest (load_bytes src (data_size f) m) m2))"
proof -
  obtain bs where bs: "length bs \<le> 10" "delivers (\<lambda>str. str) m (call_encoder env enc f src) bs"
    using numeric_delivers [OF io f] by blast
  have n: "data_size f \<in> {1, 2, 4, 8}" and lt: "PB_LTYPE (field_type f) \<in> {1, 2, 3, 4, 5}" and fit: "size_fits f"
    using f by (simp_all add: numeric_field_def)
  obtain e where e: "PB_ENCODERS (\<lambda>_ _ _ st. (False, st)) AppendToString (PB_LTYPE (field_type f)) = Some e"
    using lt by (auto simp: PB_ENCODERS_def)
  obtain d where d: "PB_DECODERS (\<lambda>_ _ s. (False, s)) (realloc_of denv) read_memory (PB_LTYPE (field_type f)) = Some d"
    using lt by (auto simp: PB_DECODERS_def)
  have s: "survives e d m f src dest" for dest
    using lt fit e d varint_survives [OF n] uvarint_survives [OF n] svarint_survives [OF n] fixed_survives [of f]
    by (auto simp: PB_ENCODERS_def PB_DECODERS_def size_fits_def)
  have "call_encoder env enc f src (StringWriter_stream, m) = keep_mem (e m f src) (StringWriter_stream, m)"
    using lt e by (auto simp: call_encoder_def io)
  moreover obtain st where "call_encoder env enc f src (StringWriter_stream, m) = Some (True, st, m)" "sink st = User_sink bs"
    using delivers_string_writer [OF bs(2)] bs(1) by auto
  ultimately have "e m f src StringWriter_stream = (True, st)" by (auto simp: keep_mem_def split: prod.splits)
  then have "d f dest (pb_istream_from_buffer (bs @ rest) (length (bs @ rest)), m2)
      = (True, pb_istream_from_buffer rest (length rest), store_bytes dest (load_bytes src (data_size f) m) m2)" for dest rest m2
    using s [of dest] \<open>sink st = User_sink bs\<close> unfolding survives_def by auto
  then show ?thesis using bs lt d by (intro exI [of _ bs]) (auto simp: call_decoder_def din)
qed

text \<open>Reading one member: the tag is read, the field is found, the member is stored.\<close>

lemma decode_numeric:
  assumes fs: "numeric_table fs" and k: "k < n_fields fs" and p: "p < n_fields fs" and l: "local_iter l = iter_at fs dest p"
    and din: "in_io env = read_memory"
    and code: "\<And>rest m. call_decoder env n noinit (fs ! k) (member_at fs dest k) (pb_istream_from_buffer (bs @ rest) (length (bs @ rest)), m)
       = Some (True, pb_istream_from_buffer rest (length rest), store_bytes (member_at fs dest k) val m)"
  shows "decode_loop env n noinit (Suc c) l
       (pb_istream_from_buffer (tag_enc (wire (fs ! k)) (field_tag (fs ! k)) @ bs @ rest)
          (length (tag_enc (wire (fs ! k)) (field_tag (fs ! k)) @ bs @ rest)), m)
     = decode_loop env n noinit c (l\<lparr>local_iter := iter_at fs dest k\<rparr>)
         (pb_istream_from_buffer rest (length rest), store_bytes (member_at fs dest k) val m)"
proof -
  let ?tag = "tag_enc (wire (fs ! k)) (field_tag (fs ! k))"
  let ?st = "pb_istream_from_buffer (?tag @ bs @ rest) (length (?tag @ bs @ rest)) :: bytes pb_istream"
  note f = numeric_nth [OF fs k] and wf = numeric_wf [OF fs]
  have "0 < field_tag (fs ! k)" using wf_table_tag [OF wf k] by (simp add: word_gt_0)
  moreover have "wire (fs ! k) < 8" by (simp add: wire_def)
  moreover have "unat (field_tag (fs ! k)) < 2 ^ 29" using f by (simp add: numeric_field_def)
  ultimately obtain st1 where t: "pb_decode_tag read_memory ?st = (True, wire (fs ! k), field_tag (fs ! k), False, st1)"
    and "advanced (\<lambda>src. src) ?st (length ?tag) st1"
    using pb_decode_tag_enc [OF buffer.byte_source_axioms buffer_holds] by blast
  then have st1: "st1 = pb_istream_from_buffer (bs @ rest) (length (bs @ rest))" using buffer_advanced by blast
  have near: "near fs dest p (local_iter l)" by (simp add: near_def l)
  obtain b it where find: "pb_field_iter_find (local_iter l) (field_tag (fs ! k)) = (b, it)" by (rule prod.exhaust)
  have lt: "PB_LTYPE (field_type (fs ! k)) \<noteq> PB_LTYPE_EXTENSION" using f by (auto simp: numeric_field_def)
  have "b \<and> it = iter_at fs dest k"
  proof (cases b)
    case True
    then obtain j where j: "j < n_fields fs" "field_tag (fs ! j) = field_tag (fs ! k)" "near fs dest j it"
      using find_spec [OF wf p near, of "\<lambda>f. field_tag f = field_tag (fs ! k) \<and> PB_LTYPE (field_type f) \<noteq> PB_LTYPE_EXTENSION"] find
      by (auto simp: pb_field_iter_find_def)
    then have "j = k" using numeric_tags [OF fs j(1) k] by blast
    then show ?thesis using j(3) True f by (auto simp: near_def numeric_field_def)
  next
    case False
    then show ?thesis
      using find_spec [OF wf p near, of "\<lambda>f. field_tag f = field_tag (fs ! k) \<and> PB_LTYPE (field_type f) \<noteq> PB_LTYPE_EXTENSION"] find k lt
      by (auto simp: pb_field_iter_find_def)
  qed
  then have find: "pb_field_iter_find (local_iter l) (field_tag (fs ! k)) = (True, iter_at fs dest k)" using find by simp
  let ?l = "l\<lparr>local_iter := iter_at fs dest k\<rparr>"
  have cur: "cur_field (iter_at fs dest k) = fs ! k" "pData (iter_at fs dest k) = member_at fs dest k"
      "pSize (iter_at fs dest k) = At (member_at fs dest k)"
    using numeric_iter [OF fs k, of dest] by (simp_all add: cur_field_def)
  have sel: "select_fixed_count ?l = Some ?l" "mark_required ?l = ?l"
    using f cur by (simp_all add: select_fixed_count_def mark_required_def numeric_field_def Let_def)
  have field: "decode_field env n noinit (wire (fs ! k)) (iter_at fs dest k) (st1, m, fc)
      = Some (True, pb_istream_from_buffer rest (length rest), store_bytes (member_at fs dest k) val m, fc)" for fc
    using f cur code [of rest m] st1
    by (simp add: decode_field_def decode_static_field_def numeric_field_def keep_fc_def Let_def)
  have "0 < length ?tag" using leb_enc.simps [of "8 * unat (field_tag (fs ! k)) + wire (fs ! k)"] by (simp add: tag_enc_def)
  then have more: "bytes_left ?st \<noteq> 0" by (simp add: pb_istream_from_buffer_def)
  have fc: "?l\<lparr>fixed_count_size := fixed_count_size ?l\<rparr> = ?l" by simp
  show ?thesis
    unfolding decode_loop.simps(2) fst_conv snd_conv if_not_P [OF more] din t prod.case bool.case find sel option.case Let_def
    using field [of "fixed_count_size l"] by simp
qed

lemma decode_loop_end: "bytes_left (fst s) = 0 \<Longrightarrow> decode_loop env n noinit c l s = Some (True, l, s)"
  by (cases c) simp_all

definition field_code :: "pb_field \<Rightarrow> bytes \<Rightarrow> bytes \<Rightarrow> bytes" where
  "field_code f val payload = (if all_zero val then [] else tag_enc (wire f) (field_tag f) @ payload)"

lemma all_zero_replicate: "all_zero bs \<Longrightarrow> length bs = n \<Longrightarrow> replicate n 0 = bs"
  unfolding all_zero_def by (metis replicate_eqI)

text \<open>Reading the members from \<open>j\<close> on into a struct that has the ones before, and zeros.\<close>

lemma decode_members:
  assumes fs: "numeric_table fs" and din: "in_io env = read_memory"
    and code: "\<And>k rest m. k < n_fields fs \<Longrightarrow>
       call_decoder env n noinit (fs ! k) (member_at fs dest k) (pb_istream_from_buffer (payload k @ rest) (length (payload k @ rest)), m)
       = Some (True, pb_istream_from_buffer rest (length rest), store_bytes (member_at fs dest k) (val k) m)"
    and val: "\<And>k. k < n_fields fs \<Longrightarrow> length (val k) = data_size (fs ! k)"
  shows "j \<le> n_fields fs \<Longrightarrow> p < n_fields fs \<Longrightarrow> local_iter l = iter_at fs dest p \<Longrightarrow>
    input = concat (map (\<lambda>k. field_code (fs ! k) (val k) (payload k)) [j..<n_fields fs]) \<Longrightarrow> length input \<le> c \<Longrightarrow>
    (\<forall>i<n_fields fs. member_bytes fs dest m i = (if i < j then val i else replicate (data_size (fs ! i)) 0)) \<Longrightarrow>
    \<exists>l' m'. decode_loop env n noinit c l (pb_istream_from_buffer input (length input), m)
              = Some (True, l', pb_istream_from_buffer [] 0, m') \<and>
       (\<exists>p<n_fields fs. local_iter l' = iter_at fs dest p) \<and> fixed_count_field l' = fixed_count_field l \<and>
       (\<forall>i<n_fields fs. member_bytes fs dest m' i = val i)"
proof (induction "n_fields fs - j" arbitrary: j p l input c m)
  case 0
  then have "input = []" "\<forall>i<n_fields fs. member_bytes fs dest m i = val i" by simp_all
  then show ?case using 0(3,4) by (auto simp: pb_istream_from_buffer_def decode_loop_end)
next
  case (Suc d)
  then have j: "j < n_fields fs" and d: "d = n_fields fs - Suc j" by simp_all
  define tail where "tail = concat (map (\<lambda>k. field_code (fs ! k) (val k) (payload k)) [Suc j..<n_fields fs])"
  have input: "input = field_code (fs ! j) (val j) (payload j) @ tail"
    using Suc.prems(4) unfolding tail_def upt_conv_Cons [OF j] by simp
  show ?case
  proof (cases "all_zero (val j)")
    case True
    then have "input = tail" "val j = replicate (data_size (fs ! j)) 0"
      using input all_zero_replicate [OF True val [OF j]] by (simp_all add: field_code_def)
    then show ?thesis
      using Suc.hyps(1) [OF d _ Suc.prems(2,3) tail_def, of c m] Suc.prems(5,6) j
      by (auto simp: less_Suc_eq)
  next
    case False
    let ?tag = "tag_enc (wire (fs ! j)) (field_tag (fs ! j))"
    have in': "input = ?tag @ payload j @ tail" using input False by (simp add: field_code_def)
    have "0 < length ?tag" using leb_enc.simps [of "8 * unat (field_tag (fs ! j)) + wire (fs ! j)"] by (simp add: tag_enc_def)
    moreover have "length input = length ?tag + (length (payload j) + length tail)" by (simp add: in')
    ultimately have "length tail < c" using Suc.prems(5) by linarith
    then obtain c' where c: "c = Suc c'" and le: "length tail \<le> c'" by (cases c) auto
    let ?l = "l\<lparr>local_iter := iter_at fs dest j\<rparr>" and ?m = "store_bytes (member_at fs dest j) (val j) m"
    have step: "decode_loop env n noinit c l (pb_istream_from_buffer input (length input), m)
        = decode_loop env n noinit c' ?l (pb_istream_from_buffer tail (length tail), ?m)"
      unfolding c in' by (rule decode_numeric [OF fs j Suc.prems(2,3) din code [OF j]])
    have mem: "\<forall>i<n_fields fs. member_bytes fs dest ?m i = (if i < Suc j then val i else replicate (data_size (fs ! i)) 0)"
      using store_member [OF fs _ j val [OF j], of _ dest m] Suc.prems(6) by (auto simp: less_Suc_eq)
    show ?thesis
      using Suc.hyps(1) [OF d _ j, of ?l tail c' ?m, OF _ _ tail_def le mem] j unfolding step by auto
  qed
qed

lemma defaults_numeric:
  assumes fs: "numeric_table fs"
  shows "j < n_fields fs \<Longrightarrow> n_fields fs - j \<le> c \<Longrightarrow>
    \<exists>m'. each_field c (pb_field_set_to_default env (Suc n)) (iter_at fs dest j) m = Some m' \<and>
      (\<forall>i<n_fields fs. member_bytes fs dest m' i = (if i < j then member_bytes fs dest m i else replicate (data_size (fs ! i)) 0))"
proof (induction c arbitrary: j m)
  case (Suc c)
  let ?m = "memset_0 (member_at fs dest j) (data_size (fs ! j)) m"
  note f = numeric_nth [OF fs Suc.prems(1)]
  have body: "pb_field_set_to_default env (Suc n) (iter_at fs dest j) m = Some ?m"
    unfolding numeric_iter [OF fs Suc.prems(1)] using f by (auto simp: numeric_field_def cur_field_def Let_def)
  have mem: "member_bytes fs dest ?m i = (if i = j then replicate (data_size (fs ! j)) 0 else member_bytes fs dest m i)"
    if "i < n_fields fs" for i
    using store_member [OF fs that Suc.prems(1), of "replicate (data_size (fs ! j)) 0" dest m] by (simp add: memset_0_def)
  have near: "near fs dest j (iter_at fs dest j)" by (simp add: near_def)
  note next' = iter_next [OF numeric_wf [OF fs] Suc.prems(1) near]
  show ?case
  proof (cases "Suc j < n_fields fs")
    case True
    have "n_fields fs - Suc j \<le> c" using Suc.prems(2) by simp
    from Suc.IH [OF True this, of ?m] obtain m' where "each_field c (pb_field_set_to_default env (Suc n)) (iter_at fs dest (Suc j)) ?m = Some m'"
      "\<forall>i<n_fields fs. member_bytes fs dest m' i = (if i < Suc j then member_bytes fs dest ?m i else replicate (data_size (fs ! i)) 0)"
      by blast
    then show ?thesis using body mem next' True by (auto simp: less_Suc_eq simp del: pb_field_set_to_default.simps)
  next
    case False
    then have "i < j \<longleftrightarrow> i \<noteq> j" if "i < n_fields fs" for i using that by auto
    then show ?thesis using body mem next' False by (auto simp del: pb_field_set_to_default.simps)
  qed
qed simp

lemma seek_end_numeric:
  assumes fs: "numeric_table fs"
  shows "p < n_fields fs \<Longrightarrow> \<exists>q it. seek_end c (iter_at fs dest p) = (0, field_type (fs ! q), it) \<and> q < n_fields fs"
proof (induction c arbitrary: p)
  case 0
  then show ?case using numeric_iter [OF fs 0, of dest] by (auto simp: cur_field_def)
next
  case (Suc c)
  have near: "near fs dest p (iter_at fs dest p)" by (simp add: near_def)
  note next' = iter_next [OF numeric_wf [OF fs] Suc.prems near]
  show ?case
  proof (cases "Suc p < n_fields fs")
    case True
    then show ?thesis using Suc.IH [OF True] next' by simp
  next
    case False
    then show ?thesis using next' Suc.prems numeric_iter [OF fs Suc.prems, of dest] by (auto simp: cur_field_def)
  qed
qed

lemma decode_checks_numeric:
  assumes fs: "numeric_table fs" and "p < n_fields fs" and "local_iter l = iter_at fs dest p" and "fixed_count_field l = None"
  shows "decode_checks l s = (True, s)"
proof -
  obtain q it where "seek_end (length (start (local_iter l))) (local_iter l) = (0, field_type (fs ! q), it)" "q < n_fields fs"
    using seek_end_numeric [OF assms(1,2)] assms(3) by metis
  moreover have "PB_HTYPE (field_type (fs ! q)) = PB_HTYPE_OPTIONAL" if "q < n_fields fs"
    using numeric_nth [OF fs that] by (simp add: numeric_field_def)
  ultimately have "required_count (local_iter l) = 0" by (simp add: required_count_def)
  then show ?thesis using assms(4) by (simp add: decode_checks_def all_required_seen_def)
qed

section \<open>Properties\<close>

text \<open>
  C9: A message survives encoding and decoding: for every table of static proto3 numbers, of any of the integer,
  zigzag and fixed-width types and any member sizes, what \<open>pb_encode\<close> writes for the struct at \<open>src\<close> to a string is
  accepted by \<open>pb_decode\<close>, which uses up the input and leaves in the struct at \<open>dest\<close> the same bytes in every member,
  whatever the two memories held before. Members that are zero are not written; the default values restore them.
\<close>

theorem message_survives:
  assumes fs: "numeric_table fs" and io: "out_io env = AppendToString" "in_io denv = read_memory" and n: "2 \<le> n" "2 \<le> n'"
  shows "\<exists>st bs m'. pb_encode env n fs src (StringWriter_stream, m) = Some (True, st, m) \<and> sink st = User_sink bs \<and>
    pb_decode denv n' fs dest (pb_istream_from_buffer bs (length bs), m2) = Some (True, pb_istream_from_buffer [] 0, m') \<and>
    (\<forall>k<n_fields fs. load_bytes (pData (iter_at fs dest k)) (data_size (fs ! k)) m'
                   = load_bytes (pData (iter_at fs src k)) (data_size (fs ! k)) m)"
proof -
  obtain k where k: "n = Suc (Suc k)" using n(1) by (metis add_2_eq_Suc le_Suc_ex)
  obtain k' where k': "n' = Suc (Suc k')" using n(2) by (metis add_2_eq_Suc le_Suc_ex)
  note wf = numeric_wf [OF fs]
  have pos: "0 < n_fields fs" and small: "length fs < 2 ^ 32" using fs by (simp_all add: numeric_table_def)
  let ?enc = "pb_encode env (Suc k)" and ?val = "\<lambda>k. member_bytes fs src m k"
  have "\<forall>i\<in>{..<n_fields fs}. \<exists>bs. length bs \<le> 10 \<and> delivers (\<lambda>str. str) m (call_encoder env ?enc (fs ! i) (member_at fs src i)) bs \<and>
    (\<forall>n noinit dest rest m2. call_decoder denv n noinit (fs ! i) dest (pb_istream_from_buffer (bs @ rest) (length (bs @ rest)), m2)
       = Some (True, pb_istream_from_buffer rest (length rest), store_bytes dest (?val i) m2))"
    using numeric_code [OF io numeric_nth [OF fs]] by (simp add: member_bytes_def)
  from bchoice [OF this] obtain P where P0: "\<forall>i\<in>{..<n_fields fs}. length (P i) \<le> 10 \<and>
    delivers (\<lambda>str. str) m (call_encoder env ?enc (fs ! i) (member_at fs src i)) (P i) \<and>
    (\<forall>n noinit dest rest m2. call_decoder denv n noinit (fs ! i) dest (pb_istream_from_buffer (P i @ rest) (length (P i @ rest)), m2)
       = Some (True, pb_istream_from_buffer rest (length rest), store_bytes dest (?val i) m2))" ..
  have P: "length (P i) \<le> 10" "delivers (\<lambda>str. str) m (call_encoder env ?enc (fs ! i) (member_at fs src i)) (P i)"
      "call_decoder denv n noinit (fs ! i) dest (pb_istream_from_buffer (P i @ rest) (length (P i @ rest)), m2)
       = Some (True, pb_istream_from_buffer rest (length rest), store_bytes dest (?val i) m2)"
    if "i < n_fields fs" for i n noinit dest rest m2
    using P0 that by blast+
  let ?code = "\<lambda>i. field_code (fs ! i) (?val i) (P i)" and ?bs = "concat (map (\<lambda>i. field_code (fs ! i) (?val i) (P i)) [0..<n_fields fs])"
  have "delivers (\<lambda>str. str) m (encode_loop (length fs) (encode_any_field env (Suc k) ?enc) (iter_at fs src 0)) ?bs"
    by (rule delivers_loop [OF wf _ pos])
       (use encode_numeric [OF io(1) fs _ P(2), of _ k] in \<open>simp_all add: field_code_def n_fields_def\<close>)
  then have d: "delivers (\<lambda>str. str) m (pb_encode env n fs src) ?bs"
    by (rule delivers_cong [rotated]) (use iter_begin [OF wf, of src] pos in \<open>simp add: k\<close>)
  have "length (?code i) \<le> 20" if "i < n_fields fs" for i
  proof -
    have "8 * unat (field_tag (fs ! i)) + wire (fs ! i) < 128 ^ 5"
      using numeric_nth [OF fs that] by (simp add: numeric_field_def wire_def)
    then show ?thesis using leb_enc_len [of _ 5] P(1) [OF that] by (fastforce simp: field_code_def tag_enc_def)
  qed
  then have "sum_list (map (length \<circ> ?code) [0..<n_fields fs]) \<le> sum_list (map (\<lambda>_. 20) [0..<n_fields fs])"
    by (intro sum_list_mono) simp
  then have "length ?bs < 2 ^ 64" using small by (simp add: length_concat comp_def n_fields_def sum_list_triv)
  from delivers_string_writer [OF d this] obtain st where
    e: "pb_encode env n fs src (StringWriter_stream, m) = Some (True, st, m)" "sink st = User_sink ?bs" by blast
  obtain m1 where m1: "pb_message_set_to_defaults denv n' fs dest m2 = Some m1"
      "\<forall>i<n_fields fs. member_bytes fs dest m1 i = (if i < 0 then ?val i else replicate (data_size (fs ! i)) 0)"
    using defaults_numeric [OF fs pos, of "length fs" denv k' dest m2] iter_begin [OF wf, of dest] pos
    unfolding k' by (auto simp: n_fields_def simp del: pb_field_set_to_default.simps)
  have f: "local_iter (first_locals fs dest) = iter_at fs dest 0" "fixed_count_field (first_locals fs dest) = None"
    by (simp_all add: first_locals_def iter_at.simps)
  obtain l' m' p where r: "decode_loop denv (Suc k') (pb_decode_noinit denv (Suc k')) (length ?bs) (first_locals fs dest)
        (pb_istream_from_buffer ?bs (length ?bs), m1) = Some (True, l', pb_istream_from_buffer [] 0, m')"
      and p: "p < n_fields fs" "local_iter l' = iter_at fs dest p" "fixed_count_field l' = None"
      and m': "\<forall>i<n_fields fs. member_bytes fs dest m' i = ?val i"
    using decode_members [OF fs io(2) P(3), where j = 0 and p = 0 and l = "first_locals fs dest" and input = ?bs
        and c = "length ?bs" and m = m1 and dest = dest and n = "Suc k'" and noinit = "pb_decode_noinit denv (Suc k')"] pos f m1(2)
    by (auto simp: member_bytes_def)
  have "pb_decode denv n' fs dest (pb_istream_from_buffer ?bs (length ?bs), m2) = Some (True, pb_istream_from_buffer [] 0, m')"
    using m1(1) r unfolding k'
    by (simp add: decode_checks_numeric [OF fs p] pb_decode_def decode_with_def pb_istream_from_buffer_def del: pb_message_set_to_defaults.simps)
  then show ?thesis using e m' by (auto simp: member_bytes_def member_at_def)
qed

lemma timestamp_numeric: "numeric_table google_protobuf_Timestamp_fields"
  by (simp add: numeric_table_def wf_table_def n_fields_def google_protobuf_Timestamp_fields_def field_macros numeric_field_def
      PB_HTYPE_def PB_ATYPE_def PB_LTYPE_def size_fits_def)

theorem message_survives_witness:
  "\<exists>st bs m'. pb_encode firestore_enc_env 2 google_protobuf_Timestamp_fields 64 (StringWriter_stream, five_seconds)
       = Some (True, st, five_seconds) \<and> sink st = User_sink bs \<and>
     pb_decode (firestore_env (\<lambda>m _ _. (0, m)) (\<lambda>m _. m)) 2 google_protobuf_Timestamp_fields 128
       (pb_istream_from_buffer bs (length bs), \<lambda>_. 9) = Some (True, pb_istream_from_buffer [] 0, m') \<and>
     load_bytes 128 8 m' = [5, 0, 0, 0, 0, 0, 0, 0]"
proof -
  let ?fs = google_protobuf_Timestamp_fields and ?env = "firestore_env (\<lambda>m _ _. (0, m)) (\<lambda>m _. m)"
  have io: "out_io firestore_enc_env = AppendToString" "in_io ?env = read_memory"
    by (simp_all add: firestore_enc_env_def firestore_env_def)
  obtain st bs m' where r: "pb_encode firestore_enc_env 2 ?fs 64 (StringWriter_stream, five_seconds) = Some (True, st, five_seconds)"
      "sink st = User_sink bs"
      "pb_decode ?env 2 ?fs 128 (pb_istream_from_buffer bs (length bs), \<lambda>_. 9) = Some (True, pb_istream_from_buffer [] 0, m')"
      "\<forall>k<n_fields ?fs. load_bytes (pData (iter_at ?fs 128 k)) (data_size (?fs ! k)) m'
                   = load_bytes (pData (iter_at ?fs 64 k)) (data_size (?fs ! k)) five_seconds"
    using message_survives [OF timestamp_numeric io le_refl le_refl, of 64 five_seconds 128 "\<lambda>_. 9"] by blast
  have "0 < n_fields ?fs" "data_size (?fs ! 0) = 8" "pData (iter_at ?fs 128 0) = 128" "pData (iter_at ?fs 64 0) = 64"
    by (simp_all add: n_fields_def google_protobuf_Timestamp_fields_def field_macros iter_at.simps pb_field_iter_begin_def Let_def)
  then have "load_bytes 128 8 m' = load_bytes 64 8 five_seconds" using r(4) by metis
  then have "load_bytes 128 8 m' = [5, 0, 0, 0, 0, 0, 0, 0]" by (simp add: five_seconds_def load_bytes_def upt_rec)
  then show ?thesis using r(1,2,3) by blast
qed

end
