(* ===== verification/Comparison.thy ===== *)
theory Comparison
  imports Prelude
begin

text \<open>
  Three-way comparison (\<open>Firestore/core/src/util/comparison.h\<close>) and the laws a key comparator has to
  satisfy, as the locale \<open>key_order\<close>; the abstract map the Firestore containers implement: the list
  of its entries in strictly ascending key order, with insertion, removal and their effect on
  look-ups.
\<close>

section \<open>Three-way comparison (util/comparison.h)\<close>

datatype ComparisonResult = Ascending | Same | Descending

definition ReverseOrder :: "ComparisonResult \<Rightarrow> ComparisonResult" where
  "ReverseOrder r = (case r of Ascending \<Rightarrow> Descending | Same \<Rightarrow> Same | Descending \<Rightarrow> Ascending)"

definition DefaultComparator :: "'a :: ord \<Rightarrow> 'a \<Rightarrow> ComparisonResult" where
  "DefaultComparator l r =
     (if l < r then Ascending else if r < l then Descending else Same)"

locale key_order =
  fixes compare :: "'k \<Rightarrow> 'k \<Rightarrow> ComparisonResult"
  assumes same: "compare a b = Same \<longleftrightarrow> a = b"
    and reverse: "compare b a = ReverseOrder (compare a b)"
    and trans: "compare a b = Ascending \<Longrightarrow> compare b c = Ascending \<Longrightarrow> compare a c = Ascending"


section \<open>The abstract map: a list of entries in key order\<close>

definition ordered :: "('k \<Rightarrow> 'k \<Rightarrow> ComparisonResult) \<Rightarrow> ('k \<times> 'v) list \<Rightarrow> bool" where
  "ordered compare xs \<longleftrightarrow> sorted_wrt (\<lambda>a b. compare (fst a) (fst b) = Ascending) xs"

fun list_insert :: "('k \<Rightarrow> 'k \<Rightarrow> ComparisonResult) \<Rightarrow> 'k \<Rightarrow> 'v \<Rightarrow> ('k \<times> 'v) list \<Rightarrow> ('k \<times> 'v) list" where
  "list_insert compare k v [] = [(k, v)]"
| "list_insert compare k v (x # xs) =
     (case compare k (fst x) of
        Ascending \<Rightarrow> (k, v) # x # xs
      | Same \<Rightarrow> (k, v) # xs
      | Descending \<Rightarrow> x # list_insert compare k v xs)"

definition list_erase :: "'k \<Rightarrow> ('k \<times> 'v) list \<Rightarrow> ('k \<times> 'v) list" where
  "list_erase k xs = filter (\<lambda>x. fst x \<noteq> k) xs"

lemma ReverseOrder_simps [simp]:
  "ReverseOrder Ascending = Descending" "ReverseOrder Same = Same" "ReverseOrder Descending = Ascending"
  "ReverseOrder r = Ascending \<longleftrightarrow> r = Descending"
  "ReverseOrder r = Descending \<longleftrightarrow> r = Ascending"
  "ReverseOrder r = Same \<longleftrightarrow> r = Same"
  by (cases r; simp add: ReverseOrder_def)+

context key_order
begin

lemma compare_refl [simp]: "compare a a = Same"
  by (simp add: same)

lemma descending: "compare a b = Descending \<longleftrightarrow> compare b a = Ascending"
  using reverse [of b a] by simp

lemma not_ascending_refl: "compare a b = Ascending \<Longrightarrow> a \<noteq> b"
  by auto

lemma ordered_Nil [simp]: "ordered compare []"
  by (simp add: ordered_def)

lemma ordered_Cons:
  "ordered compare (x # xs) \<longleftrightarrow> (\<forall>y\<in>set xs. compare (fst x) (fst y) = Ascending) \<and> ordered compare xs"
  by (simp add: ordered_def)

lemma ordered_append:
  "ordered compare (xs @ ys) \<longleftrightarrow> ordered compare xs \<and> ordered compare ys \<and>
     (\<forall>x\<in>set xs. \<forall>y\<in>set ys. compare (fst x) (fst y) = Ascending)"
  by (simp add: ordered_def sorted_wrt_append)

lemmas ordered_simps = ordered_Cons ordered_append

lemma list_insert_left:
  "ordered compare (xs @ a # ys) \<Longrightarrow> compare k (fst a) = Ascending \<Longrightarrow>
     list_insert compare k v (xs @ a # ys) = list_insert compare k v xs @ a # ys"
  by (induction xs) (auto simp: ordered_simps split: ComparisonResult.split)

lemma list_insert_below:
  "(\<forall>x\<in>set xs. compare (fst x) k = Ascending) \<Longrightarrow>
     list_insert compare k v (xs @ ys) = xs @ list_insert compare k v ys"
  by (induction xs) (auto simp: descending [symmetric])

lemma list_insert_right:
  assumes "ordered compare (xs @ a # ys)" "compare k (fst a) = Descending"
  shows "list_insert compare k v (xs @ a # ys) = xs @ a # list_insert compare k v ys"
proof -
  have "\<forall>x\<in>set xs. compare (fst x) k = Ascending"
    using assms by (auto simp: ordered_simps descending intro: trans)
  then show ?thesis using assms(2) by (simp add: list_insert_below)
qed

lemma list_insert_same:
  assumes "ordered compare (xs @ a # ys)" "compare k (fst a) = Same"
  shows "list_insert compare k v (xs @ a # ys) = xs @ (k, v) # ys"
  using assms by (auto simp: ordered_simps list_insert_below same)

lemma set_list_insert:
  "x \<in> set (list_insert compare k v xs) \<Longrightarrow> x = (k, v) \<or> x \<in> set xs"
  by (induction xs) (auto split: ComparisonResult.splits)

lemma ordered_list_insert:
  "ordered compare xs \<Longrightarrow> ordered compare (list_insert compare k v xs)"
proof (induction xs)
  case (Cons x xs)
  then show ?case
    by (auto simp: ordered_simps same descending dest!: set_list_insert
        split: ComparisonResult.split intro: trans)
qed (simp add: ordered_simps)

lemma ordered_list_erase: "ordered compare xs \<Longrightarrow> ordered compare (list_erase k xs)"
  by (simp add: ordered_def list_erase_def sorted_wrt_filter)

lemma list_erase_above:
  "(\<forall>x\<in>set xs. compare k (fst x) = Ascending) \<Longrightarrow> list_erase k xs = xs"
  by (force simp: list_erase_def filter_id_conv)

lemma list_erase_below:
  "(\<forall>x\<in>set xs. compare (fst x) k = Ascending) \<Longrightarrow> list_erase k xs = xs"
  by (force simp: list_erase_def filter_id_conv)

lemma list_erase_left:
  assumes "ordered compare (xs @ a # ys)" "compare k (fst a) = Ascending"
  shows "list_erase k (xs @ a # ys) = list_erase k xs @ a # ys"
proof -
  have "list_erase k (a # ys) = a # ys"
    using assms by (intro list_erase_above) (auto simp: ordered_simps intro: trans)
  then show ?thesis by (simp add: list_erase_def)
qed

lemma list_erase_right:
  assumes "ordered compare (xs @ a # ys)" "compare (fst a) k = Ascending"
  shows "list_erase k (xs @ a # ys) = xs @ a # list_erase k ys"
proof -
  have "list_erase k (xs @ [a]) = xs @ [a]"
    using assms by (intro list_erase_below) (auto simp: ordered_simps intro: trans)
  then show ?thesis by (simp add: list_erase_def split: if_splits)
qed

lemma list_erase_same:
  assumes "ordered compare (xs @ a # ys)" "compare k (fst a) = Same"
  shows "list_erase k (xs @ a # ys) = xs @ ys"
proof -
  have "list_erase k xs = xs"
    using assms by (intro list_erase_below) (auto simp: ordered_simps same)
  moreover have "list_erase k ys = ys"
    using assms by (intro list_erase_above) (auto simp: ordered_simps same)
  ultimately show ?thesis using assms by (simp add: list_erase_def same)
qed

lemma map_of_list_insert: "map_of (list_insert compare k v xs) = (map_of xs)(k \<mapsto> v)" if "ordered compare xs"
  using that
proof (induction xs)
  case (Cons x xs)
  then show ?case
    by (cases x) (auto simp: fun_eq_iff same ordered_simps split: ComparisonResult.split)
qed simp

end

lemma map_of_list_erase: "map_of (list_erase k xs) = (map_of xs)(k := None)"
  by (induction xs) (auto simp: list_erase_def fun_eq_iff)

interpretation default_order: key_order "DefaultComparator :: 'a :: linorder \<Rightarrow> 'a \<Rightarrow> ComparisonResult"
  by unfold_locales (auto simp: DefaultComparator_def split: if_splits)

end
