(* ===== verification/Llrb.thy ===== *)
theory Llrb
  imports Comparison
begin

text \<open>
  The left-leaning red-black tree behind Firestore's sorted maps
  (\<open>Firestore/core/src/immutable/llrb_node.h\<close>): the reference-counted \<open>Rep\<close> with its colour bit and
  31-bit size, the rotations and colour flips, insertion and deletion; the tree invariant, and that
  insertion keeps it and inserts into the ordered list of entries. \<open>EmptyRep\<close> is the shared empty
  representation, whose children are itself; its entry is the value-initialised pair, which no
  operation on a well-formed tree reads. Every operation clones a node before it writes to it, so a
  node is a value here. The mutators are only reached on such a clone, never on \<open>EmptyRep\<close>.
\<close>
section \<open>Nodes (immutable/llrb_node.h)\<close>

datatype Color = Black | Red

datatype ('k, 'v) LlrbNode =
    EmptyRep
  | Rep (rep_entry: "'k \<times> 'v") (rep_color: Color) (rep_size: "31 word")
        (rep_left: "('k, 'v) LlrbNode") (rep_right: "('k, 'v) LlrbNode")

fun node_size :: "('k, 'v) LlrbNode \<Rightarrow> u32" where
  "node_size EmptyRep = 0"
| "node_size (Rep e c s l r) = ucast s"

definition node_empty :: "('k, 'v) LlrbNode \<Rightarrow> bool" where
  "node_empty t \<longleftrightarrow> node_size t = 0"

fun color :: "('k, 'v) LlrbNode \<Rightarrow> Color" where
  "color EmptyRep = Black"
| "color (Rep e c s l r) = c"

definition red :: "('k, 'v) LlrbNode \<Rightarrow> bool" where
  "red t \<longleftrightarrow> color t = Red"

fun entry :: "('k, 'v) LlrbNode \<Rightarrow> 'k \<times> 'v" where
  "entry EmptyRep = undefined"
| "entry (Rep e c s l r) = e"

abbreviation node_key :: "('k, 'v) LlrbNode \<Rightarrow> 'k" where
  "node_key t \<equiv> fst (entry t)"

fun left :: "('k, 'v) LlrbNode \<Rightarrow> ('k, 'v) LlrbNode" where
  "left EmptyRep = EmptyRep"
| "left (Rep e c s l r) = l"

fun right :: "('k, 'v) LlrbNode \<Rightarrow> ('k, 'v) LlrbNode" where
  "right EmptyRep = EmptyRep"
| "right (Rep e c s l r) = r"

definition new_rep :: "'k \<times> 'v \<Rightarrow> Color \<Rightarrow> ('k, 'v) LlrbNode \<Rightarrow> ('k, 'v) LlrbNode \<Rightarrow> ('k, 'v) LlrbNode" where
  "new_rep e c l r = Rep e c (ucast (node_size l + 1 + node_size r)) l r"

fun Clone :: "('k, 'v) LlrbNode \<Rightarrow> ('k, 'v) LlrbNode" where
  "Clone EmptyRep = Rep undefined Black 0 EmptyRep EmptyRep"
| "Clone (Rep e c s l r) = Rep e c s l r"

fun set_size :: "u32 \<Rightarrow> ('k, 'v) LlrbNode \<Rightarrow> ('k, 'v) LlrbNode" where
  "set_size n EmptyRep = EmptyRep"
| "set_size n (Rep e c s l r) = Rep e c (ucast n) l r"

fun set_entry :: "'k \<times> 'v \<Rightarrow> ('k, 'v) LlrbNode \<Rightarrow> ('k, 'v) LlrbNode" where
  "set_entry x EmptyRep = EmptyRep"
| "set_entry x (Rep e c s l r) = Rep x c s l r"

fun set_value :: "'v \<Rightarrow> ('k, 'v) LlrbNode \<Rightarrow> ('k, 'v) LlrbNode" where
  "set_value v EmptyRep = EmptyRep"
| "set_value v (Rep e c s l r) = Rep (fst e, v) c s l r"

fun set_color :: "Color \<Rightarrow> ('k, 'v) LlrbNode \<Rightarrow> ('k, 'v) LlrbNode" where
  "set_color x EmptyRep = EmptyRep"
| "set_color x (Rep e c s l r) = Rep e x s l r"

fun set_left :: "('k, 'v) LlrbNode \<Rightarrow> ('k, 'v) LlrbNode \<Rightarrow> ('k, 'v) LlrbNode" where
  "set_left x EmptyRep = EmptyRep"
| "set_left x (Rep e c s l r) = Rep e c s x r"

fun set_right :: "('k, 'v) LlrbNode \<Rightarrow> ('k, 'v) LlrbNode \<Rightarrow> ('k, 'v) LlrbNode" where
  "set_right x EmptyRep = EmptyRep"
| "set_right x (Rep e c s l r) = Rep e c s l x"

definition OppositeColor :: "('k, 'v) LlrbNode \<Rightarrow> Color" where
  "OppositeColor t = (if color t = Red then Black else Red)"

definition RotateLeft :: "('k, 'v) LlrbNode \<Rightarrow> ('k, 'v) LlrbNode" where
  "RotateLeft t =
     (let new_left = new_rep (entry t) Red (left t) (left (right t));
          t1 = set_entry (entry (right t)) t;
          t2 = set_left new_left t1
      in set_right (right (right t2)) t2)"

definition RotateRight :: "('k, 'v) LlrbNode \<Rightarrow> ('k, 'v) LlrbNode" where
  "RotateRight t =
     (let new_right = new_rep (entry t) Red (right (left t)) (right t);
          t1 = set_entry (entry (left t)) t;
          t2 = set_left (left (left t1)) t1
      in set_right new_right t2)"

definition FlipColor :: "('k, 'v) LlrbNode \<Rightarrow> ('k, 'v) LlrbNode" where
  "FlipColor t =
     (let new_left = set_color (OppositeColor (left t)) (Clone (left t));
          new_right = set_color (OppositeColor (right t)) (Clone (right t));
          t1 = set_color (OppositeColor t) t
      in set_right new_right (set_left new_left t1))"

definition FixUp :: "('k, 'v) LlrbNode \<Rightarrow> ('k, 'v) LlrbNode" where
  "FixUp t =
     (let t = set_size (node_size (left t) + 1 + node_size (right t)) t;
          t = (if red (right t) \<and> \<not> red (left t) then RotateLeft t else t);
          t = (if red (left t) \<and> red (left (left t)) then RotateRight t else t)
      in if red (left t) \<and> red (right t) then FlipColor t else t)"

definition FixRootColor :: "('k, 'v) LlrbNode \<Rightarrow> ('k, 'v) LlrbNode" where
  "FixRootColor t = (if red t then set_color Black t else t)"

definition MoveRedLeft :: "('k, 'v) LlrbNode \<Rightarrow> ('k, 'v) LlrbNode" where
  "MoveRedLeft t =
     (let t = FlipColor t
      in if red (left (right t)) then
           (let new_right = RotateRight (Clone (right t))
            in FlipColor (RotateLeft (set_right new_right t)))
         else t)"

definition MoveRedRight :: "('k, 'v) LlrbNode \<Rightarrow> ('k, 'v) LlrbNode" where
  "MoveRedRight t =
     (let t = FlipColor t
      in if red (left (left t)) then FlipColor (RotateRight t) else t)"

fun min_node :: "('k, 'v) LlrbNode \<Rightarrow> ('k, 'v) LlrbNode" where
  "min_node EmptyRep = EmptyRep"
| "min_node (Rep e c s l r) = (if node_empty l then Rep e c s l r else min_node l)"

fun max_node :: "('k, 'v) LlrbNode \<Rightarrow> ('k, 'v) LlrbNode" where
  "max_node EmptyRep = EmptyRep"
| "max_node (Rep e c s l r) = (if node_empty r then Rep e c s l r else max_node r)"

fun InnerInsert :: "('k \<Rightarrow> 'k \<Rightarrow> ComparisonResult) \<Rightarrow> 'k \<Rightarrow> 'v \<Rightarrow> ('k, 'v) LlrbNode \<Rightarrow> ('k, 'v) LlrbNode" where
  "InnerInsert compare k v EmptyRep = new_rep (k, v) Red EmptyRep EmptyRep"
| "InnerInsert compare k v (Rep e c s l r) =
     (if node_empty (Rep e c s l r) then new_rep (k, v) Red EmptyRep EmptyRep
      else
        let result = Clone (Rep e c s l r)
        in case compare (fst e) k of
             Descending \<Rightarrow> FixUp (set_left (InnerInsert compare k v l) result)
           | Ascending \<Rightarrow> FixUp (set_right (InnerInsert compare k v r) result)
           | Same \<Rightarrow> set_value v result)"

definition node_insert :: "('k \<Rightarrow> 'k \<Rightarrow> ComparisonResult) \<Rightarrow> 'k \<Rightarrow> 'v \<Rightarrow> ('k, 'v) LlrbNode \<Rightarrow> ('k, 'v) LlrbNode" where
  "node_insert compare k v t = FixRootColor (InnerInsert compare k v t)"

section \<open>Termination of the deletions\<close>

fun reps :: "('k, 'v) LlrbNode \<Rightarrow> nat" where
  "reps EmptyRep = 0"
| "reps (Rep e c s l r) = Suc (reps l + reps r)"

lemma unat_size: "unat (ucast (s :: 31 word) :: u32) = unat s"
  by (simp add: unsigned_ucast_eq take_bit_nat_eq_self order_less_le_trans [OF unsigned_less])

lemma node_empty_simps [simp]:
  "node_empty EmptyRep" "node_empty (Rep e c s l r) \<longleftrightarrow> s = 0"
  by (simp_all add: node_empty_def unat_eq_0 [symmetric] unat_size del: unat_eq_0)

lemma red_simps [simp]: "\<not> red EmptyRep" "red (Rep e c s l r) \<longleftrightarrow> c = Red"
  by (simp_all add: red_def)

lemma red_Rep: "red t \<Longrightarrow> \<exists>e s l r. t = Rep e Red s l r"
  by (cases t) auto

lemma not_empty_Rep: "\<not> node_empty t \<Longrightarrow> \<exists>e c s l r. t = Rep e c s l r \<and> s \<noteq> 0"
  by (cases t) auto

lemma color_neq [simp]: "c \<noteq> Black \<longleftrightarrow> c = Red" "c \<noteq> Red \<longleftrightarrow> c = Black"
  by (cases c; simp)+

lemmas rotate_defs = RotateLeft_def RotateRight_def FlipColor_def new_rep_def Let_def

lemma reps_MoveRedLeft:
  assumes "\<not> node_empty (left t)"
  shows "reps (left (MoveRedLeft t)) < reps t"
proof -
  obtain e c s l r where t: "t = Rep e c s l r" and l: "\<not> node_empty l"
    using assms by (cases t) auto
  obtain le lc ls ll lr where l': "l = Rep le lc ls ll lr"
    using not_empty_Rep [OF l] by blast
  show ?thesis
  proof (cases "\<exists>re rc rs rl rr. r = Rep re rc rs rl rr \<and> red rl")
    case True
    then show ?thesis
      by (auto simp: t l' MoveRedLeft_def rotate_defs dest!: red_Rep)
  next
    case False
    then show ?thesis
      by (cases r) (auto simp: t l' MoveRedLeft_def rotate_defs)
  qed
qed

lemma reps_MoveRedRight:
  assumes "\<not> node_empty (right t)"
  shows "reps (right (MoveRedRight t)) < reps t"
proof -
  obtain e c s l r where t: "t = Rep e c s l r" and r: "\<not> node_empty r"
    using assms by (cases t) auto
  obtain re rc rs rl rr where r': "r = Rep re rc rs rl rr"
    using not_empty_Rep [OF r] by blast
  show ?thesis
  proof (cases "\<exists>le lc ls ll lr. l = Rep le lc ls ll lr \<and> red ll")
    case True
    then show ?thesis
      by (auto simp: t r' MoveRedRight_def rotate_defs dest!: red_Rep)
  next
    case False
    then show ?thesis
      by (cases l) (auto simp: t r' MoveRedRight_def rotate_defs)
  qed
qed

lemma reps_RotateRight: "red (left t) \<Longrightarrow> reps (right (RotateRight t)) < reps t"
  by (cases t) (auto simp: rotate_defs dest!: red_Rep)

lemma reps_left: "\<not> node_empty t \<Longrightarrow> reps (left t) < reps t"
  by (cases t) auto

lemma reps_right: "\<not> node_empty t \<Longrightarrow> reps (right t) < reps t"
  by (cases t) auto

lemma Clone_id [simp]: "t \<noteq> EmptyRep \<Longrightarrow> Clone t = t"
  by (cases t) auto

function RemoveMin :: "('k, 'v) LlrbNode \<Rightarrow> ('k, 'v) LlrbNode" where
  "RemoveMin t =
     (if node_empty (left t) then EmptyRep
      else
        let t' = (if \<not> red (left t) \<and> \<not> red (left (left t)) then MoveRedLeft t else t);
            new_left = RemoveMin (Clone (left t'))
        in FixUp (set_left new_left t'))"
  by pat_completeness auto

definition erase_left :: "('k, 'v) LlrbNode \<Rightarrow> ('k, 'v) LlrbNode" where
  "erase_left n =
     (if \<not> node_empty (left n) \<and> \<not> red (left n) \<and> \<not> red (left (left n)) then MoveRedLeft n else n)"

definition erase_right :: "('k, 'v) LlrbNode \<Rightarrow> ('k, 'v) LlrbNode" where
  "erase_right n =
     (let n = (if red (left n) then RotateRight n else n)
      in if \<not> node_empty (right n) \<and> \<not> red (right n) \<and> \<not> red (left (right n)) then MoveRedRight n
         else n)"

lemma reps_Clone: "\<not> node_empty t \<Longrightarrow> Clone t = t"
  by (auto dest: not_empty_Rep)

lemma left_MoveRedLeft_Rep: "\<not> node_empty (left t) \<Longrightarrow> left (MoveRedLeft t) \<noteq> EmptyRep"
  by (cases t) (auto simp: MoveRedLeft_def rotate_defs dest!: not_empty_Rep)

termination RemoveMin
proof (relation "measure reps", goal_cases)
  case (2 t t')
  show ?case
  proof (cases "t' = MoveRedLeft t")
    case True
    with 2 show ?thesis
      by (simp add: reps_MoveRedLeft left_MoveRedLeft_Rep)
  next
    case False
    with 2 have "t' = t" by presburger
    moreover obtain e c s l r where "t = Rep e c s l r" "\<not> node_empty l"
      using 2 by (cases t) auto
    ultimately show ?thesis by (auto dest!: not_empty_Rep)
  qed
qed simp

lemma reps_erase_left:
  assumes "\<not> node_empty t"
  shows "reps (left (erase_left t)) < reps t"
  using assms reps_MoveRedLeft [of t] reps_left [of t] by (auto simp: erase_left_def)

lemma reps_erase_right:
  assumes "\<not> node_empty t"
  shows "reps (right (erase_right t)) < reps t"
proof (cases "red (left t)")
  case True
  then have "red (right (RotateRight t))"
    by (cases t) (auto simp: rotate_defs)
  with True show ?thesis
    by (simp add: erase_right_def reps_RotateRight)
next
  case False
  with assms reps_MoveRedRight [of t] reps_right [of t] show ?thesis
    by (auto simp: erase_right_def Let_def)
qed

function InnerErase :: "('k \<Rightarrow> 'k \<Rightarrow> ComparisonResult) \<Rightarrow> 'k \<Rightarrow> ('k, 'v) LlrbNode \<Rightarrow> ('k, 'v) LlrbNode" where
  "InnerErase compare k t =
     (if node_empty t then EmptyRep
      else if compare k (node_key t) = Ascending then
        let n = erase_left t
        in FixUp (set_left (InnerErase compare k (left n)) n)
      else
        let n = erase_right t
        in if compare k (node_key n) = Same then
             if node_empty (right n) then EmptyRep
             else
               let smallest = min_node (right n);
                   new_right = RemoveMin (Clone (right n))
               in FixUp (set_right new_right (set_entry (entry smallest) n))
           else FixUp (set_right (InnerErase compare k (right n)) n))"
  by pat_completeness auto

termination InnerErase
  by (relation "measure (\<lambda>(_, _, t). reps t)") (auto simp: reps_erase_left reps_erase_right)

declare RemoveMin.simps [simp del] InnerErase.simps [simp del]

definition node_erase :: "('k \<Rightarrow> 'k \<Rightarrow> ComparisonResult) \<Rightarrow> 'k \<Rightarrow> ('k, 'v) LlrbNode \<Rightarrow> ('k, 'v) LlrbNode" where
  "node_erase compare k t = FixRootColor (InnerErase compare k t)"

section \<open>The invariant of a tree\<close>

fun entries :: "('k, 'v) LlrbNode \<Rightarrow> ('k \<times> 'v) list" where
  "entries EmptyRep = []"
| "entries (Rep e c s l r) = entries l @ e # entries r"

definition weight :: "('k, 'v) LlrbNode \<Rightarrow> 31 word" where
  "weight t = of_nat (length (entries t))"

fun sized :: "('k, 'v) LlrbNode \<Rightarrow> bool" where
  "sized EmptyRep \<longleftrightarrow> True"
| "sized (Rep e c s l r) \<longleftrightarrow> s = weight l + 1 + weight r \<and> sized l \<and> sized r"

fun black_height :: "('k, 'v) LlrbNode \<Rightarrow> nat" where
  "black_height EmptyRep = 0"
| "black_height (Rep e c s l r) = (if c = Black then Suc (black_height l) else black_height l)"

fun balanced :: "('k, 'v) LlrbNode \<Rightarrow> bool" where
  "balanced EmptyRep \<longleftrightarrow> True"
| "balanced (Rep e c s l r) \<longleftrightarrow> balanced l \<and> balanced r \<and> black_height l = black_height r \<and>
     \<not> red r \<and> (c = Red \<longrightarrow> \<not> red l)"

definition small :: "('k, 'v) LlrbNode \<Rightarrow> bool" where
  "small t \<longleftrightarrow> length (entries t) < 2 ^ 31"

definition valid :: "('k \<Rightarrow> 'k \<Rightarrow> ComparisonResult) \<Rightarrow> ('k, 'v) LlrbNode \<Rightarrow> bool" where
  "valid compare t \<longleftrightarrow> balanced t \<and> \<not> red t \<and> sized t \<and> small t \<and> ordered compare (entries t)"

lemma weight_simps [simp]: "weight EmptyRep = 0" "weight (Rep e c s l r) = weight l + 1 + weight r"
  by (simp_all add: weight_def)

lemma node_size_sized: "sized t \<Longrightarrow> node_size t = ucast (weight t)"
  by (cases t) auto

lemma unat_weight: "small t \<Longrightarrow> unat (weight t) = length (entries t)"
  by (simp add: weight_def small_def unat_of_nat)

lemma node_size_small: "sized t \<Longrightarrow> small t \<Longrightarrow> unat (node_size t) = length (entries t)"
  by (simp add: node_size_sized unat_size unat_weight)

lemma node_empty_sized: "sized t \<Longrightarrow> small t \<Longrightarrow> node_empty t \<longleftrightarrow> t = EmptyRep"
  using node_size_small [of t] by (cases t) (auto simp: node_empty_def simp del: node_empty_simps)

lemma small_Rep [simp]: "small (Rep e c s l r) \<longleftrightarrow> length (entries l) + length (entries r) + 1 < 2 ^ 31"
  by (simp add: small_def add.commute)

lemma small_parts: "small (Rep e c s l r) \<Longrightarrow> small l" "small (Rep e c s l r) \<Longrightarrow> small r"
  by (simp_all add: small_def)

lemma ucast_of_nat_size: "ucast (of_nat n :: u32) = (of_nat n :: 31 word)"
  by (simp add: unsigned_of_nat word_of_nat_eq_iff)

lemma ucast_sum: "ucast (ucast (a :: 31 word) + 1 + ucast (b :: 31 word) :: u32) = a + 1 + b"
  using ucast_of_nat_size [of "unat a + 1 + unat b"] by (simp add: ac_simps)

lemma new_rep_simps [simp]:
  "entries (new_rep e c l r) = entries l @ e # entries r"
  "weight (new_rep e c l r) = weight l + 1 + weight r"
  "sized (new_rep e c l r) \<longleftrightarrow> sized l \<and> sized r"
  "red (new_rep e c l r) \<longleftrightarrow> c = Red"
  "left (new_rep e c l r) = l"
  "right (new_rep e c l r) = r"
  "set_color x (new_rep e c l r) = new_rep e x l r"
  "Clone (new_rep e c l r) = new_rep e c l r"
  "color (new_rep e c l r) = c"
  "entry (new_rep e c l r) = e"
  "black_height (new_rep e c l r) = (if c = Black then Suc (black_height l) else black_height l)"
  "balanced (new_rep e c l r) \<longleftrightarrow> balanced l \<and> balanced r \<and> black_height l = black_height r \<and>
     \<not> red r \<and> (c = Red \<longrightarrow> \<not> red l)"
  by (auto simp: new_rep_def node_size_sized ucast_sum)

lemma rotate_simps [simp]:
  "RotateLeft (Rep e c s l (Rep re rc rs rl rr)) = Rep re c s (new_rep e Red l rl) rr"
  "RotateRight (Rep e c s (Rep le lc ls ll lr) r) = Rep le c s ll (new_rep e Red lr r)"
  "RotateRight (Rep e c s (new_rep le lc ll lr) r) = Rep le c s ll (new_rep e Red lr r)"
  by (simp_all add: RotateLeft_def RotateRight_def Let_def new_rep_def)

lemma flip_simps [simp]:
  "l \<noteq> EmptyRep \<Longrightarrow> r \<noteq> EmptyRep \<Longrightarrow> FlipColor (Rep e c s l r) =
     Rep e (OppositeColor (Rep e c s l r)) s
       (set_color (OppositeColor l) l) (set_color (OppositeColor r) r)"
  by (simp add: FlipColor_def Let_def)

lemma new_rep_not_empty [simp]: "new_rep e c l r \<noteq> EmptyRep" "EmptyRep \<noteq> new_rep e c l r"
  by (simp_all add: new_rep_def)

section \<open>Repairing a node\<close>

definition nearly_balanced :: "('k, 'v) LlrbNode \<Rightarrow> bool" where
  "nearly_balanced t \<longleftrightarrow> balanced (left t) \<and> balanced (right t) \<and>
     black_height (left t) = black_height (right t) \<and> \<not> red (right t)"

lemma balanced_nearly: "balanced t \<Longrightarrow> nearly_balanced t"
  by (cases t) (auto simp: nearly_balanced_def)

lemma nearly_balanced_black: "nearly_balanced t \<Longrightarrow> \<not> red t \<Longrightarrow> balanced t"
  by (cases t) (auto simp: nearly_balanced_def)

lemma nearly_balanced_black_left: "nearly_balanced t \<Longrightarrow> \<not> red (left t) \<Longrightarrow> balanced t"
  by (cases t) (auto simp: nearly_balanced_def)

lemma set_size_sized:
  "sized l \<Longrightarrow> sized r \<Longrightarrow>
     set_size (node_size l + 1 + node_size r) (Rep e c s l r) = Rep e c (weight l + 1 + weight r) l r"
  by (simp add: node_size_sized ucast_sum)

lemma red_not_empty: "red t \<Longrightarrow> t \<noteq> EmptyRep"
  by auto

lemma OppositeColor_simps [simp]:
  "OppositeColor (Rep e c s l r) = (if c = Red then Black else Red)"
  "OppositeColor (new_rep e c l r) = (if c = Red then Black else Red)"
  by (simp_all add: OppositeColor_def)

lemma FixUp_unfold:
  assumes "sized l" "sized r"
  shows "FixUp (Rep e c s l r) =
    (let t = Rep e c (weight l + 1 + weight r) l r;
         t = (if red r \<and> \<not> red l then RotateLeft t else t);
         t = (if red (left t) \<and> red (left (left t)) then RotateRight t else t)
     in if red (left t) \<and> red (right t) then FlipColor t else t)"
  using assms by (simp only: FixUp_def left.simps right.simps set_size_sized Let_def)

lemma FixUp_plain:
  assumes "sized l" "sized r" "\<not> red r" "\<not> red l \<or> \<not> red (left l)"
  shows "FixUp (Rep e c s l r) = Rep e c (weight l + 1 + weight r) l r"
  using assms by (auto simp: FixUp_unfold)

lemma FixUp_lean:
  assumes "sized l" "sized (Rep re Red rs rl rr)" "\<not> red l" "\<not> red rr"
  shows "FixUp (Rep e c s l (Rep re Red rs rl rr)) =
    Rep re c (weight l + 1 + weight (Rep re Red rs rl rr)) (new_rep e Red l rl) rr"
  using assms by (simp add: FixUp_unfold del: weight_simps)

lemma FixUp_double:
  assumes "sized (Rep le Red ls ll lr)" "sized r" "red ll"
  shows "FixUp (Rep e c s (Rep le Red ls ll lr) r) =
    Rep le (if c = Red then Black else Red) (weight (Rep le Red ls ll lr) + 1 + weight r)
      (set_color Black ll) (new_rep e Black lr r)"
  using assms by (auto simp: FixUp_unfold simp del: weight_simps dest!: red_Rep)

lemma FixUp_split:
  assumes "sized l" "sized r" "red l" "red r" "\<not> red (left l)"
  shows "FixUp (Rep e c s l r) =
    Rep e (if c = Red then Black else Red) (weight l + 1 + weight r) (set_color Black l) (set_color Black r)"
  using assms by (auto simp: FixUp_unfold simp del: weight_simps dest!: red_Rep)

lemma set_color_simps [simp]:
  "entries (set_color c t) = entries t" "weight (set_color c t) = weight t"
  "sized (set_color c t) \<longleftrightarrow> sized t" "left (set_color c t) = left t" "right (set_color c t) = right t"
  "set_color c t = EmptyRep \<longleftrightarrow> t = EmptyRep" "set_color c (set_color d t) = set_color c t"
  "nearly_balanced (set_color c t) \<longleftrightarrow> nearly_balanced t"
  "entry (set_color c t) = entry t" "node_empty (set_color c t) \<longleftrightarrow> node_empty t"
  "\<not> red (set_color Black t)"
  by (cases t; simp add: nearly_balanced_def weight_def)+

definition fixed_up :: "'k \<times> 'v \<Rightarrow> Color \<Rightarrow> ('k, 'v) LlrbNode \<Rightarrow> ('k, 'v) LlrbNode \<Rightarrow> ('k, 'v) LlrbNode \<Rightarrow> bool" where
  "fixed_up e c l r t \<longleftrightarrow> entries t = entries l @ e # entries r \<and> sized t
     \<and> black_height t = (if c = Black then Suc (black_height l) else black_height l)
     \<and> nearly_balanced t \<and> (c = Black \<or> \<not> red l \<and> \<not> red r \<longrightarrow> balanced t)
     \<and> (red t \<longleftrightarrow> c = Red \<or> red l \<and> (red r \<or> red (left l)))"

lemma FixUp_repairs:
  assumes sized: "sized l" "sized r" and bh: "black_height l = black_height r"
    and l: "nearly_balanced l" and r: "balanced r"
    and dis: "balanced l \<or> c = Black \<and> \<not> red r" and red: "c = Red \<Longrightarrow> \<not> (red l \<and> red r)"
  shows "fixed_up e c l r (FixUp (Rep e c s l r))"
proof (cases "red l \<and> red (left l)")
  case True
  then obtain le ls ll lr where l': "l = Rep le Red ls ll lr" "red ll"
    using red_Rep [of l] by auto
  with assms show ?thesis
    by (cases ll) (auto simp: FixUp_double fixed_up_def nearly_balanced_def ac_simps)
next
  case nred: False
  then have bl: "balanced l"
    using l nearly_balanced_black nearly_balanced_black_left by blast
  show ?thesis
  proof (cases "red r")
    case False
    then show ?thesis
      using nred assms bl by (auto simp: FixUp_plain fixed_up_def nearly_balanced_def)
  next
    case rred: True
    then obtain re rs rl rr where r': "r = Rep re Red rs rl rr"
      using red_Rep by blast
    show ?thesis
    proof (cases "red l")
      case False
      then show ?thesis
        using assms bl r' by (auto simp: FixUp_lean fixed_up_def nearly_balanced_def ac_simps)
    next
      case True
      then obtain le ls ll lr where l': "l = Rep le Red ls ll lr" "\<not> red ll"
        using nred red_Rep [of l] by auto
      then show ?thesis
        using assms bl r' by (cases c) (auto simp: FixUp_split fixed_up_def nearly_balanced_def)
    qed
  qed
qed

section \<open>Insertion\<close>

lemma small_left: "small (Rep e c s l r) \<Longrightarrow> small l"
  and small_right: "small (Rep e c s l r) \<Longrightarrow> small r"
  by (simp_all add: small_def)

lemma size_nonzero:
  assumes "sized (Rep e c s l r)" "small (Rep e c s l r)"
  shows "s \<noteq> 0"
  using node_empty_sized [OF assms] by simp

context key_order
begin

lemma InnerInsert_spec:
  "balanced t \<Longrightarrow> sized t \<Longrightarrow> small t \<Longrightarrow> ordered compare (entries t) \<Longrightarrow>
     entries (InnerInsert compare k v t) = list_insert compare k v (entries t)
     \<and> sized (InnerInsert compare k v t)
     \<and> black_height (InnerInsert compare k v t) = black_height t
     \<and> nearly_balanced (InnerInsert compare k v t)
     \<and> (\<not> red t \<longrightarrow> balanced (InnerInsert compare k v t))"
proof (induction t)
  case EmptyRep
  then show ?case by (simp add: nearly_balanced_def)
next
  case (Rep e c s l r)
  have s: "s \<noteq> 0" using size_nonzero Rep.prems by blast
  have parts: "balanced l" "balanced r" "sized l" "sized r" "small l" "small r"
    "ordered compare (entries l)" "ordered compare (entries r)"
    using Rep.prems small_left [OF Rep.prems(3)] small_right [OF Rep.prems(3)]
    by (auto simp: ordered_simps)
  note IHl = Rep.IH(1) [OF parts(1,3,5,7)] and IHr = Rep.IH(2) [OF parts(2,4,6,8)]
  show ?case
  proof (cases "compare (fst e) k")
    case Same
    with s Rep.prems show ?thesis
      by (auto simp: same list_insert_same nearly_balanced_def weight_def)
  next
    case Descending
    have "balanced (InnerInsert compare k v l) \<or> c = Black \<and> \<not> red r"
      using IHl Rep.prems by (cases c) auto
    then have "fixed_up e c (InnerInsert compare k v l) r (FixUp (Rep e c s (InnerInsert compare k v l) r))"
      using IHl parts Rep.prems by (intro FixUp_repairs) auto
    moreover have "InnerInsert compare k v (Rep e c s l r) = FixUp (Rep e c s (InnerInsert compare k v l) r)"
      using Descending s by simp
    moreover have "list_insert compare k v (entries (Rep e c s l r)) = entries (InnerInsert compare k v l) @ e # entries r"
      using Descending IHl Rep.prems by (simp add: list_insert_left descending)
    ultimately show ?thesis
      using IHl Rep.prems by (cases c) (auto simp: fixed_up_def simp del: InnerInsert.simps)
  next
    case Ascending
    have "balanced (InnerInsert compare k v r)"
      using IHr Rep.prems by auto
    then have "fixed_up e c l (InnerInsert compare k v r) (FixUp (Rep e c s l (InnerInsert compare k v r)))"
      using IHr parts Rep.prems by (intro FixUp_repairs) (auto intro: balanced_nearly)
    moreover have "InnerInsert compare k v (Rep e c s l r) = FixUp (Rep e c s l (InnerInsert compare k v r))"
      using Ascending s by simp
    moreover have "list_insert compare k v (entries (Rep e c s l r)) = entries l @ e # entries (InnerInsert compare k v r)"
      using Ascending IHr Rep.prems by (simp add: list_insert_right descending)
    ultimately show ?thesis
      using IHr Rep.prems by (cases c) (auto simp: fixed_up_def simp del: InnerInsert.simps)
  qed
qed

lemma FixRootColor_simp: "FixRootColor t = set_color Black t"
  by (cases t) (auto simp: FixRootColor_def)

lemma nearly_balanced_painted: "nearly_balanced t \<Longrightarrow> balanced (set_color Black t)"
  by (cases t) (auto simp: nearly_balanced_def)

lemma length_list_insert: "length (list_insert compare k v xs) \<le> Suc (length xs)"
  by (induction xs) (auto split: ComparisonResult.split)

lemma node_insert_spec:
  assumes "valid compare t" "length (entries t) < 2 ^ 31 - 1"
  shows "valid compare (node_insert compare k v t)"
    and "entries (node_insert compare k v t) = list_insert compare k v (entries t)"
proof -
  show "valid compare (node_insert compare k v t)"
    using assms InnerInsert_spec [of t k v] length_list_insert [of k v "entries t"]
    by (auto simp: valid_def node_insert_def FixRootColor_simp nearly_balanced_painted
        ordered_list_insert small_def)
  show "entries (node_insert compare k v t) = list_insert compare k v (entries t)"
    using assms InnerInsert_spec [of t k v] by (auto simp: valid_def node_insert_def FixRootColor_simp)
qed

end

end
