(* ===== verification/LlrbErase.thy ===== *)
theory LlrbErase
  imports Llrb
begin

text \<open>
  Deletion from the left-leaning red-black tree (\<open>LlrbNode::erase\<close>, \<open>RemoveMin\<close>): it keeps the tree
  invariant and removes the key from the ordered list of entries. On its way down the code keeps a
  red link at hand; after \<open>MoveRedRight\<close> the child it enters may for a moment lean to the right.
\<close>

section \<open>Deletion\<close>

lemma FixUp_balanced:
  assumes "sized l" "sized r" "black_height l = black_height r" "balanced l" "balanced r"
    and "c = Red \<Longrightarrow> \<not> red l \<and> \<not> red r"
  shows "balanced (FixUp (Rep e c s l r)) \<and> sized (FixUp (Rep e c s l r))
     \<and> entries (FixUp (Rep e c s l r)) = entries l @ e # entries r
     \<and> black_height (FixUp (Rep e c s l r)) = (if c = Black then Suc (black_height l) else black_height l)
     \<and> (red (FixUp (Rep e c s l r)) \<longrightarrow> c = Red \<or> red l \<and> red r)"
proof -
  have "fixed_up e c l r (FixUp (Rep e c s l r))"
    using assms by (intro FixUp_repairs) (auto intro: balanced_nearly)
  moreover have "\<not> (red l \<and> red (left l))"
    using assms(4) by (cases l) auto
  ultimately show ?thesis
    using assms by (cases c) (auto simp: fixed_up_def)
qed

lemma balanced_leaf: "balanced t \<Longrightarrow> black_height t = 0 \<Longrightarrow> \<not> red t \<Longrightarrow> t = EmptyRep"
  by (cases t) (auto split: if_splits)

lemma black_Rep:
  assumes "balanced t" "black_height t \<noteq> 0" "\<not> red t"
  shows "\<exists>e s l r. t = Rep e Black s l r \<and> balanced l \<and> balanced r \<and> black_height l = black_height r
     \<and> black_height t = Suc (black_height l) \<and> \<not> red r"
  using assms by (cases t) auto

definition split_left :: "('k, 'v) LlrbNode \<Rightarrow> 'k \<times> 'v \<Rightarrow> Color \<Rightarrow> ('k, 'v) LlrbNode \<Rightarrow> ('k, 'v) LlrbNode \<Rightarrow> bool" where
  "split_left t e c l r \<longleftrightarrow> entries l @ e # entries r = entries t
     \<and> balanced l \<and> balanced r \<and> black_height l = black_height r \<and> sized l \<and> sized r
     \<and> (if c = Black then Suc (black_height l) else black_height l) = black_height t
     \<and> (l = EmptyRep \<longleftrightarrow> left t = EmptyRep) \<and> (l = EmptyRep \<or> red l \<or> red (left l))
     \<and> (c = Red \<longrightarrow> \<not> red l \<and> \<not> red r) \<and> (\<not> red t \<longrightarrow> c = Black \<and> \<not> red r)
     \<and> (e = entry t \<or> entry t \<in> set (entries l))"

lemma erase_left_spec:
  assumes "balanced t" "sized t" "small t" "t \<noteq> EmptyRep" "red t \<or> red (left t)"
  shows "\<exists>e c s l r. erase_left t = Rep e c s l r \<and> split_left t e c l r"
proof -
  obtain e c s l r where t: "t = Rep e c s l r"
    using assms by (cases t) auto
  have small: "small l" using assms t small_left by blast
  show ?thesis
  proof (cases "l \<noteq> EmptyRep \<and> \<not> red l \<and> \<not> red (left l)")
    case False
    then have "erase_left t = t"
      using assms t small by (auto simp: erase_left_def node_empty_sized)
    with False assms t show ?thesis by (auto simp: split_left_def)
  next
    case True
    then have c: "c = Red" using assms t by auto
    obtain le ls ll lr where l: "l = Rep le Black ls ll lr"
      using True by (cases l) auto
    then obtain re rs rl rr where r: "r = Rep re Black rs rl rr" "balanced rl" "balanced rr"
      "black_height rl = black_height rr" "\<not> red rr" "sized rl" "sized rr"
      using black_Rep [of r] assms t c by auto
    have "erase_left t = MoveRedLeft t"
      using True assms t small by (simp add: erase_left_def node_empty_sized)
    moreover have "MoveRedLeft t = (case rl of
        Rep me Red ms ml mr \<Rightarrow>
          Rep me Red s (new_rep e Black (Rep le Red ls ll lr) ml) (new_rep re Black mr rr)
      | _ \<Rightarrow> Rep e Black s (Rep le Red ls ll lr) (Rep re Red rs rl rr))"
      by (auto simp: t c l r MoveRedLeft_def Let_def split: LlrbNode.split Color.split)
    ultimately show ?thesis
      using assms True t c l r by (cases e) (auto simp: split_left_def split: LlrbNode.split Color.split)
  qed
qed

lemma RemoveMin_unfold:
  assumes "sized t" "small t" "balanced t" "red t \<or> red (left t)"
  shows "RemoveMin t =
    (if left t = EmptyRep then EmptyRep
     else FixUp (set_left (RemoveMin (left (erase_left t))) (erase_left t)))"
proof -
  have "sized (left t)" "small (left t)"
    using assms(1,2) by (cases t; simp add: small_def)+
  then have "node_empty (left t) \<longleftrightarrow> left t = EmptyRep"
    by (rule node_empty_sized)
  moreover have "left t \<noteq> EmptyRep \<Longrightarrow> Clone (left (erase_left t)) = left (erase_left t)"
    using left_MoveRedLeft_Rep [of t] calculation by (auto simp: erase_left_def)
  ultimately show ?thesis
    by (subst RemoveMin.simps) (auto simp: erase_left_def Let_def)
qed

lemma min_node_first:
  "sized t \<Longrightarrow> small t \<Longrightarrow> t \<noteq> EmptyRep \<Longrightarrow> entry (min_node t) = hd (entries t)"
proof (induction t)
  case (Rep e c s l r)
  then show ?case
    using small_left [OF Rep.prems(2)] by (cases "entries l") (auto simp: node_empty_sized, cases l, auto)
qed simp

lemma RemoveMin_spec:
  assumes "balanced t" "sized t" "small t" "t \<noteq> EmptyRep" "red t \<or> red (left t)"
  shows "balanced (RemoveMin t) \<and> sized (RemoveMin t) \<and> black_height (RemoveMin t) = black_height t
     \<and> entries (RemoveMin t) = tl (entries t) \<and> (\<not> red t \<longrightarrow> \<not> red (RemoveMin t))"
  using assms
proof (induction t rule: measure_induct_rule [of reps])
  case (less t)
  show ?case
  proof (cases "left t = EmptyRep")
    case True
    then obtain e s r where "t = Rep e Red s EmptyRep r"
      using less.prems by (cases t) auto
    with less.prems balanced_leaf [of r] show ?thesis
      by (simp add: RemoveMin_unfold)
  next
    case False
    obtain e c s l r where n: "erase_left t = Rep e c s l r" and sl: "split_left t e c l r"
      using erase_left_spec [OF less.prems] by blast
    have ents: "entries l @ e # entries r = entries t" and l: "l \<noteq> EmptyRep"
      using sl False by (simp_all add: split_left_def)
    have "small l" using less.prems(3) arg_cong [OF ents, of length] by (simp add: small_def)
    moreover have "reps l < reps t"
      using reps_erase_left [of t] n less.prems(2-4) by (simp add: node_empty_sized)
    ultimately have IH: "balanced (RemoveMin l) \<and> sized (RemoveMin l) \<and> black_height (RemoveMin l) = black_height l
     \<and> entries (RemoveMin l) = tl (entries l) \<and> (\<not> red l \<longrightarrow> \<not> red (RemoveMin l))"
      using less.IH sl l by (auto simp: split_left_def)
    have "entries l \<noteq> []" using l by (cases l) auto
    moreover have "RemoveMin t = FixUp (Rep e c s (RemoveMin l) r)"
      using less.prems False n by (simp add: RemoveMin_unfold)
    ultimately show ?thesis
      using FixUp_balanced [of "RemoveMin l" r c e s] IH sl
      by (auto simp: split_left_def ents [symmetric])
  qed
qed

definition removable :: "('k, 'v) LlrbNode \<Rightarrow> bool" where
  "removable t \<longleftrightarrow> balanced t \<and> (red t \<or> red (left t))"

definition right_leaning :: "('k, 'v) LlrbNode \<Rightarrow> bool" where
  "right_leaning t \<longleftrightarrow> balanced (left t) \<and> balanced (right t) \<and> black_height (left t) = black_height (right t)
     \<and> \<not> red t \<and> \<not> red (left t) \<and> red (right t)"

definition split_right :: "('k, 'v) LlrbNode \<Rightarrow> 'k \<times> 'v \<Rightarrow> Color \<Rightarrow> ('k, 'v) LlrbNode \<Rightarrow> ('k, 'v) LlrbNode \<Rightarrow> bool" where
  "split_right t e c l r \<longleftrightarrow> entries l @ e # entries r = entries t
     \<and> balanced l \<and> black_height l = black_height r \<and> sized l \<and> sized r
     \<and> (if c = Black then Suc (black_height l) else black_height l) = black_height t
     \<and> (r = EmptyRep \<longrightarrow> l = EmptyRep \<and> red t \<and> c = Red)
     \<and> (r \<noteq> EmptyRep \<longrightarrow> removable r \<or> right_leaning r \<and> entry r = entry t)
     \<and> (c = Red \<longrightarrow> \<not> red l \<and> \<not> red r) \<and> (\<not> red t \<longrightarrow> c = Black \<and> \<not> red l)
     \<and> (e = entry t \<or> entry t \<in> set (entries r))"

lemma erase_right_rotates:
  assumes "balanced t" "sized t" "red (left t)"
  shows "\<exists>e c s l r. erase_right t = Rep e c s l r \<and> split_right t e c l r"
proof -
  obtain e s le ls ll lr r where t: "t = Rep e Black s (Rep le Red ls ll lr) r"
    using assms by (cases t) (auto dest!: red_Rep)
  have "erase_right t = Rep le Black s ll (new_rep e Red lr r)"
    by (simp add: t erase_right_def Let_def)
  then show ?thesis
    using assms by (cases le) (auto simp: t split_right_def removable_def)
qed

lemma erase_right_moves:
  assumes "balanced t" "sized t" "small t" "red t" "right t \<noteq> EmptyRep" "\<not> red (left (right t))"
  shows "\<exists>e c s l r. erase_right t = Rep e c s l r \<and> split_right t e c l r"
proof -
  obtain e s l r where t: "t = Rep e Red s l r"
    using assms red_Rep by blast
  obtain re rs rl rr where r: "r = Rep re Black rs rl rr"
    using assms t by (cases r) auto
  obtain le ls ll lr where l: "l = Rep le Black ls ll lr" "balanced ll" "balanced lr"
      "black_height ll = black_height lr" "\<not> red lr"
    using black_Rep [of l] assms t r by auto
  have "\<not> node_empty r"
    using assms t r small_right [of e Red s l r] node_empty_sized [of r] by auto
  then have "erase_right t = MoveRedRight t"
    using assms by (simp add: erase_right_def Let_def t r)
  moreover have "MoveRedRight t = (case ll of
        Rep me Red ms ml mr \<Rightarrow> Rep le Red s (Rep me Black ms ml mr) (new_rep e Black lr (Rep re Red rs rl rr))
      | _ \<Rightarrow> Rep e Black s (Rep le Red ls ll lr) (Rep re Red rs rl rr))"
    by (auto simp: t l r MoveRedRight_def Let_def split: LlrbNode.split Color.split)
  ultimately show ?thesis
    using assms t l r
    by (cases e; cases le) (auto simp: split_right_def removable_def right_leaning_def
        split: LlrbNode.split Color.split)
qed

lemma erase_right_stays:
  assumes "\<not> red (left t)" "node_empty (right t) \<or> red (right t) \<or> red (left (right t))"
  shows "erase_right t = t"
  using assms by (auto simp: erase_right_def Let_def)

lemma erase_right_spec:
  assumes "removable t \<or> right_leaning t" "sized t" "small t" "t \<noteq> EmptyRep"
  shows "\<exists>e c s l r. erase_right t = Rep e c s l r \<and> split_right t e c l r"
proof -
  obtain e c s l r where t: "t = Rep e c s l r"
    using assms by (cases t) auto
  have empty: "node_empty r \<longleftrightarrow> r = EmptyRep"
    using assms t small_right [of e c s l r] by (auto simp: node_empty_sized)
  have "right_leaning t \<or> balanced t \<and> red l \<or> balanced t \<and> red t \<and> \<not> red l"
    using assms(1) by (auto simp: t removable_def)
  then consider (leaning) "right_leaning t" | (rotate) "balanced t" "red l"
    | (leaf) "balanced t" "red t" "\<not> red l" "r = EmptyRep"
    | (stay) "balanced t" "red t" "\<not> red l" "r \<noteq> EmptyRep" "red (left r)"
    | (move) "balanced t" "red t" "r \<noteq> EmptyRep" "\<not> red (left r)"
    by blast
  then show ?thesis
  proof cases
    case leaning
    then have "erase_right t = t"
      by (intro erase_right_stays) (auto simp: right_leaning_def)
    with leaning assms show ?thesis
      by (cases c) (auto simp: t split_right_def right_leaning_def removable_def)
  next
    case rotate
    then show ?thesis using assms t by (intro erase_right_rotates) auto
  next
    case leaf
    then have "erase_right t = t"
      by (intro erase_right_stays) (auto simp: t)
    moreover have "l = EmptyRep"
      using leaf t by (auto intro: balanced_leaf)
    ultimately show ?thesis
      using leaf assms by (auto simp: t split_right_def)
  next
    case stay
    then have "erase_right t = t"
      by (intro erase_right_stays) (auto simp: t)
    with stay assms show ?thesis
      by (auto simp: t split_right_def removable_def)
  next
    case move
    then show ?thesis using assms t by (intro erase_right_moves) auto
  qed
qed

lemma entry_in_entries: "t \<noteq> EmptyRep \<Longrightarrow> entry t \<in> set (entries t)"
  by (cases t) auto

lemma removable_or_leaning_red: "removable t \<Longrightarrow> \<not> right_leaning t"
  by (cases t) (auto simp: removable_def right_leaning_def)

definition erased :: "'k \<Rightarrow> ('k, 'v) LlrbNode \<Rightarrow> ('k, 'v) LlrbNode \<Rightarrow> bool" where
  "erased k t t' \<longleftrightarrow> balanced t' \<and> sized t' \<and> black_height t' = black_height t
     \<and> entries t' = list_erase k (entries t) \<and> (\<not> red t \<longrightarrow> \<not> red t')"

context key_order
begin

lemma InnerErase_left:
  fixes t :: "('k, 'v) LlrbNode"
  assumes "removable t" "sized t" "small t" "t \<noteq> EmptyRep" "ordered compare (entries t)"
    and asc: "compare k (node_key t) = Ascending"
    and IH: "\<And>l :: ('k, 'v) LlrbNode. reps l < reps t \<Longrightarrow> l = EmptyRep \<or> removable l \<Longrightarrow> sized l \<Longrightarrow> small l \<Longrightarrow>
      ordered compare (entries l) \<Longrightarrow> erased k l (InnerErase compare k l)"
  shows "erased k t (InnerErase compare k t)"
proof -
  obtain e c s l r where n: "erase_left t = Rep e c s l r" and sl: "split_left t e c l r"
    using erase_left_spec [of t] assms by (auto simp: removable_def)
  have ents: "entries l @ e # entries r = entries t" using sl by (simp add: split_left_def)
  have ne: "\<not> node_empty t" using assms by (simp add: node_empty_sized)
  have ord: "ordered compare (entries l @ e # entries r)"
    using assms(5) ents by simp
  have "small l" using arg_cong [OF ents, of length] assms(3) by (simp add: small_def)
  moreover have "ordered compare (entries l)" using ord by (simp add: ordered_simps)
  ultimately have "erased k l (InnerErase compare k l)"
    using n sl reps_erase_left [OF ne]
    by (intro IH) (auto simp: split_left_def removable_def)
  moreover have "InnerErase compare k t = FixUp (Rep e c s (InnerErase compare k l) r)"
    using ne asc n by (subst InnerErase.simps) simp
  moreover have "compare k (fst e) = Ascending"
  proof (cases "entry t \<in> set (entries l)")
    case True
    then have "compare (node_key t) (fst e) = Ascending"
      using ord by (simp add: ordered_simps)
    with asc show ?thesis by (rule trans)
  next
    case False
    with sl asc show ?thesis by (simp add: split_left_def)
  qed
  then have "list_erase k (entries t) = list_erase k (entries l) @ e # entries r"
    using ord by (simp add: ents [symmetric] list_erase_left)
  ultimately show ?thesis
    using FixUp_balanced [of "InnerErase compare k l" r c e s] sl by (auto simp: erased_def split_left_def)
qed

lemma InnerErase_right:
  fixes t :: "('k, 'v) LlrbNode"
  assumes "removable t \<or> right_leaning t" "sized t" "small t" "t \<noteq> EmptyRep" "ordered compare (entries t)"
    and nasc: "compare k (node_key t) \<noteq> Ascending"
    and IH: "\<And>r :: ('k, 'v) LlrbNode. reps r < reps t \<Longrightarrow>
      r = EmptyRep \<or> removable r \<or> right_leaning r \<and> compare k (node_key r) \<noteq> Ascending \<Longrightarrow>
      sized r \<Longrightarrow> small r \<Longrightarrow> ordered compare (entries r) \<Longrightarrow> erased k r (InnerErase compare k r)"
  shows "erased k t (InnerErase compare k t)"
proof -
  obtain e c s l r where n: "erase_right t = Rep e c s l r" and sr: "split_right t e c l r"
    using erase_right_spec [of t] assms by auto
  have ents: "entries l @ e # entries r = entries t" using sr by (simp add: split_right_def)
  have ne: "\<not> node_empty t" using assms by (simp add: node_empty_sized)
  have ord: "ordered compare (entries l @ e # entries r)"
    using assms(5) ents by simp
  then have ord_r: "ordered compare (entries r)" by (simp add: ordered_simps)
  have small: "small r" using arg_cong [OF ents, of length] assms(3) by (simp add: small_def)
  have key: "e = entry t \<or> compare (fst e) k = Ascending"
  proof -
    have "compare (fst e) (node_key t) = Ascending" if "entry t \<in> set (entries r)"
      using ord that by (auto simp: ordered_simps)
    moreover have "compare (fst e) k = Ascending" if "compare (fst e) (node_key t) = Ascending"
      using nasc that trans by (cases "compare k (node_key t)") (auto simp: same descending)
    ultimately show ?thesis using sr by (auto simp: split_right_def)
  qed
  have empty: "node_empty r \<longleftrightarrow> r = EmptyRep"
    using sr small by (simp add: split_right_def node_empty_sized)
  show ?thesis
  proof (cases "compare k (fst e) = Same")
    case True
    then have list: "list_erase k (entries t) = entries l @ entries r"
      using ord by (simp add: ents [symmetric] list_erase_same)
    have e: "e = entry t"
      using key True by (auto simp: same)
    show ?thesis
    proof (cases "r = EmptyRep")
      case r: True
      then have "InnerErase compare k t = EmptyRep"
        using ne nasc n True by (subst InnerErase.simps) simp
      then show ?thesis
        using r sr list by (cases c) (auto simp: erased_def split_right_def)
    next
      case False
      have "\<not> compare (fst e) (node_key r) = Same"
        using ord entry_in_entries [OF False] by (auto simp: ordered_simps)
      then have "removable r"
        using sr False e by (auto simp: split_right_def)
      then have "balanced r" "red r \<or> red (left r)" by (auto simp: removable_def)
      note rm = RemoveMin_spec [OF this(1) _ small False this(2)]
      have "entry (min_node r) # tl (entries r) = entries r"
        using min_node_first [of r] sr small False by (cases r) (auto simp: split_right_def)
      moreover have "InnerErase compare k t = FixUp (Rep (entry (min_node r)) c s l (RemoveMin r))"
        using ne nasc n True False empty by (subst InnerErase.simps) simp
      ultimately show ?thesis
        using FixUp_balanced [of l "RemoveMin r" c "entry (min_node r)" s] sr rm list
        by (auto simp: erased_def split_right_def)
    qed
  next
    case False
    have "erased k r (InnerErase compare k r)"
      using n sr small ord_r nasc reps_erase_right [OF ne]
      by (intro IH) (auto simp: split_right_def)
    moreover have lt: "compare (fst e) k = Ascending"
      using key nasc False by (cases "compare k (fst e)") (auto simp: descending)
    moreover have "InnerErase compare k t = FixUp (Rep e c s l (InnerErase compare k r))"
      using ne nasc n False by (subst InnerErase.simps) simp
    moreover have "list_erase k (entries t) = entries l @ e # list_erase k (entries r)"
      using ord lt by (simp add: ents [symmetric] list_erase_right)
    ultimately show ?thesis
      using FixUp_balanced [of l "InnerErase compare k r" c e s] sr
      by (auto simp: erased_def split_right_def)
  qed
qed
lemma InnerErase_spec:
  "t = EmptyRep \<or> removable t \<or> right_leaning t \<and> compare k (node_key t) \<noteq> Ascending \<Longrightarrow>
     sized t \<Longrightarrow> small t \<Longrightarrow> ordered compare (entries t) \<Longrightarrow> erased k t (InnerErase compare k t)"
proof (induction t rule: measure_induct_rule [of reps])
  case (less t)
  show ?case
  proof (cases "t = EmptyRep")
    case True
    then show ?thesis by (simp add: InnerErase.simps erased_def list_erase_def)
  next
    case False
    show ?thesis
    proof (cases "compare k (node_key t) = Ascending")
      case True
      then have "removable t" using False less.prems by auto
      then show ?thesis
        using less.prems(2,3) False less.prems(4) True by (rule InnerErase_left) (rule less.IH, auto)
    next
      case nasc: False
      then have "removable t \<or> right_leaning t" using False less.prems by auto
      then show ?thesis
        using less.prems(2,3) False less.prems(4) nasc by (rule InnerErase_right) (rule less.IH, auto)
    qed
  qed
qed

end

text \<open>A deletion looks at the colour of the root only to flip it.\<close>

lemma set_parts_paint [simp]:
  "set_left x (set_color y t) = set_color y (set_left x t)"
  "set_right x (set_color y t) = set_color y (set_right x t)"
  "set_entry x' (set_color y t) = set_color y (set_entry x' t)"
  "set_size n (set_color y t) = set_color y (set_size n t)"
  by (cases t; simp)+

lemma rotate_paint:
  "RotateLeft (set_color y t) = set_color y (RotateLeft t)"
  "RotateRight (set_color y t) = set_color y (RotateRight t)"
  "FlipColor (set_color y t) = set_color (if y = Red then Black else Red) (FlipColor t)"
  by (cases t; simp add: RotateLeft_def RotateRight_def FlipColor_def Let_def OppositeColor_def)+

lemma if_paint:
  assumes "\<exists>z. a' = set_color z a" "\<exists>z. b' = set_color z b"
  shows "\<exists>z. (if P then a' else b') = set_color z (if P then a else b)"
  using assms by auto

lemma if_set_color: "(if P then set_color y a else set_color y b) = set_color y (if P then a else b)"
  by simp

lemma FixUp_paint: "\<exists>z. FixUp (set_color y t) = set_color z (FixUp t)"
  unfolding FixUp_def Let_def set_color_simps set_parts_paint rotate_paint if_set_color
  by (rule if_paint) blast+

lemma move_paint:
  "\<exists>z. MoveRedLeft (set_color y t) = set_color z (MoveRedLeft t)"
  "\<exists>z. MoveRedRight (set_color y t) = set_color z (MoveRedRight t)"
  unfolding MoveRedLeft_def MoveRedRight_def Let_def rotate_paint set_color_simps set_parts_paint
  by (rule if_paint; blast)+

lemma erase_steps_paint:
  "\<exists>z. erase_left (set_color y t) = set_color z (erase_left t)"
  "\<exists>z. erase_right (set_color y t) = set_color z (erase_right t)"
  unfolding erase_left_def erase_right_def Let_def rotate_paint set_color_simps if_set_color
  using move_paint by (auto intro!: if_paint)

lemma InnerErase_paint: "\<exists>z. InnerErase compare k (set_color y t) = set_color z (InnerErase compare k t)"
proof -
  obtain z1 z2 where "erase_left (set_color y t) = set_color z1 (erase_left t)"
    "erase_right (set_color y t) = set_color z2 (erase_right t)"
    using erase_steps_paint by blast
  then show ?thesis
    unfolding InnerErase.simps [of compare k "set_color y t"] InnerErase.simps [of compare k t] Let_def
    by (simp only: set_color_simps set_parts_paint) (intro if_paint FixUp_paint; simp)
qed

context key_order
begin

lemma node_erase_spec:
  assumes "valid compare t"
  shows "valid compare (node_erase compare k t)"
    and "entries (node_erase compare k t) = list_erase k (entries t)"
proof -
  define u where "u = (if red (left t) then t else set_color Red t)"
  have u: "balanced u" "sized u" "small u" "entries u = entries t" "u = EmptyRep \<or> red u \<or> red (left u)"
    using assms by (cases t; auto simp: u_def valid_def)+
  then have "erased k u (InnerErase compare k u)"
    using assms by (intro InnerErase_spec) (auto simp: removable_def valid_def)
  moreover have "set_color Black (InnerErase compare k u) = set_color Black (InnerErase compare k t)"
    using InnerErase_paint [of compare k Red t] by (auto simp: u_def)
  ultimately have res: "balanced (node_erase compare k t)" "sized (node_erase compare k t)"
      "entries (node_erase compare k t) = list_erase k (entries t)" "\<not> red (node_erase compare k t)"
    using u(4) unfolding node_erase_def FixRootColor_simp erased_def
    by (metis balanced_nearly nearly_balanced_painted, metis set_color_simps(3), metis set_color_simps(1), simp)
  have "length (list_erase k (entries t)) \<le> length (entries t)"
    by (simp add: list_erase_def)
  with res show "valid compare (node_erase compare k t)"
    using assms by (simp add: valid_def small_def ordered_list_erase)
  show "entries (node_erase compare k t) = list_erase k (entries t)" by (rule res)
qed

end

end
