(* ===== verification/TreeSearch.thy ===== *)
theory TreeSearch
  imports LlrbErase
begin

text \<open>
  Searching and iterating over Firestore's red-black trees: the look-ups of
  \<open>immutable/tree_sorted_map.h\<close> and the iterators of \<open>immutable/llrb_node_iterator.h\<close>, a stack of the
  nodes still to visit. \<open>remaining\<close> is what an iterator has still to visit; stepping removes its first
  entry, and the iterators that the look-ups return are suffixes of the entries of the tree.
\<close>

section \<open>Searching a tree (immutable/tree_sorted_map.h)\<close>

fun tree_contains :: "('k \<Rightarrow> 'k \<Rightarrow> ComparisonResult) \<Rightarrow> 'k \<Rightarrow> ('k, 'v) LlrbNode \<Rightarrow> bool" where
  "tree_contains compare k EmptyRep = False"
| "tree_contains compare k (Rep e c s l r) =
     (if node_empty (Rep e c s l r) then False
      else case compare k (fst e) of
             Same \<Rightarrow> True
           | Ascending \<Rightarrow> tree_contains compare k l
           | Descending \<Rightarrow> tree_contains compare k r)"

definition npos :: u32 where
  "npos = - 1"

fun tree_find_index :: "('k \<Rightarrow> 'k \<Rightarrow> ComparisonResult) \<Rightarrow> 'k \<Rightarrow> u32 \<Rightarrow> ('k, 'v) LlrbNode \<Rightarrow> u32" where
  "tree_find_index compare k pruned_nodes EmptyRep = npos"
| "tree_find_index compare k pruned_nodes (Rep e c s l r) =
     (if node_empty (Rep e c s l r) then npos
      else case compare k (fst e) of
             Same \<Rightarrow> pruned_nodes + node_size l
           | Ascending \<Rightarrow> tree_find_index compare k pruned_nodes l
           | Descending \<Rightarrow> tree_find_index compare k (pruned_nodes + (node_size l + 1)) r)"

section \<open>Tree iterators (immutable/llrb_node_iterator.h)\<close>

text \<open>An iterator is its stack of nodes, the top of the stack first.\<close>

type_synonym ('k, 'v) tree_iter = "('k, 'v) LlrbNode list"

fun AccumulateLeft :: "('k, 'v) LlrbNode \<Rightarrow> ('k, 'v) tree_iter \<Rightarrow> ('k, 'v) tree_iter" where
  "AccumulateLeft EmptyRep stack = stack"
| "AccumulateLeft (Rep e c s l r) stack =
     (if node_empty (Rep e c s l r) then stack else AccumulateLeft l (Rep e c s l r # stack))"

definition Begin :: "('k, 'v) LlrbNode \<Rightarrow> ('k, 'v) tree_iter" where
  "Begin root = AccumulateLeft root []"

fun LowerBound :: "('k \<Rightarrow> 'k \<Rightarrow> ComparisonResult) \<Rightarrow> 'k \<Rightarrow> ('k, 'v) LlrbNode \<Rightarrow> ('k, 'v) tree_iter \<Rightarrow> ('k, 'v) tree_iter" where
  "LowerBound compare k EmptyRep stack = stack"
| "LowerBound compare k (Rep e c s l r) stack =
     (if node_empty (Rep e c s l r) then stack
      else case compare k (fst e) of
             Same \<Rightarrow> Rep e c s l r # stack
           | Ascending \<Rightarrow> LowerBound compare k l (Rep e c s l r # stack)
           | Descending \<Rightarrow> LowerBound compare k r stack)"

definition is_end :: "('k, 'v) tree_iter \<Rightarrow> bool" where
  "is_end it \<longleftrightarrow> it = []"

definition tree_iter_get :: "('k, 'v) tree_iter \<Rightarrow> ('k \<times> 'v) option" where
  "tree_iter_get it = (case it of [] \<Rightarrow> None | node # _ \<Rightarrow> Some (entry node))"

definition tree_iter_next :: "('k, 'v) tree_iter \<Rightarrow> ('k, 'v) tree_iter option" where
  "tree_iter_next it =
     (case it of [] \<Rightarrow> None | node # stack \<Rightarrow> Some (AccumulateLeft (right node) stack))"

definition tree_iter_eq :: "('k, 'v) tree_iter \<Rightarrow> ('k, 'v) tree_iter \<Rightarrow> bool" where
  "tree_iter_eq a b =
     (if is_end a then is_end b else if is_end b then False
      else map_option fst (tree_iter_get a) = map_option fst (tree_iter_get b))"

definition tree_find :: "('k \<Rightarrow> 'k \<Rightarrow> ComparisonResult) \<Rightarrow> 'k \<Rightarrow> ('k, 'v) LlrbNode \<Rightarrow> ('k, 'v) tree_iter" where
  "tree_find compare k root =
     (let found = LowerBound compare k root []
      in case tree_iter_get found of
           None \<Rightarrow> []
         | Some x \<Rightarrow> if compare k (fst x) = Same then found else [])"

definition tree_max :: "('k, 'v) LlrbNode \<Rightarrow> ('k, 'v) tree_iter" where
  "tree_max root = (if node_empty root then [] else [max_node root])"

text \<open>What an iterator has still to visit, itself included.\<close>

fun remaining :: "('k, 'v) tree_iter \<Rightarrow> ('k \<times> 'v) list" where
  "remaining [] = []"
| "remaining (n # st) = entry n # entries (right n) @ remaining st"

definition iter_ok :: "('k, 'v) tree_iter \<Rightarrow> bool" where
  "iter_ok st \<longleftrightarrow> (\<forall>n\<in>set st. n \<noteq> EmptyRep \<and> sized n \<and> small n)"

definition from_key :: "('k \<Rightarrow> 'k \<Rightarrow> ComparisonResult) \<Rightarrow> 'k \<Rightarrow> ('k \<times> 'v) list \<Rightarrow> ('k \<times> 'v) list" where
  "from_key compare k xs = dropWhile (\<lambda>x. compare (fst x) k = Ascending) xs"

lemma node_empty_Rep: "sized (Rep e c s l r) \<Longrightarrow> small (Rep e c s l r) \<Longrightarrow> s \<noteq> 0"
  by (rule size_nonzero)

lemma sound_parts:
  assumes "sized (Rep e c s l r)" "small (Rep e c s l r)"
  shows "sized l" "small l" "sized r" "small r" "s \<noteq> 0"
  using assms small_left [OF assms(2)] small_right [OF assms(2)] size_nonzero [OF assms] by auto

lemma AccumulateLeft_remaining:
  "sized t \<Longrightarrow> small t \<Longrightarrow> iter_ok st \<Longrightarrow>
     remaining (AccumulateLeft t st) = entries t @ remaining st \<and> iter_ok (AccumulateLeft t st)"
proof (induction t arbitrary: st)
  case (Rep e c s l r)
  note parts = sound_parts [OF Rep.prems(1,2)]
  have "iter_ok (Rep e c s l r # st)"
    using Rep.prems by (simp add: iter_ok_def)
  then show ?case
    using Rep.IH(1) parts by simp
qed simp

lemma iter_next_spec:
  assumes "iter_ok st" "st \<noteq> []"
  shows "\<exists>st'. tree_iter_next st = Some st' \<and> iter_ok st' \<and> tree_iter_get st = Some (hd (remaining st))
     \<and> remaining st' = tl (remaining st)"
proof (cases st)
  case (Cons n st')
  then obtain e c s l r where n: "n = Rep e c s l r"
    using assms by (cases n) (auto simp: iter_ok_def)
  have "sized r" "small r" "iter_ok st'"
    using assms sound_parts(3,4) [of e c s l r] by (auto simp: Cons n iter_ok_def)
  then show ?thesis
    using AccumulateLeft_remaining [of r st'] by (simp add: Cons n tree_iter_next_def tree_iter_get_def)
qed (use assms in simp)

lemma remaining_Nil: "remaining st = [] \<longleftrightarrow> st = []"
  by (cases st) auto

context key_order
begin

lemma below_descending:
  assumes "ordered compare (xs @ a # ys)" "compare k (fst a) = Descending"
  shows "from_key compare k (xs @ a # ys) = from_key compare k ys"
proof -
  have "\<forall>x\<in>set (xs @ [a]). compare (fst x) k = Ascending"
    using assms by (auto simp: ordered_simps descending intro: trans)
  then have "dropWhile (\<lambda>x. compare (fst x) k = Ascending) ((xs @ [a]) @ ys)
    = dropWhile (\<lambda>x. compare (fst x) k = Ascending) ys"
    by (intro dropWhile_append2) auto
  then show ?thesis by (simp add: from_key_def)
qed

lemma from_key_ascending:
  assumes "ordered compare (xs @ a # ys)" "compare k (fst a) = Ascending"
  shows "from_key compare k (xs @ a # ys) = from_key compare k xs @ a # ys"
  using assms descending [of "fst a" k] by (induction xs) (auto simp: from_key_def ordered_simps)

lemma from_key_same:
  assumes "ordered compare (xs @ a # ys)" "compare k (fst a) = Same"
  shows "from_key compare k (xs @ a # ys) = a # ys"
  using assms by (induction xs) (auto simp: from_key_def ordered_simps same)

lemma LowerBound_remaining:
  "sized t \<Longrightarrow> small t \<Longrightarrow> ordered compare (entries t) \<Longrightarrow> iter_ok st \<Longrightarrow>
     remaining (LowerBound compare k t st) = from_key compare k (entries t) @ remaining st
     \<and> iter_ok (LowerBound compare k t st)"
proof (induction t arbitrary: st)
  case EmptyRep
  then show ?case by (simp add: from_key_def)
next
  case (Rep e c s l r)
  note parts = sound_parts [OF Rep.prems(1,2)]
  have ord: "ordered compare (entries l @ e # entries r)" using Rep.prems by simp
  then have ords: "ordered compare (entries l)" "ordered compare (entries r)"
    by (simp_all add: ordered_simps)
  have ok: "iter_ok (Rep e c s l r # st)"
    using Rep.prems by (simp add: iter_ok_def)
  show ?case
  proof (cases "compare k (fst e)")
    case Ascending
    then show ?thesis
      using Rep.IH(1) [OF parts(1,2) ords(1) ok] parts ord by (simp add: from_key_ascending)
  next
    case Same
    then show ?thesis using parts ord ok by (simp add: from_key_same)
  next
    case Descending
    then show ?thesis
      using Rep.IH(2) [OF parts(3,4) ords(2) Rep.prems(4)] parts ord by (simp add: below_descending)
  qed
qed

end

lemma max_node_last:
  "sized t \<Longrightarrow> small t \<Longrightarrow> t \<noteq> EmptyRep \<Longrightarrow>
     entry (max_node t) = last (entries t) \<and> max_node t \<noteq> EmptyRep \<and> right (max_node t) = EmptyRep"
proof (induction t)
  case (Rep e c s l r)
  note parts = sound_parts [OF Rep.prems(1,2)]
  show ?case
  proof (cases "r = EmptyRep")
    case False
    then have "entries r \<noteq> []" by (cases r) auto
    with False show ?thesis
      using Rep.IH(2) [OF parts(3,4) False] parts by (simp add: node_empty_sized)
  qed simp
qed simp

lemma tree_max_remaining:
  assumes "sized t" "small t"
  shows "remaining (tree_max t) = (if entries t = [] then [] else [last (entries t)])"
proof (cases "t = EmptyRep")
  case True
  then show ?thesis by (simp add: tree_max_def)
next
  case False
  then have "entries t \<noteq> []" by (cases t) auto
  with False assms max_node_last [of t] show ?thesis
    by (simp add: tree_max_def node_empty_sized)
qed

definition index_of :: "'k \<Rightarrow> ('k \<times> 'v) list \<Rightarrow> nat option" where
  "index_of k xs = (if k \<in> fst ` set xs then Some (length (takeWhile (\<lambda>x. fst x \<noteq> k) xs)) else None)"

lemma index_of_append:
  "index_of k (xs @ ys) =
     (case index_of k xs of Some i \<Rightarrow> Some i | None \<Rightarrow> map_option ((+) (length xs)) (index_of k ys))"
proof (cases "k \<in> fst ` set xs")
  case True
  then obtain x where "x \<in> set xs" "\<not> fst x \<noteq> k" by auto
  then show ?thesis using True by (simp add: index_of_def takeWhile_append1 image_Un)
next
  case False
  then have "\<And>x. x \<in> set xs \<Longrightarrow> fst x \<noteq> k" by auto
  then have "takeWhile (\<lambda>x. fst x \<noteq> k) (xs @ ys) = xs @ takeWhile (\<lambda>x. fst x \<noteq> k) ys"
    by (rule takeWhile_append2)
  then show ?thesis using False by (auto simp: index_of_def image_Un)
qed

lemma index_of_Cons: "index_of k (x # xs) = (if fst x = k then Some 0 else map_option Suc (index_of k xs))"
  by (auto simp: index_of_def)

lemma index_of_none: "index_of k xs = None \<longleftrightarrow> k \<notin> fst ` set xs"
  by (simp add: index_of_def)

context key_order
begin

lemma key_below:
  assumes "ordered compare (xs @ a # ys)" "compare k (fst a) = Descending"
  shows "k \<notin> fst ` set xs" "fst a \<noteq> k"
  using assms by (auto simp: ordered_simps descending dest: trans)

lemma key_above:
  assumes "ordered compare (xs @ a # ys)" "compare k (fst a) = Ascending"
  shows "k \<notin> fst ` set ys" "fst a \<noteq> k"
  using assms by (auto simp: ordered_simps dest: trans)

lemma tree_contains_spec:
  "sized t \<Longrightarrow> small t \<Longrightarrow> ordered compare (entries t) \<Longrightarrow>
     tree_contains compare k t \<longleftrightarrow> k \<in> fst ` set (entries t)"
proof (induction t)
  case (Rep e c s l r)
  note parts = sound_parts [OF Rep.prems(1,2)]
  have ord: "ordered compare (entries l @ e # entries r)" using Rep.prems by simp
  then have ords: "ordered compare (entries l)" "ordered compare (entries r)"
    by (simp_all add: ordered_simps)
  show ?case
    using Rep.IH(1) [OF parts(1,2) ords(1)] Rep.IH(2) [OF parts(3,4) ords(2)] parts(5)
      key_below [OF ord, of k] key_above [OF ord, of k]
    by (cases "compare k (fst e)") (auto simp: same)
qed simp

lemma tree_find_index_spec:
  "sized t \<Longrightarrow> small t \<Longrightarrow> ordered compare (entries t) \<Longrightarrow>
     tree_find_index compare k p t =
       (case index_of k (entries t) of Some i \<Rightarrow> p + of_nat i | None \<Rightarrow> npos)"
proof (induction t arbitrary: p)
  case EmptyRep
  then show ?case by (simp add: index_of_def)
next
  case (Rep e c s l r)
  note parts = sound_parts [OF Rep.prems(1,2)]
  have ord: "ordered compare (entries l @ e # entries r)" using Rep.prems by simp
  then have ords: "ordered compare (entries l)" "ordered compare (entries r)"
    by (simp_all add: ordered_simps)
  have nsize: "node_size l = of_nat (length (entries l))"
    using node_size_small [OF parts(1,2)] by (metis of_nat_unat ucast_id)
  show ?case
  proof (cases "compare k (fst e)")
    case Ascending
    then have "index_of k (entries r) = None" "fst e \<noteq> k"
      using key_above [OF ord] by (simp_all add: index_of_none)
    with Ascending Rep.IH(1) [OF parts(1,2) ords(1)] parts(5) show ?thesis
      by (auto simp: index_of_append index_of_Cons split: option.split)
  next
    case Same
    have "index_of k (entries l) = None"
      using ord Same by (auto simp: ordered_simps same index_of_none)
    with Same parts(5) nsize show ?thesis
      by (auto simp: index_of_append index_of_Cons same split: option.split)
  next
    case Descending
    then have "index_of k (entries l) = None" "fst e \<noteq> k"
      using key_below [OF ord] by (simp_all add: index_of_none)
    with Descending Rep.IH(2) [OF parts(3,4) ords(2)] parts(5) nsize show ?thesis
      by (auto simp: index_of_append index_of_Cons ac_simps split: option.split)
  qed
qed

lemma from_key_found:
  "ordered compare xs \<Longrightarrow>
     (if from_key compare k xs \<noteq> [] \<and> compare k (fst (hd (from_key compare k xs))) = Same
      then from_key compare k xs else []) = dropWhile (\<lambda>x. fst x \<noteq> k) xs"
proof (induction xs)
  case Nil
  then show ?case by (simp add: from_key_def)
next
  case (Cons x xs)
  show ?case
  proof (cases "compare k (fst x)")
    case Ascending
    then have "k \<notin> fst ` set (x # xs)"
      using key_above [of "[]" x xs k] Cons.prems by auto
    then have "dropWhile (\<lambda>x. fst x \<noteq> k) (x # xs) = []"
      by (auto simp: dropWhile_eq_Nil_conv)
    with Ascending descending [of "fst x" k] show ?thesis by (simp add: from_key_def)
  next
    case Same
    then show ?thesis by (simp add: from_key_def same)
  next
    case Descending
    then have "fst x \<noteq> k" "compare (fst x) k = Ascending"
      by (auto simp: descending)
    moreover from this have "from_key compare k (x # xs) = from_key compare k xs"
      by (simp add: from_key_def)
    moreover have "ordered compare xs" using Cons.prems by (simp add: ordered_simps)
    note IH = Cons.IH [OF this]
    moreover have "dropWhile (\<lambda>x. fst x \<noteq> k) (x # xs) = dropWhile (\<lambda>x. fst x \<noteq> k) xs"
      using \<open>fst x \<noteq> k\<close> by simp
    ultimately show ?thesis by (simp only:)
  qed
qed

lemma tree_find_spec:
  assumes "sized t" "small t" "ordered compare (entries t)"
  shows "remaining (tree_find compare k t) = dropWhile (\<lambda>x. fst x \<noteq> k) (entries t)"
proof -
  have lb: "remaining (LowerBound compare k t []) = from_key compare k (entries t)"
    "iter_ok (LowerBound compare k t [])"
    using LowerBound_remaining [OF assms, of "[]"] by (simp_all add: iter_ok_def)
  show ?thesis
  proof (cases "LowerBound compare k t []")
    case Nil
    with lb(1) from_key_found [OF assms(3), of k] show ?thesis
      by (simp add: tree_find_def tree_iter_get_def)
  next
    case (Cons n st)
    with lb(1) have "tree_iter_get (LowerBound compare k t []) = Some (hd (from_key compare k (entries t)))"
      "from_key compare k (entries t) \<noteq> []"
      by (auto simp: tree_iter_get_def simp flip: lb(1))
    with lb(1) from_key_found [OF assms(3), of k] show ?thesis
      by (simp add: tree_find_def split: if_splits)
  qed
qed

end

end
