(* ===== verification/SortedMap.thy ===== *)
theory SortedMap
  imports TreeSearch
begin

text \<open>
  Firestore's immutable sorted maps and sets: the array representation
  (\<open>immutable/array_sorted_map.h\<close>) up to 25 entries, the tree representation
  (\<open>immutable/tree_sorted_map.h\<close>) above, the map that switches between them (\<open>immutable/sorted_map.h\<close>),
  its iterators and views (\<open>immutable/sorted_map_iterator.h\<close>, \<open>immutable/keys_view.h\<close>) and the sets
  built on it (\<open>immutable/sorted_set.h\<close>). \<open>map_entries\<close> abstracts a map to the ordered list of its
  entries, which insertion and removal refine.
\<close>

section \<open>Small maps (immutable/array_sorted_map.h)\<close>

definition kFixedSize :: nat where
  "kFixedSize = 25"

text \<open>\<open>FixedArray::append\<close>; \<open>None\<close> is the failed \<open>HARD_ASSERT\<close>, which aborts the program.\<close>

definition fixed_append :: "'a list \<Rightarrow> 'a list \<Rightarrow> 'a list option" where
  "fixed_append xs ys = (if length xs + length ys \<le> kFixedSize then Some (xs @ ys) else None)"

definition array_lower_bound :: "('k \<Rightarrow> 'k \<Rightarrow> ComparisonResult) \<Rightarrow> 'k \<Rightarrow> ('k \<times> 'v) list \<Rightarrow> nat" where
  "array_lower_bound compare k a = length (takeWhile (\<lambda>el. compare (fst el) k = Ascending) a)"

definition array_find :: "('k \<Rightarrow> 'k \<Rightarrow> ComparisonResult) \<Rightarrow> 'k \<Rightarrow> ('k \<times> 'v) list \<Rightarrow> nat" where
  "array_find compare k a = length (takeWhile (\<lambda>kv. compare k (fst kv) \<noteq> Same) a)"

definition array_insert :: "('k \<Rightarrow> 'k \<Rightarrow> ComparisonResult) \<Rightarrow> 'k \<Rightarrow> 'v \<Rightarrow> ('k \<times> 'v) list \<Rightarrow> ('k \<times> 'v) list option" where
  "array_insert compare k v a =
     (let pos = array_lower_bound compare k a;
          replacing_entry = (pos \<noteq> length a \<and> compare k (fst (a ! pos)) = Same)
      in if replacing_entry \<and> v = snd (a ! pos) then Some a
         else
           case fixed_append [] (take pos a) of
             None \<Rightarrow> None
           | Some copy \<Rightarrow>
               (case fixed_append copy [(k, v)] of
                  None \<Rightarrow> None
                | Some copy \<Rightarrow>
                    if replacing_entry then fixed_append copy (drop (pos + 1) a)
                    else fixed_append copy (drop pos a)))"

definition array_erase :: "('k \<Rightarrow> 'k \<Rightarrow> ComparisonResult) \<Rightarrow> 'k \<Rightarrow> ('k \<times> 'v) list \<Rightarrow> ('k \<times> 'v) list option" where
  "array_erase compare k a =
     (let pos = array_find compare k a
      in if pos = length a then Some a
         else if length a \<le> 1 then Some []
         else
           case fixed_append [] (take pos a) of
             None \<Rightarrow> None
           | Some copy \<Rightarrow> fixed_append copy (drop (pos + 1) a))"

definition array_contains :: "('k \<Rightarrow> 'k \<Rightarrow> ComparisonResult) \<Rightarrow> 'k \<Rightarrow> ('k \<times> 'v) list \<Rightarrow> bool" where
  "array_contains compare k a \<longleftrightarrow> array_find compare k a \<noteq> length a"

definition array_find_index :: "('k \<Rightarrow> 'k \<Rightarrow> ComparisonResult) \<Rightarrow> 'k \<Rightarrow> ('k \<times> 'v) list \<Rightarrow> u32" where
  "array_find_index compare k a =
     (let found = array_find compare k a in if found = length a then npos else of_nat found)"

definition array_max :: "('k \<times> 'v) list \<Rightarrow> nat" where
  "array_max a = (if a = [] then length a else length a - 1)"

text \<open>
  \<open>SortedArray\<close>: \<open>std::sort\<close> leaves the order of equivalent entries open; this model keeps the order
  of the initializer list for them.
\<close>

fun insort_entry :: "('k \<Rightarrow> 'k \<Rightarrow> ComparisonResult) \<Rightarrow> 'k \<times> 'v \<Rightarrow> ('k \<times> 'v) list \<Rightarrow> ('k \<times> 'v) list" where
  "insort_entry compare x [] = [x]"
| "insort_entry compare x (y # ys) =
     (if compare (fst y) (fst x) = Ascending then y # insort_entry compare x ys else x # y # ys)"

definition SortedArray :: "('k \<Rightarrow> 'k \<Rightarrow> ComparisonResult) \<Rightarrow> ('k \<times> 'v) list \<Rightarrow> ('k \<times> 'v) list option" where
  "SortedArray compare es = fixed_append [] (foldr (insort_entry compare) es [])"

section \<open>The map (immutable/sorted_map.h)\<close>

datatype ('k, 'v) SortedMap = Array "('k \<times> 'v) list" | Tree "('k, 'v) LlrbNode"

definition tree_create :: "('k \<Rightarrow> 'k \<Rightarrow> ComparisonResult) \<Rightarrow> ('k \<times> 'v) list \<Rightarrow> ('k, 'v) LlrbNode" where
  "tree_create compare es = fold (\<lambda>x node. node_insert compare (fst x) (snd x) node) es EmptyRep"

text \<open>
  The constructor from an initializer list. Its \<open>else\<close> branch constructs the tree but never
  assigns \<open>tag_\<close>, so that every later operation reads an indeterminate value: \<open>None\<close>.
\<close>

definition map_init :: "('k \<Rightarrow> 'k \<Rightarrow> ComparisonResult) \<Rightarrow> ('k \<times> 'v) list \<Rightarrow> ('k, 'v) SortedMap option" where
  "map_init compare es =
     (if length es \<le> kFixedSize then map_option Array (SortedArray compare es) else None)"

definition map_new :: "('k, 'v) SortedMap" where
  "map_new = Array []"

fun map_empty :: "('k, 'v) SortedMap \<Rightarrow> bool" where
  "map_empty (Array a) \<longleftrightarrow> length a = 0"
| "map_empty (Tree t) \<longleftrightarrow> node_empty t"

fun map_size :: "('k, 'v) SortedMap \<Rightarrow> u32" where
  "map_size (Array a) = of_nat (length a)"
| "map_size (Tree t) = node_size t"

fun map_insert :: "('k \<Rightarrow> 'k \<Rightarrow> ComparisonResult) \<Rightarrow> 'k \<Rightarrow> 'v \<Rightarrow> ('k, 'v) SortedMap \<Rightarrow> ('k, 'v) SortedMap option" where
  "map_insert compare k v (Array a) =
     (if length a \<ge> kFixedSize then Some (Tree (node_insert compare k v (tree_create compare a)))
      else map_option Array (array_insert compare k v a))"
| "map_insert compare k v (Tree t) = Some (Tree (node_insert compare k v t))"

fun map_erase :: "('k \<Rightarrow> 'k \<Rightarrow> ComparisonResult) \<Rightarrow> 'k \<Rightarrow> ('k, 'v) SortedMap \<Rightarrow> ('k, 'v) SortedMap option" where
  "map_erase compare k (Array a) = map_option Array (array_erase compare k a)"
| "map_erase compare k (Tree t) =
     (let result = node_erase compare k t
      in if node_empty result then Some map_new else Some (Tree result))"

fun map_contains :: "('k \<Rightarrow> 'k \<Rightarrow> ComparisonResult) \<Rightarrow> 'k \<Rightarrow> ('k, 'v) SortedMap \<Rightarrow> bool" where
  "map_contains compare k (Array a) = array_contains compare k a"
| "map_contains compare k (Tree t) = tree_contains compare k t"

fun map_find_index :: "('k \<Rightarrow> 'k \<Rightarrow> ComparisonResult) \<Rightarrow> 'k \<Rightarrow> ('k, 'v) SortedMap \<Rightarrow> u32" where
  "map_find_index compare k (Array a) = array_find_index compare k a"
| "map_find_index compare k (Tree t) = tree_find_index compare k 0 t"

section \<open>Iterators (immutable/sorted_map_iterator.h)\<close>

text \<open>An array iterator is an array and an index into it.\<close>

datatype ('k, 'v) map_iter = ArrayIter "('k \<times> 'v) list" nat | TreeIter "('k, 'v) tree_iter"

fun map_iter_get :: "('k, 'v) map_iter \<Rightarrow> ('k \<times> 'v) option" where
  "map_iter_get (ArrayIter a i) = (if i < length a then Some (a ! i) else None)"
| "map_iter_get (TreeIter it) = tree_iter_get it"

fun map_iter_next :: "('k, 'v) map_iter \<Rightarrow> ('k, 'v) map_iter option" where
  "map_iter_next (ArrayIter a i) = (if i < length a then Some (ArrayIter a (i + 1)) else None)"
| "map_iter_next (TreeIter it) = map_option TreeIter (tree_iter_next it)"

fun map_iter_eq :: "('k, 'v) map_iter \<Rightarrow> ('k, 'v) map_iter \<Rightarrow> bool" where
  "map_iter_eq (ArrayIter a i) (ArrayIter b j) \<longleftrightarrow> i = j"
| "map_iter_eq (TreeIter x) (TreeIter y) \<longleftrightarrow> tree_iter_eq x y"
| "map_iter_eq _ _ \<longleftrightarrow> False"

fun map_begin :: "('k, 'v) SortedMap \<Rightarrow> ('k, 'v) map_iter" where
  "map_begin (Array a) = ArrayIter a 0"
| "map_begin (Tree t) = TreeIter (Begin t)"

fun map_end :: "('k, 'v) SortedMap \<Rightarrow> ('k, 'v) map_iter" where
  "map_end (Array a) = ArrayIter a (length a)"
| "map_end (Tree t) = TreeIter []"

fun map_find :: "('k \<Rightarrow> 'k \<Rightarrow> ComparisonResult) \<Rightarrow> 'k \<Rightarrow> ('k, 'v) SortedMap \<Rightarrow> ('k, 'v) map_iter" where
  "map_find compare k (Array a) = ArrayIter a (array_find compare k a)"
| "map_find compare k (Tree t) = TreeIter (tree_find compare k t)"

fun map_lower_bound :: "('k \<Rightarrow> 'k \<Rightarrow> ComparisonResult) \<Rightarrow> 'k \<Rightarrow> ('k, 'v) SortedMap \<Rightarrow> ('k, 'v) map_iter" where
  "map_lower_bound compare k (Array a) = ArrayIter a (array_lower_bound compare k a)"
| "map_lower_bound compare k (Tree t) = TreeIter (LowerBound compare k t [])"

fun map_min :: "('k, 'v) SortedMap \<Rightarrow> ('k, 'v) map_iter" where
  "map_min (Array a) = ArrayIter a 0"
| "map_min (Tree t) = TreeIter (Begin t)"

fun map_max :: "('k, 'v) SortedMap \<Rightarrow> ('k, 'v) map_iter" where
  "map_max (Array a) = ArrayIter a (array_max a)"
| "map_max (Tree t) = TreeIter (tree_max t)"

definition map_get :: "('k \<Rightarrow> 'k \<Rightarrow> ComparisonResult) \<Rightarrow> 'k \<Rightarrow> ('k, 'v) SortedMap \<Rightarrow> 'v option" where
  "map_get compare k m =
     (let found = map_find compare k m
      in if \<not> map_iter_eq found (map_end m) then map_option snd (map_iter_get found) else None)"

text \<open>The range-based \<open>for\<close> loop from one iterator up to another; the fuel bounds its rounds.\<close>

fun iterate :: "nat \<Rightarrow> ('k, 'v) map_iter \<Rightarrow> ('k, 'v) map_iter \<Rightarrow> ('k \<times> 'v) list option" where
  "iterate 0 it stop = (if map_iter_eq it stop then Some [] else None)"
| "iterate (Suc n) it stop =
     (if map_iter_eq it stop then Some []
      else case map_iter_get it of
             None \<Rightarrow> None
           | Some x \<Rightarrow>
               (case map_iter_next it of
                  None \<Rightarrow> None
                | Some it' \<Rightarrow> map_option ((#) x) (iterate n it' stop)))"

text \<open>The views of \<open>immutable/keys_view.h\<close>, as the iterators they run from and to.\<close>

definition KeysView :: "('k, 'v) SortedMap \<Rightarrow> ('k, 'v) map_iter \<times> ('k, 'v) map_iter" where
  "KeysView m = (map_begin m, map_end m)"

definition KeysViewFrom :: "('k \<Rightarrow> 'k \<Rightarrow> ComparisonResult) \<Rightarrow> 'k \<Rightarrow> ('k, 'v) SortedMap \<Rightarrow>
    ('k, 'v) map_iter \<times> ('k, 'v) map_iter" where
  "KeysViewFrom compare k m = (map_lower_bound compare k m, map_end m)"

definition KeysViewIn :: "('k \<Rightarrow> 'k \<Rightarrow> ComparisonResult) \<Rightarrow> 'k \<Rightarrow> 'k \<Rightarrow> ('k, 'v) SortedMap \<Rightarrow>
    ('k, 'v) map_iter \<times> ('k, 'v) map_iter" where
  "KeysViewIn compare start_key end_key m =
     (if compare start_key end_key \<noteq> Ascending then (map_end m, map_end m)
      else (map_lower_bound compare start_key m, map_lower_bound compare end_key m))"

section \<open>Sets (immutable/sorted_set.h)\<close>

type_synonym 'k SortedSet = "('k, unit) SortedMap"

definition sset_insert :: "('k \<Rightarrow> 'k \<Rightarrow> ComparisonResult) \<Rightarrow> 'k \<Rightarrow> 'k SortedSet \<Rightarrow> 'k SortedSet option" where
  "sset_insert compare k s = map_insert compare k () s"

fun sset_insert_all :: "('k \<Rightarrow> 'k \<Rightarrow> ComparisonResult) \<Rightarrow> 'k list \<Rightarrow> 'k SortedSet \<Rightarrow> 'k SortedSet option" where
  "sset_insert_all compare [] s = Some s"
| "sset_insert_all compare (k # ks) s = Option.bind (sset_insert compare k s) (sset_insert_all compare ks)"

definition set_of_keys :: "('k \<Rightarrow> 'k \<Rightarrow> ComparisonResult) \<Rightarrow> 'k list \<Rightarrow> 'k SortedSet option" where
  "set_of_keys compare ks = sset_insert_all compare ks map_new"

definition set_iterate :: "'k SortedSet \<Rightarrow> 'k list option" where
  "set_iterate s = map_option (map fst) (iterate (unat (map_size s)) (map_begin s) (map_end s))"

definition union_with :: "('k \<Rightarrow> 'k \<Rightarrow> ComparisonResult) \<Rightarrow> 'k SortedSet \<Rightarrow> 'k SortedSet \<Rightarrow> 'k SortedSet option" where
  "union_with compare this other =
     (let (result, rest) = (if map_size this < map_size other then (other, this) else (this, other))
      in Option.bind (set_iterate rest) (\<lambda>ks. sset_insert_all compare ks result))"

definition set_equal :: "'k SortedSet \<Rightarrow> 'k SortedSet \<Rightarrow> bool" where
  "set_equal lhs rhs \<longleftrightarrow>
     (if map_size lhs \<noteq> map_size rhs then False else set_iterate lhs = set_iterate rhs)"

section \<open>The map refines its ordered list of entries\<close>

fun map_entries :: "('k, 'v) SortedMap \<Rightarrow> ('k \<times> 'v) list" where
  "map_entries (Array a) = a"
| "map_entries (Tree t) = entries t"

fun map_ok :: "('k \<Rightarrow> 'k \<Rightarrow> ComparisonResult) \<Rightarrow> ('k, 'v) SortedMap \<Rightarrow> bool" where
  "map_ok compare (Array a) \<longleftrightarrow> ordered compare a \<and> length a \<le> kFixedSize"
| "map_ok compare (Tree t) \<longleftrightarrow> valid compare t \<and> t \<noteq> EmptyRep"

lemma list_erase_find:
  "distinct (map fst a) \<Longrightarrow>
     list_erase k a = (let i = length (takeWhile (\<lambda>x. fst x \<noteq> k) a)
                       in if i = length a then a else take i a @ drop (Suc i) a)"
proof (induction a)
  case (Cons x a)
  show ?case
  proof (cases "fst x = k")
    case True
    with Cons.prems have "k \<notin> fst ` set a" by simp
    then have "filter (\<lambda>x. fst x \<noteq> k) a = a"
      by (metis (mono_tags) filter_True image_eqI)
    with True show ?thesis by (simp add: list_erase_def)
  next
    case False
    with Cons show ?thesis by (simp add: list_erase_def Let_def)
  qed
qed (simp add: list_erase_def)

lemma takeWhile_neq_length: "length (takeWhile (\<lambda>x. fst x \<noteq> k) a) = length a \<longleftrightarrow> k \<notin> fst ` set a"
  by (induction a) auto

context key_order
begin

lemma ordered_distinct: "ordered compare xs \<Longrightarrow> distinct (map fst xs)"
  by (induction xs) (auto simp: ordered_simps)

lemma array_find_simp: "array_find compare k a = length (takeWhile (\<lambda>x. fst x \<noteq> k) a)"
  by (simp add: array_find_def same eq_commute [of k])

lemma list_insert_bound:
  "ordered compare a \<Longrightarrow>
     list_insert compare k v a =
       (let i = array_lower_bound compare k a
        in take i a @ (k, v) # drop (if i \<noteq> length a \<and> compare k (fst (a ! i)) = Same then i + 1 else i) a)"
proof (induction a)
  case (Cons x a)
  have flip: "compare (fst x) k = Ascending \<longleftrightarrow> compare k (fst x) = Descending"
    by (simp add: descending)
  show ?case
  proof (cases "compare k (fst x)")
    case Descending
    with flip Cons show ?thesis
      by (simp add: array_lower_bound_def Let_def ordered_simps)
  qed (use flip in \<open>simp_all add: array_lower_bound_def Let_def\<close>)
qed (simp add: array_lower_bound_def)

lemma array_insert_spec:
  assumes "ordered compare a" "length a < kFixedSize"
  shows "array_insert compare k v a = Some (list_insert compare k v a)"
proof -
  define i where "i = array_lower_bound compare k a"
  have le: "i \<le> length a"
    by (simp add: i_def array_lower_bound_def length_takeWhile_le)
  have ins: "list_insert compare k v a
      = take i a @ (k, v) # drop (if i \<noteq> length a \<and> compare k (fst (a ! i)) = Same then i + 1 else i) a"
    using list_insert_bound [OF assms(1), of k v] by (simp add: i_def Let_def)
  have "(k, v) = a ! i" if "i \<noteq> length a" "compare k (fst (a ! i)) = Same" "v = snd (a ! i)"
    using that by (simp add: same prod_eq_iff)
  then show ?thesis
    using assms(2) le ins id_take_nth_drop [of i a]
    by (auto simp: array_insert_def Let_def i_def [symmetric] fixed_append_def min_def)
qed

lemma array_erase_spec:
  assumes "ordered compare a" "length a \<le> kFixedSize"
  shows "array_erase compare k a = Some (list_erase k a)"
proof -
  define i where "i = array_find compare k a"
  have le: "i \<le> length a"
    by (simp add: i_def array_find_def length_takeWhile_le)
  have "list_erase k a = (if i = length a then a else take i a @ drop (Suc i) a)"
    using list_erase_find [OF ordered_distinct [OF assms(1)], of k] by (simp add: i_def array_find_simp Let_def)
  then show ?thesis
    using assms(2) le
    by (auto simp: array_erase_def Let_def i_def [symmetric] fixed_append_def min_def le_Suc_eq)
qed

lemma valid_Empty [simp]: "valid compare EmptyRep"
  by (simp add: valid_def small_def)

lemma tree_create_spec:
  "ordered compare (xs @ ys) \<Longrightarrow> length (xs @ ys) < 2 ^ 31 - 1 \<Longrightarrow> valid compare t \<Longrightarrow> entries t = xs \<Longrightarrow>
     valid compare (fold (\<lambda>x node. node_insert compare (fst x) (snd x) node) ys t)
     \<and> entries (fold (\<lambda>x node. node_insert compare (fst x) (snd x) node) ys t) = xs @ ys"
proof (induction ys arbitrary: xs t)
  case (Cons y ys)
  have "length (entries t) < 2 ^ 31 - 1" using Cons.prems by simp
  note ins = node_insert_spec [OF Cons.prems(3) this, of "fst y" "snd y"]
  have "list_insert compare (fst y) (snd y) (xs @ []) = xs @ [y]"
    using Cons.prems(1) by (subst list_insert_below) (auto simp: ordered_simps)
  then show ?case
    using Cons.IH [of "xs @ [y]"] Cons.prems ins by simp
qed simp

lemma entries_Nil: "entries t = [] \<longleftrightarrow> t = EmptyRep"
  by (cases t) auto

lemma list_insert_not_Nil [simp]: "list_insert compare k v xs \<noteq> []"
  by (cases xs) (auto split: ComparisonResult.split)

lemma map_insert_spec:
  assumes "map_ok compare m" "length (map_entries m) < 2 ^ 31 - 1"
  shows "\<exists>m'. map_insert compare k v m = Some m' \<and> map_ok compare m'
    \<and> map_entries m' = list_insert compare k v (map_entries m)"
proof (cases m)
  case (Array a)
  show ?thesis
  proof (cases "length a \<ge> kFixedSize")
    case True
    have "valid compare (tree_create compare a)" "entries (tree_create compare a) = a"
      using tree_create_spec [of "[]" a EmptyRep] assms Array by (simp_all add: tree_create_def)
    with node_insert_spec [of "tree_create compare a" k v] assms Array True
    show ?thesis by (auto simp flip: entries_Nil)
  next
    case False
    then show ?thesis
      using assms Array array_insert_spec [of a k v] length_list_insert [of k v a]
      by (auto simp: ordered_list_insert)
  qed
next
  case (Tree t)
  then show ?thesis
    using assms node_insert_spec [of t k v] by (auto simp flip: entries_Nil)
qed

lemma map_erase_spec:
  assumes "map_ok compare m"
  shows "\<exists>m'. map_erase compare k m = Some m' \<and> map_ok compare m'
    \<and> map_entries m' = list_erase k (map_entries m)"
proof (cases m)
  case (Array a)
  have "length (list_erase k a) \<le> length a" by (simp add: list_erase_def)
  then show ?thesis
    using assms Array array_erase_spec [of a k] by (auto simp: ordered_list_erase)
next
  case (Tree t)
  then have "valid compare t" using assms by simp
  note er = node_erase_spec [OF this, of k]
  then have "node_empty (node_erase compare k t) \<longleftrightarrow> entries (node_erase compare k t) = []"
    by (simp add: valid_def node_empty_sized flip: entries_Nil)
  with er Tree show ?thesis
    by (auto simp: map_new_def Let_def entries_Nil)
qed


lemma map_contains_spec:
  "map_ok compare m \<Longrightarrow> map_contains compare k m \<longleftrightarrow> k \<in> fst ` set (map_entries m)"
  by (cases m) (simp_all add: array_contains_def array_find_simp takeWhile_neq_length tree_contains_spec valid_def)

lemma map_size_spec: "map_ok compare m \<Longrightarrow> map_size m = of_nat (length (map_entries m))"
proof (cases m)
  case (Tree t)
  moreover assume "map_ok compare m"
  ultimately have "unat (node_size t) = length (entries t)"
    by (simp add: valid_def node_size_small)
  with Tree show ?thesis by (metis of_nat_unat ucast_id map_size.simps(2) map_entries.simps(2))
qed simp

lemma map_find_index_spec:
  "map_ok compare m \<Longrightarrow> map_find_index compare k m =
     (case index_of k (map_entries m) of Some i \<Rightarrow> of_nat i | None \<Rightarrow> npos)"
proof (cases m)
  case (Array a)
  then show ?thesis
    by (simp add: array_find_index_def array_find_simp Let_def takeWhile_neq_length index_of_def)
qed (simp add: tree_find_index_spec valid_def split: option.split)

end

section \<open>What an iterator has still to visit\<close>

fun map_remaining :: "('k, 'v) map_iter \<Rightarrow> ('k \<times> 'v) list" where
  "map_remaining (ArrayIter a i) = drop i a"
| "map_remaining (TreeIter it) = remaining it"

fun map_iter_ok :: "('k, 'v) map_iter \<Rightarrow> bool" where
  "map_iter_ok (ArrayIter a i) \<longleftrightarrow> i \<le> length a"
| "map_iter_ok (TreeIter it) \<longleftrightarrow> iter_ok it"

lemma iter_ok_Nil [simp]: "iter_ok []"
  by (simp add: iter_ok_def)

lemma takeWhile_drop: "drop (length (takeWhile P xs)) xs = dropWhile P xs"
  by (simp add: dropWhile_eq_drop)

lemma map_iter_step:
  assumes "map_iter_ok it" "map_remaining it \<noteq> []"
  shows "map_iter_get it = Some (hd (map_remaining it))
    \<and> (\<exists>it'. map_iter_next it = Some it' \<and> map_iter_ok it' \<and> map_remaining it' = tl (map_remaining it))"
proof (cases it)
  case (ArrayIter a i)
  with assms show ?thesis by (simp add: hd_drop_conv_nth drop_Suc drop_tl)
next
  case (TreeIter st)
  then have "iter_ok st" "st \<noteq> []"
    using assms by auto
  with iter_next_spec [of st] TreeIter show ?thesis by auto
qed

text \<open>Two iterators of one map are equal just when they have the same rest to visit.\<close>

fun same_map :: "('k, 'v) map_iter \<Rightarrow> ('k, 'v) map_iter \<Rightarrow> bool" where
  "same_map (ArrayIter a i) (ArrayIter b j) \<longleftrightarrow> a = b"
| "same_map (TreeIter x) (TreeIter y) \<longleftrightarrow> True"
| "same_map _ _ \<longleftrightarrow> False"

lemma same_map_next: "map_iter_next it = Some it' \<Longrightarrow> same_map it' stop \<longleftrightarrow> same_map it stop"
  by (cases it; cases stop) (auto split: if_splits)

lemma suffix_key_inj:
  "distinct (map fst xs) \<Longrightarrow> i < length xs \<Longrightarrow> j < length xs \<Longrightarrow>
     fst (hd (drop i xs)) = fst (hd (drop j xs)) \<Longrightarrow> i = j"
  by (simp add: hd_drop_conv_nth distinct_conv_nth) (metis length_map nth_map distinct_conv_nth)

lemma map_iter_eq_spec:
  assumes "map_iter_ok it" "map_iter_ok stop" "same_map it stop" "distinct (map fst xs)"
    and "map_remaining it = drop i xs" "map_remaining stop = drop j xs" "i \<le> length xs" "j \<le> length xs"
  shows "map_iter_eq it stop \<longleftrightarrow> i = j"
proof (cases it)
  case (ArrayIter a p)
  then obtain q where stop: "stop = ArrayIter a q" using assms(3) by (cases stop) auto
  have "length (drop p a) = length xs - i" "length (drop q a) = length xs - j"
    using assms(5,6) ArrayIter stop by (metis map_remaining.simps(1) length_drop)+
  then show ?thesis using assms ArrayIter stop by auto
next
  case (TreeIter st)
  then obtain st' where stop: "stop = TreeIter st'" using assms(3) by (cases stop) auto
  have first: "tree_iter_get u = Some (hd (drop n xs)) \<and> n < length xs"
    if "remaining u = drop n xs" "u \<noteq> []" "iter_ok u" for u n
    using iter_next_spec [of u] that remaining_Nil [of u] by (auto simp: not_le [symmetric])
  have none: "u = [] \<longleftrightarrow> n = length xs" if "remaining u = drop n xs" "n \<le> length xs" for u n
    using that remaining_Nil [of u] by auto
  have r: "remaining st = drop i xs" "remaining st' = drop j xs" "iter_ok st" "iter_ok st'"
    using assms TreeIter stop by auto
  show ?thesis
  proof (cases "st = [] \<or> st' = []")
    case True
    then show ?thesis
      using none [OF r(1) assms(7)] none [OF r(2) assms(8)] TreeIter stop
      by (auto simp: tree_iter_eq_def is_end_def)
  next
    case False
    then show ?thesis
      using first [OF r(1)] first [OF r(2)] r TreeIter stop suffix_key_inj [OF assms(4)]
      by (auto simp: tree_iter_eq_def is_end_def)
  qed
qed

lemma iterate_spec:
  assumes "map_iter_ok it" "map_iter_ok stop" "same_map it stop" "distinct (map fst xs)"
    and "map_remaining it = drop i xs" "map_remaining stop = drop j xs" "i \<le> j" "j \<le> length xs"
    and "j - i \<le> n"
  shows "iterate n it stop = Some (take (j - i) (drop i xs))"
  using assms
proof (induction n arbitrary: it i)
  case 0
  then have "map_iter_eq it stop" using map_iter_eq_spec [of it stop xs i j] by simp
  with 0 show ?case by simp
next
  case (Suc n)
  note eq = map_iter_eq_spec [OF Suc.prems(1-6)]
  show ?case
  proof (cases "i = j")
    case True
    then show ?thesis using eq Suc.prems by simp
  next
    case False
    then have i: "i < length xs" "i < j" using Suc.prems by auto
    then have ne: "map_remaining it \<noteq> []" using Suc.prems by simp
    obtain it' where it': "map_iter_next it = Some it'" "map_iter_ok it'"
      "map_remaining it' = drop (Suc i) xs" "map_iter_get it = Some (xs ! i)"
      using map_iter_step [OF Suc.prems(1) ne] Suc.prems(5) i
      by (auto simp: hd_drop_conv_nth drop_Suc tl_drop)
    have "iterate n it' stop = Some (take (j - Suc i) (drop (Suc i) xs))"
      using Suc.prems i it' by (intro Suc.IH) (auto simp: same_map_next)
    moreover have "take (j - i) (drop i xs) = xs ! i # take (j - Suc i) (drop (Suc i) xs)"
      using i by (simp add: Cons_nth_drop_Suc [symmetric] take_Cons' Suc_diff_Suc [symmetric])
    ultimately show ?thesis
      using eq False Suc.prems it' by simp
  qed
qed

end
