(* ===== verification/SortedMapSpec.thy ===== *)
theory SortedMapSpec
  imports SortedMap
begin

text \<open>
  What a client sees of a sorted map: the queries and the iteration answer for the ordered list of
  entries, a history of operations gives the finite map it describes, unions and equality of sets
  are those of their keys, and the depth of a tree is logarithmic in its size.
\<close>

lemma takeWhile_nested:
  "(\<And>x. P x \<Longrightarrow> Q x) \<Longrightarrow> takeWhile P (takeWhile Q xs) = takeWhile P xs
     \<and> length (takeWhile P xs) \<le> length (takeWhile Q xs)"
  by (induction xs) auto

context key_order
begin

lemma map_end_spec:
  "map_iter_ok (map_end m) \<and> map_remaining (map_end m) = drop (length (map_entries m)) (map_entries m)"
  by (cases m) auto

lemma map_begin_spec:
  "map_ok compare m \<Longrightarrow> map_iter_ok (map_begin m) \<and> map_remaining (map_begin m) = drop 0 (map_entries m)
     \<and> same_map (map_begin m) (map_end m)"
  using AccumulateLeft_remaining [where st = "[]"] by (cases m) (auto simp: Begin_def valid_def)

lemma map_lower_bound_spec:
  "map_ok compare m \<Longrightarrow> map_iter_ok (map_lower_bound compare k m)
     \<and> map_remaining (map_lower_bound compare k m) = from_key compare k (map_entries m)
     \<and> same_map (map_lower_bound compare k m) (map_end m)"
  using LowerBound_remaining [where st = "[]"]
  by (cases m) (auto simp: valid_def array_lower_bound_def from_key_def takeWhile_drop length_takeWhile_le)

lemma iter_ok_tree_find: "sized t \<Longrightarrow> small t \<Longrightarrow> ordered compare (entries t) \<Longrightarrow> iter_ok (tree_find compare k t)"
  using LowerBound_remaining [of t "[]" k] by (auto simp: tree_find_def Let_def split: option.split)

lemma map_find_spec:
  "map_ok compare m \<Longrightarrow> map_iter_ok (map_find compare k m)
     \<and> map_remaining (map_find compare k m) = dropWhile (\<lambda>x. fst x \<noteq> k) (map_entries m)
     \<and> same_map (map_find compare k m) (map_end m)"
  by (cases m) (auto simp: valid_def array_find_simp takeWhile_drop length_takeWhile_le tree_find_spec iter_ok_tree_find)

lemma ordered_map_entries: "map_ok compare m \<Longrightarrow> ordered compare (map_entries m)"
  by (cases m) (auto simp: valid_def)

lemma map_entries_small: "map_ok compare m \<Longrightarrow> length (map_entries m) < 2 ^ 31"
  by (cases m) (auto simp: valid_def small_def kFixedSize_def)

lemma map_of_dropWhile:
  "map_of xs k = (case dropWhile (\<lambda>x. fst x \<noteq> k) xs of [] \<Rightarrow> None | x # _ \<Rightarrow> Some (snd x))"
  by (induction xs) auto

lemma dropWhile_as_drop: "\<exists>i \<le> length xs. dropWhile P xs = drop i xs"
  by (metis takeWhile_drop length_takeWhile_le)

lemma map_get_spec:
  assumes "map_ok compare m"
  shows "map_get compare k m = map_of (map_entries m) k"
proof -
  obtain i where i: "i \<le> length (map_entries m)" "dropWhile (\<lambda>x. fst x \<noteq> k) (map_entries m) = drop i (map_entries m)"
    using dropWhile_as_drop by blast
  note f = map_find_spec [OF assms, of k]
  have eq: "map_iter_eq (map_find compare k m) (map_end m) \<longleftrightarrow> i = length (map_entries m)"
    using f map_end_spec [of m] ordered_distinct [OF ordered_map_entries [OF assms]] i
    by (intro map_iter_eq_spec) auto
  show ?thesis
  proof (cases "i = length (map_entries m)")
    case True
    with i have "dropWhile (\<lambda>x. fst x \<noteq> k) (map_entries m) = []" by simp
    with True eq show ?thesis
      unfolding map_get_def map_of_dropWhile [of "map_entries m"] Let_def by (simp del: dropWhile_eq_Nil_conv)
  next
    case False
    then have ne: "map_remaining (map_find compare k m) \<noteq> []" using f i by auto
    have "map_iter_get (map_find compare k m) = Some (hd (dropWhile (\<lambda>x. fst x \<noteq> k) (map_entries m)))"
      using map_iter_step [OF _ ne] f by simp
    with False eq ne f show ?thesis
      by (auto simp: map_get_def Let_def map_of_dropWhile [of "map_entries m"] split: list.split)
  qed
qed

lemma iterate_map:
  assumes "map_ok compare m"
  shows "iterate (unat (map_size m)) (map_begin m) (map_end m) = Some (map_entries m)"
proof -
  have "unat (map_size m) = length (map_entries m)"
    using map_size_spec [OF assms] map_entries_small [OF assms] by (simp add: unat_of_nat)
  then show ?thesis
    using iterate_spec [of "map_begin m" "map_end m" "map_entries m" 0 "length (map_entries m)"]
      map_begin_spec [OF assms] map_end_spec [of m] ordered_distinct [OF ordered_map_entries [OF assms]]
    by simp
qed

lemma map_min_spec:
  "map_ok compare m \<Longrightarrow> map_iter_get (map_min m) = (case map_entries m of [] \<Rightarrow> None | x # _ \<Rightarrow> Some x)"
proof -
  assume m: "map_ok compare m"
  have first: "map_min m = map_begin m" by (cases m) auto
  show ?thesis
  proof (cases "map_entries m")
    case Nil
    then show ?thesis using m by (cases m) (auto simp: entries_Nil)
  next
    case (Cons x xs)
    then show ?thesis
      using map_iter_step [of "map_begin m"] map_begin_spec [OF m] first by simp
  qed
qed

lemma map_max_spec:
  "map_ok compare m \<Longrightarrow> map_iter_get (map_max m) = (if map_entries m = [] then None else Some (last (map_entries m)))"
proof (cases m)
  case (Tree t)
  moreover assume "map_ok compare m"
  ultimately have t: "sized t" "small t" "t \<noteq> EmptyRep" by (auto simp: valid_def)
  then have "tree_max t = [max_node t]" by (simp add: tree_max_def node_empty_sized)
  with Tree t max_node_last [OF t] show ?thesis by (simp add: tree_iter_get_def entries_Nil)
qed (auto simp: array_max_def last_conv_nth)

lemma from_key_filter:
  "ordered compare xs \<Longrightarrow> from_key compare k xs = filter (\<lambda>x. compare (fst x) k \<noteq> Ascending) xs"
proof (induction xs)
  case (Cons x xs)
  show ?case
  proof (cases "compare (fst x) k = Ascending")
    case False
    then have "compare (fst y) k \<noteq> Ascending" if "y \<in> set xs" for y
      using Cons.prems that trans [of "fst x" "fst y" k] by (auto simp: ordered_simps)
    then have "filter (\<lambda>x. compare (fst x) k \<noteq> Ascending) xs = xs" by simp
    with False show ?thesis by (simp add: from_key_def)
  qed (use Cons in \<open>simp add: from_key_def ordered_simps\<close>)
qed (simp add: from_key_def)

lemma below_filter:
  "ordered compare xs \<Longrightarrow> takeWhile (\<lambda>x. compare (fst x) k = Ascending) xs = filter (\<lambda>x. compare (fst x) k = Ascending) xs"
proof (induction xs)
  case (Cons x xs)
  show ?case
  proof (cases "compare (fst x) k = Ascending")
    case False
    then have "compare (fst y) k \<noteq> Ascending" if "y \<in> set xs" for y
      using Cons.prems that trans [of "fst x" "fst y" k] by (auto simp: ordered_simps)
    with False show ?thesis by (auto simp: filter_empty_conv)
  qed (use Cons in \<open>simp add: ordered_simps\<close>)
qed simp

lemma ordered_filter: "ordered compare xs \<Longrightarrow> ordered compare (filter P xs)"
  by (simp add: ordered_def sorted_wrt_filter)

lemma same_map_trans: "same_map it (map_end m) \<Longrightarrow> same_map it' (map_end m) \<Longrightarrow> same_map it it'"
  by (cases m; cases it; cases it'; auto)

lemma keys_in_spec:
  assumes "map_ok compare m"
  shows "iterate (unat (map_size m)) (fst (KeysViewIn compare a b m)) (snd (KeysViewIn compare a b m)) =
    Some (filter (\<lambda>x. compare (fst x) a \<noteq> Ascending \<and> compare (fst x) b = Ascending) (map_entries m))"
proof -
  let ?xs = "map_entries m"
  have ord: "ordered compare ?xs" by (rule ordered_map_entries [OF assms])
  have size: "unat (map_size m) = length ?xs"
    using map_size_spec [OF assms] map_entries_small [OF assms] by (simp add: unat_of_nat)
  show ?thesis
  proof (cases "compare a b = Ascending")
    case False
    have "compare c a \<noteq> Ascending \<Longrightarrow> compare c b \<noteq> Ascending" for c
      using False trans [of a c b] by (cases "compare c a") (auto simp: same descending)
    then have "filter (\<lambda>x. compare (fst x) a \<noteq> Ascending \<and> compare (fst x) b = Ascending) ?xs = []"
      by (auto simp: filter_empty_conv)
    with False show ?thesis
      using map_end_spec [of m] ordered_distinct [OF ord]
        iterate_spec [of "map_end m" "map_end m" ?xs "length ?xs" "length ?xs"]
      by (cases m) (simp_all add: KeysViewIn_def size)
  next
    case True
    define i where "i = length (takeWhile (\<lambda>x. compare (fst x) a = Ascending) ?xs)"
    define j where "j = length (takeWhile (\<lambda>x. compare (fst x) b = Ascending) ?xs)"
    have ab: "compare c a = Ascending \<Longrightarrow> compare c b = Ascending" for c
      using True by (rule trans [rotated])
    note nest = takeWhile_nested [of "\<lambda>x. compare (fst x) a = Ascending" "\<lambda>x. compare (fst x) b = Ascending" ?xs]
    from ab nest have le: "i \<le> j" and nested: "takeWhile (\<lambda>x. compare (fst x) a = Ascending)
        (takeWhile (\<lambda>x. compare (fst x) b = Ascending) ?xs) = takeWhile (\<lambda>x. compare (fst x) a = Ascending) ?xs"
      by (simp_all add: i_def j_def)
    have "j - i \<le> length ?xs"
      using length_takeWhile_le [of "\<lambda>x. compare (fst x) b = Ascending" ?xs] by (simp add: j_def)
    then have "iterate (length ?xs) (map_lower_bound compare a m) (map_lower_bound compare b m)
      = Some (take (j - i) (drop i ?xs))"
      using map_lower_bound_spec [OF assms, of a] map_lower_bound_spec [OF assms, of b] ordered_distinct [OF ord] le
      by (intro iterate_spec)
        (auto simp: from_key_def i_def j_def takeWhile_drop length_takeWhile_le elim: same_map_trans)
    moreover have "take (j - i) (drop i ?xs)
      = filter (\<lambda>x. compare (fst x) a \<noteq> Ascending \<and> compare (fst x) b = Ascending) ?xs"
    proof -
      let ?ys = "takeWhile (\<lambda>x. compare (fst x) b = Ascending) ?xs"
      have "take (j - i) (drop i ?xs) = drop i ?ys"
        unfolding j_def by (metis drop_take takeWhile_eq_take)
      also have "\<dots> = from_key compare a ?ys"
        using takeWhile_drop [of "\<lambda>x. compare (fst x) a = Ascending" ?ys] nested by (simp add: i_def from_key_def)
      also have "\<dots> = filter (\<lambda>x. compare (fst x) a \<noteq> Ascending) ?ys"
        using ord by (intro from_key_filter) (simp add: below_filter ordered_filter)
      finally show ?thesis using ord by (simp add: below_filter conj_commute)
    qed
    ultimately show ?thesis using True by (simp add: KeysViewIn_def size)
  qed
qed

end

section \<open>Histories of a map\<close>

datatype ('k, 'v) map_op = Insert 'k 'v | Erase 'k

fun run_ops :: "('k \<Rightarrow> 'k \<Rightarrow> ComparisonResult) \<Rightarrow> ('k, 'v) map_op list \<Rightarrow> ('k, 'v) SortedMap \<Rightarrow> ('k, 'v) SortedMap option" where
  "run_ops compare [] m = Some m"
| "run_ops compare (Insert k v # ops) m = Option.bind (map_insert compare k v m) (run_ops compare ops)"
| "run_ops compare (Erase k # ops) m = Option.bind (map_erase compare k m) (run_ops compare ops)"

fun op_effect :: "('k, 'v) map_op \<Rightarrow> ('k \<rightharpoonup> 'v) \<Rightarrow> ('k \<rightharpoonup> 'v)" where
  "op_effect (Insert k v) M = M(k \<mapsto> v)"
| "op_effect (Erase k) M = M(k := None)"

context key_order
begin

lemma run_ops_spec:
  "map_ok compare m \<Longrightarrow> length (map_entries m) + length ops < 2 ^ 31 \<Longrightarrow>
     \<exists>m'. run_ops compare ops m = Some m' \<and> map_ok compare m'
       \<and> map_of (map_entries m') = fold op_effect ops (map_of (map_entries m))"
proof (induction ops arbitrary: m)
  case (Cons op ops)
  show ?case
  proof (cases op)
    case (Insert k v)
    have "length (map_entries m) < 2 ^ 31 - 1" using Cons.prems(2) by simp
    then obtain m' where m': "map_insert compare k v m = Some m'" "map_ok compare m'"
      "map_entries m' = list_insert compare k v (map_entries m)"
      using map_insert_spec [OF Cons.prems(1)] by blast
    moreover have "map_of (map_entries m') = (map_of (map_entries m))(k \<mapsto> v)"
      using m' Cons.prems by (simp add: map_of_list_insert ordered_map_entries)
    ultimately show ?thesis
      using Cons.IH [of m'] Cons.prems(2) length_list_insert [of k v "map_entries m"] Insert by (auto simp: fun_upd_def)
  next
    case (Erase k)
    obtain m' where m': "map_erase compare k m = Some m'" "map_ok compare m'"
      "map_entries m' = list_erase k (map_entries m)"
      using map_erase_spec [OF Cons.prems(1)] by blast
    moreover have "length (list_erase k (map_entries m)) \<le> length (map_entries m)"
      by (simp add: list_erase_def)
    ultimately show ?thesis
      using Cons.IH [of m'] Cons.prems(2) Erase by (auto simp: map_of_list_erase fun_upd_def)
  qed
qed simp

lemma map_new_ok [simp]: "map_ok compare map_new" "map_entries map_new = []"
  by (simp_all add: map_new_def)

lemma set_list_insert_keys: "ordered compare xs \<Longrightarrow> fst ` set (list_insert compare k v xs) = insert k (fst ` set xs)"
  using map_of_list_insert [of xs k v] by (metis dom_map_of_conv_image_fst dom_fun_upd option.distinct(1))

lemma sset_insert_all_spec:
  "map_ok compare s \<Longrightarrow> length (map_entries s) + length ks < 2 ^ 31 \<Longrightarrow>
     \<exists>s'. sset_insert_all compare ks s = Some s' \<and> map_ok compare s'
       \<and> fst ` set (map_entries s') = fst ` set (map_entries s) \<union> set ks"
proof (induction ks arbitrary: s)
  case (Cons k ks)
  have "length (map_entries s) < 2 ^ 31 - 1" using Cons.prems(2) by simp
  then obtain s' where s': "map_insert compare k () s = Some s'" "map_ok compare s'"
    "map_entries s' = list_insert compare k () (map_entries s)"
    using map_insert_spec [OF Cons.prems(1)] by blast
  then show ?case
    using Cons.IH [of s'] Cons.prems length_list_insert [of k "()" "map_entries s"]
    by (auto simp: sset_insert_def set_list_insert_keys ordered_map_entries)
qed simp

lemma ordered_same_set:
  "ordered compare xs \<Longrightarrow> ordered compare ys \<Longrightarrow> fst ` set xs = fst ` set ys \<Longrightarrow> map fst xs = map fst ys"
proof (induction xs arbitrary: ys)
  case (Cons x xs)
  then obtain y ys' where ys: "ys = y # ys'" by (cases ys) auto
  have "fst x = fst y"
  proof (rule ccontr)
    assume ne: "fst x \<noteq> fst y"
    have "fst x \<in> fst ` set ys" "fst y \<in> fst ` set (x # xs)"
      using Cons.prems(3) ys by auto
    then have "compare (fst y) (fst x) = Ascending" "compare (fst x) (fst y) = Ascending"
      using ne ys Cons.prems(1,2) by (auto simp: ordered_simps)
    then show False using trans [of "fst x" "fst y" "fst x"] by simp
  qed
  moreover have "fst x \<notin> fst ` set xs" "fst y \<notin> fst ` set ys'"
    using ordered_distinct [OF Cons.prems(1)] ordered_distinct [OF Cons.prems(2)] ys by auto
  ultimately have "fst ` set xs = fst ` set ys'"
    using Cons.prems(3) ys by (simp add: insert_ident)
  then show ?case
    using Cons.IH [of ys'] Cons.prems(1,2) ys \<open>fst x = fst y\<close> by (simp add: ordered_simps)
qed simp

lemma set_iterate_spec: "map_ok compare s \<Longrightarrow> set_iterate s = Some (map fst (map_entries s))"
  by (simp add: set_iterate_def iterate_map)

lemma set_equal_spec:
  assumes "map_ok compare a" "map_ok compare b"
  shows "set_equal a b \<longleftrightarrow> fst ` set (map_entries a) = fst ` set (map_entries b)"
proof -
  have "map_size a = map_size b" if "map fst (map_entries a) = map fst (map_entries b)"
    using arg_cong [OF that, of length] by (simp add: map_size_spec [OF assms(1)] map_size_spec [OF assms(2)])
  moreover have "map fst (map_entries a) = map fst (map_entries b) \<longleftrightarrow> fst ` set (map_entries a) = fst ` set (map_entries b)"
    using ordered_same_set assms by (metis ordered_map_entries image_set)
  ultimately show ?thesis
    using assms by (auto simp: set_equal_def set_iterate_spec)
qed

lemma union_with_spec:
  assumes "map_ok compare a" "map_ok compare b"
    and "length (map_entries a) + length (map_entries b) < 2 ^ 31"
  shows "\<exists>s. union_with compare a b = Some s \<and> map_ok compare s
    \<and> fst ` set (map_entries s) = fst ` set (map_entries a) \<union> fst ` set (map_entries b)"
proof -
  show ?thesis
  proof (cases "map_size a < map_size b")
    case True
    then show ?thesis
      using set_iterate_spec [OF assms(1)] sset_insert_all_spec [OF assms(2), of "map fst (map_entries a)"] assms(3)
      by (auto simp: union_with_def ac_simps Un_commute)
  next
    case False
    then show ?thesis
      using set_iterate_spec [OF assms(2)] sset_insert_all_spec [OF assms(1), of "map fst (map_entries b)"] assms(3)
      by (auto simp: union_with_def)
  qed
qed

end

section \<open>The depth of a tree\<close>

fun depth :: "('k, 'v) LlrbNode \<Rightarrow> nat" where
  "depth EmptyRep = 0"
| "depth (Rep e c s l r) = Suc (max (depth l) (depth r))"

lemma depth_black_height:
  "balanced t \<Longrightarrow> depth t \<le> 2 * black_height t + (if red t then 1 else 0)"
  by (induction t) (auto split: if_splits)

lemma black_height_entries: "balanced t \<Longrightarrow> 2 ^ black_height t \<le> Suc (length (entries t))"
  by (induction t) auto

lemma depth_bound:
  assumes "valid compare t"
  shows "2 ^ depth t \<le> (Suc (length (entries t))) ^ 2"
proof -
  have "depth t \<le> 2 * black_height t"
    using depth_black_height [of t] assms by (simp add: valid_def)
  then have "(2 :: nat) ^ depth t \<le> 2 ^ (2 * black_height t)"
    by (intro power_increasing) auto
  also have "\<dots> = (2 ^ black_height t) ^ 2"
    by (simp add: power_mult [symmetric] mult.commute)
  also have "\<dots> \<le> (Suc (length (entries t))) ^ 2"
    using black_height_entries [of t] assms by (intro power_mono) (auto simp: valid_def)
  finally show ?thesis .
qed

section \<open>Maps from an initializer list\<close>

definition weakly_ordered :: "('k \<Rightarrow> 'k \<Rightarrow> ComparisonResult) \<Rightarrow> ('k \<times> 'v) list \<Rightarrow> bool" where
  "weakly_ordered compare xs \<longleftrightarrow> sorted_wrt (\<lambda>a b. compare (fst a) (fst b) \<noteq> Descending) xs"

lemma insort_entry_facts:
  "set (insort_entry compare x xs) = insert x (set xs)"
  "length (insort_entry compare x xs) = Suc (length xs)"
  "distinct (map fst (insort_entry compare x xs)) \<longleftrightarrow> fst x \<notin> fst ` set xs \<and> distinct (map fst xs)"
proof -
  show set: "set (insort_entry compare x xs) = insert x (set xs)" for xs
    by (induction xs) auto
  show "length (insort_entry compare x xs) = Suc (length xs)"
    by (induction xs) auto
  show "distinct (map fst (insort_entry compare x xs)) \<longleftrightarrow> fst x \<notin> fst ` set xs \<and> distinct (map fst xs)"
    by (induction xs) (auto simp: set)
qed

lemma insort_entries_facts:
  "set (foldr (insort_entry compare) es []) = set es"
  "length (foldr (insort_entry compare) es []) = length es"
  "distinct (map fst (foldr (insort_entry compare) es [])) \<longleftrightarrow> distinct (map fst es)"
  by (induction es) (auto simp: insort_entry_facts)

context key_order
begin

lemma weakly_ordered_insort:
  "weakly_ordered compare xs \<Longrightarrow> weakly_ordered compare (insort_entry compare x xs)"
proof (induction xs)
  case (Cons y ys)
  have ge: "compare (fst x) (fst z) \<noteq> Descending"
    if "compare (fst y) (fst x) \<noteq> Ascending" "compare (fst y) (fst z) \<noteq> Descending" for z
    using that trans [of "fst z" "fst x" "fst y"] trans [of "fst y" "fst z" "fst x"]
    by (cases "compare (fst y) (fst z)") (auto simp: descending same)
  show ?case
    using Cons ge by (auto simp: weakly_ordered_def insort_entry_facts descending)
      (metis ComparisonResult.distinct(1) trans compare_refl)
qed (simp add: weakly_ordered_def)

lemma ordered_weakly: "ordered compare xs \<longleftrightarrow> weakly_ordered compare xs \<and> distinct (map fst xs)"
proof (induction xs)
  case (Cons x xs)
  have "(\<forall>y\<in>set xs. compare (fst x) (fst y) = Ascending) \<longleftrightarrow>
      (\<forall>y\<in>set xs. compare (fst x) (fst y) \<noteq> Descending) \<and> fst x \<notin> fst ` set xs"
    by (auto simp: image_iff) (metis ComparisonResult.exhaust same fst_conv)
  with Cons show ?case by (auto simp: ordered_simps weakly_ordered_def)
qed (simp add: weakly_ordered_def)

lemma map_init_spec:
  assumes "length es \<le> kFixedSize"
  shows "\<exists>m. map_init compare es = Some m \<and> (map_ok compare m \<longleftrightarrow> distinct (map fst es))
    \<and> map_size m = of_nat (length es) \<and> (distinct (map fst es) \<longrightarrow> map_of (map_entries m) = map_of es)"
proof -
  let ?a = "foldr (insort_entry compare) es []"
  have "weakly_ordered compare ?a"
    by (induction es) (simp_all add: weakly_ordered_insort, simp add: weakly_ordered_def)
  then have "ordered compare ?a \<longleftrightarrow> distinct (map fst es)"
    by (simp add: ordered_weakly insort_entries_facts)
  moreover have "map_of ?a = map_of es" if "distinct (map fst es)"
    using that by (subst map_of_inject_set) (simp_all add: insort_entries_facts)
  ultimately show ?thesis
    using assms by (simp add: map_init_def SortedArray_def fixed_append_def insort_entries_facts)
qed

end

section \<open>Properties\<close>

text \<open>
  C8: Firestore's red-black tree keeps its invariant and refines the ordered list of its entries.
  For every comparator that orders its keys totally, inserting into and erasing from a well-formed
  tree (left-leaning, no red node with a red child, equal black heights, a black root, exact
  31-bit sizes, keys strictly ascending) gives a well-formed tree again, whose entries are the old
  ones with the key set, or without the key; a missing key leaves the entries as they are. The
  insertion needs room in the 31 bits of the size.
\<close>
theorem tree_stays_balanced:
  assumes "key_order compare" "valid compare t"
  shows "(length (entries t) < 2 ^ 31 - 1 \<longrightarrow>
      valid compare (node_insert compare k v t)
      \<and> entries (node_insert compare k v t) = list_insert compare k v (entries t))
    \<and> valid compare (node_erase compare k t)
    \<and> entries (node_erase compare k t) = list_erase k (entries t)"
  using key_order.node_insert_spec [OF assms] key_order.node_erase_spec [OF assms] by blast

theorem tree_stays_balanced_witness:
  "let t = Rep (2 :: nat, ''b'') Black 2 (Rep (1, ''a'') Red 1 EmptyRep EmptyRep) EmptyRep
   in valid DefaultComparator (node_insert DefaultComparator 3 ''c'' t)
      \<and> valid DefaultComparator (node_erase DefaultComparator 2 t)
      \<and> entries (node_erase DefaultComparator 2 t) = [(1, ''a'')]"
  using tree_stays_balanced [OF default_order.key_order_axioms,
      of "Rep (2 :: nat, ''b'') Black 2 (Rep (1, ''a'') Red 1 EmptyRep EmptyRep) EmptyRep" 3 "''c''"]
    tree_stays_balanced [OF default_order.key_order_axioms,
      of "Rep (2 :: nat, ''b'') Black 2 (Rep (1, ''a'') Red 1 EmptyRep EmptyRep) EmptyRep" 2 "''c''"]
  by (simp add: valid_def ordered_def small_def weight_def DefaultComparator_def list_erase_def)

text \<open>The search loops of a tree, cut off after \<open>n\<close> rounds: \<open>None\<close> when they are not done by then.\<close>

fun contains_within :: "nat \<Rightarrow> ('k \<Rightarrow> 'k \<Rightarrow> ComparisonResult) \<Rightarrow> 'k \<Rightarrow> ('k, 'v) LlrbNode \<Rightarrow> bool option" where
  "contains_within n compare k EmptyRep = Some False"
| "contains_within n compare k (Rep e c s l r) =
     (if node_empty (Rep e c s l r) then Some False
      else case n of
             0 \<Rightarrow> None
           | Suc n \<Rightarrow>
               (case compare k (fst e) of
                  Same \<Rightarrow> Some True
                | Ascending \<Rightarrow> contains_within n compare k l
                | Descending \<Rightarrow> contains_within n compare k r))"

fun find_index_within ::
    "nat \<Rightarrow> ('k \<Rightarrow> 'k \<Rightarrow> ComparisonResult) \<Rightarrow> 'k \<Rightarrow> u32 \<Rightarrow> ('k, 'v) LlrbNode \<Rightarrow> u32 option" where
  "find_index_within n compare k pruned_nodes EmptyRep = Some npos"
| "find_index_within n compare k pruned_nodes (Rep e c s l r) =
     (if node_empty (Rep e c s l r) then Some npos
      else case n of
             0 \<Rightarrow> None
           | Suc n \<Rightarrow>
               (case compare k (fst e) of
                  Same \<Rightarrow> Some (pruned_nodes + node_size l)
                | Ascending \<Rightarrow> find_index_within n compare k pruned_nodes l
                | Descending \<Rightarrow> find_index_within n compare k (pruned_nodes + (node_size l + 1)) r))"

fun lower_bound_within ::
    "nat \<Rightarrow> ('k \<Rightarrow> 'k \<Rightarrow> ComparisonResult) \<Rightarrow> 'k \<Rightarrow> ('k, 'v) LlrbNode \<Rightarrow> ('k, 'v) tree_iter \<Rightarrow> ('k, 'v) tree_iter option" where
  "lower_bound_within n compare k EmptyRep stack = Some stack"
| "lower_bound_within n compare k (Rep e c s l r) stack =
     (if node_empty (Rep e c s l r) then Some stack
      else case n of
             0 \<Rightarrow> None
           | Suc n \<Rightarrow>
               (case compare k (fst e) of
                  Same \<Rightarrow> Some (Rep e c s l r # stack)
                | Ascending \<Rightarrow> lower_bound_within n compare k l (Rep e c s l r # stack)
                | Descending \<Rightarrow> lower_bound_within n compare k r stack))"

lemma search_within_depth:
  "depth t \<le> n \<Longrightarrow> contains_within n compare k t = Some (tree_contains compare k t)"
  "depth t \<le> n \<Longrightarrow> find_index_within n compare k p t = Some (tree_find_index compare k p t)"
  "depth t \<le> n \<Longrightarrow> lower_bound_within n compare k t st = Some (LowerBound compare k t st)"
  by (induction t arbitrary: n p st) (auto split: nat.splits ComparisonResult.splits)

text \<open>The maps that histories build, with the finite map they describe.\<close>

lemma history_entries:
  assumes "key_order compare" "length ops < 2 ^ 31"
  obtains m where "run_ops compare ops map_new = Some m" "map_ok compare m"
    "length (map_entries m) = card (dom (fold op_effect ops Map.empty))"
proof -
  note ord = assms(1)
  obtain m where m: "run_ops compare ops map_new = Some m" "map_ok compare m"
    "map_of (map_entries m) = fold op_effect ops Map.empty"
    using key_order.run_ops_spec [OF ord, of map_new ops] assms(2) by (auto simp: key_order.map_new_ok [OF ord])
  have "distinct (map fst (map_entries m))"
    by (intro key_order.ordered_distinct [OF ord] key_order.ordered_map_entries [OF ord] m(2))
  from distinct_card [OF this] have "length (map_entries m) = card (dom (fold op_effect ops Map.empty))"
    by (simp add: dom_map_of_conv_image_fst flip: m(3))
  with m that show ?thesis by blast
qed

text \<open>
  C28: Searches take a logarithmic number of rounds, whatever the history. The map after any history of
  insertions and removals is an array of at most 25 entries or a tree on which, for any key, the loops
  of \<open>contains\<close>, \<open>find_index\<close> and \<open>LowerBound\<close> end within \<open>n\<close> rounds of one comparison each, with the
  result they have without a limit, for every \<open>n\<close> with \<open>(entries + 1) ^ 2 < 2 ^ (n + 1)\<close>, so
  within \<open>2 * log (entries + 1)\<close> rounds.
\<close>
theorem searches_are_logarithmic:
  assumes "key_order compare" "length ops < 2 ^ 31"
    and "(Suc (card (dom (fold op_effect ops Map.empty)))) ^ 2 < 2 ^ Suc n"
  shows "\<exists>m. run_ops compare ops map_new = Some m
    \<and> (case m of
         Array a \<Rightarrow> length a = card (dom (fold op_effect ops Map.empty)) \<and> length a \<le> 25
       | Tree t \<Rightarrow> contains_within n compare k t = Some (tree_contains compare k t)
           \<and> find_index_within n compare k p t = Some (tree_find_index compare k p t)
           \<and> lower_bound_within n compare k t st = Some (LowerBound compare k t st))"
proof -
  obtain m where m: "run_ops compare ops map_new = Some m" "map_ok compare m"
    "length (map_entries m) = card (dom (fold op_effect ops Map.empty))"
    by (rule history_entries [OF assms(1,2)])
  have "depth t \<le> n" if "m = Tree t" for t
  proof -
    have "2 ^ depth t \<le> (Suc (length (entries t))) ^ 2" using m(2) that depth_bound [of compare t] by simp
    also have "\<dots> < 2 ^ Suc n" using assms(3) m(3) that by simp
    finally show ?thesis by (simp only: power_strict_increasing_iff less_Suc_eq_le)
  qed
  with m show ?thesis by (cases m) (simp_all add: search_within_depth kFixedSize_def)
qed

lemma inserts_effect: "dom (fold op_effect (map (\<lambda>i. Insert i (f i)) xs) M) = set xs \<union> dom M"
  by (induction xs arbitrary: M) auto

theorem searches_are_logarithmic_witness:
  "\<exists>t. run_ops DefaultComparator (map (\<lambda>i. Insert i (i * i)) [0..<30 :: nat]) map_new = Some (Tree t)
    \<and> contains_within 9 DefaultComparator 11 t = Some (tree_contains DefaultComparator 11 t)"
proof -
  let ?ops = "map (\<lambda>i. Insert i (i * i)) [0..<30 :: nat]"
  have n: "card (dom (fold op_effect ?ops Map.empty)) = 30" by (simp only: inserts_effect) simp
  then have bound: "(Suc (card (dom (fold op_effect ?ops Map.empty)))) ^ 2 < 2 ^ Suc 9" by simp
  have "length ?ops < 2 ^ 31" by simp
  from searches_are_logarithmic [OF default_order.key_order_axioms this bound, of 11 0 "[]"]
  show ?thesis
  proof (elim exE conjE)
    fix m
    assume "run_ops DefaultComparator ?ops map_new = Some m"
      and "case m of Array a \<Rightarrow> length a = card (dom (fold op_effect ?ops Map.empty)) \<and> length a \<le> 25
         | Tree t \<Rightarrow> contains_within 9 DefaultComparator 11 t = Some (tree_contains DefaultComparator 11 t)
           \<and> find_index_within 9 DefaultComparator 11 0 t = Some (tree_find_index DefaultComparator 11 0 t)
           \<and> lower_bound_within 9 DefaultComparator 11 t [] = Some (LowerBound DefaultComparator 11 t [])"
    with n show ?thesis by (cases m) auto
  qed
qed

text \<open>
  C3: Any history of insertions and removals on an empty sorted map succeeds - no \<open>HARD_ASSERT\<close> of
  the array representation fails, whichever representation the map is in - and the map then is the
  finite map the history describes: \<open>get\<close> and \<open>contains\<close> answer as that map, and iterating from
  \<open>begin()\<close> to \<open>end()\<close> visits every entry once, in strictly ascending order of the keys.
\<close>
theorem sorted_map_history:
  assumes "key_order compare" "length ops < 2 ^ 31"
  shows "\<exists>m xs. run_ops compare ops map_new = Some m
    \<and> (\<forall>k. map_get compare k m = fold op_effect ops Map.empty k)
    \<and> (\<forall>k. map_contains compare k m \<longleftrightarrow> k \<in> dom (fold op_effect ops Map.empty))
    \<and> iterate (unat (map_size m)) (map_begin m) (map_end m) = Some xs
    \<and> ordered compare xs \<and> map_of xs = fold op_effect ops Map.empty
    \<and> map_size m = of_nat (card (dom (fold op_effect ops Map.empty)))"
proof -
  note ord = assms(1)
  obtain m where m: "run_ops compare ops map_new = Some m" "map_ok compare m"
    "map_of (map_entries m) = fold op_effect ops Map.empty"
    using key_order.run_ops_spec [OF ord, of map_new ops] assms(2) by (auto simp: key_order.map_new_ok [OF ord])
  have distinct: "distinct (map fst (map_entries m))"
    by (intro key_order.ordered_distinct [OF ord] key_order.ordered_map_entries [OF ord] m(2))
  have dom: "fst ` set (map_entries m) = dom (fold op_effect ops Map.empty)"
    by (simp add: dom_map_of_conv_image_fst flip: m(3))
  have "length (map_entries m) = card (fst ` set (map_entries m))"
    using distinct_card [OF distinct] by simp
  with dom m show ?thesis
    using key_order.map_get_spec [OF ord m(2)] key_order.map_contains_spec [OF ord m(2)]
      key_order.iterate_map [OF ord m(2)] key_order.ordered_map_entries [OF ord m(2)]
      key_order.map_size_spec [OF ord m(2)] by auto
qed

theorem sorted_map_history_witness:
  "\<exists>m. run_ops DefaultComparator (map (\<lambda>i. Insert i (i * i)) [0..<30] @ [Erase 7]) map_new = Some m
    \<and> map_get DefaultComparator 7 m = None \<and> map_get DefaultComparator 29 m = Some 841"
proof -
  let ?ops = "map (\<lambda>i. Insert i (i * i)) [0..<30] @ [Erase (7 :: nat)]"
  have "fold op_effect ?ops Map.empty 7 = None" "fold op_effect ?ops Map.empty 29 = Some 841"
    by (simp_all add: upt_conv_Cons)
  then show ?thesis
    using sorted_map_history [OF default_order.key_order_axioms, of ?ops] by fastforce
qed

text \<open>
  C18: The queries of a well-formed map, in both representations: \<open>size\<close>, \<open>contains\<close>, \<open>get\<close> and
  \<open>find_index\<close> (the position of the key in the order, \<open>npos\<close> when it is missing) answer for the
  ordered list of its entries, \<open>min\<close> and \<open>max\<close> point to its first and last entry, and
  \<open>lower_bound\<close> to the first entry that is not less than the key.
\<close>
theorem map_queries_exact:
  assumes "key_order compare" "map_ok compare m"
  shows "map_size m = of_nat (length (map_entries m))
    \<and> (map_contains compare k m \<longleftrightarrow> k \<in> fst ` set (map_entries m))
    \<and> map_get compare k m = map_of (map_entries m) k
    \<and> map_find_index compare k m =
        (case index_of k (map_entries m) of Some i \<Rightarrow> of_nat i | None \<Rightarrow> npos)
    \<and> map_iter_get (map_min m) = (case map_entries m of [] \<Rightarrow> None | x # _ \<Rightarrow> Some x)
    \<and> map_iter_get (map_max m) = (if map_entries m = [] then None else Some (last (map_entries m)))
    \<and> map_remaining (map_lower_bound compare k m) = filter (\<lambda>x. compare (fst x) k \<noteq> Ascending) (map_entries m)"
proof -
  note ord = assms(1) and ok = assms(2)
  have "map_remaining (map_lower_bound compare k m) = filter (\<lambda>x. compare (fst x) k \<noteq> Ascending) (map_entries m)"
    using key_order.map_lower_bound_spec [OF ord ok, of k]
      key_order.from_key_filter [OF ord key_order.ordered_map_entries [OF ord ok], of k] by simp
  then show ?thesis
    using key_order.map_size_spec [OF ord ok] key_order.map_contains_spec [OF ord ok]
      key_order.map_get_spec [OF ord ok] key_order.map_find_index_spec [OF ord ok]
      key_order.map_min_spec [OF ord ok] key_order.map_max_spec [OF ord ok] by blast
qed

theorem map_queries_exact_witness:
  "map_find_index DefaultComparator 2 (Tree (Rep (2 :: nat, ''b'') Black 2 (Rep (1, ''a'') Red 1 EmptyRep EmptyRep) EmptyRep)) = 1"
  using map_queries_exact [OF default_order.key_order_axioms,
      of "Tree (Rep (2 :: nat, ''b'') Black 2 (Rep (1, ''a'') Red 1 EmptyRep EmptyRep) EmptyRep)" 2]
  by (simp add: valid_def ordered_def small_def weight_def DefaultComparator_def index_of_def del: map_find_index.simps)

text \<open>
  C19: The view \<open>keys_in(start, end)\<close> of a well-formed map visits exactly the entries whose keys are
  not less than \<open>start\<close> and less than \<open>end\<close>, in ascending order; when \<open>end\<close> does not come after
  \<open>start\<close> the view is empty, and its iteration stops at once instead of running past the end.
\<close>
theorem keys_in_range:
  assumes "key_order compare" "map_ok compare m"
  shows "iterate (unat (map_size m)) (fst (KeysViewIn compare a b m)) (snd (KeysViewIn compare a b m)) =
    Some (filter (\<lambda>x. compare (fst x) a \<noteq> Ascending \<and> compare (fst x) b = Ascending) (map_entries m))"
  by (rule key_order.keys_in_spec [OF assms])

theorem keys_in_range_witness:
  "let m = Tree (Rep (2 :: nat, ''b'') Black 2 (Rep (1, ''a'') Red 1 EmptyRep EmptyRep) EmptyRep)
   in iterate (unat (map_size m)) (fst (KeysViewIn DefaultComparator 2 5 m)) (snd (KeysViewIn DefaultComparator 2 5 m))
      = Some [(2, ''b'')]"
  using keys_in_range [OF default_order.key_order_axioms,
      of "Tree (Rep (2 :: nat, ''b'') Black 2 (Rep (1, ''a'') Red 1 EmptyRep EmptyRep) EmptyRep)" 2 5]
  by (simp add: valid_def ordered_def small_def weight_def DefaultComparator_def)

text \<open>
  The union of two well-formed sets is a well-formed set that holds just the keys of both,
  whichever of the two is inserted into the other, and two well-formed sets compare equal just
  when they hold the same keys, whatever their representations.
\<close>
theorem set_union_and_equality:
  assumes "key_order compare" "map_ok compare a" "map_ok compare b"
    and "length (map_entries a) + length (map_entries b) < 2 ^ 31"
  shows "(\<exists>s. union_with compare a b = Some s \<and> map_ok compare s
      \<and> fst ` set (map_entries s) = fst ` set (map_entries a) \<union> fst ` set (map_entries b))
    \<and> (set_equal a b \<longleftrightarrow> fst ` set (map_entries a) = fst ` set (map_entries b))"
  using key_order.union_with_spec [OF assms] key_order.set_equal_spec [OF assms(1-3)] by blast

text \<open>
  C29: A map constructed from an initializer list of at most 25 entries holds all of them: it is a
  well-formed map, and the finite map of the list, just when the keys of the list are distinct. A
  repeated key is kept twice, unlike in every other way to build a map. A longer list yields
  no usable map, as its \<open>tag_\<close> is never set.
\<close>
theorem initializer_needs_distinct_keys:
  assumes "key_order compare"
  shows "(if length es \<le> 25 then
      \<exists>m. map_init compare es = Some m \<and> (map_ok compare m \<longleftrightarrow> distinct (map fst es))
        \<and> map_size m = of_nat (length es) \<and> (distinct (map fst es) \<longrightarrow> map_of (map_entries m) = map_of es)
    else map_init compare es = None)"
  using key_order.map_init_spec [OF assms, of es] by (simp add: kFixedSize_def) (simp add: map_init_def kFixedSize_def)

theorem initializer_needs_distinct_keys_witness:
  "\<exists>m. map_init DefaultComparator [(1 :: nat, ''a''), (1, ''b'')] = Some m \<and> \<not> map_ok DefaultComparator m \<and> map_size m = 2"
  using initializer_needs_distinct_keys [OF default_order.key_order_axioms, of "[(1 :: nat, ''a''), (1, ''b'')]"] by auto

end
