(* ===== verification/AppendList.thy ===== *)
theory AppendList
  imports Prelude
begin

text \<open>
  Firestore's append-only lists (\<open>Firestore/core/src/immutable/append_only_list.h\<close>), with the heap of
  vectors that the lists share: \<open>push_back\<close> on the last list of a chain extends the vector in place,
  on any other list it copies. The lists behave as immutable values, and no vector ever moves.
  Lengths are natural numbers: a vector of \<open>2 ^ 64\<close> elements does not fit into memory.
\<close>

section \<open>Vectors and lists\<close>

text \<open>
  A vector on the heap: its elements and the capacity it has reserved. A list is the pointer to a
  vector and its own length. The store is the sequence of the vectors allocated so far, a pointer
  an index into it.
\<close>

record 'a vec =
  elems :: "'a list"
  vcapacity :: nat

record aol =
  contents :: "nat option"
  asize :: nat

type_synonym 'a vecs = "'a vec list"

definition aol_begin_end :: "'a vecs \<Rightarrow> aol \<Rightarrow> 'a list" where
  "aol_begin_end st l =
     (case contents l of None \<Rightarrow> [] | Some p \<Rightarrow> if asize l = 0 then [] else take (asize l) (elems (st ! p)))"

definition aol_capacity :: "'a vecs \<Rightarrow> aol \<Rightarrow> nat" where
  "aol_capacity st l = (case contents l of None \<Rightarrow> 0 | Some p \<Rightarrow> vcapacity (st ! p))"

definition aol_empty :: "aol \<Rightarrow> bool" where
  "aol_empty l \<longleftrightarrow> asize l = 0"

text \<open>
  \<open>std::vector::reserve(n)\<close> on a new vector makes its capacity at least \<open>n\<close>; how much larger is up to
  the library: \<open>reserved n\<close>.
\<close>

definition PrepareForAppend :: "(nat \<Rightarrow> nat) \<Rightarrow> nat \<Rightarrow> aol \<Rightarrow> 'a vecs \<Rightarrow> nat \<times> 'a vecs" where
  "PrepareForAppend reserved new_size l st =
     (let fresh = (\<lambda>min_capacity. (length st, st @ [\<lparr>elems = aol_begin_end st l, vcapacity = reserved min_capacity\<rparr>]))
      in case contents l of
           None \<Rightarrow> fresh new_size
         | Some p \<Rightarrow>
             if asize l = length (elems (st ! p)) \<and> new_size \<le> vcapacity (st ! p) then (p, st)
             else fresh (max new_size (vcapacity (st ! p) * 2 mod 2 ^ 64)))"

text \<open>
  \<open>std::vector::push_back\<close>: within its capacity the vector stays where it is. Beyond it the elements
  would move, and every pointer into them dangle: \<open>None\<close>.
\<close>

definition vec_push_back :: "nat \<Rightarrow> 'a \<Rightarrow> 'a vecs \<Rightarrow> 'a vecs option" where
  "vec_push_back p v st =
     (if length (elems (st ! p)) < vcapacity (st ! p)
      then Some (st [p := (st ! p) \<lparr>elems := elems (st ! p) @ [v]\<rparr>]) else None)"

definition push_back :: "(nat \<Rightarrow> nat) \<Rightarrow> 'a \<Rightarrow> aol \<Rightarrow> 'a vecs \<Rightarrow> (aol \<times> 'a vecs) option" where
  "push_back reserved v l st =
     (let new_size = asize l + 1;
          (p, st) = PrepareForAppend reserved new_size l st
      in map_option (Pair \<lparr>contents = Some p, asize = new_size\<rparr>) (vec_push_back p v st))"

definition aol_reserve :: "(nat \<Rightarrow> nat) \<Rightarrow> nat \<Rightarrow> aol \<Rightarrow> 'a vecs \<Rightarrow> aol \<times> 'a vecs" where
  "aol_reserve reserved n l st =
     (if n \<le> asize l then (l, st)
      else let (p, st) = PrepareForAppend reserved n l st in (\<lparr>contents = Some p, asize = asize l\<rparr>, st))"

definition pop_back :: "aol \<Rightarrow> aol" where
  "pop_back l =
     (if asize l \<le> 1 then \<lparr>contents = None, asize = 0\<rparr>
      else \<lparr>contents = contents l, asize = asize l - 1\<rparr>)"

definition aol_init :: "(nat \<Rightarrow> nat) \<Rightarrow> 'a list \<Rightarrow> 'a vecs \<Rightarrow> aol \<times> 'a vecs" where
  "aol_init reserved es st =
     (\<lparr>contents = Some (length st), asize = length es\<rparr>,
      st @ [\<lparr>elems = es, vcapacity = reserved (length es)\<rparr>])"

definition aol_equal :: "'a vecs \<Rightarrow> aol \<Rightarrow> aol \<Rightarrow> bool" where
  "aol_equal st l r \<longleftrightarrow> aol_begin_end st l = aol_begin_end st r"

section \<open>The invariant\<close>

definition vecs_ok :: "'a vecs \<Rightarrow> bool" where
  "vecs_ok st \<longleftrightarrow> (\<forall>v\<in>set st. length (elems v) \<le> vcapacity v)"

definition aol_ok :: "'a vecs \<Rightarrow> aol \<Rightarrow> bool" where
  "aol_ok st l \<longleftrightarrow>
     (case contents l of None \<Rightarrow> asize l = 0 | Some p \<Rightarrow> p < length st \<and> asize l \<le> length (elems (st ! p)))"

text \<open>A later store: every vector is where it was, with the capacity it had, and has only grown at its end.\<close>

definition vec_grown :: "'a vecs \<Rightarrow> 'a vecs \<Rightarrow> bool" where
  "vec_grown st st' \<longleftrightarrow> length st \<le> length st' \<and>
     (\<forall>p < length st. vcapacity (st' ! p) = vcapacity (st ! p) \<and>
        take (length (elems (st ! p))) (elems (st' ! p)) = elems (st ! p))"

lemma vec_grown_refl [simp]: "vec_grown st st"
  by (simp add: vec_grown_def)

lemma take_prefix_trans:
  "take (length xs) ys = xs \<Longrightarrow> take (length ys) zs = ys \<Longrightarrow> take (length xs) zs = xs"
  by (metis append_take_drop_id append_eq_append_conv_if append.assoc append_eq_conv_conj)

lemma vec_grown_trans: "vec_grown st st' \<Longrightarrow> vec_grown st' st'' \<Longrightarrow> vec_grown st st''"
  unfolding vec_grown_def by (auto intro: take_prefix_trans)

lemma vec_grown_snoc: "vec_grown st (st @ vs)"
  by (auto simp: vec_grown_def nth_append)

lemma vec_grown_values:
  assumes "vec_grown st st'" "aol_ok st l"
  shows "aol_ok st' l \<and> aol_begin_end st' l = aol_begin_end st l"
proof (cases "contents l")
  case (Some p)
  then have p: "p < length st" "asize l \<le> length (elems (st ! p))"
    using assms(2) by (simp_all add: aol_ok_def)
  then have pre: "take (length (elems (st ! p))) (elems (st' ! p)) = elems (st ! p)" and "p < length st'"
    using assms(1) by (auto simp: vec_grown_def)
  moreover have "length (elems (st ! p)) \<le> length (elems (st' ! p))"
    using arg_cong [OF pre, of length] by simp
  moreover have "take (asize l) (elems (st' ! p)) = take (asize l) (elems (st ! p))"
    using arg_cong [OF pre, of "take (asize l)"] p(2) by (simp add: min_def)
  ultimately show ?thesis using p by (simp add: Some aol_ok_def aol_begin_end_def)
qed (use assms in \<open>simp add: aol_ok_def aol_begin_end_def\<close>)

lemma length_begin_end: "aol_ok st l \<Longrightarrow> length (aol_begin_end st l) = asize l"
  by (auto simp: aol_ok_def aol_begin_end_def min_def split: option.splits)

lemma PrepareForAppend_spec:
  assumes "vecs_ok st" "aol_ok st l" "\<And>n. n \<le> reserved n" "asize l \<le> new_size"
  obtains p st' where "PrepareForAppend reserved new_size l st = (p, st')" "vecs_ok st'" "vec_grown st st'"
    "p < length st'" "elems (st' ! p) = aol_begin_end st l" "new_size \<le> vcapacity (st' ! p)"
proof -
  have fresh: "vecs_ok (st @ [\<lparr>elems = aol_begin_end st l, vcapacity = reserved n\<rparr>])" if "asize l \<le> n" for n
    using assms(1,2) that order_trans [OF that assms(3) [of n]] by (simp add: vecs_ok_def length_begin_end)
  show ?thesis
  proof (cases "contents l")
    case None
    show ?thesis
      by (rule that [OF _ fresh vec_grown_snoc])
        (use None assms(3) [of new_size] assms(4) in \<open>auto simp: PrepareForAppend_def Let_def\<close>)
  next
    case (Some p)
    show ?thesis
    proof (cases "asize l = length (elems (st ! p)) \<and> new_size \<le> vcapacity (st ! p)")
      case True
      show ?thesis
        by (rule that [OF _ assms(1) vec_grown_refl])
          (use True Some assms(2) in \<open>auto simp: PrepareForAppend_def Let_def aol_ok_def aol_begin_end_def\<close>)
    next
      case False
      let ?n = "max new_size (vcapacity (st ! p) * 2 mod 2 ^ 64)"
      show ?thesis
        by (rule that [OF _ fresh [of ?n] vec_grown_snoc])
          (use False Some assms(4) order_trans [OF _ assms(3) [of ?n]] in \<open>auto simp: PrepareForAppend_def Let_def\<close>)
    qed
  qed
qed

lemma push_back_spec:
  assumes "vecs_ok st" "aol_ok st l" "\<And>n. n \<le> reserved n"
  shows "\<exists>l' st'. push_back reserved v l st = Some (l', st') \<and> vecs_ok st' \<and> vec_grown st st' \<and> aol_ok st' l'
     \<and> aol_begin_end st' l' = aol_begin_end st l @ [v] \<and> asize l' = asize l + 1"
proof -
  obtain p st' where pre: "PrepareForAppend reserved (asize l + 1) l st = (p, st')" "vecs_ok st'" "vec_grown st st'"
    "p < length st'" "elems (st' ! p) = aol_begin_end st l" "asize l + 1 \<le> vcapacity (st' ! p)"
    by (rule PrepareForAppend_spec [OF assms, of "asize l + 1"]) auto
  let ?st = "st' [p := (st' ! p) \<lparr>elems := elems (st' ! p) @ [v]\<rparr>]"
  have len: "length (elems (st' ! p)) = asize l"
    using pre(5) length_begin_end [OF assms(2)] by simp
  have "vecs_ok ?st"
    using pre(2,6) len by (auto simp: vecs_ok_def dest: set_update_subset_insert [THEN subsetD])
  moreover have "vec_grown st' ?st"
    using pre(4) by (auto simp: vec_grown_def nth_list_update)
  then have "vec_grown st ?st" by (rule vec_grown_trans [OF pre(3)])
  moreover have "aol_begin_end ?st \<lparr>contents = Some p, asize = asize l + 1\<rparr> = aol_begin_end st l @ [v]"
    using pre(4,5) len by (simp add: aol_begin_end_def)
  ultimately show ?thesis
    using pre len by (simp add: push_back_def vec_push_back_def aol_ok_def)
qed

lemma aol_reserve_spec:
  assumes "vecs_ok st" "aol_ok st l" "\<And>n. n \<le> reserved n" "aol_reserve reserved n l st = (l', st')"
  shows "vecs_ok st' \<and> vec_grown st st' \<and> aol_ok st' l' \<and> aol_begin_end st' l' = aol_begin_end st l
     \<and> (n \<le> asize l \<or> n \<le> aol_capacity st' l')"
proof (cases "n \<le> asize l")
  case True
  with assms show ?thesis by (simp add: aol_reserve_def)
next
  case False
  then obtain p st1 where pre: "PrepareForAppend reserved n l st = (p, st1)" "vecs_ok st1" "vec_grown st st1"
    "p < length st1" "elems (st1 ! p) = aol_begin_end st l" "n \<le> vcapacity (st1 ! p)"
    using PrepareForAppend_spec [OF assms(1-3), of n] by (metis nat_le_linear)
  with False assms(4) have res: "l' = \<lparr>contents = Some p, asize = asize l\<rparr>" "st' = st1"
    by (simp_all add: aol_reserve_def)
  have len: "length (aol_begin_end st l) = asize l" by (rule length_begin_end [OF assms(2)])
  with pre res have "aol_begin_end st' l' = aol_begin_end st l"
    by (auto simp: aol_begin_end_def [of st1])
  with pre res len show ?thesis by (simp add: aol_ok_def aol_capacity_def)
qed

lemma pop_back_spec:
  assumes "aol_ok st l"
  shows "aol_ok st (pop_back l) \<and> aol_begin_end st (pop_back l) = butlast (aol_begin_end st l)"
proof (cases "asize l \<le> 1")
  case True
  then have "length (aol_begin_end st l) \<le> 1" using length_begin_end [OF assms] by simp
  then have "butlast (aol_begin_end st l) = []" by (cases "aol_begin_end st l") auto
  with True show ?thesis by (simp add: pop_back_def aol_ok_def aol_begin_end_def)
next
  case False
  with assms show ?thesis
    by (auto simp: pop_back_def aol_ok_def aol_begin_end_def butlast_take split: option.splits)
qed

lemma aol_init_spec:
  assumes "vecs_ok st" "\<And>n. n \<le> reserved n" "aol_init reserved es st = (l, st')"
  shows "vecs_ok st' \<and> vec_grown st st' \<and> aol_ok st' l \<and> aol_begin_end st' l = es"
  using assms by (auto simp: aol_init_def vecs_ok_def aol_ok_def aol_begin_end_def vec_grown_snoc)

section \<open>Histories of lists that share vectors\<close>

text \<open>
  Operations on the lists made so far; each makes a new list, the next one. The default
  constructor and the constructor from an initializer list make one from nothing.
\<close>

datatype 'a list_op = New "'a list" | Push nat 'a | Pop nat | Reserve nat nat

fun run_list_op :: "(nat \<Rightarrow> nat) \<Rightarrow> 'a list_op \<Rightarrow> aol list \<times> 'a vecs \<Rightarrow> (aol list \<times> 'a vecs) option" where
  "run_list_op reserved (New es) (ls, st) = (let (l, st) = aol_init reserved es st in Some (ls @ [l], st))"
| "run_list_op reserved (Push i v) (ls, st) =
     (if i < length ls then map_option (\<lambda>(l, st). (ls @ [l], st)) (push_back reserved v (ls ! i) st) else Some (ls, st))"
| "run_list_op reserved (Pop i) (ls, st) =
     (if i < length ls then Some (ls @ [pop_back (ls ! i)], st) else Some (ls, st))"
| "run_list_op reserved (Reserve i n) (ls, st) =
     (if i < length ls then (let (l, st) = aol_reserve reserved n (ls ! i) st in Some (ls @ [l], st)) else Some (ls, st))"

fun run_list_ops :: "(nat \<Rightarrow> nat) \<Rightarrow> 'a list_op list \<Rightarrow> aol list \<times> 'a vecs \<Rightarrow> (aol list \<times> 'a vecs) option" where
  "run_list_ops reserved [] s = Some s"
| "run_list_ops reserved (op # ops) s = Option.bind (run_list_op reserved op s) (run_list_ops reserved ops)"

text \<open>The same history on plain values.\<close>

fun list_op_effect :: "'a list_op \<Rightarrow> 'a list list \<Rightarrow> 'a list list" where
  "list_op_effect (New es) vs = vs @ [es]"
| "list_op_effect (Push i v) vs = (if i < length vs then vs @ [vs ! i @ [v]] else vs)"
| "list_op_effect (Pop i) vs = (if i < length vs then vs @ [butlast (vs ! i)] else vs)"
| "list_op_effect (Reserve i n) vs = (if i < length vs then vs @ [vs ! i] else vs)"

definition lists_ok :: "aol list \<times> 'a vecs \<Rightarrow> bool" where
  "lists_ok s \<longleftrightarrow> vecs_ok (snd s) \<and> (\<forall>l\<in>set (fst s). aol_ok (snd s) l)"

definition list_values :: "aol list \<times> 'a vecs \<Rightarrow> 'a list list" where
  "list_values s = map (aol_begin_end (snd s)) (fst s)"

lemma lists_grow:
  assumes "lists_ok (ls, st)" "vecs_ok st'" "vec_grown st st'" "aol_ok st' l"
  shows "lists_ok (ls @ [l], st') \<and> list_values (ls @ [l], st') = list_values (ls, st) @ [aol_begin_end st' l]"
  using assms vec_grown_values [OF assms(3)] by (auto simp: lists_ok_def list_values_def)

lemma run_list_op_spec:
  assumes "lists_ok (ls, st)" "\<And>n. n \<le> reserved n"
  shows "\<exists>ls' st'. run_list_op reserved op (ls, st) = Some (ls @ ls', st') \<and> lists_ok (ls @ ls', st')
    \<and> vec_grown st st' \<and> list_values (ls @ ls', st') = list_op_effect op (list_values (ls, st))"
proof (cases op)
  case (New es)
  obtain l st' where "aol_init reserved es st = (l, st')" by fastforce
  with aol_init_spec [of st reserved es l st'] lists_grow [OF assms(1), of st' l] assms New show ?thesis
    by (auto simp: lists_ok_def)
next
  case (Push i v)
  show ?thesis
  proof (cases "i < length ls")
    case True
    then have "vecs_ok st" "aol_ok st (ls ! i)" using assms(1) by (simp_all add: lists_ok_def)
    from push_back_spec [OF this assms(2), of v] obtain l' st' where
      "push_back reserved v (ls ! i) st = Some (l', st')" "vecs_ok st'" "vec_grown st st'" "aol_ok st' l'"
      "aol_begin_end st' l' = aol_begin_end st (ls ! i) @ [v]" by blast
    with lists_grow [OF assms(1), of st' l'] True Push show ?thesis
      by (auto simp: list_values_def)
  next
    case False
    with assms Push show ?thesis by (auto simp: list_values_def intro!: exI [of _ "[]"])
  qed
next
  case (Pop i)
  show ?thesis
  proof (cases "i < length ls")
    case True
    then have "vecs_ok st" "aol_ok st (ls ! i)" using assms(1) by (simp_all add: lists_ok_def)
    with pop_back_spec [of st "ls ! i"] lists_grow [OF assms(1), of st "pop_back (ls ! i)"] True Pop show ?thesis
      by (auto simp: list_values_def)
  next
    case False
    with assms Pop show ?thesis by (auto simp: list_values_def intro!: exI [of _ "[]"])
  qed
next
  case (Reserve i n)
  show ?thesis
  proof (cases "i < length ls")
    case True
    then have ok: "vecs_ok st" "aol_ok st (ls ! i)" using assms(1) by (simp_all add: lists_ok_def)
    obtain l' st' where r: "aol_reserve reserved n (ls ! i) st = (l', st')" by fastforce
    from aol_reserve_spec [OF ok assms(2) r] lists_grow [OF assms(1), of st' l'] r True Reserve show ?thesis
      by (auto simp: list_values_def)
  next
    case False
    with assms Reserve show ?thesis by (auto simp: list_values_def intro!: exI [of _ "[]"])
  qed
qed

lemma run_list_ops_spec:
  assumes "\<And>n. n \<le> reserved n"
  shows "lists_ok (ls, st) \<Longrightarrow> \<exists>ls' st'. run_list_ops reserved ops (ls, st) = Some (ls @ ls', st')
    \<and> lists_ok (ls @ ls', st') \<and> vec_grown st st'
    \<and> list_values (ls @ ls', st') = fold list_op_effect ops (list_values (ls, st))"
proof (induction ops arbitrary: ls st)
  case Nil
  then show ?case by (auto intro!: exI [of _ "[]"])
next
  case (Cons op ops)
  obtain ls1 st1 where 1: "run_list_op reserved op (ls, st) = Some (ls @ ls1, st1)" "lists_ok (ls @ ls1, st1)"
    "vec_grown st st1" "list_values (ls @ ls1, st1) = list_op_effect op (list_values (ls, st))"
    using run_list_op_spec [OF Cons.prems assms, of op] by blast
  from Cons.IH [OF 1(2)] obtain ls2 st2 where
    "run_list_ops reserved ops (ls @ ls1, st1) = Some ((ls @ ls1) @ ls2, st2)" "lists_ok ((ls @ ls1) @ ls2, st2)"
    "vec_grown st1 st2"
    "list_values ((ls @ ls1) @ ls2, st2) = fold list_op_effect ops (list_values (ls @ ls1, st1))" by blast
  with 1 vec_grown_trans [OF 1(3)] show ?case
    by (intro exI [of _ "ls1 @ ls2"] exI [of _ st2]) simp
qed

section \<open>Properties\<close>

text \<open>
  C12: Append-only lists that share vectors behave as immutable values. In every history of
  constructions, appends, removals and reservations, each operation applied to any list made so
  far, old or new, the lists hold just the elements of the same history on plain values: an append
  through one list never shows in another. No append ever outgrows the vector it writes to, so
  no vector moves, the elements of a vector never change once written, and pointers into a list
  stay valid.
\<close>
theorem append_only_lists_are_values:
  assumes "\<And>n. n \<le> reserved n" "lists_ok (ls, st)"
  shows "\<exists>ls' st'. run_list_ops reserved ops (ls, st) = Some (ls @ ls', st')
    \<and> list_values (ls @ ls', st') = fold list_op_effect ops (list_values (ls, st))
    \<and> (\<forall>p < length st. vcapacity (st' ! p) = vcapacity (st ! p)
        \<and> take (length (elems (st ! p))) (elems (st' ! p)) = elems (st ! p))"
  using run_list_ops_spec [OF assms, of ops] by (auto simp: vec_grown_def)

theorem append_only_lists_are_values_witness:
  "\<exists>ls' st'. run_list_ops (\<lambda>n. n) [New [1 :: nat], Reserve 0 9, Push 1 2, Push 2 3, Push 2 4, Pop 3] ([], []) = Some (ls', st')
    \<and> list_values (ls', st') = [[1], [1], [1, 2], [1, 2, 3], [1, 2, 4], [1, 2]]"
  using append_only_lists_are_values [of "\<lambda>n. n" "[]" "[]" "[New [1 :: nat], Reserve 0 9, Push 1 2, Push 2 3, Push 2 4, Pop 3]"]
  by (simp add: lists_ok_def list_values_def vecs_ok_def nth_append)

end
