(* ===== verification/BitScan.thy ===== *)
theory BitScan
  imports Prelude
begin

text \<open>
  Firestore's bit scans (\<open>Firestore/core/src/util/bits.h\<close>, \<open>bits.cc\<close>): the floor of a logarithm
  from the compiler's count of leading zeros, and the portable loops that compute it without one. Both
  give the same number for every word, and the loops' assertion never fails.
\<close>

section \<open>Floors of logarithms (util/bits.h, util/bits.cc)\<close>

text \<open>\<open>clz\<close> is the compiler's count of leading zero bits of a non-zero word.\<close>

fun clz_from :: "nat \<Rightarrow> 'a :: len word \<Rightarrow> nat" where
  "clz_from 0 w = 0"
| "clz_from (Suc i) w = (if bit w i then 0 else Suc (clz_from i w))"

definition clz :: "'a :: len word \<Rightarrow> nat" where
  "clz w = clz_from LENGTH('a) w"

definition Log2Floor :: "u32 \<Rightarrow> int" where
  "Log2Floor n = (if n = 0 then - 1 else 31 XOR int (clz n))"

definition Log2FloorNonZero :: "u32 \<Rightarrow> int" where
  "Log2FloorNonZero n = 31 XOR int (clz n)"

definition Log2Floor64 :: "u64 \<Rightarrow> int" where
  "Log2Floor64 n = (if n = 0 then - 1 else 63 XOR int (clz n))"

definition Log2FloorNonZero64 :: "u64 \<Rightarrow> int" where
  "Log2FloorNonZero64 n = 63 XOR int (clz n)"

fun log2_loop :: "nat \<Rightarrow> u32 \<Rightarrow> int \<Rightarrow> u32 \<times> int" where
  "log2_loop 0 v log = (v, log)"
| "log2_loop (Suc i) v log =
     (let shift = 2 ^ i; x = drop_bit shift v
      in if x \<noteq> 0 then log2_loop i x (log + int shift) else log2_loop i v log)"

definition Log2Floor_Portable :: "u32 \<Rightarrow> int option" where
  "Log2Floor_Portable n =
     (if n = 0 then Some (- 1)
      else let (v, log) = log2_loop 5 n 0 in if v = 1 then Some log else None)"

definition Log2Floor64_Portable :: "u64 \<Rightarrow> int option" where
  "Log2Floor64_Portable n =
     (let top_bits = ucast (drop_bit 32 n) :: u32
      in if top_bits = 0 then Log2Floor_Portable (ucast n)
         else map_option ((+) 32) (Log2Floor_Portable top_bits))"

lemma unat_split_bit: "unat w mod 2 ^ Suc i = (if bit w i then 2 ^ i else 0) + unat w mod 2 ^ i"
proof -
  have "unat w mod 2 ^ Suc i = 2 ^ i * (unat w div 2 ^ i mod 2) + unat w mod 2 ^ i"
    using mod_mult2_eq [of "unat w" "2 ^ i" 2] by (simp add: mult.commute)
  then show ?thesis by (simp add: bit_iff_unat odd_iff_mod_2_eq_one)
qed

lemma clz_from_spec:
  "unat w mod 2 ^ i \<noteq> 0 \<Longrightarrow>
     clz_from i w < i \<and> 2 ^ (i - 1 - clz_from i w) \<le> unat w mod 2 ^ i \<and> unat w mod 2 ^ i < 2 ^ (i - clz_from i w)"
proof (induction i)
  case (Suc i)
  show ?case
  proof (cases "bit w i")
    case True
    have "unat w mod 2 ^ Suc i < 2 ^ Suc i" by (rule mod_less_divisor) simp
    with True show ?thesis
      by (simp add: unat_split_bit del: power_Suc) 
  next
    case False
    then have "unat w mod 2 ^ Suc i = unat w mod 2 ^ i" by (simp add: unat_split_bit del: power_Suc)
    with Suc False show ?thesis by (simp del: power_Suc)
  qed
qed simp

lemma floor_log_unique:
  fixes j k :: nat
  assumes "2 ^ j \<le> (n :: nat)" "n < 2 ^ Suc j" "2 ^ k \<le> n" "n < 2 ^ Suc k"
  shows "j = k"
proof -
  have "(2 :: nat) ^ j < 2 ^ Suc k" "(2 :: nat) ^ k < 2 ^ Suc j"
    using assms by (auto intro: le_less_trans)
  then show ?thesis by (simp add: power_strict_increasing_iff del: power_Suc)
qed

lemma xor_all_ones:
  "c \<le> 31 \<Longrightarrow> 31 XOR int c = 31 - int c" "d \<le> 63 \<Longrightarrow> 63 XOR int d = 63 - int d"
proof -
  have "\<forall>c < 32. 31 XOR int c = 31 - int c" by (simp add: All_less_Suc numeral_eq_Suc)
  then show "c \<le> 31 \<Longrightarrow> 31 XOR int c = 31 - int c" by auto
  have "\<forall>d < 64. 63 XOR int d = 63 - int d" by (simp add: All_less_Suc numeral_eq_Suc)
  then show "d \<le> 63 \<Longrightarrow> 63 XOR int d = 63 - int d" by auto
qed

lemma Log2Floor64_spec:
  assumes "n \<noteq> 0"
  shows "\<exists>k. Log2Floor64 n = int k \<and> Log2FloorNonZero64 n = int k \<and> 2 ^ k \<le> unat n \<and> unat n < 2 ^ Suc k"
proof -
  have "unat n mod 2 ^ 64 = unat n" by simp
  moreover have "unat n \<noteq> 0" using assms by (simp add: unat_eq_0)
  ultimately have c: "clz n < 64" "2 ^ (63 - clz n) \<le> unat n" "unat n < 2 ^ (64 - clz n)"
    using clz_from_spec [of n 64] by (simp_all add: clz_def)
  then have "64 - clz n = Suc (63 - clz n)" by simp
  with c assms show ?thesis
    by (intro exI [of _ "63 - clz n"]) (simp add: Log2Floor64_def Log2FloorNonZero64_def xor_all_ones of_nat_diff)
qed

lemma Log2Floor_spec:
  assumes "n \<noteq> 0"
  shows "\<exists>k. Log2Floor n = int k \<and> Log2FloorNonZero n = int k \<and> 2 ^ k \<le> unat n \<and> unat n < 2 ^ Suc k"
proof -
  have "unat n < 2 ^ 32" using unsigned_less [of n] by simp
  then have "unat n mod 2 ^ 32 = unat n" by simp
  moreover have "unat n \<noteq> 0" using assms by (simp add: unat_eq_0)
  ultimately have c: "clz n < 32" "2 ^ (31 - clz n) \<le> unat n" "unat n < 2 ^ (32 - clz n)"
    using clz_from_spec [of n 32] by (simp_all add: clz_def)
  then have "32 - clz n = Suc (31 - clz n)" by simp
  with c assms show ?thesis
    by (intro exI [of _ "31 - clz n"]) (simp add: Log2Floor_def Log2FloorNonZero_def xor_all_ones of_nat_diff)
qed

lemma log2_loop_spec:
  "unat v < 2 ^ (2 ^ i) \<Longrightarrow> v \<noteq> 0 \<Longrightarrow>
     \<exists>k. log2_loop i v log = (1, log + int k) \<and> 2 ^ k \<le> unat v \<and> unat v < 2 ^ Suc k"
proof (induction i arbitrary: v log)
  case 0
  have "unat v \<noteq> 0" using 0(2) by (simp add: unat_eq_0)
  moreover have "unat v < 2" using 0(1) by simp
  ultimately have "unat v = unat (1 :: u32)" by simp
  then have "v = 1" by (simp only: word_unat_eq_iff)
  then show ?case by simp
next
  case (Suc i)
  let ?x = "drop_bit (2 ^ i) v"
  have x: "unat ?x = unat v div 2 ^ (2 ^ i)" by (rule trans [OF unat_drop_bit_eq drop_bit_eq_div])
  show ?case
  proof (cases "?x = 0")
    case True
    then have "unat v < 2 ^ (2 ^ i)" using drop_bit_eq_0_iff by blast
    with Suc True show ?thesis by simp
  next
    case False
    have "unat v < 2 ^ (2 ^ i) * 2 ^ (2 ^ i)" using Suc.prems(1) by (simp add: power_add [symmetric] mult_2)
    then have "unat ?x < 2 ^ (2 ^ i)" by (simp add: x less_mult_imp_div_less)
    from Suc.IH [OF this False, of "log + int (2 ^ i)"] obtain k where
      k: "log2_loop i ?x (log + int (2 ^ i)) = (1, log + int (2 ^ i) + int k)" "2 ^ k \<le> unat ?x" "unat ?x < 2 ^ Suc k"
      by blast
    have "2 ^ (2 ^ i + k) \<le> unat v"
      using k(2) by (simp add: x power_add less_eq_div_iff_mult_less_eq mult.commute)
    moreover have "unat v < 2 ^ Suc (2 ^ i + k)"
      using k(3) by (simp add: x power_add div_less_iff_less_mult mult.commute mult.left_commute)
    ultimately show ?thesis
      using False k(1) by (intro exI [of _ "2 ^ i + k"]) (simp add: Let_def add.assoc)
  qed
qed

lemma Log2Floor_Portable_spec: "Log2Floor_Portable n = Some (Log2Floor n)"
proof (cases "n = 0")
  case False
  have "unat n < 2 ^ 2 ^ 5" using unsigned_less [of n] by simp
  with log2_loop_spec [of n 5 0] False obtain k where
    k: "log2_loop 5 n 0 = (1, int k)" "2 ^ k \<le> unat n" "unat n < 2 ^ Suc k" by auto
  moreover obtain j where "Log2Floor n = int j" "2 ^ j \<le> unat n" "unat n < 2 ^ Suc j"
    using Log2Floor_spec [OF False] by blast
  ultimately show ?thesis
    using False floor_log_unique [of j "unat n" k] by (simp add: Log2Floor_Portable_def del: power_Suc)
qed (simp add: Log2Floor_Portable_def Log2Floor_def)

lemma Log2Floor64_Portable_spec: "Log2Floor64_Portable n = Some (Log2Floor64 n)"
proof -
  let ?top = "ucast (drop_bit 32 n) :: u32"
  have n: "unat n < 2 ^ 64" by simp
  have top: "unat ?top = unat n div 2 ^ 32"
  proof -
    have "unat (drop_bit 32 n) = unat n div 2 ^ 32"
      by (rule trans [OF unat_drop_bit_eq drop_bit_eq_div])
    moreover have "unat n div 2 ^ 32 < 2 ^ 32" using n by (simp add: less_mult_imp_div_less)
    ultimately show ?thesis by (simp only: unat_ucast) simp
  qed
  show ?thesis
  proof (cases "?top = 0")
    case True
    then have small: "unat n < 2 ^ 32" using top by (simp add: div_eq_0_iff)
    then have low: "unat (ucast n :: u32) = unat n" by (simp add: unat_ucast)
    show ?thesis
    proof (cases "n = 0")
      case False
      then have "(ucast n :: u32) \<noteq> 0" using low by (metis unat_eq_0)
      then obtain j where j: "Log2Floor (ucast n) = int j" "2 ^ j \<le> unat n" "unat n < 2 ^ Suc j"
        using Log2Floor_spec [of "ucast n"] low by auto
      obtain k where k: "Log2Floor64 n = int k" "2 ^ k \<le> unat n" "unat n < 2 ^ Suc k"
        using Log2Floor64_spec [OF False] by blast
      show ?thesis
        using True j(1) k(1) floor_log_unique [OF j(2,3) k(2,3)]
        by (simp add: Log2Floor64_Portable_def Log2Floor_Portable_spec)
    qed (simp add: Log2Floor64_Portable_def Log2Floor_Portable_spec Log2Floor_def Log2Floor64_def)
  next
    case False
    then have "n \<noteq> 0" by auto
    obtain j where j: "Log2Floor ?top = int j" "2 ^ j \<le> unat ?top" "unat ?top < 2 ^ Suc j"
      using Log2Floor_spec [OF False] by blast
    obtain k where k: "Log2Floor64 n = int k" "2 ^ k \<le> unat n" "unat n < 2 ^ Suc k"
      using Log2Floor64_spec [OF \<open>n \<noteq> 0\<close>] by blast
    have "2 ^ (32 + j) \<le> unat n" "unat n < 2 ^ Suc (32 + j)"
      using j(2,3) by (simp_all add: top power_add less_eq_div_iff_mult_less_eq div_less_iff_less_mult mult.commute mult.left_commute)
    then have "k = 32 + j" using floor_log_unique k(2,3) by blast
    with False j(1) k(1) show ?thesis
      by (simp add: Log2Floor64_Portable_def Log2Floor_Portable_spec)
  qed
qed

end
