(* ===== verification/OrderedString.thy ===== *)
theory OrderedString
  imports BitScan
begin

text \<open>
  The strings of Firestore's key encoding (\<open>Firestore/core/src/util/ordered_code.cc\<close>, first
  half): the scan for the bytes 0 and 255, which looks at eight bytes at a time, the writer, which
  escapes these two bytes and ends the string with an unescaped pair, and the readers. A \<open>char*\<close> is
  an index into the string it points to; \<open>None\<close> is a failed \<open>HARD_ASSERT\<close>.
\<close>

section \<open>Special bytes (util/ordered_code.cc)\<close>

definition IsSpecialByte :: "u8 \<Rightarrow> bool" where
  "IsSpecialByte c \<longleftrightarrow> c + 1 < 2"

definition kEscape1 :: u8 where "kEscape1 = 0"
definition kNullCharacter :: u8 where "kNullCharacter = 0xff"
definition kSeparator :: u8 where "kSeparator = 1"
definition kEscape2 :: u8 where "kEscape2 = 0xff"
definition kInfinity :: u8 where "kInfinity = 0xff"
definition kFFCharacter :: u8 where "kFFCharacter = 0"

text \<open>Unaligned little-endian loads of the platform; positions are indices into the string.\<close>

definition load32 :: "bytes \<Rightarrow> nat \<Rightarrow> u32" where
  "load32 s p = of_nat (be_val (rev (take 4 (drop p s))))"

definition load64 :: "bytes \<Rightarrow> nat \<Rightarrow> u64" where
  "load64 s p = of_nat (be_val (rev (take 8 (drop p s))))"

text \<open>\<open>None\<close> is a failed \<open>HARD_ASSERT\<close>.\<close>

definition AdvanceIfNoSpecialBytes :: "u32 \<Rightarrow> bytes \<Rightarrow> nat \<Rightarrow> nat option" where
  "AdvanceIfNoSpecialBytes v_32 s p =
     (if load32 s p \<noteq> v_32 then None
      else if (v_32 - 0x01010101) AND NOT (v_32 + 0x01010101) AND 0x80808080 \<noteq> 0 then
        (if IsSpecialByte (s ! p) \<or> IsSpecialByte (s ! (p + 1)) \<or> IsSpecialByte (s ! (p + 2)) \<or> IsSpecialByte (s ! (p + 3))
         then Some 0 else None)
      else if IsSpecialByte (s ! p) \<or> IsSpecialByte (s ! (p + 1)) \<or> IsSpecialByte (s ! (p + 2)) \<or> IsSpecialByte (s ! (p + 3))
        then None
      else Some 4)"

fun skip_bytes :: "nat \<Rightarrow> bytes \<Rightarrow> nat \<Rightarrow> nat" where
  "skip_bytes 0 s p = p"
| "skip_bytes (Suc n) s p = (if \<not> IsSpecialByte (s ! p) then skip_bytes n s (p + 1) else p)"

function SkipToNextSpecialByte :: "bytes \<Rightarrow> nat \<Rightarrow> nat \<Rightarrow> nat option" where
  "SkipToNextSpecialByte s p limit =
     (if p + 8 \<le> limit then
        let v = load64 s p;
            hasZeroOr255Byte = ((v - 0x0101010101010101) AND NOT (v + 0x0101010101010101) AND 0x8080808080808080 \<noteq> 0)
        in if \<not> hasZeroOr255Byte then SkipToNextSpecialByte s (p + 8) limit
           else
             let v_32 = ucast v :: u32
             in case AdvanceIfNoSpecialBytes v_32 s p of
                  None \<Rightarrow> None
                | Some n \<Rightarrow>
                    let p = p + n
                    in if IsSpecialByte (s ! p) then Some p
                       else if IsSpecialByte (s ! (p + 1)) then Some (p + 1)
                       else if IsSpecialByte (s ! (p + 2)) then Some (p + 2)
                       else if IsSpecialByte (s ! (p + 3)) then Some (p + 3) else None
      else
        case (if p + 4 \<le> limit then AdvanceIfNoSpecialBytes (load32 s p) s p else Some 0) of
          None \<Rightarrow> None
        | Some n \<Rightarrow> Some (skip_bytes (limit - (p + n)) s (p + n)))"
  by pat_completeness auto

termination SkipToNextSpecialByte
  by (relation "measure (\<lambda>(s, p, limit). limit - p)") auto

declare SkipToNextSpecialByte.simps [simp del]

subsection \<open>The bit trick\<close>

lemma IsSpecialByte_iff: "IsSpecialByte c \<longleftrightarrow> unat c = 0 \<or> unat c = 255"
proof -
  have "IsSpecialByte c \<longleftrightarrow> (unat c + 1) mod 256 < 2"
    by (simp add: IsSpecialByte_def word_less_nat_alt unat_word_ariths)
  moreover have "(unat c + 1) mod 256 = (if unat c = 255 then 0 else unat c + 1)"
    using unat_u8_less [of c] by auto
  ultimately show ?thesis by auto
qed

fun le_int :: "bytes \<Rightarrow> int" where
  "le_int [] = 0"
| "le_int (b # bs) = uint b + 256 * le_int bs"

fun ones :: "nat \<Rightarrow> int" where
  "ones 0 = 0"
| "ones (Suc n) = 1 + 256 * ones n"

definition trick :: "bytes \<Rightarrow> bool" where
  "trick bs \<longleftrightarrow> (\<exists>i < length bs. bit (le_int bs - ones (length bs)) (8 * i + 7)
     \<and> \<not> bit (le_int bs + ones (length bs)) (8 * i + 7))"

lemma bit_low_byte:
  fixes y :: int
  shows "bit (d + 256 * y) 7 \<longleftrightarrow> bit d 7"
proof -
  have "(d + 256 * y) div 128 = d div 128 + 2 * y"
    using div_mult_self2 [of 128 d "2 * y"] by simp
  then show ?thesis by (simp add: bit_iff_odd)
qed

lemma bit_high_byte:
  fixes y d :: int
  assumes "0 \<le> d" "d < 256"
  shows "bit (d + 256 * y) (8 + n) \<longleftrightarrow> bit y n"
proof -
  have "(d + 256 * y) div 256 = y" using assms by simp
  then have "(d + 256 * y) div 2 ^ (8 + n) = y div 2 ^ n"
    by (simp add: power_add div_mult2_eq' zdiv_zmult2_eq)
  then show ?thesis by (simp add: bit_iff_odd)
qed

lemma uint_u8_range: "0 \<le> uint (b :: u8)" "uint (b :: u8) < 256"
proof -
  have "uint b = int (unat b)" by simp
  then show "0 \<le> uint b" "uint b < 256" using unat_u8_less [of b] by linarith+
qed

lemma byte_tests:
  "bit (uint (b :: u8) - 1) 7 \<and> \<not> bit (uint b + 1) 7 \<longleftrightarrow> uint b = 0 \<or> uint b = 255"
proof -
  define n where "n = uint b"
  have n: "0 \<le> n" "n < 256" using uint_u8_range [of b] by (simp_all add: n_def)
  consider "n = 0" | "n = 255" | "1 \<le> n" "n \<le> 128" | "129 \<le> n" "n \<le> 254" using n by linarith
  then have "odd ((n - 1) div 128) \<and> \<not> odd ((n + 1) div 128) \<longleftrightarrow> n = 0 \<or> n = 255"
  proof cases
    case 3
    then show ?thesis by simp
  next
    case 4
    then have "(n - 127) div 128 = 0" by simp
    moreover have "(n + 1) div 128 = (n - 127) div 128 + 1"
      using div_add_self2 [of 128 "n - 127"] by simp
    ultimately show ?thesis using 4 by simp
  qed simp_all
  then show ?thesis by (simp add: bit_iff_odd n_def)
qed

lemma trick_spec: "trick bs \<longleftrightarrow> (\<exists>b\<in>set bs. IsSpecialByte b)"
proof (induction bs)
  case Nil
  then show ?case by (simp add: trick_def)
next
  case (Cons b bs)
  have sub: "le_int (b # bs) - ones (length (b # bs)) = (uint b - 1) + 256 * (le_int bs - ones (length bs))"
    and add: "le_int (b # bs) + ones (length (b # bs)) = (uint b + 1) + 256 * (le_int bs + ones (length bs))"
    by simp_all
  have special: "IsSpecialByte b \<longleftrightarrow> uint b = 0 \<or> uint b = 255"
  proof -
    have "uint b = int (unat b)" by simp
    then show ?thesis unfolding IsSpecialByte_iff by linarith
  qed
  have range: "0 \<le> uint b" "uint b < 256" by (rule uint_u8_range)+
  have low: "bit (le_int (b # bs) - ones (length (b # bs))) 7 \<longleftrightarrow> bit (uint b - 1) 7"
    "bit (le_int (b # bs) + ones (length (b # bs))) 7 \<longleftrightarrow> bit (uint b + 1) 7"
    unfolding sub add by (rule bit_low_byte)+
  show ?case
  proof (cases "IsSpecialByte b")
    case True
    then have "bit (uint b - 1) 7 \<and> \<not> bit (uint b + 1) 7" using special byte_tests by blast
    with low have "trick (b # bs)"
      unfolding trick_def by (intro exI [of _ 0]) simp
    with True show ?thesis by simp
  next
    case False
    then have "uint b \<noteq> 0" "uint b \<noteq> 255" using special by auto
    then have rs: "0 \<le> uint b - 1" "uint b - 1 < 256" "0 \<le> uint b + 1" "uint b + 1 < 256"
      using range by linarith+
    have eight: "8 * Suc i + 7 = 8 + (8 * i + 7)" for i by simp
    have high: "bit (le_int (b # bs) - ones (length (b # bs))) (8 * Suc i + 7) \<longleftrightarrow> bit (le_int bs - ones (length bs)) (8 * i + 7)"
      "bit (le_int (b # bs) + ones (length (b # bs))) (8 * Suc i + 7) \<longleftrightarrow> bit (le_int bs + ones (length bs)) (8 * i + 7)" for i
      unfolding sub add eight by (rule bit_high_byte [OF rs(1,2)], rule bit_high_byte [OF rs(3,4)])
    have "\<not> (bit (uint b - 1) 7 \<and> \<not> bit (uint b + 1) 7)" using False special byte_tests by blast
    with low have "trick (b # bs) \<longleftrightarrow> trick bs"
      unfolding trick_def using high by (simp add: Ex_less_Suc2 del: le_int.simps ones.simps mult_Suc_right) blast
    with Cons False show ?thesis by simp
  qed
qed

lemma be_val_rev: "int (be_val (rev bs)) = le_int bs"
  by (induction bs) (simp_all add: be_val_snoc)

lemma special_mask_bits:
  "n < 64 \<Longrightarrow> bit (0x8080808080808080 :: u64) n \<longleftrightarrow> n mod 8 = 7"
  "m < 32 \<Longrightarrow> bit (0x80808080 :: u32) m \<longleftrightarrow> m mod 8 = 7"
proof -
  have "\<forall>n < 64. bit (0x8080808080808080 :: u64) n \<longleftrightarrow> n mod 8 = 7" by code_simp
  then show "n < 64 \<Longrightarrow> bit (0x8080808080808080 :: u64) n \<longleftrightarrow> n mod 8 = 7" by blast
  have "\<forall>m < 32. bit (0x80808080 :: u32) m \<longleftrightarrow> m mod 8 = 7" by code_simp
  then show "m < 32 \<Longrightarrow> bit (0x80808080 :: u32) m \<longleftrightarrow> m mod 8 = 7" by blast
qed

lemma word_trick:
  fixes v :: "'a :: len word"
  assumes "v = of_nat (be_val (rev bs))" "LENGTH('a) = 8 * length bs"
    and "K = word_of_int (ones (length bs))" "\<And>n. n < LENGTH('a) \<Longrightarrow> bit M n \<longleftrightarrow> n mod 8 = 7"
  shows "(v - K) AND NOT (v + K) AND M \<noteq> 0 \<longleftrightarrow> trick bs"
proof -
  have v: "v = word_of_int (le_int bs)"
    by (simp add: assms(1) be_val_rev [symmetric])
  have sub: "bit (v - K) n \<longleftrightarrow> n < LENGTH('a) \<and> bit (le_int bs - ones (length bs)) n"
    and add: "bit (v + K) n \<longleftrightarrow> n < LENGTH('a) \<and> bit (le_int bs + ones (length bs)) n" for n
    by (simp_all add: v assms(3) bit_word_of_int_iff flip: of_int_diff of_int_add)
  have "(v - K) AND NOT (v + K) AND M \<noteq> 0 \<longleftrightarrow> (\<exists>n < LENGTH('a). bit (v - K) n \<and> \<not> bit (v + K) n \<and> n mod 8 = 7)"
    using assms(4) by (auto simp: bit_eq_iff bit_and_iff bit_not_iff dest: bit_imp_le_length)
  also have "\<dots> \<longleftrightarrow> (\<exists>i < length bs. bit (v - K) (8 * i + 7) \<and> \<not> bit (v + K) (8 * i + 7))"
  proof
    assume "\<exists>n < LENGTH('a). bit (v - K) n \<and> \<not> bit (v + K) n \<and> n mod 8 = 7"
    then obtain n where n: "n < LENGTH('a)" "bit (v - K) n" "\<not> bit (v + K) n" "n mod 8 = 7" by blast
    then have "n = 8 * (n div 8) + 7" using mult_div_mod_eq [of 8 n] by simp
    moreover have "n div 8 < length bs" using n(1) assms(2) by simp
    ultimately show "\<exists>i < length bs. bit (v - K) (8 * i + 7) \<and> \<not> bit (v + K) (8 * i + 7)"
      using n(2,3) by metis
  next
    assume "\<exists>i < length bs. bit (v - K) (8 * i + 7) \<and> \<not> bit (v + K) (8 * i + 7)"
    then obtain i where i: "i < length bs" "bit (v - K) (8 * i + 7)" "\<not> bit (v + K) (8 * i + 7)" by blast
    have "(8 * i + 7) mod 8 = 7" by simp
    with i assms(2) show "\<exists>n < LENGTH('a). bit (v - K) n \<and> \<not> bit (v + K) n \<and> n mod 8 = 7"
      by (intro exI [of _ "8 * i + 7"]) auto
  qed
  also have "\<dots> \<longleftrightarrow> trick bs"
    using assms(2) by (auto simp: trick_def sub add)
  finally show ?thesis .
qed

lemma ones_values: "ones 4 = 0x01010101" "ones 8 = 0x0101010101010101"
  by code_simp+

lemma trick64:
  assumes "p + 8 \<le> length s"
  shows "(load64 s p - 0x0101010101010101) AND NOT (load64 s p + 0x0101010101010101) AND 0x8080808080808080 \<noteq> 0
    \<longleftrightarrow> (\<exists>b\<in>set (take 8 (drop p s)). IsSpecialByte b)"
proof -
  have len: "length (take 8 (drop p s)) = 8" using assms by simp
  show ?thesis
    unfolding trick_spec [symmetric]
  proof (rule word_trick)
    show "load64 s p = of_nat (be_val (rev (take 8 (drop p s))))" by (rule load64_def)
    show "LENGTH(64) = 8 * length (take 8 (drop p s))" unfolding len by simp
    show "0x0101010101010101 = word_of_int (ones (length (take 8 (drop p s))))" unfolding len ones_values by simp
    show "n < LENGTH(64) \<Longrightarrow> bit (0x8080808080808080 :: u64) n \<longleftrightarrow> n mod 8 = 7" for n
      by (rule special_mask_bits) simp
  qed
qed

lemma trick32:
  assumes "p + 4 \<le> length s"
  shows "(load32 s p - 0x01010101) AND NOT (load32 s p + 0x01010101) AND 0x80808080 \<noteq> 0
    \<longleftrightarrow> (\<exists>b\<in>set (take 4 (drop p s)). IsSpecialByte b)"
proof -
  have len: "length (take 4 (drop p s)) = 4" using assms by simp
  show ?thesis
    unfolding trick_spec [symmetric]
  proof (rule word_trick)
    show "load32 s p = of_nat (be_val (rev (take 4 (drop p s))))" by (rule load32_def)
    show "LENGTH(32) = 8 * length (take 4 (drop p s))" unfolding len by simp
    show "0x01010101 = word_of_int (ones (length (take 4 (drop p s))))" unfolding len ones_values by simp
    show "n < LENGTH(32) \<Longrightarrow> bit (0x80808080 :: u32) n \<longleftrightarrow> n mod 8 = 7" for n
      by (rule special_mask_bits) simp
  qed
qed

lemma low_half:
  assumes "p + 8 \<le> length s"
  shows "ucast (load64 s p) = load32 s p"
proof -
  let ?hi = "be_val (rev (take 4 (drop (p + 4) s)))" and ?lo = "be_val (rev (take 4 (drop p s)))"
  have "take 8 (drop p s) = take 4 (drop p s) @ take 4 (drop (p + 4) s)"
    using take_add [of 4 4 "drop p s"] by (simp add: add.commute)
  then have eq: "be_val (rev (take 8 (drop p s))) = ?hi * 2 ^ 32 + ?lo"
    using assms by (simp add: be_val_append)
  have "unat (ucast (load64 s p) :: u32) = (?hi * 2 ^ 32 + ?lo) mod 2 ^ 64 mod 2 ^ 32"
    unfolding load64_def eq by (simp add: unat_ucast unat_of_nat del: of_nat_add of_nat_mult)
  also have "\<dots> = (?hi * 2 ^ 32 + ?lo) mod 2 ^ 32"
    by (rule mod_mod_cancel) (simp add: le_imp_power_dvd)
  also have "\<dots> = unat (load32 s p)"
    by (simp add: load32_def unat_of_nat)
  finally show ?thesis by (simp only: word_unat_eq_iff)
qed

lemma first_four: "p + 4 \<le> length s \<Longrightarrow>
    (IsSpecialByte (s ! p) \<or> IsSpecialByte (s ! (p + 1)) \<or> IsSpecialByte (s ! (p + 2)) \<or> IsSpecialByte (s ! (p + 3)))
    \<longleftrightarrow> (\<exists>b\<in>set (take 4 (drop p s)). IsSpecialByte b)"
proof -
  assume "p + 4 \<le> length s"
  then have "take 4 (drop p s) = [s ! p, s ! (p + 1), s ! (p + 2), s ! (p + 3)]"
    by (intro nth_equalityI) (auto simp: less_Suc_eq numeral_eq_Suc)
  then show ?thesis by simp
qed

lemma AdvanceIfNoSpecialBytes_spec:
  assumes "p + 4 \<le> length s"
  shows "AdvanceIfNoSpecialBytes (load32 s p) s p =
    Some (if \<exists>b\<in>set (take 4 (drop p s)). IsSpecialByte b then 0 else 4)"
  unfolding AdvanceIfNoSpecialBytes_def trick32 [OF assms] first_four [OF assms] by simp

definition next_special :: "bytes \<Rightarrow> nat \<Rightarrow> nat \<Rightarrow> nat" where
  "next_special s p limit = p + length (takeWhile (\<lambda>b. \<not> IsSpecialByte b) (drop p (take limit s)))"

lemma next_special_skip:
  assumes "p + n \<le> limit" "limit \<le> length s" "\<not> (\<exists>b\<in>set (take n (drop p s)). IsSpecialByte b)"
  shows "next_special s p limit = next_special s (p + n) limit"
proof -
  have "drop p (take limit s) = take n (drop p s) @ drop (p + n) (take limit s)"
    using assms(1,2) append_take_drop_id [of n "drop p (take limit s)"]
    by (simp add: drop_take min_def add.commute split: if_splits)
  moreover have "length (take n (drop p s)) = n" using assms by simp
  ultimately show ?thesis
    using assms(3) by (simp add: next_special_def takeWhile_append2)
qed

lemma next_special_here:
  assumes "p < limit" "limit \<le> length s"
  shows "next_special s p limit = (if IsSpecialByte (s ! p) then p else next_special s (p + 1) limit)"
proof -
  have "drop p (take limit s) = s ! p # drop (p + 1) (take limit s)"
    using assms by (simp add: Cons_nth_drop_Suc [symmetric])
  then show ?thesis by (simp add: next_special_def)
qed

lemma next_special_end: "limit \<le> p \<Longrightarrow> next_special s p limit = p"
  by (simp add: next_special_def)

lemma skip_bytes_spec:
  "limit \<le> length s \<Longrightarrow> p + n = limit \<Longrightarrow> skip_bytes n s p = next_special s p limit"
  by (induction n arbitrary: p) (auto simp: next_special_here next_special_end)

lemma SkipToNextSpecialByte_spec:
  "limit \<le> length s \<Longrightarrow> SkipToNextSpecialByte s p limit = Some (next_special s p limit)"
proof (induction s p limit rule: SkipToNextSpecialByte.induct)
  case (1 s p limit)
  let ?special = "\<lambda>n. \<exists>b\<in>set (take n (drop p s)). IsSpecialByte b"
  show ?case
  proof (cases "p + 8 \<le> limit")
    case True
    then have len: "p + 8 \<le> length s" "p + 4 \<le> length s" using 1(2) by simp_all
    show ?thesis
    proof (cases "?special 8")
      case False
      with 1(1) [OF True refl refl] 1(2) True trick64 [OF len(1)] show ?thesis
        by (subst SkipToNextSpecialByte.simps) (simp add: next_special_skip [of p 8 limit s])
    next
      case special: True
      define q where "q = p + (if ?special 4 then 0 else 4)"
      have q: "q + 4 \<le> limit" "next_special s p limit = next_special s q limit"
        using True 1(2) next_special_skip [of p 4 limit s] by (auto simp: q_def)
      have "take 8 (drop p s) = take 4 (drop p s) @ take 4 (drop (p + 4) s)"
        using take_add [of 4 4 "drop p s"] by (simp add: add.commute)
      then have "\<exists>b\<in>set (take 4 (drop q s)). IsSpecialByte b"
        using special by (auto simp: q_def)
      then have four: "IsSpecialByte (s ! q) \<or> IsSpecialByte (s ! (q + 1)) \<or> IsSpecialByte (s ! (q + 2)) \<or> IsSpecialByte (s ! (q + 3))"
        using first_four [of q s] q(1) 1(2) by simp
      have "SkipToNextSpecialByte s p limit =
          (if IsSpecialByte (s ! q) then Some q else if IsSpecialByte (s ! (q + 1)) then Some (q + 1)
           else if IsSpecialByte (s ! (q + 2)) then Some (q + 2)
           else if IsSpecialByte (s ! (q + 3)) then Some (q + 3) else None)"
        using True special trick64 [OF len(1)]
        by (subst SkipToNextSpecialByte.simps)
          (simp add: low_half [OF len(1)] AdvanceIfNoSpecialBytes_spec [OF len(2)] Let_def q_def)
      moreover have "next_special s q limit =
          (if IsSpecialByte (s ! q) then q else if IsSpecialByte (s ! (q + 1)) then q + 1
           else if IsSpecialByte (s ! (q + 2)) then q + 2
           else if IsSpecialByte (s ! (q + 3)) then q + 3 else next_special s (q + 4) limit)"
        using q(1) 1(2) by (simp add: next_special_here eval_nat_numeral)
      ultimately show ?thesis
        using four q(2) by auto
    qed
  next
    case False
    show ?thesis
    proof (cases "p + 4 \<le> limit")
      case True
      then have len: "p + 4 \<le> length s" using 1(2) by simp
      show ?thesis
        using False True 1(2) AdvanceIfNoSpecialBytes_spec [OF len] next_special_skip [of p 4 limit s]
          skip_bytes_spec [of limit s "p + 4" "limit - (p + 4)"] skip_bytes_spec [of limit s p "limit - p"]
        by (subst SkipToNextSpecialByte.simps) simp
    next
      case short: False
      show ?thesis
      proof (cases "p \<le> limit")
        case True
        then show ?thesis
          using False short 1(2) skip_bytes_spec [of limit s p "limit - p"]
          by (subst SkipToNextSpecialByte.simps) simp
      next
        case beyond: False
        then show ?thesis
          using False short by (subst SkipToNextSpecialByte.simps) (simp add: next_special_end)
      qed
    qed
  qed
qed

section \<open>Strings\<close>

lemma next_special_ge: "p \<le> next_special s p limit"
  by (simp add: next_special_def)

lemma next_special_le: "p \<le> limit \<Longrightarrow> limit \<le> length s \<Longrightarrow> next_special s p limit \<le> limit"
  using length_takeWhile_le [of "\<lambda>b. \<not> IsSpecialByte b" "drop p (take limit s)"]
  by (simp add: next_special_def)

lemma skip_progress:
  assumes "SkipToNextSpecialByte s p limit = Some q" "limit \<le> length s"
  shows "p \<le> q"
  using assms SkipToNextSpecialByte_spec [of limit s p] next_special_ge [of p s limit] by simp

definition AppendBytes :: "bytes \<Rightarrow> bytes \<Rightarrow> nat \<Rightarrow> nat \<Rightarrow> bytes" where
  "AppendBytes dest s src len = dest @ take len (drop src s)"

function fragment_loop :: "bytes \<Rightarrow> bytes \<Rightarrow> nat \<Rightarrow> nat \<Rightarrow> bytes option" where
  "fragment_loop s dest p copy_start =
     (case SkipToNextSpecialByte s p (length s) of
        None \<Rightarrow> None
      | Some q \<Rightarrow>
          if q \<ge> length s then
            Some (if q > copy_start then AppendBytes dest s copy_start (q - copy_start) else dest)
          else
            let c = s ! q; p = q + 1
            in if \<not> IsSpecialByte c then None
               else if c = kEscape1 then
                 fragment_loop s (AppendBytes dest s copy_start (p - copy_start - 1) @ [kEscape1, kNullCharacter]) p p
               else if c \<noteq> kEscape2 then None
               else
                 fragment_loop s (AppendBytes dest s copy_start (p - copy_start - 1) @ [kEscape2, kFFCharacter]) p p)"
  by pat_completeness auto

termination fragment_loop
  by (relation "measure (\<lambda>(s, dest, p, copy_start). length s - p)")
    (auto dest!: skip_progress simp del: in_measure simp add: measure_def)

declare fragment_loop.simps [simp del]

definition EncodeStringFragment :: "bytes \<Rightarrow> bytes \<Rightarrow> bytes option" where
  "EncodeStringFragment dest s = fragment_loop s dest 0 0"

definition WriteString :: "bytes \<Rightarrow> bytes \<Rightarrow> bytes option" where
  "WriteString dest s = map_option (\<lambda>d. d @ [kEscape1, kSeparator]) (EncodeStringFragment dest s)"

definition WriteInfinity :: "bytes \<Rightarrow> bytes" where
  "WriteInfinity dest = dest @ [kEscape2, kInfinity]"

definition WriteTrailingString :: "bytes \<Rightarrow> bytes \<Rightarrow> bytes" where
  "WriteTrailingString dest str = dest @ str"

text \<open>A null \<open>result\<close> pointer is \<open>None\<close>.\<close>

function read_loop :: "bytes \<Rightarrow> bytes option \<Rightarrow> nat \<Rightarrow> nat \<Rightarrow> (bool \<times> bytes \<times> bytes option) option" where
  "read_loop src result start copy_start =
     (let limit = length src - 1
      in case SkipToNextSpecialByte src start limit of
           None \<Rightarrow> None
         | Some q \<Rightarrow>
             if q \<ge> limit then Some (False, src, result)
             else
               let c = src ! q; start = q + 1
               in if \<not> IsSpecialByte c then None
                  else if c = kEscape1 then
                    let result = map_option (\<lambda>r. AppendBytes r src copy_start (start - copy_start - 1)) result;
                        next_byte = src ! start; start = start + 1
                    in if next_byte = kSeparator then Some (True, drop start src, result)
                       else if next_byte = kNullCharacter then
                         read_loop src (map_option (\<lambda>r. r @ [0]) result) start start
                       else Some (False, src, result)
                  else if c \<noteq> kEscape2 then None
                  else
                    let result = map_option (\<lambda>r. AppendBytes r src copy_start (start - copy_start - 1)) result;
                        next_byte = src ! start; start = start + 1
                    in if next_byte = kFFCharacter then
                         read_loop src (map_option (\<lambda>r. r @ [0xff]) result) start start
                       else Some (False, src, result))"
  by pat_completeness auto

termination read_loop
  by (relation "measure (\<lambda>(src, result, start, copy_start). length src - start)")
    (auto dest!: skip_progress simp del: in_measure simp add: measure_def)

declare read_loop.simps [simp del]

definition ReadString :: "bytes \<Rightarrow> bytes option \<Rightarrow> (bool \<times> bytes \<times> bytes option) option" where
  "ReadString src result = read_loop src result 0 0"

definition ReadInfinity :: "bytes \<Rightarrow> bool \<times> bytes" where
  "ReadInfinity src =
     (if length src \<ge> 2 \<and> src ! 0 = kEscape2 \<and> src ! 1 = kInfinity then (True, drop 2 src) else (False, src))"

definition ReadStringOrInfinity :: "bytes \<Rightarrow> bytes option \<Rightarrow> bool option \<Rightarrow>
    (bool \<times> bytes \<times> bytes option \<times> bool option) option" where
  "ReadStringOrInfinity src result is_inf =
     (let (found, src') = ReadInfinity src
      in if found then Some (True, src', result, map_option (\<lambda>_. True) is_inf)
         else map_option (\<lambda>(success, src, result).
                if success then (True, src, result, map_option (\<lambda>_. False) is_inf) else (False, src, result, is_inf))
              (ReadString src result))"

definition ReadTrailingString :: "bytes \<Rightarrow> bytes option \<Rightarrow> bool \<times> bytes \<times> bytes option" where
  "ReadTrailingString src result = (True, [], map_option (\<lambda>_. src) result)"

subsection \<open>The encoding of a string\<close>

definition escape :: "u8 \<Rightarrow> bytes" where
  "escape b = (if b = 0 then [0, 0xff] else if b = 0xff then [0xff, 0] else [b])"

definition escaped :: "bytes \<Rightarrow> bytes" where
  "escaped s = concat (map escape s)"

definition string_code :: "bytes \<Rightarrow> bytes" where
  "string_code s = escaped s @ [0, 1]"

lemmas escape_bytes = kEscape1_def kNullCharacter_def kSeparator_def kEscape2_def kInfinity_def kFFCharacter_def

lemma special_bytes: "IsSpecialByte b \<longleftrightarrow> b = 0 \<or> b = 0xff"
  by (simp add: IsSpecialByte_iff u8_eq_iffs)

lemma escaped_plain: "(\<And>b. b \<in> set xs \<Longrightarrow> \<not> IsSpecialByte b) \<Longrightarrow> escaped xs = xs"
  by (induction xs) (auto simp: escaped_def escape_def special_bytes)

lemma escaped_append: "escaped (xs @ ys) = escaped xs @ escaped ys"
  by (simp add: escaped_def)

lemma next_special_split:
  assumes "next_special s p limit = q" "limit \<le> length s" "p \<le> limit"
  shows "drop p (take limit s) = take (q - p) (drop p s) @ drop q (take limit s)"
    and "\<And>b. b \<in> set (take (q - p) (drop p s)) \<Longrightarrow> \<not> IsSpecialByte b"
    and "q < limit \<Longrightarrow> IsSpecialByte (s ! q)"
proof -
  let ?P = "\<lambda>b. \<not> IsSpecialByte b" and ?xs = "drop p (take limit s)"
  have q: "q - p = length (takeWhile ?P ?xs)" "p \<le> q" "q \<le> limit"
    using assms next_special_ge [of p s limit] next_special_le [of p limit s] by (auto simp: next_special_def)
  have "takeWhile ?P ?xs = take (q - p) ?xs"
    by (simp only: q(1) takeWhile_eq_take [symmetric])
  also have "\<dots> = take (q - p) (drop p s)"
    using q assms(3) by (simp add: drop_take min_def) 
  finally have tw: "takeWhile ?P ?xs = take (q - p) (drop p s)" .
  have "q = length (takeWhile ?P ?xs) + p" using q(1,2) by linarith
  then have "drop q (take limit s) = dropWhile ?P ?xs"
    by (metis dropWhile_eq_drop drop_drop)
  then show "drop p (take limit s) = take (q - p) (drop p s) @ drop q (take limit s)"
    using takeWhile_dropWhile_id [of ?P ?xs] tw by simp
  show "\<And>b. b \<in> set (take (q - p) (drop p s)) \<Longrightarrow> \<not> IsSpecialByte b"
    unfolding tw [symmetric] by (auto dest: set_takeWhileD)
  show "IsSpecialByte (s ! q)" if "q < limit"
  proof -
    have "length (takeWhile ?P ?xs) < length ?xs" using q that assms(2) by simp
    from nth_length_takeWhile [OF this] show ?thesis
      using q(2,3) that assms(2) by (simp add: q(1) [symmetric] min_def)
  qed
qed

lemma fragment_loop_spec:
  "p \<le> length s \<Longrightarrow> fragment_loop s dest p p = Some (dest @ escaped (drop p s))"
proof (induction "length s - p" arbitrary: p dest rule: less_induct)
  case less
  define q where "q = next_special s p (length s)"
  note split = next_special_split [OF q_def [symmetric] order_refl less.prems]
  have q: "p \<le> q" "q \<le> length s"
    using next_special_ge next_special_le less.prems by (auto simp: q_def)
  have skip: "SkipToNextSpecialByte s p (length s) = Some q"
    by (simp add: SkipToNextSpecialByte_spec q_def)
  from split(1) have "drop p s = take (q - p) (drop p s) @ drop q s" by simp
  then have "escaped (drop p s) = escaped (take (q - p) (drop p s)) @ escaped (drop q s)"
    by (metis escaped_append)
  with split(2) have plain: "escaped (drop p s) = take (q - p) (drop p s) @ escaped (drop q s)"
    by (simp add: escaped_plain)
  show ?case
  proof (cases "q = length s")
    case True
    then show ?thesis
      using skip plain q by (subst fragment_loop.simps) (auto simp: AppendBytes_def escaped_def)
  next
    case False
    then have lt: "q < length s" using q by simp
    have "IsSpecialByte (s ! q)" using split(3) lt by simp
    moreover have "drop q s = s ! q # drop (q + 1) s"
      using lt by (simp add: Cons_nth_drop_Suc)
    then have "escaped (drop q s) = escape (s ! q) @ escaped (drop (q + 1) s)"
      by (simp add: escaped_def)
    moreover have "fragment_loop s d (q + 1) (q + 1) = Some (d @ escaped (drop (q + 1) s))" for d
      using less.hyps [of "q + 1" d] q lt less.prems by simp
    ultimately show ?thesis
      using skip plain q lt by (subst fragment_loop.simps)
        (auto simp: AppendBytes_def special_bytes escape_bytes escape_def Let_def)
  qed
qed

lemma WriteString_spec: "WriteString dest s = Some (dest @ string_code s)"
  by (simp add: WriteString_def EncodeStringFragment_def fragment_loop_spec string_code_def escape_bytes)

subsection \<open>Reading\<close>

fun unescape :: "bytes \<Rightarrow> (bytes \<times> bytes) option" where
  "unescape (c # d # rest) =
     (if c = 0 then
        if d = 1 then Some ([], rest)
        else if d = 0xff then map_option (apfst ((#) 0)) (unescape rest) else None
      else if c = 0xff then
        if d = 0 then map_option (apfst ((#) 0xff)) (unescape rest) else None
      else map_option (apfst ((#) c)) (unescape (d # rest)))"
| "unescape _ = None"

lemma unescape_string_code: "unescape (string_code s @ rest) = Some (s, rest)"
proof (induction s)
  case (Cons b s)
  show ?case
  proof (cases "string_code s @ rest")
    case Nil
    then show ?thesis by (simp add: string_code_def)
  next
    case (Cons d rest')
    with Cons.IH show ?thesis
      by (auto simp: string_code_def escaped_def escape_def)
  qed
qed (simp add: string_code_def escaped_def)

lemma unescape_sound: "unescape src = Some (s, rest) \<Longrightarrow> src = string_code s @ rest"
proof (induction src arbitrary: s rule: unescape.induct)
  case (1 c d tail)
  then show ?case
    by (auto simp: string_code_def escaped_def escape_def split: if_splits)
qed simp_all

lemma unescape_plain:
  "(\<And>b. b \<in> set xs \<Longrightarrow> \<not> IsSpecialByte b) \<Longrightarrow> ys \<noteq> [] \<Longrightarrow>
     unescape (xs @ ys) = map_option (apfst ((@) xs)) (unescape ys)"
proof (induction xs)
  case Nil
  then show ?case by (cases "unescape ys") auto
next
  case (Cons x xs)
  then obtain d rest where "xs @ ys = d # rest" by (cases "xs @ ys") auto
  with Cons show ?case
    by (cases "unescape ys") (auto simp: special_bytes)
qed

lemma unescape_short: "unescape [b] = None" "unescape [] = None"
  by simp_all

lemma read_loop_spec:
  "p \<le> length src \<Longrightarrow>
     (case unescape (drop p src) of
        Some (s, rest) \<Rightarrow> read_loop src result p p = Some (True, rest, map_option (\<lambda>r. r @ s) result)
      | None \<Rightarrow> \<exists>result'. read_loop src result p p = Some (False, src, result'))"
proof (induction "length src - p" arbitrary: p result rule: less_induct)
  case less
  let ?limit = "length src - 1"
  define q where "q = next_special src p ?limit"
  have skip: "SkipToNextSpecialByte src p ?limit = Some q"
    by (simp add: SkipToNextSpecialByte_spec q_def)
  show ?case
  proof (cases "q < ?limit")
    case False
    have "unescape (drop p src) = None"
    proof (cases "p < ?limit")
      case True
      note split = next_special_split [OF q_def [symmetric] _ less_imp_le [OF True]]
      have "q = ?limit" using False True next_special_le [of p ?limit src] by (simp add: q_def)
      then have "drop p src = take (q - p) (drop p src) @ drop q src"
        using True by (metis append_take_drop_id drop_drop le_add_diff_inverse2 less_imp_le)
      moreover have "length (drop q src) = 1" using \<open>q = ?limit\<close> True by simp
      then obtain b where "drop q src = [b]" by (cases "drop q src") auto
      ultimately show ?thesis
        using unescape_plain [of "take (q - p) (drop p src)" "[b]"] split(2) by simp
    next
      case False
      then have "length (drop p src) \<le> 1" by simp
      then show ?thesis by (cases "drop p src") (auto simp: unescape_short)
    qed
    with skip False show ?thesis by (subst read_loop.simps) simp
  next
    case True
    have p: "p \<le> q" by (simp add: q_def next_special_ge)
    then have "p \<le> ?limit" using True by simp
    note split = next_special_split [OF q_def [symmetric] _ this]
    have special: "IsSpecialByte (src ! q)" using split(3) True by simp
    have rest: "drop q src = src ! q # src ! (q + 1) # drop (q + 2) src"
      using True by (simp add: Cons_nth_drop_Suc)
    have "drop p src = take (q - p) (drop p src) @ drop q src"
      using p by (metis append_take_drop_id drop_drop le_add_diff_inverse2)
    with unescape_plain [of "take (q - p) (drop p src)" "drop q src"] split(2) rest
    have un: "unescape (drop p src) = map_option (apfst ((@) (take (q - p) (drop p src)))) (unescape (drop q src))"
      by simp
    note IH = less.hyps [of "q + 2"]
    have IH: "case unescape (drop (q + 2) src) of
        Some (s, rest) \<Rightarrow> read_loop src r (q + 2) (q + 2) = Some (True, rest, map_option (\<lambda>r. r @ s) r)
      | None \<Rightarrow> \<exists>result'. read_loop src r (q + 2) (q + 2) = Some (False, src, result')" for r
      using less.hyps [of "q + 2" r] True p by simp
    consider (zero) "src ! q = 0" | (ff) "src ! q = 0xff" using special by (auto simp: special_bytes)
    then show ?thesis
    proof cases
      case zero
      then show ?thesis
        using skip True un rest IH [of "map_option (\<lambda>r. (r @ take (q - p) (drop p src)) @ [0]) result"] special
        by (subst (1 2) read_loop.simps)
          (auto simp: escape_bytes AppendBytes_def Let_def option.map_comp comp_def split: option.splits)
    next
      case ff
      then show ?thesis
        using skip True un rest IH [of "map_option (\<lambda>r. (r @ take (q - p) (drop p src)) @ [0xff]) result"] special
        by (subst (1 2) read_loop.simps)
          (auto simp: escape_bytes AppendBytes_def Let_def option.map_comp comp_def split: option.splits)
    qed
  qed
qed

end
