(* ===== verification/OrderedNum.thy ===== *)
theory OrderedNum
  imports OrderedString
begin

text \<open>
  The numbers of Firestore's key encoding (\<open>ordered_code.cc\<close>, second half): an unsigned number is a
  length byte and its significant bytes, a signed one a header of as many one bits as the encoding has
  bytes, the sign and the bits of the number, all flipped when it is negative. The lemmas give each
  writer's result in closed form and show that the reader inverts it.
\<close>

section \<open>Unsigned numbers\<close>

definition OrderedNumLength :: "u64 \<Rightarrow> nat" where
  "OrderedNumLength val = nat (Log2Floor64 val + 1 + 7) div 8"

definition AppendUpto9 :: "bytes \<Rightarrow> bytes \<Rightarrow> nat \<Rightarrow> bytes" where
  "AppendUpto9 dst src n =
     (let dst = dst @ take 9 src; extra = 9 - n in take (length dst - extra) dst)"

text \<open>\<open>buf0\<close> is what the uninitialised array \<open>buf\<close> of 17 bytes holds at first.\<close>

definition WriteNumIncreasing :: "bytes \<Rightarrow> bytes \<Rightarrow> u64 \<Rightarrow> bytes" where
  "WriteNumIncreasing buf0 dest val =
     (let buf = write_at buf0 1 (be_bytes 8 (unat val));
          len = OrderedNumLength val;
          start = 9 - len - 1;
          buf = buf [start := of_nat len]
      in AppendUpto9 dest (drop start buf) (len + 1))"

text \<open>\<open>char\<close> is signed: the length byte is sign-extended to \<open>size_t\<close>.\<close>

definition char_to_size :: "u8 \<Rightarrow> nat" where
  "char_to_size b = (if unat b < 128 then unat b else 2 ^ 64 - 256 + unat b)"

definition ReadNumIncreasing :: "bytes \<Rightarrow> u64 option \<Rightarrow> (bool \<times> bytes \<times> u64 option) option" where
  "ReadNumIncreasing src result =
     (if src = [] then Some (False, src, result)
      else
        let len = char_to_size (src ! 0)
        in if \<not> (len = 0 \<or> length src = 1 \<or> src ! 1 \<noteq> 0) then None
           else if (len + 1) mod 2 ^ 64 > length src \<or> len > 8 then Some (False, src, result)
           else
             let tmp = foldl (\<lambda>tmp b. push_bit 8 tmp OR ucast b) 0 (take len (drop 1 src))
             in Some (True, drop (len + 1) src, map_option (\<lambda>_. tmp) result))"

definition num_code :: "u64 \<Rightarrow> bytes" where
  "num_code v = of_nat (OrderedNumLength v) # be_bytes (OrderedNumLength v) (unat v)"

lemma OrderedNumLength_spec:
  "unat v < 256 ^ OrderedNumLength v" "OrderedNumLength v \<le> 8"
  "OrderedNumLength v \<noteq> 0 \<Longrightarrow> 256 ^ (OrderedNumLength v - 1) \<le> unat v"
proof -
  let ?n = "OrderedNumLength v"
  have "unat v < 256 ^ ?n \<and> ?n \<le> 8 \<and> (?n \<noteq> 0 \<longrightarrow> 256 ^ (?n - 1) \<le> unat v)"
  proof (cases "v = 0")
    case False
    obtain k where k: "Log2Floor64 v = int k" "2 ^ k \<le> unat v" "unat v < 2 ^ Suc k"
      using Log2Floor64_spec [OF False] by blast
    have n: "?n = (k + 8) div 8" by (simp add: OrderedNumLength_def k(1) nat_add_distrib)
    have "(2 :: nat) ^ k < 2 ^ 64" using k(2) unat_less_64 [of v] by (rule le_less_trans)
    then have k64: "k < 64" by (simp only: power_strict_increasing_iff)
    have "Suc k \<le> 8 * ?n" "8 * (?n - 1) \<le> k" unfolding n by simp_all
    then have "(2 :: nat) ^ Suc k \<le> 2 ^ (8 * ?n)" "(2 :: nat) ^ (8 * (?n - 1)) \<le> 2 ^ k"
      by (simp_all only: power_increasing_iff)
    then have "unat v < 2 ^ (8 * ?n)" "2 ^ (8 * (?n - 1)) \<le> unat v"
      using k(2,3) by linarith+
    moreover have "(2 :: nat) ^ (8 * m) = 256 ^ m" for m by (simp add: power_mult)
    ultimately show ?thesis using k64 n by simp
  qed (simp add: OrderedNumLength_def Log2Floor64_def)
  then show "unat v < 256 ^ ?n" "?n \<le> 8" "?n \<noteq> 0 \<Longrightarrow> 256 ^ (?n - 1) \<le> unat v" by blast+
qed

lemma drop_be_bytes: "drop k (be_bytes (k + n) v) = be_bytes n v"
proof (induction n arbitrary: v)
  case (Suc n)
  then show ?case by simp
qed simp

lemma WriteNumIncreasing_spec:
  assumes "length buf0 = 17"
  shows "WriteNumIncreasing buf0 dest v = dest @ num_code v"
proof -
  let ?n = "OrderedNumLength v"
  have n: "?n \<le> 8" by (rule OrderedNumLength_spec)
  have len: "length (write_at buf0 1 (be_bytes 8 (unat v))) = 17" using assms by simp
  have "take (?n + 1) (drop (9 - ?n - 1) ((write_at buf0 1 (be_bytes 8 (unat v))) [9 - ?n - 1 := of_nat ?n])) = num_code v"
  proof (rule nth_equalityI)
    show "length (take (?n + 1) (drop (9 - ?n - 1) ((write_at buf0 1 (be_bytes 8 (unat v))) [9 - ?n - 1 := of_nat ?n])))
      = length (num_code v)"
      using n len by (simp add: num_code_def)
    fix i
    assume "i < length (take (?n + 1) (drop (9 - ?n - 1) ((write_at buf0 1 (be_bytes 8 (unat v))) [9 - ?n - 1 := of_nat ?n])))"
    then have i: "i < ?n + 1" using n len by simp
    have "be_bytes ?n (unat v) ! j = be_bytes 8 (unat v) ! (8 - ?n + j)" if "j < ?n" for j
      using drop_be_bytes [of "8 - ?n" ?n "unat v"] n that by (metis le_add_diff_inverse2 length_be_bytes nth_drop diff_le_self)
    then show "take (?n + 1) (drop (9 - ?n - 1) ((write_at buf0 1 (be_bytes 8 (unat v))) [9 - ?n - 1 := of_nat ?n])) ! i
      = num_code v ! i"
      using i n len assms by (cases i) (auto simp: num_code_def write_at_def nth_append)
  qed
  moreover have "AppendUpto9 dest xs (m + 1) = dest @ take (m + 1) xs" if "length xs \<ge> 9" "m \<le> 8" for xs m
    using that by (simp add: AppendUpto9_def Let_def min_def)
  ultimately show ?thesis
    using n len by (simp add: WriteNumIncreasing_def Let_def)
qed

lemma foldl_bytes: "foldl (\<lambda>tmp b. push_bit 8 tmp OR ucast b) (of_nat a) bs = (of_nat (be_acc a bs) :: u64)"
proof (induction bs arbitrary: a)
  case (Cons b bs)
  have "push_bit 8 (of_nat a :: u64) OR ucast b = of_nat (256 * a + unat b)"
    by (simp add: shift_or_byte_64 mult.commute)
  with Cons [of "256 * a + unat b"] show ?case by (simp only: foldl.simps be_acc.simps)
qed simp

lemma ReadNumIncreasing_code:
  "ReadNumIncreasing (num_code v @ rest) result = Some (True, rest, map_option (\<lambda>_. v) result)"
proof -
  let ?n = "OrderedNumLength v"
  note n = OrderedNumLength_spec [of v]
  have len: "char_to_size (of_nat ?n) = ?n"
    using n(2) by (simp add: char_to_size_def unat_of_nat_u8)
  have first: "be_bytes ?n (unat v) ! 0 \<noteq> 0" if pos: "?n \<noteq> 0"
  proof -
    obtain b bs where bs: "be_bytes ?n (unat v) = b # bs" "length bs = ?n - 1"
      using pos by (cases "be_bytes ?n (unat v)") (auto dest: arg_cong [of _ _ length])
    have "be_val (be_bytes ?n (unat v)) = unat v" using n(1) by (simp add: be_val_be_bytes)
    then have "unat b * 256 ^ (?n - 1) + be_val bs = unat v" by (simp add: bs be_val_Cons)
    moreover have "be_val bs < 256 ^ (?n - 1)" using be_val_less [of bs] bs(2) by simp
    ultimately have "unat b \<noteq> 0" using n(3) [OF pos] by (cases "unat b = 0") simp_all
    then show ?thesis using bs by auto
  qed
  have "foldl (\<lambda>tmp b. push_bit 8 tmp OR ucast b) 0 (be_bytes ?n (unat v)) = v"
    using foldl_bytes [of 0 "be_bytes ?n (unat v)"] n(1)
    by (simp add: be_val_def [symmetric] be_val_be_bytes)
  then show ?thesis
    using n(2) len first by (auto simp: ReadNumIncreasing_def num_code_def Let_def nth_append)
qed

lemma length_take_le: "n \<le> length xs \<Longrightarrow> length (take n xs) = n"
  by simp

lemma ReadNumIncreasing_sound:
  assumes "ReadNumIncreasing src (Some r) = Some (True, rest, Some v)"
  shows "src = num_code v @ rest"
proof -
  obtain b bs where src: "src = b # bs" using assms by (cases src) (auto simp: ReadNumIncreasing_def)
  define n where "n = char_to_size b"
  have n: "n \<le> 8" "n = unat b" "n \<le> length bs" "n = 0 \<or> bs ! 0 \<noteq> 0" "rest = drop n bs"
    "v = foldl (\<lambda>tmp b. push_bit 8 tmp OR ucast b) 0 (take n bs)"
    using assms unfolding src by (auto simp: ReadNumIncreasing_def Let_def n_def char_to_size_def split: if_splits)
  let ?ds = "take n bs"
  have v: "v = of_nat (be_val ?ds)"
    using foldl_bytes [of 0 ?ds] n(6) by (simp add: be_val_def)
  have lt: "be_val ?ds < 256 ^ n" using be_val_less [of ?ds] length_take_le [OF n(3)] by simp
  have "(256 :: nat) ^ n \<le> 256 ^ 8" using n(1) by (intro power_increasing) auto
  then have uv: "unat v = be_val ?ds" using lt by (simp add: v unat_of_nat)
  have "OrderedNumLength v = n"
  proof (rule antisym)
    let ?m = "OrderedNumLength v"
    show "?m \<le> n"
    proof (rule ccontr)
      assume "\<not> ?m \<le> n"
      then have "(256 :: nat) ^ n \<le> 256 ^ (?m - 1)" by (intro power_increasing) auto
      moreover have "256 ^ (?m - 1) \<le> unat v"
        using \<open>\<not> ?m \<le> n\<close> by (intro OrderedNumLength_spec(3)) simp
      ultimately show False using lt uv by linarith
    qed
    show "n \<le> ?m"
    proof (rule ccontr)
      assume less: "\<not> n \<le> ?m"
      then obtain d ds where ds: "?ds = d # ds" "d \<noteq> 0" "length ds = n - 1"
        using n(3,4) by (cases bs; cases n) auto
      have "256 ^ (n - 1) \<le> be_val ?ds"
        using ds by (simp add: be_val_Cons) (metis One_nat_def Suc_leI mult_le_mono1 nat_mult_1 trans_le_add1 unat_gt_0)
      moreover have "(256 :: nat) ^ ?m \<le> 256 ^ (n - 1)" using less by (intro power_increasing) auto
      ultimately show False using OrderedNumLength_spec(1) [of v] uv by linarith
    qed
  qed
  moreover have "be_bytes n (unat v) = ?ds"
    using be_bytes_be_val [of ?ds] length_take_le [OF n(3)] by (simp add: uv)
  ultimately show ?thesis
    using n(2,5) by (simp add: src num_code_def)
qed

section \<open>Signed numbers\<close>

definition kMaxSigned64Length :: nat where
  "kMaxSigned64Length = 10"

definition kLengthToHeaderBits :: "(u8 \<times> u8) list" where
  "kLengthToHeaderBits =
     [(0, 0), (0x80, 0), (0xc0, 0), (0xe0, 0), (0xf0, 0), (0xf8, 0), (0xfc, 0), (0xfe, 0),
      (0xff, 0), (0xff, 0x80), (0xff, 0xc0)]"

definition kLengthToMask :: "u64 list" where
  "kLengthToMask =
     [0, 0x80, 0xc000, 0xe00000, 0xf0000000, 0xf800000000, 0xfc0000000000, 0xfe000000000000,
      0xff00000000000000, 0x8000000000000000, 0]"

definition kBitsToLength :: "nat list" where
  "kBitsToLength =
     [1, 1, 1, 1, 1, 1, 1, 2, 2, 2, 2, 2, 2, 2, 3, 3, 3, 3, 3, 3, 3, 4,
      4, 4, 4, 4, 4, 4, 5, 5, 5, 5, 5, 5, 5, 6, 6, 6, 6, 6, 6, 6, 7, 7,
      7, 7, 7, 7, 7, 8, 8, 8, 8, 8, 8, 8, 9, 9, 9, 9, 9, 9, 9, 10]"

text \<open>An \<open>int64_t\<close> is its bit pattern; \<open>n < 0\<close> is the signed comparison.\<close>

definition SignedEncodingLength :: "u64 \<Rightarrow> nat" where
  "SignedEncodingLength n = kBitsToLength ! nat (Log2Floor64 (if n <s 0 then NOT n else n) + 1)"

definition SignedEncodingLengthPositive :: "u64 \<Rightarrow> nat" where
  "SignedEncodingLengthPositive n = kBitsToLength ! nat (Log2FloorNonZero64 n + 1)"

definition WriteSignedNumIncreasing :: "bytes \<Rightarrow> u64 \<Rightarrow> bytes option" where
  "WriteSignedNumIncreasing dest val =
     (let x = (if val <s 0 then NOT val else val)
      in if x <s 64 then Some (dest @ [fst (kLengthToHeaderBits ! 1) XOR ucast val])
         else
           let sign_byte = (if val <s 0 then 0xff else 0);
               buf = [sign_byte, sign_byte] @ be_bytes 8 (unat val);
               len = SignedEncodingLengthPositive x
           in if length buf \<noteq> kMaxSigned64Length \<or> \<not> 2 \<le> len then None
              else
                let first = length buf - len;
                    buf = buf [first := buf ! first XOR fst (kLengthToHeaderBits ! len)];
                    buf = buf [first + 1 := buf ! (first + 1) XOR snd (kLengthToHeaderBits ! len)]
                in Some (dest @ take len (drop first buf)))"

definition load_be64 :: "bytes \<Rightarrow> nat \<Rightarrow> u64" where
  "load_be64 s p = of_nat (be_val (take 8 (drop p s)))"

definition ReadSignedNumIncreasing :: "bytes \<Rightarrow> u64 option \<Rightarrow> (bool \<times> bytes \<times> u64 option) option" where
  "ReadSignedNumIncreasing src result =
     (if src = [] then Some (False, src, result)
      else
        let xor_mask = (if src ! 0 AND 0x80 = 0 then NOT 0 else 0) :: u64;
            first_byte = src ! 0 XOR ucast (xor_mask AND 0xff);
            finish = (\<lambda>len x.
              let x = x XOR kLengthToMask ! len
              in if len \<noteq> SignedEncodingLength x then None
                 else Some (True, drop len src, map_option (\<lambda>_. x) result))
        in if first_byte \<noteq> 0xff then
             let len = nat (7 - Log2FloorNonZero (ucast (first_byte XOR 0xff)))
             in if length src < len then Some (False, src, result)
                else finish len (foldl (\<lambda>x b. push_bit 8 x OR ucast b) xor_mask (take len src))
           else if length src < 8 then Some (False, src, result)
           else
             let second_byte = src ! 1 XOR ucast (xor_mask AND 0xff)
             in if second_byte \<ge> 0x80 then
                  if second_byte < 0xc0 then
                    if length src < 9 then Some (False, src, result) else finish 9 (load_be64 src 1)
                  else
                    let third_byte = src ! 2 XOR ucast (xor_mask AND 0xff)
                    in if second_byte = 0xc0 \<and> third_byte < 0x80 then
                         if length src < 10 then Some (False, src, result) else finish 10 (load_be64 src 2)
                       else Some (False, src, result)
                else finish 8 (load_be64 src 0))"

subsection \<open>The code of a signed number\<close>

definition signed_length :: "nat \<Rightarrow> nat" where
  "signed_length n = (LEAST l. 1 \<le> l \<and> n < 2 ^ (7 * l - 1))"

definition header_value :: "nat \<Rightarrow> nat" where
  "header_value l = 2 ^ (8 * l) - 2 ^ (7 * l)"

definition positive_code :: "nat \<Rightarrow> bytes" where
  "positive_code n = be_bytes (signed_length n) (header_value (signed_length n) + n)"

definition signed_code :: "u64 \<Rightarrow> bytes" where
  "signed_code v = (if v <s 0 then map (\<lambda>b. NOT b) (positive_code (unat (NOT v))) else positive_code (unat v))"

lemma sless_0: "v <s (0 :: u64) \<longleftrightarrow> \<not> unat v < 2 ^ 63"
proof -
  have "v <s 0 \<longleftrightarrow> bit v 63"
    using bit_last_iff [of v] by (simp add: word_sless_alt)
  moreover have "unat v div 2 ^ 63 < 2" using unat_less_64 [of v] by (simp add: less_mult_imp_div_less)
  then have "odd (unat v div 2 ^ 63) \<longleftrightarrow> unat v div 2 ^ 63 \<noteq> 0"
    by (cases "unat v div 2 ^ 63 = 0") (simp_all only: less_2_cases_iff, simp_all)
  moreover have "unat v div 2 ^ 63 \<noteq> 0 \<longleftrightarrow> \<not> unat v < 2 ^ 63" by (simp add: div_eq_0_iff)
  ultimately show ?thesis by (simp only: bit_iff_unat)
qed

lemma unat_not: "unat (NOT (v :: u64)) = 2 ^ 64 - 1 - unat v"
proof -
  have "NOT v = - 1 - v" by (simp add: not_eq_complement)
  moreover have "unat (- 1 - v) = unat (- 1 :: u64) - unat v" by (rule unat_sub) simp
  moreover have "unat (- 1 :: u64) = 2 ^ 64 - 1" by (simp add: unsigned_minus_1_eq_mask mask_eq_exp_minus_1)
  ultimately show ?thesis by (simp only:)
qed

lemma kBitsToLength_spec:
  "k < 63 \<Longrightarrow> kBitsToLength ! (k + 1) = (k + 1) div 7 + 1"
  "kBitsToLength ! 0 = 1"
proof -
  have "\<forall>k < 63. kBitsToLength ! (k + 1) = (k + 1) div 7 + 1" by code_simp
  then show "k < 63 \<Longrightarrow> kBitsToLength ! (k + 1) = (k + 1) div 7 + 1" by blast
qed (simp add: kBitsToLength_def)

lemma signed_length_eqI:
  assumes "1 \<le> l" "n < 2 ^ (7 * l - 1)" "l = 1 \<or> 2 ^ (7 * (l - 1) - 1) \<le> n"
  shows "signed_length n = l"
  unfolding signed_length_def
proof (rule Least_equality)
  show "1 \<le> l \<and> n < 2 ^ (7 * l - 1)" using assms by simp
  fix y assume y: "1 \<le> y \<and> n < 2 ^ (7 * y - 1)"
  show "l \<le> y"
  proof (rule ccontr)
    assume "\<not> l \<le> y"
    then have "(2 :: nat) ^ (7 * y - 1) \<le> 2 ^ (7 * (l - 1) - 1)" by (intro power_increasing) auto
    moreover have "2 ^ (7 * (l - 1) - 1) \<le> n" using assms(3) y \<open>\<not> l \<le> y\<close> by auto
    ultimately show False using y by linarith
  qed
qed

lemma signed_length_spec:
  assumes "n < 2 ^ 63"
  shows "1 \<le> signed_length n" "signed_length n \<le> 10" "n < 2 ^ (7 * signed_length n - 1)"
    "signed_length n = 1 \<or> 2 ^ (7 * (signed_length n - 1) - 1) \<le> n"
proof -
  have ex: "1 \<le> (10 :: nat) \<and> n < 2 ^ (7 * 10 - 1)" using assms by simp
  from LeastI [of "\<lambda>l. 1 \<le> l \<and> n < 2 ^ (7 * l - 1)", OF ex]
  show "1 \<le> signed_length n" "n < 2 ^ (7 * signed_length n - 1)"
    unfolding signed_length_def by blast+
  show "signed_length n \<le> 10"
    unfolding signed_length_def by (rule Least_le) (use ex in simp)
  show "signed_length n = 1 \<or> 2 ^ (7 * (signed_length n - 1) - 1) \<le> n"
    using not_less_Least [of "signed_length n - 1" "\<lambda>l. 1 \<le> l \<and> n < 2 ^ (7 * l - 1)"] \<open>1 \<le> signed_length n\<close>
    unfolding signed_length_def by auto
qed

lemma length_of_floor_log:
  assumes "2 ^ k \<le> n" "n < 2 ^ Suc k"
  shows "signed_length n = (k + 1) div 7 + 1"
proof (rule signed_length_eqI)
  have "k + 1 \<le> 7 * ((k + 1) div 7 + 1) - 1" by presburger
  then have "(2 :: nat) ^ Suc k \<le> 2 ^ (7 * ((k + 1) div 7 + 1) - 1)" by (intro power_increasing) auto
  with assms(2) show "n < 2 ^ (7 * ((k + 1) div 7 + 1) - 1)" by simp
  show "(k + 1) div 7 + 1 = 1 \<or> 2 ^ (7 * ((k + 1) div 7 + 1 - 1) - 1) \<le> n"
  proof (cases "(k + 1) div 7 = 0")
    case False
    have "7 * ((k + 1) div 7) - 1 \<le> k" by presburger
    then have "(2 :: nat) ^ (7 * ((k + 1) div 7) - 1) \<le> 2 ^ k" by (intro power_increasing) auto
    from this assms(1) have "2 ^ (7 * ((k + 1) div 7) - 1) \<le> n" by (rule order_trans)
    then show ?thesis by simp
  qed simp
qed simp

lemma SignedEncodingLength_spec:
  "unat x < 2 ^ 63 \<Longrightarrow> SignedEncodingLength x = signed_length (unat x)"
  "unat x < 2 ^ 63 \<Longrightarrow> SignedEncodingLength (NOT x) = signed_length (unat x)"
  "unat x < 2 ^ 63 \<Longrightarrow> x \<noteq> 0 \<Longrightarrow> SignedEncodingLengthPositive x = signed_length (unat x)"
proof -
  assume x: "unat x < 2 ^ 63"
  have main: "kBitsToLength ! nat (Log2Floor64 x + 1) = signed_length (unat x)
    \<and> (x \<noteq> 0 \<longrightarrow> Log2FloorNonZero64 x = Log2Floor64 x)"
  proof (cases "x = 0")
    case True
    have "signed_length 0 = 1" by (rule signed_length_eqI) simp_all
    with True show ?thesis by (simp add: Log2Floor64_def kBitsToLength_spec)
  next
    case False
    obtain k where k: "Log2Floor64 x = int k" "Log2FloorNonZero64 x = int k" "2 ^ k \<le> unat x" "unat x < 2 ^ Suc k"
      using Log2Floor64_spec [OF False] by blast
    have "(2 :: nat) ^ k < 2 ^ 63" using k(3) x by (rule le_less_trans)
    then have "k < 63" by (simp only: power_strict_increasing_iff)
    moreover have "nat (int k + 1) = k + 1" by simp
    ultimately show ?thesis
      using length_of_floor_log [OF k(3,4)] kBitsToLength_spec(1) [of k] by (simp only: k(1,2)) simp
  qed
  show "SignedEncodingLength x = signed_length (unat x)"
    using main x by (simp add: SignedEncodingLength_def sless_0)
  have "\<not> unat (NOT x) < 2 ^ 63" using x by (simp add: unat_not)
  then show "SignedEncodingLength (NOT x) = signed_length (unat x)"
    using main by (simp add: SignedEncodingLength_def sless_0)
  show "x \<noteq> 0 \<Longrightarrow> SignedEncodingLengthPositive x = signed_length (unat x)"
    using main by (simp add: SignedEncodingLengthPositive_def)
qed

subsection \<open>Writing a signed number\<close>

lemma unat_not_u8: "unat (NOT (b :: u8)) = 255 - unat b"
proof -
  have "NOT b = - 1 - b" by (simp add: not_eq_complement)
  moreover have "unat (- 1 - b) = unat (- 1 :: u8) - unat b" by (rule unat_sub) simp
  moreover have "unat (- 1 :: u8) = 255" by (simp add: unsigned_minus_1_eq_mask mask_eq_exp_minus_1)
  ultimately show ?thesis by (simp only:)
qed

lemma be_val_not: "be_val (map (\<lambda>b. NOT b) bs) + be_val bs = 256 ^ length bs - 1"
proof (induction bs)
  case (Cons b bs)
  have "(255 - unat b) * 256 ^ length bs + unat b * 256 ^ length bs = 255 * 256 ^ length bs"
    using unat_u8_less [of b] by (simp flip: distrib_right)
  moreover have "(256 :: nat) ^ length bs \<ge> 1" by simp
  ultimately show ?case using Cons by (simp add: be_val_Cons unat_not_u8 del: one_le_power)
qed simp

lemma be_bytes_not:
  assumes "v < 256 ^ n"
  shows "be_bytes n (256 ^ n - 1 - v) = map (\<lambda>b. NOT b) (be_bytes n v)"
proof (rule be_val_inject)
  have "be_val (map (\<lambda>b. NOT b) (be_bytes n v)) + v = 256 ^ n - 1"
    using be_val_not [of "be_bytes n v"] assms by (simp add: be_val_be_bytes)
  moreover have "256 ^ n - 1 - v < 256 ^ n" using assms by simp
  ultimately show "be_val (be_bytes n (256 ^ n - 1 - v)) = be_val (map (\<lambda>b. NOT b) (be_bytes n v))"
    by (simp add: be_val_be_bytes)
qed simp

lemma header_values:
  "header_value 1 = 0x80" "header_value 2 = 0xc000" "header_value 3 = 0xe00000" "header_value 4 = 0xf0000000"
  "header_value 5 = 0xf800000000" "header_value 6 = 0xfc0000000000" "header_value 7 = 0xfe000000000000"
  "header_value 8 = 0xff00000000000000" "header_value 9 = 0xff8000000000000000"
  "header_value 10 = 0xffc00000000000000000"
  by (simp_all add: header_value_def)

lemma xor_header:
  assumes "unat b < 2 ^ n" "h = push_bit n v"
  shows "(b :: u8) XOR h = h + b"
proof -
  have "take_bit n b = b"
    using assms(1) by (intro word_unat_eq_iff [THEN iffD2]) (simp add: unsigned_take_bit_eq take_bit_nat_eq_self)
  then have bound: "bit b i \<Longrightarrow> i < n" for i
    by (metis bit_take_bit_iff)
  have "b XOR h = push_bit n v OR b"
    unfolding assms(2) by (intro bit_eqI) (auto simp: bit_simps dest: bound)
  also have "\<dots> = h + b"
    using push_bit_or_eq [OF assms(1), of v] by (simp add: assms(2) push_bit_eq_mult)
  finally show ?thesis .
qed

lemma unat_xor_header:
  assumes "unat b < 2 ^ n" "h = push_bit n v" "unat h + 2 ^ n \<le> 256"
  shows "unat ((b :: u8) XOR h) = unat b + unat h"
proof -
  have "unat h + unat b < 2 ^ LENGTH(8)" using assms(1,3) by simp
  then have "unat (h + b) = unat h + unat b" by (simp add: unat_word_ariths)
  then show ?thesis by (simp add: xor_header [OF assms(1,2)])
qed

lemma header_bits:
  assumes "2 \<le> l" "l \<le> 10"
  shows "fst (kLengthToHeaderBits ! l) = push_bit (8 - l) (mask (min l 8))"
    "unat (fst (kLengthToHeaderBits ! l)) + 2 ^ (8 - l) = 256"
    "snd (kLengthToHeaderBits ! l) = push_bit (min 8 (16 - l)) (mask (l - 8))"
    "unat (snd (kLengthToHeaderBits ! l)) + 2 ^ (min 8 (16 - l)) = 256"
    "header_value l = unat (fst (kLengthToHeaderBits ! l)) * 256 ^ (l - 1)
      + unat (snd (kLengthToHeaderBits ! l)) * 256 ^ (l - 2)"
proof -
  have "l \<in> {2, 3, 4, 5, 6, 7, 8, 9, 10}" using assms by auto
  then show "fst (kLengthToHeaderBits ! l) = push_bit (8 - l) (mask (min l 8))"
    "unat (fst (kLengthToHeaderBits ! l)) + 2 ^ (8 - l) = 256"
    "snd (kLengthToHeaderBits ! l) = push_bit (min 8 (16 - l)) (mask (l - 8))"
    "unat (snd (kLengthToHeaderBits ! l)) + 2 ^ (min 8 (16 - l)) = 256"
    "header_value l = unat (fst (kLengthToHeaderBits ! l)) * 256 ^ (l - 1)
      + unat (snd (kLengthToHeaderBits ! l)) * 256 ^ (l - 2)"
    by (auto simp: kLengthToHeaderBits_def header_values push_bit_eq_mult mask_eq_exp_minus_1)
qed

lemma leading_bound:
  fixes b n :: nat
  assumes "b * 256 ^ j \<le> n" "n < 2 ^ (7 * l - 1)" "7 * l - 1 \<le> k + 8 * j"
  shows "b < 2 ^ k"
proof -
  have "(2 :: nat) ^ (7 * l - 1) \<le> 2 ^ (k + 8 * j)" using assms(3) by (intro power_increasing) auto
  moreover have "(2 :: nat) ^ (k + 8 * j) = 2 ^ k * 256 ^ j" by (simp add: power_add power_mult)
  ultimately have "b * 256 ^ j < 2 ^ k * 256 ^ j" using assms(1,2) by linarith
  then show ?thesis by (simp only: mult_less_cancel2)
qed

text \<open>The header bits sit above the leading bits of the number.\<close>

lemma header_patch:
  assumes l: "2 \<le> l" "l \<le> 10" and n: "n < 2 ^ (7 * l - 1)" "n < 2 ^ 63"
    and bs: "be_bytes l n = b0 # b1 # bs"
  shows "be_bytes l (header_value l + n) =
    (b0 XOR fst (kLengthToHeaderBits ! l)) # (b1 XOR snd (kLengthToHeaderBits ! l)) # bs"
proof -
  let ?h0 = "fst (kLengthToHeaderBits ! l)" and ?h1 = "snd (kLengthToHeaderBits ! l)"
  have len: "length bs = l - 2"
    using arg_cong [OF bs, of length] by simp
  have "(2 :: nat) ^ (7 * l - 1) \<le> 2 ^ (8 * l)" by (intro power_increasing) auto
  then have "n < 256 ^ l" using n(1) by (simp add: power_mult)
  then have val: "unat b0 * 256 ^ (l - 1) + (unat b1 * 256 ^ (l - 2) + be_val bs) = n"
    using arg_cong [OF bs, of be_val] l by (simp add: be_val_be_bytes be_val_Cons len Suc_diff_Suc numeral_2_eq_2)
  have xor: "unat (b0 XOR ?h0) = unat b0 + unat ?h0 \<and> unat (b1 XOR ?h1) = unat b1 + unat ?h1
      \<and> header_value l = unat ?h0 * 256 ^ (l - 1) + unat ?h1 * 256 ^ (l - 2)"
  proof -
    have "unat b0 < 2 ^ (8 - l)"
      by (rule leading_bound [OF _ n(1), of _ "l - 1"]) (use val l in linarith, use l in simp)
    moreover have "unat b1 < 2 ^ min 8 (16 - l)"
    proof (cases "l \<le> 8")
      case True
      then show ?thesis using unat_u8_less [of b1] by simp
    next
      case False
      have "unat b1 < 2 ^ (16 - l)"
        by (rule leading_bound [OF _ n(1), of _ "l - 2"]) (use val l in linarith, use l in simp)
      moreover have "min 8 (16 - l) = 16 - l" using False by simp
      ultimately show ?thesis by simp
    qed
    ultimately show ?thesis
      using header_bits [OF l] by (simp add: unat_xor_header)
  qed
  have "be_val ((b0 XOR ?h0) # (b1 XOR ?h1) # bs) = header_value l + n"
    using xor val l by (simp add: be_val_Cons len distrib_right Suc_diff_Suc numeral_2_eq_2)
  moreover have "header_value l + n < 256 ^ l"
    using be_val_less [of "(b0 XOR ?h0) # (b1 XOR ?h1) # bs"] len l calculation by (simp add: Suc_diff_Suc numeral_2_eq_2)
  ultimately show ?thesis
    using len l by (intro be_val_inject) (simp_all add: be_val_be_bytes)
qed

lemma xor_not_left: "NOT a XOR b = NOT (a XOR b)" for a b :: "'a :: len word"
  by (rule bit_eqI) (simp add: bit_simps)

lemma ucast_not_u8: "ucast (NOT (v :: u64)) = NOT (ucast v :: u8)"
  by (rule bit_eqI) (simp add: bit_simps)

lemma be_bytes_10: "n < 256 ^ 8 \<Longrightarrow> be_bytes 10 n = [0, 0] @ be_bytes 8 n"
proof (rule be_val_inject)
  assume n: "n < 256 ^ 8"
  then have "be_val ([0, 0] @ be_bytes 8 n) = n" by (simp add: be_val_append be_val_Cons be_val_be_bytes)
  moreover have "be_val (be_bytes 10 n) = n" using n by (simp add: be_val_be_bytes)
  ultimately show "be_val (be_bytes 10 n) = be_val ([0, 0] @ be_bytes 8 n)" by simp
qed simp

definition with_header :: "nat \<Rightarrow> bytes \<Rightarrow> bytes" where
  "with_header len buf =
     (let first = length buf - len;
          buf = buf [first := buf ! first XOR fst (kLengthToHeaderBits ! len)];
          buf = buf [first + 1 := buf ! (first + 1) XOR snd (kLengthToHeaderBits ! len)]
      in take len (drop first buf))"

lemma with_header_not:
  assumes "2 \<le> len" "len \<le> length buf"
  shows "with_header len (map (\<lambda>b. NOT b) buf) = map (\<lambda>b. NOT b) (with_header len buf)"
  using assms
  by (intro nth_equalityI) (auto simp: with_header_def Let_def nth_list_update xor_not_left)

lemma with_header_positive:
  assumes "2 \<le> l" "l \<le> 10" "n < 2 ^ (7 * l - 1)" "n < 2 ^ 63"
  shows "with_header l (be_bytes 10 n) = be_bytes l (header_value l + n)"
proof -
  have drop: "drop (10 - l) (be_bytes 10 n) = be_bytes l n"
    using drop_be_bytes [of "10 - l" l n] assms(2) by simp
  obtain b0 b1 bs where bs: "be_bytes l n = b0 # b1 # bs"
  proof -
    have "length (be_bytes l n) = l" by simp
    with assms(1) that show thesis
      by (cases "be_bytes l n" rule: list.exhaust; cases "tl (be_bytes l n)") auto
  qed
  then have len: "length bs = l - 2" by (metis length_be_bytes length_Cons diff_Suc_Suc diff_zero numeral_2_eq_2)
  define pre where "pre = take (10 - l) (be_bytes 10 n)"
  have pre: "be_bytes 10 n = pre @ b0 # b1 # bs" "length pre = 10 - l"
    using append_take_drop_id [of "10 - l" "be_bytes 10 n"] unfolding drop bs by (simp_all add: pre_def)
  have "with_header l (pre @ b0 # b1 # bs) =
      (b0 XOR fst (kLengthToHeaderBits ! l)) # (b1 XOR snd (kLengthToHeaderBits ! l)) # bs"
    using pre(2) len assms(1,2) by (simp add: with_header_def Let_def nth_append list_update_append)
  then show ?thesis
    using header_patch [OF assms bs] by (simp add: pre(1))
qed

lemma WriteSignedNumIncreasing_spec:
  "WriteSignedNumIncreasing dest val = Some (dest @ signed_code val)"
proof -
  define x where "x = (if val <s 0 then NOT val else val)"
  have val: "val = (if val <s 0 then NOT x else x)" by (simp add: x_def)
  have x: "unat x < 2 ^ 63"
    using unat_less_64 [of val] by (auto simp: x_def sless_0 unat_not)
  have code: "signed_code val = (if val <s 0 then map (\<lambda>b. NOT b) (positive_code (unat x)) else positive_code (unat x))"
    by (simp add: signed_code_def x_def)
  note sl = signed_length_spec [OF x]
  have small: "x <s 64 \<longleftrightarrow> unat x < 64"
  proof -
    have u: "uint x = int (unat x)" by simp
    moreover have "unat x < 9223372036854775808" using x by simp
    ultimately have "- 9223372036854775808 \<le> uint x" "uint x < 9223372036854775808" by linarith+
    then have "signed_take_bit 63 (uint x) = uint x"
      by (intro signed_take_bit_int_eq_self) simp_all
    then have "sint x = uint x" by (simp add: sint_uint)
    then have "x <s 64 \<longleftrightarrow> uint x < 64" by (simp add: word_sless_alt)
    with u show ?thesis by linarith
  qed
  show ?thesis
  proof (cases "unat x < 64")
    case True
    then have len: "signed_length (unat x) = 1" by (intro signed_length_eqI) simp_all
    have "unat (ucast x :: u8) = unat x" using True by (simp add: unat_ucast)
    then have "ucast x XOR 0x80 = 0x80 + (ucast x :: u8)"
      using True by (intro xor_header [where n = 7 and v = 1]) (simp_all add: push_bit_eq_mult)
    then have "positive_code (unat x) = [0x80 XOR ucast x]"
      unfolding positive_code_def len header_values by (simp add: xor.commute)
    then show ?thesis
      using True small val code by (auto simp: WriteSignedNumIncreasing_def Let_def x_def kLengthToHeaderBits_def
        ucast_not_u8 xor_not_left xor.commute)
  next
    case False
    then have "x \<noteq> 0" by auto
    then have len: "SignedEncodingLengthPositive x = signed_length (unat x)"
      by (rule SignedEncodingLength_spec(3) [OF x])
    have l2: "2 \<le> signed_length (unat x)"
      using sl(1,3) False by (cases "signed_length (unat x) = 1") auto
    have buf: "[if val <s 0 then 0xff else 0, if val <s 0 then 0xff else 0] @ be_bytes 8 (unat val) =
        (if val <s 0 then map (\<lambda>b. NOT b) (be_bytes 10 (unat x)) else be_bytes 10 (unat x))"
    proof (cases "val <s 0")
      case True
      then have "unat val = 256 ^ 8 - 1 - unat x"
        using val unat_not [of x] by simp
      moreover have "(unat x) < 256 ^ 8" using x by simp
      ultimately show ?thesis
        using True be_bytes_not [of "unat x" 8] be_bytes_10 [of "unat x"] by simp
    next
      case False
      then have "val = x" using val by simp
      with False show ?thesis using x by (simp add: be_bytes_10)
    qed
    have "WriteSignedNumIncreasing dest val = Some (dest @ with_header (signed_length (unat x))
       (if val <s 0 then map (\<lambda>b. NOT b) (be_bytes 10 (unat x)) else be_bytes 10 (unat x)))"
      using False small l2 unfolding WriteSignedNumIncreasing_def x_def [symmetric] Let_def buf
      by (simp add: len with_header_def Let_def kMaxSigned64Length_def)
    moreover have "with_header (signed_length (unat x)) (be_bytes 10 (unat x)) = positive_code (unat x)"
      using with_header_positive [OF l2 sl(2,3) x] by (simp add: positive_code_def)
    ultimately show ?thesis
      using l2 sl(2) code by (auto simp: with_header_not)
  qed
qed

subsection \<open>Reading a signed number\<close>

lemma header_mod:
  assumes "1 \<le> l" "l \<le> 10"
  shows "kLengthToMask ! l = of_nat (header_value l)" "2 ^ (7 * l) dvd header_value l"
proof -
  have "l = 1 \<or> l = 2 \<or> l = 3 \<or> l = 4 \<or> l = 5 \<or> l = 6 \<or> l = 7 \<or> l = 8 \<or> l = 9 \<or> l = 10"
    using assms by presburger
  then show "kLengthToMask ! l = of_nat (header_value l)"
    by (elim disjE) (simp_all only: header_values, simp_all add: kLengthToMask_def)
  have "header_value l = 2 ^ (7 * l) * (2 ^ l - 1)"
    by (simp add: header_value_def diff_mult_distrib2 flip: power_add)
  then show "2 ^ (7 * l) dvd header_value l" by simp
qed

lemma unmask:
  assumes "1 \<le> l" "l \<le> 10" "n < 2 ^ (7 * l)" "n < 2 ^ 64"
  shows "of_nat (header_value l + n) XOR kLengthToMask ! l = (of_nat n :: u64)"
proof -
  let ?h = "of_nat (header_value l) :: u64"
  have "?h AND of_nat n = 0"
  proof (rule bit_eqI)
    fix i
    have "\<not> bit ?h i \<or> \<not> bit (of_nat n :: u64) i"
    proof (cases "i < 7 * l")
      case True
      obtain k where "header_value l = 2 ^ (7 * l) * k" using header_mod(2) [OF assms(1,2)] by blast
      moreover have "7 * l = i + Suc (7 * l - Suc i)" using True by simp
      then have "(2 :: nat) ^ (7 * l) = 2 ^ i * (2 * 2 ^ (7 * l - Suc i))"
        by (metis power_add power_Suc)
      ultimately have "header_value l div 2 ^ i = 2 * (2 ^ (7 * l - Suc i) * k)" by (simp add: mult.assoc)
      then have "\<not> bit (header_value l) i" by (simp add: bit_iff_odd)
      then show ?thesis by (simp add: bit_of_nat_iff)
    next
      case False
      then have "(2 :: nat) ^ (7 * l) \<le> 2 ^ i" by (intro power_increasing) auto
      then have "n < 2 ^ i" using assms(3) by linarith
      then have "n div 2 ^ i = 0" by simp
      then have "\<not> bit n i" by (simp add: bit_iff_odd)
      then show ?thesis by (simp add: bit_of_nat_iff)
    qed
    then show "bit (?h AND of_nat n) i = bit 0 i" by (simp add: bit_simps)
  qed
  then have "?h + of_nat n = ?h XOR of_nat n"
    by (metis disjunctive_add_eq_xor)
  then have "of_nat (header_value l + n) XOR kLengthToMask ! l = (?h XOR of_nat n) XOR ?h"
    by (simp add: header_mod(1) [OF assms(1,2)])
  also have "\<dots> = of_nat n" by (simp add: xor.left_commute xor.commute)
  finally show ?thesis .
qed

text \<open>A negative number is read as the complement of its complement.\<close>

lemma foldl_bytes_not:
  "foldl (\<lambda>x b. push_bit 8 x OR ucast b) (NOT (a :: u64)) (map (\<lambda>b. NOT b) bs) =
     NOT (foldl (\<lambda>x b. push_bit 8 x OR ucast (b :: u8)) a bs)"
proof (induction bs arbitrary: a)
  case (Cons b bs)
  have "push_bit 8 (NOT a) OR ucast (NOT b) = NOT (push_bit 8 a OR ucast b)"
    by (rule bit_eqI) (auto simp: bit_simps dest: bit_imp_le_length)
  with Cons show ?case by (simp only: foldl.simps list.map)
qed simp

lemma load_be64_not:
  assumes "length bs = 8"
  shows "of_nat (be_val (map (\<lambda>b. NOT b) bs)) = NOT (of_nat (be_val bs) :: u64)"
proof -
  have lt: "be_val bs < 2 ^ 64" using be_val_less [of bs] assms by simp
  have "be_val (map (\<lambda>b. NOT b) bs) = 2 ^ 64 - 1 - be_val bs"
    using be_val_not [of bs] assms by simp
  moreover have "unat (NOT (of_nat (be_val bs) :: u64)) = 2 ^ 64 - 1 - be_val bs"
    using lt by (simp add: unat_not unat_of_nat)
  ultimately show ?thesis by (metis of_nat_unat ucast_id)
qed

lemma positive_code_facts:
  assumes "n < 2 ^ 63" "l = signed_length n"
  shows "length (positive_code n) = l" "be_val (positive_code n) = header_value l + n"
proof -
  note sl = signed_length_spec [OF assms(1), folded assms(2)]
  show "length (positive_code n) = l" by (simp add: positive_code_def assms(2))
  have "(2 :: nat) ^ (7 * l - 1) \<le> 2 ^ (7 * l)" by (intro power_increasing) auto
  then have "n < 2 ^ (7 * l)" using sl(3) by linarith
  moreover have "(2 :: nat) ^ (7 * l) \<le> 2 ^ (8 * l)" by (intro power_increasing) auto
  moreover have "(2 :: nat) ^ (8 * l) = 256 ^ l" by (simp add: power_mult)
  ultimately have "header_value l + n < 256 ^ l" by (simp add: header_value_def)
  then show "be_val (positive_code n) = header_value l + n"
    by (simp add: positive_code_def be_val_be_bytes flip: assms(2))
qed

lemma be_val_head: "be_val (b # bs) = v \<Longrightarrow> unat b = v div 256 ^ length bs"
  using be_val_less [of bs] by (auto simp: be_val_Cons)

lemma nth_xor_prefix: "i < length c \<Longrightarrow> (map f c @ rest) ! i = f (c ! i)"
  by (simp add: nth_append)

definition finish_signed :: "bytes \<Rightarrow> u64 option \<Rightarrow> nat \<Rightarrow> u64 \<Rightarrow> (bool \<times> bytes \<times> u64 option) option" where
  "finish_signed src result len x =
     (let x = x XOR kLengthToMask ! len
      in if len \<noteq> SignedEncodingLength x then None
         else Some (True, drop len src, map_option (\<lambda>_. x) result))"

text \<open>The bytes of a positive code that the reader looks at to find its length.\<close>

lemma positive_code_lead:
  assumes n: "n < 2 ^ 63" and l: "l = signed_length n"
  shows "l \<le> 7 \<Longrightarrow> 256 - 2 ^ (8 - l) \<le> unat (positive_code n ! 0) \<and> unat (positive_code n ! 0) < 256 - 2 ^ (7 - l)"
    and "8 \<le> l \<Longrightarrow> unat (positive_code n ! 0) = 255"
    and "l = 8 \<Longrightarrow> unat (positive_code n ! 1) < 128"
    and "l = 9 \<Longrightarrow> 128 \<le> unat (positive_code n ! 1) \<and> unat (positive_code n ! 1) < 192"
    and "l = 10 \<Longrightarrow> unat (positive_code n ! 1) = 192 \<and> unat (positive_code n ! 2) < 128"
proof -
  note sl = signed_length_spec [OF n, folded l]
  note facts = positive_code_facts [OF n l]
  obtain b0 bs where c: "positive_code n = b0 # bs" and len: "length bs = l - 1"
    using facts(1) sl(1) by (cases "positive_code n") auto
  have val: "unat b0 * 256 ^ (l - 1) + be_val bs = header_value l + n"
    using facts(2) by (simp add: c be_val_Cons len)
  have rest: "be_val bs < 256 ^ (l - 1)" using be_val_less [of bs] len by simp
  show "256 - 2 ^ (8 - l) \<le> unat (positive_code n ! 0) \<and> unat (positive_code n ! 0) < 256 - 2 ^ (7 - l)"
    if "l \<le> 7"
  proof -
    have "l = 1 \<or> l = 2 \<or> l = 3 \<or> l = 4 \<or> l = 5 \<or> l = 6 \<or> l = 7" using that sl(1) by presburger
    then show ?thesis
      using val rest sl(3) unfolding c
      by (elim disjE) (simp_all only: header_values, simp_all)
  qed
  have tail: "8 \<le> l \<Longrightarrow> unat b0 = 255 \<and> be_val bs = header_value l - 255 * 256 ^ (l - 1) + n"
  proof -
    assume "8 \<le> l"
    then have l8: "l = 8 \<or> l = 9 \<or> l = 10" using sl(2) by presburger
    then have b0: "unat b0 = 255"
      using val rest sl(3) n by (elim disjE) (simp_all only: header_values, simp_all)
    with l8 show ?thesis
      using val by (elim disjE) (simp_all only: header_values, simp_all)
  qed
  then show "8 \<le> l \<Longrightarrow> unat (positive_code n ! 0) = 255" by (simp add: c)
  obtain b1 bs' where c1: "bs = b1 # bs'" if "8 \<le> l"
    using len by (cases bs) auto
  have len1: "length bs' = l - 2" if "8 \<le> l"
    using c1 [OF that] len that by simp
  have val1: "unat b1 * 256 ^ (l - 2) + be_val bs' = header_value l - 255 * 256 ^ (l - 1) + n"
    and rest1: "be_val bs' < 256 ^ (l - 2)" if "8 \<le> l"
    using tail [OF that] c1 [OF that] be_val_less [of bs'] len1 [OF that] by (auto simp: be_val_Cons)
  have n1: "positive_code n ! 1 = b1" "positive_code n ! 2 = bs' ! 0" if "8 \<le> l"
    using c c1 [OF that] by (simp_all add: numeral_2_eq_2)
  show "unat (positive_code n ! 1) < 128" if "l = 8"
  proof -
    have "unat (b1) < 128"
      using val1 rest1 sl(3) unfolding that header_values by simp
    then show ?thesis using n1 that by simp
  qed
  show "128 \<le> unat (positive_code n ! 1) \<and> unat (positive_code n ! 1) < 192" if "l = 9"
  proof -
    have "128 \<le> unat (b1) \<and> unat (b1) < 192"
      using val1 rest1 sl(3) unfolding that header_values by simp
    then show ?thesis using n1 that by simp
  qed
  show "unat (positive_code n ! 1) = 192 \<and> unat (positive_code n ! 2) < 128" if l10: "l = 10"
  proof -
    have b192: "unat b1 = 192"
      using val1 rest1 n unfolding l10 header_values by simp
    then have b1: "unat b1 = 192 \<and> be_val bs' = n"
      using val1 unfolding l10 header_values by simp
    obtain b2 bs'' where b2: "bs' = b2 # bs''" "length bs'' = 7"
      using len1 l10 by (cases bs') auto
    then have "unat b2 * 256 ^ 7 + be_val bs'' = n" using b1 by (simp add: be_val_Cons)
    then have "unat b2 < 128" using n by simp
    with b1 b2 n1 l10 show ?thesis by simp
  qed
qed

lemma finish_signed_spec:
  assumes n: "n < 2 ^ 63" and l: "l = signed_length n" and v: "v = (if neg then NOT (of_nat n) else of_nat n)"
    and x: "x = (if neg then NOT (of_nat (header_value l + n)) else of_nat (header_value l + n))"
  shows "finish_signed src result l x = Some (True, drop l src, map_option (\<lambda>_. v) result)"
proof -
  note sl = signed_length_spec [OF n, folded l]
  have "(2 :: nat) ^ (7 * l - 1) \<le> 2 ^ (7 * l)" by (intro power_increasing) auto
  then have "n < 2 ^ (7 * l)" using sl(3) by linarith
  then have "of_nat (header_value l + n) XOR kLengthToMask ! l = (of_nat n :: u64)"
    using sl n by (intro unmask) simp_all
  then have "x XOR kLengthToMask ! l = v"
    by (auto simp: x v xor_not_left simp del: of_nat_add)
  moreover have u: "unat (of_nat n :: u64) = n" using n by (simp add: unat_of_nat)
  then have "SignedEncodingLength v = l"
    using SignedEncodingLength_spec(1,2) [of "of_nat n"] n l by (simp add: v)
  ultimately show ?thesis by (simp add: finish_signed_def)
qed

definition flip_byte :: "bool \<Rightarrow> u8 \<Rightarrow> u8" where
  "flip_byte neg b = (if neg then NOT b else b)"

lemma foldl_flip:
  "foldl (\<lambda>x b. push_bit 8 x OR ucast b) (if neg then NOT 0 else 0) (map (flip_byte neg) bs) =
     (if neg then NOT (of_nat (be_val bs)) else (of_nat (be_val bs) :: u64))"
  using foldl_bytes [of 0 bs] foldl_bytes_not [of 0 bs]
  by (cases neg) (simp_all add: flip_byte_def [abs_def] be_val_def)

lemma load_flip:
  assumes "length bs = 8 + p"
  shows "load_be64 (map (flip_byte neg) bs @ rest) p =
     (if neg then NOT (of_nat (be_val bs)) else of_nat (be_val bs))"
proof -
  have "be_val bs = be_val (take p bs) * 256 ^ 8 + be_val (drop p bs)"
    using assms be_val_append [of "take p bs" "drop p bs"] by simp
  then have "be_val bs = be_val (take p bs) * 2 ^ 64 + be_val (drop p bs)" by simp
  then have "(of_nat (be_val bs) :: u64) = of_nat (be_val (drop p bs))"
    by (simp only: word_of_nat_eq_iff take_bit_eq_mod) simp
  moreover have "take 8 (drop p (map (flip_byte neg) bs @ rest)) = map (flip_byte neg) (drop p bs)"
    using assms by (simp add: drop_map)
  ultimately show ?thesis
    using assms load_be64_not [of "drop p bs"]
    by (cases neg) (simp_all add: load_be64_def flip_byte_def [abs_def])
qed

lemma xor_0xff: "b XOR 0xff = NOT b" for b :: u8
proof -
  have "b XOR NOT 0 = NOT b" by (rule bit_eqI) (simp add: bit_simps)
  moreover have "(0xff :: u8) = NOT 0" by simp
  ultimately show ?thesis by (simp only:)
qed

lemma flip_xor: "flip_byte neg b XOR ucast ((if neg then NOT 0 else 0 :: u64) AND 0xff) = b"
proof (cases neg)
  case True
  have "NOT b XOR 0xff = b" by (simp add: xor_0xff)
  with True show ?thesis by (simp add: flip_byte_def)
qed (simp add: flip_byte_def)

lemma header_length:
  fixes b :: u8
  assumes "1 \<le> l" "l \<le> 7" "256 - 2 ^ (8 - l) \<le> unat b" "unat b < 256 - 2 ^ (7 - l)"
  shows "nat (7 - Log2FloorNonZero (ucast (b XOR 0xff))) = l" "b \<noteq> 0xff"
proof -
  let ?w = "ucast (b XOR 0xff) :: u32"
  have w: "unat ?w = 255 - unat b" unfolding xor_0xff unat_ucast unat_not_u8 by simp
  have pow: "(2 :: nat) ^ (8 - l) = 2 * 2 ^ (7 - l)" using assms(1,2) by (simp add: Suc_diff_le flip: power_Suc)
  have "(2 :: nat) ^ (8 - l) \<le> 2 ^ 8" by (intro power_increasing) auto
  define p where "p = (2 :: nat) ^ (7 - l)"
  have "2 * p \<le> 256" "256 - 2 * p \<le> unat b" "unat b < 256 - p"
    using assms(3,4) pow \<open>(2 :: nat) ^ (8 - l) \<le> 2 ^ 8\<close> by (simp_all add: p_def)
  then have "p \<le> 255 - unat b" "255 - unat b < 2 * p" by linarith+
  then have range: "2 ^ (7 - l) \<le> unat ?w" "unat ?w < 2 ^ Suc (7 - l)"
    unfolding w p_def by simp_all
  have "(1 :: nat) \<le> 2 ^ (7 - l)" by simp
  then have "?w \<noteq> 0" using range(1) by (metis not_one_le_zero unat_0 order_trans)
  from Log2Floor_spec [OF this] obtain k where k: "Log2FloorNonZero ?w = int k" "2 ^ k \<le> unat ?w" "unat ?w < 2 ^ Suc k"
    by blast
  have "k = 7 - l" by (rule floor_log_unique [OF k(2,3) range])
  then show "nat (7 - Log2FloorNonZero (ucast (b XOR 0xff))) = l" using k(1) assms(1,2) by simp
  have "unat b \<noteq> 255" using assms(4) \<open>(1 :: nat) \<le> 2 ^ (7 - l)\<close> by linarith
  then show "b \<noteq> 0xff" by (simp add: u8_eq_iffs)
qed

lemma flip_sign:
  assumes "128 \<le> unat b"
  shows "(if flip_byte neg b AND 0x80 = 0 then NOT 0 else 0) = (if neg then NOT 0 else 0 :: u64)"
  using assms by (auto simp: flip_byte_def and_0x80_u8 unat_not_u8)

lemma ReadSigned_flip:
  assumes n: "n < 2 ^ 63" and v: "v = (if neg then NOT (of_nat n) else of_nat n)"
  shows "ReadSignedNumIncreasing (map (flip_byte neg) (positive_code n) @ rest) result
    = Some (True, rest, map_option (\<lambda>_. v) result)"
proof -
  define l where "l = signed_length n"
  define c where "c = positive_code n"
  let ?src = "map (flip_byte neg) c @ rest"
  let ?M = "if neg then NOT 0 else 0 :: u64"
  note sl = signed_length_spec [OF n, folded l_def]
  note facts = positive_code_facts [OF n l_def, folded c_def]
  note lead = positive_code_lead [OF n l_def, folded c_def]
  have ne: "?src \<noteq> []" using facts(1) sl(1) by auto
  have nth: "i < l \<Longrightarrow> ?src ! i = flip_byte neg (c ! i)" for i
    using facts(1) by (simp add: nth_append)
  have big: "128 \<le> unat (c ! 0)"
  proof (cases "l \<le> 7")
    case True
    have "(2 :: nat) ^ (8 - l) \<le> 2 ^ 7" using sl(1) by (intro power_increasing) auto
    then have "128 \<le> 256 - (2 :: nat) ^ (8 - l)" by simp
    then show ?thesis using lead(1) [OF True] by linarith
  qed (use lead(2) in simp)
  have mask: "(if ?src ! 0 AND 0x80 = 0 then NOT 0 else 0) = ?M"
    using nth [of 0] sl(1) flip_sign [OF big] by simp
  have first: "?src ! 0 XOR ucast (?M AND 0xff) = c ! 0"
    using nth [of 0] sl(1) by (simp only: flip_xor)
  have len: "length ?src = l + length rest" using facts(1) by simp
  have fin: "finish_signed ?src result l (if neg then NOT (of_nat (be_val c)) else of_nat (be_val c))
      = Some (True, rest, map_option (\<lambda>_. v) result)"
  proof -
    have "drop l ?src = rest" using facts(1) by simp
    with finish_signed_spec [OF n l_def v refl, of ?src result] show ?thesis by (simp only: facts(2))
  qed
  have read: "ReadSignedNumIncreasing ?src result =
      (let first_byte = c ! 0
       in if first_byte \<noteq> 0xff then
             let len = nat (7 - Log2FloorNonZero (ucast (first_byte XOR 0xff)))
             in if length ?src < len then Some (False, ?src, result)
                else finish_signed ?src result len (foldl (\<lambda>x b. push_bit 8 x OR ucast b) ?M (take len ?src))
           else if length ?src < 8 then Some (False, ?src, result)
           else
             let second_byte = ?src ! 1 XOR ucast (?M AND 0xff)
             in if second_byte \<ge> 0x80 then
                  if second_byte < 0xc0 then
                    if length ?src < 9 then Some (False, ?src, result) else finish_signed ?src result 9 (load_be64 ?src 1)
                  else
                    let third_byte = ?src ! 2 XOR ucast (?M AND 0xff)
                    in if second_byte = 0xc0 \<and> third_byte < 0x80 then
                         if length ?src < 10 then Some (False, ?src, result) else finish_signed ?src result 10 (load_be64 ?src 2)
                       else Some (False, ?src, result)
                else finish_signed ?src result 8 (load_be64 ?src 0))"
    unfolding ReadSignedNumIncreasing_def finish_signed_def Let_def mask first if_not_P [OF ne] by (rule refl)
  show ?thesis
  proof (cases "l \<le> 7")
    case True
    have "256 - 2 ^ (8 - l) \<le> unat (c ! 0)" "unat (c ! 0) < 256 - 2 ^ (7 - l)" using lead(1) [OF True] by auto
    note hl = header_length [OF sl(1) True this]
    have "take l ?src = map (flip_byte neg) c" using facts(1) by simp
    then show ?thesis
      unfolding c_def [symmetric] read Let_def hl(1) using hl(2) len fin foldl_flip [of neg c] by simp
  next
    case False
    then have l8: "l = 8 \<or> l = 9 \<or> l = 10" using sl(2) by presburger
    have c0: "c ! 0 = 0xff" using lead(2) False by (simp add: u8_eq_iffs)
    have c1: "?src ! 1 XOR ucast (?M AND 0xff) = c ! 1" and c2: "l = 10 \<Longrightarrow> ?src ! 2 XOR ucast (?M AND 0xff) = c ! 2"
      using nth [of 1] nth [of 2] False by (simp_all only: flip_xor)
    have load: "load_be64 ?src (l - 8) = (if neg then NOT (of_nat (be_val c)) else of_nat (be_val c))"
      using False facts(1) by (intro load_flip) simp
    note read' = read [unfolded Let_def c0 c1]
    show ?thesis
      using l8
    proof (elim disjE)
      assume "l = 8"
      moreover have "\<not> c ! 1 \<ge> 0x80" using lead(3) \<open>l = 8\<close> by (simp add: word_le_nat_alt)
      ultimately show ?thesis
        unfolding c_def [symmetric] read' using len fin load by simp
    next
      assume "l = 9"
      moreover have "c ! 1 \<ge> 0x80" "c ! 1 < 0xc0"
        using lead(4) \<open>l = 9\<close> by (simp_all add: word_le_nat_alt word_less_nat_alt)
      ultimately show ?thesis
        unfolding c_def [symmetric] read' using len fin load by simp
    next
      assume "l = 10"
      moreover have "unat (c ! 1) = unat (0xc0 :: u8)" "c ! 2 < 0x80"
        using lead(5) \<open>l = 10\<close> by (simp_all add: word_less_nat_alt)
      then have "c ! 1 = 0xc0" by (simp only: word_unat_eq_iff)
      ultimately show ?thesis
        unfolding c_def [symmetric] read' using len fin load c2 \<open>c ! 2 < 0x80\<close> by simp
    qed
  qed
qed

lemma ReadSignedNumIncreasing_code:
  "ReadSignedNumIncreasing (signed_code v @ rest) result = Some (True, rest, map_option (\<lambda>_. v) result)"
proof -
  define x where "x = (if v <s 0 then NOT v else v)"
  have x: "unat x < 2 ^ 63"
    using unat_less_64 [of v] by (auto simp: x_def sless_0 unat_not)
  have "v = (if v <s 0 then NOT (of_nat (unat x)) else of_nat (unat x))"
    by (simp add: x_def)
  moreover have "signed_code v = map (flip_byte (v <s 0)) (positive_code (unat x))"
    by (simp add: signed_code_def x_def flip_byte_def [abs_def])
  ultimately show ?thesis
    using ReadSigned_flip [OF x, of v "v <s 0" rest result] by simp
qed

end
