(* ===== verification/OrderedCode.thy ===== *)
theory OrderedCode
  imports OrderedNum
begin

text \<open>
  What the key encoding is for: the bytewise order of encoded vectors of items is the order of the
  vectors. The locale \<open>ordered_code\<close> states what the encoding of one type of item promises (no code
  is a prefix of another, smaller values have smaller codes, the reader inverts the writer) and is
  interpreted on the strings, the unsigned and the signed numbers.
\<close>

section \<open>Order\<close>

text \<open>The bytewise order of strings (\<open>memcmp\<close>, a shorter string first).\<close>

fun bytes_less :: "bytes \<Rightarrow> bytes \<Rightarrow> bool" where
  "bytes_less xs [] \<longleftrightarrow> False"
| "bytes_less [] (y # ys) \<longleftrightarrow> True"
| "bytes_less (x # xs) (y # ys) \<longleftrightarrow> x < y \<or> x = y \<and> bytes_less xs ys"

lemma bytes_less_prefix: "bytes_less (p @ x) (p @ y) \<longleftrightarrow> bytes_less x y"
  by (induction p) auto

lemma bytes_less_irrefl: "\<not> bytes_less x x"
  by (induction x) auto

lemma bytes_less_total: "x = y \<or> bytes_less x y \<or> bytes_less y x"
proof (induction x y rule: bytes_less.induct)
  case (1 xs)
  then show ?case by (cases xs) auto
next
  case (3 x xs y ys)
  then show ?case by (cases x y rule: linorder_cases) auto
qed simp

text \<open>Two strings that differ, whatever follows them, the first the smaller.\<close>

definition precedes :: "bytes \<Rightarrow> bytes \<Rightarrow> bool" where
  "precedes p q \<longleftrightarrow> (\<exists>r b c p' q'. p = r @ b # p' \<and> q = r @ c # q' \<and> b < c)"

lemma precedesI: "b < c \<Longrightarrow> precedes (r @ b # p) (r @ c # q)"
  unfolding precedes_def by blast

lemma precedes_Cons: "b < c \<Longrightarrow> precedes (b # p) (c # q)"
  using precedesI [of b c "[]"] by simp

lemma precedes_prefix: "precedes p q \<Longrightarrow> precedes (r @ p) (r @ q)"
  unfolding precedes_def by (metis append.assoc)

lemma precedes_append: "precedes p q \<Longrightarrow> precedes (p @ x) (q @ y)"
  unfolding precedes_def by (metis append.assoc append_Cons)

lemma precedes_less:
  "precedes p q \<Longrightarrow> bytes_less (p @ x) (q @ y)" "precedes p q \<Longrightarrow> \<not> bytes_less (q @ y) (p @ x)"
  unfolding precedes_def by (auto simp: bytes_less_prefix)

lemma not_u8_less: "NOT c < NOT b \<longleftrightarrow> b < c" for b c :: u8
  using unat_u8_less [of b] unat_u8_less [of c] by (auto simp: word_less_nat_alt unat_not_u8)

lemma precedes_not: "precedes p q \<Longrightarrow> precedes (map (\<lambda>b. NOT b) q) (map (\<lambda>b. NOT b) p)"
proof -
  assume "precedes p q"
  then obtain r b c p' q' where "p = r @ b # p'" "q = r @ c # q'" "b < c"
    unfolding precedes_def by blast
  then show ?thesis
    using precedesI [of "NOT c" "NOT b" "map (\<lambda>b. NOT b) r"] by (simp add: not_u8_less)
qed

lemma precedes_value: "length p = length q \<Longrightarrow> be_val p < be_val q \<Longrightarrow> precedes p q"
proof (induction p q rule: list_induct2)
  case (Cons b p c q)
  show ?case
  proof (cases "b = c")
    case True
    with Cons show ?thesis using precedes_prefix [of p q "[b]"] by (simp add: be_val_Cons)
  next
    case False
    have "unat b \<le> unat c"
    proof (rule ccontr)
      assume "\<not> unat b \<le> unat c"
      then have "Suc (unat c) * 256 ^ length q \<le> unat b * 256 ^ length q" by (intro mult_le_mono1) simp
      with Cons be_val_less [of q] show False by (simp add: be_val_Cons)
    qed
    with False have "b < c" by (simp add: word_less_nat_alt le_neq_implies_less word_unat_eq_iff)
    then show ?thesis by (rule precedes_Cons)
  qed
qed simp

text \<open>
  What a code of \<open>ordered_code\<close> promises: the order of the codes, whatever follows them, is the order
  of the values, and a reader gets the value back with what follows it.
\<close>

locale ordered_code =
  fixes code :: "'a \<Rightarrow> bytes" and less :: "'a \<Rightarrow> 'a \<Rightarrow> bool" and read :: "bytes \<Rightarrow> ('a \<times> bytes) option"
  assumes smaller: "less a b \<Longrightarrow> precedes (code a) (code b)"
    and total: "a = b \<or> less a b \<or> less b a"
    and irrefl: "\<not> less a a"
    and read_code: "read (code a @ rest) = Some (a, rest)"
begin

lemma order: "bytes_less (code a @ x) (code b @ y) \<longleftrightarrow> less a b \<or> a = b \<and> bytes_less x y"
proof -
  consider "a = b" | "less a b" | "less b a" using total by blast
  then show ?thesis
  proof cases
    case 1
    then show ?thesis using irrefl by (simp add: bytes_less_prefix)
  next
    case 2
    then show ?thesis using precedes_less(1) [OF smaller] by blast
  next
    case 3
    then have "\<not> bytes_less (code a @ x) (code b @ y)" by (rule precedes_less(2) [OF smaller])
    moreover have "\<not> less a b"
    proof
      assume "less a b"
      with precedes_less(1) [OF smaller, of a b "[]" "[]"] precedes_less(2) [OF smaller [OF 3], of "[]" "[]"]
      show False by simp
    qed
    moreover have "a \<noteq> b" using 3 irrefl by auto
    ultimately show ?thesis by blast
  qed
qed

lemma code_inject: "code a @ x = code b @ y \<Longrightarrow> a = b \<and> x = y"
  by (metis read_code Pair_inject option.inject)

end

subsection \<open>The order of each code\<close>

lemma escape_smaller: "a < b \<Longrightarrow> precedes (escape a) (escape b)"
proof -
  assume ab: "a < b"
  then have "b \<noteq> 0" "a \<noteq> 0xff"
    using unat_u8_less [of b] by (auto simp: word_less_nat_alt)
  then show ?thesis
    using ab precedes_Cons by (auto simp: escape_def word_neq_0_conv)
qed

lemma string_code_Cons: "string_code (b # s) = escape b @ string_code s"
  by (simp add: string_code_def escaped_def)

lemma string_smaller: "bytes_less a b \<Longrightarrow> precedes (string_code a) (string_code b)"
proof (induction a b rule: bytes_less.induct)
  case (2 y ys)
  have "precedes (0 # [1]) (escape y @ string_code ys)"
  proof (cases "y = 0")
    case True
    then show ?thesis using precedesI [of 1 "0xff" "[0]" "[]" "string_code ys"] by (simp add: escape_def)
  next
    case False
    then show ?thesis
      by (auto simp: escape_def word_neq_0_conv intro: precedes_Cons)
  qed
  then show ?case by (simp add: string_code_Cons, simp add: string_code_def escaped_def)
next
  case (3 x xs y ys)
  then show ?case
    by (auto simp: string_code_Cons intro: precedes_prefix precedes_append escape_smaller)
qed simp

lemma num_smaller:
  assumes "a < b"
  shows "precedes (num_code a) (num_code b)"
proof -
  let ?n = "OrderedNumLength a" and ?m = "OrderedNumLength b"
  have ab: "unat a < unat b" using assms by (simp add: word_less_nat_alt)
  have le: "?n \<le> ?m"
  proof (rule ccontr)
    assume not: "\<not> ?n \<le> ?m"
    then have "(256 :: nat) ^ ?m \<le> 256 ^ (?n - 1)" by (intro power_increasing) auto
    moreover have "256 ^ (?n - 1) \<le> unat a" using not by (intro OrderedNumLength_spec(3)) simp
    ultimately show False using ab OrderedNumLength_spec(1) [of b] by linarith
  qed
  show ?thesis
  proof (cases "?n = ?m")
    case True
    have "precedes (be_bytes ?n (unat a)) (be_bytes ?n (unat b))"
      using ab OrderedNumLength_spec(1) [of a] OrderedNumLength_spec(1) [of b] True
      by (intro precedes_value) (simp_all add: be_val_be_bytes)
    then show ?thesis
      using precedes_prefix [of "be_bytes ?n (unat a)" "be_bytes ?n (unat b)" "[of_nat ?n]"] True
      by (simp add: num_code_def)
  next
    case False
    have "(of_nat ?n :: u8) < of_nat ?m"
      using le False OrderedNumLength_spec(2) [of a] OrderedNumLength_spec(2) [of b]
      by (simp add: word_less_nat_alt unat_of_nat_u8)
    then show ?thesis unfolding num_code_def by (rule precedes_Cons)
  qed
qed

lemma positive_smaller:
  assumes "n < m" "m < 2 ^ 63"
  shows "precedes (positive_code n) (positive_code m)"
proof -
  define l where "l = signed_length n"
  define k where "k = signed_length m"
  have n: "n < 2 ^ 63" using assms by simp
  note sl = signed_length_spec [OF n, folded l_def] and sk = signed_length_spec [OF assms(2), folded k_def]
  note fn = positive_code_facts [OF n l_def] and fm = positive_code_facts [OF assms(2) k_def]
  have "l \<le> k"
  proof (rule ccontr)
    assume not: "\<not> l \<le> k"
    then have "(2 :: nat) ^ (7 * k - 1) \<le> 2 ^ (7 * (l - 1) - 1)" by (intro power_increasing) auto
    moreover have "2 ^ (7 * (l - 1) - 1) \<le> n" using sl(4) not sk(1) by auto
    ultimately show False using sk(3) assms(1) by linarith
  qed
  show ?thesis
  proof (cases "l = k")
    case True
    then show ?thesis using fn fm assms(1) by (intro precedes_value) simp_all
  next
    case False
    then have lk: "l < k" using \<open>l \<le> k\<close> by simp
    define p where "p = take l (positive_code m)"
    define q where "q = drop l (positive_code m)"
    have pq: "positive_code m = p @ q" "length p = l" "length q = k - l"
      using fm(1) lk by (simp_all add: p_def q_def)
    have val: "header_value k + m = be_val p * 256 ^ (k - l) + be_val q"
      using fm(2) pq by (simp add: be_val_append)
    have "be_val q < 256 ^ (k - l)" using be_val_less [of q] pq(3) by simp
    have pow: "(256 :: nat) ^ j = 2 ^ (8 * j)" for j by (simp add: power_mult)
    have "header_value k + m < (be_val p + 1) * 256 ^ (k - l)"
      using val \<open>be_val q < 256 ^ (k - l)\<close> by (simp add: distrib_right)
    moreover have "(2 ^ (8 * l) - 2 ^ (7 * l - 1)) * 256 ^ (k - l) \<le> header_value k"
    proof -
      have "8 * l + 8 * (k - l) = 8 * k" "7 * k \<le> 7 * l - 1 + 8 * (k - l)"
        using lk sl(1) by simp_all
      then have "(2 :: nat) ^ (8 * l) * 256 ^ (k - l) = 2 ^ (8 * k)" "(2 :: nat) ^ (7 * k) \<le> 2 ^ (7 * l - 1) * 256 ^ (k - l)"
        unfolding pow power_add [symmetric] by (simp, intro power_increasing, simp_all)
      then show ?thesis by (simp add: header_value_def diff_mult_distrib)
    qed
    ultimately have "(2 ^ (8 * l) - 2 ^ (7 * l - 1)) * 256 ^ (k - l) < (be_val p + 1) * 256 ^ (k - l)" by linarith
    then have "2 ^ (8 * l) - 2 ^ (7 * l - 1) < be_val p + 1" by (simp only: mult_less_cancel2)
    moreover have "header_value l + n < 2 ^ (8 * l) - 2 ^ (7 * l - 1)"
    proof -
      define t where "t = (2 :: nat) ^ (7 * l - 1)"
      have "7 * l = Suc (7 * l - 1)" using sl(1) by simp
      then have "(2 :: nat) ^ (7 * l) = 2 * t" unfolding t_def by (metis power_Suc)
      moreover have "(2 :: nat) ^ (7 * l) \<le> 2 ^ (8 * l)" by (intro power_increasing) auto
      ultimately show ?thesis using sl(3) unfolding header_value_def t_def [symmetric] by linarith
    qed
    ultimately have "precedes (positive_code n) p"
      using fn pq(2) by (intro precedes_value) (simp, linarith)
    then show ?thesis
      using precedes_append [of "positive_code n" p "[]" q] pq(1) by simp
  qed
qed

text \<open>The signed order of the bit patterns.\<close>

lemma sless_signs:
  "a <s b \<longleftrightarrow>
     (if a <s 0 then (if b <s 0 then unat (NOT b) < unat (NOT a) else True)
      else (if b <s 0 then False else unat a < unat b))" for a b :: u64
proof -
  have sint: "sint v = int (unat v) - 2 ^ 64 * of_bool (v <s 0)" for v :: u64
  proof -
    have "sint v < 0 \<longleftrightarrow> bit v 63" using bit_last_iff [of v] by simp
    then have "v <s 0 \<longleftrightarrow> bit (uint v) 63" by (simp add: word_sless_alt bit_uint_iff)
    moreover have "take_bit 64 (uint v) = uint v" by (simp add: take_bit_word_eq_self flip: unsigned_take_bit_eq)
    ultimately show ?thesis
      using signed_take_bit_eq_take_bit_minus [of 63 "uint v"] by (simp add: sint_uint)
  qed
  have "unat a < 2 ^ 64" "unat b < 2 ^ 64" by (rule unat_less_64)+
  then show ?thesis
    unfolding word_sless_alt [of a b] sint unat_not sless_0
    by (auto simp del: unat_less_64 unat_less_64_num of_nat_unat)
qed

lemma positive_code_first: "n < 2 ^ 63 \<Longrightarrow> \<exists>c cs. positive_code n = c # cs \<and> 128 \<le> unat c"
proof -
  assume n: "n < 2 ^ 63"
  note sl = signed_length_spec [OF n] and lead = positive_code_lead [OF n refl] and facts = positive_code_facts [OF n refl]
  obtain c cs where c: "positive_code n = c # cs" using facts(1) sl(1) by (cases "positive_code n") auto
  have "128 \<le> unat c"
  proof (cases "signed_length n \<le> 7")
    case True
    have "(2 :: nat) ^ (8 - signed_length n) \<le> 2 ^ 7" using sl(1) by (intro power_increasing) auto
    then have "128 \<le> 256 - (2 :: nat) ^ (8 - signed_length n)" by simp
    then show ?thesis using lead(1) [OF True] c by simp
  qed (use lead(2) c in simp)
  with c show ?thesis by blast
qed

lemma signed_smaller:
  assumes "a <s b"
  shows "precedes (signed_code a) (signed_code b)"
proof -
  have pos: "unat v < 2 ^ 63" if "\<not> v <s 0" for v :: u64 using that by (simp add: sless_0)
  have neg: "unat (NOT v) < 2 ^ 63" if "v <s 0" for v :: u64
    using that unat_less_64 [of v] by (simp add: sless_0 unat_not)
  consider "a <s 0" "b <s 0" "unat (NOT b) < unat (NOT a)" | "a <s 0" "\<not> b <s 0" | "\<not> a <s 0" "\<not> b <s 0" "unat a < unat b"
    using assms sless_signs [of a b] by (auto split: if_splits)
  then show ?thesis
  proof cases
    case 1
    then show ?thesis
      using precedes_not [OF positive_smaller [OF 1(3) neg [OF 1(1)]]] by (simp add: signed_code_def)
  next
    case 2
    obtain c cs d ds where "positive_code (unat (NOT a)) = c # cs" "128 \<le> unat c"
      "positive_code (unat b) = d # ds" "128 \<le> unat d"
      using positive_code_first [OF neg [OF 2(1)]] positive_code_first [OF pos [OF 2(2)]] by blast
    then show ?thesis
      using 2 by (simp add: signed_code_def precedes_Cons word_less_nat_alt unat_not_u8)
  next
    case 3
    then show ?thesis using positive_smaller [OF 3(3) pos [OF 3(2)]] by (simp add: signed_code_def)
  qed
qed

section \<open>The codes as instances\<close>

definition read_string :: "bytes \<Rightarrow> (bytes \<times> bytes) option" where
  "read_string src =
     (case ReadString src (Some []) of Some (True, rest, Some s) \<Rightarrow> Some (s, rest) | _ \<Rightarrow> None)"

definition read_num :: "bytes \<Rightarrow> (u64 \<times> bytes) option" where
  "read_num src =
     (case ReadNumIncreasing src (Some 0) of Some (True, rest, Some v) \<Rightarrow> Some (v, rest) | _ \<Rightarrow> None)"

definition read_signed :: "bytes \<Rightarrow> (u64 \<times> bytes) option" where
  "read_signed src =
     (case ReadSignedNumIncreasing src (Some 0) of Some (True, rest, Some v) \<Rightarrow> Some (v, rest) | _ \<Rightarrow> None)"

lemma ReadString_code: "ReadString (string_code s @ rest) result = Some (True, rest, map_option (\<lambda>r. r @ s) result)"
  using read_loop_spec [of 0 "string_code s @ rest" result] unescape_string_code [of s rest]
  by (simp add: ReadString_def)

lemma ReadString_sound: "ReadString src (Some []) = Some (True, rest, Some s) \<Longrightarrow> src = string_code s @ rest"
  using read_loop_spec [of 0 src "Some []"] unescape_sound [of src]
  by (auto simp: ReadString_def split: option.splits)

interpretation string_order: ordered_code string_code bytes_less read_string
  by unfold_locales
    (simp_all add: string_smaller bytes_less_total bytes_less_irrefl read_string_def ReadString_code)

interpretation num_order: ordered_code num_code "(<)" read_num
  by unfold_locales (auto simp: num_smaller read_num_def ReadNumIncreasing_code)

lemma sless_total: "a = b \<or> a <s b \<or> b <s a" for a b :: u64
proof -
  have "sint a = sint b \<Longrightarrow> a = b" by (rule signed_word_eqI)
  then show ?thesis unfolding word_sless_alt by linarith
qed

interpretation signed_order: ordered_code signed_code "(<s)" read_signed
  by unfold_locales (rule signed_smaller, assumption, rule sless_total, simp add: word_sless_alt,
      simp add: read_signed_def ReadSignedNumIncreasing_code)

section \<open>Sequences of items\<close>

text \<open>
  An item as one of the encoding routines writes it: a string, an unsigned or a signed number, or
  a string that may be infinity (\<open>None\<close>).
\<close>

datatype item = Str bytes | Num u64 | SignedNum u64 | StrOrInf "bytes option"

datatype item_kind = KStr | KNum | KSignedNum | KStrOrInf

fun kind_of :: "item \<Rightarrow> item_kind" where
  "kind_of (Str s) = KStr"
| "kind_of (Num v) = KNum"
| "kind_of (SignedNum v) = KSignedNum"
| "kind_of (StrOrInf s) = KStrOrInf"

fun write_item :: "bytes \<Rightarrow> bytes \<Rightarrow> item \<Rightarrow> bytes option" where
  "write_item buf0 dest (Str s) = WriteString dest s"
| "write_item buf0 dest (Num v) = Some (WriteNumIncreasing buf0 dest v)"
| "write_item buf0 dest (SignedNum v) = WriteSignedNumIncreasing dest v"
| "write_item buf0 dest (StrOrInf (Some s)) = WriteString dest s"
| "write_item buf0 dest (StrOrInf None) = Some (WriteInfinity dest)"

fun write_items :: "bytes \<Rightarrow> bytes \<Rightarrow> item list \<Rightarrow> bytes option" where
  "write_items buf0 dest [] = Some dest"
| "write_items buf0 dest (i # is) = Option.bind (write_item buf0 dest i) (\<lambda>dest. write_items buf0 dest is)"

fun read_item :: "item_kind \<Rightarrow> bytes \<Rightarrow> (item \<times> bytes) option" where
  "read_item KStr src = map_option (apfst Str) (read_string src)"
| "read_item KNum src = map_option (apfst Num) (read_num src)"
| "read_item KSignedNum src = map_option (apfst SignedNum) (read_signed src)"
| "read_item KStrOrInf src =
     (case ReadStringOrInfinity src (Some []) (Some False) of
        Some (True, rest, Some s, Some is_inf) \<Rightarrow> Some (StrOrInf (if is_inf then None else Some s), rest)
      | _ \<Rightarrow> None)"

fun read_items :: "item_kind list \<Rightarrow> bytes \<Rightarrow> (item list \<times> bytes) option" where
  "read_items [] src = Some ([], src)"
| "read_items (k # ks) src =
     Option.bind (read_item k src) (\<lambda>(i, src). map_option (apfst ((#) i)) (read_items ks src))"

text \<open>The order of items of one kind, by their type, and of vectors of them.\<close>

fun item_less :: "item \<Rightarrow> item \<Rightarrow> bool" where
  "item_less (Str a) (Str b) = bytes_less a b"
| "item_less (Num a) (Num b) = (a < b)"
| "item_less (SignedNum a) (SignedNum b) = (a <s b)"
| "item_less (StrOrInf (Some a)) (StrOrInf (Some b)) = bytes_less a b"
| "item_less (StrOrInf (Some a)) (StrOrInf None) = True"
| "item_less _ _ = False"

fun items_less :: "item list \<Rightarrow> item list \<Rightarrow> bool" where
  "items_less (a # as) (b # bs) \<longleftrightarrow> item_less a b \<or> a = b \<and> items_less as bs"
| "items_less [] (b # bs) \<longleftrightarrow> True"
| "items_less _ [] \<longleftrightarrow> False"

fun item_code :: "item \<Rightarrow> bytes" where
  "item_code (Str s) = string_code s"
| "item_code (Num v) = num_code v"
| "item_code (SignedNum v) = signed_code v"
| "item_code (StrOrInf (Some s)) = string_code s"
| "item_code (StrOrInf None) = [0xff, 0xff]"

lemma write_item_code: "length buf0 = 17 \<Longrightarrow> write_item buf0 dest i = Some (dest @ item_code i)"
  by (cases "(buf0, dest, i)" rule: write_item.cases)
    (simp_all add: WriteString_spec WriteNumIncreasing_spec WriteSignedNumIncreasing_spec WriteInfinity_def escape_bytes)

lemma write_items_code: "length buf0 = 17 \<Longrightarrow> write_items buf0 dest is = Some (dest @ concat (map item_code is))"
  by (induction "is" arbitrary: dest) (simp_all add: write_item_code)

lemma string_precedes_infinity: "precedes (string_code s) [0xff, 0xff]"
proof (cases s)
  case Nil
  then show ?thesis by (simp add: string_code_def escaped_def precedes_Cons)
next
  case (Cons b s')
  consider "b = 0" | "b = 0xff" | "b \<noteq> 0" "b \<noteq> 0xff" "b < 0xff"
  proof -
    have "b \<noteq> 0xff \<Longrightarrow> b < 0xff"
      using unat_u8_less [of b] by (simp add: word_less_nat_alt u8_eq_iffs)
    then show ?thesis using that by blast
  qed
  then show ?thesis
  proof cases
    case 2
    then show ?thesis
      using precedesI [of 0 "0xff" "[0xff]" "string_code s'" "[]"] by (simp add: Cons string_code_Cons escape_def)
  qed (auto simp: Cons string_code_Cons escape_def precedes_Cons)
qed

lemma item_smaller: "item_less a b \<Longrightarrow> precedes (item_code a) (item_code b)"
  by (cases "(a, b)" rule: item_less.cases)
    (simp_all add: string_smaller num_smaller signed_smaller string_precedes_infinity)

lemma item_total: "kind_of a = kind_of b \<Longrightarrow> a = b \<or> item_less a b \<or> item_less b a"
proof (cases a)
  case (Str s)
  then show "kind_of a = kind_of b \<Longrightarrow> ?thesis" by (cases b) (use bytes_less_total in auto)
next
  case (Num v)
  then show "kind_of a = kind_of b \<Longrightarrow> ?thesis" by (cases b) (use less_linear in auto)
next
  case (SignedNum v)
  then show "kind_of a = kind_of b \<Longrightarrow> ?thesis" by (cases b) (use sless_total in auto)
next
  case (StrOrInf s)
  moreover assume "kind_of a = kind_of b"
  ultimately obtain s' where "b = StrOrInf s'" by (cases b) auto
  with StrOrInf show ?thesis using bytes_less_total by (cases s; cases s') auto
qed

lemma item_irrefl: "\<not> item_less a a"
  by (cases "(a, a)" rule: item_less.cases) (auto simp: bytes_less_irrefl word_sless_alt)

lemma item_order:
  assumes "kind_of a = kind_of b"
  shows "bytes_less (item_code a @ x) (item_code b @ y) \<longleftrightarrow> item_less a b \<or> a = b \<and> bytes_less x y"
proof -
  consider "a = b" | "item_less a b" | "item_less b a" using item_total [OF assms] by blast
  then show ?thesis
  proof cases
    case 1
    then show ?thesis using item_irrefl by (simp add: bytes_less_prefix)
  next
    case 2
    then show ?thesis using precedes_less(1) [OF item_smaller] by blast
  next
    case 3
    note not = precedes_less(2) [OF item_smaller [OF 3]]
    moreover have "\<not> item_less a b"
      using not [of "[]" "[]"] precedes_less(1) [OF item_smaller, of a b "[]" "[]"] by blast
    moreover have "a \<noteq> b" using 3 item_irrefl by auto
    ultimately show ?thesis by blast
  qed
qed

lemma items_order:
  "list_all2 (\<lambda>a b. kind_of a = kind_of b) as bs \<Longrightarrow>
     bytes_less (concat (map item_code as) @ x) (concat (map item_code bs) @ y)
       \<longleftrightarrow> items_less as bs \<or> as = bs \<and> bytes_less x y"
  by (induction as bs rule: list_all2_induct) (auto simp: item_order)

lemma read_item_code: "read_item (kind_of i) (item_code i @ rest) = Some (i, rest)"
proof (cases i)
  case (StrOrInf so)
  show ?thesis
  proof (cases so)
    case None
    then show ?thesis by (simp add: StrOrInf ReadStringOrInfinity_def ReadInfinity_def escape_bytes)
  next
    case (Some s)
    have "\<not> fst (ReadInfinity (string_code s @ rest))"
    proof (cases s)
      case (Cons b s')
      then show ?thesis
        by (auto simp: ReadInfinity_def string_code_Cons escape_def escape_bytes)
    qed (simp add: ReadInfinity_def string_code_def escaped_def escape_bytes)
    then show ?thesis
      by (auto simp: Some StrOrInf ReadStringOrInfinity_def ReadString_code ReadInfinity_def split: if_splits)
  qed
qed (simp_all add: string_order.read_code num_order.read_code signed_order.read_code)

lemma read_items_code: "read_items (map kind_of is) (concat (map item_code is) @ rest) = Some (is, rest)"
  by (induction "is") (simp_all add: read_item_code)

section \<open>Properties\<close>

text \<open>
  C4: The order of keys. Encode two vectors of items of the same types, one after the other, and
  append arbitrary trailing strings: the encodings compare bytewise just as the vectors compare item
  by item, each by its type (strings bytewise, \<open>uint64_t\<close> and \<open>int64_t\<close> numerically, infinity above
  every string), and by the trailing strings when the vectors are equal.
\<close>
theorem encodings_keep_order:
  assumes "length buf0 = 17" "map kind_of as = map kind_of bs"
  shows "\<exists>a b. write_items buf0 [] as = Some a \<and> write_items buf0 [] bs = Some b
    \<and> (bytes_less (WriteTrailingString a x) (WriteTrailingString b y)
         \<longleftrightarrow> items_less as bs \<or> as = bs \<and> bytes_less x y)"
proof -
  have "list_all2 (\<lambda>a b. kind_of a = kind_of b) as bs"
    using assms(2) by (simp add: list_all2_conv_all_nth list_eq_iff_nth_eq)
  then show ?thesis
    by (simp add: write_items_code [OF assms(1)] WriteTrailingString_def items_order)
qed

theorem encodings_keep_order_witness:
  "\<exists>a b. write_items (replicate 17 0) [] [Str [0], SignedNum (- 1)] = Some a
    \<and> write_items (replicate 17 0) [] [Str [0], SignedNum 300] = Some b \<and> bytes_less a b"
  using encodings_keep_order [of "replicate 17 0" "[Str [0], SignedNum (- 1)]" "[Str [0], SignedNum 300]" "[]" "[]"]
  by (simp add: WriteTrailingString_def word_sless_alt)

text \<open>
  C11: Reading back. What the encoding routines wrote for a sequence of items, the decoding
  routines for the same types read back item by item, leave what follows, and no assertion of
  either side fails.
\<close>
theorem items_round_trip:
  assumes "length buf0 = 17"
  shows "\<exists>a. write_items buf0 dest is = Some (dest @ a) \<and> read_items (map kind_of is) (a @ rest) = Some (is, rest)"
  using assms by (simp add: write_items_code read_items_code)

theorem items_round_trip_witness:
  "\<exists>a. write_items (replicate 17 0) [] [Num 77, StrOrInf None, SignedNum (- 5)] = Some a
    \<and> read_items [KNum, KStrOrInf, KSignedNum] (a @ [9]) = Some ([Num 77, StrOrInf None, SignedNum (- 5)], [9])"
  using items_round_trip [of "replicate 17 0" "[]" "[Num 77, StrOrInf None, SignedNum (- 5)]" "[9]"] by simp

text \<open>
  C20: The string and unsigned-number readers accept exactly what the writers write: a successful
  read means that the source began with the encoding of the result, so that no other byte string
  is taken for a key.
\<close>
theorem readers_accept_only_encodings:
  assumes "length buf0 = 17"
  shows "(ReadString src (Some []) = Some (True, rest, Some s) \<longleftrightarrow> (\<exists>a. WriteString [] s = Some a \<and> src = a @ rest))
    \<and> (ReadNumIncreasing src (Some 0) = Some (True, rest, Some v) \<longleftrightarrow> src = WriteNumIncreasing buf0 [] v @ rest)"
  using ReadString_sound [of src rest s] ReadNumIncreasing_sound [of src 0 rest v] assms
  by (auto simp: WriteString_spec WriteNumIncreasing_spec ReadString_code ReadNumIncreasing_code)

theorem readers_accept_only_encodings_witness:
  "ReadString [0xff, 0, 5, 0, 1, 8] (Some []) = Some (True, [8], Some [0xff, 5])"
  using readers_accept_only_encodings [of "replicate 17 0" "[0xff, 0, 5, 0, 1, 8]" "[8]" "[0xff, 5]" 0]
  by (simp add: WriteString_spec string_code_def escaped_def escape_def)

text \<open>
  \<open>SkipToNextSpecialByte\<close>, which tests eight bytes at a time with borrows and carries of 64-bit
  arithmetic, finds exactly the first byte 0 or 255 of the range, or its end, and none of its
  assertions fails.
\<close>
theorem skip_finds_first_special:
  assumes "limit \<le> length s"
  shows "SkipToNextSpecialByte s p limit = Some (p + length (takeWhile (\<lambda>b. b \<noteq> 0 \<and> b \<noteq> 0xff) (drop p (take limit s))))"
proof -
  have "(\<lambda>b. \<not> IsSpecialByte b) = (\<lambda>b. b \<noteq> 0 \<and> b \<noteq> 0xff)" by (auto simp: special_bytes)
  then show ?thesis using SkipToNextSpecialByte_spec [OF assms, of p] by (simp add: next_special_def)
qed

text \<open>
  C30: An encoding that is not minimal ends the program instead of the read: a length byte
  followed by a zero byte fails the assertion of \<open>ReadNumIncreasing\<close>, and zero in two bytes that of
  \<open>ReadSignedNumIncreasing\<close>.
\<close>
theorem non_minimal_numbers_abort:
  assumes "b \<noteq> 0"
  shows "ReadNumIncreasing (b # 0 # src) result = None
    \<and> ReadSignedNumIncreasing (0xc0 # 0 # src) result = None"
proof
  have "char_to_size b \<noteq> 0" using assms by (simp add: char_to_size_def unat_gt_0)
  then show "ReadNumIncreasing (b # 0 # src) result = None" by (simp add: ReadNumIncreasing_def)
  show "ReadSignedNumIncreasing (0xc0 # 0 # src) result = None"
  proof -
    obtain k where k: "Log2FloorNonZero 0x3f = int k" "2 ^ k \<le> (63 :: nat)" "(63 :: nat) < 2 ^ Suc k"
      using Log2Floor_spec [of "0x3f"] by auto
    have "k = 5" by (rule floor_log_unique [OF k(2,3)]) simp_all
    then have "Log2FloorNonZero 0x3f = 5" using k(1) by simp
    moreover have "SignedEncodingLength 0 = 1"
      by (simp add: SignedEncodingLength_def Log2Floor64_def kBitsToLength_def)
    ultimately show ?thesis
      by (simp add: ReadSignedNumIncreasing_def kLengthToMask_def take_Cons')
  qed
qed

theorem non_minimal_numbers_abort_witness:
  "ReadNumIncreasing [1, 0] None = None \<and> ReadSignedNumIncreasing [0xc0, 0] None = None"
  using non_minimal_numbers_abort [of 1 "[]" None] by simp

end
