(* ===== verification/Paths.thy ===== *)
theory Paths
  imports SortedMapSpec OrderedCode
begin

text \<open>
  Firestore's paths: comparison of strings and sequences of them (\<open>util/comparison.cc\<close>,
  \<open>util/comparison.h\<close>), the operations of every path (\<open>model/base_path.h\<close>), resource paths and
  document keys (\<open>model/resource_path.cc\<close>, \<open>model/document_key.cc\<close>), field paths with their two text
  formats (\<open>model/field_path.cc\<close>), and the successors of strings that bound range scans
  (\<open>util/string_util.cc\<close>). Paths are lists of byte strings. Their order satisfies \<open>key_order\<close>, so
  they can be the keys of sorted maps.
\<close>

section \<open>Comparing strings and containers (util/comparison.cc, util/comparison.h)\<close>

definition ComparisonResultFromInt :: "int \<Rightarrow> ComparisonResult" where
  "ComparisonResultFromInt v = (if v < 0 then Ascending else if v > 0 then Descending else Same)"

text \<open>\<open>std::string::compare\<close>: bytewise, then by length.\<close>

fun string_compare :: "bytes \<Rightarrow> bytes \<Rightarrow> int" where
  "string_compare [] [] = 0"
| "string_compare [] (y # ys) = - 1"
| "string_compare (x # xs) [] = 1"
| "string_compare (x # xs) (y # ys) = (if x < y then - 1 else if y < x then 1 else string_compare xs ys)"

definition CompareString :: "bytes \<Rightarrow> bytes \<Rightarrow> ComparisonResult" where
  "CompareString l r = ComparisonResultFromInt (string_compare l r)"

fun CompareContainer :: "('a \<Rightarrow> 'a \<Rightarrow> ComparisonResult) \<Rightarrow> 'a list \<Rightarrow> 'a list \<Rightarrow> ComparisonResult" where
  "CompareContainer compare (l # ls) (r # rs) =
     (let cmp = compare l r in if cmp \<noteq> Same then cmp else CompareContainer compare ls rs)"
| "CompareContainer compare ls rs =
     (if rs \<noteq> [] then Ascending else if ls \<noteq> [] then Descending else Same)"

lemma ComparisonResultFromInt_iffs [simp]:
  "ComparisonResultFromInt v = Ascending \<longleftrightarrow> v < 0"
  "ComparisonResultFromInt v = Same \<longleftrightarrow> v = 0"
  "ComparisonResultFromInt v = Descending \<longleftrightarrow> v > 0"
  by (auto simp: ComparisonResultFromInt_def)

lemma string_compare_bytes_less:
  "string_compare a b < 0 \<longleftrightarrow> bytes_less a b" "string_compare a b > 0 \<longleftrightarrow> bytes_less b a"
  "string_compare a b = 0 \<longleftrightarrow> a = b"
  by (induction a b rule: string_compare.induct) auto

lemma CompareString_iffs [simp]:
  "CompareString a b = Ascending \<longleftrightarrow> bytes_less a b"
  "CompareString a b = Same \<longleftrightarrow> a = b"
  "CompareString a b = Descending \<longleftrightarrow> bytes_less b a"
  by (simp_all add: CompareString_def string_compare_bytes_less)

lemma bytes_less_trans: "bytes_less a b \<Longrightarrow> bytes_less b c \<Longrightarrow> bytes_less a c"
proof (induction a b arbitrary: c rule: bytes_less.induct)
  case (2 y ys)
  then show ?case by (cases c) auto
next
  case (3 x xs y ys)
  then show ?case by (cases c) auto
qed simp

lemma ComparisonResult_eqI: "(c = Ascending \<longleftrightarrow> d = Ascending) \<Longrightarrow> (c = Same \<longleftrightarrow> d = Same) \<Longrightarrow> c = d"
  by (cases c; cases d) auto

interpretation string_keys: key_order CompareString
  by unfold_locales (auto intro: ComparisonResult_eqI bytes_less_trans)

context key_order
begin

lemma container_same: "CompareContainer compare a b = Same \<longleftrightarrow> a = b"
  by (induction a b rule: list_induct2') (auto simp: same Let_def)

lemma container_reverse: "CompareContainer compare b a = ReverseOrder (CompareContainer compare a b)"
proof (induction a b rule: list_induct2')
  case (4 x xs y ys)
  have "compare y x = ReverseOrder (compare x y)" by (rule reverse)
  with 4 show ?case by (simp add: Let_def)
qed auto

lemma container_trans:
  "CompareContainer compare a b = Ascending \<Longrightarrow> CompareContainer compare b c = Ascending \<Longrightarrow>
     CompareContainer compare a c = Ascending"
proof (induction a b arbitrary: c rule: list_induct2')
  case (3 y ys)
  then show ?case by (cases c) auto
next
  case (4 x xs y ys)
  then obtain z zs where c: "c = z # zs" by (cases c) (auto simp: Let_def)
  show ?case
  proof (cases "x = y \<or> y = z")
    case True
    with 4 show ?thesis by (auto simp: c same Let_def split: if_splits)
  next
    case False
    with 4 have "compare x y = Ascending" "compare y z = Ascending" by (auto simp: c same Let_def split: if_splits)
    then have "compare x z = Ascending" by (rule trans)
    then show ?thesis by (simp add: c)
  qed
qed auto

lemma container_order: "key_order (CompareContainer compare)"
  by unfold_locales (rule container_same, rule container_reverse, rule container_trans)

end

section \<open>Paths (model/base_path.h)\<close>

type_synonym path = "bytes list"

text \<open>\<open>None\<close> is a failed \<open>HARD_ASSERT\<close>, here and below.\<close>

definition path_at :: "path \<Rightarrow> nat \<Rightarrow> bytes option" where
  "path_at p i = (if i < length p then Some (p ! i) else None)"

definition first_segment :: "path \<Rightarrow> bytes option" where
  "first_segment p = (if p \<noteq> [] then Some (p ! 0) else None)"

definition last_segment :: "path \<Rightarrow> bytes option" where
  "last_segment p = (if p \<noteq> [] then Some (p ! (length p - 1)) else None)"

definition Append :: "bytes \<Rightarrow> path \<Rightarrow> path" where
  "Append segment p = p @ [segment]"

definition AppendPath :: "path \<Rightarrow> path \<Rightarrow> path" where
  "AppendPath q p = p @ q"

definition PopFirst :: "nat \<Rightarrow> path \<Rightarrow> path option" where
  "PopFirst n p = (if n \<le> length p then Some (drop n p) else None)"

definition PopLast :: "path \<Rightarrow> path option" where
  "PopLast p = (if p \<noteq> [] then Some (take (length p - 1) p) else None)"

definition IsPrefixOf :: "path \<Rightarrow> path \<Rightarrow> bool" where
  "IsPrefixOf p rhs \<longleftrightarrow> length p \<le> length rhs \<and> p = take (length p) rhs"

definition IsImmediateParentOf :: "path \<Rightarrow> path \<Rightarrow> bool" where
  "IsImmediateParentOf p child \<longleftrightarrow> length p + 1 = length child \<and> p = take (length p) child"

definition path_CompareTo :: "path \<Rightarrow> path \<Rightarrow> ComparisonResult" where
  "path_CompareTo p q = CompareContainer CompareString p q"

interpretation path_keys: key_order path_CompareTo
  unfolding path_CompareTo_def [abs_def] by (rule string_keys.container_order)

lemma IsPrefixOf_iff: "IsPrefixOf p q \<longleftrightarrow> (\<exists>r. q = p @ r)"
  unfolding IsPrefixOf_def by (metis append_eq_conv_conj append_take_drop_id length_append le_add1)

lemma IsImmediateParentOf_iff: "IsImmediateParentOf p q \<longleftrightarrow> (\<exists>s. q = Append s p)"
proof
  assume "IsImmediateParentOf p q"
  then have "length p + 1 = length q" "p = take (length p) q" by (simp_all add: IsImmediateParentOf_def)
  then have q: "q = p @ drop (length p) q" and "length (drop (length p) q) = 1"
    using append_take_drop_id [of "length p" q] by simp_all
  then obtain s where "drop (length p) q = [s]" by (cases "drop (length p) q") auto
  with q show "\<exists>s. q = Append s p" by (auto simp: Append_def)
qed (auto simp: IsImmediateParentOf_def Append_def)

section \<open>Resource paths and document keys (model/resource_path.cc, model/document_key.cc)\<close>

text \<open>\<open>absl::StrSplit\<close> at one byte and \<open>absl::StrJoin\<close>.\<close>

fun StrSplit :: "u8 \<Rightarrow> bytes \<Rightarrow> bytes list" where
  "StrSplit c [] = [[]]"
| "StrSplit c (b # bs) =
     (if b = c then [] # StrSplit c bs
      else case StrSplit c bs of [] \<Rightarrow> [[b]] | s # ss \<Rightarrow> (b # s) # ss)"

fun StrJoin :: "bytes \<Rightarrow> bytes list \<Rightarrow> bytes" where
  "StrJoin sep [] = []"
| "StrJoin sep [s] = s"
| "StrJoin sep (s # ss) = s @ sep @ StrJoin sep ss"

fun has_double_slash :: "bytes \<Rightarrow> bool" where
  "has_double_slash (a # b # s) \<longleftrightarrow> a = 0x2f \<and> b = 0x2f \<or> has_double_slash (b # s)"
| "has_double_slash _ \<longleftrightarrow> False"

definition ResourcePath_FromString :: "bytes \<Rightarrow> path option" where
  "ResourcePath_FromString s =
     (if has_double_slash s then None else Some (filter (\<lambda>segment. segment \<noteq> []) (StrSplit 0x2f s)))"

definition ResourcePath_CanonicalString :: "path \<Rightarrow> bytes" where
  "ResourcePath_CanonicalString p = StrJoin [0x2f] p"

definition IsDocumentKey :: "path \<Rightarrow> bool" where
  "IsDocumentKey p \<longleftrightarrow> length p mod 2 = 0"

text \<open>A document key is a path that passed the assertion of its constructor.\<close>

definition DocumentKey :: "path \<Rightarrow> path option" where
  "DocumentKey p = (if IsDocumentKey p then Some p else None)"

definition FromPathString :: "bytes \<Rightarrow> path option" where
  "FromPathString s = Option.bind (ResourcePath_FromString s) DocumentKey"

definition HasCollectionId :: "path \<Rightarrow> bytes \<Rightarrow> bool" where
  "HasCollectionId key collection_id \<longleftrightarrow> length key \<ge> 2 \<and> key ! (length key - 2) = collection_id"

definition key_CompareTo :: "path \<Rightarrow> path \<Rightarrow> ComparisonResult" where
  "key_CompareTo k l = path_CompareTo k l"

lemma StrSplit_ne [simp]: "StrSplit c s \<noteq> []"
  by (cases s) (auto split: list.splits)

lemma StrSplit_app: "c \<notin> set s \<Longrightarrow> StrSplit c (s @ c # t) = s # StrSplit c t"
  by (induction s) auto

lemma StrSplit_plain: "c \<notin> set s \<Longrightarrow> StrSplit c s = [s]"
  by (induction s) auto

lemma StrSplit_StrJoin: "ss \<noteq> [] \<Longrightarrow> \<forall>s\<in>set ss. c \<notin> set s \<Longrightarrow> StrSplit c (StrJoin [c] ss) = ss"
  by (induction "[c]" ss rule: StrJoin.induct) (simp_all add: StrSplit_plain StrSplit_app)

lemma StrJoin_StrSplit: "StrJoin [c] (StrSplit c s) = s"
proof (induction s)
  case (Cons b s)
  obtain t ts where "StrSplit c s = t # ts" by (cases "StrSplit c s") auto
  with Cons show ?case by (cases ts) auto
qed simp

lemma has_double_slash_plain: "0x2f \<notin> set s \<Longrightarrow> \<not> has_double_slash s"
  by (induction s rule: has_double_slash.induct) auto

lemma has_double_slash_app:
  "0x2f \<notin> set s \<Longrightarrow> s \<noteq> [] \<Longrightarrow> has_double_slash (s @ 0x2f # t) \<longleftrightarrow> has_double_slash (0x2f # t)"
  by (induction s rule: has_double_slash.induct) auto

lemma no_double_slash_StrJoin:
  "\<forall>s\<in>set ss. 0x2f \<notin> set s \<and> s \<noteq> [] \<Longrightarrow> \<not> has_double_slash (StrJoin [0x2f] ss)"
proof (induction "[0x2f :: u8]" ss rule: StrJoin.induct)
  case (3 s t ts)
  have "t \<noteq> []" "0x2f \<notin> set t" using 3(2) by auto
  then obtain c u where "StrJoin [0x2f] (t # ts) = c # u" "c \<noteq> 0x2f"
    by (cases t; cases ts) auto
  with 3 show ?case by (simp add: has_double_slash_app)
qed (simp_all add: has_double_slash_plain)

lemma resource_path_round_trip:
  "\<forall>s\<in>set p. 0x2f \<notin> set s \<and> s \<noteq> [] \<Longrightarrow> ResourcePath_FromString (ResourcePath_CanonicalString p) = Some p"
  using no_double_slash_StrJoin [of p] StrSplit_StrJoin [of p "0x2f"]
  by (cases "p = []") (auto simp: ResourcePath_FromString_def ResourcePath_CanonicalString_def filter_id_conv)

section \<open>Field paths (model/field_path.cc)\<close>

text \<open>The exceptions of \<open>ThrowInvalidArgument\<close>.\<close>

datatype path_error = InvalidFieldPath bytes | EmptyNames | EmptyName nat

definition is_alpha :: "u8 \<Rightarrow> bool" where
  "is_alpha c \<longleftrightarrow> c = 0x5f \<or> \<not> (c < 0x61 \<or> c > 0x7a) \<or> \<not> (c < 0x41 \<or> c > 0x5a)"

definition IsValidIdentifier :: "bytes \<Rightarrow> bool" where
  "IsValidIdentifier segment \<longleftrightarrow>
     segment \<noteq> [] \<and> is_alpha (hd segment) \<and>
     list_all (\<lambda>c. is_alpha c \<or> \<not> (c < 0x30 \<or> c > 0x39)) (tl segment)"

text \<open>\<open>absl::StrReplaceAll\<close> of a backslash by two and of a backtick by an escaped one.\<close>

definition replace_byte :: "u8 \<Rightarrow> bytes" where
  "replace_byte c = (if c = 0x5c then [0x5c, 0x5c] else if c = 0x60 then [0x5c, 0x60] else [c])"

definition escaped_segment :: "bytes \<Rightarrow> bytes" where
  "escaped_segment segment =
     (let escaped = concat (map replace_byte segment)
      in if \<not> IsValidIdentifier escaped then [0x60] @ escaped @ [0x60] else escaped)"

definition FieldPath_CanonicalString :: "path \<Rightarrow> bytes" where
  "FieldPath_CanonicalString p = StrJoin [0x2e] (map escaped_segment p)"

definition FromDotSeparatedString :: "bytes \<Rightarrow> path_error + path" where
  "FromDotSeparatedString p =
     (if list_ex (\<lambda>c. c \<in> {0x7e, 0x2a, 0x2f, 0x5b, 0x5d}) p then Inl (InvalidFieldPath p)
      else
        let segments = StrSplit 0x2e p
        in if list_ex (\<lambda>segment. segment = []) segments then Inl (InvalidFieldPath p) else Inr segments)"

definition finish_segment :: "bytes \<Rightarrow> path \<Rightarrow> path option" where
  "finish_segment segment segments = (if segment = [] then None else Some (segments @ [segment]))"

fun server_loop :: "bytes \<Rightarrow> bytes \<Rightarrow> path \<Rightarrow> bool \<Rightarrow> (bytes \<times> path \<times> bool) option" where
  "server_loop [] segment segments inside_backticks = Some (segment, segments, inside_backticks)"
| "server_loop (c # rest) segment segments inside_backticks =
     (if c = 0 then Some (segment, segments, inside_backticks)
      else if c = 0x2e then
        (if \<not> inside_backticks then
           (case finish_segment segment segments of
              None \<Rightarrow> None
            | Some segments \<Rightarrow> server_loop rest [] segments inside_backticks)
         else server_loop rest (segment @ [c]) segments inside_backticks)
      else if c = 0x60 then server_loop rest segment segments (\<not> inside_backticks)
      else if c = 0x5c then
        (case rest of
           [] \<Rightarrow> None
         | d # rest \<Rightarrow> server_loop rest (segment @ [d]) segments inside_backticks)
      else server_loop rest (segment @ [c]) segments inside_backticks)"

definition FromServerFormat :: "bytes \<Rightarrow> path option" where
  "FromServerFormat p =
     (case server_loop p [] [] False of
        None \<Rightarrow> None
      | Some (segment, segments, inside_backticks) \<Rightarrow>
          (case finish_segment segment segments of
             None \<Rightarrow> None
           | Some segments \<Rightarrow> if inside_backticks then None else Some segments))"

fun empty_name :: "nat \<Rightarrow> path \<Rightarrow> nat option" where
  "empty_name i [] = None"
| "empty_name i (s # ss) = (if s = [] then Some i else empty_name (i + 1) ss)"

definition ValidateSegments :: "path \<Rightarrow> path_error + unit" where
  "ValidateSegments segments =
     (if segments = [] then Inl EmptyNames
      else case empty_name 0 segments of Some i \<Rightarrow> Inl (EmptyName i) | None \<Rightarrow> Inr ())"

definition FromSegments :: "path \<Rightarrow> path_error + path" where
  "FromSegments segments = (case ValidateSegments segments of Inl e \<Rightarrow> Inl e | Inr _ \<Rightarrow> Inr segments)"

definition kDocumentKeyPath :: bytes where
  "kDocumentKeyPath = [0x5f, 0x5f, 0x6e, 0x61, 0x6d, 0x65, 0x5f, 0x5f]"

definition IsKeyFieldPath :: "path \<Rightarrow> bool" where
  "IsKeyFieldPath p \<longleftrightarrow> length p = 1 \<and> first_segment p = Some kDocumentKeyPath"

lemma is_alpha_plain: "is_alpha c \<or> \<not> (c < 0x30 \<or> c > 0x39) \<Longrightarrow> c \<noteq> 0 \<and> c \<noteq> 0x2e \<and> c \<noteq> 0x60 \<and> c \<noteq> 0x5c"
  by (auto simp: is_alpha_def)

lemma identifier_plain:
  "IsValidIdentifier s \<Longrightarrow> \<forall>c\<in>set s. c \<noteq> 0 \<and> c \<noteq> 0x2e \<and> c \<noteq> 0x60 \<and> c \<noteq> 0x5c"
proof (cases s)
  case (Cons d t)
  assume "IsValidIdentifier s"
  then have "is_alpha d" "list_all (\<lambda>c. is_alpha c \<or> \<not> (c < 0x30 \<or> c > 0x39)) t"
    by (simp_all add: Cons IsValidIdentifier_def)
  then show ?thesis unfolding Cons list_all_iff using is_alpha_plain by fastforce
qed simp

lemma server_loop_plain:
  "\<forall>c\<in>set s. c \<noteq> 0 \<and> c \<noteq> 0x2e \<and> c \<noteq> 0x60 \<and> c \<noteq> 0x5c \<Longrightarrow>
     server_loop (s @ rest) seg segs inside = server_loop rest (seg @ s) segs inside"
  by (induction s arbitrary: seg) auto

lemma server_loop_escaped:
  "0 \<notin> set s \<Longrightarrow>
     server_loop (concat (map replace_byte s) @ rest) seg segs True = server_loop rest (seg @ s) segs True"
  by (induction s arbitrary: seg) (auto simp: replace_byte_def)

lemma server_loop_null:
  "server_loop (concat (map replace_byte s) @ 0 # rest) seg segs True = Some (seg @ s, segs, True)"
  if "0 \<notin> set s"
  using that by (simp add: server_loop_escaped)

lemma replace_plain: "0x5c \<notin> set (concat (map replace_byte s)) \<Longrightarrow> concat (map replace_byte s) = s"
proof (induction s)
  case (Cons c s)
  then have "0x5c \<notin> set (replace_byte c)" "concat (map replace_byte s) = s" by simp_all
  moreover from this(1) have "replace_byte c = [c]" by (simp add: replace_byte_def split: if_splits)
  ultimately show ?case by simp
qed simp

lemma escaped_identifier:
  assumes "IsValidIdentifier (concat (map replace_byte s))"
  shows "concat (map replace_byte s) = s"
proof (rule replace_plain, rule notI)
  assume "0x5c \<in> set (concat (map replace_byte s))"
  from bspec [OF identifier_plain [OF assms] this] show False by simp
qed

lemma server_loop_segment:
  assumes "0 \<notin> set s"
  shows "server_loop (escaped_segment s @ rest) seg segs False = server_loop rest (seg @ s) segs False"
proof (cases "IsValidIdentifier (concat (map replace_byte s))")
  case True
  then have s: "concat (map replace_byte s) = s" by (rule escaped_identifier)
  with True show ?thesis
    using server_loop_plain [OF identifier_plain, of s] by (simp add: escaped_segment_def)
next
  case False
  have "server_loop (concat (map replace_byte s) @ 0x60 # rest) seg segs True = server_loop rest (seg @ s) segs False"
    using assms by (simp add: server_loop_escaped)
  with False show ?thesis by (simp add: escaped_segment_def)
qed

lemma server_loop_null_segment:
  assumes "0 \<in> set s"
  shows "\<exists>seg'. server_loop (escaped_segment s @ rest) seg segs False = Some (seg', segs, True)"
proof -
  obtain t u where s: "s = t @ 0 # u" "0 \<notin> set t" using split_list_first [OF assms] by blast
  have "\<not> IsValidIdentifier (concat (map replace_byte s))"
    using identifier_plain [of "concat (map replace_byte s)"] by (auto simp: s replace_byte_def)
  then show ?thesis
    using server_loop_null [OF s(2)] by (simp add: escaped_segment_def s replace_byte_def)
qed

lemma server_loop_canonical:
  assumes "p \<noteq> []" "[] \<notin> set p"
  shows "(if \<exists>s\<in>set p. 0 \<in> set s then \<exists>seg' segs'. server_loop (FieldPath_CanonicalString p) [] segs False = Some (seg', segs', True)
     else server_loop (FieldPath_CanonicalString p) [] segs False = Some (last p, segs @ butlast p, False))"
  using assms
proof (induction p arbitrary: segs)
  case (Cons s p)
  note null = server_loop_null_segment [of s] and plain = server_loop_segment [of s]
  show ?case
  proof (cases "p = []")
    case True
    show ?thesis using null [of "[]" "[]" segs] plain [of "[]" "[]" segs] by (auto simp: True FieldPath_CanonicalString_def)
  next
    case False
    then have str: "FieldPath_CanonicalString (s # p) = escaped_segment s @ 0x2e # FieldPath_CanonicalString p"
      by (cases p) (simp_all add: FieldPath_CanonicalString_def)
    have fin: "finish_segment s segs = Some (segs @ [s])" using Cons.prems by (auto simp: finish_segment_def)
    show ?thesis
    proof (cases "0 \<in> set s")
      case True
      with null [of "0x2e # FieldPath_CanonicalString p" "[]" segs] show ?thesis by (auto simp: str)
    next
      case plain_s: False
      have "server_loop (FieldPath_CanonicalString (s # p)) [] segs False
        = server_loop (FieldPath_CanonicalString p) [] (segs @ [s]) False"
        using plain_s fin by (simp add: str plain)
      with Cons.IH [of "segs @ [s]"] Cons.prems False plain_s show ?thesis by auto
    qed
  qed
qed simp

lemma server_format_round_trip:
  assumes "p \<noteq> []" "[] \<notin> set p"
  shows "FromServerFormat (FieldPath_CanonicalString p) = (if \<exists>s\<in>set p. 0 \<in> set s then None else Some p)"
proof -
  have "last p \<noteq> []" using assms last_in_set [OF assms(1)] by metis
  with assms server_loop_canonical [OF assms, of "[]"] show ?thesis
    by (auto simp: FromServerFormat_def finish_segment_def split: if_splits option.splits)
qed

lemma dot_separated_exact:
  "FromDotSeparatedString s = Inr p \<longleftrightarrow>
     p \<noteq> [] \<and> [] \<notin> set p \<and> (\<forall>t\<in>set p. 0x2e \<notin> set t) \<and> s = StrJoin [0x2e] p
       \<and> (\<forall>c\<in>set s. c \<notin> {0x7e, 0x2a, 0x2f, 0x5b, 0x5d})"
proof -
  have "\<forall>t\<in>set (StrSplit 0x2e s). 0x2e \<notin> set t"
    by (induction s) (auto split: list.splits)
  then show ?thesis
    using StrJoin_StrSplit [of "0x2e" s] StrSplit_StrJoin [of p "0x2e"]
    by (auto simp: FromDotSeparatedString_def Let_def list_ex_iff)
qed

section \<open>Successors of strings (util/string_util.cc)\<close>

text \<open>The string is reversed, so that its last character comes first.\<close>

fun successor_loop :: "bytes \<Rightarrow> bytes" where
  "successor_loop [] = []"
| "successor_loop (c # limit) = (if c = 0xff then successor_loop limit else (c + 1) # limit)"

definition PrefixSuccessor :: "bytes \<Rightarrow> bytes" where
  "PrefixSuccessor prefix_str = rev (successor_loop (rev prefix_str))"

definition ImmediateSuccessor :: "bytes \<Rightarrow> bytes" where
  "ImmediateSuccessor s = s @ [0]"

lemma PrefixSuccessor_snoc:
  "PrefixSuccessor (p @ [c]) = (if c = 0xff then PrefixSuccessor p else p @ [c + 1])"
  by (simp add: PrefixSuccessor_def)

lemma PrefixSuccessor_Nil [simp]: "PrefixSuccessor [] = []"
  by (simp add: PrefixSuccessor_def)

lemma u8_less_ff: "c \<noteq> 0xff \<Longrightarrow> unat c < 255" for c :: u8
  using unat_u8_less [of c] u8_eq_iffs by (cases "unat c = 255") auto

lemma prefix_range_ff:
  assumes "c = 0xff"
  shows "(\<exists>t. s = p @ c # t) \<longleftrightarrow> \<not> bytes_less s (p @ [c]) \<and> (\<exists>t. s = p @ t)"
proof -
  have "bytes_less t [c] \<longleftrightarrow> \<not> (\<exists>u. t = c # u)" for t
    using assms u8_less_ff by (cases t) (auto simp: word_less_nat_alt)
  then show ?thesis by (auto simp: bytes_less_prefix)
qed

lemma prefix_range_Suc:
  assumes "c \<noteq> 0xff"
  shows "(\<exists>t. s = p @ c # t) \<longleftrightarrow> \<not> bytes_less s (p @ [c]) \<and> bytes_less s (p @ [c + 1])"
proof (induction p arbitrary: s)
  case Nil
  have c: "unat (c + 1) = unat c + 1" using u8_less_ff [OF assms] by (simp add: unat_word_ariths)
  show ?case
  proof (cases s)
    case (Cons d t)
    then show ?thesis by (auto simp: word_less_nat_alt c word_unat_eq_iff)
  qed simp
next
  case (Cons a p)
  show ?case
  proof (cases s)
    case (Cons d t)
    with Cons.IH [of t] show ?thesis by auto
  qed simp
qed

lemma prefix_not_less: "\<not> bytes_less (p @ t) p"
  using bytes_less_prefix [of p t "[]"] by simp

lemma prefix_range:
  "(\<exists>t. s = p @ t) \<longleftrightarrow> \<not> bytes_less s p \<and> (PrefixSuccessor p = [] \<or> bytes_less s (PrefixSuccessor p))"
proof (induction p rule: rev_induct)
  case (snoc c p)
  show ?case
  proof (cases "c = 0xff")
    case True
    have "\<not> bytes_less s (p @ [c]) \<Longrightarrow> \<not> bytes_less s p"
      using bytes_less_trans [of s p "p @ [c]"] bytes_less_prefix [of p "[]" "[c]"] by auto
    with snoc prefix_range_ff [OF True, of s p] True show ?thesis by (auto simp: PrefixSuccessor_snoc)
  next
    case False
    with prefix_range_Suc [OF False, of s p] show ?thesis by (simp add: PrefixSuccessor_snoc)
  qed
qed simp

lemma immediate_successor: "bytes_less s t \<longleftrightarrow> t = ImmediateSuccessor s \<or> bytes_less (ImmediateSuccessor s) t"
  unfolding ImmediateSuccessor_def
proof (induction s t rule: bytes_less.induct)
  case (2 y ys)
  then show ?case by (cases ys) (auto simp: word_gt_0)
qed auto

section \<open>Properties\<close>

text \<open>
  C14: Field paths survive the server format. A path of non-empty field names, whatever bytes the
  names consist of - dots, backticks, backslashes - comes back from \<open>FromServerFormat\<close> as it was
  written by \<open>CanonicalString\<close>, with one exception: a name that contains a zero byte is not
  escaped, and the parser, which stops at that byte inside the backticks, fails its assertion.
\<close>
theorem field_paths_round_trip:
  assumes "p \<noteq> []" "[] \<notin> set p"
  shows "FromServerFormat (FieldPath_CanonicalString p) = (if \<exists>s\<in>set p. 0 \<in> set s then None else Some p)"
  using assms by (rule server_format_round_trip)

theorem field_paths_round_trip_witness:
  "FromServerFormat (FieldPath_CanonicalString [[0x61], [0x2e, 0x60, 0x5c]]) = Some [[0x61], [0x2e, 0x60, 0x5c]]
    \<and> FromServerFormat (FieldPath_CanonicalString [[0x61, 0]]) = None"
  using field_paths_round_trip [of "[[0x61], [0x2e, 0x60, 0x5c]]"] field_paths_round_trip [of "[[0x61, 0]]"] by simp

text \<open>
  The range scanned for a prefix: the byte strings that are not less than \<open>p\<close> and, unless there
  is no successor, less than \<open>PrefixSuccessor(p)\<close>, are exactly those that begin with \<open>p\<close>.
\<close>
theorem prefix_successor_bounds_prefix:
  "(\<exists>t. s = p @ t) \<longleftrightarrow>
     CompareString s p \<noteq> Ascending \<and> (PrefixSuccessor p = [] \<or> CompareString s (PrefixSuccessor p) = Ascending)"
  using prefix_range [of s p] by simp

end
