(* ===== verification/RefSet.thy ===== *)
theory RefSet
  imports Paths
begin

text \<open>
  Firestore's reference sets (\<open>local/document_key_reference.cc\<close>, \<open>local/reference_set.cc\<close>): which
  documents are referenced by which target. Every reference is kept twice, in a sorted set ordered by
  key and in one ordered by id; the lemmas show that both hold the same references and that the
  operations act on them as on one set of pairs.
\<close>

section \<open>References to documents (local/document_key_reference.cc)\<close>

text \<open>An \<open>int32_t\<close> is its bit pattern with the signed order.\<close>

type_synonym reference = "path \<times> u32"

definition CompareInt :: "u32 \<Rightarrow> u32 \<Rightarrow> ComparisonResult" where
  "CompareInt l r = (if l <s r then Ascending else if r <s l then Descending else Same)"

definition ByKey :: "reference \<Rightarrow> reference \<Rightarrow> ComparisonResult" where
  "ByKey l r =
     (let result = key_CompareTo (fst l) (fst r)
      in if result \<noteq> Same then result else CompareInt (snd l) (snd r))"

definition ById :: "reference \<Rightarrow> reference \<Rightarrow> ComparisonResult" where
  "ById l r =
     (let result = CompareInt (snd l) (snd r)
      in if result \<noteq> Same then result else key_CompareTo (fst l) (fst r))"

lemma signed_eq_iff: "sint a = sint b \<longleftrightarrow> a = b" for a b :: u32
  by (auto intro: signed_word_eqI)

lemma CompareInt_iffs [simp]:
  "CompareInt a b = Ascending \<longleftrightarrow> a <s b" "CompareInt a b = Same \<longleftrightarrow> a = b" "CompareInt a b = Descending \<longleftrightarrow> b <s a"
  by (auto simp: CompareInt_def word_sless_alt simp flip: signed_eq_iff)

interpretation int_keys: key_order CompareInt
  by unfold_locales (auto intro: ComparisonResult_eqI simp: word_sless_alt)

interpretation doc_keys: key_order key_CompareTo
  unfolding key_CompareTo_def [abs_def] by (rule path_keys.key_order_axioms)

lemma ReverseOrder_twice [simp]: "ReverseOrder (ReverseOrder c) = c"
  by (cases c) simp_all

text \<open>Two orders one after the other.\<close>

lemma lexicographic_order:
  assumes "key_order c" "key_order d" "\<And>x y. f x = f y \<Longrightarrow> g x = g y \<Longrightarrow> x = y"
  shows "key_order (\<lambda>x y. let r = c (f x) (f y) in if r \<noteq> Same then r else d (g x) (g y))"
proof
  note c = key_order.same [OF assms(1)] key_order.reverse [OF assms(1)] key_order.trans [OF assms(1)]
  have irr: "c a a \<noteq> Ascending" for a using c(1) [of a a] by simp
  note d = key_order.same [OF assms(2)] key_order.reverse [OF assms(2)] key_order.trans [OF assms(2)]
  show "(let r = c (f x) (f y) in if r \<noteq> Same then r else d (g x) (g y)) = Same \<longleftrightarrow> x = y" for x y
    using assms(3) [of x y] by (auto simp: Let_def c(1) d(1))
  show "(let r = c (f y) (f x) in if r \<noteq> Same then r else d (g y) (g x))
    = ReverseOrder (let r = c (f x) (f y) in if r \<noteq> Same then r else d (g x) (g y))" for x y
    using c(2) [of "f x" "f y"] d(2) [of "g x" "g y"] by (simp add: Let_def)
  show "(let r = c (f x) (f y) in if r \<noteq> Same then r else d (g x) (g y)) = Ascending \<Longrightarrow>
    (let r = c (f y) (f z) in if r \<noteq> Same then r else d (g y) (g z)) = Ascending \<Longrightarrow>
    (let r = c (f x) (f z) in if r \<noteq> Same then r else d (g x) (g z)) = Ascending" for x y z
    using c(3) [of "f x" "f y" "f z"] d(3) [of "g x" "g y" "g z"] by (auto simp: Let_def c(1) irr split: if_splits)
qed

interpretation by_key_order: key_order ByKey
  unfolding ByKey_def [abs_def]
  by (rule lexicographic_order [OF doc_keys.key_order_axioms int_keys.key_order_axioms]) (rule prod_eqI)

interpretation by_id_order: key_order ById
  unfolding ById_def [abs_def]
  by (rule lexicographic_order [OF int_keys.key_order_axioms doc_keys.key_order_axioms]) (rule prod_eqI)

section \<open>The reference set (local/reference_set.cc)\<close>

record ReferenceSet =
  by_key :: "reference SortedSet"
  by_id :: "reference SortedSet"

definition ReferenceSet_new :: ReferenceSet where
  "ReferenceSet_new = \<lparr>by_key = map_new, by_id = map_new\<rparr>"

definition AddReference :: "path \<Rightarrow> u32 \<Rightarrow> ReferenceSet \<Rightarrow> ReferenceSet option" where
  "AddReference key ref_id rs =
     (let reference = (key, ref_id)
      in Option.bind (sset_insert ByKey reference (by_key rs)) (\<lambda>k.
         Option.bind (sset_insert ById reference (by_id rs)) (\<lambda>i.
         Some \<lparr>by_key = k, by_id = i\<rparr>)))"

fun add_each :: "path list \<Rightarrow> u32 \<Rightarrow> ReferenceSet \<Rightarrow> ReferenceSet option" where
  "add_each [] ref_id rs = Some rs"
| "add_each (key # keys) ref_id rs = Option.bind (AddReference key ref_id rs) (add_each keys ref_id)"

definition AddReferences :: "path SortedSet \<Rightarrow> u32 \<Rightarrow> ReferenceSet \<Rightarrow> ReferenceSet option" where
  "AddReferences keys ref_id rs = Option.bind (set_iterate keys) (\<lambda>ks. add_each ks ref_id rs)"

definition RemoveReference :: "reference \<Rightarrow> ReferenceSet \<Rightarrow> ReferenceSet option" where
  "RemoveReference reference rs =
     Option.bind (map_erase ByKey reference (by_key rs)) (\<lambda>k.
     Option.bind (map_erase ById reference (by_id rs)) (\<lambda>i.
     Some \<lparr>by_key = k, by_id = i\<rparr>))"

fun remove_each :: "reference list \<Rightarrow> ReferenceSet \<Rightarrow> ReferenceSet option" where
  "remove_each [] rs = Some rs"
| "remove_each (reference # references) rs =
     Option.bind (RemoveReference reference rs) (remove_each references)"

definition RemoveReferences :: "path SortedSet \<Rightarrow> u32 \<Rightarrow> ReferenceSet \<Rightarrow> ReferenceSet option" where
  "RemoveReferences keys ref_id rs =
     Option.bind (set_iterate keys) (\<lambda>ks. remove_each (map (\<lambda>key. (key, ref_id)) ks) rs)"

text \<open>
  The references of one id, in the range from the empty key to the empty key of the next id. The
  next id of \<open>INT_MAX\<close> is a signed overflow, which is undefined: \<open>None\<close>.
\<close>

definition references_of_id :: "u32 \<Rightarrow> reference SortedSet \<Rightarrow> reference list option" where
  "references_of_id ref_id references =
     (if ref_id = 0x7fffffff then None
      else
        let (first, stop) = KeysViewIn ById ([], ref_id) ([], ref_id + 1) references
        in map_option (map fst) (iterate (unat (map_size references)) first stop))"

fun remove_collect :: "reference list \<Rightarrow> ReferenceSet \<times> path SortedSet \<Rightarrow> (ReferenceSet \<times> path SortedSet) option" where
  "remove_collect [] st = Some st"
| "remove_collect (reference # references) (rs, removed) =
     Option.bind (RemoveReference reference rs) (\<lambda>rs.
     Option.bind (sset_insert key_CompareTo (fst reference) removed) (\<lambda>removed.
     remove_collect references (rs, removed)))"

definition RemoveReferencesOfId :: "u32 \<Rightarrow> ReferenceSet \<Rightarrow> (ReferenceSet \<times> path SortedSet) option" where
  "RemoveReferencesOfId ref_id rs =
     Option.bind (references_of_id ref_id (by_id rs)) (\<lambda>references. remove_collect references (rs, map_new))"

definition RemoveAllReferences :: "ReferenceSet \<Rightarrow> ReferenceSet option" where
  "RemoveAllReferences rs = Option.bind (set_iterate (by_key rs)) (\<lambda>references. remove_each references rs)"

definition ReferencedKeys :: "u32 \<Rightarrow> ReferenceSet \<Rightarrow> path SortedSet option" where
  "ReferencedKeys ref_id rs =
     Option.bind (references_of_id ref_id (by_id rs)) (\<lambda>references. sset_insert_all key_CompareTo (map fst references) map_new)"

definition ContainsKey :: "path \<Rightarrow> ReferenceSet \<Rightarrow> bool" where
  "ContainsKey key rs =
     (let (first, stop) = KeysViewFrom ByKey (key, 0) (by_key rs)
      in \<not> map_iter_eq first stop \<and> (case map_iter_get first of Some (r, _) \<Rightarrow> fst r = key | None \<Rightarrow> False))"

section \<open>Sets of references\<close>

abbreviation members :: "'a SortedSet \<Rightarrow> 'a set" where
  "members s \<equiv> fst ` set (map_entries s)"

text \<open>Both sorted sets are well-formed and hold the same references, fewer than \<open>2 ^ 31\<close>.\<close>

definition refs_ok :: "ReferenceSet \<Rightarrow> bool" where
  "refs_ok rs \<longleftrightarrow> map_ok ByKey (by_key rs) \<and> map_ok ById (by_id rs) \<and> members (by_key rs) = members (by_id rs)"

definition refs :: "ReferenceSet \<Rightarrow> reference set" where
  "refs rs = members (by_key rs)"

lemma finite_members: "finite (members s)"
  by simp

context key_order
begin

lemma card_members: "map_ok compare s \<Longrightarrow> card (members s) = length (map_entries s)"
  using distinct_card [OF ordered_distinct [OF ordered_map_entries]] by simp

lemma sset_insert_spec:
  assumes "map_ok compare s" "card (members s) < 2 ^ 31 - 1"
  shows "\<exists>s'. sset_insert compare k s = Some s' \<and> map_ok compare s' \<and> members s' = insert k (members s)"
  using map_insert_spec [OF assms(1), of k "()"] assms card_members [OF assms(1)]
    set_list_insert_keys [OF ordered_map_entries [OF assms(1)], of k "()"]
  by (auto simp: sset_insert_def)

lemma sset_erase_spec:
  assumes "map_ok compare s"
  shows "\<exists>s'. map_erase compare k s = Some s' \<and> map_ok compare s' \<and> members s' = members s - {k}"
  using map_erase_spec [OF assms, of k] by (auto simp: list_erase_def)

lemma set_iterate_members: "map_ok compare s \<Longrightarrow> \<exists>ks. set_iterate s = Some ks \<and> set ks = members s \<and> distinct ks"
  using set_iterate_spec [of s] ordered_distinct [OF ordered_map_entries, of s] by simp

end

lemma AddReference_spec:
  assumes "refs_ok rs" "card (refs rs) < 2 ^ 31 - 1"
  shows "\<exists>rs'. AddReference key ref_id rs = Some rs' \<and> refs_ok rs' \<and> refs rs' = insert (key, ref_id) (refs rs)"
  using assms by_key_order.sset_insert_spec [of "by_key rs" "(key, ref_id)"]
    by_id_order.sset_insert_spec [of "by_id rs" "(key, ref_id)"]
  by (auto simp: refs_ok_def refs_def AddReference_def)

lemma RemoveReference_spec:
  assumes "refs_ok rs"
  shows "\<exists>rs'. RemoveReference r rs = Some rs' \<and> refs_ok rs' \<and> refs rs' = refs rs - {r}"
  using assms by_key_order.sset_erase_spec [of "by_key rs" r] by_id_order.sset_erase_spec [of "by_id rs" r]
  by (auto simp: refs_ok_def refs_def RemoveReference_def)

lemma remove_each_spec:
  "refs_ok rs \<Longrightarrow> \<exists>rs'. remove_each rl rs = Some rs' \<and> refs_ok rs' \<and> refs rs' = refs rs - set rl"
proof (induction rl arbitrary: rs)
  case (Cons r rl)
  obtain rs1 where "RemoveReference r rs = Some rs1" "refs_ok rs1" "refs rs1 = refs rs - {r}"
    using RemoveReference_spec [OF Cons.prems] by blast
  with Cons.IH [of rs1] show ?case by auto
qed simp

lemma card_insert_less: "card (insert x A) \<le> Suc (card A)"
  by (rule card_insert_le_m1) simp_all

lemma add_each_spec:
  "refs_ok rs \<Longrightarrow> card (refs rs) + length keys < 2 ^ 31 \<Longrightarrow>
     \<exists>rs'. add_each keys ref_id rs = Some rs' \<and> refs_ok rs' \<and> refs rs' = refs rs \<union> (\<lambda>key. (key, ref_id)) ` set keys"
proof (induction keys arbitrary: rs)
  case (Cons key keys)
  have "card (refs rs) < 2 ^ 31 - 1" using Cons.prems(2) by simp
  then obtain rs1 where rs1: "AddReference key ref_id rs = Some rs1" "refs_ok rs1" "refs rs1 = insert (key, ref_id) (refs rs)"
    using AddReference_spec [OF Cons.prems(1)] by blast
  have "card (refs rs1) + length keys < 2 ^ 31"
    using Cons.prems(2) card_insert_less [of "(key, ref_id)" "refs rs"] by (simp add: rs1(3))
  from Cons.IH [OF rs1(2) this] rs1 show ?case by auto
qed simp

section \<open>The range of one id\<close>

lemma unat_less_32: "unat v < 2 ^ 32" for v :: u32
  using unsigned_less [of v] by simp

lemma sint_u32: "sint v = (if unat v < 2 ^ 31 then int (unat v) else int (unat v) - 2 ^ 32)" for v :: u32
proof -
  have v: "int (unat v) < 2 ^ 32" using unat_less_32 [of v] by (simp only: of_nat_less_numeral_power_cancel_iff)
  have "sint v = signed_take_bit 31 (int (unat v))" by (simp add: sint_uint)
  also have "\<dots> = int (unat v) - 2 ^ 32 * of_bool (bit (int (unat v)) 31)"
    using v signed_take_bit_eq_take_bit_minus [of 31 "int (unat v)"] by (simp add: take_bit_int_eq_self)
  also have "bit (int (unat v)) 31 \<longleftrightarrow> \<not> unat v < 2 ^ 31"
  proof -
    have "unat v div 2 ^ 31 < 2" using unat_less_32 [of v] by (simp add: less_mult_imp_div_less)
    then have "odd (unat v div 2 ^ 31) \<longleftrightarrow> unat v div 2 ^ 31 \<noteq> 0"
      by (cases "unat v div 2 ^ 31 = 0") (simp_all only: less_2_cases_iff, simp_all)
    moreover have "unat v div 2 ^ 31 \<noteq> 0 \<longleftrightarrow> \<not> unat v < 2 ^ 31" by (simp add: div_eq_0_iff)
    ultimately have "bit (unat v) 31 \<longleftrightarrow> \<not> unat v < 2 ^ 31" by (simp only: bit_iff_odd)
    then show ?thesis by (simp only: bit_of_nat_iff_bit)
  qed
  finally show ?thesis by simp
qed

lemma sint_Suc: "sint (v + 1) = sint v + 1" if "v \<noteq> 0x7fffffff" for v :: u32
proof -
  have "unat v \<noteq> 0x7fffffff" using that by (auto simp: word_unat_eq_iff)
  moreover have "unat (v + 1) = (unat v + 1) mod 2 ^ 32" by (simp add: unat_word_ariths)
  moreover note unat_less_32 [of v]
  ultimately show ?thesis by (cases "unat v = 2 ^ 32 - 1") (simp_all add: sint_u32)
qed

lemma empty_path_least [simp]: "key_CompareTo k [] \<noteq> Ascending"
  by (cases k) (simp_all add: key_CompareTo_def path_CompareTo_def)

lemma id_range:
  assumes "ref_id \<noteq> 0x7fffffff"
  shows "ById r ([], ref_id) \<noteq> Ascending \<and> ById r ([], ref_id + 1) = Ascending \<longleftrightarrow> snd r = ref_id"
proof -
  have "ById r ([], n) = Ascending \<longleftrightarrow> snd r <s n" for n
    by (simp add: ById_def Let_def)
  moreover have "\<not> sint (snd r) < sint ref_id \<and> sint (snd r) < sint ref_id + 1 \<longleftrightarrow> sint (snd r) = sint ref_id"
    by linarith
  ultimately show ?thesis by (simp only: word_sless_alt sint_Suc [OF assms] signed_eq_iff)
qed

lemma references_of_id_spec:
  assumes "refs_ok rs" "ref_id \<noteq> 0x7fffffff"
  shows "\<exists>rl. references_of_id ref_id (by_id rs) = Some rl \<and> set rl = {r \<in> refs rs. snd r = ref_id} \<and> distinct rl"
proof -
  have ok: "map_ok ById (by_id rs)" "refs rs = members (by_id rs)" using assms(1) by (simp_all add: refs_ok_def refs_def)
  define P where "P = (\<lambda>x :: reference \<times> unit. snd (fst x) = ref_id)"
  have "P = (\<lambda>x. ById (fst x) ([], ref_id) \<noteq> Ascending \<and> ById (fst x) ([], ref_id + 1) = Ascending)"
    unfolding P_def by (intro ext id_range [OF assms(2), symmetric])
  then have "references_of_id ref_id (by_id rs) = Some (map fst (filter P (map_entries (by_id rs))))"
    using by_id_order.keys_in_spec [OF ok(1), of "([], ref_id)" "([], ref_id + 1)"] assms(2)
    by (simp add: references_of_id_def split_beta)
  moreover have "distinct (map fst (filter P (map_entries (by_id rs))))"
    using by_id_order.ordered_distinct [OF by_id_order.ordered_map_entries [OF ok(1)]] by (rule distinct_map_filter)
  ultimately show ?thesis by (auto simp: ok(2) P_def image_iff)
qed

lemma length_references:
  assumes "set rl \<subseteq> refs rs" "distinct rl"
  shows "length rl \<le> card (refs rs)"
  using card_mono [OF _ assms(1)] distinct_card [OF assms(2)] by (simp add: refs_def)

lemma ReferencedKeys_spec:
  assumes "refs_ok rs" "ref_id \<noteq> 0x7fffffff" "card (refs rs) < 2 ^ 31"
  shows "\<exists>keys. ReferencedKeys ref_id rs = Some keys \<and> map_ok key_CompareTo keys
    \<and> members keys = {key. (key, ref_id) \<in> refs rs}"
proof -
  obtain rl where rl: "references_of_id ref_id (by_id rs) = Some rl" "set rl = {r \<in> refs rs. snd r = ref_id}" "distinct rl"
    using references_of_id_spec [OF assms(1,2)] by blast
  have "length rl < 2 ^ 31" using length_references [of rl rs] rl(2,3) assms(3) by auto
  then obtain keys where "sset_insert_all key_CompareTo (map fst rl) map_new = Some keys" "map_ok key_CompareTo keys"
    "members keys = set (map fst rl)"
    using doc_keys.sset_insert_all_spec [of map_new "map fst rl"] by auto
  moreover have "set (map fst rl) = {key. (key, ref_id) \<in> refs rs}" using rl(2) by force
  ultimately show ?thesis using rl(1) by (simp add: ReferencedKeys_def)
qed

lemma remove_collect_spec:
  "refs_ok rs \<Longrightarrow> map_ok key_CompareTo ks \<Longrightarrow> card (members ks) + length rl < 2 ^ 31 \<Longrightarrow>
     \<exists>rs' ks'. remove_collect rl (rs, ks) = Some (rs', ks') \<and> refs_ok rs' \<and> refs rs' = refs rs - set rl
       \<and> map_ok key_CompareTo ks' \<and> members ks' = members ks \<union> fst ` set rl"
proof (induction rl arbitrary: rs ks)
  case (Cons r rl)
  obtain rs1 where rs1: "RemoveReference r rs = Some rs1" "refs_ok rs1" "refs rs1 = refs rs - {r}"
    using RemoveReference_spec [OF Cons.prems(1)] by blast
  have "card (members ks) < 2 ^ 31 - 1" using Cons.prems(3) by simp
  then obtain ks1 where ks1: "sset_insert key_CompareTo (fst r) ks = Some ks1" "map_ok key_CompareTo ks1"
    "members ks1 = insert (fst r) (members ks)"
    using doc_keys.sset_insert_spec [OF Cons.prems(2)] by blast
  have "card (members ks1) + length rl < 2 ^ 31"
    using Cons.prems(3) card_insert_less [of "fst r" "members ks"] by (simp add: ks1(3))
  from Cons.IH [OF rs1(2) ks1(2) this] show ?case by (auto simp: rs1 ks1)
qed simp

lemma RemoveReferencesOfId_spec:
  assumes "refs_ok rs" "ref_id \<noteq> 0x7fffffff" "card (refs rs) < 2 ^ 31"
  shows "\<exists>rs' keys. RemoveReferencesOfId ref_id rs = Some (rs', keys) \<and> refs_ok rs'
    \<and> refs rs' = {r \<in> refs rs. snd r \<noteq> ref_id}
    \<and> map_ok key_CompareTo keys \<and> members keys = {key. (key, ref_id) \<in> refs rs}"
proof -
  obtain rl where rl: "references_of_id ref_id (by_id rs) = Some rl" "set rl = {r \<in> refs rs. snd r = ref_id}" "distinct rl"
    using references_of_id_spec [OF assms(1,2)] by blast
  have "length rl < 2 ^ 31" using length_references [of rl rs] rl(2,3) assms(3) by auto
  then obtain rs' keys where "remove_collect rl (rs, map_new) = Some (rs', keys)" "refs_ok rs'" "refs rs' = refs rs - set rl"
    "map_ok key_CompareTo keys" "members keys = fst ` set rl"
    using remove_collect_spec [OF assms(1), of map_new rl] by auto
  moreover have "fst ` set rl = {key. (key, ref_id) \<in> refs rs}" "refs rs - set rl = {r \<in> refs rs. snd r \<noteq> ref_id}"
    using rl(2) by force+
  ultimately show ?thesis using rl(1) by (simp add: RemoveReferencesOfId_def)
qed

lemma RemoveAllReferences_spec:
  assumes "refs_ok rs"
  shows "\<exists>rs'. RemoveAllReferences rs = Some rs' \<and> refs_ok rs' \<and> refs rs' = {}"
proof -
  have "map_ok ByKey (by_key rs)" using assms by (simp add: refs_ok_def)
  then obtain rl where "set_iterate (by_key rs) = Some rl" "set rl = refs rs"
    using by_key_order.set_iterate_members [of "by_key rs"] unfolding refs_def by blast
  with remove_each_spec [OF assms, of rl] show ?thesis by (auto simp: RemoveAllReferences_def)
qed

lemma AddReferences_spec:
  assumes "refs_ok rs" "map_ok key_CompareTo keys" "card (refs rs) + card (members keys) < 2 ^ 31"
  shows "\<exists>rs'. AddReferences keys ref_id rs = Some rs' \<and> refs_ok rs'
    \<and> refs rs' = refs rs \<union> (\<lambda>key. (key, ref_id)) ` members keys"
proof -
  obtain ks where ks: "set_iterate keys = Some ks" "set ks = members keys" "distinct ks"
    using doc_keys.set_iterate_members [OF assms(2)] by blast
  then have "length ks = card (members keys)" using distinct_card [OF ks(3)] by simp
  with add_each_spec [OF assms(1), of ks] assms(3) ks show ?thesis by (simp add: AddReferences_def)
qed

lemma RemoveReferences_spec:
  assumes "refs_ok rs" "map_ok key_CompareTo keys"
  shows "\<exists>rs'. RemoveReferences keys ref_id rs = Some rs' \<and> refs_ok rs'
    \<and> refs rs' = refs rs - (\<lambda>key. (key, ref_id)) ` members keys"
proof -
  obtain ks where ks: "set_iterate keys = Some ks" "set ks = members keys"
    using doc_keys.set_iterate_members [OF assms(2)] by blast
  with remove_each_spec [OF assms(1), of "map (\<lambda>key. (key, ref_id)) ks"] show ?thesis
    by (simp add: RemoveReferences_def)
qed

section \<open>Does a document have a reference?\<close>

context key_order
begin

lemma keys_from_first:
  assumes "map_ok compare s"
  shows "case filter (\<lambda>x. compare x k \<noteq> Ascending) (map fst (map_entries s)) of
      [] \<Rightarrow> map_iter_eq (map_lower_bound compare k s) (map_end s)
    | x # _ \<Rightarrow> \<not> map_iter_eq (map_lower_bound compare k s) (map_end s)
        \<and> (\<exists>v. map_iter_get (map_lower_bound compare k s) = Some (x, v))"
proof -
  define xs where "xs = filter (\<lambda>x. compare (fst x) k \<noteq> Ascending) (map_entries s)"
  note lb = map_lower_bound_spec [OF assms, of k]
  have from_k: "from_key compare k (map_entries s) = xs"
    unfolding xs_def by (rule from_key_filter [OF ordered_map_entries [OF assms]])
  obtain i where i: "i \<le> length (map_entries s)" "xs = drop i (map_entries s)"
    using dropWhile_as_drop [of "map_entries s" "\<lambda>x. compare (fst x) k = Ascending"] from_k by (auto simp: from_key_def)
  have eq: "map_iter_eq (map_lower_bound compare k s) (map_end s) \<longleftrightarrow> i = length (map_entries s)"
    using lb from_k map_end_spec [of s] ordered_distinct [OF ordered_map_entries [OF assms]] i
    by (intro map_iter_eq_spec) auto
  have fst_xs: "filter (\<lambda>x. compare x k \<noteq> Ascending) (map fst (map_entries s)) = map fst xs"
    by (simp add: xs_def filter_map comp_def)
  show ?thesis
  proof (cases xs)
    case Nil
    then show ?thesis using eq i unfolding fst_xs by simp
  next
    case (Cons x ys)
    then have "map_iter_get (map_lower_bound compare k s) = Some x" "i \<noteq> length (map_entries s)"
      using map_iter_step [of "map_lower_bound compare k s"] lb from_k i by auto
    then show ?thesis using eq unfolding fst_xs Cons by (cases x) simp
  qed
qed

end

lemma ContainsKey_spec:
  assumes "refs_ok rs"
  shows "ContainsKey key rs \<longleftrightarrow> (\<exists>i. (key, i) \<in> refs rs \<and> \<not> i <s 0)"
proof -
  define xs where "xs = filter (\<lambda>r. ByKey r (key, 0) \<noteq> Ascending) (map fst (map_entries (by_key rs)))"
  have ok: "map_ok ByKey (by_key rs)" using assms by (simp add: refs_ok_def)
  note first = by_key_order.keys_from_first [OF ok, of "(key, 0)", folded xs_def]
  have xs: "set xs = {r \<in> refs rs. ByKey r (key, 0) \<noteq> Ascending}" by (auto simp: xs_def refs_def)
  have from_key: "ByKey (k, i) (key, 0) \<noteq> Ascending \<longleftrightarrow>
      key_CompareTo k key = Descending \<or> k = key \<and> \<not> i <s 0" for k i
    using doc_keys.same [of k key] by (cases "key_CompareTo k key") (auto simp: ByKey_def Let_def)
  show ?thesis
  proof (cases xs)
    case Nil
    with first xs from_key show ?thesis by (auto simp: ContainsKey_def KeysViewFrom_def)
  next
    case (Cons r rl)
    have "sorted_wrt (\<lambda>a b. ByKey a b = Ascending) (map fst (map_entries (by_key rs)))"
      using by_key_order.ordered_map_entries [OF ok] by (simp add: ordered_def sorted_wrt_map)
    then have sorted: "\<forall>s\<in>set rl. ByKey r s = Ascending"
      using sorted_wrt_filter [of "\<lambda>a b. ByKey a b = Ascending" _ "\<lambda>r. ByKey r (key, 0) \<noteq> Ascending"] Cons
      unfolding xs_def by fastforce
    have contains: "ContainsKey key rs \<longleftrightarrow> fst r = key"
      using first Cons by (auto simp: ContainsKey_def KeysViewFrom_def)
    obtain k i where r: "r = (k, i)" by (cases r)
    have mem: "(k, i) \<in> refs rs" "key_CompareTo k key = Descending \<or> k = key \<and> \<not> i <s 0"
      using xs from_key [of k i] by (auto simp: Cons r)
    show ?thesis
    proof
      assume "ContainsKey key rs"
      with mem contains r show "\<exists>i. (key, i) \<in> refs rs \<and> \<not> i <s 0" by auto
    next
      assume "\<exists>j. (key, j) \<in> refs rs \<and> \<not> j <s 0"
      then obtain j where j: "(key, j) \<in> refs rs" "\<not> j <s 0" by blast
      then have "(key, j) \<in> set xs" using xs from_key by simp
      then consider "(key, j) = r" | "ByKey r (key, j) = Ascending" using sorted Cons by auto
      then have "key_CompareTo k key \<noteq> Descending"
        by cases (auto simp: r ByKey_def Let_def split: if_splits)
      with mem contains r show "ContainsKey key rs" by auto
    qed
  qed
qed

section \<open>Histories\<close>

datatype ref_op =
    Add path u32
  | Remove path u32
  | RemoveOfId u32
  | RemoveAll

fun run_ref_op :: "ref_op \<Rightarrow> ReferenceSet \<Rightarrow> ReferenceSet option" where
  "run_ref_op (Add key ref_id) rs = AddReference key ref_id rs"
| "run_ref_op (Remove key ref_id) rs = RemoveReference (key, ref_id) rs"
| "run_ref_op (RemoveOfId ref_id) rs = map_option fst (RemoveReferencesOfId ref_id rs)"
| "run_ref_op RemoveAll rs = RemoveAllReferences rs"

fun run_ref_ops :: "ref_op list \<Rightarrow> ReferenceSet \<Rightarrow> ReferenceSet option" where
  "run_ref_ops [] rs = Some rs"
| "run_ref_ops (op # ops) rs = Option.bind (run_ref_op op rs) (run_ref_ops ops)"

fun ref_op_effect :: "ref_op \<Rightarrow> reference set \<Rightarrow> reference set" where
  "ref_op_effect (Add key ref_id) R = insert (key, ref_id) R"
| "ref_op_effect (Remove key ref_id) R = R - {(key, ref_id)}"
| "ref_op_effect (RemoveOfId ref_id) R = {r \<in> R. snd r \<noteq> ref_id}"
| "ref_op_effect RemoveAll R = {}"

lemma run_ref_op_spec:
  assumes "refs_ok rs" "card (refs rs) < 2 ^ 31 - 1" "op \<noteq> RemoveOfId 0x7fffffff"
  shows "\<exists>rs'. run_ref_op op rs = Some rs' \<and> refs_ok rs' \<and> refs rs' = ref_op_effect op (refs rs)"
  using assms AddReference_spec [OF assms(1,2)] RemoveReference_spec [OF assms(1)]
    RemoveReferencesOfId_spec [OF assms(1)] RemoveAllReferences_spec [OF assms(1)]
  by (cases op) fastforce+

lemma card_ref_op_effect: "finite R \<Longrightarrow> card (ref_op_effect op R) \<le> Suc (card R) \<and> finite (ref_op_effect op R)"
  using card_insert_less [of _ R] by (cases op) (auto intro: le_SucI card_mono card_Diff1_le)

lemma finite_refs: "finite (refs rs)"
  by (simp add: refs_def)

lemma run_ref_ops_spec:
  "refs_ok rs \<Longrightarrow> card (refs rs) + length ops < 2 ^ 31 \<Longrightarrow> RemoveOfId 0x7fffffff \<notin> set ops \<Longrightarrow>
     \<exists>rs'. run_ref_ops ops rs = Some rs' \<and> refs_ok rs' \<and> refs rs' = fold ref_op_effect ops (refs rs)
       \<and> card (refs rs') < 2 ^ 31"
proof (induction ops arbitrary: rs)
  case (Cons op ops)
  then obtain rs1 where rs1: "run_ref_op op rs = Some rs1" "refs_ok rs1" "refs rs1 = ref_op_effect op (refs rs)"
    using run_ref_op_spec [of rs op] by auto
  have "card (refs rs1) + length ops < 2 ^ 31"
    using card_ref_op_effect [OF finite_refs, of op rs] Cons.prems(2) by (simp add: rs1(3))
  with Cons.IH [OF rs1(2)] Cons.prems(3) rs1 show ?case by auto
qed simp

lemma ReferenceSet_new_ok: "refs_ok ReferenceSet_new" "refs ReferenceSet_new = {}"
  by (simp_all add: refs_ok_def refs_def ReferenceSet_new_def)

text \<open>
  C13: A reference set, which keeps every reference in two sorted sets, one by key and one by id, is
  the set of references its history describes. Any sequence of additions and removals on a new
  reference set succeeds; afterwards \<open>ReferencedKeys\<close> gives exactly the keys of an id, as a
  well-formed document key set, and \<open>ContainsKey\<close> tells whether the key has a reference whose
  id is not negative: it searches from the id 0 on and misses negative ids. The range of an id
  is taken up to the next id, so \<open>INT_MAX\<close> is excluded.
\<close>
theorem reference_set_history:
  assumes "length ops < 2 ^ 31" "RemoveOfId 0x7fffffff \<notin> set ops" "ref_id \<noteq> 0x7fffffff"
  shows "\<exists>rs keys. run_ref_ops ops ReferenceSet_new = Some rs
    \<and> (ContainsKey key rs \<longleftrightarrow> (\<exists>i. (key, i) \<in> fold ref_op_effect ops {} \<and> \<not> i <s 0))
    \<and> ReferencedKeys ref_id rs = Some keys \<and> map_ok key_CompareTo keys
    \<and> fst ` set (map_entries keys) = {k. (k, ref_id) \<in> fold ref_op_effect ops {}}"
proof -
  obtain rs where rs: "run_ref_ops ops ReferenceSet_new = Some rs" "refs_ok rs" "refs rs = fold ref_op_effect ops {}"
    "card (refs rs) < 2 ^ 31"
    using run_ref_ops_spec [of ReferenceSet_new ops] assms(1,2) by (auto simp: ReferenceSet_new_ok)
  with ReferencedKeys_spec [OF rs(2) assms(3) rs(4)] ContainsKey_spec [OF rs(2), of key] show ?thesis by auto
qed

theorem reference_set_history_witness:
  "\<exists>rs keys. run_ref_ops [Add [[97], [98]] 5, Add [[97], [99]] 6, Remove [[97], [98]] 5] ReferenceSet_new = Some rs
    \<and> \<not> ContainsKey [[97], [98]] rs
    \<and> ReferencedKeys 6 rs = Some keys \<and> fst ` set (map_entries keys) = {[[97], [99]]}"
  using reference_set_history [of "[Add [[97], [98]] 5, Add [[97], [99]] 6, Remove [[97], [98]] 5]" 6 "[[97], [98]]"]
  by auto

end
