(* ===== verification/LevelDbKey.thy ===== *)
theory LevelDbKey
  imports Paths "HOL-Library.Monad_Syntax"
begin

text \<open>
  The keys of Firestore's local database (\<open>local/leveldb_key.cc\<close>): components behind labels, the
  writer and the reader of components, and for every table the key prefixes, the whole key and
  its decoder. The writer appends to its string with the ordered encoding of strings and signed
  numbers; the reader is a position and a flag that, once it is false, makes every read a no-op.
\<close>

section \<open>Names and labels\<close>

text \<open>The bytes of a string literal.\<close>

definition str :: "string \<Rightarrow> bytes" where
  "str s = map of_char s"

definition kVersionGlobalTable :: bytes where "kVersionGlobalTable = str ''version''"
definition kMutationsTable :: bytes where "kMutationsTable = str ''mutation''"
definition kDocumentMutationsTable :: bytes where "kDocumentMutationsTable = str ''document_mutation''"
definition kMutationQueuesTable :: bytes where "kMutationQueuesTable = str ''mutation_queue''"
definition kTargetGlobalTable :: bytes where "kTargetGlobalTable = str ''target_global''"
definition kTargetsTable :: bytes where "kTargetsTable = str ''target''"
definition kQueryTargetsTable :: bytes where "kQueryTargetsTable = str ''query_target''"
definition kTargetDocumentsTable :: bytes where "kTargetDocumentsTable = str ''target_document''"
definition kDocumentTargetsTable :: bytes where "kDocumentTargetsTable = str ''document_target''"
definition kRemoteDocumentsTable :: bytes where "kRemoteDocumentsTable = str ''remote_document''"
definition kCollectionParentsTable :: bytes where "kCollectionParentsTable = str ''collection_parent''"
definition kRemoteDocumentReadTimeTable :: bytes where "kRemoteDocumentReadTimeTable = str ''remote_document_read_time''"

text \<open>\<open>ComponentLabel\<close>, as the \<open>int64_t\<close> that is written.\<close>

definition Terminator :: u64 where "Terminator = 0"
definition TableName :: u64 where "TableName = 5"
definition BatchId :: u64 where "BatchId = 10"
definition CanonicalId :: u64 where "CanonicalId = 11"
definition TargetId :: u64 where "TargetId = 12"
definition UserId :: u64 where "UserId = 13"
definition CollectionId :: u64 where "CollectionId = 14"
definition DocumentId :: u64 where "DocumentId = 15"
definition SnapshotVersion :: u64 where "SnapshotVersion = 16"
definition PathSegment :: u64 where "PathSegment = 62"
definition Unknown :: u64 where "Unknown = 63"

section \<open>Writer\<close>

text \<open>A \<open>Writer\<close> is its string \<open>dest_\<close>.\<close>

definition WriteComponentLabel :: "u64 \<Rightarrow> bytes \<Rightarrow> bytes option" where
  "WriteComponentLabel label dest = WriteSignedNumIncreasing dest label"

definition WriteLabeledInt32 :: "u64 \<Rightarrow> u32 \<Rightarrow> bytes \<Rightarrow> bytes option" where
  "WriteLabeledInt32 label v dest =
     do { dest \<leftarrow> WriteComponentLabel label dest; WriteSignedNumIncreasing dest (scast v) }"

definition WriteLabeledString :: "u64 \<Rightarrow> bytes \<Rightarrow> bytes \<Rightarrow> bytes option" where
  "WriteLabeledString label v dest =
     do { dest \<leftarrow> WriteComponentLabel label dest; WriteString dest v }"

definition WriteTerminator :: "bytes \<Rightarrow> bytes option" where
  "WriteTerminator dest = WriteSignedNumIncreasing dest Terminator"

definition WriteTableName :: "bytes \<Rightarrow> bytes \<Rightarrow> bytes option" where
  "WriteTableName = WriteLabeledString TableName"

definition WriteBatchId :: "u32 \<Rightarrow> bytes \<Rightarrow> bytes option" where
  "WriteBatchId = WriteLabeledInt32 BatchId"

definition WriteCanonicalId :: "bytes \<Rightarrow> bytes \<Rightarrow> bytes option" where
  "WriteCanonicalId = WriteLabeledString CanonicalId"

definition WriteTargetId :: "u32 \<Rightarrow> bytes \<Rightarrow> bytes option" where
  "WriteTargetId = WriteLabeledInt32 TargetId"

definition WriteUserId :: "bytes \<Rightarrow> bytes \<Rightarrow> bytes option" where
  "WriteUserId = WriteLabeledString UserId"

definition WriteCollectionId :: "bytes \<Rightarrow> bytes \<Rightarrow> bytes option" where
  "WriteCollectionId = WriteLabeledString CollectionId"

definition WriteDocumentId :: "bytes \<Rightarrow> bytes \<Rightarrow> bytes option" where
  "WriteDocumentId = WriteLabeledString DocumentId"

text \<open>A snapshot version is its timestamp, seconds (\<open>int64_t\<close>) and nanoseconds (\<open>int32_t\<close>).\<close>

type_synonym timestamp = "u64 \<times> u32"

definition WriteSnapshotVersion :: "timestamp \<Rightarrow> bytes \<Rightarrow> bytes option" where
  "WriteSnapshotVersion v dest =
     do { dest \<leftarrow> WriteComponentLabel SnapshotVersion dest;
          dest \<leftarrow> WriteSignedNumIncreasing dest (fst v);
          WriteSignedNumIncreasing dest (scast (snd v)) }"

fun WriteResourcePath :: "path \<Rightarrow> bytes \<Rightarrow> bytes option" where
  "WriteResourcePath [] dest = Some dest"
| "WriteResourcePath (segment # path) dest =
     do { dest \<leftarrow> WriteComponentLabel PathSegment dest;
          dest \<leftarrow> WriteString dest segment;
          WriteResourcePath path dest }"

section \<open>Reader\<close>

text \<open>\<open>None\<close> is a failed \<open>HARD_ASSERT\<close> of the decoding routines.\<close>

record reader =
  rsrc :: bytes
  rok :: bool

definition Reader :: "bytes \<Rightarrow> reader" where
  "Reader src = \<lparr>rsrc = src, rok = True\<rparr>"

definition reader_empty :: "reader \<Rightarrow> bool" where
  "reader_empty r \<longleftrightarrow> \<not> rok r \<or> rsrc r = []"

definition Fail :: "reader \<Rightarrow> reader" where
  "Fail r = r\<lparr>rok := False\<rparr>"

definition Reader_ReadSigned :: "reader \<Rightarrow> (u64 \<times> reader) option" where
  "Reader_ReadSigned r =
     (if rok r then
        (case ReadSignedNumIncreasing (rsrc r) (Some 0) of
           None \<Rightarrow> None
         | Some (True, tmp, Some v) \<Rightarrow> Some (v, r\<lparr>rsrc := tmp\<rparr>)
         | Some _ \<Rightarrow> Some (0, Fail r))
      else Some (0, Fail r))"

definition Reader_ReadString :: "reader \<Rightarrow> (bytes \<times> reader) option" where
  "Reader_ReadString r =
     (if rok r then
        (case ReadString (rsrc r) (Some []) of
           None \<Rightarrow> None
         | Some (True, tmp, Some s) \<Rightarrow> Some (s, r\<lparr>rsrc := tmp\<rparr>)
         | Some _ \<Rightarrow> Some ([], Fail r))
      else Some ([], Fail r))"

definition ReadComponentLabel :: "reader \<Rightarrow> (u64 \<times> reader) option" where
  "ReadComponentLabel r =
     (if rok r then
        do { (raw_result, r) \<leftarrow> Reader_ReadSigned r;
             if rok r \<and> Terminator \<le>s raw_result \<and> raw_result \<le>s Unknown then Some (raw_result, r)
             else Some (Unknown, Fail r) }
      else Some (Unknown, Fail r))"

definition ReadComponentLabelMatching :: "u64 \<Rightarrow> reader \<Rightarrow> (bool \<times> reader) option" where
  "ReadComponentLabelMatching expected_label r =
     (if rok r then
        do { (raw_result, r) \<leftarrow> Reader_ReadSigned r;
             if rok r then Some (raw_result = expected_label, r) else Some (False, Fail r) }
      else Some (False, Fail r))"

definition ReadInt32 :: "reader \<Rightarrow> (u32 \<times> reader) option" where
  "ReadInt32 r =
     (if rok r then
        do { (raw_result, r) \<leftarrow> Reader_ReadSigned r;
             if rok r \<and> - 0x80000000 \<le>s raw_result \<and> raw_result \<le>s 0x7fffffff then Some (ucast raw_result, r)
             else Some (0, Fail r) }
      else Some (0, Fail r))"

definition ReadLabeledInt32 :: "u64 \<Rightarrow> reader \<Rightarrow> (u32 \<times> reader) option" where
  "ReadLabeledInt32 expected_label r =
     do { (matches, r) \<leftarrow> ReadComponentLabelMatching expected_label r;
          ReadInt32 (if \<not> matches then Fail r else r) }"

definition ReadInt64 :: "reader \<Rightarrow> (u64 \<times> reader) option" where
  "ReadInt64 r = Reader_ReadSigned r"

definition ReadLabeledString :: "u64 \<Rightarrow> reader \<Rightarrow> (bytes \<times> reader) option" where
  "ReadLabeledString expected_label r =
     do { (matches, r) \<leftarrow> ReadComponentLabelMatching expected_label r;
          Reader_ReadString (if \<not> matches then Fail r else r) }"

definition ReadLabeledStringMatching :: "u64 \<Rightarrow> bytes \<Rightarrow> reader \<Rightarrow> (bool \<times> reader) option" where
  "ReadLabeledStringMatching expected_label expected_value r =
     do { (v, r) \<leftarrow> ReadLabeledString expected_label r;
          if rok r then Some (v = expected_value, r) else Some (False, Fail r) }"

definition ReadTableNameMatching :: "bytes \<Rightarrow> reader \<Rightarrow> reader option" where
  "ReadTableNameMatching expected_table_name r =
     do { (matches, r) \<leftarrow> ReadLabeledStringMatching TableName expected_table_name r;
          Some (if \<not> matches then Fail r else r) }"

definition ReadBatchId :: "reader \<Rightarrow> (u32 \<times> reader) option" where
  "ReadBatchId = ReadLabeledInt32 BatchId"

definition ReadCanonicalId :: "reader \<Rightarrow> (bytes \<times> reader) option" where
  "ReadCanonicalId = ReadLabeledString CanonicalId"

definition ReadTargetId :: "reader \<Rightarrow> (u32 \<times> reader) option" where
  "ReadTargetId = ReadLabeledInt32 TargetId"

definition ReadUserId :: "reader \<Rightarrow> (bytes \<times> reader) option" where
  "ReadUserId = ReadLabeledString UserId"

definition ReadCollectionId :: "reader \<Rightarrow> (bytes \<times> reader) option" where
  "ReadCollectionId = ReadLabeledString CollectionId"

definition ReadDocumentId :: "reader \<Rightarrow> (bytes \<times> reader) option" where
  "ReadDocumentId = ReadLabeledString DocumentId"

definition ReadTerminator :: "reader \<Rightarrow> reader option" where
  "ReadTerminator r =
     do { (matches, r) \<leftarrow> ReadComponentLabelMatching Terminator r;
          Some (if \<not> matches then Fail r else r) }"

text \<open>\<open>Timestamp::ValidateBounds\<close>.\<close>

definition kNanosPerSecond :: u32 where
  "kNanosPerSecond = 1000 * 1000 * 1000"

definition ValidateBounds :: "timestamp \<Rightarrow> bool" where
  "ValidateBounds t \<longleftrightarrow> 0 \<le>s snd t \<and> snd t <s kNanosPerSecond
     \<and> - 62135596800 \<le>s fst t \<and> fst t <s 253402300800"

definition ReadSnapshotVersion :: "reader \<Rightarrow> (timestamp \<times> reader) option" where
  "ReadSnapshotVersion r =
     do { (matches, r) \<leftarrow> ReadComponentLabelMatching SnapshotVersion r;
          (seconds, r) \<leftarrow> ReadInt64 (if \<not> matches then Fail r else r);
          (nanos, r) \<leftarrow> ReadInt32 r;
          if ValidateBounds (seconds, nanos) then Some ((seconds, nanos), r) else None }"

text \<open>Reading never gives bytes back, and a string takes at least its two-byte end.\<close>

lemma ReadSigned_length:
  "ReadSignedNumIncreasing src result = Some (b, rest, v) \<Longrightarrow> length rest \<le> length src"
  by (auto simp: ReadSignedNumIncreasing_def Let_def split: if_splits)

lemma Reader_ReadSigned_length: "Reader_ReadSigned r = Some (v, r') \<Longrightarrow> length (rsrc r') \<le> length (rsrc r)"
  by (auto simp: Reader_ReadSigned_def Fail_def dest!: ReadSigned_length split: if_splits option.splits bool.splits)

lemma Matching_length: "ReadComponentLabelMatching l r = Some (b, r') \<Longrightarrow> length (rsrc r') \<le> length (rsrc r)"
  by (auto simp: ReadComponentLabelMatching_def Fail_def dest!: Reader_ReadSigned_length split: if_splits bind_splits)

lemma Reader_ReadString_length: "Reader_ReadString r = Some (s, r') \<Longrightarrow> rok r' \<Longrightarrow> length (rsrc r') < length (rsrc r)"
  by (auto simp: Reader_ReadString_def Fail_def string_code_def dest!: ReadString_sound split: if_splits option.splits bool.splits)

function read_path :: "reader \<Rightarrow> path \<Rightarrow> (path \<times> reader) option" where
  "read_path r path_segments =
     (if reader_empty r then Some (path_segments, r)
      else
        let saved_position = rsrc r
        in case ReadComponentLabelMatching PathSegment r of
             None \<Rightarrow> None
           | Some (matches, r) \<Rightarrow>
               if \<not> matches then Some (path_segments, r\<lparr>rsrc := saved_position\<rparr>)
               else
                 case Reader_ReadString r of
                   None \<Rightarrow> None
                 | Some (segment, r) \<Rightarrow>
                     if \<not> rok r then Some (path_segments, r) else read_path r (path_segments @ [segment]))"
  by pat_completeness auto

termination read_path
  by (relation "measure (\<lambda>(r, path). length (rsrc r))")
    (auto dest!: Matching_length Reader_ReadString_length)

declare read_path.simps [simp del]

definition ReadResourcePath :: "reader \<Rightarrow> (path \<times> reader) option" where
  "ReadResourcePath r = read_path r []"

definition ReadDocumentKey :: "reader \<Rightarrow> (path \<times> reader) option" where
  "ReadDocumentKey r =
     do { (path, r) \<leftarrow> ReadResourcePath r;
          if rok r \<and> path \<noteq> [] \<and> IsDocumentKey path then map_option (\<lambda>key. (key, r)) (DocumentKey path)
          else Some ([], Fail r) }"

section \<open>The keys of each table\<close>

text \<open>
  \<open>Decode\<close> yields its result and the fields it stores. Like the code it does not ask whether bytes follow the terminator.
\<close>

definition VersionKey_Key :: "bytes option" where
  "VersionKey_Key =
     do { w \<leftarrow> WriteTableName kVersionGlobalTable [];
          WriteTerminator w }"

definition MutationKey_KeyPrefix :: "bytes option" where
  "MutationKey_KeyPrefix =
     WriteTableName kMutationsTable []"

definition MutationKey_KeyPrefixUser :: "bytes \<Rightarrow> bytes option" where
  "MutationKey_KeyPrefixUser user_id =
     do { w \<leftarrow> WriteTableName kMutationsTable [];
          WriteUserId user_id w }"

definition MutationKey_Key :: "bytes \<Rightarrow> u32 \<Rightarrow> bytes option" where
  "MutationKey_Key user_id batch_id =
     do { w \<leftarrow> WriteTableName kMutationsTable [];
          w \<leftarrow> WriteUserId user_id w;
          w \<leftarrow> WriteBatchId batch_id w;
          WriteTerminator w }"

definition MutationKey_Decode :: "bytes \<Rightarrow> (bool \<times> bytes \<times> u32) option" where
  "MutationKey_Decode key =
     do { r \<leftarrow> ReadTableNameMatching kMutationsTable (Reader key);
          (user_id, r) \<leftarrow> ReadUserId r;
          (batch_id, r) \<leftarrow> ReadBatchId r;
          r \<leftarrow> ReadTerminator r;
          Some (rok r, user_id, batch_id) }"

definition DocumentMutationKey_KeyPrefix :: "bytes option" where
  "DocumentMutationKey_KeyPrefix =
     WriteTableName kDocumentMutationsTable []"

definition DocumentMutationKey_KeyPrefixUser :: "bytes \<Rightarrow> bytes option" where
  "DocumentMutationKey_KeyPrefixUser user_id =
     do { w \<leftarrow> WriteTableName kDocumentMutationsTable [];
          WriteUserId user_id w }"

definition DocumentMutationKey_KeyPrefixUserPath :: "bytes \<Rightarrow> path \<Rightarrow> bytes option" where
  "DocumentMutationKey_KeyPrefixUserPath user_id path =
     do { w \<leftarrow> WriteTableName kDocumentMutationsTable [];
          w \<leftarrow> WriteUserId user_id w;
          WriteResourcePath path w }"

definition DocumentMutationKey_Key :: "bytes \<Rightarrow> path \<Rightarrow> u32 \<Rightarrow> bytes option" where
  "DocumentMutationKey_Key user_id document_key batch_id =
     do { w \<leftarrow> WriteTableName kDocumentMutationsTable [];
          w \<leftarrow> WriteUserId user_id w;
          w \<leftarrow> WriteResourcePath document_key w;
          w \<leftarrow> WriteBatchId batch_id w;
          WriteTerminator w }"

definition DocumentMutationKey_Decode :: "bytes \<Rightarrow> (bool \<times> bytes \<times> path \<times> u32) option" where
  "DocumentMutationKey_Decode key =
     do { r \<leftarrow> ReadTableNameMatching kDocumentMutationsTable (Reader key);
          (user_id, r) \<leftarrow> ReadUserId r;
          (document_key, r) \<leftarrow> ReadDocumentKey r;
          (batch_id, r) \<leftarrow> ReadBatchId r;
          r \<leftarrow> ReadTerminator r;
          Some (rok r, user_id, document_key, batch_id) }"

definition MutationQueueKey_KeyPrefix :: "bytes option" where
  "MutationQueueKey_KeyPrefix =
     WriteTableName kMutationQueuesTable []"

definition MutationQueueKey_Key :: "bytes \<Rightarrow> bytes option" where
  "MutationQueueKey_Key user_id =
     do { w \<leftarrow> WriteTableName kMutationQueuesTable [];
          w \<leftarrow> WriteUserId user_id w;
          WriteTerminator w }"

definition MutationQueueKey_Decode :: "bytes \<Rightarrow> (bool \<times> bytes) option" where
  "MutationQueueKey_Decode key =
     do { r \<leftarrow> ReadTableNameMatching kMutationQueuesTable (Reader key);
          (user_id, r) \<leftarrow> ReadUserId r;
          r \<leftarrow> ReadTerminator r;
          Some (rok r, user_id) }"

definition TargetGlobalKey_Key :: "bytes option" where
  "TargetGlobalKey_Key =
     do { w \<leftarrow> WriteTableName kTargetGlobalTable [];
          WriteTerminator w }"

definition TargetGlobalKey_Decode :: "bytes \<Rightarrow> (bool) option" where
  "TargetGlobalKey_Decode key =
     do { r \<leftarrow> ReadTableNameMatching kTargetGlobalTable (Reader key);
          r \<leftarrow> ReadTerminator r;
          Some (rok r) }"

definition TargetKey_KeyPrefix :: "bytes option" where
  "TargetKey_KeyPrefix =
     WriteTableName kTargetsTable []"

definition TargetKey_Key :: "u32 \<Rightarrow> bytes option" where
  "TargetKey_Key target_id =
     do { w \<leftarrow> WriteTableName kTargetsTable [];
          w \<leftarrow> WriteTargetId target_id w;
          WriteTerminator w }"

definition TargetKey_Decode :: "bytes \<Rightarrow> (bool \<times> u32) option" where
  "TargetKey_Decode key =
     do { r \<leftarrow> ReadTableNameMatching kTargetsTable (Reader key);
          (target_id, r) \<leftarrow> ReadTargetId r;
          r \<leftarrow> ReadTerminator r;
          Some (rok r, target_id) }"

definition QueryTargetKey_KeyPrefix :: "bytes option" where
  "QueryTargetKey_KeyPrefix =
     WriteTableName kQueryTargetsTable []"

definition QueryTargetKey_KeyPrefixCanonical :: "bytes \<Rightarrow> bytes option" where
  "QueryTargetKey_KeyPrefixCanonical canonical_id =
     do { w \<leftarrow> WriteTableName kQueryTargetsTable [];
          WriteCanonicalId canonical_id w }"

definition QueryTargetKey_Key :: "bytes \<Rightarrow> u32 \<Rightarrow> bytes option" where
  "QueryTargetKey_Key canonical_id target_id =
     do { w \<leftarrow> WriteTableName kQueryTargetsTable [];
          w \<leftarrow> WriteCanonicalId canonical_id w;
          w \<leftarrow> WriteTargetId target_id w;
          WriteTerminator w }"

definition QueryTargetKey_Decode :: "bytes \<Rightarrow> (bool \<times> bytes \<times> u32) option" where
  "QueryTargetKey_Decode key =
     do { r \<leftarrow> ReadTableNameMatching kQueryTargetsTable (Reader key);
          (canonical_id, r) \<leftarrow> ReadCanonicalId r;
          (target_id, r) \<leftarrow> ReadTargetId r;
          r \<leftarrow> ReadTerminator r;
          Some (rok r, canonical_id, target_id) }"

definition TargetDocumentKey_KeyPrefix :: "bytes option" where
  "TargetDocumentKey_KeyPrefix =
     WriteTableName kTargetDocumentsTable []"

definition TargetDocumentKey_KeyPrefixTarget :: "u32 \<Rightarrow> bytes option" where
  "TargetDocumentKey_KeyPrefixTarget target_id =
     do { w \<leftarrow> WriteTableName kTargetDocumentsTable [];
          WriteTargetId target_id w }"

definition TargetDocumentKey_Key :: "u32 \<Rightarrow> path \<Rightarrow> bytes option" where
  "TargetDocumentKey_Key target_id document_key =
     do { w \<leftarrow> WriteTableName kTargetDocumentsTable [];
          w \<leftarrow> WriteTargetId target_id w;
          w \<leftarrow> WriteResourcePath document_key w;
          WriteTerminator w }"

definition TargetDocumentKey_Decode :: "bytes \<Rightarrow> (bool \<times> u32 \<times> path) option" where
  "TargetDocumentKey_Decode key =
     do { r \<leftarrow> ReadTableNameMatching kTargetDocumentsTable (Reader key);
          (target_id, r) \<leftarrow> ReadTargetId r;
          (document_key, r) \<leftarrow> ReadDocumentKey r;
          r \<leftarrow> ReadTerminator r;
          Some (rok r, target_id, document_key) }"

definition DocumentTargetKey_KeyPrefix :: "bytes option" where
  "DocumentTargetKey_KeyPrefix =
     WriteTableName kDocumentTargetsTable []"

definition DocumentTargetKey_KeyPrefixPath :: "path \<Rightarrow> bytes option" where
  "DocumentTargetKey_KeyPrefixPath path =
     do { w \<leftarrow> WriteTableName kDocumentTargetsTable [];
          WriteResourcePath path w }"

definition DocumentTargetKey_Key :: "path \<Rightarrow> u32 \<Rightarrow> bytes option" where
  "DocumentTargetKey_Key document_key target_id =
     do { w \<leftarrow> WriteTableName kDocumentTargetsTable [];
          w \<leftarrow> WriteResourcePath document_key w;
          w \<leftarrow> WriteTargetId target_id w;
          WriteTerminator w }"

definition DocumentTargetKey_Decode :: "bytes \<Rightarrow> (bool \<times> path \<times> u32) option" where
  "DocumentTargetKey_Decode key =
     do { r \<leftarrow> ReadTableNameMatching kDocumentTargetsTable (Reader key);
          (document_key, r) \<leftarrow> ReadDocumentKey r;
          (target_id, r) \<leftarrow> ReadTargetId r;
          r \<leftarrow> ReadTerminator r;
          Some (rok r, document_key, target_id) }"

definition kInvalidTargetId :: u32 where
  "kInvalidTargetId = 0"

definition SentinelKey :: "path \<Rightarrow> bytes option" where
  "SentinelKey document_key = DocumentTargetKey_Key document_key kInvalidTargetId"

definition EncodeSentinelValue :: "u64 \<Rightarrow> bytes option" where
  "EncodeSentinelValue sequence_number = WriteSignedNumIncreasing [] sequence_number"

definition DecodeSentinelValue :: "bytes \<Rightarrow> u64 option" where
  "DecodeSentinelValue val_str =
     (case ReadSignedNumIncreasing val_str (Some 0) of
        Some (True, rest, decoded) \<Rightarrow> decoded
      | _ \<Rightarrow> None)"

definition RemoteDocumentKey_KeyPrefix :: "bytes option" where
  "RemoteDocumentKey_KeyPrefix =
     WriteTableName kRemoteDocumentsTable []"

definition RemoteDocumentKey_KeyPrefixPath :: "path \<Rightarrow> bytes option" where
  "RemoteDocumentKey_KeyPrefixPath path =
     do { w \<leftarrow> WriteTableName kRemoteDocumentsTable [];
          WriteResourcePath path w }"

definition RemoteDocumentKey_Key :: "path \<Rightarrow> bytes option" where
  "RemoteDocumentKey_Key document_key =
     do { w \<leftarrow> WriteTableName kRemoteDocumentsTable [];
          w \<leftarrow> WriteResourcePath document_key w;
          WriteTerminator w }"

definition RemoteDocumentKey_Decode :: "bytes \<Rightarrow> (bool \<times> path) option" where
  "RemoteDocumentKey_Decode key =
     do { r \<leftarrow> ReadTableNameMatching kRemoteDocumentsTable (Reader key);
          (document_key, r) \<leftarrow> ReadDocumentKey r;
          r \<leftarrow> ReadTerminator r;
          Some (rok r, document_key) }"

definition CollectionParentKey_KeyPrefix :: "bytes option" where
  "CollectionParentKey_KeyPrefix =
     WriteTableName kCollectionParentsTable []"

definition CollectionParentKey_KeyPrefixCollection :: "bytes \<Rightarrow> bytes option" where
  "CollectionParentKey_KeyPrefixCollection collection_id =
     do { w \<leftarrow> WriteTableName kCollectionParentsTable [];
          WriteCollectionId collection_id w }"

definition CollectionParentKey_Key :: "bytes \<Rightarrow> path \<Rightarrow> bytes option" where
  "CollectionParentKey_Key collection_id path =
     do { w \<leftarrow> WriteTableName kCollectionParentsTable [];
          w \<leftarrow> WriteCollectionId collection_id w;
          w \<leftarrow> WriteResourcePath path w;
          WriteTerminator w }"

definition CollectionParentKey_Decode :: "bytes \<Rightarrow> (bool \<times> bytes \<times> path) option" where
  "CollectionParentKey_Decode key =
     do { r \<leftarrow> ReadTableNameMatching kCollectionParentsTable (Reader key);
          (collection_id, r) \<leftarrow> ReadCollectionId r;
          (path, r) \<leftarrow> ReadResourcePath r;
          r \<leftarrow> ReadTerminator r;
          Some (rok r, collection_id, path) }"

definition RemoteDocumentReadTimeKey_KeyPrefixPathVersion :: "path \<Rightarrow> timestamp \<Rightarrow> bytes option" where
  "RemoteDocumentReadTimeKey_KeyPrefixPathVersion path read_time =
     do { w \<leftarrow> WriteTableName kRemoteDocumentReadTimeTable [];
          w \<leftarrow> WriteResourcePath path w;
          WriteSnapshotVersion read_time w }"

definition RemoteDocumentReadTimeKey_Key :: "path \<Rightarrow> timestamp \<Rightarrow> bytes \<Rightarrow> bytes option" where
  "RemoteDocumentReadTimeKey_Key path read_time document_id =
     do { w \<leftarrow> WriteTableName kRemoteDocumentReadTimeTable [];
          w \<leftarrow> WriteResourcePath path w;
          w \<leftarrow> WriteSnapshotVersion read_time w;
          w \<leftarrow> WriteDocumentId document_id w;
          WriteTerminator w }"

definition RemoteDocumentReadTimeKey_Decode :: "bytes \<Rightarrow> (bool \<times> path \<times> timestamp \<times> bytes) option" where
  "RemoteDocumentReadTimeKey_Decode key =
     do { r \<leftarrow> ReadTableNameMatching kRemoteDocumentReadTimeTable (Reader key);
          (path, r) \<leftarrow> ReadResourcePath r;
          (read_time, r) \<leftarrow> ReadSnapshotVersion r;
          (document_id, r) \<leftarrow> ReadDocumentId r;
          r \<leftarrow> ReadTerminator r;
          Some (rok r, path, read_time, document_id) }"

end
