(* ===== verification/LevelDbKeySpec.thy ===== *)
theory LevelDbKeySpec
  imports LevelDbKey
begin

text \<open>
  What the database relies on in its keys. Every key is the concatenation of the codes of its
  components, so that decoding inverts encoding, rows are stored in the order of the values of
  their keys, and the rows between a prefix and its successor are those that match the prefix.
\<close>

section \<open>The codes of keys\<close>

definition label_string :: "u64 \<Rightarrow> bytes \<Rightarrow> bytes" where
  "label_string label s = signed_code label @ string_code s"

definition label_int :: "u64 \<Rightarrow> u32 \<Rightarrow> bytes" where
  "label_int label v = signed_code label @ signed_code (scast v)"

definition path_code :: "path \<Rightarrow> bytes" where
  "path_code p = concat (map (label_string PathSegment) p)"

definition version_code :: "timestamp \<Rightarrow> bytes" where
  "version_code t = signed_code SnapshotVersion @ signed_code (fst t) @ signed_code (scast (snd t))"

lemma WriteResourcePath_spec: "WriteResourcePath p dest = Some (dest @ path_code p)"
  by (induction p arbitrary: dest)
    (simp_all add: WriteComponentLabel_def WriteSignedNumIncreasing_spec WriteString_spec path_code_def label_string_def)

lemmas writer_specs =
  WriteTableName_def WriteUserId_def WriteBatchId_def WriteTargetId_def WriteCanonicalId_def WriteCollectionId_def
  WriteDocumentId_def WriteLabeledString_def WriteLabeledInt32_def WriteComponentLabel_def WriteTerminator_def
  WriteSnapshotVersion_def WriteSignedNumIncreasing_spec WriteString_spec WriteResourcePath_spec
  label_string_def label_int_def version_code_def

lemmas key_defs =
  VersionKey_Key_def MutationKey_KeyPrefix_def MutationKey_KeyPrefixUser_def MutationKey_Key_def
  DocumentMutationKey_KeyPrefix_def DocumentMutationKey_KeyPrefixUser_def DocumentMutationKey_KeyPrefixUserPath_def
  DocumentMutationKey_Key_def MutationQueueKey_KeyPrefix_def MutationQueueKey_Key_def TargetGlobalKey_Key_def
  TargetKey_KeyPrefix_def TargetKey_Key_def QueryTargetKey_KeyPrefix_def QueryTargetKey_KeyPrefixCanonical_def
  QueryTargetKey_Key_def TargetDocumentKey_KeyPrefix_def TargetDocumentKey_KeyPrefixTarget_def TargetDocumentKey_Key_def
  DocumentTargetKey_KeyPrefix_def DocumentTargetKey_KeyPrefixPath_def DocumentTargetKey_Key_def
  RemoteDocumentKey_KeyPrefix_def RemoteDocumentKey_KeyPrefixPath_def RemoteDocumentKey_Key_def
  CollectionParentKey_KeyPrefix_def CollectionParentKey_KeyPrefixCollection_def CollectionParentKey_Key_def
  RemoteDocumentReadTimeKey_KeyPrefixPathVersion_def RemoteDocumentReadTimeKey_Key_def

lemma key_codes:
  "MutationKey_Key user batch = Some (label_string TableName kMutationsTable @ label_string UserId user
     @ label_int BatchId batch @ signed_code Terminator)"
  "DocumentMutationKey_Key user key batch = Some (label_string TableName kDocumentMutationsTable
     @ label_string UserId user @ path_code key @ label_int BatchId batch @ signed_code Terminator)"
  "MutationQueueKey_Key user = Some (label_string TableName kMutationQueuesTable @ label_string UserId user
     @ signed_code Terminator)"
  "TargetGlobalKey_Key = Some (label_string TableName kTargetGlobalTable @ signed_code Terminator)"
  "TargetKey_Key target = Some (label_string TableName kTargetsTable @ label_int TargetId target @ signed_code Terminator)"
  "QueryTargetKey_Key canon target = Some (label_string TableName kQueryTargetsTable @ label_string CanonicalId canon
     @ label_int TargetId target @ signed_code Terminator)"
  "TargetDocumentKey_Key target key = Some (label_string TableName kTargetDocumentsTable @ label_int TargetId target
     @ path_code key @ signed_code Terminator)"
  "DocumentTargetKey_Key key target = Some (label_string TableName kDocumentTargetsTable @ path_code key
     @ label_int TargetId target @ signed_code Terminator)"
  "RemoteDocumentKey_Key key = Some (label_string TableName kRemoteDocumentsTable @ path_code key @ signed_code Terminator)"
  "CollectionParentKey_Key coll p = Some (label_string TableName kCollectionParentsTable @ label_string CollectionId coll
     @ path_code p @ signed_code Terminator)"
  "RemoteDocumentReadTimeKey_Key p time doc = Some (label_string TableName kRemoteDocumentReadTimeTable @ path_code p
     @ version_code time @ label_string DocumentId doc @ signed_code Terminator)"
  by (simp_all add: key_defs writer_specs)

section \<open>Reading what was written\<close>

lemma sint_scast_u64: "sint (scast v :: u64) = sint v" for v :: u32
  by (rule sint_up_scast) (simp add: is_up)

lemma ucast_scast_u32: "ucast (scast v :: u64) = v" for v :: u32
proof (rule bit_word_eqI)
  fix n
  assume "n < LENGTH(32)"
  then consider "n = 31" | "n < 31" by fastforce
  then show "bit (ucast (scast v :: u64) :: u32) n \<longleftrightarrow> bit v n"
    by cases (simp_all add: bit_unsigned_iff bit_signed_iff)
qed

lemma int32_fits: "- 0x80000000 \<le>s (scast v :: u64)" "(scast v :: u64) \<le>s 0x7fffffff" for v :: u32
  using sint_ge [of v] sint_lt [of v] by (simp_all add: word_sle_eq sint_scast_u64)

lemma ReadSigned_on:
  "Reader_ReadSigned \<lparr>rsrc = signed_code v @ rest, rok = True\<rparr> = Some (v, \<lparr>rsrc = rest, rok = True\<rparr>)"
  by (simp add: Reader_ReadSigned_def ReadSignedNumIncreasing_code)

lemma ReadString_on:
  "Reader_ReadString \<lparr>rsrc = string_code s @ rest, rok = True\<rparr> = Some (s, \<lparr>rsrc = rest, rok = True\<rparr>)"
  by (simp add: Reader_ReadString_def ReadString_code)

lemma Matching_on:
  "ReadComponentLabelMatching l \<lparr>rsrc = signed_code v @ rest, rok = True\<rparr> = Some (v = l, \<lparr>rsrc = rest, rok = True\<rparr>)"
  by (simp add: ReadComponentLabelMatching_def ReadSigned_on)

lemma ReadInt32_on:
  "ReadInt32 \<lparr>rsrc = signed_code (scast v) @ rest, rok = True\<rparr> = Some (v, \<lparr>rsrc = rest, rok = True\<rparr>)"
  by (simp add: ReadInt32_def ReadSigned_on int32_fits ucast_scast_u32)

lemma label_reads_on:
  "ReadLabeledString l \<lparr>rsrc = label_string l s @ rest, rok = True\<rparr> = Some (s, \<lparr>rsrc = rest, rok = True\<rparr>)"
  "ReadLabeledInt32 l \<lparr>rsrc = label_int l v @ rest, rok = True\<rparr> = Some (v, \<lparr>rsrc = rest, rok = True\<rparr>)"
  by (simp_all add: ReadLabeledString_def ReadLabeledInt32_def label_string_def label_int_def Matching_on ReadString_on ReadInt32_on)

lemma ReadTableName_on:
  "ReadTableNameMatching t \<lparr>rsrc = label_string TableName s @ rest, rok = True\<rparr> = Some \<lparr>rsrc = rest, rok = (s = t)\<rparr>"
  by (simp add: ReadTableNameMatching_def ReadLabeledStringMatching_def label_reads_on Fail_def)

lemma ReadTerminator_on:
  "ReadTerminator \<lparr>rsrc = signed_code Terminator @ rest, rok = True\<rparr> = Some \<lparr>rsrc = rest, rok = True\<rparr>"
  by (simp add: ReadTerminator_def Matching_on)

lemma signed_code_ne: "signed_code v \<noteq> []"
  using ReadSignedNumIncreasing_code [of v "[]" "Some 0"] by (auto simp: ReadSignedNumIncreasing_def)

lemma read_path_on:
  assumes "l \<noteq> PathSegment"
  shows "read_path \<lparr>rsrc = path_code p @ signed_code l @ rest, rok = True\<rparr> segs
    = Some (segs @ p, \<lparr>rsrc = signed_code l @ rest, rok = True\<rparr>)"
proof (induction p arbitrary: segs)
  case Nil
  show ?case
    using assms by (subst read_path.simps) (simp add: reader_empty_def path_code_def Matching_on Let_def signed_code_ne)
next
  case (Cons s p)
  have "path_code (s # p) @ signed_code l @ rest
    = signed_code PathSegment @ string_code s @ path_code p @ signed_code l @ rest"
    by (simp add: path_code_def label_string_def)
  with Cons [of "segs @ [s]"] show ?case
    by (subst read_path.simps) (simp add: reader_empty_def Matching_on ReadString_on Let_def signed_code_ne)
qed

lemma ReadResourcePath_on:
  "l \<noteq> PathSegment \<Longrightarrow> ReadResourcePath \<lparr>rsrc = path_code p @ signed_code l @ rest, rok = True\<rparr>
     = Some (p, \<lparr>rsrc = signed_code l @ rest, rok = True\<rparr>)"
  by (simp add: ReadResourcePath_def read_path_on)

lemma ReadDocumentKey_on:
  "l \<noteq> PathSegment \<Longrightarrow> p \<noteq> [] \<Longrightarrow> IsDocumentKey p \<Longrightarrow>
     ReadDocumentKey \<lparr>rsrc = path_code p @ signed_code l @ rest, rok = True\<rparr>
     = Some (p, \<lparr>rsrc = signed_code l @ rest, rok = True\<rparr>)"
  by (simp add: ReadDocumentKey_def ReadResourcePath_on DocumentKey_def)

lemma ReadSnapshotVersion_on:
  "ValidateBounds t \<Longrightarrow> ReadSnapshotVersion \<lparr>rsrc = version_code t @ rest, rok = True\<rparr>
     = Some (t, \<lparr>rsrc = rest, rok = True\<rparr>)"
  by (simp add: ReadSnapshotVersion_def version_code_def Matching_on ReadInt64_def ReadSigned_on ReadInt32_on)

lemmas label_defs = Terminator_def TableName_def BatchId_def CanonicalId_def TargetId_def UserId_def CollectionId_def
  DocumentId_def SnapshotVersion_def PathSegment_def Unknown_def

lemma labels_not_path:
  "Terminator \<noteq> PathSegment" "BatchId \<noteq> PathSegment" "TargetId \<noteq> PathSegment" "SnapshotVersion \<noteq> PathSegment"
  by (simp_all add: label_defs)

lemma path_label_on:
  "l \<noteq> PathSegment \<Longrightarrow> p \<noteq> [] \<Longrightarrow> IsDocumentKey p \<Longrightarrow>
     ReadDocumentKey \<lparr>rsrc = path_code p @ label_int l v @ rest, rok = True\<rparr>
     = Some (p, \<lparr>rsrc = label_int l v @ rest, rok = True\<rparr>)"
  "ReadResourcePath \<lparr>rsrc = path_code p @ version_code t @ rest, rok = True\<rparr>
     = Some (p, \<lparr>rsrc = version_code t @ rest, rok = True\<rparr>)"
  using labels_not_path
  by (simp_all add: label_int_def version_code_def ReadDocumentKey_on ReadResourcePath_on)

lemma reader_names_on:
  "ReadUserId = ReadLabeledString UserId" "ReadBatchId = ReadLabeledInt32 BatchId"
  "ReadCanonicalId = ReadLabeledString CanonicalId" "ReadTargetId = ReadLabeledInt32 TargetId"
  "ReadCollectionId = ReadLabeledString CollectionId" "ReadDocumentId = ReadLabeledString DocumentId"
  by (simp_all add: ReadUserId_def ReadBatchId_def ReadCanonicalId_def ReadTargetId_def ReadCollectionId_def ReadDocumentId_def)

lemmas reads_on = Reader_def reader_names_on label_reads_on ReadTableName_on ReadTerminator_on path_label_on
  ReadDocumentKey_on ReadResourcePath_on ReadSnapshotVersion_on labels_not_path

lemmas decode_defs = MutationKey_Decode_def DocumentMutationKey_Decode_def MutationQueueKey_Decode_def
  TargetGlobalKey_Decode_def TargetKey_Decode_def QueryTargetKey_Decode_def TargetDocumentKey_Decode_def
  DocumentTargetKey_Decode_def RemoteDocumentKey_Decode_def CollectionParentKey_Decode_def
  RemoteDocumentReadTimeKey_Decode_def

text \<open>
  C6: Every key of the local store comes back from \<open>Decode\<close> with the values it was built from, for
  every table, whatever strings, paths and numbers these are and whatever bytes follow the key.
  Document keys must be non-empty, and the read time a timestamp that \<open>Timestamp\<close> accepts.
\<close>
theorem keys_round_trip:
  assumes "key \<noteq> []" "IsDocumentKey key" "ValidateBounds time"
  shows "Option.bind (MutationKey_Key user batch) (\<lambda>k. MutationKey_Decode (k @ rest)) = Some (True, user, batch)
    \<and> Option.bind (DocumentMutationKey_Key user key batch) (\<lambda>k. DocumentMutationKey_Decode (k @ rest)) = Some (True, user, key, batch)
    \<and> Option.bind (MutationQueueKey_Key user) (\<lambda>k. MutationQueueKey_Decode (k @ rest)) = Some (True, user)
    \<and> Option.bind TargetGlobalKey_Key (\<lambda>k. TargetGlobalKey_Decode (k @ rest)) = Some True
    \<and> Option.bind (TargetKey_Key target) (\<lambda>k. TargetKey_Decode (k @ rest)) = Some (True, target)
    \<and> Option.bind (QueryTargetKey_Key canon target) (\<lambda>k. QueryTargetKey_Decode (k @ rest)) = Some (True, canon, target)
    \<and> Option.bind (TargetDocumentKey_Key target key) (\<lambda>k. TargetDocumentKey_Decode (k @ rest)) = Some (True, target, key)
    \<and> Option.bind (DocumentTargetKey_Key key target) (\<lambda>k. DocumentTargetKey_Decode (k @ rest)) = Some (True, key, target)
    \<and> Option.bind (RemoteDocumentKey_Key key) (\<lambda>k. RemoteDocumentKey_Decode (k @ rest)) = Some (True, key)
    \<and> Option.bind (CollectionParentKey_Key coll p) (\<lambda>k. CollectionParentKey_Decode (k @ rest)) = Some (True, coll, p)
    \<and> Option.bind (RemoteDocumentReadTimeKey_Key p time doc) (\<lambda>k. RemoteDocumentReadTimeKey_Decode (k @ rest))
        = Some (True, p, time, doc)"
  using assms by (intro conjI) (simp_all add: key_codes decode_defs reads_on)

theorem keys_round_trip_witness:
  "Option.bind (DocumentMutationKey_Key [117] [[97], [98, 0]] 7) DocumentMutationKey_Decode = Some (True, [117], [[97], [98, 0]], 7)
    \<and> Option.bind (RemoteDocumentReadTimeKey_Key [[97]] (1, 2) [98]) (\<lambda>k. RemoteDocumentReadTimeKey_Decode (k @ [9]))
      = Some (True, [[97]], (1, 2), [98])"
  using keys_round_trip [of "[[97], [98, 0]]" "(1, 2)" "[117]" 7 "[]" 0 "[]" "[]" "[]" "[]"]
    keys_round_trip [of "[[97], [98, 0]]" "(1, 2)" "[117]" 7 "[9]" 0 "[]" "[]" "[[97]]" "[98]"]
  by (simp add: IsDocumentKey_def ValidateBounds_def kNanosPerSecond_def word_sle_eq word_sless_alt)

section \<open>The order of keys\<close>

text \<open>A key is a sequence of items, to which the order theorem of the encoding applies.\<close>

definition path_items :: "path \<Rightarrow> item list" where
  "path_items p = concat (map (\<lambda>s. [SignedNum PathSegment, Str s]) p)"

lemma path_items_simps [simp]:
  "path_items [] = []" "path_items (s # p) = SignedNum PathSegment # Str s # path_items p"
  by (simp_all add: path_items_def)

lemma path_code_items: "path_code p = concat (map item_code (path_items p))"
  by (induction p) (simp_all add: path_code_def label_string_def)

lemma item_code_ne: "item_code i \<noteq> []"
  by (cases i rule: item_code.cases) (simp_all add: string_code_def num_code_def signed_code_ne)

lemma items_less_codes:
  "items_less as bs \<Longrightarrow> bytes_less (concat (map item_code as)) (concat (map item_code bs))"
proof (induction as bs rule: items_less.induct)
  case (1 a as b bs)
  then show ?case by (auto simp: precedes_less(1) [OF item_smaller] bytes_less_prefix)
next
  case (2 b bs)
  then show ?case using item_code_ne [of b] by (cases "item_code b") auto
qed auto

lemma bytes_less_asym: "bytes_less a b \<Longrightarrow> \<not> bytes_less b a"
  using bytes_less_trans [of a b a] bytes_less_irrefl by blast

text \<open>Of two sequences that differ, one is before the other, so that the order is exact.\<close>

lemma items_less_exact:
  assumes "as = bs \<or> items_less as bs \<or> items_less bs as"
  shows "bytes_less (concat (map item_code as)) (concat (map item_code bs)) \<longleftrightarrow> items_less as bs"
  using assms items_less_codes [of as bs] items_less_codes [of bs as] bytes_less_irrefl bytes_less_asym by blast

text \<open>Two paths, each followed by a component whose label comes before that of a path segment.\<close>

lemma path_items_less:
  assumes "l <s PathSegment" "k <s PathSegment"
  shows "items_less (path_items p @ SignedNum l # as) (path_items q @ SignedNum k # bs) \<longleftrightarrow>
     path_CompareTo p q = Ascending \<or> p = q \<and> items_less (SignedNum l # as) (SignedNum k # bs)"
proof (induction p q rule: list_induct2')
  case 1
  then show ?case by (simp add: path_CompareTo_def)
next
  case (2 x xs)
  have "\<not> PathSegment <s k" using assms(2) by (simp add: word_sless_alt)
  with assms(2) show ?case by (auto simp: path_CompareTo_def)
next
  case (3 y ys)
  with assms(1) show ?case by (simp add: path_CompareTo_def)
next
  case (4 x xs y ys)
  then show ?case by (auto simp: path_CompareTo_def Let_def bytes_less_irrefl word_sless_alt)
qed

lemma labels_before_path:
  "Terminator <s PathSegment" "BatchId <s PathSegment" "TargetId <s PathSegment" "SnapshotVersion <s PathSegment"
  by (simp_all add: label_defs word_sless_alt)

lemma scast_sless: "(scast a :: u64) <s scast b \<longleftrightarrow> a <s b" for a b :: u32
  by (simp add: word_sless_alt sint_scast_u64)

lemma scast_eq_iff: "(scast a :: u64) = scast b \<longleftrightarrow> a = b" for a b :: u32
  using ucast_scast_u32 [of a] ucast_scast_u32 [of b] by metis

lemma num_irrefl [simp]: "\<not> v <s v" for v :: "'a :: len word"
  by (simp add: word_sless_alt)

definition row_before :: "bytes option \<Rightarrow> bytes option \<Rightarrow> bool" where
  "row_before a b \<longleftrightarrow> (\<exists>x y. a = Some x \<and> b = Some y \<and> CompareString x y = Ascending)"

definition string_items :: "u64 \<Rightarrow> bytes \<Rightarrow> item list" where
  "string_items label s = [SignedNum label, Str s]"

definition int_items :: "u64 \<Rightarrow> u32 \<Rightarrow> item list" where
  "int_items label v = [SignedNum label, SignedNum (scast v)]"

text \<open>Two sequences of items that have items of one kind where they first differ.\<close>

fun comparable :: "item list \<Rightarrow> item list \<Rightarrow> bool" where
  "comparable (a # as) (b # bs) \<longleftrightarrow> kind_of a = kind_of b \<and> (a = b \<longrightarrow> comparable as bs)"
| "comparable _ _ \<longleftrightarrow> True"

lemma comparable_total: "comparable as bs \<Longrightarrow> as = bs \<or> items_less as bs \<or> items_less bs as"
proof (induction as bs rule: list_induct2')
  case (4 a as b bs)
  then show ?case using item_total [of a b] by auto
qed auto

lemma row_before_items:
  "comparable as bs \<Longrightarrow>
     row_before (Some (concat (map item_code as))) (Some (concat (map item_code bs))) \<longleftrightarrow> items_less as bs"
  using items_less_exact [OF comparable_total] by (simp add: row_before_def)

lemma row_before_prefix:
  assumes "comparable as bs"
  shows "row_before (Some (concat (map item_code (string_items l s @ as)))) (Some (concat (map item_code (string_items l s @ bs))))
    \<longleftrightarrow> items_less as bs"
  using row_before_items [of "string_items l s @ as" "string_items l s @ bs"] assms
  by (simp add: string_items_def item_irrefl)

lemma items_less_same [simp]: "\<not> items_less as as"
  by (induction as) (auto simp: item_irrefl)

lemma items_less_append: "items_less (cs @ as) (cs @ bs) \<longleftrightarrow> items_less as bs"
  by (induction cs) (auto simp: item_irrefl)

lemma items_less_string:
  "items_less (string_items l s @ as) (string_items l t @ bs) \<longleftrightarrow> CompareString s t = Ascending \<or> s = t \<and> items_less as bs"
  by (auto simp: string_items_def)

lemma items_less_int:
  "items_less (int_items l v @ as) (int_items l w @ bs) \<longleftrightarrow> v <s w \<or> v = w \<and> items_less as bs"
  by (auto simp: int_items_def scast_sless scast_eq_iff)

lemma items_less_path_int:
  "l <s PathSegment \<Longrightarrow>
     items_less (path_items p @ int_items l v @ as) (path_items q @ int_items l w @ bs) \<longleftrightarrow>
       path_CompareTo p q = Ascending \<or> p = q \<and> items_less (int_items l v @ as) (int_items l w @ bs)"
  by (simp add: int_items_def path_items_less)

lemma items_less_path_end:
  "items_less (path_items p @ [SignedNum Terminator]) (path_items q @ [SignedNum Terminator]) \<longleftrightarrow> path_CompareTo p q = Ascending"
  using path_items_less [OF labels_before_path(1) labels_before_path(1), of p "[]" q "[]"] by simp

lemmas items_less_rules = items_less_append items_less_string items_less_int items_less_path_end
  items_less_path_int [OF labels_before_path(2)] items_less_path_int [OF labels_before_path(3)]

lemma comparable_append: "comparable (cs @ as) (cs @ bs) \<longleftrightarrow> comparable as bs"
  by (induction cs) auto

lemma comparable_string: "comparable (string_items l s @ as) (string_items l t @ bs) \<longleftrightarrow> (s = t \<longrightarrow> comparable as bs)"
  by (auto simp: string_items_def)

lemma comparable_int: "comparable (int_items l v @ as) (int_items l w @ bs) \<longleftrightarrow> (v = w \<longrightarrow> comparable as bs)"
  by (auto simp: int_items_def scast_eq_iff)

lemma comparable_path:
  assumes "l \<noteq> PathSegment" "k \<noteq> PathSegment"
  shows "comparable (path_items p @ SignedNum l # as) (path_items q @ SignedNum k # bs) \<longleftrightarrow>
     (p = q \<longrightarrow> comparable (SignedNum l # as) (SignedNum k # bs))"
  using assms by (induction p q rule: list_induct2') auto

lemma comparable_path_int:
  "l \<noteq> PathSegment \<Longrightarrow>
     comparable (path_items p @ int_items l v @ as) (path_items q @ int_items l w @ bs) \<longleftrightarrow>
       (p = q \<longrightarrow> comparable (int_items l v @ as) (int_items l w @ bs))"
  by (auto simp: int_items_def comparable_path)

lemmas comparable_rules = comparable_append comparable_string comparable_int
  comparable_path_int [OF labels_not_path(2)] comparable_path_int [OF labels_not_path(3)]
  comparable_path [OF labels_not_path(1) labels_not_path(1)]

text \<open>The items of each key.\<close>

abbreviation end_items :: "item list" where
  "end_items \<equiv> [SignedNum Terminator]"

lemma key_items:
  "MutationKey_Key u m = Some (concat (map item_code
     (string_items TableName kMutationsTable @ string_items UserId u @ int_items BatchId m @ end_items)))"
  "DocumentMutationKey_Key u p m = Some (concat (map item_code
     (string_items TableName kDocumentMutationsTable @ string_items UserId u @ path_items p @ int_items BatchId m @ end_items)))"
  "TargetDocumentKey_Key t p = Some (concat (map item_code
     (string_items TableName kTargetDocumentsTable @ int_items TargetId t @ path_items p @ end_items)))"
  "DocumentTargetKey_Key p t = Some (concat (map item_code
     (string_items TableName kDocumentTargetsTable @ path_items p @ int_items TargetId t @ end_items)))"
  "RemoteDocumentKey_Key p = Some (concat (map item_code
     (string_items TableName kRemoteDocumentsTable @ path_items p @ end_items)))"
  by (simp_all add: key_codes path_code_items label_string_def label_int_def string_items_def int_items_def)

lemma key_rows:
  "row_before (MutationKey_Key u m) (MutationKey_Key u' m') \<longleftrightarrow>
     items_less (string_items UserId u @ int_items BatchId m @ end_items)
       (string_items UserId u' @ int_items BatchId m' @ end_items)"
  "row_before (DocumentMutationKey_Key u p m) (DocumentMutationKey_Key u' p' m') \<longleftrightarrow>
     items_less (string_items UserId u @ path_items p @ int_items BatchId m @ end_items)
       (string_items UserId u' @ path_items p' @ int_items BatchId m' @ end_items)"
  "row_before (TargetDocumentKey_Key t p) (TargetDocumentKey_Key t' p') \<longleftrightarrow>
     items_less (int_items TargetId t @ path_items p @ end_items) (int_items TargetId t' @ path_items p' @ end_items)"
  "row_before (DocumentTargetKey_Key p t) (DocumentTargetKey_Key p' t') \<longleftrightarrow>
     items_less (path_items p @ int_items TargetId t @ end_items) (path_items p' @ int_items TargetId t' @ end_items)"
  "row_before (RemoteDocumentKey_Key p) (RemoteDocumentKey_Key p') \<longleftrightarrow>
     items_less (path_items p @ end_items) (path_items p' @ end_items)"
  unfolding key_items by (rule row_before_prefix, simp add: comparable_rules)+

text \<open>
  C5: Rows are stored in the order of their keys' values. Comparing two encoded keys of a table as
  byte strings, as the database does, compares their values field by field: users bytewise, batch
  and target ids as signed numbers, document paths segment by segment with a document before the
  documents below it, in the order in which document keys compare.
\<close>
theorem rows_in_key_order:
  "(row_before (MutationKey_Key u m) (MutationKey_Key u' m') \<longleftrightarrow>
      CompareString u u' = Ascending \<or> u = u' \<and> m <s m')
    \<and> (row_before (DocumentMutationKey_Key u p m) (DocumentMutationKey_Key u' p' m') \<longleftrightarrow>
      CompareString u u' = Ascending \<or> u = u' \<and> (key_CompareTo p p' = Ascending \<or> p = p' \<and> m <s m'))
    \<and> (row_before (TargetDocumentKey_Key t p) (TargetDocumentKey_Key t' p') \<longleftrightarrow>
      t <s t' \<or> t = t' \<and> key_CompareTo p p' = Ascending)
    \<and> (row_before (DocumentTargetKey_Key p t) (DocumentTargetKey_Key p' t') \<longleftrightarrow>
      key_CompareTo p p' = Ascending \<or> p = p' \<and> t <s t')
    \<and> (row_before (RemoteDocumentKey_Key p) (RemoteDocumentKey_Key p') \<longleftrightarrow> key_CompareTo p p' = Ascending)"
  unfolding key_rows items_less_rules key_CompareTo_def by simp

section \<open>Scanning the rows under a prefix\<close>

lemma code_eq_iffs:
  "string_code a @ x = string_code b @ y \<longleftrightarrow> a = b \<and> x = y"
  "signed_code v @ x = signed_code w @ y \<longleftrightarrow> v = w \<and> x = y"
  using string_order.code_inject [of a x b y] signed_order.code_inject [of v x w y] by auto

lemma path_code_prefix:
  assumes "l \<noteq> PathSegment"
  shows "(\<exists>t. path_code q @ signed_code l @ x = path_code p @ t) \<longleftrightarrow> IsPrefixOf p q"
proof (induction p arbitrary: q)
  case Nil
  then show ?case by (simp add: path_code_def IsPrefixOf_def)
next
  case (Cons s p)
  show ?case
  proof (cases q)
    case Nil
    then show ?thesis using assms by (simp add: path_code_def label_string_def code_eq_iffs IsPrefixOf_def)
  next
    case q: (Cons s' q')
    have "path_code q @ signed_code l @ x = path_code (s # p) @ t \<longleftrightarrow>
        s' = s \<and> path_code q' @ signed_code l @ x = path_code p @ t" for t
      by (simp add: q path_code_def label_string_def code_eq_iffs)
    with Cons [of q'] show ?thesis by (auto simp: q IsPrefixOf_iff)
  qed
qed

text \<open>The rows between a prefix and its successor, as the database's iterators visit them.\<close>

definition row_in_scan :: "bytes option \<Rightarrow> bytes option \<Rightarrow> bool" where
  "row_in_scan pre row \<longleftrightarrow> (\<exists>p k. pre = Some p \<and> row = Some k \<and> CompareString k p \<noteq> Ascending
     \<and> (PrefixSuccessor p = [] \<or> CompareString k (PrefixSuccessor p) = Ascending))"

lemma row_in_scan_iff: "row_in_scan (Some p) (Some k) \<longleftrightarrow> (\<exists>t. k = p @ t)"
  using prefix_range [of k p] by (simp add: row_in_scan_def)

lemma prefix_codes:
  "MutationKey_KeyPrefixUser u = Some (label_string TableName kMutationsTable @ label_string UserId u)"
  "DocumentMutationKey_KeyPrefixUser u = Some (label_string TableName kDocumentMutationsTable @ label_string UserId u)"
  "DocumentMutationKey_KeyPrefixUserPath u p =
     Some (label_string TableName kDocumentMutationsTable @ label_string UserId u @ path_code p)"
  "TargetDocumentKey_KeyPrefixTarget t = Some (label_string TableName kTargetDocumentsTable @ label_int TargetId t)"
  "DocumentTargetKey_KeyPrefixPath p = Some (label_string TableName kDocumentTargetsTable @ path_code p)"
  "RemoteDocumentKey_KeyPrefixPath p = Some (label_string TableName kRemoteDocumentsTable @ path_code p)"
  by (simp_all add: key_defs writer_specs)

lemma label_eq_iffs:
  "label_string l s @ x = label_string l s' @ y \<longleftrightarrow> s = s' \<and> x = y"
  "label_int l v @ x = label_int l w @ y \<longleftrightarrow> v = w \<and> x = y"
  by (auto simp: label_string_def label_int_def code_eq_iffs scast_eq_iff)

lemmas row_prefix_rules = row_in_scan_iff prefix_codes key_codes label_eq_iffs append_assoc

text \<open>
  C7: A scan from a key prefix to its successor visits exactly the rows it is meant for: of the
  keys of the table those of the user, or of the target, or of the documents at or below the path
  - a path prefix never matches part of a segment.
\<close>
theorem scan_visits_matching_rows:
  "(row_in_scan (MutationKey_KeyPrefixUser u) (MutationKey_Key u' m) \<longleftrightarrow> u' = u)
    \<and> (row_in_scan (DocumentMutationKey_KeyPrefixUser u) (DocumentMutationKey_Key u' q m) \<longleftrightarrow> u' = u)
    \<and> (row_in_scan (DocumentMutationKey_KeyPrefixUserPath u p) (DocumentMutationKey_Key u' q m) \<longleftrightarrow> u' = u \<and> IsPrefixOf p q)
    \<and> (row_in_scan (TargetDocumentKey_KeyPrefixTarget t) (TargetDocumentKey_Key t' q) \<longleftrightarrow> t' = t)
    \<and> (row_in_scan (DocumentTargetKey_KeyPrefixPath p) (DocumentTargetKey_Key q t) \<longleftrightarrow> IsPrefixOf p q)
    \<and> (row_in_scan (RemoteDocumentKey_KeyPrefixPath p) (RemoteDocumentKey_Key q) \<longleftrightarrow> IsPrefixOf p q)"
  using path_code_prefix [OF labels_not_path(1), of q "[]" p]
    path_code_prefix [OF labels_not_path(2), of q "signed_code (scast m) @ signed_code Terminator" p]
    path_code_prefix [OF labels_not_path(3), of q "signed_code (scast t) @ signed_code Terminator" p]
  unfolding row_prefix_rules by (simp add: label_int_def)

end
