(* ===== verification/Spec2Isabelle.thy ===== *)
theory Spec2Isabelle
  imports Mem Oid CbbErrors SetOf Unicode Ber Base64 Stack Lhash BufMem PbRequired FirestoreValue PbMessage
    SortedMapSpec AppendList OrderedCode
    RefSet LevelDbKeySpec
begin

text \<open>
  \<^bold>\<open>A model of the data layers under the RomanWalk application.\<close>

  The application is an iOS program in Swift; the C family code of the repository is what it links from
  \<^verbatim>\<open>RomanWalk/Pods\<close>. This development models the layers of that code that turn bytes into structured data and
  back and on which the rest is built: BoringSSL's byte reader and builder with ASN.1 on top of them, its containers
  and text encodings; nanopb, the protocol buffer runtime of Firestore and of the Google data transport; and Firestore's
  own immutable containers and its encoding of database keys.
  Paths below are relative to \<^verbatim>\<open>src/RomanWalk/Pods/BoringSSL-GRPC/src/crypto\<close>,
  \<^verbatim>\<open>src/RomanWalk/Pods/nanopb\<close> and \<^verbatim>\<open>src/RomanWalk/Pods/FirebaseFirestore/Firestore/core/src\<close>.

  \<^bold>\<open>BoringSSL.\<close>
  \<^item> \<open>Prelude\<close>: byte strings, big- and little-endian values, writing into a buffer; lemmas shared by all theories.
  \<^item> \<open>Mem\<close> (\<^verbatim>\<open>mem.c\<close>): the allocator wrappers over an arbitrary \<open>malloc\<close>, and the string helpers.
  \<^item> \<open>Cbs\<close>, \<open>Asn1Parse\<close>, \<open>Asn1Types\<close> (\<^verbatim>\<open>bytestring/cbs.c\<close>): the reader. A \<^verbatim>\<open>CBS\<close> is the list of the bytes it covers,
    and a reader yields its result and the rest, on failure the rest that the C code leaves. \<open>Der\<close> is the
    specification: the DER encoding of tags, lengths and elements as byte strings. The reader accepts exactly
    the DER encodings.
  \<^item> \<open>Cbb\<close>, \<open>Asn1Build\<close> (\<^verbatim>\<open>bytestring/cbb.c\<close>): the builder, a shared buffer under a chain of pending children. The
    abstraction \<open>flushed\<close> is the byte string a builder stands for; flushing writes it or reports an error that
    sticks. \<open>Codec\<close> is the interface (locale \<open>wire_codec\<close>) of a writer and a reader that fit together, with an
    interpretation for each pair of the library. \<open>CbbErrors\<close>: after the first failure every addition and
    \<open>CBB_finish\<close> fail, so that results may be looked at late.
  \<^item> \<open>Oid\<close>, \<open>SetOf\<close> (with \<open>Qsort\<close>), \<open>Unicode\<close> (\<^verbatim>\<open>bytestring/unicode.c\<close>), \<open>Ber\<close> (\<^verbatim>\<open>bytestring/ber.c\<close> and
    \<^verbatim>\<open>asn1_compat.c\<close>): clients of reader and builder. \<open>CBB_flush_asn1_set_of\<close> re-reads what was built and sorts it.
  \<^item> \<open>ConstTime\<close> (\<^verbatim>\<open>internal.h\<close>) and its client \<open>Base64\<close> (\<^verbatim>\<open>base64/base64.c\<close>): block and streaming base64. The
    streams are related to a function of the whole text, so the way a text is cut into calls does not matter.
  \<^item> \<open>Stack\<close> (\<^verbatim>\<open>stack/stack.c\<close>), \<open>Lhash\<close> (\<^verbatim>\<open>lhash/lhash.c\<close>), \<open>BufMem\<close> (\<^verbatim>\<open>buf/buf.c\<close>): the containers, each
    related to an abstract value: a list, a finite map, a byte string.

  \<^bold>\<open>nanopb.\<close>
  \<^item> \<open>PbStream\<close>, \<open>PbWire\<close> (\<^verbatim>\<open>pb_decode.c\<close>) and \<open>PbOut\<close> (\<^verbatim>\<open>pb_encode.c\<close>): streams over memory or over a callback
    (the locales \<open>byte_source\<close> and \<open>byte_sink\<close>; Firestore's writers are interpretations), varints, tags,
    fixed-width values, skipping, substreams.
  \<^item> \<open>PbCodec\<close>: encoders and decoders of wire fields fit together (locale \<open>pb_codec\<close>).
  \<^item> \<open>PbScalar\<close>: the decoders and encoders of struct members on a flat memory of bytes, behind the tables
    \<open>PB_DECODERS\<close> and \<open>PB_ENCODERS\<close>.
  \<^item> \<open>PbIter\<close> (\<^verbatim>\<open>pb_common.c\<close> and parts of \<^verbatim>\<open>pb_decode.c\<close>): walking the fields of a message, default values, releasing;
    an iterator is always at a field of its table and a search is exact.
  \<^item> \<open>PbDecode\<close> (\<^verbatim>\<open>pb_decode.c\<close>, second part): \<open>pb_decode\<close> and all that it calls. \<open>PbSafe\<close>: on a message that is one
    struct without pointer, callback and extension fields it returns and writes only the struct, whatever the input. \<open>PbRequired\<close>: the required fields it insists on.
  \<^item> \<open>PbEncode\<close> (\<^verbatim>\<open>pb_encode.c\<close>, second part): \<open>pb_encode\<close> and all that it calls. \<open>PbSize\<close>: the size computed first is the
    size written, on every stream. \<open>PbMessage\<close>: messages of static numbers survive encoding and decoding.
  \<^item> \<open>FirestoreProto\<close>: the descriptors of Firestore's documents and values. \<open>FirestoreValue\<close>: a value that makes the
    decoder reallocate an address chosen by the message.

  \<^bold>\<open>Firestore.\<close>
  \<^item> \<open>Comparison\<close> (\<^verbatim>\<open>util/comparison.h\<close>): three-way comparators and what they must promise (locale \<open>key_order\<close>), ordered
    lists of entries as the specification of a map.
  \<^item> \<open>Llrb\<close>, \<open>LlrbErase\<close> (\<^verbatim>\<open>immutable/llrb_node.h\<close>): the left-leaning red-black tree. Insertion and removal keep the
    tree balanced, its sizes exact and its keys ascending, and act on the list of entries as they should.
  \<^item> \<open>TreeSearch\<close> (\<^verbatim>\<open>llrb_node_iterator.h\<close>, \<^verbatim>\<open>tree_sorted_map.h\<close>), \<open>SortedMap\<close> (\<^verbatim>\<open>array_sorted_map.h\<close>, \<^verbatim>\<open>sorted_map.h\<close>,
    \<^verbatim>\<open>sorted_map_iterator.h\<close>, \<^verbatim>\<open>keys_view.h\<close>, \<^verbatim>\<open>sorted_set.h\<close>): the map that is an array of up to 25 entries or a
    tree, its iterators, views and sets. \<open>SortedMapSpec\<close>: any history of operations gives the finite map it
    describes, the queries answer for that map, and searches take a logarithmic number of rounds. Sizes have 31 bits, so
    the theorems ask for room in them.
  \<^item> \<open>AppendList\<close> (\<^verbatim>\<open>immutable/append_only_list.h\<close>): lists that share vectors in a store and still behave as values.
  \<^item> \<open>BitScan\<close> (\<^verbatim>\<open>util/bits.h\<close>), \<open>OrderedString\<close>, \<open>OrderedNum\<close> (\<^verbatim>\<open>util/ordered_code.cc\<close>): the key encoding, each writer
    in closed form and each reader its inverse. \<open>OrderedCode\<close>: bytewise order of encoded keys is the order of the
    keys (locale \<open>ordered_code\<close>, interpreted on each type of item).
  \<item> \<open>Paths\<close> (\<^verbatim>\<open>model/base_path.h\<close>, \<^verbatim>\<open>resource_path.cc\<close>, \<^verbatim>\<open>document_key.cc\<close>, \<^verbatim>\<open>field_path.cc\<close>, \<^verbatim>\<open>util/string_util.cc\<close>):
    paths, document keys and field paths, their order, their text formats and the successor of a prefix.
  \<item> \<open>RefSet\<close> (\<^verbatim>\<open>local/reference_set.cc\<close>): document references in two sorted sets are the set of references that
    the history describes.
  \<item> \<open>LevelDbKey\<close> (\<^verbatim>\<open>local/leveldb_key.cc\<close>): the keys of every table of the local database. \<open>LevelDbKeySpec\<close>: decoding
    inverts encoding, rows are stored in the order of the values of their keys, and a scan under a prefix visits exactly
    the rows that match it.

  \<^bold>\<open>Conventions.\<close> \<^verbatim>\<open>size_t\<close> is a natural number with its wrap-around at \<open>2 ^ 64\<close> written out; integers that are
  computed with are words of their width; \<^verbatim>\<open>pb_size_t\<close> has 32 bits and \<^verbatim>\<open>malloc\<close> is enabled, as the project's
  build settings say. A function that stores through pointers yields what it stores. Allocators,
  callbacks and comparison functions are parameters. Loops are recursive functions with a termination proof;
  the recursion of \<open>cbs_convert_ber\<close> takes fuel, and any fuel above the length of the input is shown to be
  enough; the functions that follow pointers of a message in memory take fuel for each call, because nothing bounds
  them on a cyclic message. For decoding into a message of static members, twice the depth of its nesting is shown to be
  enough, and for the round trip of flat messages a fuel of 2.

  \<^bold>\<open>Not modelled.\<close> The rest of BoringSSL (numbers, ciphers, digests, X.509, TLS), gRPC, the rest of Firestore, abseil, leveldb
  and the generated protocol buffer tables other than those of documents are large layers of C++ and Objective-C objects, assembly and
  generated data above or beside the components modelled here; PROJECT.json lists them. Memory
  that is released has no observable value, so functions that only release memory are not definitions, except in nanopb,
  where releasing also changes the message. A failed \<^verbatim>\<open>HARD_ASSERT\<close> of Firestore ends the program: the model yields \<open>None\<close>.
\<close>

end
